(* ===== verification/Prelude.thy ===== *)
theory Prelude
  imports Main "HOL-Library.Monad_Syntax" "HOL-Library.Multiset" "HOL-Library.While_Combinator"
begin

text \<open>
  Shared vocabulary of the development: C integers with undefined behaviour on overflow,
  bounds-checked array accesses, the error numbers of \<open>errno.h\<close> that the code returns or
  tests, and generic facts on lists.

  Conventions used by every theory. A C function that can run into undefined behaviour (a null
  or dangling pointer, an index out of range, signed overflow) or that may not return is a HOL
  function into \<open>option\<close>: \<open>None\<close> is "no defined result". Return codes, including the negative
  error codes, are ordinary values. Output parameters are threaded through as extra arguments
  and results, so that "left unchanged" is visible. What a program prints is returned as a
  value.
\<close>

section \<open>Integers of C\<close>

definition INT_MAX :: int where
  "INT_MAX = 2147483647"

definition INT_MIN :: int where
  "INT_MIN = - 2147483648"

definition is_cint :: "int \<Rightarrow> bool" where
  "is_cint x \<longleftrightarrow> INT_MIN \<le> x \<and> x \<le> INT_MAX"

text \<open>A signed arithmetic result: undefined when it does not fit in an \<open>int\<close>.\<close>

definition cint :: "int \<Rightarrow> int option" where
  "cint x = (if is_cint x then Some x else None)"

text \<open>Division of C truncates towards zero; dividing by zero is undefined.\<close>

definition cdiv :: "int \<Rightarrow> int \<Rightarrow> int option" where
  "cdiv a b = (if b = 0 then None else cint (sgn a * sgn b * (\<bar>a\<bar> div \<bar>b\<bar>)))"

lemma cint_Some [simp]: "is_cint x \<Longrightarrow> cint x = Some x"
  by (simp add: cint_def)

lemma cint_eq_Some_iff: "cint x = Some y \<longleftrightarrow> is_cint x \<and> y = x"
  by (auto simp: cint_def)

lemmas cint_range = is_cint_def INT_MAX_def INT_MIN_def

section \<open>Error numbers\<close>

abbreviation EINTR :: int where "EINTR \<equiv> 4"
abbreviation EAGAIN :: int where "EAGAIN \<equiv> 11"
abbreviation ENOMEM :: int where "ENOMEM \<equiv> 12"
abbreviation EBUSY :: int where "EBUSY \<equiv> 16"
abbreviation EINVAL :: int where "EINVAL \<equiv> 22"
abbreviation ENOSPC :: int where "ENOSPC \<equiv> 28"
abbreviation ECANCELED :: int where "ECANCELED \<equiv> 125"

section \<open>Arrays\<close>

text \<open>An array is a list of its length; an access outside it has no defined result.\<close>

definition arr_get :: "'a list \<Rightarrow> int \<Rightarrow> 'a option" where
  "arr_get xs i = (if 0 \<le> i \<and> i < int (length xs) then Some (xs ! nat i) else None)"

definition arr_set :: "'a list \<Rightarrow> int \<Rightarrow> 'a \<Rightarrow> 'a list option" where
  "arr_set xs i v = (if 0 \<le> i \<and> i < int (length xs) then Some (xs[nat i := v]) else None)"

lemma arr_get_Some [simp]: "0 \<le> i \<Longrightarrow> i < int (length xs) \<Longrightarrow> arr_get xs i = Some (xs ! nat i)"
  by (simp add: arr_get_def)

lemma arr_set_Some [simp]:
  "0 \<le> i \<Longrightarrow> i < int (length xs) \<Longrightarrow> arr_set xs i v = Some (xs[nat i := v])"
  by (simp add: arr_set_def)

lemma arr_get_eq_Some:
  "arr_get xs i = Some v \<longleftrightarrow> 0 \<le> i \<and> i < int (length xs) \<and> v = xs ! nat i"
  by (auto simp: arr_get_def)

lemma arr_set_eq_Some:
  "arr_set xs i v = Some ys \<longleftrightarrow> 0 \<le> i \<and> i < int (length xs) \<and> ys = xs[nat i := v]"
  by (auto simp: arr_set_def)

lemma arr_get_int [simp]: "n < length xs \<Longrightarrow> arr_get xs (int n) = Some (xs ! n)"
  by (simp add: arr_get_def)

lemma arr_set_length: "arr_set xs i v = Some ys \<Longrightarrow> length ys = length xs"
  by (auto simp: arr_set_eq_Some)

section \<open>Indices modulo a capacity\<close>

lemma mod_succ_eq_0_iff: "0 \<le> d \<Longrightarrow> d < m \<Longrightarrow> (d + 1) mod m = 0 \<longleftrightarrow> d = m - 1" for d m :: int
  by (cases "d + 1 = m") auto

section \<open>Lists\<close>

lemma take_Suc_update [simp]: "n < length xs \<Longrightarrow> take (Suc n) (xs[n := v]) = take n xs @ [v]"
  by (simp add: take_Suc_conv_app_nth)

lemma last_take_Suc: "n < length xs \<Longrightarrow> last (take (Suc n) xs) = xs ! n"
  by (simp add: take_Suc_conv_app_nth)

lemma butlast_take_Suc: "n < length xs \<Longrightarrow> butlast (take (Suc n) xs) = take n xs"
  by (simp add: take_Suc_conv_app_nth)

section \<open>Loops\<close>

text \<open>
  A \<open>while\<close> loop of C over an explicit state. \<open>None\<close> when the body has no defined result or the
  loop never ends.
\<close>

partial_function (option) c_while ::
  "('s \<Rightarrow> bool) \<Rightarrow> ('s \<Rightarrow> 's option) \<Rightarrow> 's \<Rightarrow> 's option" where
  "c_while b body s =
     (if b s then Option.bind (body s) (\<lambda>s'. c_while b body s') else Some s)"

lemma c_while_exit: "\<not> b s \<Longrightarrow> c_while b body s = Some s"
  by (simp add: c_while.simps)

lemma c_while_step: "b s \<Longrightarrow> body s = Some s' \<Longrightarrow> c_while b body s = c_while b body s'"
  by (simp add: c_while.simps [of b body s])

text \<open>Partial correctness: an invariant of the body holds for the state the loop ends in.\<close>

lemma c_while_inv:
  assumes result: "c_while b body s = Some t" and init: "I s"
    and body: "\<And>s s'. I s \<Longrightarrow> b s \<Longrightarrow> body s = Some s' \<Longrightarrow> I s'"
  shows "I t \<and> \<not> b t"
proof -
  have "(b = b \<and> body = body) \<longrightarrow> I s \<longrightarrow> I t \<and> \<not> b t"
  proof (rule c_while.raw_induct [where P = "\<lambda>c bd s t. (c = b \<and> bd = body) \<longrightarrow> I s \<longrightarrow> I t \<and> \<not> b t",
        OF _ result])
    fix f c bd s t
    assume IH: "\<And>c bd s t. f c bd s = Some t \<Longrightarrow> (c = b \<and> bd = body) \<longrightarrow> I s \<longrightarrow> I t \<and> \<not> b t"
      and eq: "(if c s then Option.bind (bd s) (\<lambda>s'. f c bd s') else Some s) = Some t"
    show "(c = b \<and> bd = body) \<longrightarrow> I s \<longrightarrow> I t \<and> \<not> b t"
    proof (intro impI)
      assume cb: "c = b \<and> bd = body" and "I s"
      show "I t \<and> \<not> b t"
      proof (cases "b s")
        case True
        with eq cb obtain s' where "body s = Some s'" "f b body s' = Some t"
          by (auto simp: bind_eq_Some_conv)
        with IH [of b body s' t] body [OF \<open>I s\<close> True] show ?thesis by simp
      next
        case False
        with eq cb \<open>I s\<close> show ?thesis by simp
      qed
    qed
  qed
  with init show ?thesis by simp
qed

text \<open>Total correctness: under the invariant the body succeeds and a measure decreases.\<close>

lemma c_while_total:
  fixes m :: "'s \<Rightarrow> nat"
  assumes init: "I s"
    and body: "\<And>s. I s \<Longrightarrow> b s \<Longrightarrow> \<exists>s'. body s = Some s' \<and> I s' \<and> m s' < m s"
  shows "\<exists>t. c_while b body s = Some t \<and> I t \<and> \<not> b t"
  using init
proof (induction s rule: measure_induct_rule [of m])
  case (less s)
  show ?case
  proof (cases "b s")
    case True
    with body [OF less.prems] obtain s' where "body s = Some s'" "I s'" "m s' < m s" by blast
    with less.IH [of s'] True show ?thesis by (auto simp: c_while_step)
  next
    case False
    with less.prems show ?thesis by (auto simp: c_while_exit)
  qed
qed

text \<open>What a program that can call \<open>exit\<close> in the middle of its work delivers.\<close>

datatype 'a outcome = Done 'a | Exit int 'a

end
