(* ===== verification/Pthread.thy ===== *)
theory Pthread
  imports Prelude
begin

text \<open>
  The part of POSIX threads that the programs of \<open>parallel/thread/posix\<close> use: creating and joining threads,
  mutexes, and one condition variable. A thread is a program counter and its local variables; a program
  gives for every counter the next instruction, and a system of threads runs by letting any thread
  execute one instruction at a time. Mutexes are of the kind that glibc gives by default: they remember no
  owner that \<open>unlock\<close> would check. A waiting thread may also wake up spuriously. The locale \<open>monitor\<close> is for programs that
  touch their shared variables with one mutex held; its lemma is mutual exclusion.
\<close>

section \<open>Threads and systems\<close>

text \<open>
  \<open>Waits m p l\<close>: in \<open>pthread_cond_wait\<close>, not notified; \<open>Wakes m p l\<close>: notified, before the mutex is locked
  again; both go on at \<open>p\<close>.
\<close>

datatype ('p, 'l) tstat = Off | At 'p 'l | Waits nat 'p 'l | Wakes nat 'p 'l | Fin

datatype ('p, 'l, 's) instr =
    Lock nat 'p
  | Unlock nat 'p
  | Wait nat 'p
  | Broadcast 'p
  | Signal 'p
  | Act "'s \<Rightarrow> 'p \<times> 'l \<times> 's"
  | Spawn nat 'p 'p
  | Join nat 'p
  | Halt int
  | Leave

type_synonym ('p, 'l, 's) program = "nat \<Rightarrow> 'p \<Rightarrow> 'l \<Rightarrow> ('p, 'l, 's) instr"

record ('p, 'l, 's) sys =
  held :: "nat \<Rightarrow> nat option"
  thr :: "('p, 'l) tstat list"
  halted :: "int option"
  shared :: 's

text \<open>What the environment chooses: which waiter a signal wakes, that a creation fails, a spurious wakeup.\<close>

datatype choice = Go | Pick nat | Fail | Spurious

fun waiting :: "('p, 'l) tstat \<Rightarrow> bool" where
  "waiting (Waits m p l) = True"
| "waiting _ = False"

fun wake :: "('p, 'l) tstat \<Rightarrow> ('p, 'l) tstat" where
  "wake (Waits m p l) = Wakes m p l"
| "wake st = st"

definition signal :: "choice \<Rightarrow> ('p, 'l) tstat list \<Rightarrow> ('p, 'l) tstat list option" where
  "signal c ts =
     (if list_ex waiting ts then
        (case c of Pick u \<Rightarrow> if u < length ts \<and> waiting (ts ! u) then Some (ts[u := wake (ts ! u)]) else None
         | _ \<Rightarrow> None)
      else Some ts)"

text \<open>
  One instruction of thread \<open>t\<close>; \<open>None\<close>: it cannot run. \<open>start u\<close> is where a new thread \<open>u\<close> begins. \<open>Spawn u q e\<close>
  goes on at \<open>e\<close> when the creation fails.
\<close>

definition exec ::
  "(nat \<Rightarrow> 'p \<times> 'l) \<Rightarrow> choice \<Rightarrow> nat \<Rightarrow> 'l \<Rightarrow> ('p, 'l, 's) instr \<Rightarrow> ('p, 'l, 's) sys \<Rightarrow> ('p, 'l, 's) sys option" where
  "exec start c t l i s = (case i of
       Lock m q \<Rightarrow>
         if held s m = None
         then Some (s\<lparr>held := (held s)(m := Some t), thr := (thr s)[t := At q l]\<rparr>) else None
     | Unlock m q \<Rightarrow> Some (s\<lparr>held := (held s)(m := None), thr := (thr s)[t := At q l]\<rparr>)
     | Wait m q \<Rightarrow> Some (s\<lparr>held := (held s)(m := None), thr := (thr s)[t := Waits m q l]\<rparr>)
     | Broadcast q \<Rightarrow> Some (s\<lparr>thr := (map wake (thr s))[t := At q l]\<rparr>)
     | Signal q \<Rightarrow> map_option (\<lambda>ts. s\<lparr>thr := ts[t := At q l]\<rparr>) (signal c (thr s))
     | Act f \<Rightarrow> (case f (shared s) of (q, l', sh) \<Rightarrow> Some (s\<lparr>thr := (thr s)[t := At q l'], shared := sh\<rparr>))
     | Spawn u q e \<Rightarrow>
         if c = Fail then Some (s\<lparr>thr := (thr s)[t := At e l]\<rparr>)
         else Some (s\<lparr>thr := (thr s)[u := At (fst (start u)) (snd (start u)), t := At q l]\<rparr>)
     | Join u q \<Rightarrow> if u < length (thr s) \<and> thr s ! u = Fin then Some (s\<lparr>thr := (thr s)[t := At q l]\<rparr>) else None
     | Halt n \<Rightarrow> Some (s\<lparr>halted := Some n\<rparr>)
     | Leave \<Rightarrow> Some (s\<lparr>thr := (thr s)[t := Fin]\<rparr>))"

definition fire ::
  "('p, 'l, 's) program \<Rightarrow> (nat \<Rightarrow> 'p \<times> 'l) \<Rightarrow> choice \<Rightarrow> nat \<Rightarrow> ('p, 'l, 's) sys \<Rightarrow> ('p, 'l, 's) sys option" where
  "fire prog start c t s =
     (if halted s \<noteq> None \<or> t \<ge> length (thr s) then None
      else case thr s ! t of
        Off \<Rightarrow> None
      | Fin \<Rightarrow> None
      | Waits m p l \<Rightarrow> if c = Spurious then Some (s\<lparr>thr := (thr s)[t := Wakes m p l]\<rparr>) else None
      | Wakes m p l \<Rightarrow>
          if held s m = None
          then Some (s\<lparr>held := (held s)(m := Some t), thr := (thr s)[t := At p l]\<rparr>) else None
      | At p l \<Rightarrow> exec start c t l (prog t p l) s)"

text \<open>The states a system reaches, under every scheduling.\<close>

inductive reach :: "('p, 'l, 's) program \<Rightarrow> (nat \<Rightarrow> 'p \<times> 'l) \<Rightarrow> ('p, 'l, 's) sys \<Rightarrow> ('p, 'l, 's) sys \<Rightarrow> bool"
  for prog start s0 where
  init: "reach prog start s0 s0"
| step: "reach prog start s0 s \<Longrightarrow> fire prog start c t s = Some s' \<Longrightarrow> reach prog start s0 s'"

text \<open>A given scheduling, for evaluation.\<close>

fun run_sched ::
  "('p, 'l, 's) program \<Rightarrow> (nat \<Rightarrow> 'p \<times> 'l) \<Rightarrow> (choice \<times> nat) list \<Rightarrow> ('p, 'l, 's) sys \<Rightarrow> ('p, 'l, 's) sys option" where
  "run_sched prog start [] s = Some s"
| "run_sched prog start ((c, t) # cs) s = do { s \<leftarrow> fire prog start c t s; run_sched prog start cs s }"

lemma run_sched_reach:
  assumes "reach prog start s0 s"
  shows "run_sched prog start cs s = Some s' \<Longrightarrow> reach prog start s0 s'"
  using assms
proof (induction prog start cs s rule: run_sched.induct)
  case (2 prog start c t cs s)
  then obtain s1 where "fire prog start c t s = Some s1" "run_sched prog start cs s1 = Some s'"
    by (auto simp: bind_eq_Some_conv)
  with 2 reach.step show ?case by metis
qed simp

text \<open>A system can go on when some thread can run, not counting spurious wakeups.\<close>

definition can_run :: "('p, 'l, 's) program \<Rightarrow> (nat \<Rightarrow> 'p \<times> 'l) \<Rightarrow> ('p, 'l, 's) sys \<Rightarrow> bool" where
  "can_run prog start s \<longleftrightarrow> (\<exists>c t. c \<noteq> Spurious \<and> fire prog start c t s \<noteq> None)"

lemma can_runI: "fire prog start c t s \<noteq> None \<Longrightarrow> c \<noteq> Spurious \<Longrightarrow> can_run prog start s"
  by (auto simp: can_run_def)

lemma reach_inv:
  assumes "reach prog start s0 s" "I s0"
    and "\<And>s c t s'. I s \<Longrightarrow> fire prog start c t s = Some s' \<Longrightarrow> I s'"
  shows "I s"
  using assms(1) by (induction rule: reach.induct) (use assms(2,3) in auto)

lemma length_signal: "signal c ts = Some ts' \<Longrightarrow> length ts' = length ts"
  by (auto simp: signal_def split: if_splits choice.splits)

lemma fire_length:
  "fire prog start c t s = Some s' \<Longrightarrow> length (thr s') = length (thr s)"
  by (auto simp: fire_def exec_def length_signal split: if_splits tstat.splits instr.splits prod.splits)

lemma wake_simps [simp]: "wake st = At p l \<longleftrightarrow> st = At p l" "wake st = Fin \<longleftrightarrow> st = Fin" "wake st = Off \<longleftrightarrow> st = Off"
  "\<not> waiting (wake st)" "wake st \<noteq> Waits m p l" "wake (wake st) = wake st"
  by (cases st; simp)+

text \<open>A signal changes at most one waiter.\<close>

lemma signal_nth:
  assumes "signal c ts = Some ts'" "t < length ts"
  shows "ts' ! t = ts ! t \<or> waiting (ts ! t) \<and> ts' ! t = wake (ts ! t)"
proof (cases "list_ex waiting ts")
  case True
  then obtain u where "u < length ts" "waiting (ts ! u)" "ts' = ts[u := wake (ts ! u)]"
    using assms(1) by (cases c) (auto simp: signal_def split: if_splits)
  then show ?thesis using assms(2) by (cases "u = t") simp_all
next
  case False
  then show ?thesis using assms(1) by (simp add: signal_def)
qed

lemma signal_total: "\<exists>c. c \<noteq> Spurious \<and> signal c ts \<noteq> None"
proof (cases "list_ex waiting ts")
  case True
  then obtain u where "u < length ts" "waiting (ts ! u)" by (auto simp: list_ex_length)
  then show ?thesis by (intro exI [of _ "Pick u"]) (auto simp: signal_def)
qed (intro exI [of _ Go], auto simp: signal_def)

text \<open>What a step does to the thread that makes it, and to the others.\<close>

fun after :: "choice \<Rightarrow> 'p \<Rightarrow> 'l \<Rightarrow> ('p, 'l, 's) instr \<Rightarrow> 's \<Rightarrow> ('p, 'l) tstat \<times> 's" where
  "after c p l (Lock m q) sh = (At q l, sh)"
| "after c p l (Unlock m q) sh = (At q l, sh)"
| "after c p l (Wait m q) sh = (Waits m q l, sh)"
| "after c p l (Broadcast q) sh = (At q l, sh)"
| "after c p l (Signal q) sh = (At q l, sh)"
| "after c p l (Act f) sh = (case f sh of (q, l', sh') \<Rightarrow> (At q l', sh'))"
| "after c p l (Spawn u q e) sh = (At (if c = Fail then e else q) l, sh)"
| "after c p l (Join u q) sh = (At q l, sh)"
| "after c p l (Halt n) sh = (At p l, sh)"
| "after c p l Leave sh = (Fin, sh)"

lemma fire_after:
  assumes "fire prog start c t s = Some s'" "thr s ! t = At p l"
  shows "thr s' ! t = fst (after c p l (prog t p l) (shared s)) \<and> shared s' = snd (after c p l (prog t p l) (shared s))"
  using assms length_signal [of c "thr s"]
  by (cases "prog t p l") (auto simp: fire_def exec_def split: if_splits prod.splits)

lemma fire_frame:
  assumes "fire prog start c t s = Some s'" "u \<noteq> t" "u < length (thr s)"
    and "\<And>p l v q e. thr s ! t = At p l \<Longrightarrow> prog t p l = Spawn v q e \<Longrightarrow> u \<noteq> v"
  shows "thr s' ! u = thr s ! u \<or> waiting (thr s ! u) \<and> thr s' ! u = wake (thr s ! u)"
proof (cases "thr s ! t")
  case (At p l)
  then have e: "exec start c t l (prog t p l) s = Some s'" using assms(1) by (simp add: fire_def split: if_splits)
  show ?thesis
  proof (cases "prog t p l")
    case (Broadcast q)
    then show ?thesis using e assms(2,3) by (cases "thr s ! u") (auto simp: exec_def)
  next
    case (Signal q)
    then obtain ts where "signal c (thr s) = Some ts" "thr s' = ts[t := At q l]" using e by (auto simp: exec_def)
    then show ?thesis using signal_nth [of c "thr s" ts u] assms(2,3) by simp
  next
    case (Spawn v q e')
    then show ?thesis using e assms(2) assms(4) [OF At Spawn] by (auto simp: exec_def split: if_splits)
  qed (use e assms(2) in \<open>auto simp: exec_def split: if_splits prod.splits\<close>)
qed (use assms(1,2) in \<open>auto simp: fire_def split: if_splits\<close>)

lemma fire_wakes:
  assumes "fire prog start c t s = Some s'" "thr s ! t = Wakes m p l"
  shows "thr s' ! t = At p l \<and> shared s' = shared s"
  using assms by (auto simp: fire_def split: if_splits)

lemma fire_waits:
  assumes "fire prog start c t s = Some s'" "thr s ! t = Waits m p l"
  shows "thr s' ! t = Wakes m p l \<and> shared s' = shared s"
  using assms by (auto simp: fire_def split: if_splits)

lemma fire_broadcast:
  assumes "fire prog start c t s = Some s'" "thr s ! t = At p l" "prog t p l = Broadcast q" "u \<noteq> t" "u < length (thr s)"
  shows "\<not> waiting (thr s' ! u)"
  using assms by (auto simp: fire_def exec_def split: if_splits)

lemma fire_signal:
  assumes "fire prog start c t s = Some s'" "thr s ! t = At p l" "prog t p l = Signal q"
    "u < length (thr s)" "waiting (thr s ! u)"
  shows "\<exists>v < length (thr s). v \<noteq> t \<and> waiting (thr s ! v) \<and> thr s' ! v = wake (thr s ! v)"
proof -
  obtain ts where ts: "signal c (thr s) = Some ts" "thr s' = ts[t := At q l]"
    using assms(1-3) by (auto simp: fire_def exec_def split: if_splits)
  have "list_ex waiting (thr s)" using assms(4,5) by (auto simp: list_ex_length)
  then obtain v where v: "v < length (thr s)" "waiting (thr s ! v)" "ts = (thr s)[v := wake (thr s ! v)]"
    using ts(1) by (cases c) (auto simp: signal_def split: if_splits)
  have "v \<noteq> t" using v(2) assms(2) by auto
  then show ?thesis using v ts(2) by auto
qed

lemma fire_spawn:
  assumes "fire prog start c t s = Some s'" "thr s ! t = At p l" "prog t p l = Spawn v q e" "v \<noteq> t" "v < length (thr s)"
  shows "thr s' ! v = (if c = Fail then thr s ! v else At (fst (start v)) (snd (start v)))"
  using assms by (auto simp: fire_def exec_def split: if_splits)

lemma fire_halted: "fire prog start c t s = Some s' \<Longrightarrow>
    halted s = None \<and> (halted s' = None \<or> (\<exists>p l n. thr s ! t = At p l \<and> prog t p l = Halt n \<and> halted s' = Some n))"
  by (auto simp: fire_def exec_def split: if_splits tstat.splits instr.splits prod.splits)

fun live :: "('p, 'l) tstat \<Rightarrow> bool" where
  "live (At p l) = True"
| "live (Wakes m p l) = True"
| "live _ = False"

lemma live_wake: "live st \<Longrightarrow> live (wake st)" "waiting st \<Longrightarrow> live (wake st)"
  by (cases st; simp)+

lemma live_iff: "live st \<longleftrightarrow> st \<noteq> Off \<and> st \<noteq> Fin \<and> \<not> waiting st"
  by (cases st) auto

text \<open>Sums over the threads of which one has changed.\<close>

lemma sum_other:
  fixes f :: "nat \<Rightarrow> 'a :: comm_monoid_add"
  assumes "finite A" "t \<in> A" "\<And>u. u \<in> A \<Longrightarrow> u \<noteq> t \<Longrightarrow> g u = f u"
  shows "(\<Sum>u \<in> A. g u) = g t + (\<Sum>u \<in> A - {t}. f u)" "(\<Sum>u \<in> A. f u) = f t + (\<Sum>u \<in> A - {t}. f u)"
proof -
  have r: "sum h A = h t + sum h (A - {t})" for h :: "nat \<Rightarrow> 'a"
    by (rule sum.remove) (use assms in simp_all)
  moreover have "sum g (A - {t}) = sum f (A - {t})" by (rule sum.cong) (use assms in auto)
  ultimately show "sum g A = g t + (\<Sum>u \<in> A - {t}. f u)" "sum f A = f t + (\<Sum>u \<in> A - {t}. f u)"
    by simp_all
qed

text \<open>Facts of a status that carry over to a thread that was at most woken.\<close>

lemma frame_status:
  assumes "st' = st \<or> waiting st \<and> st' = wake st"
  shows "st' = Off \<longleftrightarrow> st = Off" "st' = Fin \<longleftrightarrow> st = Fin" "live st \<Longrightarrow> live st'" "waiting st' \<Longrightarrow> waiting st"
    "st = At p i \<Longrightarrow> st' = At p i" "st' = At p i \<longleftrightarrow> st = At p i" "\<not> waiting st \<Longrightarrow> st' = st"
  using assms by (auto simp: live_wake)

section \<open>Mutual exclusion\<close>

fun in_crit :: "('p \<Rightarrow> bool) \<Rightarrow> ('p, 'l) tstat \<Rightarrow> bool" where
  "in_crit crit (At p l) = crit p"
| "in_crit crit _ = False"

text \<open>A thread in \<open>pthread_cond_wait\<close> waits with mutex 0, and goes on inside the critical section.\<close>

fun wait_ok :: "('p \<Rightarrow> bool) \<Rightarrow> ('p, 'l) tstat \<Rightarrow> bool" where
  "wait_ok crit (Waits m p l) \<longleftrightarrow> m = 0 \<and> crit p"
| "wait_ok crit (Wakes m p l) \<longleftrightarrow> m = 0 \<and> crit p"
| "wait_ok crit _ \<longleftrightarrow> True"

text \<open>Exactly the holder of mutex 0 is at a critical counter.\<close>

definition excl :: "('p \<Rightarrow> bool) \<Rightarrow> ('p, 'l, 's) sys \<Rightarrow> bool" where
  "excl crit s \<longleftrightarrow> (\<forall>t < length (thr s). (in_crit crit (thr s ! t) \<longleftrightarrow> held s 0 = Some t) \<and> wait_ok crit (thr s ! t))
     \<and> (\<forall>t. held s 0 = Some t \<longrightarrow> t < length (thr s))"

lemma exclD:
  assumes "excl crit s" "t < length (thr s)"
  shows "in_crit crit (thr s ! t) \<longleftrightarrow> held s 0 = Some t" "wait_ok crit (thr s ! t)"
  using assms unfolding excl_def by blast+

text \<open>At most one thread is inside.\<close>

lemma excl_unique:
  assumes "excl crit s" "t < length (thr s)" "u < length (thr s)" "in_crit crit (thr s ! t)" "in_crit crit (thr s ! u)"
  shows "u = t"
  using exclD(1) [OF assms(1,2)] exclD(1) [OF assms(1,3)] assms(4,5) by simp

lemma wake_crit [simp]: "in_crit crit (wake st) = in_crit crit st" "wait_ok crit (wake st) = wait_ok crit st"
  by (cases st; simp)+

text \<open>A step of thread \<open>t\<close> that takes the mutex, gives it back, or does neither.\<close>

lemma excl_step:
  assumes "excl crit s" "t < length (thr s)" "length ts = length (thr s)"
    and "\<And>u. u < length ts \<Longrightarrow> u \<noteq> t \<Longrightarrow> in_crit crit (ts ! u) = in_crit crit (thr s ! u) \<and> wait_ok crit (ts ! u)"
    and "wait_ok crit (ts ! t)"
    and "h 0 = held s 0 \<and> in_crit crit (ts ! t) = in_crit crit (thr s ! t)
      \<or> held s 0 = None \<and> h 0 = Some t \<and> in_crit crit (ts ! t)
      \<or> held s 0 = Some t \<and> h 0 = None \<and> \<not> in_crit crit (ts ! t)"
  shows "excl crit (s\<lparr>held := h, thr := ts, shared := sh\<rparr>)"
proof -
  have "(in_crit crit (ts ! u) \<longleftrightarrow> h 0 = Some u) \<and> wait_ok crit (ts ! u)" if u: "u < length ts" for u
  proof (cases "u = t")
    case True
    then show ?thesis using assms(2,5,6) exclD(1) [OF assms(1,2)] by auto
  next
    case False
    then show ?thesis using assms(3,6) assms(4) [OF u False] exclD(1) [OF assms(1), of u] u by auto
  qed
  moreover have "v < length ts" if "h 0 = Some v" for v
    using that assms(1-3,6) by (auto simp: excl_def)
  ultimately show ?thesis by (simp add: excl_def)
qed

locale monitor =
  fixes prog :: "('p, 'l, 's) program" and start :: "nat \<Rightarrow> 'p \<times> 'l" and crit :: "'p \<Rightarrow> bool"
  assumes lock: "prog t p l = Lock m q \<Longrightarrow> m = 0 \<and> \<not> crit p \<and> crit q"
    and unlock: "prog t p l = Unlock m q \<Longrightarrow> m = 0 \<and> crit p \<and> \<not> crit q"
    and wait: "prog t p l = Wait m q \<Longrightarrow> m = 0 \<and> crit p \<and> crit q"
    and broadcast: "prog t p l = Broadcast q \<Longrightarrow> crit q = crit p"
    and signal: "prog t p l = Signal q \<Longrightarrow> crit q = crit p"
    and act: "prog t p l = Act f \<Longrightarrow> crit (fst (f sh)) = crit p"
    and spawn: "prog t p l = Spawn u q e \<Longrightarrow> crit q = crit p \<and> crit e = crit p"
    and join: "prog t p l = Join u q \<Longrightarrow> crit q = crit p"
    and leave: "prog t p l = Leave \<Longrightarrow> \<not> crit p"
    and start: "\<not> crit (fst (start u))"
begin

text \<open>A thread is created once.\<close>

definition spawn_off :: "('p, 'l, 's) sys \<Rightarrow> bool" where
  "spawn_off s \<longleftrightarrow> (\<forall>t < length (thr s). \<forall>p l u q e. thr s ! t = At p l \<longrightarrow> prog t p l = Spawn u q e \<longrightarrow>
     u < length (thr s) \<and> thr s ! u = Off)"

lemma excl_fire:
  assumes "excl crit s" "spawn_off s" "fire prog start c t s = Some s'"
  shows "excl crit s'"
proof -
  have t: "t < length (thr s)" "halted s = None" using assms(3) by (auto simp: fire_def split: if_splits)
  note d = exclD [OF assms(1)]
  note dt = d [OF t(1)]
  have keep: "excl crit (s\<lparr>held := h, thr := (thr s)[t := st], shared := sh\<rparr>)"
    if "wait_ok crit st" "h 0 = held s 0 \<and> in_crit crit st = in_crit crit (thr s ! t)
      \<or> held s 0 = None \<and> h 0 = Some t \<and> in_crit crit st \<or> held s 0 = Some t \<and> h 0 = None \<and> \<not> in_crit crit st" for h st sh
    by (rule excl_step [OF assms(1) t(1)]) (use d that t(1) in simp_all)
  show ?thesis
  proof (cases "thr s ! t")
    case (Waits m p l)
    with assms(3) t dt(2) keep [of "Wakes m p l" "held s" "shared s"] show ?thesis
      by (simp add: fire_def split: if_splits)
  next
    case (Wakes m p l)
    with assms(3) t dt keep [of "At p l" "(held s)(0 := Some t)" "shared s"] show ?thesis
      by (simp add: fire_def split: if_splits)
  next
    case (At p l)
    then have c: "crit p \<longleftrightarrow> held s 0 = Some t" using dt(1) by simp
    have e: "exec start c t l (prog t p l) s = Some s'" using assms(3) At t by (simp add: fire_def)
    have keep': "excl crit (s\<lparr>held := held s, thr := (thr s)[t := At q l'], shared := sh\<rparr>)" if "crit q = crit p" for q l' sh
      by (rule keep) (use that At in simp_all)
    show ?thesis
    proof (cases "prog t p l")
      case (Lock m q)
      with e lock [OF Lock] keep [of "At q l" "(held s)(0 := Some t)" "shared s"] show ?thesis
        by (simp add: exec_def split: if_splits)
    next
      case (Unlock m q)
      with e unlock [OF Unlock] c keep [of "At q l" "(held s)(0 := None)" "shared s"] show ?thesis
        by (auto simp: exec_def)
    next
      case (Wait m q)
      with e wait [OF Wait] c keep [of "Waits 0 q l" "(held s)(0 := None)" "shared s"] show ?thesis
        by (auto simp: exec_def)
    next
      case (Broadcast q)
      have "excl crit (s\<lparr>held := held s, thr := (map wake (thr s))[t := At q l], shared := shared s\<rparr>)"
        by (rule excl_step [OF assms(1) t(1)]) (use d t(1) At broadcast [OF Broadcast] in simp_all)
      with e Broadcast show ?thesis by (auto simp: exec_def)
    next
      case (Signal q)
      then obtain ts where ts: "Pthread.signal c (thr s) = Some ts" "s' = s\<lparr>thr := ts[t := At q l]\<rparr>"
        using e by (auto simp: exec_def)
      have "in_crit crit (ts ! u) = in_crit crit (thr s ! u) \<and> wait_ok crit (ts ! u)" if "u < length (thr s)" for u
        using signal_nth [OF ts(1) that] d(2) [OF that] by auto
      then have "excl crit (s\<lparr>held := held s, thr := ts[t := At q l], shared := shared s\<rparr>)"
        using length_signal [OF ts(1)] t(1) At signal [OF Signal]
        by (intro excl_step [OF assms(1) t(1)]) simp_all
      with ts show ?thesis by simp
    next
      case (Act f)
      obtain q l' sh where f: "f (shared s) = (q, l', sh)" by (metis prod_cases3)
      with e Act act [OF Act, of "shared s"] keep' [where q = q and l' = l' and sh = sh] show ?thesis by (simp add: exec_def)
    next
      case (Spawn u q e')
      have off: "thr s ! u = Off" "u < length (thr s)" using assms(2) At t Spawn unfolding spawn_off_def by blast+
      note sp = spawn [OF Spawn]
      have ne: "u \<noteq> t" using off(1) At by auto
      let ?ts = "(thr s)[u := At (fst (start u)) (snd (start u)), t := At q l]"
      have "in_crit crit (?ts ! v) = in_crit crit (thr s ! v) \<and> wait_ok crit (?ts ! v)"
        if "v < length ?ts" "v \<noteq> t" for v
        using that off start [of u] d(2) [of v] by (cases "v = u") simp_all
      then have "excl crit (s\<lparr>held := held s, thr := ?ts, shared := shared s\<rparr>)"
        by (rule excl_step [OF assms(1) t(1), rotated]) (use sp At t(1) ne in simp_all)
      with e Spawn keep' [where q = e' and l' = l and sh = "shared s"] sp show ?thesis by (simp add: exec_def split: if_splits)
    next
      case (Join u q)
      with e join [OF Join] keep' [where q = q and l' = l and sh = "shared s"] show ?thesis by (simp add: exec_def split: if_splits)
    next
      case (Halt n)
      with e assms(1) show ?thesis by (auto simp: exec_def excl_def)
    next
      case Leave
      with e leave [OF Leave] keep [of Fin "held s" "shared s"] At show ?thesis by (auto simp: exec_def)
    qed
  qed (use assms(3) t in \<open>simp_all add: fire_def\<close>)
qed

text \<open>What can run when the mutex is free, and that its holder can go on.\<close>

lemma at_can_run:
  assumes "thr s ! t = At p l" "t < length (thr s)" "halted s = None" "crit p \<or> held s 0 = None"
    "\<forall>u q. prog t p l \<noteq> Join u q"
  shows "can_run prog start s"
proof -
  obtain c where c: "c \<noteq> Spurious" "Pthread.signal c (thr s) \<noteq> None" using signal_total by blast
  have "exec start c t l (prog t p l) s \<noteq> None"
  proof (cases "prog t p l")
    case (Lock m q)
    then show ?thesis using lock [OF Lock] assms(4) by (simp add: exec_def)
  qed (use assms(5) c(2) in \<open>auto simp: exec_def split: prod.split\<close>)
  then have "fire prog start c t s \<noteq> None" using assms(1-3) by (simp add: fire_def)
  then show ?thesis using c(1) by (rule can_runI)
qed

lemma wakes_can_run:
  assumes "thr s ! t = Wakes m p l" "t < length (thr s)" "halted s = None" "held s m = None"
  shows "can_run prog start s"
proof -
  have "fire prog start Go t s \<noteq> None" using assms by (simp add: fire_def)
  then show ?thesis by (rule can_runI) simp
qed

lemma holder_can_run:
  assumes "excl crit s" "halted s = None" "held s 0 = Some t" "\<And>p l u q. crit p \<Longrightarrow> prog t p l \<noteq> Join u q"
  shows "can_run prog start s"
proof -
  have t: "t < length (thr s)" using assms(1,3) by (simp add: excl_def)
  then have "in_crit crit (thr s ! t)" using exclD(1) [OF assms(1)] assms(3) by blast
  then obtain p l where p: "thr s ! t = At p l" "crit p" by (cases "thr s ! t") auto
  then show ?thesis using at_can_run [OF p(1) t assms(2)] assms(4) by blast
qed

end

section \<open>Assertions of the threads\<close>

text \<open>
  Each thread has an assertion over its own status and the shared variables. A thread that acts keeps its
  own assertion going and does not disturb those of the others; when it acts with the mutex held, only the others
  outside matter.
\<close>

locale annotated = monitor prog start crit
  for prog :: "('p, 'l, 's) program" and start :: "nat \<Rightarrow> 'p \<times> 'l" and crit :: "'p \<Rightarrow> bool" +
  fixes asn :: "nat \<Rightarrow> ('p, 'l) tstat \<Rightarrow> 's \<Rightarrow> bool"
  assumes act_self: "asn t (At p l) sh \<Longrightarrow> prog t p l = Act f \<Longrightarrow> f sh = (q, l', sh') \<Longrightarrow> asn t (At q l') sh'"
    and act_other: "asn t (At p l) sh \<Longrightarrow> prog t p l = Act f \<Longrightarrow> f sh = (q, l', sh') \<Longrightarrow> u \<noteq> t \<Longrightarrow> asn u st sh \<Longrightarrow>
      (crit p \<Longrightarrow> \<not> in_crit crit st) \<Longrightarrow> asn u st sh'"
    and lock_on: "asn t (At p l) sh \<Longrightarrow> prog t p l = Lock m q \<Longrightarrow> asn t (At q l) sh"
    and unlock_on: "asn t (At p l) sh \<Longrightarrow> prog t p l = Unlock m q \<Longrightarrow> asn t (At q l) sh"
    and wait_on: "asn t (At p l) sh \<Longrightarrow> prog t p l = Wait m q \<Longrightarrow> asn t (Waits m q l) sh"
    and wake_on: "asn t (Waits m p l) sh \<Longrightarrow> asn t (Wakes m p l) sh"
    and awake_on: "asn t (Wakes m p l) sh \<Longrightarrow> asn t (At p l) sh"
    and broadcast_on: "asn t (At p l) sh \<Longrightarrow> prog t p l = Broadcast q \<Longrightarrow> asn t (At q l) sh"
    and signal_on: "asn t (At p l) sh \<Longrightarrow> prog t p l = Signal q \<Longrightarrow> asn t (At q l) sh"
    and spawn_on: "asn t (At p l) sh \<Longrightarrow> prog t p l = Spawn u q e \<Longrightarrow> asn t (At q l) sh \<and> asn t (At e l) sh"
    and spawned: "asn t (At p l) sh \<Longrightarrow> prog t p l = Spawn u q e \<Longrightarrow> asn u (At (fst (start u)) (snd (start u))) sh"
    and join_on: "asn t (At p l) sh \<Longrightarrow> prog t p l = Join u q \<Longrightarrow> asn t (At q l) sh"
    and leave_on: "asn t (At p l) sh \<Longrightarrow> prog t p l = Leave \<Longrightarrow> asn t Fin sh"
begin

definition asn_all :: "('p, 'l, 's) sys \<Rightarrow> bool" where
  "asn_all s \<longleftrightarrow> (\<forall>t < length (thr s). asn t (thr s ! t) (shared s))"

lemma asn_wake: "asn t st sh \<Longrightarrow> asn t (wake st) sh"
  by (cases st) (auto intro: wake_on)

lemma asn_update:
  assumes "\<forall>t < length ts. asn t (ts ! t) sh" "asn t st sh"
  shows "\<forall>u < length (ts[t := st]). asn u (ts[t := st] ! u) sh"
proof (intro allI impI)
  fix u assume "u < length (ts[t := st])"
  then show "asn u (ts[t := st] ! u) sh" using assms by (cases "u = t") auto
qed

lemma asn_fire:
  assumes a: "asn_all s" "excl crit s" "spawn_off s" and f: "fire prog start c t s = Some s'"
  shows "asn_all s'"
proof -
  have t: "t < length (thr s)" using f by (auto simp: fire_def split: if_splits)
  have all: "\<forall>t < length (thr s). asn t (thr s ! t) (shared s)" using a(1) by (simp add: asn_all_def)
  have upd: "asn_all s'" if "thr s' = (thr s)[t := st]" "shared s' = shared s" "asn t st (shared s)" for st
    using asn_update [OF all that(3)] that(1,2) by (simp add: asn_all_def)
  have me: "asn t (thr s ! t) (shared s)" using all t by blast
  show ?thesis
  proof (cases "thr s ! t")
    case (At p l)
    then have e: "exec start c t l (prog t p l) s = Some s'" using f by (simp add: fire_def split: if_splits)
    have m: "asn t (At p l) (shared s)" using me At by simp
    show ?thesis
    proof (cases "prog t p l")
      case (Act g)
      obtain q l' sh where g: "g (shared s) = (q, l', sh)" by (metis prod_cases3)
      then have s': "thr s' = (thr s)[t := At q l']" "shared s' = sh" using e Act by (auto simp: exec_def)
      have "asn u (thr s' ! u) sh" if u: "u < length (thr s)" for u
      proof (cases "u = t")
        case True
        then show ?thesis using act_self [OF m Act g] s'(1) t by simp
      next
        case False
        have "\<not> in_crit crit (thr s ! u)" if "crit p"
          using excl_unique [OF a(2) t u] that At False by auto
        then show ?thesis using act_other [OF m Act g False, of "thr s ! u"] all u False s'(1) by simp
      qed
      then show ?thesis using s' by (simp add: asn_all_def)
    next
      case (Broadcast q)
      then have s': "thr s' = (map wake (thr s))[t := At q l]" "shared s' = shared s" using e by (auto simp: exec_def)
      have "\<forall>u < length (map wake (thr s)). asn u (map wake (thr s) ! u) (shared s)" using all asn_wake by simp
      from asn_update [OF this broadcast_on [OF m Broadcast]] show ?thesis using s' by (simp add: asn_all_def)
    next
      case (Signal q)
      then obtain ts where ts: "Pthread.signal c (thr s) = Some ts" "thr s' = ts[t := At q l]" "shared s' = shared s"
        using e by (auto simp: exec_def)
      have "asn u (ts ! u) (shared s)" if "u < length ts" for u
        using signal_nth [OF ts(1), of u] length_signal [OF ts(1)] all asn_wake that by force
      then show ?thesis using asn_update [of ts "shared s" t "At q l"] signal_on [OF m Signal] ts by (simp add: asn_all_def)
    next
      case (Spawn u q e')
      note sp = spawn_on [OF m Spawn] spawned [OF m Spawn]
      show ?thesis
      proof (cases "c = Fail")
        case True
        then show ?thesis using e Spawn sp by (intro upd [of "At e' l"]) (auto simp: exec_def)
      next
        case False
        then have "thr s' = (thr s)[u := At (fst (start u)) (snd (start u)), t := At q l]" "shared s' = shared s"
          using e Spawn by (auto simp: exec_def)
        then show ?thesis using asn_update [OF asn_update [OF all sp(2)], of t "At q l"] sp(1) by (simp add: asn_all_def)
      qed
    next
      case (Lock m' q)
      then show ?thesis using e lock_on [OF m Lock] by (intro upd [of "At q l"]) (auto simp: exec_def split: if_splits)
    next
      case (Unlock m' q)
      then show ?thesis using e unlock_on [OF m Unlock] by (intro upd [of "At q l"]) (auto simp: exec_def)
    next
      case (Wait m' q)
      then show ?thesis using e wait_on [OF m Wait] by (intro upd [of "Waits m' q l"]) (auto simp: exec_def)
    next
      case (Join u q)
      then show ?thesis using e join_on [OF m Join] by (intro upd [of "At q l"]) (auto simp: exec_def split: if_splits)
    next
      case (Halt n)
      then show ?thesis using e a(1) by (auto simp: exec_def asn_all_def)
    next
      case Leave
      then show ?thesis using e leave_on [OF m Leave] by (intro upd [of Fin]) (auto simp: exec_def)
    qed
  next
    case (Waits m p l)
    then show ?thesis using f me wake_on [of t m p l] by (intro upd [of "Wakes m p l"]) (auto simp: fire_def split: if_splits)
  next
    case (Wakes m p l)
    then show ?thesis using f me awake_on [of t m p l] by (intro upd [of "At p l"]) (auto simp: fire_def split: if_splits)
  qed (use f in \<open>auto simp: fire_def split: if_splits\<close>)
qed

end

end
