(* ===== verification/Abcd.thy ===== *)
theory Abcd
  imports Pthread
begin

text \<open>
  Four threads that print \<open>abcd\<close> over and over: \<open>parallel/thread/posix/abcd_e.c\<close> with a turn variable, a mutex and a
  condition variable, and \<open>parallel/thread/posix/abcd.c\<close> with a chain of four mutexes, each unlocked by the
  thread in front. Thread 0 is \<open>main\<close>, thread \<open>k + 1\<close> the one with number \<open>k\<close>; its local variable is that
  number (\<open>i\<close> in \<open>main\<close>). \<open>alarm\<close> ends the process after five seconds, which only cuts a run short, so that
  the statements about all reachable states cover it. The theorems: under every scheduling the output is a
  prefix of \<open>abcdabcd...\<close>, and the system never gets stuck.
\<close>

abbreviation THRNUM :: int where "THRNUM \<equiv> 4"

definition next_thr :: "int \<Rightarrow> int" where
  "next_thr n = (if n + 1 = THRNUM then 0 else n + 1)"

text \<open>\<open>'a' + n\<close>\<close>

definition letter :: "int \<Rightarrow> char" where
  "letter n = char_of (97 + nat n)"

text \<open>What the programs should print: the first \<open>n\<close> letters.\<close>

definition abcd_word :: "nat \<Rightarrow> string" where
  "abcd_word n = map (\<lambda>k. letter (int k mod THRNUM)) [0..<n]"

lemma abcd_word_Suc: "abcd_word (Suc n) = abcd_word n @ [letter (int n mod THRNUM)]"
  by (simp add: abcd_word_def)

lemma next_thr_mod: "0 \<le> n \<Longrightarrow> n < THRNUM \<Longrightarrow> next_thr n = (n + 1) mod THRNUM"
  by (auto simp: next_thr_def)

section \<open>With a condition variable\<close>

datatype e_pc = EM_for | EM_create | EM_inc | EM_fail | EM_alarm | EM_join | EM_jinc
  | ET_lock | ET_test | ET_wait | ET_write | ET_next | ET_bcast | ET_unlock

record e_shared =
  e_num :: int
  e_out :: string

definition abcd_e_prog :: "(e_pc, int, e_shared) program" where
  "abcd_e_prog t p i = (case p of
       EM_for \<Rightarrow> Act (\<lambda>s. (if i < THRNUM then EM_create else EM_alarm, i, s))
     | EM_create \<Rightarrow> Spawn (nat i + 1) EM_inc EM_fail
     | EM_inc \<Rightarrow> Act (\<lambda>s. (EM_for, i + 1, s))
     | EM_fail \<Rightarrow> Halt 1
     | EM_alarm \<Rightarrow> Act (\<lambda>s. (EM_join, 0, s))
     | EM_join \<Rightarrow> if i < THRNUM then Join (nat i + 1) EM_jinc else Halt 0
     | EM_jinc \<Rightarrow> Act (\<lambda>s. (EM_join, i + 1, s))
     | ET_lock \<Rightarrow> Lock 0 ET_test
     | ET_test \<Rightarrow> Act (\<lambda>s. (if e_num s \<noteq> i then ET_wait else ET_write, i, s))
     | ET_wait \<Rightarrow> Wait 0 ET_test
     | ET_write \<Rightarrow> Act (\<lambda>s. (ET_next, i, s\<lparr>e_out := e_out s @ [letter i]\<rparr>))
     | ET_next \<Rightarrow> Act (\<lambda>s. (ET_bcast, i, s\<lparr>e_num := next_thr (e_num s)\<rparr>))
     | ET_bcast \<Rightarrow> Broadcast ET_unlock
     | ET_unlock \<Rightarrow> Unlock 0 ET_lock)"

definition abcd_e_start :: "nat \<Rightarrow> e_pc \<times> int" where
  "abcd_e_start u = (ET_lock, int u - 1)"

definition abcd_e_init :: "(e_pc, int, e_shared) sys" where
  "abcd_e_init = \<lparr>held = (\<lambda>_. None), thr = At EM_for 0 # replicate 4 Off, halted = None,
     shared = \<lparr>e_num = 0, e_out = ''''\<rparr>\<rparr>"

fun e_crit :: "e_pc \<Rightarrow> bool" where
  "e_crit p \<longleftrightarrow> p \<in> {ET_test, ET_wait, ET_write, ET_next, ET_bcast, ET_unlock}"

interpretation abcd_e: monitor abcd_e_prog abcd_e_start e_crit
  by unfold_locales (auto simp: abcd_e_prog_def abcd_e_start_def split: e_pc.splits if_splits)

text \<open>The invariant. What \<open>main\<close> has created, and what holds at each counter of a thread.\<close>

definition e_broadcasting :: "(e_pc, int, e_shared) sys \<Rightarrow> bool" where
  "e_broadcasting s \<longleftrightarrow> (\<exists>u < length (thr s). \<exists>i. thr s ! u = At ET_bcast i)"

definition e_main_ok :: "(e_pc, int, e_shared) sys \<Rightarrow> bool" where
  "e_main_ok s \<longleftrightarrow> (\<exists>p i. thr s ! 0 = At p i \<and> 0 \<le> i \<and>
     (p = EM_for \<and> i \<le> THRNUM \<and> (\<forall>t \<in> {1..4}. thr s ! t = Off \<longleftrightarrow> int t > i)
      \<or> p = EM_create \<and> i < THRNUM \<and> (\<forall>t \<in> {1..4}. thr s ! t = Off \<longleftrightarrow> int t > i)
      \<or> p = EM_inc \<and> i < THRNUM \<and> (\<forall>t \<in> {1..4}. thr s ! t = Off \<longleftrightarrow> int t > i + 1)
      \<or> p = EM_fail
      \<or> p = EM_alarm \<and> (\<forall>t \<in> {1..4}. thr s ! t \<noteq> Off)
      \<or> p = EM_join \<and> i = 0 \<and> (\<forall>t \<in> {1..4}. thr s ! t \<noteq> Off)))"

definition e_thr_ok :: "(e_pc, int, e_shared) sys \<Rightarrow> nat \<Rightarrow> bool" where
  "e_thr_ok s t \<longleftrightarrow> (case thr s ! t of
       Off \<Rightarrow> True
     | At p i \<Rightarrow> i = int t - 1 \<and> (p \<in> {ET_lock, ET_test, ET_bcast, ET_unlock}
         \<or> p \<in> {ET_write, ET_next} \<and> e_num (shared s) = i \<or> p = ET_wait \<and> e_num (shared s) \<noteq> i)
     | Waits m p i \<Rightarrow> i = int t - 1 \<and> p = ET_test \<and> (e_num (shared s) \<noteq> i \<or> e_broadcasting s)
     | Wakes m p i \<Rightarrow> i = int t - 1 \<and> p = ET_test
     | Fin \<Rightarrow> False)"

text \<open>Between the \<open>write\<close> and the assignment to \<open>num\<close> the output is one letter ahead.\<close>

definition e_data_ok :: "(e_pc, int, e_shared) sys \<Rightarrow> bool" where
  "e_data_ok s \<longleftrightarrow> 0 \<le> e_num (shared s) \<and> e_num (shared s) < THRNUM
     \<and> (\<exists>n. e_out (shared s) = abcd_word n \<and>
         int n mod THRNUM = (if \<exists>u < length (thr s). \<exists>i. thr s ! u = At ET_next i
           then next_thr (e_num (shared s)) else e_num (shared s)))"

definition e_inv :: "(e_pc, int, e_shared) sys \<Rightarrow> bool" where
  "e_inv s \<longleftrightarrow> length (thr s) = 5 \<and> excl e_crit s \<and> e_main_ok s \<and> (\<forall>t \<in> {1..4}. e_thr_ok s t) \<and> e_data_ok s"

lemma e_inv_init: "e_inv abcd_e_init"
proof -
  have "t = 1 \<or> t = 2 \<or> t = 3 \<or> t = 4" if "t \<in> {1..4}" for t :: nat using that by auto
  then show ?thesis
    by (auto simp: e_inv_def excl_def e_main_ok_def e_thr_ok_def e_data_ok_def abcd_e_init_def nth_Cons'
        abcd_word_def split: if_splits)
qed

definition e_nexting :: "(e_pc, int, e_shared) sys \<Rightarrow> bool" where
  "e_nexting s \<longleftrightarrow> (\<exists>u < length (thr s). \<exists>i. thr s ! u = At ET_next i)"

lemma e_data_ok_iff: "e_data_ok s \<longleftrightarrow> 0 \<le> e_num (shared s) \<and> e_num (shared s) < THRNUM
    \<and> (\<exists>n. e_out (shared s) = abcd_word n \<and>
        int n mod THRNUM = (if e_nexting s then next_thr (e_num (shared s)) else e_num (shared s)))"
  by (simp add: e_data_ok_def e_nexting_def)

lemma e_inv_halted [simp]: "e_inv (s\<lparr>halted := x\<rparr>) = e_inv s"
proof -
  have "e_thr_ok (s\<lparr>halted := x\<rparr>) t = e_thr_ok s t" for t
    by (simp add: e_thr_ok_def e_broadcasting_def split: tstat.split)
  moreover have "e_main_ok (s\<lparr>halted := x\<rparr>) = e_main_ok s" unfolding e_main_ok_def by simp
  moreover have "e_data_ok (s\<lparr>halted := x\<rparr>) = e_data_ok s" unfolding e_data_ok_def by auto
  moreover have "excl e_crit (s\<lparr>halted := x\<rparr>) = excl e_crit s" unfolding excl_def by simp
  ultimately show ?thesis by (simp add: e_inv_def)
qed

lemma e_main_frame:
  assumes "e_main_ok s" "thr s' ! 0 = thr s ! 0" "\<forall>t \<in> {1..4}. thr s' ! t = Off \<longleftrightarrow> thr s ! t = Off"
  shows "e_main_ok s'"
  using assms by (auto simp: e_main_ok_def)

lemma e_thr_frame:
  assumes "e_thr_ok s u" "thr s' ! u = thr s ! u" "e_num (shared s') = e_num (shared s)"
    and "e_broadcasting s \<Longrightarrow> e_broadcasting s'"
  shows "e_thr_ok s' u"
  using assms by (auto simp: e_thr_ok_def split: tstat.splits)

text \<open>A step of a thread \<open>t\<close> other than \<open>main\<close> that only changes its own status.\<close>

lemma e_inv_own:
  assumes i: "e_inv s" "excl e_crit s'" "t \<in> {1..4}" "thr s ! t \<noteq> Off"
    and s': "thr s' = (thr s)[t := st]" "st \<noteq> Off" "shared s' = shared s" "e_thr_ok s' t"
    and b: "\<forall>j. thr s ! t \<noteq> At ET_bcast j" "\<forall>j. thr s ! t \<noteq> At ET_next j" "\<forall>j. st \<noteq> At ET_next j"
  shows "e_inv s'"
proof -
  have l: "length (thr s) = 5" "t < 5" "0 \<noteq> t" using i(1,3) by (auto simp: e_inv_def)
  have nth: "thr s' ! u = (if u = t then st else thr s ! u)" if "u < 5" for u
    using that l s'(1) by simp
  have br: "e_broadcasting s \<Longrightarrow> e_broadcasting s'"
    using b(1) nth l(1) s'(1) unfolding e_broadcasting_def by (metis length_list_update)
  have nx: "e_nexting s' \<longleftrightarrow> e_nexting s"
    using b(2,3) nth l(1,2) s'(1) unfolding e_nexting_def by (metis length_list_update)
  have m: "e_main_ok s'"
    by (rule e_main_frame [of s]) (use i l nth s'(2) in \<open>auto simp: e_inv_def\<close>)
  have "e_thr_ok s' u" if "u \<in> {1..4}" for u
  proof (cases "u = t")
    case False
    show ?thesis by (rule e_thr_frame [of s]) (use i(1) that False nth [of u] s'(3) br in \<open>auto simp: e_inv_def\<close>)
  qed (use s'(4) in simp)
  moreover have "e_data_ok s'" using i(1) nx s'(3) by (auto simp: e_inv_def e_data_ok_iff)
  ultimately show ?thesis using i(2) m l(1) s'(1) by (simp add: e_inv_def)
qed

lemma e_spawn_off: "e_inv s \<Longrightarrow> abcd_e.spawn_off s"
proof -
  assume i: "e_inv s"
  have "u < 5 \<and> thr s ! u = Off" if "t < 5" "thr s ! t = At p l" "abcd_e_prog t p l = Spawn u q e" for t p l u q e
  proof -
    have p: "p = EM_create" "u = nat l + 1" using that(3) by (auto simp: abcd_e_prog_def split: e_pc.splits if_splits)
    have "t = 0"
    proof (rule ccontr)
      assume "t \<noteq> 0"
      then have "e_thr_ok s t" using i that(1) by (simp add: e_inv_def)
      then show False using that(2) p(1) by (simp add: e_thr_ok_def)
    qed
    then have "0 \<le> l" "l < THRNUM" "\<forall>t \<in> {1..4}. thr s ! t = Off \<longleftrightarrow> int t > l"
      using i that(2) p(1) by (auto simp: e_inv_def e_main_ok_def)
    then show ?thesis using p(2) by auto
  qed
  moreover have "length (thr s) = 5" using i by (simp add: e_inv_def)
  ultimately show ?thesis unfolding abcd_e.spawn_off_def by metis
qed

lemma e_inv_main:
  assumes i: "e_inv s" "excl e_crit s'" and f: "fire abcd_e_prog abcd_e_start c 0 s = Some s'"
  shows "e_inv s'"
proof -
  have l: "length (thr s) = 5" using i(1) by (simp add: e_inv_def)
  obtain p k where p: "thr s ! 0 = At p k" "p \<in> {EM_for, EM_create, EM_inc, EM_fail, EM_alarm, EM_join}" "0 \<le> k"
    using i(1) by (auto simp: e_inv_def e_main_ok_def)
  have e: "exec abcd_e_start c 0 k (abcd_e_prog 0 p k) s = Some s'"
    using f l p(1) by (simp add: fire_def split: if_splits)
  have m: "e_main_ok s" "\<forall>t \<in> {1..4}. e_thr_ok s t" "e_data_ok s" using i(1) by (simp_all add: e_inv_def)
  have others: "e_inv s'"
    if s': "thr s' ! 0 = At q j" "q \<in> {EM_for, EM_create, EM_inc, EM_fail, EM_alarm, EM_join}" "shared s' = shared s"
      "e_main_ok s'" "length (thr s') = 5"
      "\<forall>u \<in> {1..4}. thr s' ! u = thr s ! u \<or> thr s ! u = Off \<and> thr s' ! u = At ET_lock (int u - 1)" for q j
  proof -
    have b: "e_broadcasting s \<Longrightarrow> e_broadcasting s'" "e_nexting s' \<longleftrightarrow> e_nexting s"
    proof -
      have cs: "u = 0 \<or> u \<in> {1..4}" if "u < 5" for u :: nat using that by auto
      have same: "thr s' ! u = At r j \<longleftrightarrow> thr s ! u = At r j" if "u < 5" "r \<in> {ET_bcast, ET_next}" for u r j
      proof (cases "u = 0")
        case True
        then show ?thesis using that(2) s'(1,2) p(1,2) by auto
      next
        case False
        then have "thr s' ! u = thr s ! u \<or> thr s ! u = Off \<and> thr s' ! u = At ET_lock (int u - 1)"
          using cs [OF that(1)] s'(6) by blast
        then show ?thesis using that(2) by auto
      qed
      show "e_broadcasting s \<Longrightarrow> e_broadcasting s'" "e_nexting s' \<longleftrightarrow> e_nexting s"
        using same l s'(5) by (auto simp: e_broadcasting_def e_nexting_def)
    qed
    have "e_thr_ok s' u" if u: "u \<in> {1..4}" for u
    proof (cases "thr s' ! u = thr s ! u")
      case True
      show ?thesis by (rule e_thr_frame [OF bspec [OF m(2) u] True _ b(1)]) (simp_all add: s'(3))
    next
      case False
      then have "thr s' ! u = At ET_lock (int u - 1)" using bspec [OF s'(6) u] by simp
      then show ?thesis by (simp add: e_thr_ok_def)
    qed
    then show ?thesis using i(2) s'(3-5) m(3) b(2) by (auto simp: e_inv_def e_data_ok_iff)
  qed
  show ?thesis
  proof (cases "p = EM_create \<and> c \<noteq> Fail")
    case True
    have k: "k < THRNUM" "\<forall>t \<in> {1..4}. thr s ! t = Off \<longleftrightarrow> int t > k" using m(1) p True by (auto simp: e_main_ok_def)
    have s': "s' = s\<lparr>thr := (thr s)[nat k + 1 := At ET_lock k, 0 := At EM_inc k]\<rparr>"
      using e True p(3) by (simp add: exec_def abcd_e_prog_def abcd_e_start_def)
    have th: "thr s' ! 0 = At EM_inc k" "length (thr s') = 5"
      "\<And>t. 0 < t \<Longrightarrow> t < 5 \<Longrightarrow> thr s' ! t = (if t = nat k + 1 then At ET_lock k else thr s ! t)"
      using l p(3) k(1) by (simp_all add: s')
    have "thr s' ! t = Off \<longleftrightarrow> int t > k + 1" if "t \<in> {1..4}" for t
      using th(3) [of t] bspec [OF k(2) that] that p(3) by auto
    then have "e_main_ok s'" using th(1) k(1) p(3) unfolding e_main_ok_def by blast
    moreover have "thr s' ! u = thr s ! u \<or> thr s ! u = Off \<and> thr s' ! u = At ET_lock (int u - 1)"
      if "u \<in> {1..4}" for u
      using th(3) [of u] bspec [OF k(2) that] that p(3) by auto
    ultimately show ?thesis using others [of EM_inc k] th(1,2) by (simp add: s')
  next
    case False
    have one: "thr s ! 1 \<noteq> Fin" using bspec [OF m(2), of 1] by (auto simp: e_thr_ok_def)
    have fin: "e_inv s'"
      if "s' = s\<lparr>thr := (thr s)[0 := At q j]\<rparr>" "e_main_ok s'"
        "q \<in> {EM_for, EM_create, EM_inc, EM_fail, EM_alarm, EM_join}" for q j
      by (rule others [of q j]) (use that l in simp_all)
    note d = exec_def abcd_e_prog_def e_main_ok_def
    show ?thesis
    proof (cases p)
      case EM_for
      then show ?thesis using e m(1) p l fin [of EM_create k] fin [of EM_alarm k]
        by (cases "k < THRNUM") (auto simp: d)
    next
      case EM_create
      then show ?thesis using e m(1) p l False fin [of EM_fail k] by (auto simp: d)
    next
      case EM_inc
      then show ?thesis using e m(1) p l fin [of EM_for "k + 1"] by (auto simp: d)
    next
      case EM_fail
      then have "s' = s\<lparr>halted := Some 1\<rparr>" using e by (simp add: d)
      then show ?thesis using i(1) by simp
    next
      case EM_alarm
      then show ?thesis using e m(1) p l fin [of EM_join 0] by (auto simp: d)
    next
      case EM_join
      then show ?thesis using e m(1) p l one by (auto simp: d split: if_splits)
    qed (use p in simp_all)
  qed
qed

text \<open>The steps of a printing thread.\<close>

lemma e_inv_thread:
  assumes i: "e_inv s" "excl e_crit s'" and t: "t \<in> {1..4}" and f: "fire abcd_e_prog abcd_e_start c t s = Some s'"
  shows "e_inv s'"
proof -
  have l: "length (thr s) = 5" "t < 5" "t \<noteq> 0" using i(1) t by (auto simp: e_inv_def)
  have m: "e_main_ok s" "e_thr_ok s t" "e_data_ok s" "excl e_crit s" using i(1) t by (simp_all add: e_inv_def)
  have hs: "halted s = None" using f by (auto simp: fire_def split: if_splits)
  have uniq: "u = t" if "thr s ! t = At p k" "e_crit p" "thr s ! u = At q j" "e_crit q" "u < 5" for u p k q j
    using excl_unique [OF m(4), of t u] that l by simp
  note d = exec_def abcd_e_prog_def e_thr_ok_def
  show ?thesis
  proof (cases "thr s ! t")
    case (Waits n p k)
    then have "s' = s\<lparr>thr := (thr s)[t := Wakes n p k]\<rparr>" using f l hs by (simp add: fire_def split: if_splits)
    then show ?thesis using e_inv_own [OF i t, of "Wakes n p k"] Waits m(2) l by (simp add: e_thr_ok_def)
  next
    case (Wakes n p k)
    then have "s' = s\<lparr>held := (held s)(n := Some t), thr := (thr s)[t := At p k]\<rparr>"
      using f l hs by (simp add: fire_def split: if_splits)
    then show ?thesis using e_inv_own [OF i t, of "At p k"] Wakes m(2) l by (simp add: e_thr_ok_def)
  next
    case (At p k)
    have e: "exec abcd_e_start c t k (abcd_e_prog t p k) s = Some s'" using f l hs At by (simp add: fire_def)
    have k: "k = int t - 1" "p \<in> {ET_lock, ET_test, ET_wait, ET_write, ET_next, ET_bcast, ET_unlock}"
      using m(2) At by (auto simp: e_thr_ok_def)
    have off: "thr s ! t \<noteq> Off" using At by simp
    note own = e_inv_own [OF i t off]
    have num: "0 \<le> e_num (shared s)" "e_num (shared s) < THRNUM" using m(3) by (simp_all add: e_data_ok_def)
    have "e_inv s'" if "p = ET_lock"
      using e that At l k own [of "At ET_test k"] by (auto simp: d split: if_splits)
    moreover have "e_inv s'" if "p = ET_test"
      using e that At l k own [of "At (if e_num (shared s) \<noteq> k then ET_wait else ET_write) k"]
      by (auto simp: d split: if_splits)
    moreover have "e_inv s'" if "p = ET_wait"
      using e that At l k m(2) own [of "Waits 0 ET_test k"] by (auto simp: d)
    moreover have "e_inv s'" if "p = ET_unlock"
      using e that At l k own [of "At ET_lock k"] by (auto simp: d)
    moreover have "e_inv s'" if p: "p = ET_write"
    proof -
      have s': "s' = s\<lparr>thr := (thr s)[t := At ET_next k], shared := (shared s)\<lparr>e_out := e_out (shared s) @ [letter k]\<rparr>\<rparr>"
        using e p by (simp add: d)
      have n: "e_num (shared s) = k" using m(2) At p by (simp add: e_thr_ok_def)
      have "\<not> e_nexting s"
      proof
        assume "e_nexting s"
        then obtain u j where u: "u < 5" "thr s ! u = At ET_next j" using l(1) by (auto simp: e_nexting_def)
        then have "u = t" using uniq [OF At _ u(2)] p by simp
        then show False using u(2) At p by simp
      qed
      then obtain w where w: "e_out (shared s) = abcd_word w" "int w mod THRNUM = k"
        using m(3) n by (auto simp: e_data_ok_iff)
      have "e_nexting s'" using l by (auto simp: e_nexting_def s' intro!: exI [of _ t])
      moreover have "e_out (shared s') = abcd_word (Suc w)" using w by (simp add: s' abcd_word_Suc)
      moreover have "int (Suc w) mod THRNUM = next_thr k" using w(2) next_thr_mod [of k] num n
        mod_add_left_eq [of "int w" THRNUM 1] by (simp add: add.commute)
      ultimately have dd: "e_data_ok s'" using num n by (auto simp: e_data_ok_iff s')
      have br: "e_broadcasting s'" if b: "e_broadcasting s"
      proof -
        obtain u j where u: "u < 5" "thr s ! u = At ET_bcast j" using b l(1) by (auto simp: e_broadcasting_def)
        then have "u \<noteq> t" using At p by auto
        then show ?thesis using u l(1) by (auto simp: e_broadcasting_def s' intro!: exI [of _ u])
      qed
      have "e_thr_ok s' u" if u: "u \<in> {1..4}" for u
      proof (cases "u = t")
        case True
        then show ?thesis using k n l by (simp add: e_thr_ok_def s')
      next
        case False
        show ?thesis by (rule e_thr_frame [of s u s'])
          (use i(1) u False br in \<open>simp_all add: e_inv_def s'\<close>)
      qed
      moreover have "e_main_ok s'" by (rule e_main_frame [OF m(1)]) (use l At in \<open>auto simp: s' nth_list_update\<close>)
      ultimately show ?thesis using i(2) dd l(1) by (simp add: e_inv_def s')
    qed
    moreover have "e_inv s'" if p: "p = ET_next"
    proof -
      have n: "e_num (shared s) = k" using m(2) At p by (simp add: e_thr_ok_def)
      have s': "s' = s\<lparr>thr := (thr s)[t := At ET_bcast k], shared := (shared s)\<lparr>e_num := next_thr k\<rparr>\<rparr>"
        using e p n by (simp add: d)
      have "e_nexting s" using At p l by (auto simp: e_nexting_def)
      then obtain w where w: "e_out (shared s) = abcd_word w" "int w mod THRNUM = next_thr k"
        using m(3) n by (auto simp: e_data_ok_iff)
      have "\<not> e_nexting s'"
      proof
        assume "e_nexting s'"
        then obtain u j where u: "u < 5" "thr s' ! u = At ET_next j" using l(1) by (auto simp: e_nexting_def s')
        then have v: "u \<noteq> t" "thr s ! u = At ET_next j" using l by (auto simp: s' nth_list_update split: if_splits)
        show False using uniq [OF At _ v(2)] p u(1) v(1) by simp
      qed
      then have dd: "e_data_ok s'" using num n w next_thr_mod [of k] by (auto simp: e_data_ok_iff s')
      have br: "e_broadcasting s'" using l by (auto simp: e_broadcasting_def s' intro!: exI [of _ t])
      have "e_thr_ok s' u" if u: "u \<in> {1..4}" for u
      proof (cases "u = t")
        case True
        then show ?thesis using k l by (simp add: e_thr_ok_def s')
      next
        case False
        have "e_thr_ok s u" using i(1) u by (simp add: e_inv_def)
        moreover have "\<not> e_crit q" if "thr s ! u = At q j" for q j
          using uniq [OF At _ that] p False u by auto
        ultimately show ?thesis using False br
          by (cases "thr s ! u") (auto simp: e_thr_ok_def s')
      qed
      moreover have "e_main_ok s'" by (rule e_main_frame [OF m(1)]) (use l At in \<open>auto simp: s' nth_list_update\<close>)
      ultimately show ?thesis using i(2) dd l(1) by (simp add: e_inv_def s')
    qed
    moreover have "e_inv s'" if p: "p = ET_bcast"
    proof -
      have s': "s' = s\<lparr>thr := (map wake (thr s))[t := At ET_unlock k]\<rparr>" using e p by (simp add: d)
      have "thr s' ! u = At ET_next j \<longleftrightarrow> thr s ! u = At ET_next j" if "u < 5" for u j
        using At p l that by (cases "u = t") (simp_all add: s')
      then have nx: "e_nexting s' \<longleftrightarrow> e_nexting s" using l(1) by (auto simp: e_nexting_def s')
      have "e_thr_ok s' u" if u: "u \<in> {1..4}" for u
      proof (cases "u = t")
        case False
        have "e_thr_ok s u" using i(1) u by (simp add: e_inv_def)
        then show ?thesis using False u l(1) by (cases "thr s ! u") (auto simp: e_thr_ok_def s')
      qed (use k l in \<open>simp add: e_thr_ok_def s'\<close>)
      moreover have "e_main_ok s'"
      proof (rule e_main_frame [OF m(1)])
        show "thr s' ! 0 = thr s ! 0" using m(1) l by (auto simp: s' e_main_ok_def)
      qed (use l At in \<open>auto simp: s' nth_list_update\<close>)
      moreover have "e_data_ok s'" using m(3) nx by (auto simp: e_data_ok_iff s')
      ultimately show ?thesis using i(2) l(1) by (simp add: e_inv_def s')
    qed
    ultimately show ?thesis using k(2) by blast
  qed (use f l hs m(2) in \<open>simp_all add: fire_def\<close>)
qed

lemma e_inv_fire:
  assumes "e_inv s" "fire abcd_e_prog abcd_e_start c t s = Some s'"
  shows "e_inv s'"
proof -
  have x: "excl e_crit s'"
    using abcd_e.excl_fire [OF _ e_spawn_off [OF assms(1)] assms(2)] assms(1) by (simp add: e_inv_def)
  have "t < 5" using assms by (auto simp: fire_def e_inv_def split: if_splits)
  then have "t = 0 \<or> t \<in> {1..4}" by auto
  then show ?thesis
    using e_inv_main [OF assms(1) x] e_inv_thread [OF assms(1) x] assms(2) by auto
qed

lemma e_inv_can_run:
  assumes i: "e_inv s" and h: "halted s = None"
  shows "can_run abcd_e_prog abcd_e_start s"
proof -
  have m: "length (thr s) = 5" "excl e_crit s" "e_main_ok s" "\<forall>t \<in> {1..4}. e_thr_ok s t" "e_data_ok s"
    using i by (simp_all add: e_inv_def)
  obtain p k where p: "thr s ! 0 = At p k" "p \<in> {EM_for, EM_create, EM_inc, EM_fail, EM_alarm, EM_join}"
    "p = EM_join \<Longrightarrow> k = 0 \<and> (\<forall>t \<in> {1..4}. thr s ! t \<noteq> Off)"
    using m(3) by (auto simp: e_main_ok_def)
  note f = fire_def exec_def abcd_e_prog_def
  show ?thesis
  proof (cases "p = EM_join")
    case False
    then have "fire abcd_e_prog abcd_e_start Go 0 s \<noteq> None" using p(1,2) h m(1) by (auto simp: f)
    then show ?thesis by (rule can_runI) simp
  next
    case True
    have on: "thr s ! t \<noteq> Off" "e_thr_ok s t" if "t \<in> {1..4}" for t using p(3) [OF True] m(4) that by auto
    show ?thesis
    proof (cases "held s 0")
      case (Some t)
      then have t: "t < 5" "in_crit e_crit (thr s ! t)" using m(1,2) by (auto simp: excl_def)
      then obtain q j where q: "thr s ! t = At q j" "e_crit q" by (cases "thr s ! t") auto
      then have "fire abcd_e_prog abcd_e_start Go t s \<noteq> None" using h m(1) t(1) by (auto simp: f)
      then show ?thesis by (rule can_runI) simp
    next
      case None
      have nc: "\<not> in_crit e_crit (thr s ! t)" if "t < 5" for t using exclD(1) [OF m(2), of t] that None m(1) by simp
      let ?t = "nat (e_num (shared s)) + 1"
      have num: "0 \<le> e_num (shared s)" "e_num (shared s) < THRNUM" using m(5) by (simp_all add: e_data_ok_def)
      then have t: "?t \<in> {1..4}" "int ?t - 1 = e_num (shared s)" by auto
      have "fire abcd_e_prog abcd_e_start Go ?t s \<noteq> None"
      proof (cases "thr s ! ?t")
        case (At q j)
        then have "q = ET_lock" using on(2) [OF t(1)] nc [of ?t] num by (auto simp: e_thr_ok_def)
        then show ?thesis using At None h m(1) num by (simp add: f)
      next
        case (Waits n q j)
        then have "e_broadcasting s" using on(2) [OF t(1)] t(2) by (auto simp: e_thr_ok_def)
        then obtain u j where "u < 5" "thr s ! u = At ET_bcast j" using m(1) by (auto simp: e_broadcasting_def)
        then show ?thesis using nc [of u] by simp
      next
        case (Wakes n q j)
        then have "n = 0" using exclD(2) [OF m(2), of ?t] m(1) num by simp
        then show ?thesis using Wakes None h m(1) num by (simp add: f)
      qed (use on [OF t(1)] in \<open>simp_all add: e_thr_ok_def\<close>)
      then show ?thesis by (rule can_runI) simp
    qed
  qed
qed

text \<open>C35: The program with the condition variable: in every state it can reach, under every scheduling and
  with spurious wakeups, at most one thread is between \<open>lock\<close> and \<open>unlock\<close>, the output is a prefix of
  \<open>abcdabcd...\<close>, and unless the process has ended some thread can run, so no wakeup is ever lost.\<close>
theorem abcd_e_order:
  assumes "reach abcd_e_prog abcd_e_start abcd_e_init s"
  shows "(\<exists>n. e_out (shared s) = abcd_word n)
    \<and> (\<forall>t < 5. \<forall>u < 5. in_crit e_crit (thr s ! t) \<longrightarrow> in_crit e_crit (thr s ! u) \<longrightarrow> u = t)
    \<and> (halted s = None \<longrightarrow> can_run abcd_e_prog abcd_e_start s)"
proof -
  have i: "e_inv s" by (rule reach_inv [OF assms]) (use e_inv_init e_inv_fire in auto)
  then have "length (thr s) = 5" "excl e_crit s" by (simp_all add: e_inv_def)
  then have "u = t" if "t < 5" "u < 5" "in_crit e_crit (thr s ! t)" "in_crit e_crit (thr s ! u)" for t u
    using excl_unique that by metis
  moreover have "\<exists>n. e_out (shared s) = abcd_word n" using i by (auto simp: e_inv_def e_data_ok_def)
  ultimately show ?thesis using e_inv_can_run [OF i] by blast
qed

text \<open>A run in which thread b waits, a prints, and b prints.\<close>

definition abcd_e_sched :: "(choice \<times> nat) list" where
  "abcd_e_sched = replicate 13 (Go, 0) @ replicate 3 (Go, 2) @ replicate 6 (Go, 1) @ replicate 3 (Go, 2)"

lemma abcd_e_order_witness:
  "\<exists>s. run_sched abcd_e_prog abcd_e_start abcd_e_sched abcd_e_init = Some s \<and> e_out (shared s) = ''ab''
    \<and> can_run abcd_e_prog abcd_e_start s"
proof -
  have "map_option (\<lambda>s. (e_out (shared s), halted s)) (run_sched abcd_e_prog abcd_e_start abcd_e_sched abcd_e_init)
      = Some (''ab'', None)"
    by code_simp
  then obtain s where s: "run_sched abcd_e_prog abcd_e_start abcd_e_sched abcd_e_init = Some s"
    "e_out (shared s) = ''ab''" "halted s = None" by auto
  with abcd_e_order [OF run_sched_reach [OF reach.init s(1)]] show ?thesis by blast
qed

section \<open>With a chain of mutexes\<close>

datatype a_pc = AM_for | AM_lock | AM_create | AM_inc | AM_fail | AM_unlock | AM_alarm | AM_join | AM_jinc
  | AT_lock | AT_write | AT_unlock

text \<open>The shared state is the output; \<open>pthread_mutex_init\<close> leaves a mutex unlocked, as it is here from the start.\<close>

definition abcd_prog :: "(a_pc, int, string) program" where
  "abcd_prog t p i = (case p of
       AM_for \<Rightarrow> Act (\<lambda>s. (if i < THRNUM then AM_lock else AM_unlock, i, s))
     | AM_lock \<Rightarrow> Lock (nat i) AM_create
     | AM_create \<Rightarrow> Spawn (nat i + 1) AM_inc AM_fail
     | AM_inc \<Rightarrow> Act (\<lambda>s. (AM_for, i + 1, s))
     | AM_fail \<Rightarrow> Halt 1
     | AM_unlock \<Rightarrow> Unlock 0 AM_alarm
     | AM_alarm \<Rightarrow> Act (\<lambda>s. (AM_join, 0, s))
     | AM_join \<Rightarrow> if i < THRNUM then Join (nat i + 1) AM_jinc else Halt 0
     | AM_jinc \<Rightarrow> Act (\<lambda>s. (AM_join, i + 1, s))
     | AT_lock \<Rightarrow> Lock (nat i) AT_write
     | AT_write \<Rightarrow> Act (\<lambda>s. (AT_unlock, i, s @ [letter i]))
     | AT_unlock \<Rightarrow> Unlock (nat (next_thr i)) AT_lock)"

definition abcd_start :: "nat \<Rightarrow> a_pc \<times> int" where
  "abcd_start u = (AT_lock, int u - 1)"

definition abcd_init :: "(a_pc, int, string) sys" where
  "abcd_init = \<lparr>held = (\<lambda>_. None), thr = At AM_for 0 # replicate 4 Off, halted = None, shared = ''''\<rparr>"

text \<open>
  While \<open>main\<close> creates the threads every mutex of a thread is locked and nothing is printed. Afterwards a
  token goes round: mutex \<open>n\<close> is free (phase 0), thread \<open>n\<close> is about to write (1), or to unlock (2).
\<close>

definition a_starting :: "(a_pc, int, string) sys \<Rightarrow> bool" where
  "a_starting s \<longleftrightarrow> shared s = '''' \<and> (\<exists>p i. thr s ! 0 = At p i \<and> 0 \<le> i \<and> i \<le> THRNUM
     \<and> p \<in> {AM_for, AM_lock, AM_create, AM_inc, AM_fail, AM_unlock}
     \<and> (p \<in> {AM_lock, AM_create, AM_inc, AM_fail} \<longrightarrow> i < THRNUM) \<and> (p = AM_unlock \<longrightarrow> i = THRNUM)
     \<and> (\<forall>m < 4. held s m = (if int m < i + (if p \<in> {AM_create, AM_inc, AM_fail} then 1 else 0) then Some 0 else None))
     \<and> (\<forall>t \<in> {1..4}. thr s ! t = (if int t \<le> i + (if p = AM_inc then 1 else 0) then At AT_lock (int t - 1) else Off)))"

definition a_token :: "(a_pc, int, string) sys \<Rightarrow> nat \<Rightarrow> nat \<Rightarrow> bool" where
  "a_token s n ph \<longleftrightarrow> n < 4 \<and> (\<exists>i. thr s ! 0 = At AM_alarm i \<or> thr s ! 0 = At AM_join 0)
     \<and> (\<forall>m < 4. held s m = None \<longleftrightarrow> ph = 0 \<and> m = n)
     \<and> (\<forall>m < 4. held s m \<in> {None, Some 0, Some (m + 1)})
     \<and> (\<forall>t \<in> {1..4}. thr s ! t = At (if t = n + 1 \<and> ph = 1 then AT_write
          else if t = n + 1 \<and> ph = 2 then AT_unlock else AT_lock) (int t - 1))
     \<and> (\<exists>w. shared s = abcd_word w \<and> w mod 4 = (if ph = 2 then (n + 1) mod 4 else n))"

definition a_inv :: "(a_pc, int, string) sys \<Rightarrow> bool" where
  "a_inv s \<longleftrightarrow> length (thr s) = 5 \<and> (a_starting s \<or> (\<exists>n ph. ph < 3 \<and> a_token s n ph))"

lemma a_inv_init: "a_inv abcd_init"
  by (auto simp: a_inv_def a_starting_def abcd_init_def nth_Cons' split: if_splits)

lemma a_inv_starting:
  assumes "a_starting s" "length (thr s) = 5" and f: "fire abcd_prog abcd_start c t s = Some s'"
  shows "a_inv s'"
proof -
  have hs: "halted s = None" "t < 5" using f assms(2) by (auto simp: fire_def split: if_splits)
  obtain p i where p: "shared s = ''''" "thr s ! 0 = At p i" "0 \<le> i" "i \<le> THRNUM"
    "p \<in> {AM_for, AM_lock, AM_create, AM_inc, AM_fail, AM_unlock}"
    "p \<in> {AM_lock, AM_create, AM_inc, AM_fail} \<longrightarrow> i < THRNUM" "p = AM_unlock \<longrightarrow> i = THRNUM"
    "\<And>m. m < 4 \<Longrightarrow> held s m = (if int m < i + (if p \<in> {AM_create, AM_inc, AM_fail} then 1 else 0) then Some 0 else None)"
    "\<And>t. t \<in> {1..4} \<Longrightarrow> thr s ! t = (if int t \<le> i + (if p = AM_inc then 1 else 0) then At AT_lock (int t - 1) else Off)"
    using assms(1) unfolding a_starting_def by blast
  have t0: "t = 0"
  proof (rule ccontr)
    assume "t \<noteq> 0"
    then have t: "t \<in> {1..4}" using hs(2) by auto
    show False
    proof (cases "thr s ! t = Off")
      case True
      then show False using f hs assms(2) by (simp add: fire_def)
    next
      case False
      then have b: "int t \<le> i + (if p = AM_inc then 1 else 0)" "thr s ! t = At AT_lock (int t - 1)"
        using p(9) [OF t] by (simp_all split: if_splits)
      have "nat (int t - 1) < 4" "int (nat (int t - 1)) < i + (if p \<in> {AM_create, AM_inc, AM_fail} then 1 else 0)"
        using b(1) t by (auto split: if_splits)
      then have "held s (nat (int t - 1)) = Some 0" using p(8) by simp
      then show False using f hs assms(2) b(2) by (simp add: fire_def exec_def abcd_prog_def)
    qed
  qed
  have e: "exec abcd_start c 0 i (abcd_prog 0 p i) s = Some s'" using f p(2) hs assms(2) t0 by (simp add: fire_def)
  have len: "length (thr s') = 5" using fire_length [OF f] assms(2) by simp
  have start: "a_inv s'"
    if "thr s' ! 0 = At q j" "shared s' = ''''" "0 \<le> j" "j \<le> THRNUM"
      "q \<in> {AM_for, AM_lock, AM_create, AM_inc, AM_fail, AM_unlock}"
      "q \<in> {AM_lock, AM_create, AM_inc, AM_fail} \<longrightarrow> j < THRNUM" "q = AM_unlock \<longrightarrow> j = THRNUM"
      "\<And>m. m < 4 \<Longrightarrow> held s' m = (if int m < j + (if q \<in> {AM_create, AM_inc, AM_fail} then 1 else 0) then Some 0 else None)"
      "\<And>t. t \<in> {1..4} \<Longrightarrow> thr s' ! t = (if int t \<le> j + (if q = AM_inc then 1 else 0) then At AT_lock (int t - 1) else Off)"
    for q j
    using that len unfolding a_inv_def a_starting_def by blast
  note d = exec_def abcd_prog_def
  show ?thesis
  proof (cases p)
    case AM_for
    then have "s' = s\<lparr>thr := (thr s)[0 := At (if i < THRNUM then AM_lock else AM_unlock) i]\<rparr>" using e by (simp add: d)
    then show ?thesis
      by (intro start [of "if i < THRNUM then AM_lock else AM_unlock" i]) (use p AM_for assms(2) in auto)
  next
    case AM_lock
    then have s': "s' = s\<lparr>held := (held s)(nat i := Some 0), thr := (thr s)[0 := At AM_create i]\<rparr>"
      using e by (simp add: d split: if_splits)
    show ?thesis
    proof (rule start [of AM_create i])
      fix m :: nat assume "m < 4"
      then show "held s' m = (if int m < i + (if AM_create \<in> {AM_create, AM_inc, AM_fail} then 1 else 0) then Some 0 else None)"
        using p(8) [of m] AM_lock p(3) by (auto simp: s')
    qed (use p AM_lock assms(2) in \<open>auto simp: s'\<close>)
  next
    case AM_create
    show ?thesis
    proof (cases "c = Fail")
      case True
      then have "s' = s\<lparr>thr := (thr s)[0 := At AM_fail i]\<rparr>" using e AM_create by (simp add: d)
      then show ?thesis by (intro start [of AM_fail i]) (use p AM_create assms(2) in auto)
    next
      case False
      then have s': "s' = s\<lparr>thr := (thr s)[nat i + 1 := At AT_lock i, 0 := At AM_inc i]\<rparr>"
        using e AM_create p(3) by (simp add: d abcd_start_def)
      show ?thesis
      proof (rule start [of AM_inc i])
        fix u :: nat assume u: "u \<in> {1..4}"
        show "thr s' ! u = (if int u \<le> i + (if AM_inc = AM_inc then 1 else 0) then At AT_lock (int u - 1) else Off)"
        proof (cases "u = nat i + 1")
          case True
          then show ?thesis using p(3) u assms(2) by (simp add: s')
        next
          case F: False
          then have "thr s' ! u = thr s ! u" using u by (simp add: s')
          moreover have "int u \<le> i \<longleftrightarrow> int u \<le> i + 1" using F p(3) by auto
          ultimately show ?thesis using p(9) [OF u] AM_create by auto
        qed
      qed (use p AM_create assms(2) in \<open>auto simp: s'\<close>)
    qed
  next
    case AM_inc
    then have "s' = s\<lparr>thr := (thr s)[0 := At AM_for (i + 1)]\<rparr>" using e by (simp add: d)
    then show ?thesis by (intro start [of AM_for "i + 1"]) (use p AM_inc assms(2) in auto)
  next
    case AM_fail
    then have "s' = s\<lparr>halted := Some 1\<rparr>" using e by (simp add: d)
    then show ?thesis by (intro start [of AM_fail i]) (use p AM_fail assms(2) in auto)
  next
    case AM_unlock
    then have s': "s' = s\<lparr>held := (held s)(0 := None), thr := (thr s)[0 := At AM_alarm i]\<rparr>" using e by (simp add: d)
    have "a_token s' 0 0"
      unfolding a_token_def
    proof (intro conjI allI ballI impI)
      show "\<exists>w. shared s' = abcd_word w \<and> w mod 4 = (if (0::nat) = 2 then (0 + 1) mod 4 else 0)"
        using p(1) by (intro exI [of _ 0]) (simp add: s' abcd_word_def)
    qed (use p AM_unlock assms(2) in \<open>auto simp: s'\<close>)
    then show ?thesis using len by (auto simp: a_inv_def)
  qed (use p in simp_all)
qed

lemma a_inv_token:
  assumes tok: "a_token s n ph" "ph < 3" "length (thr s) = 5" and f: "fire abcd_prog abcd_start c t s = Some s'"
  shows "a_inv s'"
proof -
  have hs: "halted s = None" "t < 5" using f assms(3) by (auto simp: fire_def split: if_splits)
  obtain i w where p: "n < 4" "thr s ! 0 = At AM_alarm i \<or> thr s ! 0 = At AM_join 0"
    "\<And>m. m < 4 \<Longrightarrow> held s m = None \<longleftrightarrow> ph = 0 \<and> m = n"
    "\<And>m. m < 4 \<Longrightarrow> held s m \<in> {None, Some 0, Some (m + 1)}"
    "\<And>t. t \<in> {1..4} \<Longrightarrow> thr s ! t = At (if t = n + 1 \<and> ph = 1 then AT_write
          else if t = n + 1 \<and> ph = 2 then AT_unlock else AT_lock) (int t - 1)"
    "shared s = abcd_word w" "w mod 4 = (if ph = 2 then (n + 1) mod 4 else n)"
    using tok(1) unfolding a_token_def by blast
  have len: "length (thr s') = 5" using fire_length [OF f] assms(3) by simp
  note d = exec_def abcd_prog_def
  have go: "a_inv s'"
    if "n' < 4" "ph' < 3" "thr s' ! 0 = At AM_alarm j \<or> thr s' ! 0 = At AM_join 0"
      "\<And>m. m < 4 \<Longrightarrow> held s' m = None \<longleftrightarrow> ph' = 0 \<and> m = n'"
      "\<And>m. m < 4 \<Longrightarrow> held s' m \<in> {None, Some 0, Some (m + 1)}"
      "\<And>t. t \<in> {1..4} \<Longrightarrow> thr s' ! t = At (if t = n' + 1 \<and> ph' = 1 then AT_write
          else if t = n' + 1 \<and> ph' = 2 then AT_unlock else AT_lock) (int t - 1)"
      "shared s' = abcd_word v" "v mod 4 = (if ph' = 2 then (n' + 1) mod 4 else n')" for n' ph' :: nat and j :: int and v :: nat
    using that len unfolding a_inv_def a_token_def by blast
  show ?thesis
  proof (cases "t = 0")
    case True
    have one: "thr s ! 1 \<noteq> Fin" using p(5) [of 1] by auto
    have "s' = s\<lparr>thr := (thr s)[0 := At AM_join 0]\<rparr>"
      using f True hs assms(3) p(2) one by (auto simp: fire_def d split: if_splits)
    then show ?thesis by (intro go [of n ph i w]) (use p assms(2,3) in auto)
  next
    case False
    then have t: "t \<in> {1..4}" using hs(2) by auto
    let ?k = "int t - 1"
    obtain q where q: "thr s ! t = At q ?k"
      "q = (if t = n + 1 \<and> ph = 1 then AT_write else if t = n + 1 \<and> ph = 2 then AT_unlock else AT_lock)"
      using p(5) [OF t] by blast
    have e: "exec abcd_start c t ?k (abcd_prog t q ?k) s = Some s'" using f q(1) hs assms(3) by (simp add: fire_def)
    have nt: "nat ?k = t - 1" "t - 1 < 4" using t by auto
    consider "t = n + 1 \<and> ph = 1" | "t = n + 1 \<and> ph = 2" | "q = AT_lock" using q(2) by (auto split: if_splits)
    then show ?thesis
    proof cases
      case 1
      then have s': "s' = s\<lparr>thr := (thr s)[t := At AT_unlock ?k], shared := shared s @ [letter ?k]\<rparr>"
        using e q(2) by (simp add: d)
      have v: "w mod 4 = n" "letter (int w mod THRNUM) = letter ?k" using p(7) 1 zmod_int [of w 4] by simp_all
      show ?thesis
      proof (rule go [of n 2 i "Suc w"])
        show "shared s' = abcd_word (Suc w)" using p(6) v(2) by (simp add: s' abcd_word_Suc)
        show "Suc w mod 4 = (if (2::nat) = 2 then (n + 1) mod 4 else n)"
          using v(1) mod_Suc_eq [of w 4] by simp
        fix u :: nat assume "u \<in> {1..4}"
        then show "thr s' ! u = At (if u = n + 1 \<and> (2::nat) = 1 then AT_write
            else if u = n + 1 \<and> (2::nat) = 2 then AT_unlock else AT_lock) (int u - 1)"
          using p(5) [of u] 1 assms(3) by (cases "u = t") (simp_all add: s')
      qed (use p 1 t in \<open>auto simp: s'\<close>)
    next
      case 2
      let ?n = "(n + 1) mod 4"
      have nx: "nat (next_thr ?k) = ?n" using 2 p(1) by (auto simp: next_thr_def)
      have s': "s' = s\<lparr>held := (held s)(?n := None), thr := (thr s)[t := At AT_lock ?k]\<rparr>"
        using e q(2) 2 nx by (simp add: d)
      show ?thesis
      proof (rule go [of ?n 0 i w])
        fix u :: nat assume "u \<in> {1..4}"
        then show "thr s' ! u = At (if u = ?n + 1 \<and> (0::nat) = 1 then AT_write
            else if u = ?n + 1 \<and> (0::nat) = 2 then AT_unlock else AT_lock) (int u - 1)"
          using p(5) [of u] 2 assms(3) by (cases "u = t") (simp_all add: s')
      qed (use p 2 t in \<open>auto simp: s'\<close>)
    next
      case 3
      have free: "held s (t - 1) = None" and s': "s' = s\<lparr>held := (held s)(t - 1 := Some t), thr := (thr s)[t := At AT_write ?k]\<rparr>"
        using e 3 nt by (auto simp: d split: if_splits)
      then have ph: "ph = 0" "t = n + 1" using p(3) [OF nt(2)] t by auto
      show ?thesis
      proof (rule go [of n 1 i w])
        fix u :: nat assume "u \<in> {1..4}"
        then show "thr s' ! u = At (if u = n + 1 \<and> (1::nat) = 1 then AT_write
            else if u = n + 1 \<and> (1::nat) = 2 then AT_unlock else AT_lock) (int u - 1)"
          using p(5) [of u] ph assms(3) by (cases "u = t") (simp_all add: s')
      qed (use p ph t in \<open>auto simp: s'\<close>)
    qed
  qed
qed

lemma a_inv_fire: "a_inv s \<Longrightarrow> fire abcd_prog abcd_start c t s = Some s' \<Longrightarrow> a_inv s'"
  using a_inv_starting a_inv_token unfolding a_inv_def by blast

lemma a_inv_can_run:
  assumes i: "a_inv s" and h: "halted s = None"
  shows "can_run abcd_prog abcd_start s"
proof -
  have len: "length (thr s) = 5" using i by (simp add: a_inv_def)
  note d = fire_def exec_def abcd_prog_def
  consider "a_starting s" | n ph where "ph < 3" "a_token s n ph" using i by (auto simp: a_inv_def)
  then show ?thesis
  proof cases
    case 1
    then obtain p k where p: "thr s ! 0 = At p k" "0 \<le> k" "p \<in> {AM_for, AM_lock, AM_create, AM_inc, AM_fail, AM_unlock}"
      "p = AM_lock \<longrightarrow> held s (nat k) = None"
      unfolding a_starting_def by fastforce
    then have "fire abcd_prog abcd_start Go 0 s \<noteq> None" using h len by (auto simp: d)
    then show ?thesis by (rule can_runI) simp
  next
    case 2
    then have n: "n < 4" "held s n = None \<longleftrightarrow> ph = 0"
      "thr s ! (n + 1) = At (if ph = 1 then AT_write else if ph = 2 then AT_unlock else AT_lock) (int n)"
      unfolding a_token_def by auto
    then have "fire abcd_prog abcd_start Go (n + 1) s \<noteq> None" using h len 2(1) by (auto simp: d)
    then show ?thesis by (rule can_runI) simp
  qed
qed

text \<open>The program with the chain of mutexes: in every state it can reach, under every scheduling, the output
  is a prefix of \<open>abcdabcd...\<close>, and unless the process has ended some thread can run. Every mutex that a
  thread unlocks was locked by another thread, or by \<open>main\<close>: the program relies on mutexes that allow this,
  which POSIX leaves undefined for the default kind.\<close>
theorem abcd_order:
  assumes "reach abcd_prog abcd_start abcd_init s"
  shows "(\<exists>n. shared s = abcd_word n)
    \<and> (halted s = None \<longrightarrow> can_run abcd_prog abcd_start s)
    \<and> (\<forall>t \<in> {1..4}. \<forall>k. thr s ! t = At AT_unlock k \<longrightarrow> (\<exists>u. held s (nat (next_thr k)) = Some u \<and> u \<noteq> t))"
proof -
  have i: "a_inv s" by (rule reach_inv [OF assms]) (use a_inv_init a_inv_fire in auto)
  have w: "\<exists>n. shared s = abcd_word n"
  proof (cases "a_starting s")
    case True
    then show ?thesis by (auto simp: a_starting_def abcd_word_def intro: exI [of _ 0])
  next
    case False
    then obtain n ph where "a_token s n ph" using i unfolding a_inv_def by blast
    then show ?thesis unfolding a_token_def by blast
  qed
  have "\<exists>u. held s (nat (next_thr k)) = Some u \<and> u \<noteq> t" if t: "t \<in> {1..4}" "thr s ! t = At AT_unlock k" for t k
  proof -
    have "\<not> a_starting s"
    proof
      assume "a_starting s"
      then obtain b where "thr s ! t = (if b then At AT_lock (int t - 1) else Off)"
        using t(1) unfolding a_starting_def by blast
      then show False using t(2) by (cases b) simp_all
    qed
    then obtain n ph where tok: "a_token s n ph" "ph < 3" using i by (auto simp: a_inv_def)
    then have k: "t = n + 1" "ph = 2" "k = int n" "n < 4"
      using t unfolding a_token_def by (auto split: if_splits)
    have nx: "nat (next_thr k) = (n + 1) mod 4" using k(3,4) by (auto simp: next_thr_def)
    have "held s ((n + 1) mod 4) \<noteq> None \<and> held s ((n + 1) mod 4) \<in> {None, Some 0, Some ((n + 1) mod 4 + 1)}"
      using tok(1) k(2) unfolding a_token_def by simp
    moreover have "(n + 1) mod 4 + 1 \<noteq> t" using k(1,4) by (cases "n = 3") auto
    ultimately show ?thesis using t(1) unfolding nx by auto
  qed
  then show ?thesis using w a_inv_can_run [OF i] by blast
qed

lemma abcd_order_witness:
  "\<exists>s. run_sched abcd_prog abcd_start (replicate 18 (Go, 0) @ replicate 3 (Go, 1) @ replicate 3 (Go, 2)) abcd_init = Some s
    \<and> shared s = ''ab'' \<and> can_run abcd_prog abcd_start s"
proof -
  let ?r = "run_sched abcd_prog abcd_start (replicate 18 (Go, 0) @ replicate 3 (Go, 1) @ replicate 3 (Go, 2)) abcd_init"
  have "map_option (\<lambda>s. (shared s, halted s)) ?r = Some (''ab'', None)" by code_simp
  then obtain s where s: "?r = Some s" "shared s = ''ab''" "halted s = None" by auto
  with abcd_order [OF run_sched_reach [OF reach.init s(1)]] show ?thesis by blast
qed

end
