(* ===== verification/SlotTable.thy ===== *)
theory SlotTable
  imports Prelude
begin

text \<open>
  The pointer tables of the job engine (\<open>rel_job\<close>), the token bucket libraries (\<open>job\<close>) and the
  timer library (\<open>job\<close>): an array of pointers in which \<open>NULL\<close> (here \<open>None\<close>) marks a free slot, and
  a loop that looks for the first one. The lemmas are what the clients use: the slot found is free
  and inside the table, and there is none exactly when the table is full.
\<close>

section \<open>Looking for a free slot\<close>

text \<open>\<open>for (i = 0; i < MAX; i++) if (tab[i] == NULL) return i; return -1;\<close> from index \<open>i\<close>.\<close>

fun free_from :: "int \<Rightarrow> 'a option list \<Rightarrow> int" where
  "free_from i [] = - 1"
| "free_from i (None # tab) = i"
| "free_from i (Some x # tab) = free_from (i + 1) tab"

definition free_pos :: "'a option list \<Rightarrow> int" where
  "free_pos tab = free_from 0 tab"

text \<open>The occupied slots.\<close>

definition used :: "'a option list \<Rightarrow> nat" where
  "used tab = length (filter (\<lambda>s. s \<noteq> None) tab)"

lemma free_from_range:
  "free_from i tab = - 1 \<and> None \<notin> set tab
   \<or> (\<exists>n < length tab. free_from i tab = i + int n \<and> tab ! n = None \<and> (\<forall>m < n. tab ! m \<noteq> None))"
proof (induction i tab rule: free_from.induct)
  case (3 i x tab)
  then show ?case
  proof
    assume "\<exists>n < length tab. free_from (i + 1) tab = i + 1 + int n \<and> tab ! n = None \<and> (\<forall>m < n. tab ! m \<noteq> None)"
    then obtain n where "n < length tab" "free_from (i + 1) tab = i + 1 + int n" "tab ! n = None"
      "\<forall>m < n. tab ! m \<noteq> None" by blast
    then have "Suc n < length (Some x # tab) \<and> free_from i (Some x # tab) = i + int (Suc n)
        \<and> (Some x # tab) ! Suc n = None \<and> (\<forall>m < Suc n. (Some x # tab) ! m \<noteq> None)"
      by (auto simp: less_Suc_eq_0_disj)
    then show ?thesis by blast
  qed auto
qed auto

lemma free_pos_cases:
  obtains (full) "free_pos tab = - 1" "None \<notin> set tab"
  | (free) n where "free_pos tab = int n" "n < length tab" "tab ! n = None" "\<forall>m < n. tab ! m \<noteq> None"
  using free_from_range [of 0 tab] by (auto simp: free_pos_def)

lemma free_pos_neg_iff: "free_pos tab < 0 \<longleftrightarrow> None \<notin> set tab"
  by (cases tab rule: free_pos_cases) (auto simp: in_set_conv_nth)

lemma free_pos_nth:
  "0 \<le> free_pos tab \<Longrightarrow> nat (free_pos tab) < length tab \<and> tab ! nat (free_pos tab) = None"
  by (cases tab rule: free_pos_cases) auto

lemma free_pos_replicate: "free_pos (replicate (Suc n) None) = 0"
  by (simp add: free_pos_def)

lemma used_le: "used tab \<le> length tab"
  by (simp add: used_def)

lemma used_Cons [simp]: "used (x # tab) = (if x = None then used tab else Suc (used tab))"
  by (simp add: used_def)

lemma used_full_iff: "used tab = length tab \<longleftrightarrow> None \<notin> set tab"
proof (induction tab)
  case (Cons x tab)
  then show ?case using used_le [of tab] by auto
qed (simp add: used_def)

lemma used_update_Some: "n < length tab \<Longrightarrow> tab ! n = None \<Longrightarrow> used (tab[n := Some x]) = used tab + 1"
proof (induction tab arbitrary: n)
  case (Cons y ys)
  then show ?case by (cases n) auto
qed simp

lemma used_update_None: "n < length tab \<Longrightarrow> tab ! n \<noteq> None \<Longrightarrow> used (tab[n := None]) + 1 = used tab"
proof (induction tab arbitrary: n)
  case (Cons y ys)
  then show ?case by (cases n) auto
qed simp

text \<open>A step that changes every occupied slot on its own (a tick of the timer).\<close>

lemma used_map: "used (map (map_option f) tab) = used tab"
  by (induction tab) (auto simp: used_def)

end
