(* ===== verification/AnyTimer.thy ===== *)
theory AnyTimer
  imports SlotTable
begin

text \<open>
  The timer library \<open>parallel/signal/anytimer/anytimer.c\<close>: up to 1024 jobs, each with a countdown
  that the handler of the periodic alarm decrements; at zero the callback runs, once or periodically.
  Callbacks are opaque (a function and its argument); a call is recorded in the log \<open>fired\<close>, with the
  slot for the statements. The lemmas follow one slot through any sequence of operations on the
  library and show when exactly its callback runs, what the result codes mean, and when a wait ends.
\<close>

section \<open>State\<close>

abbreviation JOB_MAX :: nat where "JOB_MAX \<equiv> 1024"

datatype at_state = AT_RUNNING | AT_CANCELED | AT_OVER

record ('f, 'a) at_job_st =
  at_state :: at_state
  sec :: int
  time_remain :: int
  repeat :: int
  jobp :: 'f
  arg :: 'a

record ('f, 'a) at_lib =
  at_job :: "('f, 'a) at_job_st option list"
  at_inited :: bool
  fired :: "(nat \<times> 'f \<times> 'a) list"

section \<open>Operations\<close>

text \<open>What the handler does to one slot: the job afterwards and whether its callback was called.\<close>

definition job_tick :: "('f, 'a) at_job_st \<Rightarrow> (('f, 'a) at_job_st \<times> bool) option" where
  "job_tick j =
     (if at_state j = AT_RUNNING then do {
        t \<leftarrow> cint (time_remain j - 1);
        let j = j\<lparr>time_remain := t\<rparr>;
        if time_remain j = 0
        then Some (if repeat j = 1 then j\<lparr>time_remain := sec j\<rparr> else j\<lparr>at_state := AT_OVER\<rparr>, True)
        else Some (j, False) }
      else Some (j, False))"

fun at_ticks_from ::
  "nat \<Rightarrow> ('f, 'a) at_job_st option list \<Rightarrow>
   (('f, 'a) at_job_st option list \<times> (nat \<times> 'f \<times> 'a) list) option" where
  "at_ticks_from i [] = Some ([], [])"
| "at_ticks_from i (None # tab) = do {
     (tab', log) \<leftarrow> at_ticks_from (Suc i) tab;
     Some (None # tab', log) }"
| "at_ticks_from i (Some j # tab) = do {
     (j', hit) \<leftarrow> job_tick j;
     (tab', log) \<leftarrow> at_ticks_from (Suc i) tab;
     Some (Some j' # tab', (if hit then [(i, jobp j, arg j)] else []) @ log) }"

abbreviation AT_SI_KERNEL :: int where "AT_SI_KERNEL \<equiv> 128"

definition at_alrm_action :: "int \<Rightarrow> ('f, 'a) at_lib \<Rightarrow> ('f, 'a) at_lib option" where
  "at_alrm_action si_code l =
     (if si_code \<noteq> AT_SI_KERNEL then Some l
      else do {
        (tab, log) \<leftarrow> at_ticks_from 0 (at_job l);
        Some (l\<lparr>at_job := tab, fired := fired l @ log\<rparr>) })"

text \<open>The results of \<open>sigaction\<close> and \<open>setitimer\<close>; the value is the exit status, if any.\<close>

definition at_module_load :: "int \<Rightarrow> int \<Rightarrow> int option" where
  "at_module_load ret1 ret2 = (if ret1 < 0 then Some 1 else if ret2 < 0 then Some 1 else None)"

definition at_module_unload :: "int \<Rightarrow> int option" where
  "at_module_unload ret = (if ret < 0 then Some 1 else None)"

definition at_get_free_pos :: "('f, 'a) at_lib \<Rightarrow> int" where
  "at_get_free_pos l = free_pos (at_job l)"

text \<open>
  \<open>at_addjob\<close>: \<open>mem\<close> tells whether \<open>malloc\<close> succeeds. The left value is the status of an \<open>exit\<close> in
  \<open>module_load\<close>.
\<close>

definition at_addjob ::
  "int \<Rightarrow> int \<Rightarrow> bool \<Rightarrow> int \<Rightarrow> 'f \<Rightarrow> 'a \<Rightarrow> ('f, 'a) at_lib \<Rightarrow> int + int \<times> ('f, 'a) at_lib" where
  "at_addjob ret1 ret2 mem s f x l =
     (if s < 0 then Inr (- EINVAL, l)
      else case (if \<not> at_inited l then at_module_load ret1 ret2 else None) of
        Some n \<Rightarrow> Inl n
      | None \<Rightarrow>
          let l = l\<lparr>at_inited := True\<rparr>;
              p = at_get_free_pos l
          in if p < 0 then Inr (- ENOSPC, l)
             else if \<not> mem then Inr (- ENOMEM, l)
             else Inr (p, l\<lparr>at_job := (at_job l)[nat p := Some
                    \<lparr>at_state = AT_RUNNING, sec = s, time_remain = s, repeat = 0, jobp = f, arg = x\<rparr>]\<rparr>))"

definition at_addjob_repeat ::
  "int \<Rightarrow> int \<Rightarrow> bool \<Rightarrow> int \<Rightarrow> 'f \<Rightarrow> 'a \<Rightarrow> ('f, 'a) at_lib \<Rightarrow> int + int \<times> ('f, 'a) at_lib" where
  "at_addjob_repeat ret1 ret2 mem s f x l =
     (if s < 0 then Inr (- EINVAL, l)
      else case (if \<not> at_inited l then at_module_load ret1 ret2 else None) of
        Some n \<Rightarrow> Inl n
      | None \<Rightarrow>
          let l = l\<lparr>at_inited := True\<rparr>;
              p = at_get_free_pos l
          in if p < 0 then Inr (- ENOSPC, l)
             else if \<not> mem then Inr (- ENOMEM, l)
             else Inr (p, l\<lparr>at_job := (at_job l)[nat p := Some
                    \<lparr>at_state = AT_RUNNING, sec = s, time_remain = s, repeat = 1, jobp = f, arg = x\<rparr>]\<rparr>))"

text \<open>\<open>id < 0 || id >= JOB_MAX || job[id] == NULL\<close>.\<close>

definition at_lookup :: "int \<Rightarrow> ('f, 'a) at_lib \<Rightarrow> ('f, 'a) at_job_st option" where
  "at_lookup k l = (if k < 0 \<or> k \<ge> int JOB_MAX then None else at_job l ! nat k)"

definition at_canceljob :: "int \<Rightarrow> ('f, 'a) at_lib \<Rightarrow> int \<times> ('f, 'a) at_lib" where
  "at_canceljob k l = (case at_lookup k l of
       None \<Rightarrow> (- EINVAL, l)
     | Some j \<Rightarrow>
         if at_state j = AT_CANCELED then (- ECANCELED, l)
         else if at_state j = AT_OVER then (- EBUSY, l)
         else (0, l\<lparr>at_job := (at_job l)[nat k := Some (j\<lparr>at_state := AT_CANCELED\<rparr>)]\<rparr>))"

definition at_running :: "int \<Rightarrow> ('f, 'a) at_lib \<Rightarrow> bool" where
  "at_running k l \<longleftrightarrow> (case at_lookup k l of Some j \<Rightarrow> at_state j = AT_RUNNING | None \<Rightarrow> False)"

text \<open>\<open>at_waitjob\<close>; each \<open>pause\<close> ends with a run of the handler for an alarm of the kernel.\<close>

definition at_waitjob :: "int \<Rightarrow> ('f, 'a) at_lib \<Rightarrow> (int \<times> ('f, 'a) at_lib) option" where
  "at_waitjob k l = (case at_lookup k l of
       None \<Rightarrow> Some (- EINVAL, l)
     | Some j \<Rightarrow>
         if repeat j = 1 then Some (- EBUSY, l)
         else do {
           l \<leftarrow> c_while (at_running k) (at_alrm_action AT_SI_KERNEL) l;
           j \<leftarrow> at_lookup k l;
           Some (0, if at_state j = AT_CANCELED \<or> at_state j = AT_OVER
                    then l\<lparr>at_job := (at_job l)[nat k := None]\<rparr> else l) })"

section \<open>One slot under the handler\<close>

definition slot_log :: "nat \<Rightarrow> (nat \<times> 'f \<times> 'a) list \<Rightarrow> ('f \<times> 'a) list" where
  "slot_log i log = map snd (filter (\<lambda>e. fst e = i) log)"

lemma slot_log_simps [simp]:
  "slot_log i [] = []" "slot_log i (a @ b) = slot_log i a @ slot_log i b"
  "slot_log i ((k, e) # log) = (if k = i then e # slot_log i log else slot_log i log)"
  by (simp_all add: slot_log_def)

lemma slot_log_later: "\<forall>e \<in> set log. i < fst e \<Longrightarrow> slot_log i log = []"
  by (auto simp: slot_log_def filter_empty_conv)

lemma at_ticks_Some:
  assumes "at_ticks_from i (Some j # tab) = Some (tab', log)"
  obtains j' hit t1 log1 where "job_tick j = Some (j', hit)" "at_ticks_from (Suc i) tab = Some (t1, log1)"
    "tab' = Some j' # t1" "log = (if hit then [(i, jobp j, arg j)] else []) @ log1"
  using assms by (auto simp: bind_eq_Some_conv)

lemma at_ticks_None:
  assumes "at_ticks_from i (None # tab) = Some (tab', log)"
  obtains t1 where "at_ticks_from (Suc i) tab = Some (t1, log)" "tab' = None # t1"
  using assms by (auto simp: bind_eq_Some_conv)

lemma at_ticks_range:
  "at_ticks_from i tab = Some (tab', log) \<Longrightarrow> length tab' = length tab \<and> (\<forall>e \<in> set log. i \<le> fst e)"
proof (induction i tab arbitrary: tab' log rule: at_ticks_from.induct)
  case (2 i tab)
  from 2(2) obtain t1 where "at_ticks_from (Suc i) tab = Some (t1, log)" "tab' = None # t1"
    by (rule at_ticks_None)
  with 2(1) [OF this(1)] show ?case by (auto dest: Suc_leD)
next
  case (3 i j tab)
  from 3(2) obtain j' hit t1 log1 where "job_tick j = Some (j', hit)"
    "at_ticks_from (Suc i) tab = Some (t1, log1)" "tab' = Some j' # t1"
    "log = (if hit then [(i, jobp j, arg j)] else []) @ log1" by (rule at_ticks_Some)
  with 3(1) [OF this(1) refl this(2)] show ?case by (auto dest: Suc_leD)
qed simp

text \<open>The handler acts on each slot by itself.\<close>

fun slot_ticked ::
  "('f, 'a) at_job_st option \<Rightarrow> ('f, 'a) at_job_st option \<Rightarrow> ('f \<times> 'a) list \<Rightarrow> bool" where
  "slot_ticked None s' log \<longleftrightarrow> s' = None \<and> log = []"
| "slot_ticked (Some j) s' log \<longleftrightarrow> (\<exists>j' hit. job_tick j = Some (j', hit) \<and> s' = Some j'
     \<and> log = (if hit then [(jobp j, arg j)] else []))"

lemma at_ticks_nth:
  "at_ticks_from i tab = Some (tab', log) \<Longrightarrow> n < length tab \<Longrightarrow>
   slot_ticked (tab ! n) (tab' ! n) (slot_log (i + n) log)"
proof (induction i tab arbitrary: tab' log n rule: at_ticks_from.induct)
  case (2 i tab)
  from 2(2) obtain t1 where t1: "at_ticks_from (Suc i) tab = Some (t1, log)" "tab' = None # t1"
    by (rule at_ticks_None)
  have "slot_log i log = []" using at_ticks_range [OF t1(1)] by (intro slot_log_later) auto
  with 2(1) [OF t1(1)] 2(3) t1(2) show ?case by (cases n) auto
next
  case (3 i j tab)
  from 3(2) obtain j' hit t1 log1 where t1: "job_tick j = Some (j', hit)"
    "at_ticks_from (Suc i) tab = Some (t1, log1)" "tab' = Some j' # t1"
    "log = (if hit then [(i, jobp j, arg j)] else []) @ log1" by (rule at_ticks_Some)
  have "slot_log i log1 = []" using at_ticks_range [OF t1(2)] by (intro slot_log_later) auto
  with 3(1) [OF t1(1) refl t1(2)] 3(3) t1 show ?case by (cases n) auto
qed simp

lemma at_ticks_total:
  "\<forall>j. Some j \<in> set tab \<longrightarrow> job_tick j \<noteq> None \<Longrightarrow> \<exists>tab' log. at_ticks_from i tab = Some (tab', log)"
proof (induction i tab rule: at_ticks_from.induct)
  case (2 i tab)
  then show ?case by (fastforce simp: bind_eq_Some_conv)
next
  case (3 i j tab)
  from 3(2) obtain j' hit where h: "job_tick j = Some (j', hit)" by fastforce
  with 3(1) [OF this refl] 3(2) show ?case by fastforce
qed simp

section \<open>A slot over many ticks\<close>

text \<open>What becomes of a job, and how often it fires, in \<open>n\<close> ticks.\<close>

primrec job_ticks :: "nat \<Rightarrow> ('f, 'a) at_job_st \<Rightarrow> (('f, 'a) at_job_st \<times> nat) option" where
  "job_ticks 0 j = Some (j, 0)"
| "job_ticks (Suc n) j = do {
     (j', m) \<leftarrow> job_ticks n j;
     (j'', hit) \<leftarrow> job_tick j';
     Some (j'', m + (if hit then 1 else 0)) }"

definition fresh_job :: "int \<Rightarrow> int \<Rightarrow> 'f \<Rightarrow> 'a \<Rightarrow> ('f, 'a) at_job_st" where
  "fresh_job s r f x = \<lparr>at_state = AT_RUNNING, sec = s, time_remain = s, repeat = r, jobp = f, arg = x\<rparr>"

lemma job_ticks_once:
  assumes "0 < s" "s \<le> INT_MAX" "r \<noteq> 1"
  shows "job_ticks n (fresh_job s r f x) = Some (if int n < s
    then ((fresh_job s r f x)\<lparr>time_remain := s - int n\<rparr>, 0)
    else ((fresh_job s r f x)\<lparr>time_remain := 0, at_state := AT_OVER\<rparr>, 1))"
proof (induction n)
  case 0
  then show ?case using assms(1) by (simp add: fresh_job_def)
next
  case (Suc n)
  show ?case
  proof (cases "int (Suc n) \<le> s")
    case True
    then have "is_cint (s - int n - 1)" using assms by (auto simp: cint_range)
    with Suc True assms show ?thesis
      by (auto simp: job_tick_def fresh_job_def)
  next
    case False
    with Suc assms show ?thesis by (auto simp: job_tick_def fresh_job_def)
  qed
qed

lemma job_ticks_repeat:
  assumes "0 < s" "s \<le> INT_MAX"
  shows "job_ticks n (fresh_job s 1 f x) =
    Some ((fresh_job s 1 f x)\<lparr>time_remain := s - int n mod s\<rparr>, n div nat s)"
proof (induction n)
  case 0
  then show ?case using assms(1) by (simp add: fresh_job_def)
next
  case (Suc n)
  have r: "0 \<le> int n mod s" "int n mod s < s" using assms(1) by auto
  then have c: "is_cint (s - int n mod s - 1)" using assms unfolding cint_range by linarith
  have mods: "int (Suc n) mod s = (if int n mod s = s - 1 then 0 else int n mod s + 1)"
  proof -
    have "int (Suc n) mod s = (int n mod s + 1) mod s" by (simp add: mod_simps add.commute)
    also have "\<dots> = (if int n mod s = s - 1 then 0 else int n mod s + 1)"
      using r by (auto simp: mod_pos_pos_trivial)
    finally show ?thesis .
  qed
  have divs: "Suc n div nat s = (if int n mod s = s - 1 then Suc (n div nat s) else n div nat s)"
  proof -
    have "int n mod s = int (n mod nat s)" using assms(1) by (simp add: zmod_int)
    then have "int n mod s = s - 1 \<longleftrightarrow> Suc (n mod nat s) = nat s" using assms(1) by auto
    then show ?thesis by (simp add: div_Suc mod_Suc)
  qed
  show ?case
  proof (cases "int n mod s = s - 1")
    case True
    with Suc c mods divs show ?thesis by (simp add: job_tick_def fresh_job_def)
  next
    case False
    with r have "s - int n mod s - 1 \<noteq> 0" by simp
    with False Suc c mods divs show ?thesis by (simp add: job_tick_def fresh_job_def)
  qed
qed

lemma job_ticks_stopped: "at_state j \<noteq> AT_RUNNING \<Longrightarrow> job_ticks n j = Some (j, 0)"
  by (induction n) (simp_all add: job_tick_def)

lemma job_tick_callback: "job_tick j = Some (j', hit) \<Longrightarrow> jobp j' = jobp j \<and> arg j' = arg j"
  by (auto simp: job_tick_def bind_eq_Some_conv Let_def split: if_splits)

lemma job_ticks_front:
  "job_ticks (Suc n) j = do {
     (j', hit) \<leftarrow> job_tick j;
     (j'', m) \<leftarrow> job_ticks n j';
     Some (j'', m + (if hit then 1 else 0)) }"
proof (induction n)
  case 0
  show ?case by (cases "job_tick j") (auto split: prod.split)
next
  case (Suc n)
  then show ?case by (subst job_ticks.simps) (auto split: bind_split prod.split)
qed

text \<open>A job added with 0 seconds counts down from 0 and never gets to 0 again.\<close>

lemma job_ticks_zero: "job_ticks n (fresh_job 0 r f x) = Some (j, m) \<Longrightarrow>
    m = 0 \<and> j = (fresh_job 0 r f x)\<lparr>time_remain := - int n\<rparr>"
proof (induction n arbitrary: j m)
  case (Suc n)
  from Suc.prems obtain j' m' hit where j': "job_ticks n (fresh_job 0 r f x) = Some (j', m')"
    "job_tick j' = Some (j, hit)" "m = m' + (if hit then 1 else 0)"
    by (auto simp: bind_eq_Some_conv)
  from Suc.IH [OF j'(1)] j'(2,3) show ?case
    by (auto simp: job_tick_def fresh_job_def bind_eq_Some_conv cint_eq_Some_iff Let_def split: if_splits)
qed (simp add: fresh_job_def)

section \<open>Runs of the library\<close>

text \<open>
  Signals and calls in the order in which they take effect, with the module loaded. \<open>Reap\<close> is a call
  of \<open>at_waitjob\<close> that need not wait; \<open>at_waitjob\<close> itself is treated below.
\<close>

datatype ('f, 'a) at_op =
    Alrm int
  | Add bool int 'f 'a
  | AddRepeat bool int 'f 'a
  | Cancel int
  | Reap int

fun at_do :: "('f, 'a) at_op \<Rightarrow> ('f, 'a) at_lib \<Rightarrow> ('f, 'a) at_lib option" where
  "at_do (Alrm c) l = at_alrm_action c l"
| "at_do (Add mem s f x) l = (case at_addjob 0 0 mem s f x l of Inl n \<Rightarrow> None | Inr (r, l') \<Rightarrow> Some l')"
| "at_do (AddRepeat mem s f x) l =
     (case at_addjob_repeat 0 0 mem s f x l of Inl n \<Rightarrow> None | Inr (r, l') \<Rightarrow> Some l')"
| "at_do (Cancel k) l = Some (snd (at_canceljob k l))"
| "at_do (Reap k) l = (if at_running k l then None else map_option snd (at_waitjob k l))"

fun at_run :: "('f, 'a) at_op list \<Rightarrow> ('f, 'a) at_lib \<Rightarrow> ('f, 'a) at_lib option" where
  "at_run [] l = Some l"
| "at_run (x # xs) l = Option.bind (at_do x l) (at_run xs)"

definition alarms :: "('f, 'a) at_op list \<Rightarrow> nat" where
  "alarms xs = length (filter (\<lambda>x. x = Alrm AT_SI_KERNEL) xs)"

definition at_len :: "('f, 'a) at_lib \<Rightarrow> bool" where
  "at_len l \<longleftrightarrow> length (at_job l) = JOB_MAX"

lemma at_add_slot:
  assumes "at_addjob r1 r2 mem s f x l = Inr (r, l') \<or> at_addjob_repeat r1 r2 mem s f x l = Inr (r, l')"
    and "at_job l ! i = Some j" "at_len l"
  shows "at_job l' ! i = Some j \<and> fired l' = fired l \<and> at_len l'"
proof -
  have "i \<noteq> nat (free_pos (at_job l))" if "\<not> free_pos (at_job l) < 0"
    using free_pos_nth [of "at_job l"] that assms(2) by auto
  with assms show ?thesis
    by (auto simp: at_addjob_def at_addjob_repeat_def at_get_free_pos_def at_len_def Let_def
        split: if_splits option.splits)
qed

lemma at_alrm_slot:
  assumes "at_alrm_action c l = Some l'" "at_job l ! i = Some j" "at_len l" "i < JOB_MAX"
  shows "if c = AT_SI_KERNEL
    then \<exists>j' hit. job_tick j = Some (j', hit) \<and> at_job l' ! i = Some j' \<and> at_len l' \<and>
      slot_log i (fired l') = slot_log i (fired l) @ (if hit then [(jobp j, arg j)] else [])
    else l' = l"
proof (cases "c = AT_SI_KERNEL")
  case True
  with assms(1) obtain tab log where t: "at_ticks_from 0 (at_job l) = Some (tab, log)"
    "l' = l\<lparr>at_job := tab, fired := fired l @ log\<rparr>"
    by (auto simp: at_alrm_action_def bind_eq_Some_conv)
  have "i < length (at_job l)" using assms(3,4) by (simp add: at_len_def)
  with at_ticks_nth [OF t(1) this] at_ticks_range [OF t(1)] assms(2,3) t(2) True show ?thesis
    by (auto simp: at_len_def)
qed (use assms(1) in \<open>simp add: at_alrm_action_def\<close>)

lemma at_do_slot:
  assumes "at_do x l = Some l'" "at_job l ! i = Some j" "at_len l" "i < JOB_MAX"
    and "x \<noteq> Cancel (int i)" "x \<noteq> Reap (int i)"
  shows "if x = Alrm AT_SI_KERNEL
    then \<exists>j' hit. job_tick j = Some (j', hit) \<and> at_job l' ! i = Some j' \<and> at_len l' \<and>
      slot_log i (fired l') = slot_log i (fired l) @ (if hit then [(jobp j, arg j)] else [])
    else at_job l' ! i = Some j \<and> at_len l' \<and> fired l' = fired l"
proof (cases x)
  case (Alrm c)
  with at_alrm_slot [of c l l' i j] assms show ?thesis by (auto split: if_splits)
next
  case (Add mem s f y)
  with assms obtain r where "at_addjob 0 0 mem s f y l = Inr (r, l')" by (auto split: sum.splits prod.splits)
  with at_add_slot [of 0 0 mem s f y l r l' i j] assms Add show ?thesis by auto
next
  case (AddRepeat mem s f y)
  with assms obtain r where "at_addjob_repeat 0 0 mem s f y l = Inr (r, l')" by (auto split: sum.splits prod.splits)
  with at_add_slot [of 0 0 mem s f y l r l' i j] assms AddRepeat show ?thesis by auto
next
  case (Cancel k)
  then have "nat k \<noteq> i \<or> k < 0" using assms(5) by (auto split: if_splits)
  with Cancel assms show ?thesis
    by (auto simp: at_canceljob_def at_lookup_def at_len_def split: if_splits option.splits)
next
  case (Reap k)
  then have "nat k \<noteq> i \<or> k < 0" using assms(6) by (auto split: if_splits)
  with Reap assms show ?thesis
    by (auto simp: at_waitjob_def at_lookup_def at_len_def c_while_exit bind_eq_Some_conv
        split: if_splits option.splits)
qed

text \<open>A slot nobody cancels or reaps goes through exactly the ticks of the alarms, and its callback is
  called exactly as often as these ticks say.\<close>

lemma at_run_slot:
  assumes "at_run xs l = Some l'" "at_job l ! i = Some j" "at_len l" "i < JOB_MAX"
    and "Cancel (int i) \<notin> set xs" "Reap (int i) \<notin> set xs"
  shows "\<exists>j' m. job_ticks (alarms xs) j = Some (j', m) \<and> at_job l' ! i = Some j' \<and> at_len l' \<and>
    slot_log i (fired l') = slot_log i (fired l) @ replicate m (jobp j, arg j)"
  using assms
proof (induction xs arbitrary: l j)
  case Nil
  then show ?case by (simp add: alarms_def)
next
  case (Cons x xs)
  from Cons.prems(1) obtain l1 where l1: "at_do x l = Some l1" "at_run xs l1 = Some l'"
    by (auto simp: bind_eq_Some_conv)
  note st = at_do_slot [OF l1(1) Cons.prems(2-4)]
  show ?case
  proof (cases "x = Alrm AT_SI_KERNEL")
    case True
    with st Cons.prems(5,6) obtain j1 hit where j1: "job_tick j = Some (j1, hit)" "at_job l1 ! i = Some j1"
      "at_len l1" "slot_log i (fired l1) = slot_log i (fired l) @ (if hit then [(jobp j, arg j)] else [])"
      by auto
    obtain j' m where j': "job_ticks (alarms xs) j1 = Some (j', m)" "at_job l' ! i = Some j'" "at_len l'"
      "slot_log i (fired l') = slot_log i (fired l1) @ replicate m (jobp j1, arg j1)"
      using Cons.IH [OF l1(2) j1(2,3)] Cons.prems(4-6) by auto
    have "alarms (x # xs) = Suc (alarms xs)" using True by (simp add: alarms_def)
    with j1 j' job_tick_callback [OF j1(1)] show ?thesis
      by (simp add: job_ticks_front del: job_ticks.simps)
  next
    case False
    with st Cons.prems(5,6) have "at_job l1 ! i = Some j" "at_len l1" "fired l1 = fired l" by auto
    moreover have "alarms (x # xs) = alarms xs" using False by (simp add: alarms_def)
    ultimately show ?thesis using Cons.IH [OF l1(2)] Cons.prems(4-6) by auto
  qed
qed

section \<open>When callbacks run\<close>

lemma at_add_new:
  assumes "at_len l" "at_addjob r1 r2 mem s f x l = Inr (r, l')" "0 \<le> r"
  shows "at_job l' ! nat r = Some (fresh_job s 0 f x)" "at_len l'" "nat r < JOB_MAX" "fired l' = fired l"
    "at_job l ! nat r = None" "int (nat r) = r"
  using assms free_pos_nth [of "at_job l"]
  by (auto simp: at_addjob_def at_get_free_pos_def at_len_def Let_def fresh_job_def
      split: if_splits option.splits)

lemma at_add_repeat_new:
  assumes "at_len l" "at_addjob_repeat r1 r2 mem s f x l = Inr (r, l')" "0 \<le> r"
  shows "at_job l' ! nat r = Some (fresh_job s 1 f x)" "at_len l'" "nat r < JOB_MAX" "fired l' = fired l"
    "at_job l ! nat r = None" "int (nat r) = r"
  using assms free_pos_nth [of "at_job l"]
  by (auto simp: at_addjob_repeat_def at_get_free_pos_def at_len_def Let_def fresh_job_def
      split: if_splits option.splits)

lemma fresh_callback [simp]: "jobp (fresh_job s r f x) = f" "arg (fresh_job s r f x) = x"
  by (simp_all add: fresh_job_def)

text \<open>C8: a job added with \<open>at_addjob\<close> and a positive time runs its callback exactly once, in the
  \<open>sec\<close>-th alarm of the kernel after the call and not before, whatever other jobs are added, cancelled
  and reaped and whatever other signals arrive in between.\<close>

lemma at_once_fires:
  assumes "at_len l" "at_addjob r1 r2 mem s f x l = Inr (r, l1)" "0 \<le> r" "0 < s" "s \<le> INT_MAX"
    and "at_run xs l1 = Some l2" "Cancel r \<notin> set xs" "Reap r \<notin> set xs"
  shows "slot_log (nat r) (fired l2) =
    slot_log (nat r) (fired l) @ (if s \<le> int (alarms xs) then [(f, x)] else [])"
proof -
  note new = at_add_new [OF assms(1-3)]
  from at_run_slot [OF assms(6) new(1,2,3)] assms(7,8) new(6) obtain j' m where
    "job_ticks (alarms xs) (fresh_job s 0 f x) = Some (j', m)"
    "slot_log (nat r) (fired l2) = slot_log (nat r) (fired l1) @ replicate m (f, x)"
    by auto
  with job_ticks_once [OF assms(4,5), of 0 "alarms xs" f x] new(4) show ?thesis by (auto split: if_splits)
qed

text \<open>A job added with \<open>at_addjob_repeat\<close> and a positive time runs its callback once every \<open>sec\<close>
  alarms, so after \<open>n\<close> alarms exactly \<open>n div sec\<close> times, whatever else happens in the library.\<close>

lemma at_repeat_fires:
  assumes "at_len l" "at_addjob_repeat r1 r2 mem s f x l = Inr (r, l1)" "0 \<le> r" "0 < s" "s \<le> INT_MAX"
    and "at_run xs l1 = Some l2" "Cancel r \<notin> set xs" "Reap r \<notin> set xs"
  shows "slot_log (nat r) (fired l2) =
    slot_log (nat r) (fired l) @ replicate (alarms xs div nat s) (f, x)"
proof -
  note new = at_add_repeat_new [OF assms(1-3)]
  from at_run_slot [OF assms(6) new(1,2,3)] assms(7,8) new(6) obtain j' m where
    "job_ticks (alarms xs) (fresh_job s 1 f x) = Some (j', m)"
    "slot_log (nat r) (fired l2) = slot_log (nat r) (fired l1) @ replicate m (f, x)"
    by auto
  with job_ticks_repeat [OF assms(4,5), of "alarms xs" f x] new(4) show ?thesis by auto
qed

text \<open>\<open>at_addjob\<close> and \<open>at_addjob_repeat\<close> accept a time of 0 and return a valid job, but its callback
  never runs.\<close>

lemma at_zero_never_fires:
  assumes "at_len l" "0 \<le> r"
    and "at_addjob r1 r2 mem 0 f x l = Inr (r, l1) \<or> at_addjob_repeat r1 r2 mem 0 f x l = Inr (r, l1)"
    and "at_run xs l1 = Some l2" "Cancel r \<notin> set xs" "Reap r \<notin> set xs"
  shows "slot_log (nat r) (fired l2) = slot_log (nat r) (fired l)"
proof -
  obtain rep where new: "at_job l1 ! nat r = Some (fresh_job 0 rep f x)" "at_len l1" "nat r < JOB_MAX"
    "fired l1 = fired l" "int (nat r) = r"
    using assms(3) at_add_new [OF assms(1) _ assms(2)] at_add_repeat_new [OF assms(1) _ assms(2)] by metis
  from at_run_slot [OF assms(4) new(1,2,3)] assms(5,6) new(5) obtain j' m where
    "job_ticks (alarms xs) (fresh_job 0 rep f x) = Some (j', m)"
    "slot_log (nat r) (fired l2) = slot_log (nat r) (fired l1) @ replicate m (f, x)"
    by auto
  with job_ticks_zero [of "alarms xs" rep f x] new(4) show ?thesis by auto
qed

text \<open>C32: \<open>at_canceljob\<close> answers \<open>-EINVAL\<close> to an id that is out of range or free, \<open>-ECANCELED\<close> to a job
  already cancelled and \<open>-EBUSY\<close> to one that is over, leaving the library as it was; otherwise it
  answers 0, and from then on the callback of the job does not run any more until the job is reaped.\<close>

lemma at_cancel_stops:
  assumes "at_len l" "at_canceljob k l = (r, l1)"
  shows "(at_lookup k l = None \<longrightarrow> r = - EINVAL \<and> l1 = l)
    \<and> (\<forall>j. at_lookup k l = Some j \<longrightarrow>
         (at_state j = AT_CANCELED \<longrightarrow> r = - ECANCELED \<and> l1 = l) \<and>
         (at_state j = AT_OVER \<longrightarrow> r = - EBUSY \<and> l1 = l) \<and>
         (at_state j = AT_RUNNING \<longrightarrow> r = 0 \<and>
           (\<forall>xs l2. at_run xs l1 = Some l2 \<and> Cancel k \<notin> set xs \<and> Reap k \<notin> set xs \<longrightarrow>
              slot_log (nat k) (fired l2) = slot_log (nat k) (fired l))))"
proof (intro conjI allI impI)
  fix j xs l2
  assume j: "at_lookup k l = Some j" "at_state j = AT_RUNNING"
    and run: "at_run xs l1 = Some l2 \<and> Cancel k \<notin> set xs \<and> Reap k \<notin> set xs"
  from j(1) have k: "0 \<le> k" "k < int JOB_MAX" by (auto simp: at_lookup_def split: if_splits)
  have l1: "l1 = l\<lparr>at_job := (at_job l)[nat k := Some (j\<lparr>at_state := AT_CANCELED\<rparr>)]\<rparr>"
    using j assms(2) by (simp add: at_canceljob_def)
  then have "at_job l1 ! nat k = Some (j\<lparr>at_state := AT_CANCELED\<rparr>)" "at_len l1" "fired l1 = fired l"
    using assms(1) k by (auto simp: at_len_def)
  from at_run_slot [OF _ this(1,2), of xs l2] this(3) run k
  show "slot_log (nat k) (fired l2) = slot_log (nat k) (fired l)"
    by (auto simp: job_ticks_stopped)
qed (use assms(2) in \<open>auto simp: at_canceljob_def\<close>)

section \<open>Waiting for a job\<close>

definition at_job_ok :: "('f, 'a) at_job_st \<Rightarrow> bool" where
  "at_job_ok j \<longleftrightarrow> (at_state j = AT_RUNNING \<longrightarrow> 1 \<le> time_remain j \<and> time_remain j \<le> sec j \<and> sec j \<le> INT_MAX)"

definition at_ok :: "('f, 'a) at_lib \<Rightarrow> bool" where
  "at_ok l \<longleftrightarrow> at_len l \<and> (\<forall>j. Some j \<in> set (at_job l) \<longrightarrow> at_job_ok j)"

lemma job_tick_ok: "at_job_ok j \<Longrightarrow> \<exists>j' hit. job_tick j = Some (j', hit) \<and> at_job_ok j'"
  by (auto simp: at_job_ok_def job_tick_def cint_def cint_range Let_def)

lemma at_alrm_ok:
  assumes "at_ok l"
  shows "\<exists>l'. at_alrm_action AT_SI_KERNEL l = Some l' \<and> at_ok l'"
proof -
  have "\<forall>j. Some j \<in> set (at_job l) \<longrightarrow> job_tick j \<noteq> None"
    using assms job_tick_ok by (fastforce simp: at_ok_def)
  from at_ticks_total [OF this] obtain tab log where t: "at_ticks_from 0 (at_job l) = Some (tab, log)"
    by blast
  have "at_job_ok j'" if j': "Some j' \<in> set tab" for j'
  proof -
    from j' obtain n where n: "n < length tab" "tab ! n = Some j'" by (auto simp: in_set_conv_nth)
    with at_ticks_range [OF t] have len: "n < length (at_job l)" by simp
    from at_ticks_nth [OF t len] n(2) obtain j hit where "at_job l ! n = Some j" "job_tick j = Some (j', hit)"
      by (cases "at_job l ! n") auto
    moreover have "at_job_ok j" using calculation(1) len assms by (metis at_ok_def nth_mem)
    ultimately show ?thesis using job_tick_ok by fastforce
  qed
  with t at_ticks_range [OF t] assms show ?thesis
    by (auto simp: at_alrm_action_def at_ok_def at_len_def)
qed

lemma at_wait_loop:
  "at_ok l \<Longrightarrow> 0 \<le> k \<Longrightarrow> k < int JOB_MAX \<Longrightarrow> at_job l ! nat k = Some j \<Longrightarrow> at_state j = AT_RUNNING \<Longrightarrow>
   repeat j \<noteq> 1 \<Longrightarrow> time_remain j = int n \<Longrightarrow>
   \<exists>l'. c_while (at_running k) (at_alrm_action AT_SI_KERNEL) l = Some l' \<and> at_ok l'
     \<and> at_job l' ! nat k = Some (j\<lparr>time_remain := 0, at_state := AT_OVER\<rparr>)
     \<and> slot_log (nat k) (fired l') = slot_log (nat k) (fired l) @ [(jobp j, arg j)]"
proof (induction n arbitrary: l j)
  case 0
  then have "Some j \<in> set (at_job l)" by (metis at_ok_def at_len_def nat_less_iff nth_mem)
  with 0 show ?case by (auto simp: at_ok_def at_job_ok_def)
next
  case (Suc n)
  have run: "at_running k l" using Suc.prems by (simp add: at_running_def at_lookup_def)
  obtain l1 where l1: "at_alrm_action AT_SI_KERNEL l = Some l1" "at_ok l1"
    using at_alrm_ok [OF Suc.prems(1)] by blast
  have len: "at_len l" "nat k < JOB_MAX" using Suc.prems(1-3) by (auto simp: at_ok_def)
  have in_tab: "Some j \<in> set (at_job l)" using Suc.prems(4) len by (metis at_len_def nth_mem)
  then have c: "is_cint (int n)"
    using Suc.prems(1,5,7) by (auto simp: at_ok_def at_job_ok_def cint_range)
  have tick: "job_tick j = Some (if n = 0 then (j\<lparr>time_remain := 0, at_state := AT_OVER\<rparr>, True)
      else (j\<lparr>time_remain := int n\<rparr>, False))"
    using Suc.prems(5-7) c by (auto simp: job_tick_def)
  from at_alrm_slot [OF l1(1) Suc.prems(4) len] tick obtain j1 hit where
    j1: "(j1, hit) = (if n = 0 then (j\<lparr>time_remain := 0, at_state := AT_OVER\<rparr>, True)
      else (j\<lparr>time_remain := int n\<rparr>, False))" "at_job l1 ! nat k = Some j1"
    "slot_log (nat k) (fired l1) = slot_log (nat k) (fired l) @ (if hit then [(jobp j, arg j)] else [])"
    by auto
  show ?case
  proof (cases "n = 0")
    case True
    with j1 have "\<not> at_running k l1" using Suc.prems(2,3) by (simp add: at_running_def at_lookup_def)
    with True j1 l1 run show ?thesis by (auto simp: c_while_step c_while_exit)
  next
    case False
    with j1 have eq: "j1 = j\<lparr>time_remain := int n\<rparr>" "\<not> hit" by auto
    from Suc.IH [OF l1(2) Suc.prems(2,3) j1(2)] Suc.prems(5,6) eq j1(3) run l1(1) show ?thesis
      by (auto simp: c_while_step)
  qed
qed

text \<open>\<open>at_waitjob\<close> answers \<open>-EINVAL\<close> to an id that is out of range or free and \<open>-EBUSY\<close> to a
  repeating job; on a one-shot job that is over or cancelled it frees the slot at once, and on a running
  one, provided every running job of the table has a positive time, it returns 0 after the callback of
  the job has run exactly once more, with the slot free.\<close>

lemma at_waitjob_reaps:
  assumes "at_ok l"
  shows "(at_lookup k l = None \<longrightarrow> at_waitjob k l = Some (- EINVAL, l))
    \<and> (\<forall>j. at_lookup k l = Some j \<longrightarrow>
        (repeat j = 1 \<longrightarrow> at_waitjob k l = Some (- EBUSY, l)) \<and>
        (repeat j \<noteq> 1 \<longrightarrow> (\<exists>l'. at_waitjob k l = Some (0, l') \<and> at_ok l' \<and> at_lookup k l' = None
           \<and> slot_log (nat k) (fired l') = slot_log (nat k) (fired l) @
               (if at_state j = AT_RUNNING then [(jobp j, arg j)] else []))))"
proof (intro conjI allI impI)
  fix j
  assume j: "at_lookup k l = Some j" "repeat j \<noteq> 1"
  from j(1) have k: "0 \<le> k" "k < int JOB_MAX" "at_job l ! nat k = Some j"
    by (auto simp: at_lookup_def split: if_splits)
  then have in_tab: "Some j \<in> set (at_job l)" using assms by (metis at_len_def at_ok_def nat_less_iff nth_mem)
  have free: "at_ok (l'\<lparr>at_job := (at_job l')[nat k := None]\<rparr>) \<and>
      at_lookup k (l'\<lparr>at_job := (at_job l')[nat k := None]\<rparr>) = None" if "at_ok l'" for l'
    using that k set_update_subset_insert [of "at_job l'" "nat k" None]
    by (auto simp: at_ok_def at_len_def at_lookup_def)
  show "\<exists>l'. at_waitjob k l = Some (0, l') \<and> at_ok l' \<and> at_lookup k l' = None
      \<and> slot_log (nat k) (fired l') = slot_log (nat k) (fired l) @
          (if at_state j = AT_RUNNING then [(jobp j, arg j)] else [])"
  proof (cases "at_state j = AT_RUNNING")
    case True
    with in_tab assms have "time_remain j = int (nat (time_remain j))"
      by (auto simp: at_ok_def at_job_ok_def)
    from at_wait_loop [OF assms k True j(2) this] obtain l' where
      "c_while (at_running k) (at_alrm_action AT_SI_KERNEL) l = Some l'" "at_ok l'"
      "at_job l' ! nat k = Some (j\<lparr>time_remain := 0, at_state := AT_OVER\<rparr>)"
      "slot_log (nat k) (fired l') = slot_log (nat k) (fired l) @ [(jobp j, arg j)]" by blast
    with free [of l'] True j k show ?thesis
      by (simp add: at_waitjob_def at_lookup_def)
  next
    case False
    then have "\<not> at_running k l" "at_state j = AT_CANCELED \<or> at_state j = AT_OVER"
      using j by (auto simp: at_running_def intro: at_state.exhaust)
    with False free [OF assms] j k show ?thesis
      by (auto simp: at_waitjob_def c_while_exit)
  qed
qed (use assms in \<open>auto simp: at_waitjob_def\<close>)

section \<open>Concrete libraries\<close>

definition at_empty :: "(nat, nat) at_lib" where
  "at_empty = \<lparr>at_job = replicate JOB_MAX None, at_inited = True, fired = []\<rparr>"

lemma at_empty_len: "at_len at_empty"
  by (simp add: at_len_def at_empty_def)

lemma at_empty_pos: "free_pos (at_job at_empty) = 0"
  using free_pos_replicate [of 1023, where 'a = "(nat, nat) at_job_st"] by (simp add: at_empty_def)

text \<open>The empty library with one job in slot 0.\<close>

definition at_one :: "(nat, nat) at_job_st \<Rightarrow> (nat, nat) at_lib" where
  "at_one j = \<lparr>at_job = Some j # replicate 1023 None, at_inited = True, fired = []\<rparr>"

lemma at_ticks_free: "at_ticks_from i (replicate n None) = Some (replicate n None, [])"
  by (induction n arbitrary: i) auto

lemma at_one_alarm:
  "at_alrm_action AT_SI_KERNEL (at_one j\<lparr>fired := log\<rparr>) = do {
     (j', hit) \<leftarrow> job_tick j;
     Some (at_one j'\<lparr>fired := log @ (if hit then [(0, jobp j, arg j)] else [])\<rparr>) }"
  by (simp add: at_alrm_action_def at_one_def at_ticks_free split: bind_split prod.split)

lemma at_one_fired: "at_one j\<lparr>fired := []\<rparr> = at_one j"
  by (simp add: at_one_def)

lemma at_empty_set: "(at_job at_empty)[0 := Some j] = Some j # replicate 1023 None"
proof -
  have "replicate JOB_MAX None = None # replicate 1023 (None :: (nat, nat) at_job_st option)"
    by (metis numeral_eq_Suc pred_numeral_simps(2) replicate_Suc BitM.simps(1) eval_nat_numeral(3) semiring_norm(26) semiring_norm(27) semiring_norm(28))
  then show ?thesis by (simp add: at_empty_def)
qed

lemma at_empty_add:
  "0 \<le> s \<Longrightarrow> at_addjob 0 0 True s f x at_empty = Inr (0, at_one (fresh_job s 0 f x))"
  "0 \<le> s \<Longrightarrow> at_addjob_repeat 0 0 True s f x at_empty = Inr (0, at_one (fresh_job s 1 f x))"
  using at_empty_pos at_empty_set
  by (simp_all add: at_addjob_def at_addjob_repeat_def at_get_free_pos_def fresh_job_def at_one_def)
    (simp_all add: at_empty_def)

lemma at_one_run:
  "at_run [Alrm AT_SI_KERNEL, Alrm AT_SI_KERNEL] (at_one j) = do {
     (j1, h1) \<leftarrow> job_tick j;
     (j2, h2) \<leftarrow> job_tick j1;
     Some (at_one j2\<lparr>fired := (if h1 then [(0, jobp j, arg j)] else []) @
       (if h2 then [(0, jobp j1, arg j1)] else [])\<rparr>) }"
  using at_one_alarm [of "[]" j] by (auto simp: at_one_alarm at_one_fired split: bind_split prod.split)

lemma at_once_fires_witness:
  "\<exists>l2. at_run [Alrm AT_SI_KERNEL, Alrm AT_SI_KERNEL] (at_one (fresh_job 2 0 5 6)) = Some l2
    \<and> slot_log 0 (fired l2) = [(5, 6)]"
proof -
  obtain l2 where run: "at_run [Alrm AT_SI_KERNEL, Alrm AT_SI_KERNEL] (at_one (fresh_job 2 0 5 6)) = Some l2"
    unfolding at_one_run by (simp add: job_tick_def fresh_job_def cint_def cint_range)
  from at_once_fires [OF at_empty_len at_empty_add(1) _ _ _ run] run show ?thesis
    by (simp add: alarms_def INT_MAX_def) (simp add: at_empty_def)
qed

lemma at_repeat_fires_witness:
  "\<exists>l2. at_run [Alrm AT_SI_KERNEL, Alrm AT_SI_KERNEL] (at_one (fresh_job 1 1 5 6)) = Some l2
    \<and> slot_log 0 (fired l2) = [(5, 6), (5, 6)]"
proof -
  obtain l2 where run: "at_run [Alrm AT_SI_KERNEL, Alrm AT_SI_KERNEL] (at_one (fresh_job 1 1 5 6)) = Some l2"
    unfolding at_one_run by (simp add: job_tick_def fresh_job_def cint_def cint_range)
  from at_repeat_fires [OF at_empty_len at_empty_add(2) _ _ _ run] run show ?thesis
    by (simp add: alarms_def INT_MAX_def numeral_2_eq_2) (simp add: at_empty_def)
qed

lemma at_zero_never_fires_witness:
  "\<exists>l2. at_run [Alrm AT_SI_KERNEL, Alrm AT_SI_KERNEL] (at_one (fresh_job 0 0 5 6)) = Some l2
    \<and> slot_log 0 (fired l2) = []"
proof -
  obtain l2 where run: "at_run [Alrm AT_SI_KERNEL, Alrm AT_SI_KERNEL] (at_one (fresh_job 0 0 5 6)) = Some l2"
    unfolding at_one_run by (simp add: job_tick_def fresh_job_def cint_def cint_range)
  have add: "at_addjob 0 0 True 0 5 6 at_empty = Inr (0, at_one (fresh_job 0 0 5 6))"
    by (rule at_empty_add) simp
  from at_zero_never_fires [OF at_empty_len _ disjI1 [OF add] run] run show ?thesis
    by simp (simp add: at_empty_def)
qed

lemma at_cancel_stops_witness:
  "at_canceljob 0 (at_one (fresh_job 2 0 5 6)) = (0, at_one (fresh_job 2 0 5 6\<lparr>at_state := AT_CANCELED\<rparr>))
   \<and> fst (at_canceljob 0 (at_one (fresh_job 2 0 5 6))) = 0"
proof -
  have lk: "at_lookup 0 (at_one (fresh_job 2 0 5 6)) = Some (fresh_job 2 0 5 6)"
    by (simp add: at_lookup_def at_one_def)
  have len: "at_len (at_one (fresh_job 2 0 5 6))" by (simp add: at_len_def at_one_def)
  from at_cancel_stops [OF len, of 0] lk have "fst (at_canceljob 0 (at_one (fresh_job 2 0 5 6))) = 0"
    by (metis at_job_st.select_convs(1) fresh_job_def prod.collapse)
  with lk show ?thesis
    by (simp add: at_canceljob_def fresh_job_def) (simp add: at_one_def)
qed

lemma at_waitjob_reaps_witness:
  "\<exists>l'. at_waitjob 0 (at_one (fresh_job 2 0 5 6)) = Some (0, l') \<and> slot_log 0 (fired l') = [(5, 6)]"
proof -
  have "at_ok (at_one (fresh_job 2 0 5 6))"
    by (auto simp: at_ok_def at_len_def at_one_def at_job_ok_def fresh_job_def INT_MAX_def)
  moreover have "at_lookup 0 (at_one (fresh_job 2 0 5 6)) = Some (fresh_job 2 0 5 6)"
    by (simp add: at_lookup_def at_one_def)
  ultimately show ?thesis
    using at_waitjob_reaps [of "at_one (fresh_job 2 0 5 6)" 0]
    by (auto simp: fresh_job_def) (auto simp: at_one_def)
qed

end
