(* ===== verification/AnyTimerMain.thy ===== *)
theory AnyTimerMain
  imports AnyTimer
begin

text \<open>
  The well-formedness of the timer library under all its operations, and the program \<open>parallel/signal/anytimer/main.c\<close>:
  a repeating job is added, then dots are written for ever while the alarms run the job.
\<close>

section \<open>The library stays well-formed\<close>

lemma at_upd_ok: "at_ok l \<Longrightarrow> (\<And>j. v = Some j \<Longrightarrow> at_job_ok j) \<Longrightarrow> at_ok (l\<lparr>at_job := (at_job l)[n := v]\<rparr>)"
  using set_update_subset_insert [of "at_job l" n v] by (auto simp: at_ok_def at_len_def)

lemma at_inited_ok [simp]: "at_ok (l\<lparr>at_inited := b\<rparr>) = at_ok l" "at_ok (l\<lparr>fired := e\<rparr>) = at_ok l"
  by (simp_all add: at_ok_def at_len_def)

lemma fresh_ok: "1 \<le> s \<Longrightarrow> s \<le> INT_MAX \<Longrightarrow> at_job_ok (fresh_job s r f x)"
  by (simp add: at_job_ok_def fresh_job_def)

lemma at_free_range: "at_ok l \<Longrightarrow> at_get_free_pos l < int JOB_MAX"
  by (cases "at_job l" rule: free_pos_cases) (auto simp: at_get_free_pos_def at_ok_def at_len_def)

text \<open>The result codes of \<open>at_addjob\<close> and \<open>at_addjob_repeat\<close>.\<close>

definition add_result :: "int + int \<times> ('f, 'a) at_lib \<Rightarrow> bool" where
  "add_result res \<longleftrightarrow> (case res of
       Inl n \<Rightarrow> n = 1
     | Inr (r, l) \<Rightarrow> at_ok l \<and> (r \<in> {- EINVAL, - ENOSPC, - ENOMEM} \<or> 0 \<le> r \<and> r < int JOB_MAX \<and> at_lookup r l \<noteq> None))"

lemma at_add_typed:
  assumes "at_ok l" "s < 0 \<or> 1 \<le> s \<and> s \<le> INT_MAX"
  shows "add_result (at_addjob r1 r2 mem s f x l)" "add_result (at_addjob_repeat r1 r2 mem s f x l)"
proof -
  let ?l = "l\<lparr>at_inited := True\<rparr>"
  have ok: "at_ok ?l" using assms(1) by simp
  have new: "add_result (Inr (at_get_free_pos ?l, ?l\<lparr>at_job := (at_job ?l)[nat (at_get_free_pos ?l) := Some (fresh_job s r f x)]\<rparr>))"
    if "0 \<le> at_get_free_pos ?l" "\<not> s < 0" for r
    using that assms(2) at_free_range [OF ok] ok at_upd_ok [OF ok, of "Some (fresh_job s r f x)" "nat (at_get_free_pos ?l)"]
    by (auto simp: add_result_def fresh_ok at_lookup_def at_ok_def at_len_def)
  show "add_result (at_addjob r1 r2 mem s f x l)"
    using new [of 0] ok assms(1)
    by (auto simp: at_addjob_def at_module_load_def Let_def fresh_job_def split: option.splits) (auto simp: add_result_def)
  show "add_result (at_addjob_repeat r1 r2 mem s f x l)"
    using new [of 1] ok assms(1)
    by (auto simp: at_addjob_repeat_def at_module_load_def Let_def fresh_job_def split: option.splits) (auto simp: add_result_def)
qed

lemma at_cancel_typed:
  assumes "at_ok l"
  shows "at_ok (snd (at_canceljob k l)) \<and> fst (at_canceljob k l) \<in> {0, - EINVAL, - ECANCELED, - EBUSY}"
proof (cases "at_lookup k l")
  case (Some j)
  have "at_ok (l\<lparr>at_job := (at_job l)[nat k := Some (j\<lparr>at_state := AT_CANCELED\<rparr>)]\<rparr>)"
    by (rule at_upd_ok [OF assms]) (auto simp: at_job_ok_def)
  with Some assms show ?thesis by (simp add: at_canceljob_def)
qed (simp add: at_canceljob_def assms)

lemma at_wait_typed:
  assumes "at_ok l"
  shows "\<exists>r l'. at_waitjob k l = Some (r, l') \<and> at_ok l' \<and> r \<in> {0, - EINVAL, - EBUSY}"
proof (cases "at_lookup k l")
  case None
  then show ?thesis using assms by (simp add: at_waitjob_def)
next
  case (Some j)
  with at_waitjob_reaps [OF assms, of k] assms show ?thesis by (cases "repeat j = 1") auto
qed



section \<open>The program\<close>

text \<open>A callback is the function of its argument that gives the text it prints.\<close>

definition at_f1 :: "string \<Rightarrow> string" where
  "at_f1 p = ''f1():'' @ p @ ''\<newline>''"

text \<open>What happens in the endless loop: a dot is written, or the alarm comes.\<close>

datatype at_event = At_dot | At_tick

fun at_main_loop :: "at_event list \<Rightarrow> (string \<Rightarrow> string, string) at_lib \<Rightarrow> string option" where
  "at_main_loop [] l = Some []"
| "at_main_loop (At_dot # es) l = do { out \<leftarrow> at_main_loop es l; Some (''.'' @ out) }"
| "at_main_loop (At_tick # es) l = do {
     l \<leftarrow> at_alrm_action AT_SI_KERNEL (l\<lparr>fired := []\<rparr>);
     out \<leftarrow> at_main_loop es l;
     Some (concat (map (\<lambda>(_, f, x). f x) (fired l)) @ out) }"

text \<open>The standard output and, when the program has ended, its status.\<close>

definition at_start_lib :: "('f, 'a) at_lib" where
  "at_start_lib = \<lparr>at_job = replicate JOB_MAX None, at_inited = False, fired = []\<rparr>"

definition at_main :: "int \<Rightarrow> int \<Rightarrow> bool \<Rightarrow> at_event list \<Rightarrow> (string \<times> int option) option" where
  "at_main r1 r2 mem es =
     (case at_addjob_repeat r1 r2 mem 5 at_f1 ''aaa'' at_start_lib of
        Inl n \<Rightarrow> Some (''Begin!\<newline>'', Some n)
      | Inr (job1, l) \<Rightarrow>
          if job1 < 0 then Some (''Begin!\<newline>'' @ replicate 24 CHR ''.'', Some 1)
          else do { out \<leftarrow> at_main_loop es l; Some (''Begin!\<newline>'' @ out, None) })"

text \<open>The expected text after \<open>k\<close> alarms.\<close>

fun at_text :: "nat \<Rightarrow> at_event list \<Rightarrow> string" where
  "at_text k [] = []"
| "at_text k (At_dot # es) = ''.'' @ at_text k es"
| "at_text k (At_tick # es) = (if Suc k mod 5 = 0 then ''f1():aaa\<newline>'' else []) @ at_text (Suc k) es"

definition at_main_lib :: "nat \<Rightarrow> (nat \<times> (string \<Rightarrow> string) \<times> string) list \<Rightarrow> (string \<Rightarrow> string, string) at_lib" where
  "at_main_lib k e = \<lparr>at_job = Some ((fresh_job 5 1 at_f1 ''aaa'')\<lparr>time_remain := 5 - int (k mod 5)\<rparr>) # replicate 1023 None,
     at_inited = True, fired = e\<rparr>"

lemma at_main_tick:
  "at_alrm_action AT_SI_KERNEL (at_main_lib k []) = Some (at_main_lib (Suc k) (if Suc k mod 5 = 0 then [(0, at_f1, ''aaa'')] else []))"
proof -
  have "Suc k mod 5 = (if k mod 5 = 4 then 0 else Suc (k mod 5))" by (simp add: mod_Suc)
  moreover have "k mod 5 < 5" by simp
  ultimately show ?thesis
    by (auto simp: at_main_lib_def at_alrm_action_def job_tick_def fresh_job_def cint_def cint_range INT_MAX_def at_ticks_free)
qed

lemma at_main_loop_text: "at_main_loop es (at_main_lib k e) = Some (at_text k es)"
proof (induction es arbitrary: k e)
  case (Cons x es)
  have r: "at_main_lib k e\<lparr>fired := []\<rparr> = at_main_lib k []" by (simp add: at_main_lib_def)
  have f: "fired (at_main_lib k e) = e" for k e by (simp add: at_main_lib_def)
  show ?case using Cons.IH by (cases x) (simp_all add: r at_main_tick f at_f1_def)
qed simp

lemma at_add_main:
  "at_addjob_repeat r1 r2 mem 5 at_f1 ''aaa'' at_start_lib =
   (if r1 < 0 \<or> r2 < 0 then Inl 1 else if \<not> mem then Inr (- ENOMEM, at_start_lib\<lparr>at_inited := True\<rparr>) else Inr (0, at_main_lib 0 []))"
proof -
  have r: "replicate JOB_MAX None = None # replicate 1023 (None :: (string \<Rightarrow> string, string) at_job_st option)"
    by (simp flip: replicate_Suc)
  have p: "free_pos (replicate JOB_MAX (None :: (string \<Rightarrow> string, string) at_job_st option)) = 0"
    using free_pos_replicate [of 1023, where 'a = "(string \<Rightarrow> string, string) at_job_st"] by simp
  show ?thesis
    by (simp add: at_addjob_repeat_def at_module_load_def at_start_lib_def at_get_free_pos_def p Let_def at_main_lib_def fresh_job_def)
      (simp add: r)
qed

lemma at_main_text:
  "at_main r1 r2 mem es = Some (if r1 < 0 \<or> r2 < 0 then (''Begin!\<newline>'', Some 1)
     else if \<not> mem then (''Begin!\<newline>'' @ replicate 24 CHR ''.'', Some 1)
     else (''Begin!\<newline>'' @ at_text 0 es, None))"
  by (simp add: at_main_def at_add_main at_main_loop_text)

end
