(* ===== verification/SqList.thy ===== *)
theory SqList
  imports Prelude
begin

text \<open>
  The sequential list of \<open>ds/line/list/arr\<close> (\<open>sqlist.h\<close>, \<open>sqlist.c\<close>): at most \<open>DATASIZE\<close> numbers in an
  array, with insertion and deletion at a position by shifting. The lemmas give the effect of every
  operation on the contents, \<open>sqlist_find\<close> as the code has it (its loop stops before the last
  element) and what that means for \<open>sqlist_union\<close>. The two lists of a union are different objects.
\<close>

section \<open>State and operations\<close>

definition DATASIZE :: int where
  "DATASIZE = 1024"

record sqlist =
  sq_data :: "int list"
  sq_last :: int

text \<open>The argument is what \<open>malloc\<close> returned: \<open>NULL\<close> or an uninitialised object.\<close>

definition sqlist_create :: "sqlist option \<Rightarrow> sqlist option" where
  "sqlist_create m = (case m of None \<Rightarrow> None | Some me \<Rightarrow> Some (me\<lparr>sq_last := - 1\<rparr>))"

text \<open>\<open>sqlist_create1\<close> hands the same object back through its parameter.\<close>

definition sqlist_create1 :: "sqlist option \<Rightarrow> sqlist option \<Rightarrow> sqlist option" where
  "sqlist_create1 old m =
     (let p = m in case p of None \<Rightarrow> p | Some me \<Rightarrow> Some (me\<lparr>sq_last := - 1\<rparr>))"

function sq_shift_up :: "int list \<Rightarrow> int \<Rightarrow> int \<Rightarrow> int list option" where
  "sq_shift_up d i j =
     (if i \<le> j then do {
        v \<leftarrow> arr_get d j;
        d' \<leftarrow> arr_set d (j + 1) v;
        sq_shift_up d' i (j - 1) }
      else Some d)"
  by pat_completeness auto
termination
  by (relation "measure (\<lambda>(d, i, j). nat (j + 1 - i))") auto

declare sq_shift_up.simps [simp del]

definition sqlist_insert :: "sqlist \<Rightarrow> int \<Rightarrow> int \<Rightarrow> (int \<times> sqlist) option" where
  "sqlist_insert me i data =
     (if DATASIZE - 1 = sq_last me then Some (- 1, me)
      else if i < 0 \<or> i > sq_last me + 1 then Some (- 2, me)
      else do {
        d \<leftarrow> sq_shift_up (sq_data me) i (sq_last me);
        d' \<leftarrow> arr_set d i data;
        Some (0, me\<lparr>sq_data := d', sq_last := sq_last me + 1\<rparr>) })"

function sq_shift_down :: "int list \<Rightarrow> int \<Rightarrow> int \<Rightarrow> int list option" where
  "sq_shift_down d j l =
     (if j \<le> l then do {
        v \<leftarrow> arr_get d j;
        d' \<leftarrow> arr_set d (j - 1) v;
        sq_shift_down d' (j + 1) l }
      else Some d)"
  by pat_completeness auto
termination
  by (relation "measure (\<lambda>(d, j, l). nat (l + 1 - j))") auto

declare sq_shift_down.simps [simp del]

definition sqlist_delete :: "sqlist \<Rightarrow> int \<Rightarrow> (int \<times> sqlist) option" where
  "sqlist_delete me i =
     (if i < 0 \<or> i > sq_last me then Some (- 1, me)
      else do {
        d \<leftarrow> sq_shift_down (sq_data me) (i + 1) (sq_last me);
        Some (0, me\<lparr>sq_data := d, sq_last := sq_last me - 1\<rparr>) })"

text \<open>Zero for an empty list, \<open>-1\<close> for one with elements.\<close>

definition sqlist_isempty :: "sqlist \<Rightarrow> int" where
  "sqlist_isempty me = (if - 1 = sq_last me then 0 else - 1)"

function sq_find_loop :: "sqlist \<Rightarrow> int \<Rightarrow> int \<Rightarrow> int option" where
  "sq_find_loop me data i =
     (if i < sq_last me then do {
        v \<leftarrow> arr_get (sq_data me) i;
        if v = data then Some i else sq_find_loop me data (i + 1) }
      else Some (- 2))"
  by pat_completeness auto
termination
  by (relation "measure (\<lambda>(me, data, i). nat (sq_last me - i))") auto

declare sq_find_loop.simps [simp del]

definition sqlist_find :: "sqlist \<Rightarrow> int \<Rightarrow> int option" where
  "sqlist_find me data =
     (if 0 = sqlist_isempty me then Some (- 1) else sq_find_loop me data 0)"

definition sqlist_setempty :: "sqlist \<Rightarrow> int \<times> sqlist" where
  "sqlist_setempty me = (0, me\<lparr>sq_last := - 1\<rparr>)"

definition sqlist_getnum :: "sqlist \<Rightarrow> int" where
  "sqlist_getnum me = sq_last me + 1"

text \<open>The printed numbers, \<open>None\<close> for a list that prints nothing, not even the line end.\<close>

function sq_display_loop :: "sqlist \<Rightarrow> int \<Rightarrow> int list option" where
  "sq_display_loop me i =
     (if i \<le> sq_last me then do {
        v \<leftarrow> arr_get (sq_data me) i;
        vs \<leftarrow> sq_display_loop me (i + 1);
        Some (v # vs) }
      else Some [])"
  by pat_completeness auto
termination
  by (relation "measure (\<lambda>(me, i). nat (sq_last me + 1 - i))") auto

declare sq_display_loop.simps [simp del]

definition sqlist_display :: "sqlist \<Rightarrow> int list option option" where
  "sqlist_display me =
     (if - 1 = sq_last me then Some None
      else do { vs \<leftarrow> sq_display_loop me 0; Some (Some vs) })"

function sq_union_loop :: "sqlist \<Rightarrow> sqlist \<Rightarrow> int \<Rightarrow> sqlist option" where
  "sq_union_loop list1 list2 i =
     (if i \<le> sq_last list2 then do {
        x \<leftarrow> arr_get (sq_data list2) i;
        f \<leftarrow> sqlist_find list1 x;
        if f < 0 then do {
          (r, list1') \<leftarrow> sqlist_insert list1 0 x;
          sq_union_loop list1' list2 (i + 1) }
        else sq_union_loop list1 list2 (i + 1) }
      else Some list1)"
  by pat_completeness auto
termination
  by (relation "measure (\<lambda>(list1, list2, i). nat (sq_last list2 + 1 - i))") auto

declare sq_union_loop.simps [simp del]

definition sqlist_union :: "sqlist \<Rightarrow> sqlist \<Rightarrow> (int \<times> sqlist) option" where
  "sqlist_union list1 list2 = do {
     list1' \<leftarrow> sq_union_loop list1 list2 0;
     Some (0, list1') }"

section \<open>Invariant and contents\<close>

definition sq_ok :: "sqlist \<Rightarrow> bool" where
  "sq_ok me \<longleftrightarrow> int (length (sq_data me)) = DATASIZE \<and> - 1 \<le> sq_last me \<and> sq_last me < DATASIZE"

definition sq_cont :: "sqlist \<Rightarrow> int list" where
  "sq_cont me = take (nat (sq_last me + 1)) (sq_data me)"

lemma sq_cont_upd: "sq_cont (me\<lparr>sq_data := d, sq_last := l\<rparr>) = take (nat (l + 1)) d"
  by (simp add: sq_cont_def)

lemma sq_cont_length: "sq_ok me \<Longrightarrow> int (length (sq_cont me)) = sq_last me + 1"
  by (auto simp: sq_cont_def sq_ok_def)

lemma sq_last_eq: "sq_ok me \<Longrightarrow> sq_last me = int (length (sq_cont me)) - 1"
  using sq_cont_length by simp

lemma sq_nth: "sq_ok me \<Longrightarrow> k < length (sq_cont me) \<Longrightarrow> sq_data me ! k = sq_cont me ! k"
  by (simp add: sq_cont_def)

lemma sq_cap: "sq_ok me \<Longrightarrow> int (length (sq_cont me)) \<le> DATASIZE"
  using sq_cont_length [of me] by (simp add: sq_ok_def)

lemma sq_getnum: "sq_ok me \<Longrightarrow> sqlist_getnum me = int (length (sq_cont me))"
  using sq_cont_length [of me] by (simp add: sqlist_getnum_def)

lemma sq_isempty: "sq_ok me \<Longrightarrow> sqlist_isempty me = (if sq_cont me = [] then 0 else - 1)"
  using sq_cont_length [of me] by (cases "sq_cont me") (auto simp: sqlist_isempty_def)

lemma sq_setempty: "sq_ok me \<Longrightarrow> sqlist_setempty me = (r, me') \<Longrightarrow> r = 0 \<and> sq_ok me' \<and> sq_cont me' = []"
  by (auto simp: sqlist_setempty_def sq_ok_def sq_cont_def DATASIZE_def)

section \<open>Shifting\<close>

lemma sq_shift_up_nth:
  "n + 1 < int (length d) \<Longrightarrow> 0 \<le> i \<Longrightarrow> i \<le> n + 1 \<Longrightarrow>
   \<exists>d'. sq_shift_up d i n = Some d' \<and> length d' = length d
     \<and> (\<forall>k < length d. d' ! k = (if i < int k \<and> int k \<le> n + 1 then d ! (k - 1) else d ! k))"
proof (induction d i n rule: sq_shift_up.induct)
  case (1 d i j)
  show ?case
  proof (cases "i \<le> j")
    case False
    with "1.prems" have "i = j + 1" by simp
    then show ?thesis by (subst sq_shift_up.simps) auto
  next
    case True
    let ?d = "d[nat (j + 1) := d ! nat j]"
    have g: "arr_get d j = Some (d ! nat j)" "arr_set d (j + 1) (d ! nat j) = Some ?d"
      using "1.prems" True by auto
    obtain d' where d': "sq_shift_up ?d i (j - 1) = Some d'" "length d' = length d"
      and nth: "\<And>k. k < length d \<Longrightarrow>
        d' ! k = (if i < int k \<and> int k \<le> j then ?d ! (k - 1) else ?d ! k)"
      using "1.IH" [OF True g] "1.prems" True by auto
    have "d' ! k = (if i < int k \<and> int k \<le> j + 1 then d ! (k - 1) else d ! k)" if "k < length d" for k
    proof (cases "int k = j + 1")
      case eq: True
      then have "nat (j + 1) = k" "nat j = k - 1" by auto
      with eq nth [OF that] that True show ?thesis by simp
    next
      case False
      with "1.prems" True have "nat (j + 1) \<noteq> k" "int k \<le> j \<Longrightarrow> nat (j + 1) \<noteq> k - 1"
        by linarith+
      with False nth [OF that] show ?thesis by auto
    qed
    with d' g True show ?thesis by (subst sq_shift_up.simps) simp
  qed
qed

lemma sq_shift_down_nth:
  "l < int (length d) \<Longrightarrow> 1 \<le> j \<Longrightarrow> j \<le> l + 1 \<Longrightarrow>
   \<exists>d'. sq_shift_down d j l = Some d' \<and> length d' = length d
     \<and> (\<forall>k < length d. d' ! k = (if j - 1 \<le> int k \<and> int k < l then d ! (k + 1) else d ! k))"
proof (induction d j l rule: sq_shift_down.induct)
  case (1 d j l)
  show ?case
  proof (cases "j \<le> l")
    case False
    with "1.prems" have "j = l + 1" by simp
    then show ?thesis by (subst sq_shift_down.simps) auto
  next
    case True
    let ?d = "d[nat (j - 1) := d ! nat j]"
    have g: "arr_get d j = Some (d ! nat j)" "arr_set d (j - 1) (d ! nat j) = Some ?d"
      using "1.prems" True by auto
    obtain d' where d': "sq_shift_down ?d (j + 1) l = Some d'" "length d' = length d"
      and nth: "\<And>k. k < length d \<Longrightarrow>
        d' ! k = (if j \<le> int k \<and> int k < l then ?d ! (k + 1) else ?d ! k)"
      using "1.IH" [OF True g] "1.prems" True by auto
    have "d' ! k = (if j - 1 \<le> int k \<and> int k < l then d ! (k + 1) else d ! k)" if "k < length d" for k
    proof (cases "int k = j - 1")
      case eq: True
      then have "nat (j - 1) = k" "nat j = k + 1" by auto
      with eq nth [OF that] that True show ?thesis by simp
    next
      case False
      with "1.prems" have "nat (j - 1) \<noteq> k" "j \<le> int k \<Longrightarrow> nat (j - 1) \<noteq> k + 1" by linarith+
      with False nth [OF that] show ?thesis by auto
    qed
    with d' g True show ?thesis by (subst sq_shift_down.simps) simp
  qed
qed

section \<open>Insertion and deletion\<close>

lemma sq_insert_full: "sq_ok me \<Longrightarrow> int (length (sq_cont me)) = DATASIZE \<Longrightarrow>
    sqlist_insert me i x = Some (- 1, me)"
  using sq_cont_length [of me] by (simp add: sqlist_insert_def)

lemma sq_insert_range: "sq_ok me \<Longrightarrow> int (length (sq_cont me)) < DATASIZE \<Longrightarrow>
    i < 0 \<or> int (length (sq_cont me)) < i \<Longrightarrow> sqlist_insert me i x = Some (- 2, me)"
  using sq_cont_length [of me] by (auto simp: sqlist_insert_def)

lemma sq_insert_at:
  assumes ok: "sq_ok me" and room: "int (length (sq_cont me)) < DATASIZE"
    and i: "i \<le> length (sq_cont me)"
  shows "\<exists>me'. sqlist_insert me (int i) x = Some (0, me') \<and> sq_ok me'
    \<and> sq_cont me' = take i (sq_cont me) @ x # drop i (sq_cont me)"
proof -
  let ?c = "sq_cont me"
  have l: "sq_last me = int (length ?c) - 1" by (rule sq_last_eq [OF ok])
  have len: "int (length (sq_data me)) = DATASIZE" using ok by (simp add: sq_ok_def)
  obtain d where d: "sq_shift_up (sq_data me) (int i) (sq_last me) = Some d" "length d = length (sq_data me)"
    and nth: "\<And>k. k < length (sq_data me) \<Longrightarrow> d ! k =
      (if int i < int k \<and> int k \<le> sq_last me + 1 then sq_data me ! (k - 1) else sq_data me ! k)"
    using sq_shift_up_nth [of "sq_last me" "sq_data me" "int i"] room len l i by auto
  let ?me = "me\<lparr>sq_data := d[i := x], sq_last := sq_last me + 1\<rparr>"
  have "sqlist_insert me (int i) x = Some (0, ?me)"
    using d room len i l by (simp add: sqlist_insert_def)
  moreover have "sq_ok ?me" using ok d room l by (simp add: sq_ok_def)
  moreover have "sq_cont ?me = take i ?c @ x # drop i ?c"
  proof (rule nth_equalityI)
    have n: "sq_cont ?me = take (Suc (length ?c)) (d[i := x])"
    proof -
      have "nat (sq_last me + 1 + 1) = Suc (length ?c)" using l by linarith
      then show ?thesis by (simp only: sq_cont_upd)
    qed
    show "length (sq_cont ?me) = length (take i ?c @ x # drop i ?c)"
      using n d(2) room len i by simp
    fix k
    assume "k < length (sq_cont ?me)"
    then have k: "k \<le> length ?c" "k < length (sq_data me)" using n d(2) room len by auto
    consider "k < i" | "k = i" | "i < k" by linarith
    then show "sq_cont ?me ! k = (take i ?c @ x # drop i ?c) ! k"
    proof cases
      case 1
      then show ?thesis using n nth [OF k(2)] k i sq_nth [OF ok, of k] by (simp add: nth_append)
    next
      case 2
      then show ?thesis using n k d(2) i by (simp add: nth_append)
    next
      case 3
      then obtain k' where "k = Suc k'" "i \<le> k'" "k' < length ?c" using k by (cases k) auto
      then show ?thesis using n nth [OF k(2)] k l i sq_nth [OF ok, of k'] by (simp add: nth_append Suc_diff_le)
    qed
  qed
  ultimately show ?thesis by blast
qed

lemma sq_delete_range: "sq_ok me \<Longrightarrow> i < 0 \<or> int (length (sq_cont me)) \<le> i \<Longrightarrow>
    sqlist_delete me i = Some (- 1, me)"
  using sq_cont_length [of me] by (auto simp: sqlist_delete_def)

lemma sq_delete_at:
  assumes ok: "sq_ok me" and i: "i < length (sq_cont me)"
  shows "\<exists>me'. sqlist_delete me (int i) = Some (0, me') \<and> sq_ok me'
    \<and> sq_cont me' = take i (sq_cont me) @ drop (Suc i) (sq_cont me)"
proof -
  let ?c = "sq_cont me"
  have l: "sq_last me = int (length ?c) - 1" by (rule sq_last_eq [OF ok])
  have len: "int (length (sq_data me)) = DATASIZE" using ok by (simp add: sq_ok_def)
  have cap: "length ?c \<le> length (sq_data me)" using sq_cap [OF ok] len by simp
  obtain d where d: "sq_shift_down (sq_data me) (int i + 1) (sq_last me) = Some d"
      "length d = length (sq_data me)"
    and nth: "\<And>k. k < length (sq_data me) \<Longrightarrow> d ! k =
      (if int i \<le> int k \<and> int k < sq_last me then sq_data me ! (k + 1) else sq_data me ! k)"
    using sq_shift_down_nth [of "sq_last me" "sq_data me" "int i + 1"] cap l i by auto
  let ?me = "me\<lparr>sq_data := d, sq_last := sq_last me - 1\<rparr>"
  have "sqlist_delete me (int i) = Some (0, ?me)"
    using d i l by (simp add: sqlist_delete_def)
  moreover have "sq_ok ?me" using ok d i l by (simp add: sq_ok_def)
  moreover have "sq_cont ?me = take i ?c @ drop (Suc i) ?c"
  proof (rule nth_equalityI)
    have n: "sq_cont ?me = take (length ?c - 1) d"
    proof -
      have "nat (sq_last me - 1 + 1) = length ?c - 1" using l i by linarith
      then show ?thesis by (simp only: sq_cont_upd)
    qed
    show "length (sq_cont ?me) = length (take i ?c @ drop (Suc i) ?c)"
      using n d(2) cap i by simp
    fix k
    assume "k < length (sq_cont ?me)"
    then have k: "Suc k < length ?c" "k < length (sq_data me)" using n d(2) cap by auto
    then show "sq_cont ?me ! k = (take i ?c @ drop (Suc i) ?c) ! k"
      using n nth [OF k(2)] l i sq_nth [OF ok, of k] sq_nth [OF ok, of "Suc k"]
      by (auto simp: nth_append)
  qed
  ultimately show ?thesis by blast
qed

section \<open>Searching, printing and the union\<close>

text \<open>
  The loop of \<open>sqlist_find\<close> stops before the last element: the answer is the first position of the
  number among all elements but the last.
\<close>

lemma sq_find_loop_eq:
  assumes ok: "sq_ok me" and ne: "sq_cont me \<noteq> []"
  shows "k \<le> length (butlast (sq_cont me)) \<Longrightarrow> sq_find_loop me x (int k) =
    Some (let b = drop k (butlast (sq_cont me)) in
      if x \<in> set b then int (k + length (takeWhile (\<lambda>y. y \<noteq> x) b)) else - 2)"
proof (induction "length (butlast (sq_cont me)) - k" arbitrary: k)
  case 0
  with sq_last_eq [OF ok] ne show ?case
    by (subst sq_find_loop.simps) (cases "sq_cont me" rule: rev_cases, simp_all)
next
  case (Suc n)
  let ?b = "butlast (sq_cont me)"
  have k: "k < length ?b" using Suc by simp
  have l: "sq_last me = int (length ?b)"
    using sq_last_eq [OF ok] ne by (cases "sq_cont me" rule: rev_cases) simp_all
  have v: "arr_get (sq_data me) (int k) = Some (?b ! k)"
    using k sq_nth [OF ok, of k] sq_cap [OF ok] ok by (simp add: sq_ok_def nth_butlast)
  have d: "drop k ?b = ?b ! k # drop (Suc k) ?b" using Cons_nth_drop_Suc [OF k] by simp
  have IH: "sq_find_loop me x (int k + 1) = Some (let b = drop (Suc k) ?b in
      if x \<in> set b then int (Suc k + length (takeWhile (\<lambda>y. y \<noteq> x) b)) else - 2)"
    using Suc.hyps(1) [of "Suc k"] Suc.hyps(2) k by (simp add: add.commute)
  show ?case
    by (subst sq_find_loop.simps) (use k l v IH in \<open>auto simp: d Let_def\<close>)
qed

lemma sq_find:
  assumes "sq_ok me"
  shows "sqlist_find me x = Some (let b = butlast (sq_cont me) in
     if sq_cont me = [] then - 1
     else if x \<in> set b then int (length (takeWhile (\<lambda>y. y \<noteq> x) b)) else - 2)"
  using sq_isempty [OF assms] sq_find_loop_eq [OF assms, of 0 x]
  by (auto simp: sqlist_find_def Let_def)

lemma sq_find_neg: "sq_ok me \<Longrightarrow> \<exists>f. sqlist_find me x = Some f \<and> (f < 0 \<longleftrightarrow> x \<notin> set (butlast (sq_cont me)))"
  by (auto simp: sq_find Let_def)

lemma sq_display_loop_eq:
  assumes ok: "sq_ok me"
  shows "k \<le> length (sq_cont me) \<Longrightarrow> sq_display_loop me (int k) = Some (drop k (sq_cont me))"
proof (induction "length (sq_cont me) - k" arbitrary: k)
  case 0
  with sq_last_eq [OF ok] show ?case by (subst sq_display_loop.simps) simp
next
  case (Suc n)
  have k: "k < length (sq_cont me)" using Suc by simp
  have v: "arr_get (sq_data me) (int k) = Some (sq_cont me ! k)"
    using k sq_nth [OF ok k] sq_cap [OF ok] ok by (simp add: sq_ok_def)
  have IH: "sq_display_loop me (int k + 1) = Some (drop (Suc k) (sq_cont me))"
    using Suc.hyps(1) [of "Suc k"] Suc.hyps(2) k by (simp add: add.commute)
  show ?case
    by (subst sq_display_loop.simps) (use k sq_last_eq [OF ok] v IH Cons_nth_drop_Suc [OF k] in simp)
qed

lemma sq_display:
  "sq_ok me \<Longrightarrow> sqlist_display me = Some (if sq_cont me = [] then None else Some (sq_cont me))"
  using sq_last_eq [of me] sq_display_loop_eq [of me 0] by (auto simp: sqlist_display_def)

text \<open>One round of the union on the contents.\<close>

definition un_step :: "int list \<Rightarrow> int \<Rightarrow> int list" where
  "un_step c x = (if x \<in> set (butlast c) \<or> int (length c) = DATASIZE then c else x # c)"

lemma sq_union_loop_eq:
  assumes ok2: "sq_ok l2"
  shows "sq_ok l1 \<Longrightarrow> k \<le> length (sq_cont l2) \<Longrightarrow>
    \<exists>l. sq_union_loop l1 l2 (int k) = Some l \<and> sq_ok l
      \<and> sq_cont l = foldl un_step (sq_cont l1) (drop k (sq_cont l2))"
proof (induction "length (sq_cont l2) - k" arbitrary: k l1)
  case 0
  with sq_last_eq [OF ok2] show ?case by (subst sq_union_loop.simps) simp
next
  case (Suc n)
  let ?x = "sq_cont l2 ! k"
  have k: "k < length (sq_cont l2)" using Suc by simp
  have v: "arr_get (sq_data l2) (int k) = Some ?x"
    using k sq_nth [OF ok2 k] sq_cap [OF ok2] ok2 by (simp add: sq_ok_def)
  have d: "drop k (sq_cont l2) = ?x # drop (Suc k) (sq_cont l2)"
    using Cons_nth_drop_Suc [OF k] by simp
  obtain f where f: "sqlist_find l1 ?x = Some f" "f < 0 \<longleftrightarrow> ?x \<notin> set (butlast (sq_cont l1))"
    using sq_find_neg [OF Suc.prems(1)] by blast
  have next_round: "\<exists>l. sq_union_loop l1' l2 (int k + 1) = Some l \<and> sq_ok l
      \<and> sq_cont l = foldl un_step (sq_cont l1') (drop (Suc k) (sq_cont l2))" if "sq_ok l1'" for l1'
    using Suc.hyps(1) [of "Suc k" l1'] Suc.hyps(2) k that by (simp add: add.commute)
  have ins: "\<exists>r l1'. sqlist_insert l1 0 ?x = Some (r, l1') \<and> sq_ok l1'
      \<and> sq_cont l1' = (if int (length (sq_cont l1)) = DATASIZE then sq_cont l1 else ?x # sq_cont l1)"
    using sq_insert_full [OF Suc.prems(1), of 0 ?x] sq_insert_at [OF Suc.prems(1), of 0 ?x]
      sq_cap [OF Suc.prems(1)] Suc.prems(1)
    by (cases "int (length (sq_cont l1)) = DATASIZE") auto
  show ?case
  proof (cases "f < 0")
    case True
    from ins obtain r l1' where l1': "sqlist_insert l1 0 ?x = Some (r, l1')" "sq_ok l1'"
      "sq_cont l1' = un_step (sq_cont l1) ?x" using f True by (auto simp: un_step_def)
    from next_round [OF l1'(2)] l1' show ?thesis
      by (subst sq_union_loop.simps) (use k sq_last_eq [OF ok2] v f True d in simp)
  next
    case False
    with f have "un_step (sq_cont l1) ?x = sq_cont l1" by (simp add: un_step_def)
    with next_round [OF Suc.prems(1)] show ?thesis
      by (subst sq_union_loop.simps) (use k sq_last_eq [OF ok2] v f False d in simp)
  qed
qed

lemma un_steps:
  "int (length c + length xs) \<le> DATASIZE \<Longrightarrow>
   \<exists>ys. foldl un_step c xs = ys @ c \<and> length ys \<le> length xs \<and> set ys \<subseteq> set xs
     \<and> set ys \<union> set c = set xs \<union> set c"
proof (induction xs arbitrary: c)
  case (Cons x xs)
  show ?case
  proof (cases "x \<in> set (butlast c)")
    case True
    with Cons.IH [of c] Cons.prems in_set_butlastD [of x c] show ?thesis
      by (auto simp: un_step_def intro!: le_SucI)
  next
    case False
    have "un_step c x = x # c" using False Cons.prems by (simp add: un_step_def)
    with Cons.IH [of "x # c"] Cons.prems show ?thesis by (fastforce intro: exI [of _ "_ @ [x]"])
  qed
qed simp

text \<open>When the last element of the first list does not occur in the second, nothing is duplicated.\<close>

lemma un_steps_distinct:
  "distinct c \<Longrightarrow> distinct xs \<Longrightarrow> c \<noteq> [] \<Longrightarrow> last c \<notin> set xs \<Longrightarrow> distinct (foldl un_step c xs)"
proof (induction xs arbitrary: c)
  case (Cons x xs)
  have "x \<notin> set c" if "x \<notin> set (butlast c)"
    using that Cons.prems by (cases c rule: rev_cases) auto
  with Cons show ?case by (auto simp: un_step_def)
qed simp

section \<open>The contract of the sequential list\<close>

text \<open>On a well-formed sequential list with contents \<open>c\<close>: inserting at \<open>i\<close> answers -1 when
  the list is full and -2 for a position outside \<open>0..length c\<close>, both without effect, and otherwise puts
  the number at position \<open>i\<close>; deleting at \<open>i\<close> answers -1 without effect outside the list and otherwise
  removes the element at \<open>i\<close>; every result is well formed again and what is displayed are the contents.\<close>
theorem sqlist_contract:
  assumes "sq_ok me"
  shows "(sqlist_insert me i x = Some (- 1, me) \<and> int (length (sq_cont me)) = DATASIZE
      \<or> sqlist_insert me i x = Some (- 2, me) \<and> (i < 0 \<or> i > int (length (sq_cont me)))
      \<or> (\<exists>me'. sqlist_insert me i x = Some (0, me') \<and> sq_ok me' \<and> 0 \<le> i
          \<and> sq_cont me' = take (nat i) (sq_cont me) @ x # drop (nat i) (sq_cont me)
          \<and> sqlist_getnum me' = sqlist_getnum me + 1))
    \<and> (sqlist_delete me i = Some (- 1, me) \<and> (i < 0 \<or> i \<ge> int (length (sq_cont me)))
      \<or> (\<exists>me'. sqlist_delete me i = Some (0, me') \<and> sq_ok me' \<and> 0 \<le> i \<and> i < int (length (sq_cont me))
          \<and> sq_cont me' = take (nat i) (sq_cont me) @ drop (Suc (nat i)) (sq_cont me)))
    \<and> (sqlist_display me = Some (if sq_cont me = [] then None else Some (sq_cont me)))"
proof (intro conjI)
  show "sqlist_insert me i x = Some (- 1, me) \<and> int (length (sq_cont me)) = DATASIZE
      \<or> sqlist_insert me i x = Some (- 2, me) \<and> (i < 0 \<or> i > int (length (sq_cont me)))
      \<or> (\<exists>me'. sqlist_insert me i x = Some (0, me') \<and> sq_ok me' \<and> 0 \<le> i
          \<and> sq_cont me' = take (nat i) (sq_cont me) @ x # drop (nat i) (sq_cont me)
          \<and> sqlist_getnum me' = sqlist_getnum me + 1)"
  proof (cases "int (length (sq_cont me)) = DATASIZE \<or> i < 0 \<or> i > int (length (sq_cont me))")
    case True
    then show ?thesis
      using sq_insert_full [OF assms] sq_insert_range [OF assms] sq_cap [OF assms]
      by (metis order_le_imp_less_or_eq)
  next
    case False
    then obtain me' where "sqlist_insert me (int (nat i)) x = Some (0, me')" "sq_ok me'"
      "sq_cont me' = take (nat i) (sq_cont me) @ x # drop (nat i) (sq_cont me)"
      using sq_insert_at [OF assms _ , of "nat i" x] sq_cap [OF assms] by force
    with False sq_getnum [OF assms] sq_getnum [of me'] show ?thesis by auto
  qed
  show "sqlist_delete me i = Some (- 1, me) \<and> (i < 0 \<or> i \<ge> int (length (sq_cont me)))
      \<or> (\<exists>me'. sqlist_delete me i = Some (0, me') \<and> sq_ok me' \<and> 0 \<le> i \<and> i < int (length (sq_cont me))
          \<and> sq_cont me' = take (nat i) (sq_cont me) @ drop (Suc (nat i)) (sq_cont me))"
    using sq_delete_range [OF assms, of i] sq_delete_at [OF assms, of "nat i"]
    by (cases "i < 0 \<or> i \<ge> int (length (sq_cont me))") auto
  show "sqlist_display me = Some (if sq_cont me = [] then None else Some (sq_cont me))"
    by (rule sq_display [OF assms])
qed

text \<open>A list of three numbers in the array.\<close>

definition sq_of :: "int list \<Rightarrow> sqlist" where
  "sq_of xs = \<lparr>sq_data = xs @ replicate (1024 - length xs) 0, sq_last = int (length xs) - 1\<rparr>"

lemma sq_of_ok: "length xs \<le> 1024 \<Longrightarrow> sq_ok (sq_of xs)"
  by (auto simp: sq_ok_def sq_of_def DATASIZE_def)

lemma sq_of_cont: "sq_cont (sq_of xs) = xs"
  by (simp add: sq_cont_def sq_of_def)

lemma sqlist_contract_witness:
  "\<exists>me'. sqlist_insert (sq_of [10, 20, 30]) 1 15 = Some (0, me') \<and> sq_cont me' = [10, 15, 20, 30]"
  using sqlist_contract [OF sq_of_ok, of "[10, 20, 30]" 1 15, THEN conjunct1] by (auto simp: sq_of_cont DATASIZE_def)

text \<open>\<open>sqlist_find\<close> gives the first position of the number among all elements except the
  last (the loop ends one early), -2 when it is not there and -1 on an empty list. As a consequence, when
  the sizes fit, \<open>sqlist_union\<close> puts new elements in front of the first list so that the result holds
  exactly the numbers of both, and it is free of duplicates if both lists are and the last element of the
  first does not occur in the second.\<close>
theorem sqlist_find_union:
  assumes "sq_ok l1" "sq_ok l2" "int (length (sq_cont l1) + length (sq_cont l2)) \<le> DATASIZE"
  shows "sqlist_find l1 x = Some (let b = butlast (sq_cont l1) in
      if sq_cont l1 = [] then - 1
      else if x \<in> set b then int (length (takeWhile (\<lambda>y. y \<noteq> x) b)) else - 2)"
    and "\<exists>l ys. sqlist_union l1 l2 = Some (0, l) \<and> sq_ok l \<and> sq_cont l = ys @ sq_cont l1
      \<and> set (sq_cont l) = set (sq_cont l1) \<union> set (sq_cont l2)
      \<and> (distinct (sq_cont l1) \<longrightarrow> distinct (sq_cont l2) \<longrightarrow> sq_cont l1 \<noteq> [] \<longrightarrow>
          last (sq_cont l1) \<notin> set (sq_cont l2) \<longrightarrow> distinct (sq_cont l))"
proof -
  show "sqlist_find l1 x = Some (let b = butlast (sq_cont l1) in
      if sq_cont l1 = [] then - 1
      else if x \<in> set b then int (length (takeWhile (\<lambda>y. y \<noteq> x) b)) else - 2)"
    by (rule sq_find [OF assms(1)])
  obtain l where l: "sq_union_loop l1 l2 0 = Some l" "sq_ok l"
    "sq_cont l = foldl un_step (sq_cont l1) (sq_cont l2)"
    using sq_union_loop_eq [OF assms(2,1), of 0] by auto
  obtain ys where ys: "sq_cont l = ys @ sq_cont l1"
    "set ys \<union> set (sq_cont l1) = set (sq_cont l2) \<union> set (sq_cont l1)"
    using un_steps [OF assms(3)] l(3) by auto
  have res: "sqlist_union l1 l2 = Some (0, l)" using l(1) by (simp add: sqlist_union_def)
  have sets: "set (sq_cont l) = set (sq_cont l1) \<union> set (sq_cont l2)"
    using ys(2) by (simp add: ys(1) Un_commute)
  show "\<exists>l ys. sqlist_union l1 l2 = Some (0, l) \<and> sq_ok l \<and> sq_cont l = ys @ sq_cont l1
      \<and> set (sq_cont l) = set (sq_cont l1) \<union> set (sq_cont l2)
      \<and> (distinct (sq_cont l1) \<longrightarrow> distinct (sq_cont l2) \<longrightarrow> sq_cont l1 \<noteq> [] \<longrightarrow>
          last (sq_cont l1) \<notin> set (sq_cont l2) \<longrightarrow> distinct (sq_cont l))"
    using res l(2) ys(1) sets un_steps_distinct [of "sq_cont l1" "sq_cont l2", folded l(3)] by blast
qed

text \<open>The two lists of the comment in \<open>sqlist_union\<close>: 56 is the last element of the first list, is not
  found there, and ends up twice in the union.\<close>

lemma sqlist_find_union_witness:
  "(\<exists>l. sqlist_union (sq_of [12, 23, 34, 45, 56]) (sq_of [78, 89, 56, 23, 10]) = Some (0, l)
      \<and> set (sq_cont l) = {12, 23, 34, 45, 56, 78, 89, 10})
   \<and> sqlist_find (sq_of [12, 23, 34, 45, 56]) 56 = Some (- 2)"
  using sqlist_find_union(1) [OF sq_of_ok sq_of_ok, of "[12, 23, 34, 45, 56]" "[78, 89, 56, 23, 10]" 56]
    sqlist_find_union(2) [OF sq_of_ok sq_of_ok, of "[12, 23, 34, 45, 56]" "[78, 89, 56, 23, 10]"]
  by (auto simp: sq_of_cont DATASIZE_def Let_def)

lemma sqlist_union_duplicates:
  "\<exists>l. sqlist_union (sq_of [12, 23, 34, 45, 56]) (sq_of [78, 89, 56, 23, 10]) = Some (0, l)
      \<and> sq_cont l = [10, 56, 89, 78, 12, 23, 34, 45, 56]"
  using sq_union_loop_eq [where ?l2.0 = "sq_of [78, 89, 56, 23, 10]" and ?l1.0 = "sq_of [12, 23, 34, 45, 56]" and k = 0]
    sq_of_ok [of "[78, 89, 56, 23, 10]"] sq_of_ok [of "[12, 23, 34, 45, 56]"]
  by (auto simp: sq_of_cont un_step_def DATASIZE_def sqlist_union_def)

end
