(* ===== verification/Interfaces.thy ===== *)
theory Interfaces
  imports Prelude
begin

text \<open>
  The contracts between components, as locales. A stack and a queue are used through their
  operations only (by the ball clock, the expression evaluator and the level-order traversal of
  the binary tree), and the repository implements each twice, over an array and over the generic
  doubly linked list. The contract says what the client may rely on for every result code; what
  follows from it for sequences of operations is proved once, here.
\<close>

section \<open>Sequences of operations\<close>

text \<open>Adding the elements of a list in order; \<open>None\<close> when one is refused.\<close>

primrec adds :: "('s \<Rightarrow> 'a \<Rightarrow> (int \<times> 's) option) \<Rightarrow> 'a list \<Rightarrow> 's \<Rightarrow> 's option" where
  "adds add [] s = Some s"
| "adds add (x # xs) s = do {
     (r, s') \<leftarrow> add s x;
     if r = 0 then adds add xs s' else None }"

text \<open>Taking \<open>n\<close> elements in a row, collected in order.\<close>

primrec takes :: "('s \<Rightarrow> 'a \<Rightarrow> (int \<times> 'a \<times> 's) option) \<Rightarrow> nat \<Rightarrow> 's \<Rightarrow> 'a \<Rightarrow> ('a list \<times> 's) option" where
  "takes op 0 s y = Some ([], s)"
| "takes op (Suc n) s y = do {
     (r, x, s') \<leftarrow> op s y;
     (xs, s'') \<leftarrow> takes op n s' x;
     Some (x # xs, s'') }"

section \<open>Stacks\<close>

text \<open>
  \<open>cont\<close> is the contents, top first. A push answers 0 and adds the element, or answers something
  else and adds nothing (array full, no memory). A pop answers \<open>-1\<close> exactly on the empty stack
  and then leaves the output parameter alone.
\<close>

locale stack_ops =
  fixes inv :: "'s \<Rightarrow> bool"
    and elem :: "'a \<Rightarrow> bool"
    and cont :: "'s \<Rightarrow> 'a list"
    and push :: "'s \<Rightarrow> 'a \<Rightarrow> (int \<times> 's) option"
    and pop :: "'s \<Rightarrow> 'a \<Rightarrow> (int \<times> 'a \<times> 's) option"
  assumes push_law: "inv s \<Longrightarrow> elem x \<Longrightarrow>
      \<exists>r s'. push s x = Some (r, s') \<and> inv s' \<and> cont s' = (if r = 0 then x # cont s else cont s)"
    and pop_cons: "inv s \<Longrightarrow> cont s = x # xs \<Longrightarrow>
      \<exists>s'. pop s y = Some (0, x, s') \<and> inv s' \<and> cont s' = xs"
    and pop_nil: "inv s \<Longrightarrow> cont s = [] \<Longrightarrow> pop s y = Some (- 1, y, s)"
begin

text \<open>A push that succeeded is undone by the next pop.\<close>

lemma push_pop:
  assumes "inv s" "elem x" "push s x = Some (0, s')"
  shows "\<exists>s''. pop s' y = Some (0, x, s'') \<and> inv s'' \<and> cont s'' = cont s"
proof -
  from push_law [OF assms(1,2)] assms(3) have "inv s'" "cont s' = x # cont s"
    by auto
  then show ?thesis by (rule pop_cons)
qed

lemma pops_cont:
  "inv s \<Longrightarrow> n \<le> length (cont s) \<Longrightarrow>
   \<exists>s'. takes pop n s y = Some (take n (cont s), s') \<and> inv s' \<and> cont s' = drop n (cont s)"
proof (induction n arbitrary: s y)
  case 0
  then show ?case by simp
next
  case (Suc n)
  then obtain x xs where c: "cont s = x # xs" by (cases "cont s") auto
  from pop_cons [OF Suc.prems(1) c] obtain s' where
    s': "pop s y = Some (0, x, s')" "inv s'" "cont s' = xs" by blast
  with Suc.IH [of s' x] Suc.prems(2) c show ?case by auto
qed

end

text \<open>A bounded stack refuses a push exactly when it holds \<open>cap\<close> elements.\<close>

locale bounded_stack = stack_ops inv elem cont push pop
  for inv :: "'s \<Rightarrow> bool" and elem :: "'a \<Rightarrow> bool" and cont :: "'s \<Rightarrow> 'a list"
    and push :: "'s \<Rightarrow> 'a \<Rightarrow> (int \<times> 's) option"
    and pop :: "'s \<Rightarrow> 'a \<Rightarrow> (int \<times> 'a \<times> 's) option" +
  fixes cap :: nat
  assumes push_code: "inv s \<Longrightarrow> elem x \<Longrightarrow> push s x = Some (r, s') \<Longrightarrow>
      r = (if length (cont s) < cap then 0 else - 1)"
    and cont_cap: "inv s \<Longrightarrow> length (cont s) \<le> cap"
begin

lemma push_room:
  assumes "inv s" "elem x" "length (cont s) < cap"
  shows "\<exists>s'. push s x = Some (0, s') \<and> inv s' \<and> cont s' = x # cont s"
  using push_law [OF assms(1,2)] push_code [OF assms(1,2)] assms(3) by force

lemma push_full:
  assumes "inv s" "elem x" "length (cont s) = cap"
  shows "\<exists>s'. push s x = Some (- 1, s') \<and> inv s' \<and> cont s' = cont s"
  using push_law [OF assms(1,2)] push_code [OF assms(1,2)] assms(3) by force

lemma adds_cont:
  "inv s \<Longrightarrow> \<forall>x \<in> set xs. elem x \<Longrightarrow> length (cont s) + length xs \<le> cap \<Longrightarrow>
   \<exists>s'. adds push xs s = Some s' \<and> inv s' \<and> cont s' = rev xs @ cont s"
proof (induction xs arbitrary: s)
  case (Cons x xs)
  then obtain s1 where "push s x = Some (0, s1)" "inv s1" "cont s1 = x # cont s"
    using push_room [of s x] by auto
  with Cons.IH [of s1] Cons.prems show ?case by auto
qed simp

text \<open>What goes in comes out in the opposite order.\<close>

lemma lifo:
  assumes "inv s" "\<forall>x \<in> set xs. elem x" "length (cont s) + length xs \<le> cap"
  shows "\<exists>s' s''. adds push xs s = Some s' \<and> takes pop (length xs) s' y = Some (rev xs, s'')
    \<and> inv s'' \<and> cont s'' = cont s"
proof -
  obtain s' where s': "adds push xs s = Some s'" "inv s'" "cont s' = rev xs @ cont s"
    using adds_cont [OF assms] by blast
  with pops_cont [of s' "length xs" y] show ?thesis by auto
qed

end

section \<open>Queues\<close>

text \<open>\<open>cont\<close> is the contents, front first.\<close>

locale queue_ops =
  fixes inv :: "'s \<Rightarrow> bool"
    and elem :: "'a \<Rightarrow> bool"
    and cont :: "'s \<Rightarrow> 'a list"
    and enq :: "'s \<Rightarrow> 'a \<Rightarrow> (int \<times> 's) option"
    and deq :: "'s \<Rightarrow> 'a \<Rightarrow> (int \<times> 'a \<times> 's) option"
  assumes enq_law: "inv s \<Longrightarrow> elem x \<Longrightarrow>
      \<exists>r s'. enq s x = Some (r, s') \<and> inv s' \<and> cont s' = (if r = 0 then cont s @ [x] else cont s)"
    and deq_cons: "inv s \<Longrightarrow> cont s = x # xs \<Longrightarrow>
      \<exists>s'. deq s y = Some (0, x, s') \<and> inv s' \<and> cont s' = xs"
    and deq_nil: "inv s \<Longrightarrow> cont s = [] \<Longrightarrow> deq s y = Some (- 1, y, s)"
begin

lemma deqs_cont:
  "inv s \<Longrightarrow> n \<le> length (cont s) \<Longrightarrow>
   \<exists>s'. takes deq n s y = Some (take n (cont s), s') \<and> inv s' \<and> cont s' = drop n (cont s)"
proof (induction n arbitrary: s y)
  case 0
  then show ?case by simp
next
  case (Suc n)
  then obtain x xs where c: "cont s = x # xs" by (cases "cont s") auto
  from deq_cons [OF Suc.prems(1) c] obtain s' where
    s': "deq s y = Some (0, x, s')" "inv s'" "cont s' = xs" by blast
  with Suc.IH [of s' x] Suc.prems(2) c show ?case by auto
qed

end

locale bounded_queue = queue_ops inv elem cont enq deq
  for inv :: "'s \<Rightarrow> bool" and elem :: "'a \<Rightarrow> bool" and cont :: "'s \<Rightarrow> 'a list"
    and enq :: "'s \<Rightarrow> 'a \<Rightarrow> (int \<times> 's) option"
    and deq :: "'s \<Rightarrow> 'a \<Rightarrow> (int \<times> 'a \<times> 's) option" +
  fixes cap :: nat
  assumes enq_code: "inv s \<Longrightarrow> elem x \<Longrightarrow> enq s x = Some (r, s') \<Longrightarrow>
      r = (if length (cont s) < cap then 0 else - 1)"
    and cont_cap: "inv s \<Longrightarrow> length (cont s) \<le> cap"
begin

lemma enq_room:
  assumes "inv s" "elem x" "length (cont s) < cap"
  shows "\<exists>s'. enq s x = Some (0, s') \<and> inv s' \<and> cont s' = cont s @ [x]"
  using enq_law [OF assms(1,2)] enq_code [OF assms(1,2)] assms(3) by force

lemma enq_full:
  assumes "inv s" "elem x" "length (cont s) = cap"
  shows "\<exists>s'. enq s x = Some (- 1, s') \<and> inv s' \<and> cont s' = cont s"
  using enq_law [OF assms(1,2)] enq_code [OF assms(1,2)] assms(3) by force

lemma adds_cont:
  "inv s \<Longrightarrow> \<forall>x \<in> set xs. elem x \<Longrightarrow> length (cont s) + length xs \<le> cap \<Longrightarrow>
   \<exists>s'. adds enq xs s = Some s' \<and> inv s' \<and> cont s' = cont s @ xs"
proof (induction xs arbitrary: s)
  case (Cons x xs)
  then obtain s1 where "enq s x = Some (0, s1)" "inv s1" "cont s1 = cont s @ [x]"
    using enq_room [of s x] by auto
  with Cons.IH [of s1] Cons.prems show ?case by auto
qed simp

text \<open>What goes in comes out in the same order, after what was there before.\<close>

lemma fifo:
  assumes "inv s" "\<forall>x \<in> set xs. elem x" "length (cont s) + length xs \<le> cap"
  shows "\<exists>s' s''. adds enq xs s = Some s'
    \<and> takes deq (length (cont s) + length xs) s' y = Some (cont s @ xs, s'') \<and> inv s'' \<and> cont s'' = []"
proof -
  obtain s' where s': "adds enq xs s = Some s'" "inv s'" "cont s' = cont s @ xs"
    using adds_cont [OF assms] by blast
  with deqs_cont [of s' "length (cont s) + length xs" y] show ?thesis by auto
qed

end

text \<open>A queue that never refuses an element.\<close>

locale reliable_queue = queue_ops inv elem cont enq deq
  for inv :: "'s \<Rightarrow> bool" and elem :: "'a \<Rightarrow> bool" and cont :: "'s \<Rightarrow> 'a list"
    and enq :: "'s \<Rightarrow> 'a \<Rightarrow> (int \<times> 's) option"
    and deq :: "'s \<Rightarrow> 'a \<Rightarrow> (int \<times> 'a \<times> 's) option" +
  assumes enq_code: "inv s \<Longrightarrow> elem x \<Longrightarrow> enq s x = Some (r, s') \<Longrightarrow> r = 0"
begin

lemma enq_ok:
  assumes "inv s" "elem x"
  shows "\<exists>s'. enq s x = Some (0, s') \<and> inv s' \<and> cont s' = cont s @ [x]"
  using enq_law [OF assms] enq_code [OF assms] by fastforce

end

end
