(* ===== verification/ArrStack.thy ===== *)
theory ArrStack
  imports Interfaces
begin

text \<open>
  The array stack of \<open>ds/line/stack/arr\<close> (\<open>sqstack.h\<close>, \<open>sqstack.c\<close>). The same source text is
  compiled with \<open>MAXSIZE\<close> 5 there, with \<open>MAXSIZE\<close> 32 in \<open>ds/line/compute\<close> and with \<open>SIZE\<close> 32 in
  \<open>ds/line/ball_clock\<close>, so the capacity is a parameter \<open>M\<close> of the operations that read the macro.
  The lemmas show the invariant, the behaviour of every branch, and that the operations implement
  the bounded stack contract with capacity \<open>M\<close>.
\<close>

section \<open>State and operations\<close>

record sqstack =
  st_data :: "int list"
  top :: int

text \<open>
  \<open>st_create\<close>: \<open>mem\<close> is what \<open>malloc\<close> returned, \<open>None\<close> for \<open>NULL\<close> and otherwise the uninitialised
  object. The result is the returned pointer.
\<close>

definition st_create :: "sqstack option \<Rightarrow> sqstack option" where
  "st_create mem = (case mem of None \<Rightarrow> None | Some st \<Rightarrow> Some (st\<lparr>top := - 1\<rparr>))"

definition st_isempty :: "sqstack \<Rightarrow> bool" where
  "st_isempty st \<longleftrightarrow> - 1 = top st"

definition st_push :: "nat \<Rightarrow> sqstack \<Rightarrow> int \<Rightarrow> (int \<times> sqstack) option" where
  "st_push M st data =
     (if int M - 1 = top st then Some (- 1, st)
      else do {
        let t = top st + 1;
        d \<leftarrow> arr_set (st_data st) t data;
        Some (0, st\<lparr>st_data := d, top := t\<rparr>) })"

definition st_pop :: "sqstack \<Rightarrow> int \<Rightarrow> (int \<times> int \<times> sqstack) option" where
  "st_pop st data =
     (if st_isempty st then Some (- 1, data, st)
      else do {
        v \<leftarrow> arr_get (st_data st) (top st);
        Some (0, v, st\<lparr>top := top st - 1\<rparr>) })"

definition st_top :: "sqstack \<Rightarrow> int \<Rightarrow> (int \<times> int) option" where
  "st_top st data =
     (if st_isempty st then Some (- 1, data)
      else do {
        v \<leftarrow> arr_get (st_data st) (top st);
        Some (0, v) })"

text \<open>\<open>st_travel\<close> prints the elements from the bottom; the result is the list of printed numbers.\<close>

function st_travel_loop :: "sqstack \<Rightarrow> int \<Rightarrow> int list option" where
  "st_travel_loop st i =
     (if i \<le> top st then do {
        v \<leftarrow> arr_get (st_data st) i;
        out \<leftarrow> st_travel_loop st (i + 1);
        Some (v # out) }
      else Some [])"
  by pat_completeness auto
termination
  by (relation "measure (\<lambda>(st, i). nat (top st + 1 - i))") auto

declare st_travel_loop.simps [simp del]

definition st_travel :: "sqstack \<Rightarrow> int list option" where
  "st_travel st = (if st_isempty st then Some [] else st_travel_loop st 0)"

section \<open>Invariant and contents\<close>

definition st_ok :: "nat \<Rightarrow> sqstack \<Rightarrow> bool" where
  "st_ok M st \<longleftrightarrow> length (st_data st) = M \<and> - 1 \<le> top st \<and> top st < int M"

text \<open>The contents, top first.\<close>

definition st_cont :: "sqstack \<Rightarrow> int list" where
  "st_cont st = rev (take (nat (top st + 1)) (st_data st))"

lemma st_create_ok:
  "length (st_data m) = M \<Longrightarrow> 0 < M \<Longrightarrow>
   \<exists>st. st_create (Some m) = Some st \<and> st_ok M st \<and> st_cont st = []"
  by (simp add: st_create_def st_ok_def st_cont_def)

lemma st_cont_length: "st_ok M st \<Longrightarrow> int (length (st_cont st)) = top st + 1"
  by (auto simp: st_cont_def st_ok_def)

lemma st_isempty_iff: "st_ok M st \<Longrightarrow> st_isempty st \<longleftrightarrow> st_cont st = []"
  using st_cont_length [of M st] by (cases "st_cont st") (auto simp: st_isempty_def)

lemma st_cont_Cons:
  assumes "st_ok M st" "st_cont st = x # xs"
  shows "0 \<le> top st" "top st < int (length (st_data st))" "st_data st ! nat (top st) = x"
    and "rev (take (nat (top st)) (st_data st)) = xs"
proof -
  from st_cont_length [OF assms(1)] assms(2) show t: "0 \<le> top st" by simp
  from assms(1) show b: "top st < int (length (st_data st))" by (simp add: st_ok_def)
  define n where "n = nat (top st)"
  have n: "nat (top st + 1) = Suc n" "n < length (st_data st)"
    using t b by (auto simp: n_def)
  then have "st_cont st = st_data st ! n # rev (take n (st_data st))"
    by (simp add: st_cont_def take_Suc_conv_app_nth)
  with assms(2) show "st_data st ! nat (top st) = x"
    "rev (take (nat (top st)) (st_data st)) = xs"
    by (simp_all add: n_def)
qed

lemma st_push_full:
  "st_ok M st \<Longrightarrow> length (st_cont st) = M \<Longrightarrow> st_push M st x = Some (- 1, st)"
  using st_cont_length [of M st] by (simp add: st_push_def)

lemma st_push_room:
  assumes "st_ok M st" "length (st_cont st) < M"
  shows "\<exists>st'. st_push M st x = Some (0, st') \<and> st_ok M st' \<and> st_cont st' = x # st_cont st"
proof -
  define n where "n = nat (top st + 1)"
  from assms st_cont_length [OF assms(1)] have n: "top st + 1 = int n" "n < length (st_data st)"
    by (auto simp: n_def st_ok_def)
  then have neq: "int M - 1 \<noteq> top st" using assms(1) by (auto simp: st_ok_def)
  let ?st = "st\<lparr>st_data := (st_data st)[n := x], top := top st + 1\<rparr>"
  from n neq have "st_push M st x = Some (0, ?st)"
    by (simp add: st_push_def)
  moreover have "st_ok M ?st"
    using assms(1) n by (auto simp: st_ok_def)
  moreover have "st_cont ?st = x # st_cont st"
  proof -
    have "nat (top st + 1 + 1) = Suc n" using n(1) by simp
    then show ?thesis using n by (simp add: st_cont_def)
  qed
  ultimately show ?thesis by blast
qed

lemma st_pop_empty: "st_ok M st \<Longrightarrow> st_cont st = [] \<Longrightarrow> st_pop st y = Some (- 1, y, st)"
  by (simp add: st_pop_def st_isempty_iff)

lemma st_pop_cons:
  assumes "st_ok M st" "st_cont st = x # xs"
  shows "\<exists>st'. st_pop st y = Some (0, x, st') \<and> st_ok M st' \<and> st_cont st' = xs"
  using st_cont_Cons [OF assms] assms(1) st_isempty_iff [OF assms(1)] assms(2)
  by (auto simp: st_pop_def st_ok_def st_cont_def)

lemma st_top_cons:
  assumes "st_ok M st" "st_cont st = x # xs"
  shows "st_top st y = Some (0, x)"
  using st_cont_Cons [OF assms] st_isempty_iff [OF assms(1)] assms(2)
  by (simp add: st_top_def)

lemma st_top_empty: "st_ok M st \<Longrightarrow> st_cont st = [] \<Longrightarrow> st_top st y = Some (- 1, y)"
  by (simp add: st_top_def st_isempty_iff)

section \<open>The bounded stack contract\<close>

interpretation arr_stack: bounded_stack "st_ok M" "\<lambda>_. True" st_cont "st_push M" st_pop M
proof (unfold_locales, goal_cases)
  case (1 s x)
  have "length (st_cont s) \<le> M" using st_cont_length [OF 1(1)] 1(1) by (auto simp: st_ok_def)
  then consider "length (st_cont s) = M" | "length (st_cont s) < M" by linarith
  then show ?case
    using st_push_full [OF 1(1)] st_push_room [OF 1(1)] 1(1) by cases (fastforce+)
next
  case (4 s x r s')
  have "length (st_cont s) \<le> M" using st_cont_length [OF 4(1)] 4(1) by (auto simp: st_ok_def)
  then consider "length (st_cont s) = M" | "length (st_cont s) < M" by linarith
  then show ?case
    using st_push_full [OF 4(1), of x] st_push_room [OF 4(1), of x] 4(3) by cases auto
next
  case (5 s)
  then show ?case using st_cont_length [OF 5] by (auto simp: st_ok_def)
qed (auto intro: st_pop_cons st_pop_empty)

lemma st_travel_loop_eq:
  "st_ok M st \<Longrightarrow> 0 \<le> i \<Longrightarrow>
   st_travel_loop st i = Some (drop (nat i) (take (nat (top st + 1)) (st_data st)))"
proof (induction st i rule: st_travel_loop.induct)
  case (1 st i)
  show ?case
  proof (cases "i \<le> top st")
    case True
    define n where "n = nat i"
    define l where "l = take (nat (top st + 1)) (st_data st)"
    have n: "n < length l" "l ! n = st_data st ! n" "nat (i + 1) = Suc n"
      using True 1(2,3) by (auto simp: n_def l_def st_ok_def)
    have "arr_get (st_data st) i = Some (l ! n)"
      using True 1(2,3) n by (simp add: n_def st_ok_def)
    moreover have "st_travel_loop st (i + 1) = Some (drop (Suc n) l)"
      using 1(1) [OF True] 1(2,3) calculation n(3) by (simp add: l_def)
    ultimately show ?thesis
      using True n(1) by (simp add: st_travel_loop.simps [of st i] Cons_nth_drop_Suc
          flip: n_def l_def)
  next
    case False
    with 1(2,3) show ?thesis by (simp add: st_travel_loop.simps [of st i] st_ok_def)
  qed
qed

lemma st_travel_eq: "st_ok M st \<Longrightarrow> st_travel st = Some (rev (st_cont st))"
  using st_travel_loop_eq [of M st 0] st_isempty_iff [of M st]
  by (auto simp: st_travel_def st_cont_def)

section \<open>Correctness\<close>

text \<open>The array stack takes elements until it holds \<open>M\<close> and refuses the next one with \<open>-1\<close>
  unchanged; whatever was pushed comes back by pops in the opposite order and leaves the stack as it
  was; a pop of the empty stack answers \<open>-1\<close>; \<open>st_travel\<close> prints the contents from the bottom up.\<close>

lemma st_lifo:
  assumes "st_ok M st" "length (st_cont st) + length xs \<le> M"
  shows "(\<exists>s' s''. adds (st_push M) xs st = Some s' \<and> st_ok M s' \<and> st_travel s' = Some (rev (st_cont st) @ xs)
      \<and> takes st_pop (length xs) s' y = Some (rev xs, s'') \<and> st_ok M s'' \<and> st_cont s'' = st_cont st)
    \<and> (length (st_cont st) = M \<longrightarrow> st_push M st y = Some (- 1, st))
    \<and> (st_cont st = [] \<longrightarrow> st_pop st y = Some (- 1, y, st))"
proof -
  obtain s' where s': "adds (st_push M) xs st = Some s'" "st_ok M s'" "st_cont s' = rev xs @ st_cont st"
    using arr_stack.adds_cont [of M st xs] assms by auto
  moreover obtain s'' where "takes st_pop (length xs) s' y = Some (rev xs, s'')" "st_ok M s''" "st_cont s'' = st_cont st"
    using arr_stack.pops_cont [OF s'(2), of "length xs" y] s'(3) by auto
  moreover have "st_travel s' = Some (rev (st_cont st) @ xs)"
    using st_travel_eq [OF s'(2)] s'(3) by simp
  ultimately show ?thesis
    using st_push_full [OF assms(1)] st_pop_empty [OF assms(1)] by blast
qed

lemma st_lifo_witness:
  "\<exists>s' s''. adds (st_push 5) [7, 8] \<lparr>st_data = [0, 0, 0, 0, 0], top = - 1\<rparr> = Some s'
    \<and> takes st_pop 2 s' 0 = Some ([8, 7], s'') \<and> st_cont s'' = []"
  using st_lifo [of 5 "\<lparr>st_data = [0, 0, 0, 0, 0], top = - 1\<rparr>" "[7, 8]" 0]
  by (auto simp: st_ok_def st_cont_def numeral_2_eq_2)

end
