(* ===== verification/ArrQueue.thy ===== *)
theory ArrQueue
  imports Interfaces
begin

text \<open>
  The ring buffer of \<open>ds/line/squeue/arr\<close> (\<open>queue.h\<close>, \<open>queue.c\<close>; \<open>MAXSIZE\<close> 5), compiled with
  \<open>MAXSIZE\<close> 32 in \<open>ds/line/ball_clock\<close>: the capacity macro is the parameter \<open>M\<close>. The head index
  points one slot before the first element, so \<open>M - 1\<close> elements fit. The lemmas abstract the
  ring to the list of its elements and show that the operations implement the bounded queue
  contract with capacity \<open>M - 1\<close>.
\<close>

section \<open>State and operations\<close>

record queue =
  qu_data :: "int list"
  head :: int
  tail :: int

definition qu_create :: "queue option \<Rightarrow> queue option" where
  "qu_create mem =
     (case mem of None \<Rightarrow> None | Some sq \<Rightarrow> Some (sq\<lparr>head := 0, tail := 0\<rparr>))"

definition qu_isempty :: "queue \<Rightarrow> bool" where
  "qu_isempty sq \<longleftrightarrow> head sq = tail sq"

definition qu_enqueue :: "nat \<Rightarrow> queue \<Rightarrow> int \<Rightarrow> (int \<times> queue) option" where
  "qu_enqueue M sq x =
     (if (tail sq + 1) mod int M = head sq then Some (- 1, sq)
      else do {
        let t = (tail sq + 1) mod int M;
        d \<leftarrow> arr_set (qu_data sq) t x;
        Some (0, sq\<lparr>qu_data := d, tail := t\<rparr>) })"

definition qu_dequeue :: "nat \<Rightarrow> queue \<Rightarrow> int \<Rightarrow> (int \<times> int \<times> queue) option" where
  "qu_dequeue M sq x =
     (if qu_isempty sq then Some (- 1, x, sq)
      else do {
        let h = (head sq + 1) mod int M;
        v \<leftarrow> arr_get (qu_data sq) h;
        Some (0, v, sq\<lparr>head := h\<rparr>) })"

text \<open>
  The loop of \<open>qu_travel\<close> runs until the index meets \<open>tail\<close>; it need not end on a corrupted
  queue. The result is the list of printed numbers.
\<close>

partial_function (option) qu_travel_loop :: "nat \<Rightarrow> queue \<Rightarrow> int \<Rightarrow> int list option" where
  "qu_travel_loop M sq i =
     (if i \<noteq> tail sq then
        Option.bind (arr_get (qu_data sq) i) (\<lambda>v.
        Option.bind (qu_travel_loop M sq ((i + 1) mod int M)) (\<lambda>out.
        Some (v # out)))
      else Option.bind (arr_get (qu_data sq) i) (\<lambda>v. Some [v]))"

definition qu_travel :: "nat \<Rightarrow> queue \<Rightarrow> int list option" where
  "qu_travel M sq =
     (if head sq = tail sq then Some []
      else qu_travel_loop M sq ((head sq + 1) mod int M))"

definition qu_clear :: "queue \<Rightarrow> queue" where
  "qu_clear sq = sq\<lparr>head := tail sq\<rparr>"

section \<open>Invariant and contents\<close>

definition qu_ok :: "nat \<Rightarrow> queue \<Rightarrow> bool" where
  "qu_ok M sq \<longleftrightarrow> length (qu_data sq) = M \<and> 0 \<le> head sq \<and> head sq < int M
     \<and> 0 \<le> tail sq \<and> tail sq < int M"

definition qu_len :: "nat \<Rightarrow> queue \<Rightarrow> nat" where
  "qu_len M sq = nat ((tail sq - head sq) mod int M)"

text \<open>The slot of the \<open>k\<close>-th element behind position \<open>h\<close>, and \<open>n\<close> elements from there.\<close>

definition slot :: "nat \<Rightarrow> int \<Rightarrow> nat \<Rightarrow> nat" where
  "slot M h k = nat ((h + 1 + int k) mod int M)"

definition window :: "nat \<Rightarrow> int list \<Rightarrow> int \<Rightarrow> nat \<Rightarrow> int list" where
  "window M d h n = map (\<lambda>k. d ! slot M h k) [0..<n]"

definition qu_cont :: "nat \<Rightarrow> queue \<Rightarrow> int list" where
  "qu_cont M sq = window M (qu_data sq) (head sq) (qu_len M sq)"

lemma length_window [simp]: "length (window M d h n) = n"
  by (simp add: window_def)

lemma length_qu_cont [simp]: "length (qu_cont M sq) = qu_len M sq"
  by (simp add: qu_cont_def)

lemma qu_len_less: "qu_ok M sq \<Longrightarrow> qu_len M sq < M"
  by (auto simp: qu_ok_def qu_len_def nat_less_iff)

lemma slot_less: "0 < M \<Longrightarrow> slot M h k < M"
  by (simp add: slot_def nat_less_iff)

lemma slot_shift: "slot M ((h + 1) mod int M) k = slot M h (Suc k)"
proof -
  have "((h + 1) mod int M + (1 + int k)) mod int M = (h + 1 + (1 + int k)) mod int M"
    by (rule mod_add_left_eq)
  then show ?thesis by (simp add: slot_def add.assoc)
qed

lemma window_Suc: "window M d h (Suc n) = d ! slot M h 0 # window M d ((h + 1) mod int M) n"
  by (simp add: window_def slot_shift upt_conv_Cons comp_def flip: map_Suc_upt del: upt_Suc)

lemma window_snoc: "window M d h (Suc n) = window M d h n @ [d ! slot M h n]"
  by (simp add: window_def)

lemma slot_inj:
  assumes "slot M h i = slot M h j" "i < M" "j < M"
  shows "i = j"
proof -
  from assms have "(h + 1 + int i) mod int M = (h + 1 + int j) mod int M"
    by (simp add: slot_def eq_nat_nat_iff)
  then have "int M dvd int i - int j"
    by (metis add_diff_cancel_left mod_eq_dvd_iff)
  moreover have "\<bar>int i - int j\<bar> < int M" using assms(2,3) by linarith
  ultimately have "int i - int j = 0"
    using zdvd_not_zless [of "\<bar>int i - int j\<bar>" "int M"] by (cases "int i = int j") auto
  then show ?thesis by simp
qed

lemma window_update:
  "n < M \<Longrightarrow> window M (d[slot M h n := v]) h n = window M d h n"
  by (auto simp: window_def intro!: nth_list_update_neq dest: slot_inj)

lemma tail_slot:
  assumes "qu_ok M sq"
  shows "nat ((tail sq + 1) mod int M) = slot M (head sq) (qu_len M sq)"
proof -
  have "(head sq + 1 + (tail sq - head sq) mod int M) mod int M = (tail sq + 1) mod int M"
    by (subst mod_add_right_eq) (simp add: add.commute)
  moreover have "int (qu_len M sq) = (tail sq - head sq) mod int M"
    using assms by (auto simp: qu_len_def qu_ok_def)
  ultimately show ?thesis by (simp only: slot_def)
qed

lemma qu_full_iff:
  assumes "qu_ok M sq"
  shows "(tail sq + 1) mod int M = head sq \<longleftrightarrow> qu_len M sq = M - 1"
proof -
  from assms have M: "0 < int M" "0 \<le> head sq" "head sq < int M"
    by (auto simp: qu_ok_def)
  have "(tail sq + 1) mod int M = head sq \<longleftrightarrow> (tail sq + 1) mod int M = head sq mod int M"
    using M by simp
  also have "\<dots> \<longleftrightarrow> int M dvd (tail sq - head sq) + 1"
    by (simp add: mod_eq_dvd_iff algebra_simps)
  also have "\<dots> \<longleftrightarrow> ((tail sq - head sq) mod int M + 1) mod int M = 0"
    by (simp add: dvd_eq_mod_eq_0 mod_simps)
  also have "\<dots> \<longleftrightarrow> (tail sq - head sq) mod int M = int M - 1"
    using M by (intro mod_succ_eq_0_iff) simp_all
  also have "\<dots> \<longleftrightarrow> qu_len M sq = M - 1"
  proof -
    have "0 \<le> (tail sq - head sq) mod int M" using M by simp
    then show ?thesis unfolding qu_len_def using M by linarith
  qed
  finally show ?thesis .
qed

lemma qu_isempty_iff: "qu_ok M sq \<Longrightarrow> qu_isempty sq \<longleftrightarrow> qu_cont M sq = []"
proof -
  assume ok: "qu_ok M sq"
  have "qu_isempty sq \<longleftrightarrow> tail sq mod int M = head sq mod int M"
    using ok by (auto simp: qu_isempty_def qu_ok_def)
  also have "\<dots> \<longleftrightarrow> (tail sq - head sq) mod int M = 0"
    by (simp add: mod_eq_dvd_iff dvd_eq_mod_eq_0)
  also have "\<dots> \<longleftrightarrow> qu_len M sq = 0"
    using ok by (simp add: qu_len_def qu_ok_def) (smt (verit) pos_mod_sign)
  finally show ?thesis by (simp flip: length_0_conv)
qed

section \<open>Behaviour of the operations\<close>

lemma qu_create_ok:
  "length (qu_data m) = M \<Longrightarrow> 0 < M \<Longrightarrow>
   \<exists>sq. qu_create (Some m) = Some sq \<and> qu_ok M sq \<and> qu_cont M sq = []"
  by (simp add: qu_create_def qu_ok_def qu_cont_def window_def qu_len_def)

lemma qu_enqueue_full:
  "qu_ok M sq \<Longrightarrow> qu_len M sq = M - 1 \<Longrightarrow> qu_enqueue M sq x = Some (- 1, sq)"
  by (simp add: qu_enqueue_def qu_full_iff)

lemma qu_enqueue_room:
  assumes "qu_ok M sq" "qu_len M sq < M - 1"
  shows "\<exists>sq'. qu_enqueue M sq x = Some (0, sq') \<and> qu_ok M sq'
    \<and> qu_cont M sq' = qu_cont M sq @ [x]"
proof -
  let ?t = "(tail sq + 1) mod int M"
  let ?n = "qu_len M sq"
  let ?sq = "sq\<lparr>qu_data := (qu_data sq)[slot M (head sq) ?n := x], tail := ?t\<rparr>"
  from assms have M: "0 < int M" "?t \<noteq> head sq" by (auto simp: qu_full_iff)
  have sl: "nat ?t = slot M (head sq) ?n" by (rule tail_slot [OF assms(1)])
  have "0 \<le> ?t" "?t < int M" using M by simp_all
  then have "qu_enqueue M sq x = Some (0, ?sq)"
    using M assms(1) sl by (simp add: qu_enqueue_def qu_ok_def)
  moreover have "qu_ok M ?sq"
    using assms(1) M by (auto simp: qu_ok_def)
  moreover have "qu_len M ?sq = Suc ?n"
  proof -
    have "(?t - head sq) mod int M = ((tail sq - head sq) mod int M + 1) mod int M"
      by (simp add: mod_simps algebra_simps)
    also have "\<dots> = (int ?n + 1) mod int M" using M by (simp add: qu_len_def)
    also have "\<dots> = int (Suc ?n)" using assms(2) by simp
    finally have "nat ((?t - head sq) mod int M) = Suc ?n" by (metis nat_int)
    then show ?thesis by (simp add: qu_len_def)
  qed
  then have "qu_cont M ?sq = qu_cont M sq @ [x]"
    using assms by (simp add: qu_cont_def window_snoc window_update qu_ok_def slot_less)
  ultimately show ?thesis by blast
qed

lemma qu_dequeue_empty: "qu_ok M sq \<Longrightarrow> qu_cont M sq = [] \<Longrightarrow> qu_dequeue M sq y = Some (- 1, y, sq)"
  by (simp add: qu_dequeue_def qu_isempty_iff)

lemma qu_dequeue_cons:
  assumes "qu_ok M sq" "qu_cont M sq = x # xs"
  shows "\<exists>sq'. qu_dequeue M sq y = Some (0, x, sq') \<and> qu_ok M sq' \<and> qu_cont M sq' = xs"
proof -
  let ?h = "(head sq + 1) mod int M"
  from assms(1) have M: "0 < int M" by (auto simp: qu_ok_def)
  have h: "0 \<le> ?h" "?h < int M" using M by simp_all
  obtain n where n: "qu_len M sq = Suc n"
    using assms(2) length_qu_cont [of M sq] by (cases "qu_len M sq") auto
  have hd: "qu_data sq ! nat ?h = x" and tl: "window M (qu_data sq) ?h n = xs"
    using assms(2) n by (auto simp: qu_cont_def window_Suc slot_def)
  have len: "qu_len M (sq\<lparr>head := ?h\<rparr>) = n"
  proof -
    have "(tail sq - ?h) mod int M = ((tail sq - head sq) mod int M - 1) mod int M"
      by (simp add: mod_simps algebra_simps)
    also have "(tail sq - head sq) mod int M = int (Suc n)"
      using n M by (simp add: qu_len_def)
    also have "(int (Suc n) - 1) mod int M = int n"
      using qu_len_less [OF assms(1)] n by simp
    finally show ?thesis by (simp add: qu_len_def)
  qed
  have "qu_dequeue M sq y = Some (0, x, sq\<lparr>head := ?h\<rparr>)"
    using assms h hd qu_isempty_iff [OF assms(1)] by (simp add: qu_dequeue_def qu_ok_def)
  moreover have "qu_ok M (sq\<lparr>head := ?h\<rparr>)"
    using assms(1) h by (simp add: qu_ok_def)
  moreover have "qu_cont M (sq\<lparr>head := ?h\<rparr>) = xs"
    using tl len by (simp add: qu_cont_def)
  ultimately show ?thesis by blast
qed

lemma qu_travel_loop_eq:
  assumes "length (qu_data sq) = M" "0 < M" "n < M" "tail sq = (h + 1 + int n) mod int M"
  shows "qu_travel_loop M sq ((h + 1) mod int M) = Some (window M (qu_data sq) h (Suc n))"
  using assms
proof (induction n arbitrary: h)
  case 0
  then show ?case
    by (simp add: qu_travel_loop.simps window_def slot_def)
next
  case (Suc n)
  let ?i = "(h + 1) mod int M"
  have "slot M h 0 \<noteq> slot M h (Suc n)"
    using slot_inj [of M h 0 "Suc n"] Suc.prems(2,3) by auto
  then have ne: "?i \<noteq> tail sq"
    using Suc.prems(4) by (auto simp: slot_def add.assoc)
  have "tail sq = (?i + (1 + int n)) mod int M"
    using Suc.prems(4) by (simp add: mod_add_left_eq add.assoc)
  then have "qu_travel_loop M sq ((?i + 1) mod int M) = Some (window M (qu_data sq) ?i (Suc n))"
    using Suc.IH [of ?i] Suc.prems by (simp add: add.assoc)
  moreover have "arr_get (qu_data sq) ?i = Some (qu_data sq ! slot M h 0)"
    using Suc.prems(1,2) by (simp add: slot_def)
  ultimately show ?case
    using ne by (simp add: qu_travel_loop.simps [of M sq ?i] window_Suc [of _ _ h "Suc n"])
qed

lemma qu_travel_eq:
  assumes "qu_ok M sq"
  shows "qu_travel M sq = Some (qu_cont M sq)"
proof (cases "qu_len M sq")
  case 0
  then have "qu_cont M sq = []" by (simp flip: length_0_conv)
  with qu_isempty_iff [OF assms] show ?thesis by (simp add: qu_travel_def qu_isempty_def)
next
  case (Suc n)
  have ne: "head sq \<noteq> tail sq"
    using Suc by (auto simp: qu_len_def)
  have "tail sq = (head sq + 1 + int n) mod int M"
  proof -
    have "int (Suc n) = (tail sq - head sq) mod int M"
      using Suc assms by (auto simp: qu_len_def qu_ok_def)
    then have "(head sq + int (Suc n)) mod int M = tail sq mod int M"
      by (simp add: mod_add_right_eq)
    with assms show ?thesis by (simp add: qu_ok_def add.assoc)
  qed
  with ne Suc qu_len_less [OF assms] assms show ?thesis
    by (simp add: qu_travel_def qu_travel_loop_eq qu_cont_def qu_ok_def)
qed

section \<open>The bounded queue contract\<close>

interpretation arr_queue:
  bounded_queue "qu_ok M" "\<lambda>_. True" "qu_cont M" "qu_enqueue M" "qu_dequeue M" "M - 1"
proof (unfold_locales, goal_cases)
  case (1 s x)
  have "qu_len M s = M - 1 \<or> qu_len M s < M - 1" using qu_len_less [OF 1(1)] by linarith
  then show ?case
  proof
    assume "qu_len M s = M - 1"
    from qu_enqueue_full [OF 1(1) this, of x] 1(1) show ?thesis
      by (intro exI [of _ "- 1"] exI [of _ s]) simp
  next
    assume "qu_len M s < M - 1"
    from qu_enqueue_room [OF 1(1) this, of x] show ?thesis
      by (auto intro: exI [of _ 0])
  qed
next
  case (4 s x r s')
  have "qu_len M s = M - 1 \<or> qu_len M s < M - 1" using qu_len_less [OF 4(1)] by linarith
  then show ?case
    using qu_enqueue_full [OF 4(1), of x] qu_enqueue_room [OF 4(1), of x] 4(3) by auto
next
  case (5 s)
  then show ?case using qu_len_less [OF 5] by simp
qed (auto intro: qu_dequeue_cons qu_dequeue_empty)

section \<open>Correctness\<close>

text \<open>The circular array queue holds \<open>M - 1\<close> elements: it takes elements up to that number and
  refuses the next one with \<open>-1\<close> unchanged; elements come out in the order they went in, after those
  that were there, across the wrap-around of both indices; the empty queue answers \<open>-1\<close>, and
  \<open>qu_clear\<close> empties it.\<close>

lemma qu_fifo:
  assumes "qu_ok M sq" "length (qu_cont M sq) + length xs \<le> M - 1"
  shows "(\<exists>s' s''. adds (qu_enqueue M) xs sq = Some s' \<and> qu_ok M s' \<and> qu_cont M s' = qu_cont M sq @ xs
      \<and> takes (qu_dequeue M) (length (qu_cont M sq) + length xs) s' y = Some (qu_cont M sq @ xs, s'')
      \<and> qu_cont M s'' = [])
    \<and> (length (qu_cont M sq) = M - 1 \<longrightarrow> qu_enqueue M sq y = Some (- 1, sq))
    \<and> (qu_cont M sq = [] \<longrightarrow> qu_dequeue M sq y = Some (- 1, y, sq))
    \<and> qu_ok M (qu_clear sq) \<and> qu_cont M (qu_clear sq) = []"
proof -
  obtain s' where s': "adds (qu_enqueue M) xs sq = Some s'" "qu_ok M s'" "qu_cont M s' = qu_cont M sq @ xs"
    using arr_queue.adds_cont [of M sq xs] assms by auto
  moreover obtain s'' where
    "takes (qu_dequeue M) (length (qu_cont M sq) + length xs) s' y = Some (qu_cont M sq @ xs, s'')"
    "qu_cont M s'' = []"
    using arr_queue.deqs_cont [OF s'(2), of "length (qu_cont M sq) + length xs" y] s'(3) by auto
  moreover have "qu_ok M (qu_clear sq)" "qu_cont M (qu_clear sq) = []"
    using assms(1) by (auto simp: qu_ok_def qu_clear_def qu_cont_def qu_len_def window_def)
  ultimately show ?thesis
    using qu_enqueue_full [OF assms(1)] qu_dequeue_empty [OF assms(1)] by auto
qed

lemma qu_fifo_witness:
  "\<exists>s' s''. adds (qu_enqueue 5) [7, 8, 9] \<lparr>qu_data = [0, 0, 0, 0, 0], head = 3, tail = 3\<rparr> = Some s'
    \<and> takes (qu_dequeue 5) 3 s' 0 = Some ([7, 8, 9], s'')"
  using qu_fifo [of 5 "\<lparr>qu_data = [0, 0, 0, 0, 0], head = 3, tail = 3\<rparr>" "[7, 8, 9]" 0]
  by (auto simp: qu_ok_def qu_cont_def qu_len_def window_def numeral_3_eq_3)

end
