(* ===== verification/CHeap.thy ===== *)
theory CHeap
  imports Prelude
begin

text \<open>
  The heap of the list programs: addresses are naturals with 0 for \<open>NULL\<close>, cells are values of the
  type of the program's structure. \<open>malloc\<close> takes addresses that were never used before, and an oracle
  says which calls fail. Reading or writing through \<open>NULL\<close>, or through a pointer that was never
  allocated or was freed, has no defined result. The chains at the end describe the shape of linked
  structures: \<open>chain f as\<close> says that following \<open>f\<close> from the first address visits the list \<open>as\<close>.
\<close>

section \<open>The heap\<close>

type_synonym addr = nat

abbreviation NULL :: addr where "NULL \<equiv> 0"

record 'c heap =
  mem :: "addr \<Rightarrow> 'c option"
  brk :: addr
  oom :: "nat \<Rightarrow> bool"

definition heap_ok :: "'c heap \<Rightarrow> bool" where
  "heap_ok h \<longleftrightarrow> 0 < brk h \<and> (\<forall>a. mem h a \<noteq> None \<longrightarrow> 0 < a \<and> a < brk h)"

text \<open>\<open>malloc\<close> of a cell with the given (uninitialised) contents.\<close>

definition malloc :: "'c \<Rightarrow> 'c heap \<Rightarrow> addr \<times> 'c heap" where
  "malloc v h =
     (let h' = h\<lparr>oom := \<lambda>n. oom h (Suc n)\<rparr>
      in if oom h 0 then (NULL, h')
         else (brk h, h'\<lparr>mem := (mem h)(brk h \<mapsto> v), brk := brk h + 1\<rparr>))"

definition load :: "addr \<Rightarrow> 'c heap \<Rightarrow> 'c option" where
  "load p h = (if p = NULL then None else mem h p)"

definition store :: "addr \<Rightarrow> 'c \<Rightarrow> 'c heap \<Rightarrow> 'c heap option" where
  "store p v h = (if p = NULL \<or> mem h p = None then None else Some (h\<lparr>mem := (mem h)(p \<mapsto> v)\<rparr>))"

definition free :: "addr \<Rightarrow> 'c heap \<Rightarrow> 'c heap option" where
  "free p h =
     (if p = NULL then Some h
      else if mem h p = None then None
      else Some (h\<lparr>mem := (mem h)(p := None)\<rparr>))"

text \<open>Replacing a field: \<open>p->field = ...\<close>.\<close>

definition modify :: "addr \<Rightarrow> ('c \<Rightarrow> 'c) \<Rightarrow> 'c heap \<Rightarrow> 'c heap option" where
  "modify p f h = do { c \<leftarrow> load p h; store p (f c) h }"

lemma load_Some [simp]: "heap_ok h \<Longrightarrow> mem h p = Some c \<Longrightarrow> load p h = Some c"
  by (auto simp: load_def heap_ok_def)

lemma load_NULL [simp]: "load NULL h = None"
  by (simp add: load_def)

lemma modify_Some [simp]:
  "heap_ok h \<Longrightarrow> mem h p = Some c \<Longrightarrow> modify p f h = Some (h\<lparr>mem := (mem h)(p \<mapsto> f c)\<rparr>)"
  by (auto simp: modify_def load_def store_def heap_ok_def)

lemma free_Some [simp]:
  "heap_ok h \<Longrightarrow> mem h p = Some c \<Longrightarrow> free p h = Some (h\<lparr>mem := (mem h)(p := None)\<rparr>)"
  by (auto simp: free_def heap_ok_def)

text \<open>Only \<open>malloc\<close> consults the oracle.\<close>

lemma modify_oom: "modify p f h = Some h' \<Longrightarrow> oom h' = oom h"
  by (auto simp: modify_def store_def bind_eq_Some_conv split: if_splits)

lemma free_oom: "free p h = Some h' \<Longrightarrow> oom h' = oom h"
  by (auto simp: free_def split: if_splits)

lemma heap_ok_upd [simp]: "heap_ok h \<Longrightarrow> mem h p = Some c \<Longrightarrow> heap_ok (h\<lparr>mem := (mem h)(p \<mapsto> v)\<rparr>)"
  by (auto simp: heap_ok_def)

lemma heap_ok_del [simp]: "heap_ok h \<Longrightarrow> heap_ok (h\<lparr>mem := (mem h)(p := None)\<rparr>)"
  by (auto simp: heap_ok_def)

lemma heap_ok_oom [simp]: "heap_ok (h\<lparr>oom := f\<rparr>) = heap_ok h"
  by (simp add: heap_ok_def)

lemma heap_ok_new [simp]:
  "heap_ok h \<Longrightarrow> heap_ok (h\<lparr>oom := f, mem := (mem h)(brk h \<mapsto> v), brk := Suc (brk h)\<rparr>)"
  by (fastforce simp: heap_ok_def)

lemma modify_ok:
  "heap_ok h \<Longrightarrow> mem h p = Some c \<Longrightarrow>
   \<exists>h'. modify p f h = Some h' \<and> heap_ok h' \<and> mem h' = (mem h)(p \<mapsto> f c) \<and> brk h' = brk h \<and> oom h' = oom h"
  by simp

lemma free_ok:
  "heap_ok h \<Longrightarrow> mem h p = Some c \<Longrightarrow>
   \<exists>h'. free p h = Some h' \<and> heap_ok h' \<and> mem h' = (mem h)(p := None) \<and> brk h' = brk h \<and> oom h' = oom h"
  by simp

lemma brk_fresh: "heap_ok h \<Longrightarrow> mem h (brk h) = None"
  by (auto simp: heap_ok_def)

lemma brk_pos: "heap_ok h \<Longrightarrow> 0 < brk h"
  by (simp add: heap_ok_def)

lemma heap_ok_nonnull: "heap_ok h \<Longrightarrow> mem h p = Some c \<Longrightarrow> p \<noteq> NULL"
  by (auto simp: heap_ok_def)

lemma malloc_cases:
  assumes "malloc v h = (p, h')"
  obtains (fail) "oom h 0" "p = NULL" "h' = h\<lparr>oom := \<lambda>n. oom h (Suc n)\<rparr>"
  | (ok) "\<not> oom h 0" "p = brk h"
      "h' = h\<lparr>oom := \<lambda>n. oom h (Suc n), mem := (mem h)(brk h \<mapsto> v), brk := Suc (brk h)\<rparr>"
  using assms by (auto simp: malloc_def Let_def split: if_splits)

lemma malloc_ok:
  assumes "malloc v h = (p, h')" "p \<noteq> NULL" "heap_ok h"
  shows "p = brk h" "heap_ok h'" "mem h' = (mem h)(brk h \<mapsto> v)" "brk h' = Suc (brk h)" "\<not> oom h 0"
    "oom h' = (\<lambda>n. oom h (Suc n))"
  using assms by (auto simp: malloc_def Let_def split: if_splits)

lemma malloc_null:
  assumes "malloc v h = (NULL, h')" "heap_ok h"
  shows "oom h 0" "heap_ok h'" "mem h' = mem h" "brk h' = brk h"
  using assms by (auto simp: malloc_def Let_def heap_ok_def split: if_splits)

text \<open>The empty heap, and memory that never runs out.\<close>

definition empty_heap :: "'c heap" where
  "empty_heap = \<lparr>mem = (\<lambda>_. None), brk = 1, oom = (\<lambda>_. False)\<rparr>"

lemma empty_heap_ok: "heap_ok empty_heap"
  by (simp add: heap_ok_def empty_heap_def)

section \<open>Chains\<close>

fun chain :: "(addr \<Rightarrow> addr option) \<Rightarrow> addr list \<Rightarrow> bool" where
  "chain f (a # b # as) \<longleftrightarrow> f a = Some b \<and> chain f (b # as)"
| "chain f _ = True"

lemma chain_Cons: "as \<noteq> [] \<Longrightarrow> chain f (a # as) \<longleftrightarrow> f a = Some (hd as) \<and> chain f as"
  by (cases as) auto

lemma chain_append: "chain f (xs @ a # ys) \<longleftrightarrow> chain f (xs @ [a]) \<and> chain f (a # ys)"
proof (induction xs)
  case (Cons x xs)
  then show ?case by (cases xs) auto
qed simp

lemma chain_appendI: "chain f (xs @ [a]) \<Longrightarrow> chain f (a # ys) \<Longrightarrow> chain f (xs @ a # ys)"
  by (rule chain_append [THEN iffD2]) simp

lemma chain_appendD1: "chain f (xs @ a # ys) \<Longrightarrow> chain f (xs @ [a])"
  by (drule chain_append [THEN iffD1]) simp

lemma chain_appendD2: "chain f (xs @ a # ys) \<Longrightarrow> chain f (a # ys)"
  by (drule chain_append [THEN iffD1]) simp

lemma chain_frame:
  "chain f as \<Longrightarrow> \<forall>x \<in> set (butlast as). f' x = f x \<Longrightarrow> chain f' as"
proof (induction f as rule: chain.induct)
  case (1 f a b as)
  then show ?case by auto
qed auto

lemma chain_insert:
  assumes "chain f (xs @ a # b # ys)" "distinct (butlast (xs @ a # b # ys))"
    and "f' n = Some b" "f' a = Some n"
    and "\<And>x. x \<noteq> a \<Longrightarrow> x \<noteq> n \<Longrightarrow> f' x = f x" "n \<notin> set (xs @ a # b # ys)"
  shows "chain f' (xs @ a # n # b # ys)"
proof -
  have c: "chain f (xs @ [a])" "chain f (b # ys)"
    using chain_appendD1 [OF assms(1)] chain_appendD2 [OF assms(1)] by simp_all
  have "a \<notin> set xs" "a \<notin> set (butlast (b # ys))"
    using assms(2) by (auto simp: butlast_append)
  have eq: "f' x = f x" if "x \<in> set xs \<or> x \<in> set (butlast (b # ys))" for x
  proof (rule assms(5))
    show "x \<noteq> a" using that \<open>a \<notin> set xs\<close> \<open>a \<notin> set (butlast (b # ys))\<close> by blast
    show "x \<noteq> n" using that assms(6) in_set_butlastD [of x "b # ys"] by auto
  qed
  have "chain f' (xs @ [a])" by (rule chain_frame [OF c(1)], rule ballI, rule eq) simp
  moreover have "chain f' (b # ys)" by (rule chain_frame [OF c(2)], rule ballI, rule eq, rule disjI2)
  ultimately show ?thesis using chain_appendI [of f' xs a "n # b # ys"] assms(3,4) by simp
qed

lemma chain_remove:
  assumes "chain f (xs @ a # c # b # ys)" "distinct (butlast (xs @ a # c # b # ys))"
    and "f' a = Some b" "\<And>x. x \<noteq> a \<Longrightarrow> x \<noteq> c \<Longrightarrow> f' x = f x"
  shows "chain f' (xs @ a # b # ys)"
proof -
  have c: "chain f (xs @ [a])" "chain f (b # ys)"
    using chain_appendD1 [OF assms(1)] chain_appendD2 [OF assms(1)] by simp_all
  have "a \<notin> set xs" "a \<notin> set (butlast (b # ys))" "c \<notin> set xs" "c \<notin> set (butlast (b # ys))"
    using assms(2) by (auto simp: butlast_append)
  have eq: "f' x = f x" if "x \<in> set xs \<or> x \<in> set (butlast (b # ys))" for x
  proof (rule assms(4))
    show "x \<noteq> a" using that \<open>a \<notin> set xs\<close> \<open>a \<notin> set (butlast (b # ys))\<close> by blast
    show "x \<noteq> c" using that \<open>c \<notin> set xs\<close> \<open>c \<notin> set (butlast (b # ys))\<close> by blast
  qed
  have "chain f' (xs @ [a])" by (rule chain_frame [OF c(1)], rule ballI, rule eq) simp
  moreover have "chain f' (b # ys)" by (rule chain_frame [OF c(2)], rule ballI, rule eq, rule disjI2)
  ultimately show ?thesis using chain_appendI [of f' xs a "b # ys"] assms(3) by simp
qed

end
