(* ===== verification/LList.thy ===== *)
theory LList
  imports CHeap
begin

text \<open>
  The generic doubly linked list \<open>ds/line/list/linklist/double/lib2/llist.c\<close> (the same file is used by
  \<open>ds/line/stack/list\<close> and \<open>ds/line/squeue/list\<close>). A list is a ring of cells through the head
  structure, whose embedded node is identified with its address. Records are values of a type \<open>'d\<close>; the
  comparison function is a parameter. The lemmas relate the ring on the heap to the list of its
  records and give the effect of every operation on that list, errors included.
\<close>

section \<open>Cells\<close>

abbreviation LLIST_FORWARD :: int where "LLIST_FORWARD \<equiv> 1"
abbreviation LLIST_BACKWARD :: int where "LLIST_BACKWARD \<equiv> 2"

text \<open>The head structure carries the size of a record, a node carries a record.\<close>

datatype 'd content = Size int | Data 'd

record 'd lcell =
  prev :: addr
  nxt :: addr
  con :: "'d content"

type_synonym 'd lheap = "'d lcell heap"

fun node_data :: "'d lcell \<Rightarrow> 'd option" where
  "node_data c = (case con c of Data d \<Rightarrow> Some d | Size n \<Rightarrow> None)"

fun head_size :: "'d lcell \<Rightarrow> int option" where
  "head_size c = (case con c of Size n \<Rightarrow> Some n | Data d \<Rightarrow> None)"

section \<open>Operations\<close>

definition llist_create :: "int \<Rightarrow> 'd lheap \<Rightarrow> (addr \<times> 'd lheap) option" where
  "llist_create initsize h =
     (let (new, h) = malloc \<lparr>prev = NULL, nxt = NULL, con = Size 0\<rparr> h
      in if new = NULL then Some (NULL, h)
         else do {
           h \<leftarrow> modify new (\<lambda>c. c\<lparr>con := Size initsize\<rparr>) h;
           h \<leftarrow> modify new (\<lambda>c. c\<lparr>prev := new\<rparr>) h;
           h \<leftarrow> modify new (\<lambda>c. c\<lparr>nxt := new\<rparr>) h;
           Some (new, h) })"

definition llist_insert :: "addr \<Rightarrow> 'd \<Rightarrow> int \<Rightarrow> 'd lheap \<Rightarrow> (int \<times> 'd lheap) option" where
  "llist_insert ptr data mode h = do {
     hd \<leftarrow> load ptr h;
     sz \<leftarrow> head_size hd;
     let (newnode, h) = malloc \<lparr>prev = NULL, nxt = NULL, con = Data data\<rparr> h;
     if newnode = NULL then Some (- 1, h)
     else if mode = LLIST_FORWARD \<or> mode = LLIST_BACKWARD then do {
       hd \<leftarrow> load ptr h;
       h \<leftarrow> (if mode = LLIST_FORWARD
             then modify newnode (\<lambda>c. c\<lparr>prev := ptr, nxt := nxt hd\<rparr>) h
             else modify newnode (\<lambda>c. c\<lparr>prev := prev hd, nxt := ptr\<rparr>) h);
       new \<leftarrow> load newnode h;
       h \<leftarrow> modify (nxt new) (\<lambda>c. c\<lparr>prev := newnode\<rparr>) h;
       h \<leftarrow> modify (prev new) (\<lambda>c. c\<lparr>nxt := newnode\<rparr>) h;
       Some (0, h) }
     else Some (- 3, h) }"

text \<open>The loop of \<open>find_\<close> from node \<open>cur\<close>.\<close>

partial_function (option) find_from ::
  "addr \<Rightarrow> 'k \<Rightarrow> ('k \<Rightarrow> 'd \<Rightarrow> int) \<Rightarrow> addr \<Rightarrow> 'd lheap \<Rightarrow> addr option" where
  "find_from ptr key cmp cur h =
     (if cur \<noteq> ptr then
        Option.bind (load cur h) (\<lambda>c.
        Option.bind (node_data c) (\<lambda>d.
        if cmp key d = 0 then Some cur else find_from ptr key cmp (nxt c) h))
      else Some cur)"

definition find_node :: "addr \<Rightarrow> 'k \<Rightarrow> ('k \<Rightarrow> 'd \<Rightarrow> int) \<Rightarrow> 'd lheap \<Rightarrow> addr option" where
  "find_node ptr key cmp h = do { hd \<leftarrow> load ptr h; find_from ptr key cmp (nxt hd) h }"

text \<open>The result of \<open>llist_find\<close> is the address of the node whose \<open>data\<close> field is returned.\<close>

definition llist_find :: "addr \<Rightarrow> 'k \<Rightarrow> ('k \<Rightarrow> 'd \<Rightarrow> int) \<Rightarrow> 'd lheap \<Rightarrow> addr option" where
  "llist_find ptr key cmp h = do {
     node \<leftarrow> find_node ptr key cmp h;
     if node = ptr then Some NULL else Some node }"

text \<open>\<open>a->prev->next = a->next; a->next->prev = a->prev;\<close> and the same in the other order.\<close>

definition unlink :: "addr \<Rightarrow> 'd lheap \<Rightarrow> 'd lheap option" where
  "unlink node h = do {
     c \<leftarrow> load node h;
     h \<leftarrow> modify (prev c) (\<lambda>x. x\<lparr>nxt := nxt c\<rparr>) h;
     c \<leftarrow> load node h;
     modify (nxt c) (\<lambda>x. x\<lparr>prev := prev c\<rparr>) h }"

definition llist_delete :: "addr \<Rightarrow> 'k \<Rightarrow> ('k \<Rightarrow> 'd \<Rightarrow> int) \<Rightarrow> 'd lheap \<Rightarrow> (int \<times> 'd lheap) option" where
  "llist_delete ptr key cmp h = do {
     node \<leftarrow> find_node ptr key cmp h;
     if node = ptr then Some (- 1, h)
     else do {
       h \<leftarrow> unlink node h;
       h \<leftarrow> free node h;
       Some (0, h) } }"

text \<open>\<open>out\<close> is the contents of the output buffer, \<open>None\<close> when \<open>data\<close> is \<open>NULL\<close>.\<close>

definition llist_fetch ::
  "addr \<Rightarrow> 'k \<Rightarrow> ('k \<Rightarrow> 'd \<Rightarrow> int) \<Rightarrow> 'd option \<Rightarrow> 'd lheap \<Rightarrow> (int \<times> 'd option \<times> 'd lheap) option" where
  "llist_fetch ptr key cmp data h = do {
     node \<leftarrow> find_node ptr key cmp h;
     if node = ptr then Some (- 1, data, h)
     else do {
       c \<leftarrow> load node h;
       h \<leftarrow> modify (nxt c) (\<lambda>x. x\<lparr>prev := prev c\<rparr>) h;
       c \<leftarrow> load node h;
       h \<leftarrow> modify (prev c) (\<lambda>x. x\<lparr>nxt := nxt c\<rparr>) h;
       data \<leftarrow> (if data \<noteq> None then do { c \<leftarrow> load node h; d \<leftarrow> node_data c; Some (Some d) } else Some None);
       h \<leftarrow> free node h;
       Some (0, data, h) } }"

text \<open>The records \<open>op\<close> is called on, in order.\<close>

partial_function (option) travel_from :: "addr \<Rightarrow> addr \<Rightarrow> 'd lheap \<Rightarrow> 'd list option" where
  "travel_from ptr cur h =
     (if cur \<noteq> ptr then
        Option.bind (load cur h) (\<lambda>c.
        Option.bind (node_data c) (\<lambda>d.
        Option.bind (travel_from ptr (nxt c) h) (\<lambda>ds. Some (d # ds))))
      else Some [])"

definition llist_travel :: "addr \<Rightarrow> 'd lheap \<Rightarrow> 'd list option" where
  "llist_travel ptr h = do { hd \<leftarrow> load ptr h; travel_from ptr (nxt hd) h }"

partial_function (option) destroy_from :: "addr \<Rightarrow> addr \<Rightarrow> 'd lheap \<Rightarrow> 'd lheap option" where
  "destroy_from ptr cur h =
     (if cur \<noteq> ptr then
        Option.bind (load cur h) (\<lambda>c.
        Option.bind (free cur h) (\<lambda>h. destroy_from ptr (nxt c) h))
      else Some h)"

definition llist_destroy :: "addr \<Rightarrow> 'd lheap \<Rightarrow> 'd lheap option" where
  "llist_destroy ptr h = do {
     hd \<leftarrow> load ptr h;
     h \<leftarrow> destroy_from ptr (nxt hd) h;
     free ptr h }"

section \<open>The ring\<close>

definition nx :: "(addr \<Rightarrow> 'd lcell option) \<Rightarrow> addr \<Rightarrow> addr option" where
  "nx m a = map_option nxt (m a)"

definition pv :: "(addr \<Rightarrow> 'd lcell option) \<Rightarrow> addr \<Rightarrow> addr option" where
  "pv m a = map_option prev (m a)"

definition ct :: "(addr \<Rightarrow> 'd lcell option) \<Rightarrow> addr \<Rightarrow> 'd content option" where
  "ct m a = map_option con (m a)"

text \<open>\<open>as\<close> are the addresses of the nodes, \<open>ds\<close> their records.\<close>

definition ring :: "'d lheap \<Rightarrow> addr \<Rightarrow> int \<Rightarrow> addr list \<Rightarrow> 'd list \<Rightarrow> bool" where
  "ring h ptr sz as ds \<longleftrightarrow> heap_ok h \<and> distinct (ptr # as)
     \<and> chain (nx (mem h)) (ptr # as @ [ptr]) \<and> chain (pv (mem h)) (rev (ptr # as @ [ptr]))
     \<and> ct (mem h) ptr = Some (Size sz) \<and> map (ct (mem h)) as = map (\<lambda>d. Some (Data d)) ds"

lemma ring_head:
  assumes "ring h ptr sz as ds"
  obtains c where "mem h ptr = Some c" "con c = Size sz" "nxt c = hd (as @ [ptr])" "prev c = last (ptr # as)"
proof -
  from assms obtain c where c: "mem h ptr = Some c" "con c = Size sz"
    by (auto simp: ring_def ct_def)
  have "nx (mem h) ptr = Some (hd (as @ [ptr]))"
    using assms by (simp add: ring_def chain_Cons)
  moreover have "pv (mem h) ptr = Some (hd (rev as @ [ptr]))"
    using assms by (simp add: ring_def chain_Cons)
  moreover have "hd (rev as @ [ptr]) = last (ptr # as)"
    by (cases as rule: rev_cases) auto
  ultimately show ?thesis using that c by (auto simp: nx_def pv_def)
qed

lemma ring_distinct_cyc:
  "ring h ptr sz as ds \<Longrightarrow> distinct (butlast (ptr # as @ [ptr])) \<and> distinct (butlast (rev (ptr # as @ [ptr])))"
  by (auto simp: ring_def butlast_append)

text \<open>A new node between the end of \<open>as1\<close> and the start of \<open>as2\<close>.\<close>

lemma ring_insert:
  assumes "ring h ptr sz (as1 @ as2) (ds1 @ ds2)" "length as1 = length ds1" "mem h n = None"
    and "heap_ok h'"
    and "nx (mem h') = (nx (mem h))(n := Some (hd (as2 @ [ptr])), last (ptr # as1) := Some n)"
    and "pv (mem h') = (pv (mem h))(n := Some (last (ptr # as1)), hd (as2 @ [ptr]) := Some n)"
    and "ct (mem h') = (ct (mem h))(n := Some (Data d))"
  shows "ring h' ptr sz (as1 @ n # as2) (ds1 @ d # ds2)"
proof -
  define a where "a = last (ptr # as1)"
  define b where "b = hd (as2 @ [ptr])"
  define xs where "xs = butlast (ptr # as1)"
  define ys where "ys = tl (as2 @ [ptr])"
  have ax: "ptr # as1 = xs @ [a]" by (simp add: a_def xs_def)
  have bx: "as2 @ [ptr] = b # ys" by (simp add: b_def ys_def)
  have cyc: "ptr # (as1 @ as2) @ [ptr] = xs @ a # b # ys"
    using ax bx by (metis append.assoc append_Cons append_Nil)
  have cyc': "ptr # (as1 @ n # as2) @ [ptr] = xs @ a # n # b # ys"
    using ax bx by (metis append.assoc append_Cons append_Nil)
  have dom: "mem h x \<noteq> None" if "x \<in> set (ptr # as1 @ as2)" for x
  proof (cases "x = ptr")
    case False
    with that have "ct (mem h) x \<in> set (map (ct (mem h)) (as1 @ as2))" by auto
    with assms(1) show ?thesis by (auto simp: ring_def ct_def)
  qed (use assms(1) in \<open>auto simp: ring_def ct_def\<close>)
  have n: "n \<notin> set (ptr # (as1 @ as2) @ [ptr])" using dom [of n] assms(3) by auto
  have r: "chain (nx (mem h)) (xs @ a # b # ys)" "chain (pv (mem h)) (rev (xs @ a # b # ys))"
    using assms(1) by (simp_all add: ring_def flip: cyc)
  have d: "distinct (butlast (xs @ a # b # ys))" "distinct (butlast (rev (xs @ a # b # ys)))"
    using ring_distinct_cyc [OF assms(1)] by (simp_all only: cyc)
  have nab: "n \<noteq> a" "n \<noteq> b" "n \<notin> set (xs @ a # b # ys)" using n unfolding cyc by auto
  have "chain (nx (mem h')) (xs @ a # n # b # ys)"
    by (rule chain_insert [OF r(1) d(1)]) (use nab assms(5) in \<open>auto simp: a_def b_def\<close>)
  moreover have "chain (pv (mem h')) (rev ys @ b # n # a # rev xs)"
    by (rule chain_insert [of "pv (mem h)"])
      (use r(2) d(2) nab assms(6) in \<open>auto simp: a_def b_def\<close>)
  moreover have "ct (mem h') ptr = Some (Size sz)"
    using assms(1,7) n by (simp add: ring_def)
  moreover have "map (ct (mem h')) (as1 @ n # as2) = map (\<lambda>d. Some (Data d)) (ds1 @ d # ds2)"
    using assms(1,2,7) n by (auto simp: ring_def append_eq_append_conv)
  moreover have "distinct (ptr # as1 @ n # as2)" using assms(1) n by (auto simp: ring_def)
  ultimately show ?thesis
    unfolding ring_def cyc' using assms(4) by simp
qed

lemma ring_remove:
  assumes "ring h ptr sz (as1 @ n # as2) (ds1 @ d # ds2)" "length as1 = length ds1"
    and "heap_ok h'" "\<forall>x. x \<noteq> n \<longrightarrow> nx (mem h') x = ((nx (mem h))(last (ptr # as1) := Some (hd (as2 @ [ptr])))) x"
    and "\<forall>x. x \<noteq> n \<longrightarrow> pv (mem h') x = ((pv (mem h))(hd (as2 @ [ptr]) := Some (last (ptr # as1)))) x"
    and "\<forall>x. x \<noteq> n \<longrightarrow> ct (mem h') x = ct (mem h) x"
  shows "ring h' ptr sz (as1 @ as2) (ds1 @ ds2)"
proof -
  define a where "a = last (ptr # as1)"
  define b where "b = hd (as2 @ [ptr])"
  define xs where "xs = butlast (ptr # as1)"
  define ys where "ys = tl (as2 @ [ptr])"
  have ax: "ptr # as1 = xs @ [a]" by (simp add: a_def xs_def)
  have bx: "as2 @ [ptr] = b # ys" by (simp add: b_def ys_def)
  have cyc: "ptr # (as1 @ as2) @ [ptr] = xs @ a # b # ys"
    using ax bx by (metis append.assoc append_Cons append_Nil)
  have cyc': "ptr # (as1 @ n # as2) @ [ptr] = xs @ a # n # b # ys"
    using ax bx by (metis append.assoc append_Cons append_Nil)
  have n: "n \<notin> set (ptr # (as1 @ as2) @ [ptr])" using assms(1) by (auto simp: ring_def)
  then have nab: "n \<noteq> a" "n \<noteq> b" unfolding cyc by auto
  have r: "chain (nx (mem h)) (xs @ a # n # b # ys)" "chain (pv (mem h)) (rev (xs @ a # n # b # ys))"
    using assms(1) by (simp_all add: ring_def flip: cyc')
  have d: "distinct (butlast (xs @ a # n # b # ys))" "distinct (butlast (rev (xs @ a # n # b # ys)))"
    using ring_distinct_cyc [OF assms(1)] by (simp_all only: cyc')
  have "chain (nx (mem h')) (xs @ a # b # ys)"
    by (rule chain_remove [OF r(1) d(1)]) (use nab assms(4) in \<open>auto simp: a_def b_def\<close>)
  moreover have "chain (pv (mem h')) (rev ys @ b # a # rev xs)"
    by (rule chain_remove [of "pv (mem h)" _ _ n])
      (use r(2) d(2) nab assms(5) in \<open>auto simp: a_def b_def\<close>)
  moreover have "ct (mem h') ptr = Some (Size sz)"
    using assms(1,6) n by (simp add: ring_def)
  moreover have "map (ct (mem h')) (as1 @ as2) = map (\<lambda>d. Some (Data d)) (ds1 @ ds2)"
  proof -
    have "map (ct (mem h')) (as1 @ as2) = map (ct (mem h)) (as1 @ as2)"
      using assms(6) n by (intro map_cong) auto
    also have "\<dots> = map (\<lambda>d. Some (Data d)) (ds1 @ ds2)"
      using assms(1,2) by (auto simp: ring_def append_eq_append_conv)
    finally show ?thesis .
  qed
  moreover have "distinct (ptr # as1 @ as2)" using assms(1) by (auto simp: ring_def)
  ultimately show ?thesis
    unfolding ring_def cyc using assms(3) by simp
qed

section \<open>Linking and unlinking a node on the heap\<close>

lemma field_upd [simp]:
  "m a = Some c \<Longrightarrow> nx (m(a \<mapsto> c\<lparr>nxt := b\<rparr>)) = (nx m)(a := Some b)"
  "m a = Some c \<Longrightarrow> nx (m(a \<mapsto> c\<lparr>prev := b\<rparr>)) = nx m"
  "m a = Some c \<Longrightarrow> pv (m(a \<mapsto> c\<lparr>prev := b\<rparr>)) = (pv m)(a := Some b)"
  "m a = Some c \<Longrightarrow> pv (m(a \<mapsto> c\<lparr>nxt := b\<rparr>)) = pv m"
  "m a = Some c \<Longrightarrow> ct (m(a \<mapsto> c\<lparr>nxt := b\<rparr>)) = ct m"
  "m a = Some c \<Longrightarrow> ct (m(a \<mapsto> c\<lparr>prev := b\<rparr>)) = ct m"
  by (auto simp: nx_def pv_def ct_def fun_eq_iff)

lemma field_new [simp]:
  "nx (m(a \<mapsto> c)) = (nx m)(a := Some (nxt c))" "pv (m(a \<mapsto> c)) = (pv m)(a := Some (prev c))"
  "ct (m(a \<mapsto> c)) = (ct m)(a := Some (con c))"
  by (auto simp: nx_def pv_def ct_def fun_eq_iff)

text \<open>One assignment to a pointer field.\<close>

lemma set_nxt:
  assumes "heap_ok h" "mem h a \<noteq> None"
  shows "\<exists>h'. modify a (\<lambda>c. c\<lparr>nxt := b\<rparr>) h = Some h' \<and> heap_ok h' \<and> nx (mem h') = (nx (mem h))(a := Some b)
    \<and> pv (mem h') = pv (mem h) \<and> ct (mem h') = ct (mem h)
    \<and> (\<forall>x. x \<noteq> a \<longrightarrow> mem h' x = mem h x) \<and> (\<forall>x. mem h' x = None \<longleftrightarrow> mem h x = None)
    \<and> oom h' = oom h"
  using assms by (auto simp del: field_new)

lemma set_prev:
  assumes "heap_ok h" "mem h a \<noteq> None"
  shows "\<exists>h'. modify a (\<lambda>c. c\<lparr>prev := b\<rparr>) h = Some h' \<and> heap_ok h' \<and> pv (mem h') = (pv (mem h))(a := Some b)
    \<and> nx (mem h') = nx (mem h) \<and> ct (mem h') = ct (mem h)
    \<and> (\<forall>x. x \<noteq> a \<longrightarrow> mem h' x = mem h x) \<and> (\<forall>x. mem h' x = None \<longleftrightarrow> mem h x = None)
    \<and> oom h' = oom h"
  using assms by (auto simp del: field_new)

lemma ring_dom:
  assumes "ring h ptr sz as ds" "x \<in> set (ptr # as)"
  shows "mem h x \<noteq> None"
proof (cases "x = ptr")
  case False
  with assms(2) have "ct (mem h) x \<in> set (map (ct (mem h)) as)" by auto
  with assms(1) show ?thesis by (auto simp: ring_def ct_def)
qed (use assms(1) in \<open>auto simp: ring_def ct_def\<close>)

lemma last_dom: "last (ptr # as1) \<in> set (ptr # as1)" "hd (as2 @ [ptr]) \<in> set (ptr # as2)"
  by (metis last_in_set list.distinct(1)) (cases as2; simp)

lemma ring_link:
  assumes "ring h ptr sz (as1 @ as2) (ds1 @ ds2)" "length as1 = length ds1"
    and "mem h n = None" "heap_ok g"
    and "mem g = (mem h)(n \<mapsto> \<lparr>prev = last (ptr # as1), nxt = hd (as2 @ [ptr]), con = Data d\<rparr>)"
  shows "\<exists>h'. do { new \<leftarrow> load n g;
      g \<leftarrow> modify (nxt new) (\<lambda>c. c\<lparr>prev := n\<rparr>) g;
      modify (prev new) (\<lambda>c. c\<lparr>nxt := n\<rparr>) g } = Some h'
    \<and> ring h' ptr sz (as1 @ n # as2) (ds1 @ d # ds2) \<and> oom h' = oom g"
proof -
  let ?a = "last (ptr # as1)" and ?b = "hd (as2 @ [ptr])"
  have dom: "mem h ?a \<noteq> None" "mem h ?b \<noteq> None"
    using ring_dom [OF assms(1)] last_dom(1) [of ptr as1] last_dom(2) [of as2 ptr] by auto
  then have dom': "mem g ?a \<noteq> None" "mem g ?b \<noteq> None" using assms(5) by auto
  have ld: "load n g = Some \<lparr>prev = ?a, nxt = ?b, con = Data d\<rparr>"
    using assms(4,5) by simp
  obtain g1 where g1: "modify ?b (\<lambda>c. c\<lparr>prev := n\<rparr>) g = Some g1" "heap_ok g1"
    "pv (mem g1) = (pv (mem g))(?b := Some n)" "nx (mem g1) = nx (mem g)" "ct (mem g1) = ct (mem g)"
    "\<forall>x. mem g1 x = None \<longleftrightarrow> mem g x = None" "oom g1 = oom g"
    using set_prev [OF assms(4) dom'(2), of n] by blast
  obtain g2 where g2: "modify ?a (\<lambda>c. c\<lparr>nxt := n\<rparr>) g1 = Some g2" "heap_ok g2"
    "nx (mem g2) = (nx (mem g1))(?a := Some n)" "pv (mem g2) = pv (mem g1)" "ct (mem g2) = ct (mem g1)"
    "oom g2 = oom g1"
    using set_nxt [OF g1(2), of ?a n] g1(6) dom'(1) by metis
  have "ring g2 ptr sz (as1 @ n # as2) (ds1 @ d # ds2)"
    by (rule ring_insert [OF assms(1,2,3) g2(2)]) (simp_all add: g1 g2 assms(5))
  with ld g1(1,7) g2(1,6) show ?thesis by simp
qed

lemma ring_neighbours:
  assumes "ring h ptr sz (as1 @ n # as2) ds"
  obtains c where "mem h n = Some c" "prev c = last (ptr # as1)" "nxt c = hd (as2 @ [ptr])"
proof -
  obtain c where c: "mem h n = Some c" using ring_dom [OF assms, of n] by auto
  have "chain (nx (mem h)) ((ptr # as1) @ n # as2 @ [ptr])" using assms by (simp add: ring_def)
  from chain_appendD2 [OF this] have "nx (mem h) n = Some (hd (as2 @ [ptr]))" by (simp add: chain_Cons)
  moreover have "chain (pv (mem h)) (([ptr] @ rev as2) @ n # rev as1 @ [ptr])"
    using assms by (simp add: ring_def)
  from chain_appendD2 [OF this] have "pv (mem h) n = Some (hd (rev as1 @ [ptr]))" by (simp add: chain_Cons)
  moreover have "hd (rev as1 @ [ptr]) = last (ptr # as1)" by (cases as1 rule: rev_cases) auto
  ultimately show ?thesis using that c by (auto simp: nx_def pv_def)
qed

text \<open>Unlinking, in either order of the two assignments, then freeing.\<close>

lemma ring_unlink_data:
  assumes "ring h ptr sz (as1 @ n # as2) (ds1 @ d # ds2)" "length as1 = length ds1"
  shows "\<exists>g c h'. unlink n h = Some g \<and> load n g = Some c \<and> node_data c = Some d \<and> free n g = Some h'
    \<and> ring h' ptr sz (as1 @ as2) (ds1 @ ds2)"
proof -
  let ?a = "last (ptr # as1)" and ?b = "hd (as2 @ [ptr])"
  obtain c where c: "mem h n = Some c" "prev c = ?a" "nxt c = ?b" by (rule ring_neighbours [OF assms(1)])
  have ok: "heap_ok h" using assms(1) by (simp add: ring_def)
  have ne: "n \<noteq> ?a" "n \<noteq> ?b"
    using last_dom(1) [of ptr as1] last_dom(2) [of as2 ptr] assms(1) by (auto simp: ring_def)
  have dom: "mem h ?a \<noteq> None" "mem h ?b \<noteq> None"
    using ring_dom [OF assms(1)] last_dom(1) [of ptr as1] last_dom(2) [of as2 ptr] by auto
  obtain g1 where g1: "modify ?a (\<lambda>c. c\<lparr>nxt := ?b\<rparr>) h = Some g1" "heap_ok g1"
    "nx (mem g1) = (nx (mem h))(?a := Some ?b)" "pv (mem g1) = pv (mem h)" "ct (mem g1) = ct (mem h)"
    "\<forall>x. x \<noteq> ?a \<longrightarrow> mem g1 x = mem h x" "\<forall>x. mem g1 x = None \<longleftrightarrow> mem h x = None"
    using set_nxt [OF ok dom(1), of ?b] by blast
  obtain g2 where g2: "modify ?b (\<lambda>c. c\<lparr>prev := ?a\<rparr>) g1 = Some g2" "heap_ok g2"
    "pv (mem g2) = (pv (mem g1))(?b := Some ?a)" "nx (mem g2) = nx (mem g1)" "ct (mem g2) = ct (mem g1)"
    "\<forall>x. x \<noteq> ?b \<longrightarrow> mem g2 x = mem g1 x"
    using set_prev [OF g1(2), of ?b ?a] g1(7) dom(2) by metis
  have n2: "mem g2 n = Some c" "mem g1 n = Some c" using g1(6) g2(6) ne c(1) by auto
  let ?h = "g2\<lparr>mem := (mem g2)(n := None)\<rparr>"
  have "ring ?h ptr sz (as1 @ as2) (ds1 @ ds2)"
    by (rule ring_remove [OF assms]) (use g1 g2 in \<open>simp_all add: nx_def pv_def ct_def fun_eq_iff\<close>)
  moreover have "unlink n h = Some g2" using c ok n2 g1(1,2) g2(1,2) by (simp add: unlink_def)
  moreover have "con c = Data d" using assms c(1) by (auto simp: ring_def ct_def append_eq_append_conv)
  ultimately show ?thesis using n2(1) g2(2) by (intro exI [of _ g2] exI [of _ c] exI [of _ ?h]) simp
qed

lemma ring_unlink:
  assumes "ring h ptr sz (as1 @ n # as2) (ds1 @ d # ds2)" "length as1 = length ds1"
  shows "\<exists>h'. Option.bind (unlink n h) (free n) = Some h' \<and> ring h' ptr sz (as1 @ as2) (ds1 @ ds2)"
  using ring_unlink_data [OF assms] by auto

lemma ring_unlink_back:
  assumes "ring h ptr sz (as1 @ n # as2) (ds1 @ d # ds2)" "length as1 = length ds1"
  shows "\<exists>c g h'. load n h = Some c \<and> modify (nxt c) (\<lambda>x. x\<lparr>prev := prev c\<rparr>) h = Some g \<and> load n g = Some c
    \<and> (\<exists>g2. modify (prev c) (\<lambda>x. x\<lparr>nxt := nxt c\<rparr>) g = Some g2 \<and> load n g2 = Some c \<and> free n g2 = Some h')
    \<and> node_data c = Some d \<and> ring h' ptr sz (as1 @ as2) (ds1 @ ds2)"
proof -
  let ?a = "last (ptr # as1)" and ?b = "hd (as2 @ [ptr])"
  obtain c where c: "mem h n = Some c" "prev c = ?a" "nxt c = ?b" by (rule ring_neighbours [OF assms(1)])
  have ok: "heap_ok h" using assms(1) by (simp add: ring_def)
  have ne: "n \<noteq> ?a" "n \<noteq> ?b"
    using last_dom(1) [of ptr as1] last_dom(2) [of as2 ptr] assms(1) by (auto simp: ring_def)
  have dom: "mem h ?a \<noteq> None" "mem h ?b \<noteq> None"
    using ring_dom [OF assms(1)] last_dom(1) [of ptr as1] last_dom(2) [of as2 ptr] by auto
  obtain g1 where g1: "modify ?b (\<lambda>c. c\<lparr>prev := ?a\<rparr>) h = Some g1" "heap_ok g1"
    "pv (mem g1) = (pv (mem h))(?b := Some ?a)" "nx (mem g1) = nx (mem h)" "ct (mem g1) = ct (mem h)"
    "\<forall>x. x \<noteq> ?b \<longrightarrow> mem g1 x = mem h x" "\<forall>x. mem g1 x = None \<longleftrightarrow> mem h x = None"
    using set_prev [OF ok dom(2), of ?a] by blast
  obtain g2 where g2: "modify ?a (\<lambda>c. c\<lparr>nxt := ?b\<rparr>) g1 = Some g2" "heap_ok g2"
    "nx (mem g2) = (nx (mem g1))(?a := Some ?b)" "pv (mem g2) = pv (mem g1)" "ct (mem g2) = ct (mem g1)"
    "\<forall>x. x \<noteq> ?a \<longrightarrow> mem g2 x = mem g1 x"
    using set_nxt [OF g1(2), of ?a ?b] g1(7) dom(1) by metis
  have n2: "mem g2 n = Some c" "mem g1 n = Some c" using g1(6) g2(6) ne c(1) by auto
  let ?h = "g2\<lparr>mem := (mem g2)(n := None)\<rparr>"
  have "ring ?h ptr sz (as1 @ as2) (ds1 @ ds2)"
    by (rule ring_remove [OF assms]) (use g1 g2 in \<open>simp_all add: nx_def pv_def ct_def fun_eq_iff\<close>)
  moreover have "con c = Data d"
    using assms c(1) by (auto simp: ring_def ct_def append_eq_append_conv)
  ultimately show ?thesis
    using c ok n2 g1(1,2) g2(1,2) by (intro exI [of _ c] exI [of _ g1] exI [of _ ?h]) simp
qed

section \<open>The operations on the list of records\<close>

text \<open>The list as a client sees it.\<close>

definition llist_ok :: "addr \<Rightarrow> 'd lheap \<Rightarrow> bool" where
  "llist_ok ptr h \<longleftrightarrow> (\<exists>sz as ds. ring h ptr sz as ds)"

lemma find_from_eq:
  "heap_ok h \<Longrightarrow> ptr \<notin> set as \<Longrightarrow> chain (nx (mem h)) (as @ [ptr]) \<Longrightarrow>
   map (ct (mem h)) as = map (\<lambda>d. Some (Data d)) ds \<Longrightarrow>
   find_from ptr key cmp (hd (as @ [ptr])) h =
     Some (hd (drop (length (takeWhile (\<lambda>d. cmp key d \<noteq> 0) ds)) as @ [ptr]))"
proof (induction as arbitrary: ds)
  case Nil
  then show ?case by (simp add: find_from.simps)
next
  case (Cons a as)
  then obtain d ds' where ds: "ds = d # ds'" "ct (mem h) a = Some (Data d)"
    "map (ct (mem h)) as = map (\<lambda>d. Some (Data d)) ds'" by (cases ds) auto
  then obtain c where c: "mem h a = Some c" "con c = Data d" by (auto simp: ct_def)
  have ch: "chain (nx (mem h)) (as @ [ptr])" "nx (mem h) a = Some (hd (as @ [ptr]))"
    using Cons.prems(3) by (auto simp: chain_Cons)
  then have "nxt c = hd (as @ [ptr])" using c by (simp add: nx_def)
  with Cons.IH [OF Cons.prems(1) _ ch(1) ds(3)] Cons.prems(1,2) c ds(1) show ?case
    by (simp add: find_from.simps [of ptr key cmp a])
qed

lemma find_node_eq:
  assumes "ring h ptr sz as ds"
  shows "find_node ptr key cmp h =
    Some (hd (drop (length (takeWhile (\<lambda>d. cmp key d \<noteq> 0) ds)) as @ [ptr]))"
proof -
  obtain c where "mem h ptr = Some c" "nxt c = hd (as @ [ptr])" by (rule ring_head [OF assms])
  with find_from_eq [of h ptr as ds key cmp] assms show ?thesis
    by (simp add: find_node_def ring_def chain_Cons)
qed

lemma ring_length: "ring h ptr sz as ds \<Longrightarrow> length as = length ds"
  unfolding ring_def by (metis length_map)

text \<open>The search stops at the head, or at the node of the first matching record.\<close>

lemma find_node_cases:
  assumes "ring h ptr sz as ds"
  obtains (none) "\<forall>d \<in> set ds. cmp key d \<noteq> 0" "find_node ptr key cmp h = Some ptr"
  | (some) as1 n as2 ds1 d ds2 where "as = as1 @ n # as2" "ds = ds1 @ d # ds2" "length as1 = length ds1"
      "cmp key d = 0" "\<forall>d \<in> set ds1. cmp key d \<noteq> 0" "find_node ptr key cmp h = Some n" "n \<noteq> ptr"
proof (cases "\<forall>d \<in> set ds. cmp key d \<noteq> 0")
  case True
  then have "takeWhile (\<lambda>d. cmp key d \<noteq> 0) ds = ds" by (simp add: takeWhile_eq_all_conv)
  with find_node_eq [OF assms, of key cmp] ring_length [OF assms] True none show ?thesis by simp
next
  case False
  then obtain ds1 d ds2 where ds: "ds = ds1 @ d # ds2" "cmp key d = 0" "\<forall>d \<in> set ds1. cmp key d \<noteq> 0"
    using split_list_first_prop [of ds "\<lambda>d. cmp key d = 0"] by auto
  define n where "n = as ! length ds1"
  have as: "as = take (length ds1) as @ n # drop (Suc (length ds1)) as" "length (take (length ds1) as) = length ds1"
    using ring_length [OF assms] ds(1) by (simp_all add: n_def id_take_nth_drop [symmetric])
  have "takeWhile (\<lambda>d. cmp key d \<noteq> 0) ds = ds1"
    using ds by (simp add: takeWhile_append takeWhile_eq_all_conv)
  moreover have "hd (drop (length ds1) as @ [ptr]) = n"
    using ring_length [OF assms] ds(1) by (simp add: n_def hd_append hd_drop_conv_nth)
  ultimately have "find_node ptr key cmp h = Some n" using find_node_eq [OF assms, of key cmp] by simp
  moreover have "n \<noteq> ptr" using assms as(1) unfolding ring_def by (metis distinct.simps(2) in_set_conv_decomp)
  ultimately show ?thesis using some [OF as(1) ds(1) as(2) ds(2,3)] by blast
qed

lemma travel_from_eq:
  "heap_ok h \<Longrightarrow> ptr \<notin> set as \<Longrightarrow> chain (nx (mem h)) (as @ [ptr]) \<Longrightarrow>
   map (ct (mem h)) as = map (\<lambda>d. Some (Data d)) ds \<Longrightarrow> travel_from ptr (hd (as @ [ptr])) h = Some ds"
proof (induction as arbitrary: ds)
  case Nil
  then show ?case by (simp add: travel_from.simps)
next
  case (Cons a as)
  then obtain d ds' where ds: "ds = d # ds'" "ct (mem h) a = Some (Data d)"
    "map (ct (mem h)) as = map (\<lambda>d. Some (Data d)) ds'" by (cases ds) auto
  then obtain c where c: "mem h a = Some c" "con c = Data d" by (auto simp: ct_def)
  have ch: "chain (nx (mem h)) (as @ [ptr])" "nx (mem h) a = Some (hd (as @ [ptr]))"
    using Cons.prems(3) by (auto simp: chain_Cons)
  then have "nxt c = hd (as @ [ptr])" using c by (simp add: nx_def)
  with Cons.IH [OF Cons.prems(1) _ ch(1) ds(3)] Cons.prems(1,2) c ds(1) show ?case
    by (simp add: travel_from.simps [of ptr a])
qed

lemma llist_travel_eq:
  assumes "ring h ptr sz as ds"
  shows "llist_travel ptr h = Some ds"
proof -
  obtain c where "mem h ptr = Some c" "nxt c = hd (as @ [ptr])" by (rule ring_head [OF assms])
  with travel_from_eq [of h ptr as ds] assms show ?thesis
    by (simp add: llist_travel_def ring_def chain_Cons)
qed

lemma llist_create_ring:
  assumes "heap_ok h" "llist_create initsize h = Some (p, h')"
  shows "if oom h 0 then p = NULL \<and> heap_ok h' else p \<noteq> NULL \<and> ring h' p initsize [] []"
proof -
  obtain p1 h1 where m: "malloc \<lparr>prev = NULL, nxt = NULL, con = Size 0\<rparr> h = (p1, h1)" by fastforce
  then show ?thesis
  proof (cases rule: malloc_cases)
    case fail
    with m assms show ?thesis by (auto simp: llist_create_def)
  next
    case ok
    have h1: "heap_ok h1" "mem h1 p1 = Some \<lparr>prev = NULL, nxt = NULL, con = Size 0\<rparr>"
      using assms(1) ok by simp_all
    have "p1 \<noteq> NULL" using ok(2) brk_pos [OF assms(1)] by simp
    with assms(2) m h1 ok(1) show ?thesis
      by (auto simp: llist_create_def ring_def nx_def pv_def ct_def)
  qed
qed

text \<open>The ring depends on its own cells only.\<close>

lemma ring_frame:
  assumes "ring h ptr sz as ds" "heap_ok g" "\<And>x. x \<in> set (ptr # as) \<Longrightarrow> mem g x = mem h x"
  shows "ring g ptr sz as ds"
proof -
  have "chain (nx (mem g)) (ptr # as @ [ptr])"
    by (rule chain_frame [of "nx (mem h)"]) (use assms in \<open>auto simp: ring_def nx_def butlast_append\<close>)
  moreover have "chain (pv (mem g)) (rev (ptr # as @ [ptr]))"
    by (rule chain_frame [of "pv (mem h)"]) (use assms in \<open>auto simp: ring_def pv_def butlast_append\<close>)
  moreover have "map (ct (mem g)) as = map (\<lambda>d. Some (Data d)) ds"
  proof -
    have "map (ct (mem g)) as = map (ct (mem h)) as" using assms(3) by (simp add: ct_def)
    also have "\<dots> = map (\<lambda>d. Some (Data d)) ds" using assms(1) by (simp add: ring_def)
    finally show ?thesis .
  qed
  ultimately show ?thesis using assms by (simp add: ring_def ct_def)
qed

lemma llist_insert_ring:
  assumes "ring h ptr sz as ds"
  shows "\<exists>r h'. llist_insert ptr d mode h = Some (r, h') \<and> oom h' = (\<lambda>n. oom h (Suc n)) \<and>
    (if oom h 0 then r = - 1 \<and> ring h' ptr sz as ds
     else if mode = LLIST_FORWARD then r = 0 \<and> (\<exists>as'. ring h' ptr sz as' (d # ds))
     else if mode = LLIST_BACKWARD then r = 0 \<and> (\<exists>as'. ring h' ptr sz as' (ds @ [d]))
     else r = - 3 \<and> ring h' ptr sz as ds)"
proof -
  obtain c where c: "mem h ptr = Some c" "con c = Size sz" "nxt c = hd (as @ [ptr])" "prev c = last (ptr # as)"
    by (rule ring_head [OF assms])
  have ok: "heap_ok h" using assms by (simp add: ring_def)
  define g0 where "g0 = h\<lparr>oom := \<lambda>n. oom h (Suc n), mem := (mem h)(brk h \<mapsto>
    \<lparr>prev = NULL, nxt = NULL, con = Data d\<rparr>), brk := Suc (brk h)\<rparr>"
  have new: "mem h (brk h) = None" using brk_fresh [OF ok] .
  have ptr_ne: "ptr \<noteq> brk h" using c(1) new by auto
  have g0: "heap_ok g0" "mem g0 ptr = Some c" "mem g0 (brk h) = Some \<lparr>prev = NULL, nxt = NULL, con = Data d\<rparr>"
    "mem g0 = (mem h)(brk h \<mapsto> \<lparr>prev = NULL, nxt = NULL, con = Data d\<rparr>)"
    using ok c(1) ptr_ne by (simp_all add: g0_def)
  have brk: "brk h \<noteq> NULL" using brk_pos [OF ok] by simp
  show ?thesis
  proof (cases "oom h 0")
    case True
    then show ?thesis using assms c ok by (simp add: llist_insert_def malloc_def ring_def)
  next
    case False
    then have m: "malloc \<lparr>prev = NULL, nxt = NULL, con = Data d\<rparr> h = (brk h, g0)"
      by (simp add: malloc_def g0_def)
    define gf where "gf = g0\<lparr>mem := (mem h)(brk h \<mapsto> \<lparr>prev = ptr, nxt = hd (as @ [ptr]), con = Data d\<rparr>)\<rparr>"
    define gb where "gb = g0\<lparr>mem := (mem h)(brk h \<mapsto> \<lparr>prev = last (ptr # as), nxt = ptr, con = Data d\<rparr>)\<rparr>"
    have oo: "oom gf = (\<lambda>n. oom h (Suc n))" "oom gb = (\<lambda>n. oom h (Suc n))" "oom g0 = (\<lambda>n. oom h (Suc n))"
      by (simp_all add: gf_def gb_def g0_def)
    have gf: "modify (brk h) (\<lambda>x. x\<lparr>prev := ptr, nxt := nxt c\<rparr>) g0 = Some gf" "heap_ok gf"
      using g0 c(3) heap_ok_upd [OF g0(1,3)] by (simp_all add: gf_def)
    have gb: "modify (brk h) (\<lambda>x. x\<lparr>prev := prev c, nxt := ptr\<rparr>) g0 = Some gb" "heap_ok gb"
      using g0 c(4) heap_ok_upd [OF g0(1,3)] by (simp_all add: gb_def)
    consider "mode = LLIST_FORWARD" | "mode = LLIST_BACKWARD" | "mode \<noteq> LLIST_FORWARD" "mode \<noteq> LLIST_BACKWARD"
      by blast
    then show ?thesis
    proof cases
      case 1
      obtain h' where "do { new \<leftarrow> load (brk h) gf;
        g \<leftarrow> modify (nxt new) (\<lambda>c. c\<lparr>prev := brk h\<rparr>) gf;
        modify (prev new) (\<lambda>c. c\<lparr>nxt := brk h\<rparr>) g } = Some h'" "ring h' ptr sz ([] @ brk h # as) ([] @ d # ds)" "oom h' = oom gf"
        using ring_link [of h ptr sz "[]" as "[]" ds "brk h" gf d] assms new gf(2) by (auto simp: gf_def)
      with 1 False m gf(1) g0 ok c brk oo(1) show ?thesis
        by (auto simp: llist_insert_def bind_eq_Some_conv)
    next
      case 2
      obtain h' where "do { new \<leftarrow> load (brk h) gb;
        g \<leftarrow> modify (nxt new) (\<lambda>c. c\<lparr>prev := brk h\<rparr>) gb;
        modify (prev new) (\<lambda>c. c\<lparr>nxt := brk h\<rparr>) g } = Some h'" "ring h' ptr sz (as @ [brk h]) (ds @ [d])" "oom h' = oom gb"
        using ring_link [of h ptr sz as "[]" ds "[]" "brk h" gb d] assms new gb(2) ring_length [OF assms]
        by (auto simp: gb_def)
      with 2 False m gb(1) g0 ok c brk oo(2) show ?thesis
        by (auto simp: llist_insert_def bind_eq_Some_conv)
    next
      case 3
      have "ring g0 ptr sz as ds"
      proof (rule ring_frame [OF assms g0(1)])
        fix x assume "x \<in> set (ptr # as)"
        then have "x \<noteq> brk h" using ring_dom [OF assms] new by metis
        then show "mem g0 x = mem h x" using g0(4) by simp
      qed
      with 3 False m c ok brk oo(3) show ?thesis by (simp add: llist_insert_def)
    qed
  qed
qed

text \<open>Removing the first matching record.\<close>

fun remove_first :: "('d \<Rightarrow> bool) \<Rightarrow> 'd list \<Rightarrow> 'd list" where
  "remove_first p [] = []"
| "remove_first p (d # ds) = (if p d then ds else d # remove_first p ds)"

lemma remove_first_append:
  "\<forall>d \<in> set ds1. \<not> p d \<Longrightarrow> p d \<Longrightarrow> remove_first p (ds1 @ d # ds2) = ds1 @ ds2"
  by (induction ds1) auto

lemma find_append: "\<forall>d \<in> set ds1. \<not> p d \<Longrightarrow> p d \<Longrightarrow> List.find p (ds1 @ d # ds2) = Some d"
  by (induction ds1) auto

lemma find_none: "\<forall>d \<in> set ds. \<not> p d \<Longrightarrow> List.find p ds = None"
  by (induction ds) auto

lemma llist_delete_ring:
  assumes "ring h ptr sz as ds"
  shows "if List.find (\<lambda>d. cmp key d = 0) ds = None then llist_delete ptr key cmp h = Some (- 1, h)
    else \<exists>h' as'. llist_delete ptr key cmp h = Some (0, h')
      \<and> ring h' ptr sz as' (remove_first (\<lambda>d. cmp key d = 0) ds)"
  using assms
proof (cases rule: find_node_cases [where cmp = cmp and key = key])
  case none
  then show ?thesis by (simp add: llist_delete_def find_none)
next
  case (some as1 n as2 ds1 d ds2)
  obtain h' where "Option.bind (unlink n h) (free n) = Some h'" "ring h' ptr sz (as1 @ as2) (ds1 @ ds2)"
    using ring_unlink [of h ptr sz as1 n as2 ds1 d ds2] assms some(1-3) by auto
  with some show ?thesis
    by (auto simp: llist_delete_def find_append remove_first_append bind_eq_Some_conv)
qed

lemma llist_fetch_ring:
  assumes "ring h ptr sz as ds"
  shows "case List.find (\<lambda>d. cmp key d = 0) ds of
      None \<Rightarrow> llist_fetch ptr key cmp out h = Some (- 1, out, h)
    | Some d \<Rightarrow> \<exists>h' as'. llist_fetch ptr key cmp out h = Some (0, map_option (\<lambda>_. d) out, h')
        \<and> ring h' ptr sz as' (remove_first (\<lambda>d. cmp key d = 0) ds)"
  using assms
proof (cases rule: find_node_cases [where cmp = cmp and key = key])
  case none
  then show ?thesis by (simp add: llist_fetch_def find_none)
next
  case (some as1 n as2 ds1 d ds2)
  obtain c g g2 h' where u: "load n h = Some c" "modify (nxt c) (\<lambda>x. x\<lparr>prev := prev c\<rparr>) h = Some g"
    "load n g = Some c" "modify (prev c) (\<lambda>x. x\<lparr>nxt := nxt c\<rparr>) g = Some g2" "load n g2 = Some c"
    "free n g2 = Some h'" "node_data c = Some d" "ring h' ptr sz (as1 @ as2) (ds1 @ ds2)"
    using ring_unlink_back [of h ptr sz as1 n as2 ds1 d ds2] assms some(1-3) by metis
  have "llist_fetch ptr key cmp out h = Some (0, map_option (\<lambda>_. d) out, h')"
    using some(6,7) u(1-7) by (cases out) (simp_all add: llist_fetch_def del: node_data.simps)
  with u(8) some(1-5) show ?thesis
    by (auto simp: find_append remove_first_append)
qed

lemma llist_find_ring:
  assumes "ring h ptr sz as ds"
  shows "case List.find (\<lambda>d. cmp key d = 0) ds of
      None \<Rightarrow> llist_find ptr key cmp h = Some NULL
    | Some d \<Rightarrow> \<exists>n. llist_find ptr key cmp h = Some n \<and> n \<in> set as \<and> ct (mem h) n = Some (Data d)"
  using assms
proof (cases rule: find_node_cases [where cmp = cmp and key = key])
  case none
  then show ?thesis by (simp add: llist_find_def find_none)
next
  case (some as1 n as2 ds1 d ds2)
  with assms show ?thesis
    by (auto simp: llist_find_def find_append ring_def append_eq_append_conv)
qed

text \<open>Destroying the list frees the head and every node and nothing else.\<close>

lemma destroy_from_eq:
  "heap_ok h \<Longrightarrow> distinct (ptr # as) \<Longrightarrow> chain (nx (mem h)) (as @ [ptr]) \<Longrightarrow> \<forall>a \<in> set as. mem h a \<noteq> None \<Longrightarrow>
   \<exists>h'. destroy_from ptr (hd (as @ [ptr])) h = Some h' \<and> heap_ok h'
     \<and> mem h' = (\<lambda>x. if x \<in> set as then None else mem h x)"
proof (induction as arbitrary: h)
  case Nil
  then show ?case by (simp add: destroy_from.simps)
next
  case (Cons a as)
  from Cons.prems(4) obtain c where c: "mem h a = Some c" by auto
  have ch: "chain (nx (mem h)) (as @ [ptr])" "nx (mem h) a = Some (hd (as @ [ptr]))"
    using Cons.prems(3) by (auto simp: chain_Cons)
  have nc: "nxt c = hd (as @ [ptr])" using ch c by (simp add: nx_def)
  let ?h = "h\<lparr>mem := (mem h)(a := None)\<rparr>"
  have a: "a \<notin> set as" "a \<noteq> ptr" using Cons.prems(2) by auto
  have "chain (nx (mem ?h)) (as @ [ptr])"
    by (rule chain_frame [OF ch(1)]) (use a in \<open>auto simp: nx_def butlast_append\<close>)
  moreover have "\<forall>b \<in> set as. mem ?h b \<noteq> None" using Cons.prems(4) a by auto
  moreover have "heap_ok ?h" "distinct (ptr # as)" using Cons.prems(1,2) by auto
  ultimately obtain h' where h': "destroy_from ptr (hd (as @ [ptr])) ?h = Some h'" "heap_ok h'"
    "mem h' = (\<lambda>x. if x \<in> set as then None else mem ?h x)"
    using Cons.IH [of ?h] by blast
  have "destroy_from ptr (hd ((a # as) @ [ptr])) h = Some h'"
    using h'(1) c a(2) nc Cons.prems(1) by (simp add: destroy_from.simps [of ptr a])
  with h'(2,3) show ?case by (auto simp: fun_eq_iff)
qed

lemma llist_destroy_ring:
  assumes "ring h ptr sz as ds"
  shows "\<exists>h'. llist_destroy ptr h = Some h' \<and> heap_ok h'
    \<and> mem h' = (\<lambda>x. if x \<in> set (ptr # as) then None else mem h x)"
proof -
  obtain c where c: "mem h ptr = Some c" "nxt c = hd (as @ [ptr])" by (rule ring_head [OF assms])
  obtain h' where h': "destroy_from ptr (hd (as @ [ptr])) h = Some h'" "heap_ok h'"
    "mem h' = (\<lambda>x. if x \<in> set as then None else mem h x)"
    using destroy_from_eq [of h ptr as] assms ring_dom [OF assms] by (auto simp: ring_def chain_Cons)
  have "ptr \<notin> set as" "heap_ok h" using assms by (auto simp: ring_def)
  with c h' show ?thesis by (auto simp: llist_destroy_def fun_eq_iff)
qed

end
