(* ===== verification/ListAdt.thy ===== *)
theory ListAdt
  imports LList Interfaces
begin

text \<open>
  The stack and the queue over the generic list (\<open>ds/line/stack/list/stack.c\<close>,
  \<open>ds/line/squeue/list/queue.c\<close>), each compiled with its own copy of the \<open>llist.c\<close> of
  \<open>LList\<close>, and the two list libraries \<open>double/lib3\<close> (operations as function pointers in the head) and
  \<open>double/lib4\<close> (hidden representation), whose bodies are those of \<open>lib2\<close>. The stack and the queue
  implement the contracts of \<open>Interfaces\<close>.
\<close>

section \<open>The contract of the generic list\<close>


section \<open>The stack\<close>

definition always_match :: "unit \<Rightarrow> 'd \<Rightarrow> int" where
  "always_match p1 p2 = 0"

definition stack_create :: "int \<Rightarrow> 'd lheap \<Rightarrow> (addr \<times> 'd lheap) option" where
  "stack_create initsize h = llist_create initsize h"

definition stack_push :: "addr \<Rightarrow> 'd \<Rightarrow> 'd lheap \<Rightarrow> (int \<times> 'd lheap) option" where
  "stack_push ptr data h = llist_insert ptr data LLIST_FORWARD h"

definition stack_pop :: "addr \<Rightarrow> 'd option \<Rightarrow> 'd lheap \<Rightarrow> (int \<times> 'd option \<times> 'd lheap) option" where
  "stack_pop ptr data h = llist_fetch ptr () always_match data h"

definition stack_destroy :: "addr \<Rightarrow> 'd lheap \<Rightarrow> 'd lheap option" where
  "stack_destroy ptr h = llist_destroy ptr h"

section \<open>The queue\<close>

text \<open>\<open>queue_en\<close> has no \<open>return\<close> statement: its result is the arbitrary value \<open>junk\<close>.\<close>

definition queue_create :: "int \<Rightarrow> 'd lheap \<Rightarrow> (addr \<times> 'd lheap) option" where
  "queue_create sz h = llist_create sz h"

definition queue_en :: "int \<Rightarrow> addr \<Rightarrow> 'd \<Rightarrow> 'd lheap \<Rightarrow> (int \<times> 'd lheap) option" where
  "queue_en junk ptr data h = do { (r, h) \<leftarrow> llist_insert ptr data LLIST_BACKWARD h; Some (junk, h) }"

definition queue_always_match :: "unit \<Rightarrow> 'd \<Rightarrow> int" where
  "queue_always_match p1 p2 = 0"

definition queue_de :: "addr \<Rightarrow> 'd option \<Rightarrow> 'd lheap \<Rightarrow> (int \<times> 'd option \<times> 'd lheap) option" where
  "queue_de ptr data h = llist_fetch ptr () queue_always_match data h"

definition queue_destroy :: "addr \<Rightarrow> 'd lheap \<Rightarrow> 'd lheap option" where
  "queue_destroy ptr h = llist_destroy ptr h"

section \<open>The contracts\<close>

text \<open>The state of a client: the pointer and the heap, with an output buffer that is never \<open>NULL\<close>.\<close>

definition adt_ok :: "addr \<times> 'd lheap \<Rightarrow> bool" where
  "adt_ok s \<longleftrightarrow> llist_ok (fst s) (snd s) \<and> (\<forall>n. \<not> oom (snd s) n)"

definition adt_cont :: "addr \<times> 'd lheap \<Rightarrow> 'd list" where
  "adt_cont s = the (llist_travel (fst s) (snd s))"

definition lstack_push :: "addr \<times> 'd lheap \<Rightarrow> 'd \<Rightarrow> (int \<times> addr \<times> 'd lheap) option" where
  "lstack_push s d = do { (r, h) \<leftarrow> stack_push (fst s) d (snd s); Some (r, fst s, h) }"

definition lstack_pop :: "addr \<times> 'd lheap \<Rightarrow> 'd \<Rightarrow> (int \<times> 'd \<times> addr \<times> 'd lheap) option" where
  "lstack_pop s y = do { (r, out, h) \<leftarrow> stack_pop (fst s) (Some y) (snd s); x \<leftarrow> out; Some (r, x, fst s, h) }"

text \<open>
  \<open>queue_en\<close> loses the result code of the insertion; this client reads a 0 from it, which is right as
  long as memory does not run out.
\<close>

definition lqueue_en :: "addr \<times> 'd lheap \<Rightarrow> 'd \<Rightarrow> (int \<times> addr \<times> 'd lheap) option" where
  "lqueue_en s d = do { (r, h) \<leftarrow> queue_en 0 (fst s) d (snd s); Some (r, fst s, h) }"

definition lqueue_de :: "addr \<times> 'd lheap \<Rightarrow> 'd \<Rightarrow> (int \<times> 'd \<times> addr \<times> 'd lheap) option" where
  "lqueue_de s y = do { (r, out, h) \<leftarrow> queue_de (fst s) (Some y) (snd s); x \<leftarrow> out; Some (r, x, fst s, h) }"

lemma adt_cont_ring: "ring h ptr sz as ds \<Longrightarrow> adt_cont (ptr, h) = ds"
  by (simp add: adt_cont_def llist_travel_eq)

lemma fetch_oom: "llist_fetch ptr key cmp out h = Some (r, out', h') \<Longrightarrow> oom h' = oom h"
  by (auto simp: llist_fetch_def bind_eq_Some_conv split: if_splits dest!: modify_oom free_oom)

text \<open>Taking the first record, whatever it is.\<close>

lemma fetch_first:
  assumes "ring h ptr sz as ds" "\<forall>n. \<not> oom h n" "\<And>d. cmp () d = 0"
  shows "case ds of
      [] \<Rightarrow> llist_fetch ptr () cmp (Some y) h = Some (- 1, Some y, h)
    | d # ds' \<Rightarrow> \<exists>h'. llist_fetch ptr () cmp (Some y) h = Some (0, Some d, h') \<and> adt_ok (ptr, h')
        \<and> adt_cont (ptr, h') = ds'"
proof (cases ds)
  case Nil
  with llist_fetch_ring [OF assms(1), where cmp = cmp and key = "()" and out = "Some y"] show ?thesis by simp
next
  case (Cons d ds')
  with llist_fetch_ring [OF assms(1), where cmp = cmp and key = "()" and out = "Some y"] assms(3)
  obtain h' as' where h': "llist_fetch ptr () cmp (Some y) h = Some (0, Some d, h')" "ring h' ptr sz as' ds'"
    by auto
  with fetch_oom [OF h'(1)] assms(2) adt_cont_ring [OF h'(2)] Cons show ?thesis
    by (auto simp: adt_ok_def llist_ok_def)
qed

interpretation list_stack: stack_ops adt_ok "\<lambda>_. True" adt_cont lstack_push lstack_pop
proof (unfold_locales, goal_cases)
  case (1 s x)
  obtain ptr h where s: "s = (ptr, h)" by (cases s)
  from 1 s obtain sz as ds where r: "ring h ptr sz as ds" "\<forall>n. \<not> oom h n"
    by (auto simp: adt_ok_def llist_ok_def)
  then obtain h' as' where h': "llist_insert ptr x LLIST_FORWARD h = Some (0, h')" "ring h' ptr sz as' (x # ds)"
    "oom h' = (\<lambda>n. oom h (Suc n))"
    using llist_insert_ring [OF r(1), of x LLIST_FORWARD] by auto
  with r(2) adt_cont_ring [OF r(1)] adt_cont_ring [OF h'(2)] show ?case
    by (auto simp: s lstack_push_def stack_push_def adt_ok_def llist_ok_def)
next
  case (2 s x xs y)
  obtain ptr h where s: "s = (ptr, h)" by (cases s)
  from 2 s obtain sz as ds where r: "ring h ptr sz as ds" "\<forall>n. \<not> oom h n"
    by (auto simp: adt_ok_def llist_ok_def)
  with fetch_first [OF r, of always_match y] 2(2) adt_cont_ring [OF r(1)] show ?case
    by (auto simp: s lstack_pop_def stack_pop_def always_match_def)
next
  case (3 s y)
  obtain ptr h where s: "s = (ptr, h)" by (cases s)
  from 3 s obtain sz as ds where r: "ring h ptr sz as ds" "\<forall>n. \<not> oom h n"
    by (auto simp: adt_ok_def llist_ok_def)
  with fetch_first [OF r, of always_match y] 3(2) adt_cont_ring [OF r(1)] show ?case
    by (auto simp: s lstack_pop_def stack_pop_def always_match_def)
qed

interpretation list_queue: queue_ops adt_ok "\<lambda>_. True" adt_cont lqueue_en lqueue_de
proof (unfold_locales, goal_cases)
  case (1 s x)
  obtain ptr h where s: "s = (ptr, h)" by (cases s)
  from 1 s obtain sz as ds where r: "ring h ptr sz as ds" "\<forall>n. \<not> oom h n"
    by (auto simp: adt_ok_def llist_ok_def)
  then obtain h' as' where h': "llist_insert ptr x LLIST_BACKWARD h = Some (0, h')" "ring h' ptr sz as' (ds @ [x])"
    "oom h' = (\<lambda>n. oom h (Suc n))"
    using llist_insert_ring [OF r(1), of x LLIST_BACKWARD] by auto
  with r(2) adt_cont_ring [OF r(1)] adt_cont_ring [OF h'(2)] show ?case
    by (auto simp: s lqueue_en_def queue_en_def adt_ok_def llist_ok_def)
next
  case (2 s x xs y)
  obtain ptr h where s: "s = (ptr, h)" by (cases s)
  from 2 s obtain sz as ds where r: "ring h ptr sz as ds" "\<forall>n. \<not> oom h n"
    by (auto simp: adt_ok_def llist_ok_def)
  with fetch_first [OF r, of queue_always_match y] 2(2) adt_cont_ring [OF r(1)] show ?case
    by (auto simp: s lqueue_de_def queue_de_def queue_always_match_def)
next
  case (3 s y)
  obtain ptr h where s: "s = (ptr, h)" by (cases s)
  from 3 s obtain sz as ds where r: "ring h ptr sz as ds" "\<forall>n. \<not> oom h n"
    by (auto simp: adt_ok_def llist_ok_def)
  with fetch_first [OF r, of queue_always_match y] 3(2) adt_cont_ring [OF r(1)] show ?case
    by (auto simp: s lqueue_de_def queue_de_def queue_always_match_def)
qed

interpretation list_rqueue: reliable_queue adt_ok "\<lambda>_. True" adt_cont lqueue_en lqueue_de
  by unfold_locales (auto simp: lqueue_en_def queue_en_def bind_eq_Some_conv)

lemma llist_create_adt:
  fixes h :: "'d lheap"
  assumes "heap_ok h" "\<forall>n. \<not> oom h n"
  shows "\<exists>p h'. llist_create sz h = Some (p, h') \<and> p \<noteq> NULL \<and> adt_ok (p, h') \<and> adt_cont (p, h') = []"
proof -
  let ?v = "\<lparr>prev = NULL, nxt = NULL, con = Size 0\<rparr> :: 'd lcell"
  obtain p h1 where m: "malloc ?v h = (p, h1)" by fastforce
  have p: "p \<noteq> NULL" using m assms brk_pos [OF assms(1)] by (auto simp: malloc_def Let_def)
  note r = malloc_ok [OF m p assms(1)]
  have "mem h1 p = Some ?v" using r by simp
  from modify_ok [OF r(2) this, of "\<lambda>c. c\<lparr>con := Size sz\<rparr>"] obtain h2 where
    h2: "modify p (\<lambda>c. c\<lparr>con := Size sz\<rparr>) h1 = Some h2" "heap_ok h2" "mem h2 p = Some (?v\<lparr>con := Size sz\<rparr>)"
      "oom h2 = oom h1" by auto
  from modify_ok [OF h2(2,3), of "\<lambda>c. c\<lparr>prev := p\<rparr>"] obtain h3 where
    h3: "modify p (\<lambda>c. c\<lparr>prev := p\<rparr>) h2 = Some h3" "heap_ok h3" "mem h3 p = Some (?v\<lparr>con := Size sz, prev := p\<rparr>)"
      "oom h3 = oom h1" using h2(4) by auto
  from modify_ok [OF h3(2,3), of "\<lambda>c. c\<lparr>nxt := p\<rparr>"] obtain h4 where
    h4: "modify p (\<lambda>c. c\<lparr>nxt := p\<rparr>) h3 = Some h4" "oom h4 = oom h1" using h3(4) by auto
  have c: "llist_create sz h = Some (p, h4)" using m p h2 h3 h4 by (simp add: llist_create_def)
  moreover have "ring h4 p sz [] []" using llist_create_ring [OF assms(1) c] p by (simp split: if_splits)
  moreover from this have "adt_cont (p, h4) = []" by (rule adt_cont_ring)
  moreover have "\<forall>n. \<not> oom h4 n" using assms(2) r(6) h4(2) by simp
  ultimately show ?thesis using p by (auto simp: adt_ok_def llist_ok_def)
qed

section \<open>Correctness\<close>

lemma no_oom_adds:
  "adt_ok s \<Longrightarrow> \<exists>s'. adds lstack_push xs s = Some s' \<and> adt_ok s' \<and> adt_cont s' = rev xs @ adt_cont s"
proof (induction xs arbitrary: s)
  case (Cons x xs)
  obtain ptr h where s: "s = (ptr, h)" by (cases s)
  from Cons.prems s obtain sz as ds where r: "ring h ptr sz as ds" "\<not> oom h 0"
    by (auto simp: adt_ok_def llist_ok_def)
  then have "\<exists>h'. lstack_push s x = Some (0, ptr, h')"
    using llist_insert_ring [OF r(1), of x LLIST_FORWARD] by (auto simp: s lstack_push_def stack_push_def)
  then obtain s1 where s1: "lstack_push s x = Some (0, s1)" by auto
  with list_stack.push_law [OF Cons.prems, of x] have "adt_ok s1" "adt_cont s1 = x # adt_cont s" by auto
  with Cons.IH [of s1] s1 show ?case by auto
qed simp

lemma no_oom_enqs:
  "adt_ok s \<Longrightarrow> \<exists>s'. adds lqueue_en xs s = Some s' \<and> adt_ok s' \<and> adt_cont s' = adt_cont s @ xs"
proof (induction xs arbitrary: s)
  case (Cons x xs)
  obtain ptr h where s: "s = (ptr, h)" by (cases s)
  from Cons.prems s obtain sz as ds where r: "ring h ptr sz as ds"
    by (auto simp: adt_ok_def llist_ok_def)
  then have "\<exists>h'. lqueue_en s x = Some (0, ptr, h')"
    using llist_insert_ring [OF r(1), of x LLIST_BACKWARD] by (auto simp: s lqueue_en_def queue_en_def)
  then obtain s1 where s1: "lqueue_en s x = Some (0, s1)" by auto
  with list_queue.enq_law [OF Cons.prems, of x] have "adt_ok s1" "adt_cont s1 = adt_cont s @ [x]" by auto
  with Cons.IH [of s1] s1 show ?case by auto
qed simp

text \<open>C28: with memory available, the stack and the queue over the generic list keep the order their names
  promise, for any number of elements: what was pushed comes back in the opposite order on top of what was
  there, what was enqueued comes out in the same order after what was there, and taking from the empty one
  answers \<open>-1\<close> and leaves the output buffer alone.\<close>

lemma list_adt_order:
  assumes "adt_ok s"
  shows "(\<exists>s' s''. adds lstack_push xs s = Some s'
        \<and> takes lstack_pop (length xs) s' y = Some (rev xs, s'') \<and> adt_ok s'' \<and> adt_cont s'' = adt_cont s)
    \<and> (\<exists>s' s''. adds lqueue_en xs s = Some s'
        \<and> takes lqueue_de (length (adt_cont s) + length xs) s' y = Some (adt_cont s @ xs, s'')
        \<and> adt_ok s'' \<and> adt_cont s'' = [])
    \<and> (adt_cont s = [] \<longrightarrow> lstack_pop s y = Some (- 1, y, s) \<and> lqueue_de s y = Some (- 1, y, s))"
proof (intro conjI impI)
  obtain s' where s': "adds lstack_push xs s = Some s'" "adt_ok s'" "adt_cont s' = rev xs @ adt_cont s"
    using no_oom_adds [OF assms] by blast
  with list_stack.pops_cont [OF s'(2), of "length xs" y]
  show "\<exists>s' s''. adds lstack_push xs s = Some s'
      \<and> takes lstack_pop (length xs) s' y = Some (rev xs, s'') \<and> adt_ok s'' \<and> adt_cont s'' = adt_cont s"
    by auto
next
  obtain s' where s': "adds lqueue_en xs s = Some s'" "adt_ok s'" "adt_cont s' = adt_cont s @ xs"
    using no_oom_enqs [OF assms] by blast
  with list_queue.deqs_cont [OF s'(2), of "length (adt_cont s) + length xs" y]
  show "\<exists>s' s''. adds lqueue_en xs s = Some s'
      \<and> takes lqueue_de (length (adt_cont s) + length xs) s' y = Some (adt_cont s @ xs, s'')
      \<and> adt_ok s'' \<and> adt_cont s'' = []"
    by auto
next
  assume "adt_cont s = []"
  then show "lstack_pop s y = Some (- 1, y, s)" "lqueue_de s y = Some (- 1, y, s)"
    using list_stack.pop_nil [OF assms] list_queue.deq_nil [OF assms] by simp_all
qed

text \<open>A list that was created, filled and partly emptied in any way is given back completely:
  \<open>llist_destroy\<close> on a ring frees the head and every node, leaves every other cell of the heap as it was,
  and any later access through the pointer is undefined.\<close>

lemma llist_destroy_frees:
  assumes "ring h ptr sz as ds"
  shows "\<exists>h'. llist_destroy ptr h = Some h' \<and> (\<forall>a. mem h' a = (if a \<in> set (ptr # as) then None else mem h a))
    \<and> llist_travel ptr h' = None \<and> llist_insert ptr d mode h' = None \<and> llist_destroy ptr h' = None"
proof -
  obtain h' where h': "llist_destroy ptr h = Some h'" "heap_ok h'"
    "mem h' = (\<lambda>x. if x \<in> set (ptr # as) then None else mem h x)"
    using llist_destroy_ring [OF assms] by blast
  then have "load ptr h' = None" by (simp add: load_def)
  with h' show ?thesis
    by (auto simp: llist_travel_def llist_insert_def llist_destroy_def)
qed

section \<open>The copies of the library\<close>

text \<open>
  The functions of one \<open>llist.c\<close>. The files of the stack and of the queue are copies of \<open>lib2\<close>; those of
  \<open>lib4\<close> differ in that the handle is a \<open>void *\<close>, converted on entry to the same structure.
\<close>

record ('k, 'd) llist_lib =
  lib_create :: "int \<Rightarrow> 'd lheap \<Rightarrow> (addr \<times> 'd lheap) option"
  lib_insert :: "addr \<Rightarrow> 'd \<Rightarrow> int \<Rightarrow> 'd lheap \<Rightarrow> (int \<times> 'd lheap) option"
  lib_find :: "addr \<Rightarrow> 'k \<Rightarrow> ('k \<Rightarrow> 'd \<Rightarrow> int) \<Rightarrow> 'd lheap \<Rightarrow> addr option"
  lib_delete :: "addr \<Rightarrow> 'k \<Rightarrow> ('k \<Rightarrow> 'd \<Rightarrow> int) \<Rightarrow> 'd lheap \<Rightarrow> (int \<times> 'd lheap) option"
  lib_fetch :: "addr \<Rightarrow> 'k \<Rightarrow> ('k \<Rightarrow> 'd \<Rightarrow> int) \<Rightarrow> 'd option \<Rightarrow> 'd lheap \<Rightarrow> (int \<times> 'd option \<times> 'd lheap) option"
  lib_travel :: "addr \<Rightarrow> 'd lheap \<Rightarrow> 'd list option"
  lib_destroy :: "addr \<Rightarrow> 'd lheap \<Rightarrow> 'd lheap option"

definition stack_llist :: "('k, 'd) llist_lib" where
  "stack_llist = \<lparr>lib_create = llist_create, lib_insert = llist_insert, lib_find = llist_find,
     lib_delete = llist_delete, lib_fetch = llist_fetch, lib_travel = llist_travel, lib_destroy = llist_destroy\<rparr>"

definition queue_llist :: "('k, 'd) llist_lib" where
  "queue_llist = \<lparr>lib_create = llist_create, lib_insert = llist_insert, lib_find = llist_find,
     lib_delete = llist_delete, lib_fetch = llist_fetch, lib_travel = llist_travel, lib_destroy = llist_destroy\<rparr>"

definition lib4_llist :: "('k, 'd) llist_lib" where
  "lib4_llist = \<lparr>lib_create = llist_create, lib_insert = llist_insert, lib_find = llist_find,
     lib_delete = llist_delete, lib_fetch = llist_fetch, lib_travel = llist_travel, lib_destroy = llist_destroy\<rparr>"

text \<open>
  In \<open>lib3\<close> \<open>llist_create\<close> also stores the operations in the head structure, where the client finds them;
  the record of operations stands for these fields.
\<close>

definition lib3_llist :: "('k, 'd) llist_lib" where
  "lib3_llist = \<lparr>lib_create = llist_create, lib_insert = llist_insert, lib_find = llist_find,
     lib_delete = llist_delete, lib_fetch = llist_fetch, lib_travel = llist_travel, lib_destroy = llist_destroy\<rparr>"

definition lib3_create :: "int \<Rightarrow> 'd lheap \<Rightarrow> (addr \<times> ('k, 'd) llist_lib option \<times> 'd lheap) option" where
  "lib3_create initsize h = do {
     (new, h) \<leftarrow> lib_create (lib3_llist :: ('k, 'd) llist_lib) initsize h;
     Some (new, if new = NULL then None else Some lib3_llist, h) }"

section \<open>Concrete lists\<close>

lemma demo_create: "\<exists>h. llist_create 4 (empty_heap :: int lheap) = Some (1, h) \<and> ring h 1 4 [] []
    \<and> oom h = (\<lambda>_. False)"
  by (simp add: llist_create_def malloc_def empty_heap_def modify_def load_def store_def ring_def nx_def pv_def
      ct_def heap_ok_def)


lemma list_adt_order_witness:
  "\<exists>s s' s''. llist_create 4 (empty_heap :: int lheap) = Some s \<and> adds lstack_push [1, 2, 3] s = Some s'
    \<and> takes lstack_pop 3 s' 0 = Some ([3, 2, 1], s'')"
proof -
  obtain h where h: "llist_create 4 (empty_heap :: int lheap) = Some (1, h)" "ring h 1 4 [] []" "oom h = (\<lambda>_. False)"
    using demo_create by blast
  then have "adt_ok (1, h)" by (auto simp: adt_ok_def llist_ok_def)
  from list_adt_order [OF this, of "[1, 2, 3]" 0] h(1) show ?thesis
    by (auto simp: numeral_3_eq_3)
qed

lemma llist_destroy_frees_witness:
  "\<exists>h h'. llist_create 4 (empty_heap :: int lheap) = Some (1, h) \<and> llist_destroy 1 h = Some h' \<and> mem h' 1 = None"
proof -
  obtain h where h: "llist_create 4 (empty_heap :: int lheap) = Some (1, h)" "ring h 1 4 [] []"
    using demo_create by blast
  from llist_destroy_frees [OF h(2), of 0 0] h(1) show ?thesis by auto
qed

end
