(* ===== verification/LListData.thy ===== *)
theory LListData
  imports LList
begin

text \<open>
  The first version of the generic list, \<open>ds/line/list/linklist/double/lib1/llist.c\<close>: a node holds a pointer to
  its record, which has a block of its own. The nodes are the cells of \<open>LList\<close> with addresses for records,
  the records lie on a second heap. \<open>llist_insert\<close> makes two allocations and gives up the node when the second
  one fails. The lemmas reduce the search to that of \<open>LList\<close> and show the effect of the operations on the
  list of records.
\<close>

section \<open>Operations\<close>

type_synonym 'd dheaps = "addr lheap \<times> 'd heap"

definition d_create :: "int \<Rightarrow> 'd dheaps \<Rightarrow> (addr \<times> 'd dheaps) option" where
  "d_create initsize s = (case s of (h, g) \<Rightarrow>
     let (new, h) = malloc \<lparr>prev = NULL, nxt = NULL, con = Size 0\<rparr> h
     in if new = NULL then Some (NULL, h, g)
        else do {
          h \<leftarrow> modify new (\<lambda>c. c\<lparr>con := Size initsize\<rparr>) h;
          h \<leftarrow> modify new (\<lambda>c. c\<lparr>prev := new\<rparr>) h;
          h \<leftarrow> modify new (\<lambda>c. c\<lparr>nxt := new\<rparr>) h;
          Some (new, h, g) })"

text \<open>\<open>memcpy\<close> into the new block is part of its allocation.\<close>

definition d_insert :: "addr \<Rightarrow> 'd \<Rightarrow> int \<Rightarrow> 'd dheaps \<Rightarrow> (int \<times> 'd dheaps) option" where
  "d_insert ptr data mode s = (case s of (h, g) \<Rightarrow>
     let (newnode, h) = malloc \<lparr>prev = NULL, nxt = NULL, con = Data NULL\<rparr> h
     in if newnode = NULL then Some (- 1, h, g)
        else do {
          hd \<leftarrow> load ptr h;
          sz \<leftarrow> head_size hd;
          let (p, g) = malloc data g;
          h \<leftarrow> modify newnode (\<lambda>c. c\<lparr>con := Data p\<rparr>) h;
          if p = NULL then Some (- 2, h, g)
          else if mode = LLIST_FORWARD \<or> mode = LLIST_BACKWARD then do {
            hd \<leftarrow> load ptr h;
            h \<leftarrow> (if mode = LLIST_FORWARD
                  then modify newnode (\<lambda>c. c\<lparr>prev := ptr, nxt := nxt hd\<rparr>) h
                  else modify newnode (\<lambda>c. c\<lparr>prev := prev hd, nxt := ptr\<rparr>) h);
            new \<leftarrow> load newnode h;
            h \<leftarrow> modify (nxt new) (\<lambda>c. c\<lparr>prev := newnode\<rparr>) h;
            h \<leftarrow> modify (prev new) (\<lambda>c. c\<lparr>nxt := newnode\<rparr>) h;
            Some (0, h, g) }
          else Some (- 3, h, g) })"

partial_function (option) d_find_from ::
  "addr \<Rightarrow> 'k \<Rightarrow> ('k \<Rightarrow> 'd \<Rightarrow> int) \<Rightarrow> addr \<Rightarrow> 'd dheaps \<Rightarrow> addr option" where
  "d_find_from ptr key cmp cur s =
     (if cur \<noteq> ptr then
        Option.bind (load cur (fst s)) (\<lambda>c.
        Option.bind (node_data c) (\<lambda>p.
        Option.bind (load p (snd s)) (\<lambda>d.
        if cmp key d = 0 then Some cur else d_find_from ptr key cmp (nxt c) s)))
      else Some cur)"

definition d_find_node :: "addr \<Rightarrow> 'k \<Rightarrow> ('k \<Rightarrow> 'd \<Rightarrow> int) \<Rightarrow> 'd dheaps \<Rightarrow> addr option" where
  "d_find_node ptr key cmp s = do { hd \<leftarrow> load ptr (fst s); d_find_from ptr key cmp (nxt hd) s }"

text \<open>The \<open>data\<close> field; that of the head node is \<open>NULL\<close>.\<close>

fun data_field :: "addr lcell \<Rightarrow> addr" where
  "data_field c = (case con c of Data p \<Rightarrow> p | Size n \<Rightarrow> NULL)"

definition d_find :: "addr \<Rightarrow> 'k \<Rightarrow> ('k \<Rightarrow> 'd \<Rightarrow> int) \<Rightarrow> 'd dheaps \<Rightarrow> addr option" where
  "d_find ptr key cmp s = do {
     node \<leftarrow> d_find_node ptr key cmp s;
     c \<leftarrow> load node (fst s);
     Some (data_field c) }"

definition d_delete :: "addr \<Rightarrow> 'k \<Rightarrow> ('k \<Rightarrow> 'd \<Rightarrow> int) \<Rightarrow> 'd dheaps \<Rightarrow> (int \<times> 'd dheaps) option" where
  "d_delete ptr key cmp s = do {
     node \<leftarrow> d_find_node ptr key cmp s;
     if node = ptr then Some (- 1, s)
     else do {
       h \<leftarrow> unlink node (fst s);
       c \<leftarrow> load node h;
       g \<leftarrow> free (data_field c) (snd s);
       h \<leftarrow> free node h;
       Some (0, h, g) } }"

definition d_fetch ::
  "addr \<Rightarrow> 'k \<Rightarrow> ('k \<Rightarrow> 'd \<Rightarrow> int) \<Rightarrow> 'd option \<Rightarrow> 'd dheaps \<Rightarrow> (int \<times> 'd option \<times> 'd dheaps) option" where
  "d_fetch ptr key cmp data s = do {
     node \<leftarrow> d_find_node ptr key cmp s;
     if node = ptr then Some (- 1, data, s)
     else do {
       c \<leftarrow> load node (fst s);
       h \<leftarrow> modify (nxt c) (\<lambda>x. x\<lparr>prev := prev c\<rparr>) (fst s);
       c \<leftarrow> load node h;
       h \<leftarrow> modify (prev c) (\<lambda>x. x\<lparr>nxt := nxt c\<rparr>) h;
       c \<leftarrow> load node h;
       data \<leftarrow> (if data \<noteq> None then do { d \<leftarrow> load (data_field c) (snd s); Some (Some d) } else Some None);
       g \<leftarrow> free (data_field c) (snd s);
       h \<leftarrow> free node h;
       Some (0, data, h, g) } }"

partial_function (option) d_travel_from :: "addr \<Rightarrow> addr \<Rightarrow> 'd dheaps \<Rightarrow> 'd list option" where
  "d_travel_from ptr cur s =
     (if cur \<noteq> ptr then
        Option.bind (load cur (fst s)) (\<lambda>c.
        Option.bind (node_data c) (\<lambda>p.
        Option.bind (load p (snd s)) (\<lambda>d.
        Option.bind (d_travel_from ptr (nxt c) s) (\<lambda>ds. Some (d # ds)))))
      else Some [])"

definition d_travel :: "addr \<Rightarrow> 'd dheaps \<Rightarrow> 'd list option" where
  "d_travel ptr s = do { hd \<leftarrow> load ptr (fst s); d_travel_from ptr (nxt hd) s }"

partial_function (option) d_destroy_from :: "addr \<Rightarrow> addr \<Rightarrow> 'd dheaps \<Rightarrow> 'd dheaps option" where
  "d_destroy_from ptr cur s =
     (if cur \<noteq> ptr then
        Option.bind (load cur (fst s)) (\<lambda>c.
        Option.bind (free (data_field c) (snd s)) (\<lambda>g.
        Option.bind (free cur (fst s)) (\<lambda>h. d_destroy_from ptr (nxt c) (h, g))))
      else Some s)"

definition d_destroy :: "addr \<Rightarrow> 'd dheaps \<Rightarrow> 'd dheaps option" where
  "d_destroy ptr s = do {
     hd \<leftarrow> load ptr (fst s);
     (h, g) \<leftarrow> d_destroy_from ptr (nxt hd) s;
     h \<leftarrow> free ptr h;
     Some (h, g) }"

section \<open>The list\<close>

text \<open>\<open>ps\<close> are the addresses of the records \<open>ds\<close>.\<close>

definition dring :: "'d dheaps \<Rightarrow> addr \<Rightarrow> int \<Rightarrow> addr list \<Rightarrow> addr list \<Rightarrow> 'd list \<Rightarrow> bool" where
  "dring s ptr sz as ps ds \<longleftrightarrow> ring (fst s) ptr sz as ps \<and> heap_ok (snd s) \<and> distinct ps
     \<and> map (mem (snd s)) ps = map Some ds"

definition dlist :: "'d dheaps \<Rightarrow> addr \<Rightarrow> 'd list \<Rightarrow> bool" where
  "dlist s ptr ds \<longleftrightarrow> (\<exists>sz as ps. dring s ptr sz as ps ds)"

lemma d_find_from_eq:
  "heap_ok h \<Longrightarrow> heap_ok g \<Longrightarrow> ptr \<notin> set as \<Longrightarrow> chain (nx (mem h)) (as @ [ptr]) \<Longrightarrow>
   map (ct (mem h)) as = map (\<lambda>p. Some (Data p)) ps \<Longrightarrow> map (mem g) ps = map Some ds \<Longrightarrow>
   d_find_from ptr key cmp (hd (as @ [ptr])) (h, g)
     = find_from ptr key (\<lambda>k p. cmp k (the (mem g p))) (hd (as @ [ptr])) h
   \<and> d_travel_from ptr (hd (as @ [ptr])) (h, g) = Some ds"
proof (induction as arbitrary: ps ds)
  case Nil
  then show ?case by (simp add: d_find_from.simps find_from.simps d_travel_from.simps)
next
  case (Cons a as)
  then obtain p ps' where ps: "ps = p # ps'" "ct (mem h) a = Some (Data p)"
    "map (ct (mem h)) as = map (\<lambda>p. Some (Data p)) ps'" by (cases ps) auto
  with Cons.prems(6) obtain d ds' where ds: "ds = d # ds'" "mem g p = Some d" "map (mem g) ps' = map Some ds'"
    by (cases ds) auto
  from ps(2) obtain c where c: "mem h a = Some c" "con c = Data p" by (auto simp: ct_def)
  have ch: "chain (nx (mem h)) (as @ [ptr])" "nx (mem h) a = Some (hd (as @ [ptr]))"
    using Cons.prems(4) by (auto simp: chain_Cons)
  then have "nxt c = hd (as @ [ptr])" using c by (simp add: nx_def)
  with Cons.IH [OF Cons.prems(1,2) _ ch(1) ps(3) ds(3)] Cons.prems(1-3) c ds(1,2) show ?case
    by (simp add: d_find_from.simps [of ptr key cmp a] find_from.simps [of ptr key _ a] d_travel_from.simps [of ptr a])
qed

lemma d_find_node_eq:
  assumes "dring (h, g) ptr sz as ps ds"
  shows "d_find_node ptr key cmp (h, g) = find_node ptr key (\<lambda>k p. cmp k (the (mem g p))) h"
    and "d_travel ptr (h, g) = Some ds"
proof -
  have r: "ring h ptr sz as ps" "heap_ok g" "map (mem g) ps = map Some ds" using assms by (auto simp: dring_def)
  obtain c where "mem h ptr = Some c" "nxt c = hd (as @ [ptr])" by (rule ring_head [OF r(1)])
  moreover have "heap_ok h" "ptr \<notin> set as" "chain (nx (mem h)) (as @ [ptr])"
      "map (ct (mem h)) as = map (\<lambda>p. Some (Data p)) ps" using r(1) by (auto simp: ring_def chain_Cons)
  ultimately show "d_find_node ptr key cmp (h, g) = find_node ptr key (\<lambda>k p. cmp k (the (mem g p))) h"
    "d_travel ptr (h, g) = Some ds"
    using d_find_from_eq [of h g ptr as ps ds key cmp] r(2,3)
    by (simp_all add: d_find_node_def find_node_def d_travel_def)
qed

text \<open>The search stops at the head, or at the node of the first matching record.\<close>

lemma d_find_node_cases:
  assumes "dring (h, g) ptr sz as ps ds"
  obtains (none) "\<forall>d \<in> set ds. cmp key d \<noteq> 0" "d_find_node ptr key cmp (h, g) = Some ptr"
  | (some) as1 n as2 ps1 p ps2 ds1 d ds2 where "as = as1 @ n # as2" "ps = ps1 @ p # ps2" "ds = ds1 @ d # ds2"
      "length as1 = length ps1" "length ps1 = length ds1" "mem g p = Some d"
      "cmp key d = 0" "\<forall>d \<in> set ds1. cmp key d \<noteq> 0" "d_find_node ptr key cmp (h, g) = Some n" "n \<noteq> ptr"
proof -
  have r: "ring h ptr sz as ps" "map (mem g) ps = map Some ds" using assms by (auto simp: dring_def)
  have m: "set ds = (\<lambda>p. the (mem g p)) ` set ps"
    using arg_cong [OF r(2), of "\<lambda>xs. set (map the xs)"] by (simp add: image_image)
  show ?thesis
    using r(1)
  proof (cases rule: find_node_cases [where cmp = "\<lambda>k p. cmp k (the (mem g p))" and key = key])
    case none
    then show ?thesis using that(1) d_find_node_eq(1) [OF assms, of key cmp] m by auto
  next
    case (some as1 n as2 ps1 p ps2)
    obtain ds1 d ds2 where ds: "ds = ds1 @ d # ds2" "map (mem g) ps1 = map Some ds1" "mem g p = Some d"
      using r(2) some(2) by (auto simp: map_eq_append_conv map_eq_Cons_conv append_eq_map_conv Cons_eq_map_conv)
    have "length ps1 = length ds1" using ds(2) by (metis length_map)
    moreover have "set ds1 = (\<lambda>p. the (mem g p)) ` set ps1"
      using arg_cong [OF ds(2), of "\<lambda>xs. set (map the xs)"] by (simp add: image_image)
    then have "\<forall>d \<in> set ds1. cmp key d \<noteq> 0" using some(5) by auto
    ultimately show ?thesis
      using that(2) [OF some(1,2) ds(1) some(3)] ds(3) some(4,6,7) d_find_node_eq(1) [OF assms, of key cmp] by simp
  qed
qed

section \<open>The operations\<close>

lemma dring_frame:
  assumes "dring (h, g) ptr sz as ps ds" "heap_ok h'" "\<And>x. x \<in> set (ptr # as) \<Longrightarrow> mem h' x = mem h x"
    and "heap_ok g'" "\<And>p. p \<in> set ps \<Longrightarrow> mem g' p = mem g p"
  shows "dring (h', g') ptr sz as ps ds"
proof -
  have r: "ring h ptr sz as ps" "distinct ps" "map (mem g) ps = map Some ds"
    using assms(1) by (simp_all only: dring_def fst_conv snd_conv)
  have "map (mem g') ps = map (mem g) ps" using assms(5) by simp
  then have "map (mem g') ps = map Some ds" unfolding r(3) .
  moreover have "ring h' ptr sz as ps" by (rule ring_frame [OF r(1) assms(2,3)])
  ultimately show ?thesis using r(2) assms(4) by (simp only: dring_def fst_conv snd_conv simp_thms)
qed

lemma dring_live:
  assumes "dring (h, g) ptr sz as ps ds" "p \<in> set ps"
  shows "mem g p \<noteq> None"
proof -
  have "mem g p \<in> set (map (mem g) ps)" using assms(2) by simp
  also have "\<dots> = set (map Some ds)" using assms(1) by (simp only: dring_def snd_conv)
  finally show ?thesis by auto
qed

lemma d_insert_list:
  assumes "dring (h, g) ptr sz as ps ds"
  shows "\<exists>r s. d_insert ptr d mode (h, g) = Some (r, s) \<and>
    (if oom h 0 then r = - 1 \<and> dlist s ptr ds
     else if oom g 0 then r = - 2 \<and> dlist s ptr ds \<and> mem (fst s) (brk h) \<noteq> None
     else if mode = LLIST_FORWARD then r = 0 \<and> dlist s ptr (d # ds)
     else if mode = LLIST_BACKWARD then r = 0 \<and> dlist s ptr (ds @ [d])
     else r = - 3 \<and> dlist s ptr ds)"
proof -
  have ring: "ring h ptr sz as ps" and g: "heap_ok g" "distinct ps" "map (mem g) ps = map Some ds"
    using assms by (simp_all add: dring_def)
  obtain c where c: "mem h ptr = Some c" "con c = Size sz" "nxt c = hd (as @ [ptr])" "prev c = last (ptr # as)"
    by (rule ring_head [OF ring])
  have ok: "heap_ok h" using ring by (simp add: ring_def)
  obtain n h1 where m: "malloc \<lparr>prev = NULL, nxt = NULL, con = Data NULL\<rparr> h = (n, h1)" by fastforce
  show ?thesis
  proof (cases "n = NULL")
    case True
    note r = malloc_null [OF m [unfolded True] ok]
    have "dring (h1, g) ptr sz as ps ds" by (rule dring_frame [OF assms r(2) _ g(1)]) (simp_all add: r(3))
    then show ?thesis using m True r(1) by (auto simp: d_insert_def dlist_def)
  next
    case False
    note r = malloc_ok [OF m False ok]
    have new: "mem h n = None" using brk_fresh [OF ok] r(1) by simp
    have nin: "n \<notin> set (ptr # as)" using ring_dom [OF ring] new by blast
    obtain p g1 where p: "malloc d g = (p, g1)" by fastforce
    obtain h2 where h2: "modify n (\<lambda>c. c\<lparr>con := Data p\<rparr>) h1 = Some h2" "heap_ok h2"
      "mem h2 = (mem h)(n \<mapsto> \<lparr>prev = NULL, nxt = NULL, con = Data p\<rparr>)"
      using modify_ok [OF r(2), of n _ "\<lambda>c. c\<lparr>con := Data p\<rparr>"] r(1,3) by fastforce
    have ld: "load ptr h1 = Some c" "head_size c = Some sz" "load ptr h2 = Some c"
      using r(1-3) h2(2,3) c(1,2) nin by auto
    show ?thesis
    proof (cases "p = NULL")
      case True
      note q = malloc_null [OF p [unfolded True] g(1)]
      have "dring (h2, g1) ptr sz as ps ds"
        by (rule dring_frame [OF assms h2(2) _ q(2)]) (use nin h2(3) q(3) in auto)
      then show ?thesis using m False p True ld h2(1,3) r(1,5) q(1) by (auto simp: d_insert_def dlist_def)
    next
      case pn: False
      note q = malloc_ok [OF p pn g(1)]
      have pin: "p \<notin> set ps" using dring_live [OF assms] brk_fresh [OF g(1)] q(1) by blast
      have recs: "map (mem g1) ps = map Some ds" "mem g1 p = Some d"
        using g(3) pin q(1,3) by (simp_all add: map_idI)
      have build: "dring (h', g1) ptr sz as' (ps1 @ p # ps2) (ds1 @ d # ds2)"
        if "ring h' ptr sz as' (ps1 @ p # ps2)" "ps = ps1 @ ps2" "ds = ds1 @ ds2" "length ps1 = length ds1"
        for h' as' ps1 ps2 ds1 ds2
        using that recs pin g(2) q(2) by (auto simp: dring_def)
      have lens: "length ps = length ds" using g(3) by (metis length_map)
      note lenp = ring_length [OF ring]
      consider "mode = LLIST_FORWARD" | "mode = LLIST_BACKWARD" | "mode \<noteq> LLIST_FORWARD" "mode \<noteq> LLIST_BACKWARD"
        by blast
      then show ?thesis
      proof cases
        case 1
        obtain h3 where h3: "modify n (\<lambda>x. x\<lparr>prev := ptr, nxt := nxt c\<rparr>) h2 = Some h3" "heap_ok h3"
          "mem h3 = (mem h)(n \<mapsto> \<lparr>prev = ptr, nxt = hd (as @ [ptr]), con = Data p\<rparr>)"
          using modify_ok [OF h2(2), of n _ "\<lambda>x. x\<lparr>prev := ptr, nxt := nxt c\<rparr>"] h2(3) c(3) by fastforce
        obtain h' where h': "do { new \<leftarrow> load n h3; g \<leftarrow> modify (nxt new) (\<lambda>c. c\<lparr>prev := n\<rparr>) h3;
            modify (prev new) (\<lambda>c. c\<lparr>nxt := n\<rparr>) g } = Some h'" "ring h' ptr sz ([] @ n # as) ([] @ p # ps)"
          using ring_link [of h ptr sz "[]" as "[]" ps n h3 p] ring new h3(2,3) by auto
        have "dlist (h', g1) ptr (d # ds)" using build [OF h'(2), of "[]" ds] by (auto simp: dlist_def)
        moreover have "d_insert ptr d mode (h, g) = Some (0, h', g1)"
          using 1 m False p pn ld h2(1) h3(1) h'(1) by (auto simp: d_insert_def bind_eq_Some_conv)
        ultimately show ?thesis using 1 r(5) q(5) by (intro exI conjI) auto
      next
        case 2
        obtain h3 where h3: "modify n (\<lambda>x. x\<lparr>prev := prev c, nxt := ptr\<rparr>) h2 = Some h3" "heap_ok h3"
          "mem h3 = (mem h)(n \<mapsto> \<lparr>prev = last (ptr # as), nxt = ptr, con = Data p\<rparr>)"
          using modify_ok [OF h2(2), of n _ "\<lambda>x. x\<lparr>prev := prev c, nxt := ptr\<rparr>"] h2(3) c(4) by fastforce
        obtain h' where h': "do { new \<leftarrow> load n h3; g \<leftarrow> modify (nxt new) (\<lambda>c. c\<lparr>prev := n\<rparr>) h3;
            modify (prev new) (\<lambda>c. c\<lparr>nxt := n\<rparr>) g } = Some h'" "ring h' ptr sz (as @ [n]) (ps @ [p])"
          using ring_link [of h ptr sz as "[]" ps "[]" n h3 p] ring new h3(2,3) lenp by auto
        have "dlist (h', g1) ptr (ds @ [d])" using build [OF h'(2), of ds "[]"] lens by (auto simp: dlist_def)
        moreover have "d_insert ptr d mode (h, g) = Some (0, h', g1)"
          using 2 m False p pn ld h2(1) h3(1) h'(1) by (auto simp: d_insert_def bind_eq_Some_conv)
        ultimately show ?thesis using 2 r(5) q(5) by (intro exI conjI) auto
      next
        case 3
        have "dring (h2, g1) ptr sz as ps ds"
          by (rule dring_frame [OF assms h2(2) _ q(2)]) (use nin h2(3) pin q(1,3) in auto)
        moreover have "d_insert ptr d mode (h, g) = Some (- 3, h2, g1)"
          using 3 m False p pn ld h2(1) by (simp add: d_insert_def)
        ultimately show ?thesis using 3 r(5) q(5) by (intro exI conjI) (auto simp: dlist_def)
      qed
    qed
  qed
qed

text \<open>Taking a record out.\<close>

lemma dring_cut:
  assumes "dring (h, g) ptr sz (as1 @ n # as2) (ps1 @ p # ps2) (ds1 @ d # ds2)" "length ps1 = length ds1"
    and "ring h' ptr sz (as1 @ as2) (ps1 @ ps2)"
  shows "\<exists>g'. free p g = Some g' \<and> dring (h', g') ptr sz (as1 @ as2) (ps1 @ ps2) (ds1 @ ds2) \<and> load p g = Some d"
proof -
  have g: "heap_ok g" "distinct (ps1 @ p # ps2)" "map (mem g) (ps1 @ p # ps2) = map Some (ds1 @ d # ds2)"
    using assms(1) by (simp_all only: dring_def snd_conv)
  have m: "map (mem g) ps1 = map Some ds1" "mem g p = Some d" "map (mem g) ps2 = map Some ds2"
    using g(3) assms(2) by (simp_all add: append_eq_append_conv)
  let ?g = "g\<lparr>mem := (mem g)(p := None)\<rparr>"
  have "map (mem ?g) ps1 = map (mem g) ps1" "map (mem ?g) ps2 = map (mem g) ps2" using g(2) by auto
  then have "map (mem ?g) (ps1 @ ps2) = map Some (ds1 @ ds2)" unfolding map_append m by simp
  moreover have "free p g = Some ?g" "load p g = Some d" "heap_ok ?g" using g(1) m(2) by simp_all
  ultimately show ?thesis using assms(3) g(2) by (intro exI [of _ ?g]) (simp add: dring_def)
qed

lemma d_lookup_list:
  assumes "dring (h, g) ptr sz as ps ds"
  shows "case List.find (\<lambda>d. cmp key d = 0) ds of
      None \<Rightarrow> d_delete ptr key cmp (h, g) = Some (- 1, h, g) \<and> d_fetch ptr key cmp buf (h, g) = Some (- 1, buf, h, g)
        \<and> d_find ptr key cmp (h, g) = Some NULL
    | Some d \<Rightarrow> (\<exists>s. d_delete ptr key cmp (h, g) = Some (0, s) \<and> dlist s ptr (remove_first (\<lambda>d. cmp key d = 0) ds))
        \<and> (\<exists>s. d_fetch ptr key cmp buf (h, g) = Some (0, map_option (\<lambda>_. d) buf, s)
            \<and> dlist s ptr (remove_first (\<lambda>d. cmp key d = 0) ds))
        \<and> (\<exists>p. d_find ptr key cmp (h, g) = Some p \<and> mem g p = Some d)"
proof -
  have ring: "ring h ptr sz as ps" using assms by (simp add: dring_def)
  obtain c0 where c0: "mem h ptr = Some c0" "con c0 = Size sz" by (rule ring_head [OF ring])
  have ok: "heap_ok h" using ring by (simp add: ring_def)
  show ?thesis
    using assms
  proof (cases rule: d_find_node_cases [where cmp = cmp and key = key])
    case none
    then show ?thesis using c0 ok by (simp add: find_none d_delete_def d_fetch_def d_find_def)
  next
    case (some as1 n as2 ps1 p ps2 ds1 d ds2)
    have R: "ring h ptr sz (as1 @ n # as2) (ps1 @ p # ps2)" using ring some(1,2) by simp
    obtain h1 c h' where u: "unlink n h = Some h1" "load n h1 = Some c" "node_data c = Some p" "free n h1 = Some h'"
      "ring h' ptr sz (as1 @ as2) (ps1 @ ps2)" using ring_unlink_data [OF R some(4)] by blast
    have D: "dring (h, g) ptr sz (as1 @ n # as2) (ps1 @ p # ps2) (ds1 @ d # ds2)" using assms some(1-3) by simp
    obtain g' where g': "free p g = Some g'" "dring (h', g') ptr sz (as1 @ as2) (ps1 @ ps2) (ds1 @ ds2)" "load p g = Some d"
      using dring_cut [OF D some(5) u(5)] by blast
    have df: "data_field c = p" using u(3) by (simp split: content.splits)
    have rm: "remove_first (\<lambda>d. cmp key d = 0) ds = ds1 @ ds2" "List.find (\<lambda>d. cmp key d = 0) ds = Some d"
      unfolding some(3) using remove_first_append [OF some(8,7)] find_append [OF some(8,7)] by simp_all
    have "d_delete ptr key cmp (h, g) = Some (0, h', g')"
      using some(9,10) u(1,2,4) df g'(1) by (simp add: d_delete_def del: data_field.simps)
    moreover obtain c' h2 h3 h4 where b: "load n h = Some c'" "modify (nxt c') (\<lambda>x. x\<lparr>prev := prev c'\<rparr>) h = Some h2"
      "load n h2 = Some c'" "modify (prev c') (\<lambda>x. x\<lparr>nxt := nxt c'\<rparr>) h2 = Some h3" "load n h3 = Some c'" "free n h3 = Some h4"
      "node_data c' = Some p" "ring h4 ptr sz (as1 @ as2) (ps1 @ ps2)"
      using ring_unlink_back [OF R some(4)] by blast
    obtain g2 where g2: "free p g = Some g2" "dring (h4, g2) ptr sz (as1 @ as2) (ps1 @ ps2) (ds1 @ ds2)"
      using dring_cut [OF D some(5) b(8)] by blast
    have df': "data_field c' = p" using b(7) by (simp split: content.splits)
    moreover have "d_fetch ptr key cmp buf (h, g) = Some (0, map_option (\<lambda>_. d) buf, h4, g2)"
      using some(9,10) b(1-6) g2(1) g'(3) df' by (cases buf) (simp_all add: d_fetch_def del: data_field.simps)
    moreover have "d_find ptr key cmp (h, g) = Some p"
      using some(9) b(1) df' by (simp add: d_find_def del: data_field.simps)
    ultimately show ?thesis using rm g'(2) g2(2) some(6) by (auto simp: dlist_def)
  qed
qed

lemma d_destroy_from_eq:
  "heap_ok h \<Longrightarrow> heap_ok g \<Longrightarrow> distinct (ptr # as) \<Longrightarrow> distinct ps \<Longrightarrow> chain (nx (mem h)) (as @ [ptr]) \<Longrightarrow>
   map (ct (mem h)) as = map (\<lambda>p. Some (Data p)) ps \<Longrightarrow> \<forall>p \<in> set ps. mem g p \<noteq> None \<Longrightarrow>
   \<exists>h' g'. d_destroy_from ptr (hd (as @ [ptr])) (h, g) = Some (h', g') \<and> heap_ok h' \<and> heap_ok g'
     \<and> mem h' = mem h |` (- set as) \<and> mem g' = mem g |` (- set ps)"
proof (induction as arbitrary: ps h g)
  case Nil
  then show ?case by (simp add: d_destroy_from.simps restrict_map_def)
next
  case (Cons a as)
  from Cons.prems(6) obtain p ps' where ps: "ps = p # ps'" "ct (mem h) a = Some (Data p)"
    "map (ct (mem h)) as = map (\<lambda>p. Some (Data p)) ps'" by (cases ps) auto
  then obtain c where c: "mem h a = Some c" "con c = Data p" by (auto simp: ct_def)
  obtain d where d: "mem g p = Some d" using Cons.prems(7) ps(1) by auto
  have ch: "chain (nx (mem h)) (as @ [ptr])" "nx (mem h) a = Some (hd (as @ [ptr]))"
    using Cons.prems(5) by (auto simp: chain_Cons)
  have nc: "nxt c = hd (as @ [ptr])" using ch c by (simp add: nx_def)
  let ?h = "h\<lparr>mem := (mem h)(a := None)\<rparr>" and ?g = "g\<lparr>mem := (mem g)(p := None)\<rparr>"
  have a: "a \<notin> set as" "a \<noteq> ptr" "p \<notin> set ps'" "distinct (ptr # as)" "distinct ps'"
    using Cons.prems(3,4) ps(1) by auto
  have "chain (nx (mem ?h)) (as @ [ptr])"
    by (rule chain_frame [OF ch(1)]) (use a in \<open>auto simp: nx_def butlast_append\<close>)
  moreover have "map (ct (mem ?h)) as = map (ct (mem h)) as" using a(1) by (auto simp: ct_def)
  moreover have "\<forall>p \<in> set ps'. mem ?g p \<noteq> None" using Cons.prems(7) ps(1) a(3) by auto
  ultimately obtain h' g' where IH: "d_destroy_from ptr (hd (as @ [ptr])) (?h, ?g) = Some (h', g')" "heap_ok h'" "heap_ok g'"
    "mem h' = mem ?h |` (- set as)" "mem g' = mem ?g |` (- set ps')"
    using Cons.IH [of ?h ?g ps'] a(4,5) ps(3) Cons.prems(1,2) by fastforce
  have "d_destroy_from ptr (hd ((a # as) @ [ptr])) (h, g) = Some (h', g')"
    using IH(1) c d a(2) nc Cons.prems(1,2) by (simp add: d_destroy_from.simps [of ptr a])
  with IH(2-5) ps(1) show ?case by (auto simp: restrict_map_def fun_eq_iff)
qed

lemma d_destroy_list:
  assumes "dring (h, g) ptr sz as ps ds"
  shows "\<exists>h' g'. d_destroy ptr (h, g) = Some (h', g')
    \<and> mem h' = mem h |` (- set (ptr # as)) \<and> mem g' = mem g |` (- set ps)"
proof -
  have r: "ring h ptr sz as ps" "heap_ok g" "distinct ps" using assms by (simp_all add: dring_def)
  obtain c where c: "mem h ptr = Some c" "nxt c = hd (as @ [ptr])" by (rule ring_head [OF r(1)])
  have "heap_ok h" "distinct (ptr # as)" "chain (nx (mem h)) (as @ [ptr])"
    "map (ct (mem h)) as = map (\<lambda>p. Some (Data p)) ps" using r(1) by (auto simp: ring_def chain_Cons)
  moreover have "\<forall>p \<in> set ps. mem g p \<noteq> None" using dring_live [OF assms] by blast
  ultimately obtain h' g' where d: "d_destroy_from ptr (hd (as @ [ptr])) (h, g) = Some (h', g')" "heap_ok h'"
    "mem h' = mem h |` (- set as)" "mem g' = mem g |` (- set ps)"
    using d_destroy_from_eq [of h g ptr as ps] r(2,3) by blast
  have "mem h' ptr = Some c" using d(3) c(1) \<open>distinct (ptr # as)\<close> by simp
  with d c \<open>heap_ok h\<close> show ?thesis by (auto simp: d_destroy_def restrict_map_def fun_eq_iff)
qed

section \<open>The contract\<close>

lemma d_create_list:
  assumes "heap_ok h" "heap_ok g" "d_create n (h, g) = Some (p, s)" "p \<noteq> NULL"
  shows "dlist s p []"
proof -
  obtain q h1 where m: "malloc \<lparr>prev = NULL, nxt = NULL, con = Size 0\<rparr> h = (q, h1)" by fastforce
  have q: "q \<noteq> NULL" using assms(3,4) m by (auto simp: d_create_def split: if_splits)
  note r = malloc_ok [OF m q assms(1)]
  have "llist_create n h = Some (p, fst s)" "snd s = g"
    using assms(3) m q by (auto simp: d_create_def llist_create_def bind_eq_Some_conv)
  then have "ring (fst s) p n [] []" using llist_create_ring [OF assms(1), of n p "fst s"] assms(4) by (auto split: if_splits)
  with \<open>snd s = g\<close> assms(2) show ?thesis by (auto simp: dlist_def dring_def)
qed

text \<open>The first version of the generic list. On a list of records \<open>ds\<close>, \<open>llist_insert\<close> answers -1 when there
  is no memory for the node, -2 when there is none for the record, -3 for an unknown mode, all without
  changing the list (in the last two cases the node is allocated and lost), and otherwise puts the record in
  front or at the back; delete, fetch and find work on the first record with the key, or answer -1, -1 and
  \<open>NULL\<close>; traversing calls the function on the records in order; destroying frees all nodes and records.\<close>
theorem d_contract:
  assumes "dring (h, g) ptr sz as ps ds"
  shows "(\<exists>r s. d_insert ptr d mode (h, g) = Some (r, s) \<and>
      (if oom h 0 then r = - 1 \<and> dlist s ptr ds
       else if oom g 0 then r = - 2 \<and> dlist s ptr ds \<and> mem (fst s) (brk h) \<noteq> None
       else if mode = LLIST_FORWARD then r = 0 \<and> dlist s ptr (d # ds)
       else if mode = LLIST_BACKWARD then r = 0 \<and> dlist s ptr (ds @ [d])
       else r = - 3 \<and> dlist s ptr ds))
    \<and> (case List.find (\<lambda>d. cmp key d = 0) ds of
      None \<Rightarrow> d_delete ptr key cmp (h, g) = Some (- 1, h, g) \<and> d_fetch ptr key cmp buf (h, g) = Some (- 1, buf, h, g)
        \<and> d_find ptr key cmp (h, g) = Some NULL
    | Some d \<Rightarrow> (\<exists>s. d_delete ptr key cmp (h, g) = Some (0, s) \<and> dlist s ptr (remove_first (\<lambda>d. cmp key d = 0) ds))
        \<and> (\<exists>s. d_fetch ptr key cmp buf (h, g) = Some (0, map_option (\<lambda>_. d) buf, s)
            \<and> dlist s ptr (remove_first (\<lambda>d. cmp key d = 0) ds))
        \<and> (\<exists>p. d_find ptr key cmp (h, g) = Some p \<and> mem g p = Some d))
    \<and> d_travel ptr (h, g) = Some ds
    \<and> (\<exists>h' g'. d_destroy ptr (h, g) = Some (h', g')
        \<and> mem h' = mem h |` (- set (ptr # as)) \<and> mem g' = mem g |` (- set ps))"
  by (intro conjI d_insert_list [OF assms] d_lookup_list [OF assms] d_find_node_eq(2) [OF assms] d_destroy_list [OF assms])

lemma d_contract_witness:
  "\<exists>s ptr h g. d_create 4 (empty_heap, empty_heap) = Some (ptr, h, g) \<and> d_insert ptr (7::nat) LLIST_BACKWARD (h, g) = Some (0, s)
    \<and> dlist s ptr [7]"
proof -
  have c: "d_create 4 (empty_heap, empty_heap :: nat heap) =
      Some (1, \<lparr>mem = [1 \<mapsto> \<lparr>prev = 1, nxt = 1, con = Size 4\<rparr>], brk = 2, oom = \<lambda>_. False\<rparr>, empty_heap)"
    by (simp add: d_create_def malloc_def empty_heap_def modify_def load_def store_def)
  let ?h = "\<lparr>mem = [1 \<mapsto> \<lparr>prev = 1, nxt = 1, con = Size 4\<rparr>], brk = 2, oom = \<lambda>_. False\<rparr> :: addr lheap"
  have "dring (?h, empty_heap :: nat heap) 1 4 [] [] []"
    by (auto simp: dring_def ring_def heap_ok_def nx_def pv_def ct_def empty_heap_def)
  from d_contract [OF this, THEN conjunct1, of 7 LLIST_BACKWARD]
  obtain r s where "d_insert 1 (7::nat) LLIST_BACKWARD (?h, empty_heap) = Some (r, s)" "r = 0" "dlist s 1 [7]"
    by (auto simp: empty_heap_def)
  with c show ?thesis by auto
qed

end
