(* ===== verification/SList.thy ===== *)
theory SList
  imports CHeap
begin

text \<open>
  The singly linked list with a head node (\<open>ds/line/list/linklist/simple/head/list.c\<close>) over the heap
  of \<open>CHeap\<close>, and the node type and path lemmas that the other singly linked programs share. A list
  with contents \<open>ds\<close> is a path of nodes from the head node to \<open>NULL\<close> (\<open>slist\<close>). The lemmas show the
  effect of every operation on the contents for every argument, including those for which
  \<open>list_delete_at\<close> dereferences \<open>NULL\<close>.
\<close>

section \<open>Nodes and paths\<close>

record 'd node =
  ndata :: 'd
  nnext :: addr

type_synonym 'd nheap = "'d node heap"

text \<open>
  \<open>path m p xs q\<close>: following \<open>next\<close> from \<open>p\<close> visits the nodes \<open>xs\<close> (address and data) and arrives
  at \<open>q\<close>.
\<close>

fun path :: "(addr \<Rightarrow> 'd node option) \<Rightarrow> addr \<Rightarrow> (addr \<times> 'd) list \<Rightarrow> addr \<Rightarrow> bool" where
  "path m p [] q \<longleftrightarrow> p = q"
| "path m p ((a, d) # xs) q \<longleftrightarrow> p = a \<and>
     (case m a of None \<Rightarrow> False | Some c \<Rightarrow> ndata c = d \<and> path m (nnext c) xs q)"

lemma path_Cons: "path m p (x # xs) q \<longleftrightarrow>
    p = fst x \<and> (\<exists>r. m p = Some \<lparr>ndata = snd x, nnext = r\<rparr> \<and> path m r xs q)"
proof (cases x)
  case (Pair a d)
  show ?thesis
  proof
    assume l: "path m p (x # xs) q"
    then obtain c where "m a = Some c" "ndata c = d" "path m (nnext c) xs q"
      by (auto simp: Pair split: option.splits)
    then show "p = fst x \<and> (\<exists>r. m p = Some \<lparr>ndata = snd x, nnext = r\<rparr> \<and> path m r xs q)"
      using l by (cases c) (auto simp: Pair)
  qed (auto simp: Pair)
qed

declare path.simps(2) [simp del]

lemma path_append: "path m p (xs @ ys) q \<longleftrightarrow> (\<exists>r. path m p xs r \<and> path m r ys q)"
  by (induction xs arbitrary: p) (auto simp: path_Cons)

lemma path_frame [simp]: "a \<notin> fst ` set xs \<Longrightarrow> path (m(a := v)) p xs q = path m p xs q"
  by (induction xs arbitrary: p) (auto simp: path_Cons)

lemma path_first: "path m p (x # xs) q \<Longrightarrow> p = fst x"
  by (simp add: path_Cons)

lemma path_last: "path m p (x # xs) q \<Longrightarrow>
    m (fst (last (x # xs))) = Some \<lparr>ndata = snd (last (x # xs)), nnext = q\<rparr>"
  by (induction xs arbitrary: p x) (auto simp: path_Cons)

lemma path_live: "path m p xs q \<Longrightarrow> a \<in> fst ` set xs \<Longrightarrow> m a \<noteq> None"
  by (induction xs arbitrary: p) (auto simp: path_Cons)

lemma path_pos: "heap_ok h \<Longrightarrow> path (mem h) p (x # xs) q \<Longrightarrow> 0 < p"
  by (auto simp: path_Cons heap_ok_def)

lemma path_NULL_iff:
  assumes "heap_ok h" "path (mem h) p xs NULL"
  shows "p = NULL \<longleftrightarrow> xs = []"
  using assms path_pos [OF assms(1)] by (cases xs) auto

lemma path_fresh: "heap_ok h \<Longrightarrow> path (mem h) p xs q \<Longrightarrow> brk h \<notin> fst ` set xs"
  using path_live [where m = "mem h" and p = p and xs = xs and q = q and a = "brk h"] brk_fresh [of h] by auto

text \<open>Linking a node \<open>n\<close> behind \<open>a\<close>, and unlinking the node behind \<open>a\<close>.\<close>

lemma path_insert:
  assumes "path m p (ys @ (a, d) # zs) q" "distinct (map fst (ys @ (a, d) # zs))"
    and "n \<notin> fst ` set (ys @ (a, d) # zs)" "m a = Some c"
  shows "path (m(n \<mapsto> \<lparr>ndata = x, nnext = nnext c\<rparr>, a \<mapsto> c\<lparr>nnext := n\<rparr>)) p (ys @ (a, d) # (n, x) # zs) q"
  using assms by (auto simp: path_append path_Cons image_Un)

lemma path_remove:
  assumes "path m p (ys @ (a, d) # (b, e) # zs) q" "distinct (map fst (ys @ (a, d) # (b, e) # zs))"
    and "m a = Some c" "m b = Some c'"
  shows "path (m(a \<mapsto> c\<lparr>nnext := nnext c'\<rparr>, b := None)) p (ys @ (a, d) # zs) q"
    "ndata c' = e" "nnext c = b"
  using assms by (auto simp: path_append path_Cons image_Un)

section \<open>Operations of the list with a head node\<close>

text \<open>\<open>q->next = p->next; p->next = q;\<close> and \<open>p->next = q->next;\<close>\<close>

definition link_after :: "addr \<Rightarrow> addr \<Rightarrow> 'd nheap \<Rightarrow> 'd nheap option" where
  "link_after p q h = do {
     c \<leftarrow> load p h;
     h \<leftarrow> modify q (\<lambda>x. x\<lparr>nnext := nnext c\<rparr>) h;
     modify p (\<lambda>x. x\<lparr>nnext := q\<rparr>) h }"

definition unlink_after :: "addr \<Rightarrow> addr \<Rightarrow> 'd nheap \<Rightarrow> 'd nheap option" where
  "unlink_after p q h = do {
     d \<leftarrow> load q h;
     modify p (\<lambda>x. x\<lparr>nnext := nnext d\<rparr>) h }"

text \<open>\<open>g\<close> is the uninitialised \<open>data\<close> of the head node.\<close>

definition list_create :: "'d \<Rightarrow> 'd nheap \<Rightarrow> (addr \<times> 'd nheap) option" where
  "list_create g h =
     (let (me, h) = malloc \<lparr>ndata = g, nnext = NULL\<rparr> h
      in if me = NULL then Some (NULL, h)
         else do {
           h \<leftarrow> modify me (\<lambda>c. c\<lparr>nnext := NULL\<rparr>) h;
           Some (me, h) })"

function li_walk :: "'d nheap \<Rightarrow> addr \<Rightarrow> int \<Rightarrow> int \<Rightarrow> addr option" where
  "li_walk h node k i =
     (if k < i \<and> node \<noteq> NULL then do {
        c \<leftarrow> load node h;
        li_walk h (nnext c) (k + 1) i }
      else Some node)"
  by pat_completeness auto
termination
  by (relation "measure (\<lambda>(h, node, k, i). nat (i - k))") auto

declare li_walk.simps [simp del]

definition list_insert_at :: "addr \<Rightarrow> int \<Rightarrow> 'd \<Rightarrow> 'd nheap \<Rightarrow> (int \<times> 'd nheap) option" where
  "list_insert_at me i data h =
     (if i < 0 then Some (- 1, h)
      else do {
        node \<leftarrow> li_walk h me 0 i;
        if node \<noteq> NULL then
          let (newnode, h) = malloc \<lparr>ndata = data, nnext = NULL\<rparr> h
          in if newnode = NULL then Some (- 2, h)
             else do {
               h \<leftarrow> link_after node newnode h;
               Some (0, h) }
        else Some (- 3, h) })"

text \<open>The loop of \<open>list_order_insert\<close> and of \<open>list_delete\<close>: stop before the first node failing \<open>go\<close>.\<close>

partial_function (option) before :: "('d \<Rightarrow> bool) \<Rightarrow> addr \<Rightarrow> 'd nheap \<Rightarrow> addr option" where
  "before go p h =
     Option.bind (load p h) (\<lambda>c.
       if nnext c = NULL then Some p
       else Option.bind (load (nnext c) h) (\<lambda>d.
         if go (ndata d) then before go (nnext c) h else Some p))"

definition list_order_insert :: "addr \<Rightarrow> int \<Rightarrow> int nheap \<Rightarrow> (int \<times> int nheap) option" where
  "list_order_insert me data h = do {
     p \<leftarrow> before (\<lambda>d. d < data) me h;
     let (q, h) = malloc \<lparr>ndata = data, nnext = NULL\<rparr> h;
     if q = NULL then Some (- 1, h)
     else do {
       h \<leftarrow> link_after p q h;
       Some (0, h) } }"

function ld_walk :: "'d nheap \<Rightarrow> addr \<Rightarrow> int \<Rightarrow> int \<Rightarrow> addr option" where
  "ld_walk h p k i =
     (if k < i then do {
        c \<leftarrow> load p h;
        ld_walk h (nnext c) (k + 1) i }
      else Some p)"
  by pat_completeness auto
termination
  by (relation "measure (\<lambda>(h, p, k, i). nat (i - k))") auto

declare ld_walk.simps [simp del]

text \<open>The result is the return value, the value left in \<open>*data\<close> and the heap.\<close>

definition list_delete_at :: "addr \<Rightarrow> int \<Rightarrow> int nheap \<Rightarrow> (int \<times> int \<times> int nheap) option" where
  "list_delete_at me i h =
     (let data = - 1
      in if i < 0 then Some (- 1, data, h)
         else do {
           p \<leftarrow> ld_walk h me 0 i;
           if p \<noteq> NULL then do {
             c \<leftarrow> load p h;
             let q = nnext c;
             h \<leftarrow> unlink_after p q h;
             e \<leftarrow> load q h;
             h \<leftarrow> free q h;
             Some (0, ndata e, h) }
           else Some (- 2, data, h) })"

definition list_delete :: "addr \<Rightarrow> 'd \<Rightarrow> 'd nheap \<Rightarrow> (int \<times> 'd nheap) option" where
  "list_delete me data h = do {
     p \<leftarrow> before (\<lambda>d. d \<noteq> data) me h;
     c \<leftarrow> load p h;
     if nnext c = NULL then Some (- 1, h)
     else do {
       let q = nnext c;
       h \<leftarrow> unlink_after p q h;
       h \<leftarrow> free q h;
       Some (0, h) } }"

definition list_isempty :: "addr \<Rightarrow> 'd nheap \<Rightarrow> int option" where
  "list_isempty me h = do {
     c \<leftarrow> load me h;
     Some (if nnext c = NULL then 0 else 1) }"

text \<open>The data of the nodes from \<open>node\<close> on, as the loops that print them visit them.\<close>

partial_function (option) show_from :: "addr \<Rightarrow> 'd nheap \<Rightarrow> 'd list option" where
  "show_from node h =
     (if node \<noteq> NULL then
        Option.bind (load node h) (\<lambda>c.
        Option.bind (show_from (nnext c) h) (\<lambda>ds. Some (ndata c # ds)))
      else Some [])"

text \<open>The printed numbers; \<open>None\<close> inside when not even the line end is printed.\<close>

definition list_display :: "addr \<Rightarrow> 'd nheap \<Rightarrow> 'd list option option" where
  "list_display me h = do {
     c \<leftarrow> load me h;
     e \<leftarrow> list_isempty me h;
     if e = 0 then Some None
     else do { ds \<leftarrow> show_from (nnext c) h; Some (Some ds) } }"

partial_function (option) release_from :: "addr \<Rightarrow> 'd nheap \<Rightarrow> 'd nheap option" where
  "release_from node h =
     (if node \<noteq> NULL then
        Option.bind (load node h) (\<lambda>c.
        Option.bind (free node h) (\<lambda>h. release_from (nnext c) h))
      else Some h)"

definition list_destroy :: "addr \<Rightarrow> 'd nheap \<Rightarrow> 'd nheap option" where
  "list_destroy me h = do {
     c \<leftarrow> load me h;
     h \<leftarrow> release_from (nnext c) h;
     free me h }"

section \<open>Effects on paths\<close>

lemma link_after_path:
  assumes ok: "heap_ok h" and p: "path (mem h) p (ys @ (a, d) # zs) q"
    and dist: "distinct (map fst (ys @ (a, d) # zs))"
    and m: "malloc \<lparr>ndata = x, nnext = g\<rparr> h = (n, h1)" "n \<noteq> NULL"
  shows "\<exists>h2. link_after a n h1 = Some h2 \<and> heap_ok h2 \<and> path (mem h2) p (ys @ (a, d) # (n, x) # zs) q
    \<and> distinct (map fst (ys @ (a, d) # (n, x) # zs)) \<and> mem h n = None"
proof -
  have fresh: "brk h \<notin> fst ` set (ys @ (a, d) # zs)" by (rule path_fresh [OF ok p])
  obtain c where c: "mem h a = Some c" using path_live [OF p, of a] by auto
  have n: "n = brk h" "heap_ok h1" "mem h1 = (mem h)(brk h \<mapsto> \<lparr>ndata = x, nnext = g\<rparr>)"
    using malloc_ok [OF m ok] by auto
  have ab: "a \<noteq> brk h" "mem h1 a = Some c" "mem h1 n = Some \<lparr>ndata = x, nnext = g\<rparr>"
    using fresh c n by auto
  let ?h = "h1\<lparr>mem := (mem h1)(n \<mapsto> \<lparr>ndata = x, nnext = nnext c\<rparr>)\<rparr>"
  have ok': "heap_ok ?h" using n(2) ab(3) by simp
  have "link_after a n h1 = Some (?h\<lparr>mem := (mem ?h)(a \<mapsto> c\<lparr>nnext := n\<rparr>)\<rparr>)"
    using n(2) ab ok' n(1) by (simp add: link_after_def)
  moreover have "heap_ok (?h\<lparr>mem := (mem ?h)(a \<mapsto> c\<lparr>nnext := n\<rparr>)\<rparr>)"
    by (rule heap_ok_upd [OF ok']) (use ab(1,2) n(1) in simp)
  moreover have "path (mem (?h\<lparr>mem := (mem ?h)(a \<mapsto> c\<lparr>nnext := n\<rparr>)\<rparr>)) p (ys @ (a, d) # (n, x) # zs) q"
    using path_insert [OF p dist fresh c, of x] n(1,3) by simp
  moreover have "distinct (map fst (ys @ (a, d) # (n, x) # zs))" using dist fresh n(1) by auto
  ultimately show ?thesis using brk_fresh [OF ok] n(1) by blast
qed

lemma unlink_after_path:
  assumes ok: "heap_ok h" and p: "path (mem h) p (ys @ (a, d) # (b, e) # zs) q"
    and dist: "distinct (map fst (ys @ (a, d) # (b, e) # zs))"
  shows "\<exists>c h1 c'. mem h a = Some c \<and> nnext c = b \<and> b \<noteq> NULL \<and> unlink_after a b h = Some h1
    \<and> mem h1 b = Some c' \<and> ndata c' = e \<and> heap_ok h1
    \<and> mem h1 = (mem h)(a \<mapsto> c\<lparr>nnext := nnext c'\<rparr>)
    \<and> path ((mem h1)(b := None)) p (ys @ (a, d) # zs) q"
proof -
  obtain c where c: "mem h a = Some c" using path_live [OF p, of a] by auto
  obtain c' where c': "mem h b = Some c'" using path_live [OF p, of b] by auto
  note r = path_remove [OF p dist c c']
  have "a \<noteq> b" using dist by auto
  let ?h = "h\<lparr>mem := (mem h)(a \<mapsto> c\<lparr>nnext := nnext c'\<rparr>)\<rparr>"
  have "unlink_after a b h = Some ?h" using ok c c' by (simp add: unlink_after_def)
  moreover have "mem ?h b = Some c'" "heap_ok ?h" using \<open>a \<noteq> b\<close> c' ok c by auto
  moreover have "path ((mem ?h)(b := None)) p (ys @ (a, d) # zs) q" using r(1) by simp
  ultimately show ?thesis using c r heap_ok_nonnull [OF ok c'] by auto
qed

lemma li_walk_eq:
  assumes "heap_ok h"
  shows "path (mem h) p xs NULL \<Longrightarrow>
    li_walk h p k i = Some (if nat (i - k) < length xs then fst (xs ! nat (i - k)) else NULL)"
proof (induction xs arbitrary: p k)
  case Nil
  then show ?case by (subst li_walk.simps) simp
next
  case (Cons x xs)
  then obtain r where r: "p = fst x" "mem h p = Some \<lparr>ndata = snd x, nnext = r\<rparr>" "path (mem h) r xs NULL"
    by (auto simp: path_Cons)
  have "p \<noteq> NULL" by (rule heap_ok_nonnull [OF assms r(2)])
  show ?case
  proof (cases "k < i")
    case True
    then have "nat (i - k) = Suc (nat (i - (k + 1)))" by linarith
    with Cons.IH [OF r(3), of "k + 1"] True r(2) \<open>p \<noteq> NULL\<close> assms show ?thesis
      by (subst li_walk.simps) simp
  next
    case False
    with r(1) show ?thesis by (subst li_walk.simps) simp
  qed
qed

text \<open>\<open>list_delete_at\<close> walks without a check: past the end there is no defined result.\<close>

lemma ld_walk_eq:
  assumes "heap_ok h"
  shows "path (mem h) p xs NULL \<Longrightarrow> k \<le> i \<Longrightarrow>
    ld_walk h p k i = (if nat (i - k) < length xs then Some (fst (xs ! nat (i - k)))
      else if nat (i - k) = length xs then Some NULL else None)"
proof (induction xs arbitrary: p k)
  case Nil
  then show ?case by (subst ld_walk.simps) auto
next
  case (Cons x xs)
  then obtain r where r: "p = fst x" "mem h p = Some \<lparr>ndata = snd x, nnext = r\<rparr>" "path (mem h) r xs NULL"
    by (auto simp: path_Cons)
  show ?case
  proof (cases "k < i")
    case True
    then have "nat (i - k) = Suc (nat (i - (k + 1)))" by linarith
    with Cons.IH [OF r(3), of "k + 1"] True r(2) assms show ?thesis
      by (subst ld_walk.simps) simp
  next
    case False
    with r(1) Cons.prems show ?thesis by (subst ld_walk.simps) simp
  qed
qed

lemma before_eq:
  assumes "heap_ok h"
  shows "path (mem h) p ((a, d) # xs) NULL \<Longrightarrow>
    before go p h = Some (last (a # map fst (takeWhile (\<lambda>x. go (snd x)) xs)))"
proof (induction xs arbitrary: p a d)
  case Nil
  then have "p = a" "mem h a = Some \<lparr>ndata = d, nnext = NULL\<rparr>" by (auto simp: path_Cons)
  with assms show ?case by (subst before.simps) simp
next
  case (Cons y xs)
  obtain b e where y: "y = (b, e)" by fastforce
  from Cons.prems have p: "p = a" "mem h a = Some \<lparr>ndata = d, nnext = b\<rparr>"
    and tl: "path (mem h) b ((b, e) # xs) NULL"
    by (auto simp: path_Cons y)
  then obtain r where b: "mem h b = Some \<lparr>ndata = e, nnext = r\<rparr>" by (auto simp: path_Cons)
  have "b \<noteq> NULL" by (rule heap_ok_nonnull [OF assms b])
  with Cons.IH [OF tl] p b assms show ?case by (subst before.simps) (simp add: y)
qed

lemma show_from_eq:
  assumes "heap_ok h"
  shows "path (mem h) p xs NULL \<Longrightarrow> show_from p h = Some (map snd xs)"
proof (induction xs arbitrary: p)
  case Nil
  then show ?case by (subst show_from.simps) simp
next
  case (Cons x xs)
  then obtain r where r: "p = fst x" "mem h p = Some \<lparr>ndata = snd x, nnext = r\<rparr>" "path (mem h) r xs NULL"
    by (auto simp: path_Cons)
  with Cons.IH [OF r(3)] heap_ok_nonnull [OF assms r(2)] assms show ?case
    by (subst show_from.simps) simp
qed

lemma release_from_eq:
  "heap_ok h \<Longrightarrow> path (mem h) p xs NULL \<Longrightarrow> distinct (map fst xs) \<Longrightarrow>
   \<exists>h'. release_from p h = Some h' \<and> heap_ok h' \<and> mem h' = mem h |` (- fst ` set xs) \<and> brk h' = brk h"
proof (induction xs arbitrary: p h)
  case Nil
  then show ?case by (subst release_from.simps) (simp add: restrict_map_def)
next
  case (Cons x xs)
  then obtain r where r: "p = fst x" "mem h p = Some \<lparr>ndata = snd x, nnext = r\<rparr>" "path (mem h) r xs NULL"
    by (auto simp: path_Cons)
  let ?h = "h\<lparr>mem := (mem h)(p := None)\<rparr>"
  have "heap_ok ?h" "path (mem ?h) r xs NULL" "distinct (map fst xs)" using r Cons.prems by simp_all
  from Cons.IH [OF this] obtain h' where "release_from r ?h = Some h'" "heap_ok h'"
    "mem h' = mem ?h |` (- fst ` set xs)" "brk h' = brk ?h" by blast
  then have "release_from r ?h = Some h'" "heap_ok h'" "mem h' = mem h |` (- fst ` set (x # xs))" "brk h' = brk h"
    by (auto simp: r(1) restrict_map_def fun_eq_iff)
  with r heap_ok_nonnull [OF Cons.prems(1) r(2)] Cons.prems(1) show ?case
    by (subst release_from.simps) simp
qed

section \<open>The list with a head node\<close>

text \<open>\<open>xs\<close> are the nodes behind the head node \<open>me\<close>, with their data.\<close>

definition slist :: "'d nheap \<Rightarrow> addr \<Rightarrow> (addr \<times> 'd) list \<Rightarrow> bool" where
  "slist h me xs \<longleftrightarrow> heap_ok h \<and> (\<exists>g. path (mem h) me ((me, g) # xs) NULL) \<and> distinct (me # map fst xs)"

lemma list_create_slist:
  "heap_ok h \<Longrightarrow> \<exists>me h'. list_create g h = Some (me, h') \<and> (me \<noteq> NULL \<longrightarrow> slist h' me [])"
proof -
  assume ok: "heap_ok h"
  obtain me h1 where m: "malloc \<lparr>ndata = g, nnext = NULL\<rparr> h = (me, h1)" by fastforce
  show ?thesis
  proof (cases "me = NULL")
    case False
    have me: "mem h1 me = Some \<lparr>ndata = g, nnext = NULL\<rparr>" "heap_ok h1"
      using malloc_ok [OF m False ok] by auto
    obtain h2 where "modify me (\<lambda>c. c\<lparr>nnext := NULL\<rparr>) h1 = Some h2" "heap_ok h2"
      "mem h2 me = Some \<lparr>ndata = g, nnext = NULL\<rparr>"
      using modify_ok [OF me(2,1), of "\<lambda>c. c\<lparr>nnext := NULL\<rparr>"] by auto
    with m False show ?thesis by (auto simp: list_create_def slist_def path_Cons)
  qed (use m in \<open>simp add: list_create_def\<close>)
qed

text \<open>The node in front of position \<open>i\<close>, as a split of the path.\<close>

lemma slist_split:
  assumes "slist h me xs" "i \<le> length xs"
  obtains ys a d g where "(me, g) # xs = ys @ (a, d) # drop i xs" "path (mem h) me (ys @ (a, d) # drop i xs) NULL"
    "distinct (map fst (ys @ (a, d) # drop i xs))" "a = fst (((me, g) # xs) ! i)"
    "\<And>zs. ys @ (a, d) # zs = (me, g) # take i xs @ zs"
proof -
  from assms(1) obtain g where p: "path (mem h) me ((me, g) # xs) NULL" "distinct (me # map fst xs)"
    by (auto simp: slist_def)
  let ?l = "(me, g) # xs"
  have i: "i < length ?l" using assms(2) by simp
  obtain a d where ad: "?l ! i = (a, d)" by fastforce
  have eq: "?l = take i ?l @ (a, d) # drop i xs" using id_take_nth_drop [OF i] ad by simp
  have "take i ?l @ [(a, d)] = take (Suc i) ?l" using take_Suc_conv_app_nth [OF i] ad by simp
  then have front: "take i ?l @ (a, d) # zs = (me, g) # take i xs @ zs" for zs
    by (metis append_Cons append_assoc append_self_conv2 take_Suc_Cons append_Nil)
  show ?thesis
  proof (rule that [OF eq])
    show "path (mem h) me (take i ?l @ (a, d) # drop i xs) NULL" using p(1) by (simp only: flip: eq)
    show "distinct (map fst (take i ?l @ (a, d) # drop i xs))" using p(2) by (simp only: flip: eq) simp
  qed (use ad front in auto)
qed

lemma slistI:
  assumes "heap_ok h" "path (mem h) me (ys @ (a, d) # zs) NULL" "distinct (map fst (ys @ (a, d) # zs))"
    and "ys @ (a, d) # zs = (me, g) # xs"
  shows "slist h me xs"
  using assms by (auto simp: slist_def)

lemma link_after_slist:
  assumes l: "slist h me xs" and i: "i \<le> length xs" and g: "\<exists>g. a = fst (((me, g) # xs) ! i)"
    and m: "malloc \<lparr>ndata = x, nnext = NULL\<rparr> h = (n, h1)" "n \<noteq> NULL"
  shows "\<exists>h2. link_after a n h1 = Some h2 \<and> slist h2 me (take i xs @ (n, x) # drop i xs)"
proof -
  obtain ys a' d g' where s: "path (mem h) me (ys @ (a', d) # drop i xs) NULL"
      "distinct (map fst (ys @ (a', d) # drop i xs))" "a' = fst (((me, g') # xs) ! i)"
      and front: "\<And>zs. ys @ (a', d) # zs = (me, g') # take i xs @ zs"
    by (rule slist_split [OF l i], rule that)
  have "a = a'" using g s(3) by (cases i) auto
  moreover have "heap_ok h" using l by (simp add: slist_def)
  ultimately show ?thesis using link_after_path [OF _ s(1,2) m] slistI [OF _ _ _ front] by blast
qed

lemma slist_li_walk:
  assumes "slist h me xs" "0 \<le> i"
  shows "\<exists>g. li_walk h me 0 i = Some (if i \<le> int (length xs) then fst (((me, g) # xs) ! nat i) else NULL)"
proof -
  from assms obtain g where "heap_ok h" "path (mem h) me ((me, g) # xs) NULL" by (auto simp: slist_def)
  with li_walk_eq [OF this, of 0 i] assms(2) show ?thesis by (intro exI [of _ g]) (auto simp: nat_le_iff)
qed

lemma slist_addr_pos: "slist h me xs \<Longrightarrow> i \<le> length xs \<Longrightarrow> fst (((me, g) # xs) ! i) \<noteq> NULL"
proof -
  assume l: "slist h me xs" and i: "i \<le> length xs"
  then have ok: "heap_ok h" by (simp add: slist_def)
  have "fst (((me, g) # xs) ! i) \<in> fst ` set ((me, g') # xs)" for g'
    using i by (cases i) (auto simp: image_iff)
  with l have "mem h (fst (((me, g) # xs) ! i)) \<noteq> None" using path_live unfolding slist_def by metis
  with ok show ?thesis by (auto simp: heap_ok_def)
qed

lemma slist_insert_at:
  assumes l: "slist h me xs" and i: "i \<le> length xs"
  shows "\<exists>r h'. list_insert_at me (int i) x h = Some (r, h') \<and>
    (r = 0 \<and> (\<exists>n. slist h' me (take i xs @ (n, x) # drop i xs)) \<or> r = - 2 \<and> oom h 0 \<and> slist h' me xs)"
proof -
  obtain g where w: "li_walk h me 0 (int i) = Some (fst (((me, g) # xs) ! i))"
    using slist_li_walk [OF l, of "int i"] i by auto
  obtain n h1 where m: "malloc \<lparr>ndata = x, nnext = NULL\<rparr> h = (n, h1)" by fastforce
  have ok: "heap_ok h" using l by (simp add: slist_def)
  show ?thesis
  proof (cases "n = NULL")
    case True
    with malloc_null [OF m [unfolded True] ok] l w m slist_addr_pos [OF l i] show ?thesis
      by (simp add: list_insert_at_def slist_def)
  next
    case False
    from link_after_slist [OF l i _ m False] obtain h2 where
      "link_after (fst (((me, g) # xs) ! i)) n h1 = Some h2" "slist h2 me (take i xs @ (n, x) # drop i xs)"
      by blast
    with w m False slist_addr_pos [OF l i] show ?thesis by (auto simp: list_insert_at_def)
  qed
qed

lemma slist_before:
  assumes "slist h me xs"
  shows "\<exists>g. before go me h = Some (fst (((me, g) # xs) ! length (takeWhile (\<lambda>x. go (snd x)) xs)))"
proof -
  from assms obtain g where p: "heap_ok h" "path (mem h) me ((me, g) # xs) NULL" by (auto simp: slist_def)
  let ?t = "takeWhile (\<lambda>x. go (snd x)) xs"
  have "last (me # map fst ?t) = fst (((me, g) # xs) ! length ?t)"
  proof (cases "length ?t")
    case (Suc k)
    then have ne: "?t \<noteq> []" by (metis list.size(3) nat.distinct(1))
    have "?t ! k = xs ! k" using Suc by (simp add: takeWhile_nth)
    moreover have "last ?t = ?t ! k" using last_conv_nth [OF ne] Suc by simp
    ultimately show ?thesis using Suc ne by (simp add: last_map)
  qed simp
  with before_eq [OF p, of go] show ?thesis by auto
qed

lemma slist_order_insert:
  fixes xs :: "(addr \<times> int) list" and x :: int
  assumes l: "slist h me xs"
  defines "k \<equiv> length (takeWhile (\<lambda>y. snd y < x) xs)"
  shows "\<exists>r h'. list_order_insert me x h = Some (r, h') \<and>
    (r = 0 \<and> (\<exists>n. slist h' me (take k xs @ (n, x) # drop k xs)) \<or> r = - 1 \<and> oom h 0 \<and> slist h' me xs)"
proof -
  have k: "k \<le> length xs" unfolding k_def by (rule length_takeWhile_le)
  obtain g where w: "before (\<lambda>d. d < x) me h = Some (fst (((me, g) # xs) ! k))"
    using slist_before [OF l] unfolding k_def by blast
  obtain n h1 where m: "malloc \<lparr>ndata = x, nnext = NULL\<rparr> h = (n, h1)" by fastforce
  have ok: "heap_ok h" using l by (simp add: slist_def)
  show ?thesis
  proof (cases "n = NULL")
    case True
    with malloc_null [OF m [unfolded True] ok] l w m show ?thesis
      by (simp add: list_order_insert_def slist_def)
  next
    case False
    from link_after_slist [OF l k _ m False] obtain h2 where
      "link_after (fst (((me, g) # xs) ! k)) n h1 = Some h2" "slist h2 me (take k xs @ (n, x) # drop k xs)"
      by blast
    with w m False show ?thesis by (auto simp: list_order_insert_def)
  qed
qed

lemma unlink_after_slist:
  assumes l: "slist h me xs" and i: "i < length xs" and g: "\<exists>g. a = fst (((me, g) # xs) ! i)"
  defines "b \<equiv> fst (xs ! i)"
  shows "\<exists>c h1 c'. load a h = Some c \<and> nnext c = b \<and> b \<noteq> NULL \<and> unlink_after a b h = Some h1
    \<and> load b h1 = Some c' \<and> ndata c' = snd (xs ! i) \<and> free b h1 = Some (h1\<lparr>mem := (mem h1)(b := None)\<rparr>)
    \<and> slist (h1\<lparr>mem := (mem h1)(b := None)\<rparr>) me (take i xs @ drop (Suc i) xs)"
proof -
  have ok: "heap_ok h" using l by (simp add: slist_def)
  obtain ys a' d g' where s: "path (mem h) me (ys @ (a', d) # drop i xs) NULL"
      "distinct (map fst (ys @ (a', d) # drop i xs))" "a' = fst (((me, g') # xs) ! i)"
      and front: "\<And>zs. ys @ (a', d) # zs = (me, g') # take i xs @ zs"
    by (rule slist_split [OF l less_imp_le [OF i]], rule that)
  have a: "a = a'" using g s(3) by (cases i) auto
  have d: "drop i xs = (b, snd (xs ! i)) # drop (Suc i) xs"
    using Cons_nth_drop_Suc [OF i] by (simp add: b_def)
  obtain c h1 c' where u: "mem h a = Some c" "nnext c = b" "b \<noteq> NULL" "unlink_after a b h = Some h1"
    "mem h1 b = Some c'" "ndata c' = snd (xs ! i)" "heap_ok h1"
    "path ((mem h1)(b := None)) me (ys @ (a, d) # drop (Suc i) xs) NULL"
    using unlink_after_path [OF ok s(1,2) [unfolded d]] a by blast
  have "distinct (map fst (ys @ (a, d) # drop (Suc i) xs))" using s(2) d a by simp
  with slistI [OF _ _ _ front [folded a], of "h1\<lparr>mem := (mem h1)(b := None)\<rparr>" "drop (Suc i) xs"] u ok
  show ?thesis by auto
qed

lemma slist_delete_at:
  assumes l: "slist h me xs"
  shows "i < 0 \<Longrightarrow> list_delete_at me i h = Some (- 1, - 1, h)"
    and "j < length xs \<Longrightarrow> \<exists>h'. list_delete_at me (int j) h = Some (0, snd (xs ! j), h')
      \<and> slist h' me (take j xs @ drop (Suc j) xs)"
    and "list_delete_at me (int (length xs)) h = None"
    and "list_delete_at me (int (length xs) + 1) h = Some (- 2, - 1, h)"
    and "int (length xs) + 1 < i \<Longrightarrow> list_delete_at me i h = None"
proof -
  from l obtain g where p: "heap_ok h" "path (mem h) me ((me, g) # xs) NULL" by (auto simp: slist_def)
  note w = ld_walk_eq [OF p, where k = 0]
  show "i < 0 \<Longrightarrow> list_delete_at me i h = Some (- 1, - 1, h)"
    by (simp add: list_delete_at_def)
  show "list_delete_at me (int (length xs) + 1) h = Some (- 2, - 1, h)"
    using w [of "int (length xs) + 1"] by (simp add: list_delete_at_def nat_add_distrib)
  show "int (length xs) + 1 < i \<Longrightarrow> list_delete_at me i h = None"
    using w [of i] by (auto simp: list_delete_at_def)
  show "list_delete_at me (int (length xs)) h = None"
  proof -
    let ?a = "fst (((me, g) # xs) ! length xs)"
    note path_last [OF p(2)]
    moreover have "fst (last ((me, g) # xs)) = ?a" by (simp add: last_conv_nth)
    ultimately have "load ?a h = Some \<lparr>ndata = snd (last ((me, g) # xs)), nnext = NULL\<rparr>"
      using p(1) by simp
    moreover have "ld_walk h me 0 (int (length xs)) = Some ?a" using w [of "int (length xs)"] by simp
    ultimately show ?thesis
      using slist_addr_pos [OF l, of "length xs" g]
      by (simp add: list_delete_at_def unlink_after_def del: nth_Cons_pos)
  qed
  assume j: "j < length xs"
  obtain c h1 c' where "load (fst (((me, g) # xs) ! j)) h = Some c" "nnext c = fst (xs ! j)"
    "unlink_after (fst (((me, g) # xs) ! j)) (fst (xs ! j)) h = Some h1"
    "load (fst (xs ! j)) h1 = Some c'" "ndata c' = snd (xs ! j)"
    "free (fst (xs ! j)) h1 = Some (h1\<lparr>mem := (mem h1)(fst (xs ! j) := None)\<rparr>)"
    "slist (h1\<lparr>mem := (mem h1)(fst (xs ! j) := None)\<rparr>) me (take j xs @ drop (Suc j) xs)"
    using unlink_after_slist [OF l j, of "fst (((me, g) # xs) ! j)"] by blast
  moreover have "ld_walk h me 0 (int j) = Some (fst (((me, g) # xs) ! j))" using w [of "int j"] j by simp
  moreover have "fst (((me, g) # xs) ! j) \<noteq> NULL" using slist_addr_pos [OF l, of j g] j by simp
  ultimately show "\<exists>h'. list_delete_at me (int j) h = Some (0, snd (xs ! j), h')
      \<and> slist h' me (take j xs @ drop (Suc j) xs)"
    by (simp add: list_delete_at_def)
qed

text \<open>\<open>list_delete\<close> removes the first node with the number.\<close>

lemma slist_delete:
  fixes x :: 'd
  assumes l: "slist h me xs"
  defines "k \<equiv> length (takeWhile (\<lambda>y. snd y \<noteq> x) xs)"
  shows "x \<notin> snd ` set xs \<Longrightarrow> list_delete me x h = Some (- 1, h)"
    and "x \<in> snd ` set xs \<Longrightarrow> \<exists>h'. list_delete me x h = Some (0, h') \<and> slist h' me (take k xs @ drop (Suc k) xs)"
proof -
  obtain g where w: "before (\<lambda>d. d \<noteq> x) me h = Some (fst (((me, g) # xs) ! k))"
    using slist_before [OF l] unfolding k_def by blast
  {
    assume "x \<notin> snd ` set xs"
    then have k: "k = length xs" unfolding k_def by (metis (mono_tags, lifting) imageI takeWhile_eq_all_conv)
    from l obtain g' where p: "heap_ok h" "path (mem h) me ((me, g') # xs) NULL" by (auto simp: slist_def)
    note path_last [OF p(2)]
    moreover have "fst (last ((me, g') # xs)) = fst (((me, g) # xs) ! k)"
      unfolding k by (cases xs rule: rev_cases) (auto simp: nth_append)
    ultimately have "load (fst (((me, g) # xs) ! k)) h = Some \<lparr>ndata = snd (last ((me, g') # xs)), nnext = NULL\<rparr>"
      using p(1) by simp
    with w show "list_delete me x h = Some (- 1, h)" by (simp add: list_delete_def)
  }
  assume "x \<in> snd ` set xs"
  then have k: "k < length xs" unfolding k_def
    by (metis (mono_tags, lifting) imageE length_takeWhile_le order_le_imp_less_or_eq set_takeWhileD takeWhile_eq_take take_all_iff order_refl)
  obtain c h1 c' where "load (fst (((me, g) # xs) ! k)) h = Some c" "nnext c = fst (xs ! k)" "fst (xs ! k) \<noteq> NULL"
    "unlink_after (fst (((me, g) # xs) ! k)) (fst (xs ! k)) h = Some h1"
    "free (fst (xs ! k)) h1 = Some (h1\<lparr>mem := (mem h1)(fst (xs ! k) := None)\<rparr>)"
    "slist (h1\<lparr>mem := (mem h1)(fst (xs ! k) := None)\<rparr>) me (take k xs @ drop (Suc k) xs)"
    using unlink_after_slist [OF l k, of "fst (((me, g) # xs) ! k)"] by blast
  with w show "\<exists>h'. list_delete me x h = Some (0, h') \<and> slist h' me (take k xs @ drop (Suc k) xs)"
    by (simp add: list_delete_def)
qed

lemma slist_display:
  assumes l: "slist h me xs"
  shows "list_isempty me h = Some (if xs = [] then 0 else 1)"
    and "list_display me h = Some (if xs = [] then None else Some (map snd xs))"
proof -
  from l obtain g r where p: "heap_ok h" "mem h me = Some \<lparr>ndata = g, nnext = r\<rparr>" "path (mem h) r xs NULL"
    by (auto simp: slist_def path_Cons)
  then show e: "list_isempty me h = Some (if xs = [] then 0 else 1)"
    using path_NULL_iff [OF p(1,3)] by (auto simp: list_isempty_def)
  then show "list_display me h = Some (if xs = [] then None else Some (map snd xs))"
    using p show_from_eq [OF p(1,3)] by (simp add: list_display_def)
qed

lemma slist_destroy:
  assumes l: "slist h me xs"
  shows "\<exists>h'. list_destroy me h = Some h' \<and> heap_ok h' \<and> mem h' = mem h |` (- set (me # map fst xs))"
proof -
  from l obtain g r where p: "heap_ok h" "mem h me = Some \<lparr>ndata = g, nnext = r\<rparr>" "path (mem h) r xs NULL"
    and d: "distinct (map fst xs)" "me \<notin> fst ` set xs"
    by (auto simp: slist_def path_Cons)
  from release_from_eq [OF p(1,3) d(1)] obtain h' where h': "release_from r h = Some h'" "heap_ok h'"
    "mem h' = mem h |` (- fst ` set xs)" by blast
  then have "mem h' me = Some \<lparr>ndata = g, nnext = r\<rparr>" using p d by simp
  with h' p(1,2) show ?thesis
    by (auto simp: list_destroy_def restrict_map_def fun_eq_iff)
qed

section \<open>The contract of the list with a head node\<close>

text \<open>C26: On a list with nodes \<open>xs\<close>: \<open>list_insert_at\<close> answers -1 for a negative position, -3
  beyond the end, -2 when memory is out, all without changing the list, and otherwise puts the number at
  the position; \<open>list_delete_at\<close> removes and hands out the number at a position inside the list, answers
  -1 for a negative position and -2 for exactly one past the end plus one, and has no defined result (it
  dereferences \<open>NULL\<close>) for the position one past the end and for those further out; \<open>list_delete\<close>
  removes the first occurrence or answers -1; what is displayed are the contents; \<open>list_destroy\<close> frees
  exactly the nodes and the head.\<close>
theorem slist_contract:
  fixes xs :: "(addr \<times> int) list"
  assumes l: "slist h me xs"
  shows "((if i < 0 then list_insert_at me i x h = Some (- 1, h)
       else if i > int (length xs) then list_insert_at me i x h = Some (- 3, h)
       else \<exists>r h'. list_insert_at me i x h = Some (r, h') \<and>
         (r = 0 \<and> (\<exists>n. slist h' me (take (nat i) xs @ (n, x) # drop (nat i) xs))
          \<or> r = - 2 \<and> oom h 0 \<and> slist h' me xs)))
    \<and> ((if i < 0 then list_delete_at me i h = Some (- 1, - 1, h)
       else if i < int (length xs) then \<exists>h'. list_delete_at me i h = Some (0, snd (xs ! nat i), h')
         \<and> slist h' me (take (nat i) xs @ drop (Suc (nat i)) xs)
       else if i = int (length xs) + 1 then list_delete_at me i h = Some (- 2, - 1, h)
       else list_delete_at me i h = None))
    \<and> ((if x \<in> snd ` set xs then \<exists>h' ys. list_delete me x h = Some (0, h') \<and> slist h' me ys
         \<and> map snd ys = remove1 x (map snd xs)
       else list_delete me x h = Some (- 1, h)))
    \<and> (list_display me h = Some (if xs = [] then None else Some (map snd xs)))
    \<and> (\<exists>h'. list_destroy me h = Some h' \<and> mem h' = mem h |` (- set (me # map fst xs)))"
proof (intro conjI)
  show "if i < 0 then list_insert_at me i x h = Some (- 1, h)
       else if i > int (length xs) then list_insert_at me i x h = Some (- 3, h)
       else \<exists>r h'. list_insert_at me i x h = Some (r, h') \<and>
         (r = 0 \<and> (\<exists>n. slist h' me (take (nat i) xs @ (n, x) # drop (nat i) xs))
          \<or> r = - 2 \<and> oom h 0 \<and> slist h' me xs)"
    using slist_li_walk [OF l, of i] slist_insert_at [OF l, of "nat i" x]
    by (auto simp: list_insert_at_def)
  show "if i < 0 then list_delete_at me i h = Some (- 1, - 1, h)
       else if i < int (length xs) then \<exists>h'. list_delete_at me i h = Some (0, snd (xs ! nat i), h')
         \<and> slist h' me (take (nat i) xs @ drop (Suc (nat i)) xs)
       else if i = int (length xs) + 1 then list_delete_at me i h = Some (- 2, - 1, h)
       else list_delete_at me i h = None"
  proof -
    consider "i < 0" | "0 \<le> i" "i < int (length xs)" | "i = int (length xs)" | "i = int (length xs) + 1"
      | "int (length xs) + 1 < i" by linarith
    then show ?thesis
      by cases (use slist_delete_at(1) [OF l, of i] slist_delete_at(2) [OF l, of "nat i"]
        slist_delete_at(3,4) [OF l] slist_delete_at(5) [OF l, of i] in simp_all)
  qed
  have remove1_split: "remove1 x (map snd ys) = map snd (take (length (takeWhile (\<lambda>y. snd y \<noteq> x) ys)) ys
      @ drop (Suc (length (takeWhile (\<lambda>y. snd y \<noteq> x) ys))) ys)" for ys :: "(addr \<times> int) list"
    by (induction ys) auto
  show "if x \<in> snd ` set xs then \<exists>h' ys. list_delete me x h = Some (0, h') \<and> slist h' me ys
         \<and> map snd ys = remove1 x (map snd xs)
       else list_delete me x h = Some (- 1, h)"
    using slist_delete [OF l, of x] remove1_split [of xs] by (auto simp del: map_append)
  show "list_display me h = Some (if xs = [] then None else Some (map snd xs))"
    by (rule slist_display [OF l])
  show "\<exists>h'. list_destroy me h = Some h' \<and> mem h' = mem h |` (- set (me # map fst xs))"
    using slist_destroy [OF l] by blast
qed

text \<open>An empty list on a fresh heap.\<close>

definition one_node :: "int nheap" where
  "one_node = \<lparr>mem = [1 \<mapsto> \<lparr>ndata = 0, nnext = NULL\<rparr>], brk = 2, oom = (\<lambda>_. False)\<rparr>"

lemma one_node_slist: "slist one_node 1 []"
  by (auto simp: one_node_def slist_def heap_ok_def path_Cons)

lemma slist_contract_witness:
  "\<exists>h' n. list_insert_at 1 0 7 one_node = Some (0, h') \<and> slist h' 1 [(n, 7)]"
  using slist_contract [OF one_node_slist, of 0 7, THEN conjunct1] by (auto simp: one_node_def)

text \<open>\<open>list_order_insert\<close> keeps a sorted list sorted and adds exactly the given number, or
  answers -1 with the list unchanged when memory is out.\<close>
theorem slist_order:
  fixes xs :: "(addr \<times> int) list"
  assumes l: "slist h me xs" and sorted: "sorted (map snd xs)"
  shows "\<exists>r h' ys. list_order_insert me x h = Some (r, h') \<and> slist h' me ys \<and> sorted (map snd ys)
    \<and> (r = 0 \<and> mset (map snd ys) = add_mset x (mset (map snd xs)) \<or> r = - 1 \<and> oom h 0 \<and> ys = xs)"
proof -
  define k where "k = length (takeWhile (\<lambda>y. snd y < x) xs)"
  have t: "takeWhile (\<lambda>y. snd y < x) xs = take k xs" "dropWhile (\<lambda>y. snd y < x) xs = drop k xs"
    unfolding k_def by (rule takeWhile_eq_take, rule dropWhile_eq_drop)
  have small: "\<forall>y \<in> set (take k xs). snd y < x" unfolding t(1) [symmetric] by (auto dest: set_takeWhileD)
  have srt: "sorted (map snd (take k xs))" "sorted (map snd (drop k xs))"
    using sorted by (metis sorted_wrt_take take_map, metis sorted_wrt_drop drop_map)
  have big: "\<forall>y \<in> set (drop k xs). x \<le> snd y"
  proof (cases "drop k xs")
    case (Cons z zs)
    then have "\<not> snd z < x" using hd_dropWhile [of "\<lambda>y. snd y < x" xs] unfolding t(2) by auto
    with Cons srt(2) show ?thesis by auto
  qed simp
  have "sorted (map snd (take k xs) @ x # map snd (drop k xs))"
    using srt small big by (fastforce simp: sorted_append)
  then have "sorted (map snd (take k xs @ (n, x) # drop k xs))" for n by simp
  moreover have "mset (map snd (take k xs @ (n, x) # drop k xs)) = add_mset x (mset (map snd xs))" for n
  proof -
    have "mset (map snd xs) = mset (map snd (take k xs)) + mset (map snd (drop k xs))"
      by (metis append_take_drop_id map_append mset_append)
    then show ?thesis by simp
  qed
  ultimately show ?thesis using slist_order_insert [OF l, of x, folded k_def] sorted by blast
qed

lemma slist_order_witness:
  "\<exists>h' ys. list_order_insert 1 7 one_node = Some (0, h') \<and> slist h' 1 ys \<and> map snd ys = [7]"
proof -
  obtain h' ys where "list_order_insert 1 7 one_node = Some (0, h')" "slist h' 1 ys"
    "mset (map snd ys) = {#7#}"
    using slist_order [OF one_node_slist, of 7] by (auto simp: one_node_def simp del: mset_map)
  moreover from this(3) have "map snd ys = [7]" by (cases ys) (auto split: if_splits)
  ultimately show ?thesis by (intro exI conjI)
qed

section \<open>The list without a head node\<close>

text \<open>
  \<open>simple/nohead/nohead.c\<close>: the handle is the pointer to the first node, kept by the caller and
  changed through \<open>struct node_st **\<close>. The functions return the new handle beside their result.
\<close>

record score_st =
  sc_id :: int
  sc_name :: string
  sc_math :: int
  sc_chinese :: int

type_synonym sc_heap = "score_st nheap"

definition nh_list_insert :: "addr \<Rightarrow> score_st \<Rightarrow> sc_heap \<Rightarrow> (int \<times> addr \<times> sc_heap) option" where
  "nh_list_insert lst data h =
     (let (new, h) = malloc \<lparr>ndata = data, nnext = NULL\<rparr> h
      in if new = NULL then Some (- 1, lst, h)
         else do {
           h \<leftarrow> modify new (\<lambda>c. c\<lparr>nnext := lst\<rparr>) h;
           Some (0, new, h) })"

definition nh_list_show :: "addr \<Rightarrow> sc_heap \<Rightarrow> score_st list option" where
  "nh_list_show lst h = show_from lst h"

definition nh_list_delete :: "addr \<Rightarrow> sc_heap \<Rightarrow> (int \<times> addr \<times> sc_heap) option" where
  "nh_list_delete lst h =
     (if lst = NULL then Some (- 1, lst, h)
      else do {
        c \<leftarrow> load lst h;
        h \<leftarrow> free lst h;
        Some (0, nnext c, h) })"

text \<open>The address of the node whose \<open>data\<close> is found; it is the first field of the node.\<close>

partial_function (option) nh_find_from :: "addr \<Rightarrow> int \<Rightarrow> sc_heap \<Rightarrow> addr option" where
  "nh_find_from cur i h =
     (if cur \<noteq> NULL then
        Option.bind (load cur h) (\<lambda>c.
        if i = sc_id (ndata c) then Some cur else nh_find_from (nnext c) i h)
      else Some NULL)"

definition nh_list_find :: "addr \<Rightarrow> int \<Rightarrow> sc_heap \<Rightarrow> addr option" where
  "nh_list_find lst i h = (if lst = NULL then Some NULL else nh_find_from lst i h)"

partial_function (option) nh_destroy_loop :: "addr \<Rightarrow> sc_heap \<Rightarrow> (addr \<times> sc_heap) option" where
  "nh_destroy_loop lst h =
     (if lst \<noteq> NULL then
        Option.bind (load lst h) (\<lambda>c.
        Option.bind (free lst h) (\<lambda>h. nh_destroy_loop (nnext c) h))
      else Some (lst, h))"

text \<open>
  The argument is \<open>None\<close> for a null \<open>struct node_st **\<close>. After the loop the function ends without a
  \<open>return\<close>: its value is then indeterminate, the \<open>None\<close> in the first component.
\<close>

definition nh_list_destroy :: "addr option \<Rightarrow> sc_heap \<Rightarrow> (int option \<times> addr option \<times> sc_heap) option" where
  "nh_list_destroy lst h =
     (case lst of
        None \<Rightarrow> Some (Some (- 1), None, h)
      | Some l \<Rightarrow> do {
          (l, h) \<leftarrow> nh_destroy_loop l h;
          Some (None, Some l, h) })"

definition nh_list :: "sc_heap \<Rightarrow> addr \<Rightarrow> (addr \<times> score_st) list \<Rightarrow> bool" where
  "nh_list h lst xs \<longleftrightarrow> heap_ok h \<and> path (mem h) lst xs NULL \<and> distinct (map fst xs)"

lemma nh_find_from_eq:
  assumes "heap_ok h"
  shows "path (mem h) p xs NULL \<Longrightarrow>
    nh_find_from p i h = Some (case find (\<lambda>x. sc_id (snd x) = i) xs of None \<Rightarrow> NULL | Some x \<Rightarrow> fst x)"
proof (induction xs arbitrary: p)
  case Nil
  then show ?case by (subst nh_find_from.simps) simp
next
  case (Cons x xs)
  then obtain r where r: "p = fst x" "mem h p = Some \<lparr>ndata = snd x, nnext = r\<rparr>" "path (mem h) r xs NULL"
    by (auto simp: path_Cons)
  with Cons.IH [OF r(3)] heap_ok_nonnull [OF assms r(2)] assms show ?case
    by (subst nh_find_from.simps) auto
qed

lemma nh_destroy_loop_eq:
  "heap_ok h \<Longrightarrow> path (mem h) p xs NULL \<Longrightarrow> distinct (map fst xs) \<Longrightarrow>
   \<exists>h'. nh_destroy_loop p h = Some (NULL, h') \<and> mem h' = mem h |` (- fst ` set xs)"
proof (induction xs arbitrary: p h)
  case Nil
  then show ?case by (subst nh_destroy_loop.simps) (simp add: restrict_map_def)
next
  case (Cons x xs)
  then obtain r where r: "p = fst x" "mem h p = Some \<lparr>ndata = snd x, nnext = r\<rparr>" "path (mem h) r xs NULL"
    by (auto simp: path_Cons)
  let ?h = "h\<lparr>mem := (mem h)(p := None)\<rparr>"
  have "heap_ok ?h" "path (mem ?h) r xs NULL" "distinct (map fst xs)" using r Cons.prems by simp_all
  from Cons.IH [OF this] obtain h' where "nh_destroy_loop r ?h = Some (NULL, h')"
    "mem h' = mem ?h |` (- fst ` set xs)" by blast
  then have "nh_destroy_loop r ?h = Some (NULL, h')" "mem h' = mem h |` (- fst ` set (x # xs))"
    by (auto simp: r(1) restrict_map_def fun_eq_iff)
  with r heap_ok_nonnull [OF Cons.prems(1) r(2)] Cons.prems(1) show ?case
    by (subst nh_destroy_loop.simps) simp
qed

text \<open>The list without a head node is a stack of score records: insertion puts the record in
  front or answers -1 unchanged when memory is out, deletion removes the first record or answers -1 on the
  empty list, the search gives the node of the first record with the id or \<open>NULL\<close>, showing prints the
  records in order, and destroying frees exactly the nodes and leaves a null handle, with no defined return
  value.\<close>
theorem nh_contract:
  assumes l: "nh_list h lst xs"
  shows "(\<exists>r lst' h'. nh_list_insert lst d h = Some (r, lst', h')
      \<and> (r = 0 \<and> nh_list h' lst' ((lst', d) # xs) \<or> r = - 1 \<and> oom h 0 \<and> nh_list h' lst xs \<and> lst' = lst))
    \<and> ((case xs of [] \<Rightarrow> nh_list_delete lst h = Some (- 1, lst, h)
       | x # ys \<Rightarrow> \<exists>lst' h'. nh_list_delete lst h = Some (0, lst', h') \<and> nh_list h' lst' ys))
    \<and> (nh_list_find lst i h =
      Some (case find (\<lambda>x. sc_id (snd x) = i) xs of None \<Rightarrow> NULL | Some x \<Rightarrow> fst x))
    \<and> (nh_list_show lst h = Some (map snd xs))
    \<and> (\<exists>h'. nh_list_destroy (Some lst) h = Some (None, Some NULL, h')
      \<and> mem h' = mem h |` (- fst ` set xs))"
proof (intro conjI)
  from l have ok: "heap_ok h" and p: "path (mem h) lst xs NULL" and d: "distinct (map fst xs)"
    by (simp_all add: nh_list_def)
  obtain n h1 where m: "malloc \<lparr>ndata = d, nnext = NULL\<rparr> h = (n, h1)" by fastforce
  show "\<exists>r lst' h'. nh_list_insert lst d h = Some (r, lst', h')
      \<and> (r = 0 \<and> nh_list h' lst' ((lst', d) # xs) \<or> r = - 1 \<and> oom h 0 \<and> nh_list h' lst xs \<and> lst' = lst)"
  proof (cases "n = NULL")
    case True
    with malloc_null [OF m [unfolded True] ok] l m show ?thesis by (simp add: nh_list_insert_def nh_list_def)
  next
    case False
    note r = malloc_ok [OF m False ok]
    have fresh: "n \<notin> fst ` set xs" using path_fresh [OF ok p] r(1) by simp
    have n: "mem h1 n = Some \<lparr>ndata = d, nnext = NULL\<rparr>" using r by simp
    obtain h2 where h2: "modify n (\<lambda>c. c\<lparr>nnext := lst\<rparr>) h1 = Some h2" "heap_ok h2"
      "mem h2 = (mem h)(n \<mapsto> \<lparr>ndata = d, nnext = lst\<rparr>)"
      using modify_ok [OF r(2) n, of "\<lambda>c. c\<lparr>nnext := lst\<rparr>"] r by auto
    then have "nh_list h2 n ((n, d) # xs)" using fresh p d by (simp add: nh_list_def path_Cons)
    with m False h2 show ?thesis by (simp add: nh_list_insert_def)
  qed
  show "case xs of [] \<Rightarrow> nh_list_delete lst h = Some (- 1, lst, h)
       | x # ys \<Rightarrow> \<exists>lst' h'. nh_list_delete lst h = Some (0, lst', h') \<and> nh_list h' lst' ys"
  proof (cases xs)
    case Nil
    with p show ?thesis by (simp add: nh_list_delete_def)
  next
    case (Cons x ys)
    with p obtain r where r: "lst = fst x" "mem h lst = Some \<lparr>ndata = snd x, nnext = r\<rparr>"
      "path (mem h) r ys NULL" by (auto simp: path_Cons)
    with heap_ok_nonnull [OF ok r(2)] d Cons ok show ?thesis
      by (auto simp: nh_list_delete_def nh_list_def)
  qed
  show "nh_list_find lst i h =
      Some (case find (\<lambda>x. sc_id (snd x) = i) xs of None \<Rightarrow> NULL | Some x \<Rightarrow> fst x)"
    using nh_find_from_eq [OF ok p] path_NULL_iff [OF ok p] by (simp add: nh_list_find_def)
  show "nh_list_show lst h = Some (map snd xs)"
    using show_from_eq [OF ok p] by (simp add: nh_list_show_def)
  show "\<exists>h'. nh_list_destroy (Some lst) h = Some (None, Some NULL, h')
      \<and> mem h' = mem h |` (- fst ` set xs)"
    using nh_destroy_loop_eq [OF ok p d] by (auto simp: nh_list_destroy_def)
qed

lemma nh_contract_witness:
  "\<exists>lst' h'. nh_list_insert NULL \<lparr>sc_id = 3, sc_name = ''stu3'', sc_math = 60, sc_chinese = 70\<rparr> empty_heap
      = Some (0, lst', h')"
proof -
  have "nh_list empty_heap NULL []" by (simp add: nh_list_def empty_heap_ok)
  from nh_contract [OF this, of "\<lparr>sc_id = 3, sc_name = ''stu3'', sc_math = 60, sc_chinese = 70\<rparr>", THEN conjunct1]
  show ?thesis by (auto simp: empty_heap_def)
qed

end
