(* ===== verification/Decimal.thy ===== *)
theory Decimal
  imports Prelude
begin

text \<open>
  Text as the programs of the network print and read it: \<open>printf("%d")\<close> and \<open>"%lld"\<close>, the conversion \<open>fscanf\<close> makes of
  such text, strings of C in arrays, and the whole of what the conversions of one theory need of the others: decimal numbers
  are read back as they were printed and take at most 20 characters.
\<close>

section \<open>Numbers\<close>

abbreviation digit_char :: "nat \<Rightarrow> char" where
  "digit_char n \<equiv> char_of (48 + n)"

fun dec :: "nat \<Rightarrow> string" where
  "dec n = (if n < 10 then [digit_char n] else dec (n div 10) @ [digit_char (n mod 10)])"

declare dec.simps [simp del]

definition sdec :: "int \<Rightarrow> string" where
  "sdec i = (if i < 0 then CHR ''-'' # dec (nat (- i)) else dec (nat i))"

definition is_digit :: "char \<Rightarrow> bool" where
  "is_digit c \<longleftrightarrow> of_char c \<in> {48..57::nat}"

definition is_space :: "char \<Rightarrow> bool" where
  "is_space c \<longleftrightarrow> c \<in> {CHR '' '', CHR 0x09, CHR 0x0A, CHR 0x0B, CHR 0x0C, CHR 0x0D}"

fun undec :: "nat \<Rightarrow> string \<Rightarrow> nat" where
  "undec a [] = a"
| "undec a (c # cs) = undec (10 * a + (of_char c - 48)) cs"

text \<open>
  A directive \<open>%lld\<close> of \<open>fscanf\<close>: leading white space, a sign, digits. \<open>None\<close> when nothing matches; the second
  component is what has not been read.
\<close>

definition scan_lld :: "string \<Rightarrow> (int \<times> string) option" where
  "scan_lld s =
     (let s = dropWhile is_space s;
          neg = (s \<noteq> [] \<and> hd s = CHR ''-'');
          s = (if s \<noteq> [] \<and> hd s \<in> {CHR ''-'', CHR ''+''} then tl s else s);
          ds = takeWhile is_digit s
      in if ds = [] then None
         else Some (if neg then - int (undec 0 ds) else int (undec 0 ds), dropWhile is_digit s))"

lemma undec_append: "undec a (xs @ ys) = undec (undec a xs) ys"
  by (induction xs arbitrary: a) auto

lemma digit_char_code: "d < 10 \<Longrightarrow> of_char (digit_char d) = 48 + d"
  by (simp add: of_char_of)

lemma digit_char [simp]: "d < 10 \<Longrightarrow> is_digit (digit_char d)"
  by (simp add: is_digit_def digit_char_code)

lemma dec_digits: "c \<in> set (dec n) \<Longrightarrow> is_digit c"
proof (induction n rule: dec.induct)
  case (1 n)
  then show ?case by (cases "n < 10") (auto simp: dec.simps [of n])
qed

lemma dec_nonempty [simp]: "dec n \<noteq> []"
  by (simp add: dec.simps [of n])

lemma undec_dec: "undec 0 (dec n) = n"
proof (induction n rule: dec.induct)
  case (1 n)
  show ?case
  proof (cases "n < 10")
    case True
    then show ?thesis by (simp add: dec.simps [of n] digit_char_code)
  next
    case False
    have "of_char (digit_char (n mod 10)) = 48 + n mod 10" by (rule digit_char_code) simp
    with 1 False show ?thesis by (simp add: dec.simps [of n] undec_append)
  qed
qed

lemma dec_length: "n < 10 ^ Suc k \<Longrightarrow> length (dec n) \<le> Suc k"
proof (induction k arbitrary: n)
  case (Suc k)
  have "n div 10 < 10 ^ Suc k" using Suc.prems by (simp add: less_mult_imp_div_less)
  with Suc.IH [of "n div 10"] show ?case by (simp add: dec.simps [of n])
qed (simp add: dec.simps [of n for n])

lemma takeWhile_dec:
  assumes "rest = [] \<or> \<not> is_digit (hd rest)"
  shows "takeWhile is_digit (dec n @ rest) = dec n \<and> dropWhile is_digit (dec n @ rest) = rest"
proof -
  have "takeWhile is_digit rest = []" "dropWhile is_digit rest = rest" using assms by (cases rest; simp)+
  with dec_digits [of _ n] show ?thesis by (simp add: takeWhile_append2 dropWhile_append2)
qed

lemma digit_not_space: "is_digit c \<Longrightarrow> \<not> is_space c \<and> c \<noteq> CHR ''-'' \<and> c \<noteq> CHR ''+''"
  by (auto simp: is_digit_def is_space_def)

lemma hd_dec: "is_digit (hd (dec n @ rest))"
  using dec_digits [of "hd (dec n)" n] by (cases "dec n") (auto simp: neq_Nil_conv)

text \<open>What was printed with \<open>%d\<close> or \<open>%lld\<close> is read back, whatever follows that is not a digit.\<close>

lemma scan_sdec:
  assumes "rest = [] \<or> \<not> is_digit (hd rest)"
  shows "scan_lld (sdec i @ rest) = Some (i, rest)"
proof -
  define n where "n = nat \<bar>i\<bar>"
  define d where "d = dec n @ rest"
  have d: "takeWhile is_digit d = dec n" "dropWhile is_digit d = rest" "is_digit (hd d)" "d \<noteq> []"
    using takeWhile_dec [OF assms] hd_dec by (simp_all add: d_def)
  then have s: "dropWhile is_space d = d" "hd d \<noteq> CHR ''-''" "hd d \<noteq> CHR ''+''"
    using digit_not_space [of "hd d"] by (cases d; simp)+
  have minus: "\<not> is_space CHR ''-''" by (simp add: is_space_def)
  have "scan_lld (CHR ''-'' # d) = Some (- int n, rest)" "scan_lld d = Some (int n, rest)"
    using d s minus by (simp_all add: scan_lld_def undec_dec)
  moreover have "sdec i @ rest = (if i < 0 then CHR ''-'' # d else d)" by (auto simp: sdec_def d_def n_def)
  ultimately show ?thesis by (simp add: n_def)
qed

lemma sdec_length:
  assumes "\<bar>i\<bar> < 10 ^ 19"
  shows "length (sdec i) \<le> 20"
proof -
  have "nat \<bar>i\<bar> < 10 ^ Suc 18" using assms by simp
  from dec_length [OF this] show ?thesis by (auto simp: sdec_def)
qed

section \<open>Strings in arrays\<close>

abbreviation NUL :: char where "NUL \<equiv> CHR 0x00"

text \<open>The string that starts an array: undefined without a terminating zero.\<close>

definition c_str :: "string \<Rightarrow> string option" where
  "c_str b = (if NUL \<in> set b then Some (takeWhile (\<lambda>c. c \<noteq> NUL) b) else None)"

lemma c_str_zero [simp]: "NUL \<notin> set s \<Longrightarrow> c_str (s @ NUL # rest) = Some s"
proof -
  assume "NUL \<notin> set s"
  then have "takeWhile (\<lambda>c. c \<noteq> NUL) (s @ NUL # rest) = s" by (subst takeWhile_append2) auto
  then show ?thesis by (simp add: c_str_def)
qed

lemma c_str_none: "NUL \<notin> set b \<Longrightarrow> c_str b = None"
  by (simp add: c_str_def)

end
