(* ===== verification/ListMains.thy ===== *)
theory ListMains
  imports ListAdt LListData SList Decimal "HOL-Library.Sublist"
begin

text \<open>
  The programs of \<open>ds/line/list/linklist/double/lib1\<close> to \<open>lib4\<close>, \<open>ds/line/stack/list\<close> and \<open>ds/line/squeue/list\<close>: each
  fills its container with numbered records and prints what it takes out. \<open>rnd k\<close> is what the \<open>k\<close>-th call of
  \<open>rand\<close> returns. A program ends with its output and its exit status; \<open>None\<close> stands for undefined behaviour. The locale
  \<open>list_client\<close> states what the programs need from a list library; it is interpreted on the library of the two heaps
  (\<open>lib1\<close>) and on that of one heap.
\<close>

section \<open>Records\<close>

text \<open>\<open>sizeof(struct score_st)\<close>.\<close>

abbreviation SCORE_SIZE :: int where "SCORE_SIZE \<equiv> 44"
abbreviation NAMESIZE :: nat where "NAMESIZE \<equiv> 32"

definition print_s :: "score_st \<Rightarrow> string" where
  "print_s r = sdec (sc_id r) @ '' '' @ sc_name r @ '' '' @ sdec (sc_math r) @ '' '' @ sdec (sc_chinese r) @ ''\<newline>''"

fun strcmp :: "string \<Rightarrow> string \<Rightarrow> int" where
  "strcmp [] [] = 0"
| "strcmp [] (b # bs) = - 1"
| "strcmp (a # as) [] = 1"
| "strcmp (a # as) (b # bs) = (if a = b then strcmp as bs else int (of_char a) - int (of_char b))"

definition name_cmp :: "string \<Rightarrow> score_st \<Rightarrow> int" where
  "name_cmp k r = strcmp k (sc_name r)"

text \<open>The record of round \<open>i\<close>.\<close>

definition demo_record :: "string \<Rightarrow> (nat \<Rightarrow> int) \<Rightarrow> nat \<Rightarrow> score_st" where
  "demo_record pre rnd i = \<lparr>sc_id = int i, sc_name = take (NAMESIZE - 1) (pre @ sdec (int i)),
     sc_math = rnd (2 * i) mod 100, sc_chinese = rnd (2 * i + 1) mod 100\<rparr>"

lemma strcmp_zero: "strcmp a b = 0 \<longleftrightarrow> a = b"
  by (induction a b rule: strcmp.induct) auto

section \<open>The four list libraries\<close>

text \<open>The first loop of the programs: \<open>False\<close> when an insertion failed.\<close>

fun demo_fill :: "(addr \<Rightarrow> 'd \<Rightarrow> int \<Rightarrow> 's \<Rightarrow> (int \<times> 's) option) \<Rightarrow> addr \<Rightarrow> (nat \<Rightarrow> 'd) \<Rightarrow> nat list \<Rightarrow> 's \<Rightarrow> (bool \<times> 's) option" where
  "demo_fill ins handler mk [] s = Some (True, s)"
| "demo_fill ins handler mk (i # is) s = do {
     (ret, s) \<leftarrow> ins handler (mk i) LLIST_FORWARD s;
     if ret \<noteq> 0 then Some (False, s) else demo_fill ins handler mk is s }"

definition demo_main ::
  "(int \<Rightarrow> 's \<Rightarrow> (addr \<times> 's) option) \<Rightarrow> (addr \<Rightarrow> score_st \<Rightarrow> int \<Rightarrow> 's \<Rightarrow> (int \<times> 's) option) \<Rightarrow> (addr \<Rightarrow> 's \<Rightarrow> score_st list option)
    \<Rightarrow> (addr \<Rightarrow> string \<Rightarrow> (string \<Rightarrow> score_st \<Rightarrow> int) \<Rightarrow> 's \<Rightarrow> (int \<times> 's) option) \<Rightarrow> (addr \<Rightarrow> 's \<Rightarrow> 's option)
    \<Rightarrow> (nat \<Rightarrow> int) \<Rightarrow> 's \<Rightarrow> (string \<times> int) option" where
  "demo_main create ins travel delete destroy rnd s = do {
     (handler, s) \<leftarrow> create SCORE_SIZE s;
     if handler = NULL then Some ([], 1)
     else do {
       (ok, s) \<leftarrow> demo_fill ins handler (demo_record ''std'' rnd) [0..<7] s;
       if \<not> ok then Some ([], 1)
       else do {
         ds \<leftarrow> travel handler s;
         (ret, s) \<leftarrow> delete handler ''std6'' name_cmp s;
         es \<leftarrow> travel handler s;
         s \<leftarrow> destroy handler s;
         Some (concat (map print_s ds) @ ''\<newline>\<newline>'' @ (if ret \<noteq> 0 then ''llist_deleter failed!\<newline>'' else []) @ concat (map print_s es), 0) } } }"

text \<open>The files of \<open>lib1\<close>, \<open>lib2\<close> and \<open>lib4\<close> are the same text, compiled with different libraries.\<close>

definition lib1_main :: "(nat \<Rightarrow> int) \<Rightarrow> score_st dheaps \<Rightarrow> (string \<times> int) option" where
  "lib1_main = demo_main d_create d_insert d_travel d_delete d_destroy"

definition lib2_main :: "(nat \<Rightarrow> int) \<Rightarrow> score_st lheap \<Rightarrow> (string \<times> int) option" where
  "lib2_main = demo_main llist_create llist_insert llist_travel llist_delete llist_destroy"

definition lib4_main :: "(nat \<Rightarrow> int) \<Rightarrow> score_st lheap \<Rightarrow> (string \<times> int) option" where
  "lib4_main = (let lib = lib4_llist in demo_main (lib_create lib) (lib_insert lib) (lib_travel lib) (lib_delete lib) (lib_destroy lib))"

text \<open>\<open>lib3\<close>: the operations are taken from the list; its program deletes nothing.\<close>

definition lib3_main :: "(nat \<Rightarrow> int) \<Rightarrow> score_st lheap \<Rightarrow> (string \<times> int) option" where
  "lib3_main rnd s = do {
     (handler, ops, s) \<leftarrow> (lib3_create SCORE_SIZE s :: (addr \<times> (string, score_st) llist_lib option \<times> score_st lheap) option);
     if handler = NULL then Some ([], 1)
     else do {
       ops \<leftarrow> ops;
       (ok, s) \<leftarrow> demo_fill (lib_insert ops) handler (demo_record ''std'' rnd) [0..<7] s;
       if \<not> ok then Some ([], 1)
       else do {
         ds \<leftarrow> lib_travel ops handler s;
         s \<leftarrow> lib_destroy (lib3_llist :: (string, score_st) llist_lib) handler s;
         Some (concat (map print_s ds), 0) } } }"

section \<open>The stack and the queue over the list\<close>

fun push_fill :: "addr \<Rightarrow> (nat \<Rightarrow> 'd) \<Rightarrow> nat list \<Rightarrow> 'd lheap \<Rightarrow> (bool \<times> 'd lheap) option" where
  "push_fill st mk [] s = Some (True, s)"
| "push_fill st mk (i # is) s = do {
     (ret, s) \<leftarrow> stack_push st (mk i) s;
     if ret \<noteq> 0 then Some (False, s) else push_fill st mk is s }"

text \<open>The second loop: it stops when nothing is left. The result is what is printed.\<close>

partial_function (option) pop_loop :: "addr \<Rightarrow> score_st \<Rightarrow> score_st lheap \<Rightarrow> (string \<times> score_st lheap) option" where
  "pop_loop st tmp s =
     Option.bind (stack_pop st (Some tmp) s) (\<lambda>(ret, out, s).
     Option.bind out (\<lambda>tmp.
     if ret = - 1 then Some ([], s)
     else Option.bind (pop_loop st tmp s) (\<lambda>(tx, s). Some (print_s tmp @ tx, s))))"

definition list_stack_main :: "(nat \<Rightarrow> int) \<Rightarrow> score_st lheap \<Rightarrow> (string \<times> int) option" where
  "list_stack_main rnd s = do {
     (st, s) \<leftarrow> stack_create SCORE_SIZE s;
     if st = NULL then Some ([], 1)
     else do {
       (ok, s) \<leftarrow> push_fill st (demo_record ''stu'' rnd) [0..<7] s;
       if \<not> ok then Some ([], 1)
       else do {
         (out, s) \<leftarrow> pop_loop st (demo_record ''stu'' rnd 6) s;
         s \<leftarrow> stack_destroy st s;
         Some (out, 0) } } }"

text \<open>\<open>junk i\<close> is what the call of \<open>queue_en\<close> in round \<open>i\<close> returns. The result: what \<open>tmp\<close> holds.\<close>

fun en_fill :: "(nat \<Rightarrow> int) \<Rightarrow> addr \<Rightarrow> (nat \<Rightarrow> 'd) \<Rightarrow> nat list \<Rightarrow> 'd \<Rightarrow> 'd lheap \<Rightarrow> ('d \<times> 'd lheap) option" where
  "en_fill junk qu mk [] tmp s = Some (tmp, s)"
| "en_fill junk qu mk (i # is) tmp s = do {
     (ret, s) \<leftarrow> queue_en (junk i) qu (mk i) s;
     if 0 \<noteq> ret then Some (mk i, s) else en_fill junk qu mk is (mk i) s }"

partial_function (option) de_loop :: "addr \<Rightarrow> score_st \<Rightarrow> score_st lheap \<Rightarrow> (string \<times> score_st lheap) option" where
  "de_loop qu tmp s =
     Option.bind (queue_de qu (Some tmp) s) (\<lambda>(ret, out, s).
     Option.bind out (\<lambda>tmp.
     if ret = - 1 then Some ([], s)
     else Option.bind (de_loop qu tmp s) (\<lambda>(tx, s). Some (print_s tmp @ tx, s))))"

definition list_queue_main :: "(nat \<Rightarrow> int) \<Rightarrow> (nat \<Rightarrow> int) \<Rightarrow> score_st lheap \<Rightarrow> (string \<times> int) option" where
  "list_queue_main junk rnd s = do {
     (qu, s) \<leftarrow> queue_create SCORE_SIZE s;
     if qu = NULL then Some ([], 1)
     else do {
       (tmp, s) \<leftarrow> en_fill junk qu (demo_record ''stu'' rnd) [0..<6] (demo_record ''stu'' rnd 0) s;
       (out, s) \<leftarrow> de_loop qu tmp s;
       s \<leftarrow> queue_destroy qu s;
       Some (out, 0) } }"

section \<open>What the programs need of a list\<close>

definition demo_lines :: "string \<Rightarrow> (nat \<Rightarrow> int) \<Rightarrow> nat list \<Rightarrow> string" where
  "demo_lines pre rnd is = concat (map (\<lambda>i. print_s (demo_record pre rnd i)) is)"

definition demo_output :: "(nat \<Rightarrow> int) \<Rightarrow> string" where
  "demo_output rnd = demo_lines ''std'' rnd [6, 5, 4, 3, 2, 1, 0] @ ''\<newline>\<newline>'' @ demo_lines ''std'' rnd [5, 4, 3, 2, 1, 0]"

lemma rev_upto7: "rev [0..<7] = [6, 5, 4, 3, 2, 1, 0]"
  by code_simp

text \<open>
  \<open>rep s p ds\<close>: in the state \<open>s\<close> the list at \<open>p\<close> holds \<open>ds\<close>. \<open>roomy s\<close>: no allocation fails from here on.
\<close>

locale list_client =
  fixes create :: "int \<Rightarrow> 's \<Rightarrow> (addr \<times> 's) option"
    and ins :: "addr \<Rightarrow> score_st \<Rightarrow> int \<Rightarrow> 's \<Rightarrow> (int \<times> 's) option"
    and travel :: "addr \<Rightarrow> 's \<Rightarrow> score_st list option"
    and delete :: "addr \<Rightarrow> string \<Rightarrow> (string \<Rightarrow> score_st \<Rightarrow> int) \<Rightarrow> 's \<Rightarrow> (int \<times> 's) option"
    and destroy :: "addr \<Rightarrow> 's \<Rightarrow> 's option"
    and good :: "'s \<Rightarrow> bool"
    and rep :: "'s \<Rightarrow> addr \<Rightarrow> score_st list \<Rightarrow> bool"
    and roomy :: "'s \<Rightarrow> bool"
  assumes create_rep: "good s \<Longrightarrow> \<exists>p s'. create n s = Some (p, s') \<and> (p \<noteq> NULL \<longrightarrow> rep s' p []) \<and> (roomy s \<longrightarrow> p \<noteq> NULL \<and> roomy s')"
    and insert_rep: "rep s p ds \<Longrightarrow> \<exists>r s'. ins p d LLIST_FORWARD s = Some (r, s') \<and> (r = 0 \<longrightarrow> rep s' p (d # ds)) \<and> (roomy s \<longrightarrow> r = 0 \<and> roomy s')"
    and travel_rep: "rep s p ds \<Longrightarrow> travel p s = Some ds"
    and delete_rep: "rep s p ds \<Longrightarrow> \<exists>r s'. delete p key cmp s = Some (r, s') \<and> rep s' p (remove_first (\<lambda>d. cmp key d = 0) ds)
      \<and> (r = 0 \<longleftrightarrow> List.find (\<lambda>d. cmp key d = 0) ds \<noteq> None)"
    and destroy_rep: "rep s p ds \<Longrightarrow> \<exists>s'. destroy p s = Some s'"
begin

lemma fill_rep:
  "rep s p ds \<Longrightarrow> \<exists>ok s'. demo_fill ins p mk is s = Some (ok, s') \<and> (ok \<longrightarrow> rep s' p (rev (map mk is) @ ds)) \<and> (roomy s \<longrightarrow> ok)"
proof (induction "is" arbitrary: s ds)
  case (Cons i "is")
  obtain r s' where r: "ins p (mk i) LLIST_FORWARD s = Some (r, s')" "r = 0 \<longrightarrow> rep s' p (mk i # ds)" "roomy s \<longrightarrow> r = 0 \<and> roomy s'"
    using insert_rep [OF Cons.prems] by blast
  show ?case
  proof (cases "r = 0")
    case True
    with Cons.IH [of s' "mk i # ds"] r show ?thesis by auto
  qed (use r in auto)
qed auto

text \<open>The program: without memory it stops with status 1 and has printed nothing.\<close>

lemma demo_main_run:
  assumes "good s"
  shows "\<exists>r. demo_main create ins travel delete destroy rnd s = Some r \<and> r \<in> {([], 1), (demo_output rnd, 0)} \<and> (roomy s \<longrightarrow> snd r = 0)"
proof -
  obtain p s1 where c: "create SCORE_SIZE s = Some (p, s1)" "p \<noteq> NULL \<longrightarrow> rep s1 p []" "roomy s \<longrightarrow> p \<noteq> NULL \<and> roomy s1"
    using create_rep [OF assms] by blast
  show ?thesis
  proof (cases "p = NULL")
    case True
    then show ?thesis using c by (simp add: demo_main_def)
  next
    case False
    let ?mk = "demo_record ''std'' rnd"
    have l: "rev (map ?mk [0..<7]) @ [] = map ?mk [6, 5, 4, 3, 2, 1, 0]" by (simp only: rev_map rev_upto7 append_Nil2)
    obtain ok s2 where f: "demo_fill ins p ?mk [0..<7] s1 = Some (ok, s2)" "ok \<longrightarrow> rep s2 p (map ?mk [6, 5, 4, 3, 2, 1, 0])"
      "roomy s1 \<longrightarrow> ok" using fill_rep [of s1 p "[]" ?mk "[0..<7]", unfolded l] c(2) False by blast
    show ?thesis
    proof (cases ok)
      case True
      have n: "name_cmp ''std6'' (?mk 6) = 0"
        by (simp add: name_cmp_def strcmp_zero demo_record_def sdec_def dec.simps)
      obtain r s3 where d: "delete p ''std6'' name_cmp s2 = Some (r, s3)" "rep s3 p (map ?mk [5, 4, 3, 2, 1, 0])" "r = 0"
        using delete_rep [of s2 p _ "''std6''" name_cmp] f(2) True n by fastforce
      obtain s4 where "destroy p s3 = Some s4" using destroy_rep [OF d(2)] by blast
      then show ?thesis using c(1,3) False f(1,3) True travel_rep [of s2] f(2) d travel_rep [OF d(2)]
        by (simp add: demo_main_def demo_output_def demo_lines_def)
    qed (use c f False in \<open>simp add: demo_main_def\<close>)
  qed
qed

end

lemma remove_first_none: "List.find P ds = None \<Longrightarrow> remove_first P ds = ds"
  by (induction ds) (auto split: if_splits)

definition one_good :: "'c heap \<Rightarrow> bool" where
  "one_good h \<longleftrightarrow> heap_ok h"

definition one_roomy :: "'c heap \<Rightarrow> bool" where
  "one_roomy h \<longleftrightarrow> (\<forall>n. \<not> oom h n)"

definition two_good :: "'d dheaps \<Rightarrow> bool" where
  "two_good s \<longleftrightarrow> heap_ok (fst s) \<and> heap_ok (snd s)"

definition two_roomy :: "'d dheaps \<Rightarrow> bool" where
  "two_roomy s \<longleftrightarrow> (\<forall>n. \<not> oom (fst s) n \<and> \<not> oom (snd s) n)"

definition list_rep :: "'d lheap \<Rightarrow> addr \<Rightarrow> 'd list \<Rightarrow> bool" where
  "list_rep h p ds \<longleftrightarrow> (\<exists>sz as. ring h p sz as ds)"

lemma malloc_oom: "malloc v h = (p, h') \<Longrightarrow> oom h' = (\<lambda>n. oom h (Suc n))"
  by (auto simp: malloc_def Let_def split: if_splits)

lemma malloc_roomy: "malloc v h = (p, h') \<Longrightarrow> heap_ok h \<Longrightarrow> \<not> oom h 0 \<Longrightarrow> p \<noteq> NULL"
  by (auto simp: malloc_def Let_def heap_ok_def)

lemma create_some:
  assumes "heap_ok h"
  shows "\<exists>p h'. llist_create n h = Some (p, h') \<and> oom h' = (\<lambda>n. oom h (Suc n))"
proof -
  obtain p1 h1 where m: "malloc \<lparr>prev = NULL, nxt = NULL, con = Size 0\<rparr> h = (p1, h1)" by fastforce
  then show ?thesis
  proof (cases rule: malloc_cases)
    case fail
    then show ?thesis using m malloc_oom [OF m] by (simp add: llist_create_def)
  next
    case ok
    then have "heap_ok h1" "mem h1 p1 = Some \<lparr>prev = NULL, nxt = NULL, con = Size 0\<rparr>" using assms by simp_all
    then show ?thesis using m malloc_oom [OF m] ok(1,2) brk_pos [OF assms] by (simp add: llist_create_def)
  qed
qed

interpretation one_heap: list_client llist_create llist_insert llist_travel llist_delete llist_destroy one_good list_rep one_roomy
proof (unfold_locales, goal_cases)
  case (1 s n)
  then obtain p h' where c: "llist_create n s = Some (p, h')" "oom h' = (\<lambda>n. oom s (Suc n))" using create_some [of s n] by (auto simp: one_good_def)
  with 1 llist_create_ring [OF _ c(1)] show ?case
    by (intro exI [of _ p] exI [of _ h']) (auto simp: one_good_def one_roomy_def list_rep_def split: if_splits)
next
  case (2 s p ds d)
  then obtain sz as where "ring s p sz as ds" by (auto simp: list_rep_def)
  from llist_insert_ring [OF this, of d LLIST_FORWARD] show ?case
    unfolding list_rep_def one_roomy_def by (fastforce split: if_splits)
next
  case (3 s p ds)
  then show ?case by (auto simp: list_rep_def llist_travel_eq)
next
  case (4 s p ds key cmp)
  then obtain sz as where r: "ring s p sz as ds" by (auto simp: list_rep_def)
  show ?case
  proof (cases "List.find (\<lambda>d. cmp key d = 0) ds")
    case None
    then show ?thesis using llist_delete_ring [OF r, where cmp = cmp and key = key] 4 by (simp add: remove_first_none)
  next
    case (Some d)
    then show ?thesis using llist_delete_ring [OF r, where cmp = cmp and key = key] by (auto simp: list_rep_def)
  qed
next
  case (5 s p ds)
  then show ?case by (fastforce simp: list_rep_def dest: llist_destroy_ring)
qed

lemma d_create_eq: "d_create n (h, g) = map_option (\<lambda>(p, h). (p, h, g)) (llist_create n h)"
  by (auto simp: d_create_def llist_create_def Let_def bind_eq_Some_conv map_option_case split: prod.splits option.splits bind_split)

lemma d_insert_oom:
  assumes "d_insert p d mode s = Some (r, s')" "two_roomy s"
  shows "two_roomy s'"
proof -
  obtain h g n h1 q g1 where m: "s = (h, g)" "malloc \<lparr>prev = NULL, nxt = NULL, con = Data NULL\<rparr> h = (n, h1)" "malloc d g = (q, g1)"
    by (metis surj_pair)
  have o: "\<forall>k. \<not> oom h1 k" "\<forall>k. \<not> oom g k" "\<forall>k. \<not> oom g1 k"
    using assms(2) malloc_oom [OF m(2)] malloc_oom [OF m(3)] by (auto simp: two_roomy_def m(1))
  show ?thesis
  proof (cases "n = NULL")
    case True
    then show ?thesis using assms(1) o by (auto simp: d_insert_def m two_roomy_def)
  next
    case False
    then obtain h2 where h2: "modify n (\<lambda>c. c\<lparr>con := Data q\<rparr>) h1 = Some h2"
      "(if q = NULL then Some (- 2, h2, g1)
        else if mode = LLIST_FORWARD \<or> mode = LLIST_BACKWARD then do {
            hd \<leftarrow> load p h2;
            h \<leftarrow> (if mode = LLIST_FORWARD
                  then modify n (\<lambda>c. c\<lparr>prev := p, nxt := nxt hd\<rparr>) h2
                  else modify n (\<lambda>c. c\<lparr>prev := prev hd, nxt := p\<rparr>) h2);
            new \<leftarrow> load n h;
            h \<leftarrow> modify (nxt new) (\<lambda>c. c\<lparr>prev := n\<rparr>) h;
            h \<leftarrow> modify (prev new) (\<lambda>c. c\<lparr>nxt := n\<rparr>) h;
            Some (0, h, g1) }
          else Some (- 3, h2, g1)) = Some (r, s')"
      using assms(1) by (auto simp: d_insert_def m bind_eq_Some_conv)
    have "\<forall>k. \<not> oom h2 k" using o(1) modify_oom [OF h2(1)] by simp
    moreover obtain h3 where "s' = (h3, g1)" "oom h3 = oom h2"
      using h2(2) by (cases "mode = LLIST_FORWARD") (auto simp: bind_eq_Some_conv split: if_splits, (metis modify_oom)+)
    ultimately show ?thesis using o(3) by (simp add: two_roomy_def)
  qed
qed

interpretation two_heaps: list_client d_create d_insert d_travel d_delete d_destroy two_good dlist two_roomy
proof (unfold_locales, goal_cases)
  case (1 s n)
  obtain h g where s: "s = (h, g)" by (cases s)
  with 1 obtain p h' where c: "llist_create n h = Some (p, h')" "oom h' = (\<lambda>n. oom h (Suc n))" using create_some [of h n] by (auto simp: two_good_def)
  with s 1 d_create_list [of h g n p "(h', g)"] llist_create_ring [OF _ c(1)] show ?case
    by (auto simp: two_good_def two_roomy_def d_create_eq split: if_splits)
next
  case (2 s p ds d)
  then obtain h g sz as ps where "s = (h, g)" "dring (h, g) p sz as ps ds" by (cases s) (auto simp: dlist_def)
  moreover from d_insert_list [OF this(2), of d LLIST_FORWARD] obtain r s' where
    "d_insert p d LLIST_FORWARD (h, g) = Some (r, s')" "r = 0 \<longrightarrow> dlist s' p (d # ds)" "\<not> oom h 0 \<and> \<not> oom g 0 \<longrightarrow> r = 0"
    by (auto split: if_splits)
  ultimately show ?case using d_insert_oom [of p d LLIST_FORWARD s r s'] by (auto simp: two_roomy_def)
next
  case (3 s p ds)
  then show ?case using d_find_node_eq(2) by (cases s) (auto simp: dlist_def)
next
  case (4 s p ds key cmp)
  then obtain h g sz as ps where s: "s = (h, g)" "dring (h, g) p sz as ps ds" by (cases s) (auto simp: dlist_def)
  show ?case
  proof (cases "List.find (\<lambda>d. cmp key d = 0) ds")
    case None
    then show ?thesis using d_lookup_list [OF s(2), where cmp = cmp and key = key] 4 by (simp add: s(1) remove_first_none)
  next
    case (Some d)
    then show ?thesis using d_lookup_list [OF s(2), where cmp = cmp and key = key] by (auto simp: s(1))
  qed
next
  case (5 s p ds)
  then show ?case using d_destroy_list by (cases s) (fastforce simp: dlist_def)
qed

section \<open>The programs\<close>

lemma push_fill_eq: "push_fill st mk is s = demo_fill llist_insert st mk is s"
proof (induction "is" arbitrary: s)
  case (Cons i "is")
  then show ?case by (cases "llist_insert st (mk i) LLIST_FORWARD s") (auto simp: stack_push_def)
qed simp

text \<open>Emptying a list.\<close>

lemma take_all:
  assumes "ring s p sz as ds" and match: "\<And>d. cmp () d = 0"
  shows "case ds of [] \<Rightarrow> llist_fetch p () cmp (Some tmp) s = Some (- 1, Some tmp, s)
    | d # ds \<Rightarrow> \<exists>s' as'. llist_fetch p () cmp (Some tmp) s = Some (0, Some d, s') \<and> ring s' p sz as' ds"
  using llist_fetch_ring [OF assms(1), where cmp = cmp and key = "()" and out = "Some tmp"] by (cases ds) (auto simp: match)

lemma pop_loop_ring:
  "ring s p sz as ds \<Longrightarrow> \<exists>s' as'. pop_loop p tmp s = Some (concat (map print_s ds), s') \<and> ring s' p sz as' []"
proof (induction ds arbitrary: s as tmp)
  case Nil
  with take_all [OF Nil, of always_match tmp] show ?case
    by (subst pop_loop.simps) (auto simp: stack_pop_def always_match_def)
next
  case (Cons d ds)
  obtain s1 as1 where f: "stack_pop p (Some tmp) s = Some (0, Some d, s1)" "ring s1 p sz as1 ds"
    using take_all [OF Cons.prems, of always_match tmp] by (auto simp: stack_pop_def always_match_def)
  with Cons.IH [OF f(2), of d] show ?case by (subst pop_loop.simps) auto
qed

lemma de_loop_ring:
  "ring s p sz as ds \<Longrightarrow> \<exists>s' as'. de_loop p tmp s = Some (concat (map print_s ds), s') \<and> ring s' p sz as' []"
proof (induction ds arbitrary: s as tmp)
  case Nil
  with take_all [OF Nil, of queue_always_match tmp] show ?case
    by (subst de_loop.simps) (auto simp: queue_de_def queue_always_match_def)
next
  case (Cons d ds)
  obtain s1 as1 where f: "queue_de p (Some tmp) s = Some (0, Some d, s1)" "ring s1 p sz as1 ds"
    using take_all [OF Cons.prems, of queue_always_match tmp] by (auto simp: queue_de_def queue_always_match_def)
  with Cons.IH [OF f(2), of d] show ?case by (subst de_loop.simps) auto
qed

text \<open>The rounds of the queue program, which stops when the missing result is not 0.\<close>

fun tried :: "(nat \<Rightarrow> int) \<Rightarrow> nat list \<Rightarrow> nat list" where
  "tried junk [] = []"
| "tried junk (i # is) = i # (if 0 \<noteq> junk i then [] else tried junk is)"

lemma en_fill_ring:
  "ring s p sz as ds \<Longrightarrow> \<exists>tmp' s' as' js. en_fill junk p mk is tmp s = Some (tmp', s') \<and> ring s' p sz as' (ds @ map mk js)
    \<and> subseq js (tried junk is) \<and> (one_roomy s \<longrightarrow> js = tried junk is)"
proof (induction "is" arbitrary: s as ds tmp)
  case Nil
  then show ?case by (intro exI [of _ tmp] exI [of _ s] exI [of _ as] exI [of _ "[]"]) simp
next
  case (Cons i "is")
  obtain r s1 as1 ks where e: "llist_insert p (mk i) LLIST_BACKWARD s = Some (r, s1)" "ring s1 p sz as1 (ds @ map mk ks)"
    "ks = [i] \<or> ks = []" "one_roomy s \<longrightarrow> ks = [i] \<and> one_roomy s1"
  proof -
    obtain r h' where r: "llist_insert p (mk i) LLIST_BACKWARD s = Some (r, h')" "oom h' = (\<lambda>n. oom s (Suc n))"
      "if oom s 0 then ring h' p sz as ds else \<exists>as'. ring h' p sz as' (ds @ [mk i])"
      using llist_insert_ring [OF Cons.prems, of "mk i" LLIST_BACKWARD] by (fastforce split: if_splits)
    then show ?thesis
      using that [of r h' as "[]"] that [of r h' _ "[i]"] by (fastforce simp: one_roomy_def split: if_splits)
  qed
  have q: "queue_en (junk i) p (mk i) s = Some (junk i, s1)" by (simp add: queue_en_def e(1))
  show ?case
  proof (cases "0 \<noteq> junk i")
    case True
    then show ?thesis using q e(2-4) by (intro exI [of _ "mk i"] exI [of _ s1] exI [of _ as1] exI [of _ ks]) auto
  next
    case False
    obtain tmp' s' as' js where "en_fill junk p mk is (mk i) s1 = Some (tmp', s')" "ring s' p sz as' ((ds @ map mk ks) @ map mk js)"
      "subseq js (tried junk is)" "one_roomy s1 \<longrightarrow> js = tried junk is"
      using Cons.IH [OF e(2), of "mk i"] by blast
    then show ?thesis using q False e(3,4)
      by (intro exI [of _ tmp'] exI [of _ s'] exI [of _ as'] exI [of _ "ks @ js"]) auto
  qed
qed

lemma stack_main_run:
  assumes "heap_ok h"
  shows "\<exists>r. list_stack_main rnd h = Some r \<and> r \<in> {([], 1), (demo_lines ''stu'' rnd [6, 5, 4, 3, 2, 1, 0], 0)} \<and> (one_roomy h \<longrightarrow> snd r = 0)"
proof -
  let ?mk = "demo_record ''stu'' rnd"
  obtain p s1 where c: "llist_create SCORE_SIZE h = Some (p, s1)" "p \<noteq> NULL \<longrightarrow> list_rep s1 p []" "one_roomy h \<longrightarrow> p \<noteq> NULL \<and> one_roomy s1"
    using one_heap.create_rep [OF assms [folded one_good_def], of SCORE_SIZE] by blast
  show ?thesis
  proof (cases "p = NULL")
    case True
    then show ?thesis using c by (simp add: list_stack_main_def stack_create_def)
  next
    case False
    obtain ok s2 where f: "push_fill p ?mk [0..<7] s1 = Some (ok, s2)" "ok \<longrightarrow> list_rep s2 p (map ?mk [6, 5, 4, 3, 2, 1, 0])" "one_roomy s1 \<longrightarrow> ok"
      using one_heap.fill_rep [of s1 p "[]" ?mk "[0..<7]"] c(2) False unfolding push_fill_eq rev_map rev_upto7 append_Nil2 by blast
    show ?thesis
    proof (cases ok)
      case True
      then obtain sz as where "ring s2 p sz as (map ?mk [6, 5, 4, 3, 2, 1, 0])" using f(2) by (auto simp: list_rep_def)
      from pop_loop_ring [OF this] obtain s3 as3 where l: "pop_loop p (?mk 6) s2 = Some (concat (map print_s (map ?mk [6, 5, 4, 3, 2, 1, 0])), s3)"
        "ring s3 p sz as3 []" by blast
      obtain s4 where "stack_destroy p s3 = Some s4" using llist_destroy_ring [OF l(2)] by (auto simp: stack_destroy_def)
      then show ?thesis using c(1,3) False f(1,3) True l(1)
        by (simp add: list_stack_main_def stack_create_def demo_lines_def)
    qed (use c f False in \<open>simp add: list_stack_main_def stack_create_def\<close>)
  qed
qed

lemma queue_main_run:
  assumes "heap_ok h"
  shows "\<exists>r js. list_queue_main junk rnd h = Some r \<and> subseq js (tried junk [0..<6]) \<and> r \<in> {([], 1), (demo_lines ''stu'' rnd js, 0)}
    \<and> (one_roomy h \<longrightarrow> r = (demo_lines ''stu'' rnd (tried junk [0..<6]), 0))"
proof -
  let ?mk = "demo_record ''stu'' rnd"
  obtain p s1 where c: "llist_create SCORE_SIZE h = Some (p, s1)" "p \<noteq> NULL \<longrightarrow> list_rep s1 p []" "one_roomy h \<longrightarrow> p \<noteq> NULL \<and> one_roomy s1"
    using one_heap.create_rep [OF assms [folded one_good_def], of SCORE_SIZE] by blast
  show ?thesis
  proof (cases "p = NULL")
    case True
    then show ?thesis using c by (intro exI [of _ "([], 1)"] exI [of _ "[]"]) (simp add: list_queue_main_def queue_create_def)
  next
    case False
    then obtain sz as where "ring s1 p sz as []" using c(2) by (auto simp: list_rep_def)
    from en_fill_ring [OF this, of junk ?mk "[0..<6]" "?mk 0"] obtain tmp s2 as2 js where
      f: "en_fill junk p ?mk [0..<6] (?mk 0) s1 = Some (tmp, s2)" "ring s2 p sz as2 (map ?mk js)"
      "subseq js (tried junk [0..<6])" "one_roomy s1 \<longrightarrow> js = tried junk [0..<6]" by auto
    obtain s3 as3 where l: "de_loop p tmp s2 = Some (concat (map print_s (map ?mk js)), s3)" "ring s3 p sz as3 []"
      using de_loop_ring [OF f(2)] by blast
    obtain s4 where "queue_destroy p s3 = Some s4" using llist_destroy_ring [OF l(2)] by (auto simp: queue_destroy_def)
    then have "list_queue_main junk rnd h = Some (demo_lines ''stu'' rnd js, 0)"
      using c(1) False f(1) l(1) by (simp add: list_queue_main_def queue_create_def demo_lines_def comp_def)
    then show ?thesis using f(3,4) c(3) by blast
  qed
qed

lemma lib3_main_run:
  assumes "heap_ok h"
  shows "\<exists>r. lib3_main rnd h = Some r \<and> r \<in> {([], 1), (demo_lines ''std'' rnd [6, 5, 4, 3, 2, 1, 0], 0)} \<and> (one_roomy h \<longrightarrow> snd r = 0)"
proof -
  let ?mk = "demo_record ''std'' rnd"
  obtain p s1 where c: "llist_create SCORE_SIZE h = Some (p, s1)" "p \<noteq> NULL \<longrightarrow> list_rep s1 p []" "one_roomy h \<longrightarrow> p \<noteq> NULL \<and> one_roomy s1"
    using one_heap.create_rep [OF assms [folded one_good_def], of SCORE_SIZE] by blast
  show ?thesis
  proof (cases "p = NULL")
    case True
    then show ?thesis using c by (simp add: lib3_main_def lib3_create_def lib3_llist_def)
  next
    case False
    obtain ok s2 where f: "demo_fill llist_insert p ?mk [0..<7] s1 = Some (ok, s2)" "ok \<longrightarrow> list_rep s2 p (map ?mk [6, 5, 4, 3, 2, 1, 0])"
      "one_roomy s1 \<longrightarrow> ok"
      using one_heap.fill_rep [of s1 p "[]" ?mk "[0..<7]"] c(2) False unfolding rev_map rev_upto7 append_Nil2 by blast
    show ?thesis
    proof (cases ok)
      case True
      then obtain s3 where "llist_destroy p s2 = Some s3" using f(2) one_heap.destroy_rep by blast
      then show ?thesis using c(1,3) False f True one_heap.travel_rep [of s2 p]
        by (simp add: lib3_main_def lib3_create_def lib3_llist_def demo_lines_def)
    qed (use c f False in \<open>simp add: lib3_main_def lib3_create_def lib3_llist_def\<close>)
  qed
qed

text \<open>The programs of the generic lists. Whatever \<open>malloc\<close> refuses, none of them does anything undefined: it prints
  nothing and ends with status 1, or it ends with status 0 and has printed its records: \<open>lib1\<close>, \<open>lib2\<close> and \<open>lib4\<close> the
  seven records last in first, and once more without \<open>std6\<close>; \<open>lib3\<close> the seven records; the stack program the seven records,
  the last pushed first; the queue program, in the order of their insertion, some of the records it tried to insert, which are those up to
  the first call of \<open>queue_en\<close> that leaves something other than 0 where its result is looked for. With enough memory status 1 is
  impossible and the queue program prints every record it tried.\<close>

lemma list_programs:
  assumes "heap_ok h" "heap_ok m" "heap_ok g"
  shows "{lib1_main rnd (m, g), lib2_main rnd h, lib4_main rnd h} \<subseteq> {Some ([], 1), Some (demo_output rnd, 0)}
    \<and> lib3_main rnd h \<in> {Some ([], 1), Some (demo_lines ''std'' rnd [6, 5, 4, 3, 2, 1, 0], 0)}
    \<and> list_stack_main rnd h \<in> {Some ([], 1), Some (demo_lines ''stu'' rnd [6, 5, 4, 3, 2, 1, 0], 0)}
    \<and> (\<exists>js. subseq js (tried junk [0..<6]) \<and> list_queue_main junk rnd h \<in> {Some ([], 1), Some (demo_lines ''stu'' rnd js, 0)})
    \<and> (one_roomy h \<and> one_roomy m \<and> one_roomy g \<longrightarrow>
         {lib1_main rnd (m, g), lib2_main rnd h, lib4_main rnd h} = {Some (demo_output rnd, 0)}
         \<and> lib3_main rnd h = Some (demo_lines ''std'' rnd [6, 5, 4, 3, 2, 1, 0], 0)
         \<and> list_stack_main rnd h = Some (demo_lines ''stu'' rnd [6, 5, 4, 3, 2, 1, 0], 0)
         \<and> list_queue_main junk rnd h = Some (demo_lines ''stu'' rnd (tried junk [0..<6]), 0))"
proof -
  have two: "two_good (m, g)" "two_roomy (m, g) \<longleftrightarrow> one_roomy m \<and> one_roomy g"
    using assms by (auto simp: two_good_def two_roomy_def one_roomy_def)
  have 1: "lib1_main rnd (m, g) \<in> {Some ([], 1), Some (demo_output rnd, 0)}"
    "one_roomy m \<and> one_roomy g \<Longrightarrow> lib1_main rnd (m, g) = Some (demo_output rnd, 0)"
    using two_heaps.demo_main_run [OF two(1), of rnd] two(2) by (auto simp: lib1_main_def)
  have 2: "lib2_main rnd h \<in> {Some ([], 1), Some (demo_output rnd, 0)}" "one_roomy h \<Longrightarrow> lib2_main rnd h = Some (demo_output rnd, 0)"
    using one_heap.demo_main_run [OF assms(1) [folded one_good_def], of rnd] by (auto simp: lib2_main_def)
  have 3: "lib3_main rnd h \<in> {Some ([], 1), Some (demo_lines ''std'' rnd [6, 5, 4, 3, 2, 1, 0], 0)}"
    "one_roomy h \<Longrightarrow> lib3_main rnd h = Some (demo_lines ''std'' rnd [6, 5, 4, 3, 2, 1, 0], 0)"
    using lib3_main_run [OF assms(1), of rnd] by auto
  have 4: "lib4_main rnd h = lib2_main rnd h" by (simp add: lib4_main_def lib2_main_def lib4_llist_def)
  have 5: "list_stack_main rnd h \<in> {Some ([], 1), Some (demo_lines ''stu'' rnd [6, 5, 4, 3, 2, 1, 0], 0)}"
    "one_roomy h \<Longrightarrow> list_stack_main rnd h = Some (demo_lines ''stu'' rnd [6, 5, 4, 3, 2, 1, 0], 0)"
    using stack_main_run [OF assms(1), of rnd] by auto
  have 6: "\<exists>js. subseq js (tried junk [0..<6]) \<and> list_queue_main junk rnd h \<in> {Some ([], 1), Some (demo_lines ''stu'' rnd js, 0)}"
    "one_roomy h \<Longrightarrow> list_queue_main junk rnd h = Some (demo_lines ''stu'' rnd (tried junk [0..<6]), 0)"
    using queue_main_run [OF assms(1), of junk rnd] by (blast, force)
  show ?thesis unfolding 4
    by (intro conjI impI 3 5 6) (use 1 2 in simp_all)
qed

lemma list_programs_witness:
  "{lib1_main int (empty_heap, empty_heap), lib2_main int empty_heap, lib4_main int empty_heap} = {Some (demo_output int, 0)}
   \<and> lib3_main int empty_heap = Some (demo_lines ''std'' int [6, 5, 4, 3, 2, 1, 0], 0)
   \<and> list_stack_main int empty_heap = Some (demo_lines ''stu'' int [6, 5, 4, 3, 2, 1, 0], 0)
   \<and> list_queue_main (\<lambda>i. if i = 3 then 1 else 0) int empty_heap
       = Some (demo_lines ''stu'' int (tried (\<lambda>i. if i = 3 then 1 else 0) [0..<6]), 0)"
  using list_programs [of empty_heap empty_heap empty_heap int "\<lambda>i. if i = 3 then 1 else 0"]
  by (simp add: one_roomy_def empty_heap_def heap_ok_def)

end
