(* ===== verification/ArrMains.thy ===== *)
theory ArrMains
  imports SqList ArrStack ArrQueue ListMains
begin

text \<open>
  The programs of \<open>ds/line/list/arr\<close>, \<open>ds/line/stack/arr\<close>, \<open>ds/line/squeue/arr\<close> and \<open>ds/line/list/linklist/simple\<close>
  (\<open>head\<close> and \<open>nohead\<close>): each fills its container with the numbers of an array, or with records, and prints it. What
  \<open>malloc\<close> returns is a parameter. A program ends with what it printed and its exit status.
\<close>

section \<open>The sequential list\<close>

definition print_ints :: "int list \<Rightarrow> string" where
  "print_ints xs = concat (map (\<lambda>i. sdec i @ '' '') xs) @ ''\<newline>''"

text \<open>The display functions print nothing for an empty container.\<close>

definition print_shown :: "int list option \<Rightarrow> string" where
  "print_shown v = (case v of None \<Rightarrow> [] | Some xs \<Rightarrow> print_ints xs)"

fun sq_fill :: "sqlist \<Rightarrow> int list \<Rightarrow> (string option \<times> sqlist) option" where
  "sq_fill l [] = Some (None, l)"
| "sq_fill l (x # xs) = do {
     (err, l) \<leftarrow> sqlist_insert l 0 x;
     if err \<noteq> 0
     then Some (Some (if - 1 = err then ''The arr is full.\<newline>''
                      else if - 2 = err then ''The pos you want to insert is wrong.\<newline>''
                      else ''Error!\<newline>''), l)
     else sq_fill l xs }"

text \<open>The two streams and the status.\<close>

definition sqlist_main :: "sqlist option \<Rightarrow> sqlist option \<Rightarrow> (string \<times> string \<times> int) option" where
  "sqlist_main m1 m2 = (case sqlist_create m1 of
       None \<Rightarrow> Some ([], ''sqlist_create() failed!\<newline>'', 1)
     | Some l \<Rightarrow> (case sqlist_create m2 of
         None \<Rightarrow> Some ([], ''sqlist_create() failed!\<newline>'', 1)
       | Some l1 \<Rightarrow> do {
           (e, l) \<leftarrow> sq_fill l [12, 23, 34, 45, 56];
           case e of Some msg \<Rightarrow> Some ([], msg, 1) | None \<Rightarrow> do {
           (e1, l1) \<leftarrow> sq_fill l1 [89, 90, 78, 67, 56, 43];
           case e1 of Some msg \<Rightarrow> Some ([], msg, 1) | None \<Rightarrow> do {
           d \<leftarrow> sqlist_display l;
           d1 \<leftarrow> sqlist_display l1;
           (_, l) \<leftarrow> sqlist_union l l1;
           u \<leftarrow> sqlist_display l;
           Some (print_shown d @ print_shown d1 @ print_shown u, [], 0) } } }))"

section \<open>The stack and the queue in an array\<close>

text \<open>The results of \<open>st_push\<close> and of \<open>qu_enqueue\<close> are not looked at.\<close>

fun st_fill :: "nat \<Rightarrow> sqstack \<Rightarrow> int list \<Rightarrow> sqstack option" where
  "st_fill M st [] = Some st"
| "st_fill M st (x # xs) = do { (_, st) \<leftarrow> st_push M st x; st_fill M st xs }"

partial_function (option) st_pop_loop :: "sqstack \<Rightarrow> int \<Rightarrow> (string \<times> sqstack) option" where
  "st_pop_loop st tmp =
     Option.bind (st_pop st tmp) (\<lambda>(ret, tmp, st).
     if 0 = ret then Option.bind (st_pop_loop st tmp) (\<lambda>(out, st). Some (''POP:'' @ sdec tmp @ ''\<newline>'' @ out, st))
     else Some ([], st))"

text \<open>\<open>MAXSIZE\<close> is 5 in both programs; \<open>junk\<close> is the uninitialised \<open>tmp\<close>.\<close>

definition arr_stack_main :: "sqstack option \<Rightarrow> int \<Rightarrow> (string \<times> int) option" where
  "arr_stack_main m junk = (case st_create m of
       None \<Rightarrow> Some ([], 1)
     | Some st \<Rightarrow> do {
         st \<leftarrow> st_fill 5 st [19, 23, 0, 45, 67];
         vs \<leftarrow> st_travel st;
         (out, st) \<leftarrow> st_pop_loop st junk;
         Some ((if vs = [] then [] else print_ints vs) @ out, 0) })"

fun qu_fill :: "nat \<Rightarrow> queue \<Rightarrow> int list \<Rightarrow> queue option" where
  "qu_fill M sq [] = Some sq"
| "qu_fill M sq (x # xs) = do { (_, sq) \<leftarrow> qu_enqueue M sq x; qu_fill M sq xs }"

definition arr_queue_main :: "queue option \<Rightarrow> int \<Rightarrow> (string \<times> int) option" where
  "arr_queue_main m junk = (case qu_create m of
       None \<Rightarrow> Some ([], 1)
     | Some sq \<Rightarrow> do {
         sq \<leftarrow> qu_fill 5 sq [2, 34, 89, 12];
         vs \<leftarrow> qu_travel 5 sq;
         (_, tmp, sq) \<leftarrow> qu_dequeue 5 sq junk;
         Some ((if vs = [] then [] else print_ints vs) @ ''DEQUEUE:'' @ sdec tmp @ ''\<newline>'', 0) })"

section \<open>The singly linked lists\<close>

fun ord_fill :: "addr \<Rightarrow> int list \<Rightarrow> int nheap \<Rightarrow> (bool \<times> int nheap) option" where
  "ord_fill l [] h = Some (True, h)"
| "ord_fill l (x # xs) h = do { (r, h) \<leftarrow> list_order_insert l x h; if r \<noteq> 0 then Some (False, h) else ord_fill l xs h }"

text \<open>\<open>g\<close> is what the uninitialised head node holds.\<close>

definition head_main :: "int \<Rightarrow> int nheap \<Rightarrow> (string \<times> int) option" where
  "head_main g h = do {
     (l, h) \<leftarrow> list_create g h;
     if l = NULL then Some ([], 1)
     else do {
       (ok, h) \<leftarrow> ord_fill l [12, 9, 23, 2, 34, 6, 45] h;
       if \<not> ok then Some ([], 1)
       else do {
         d \<leftarrow> list_display l h;
         (err, value, h) \<leftarrow> list_delete_at l 2 h;
         if err \<noteq> 0 then Some (print_shown d, 1)
         else do {
           e \<leftarrow> list_display l h;
           h \<leftarrow> list_destroy l h;
           Some (print_shown d @ print_shown e @ ''delete:'' @ sdec value @ ''\<newline>'', 0) } } } }"

fun nh_fill :: "addr \<Rightarrow> (nat \<Rightarrow> score_st) \<Rightarrow> nat list \<Rightarrow> sc_heap \<Rightarrow> (bool \<times> addr \<times> sc_heap) option" where
  "nh_fill l mk [] h = Some (True, l, h)"
| "nh_fill l mk (i # is) h = do { (r, l, h) \<leftarrow> nh_list_insert l (mk i) h; if 0 \<noteq> r then Some (False, l, h) else nh_fill l mk is h }"

definition nohead_main :: "(nat \<Rightarrow> int) \<Rightarrow> sc_heap \<Rightarrow> (string \<times> int) option" where
  "nohead_main rnd h = do {
     (ok, l, h) \<leftarrow> nh_fill NULL (demo_record ''stu'' rnd) [0..<7] h;
     if \<not> ok then Some ([], 1)
     else do {
       ds \<leftarrow> nh_list_show l h;
       p \<leftarrow> nh_list_find l 13 h;
       found \<leftarrow> (if p = NULL then Some ''Can not find!\<newline>''
                else do { c \<leftarrow> load p h; let r = ndata c;
                  Some (sdec (sc_id r) @ '' '' @ sc_name r @ '' '' @ sdec (sc_math r) @ '' '' @ sdec (sc_chinese r)) });
       (_, _, h) \<leftarrow> nh_list_destroy (Some l) h;
       Some (concat (map print_s ds) @ ''\<newline>\<newline>'' @ found, 0) } }"

section \<open>What they print\<close>

lemma sq_fill_run:
  "sq_ok l \<Longrightarrow> int (length (sq_cont l) + length xs) \<le> DATASIZE \<Longrightarrow>
   \<exists>l'. sq_fill l xs = Some (None, l') \<and> sq_ok l' \<and> sq_cont l' = rev xs @ sq_cont l"
proof (induction xs arbitrary: l)
  case (Cons x xs)
  obtain l1 where l1: "sqlist_insert l 0 x = Some (0, l1)" "sq_ok l1" "sq_cont l1 = x # sq_cont l"
    using sq_insert_at [of l 0 x] Cons.prems by auto
  with Cons.IH [OF l1(2)] Cons.prems show ?case by auto
qed simp

lemma sqlist_main_run:
  assumes "length (sq_data m1) = 1024" "length (sq_data m2) = 1024"
  shows "sqlist_main (Some m1) (Some m2) = 
    Some (print_ints [56, 45, 34, 23, 12] @ print_ints [43, 56, 67, 78, 90, 89] @ print_ints [89, 90, 78, 67, 43, 56, 45, 34, 23, 12], [], 0)"
proof -
  have c: "sqlist_create (Some m) = Some (m\<lparr>sq_last := - 1\<rparr>)" "length (sq_data m) = 1024 \<Longrightarrow> sq_ok (m\<lparr>sq_last := - 1\<rparr>)"
    "sq_cont (m\<lparr>sq_last := - 1\<rparr>) = []" for m
    by (simp_all add: sqlist_create_def sq_ok_def sq_cont_def DATASIZE_def)
  obtain l where l: "sq_fill (m1\<lparr>sq_last := - 1\<rparr>) [12, 23, 34, 45, 56] = Some (None, l)" "sq_ok l" "sq_cont l = [56, 45, 34, 23, 12]"
    using sq_fill_run [OF c(2) [OF assms(1)], of "[12, 23, 34, 45, 56]"] by (auto simp: c(3) DATASIZE_def)
  obtain k where k: "sq_fill (m2\<lparr>sq_last := - 1\<rparr>) [89, 90, 78, 67, 56, 43] = Some (None, k)" "sq_ok k" "sq_cont k = [43, 56, 67, 78, 90, 89]"
    using sq_fill_run [OF c(2) [OF assms(2)], of "[89, 90, 78, 67, 56, 43]"] by (auto simp: c(3) DATASIZE_def)
  obtain u where u: "sqlist_union l k = Some (0, u)" "sq_ok u" "sq_cont u = [89, 90, 78, 67, 43, 56, 45, 34, 23, 12]"
    using sq_union_loop_eq [OF k(2) l(2), of 0] by (auto simp: sqlist_union_def l(3) k(3) un_step_def DATASIZE_def)
  show ?thesis
    using l k u sq_display [OF l(2)] sq_display [OF k(2)] sq_display [OF u(2)]
    by (simp add: sqlist_main_def c(1) print_shown_def del: sq_fill.simps)
qed

lemma st_fill_run:
  "st_ok M st \<Longrightarrow> length (st_cont st) + length xs \<le> M \<Longrightarrow> \<exists>st'. st_fill M st xs = Some st' \<and> st_ok M st' \<and> st_cont st' = rev xs @ st_cont st"
proof (induction xs arbitrary: st)
  case (Cons x xs)
  obtain st1 where st1: "st_push M st x = Some (0, st1)" "st_ok M st1" "st_cont st1 = x # st_cont st"
    using st_push_room [of M st x] Cons.prems by auto
  with Cons.IH [OF st1(2)] Cons.prems show ?case by auto
qed simp

lemma st_pop_loop_run:
  "st_ok M st \<Longrightarrow> st_cont st = xs \<Longrightarrow> \<exists>st'. st_pop_loop st tmp = Some (concat (map (\<lambda>x. ''POP:'' @ sdec x @ ''\<newline>'') xs), st')"
proof (induction xs arbitrary: st tmp)
  case Nil
  then show ?case by (subst st_pop_loop.simps) (simp add: st_pop_empty)
next
  case (Cons x xs)
  obtain st1 where st1: "st_pop st tmp = Some (0, x, st1)" "st_ok M st1" "st_cont st1 = xs"
    using st_pop_cons [OF Cons.prems] by blast
  with Cons.IH [OF st1(2,3), of x] show ?case by (subst st_pop_loop.simps) auto
qed

lemma arr_stack_main_run:
  assumes "length (st_data m) = 5"
  shows "arr_stack_main (Some m) junk
    = Some (print_ints [19, 23, 0, 45, 67] @ concat (map (\<lambda>x. ''POP:'' @ sdec x @ ''\<newline>'') [67, 45, 0, 23, 19]), 0)"
proof -
  obtain st where st: "st_create (Some m) = Some st" "st_ok 5 st" "st_cont st = []" using st_create_ok [OF assms] by auto
  obtain st1 where st1: "st_fill 5 st [19, 23, 0, 45, 67] = Some st1" "st_ok 5 st1" "st_cont st1 = [67, 45, 0, 23, 19]"
    using st_fill_run [OF st(2), of "[19, 23, 0, 45, 67]"] st(3) by auto
  obtain st2 where "st_pop_loop st1 junk = Some (concat (map (\<lambda>x. ''POP:'' @ sdec x @ ''\<newline>'') [67, 45, 0, 23, 19]), st2)"
    using st_pop_loop_run [OF st1(2,3)] by blast
  then show ?thesis using st(1) st1(1) st_travel_eq [OF st1(2)] st1(3) by (simp add: arr_stack_main_def del: st_fill.simps)
qed

lemma qu_fill_run:
  "qu_ok M sq \<Longrightarrow> length (qu_cont M sq) + length xs \<le> M - 1 \<Longrightarrow>
   \<exists>sq'. qu_fill M sq xs = Some sq' \<and> qu_ok M sq' \<and> qu_cont M sq' = qu_cont M sq @ xs"
proof (induction xs arbitrary: sq)
  case (Cons x xs)
  obtain q where q: "qu_enqueue M sq x = Some (0, q)" "qu_ok M q" "qu_cont M q = qu_cont M sq @ [x]"
    using qu_enqueue_room [of M sq x] Cons.prems by auto
  have "length (qu_cont M q) + length xs \<le> M - 1" using q(3) Cons.prems(2) by simp
  from Cons.IH [OF q(2) this] show ?case by (auto simp: q(1) q(3))
qed simp

lemma arr_queue_main_run:
  assumes "length (qu_data m) = 5"
  shows "arr_queue_main (Some m) junk = Some (print_ints [2, 34, 89, 12] @ ''DEQUEUE:'' @ sdec 2 @ ''\<newline>'', 0)"
proof -
  obtain sq where sq: "qu_create (Some m) = Some sq" "qu_ok 5 sq" "qu_cont 5 sq = []" using qu_create_ok [OF assms] by auto
  have "length (qu_cont 5 sq) + length [2 :: int, 34, 89, 12] \<le> 5 - 1" unfolding sq(3) by simp
  from qu_fill_run [OF sq(2) this] obtain q where q: "qu_fill 5 sq [2, 34, 89, 12] = Some q" "qu_ok 5 q" "qu_cont 5 q = [2, 34, 89, 12]"
    by (auto simp: sq(3))
  obtain q' where "qu_dequeue 5 q junk = Some (0, 2, q')" using qu_dequeue_cons [OF q(2,3)] by blast
  then show ?thesis using sq(1) q(1) qu_travel_eq [OF q(2)] q(3) by (simp add: arr_queue_main_def del: qu_fill.simps)
qed

lemma ord_fill_run:
  "slist h l xs \<Longrightarrow> sorted (map snd xs) \<Longrightarrow>
   \<exists>ok h'. ord_fill l vs h = Some (ok, h') \<and>
     (ok \<longrightarrow> (\<exists>ys. slist h' l ys \<and> sorted (map snd ys) \<and> mset (map snd ys) = mset (map snd xs) + mset vs))"
proof (induction vs arbitrary: h xs)
  case Nil
  then show ?case by auto
next
  case (Cons v vs)
  obtain r h1 ys where r: "list_order_insert l v h = Some (r, h1)" "slist h1 l ys" "sorted (map snd ys)"
    "r = 0 \<and> mset (map snd ys) = add_mset v (mset (map snd xs)) \<or> r = - 1 \<and> ys = xs"
    using slist_order [OF Cons.prems, of v] by blast
  show ?case
  proof (cases "r = 0")
    case True
    obtain ok h' where IH: "ord_fill l vs h1 = Some (ok, h')"
      "ok \<longrightarrow> (\<exists>zs. slist h' l zs \<and> sorted (map snd zs) \<and> mset (map snd zs) = mset (map snd ys) + mset vs)"
      using Cons.IH [OF r(2,3)] by blast
    moreover have "mset (map snd ys) + mset vs = mset (map snd xs) + mset (v # vs)" using True r(4) by simp
    ultimately show ?thesis using True r(1) by simp
  qed (use r in auto)
qed

lemma head_main_run:
  assumes "heap_ok h"
  shows "head_main g h \<in> {Some ([], 1),
    Some (print_ints [2, 6, 9, 12, 23, 34, 45] @ print_ints [2, 6, 12, 23, 34, 45] @ ''delete:'' @ sdec 9 @ ''\<newline>'', 0)}"
proof -
  obtain l h1 where c: "list_create g h = Some (l, h1)" "l \<noteq> NULL \<longrightarrow> slist h1 l []" using list_create_slist [OF assms] by blast
  show ?thesis
  proof (cases "l = NULL")
    case False
    then obtain ok h2 where f: "ord_fill l [12, 9, 23, 2, 34, 6, 45] h1 = Some (ok, h2)"
      "ok \<longrightarrow> (\<exists>ys. slist h2 l ys \<and> sorted (map snd ys) \<and> mset (map snd ys) = mset [12, 9, 23, 2, 34, 6, 45])"
      using ord_fill_run [of h1 l "[]" "[12, 9, 23, 2, 34, 6, 45]"] c(2) by auto
    show ?thesis
    proof (cases ok)
      case True
      then obtain ys where ys: "slist h2 l ys" "sorted (map snd ys)" "mset (map snd ys) = mset [12, 9, 23, 2, 34, 6, 45]" using f(2) by blast
      have "map snd ys = sort [12, 9, 23, 2, 34, 6, 45]" by (rule properties_for_sort [symmetric]) (use ys(2,3) in simp_all)
      then have m: "map snd ys = [2, 6, 9, 12, 23, 34, 45]" by simp
      then have n: "2 < length ys" "ys \<noteq> []" "snd (ys ! 2) = 9" by (auto simp: map_eq_Cons_conv)
      obtain h3 where d: "list_delete_at l 2 h2 = Some (0, 9, h3)" "slist h3 l (take 2 ys @ drop (Suc 2) ys)"
        using slist_delete_at(2) [OF ys(1) n(1)] n(3) by auto
      have m3: "map snd (take 2 ys @ drop (Suc 2) ys) = [2, 6, 12, 23, 34, 45]"
        unfolding map_append take_map [symmetric] drop_map [symmetric] m by (simp add: numeral_2_eq_2)
      then have n3: "take 2 ys @ drop (Suc 2) ys \<noteq> []" by force
      obtain h4 where "list_destroy l h3 = Some h4" using slist_destroy [OF d(2)] by blast
      then show ?thesis using c(1) False f(1) True slist_display(2) [OF ys(1)] slist_display(2) [OF d(2)] n(2) n3 m m3 d(1)
        by (simp add: head_main_def print_shown_def del: ord_fill.simps)
    qed (use c False f in \<open>simp add: head_main_def del: ord_fill.simps\<close>)
  qed (use c in \<open>simp add: head_main_def\<close>)
qed

lemma nh_fill_run:
  "nh_list h l xs \<Longrightarrow> \<exists>ok l' h'. nh_fill l mk is h = Some (ok, l', h') \<and>
     (ok \<longrightarrow> (\<exists>ys. nh_list h' l' ys \<and> map snd ys = rev (map mk is) @ map snd xs))"
proof (induction "is" arbitrary: h l xs)
  case Nil
  then show ?case by auto
next
  case (Cons i "is")
  obtain r l1 h1 where r: "nh_list_insert l (mk i) h = Some (r, l1, h1)" "r = 0 \<longrightarrow> nh_list h1 l1 ((l1, mk i) # xs)"
    using nh_contract [OF Cons.prems, THEN conjunct1, of "mk i"] by auto
  then show ?case using Cons.IH [of h1 l1 "(l1, mk i) # xs"] by (cases "r = 0") auto
qed

lemma nohead_main_run:
  assumes "heap_ok h"
  shows "nohead_main rnd h \<in> {Some ([], 1), Some (demo_lines ''stu'' rnd [6, 5, 4, 3, 2, 1, 0] @ ''\<newline>\<newline>Can not find!\<newline>'', 0)}"
proof -
  let ?mk = "demo_record ''stu'' rnd"
  have e: "nh_list h NULL []" using assms by (simp add: nh_list_def)
  obtain ok l h1 where f: "nh_fill NULL ?mk [0..<7] h = Some (ok, l, h1)"
    "ok \<longrightarrow> (\<exists>ys. nh_list h1 l ys \<and> map snd ys = map ?mk [6, 5, 4, 3, 2, 1, 0])"
    using nh_fill_run [OF e, of ?mk "[0..<7]"] unfolding rev_map rev_upto7 list.map append_Nil2 by (elim exE conjE) (rule that; simp)
  show ?thesis
  proof (cases ok)
    case True
    then obtain ys where ys: "nh_list h1 l ys" "map snd ys = map ?mk [6, 5, 4, 3, 2, 1, 0]" using f(2) by blast
    have "sc_id d \<noteq> 13" if "d \<in> set (map snd ys)" for d using that unfolding ys(2) by (auto simp: demo_record_def)
    then have "find (\<lambda>x. sc_id (snd x) = 13) ys = None" by (fastforce simp: find_None_iff)
    then have "nh_list_find l 13 h1 = Some NULL" "nh_list_show l h1 = Some (map ?mk [6, 5, 4, 3, 2, 1, 0])"
      "\<exists>h2. nh_list_destroy (Some l) h1 = Some (None, Some NULL, h2)"
      using nh_contract [OF ys(1), of undefined 13] ys(2) by (simp, simp, blast)
    then show ?thesis using f(1) True by (auto simp: nohead_main_def demo_lines_def)
  qed (use f in \<open>simp add: nohead_main_def\<close>)
qed

end
