(* ===== verification/BTree.thy ===== *)
theory BTree
  imports ListAdt SList "HOL-Library.Tree"
begin

text \<open>
  The binary search tree of score records in \<open>ds/tree/btree/main.c\<close>. Nodes are never shared, so a tree
  is a value of the library's type \<open>tree\<close> and \<open>NULL\<close> is \<open>Leaf\<close>; assigning to a field of the node that
  \<open>find_min\<close> or \<open>find_max\<close> returns is an update of that node. \<open>find_max\<close> is modelled as written: it
  continues with \<open>find_min\<close> in the right subtree. \<open>travel\<close> is a client of the queue library. Trees have
  fewer than \<open>2 ^ 31\<close> nodes, so the counts of \<open>get_num\<close> do not overflow.
\<close>

section \<open>Operations\<close>

type_synonym score_tree = "score_st tree"

text \<open>\<open>nomem\<close>: the call of \<open>malloc\<close> fails.\<close>

fun bt_insert :: "bool \<Rightarrow> score_tree \<Rightarrow> score_st \<Rightarrow> int \<times> score_tree" where
  "bt_insert nomem Leaf data = (if nomem then (- 1, Leaf) else (0, Node Leaf data Leaf))"
| "bt_insert nomem (Node l d r) data =
     (if sc_id data \<le> sc_id d
      then (let (ret, l') = bt_insert nomem l data in (ret, Node l' d r))
      else (let (ret, r') = bt_insert nomem r data in (ret, Node l d r')))"

fun bt_find :: "score_tree \<Rightarrow> int \<Rightarrow> score_st option" where
  "bt_find Leaf i = None"
| "bt_find (Node l d r) i =
     (if i = sc_id d then Some d
      else if i < sc_id d then bt_find l i
      else bt_find r i)"

text \<open>The printed lines: how far the record is indented, and the record.\<close>

fun draw_ind :: "score_tree \<Rightarrow> nat \<Rightarrow> (nat \<times> score_st) list" where
  "draw_ind Leaf level = []"
| "draw_ind (Node l d r) level = draw_ind r (level + 1) @ (level, d) # draw_ind l (level + 1)"

definition draw :: "score_tree \<Rightarrow> (nat \<times> score_st) list" where
  "draw root = draw_ind root 0"

fun get_num :: "'a tree \<Rightarrow> int" where
  "get_num Leaf = 0"
| "get_num (Node l d r) = get_num l + get_num r + 1"

text \<open>
  An assignment through the pointer that \<open>find_min\<close> or \<open>find_max\<close> returns: \<open>f\<close> is applied to that
  node. Both dereference their argument.
\<close>

fun at_min :: "('a tree \<Rightarrow> 'a tree) \<Rightarrow> 'a tree \<Rightarrow> 'a tree option" where
  "at_min f Leaf = None"
| "at_min f (Node l d r) =
     (if l = Leaf then Some (f (Node l d r))
      else do { l' \<leftarrow> at_min f l; Some (Node l' d r) })"

fun at_max :: "('a tree \<Rightarrow> 'a tree) \<Rightarrow> 'a tree \<Rightarrow> 'a tree option" where
  "at_max f Leaf = None"
| "at_max f (Node l d r) =
     (if r = Leaf then Some (f (Node l d r))
      else do { r' \<leftarrow> at_min f r; Some (Node l d r') })"

fun set_l :: "'a tree \<Rightarrow> 'a tree \<Rightarrow> 'a tree" where
  "set_l c Leaf = Leaf"
| "set_l c (Node l d r) = Node c d r"

fun set_r :: "'a tree \<Rightarrow> 'a tree \<Rightarrow> 'a tree" where
  "set_r c Leaf = Leaf"
| "set_r c (Node l d r) = Node l d c"

fun turn_left :: "'a tree \<Rightarrow> 'a tree option" where
  "turn_left Leaf = None"
| "turn_left (Node l d r) = at_min (set_l (Node l d Leaf)) r"

fun turn_right :: "'a tree \<Rightarrow> 'a tree option" where
  "turn_right Leaf = None"
| "turn_right (Node l d r) = at_max (set_r (Node Leaf d r)) l"

text \<open>The endless loop of \<open>balance\<close>, left by \<open>break\<close>.\<close>

partial_function (option) bal_loop :: "'a tree \<Rightarrow> 'a tree option" where
  "bal_loop root =
     (case root of
        Leaf \<Rightarrow> None
      | Node l d r \<Rightarrow>
          let sub = get_num l - get_num r
          in if sub \<ge> - 1 \<and> sub \<le> 1 then Some root
             else if sub < - 1 then Option.bind (turn_left root) bal_loop
             else Option.bind (turn_right root) bal_loop)"

partial_function (option) balance :: "'a tree \<Rightarrow> 'a tree option" where
  "balance root =
     (if root = Leaf then Some Leaf
      else Option.bind (bal_loop root) (\<lambda>t.
        case t of
          Leaf \<Rightarrow> None
        | Node l d r \<Rightarrow>
            Option.bind (balance l) (\<lambda>l'.
            Option.bind (balance r) (\<lambda>r'. Some (Node l' d r')))))"

text \<open>\<open>delete\<close>: the node found is replaced by its right subtree, or by its left one with the right one
  hung below what \<open>find_max\<close> returns.\<close>

fun bt_delete :: "score_tree \<Rightarrow> int \<Rightarrow> score_tree option" where
  "bt_delete Leaf i = Some Leaf"
| "bt_delete (Node l d r) i =
     (if sc_id d \<noteq> i then
        if i < sc_id d then do { l' \<leftarrow> bt_delete l i; Some (Node l' d r) }
        else do { r' \<leftarrow> bt_delete r i; Some (Node l d r') }
      else if l = Leaf then Some r
      else at_max (set_r r) l)"

text \<open>
  The loop of \<open>travel\<close>, over the queue operations it calls; a queued pointer to a node is the subtree.
  The results of \<open>queue_en\<close> are not looked at.
\<close>

partial_function (option) travel_loop ::
  "('s \<Rightarrow> 'a tree \<Rightarrow> (int \<times> 's) option) \<Rightarrow> ('s \<Rightarrow> 'a tree \<Rightarrow> (int \<times> 'a tree \<times> 's) option)
   \<Rightarrow> 's \<Rightarrow> 'a tree \<Rightarrow> ('a list \<times> 's) option" where
  "travel_loop enq deq s cur =
     Option.bind (deq s cur) (\<lambda>(ret, cur, s).
       if ret = - 1 then Some ([], s)
       else case cur of
         Leaf \<Rightarrow> None
       | Node l d r \<Rightarrow>
           Option.bind (if l \<noteq> Leaf then map_option snd (enq s l) else Some s) (\<lambda>s.
           Option.bind (if r \<noteq> Leaf then map_option snd (enq s r) else Some s) (\<lambda>s.
           Option.bind (travel_loop enq deq s cur) (\<lambda>(ds, s). Some (d # ds, s)))))"

definition bt_travel :: "'a tree \<Rightarrow> 'a tree lheap \<Rightarrow> ('a list \<times> 'a tree lheap) option" where
  "bt_travel root h =
     (if root = Leaf then Some ([], h)
      else do {
        (qu, h) \<leftarrow> queue_create 8 h;
        if qu = NULL then Some ([], h)
        else do {
          (r, s) \<leftarrow> lqueue_en (qu, h) root;
          (ds, s) \<leftarrow> travel_loop lqueue_en lqueue_de s Leaf;
          h \<leftarrow> queue_destroy (fst s) (snd s);
          Some (ds, h) } })"

section \<open>Searching and inserting\<close>

lemma get_num_size: "get_num t = int (size t)"
  by (induction t) auto

text \<open>The order the tree is kept in: the ids from left to right.\<close>

definition id_sorted :: "score_tree \<Rightarrow> bool" where
  "id_sorted t \<longleftrightarrow> sorted (map sc_id (inorder t))"

lemma id_sorted_Node: "id_sorted (Node l d r) \<longleftrightarrow> id_sorted l \<and> id_sorted r
    \<and> (\<forall>x \<in> set_tree l. sc_id x \<le> sc_id d) \<and> (\<forall>x \<in> set_tree r. sc_id d \<le> sc_id x)"
  by (fastforce simp: id_sorted_def sorted_append)

lemma bt_insert_set: "bt_insert False t x = (r, t') \<Longrightarrow> r = 0 \<and> mset (inorder t') = add_mset x (mset (inorder t))"
  by (induction t arbitrary: t') (auto split: if_splits prod.splits)

lemma bt_insert_oom: "bt_insert True t x = (- 1, t)"
  by (induction t) auto

lemma bt_insert_set_tree: "set_tree (snd (bt_insert False t x)) = insert x (set_tree t)"
proof -
  have "mset (inorder (snd (bt_insert False t x))) = add_mset x (mset (inorder t))"
    using bt_insert_set [of t x] by (metis prod.collapse)
  then show ?thesis by (metis set_inorder set_mset_add_mset_insert set_mset_mset)
qed

lemma bt_insert_sorted: "id_sorted t \<Longrightarrow> id_sorted (snd (bt_insert False t x))"
proof (induction t)
  case (Node l d r)
  show ?case
  proof (cases "sc_id x \<le> sc_id d")
    case True
    then have "snd (bt_insert False (Node l d r) x) = Node (snd (bt_insert False l x)) d r"
      by (simp add: case_prod_unfold Let_def)
    with Node True show ?thesis by (auto simp: id_sorted_Node bt_insert_set_tree)
  next
    case False
    then have "snd (bt_insert False (Node l d r) x) = Node l d (snd (bt_insert False r x))"
      by (simp add: case_prod_unfold Let_def)
    with Node False show ?thesis by (auto simp: id_sorted_Node bt_insert_set_tree)
  qed
qed (simp add: id_sorted_def)

lemma bt_find_None: "id_sorted t \<Longrightarrow> bt_find t i = None \<longleftrightarrow> (\<forall>x \<in> set_tree t. sc_id x \<noteq> i)"
proof (induction t)
  case (Node l d r)
  then have IH: "bt_find l i = None \<longleftrightarrow> (\<forall>x \<in> set_tree l. sc_id x \<noteq> i)"
      "bt_find r i = None \<longleftrightarrow> (\<forall>x \<in> set_tree r. sc_id x \<noteq> i)"
    and ord: "\<And>x. x \<in> set_tree l \<Longrightarrow> sc_id x \<le> sc_id d" "\<And>x. x \<in> set_tree r \<Longrightarrow> sc_id d \<le> sc_id x"
    by (auto simp: id_sorted_Node)
  consider "i = sc_id d" | "i < sc_id d" | "sc_id d < i" by linarith
  then show ?case
  proof cases
    case 2
    then have "\<forall>x \<in> set_tree r. sc_id x \<noteq> i" using ord(2) by fastforce
    with 2 IH(1) show ?thesis by auto
  next
    case 3
    then have "\<forall>x \<in> set_tree l. sc_id x \<noteq> i" using ord(1) by fastforce
    with 3 IH(2) show ?thesis by auto
  qed auto
qed simp

lemma bt_find_Some: "bt_find t i = Some x \<Longrightarrow> x \<in> set_tree t \<and> sc_id x = i"
  by (induction t) (auto split: if_splits)

lemma draw_ind_inorder: "map snd (draw_ind t k) = rev (inorder t)"
  by (induction t arbitrary: k) auto

text \<open>C4: Inserting keeps the ids sorted from left to right and adds exactly the record (or answers
  -1 and changes nothing when memory is out); in a sorted tree \<open>find\<close> gives a record with the id when there
  is one and \<open>NULL\<close> otherwise; \<open>draw\<close> prints every record once, in descending order.\<close>
theorem bt_search_tree:
  assumes "id_sorted t"
  shows "(\<exists>t'. bt_insert False t x = (0, t') \<and> id_sorted t' \<and> mset (inorder t') = add_mset x (mset (inorder t))
      \<and> (\<exists>y. bt_find t' (sc_id x) = Some y \<and> sc_id y = sc_id x))
    \<and> (bt_insert True t x = (- 1, t))
    \<and> (case bt_find t i of Some y \<Rightarrow> y \<in> set_tree t \<and> sc_id y = i | None \<Rightarrow> \<forall>y \<in> set_tree t. sc_id y \<noteq> i)
    \<and> (map snd (draw t) = rev (inorder t))"
proof (intro conjI)
  obtain r t' where t': "bt_insert False t x = (r, t')" by fastforce
  have s: "id_sorted t'" "x \<in> set_tree t'"
    using bt_insert_sorted [OF assms, of x] bt_insert_set_tree [of t x] t' by auto
  then have "bt_find t' (sc_id x) \<noteq> None" using bt_find_None [OF s(1)] by auto
  with s t' bt_insert_set [OF t'] show "\<exists>t'. bt_insert False t x = (0, t') \<and> id_sorted t'
      \<and> mset (inorder t') = add_mset x (mset (inorder t))
      \<and> (\<exists>y. bt_find t' (sc_id x) = Some y \<and> sc_id y = sc_id x)"
    using bt_find_Some by auto
  show "bt_insert True t x = (- 1, t)" by (rule bt_insert_oom)
  show "case bt_find t i of Some y \<Rightarrow> y \<in> set_tree t \<and> sc_id y = i | None \<Rightarrow> \<forall>y \<in> set_tree t. sc_id y \<noteq> i"
    using bt_find_None [OF assms, of i] bt_find_Some [of t i] by (auto split: option.splits)
  show "map snd (draw t) = rev (inorder t)" by (simp add: draw_def draw_ind_inorder)
qed

definition stu :: "int \<Rightarrow> score_st" where
  "stu i = \<lparr>sc_id = i, sc_name = ''stu'', sc_math = 0, sc_chinese = 0\<rparr>"

lemma bt_search_tree_witness:
  "\<exists>t' y. bt_insert False (Node (Node Leaf (stu 1) Leaf) (stu 3) Leaf) (stu 2) = (0, t') \<and> id_sorted t'
    \<and> bt_find t' 2 = Some y \<and> sc_id y = 2"
proof -
  have "id_sorted (Node (Node Leaf (stu 1) Leaf) (stu 3) Leaf)" by (simp add: id_sorted_def stu_def)
  from bt_search_tree [OF this, of "stu 2", THEN conjunct1] show ?thesis by (auto simp: stu_def)
qed

section \<open>Balancing\<close>

text \<open>The effect of the two rotations: hanging a tree below the leftmost node, and what the
  \<open>find_max\<close> of the code makes of hanging one on the right.\<close>

fun hl :: "'a tree \<Rightarrow> 'a tree \<Rightarrow> 'a tree" where
  "hl Leaf p = p"
| "hl (Node l d r) p = Node (hl l p) d r"

fun hm :: "'a tree \<Rightarrow> 'a tree \<Rightarrow> 'a tree" where
  "hm Leaf x = x"
| "hm (Node l d r) x = (if l = Leaf then Node l d x else Node (hm l x) d r)"

lemma at_min_set_l: "t \<noteq> Leaf \<Longrightarrow> at_min (set_l c) t = Some (hl t c)"
  by (induction t) auto

lemma at_min_set_r: "t \<noteq> Leaf \<Longrightarrow> at_min (set_r c) t = Some (hm t c)"
  by (induction t) auto

lemma turn_left_eq: "r \<noteq> Leaf \<Longrightarrow> turn_left (Node l d r) = Some (hl r (Node l d Leaf))"
  by (simp add: at_min_set_l)

lemma at_max_eq: "at_max (set_r x) (Node l d r) = Some (Node l d (hm r x))"
  by (cases r) (auto simp: at_min_set_r)

lemma turn_right_eq: "turn_right (Node (Node yl y yr) d r) = Some (Node yl y (hm yr (Node Leaf d r)))"
  by (simp add: at_max_eq del: at_max.simps)

lemma size_hl [simp]: "size (hl t p) = size t + size p"
  by (induction t) auto

lemma mset_hl [simp]: "mset (inorder (hl t p)) = mset (inorder t) + mset (inorder p)"
  by (induction t) auto

lemma hl_Leaf [simp]: "hl t Leaf = t"
  by (induction t) auto

lemma size_hm: "size (hm t x) \<le> size t + size x"
  by (induction t) auto

lemma mset_hm: "mset (inorder (hm t x)) \<subseteq># mset (inorder t) + mset (inorder x)"
proof (induction t)
  case (Node l d r)
  then show ?case by (auto simp: subset_mset.add_right_mono)
qed simp

text \<open>
  Why the loop ends. Once a left rotation has been made, the subtree \<open>p\<close> it hung below the leftmost node
  has fewer than half of the nodes. A right rotation at a root whose left subtree is \<open>p\<close> alone would need
  \<open>p\<close> to have more than half of them, so right rotations leave \<open>p\<close> where it is, the next left rotation
  hangs a larger subtree, and in between every right rotation shrinks the left subtree. When \<open>find_max\<close>
  misses its node the tree may lose nodes, and the argument starts again with a smaller tree.
\<close>

definition near :: "'a tree \<Rightarrow> bool" where
  "near t \<longleftrightarrow> t \<noteq> Leaf \<and> \<bar>int (size (left t)) - int (size (right t))\<bar> \<le> 1"

lemma bal_loop_hl:
  "c \<noteq> Leaf \<Longrightarrow> 2 * size p < size (hl c p) \<Longrightarrow>
   \<exists>t'. bal_loop (hl c p) = Some t' \<and> near t' \<and> mset (inorder t') \<subseteq># mset (inorder (hl c p))"
proof (induction "(size (hl c p), size (hl c p) - size p, size (left (hl c p)))" arbitrary: c p
    rule: wf_induct_rule [OF wf_lex_prod [OF wf_less_than wf_lex_prod [OF wf_less_than wf_less_than]]])
  case (1 c p)
  note IH = "1.hyps"
  obtain cl u cr where c: "c = Node cl u cr" using "1.prems"(1) by (cases c) auto
  let ?L = "hl cl p"
  have t: "hl c p = Node ?L u cr" by (simp add: c)
  have small: "size p \<le> size cl + size cr" using "1.prems"(2) by (simp add: c)
  consider (even) "\<bar>int (size ?L) - int (size cr)\<bar> \<le> 1" | (l) "size ?L + 1 < size cr" | (r) "size cr + 1 < size ?L"
    by linarith
  then show ?case
  proof cases
    case even
    then have "bal_loop (hl c p) = Some (hl c p)"
      by (subst bal_loop.simps) (simp add: t get_num_size Let_def abs_le_iff)
    with even show ?thesis by (simp add: near_def t)
  next
    case l
    then have cr: "cr \<noteq> Leaf" by auto
    let ?P = "Node ?L u Leaf"
    have step: "bal_loop (hl c p) = bal_loop (hl cr ?P)"
      using l by (subst bal_loop.simps) (simp add: t get_num_size Let_def turn_left_eq [OF cr] del: turn_left.simps)
    have "\<exists>t'. bal_loop (hl cr ?P) = Some t' \<and> near t' \<and> mset (inorder t') \<subseteq># mset (inorder (hl cr ?P))"
      by (rule IH) (use l cr in \<open>simp_all add: c\<close>)
    with step show ?thesis by (simp add: t ac_simps)
  next
    case r
    have "cl \<noteq> Leaf" using r small by auto
    then obtain yl y yr where cl: "cl = Node yl y yr" by (cases cl) auto
    let ?x = "Node Leaf u cr"
    let ?c = "Node yl y (hm yr ?x)"
    have step: "bal_loop (hl c p) = bal_loop (hl ?c p)"
      using r by (subst bal_loop.simps)
        (simp add: t cl get_num_size Let_def turn_right_eq del: turn_right.simps)
    have sz: "size (hl ?c p) \<le> size (hl c p)" using size_hm [of yr ?x] by (simp add: c cl)
    have ms: "mset (inorder (hl ?c p)) \<subseteq># mset (inorder (hl c p))"
      using mset_hm [of yr ?x] by (simp add: c cl ac_simps subset_mset.add_left_mono)
    have "\<exists>t'. bal_loop (hl ?c p) = Some t' \<and> near t' \<and> mset (inorder t') \<subseteq># mset (inorder (hl ?c p))"
    proof (cases "size (hl ?c p) = size (hl c p)")
      case True
      show ?thesis by (rule IH) (use True "1.prems"(2) in \<open>simp_all add: c cl\<close>)
    next
      case False
      have "\<exists>t'. bal_loop (hl (hl ?c p) Leaf) = Some t' \<and> near t'
          \<and> mset (inorder t') \<subseteq># mset (inorder (hl (hl ?c p) Leaf))"
        by (rule IH) (use False sz in simp_all)
      then show ?thesis by simp
    qed
    with step ms show ?thesis using subset_mset.order_trans by fastforce
  qed
qed

lemma bal_loop_total:
  assumes "t \<noteq> Leaf"
  shows "\<exists>t'. bal_loop t = Some t' \<and> near t' \<and> mset (inorder t') \<subseteq># mset (inorder t)"
  using bal_loop_hl [of t Leaf] assms by (cases t) simp_all

fun num_balanced :: "'a tree \<Rightarrow> bool" where
  "num_balanced Leaf = True"
| "num_balanced (Node l d r) \<longleftrightarrow> near (Node l d r) \<and> num_balanced l \<and> num_balanced r"

text \<open>A tree balanced by numbers has the least possible height.\<close>

lemma num_balanced_height: "num_balanced t \<Longrightarrow> t \<noteq> Leaf \<Longrightarrow> 2 ^ (height t - 1) \<le> size t"
proof (induction t)
  case (Node l d r)
  have n: "size l \<le> size r + 1" "size r \<le> size l + 1" using Node.prems by (auto simp: near_def)
  have sub: "2 ^ height u \<le> 2 * size u" if "u \<noteq> Leaf" "2 ^ (height u - 1) \<le> size u" for u :: "'a tree"
    using that by (cases "height u") auto
  have "2 ^ height l \<le> size (Node l d r)"
    using Node n sub [of l] by (cases "l = Leaf") auto
  moreover have "2 ^ height r \<le> size (Node l d r)"
    using Node n sub [of r] by (cases "r = Leaf") auto
  ultimately show ?case by (simp add: max_def)
qed simp

lemma size_inorder: "size t = size (mset (inorder t))"
  by simp

lemma balance_spec:
  "\<exists>t'. balance t = Some t' \<and> mset (inorder t') \<subseteq># mset (inorder t) \<and> size t' \<le> size t
    \<and> (size t' = size t \<longrightarrow> num_balanced t')"
proof (induction t rule: measure_induct_rule [of size])
  case (less t)
  show ?case
  proof (cases "t = Leaf")
    case True
    then show ?thesis by (subst balance.simps) simp
  next
    case False
    then obtain t1 where t1: "bal_loop t = Some t1" "near t1" "mset (inorder t1) \<subseteq># mset (inorder t)"
      using bal_loop_total by blast
    then obtain l d r where n: "t1 = Node l d r" by (cases t1) (auto simp: near_def)
    have sz: "size t1 \<le> size t" using size_mset_mono [OF t1(3)] by simp
    obtain l' where l': "balance l = Some l'" "mset (inorder l') \<subseteq># mset (inorder l)" "size l' \<le> size l"
      "size l' = size l \<longrightarrow> num_balanced l'" using less.IH [of l] sz n by auto
    obtain r' where r': "balance r = Some r'" "mset (inorder r') \<subseteq># mset (inorder r)" "size r' \<le> size r"
      "size r' = size r \<longrightarrow> num_balanced r'" using less.IH [of r] sz n by auto
    have res: "balance t = Some (Node l' d r')"
      using False t1(1) l'(1) r'(1) by (subst balance.simps) (simp add: n)
    have "mset (inorder (Node l' d r')) \<subseteq># mset (inorder t1)"
      using l'(2) r'(2) by (simp add: n subset_mset.add_mono)
    with t1(3) have sub: "mset (inorder (Node l' d r')) \<subseteq># mset (inorder t)" by simp
    have "num_balanced (Node l' d r')" if "size (Node l' d r') = size t"
    proof -
      have "size l' = size l" "size r' = size r" using that l'(3) r'(3) sz n by auto
      with l'(4) r'(4) t1(2) n show ?thesis by (simp add: near_def)
    qed
    moreover have "size (Node l' d r') \<le> size t" using size_mset_mono [OF sub] by simp
    ultimately show ?thesis using res sub by blast
  qed
qed

text \<open>C23: \<open>balance\<close> returns for every tree, although its loop has no bound and its right rotation
  can hang the old root in the wrong place: no record is invented, and unless a record was lost (the result
  has fewer nodes) all records are there, the numbers of nodes on the two sides of every node differ by at
  most one, and the height is the least possible for that many nodes.\<close>
theorem balance_returns:
  fixes t :: "'a tree"
  shows "\<exists>t'. balance t = Some t' \<and> mset (inorder t') \<subseteq># mset (inorder t)
    \<and> (size t' < size t
       \<or> mset (inorder t') = mset (inorder t) \<and> num_balanced t' \<and> (t = Leaf \<or> 2 ^ (height t' - 1) \<le> size t'))"
proof -
  obtain t' where t': "balance t = Some t'" "mset (inorder t') \<subseteq># mset (inorder t)" "size t' \<le> size t"
    "size t' = size t \<longrightarrow> num_balanced t'" using balance_spec by blast
  show ?thesis
  proof (cases "size t' = size t")
    case True
    have "size (mset (inorder t')) = size (mset (inorder t))" using True by simp
    then have "mset (inorder t') = mset (inorder t)"
      using t'(2) mset_subset_size [of "mset (inorder t')" "mset (inorder t)"]
      by (auto simp del: size_mset simp: subset_mset.le_less)
    moreover have "t' = Leaf \<Longrightarrow> t = Leaf" using True by (cases t) auto
    ultimately show ?thesis using t' True num_balanced_height [of t'] by auto
  qed (use t' in auto)
qed

declare bal_loop.simps [code] balance.simps [code]

text \<open>The tree the program builds comes out whole; a search tree of four nodes does not.\<close>

lemma balance_main:
  "balance (Node Leaf 1 (Node Leaf 2 (Node Leaf (3::nat) (Node (Node (Node (Node Leaf 4 Leaf) 5 Leaf) 6 Leaf) 7
     (Node (Node Leaf 8 Leaf) 9 Leaf)))))
   = Some (Node (Node (Node (Node Leaf 1 Leaf) 2 Leaf) 3 (Node Leaf 4 Leaf)) 5
     (Node (Node Leaf 6 Leaf) 7 (Node (Node Leaf 8 Leaf) 9 Leaf)))"
  by code_simp

lemma balance_loses:
  "balance (Node (Node Leaf 1 (Node Leaf 2 (Node Leaf (3::nat) Leaf))) 4 Leaf)
   = Some (Node (Node Leaf 1 Leaf) 2 (Node Leaf 4 Leaf))"
  by code_simp

lemma balance_unsorted:
  "balance (Node (Node Leaf 1 (Node (Node Leaf 2 Leaf) (3::nat) Leaf)) 4 Leaf)
   = Some (Node (Node Leaf 1 Leaf) 2 (Node Leaf 4 (Node Leaf 3 Leaf)))"
  by code_simp

section \<open>Deleting\<close>

text \<open>The node that the loop of \<open>delete\<close> stops at, with its subtrees.\<close>

fun bt_sub :: "score_tree \<Rightarrow> int \<Rightarrow> score_tree" where
  "bt_sub Leaf i = Leaf"
| "bt_sub (Node l d r) i =
     (if sc_id d \<noteq> i then (if i < sc_id d then bt_sub l i else bt_sub r i) else Node l d r)"

text \<open>The trees in which \<open>find_max\<close> finds the rightmost node.\<close>

definition max_ok :: "'a tree \<Rightarrow> bool" where
  "max_ok t \<longleftrightarrow> size (right t) \<le> 1"

lemma at_max_inorder:
  assumes "max_ok l" "l \<noteq> Leaf"
  shows "\<exists>t. at_max (set_r r) l = Some t \<and> inorder t = inorder l @ inorder r"
proof -
  obtain ll x lr where l: "l = Node ll x lr" using assms(2) by (cases l) auto
  show ?thesis
  proof (cases lr)
    case Leaf
    then show ?thesis by (simp add: l)
  next
    case (Node a y b)
    with assms(1) have "a = Leaf" "b = Leaf" by (auto simp: max_ok_def l)
    with Node show ?thesis by (simp add: l)
  qed
qed

lemma bt_delete_absent: "bt_sub t i = Leaf \<Longrightarrow> bt_delete t i = Some t"
  by (induction t) (auto split: if_splits)

lemma bt_delete_found:
  "bt_sub t i = Node l d r \<Longrightarrow> max_ok l \<or> l = Leaf \<Longrightarrow>
   \<exists>t' xs ys. bt_delete t i = Some t' \<and> inorder t = xs @ d # ys \<and> inorder t' = xs @ ys \<and> sc_id d = i"
proof (induction t)
  case (Node tl x tr)
  consider "sc_id x = i" | "sc_id x \<noteq> i" "i < sc_id x" | "sc_id x \<noteq> i" "\<not> i < sc_id x" by blast
  then show ?case
  proof cases
    case 1
    with Node.prems have eq: "tl = l" "x = d" "tr = r" by auto
    show ?thesis
    proof (cases "l = Leaf")
      case True
      with 1 eq show ?thesis by auto
    next
      case False
      with Node.prems(2) obtain t where "at_max (set_r r) l = Some t" "inorder t = inorder l @ inorder r"
        using at_max_inorder [of l r] by blast
      with 1 eq False show ?thesis by auto
    qed
  next
    case 2
    with Node.prems Node.IH(1) obtain t' xs ys where "bt_delete tl i = Some t'" "inorder tl = xs @ d # ys"
      "inorder t' = xs @ ys" "sc_id d = i" by auto
    with 2 show ?thesis by auto
  next
    case 3
    with Node.prems Node.IH(2) obtain t' xs ys where "bt_delete tr i = Some t'" "inorder tr = xs @ d # ys"
      "inorder t' = xs @ ys" "sc_id d = i" by auto
    with 3 show ?thesis
      by (intro exI [of _ "Node tl x t'"] exI [of _ "inorder tl @ x # xs"] exI [of _ ys]) auto
  qed
qed simp

lemma bt_delete_total: "\<exists>t'. bt_delete t i = Some t' \<and> mset (inorder t') \<subseteq># mset (inorder t)"
proof (induction t)
  case (Node l d r)
  have "\<exists>t'. at_max (set_r r) l = Some t' \<and> mset (inorder t') \<subseteq># add_mset d (mset (inorder l) + mset (inorder r))"
    if ne: "l \<noteq> Leaf"
  proof -
    obtain a x b where l: "l = Node a x b" using ne by (cases l) auto
    have "mset (inorder (hm b r)) \<subseteq># add_mset d (mset (inorder b) + mset (inorder r))"
      using mset_hm [of b r] subset_mset.order_trans mset_subset_eq_add_mset_cancel by (fastforce simp: subset_mset.add_increasing)
    then show ?thesis by (simp add: l at_max_eq ac_simps del: at_max.simps)
  qed
  with Node show ?case
    by (cases "l = Leaf") (auto intro: subset_mset.add_mono subset_mset.order_trans)
qed simp

lemma bt_sub_Leaf: "bt_sub t i = Leaf \<longleftrightarrow> bt_find t i = None"
  by (induction t) auto

text \<open>\<open>delete\<close> always returns and never invents a record. In a search tree without the id
  nothing changes; if the node found has a left subtree whose right subtree has at most one node (so that
  \<open>find_max\<close> finds the rightmost node), exactly that record disappears and the tree stays a search
  tree.\<close>
theorem bt_delete_removes:
  assumes "id_sorted t"
  shows "\<exists>t'. bt_delete t i = Some t' \<and> mset (inorder t') \<subseteq># mset (inorder t)
    \<and> (bt_find t i = None \<longrightarrow> t' = t)
    \<and> (bt_find t i \<noteq> None \<longrightarrow> max_ok (left (bt_sub t i)) \<longrightarrow>
        id_sorted t' \<and> (\<exists>d. sc_id d = i \<and> mset (inorder t) = add_mset d (mset (inorder t'))))"
proof -
  obtain t' where t': "bt_delete t i = Some t'" "mset (inorder t') \<subseteq># mset (inorder t)"
    using bt_delete_total by blast
  have absent: "t' = t" if "bt_find t i = None"
    using that bt_sub_Leaf bt_delete_absent [of t i] t'(1) by simp
  have found: "id_sorted t'" "\<exists>d. sc_id d = i \<and> mset (inorder t) = add_mset d (mset (inorder t'))"
    if f: "bt_find t i \<noteq> None" "max_ok (left (bt_sub t i))"
  proof -
    obtain l d r where s: "bt_sub t i = Node l d r"
      using f(1) bt_sub_Leaf by (cases "bt_sub t i") auto
    with f(2) bt_delete_found [OF s] t'(1) obtain xs ys where
      e: "inorder t = xs @ d # ys" "inorder t' = xs @ ys" "sc_id d = i" by auto
    then have "id_sorted t'" using assms by (auto simp: id_sorted_def sorted_append)
    with e show "id_sorted t'" "\<exists>d. sc_id d = i \<and> mset (inorder t) = add_mset d (mset (inorder t'))"
      by auto
  qed
  show ?thesis by (intro exI [of _ t'] conjI impI) (fact t' | rule absent found(1) found(2); assumption)+
qed

lemma bt_delete_removes_witness:
  "\<exists>t'. bt_delete (Node (Node Leaf (stu 1) Leaf) (stu 3) Leaf) 3 = Some t' \<and> id_sorted t'"
proof -
  have s: "id_sorted (Node (Node Leaf (stu 1) Leaf) (stu 3) Leaf)" by (simp add: id_sorted_def stu_def)
  show ?thesis using bt_delete_removes [OF s, of 3] by (auto simp: stu_def max_ok_def)
qed

text \<open>Otherwise other records disappear with it: deleting 4 loses 3.\<close>

lemma bt_delete_loses:
  "bt_delete (Node (Node Leaf (stu 1) (Node Leaf (stu 2) (Node Leaf (stu 3) Leaf))) (stu 4) Leaf) 4
   = Some (Node Leaf (stu 1) (Node Leaf (stu 2) Leaf))"
  by (simp add: stu_def)

section \<open>Traversal by levels\<close>

fun at_depth :: "'a tree \<Rightarrow> nat \<Rightarrow> 'a list" where
  "at_depth Leaf k = []"
| "at_depth (Node l d r) 0 = [d]"
| "at_depth (Node l d r) (Suc k) = at_depth l k @ at_depth r k"

definition level_order :: "'a tree \<Rightarrow> 'a list" where
  "level_order t = concat (map (at_depth t) [0..<height t])"

definition lev :: "'a tree list \<Rightarrow> nat \<Rightarrow> 'a list" where
  "lev ts k = concat (map (\<lambda>t. at_depth t k) ts)"

lemma lev_simps [simp]: "lev [] k = []" "lev (t # ts) k = at_depth t k @ lev ts k"
  "lev (ts @ us) k = lev ts k @ lev us k"
  by (simp_all add: lev_def)

lemma at_depth_high: "height t \<le> k \<Longrightarrow> at_depth t k = []"
  by (induction t k rule: at_depth.induct) auto

lemma lev_high: "\<forall>t \<in> set ts. height t \<le> k \<Longrightarrow> lev ts k = []"
  by (induction ts) (auto simp: at_depth_high)

lemma concat_shift: "concat (map f [0..<N]) @ f N = f 0 @ concat (map (\<lambda>k. f (Suc k)) [0..<N])"
  by (induction N) auto

text \<open>The queue holds what is left of one level and the part of the next level found so far.\<close>

definition bfs :: "nat \<Rightarrow> 'a tree list \<Rightarrow> 'a tree list \<Rightarrow> 'a list" where
  "bfs N as bs = lev as 0 @ concat (map (\<lambda>k. lev bs k @ lev as (Suc k)) [0..<N])"

lemma bfs_next_level: "\<forall>t \<in> set bs. height t \<le> N \<Longrightarrow> bfs N [] bs = bfs N bs []"
  using concat_shift [of "lev bs" N] lev_high [of bs N] by (simp add: bfs_def)

locale tree_queue = reliable_queue inv "\<lambda>_. True" cont enq deq
  for inv :: "'s \<Rightarrow> bool" and cont :: "'s \<Rightarrow> 'a tree list"
    and enq :: "'s \<Rightarrow> 'a tree \<Rightarrow> (int \<times> 's) option"
    and deq :: "'s \<Rightarrow> 'a tree \<Rightarrow> (int \<times> 'a tree \<times> 's) option"
begin

lemma enq_child:
  assumes "inv s"
  shows "\<exists>s'. (if t \<noteq> Leaf then map_option snd (enq s t) else Some s) = Some s' \<and> inv s'
    \<and> cont s' = cont s @ (if t \<noteq> Leaf then [t] else [])"
  using enq_ok [OF assms TrueI, of t] assms by auto

lemma travel_loop_bfs:
  "inv s \<Longrightarrow> cont s = as @ bs \<Longrightarrow> Leaf \<notin> set (cont s) \<Longrightarrow> \<forall>t \<in> set (cont s). height t \<le> N \<Longrightarrow>
   \<exists>s'. travel_loop enq deq s cur = Some (bfs N as bs, s') \<and> inv s' \<and> cont s' = []"
proof (induction "sum_list (map size (cont s))" arbitrary: s as bs cur rule: less_induct)
  case less
  have main: "\<exists>s'. travel_loop enq deq s cur = Some (bfs N (t # as) bs, s') \<and> inv s' \<and> cont s' = []"
    if c: "cont s = (t # as) @ bs" for t as bs
  proof -
    obtain l d r where t: "t = Node l d r" using less.prems(3) c by (cases t) auto
    obtain s1 where s1: "deq s cur = Some (0, t, s1)" "inv s1" "cont s1 = as @ bs"
      using deq_cons [OF less.prems(1), of t "as @ bs" cur] c by auto
    obtain s2 where s2: "(if l \<noteq> Leaf then map_option snd (enq s1 l) else Some s1) = Some s2" "inv s2"
      "cont s2 = cont s1 @ (if l \<noteq> Leaf then [l] else [])" using enq_child [OF s1(2), of l] by blast
    obtain s3 where s3: "(if r \<noteq> Leaf then map_option snd (enq s2 r) else Some s2) = Some s3" "inv s3"
      "cont s3 = cont s2 @ (if r \<noteq> Leaf then [r] else [])" using enq_child [OF s2(2), of r] by blast
    let ?kids = "(if l \<noteq> Leaf then [l] else []) @ (if r \<noteq> Leaf then [r] else [])"
    have c3: "cont s3 = as @ (bs @ ?kids)" using s1 s2 s3 by simp
    obtain s' where s': "travel_loop enq deq s3 t = Some (bfs N as (bs @ ?kids), s')" "inv s'" "cont s' = []"
    proof (atomize_elim, rule less.hyps [OF _ s3(2) c3])
      show "sum_list (map size (cont s3)) < sum_list (map size (cont s))" by (simp add: c c3 t)
      show "Leaf \<notin> set (cont s3)" using less.prems(3) by (auto simp: c c3)
      have "height l \<le> N" "height r \<le> N" using less.prems(4) by (auto simp: c t)
      then show "\<forall>t \<in> set (cont s3). height t \<le> N" using less.prems(4) by (auto simp: c c3)
    qed
    have "lev ?kids k = at_depth t (Suc k)" for k by (simp add: t)
    then have "bfs N (t # as) bs = d # bfs N as (bs @ ?kids)" by (simp add: bfs_def t)
    then show ?thesis
      by (subst travel_loop.simps) (use s1 s2 s3 s' in \<open>simp add: t\<close>)
  qed
  show ?case
  proof (cases as)
    case (Cons t as')
    with main less.prems(2) show ?thesis by auto
  next
    case Nil
    show ?thesis
    proof (cases bs)
      case (Cons t bs')
      have "bfs N [] bs = bfs N bs []"
        by (rule bfs_next_level) (use less.prems(2,4) Nil in auto)
      with main [of t bs' "[]"] less.prems(2) Nil Cons show ?thesis by simp
    next
      case bs: Nil
      then have "deq s cur = Some (- 1, cur, s)"
        using deq_nil [OF less.prems(1)] less.prems(2) Nil by simp
      then have "travel_loop enq deq s cur = Some ([], s)" by (subst travel_loop.simps) simp
      with less.prems(1,2) Nil bs show ?thesis by (simp add: bfs_def)
    qed
  qed
qed

end

interpretation list_tree_queue: tree_queue adt_ok adt_cont lqueue_en lqueue_de
  by unfold_locales

text \<open>With memory available, \<open>travel\<close> prints the records level by level, from the root down
  and each level from left to right, whatever the shape of the tree, and gives the queue back.\<close>
theorem travel_level_order:
  fixes t :: "'a tree"
  assumes "heap_ok h" "\<forall>n. \<not> oom h n"
  shows "\<exists>h'. bt_travel t h = Some (level_order t, h')"
proof (cases "t = Leaf")
  case True
  then show ?thesis by (simp add: bt_travel_def level_order_def)
next
  case False
  obtain q h1 where c: "queue_create 8 h = Some (q, h1)" "adt_ok (q, h1)" "adt_cont (q, h1) = []" "q \<noteq> NULL"
    using llist_create_adt [OF assms, of 8] by (auto simp: queue_create_def)
  obtain s1 where s1: "lqueue_en (q, h1) t = Some (0, s1)" "adt_ok s1" "adt_cont s1 = [t]"
    using list_rqueue.enq_ok [OF c(2) TrueI, of t] c(3) by auto
  have "adt_cont s1 = [] @ [t]" "Leaf \<notin> set (adt_cont s1)" "\<forall>u \<in> set (adt_cont s1). height u \<le> height t"
    using s1(3) False by auto
  then obtain s2 where s2: "travel_loop lqueue_en lqueue_de s1 Leaf = Some (bfs (height t) [] [t], s2)" "adt_ok s2"
    using list_tree_queue.travel_loop_bfs [OF s1(2)] by blast
  obtain h2 where "queue_destroy (fst s2) (snd s2) = Some h2"
    using s2(2) llist_destroy_ring by (fastforce simp: adt_ok_def llist_ok_def queue_destroy_def)
  moreover have "bfs (height t) [] [t] = level_order t"
    by (simp add: bfs_def level_order_def)
  ultimately show ?thesis using False c s1 s2 by (simp add: bt_travel_def case_prod_unfold)
qed

lemma travel_level_order_witness:
  "\<exists>h'. bt_travel (Node (Node (Node Leaf (4::nat) Leaf) 2 Leaf) 1 (Node Leaf 3 Leaf)) empty_heap
     = Some ([1, 2, 3, 4], h')"
  using travel_level_order [OF empty_heap_ok, of "Node (Node (Node Leaf (4::nat) Leaf) 2 Leaf) 1 (Node Leaf 3 Leaf)"]
  by (auto simp: empty_heap_def level_order_def upt_rec)

end
