(* ===== verification/BTreeMain.thy ===== *)
theory BTreeMain
  imports BTree Decimal
begin

text \<open>
  The program of \<open>ds/tree/btree/main.c\<close>: nine records are inserted, the tree is drawn, balanced, drawn again and
  travelled by levels. \<open>rnd k\<close> is what the \<open>k\<close>-th call of \<open>rand\<close> returns, \<open>nomem k\<close> tells whether
  the \<open>malloc\<close> of the \<open>k\<close>-th insertion fails. The lemma gives the whole output.
\<close>

abbreviation NAMESIZE :: nat where "NAMESIZE \<equiv> 32"

definition arr :: "int list" where
  "arr = [1, 2, 3, 7, 6, 5, 9, 8, 4]"

text \<open>One round of the loop; the result of \<open>insert\<close> is not looked at.\<close>

definition main_record :: "(nat \<Rightarrow> int) \<Rightarrow> nat \<Rightarrow> score_st" where
  "main_record rnd i = \<lparr>sc_id = arr ! i, sc_name = take (NAMESIZE - 1) (''stu'' @ sdec (arr ! i)),
     sc_math = rnd (2 * i) mod 100, sc_chinese = rnd (2 * i + 1) mod 100\<rparr>"

fun main_fill :: "(nat \<Rightarrow> bool) \<Rightarrow> (nat \<Rightarrow> int) \<Rightarrow> nat list \<Rightarrow> score_tree \<Rightarrow> score_tree" where
  "main_fill nomem rnd [] t = t"
| "main_fill nomem rnd (i # is) t = main_fill nomem rnd is (snd (bt_insert (nomem i) t (main_record rnd i)))"

text \<open>What the two drawings and the traversal print.\<close>

definition bt_main :: "(nat \<Rightarrow> bool) \<Rightarrow> (nat \<Rightarrow> int) \<Rightarrow> score_tree lheap
    \<Rightarrow> ((nat \<times> score_st) list \<times> (nat \<times> score_st) list \<times> score_st list \<times> score_tree lheap) option" where
  "bt_main nomem rnd h =
     (let tree = main_fill nomem rnd [0..<length arr] Leaf
      in do { tree' \<leftarrow> balance tree;
              (ds, h) \<leftarrow> bt_travel tree' h;
              Some (draw tree, draw tree', ds, h) })"

lemma main_record_id: "sc_id (main_record rnd i) = arr ! i"
  by (simp add: main_record_def)

lemma main_fill_tree:
  "main_fill (\<lambda>_. False) rnd [0..<length arr] Leaf =
   (let r = main_record rnd
    in Node Leaf (r 0) (Node Leaf (r 1) (Node Leaf (r 2) (Node (Node (Node (Node Leaf (r 8) Leaf) (r 5) Leaf) (r 4) Leaf) (r 3)
         (Node (Node Leaf (r 7) Leaf) (r 6) Leaf)))))"
proof -
  have idx: "[0..<length arr] = [0, 1, 2, 3, 4, 5, 6, 7, 8]" by (simp add: arr_def upt_rec)
  have ids: "sc_id (main_record rnd 0) = 1" "sc_id (main_record rnd 1) = 2" "sc_id (main_record rnd (Suc 0)) = 2"
    "sc_id (main_record rnd 2) = 3" "sc_id (main_record rnd 3) = 7" "sc_id (main_record rnd 4) = 6"
    "sc_id (main_record rnd 5) = 5" "sc_id (main_record rnd 6) = 9" "sc_id (main_record rnd 7) = 8"
    "sc_id (main_record rnd 8) = 4"
    by (simp_all add: main_record_id arr_def)
  show ?thesis unfolding idx Let_def by (simp add: ids)
qed

lemma balance_shape:
  fixes a :: "'a::equal"
  shows   "balance (Node Leaf a (Node Leaf b (Node Leaf c (Node (Node (Node (Node Leaf d Leaf) e Leaf) f Leaf) g
     (Node (Node Leaf h Leaf) i Leaf)))))
   = Some (Node (Node (Node (Node Leaf a Leaf) b Leaf) c (Node Leaf d Leaf)) e
     (Node (Node Leaf f Leaf) g (Node (Node Leaf h Leaf) i Leaf)))"
  by code_simp

text \<open>
  The output: the first drawing is a tree in which every record has at most one child but for two, the second the
  balanced one, with 5 at its root, and the traversal prints its levels. Names and marks are those the records were made with.
\<close>

theorem bt_main_output:
  assumes "heap_ok h" "\<forall>n. \<not> oom h n"
  shows "\<exists>d1 d2 ds h'. bt_main (\<lambda>_. False) rnd h = Some (d1, d2, ds, h')
    \<and> map (\<lambda>(k, d). (k, sc_id d)) d1 = [(4, 9), (5, 8), (3, 7), (4, 6), (5, 5), (6, 4), (2, 3), (1, 2), (0, 1)]
    \<and> map (\<lambda>(k, d). (k, sc_id d)) d2 = [(2, 9), (3, 8), (1, 7), (2, 6), (0, 5), (2, 4), (1, 3), (2, 2), (3, 1)]
    \<and> map sc_id ds = [5, 3, 7, 2, 4, 6, 9, 1, 8]
    \<and> set ds = main_record rnd ` {..<length arr} \<and> snd ` set d2 = set ds"
proof -
  let ?r = "main_record rnd"
  let ?t = "Node (Node (Node (Node Leaf (?r 0) Leaf) (?r 1) Leaf) (?r 2) (Node Leaf (?r 8) Leaf)) (?r 5)
     (Node (Node Leaf (?r 4) Leaf) (?r 3) (Node (Node Leaf (?r 7) Leaf) (?r 6) Leaf))"
  obtain h' where h': "bt_travel ?t h = Some (level_order ?t, h')" using travel_level_order [OF assms] by blast
  have bal: "balance (main_fill (\<lambda>_. False) rnd [0..<length arr] Leaf) = Some ?t"
    unfolding main_fill_tree Let_def by (rule balance_shape)
  have idx: "{..<length arr} = {0, 1, 2, 3, 4, 5, 6, 7, 8}" by (auto simp: arr_def)
  have lev: "level_order ?t = map ?r [5, 2, 3, 1, 8, 4, 6, 0, 7]" by (simp add: level_order_def upt_rec)
  have "bt_main (\<lambda>_. False) rnd h =
      Some (draw (main_fill (\<lambda>_. False) rnd [0..<length arr] Leaf), draw ?t, level_order ?t, h')"
    unfolding bt_main_def Let_def bal by (simp add: h' del: One_nat_def)
  then show ?thesis
    unfolding lev main_fill_tree Let_def idx by (simp add: draw_def main_record_id) (simp add: arr_def; blast)
qed

end
