(* ===== verification/BallClock.thy ===== *)
theory BallClock
  imports ArrStack ArrQueue
begin

text \<open>
  The ball clock of \<open>ds/line/ball_clock/main.c\<close>, a client of the array queue and three array stacks
  with 32 slots each: 27 balls run through a minute, a five-minute and an hour stack, and after twelve
  hours \<open>check\<close> decides whether they are back in order. \<open>check\<close> is modelled as written: it compares
  every slot but the last with \<open>data[(i + 1) / MAXSIZE]\<close>, which is slot 0 or 1. An abstract machine on
  lists (with the contents of these two slots) is shown to do what the program does; running it tells
  when the program stops. The variables \<open>t\<close>, \<open>value\<close> and \<open>time\<close> start with indeterminate values, which
  are parameters.
\<close>

section \<open>The program\<close>

abbreviation MAXSIZE :: nat where "MAXSIZE \<equiv> 32"

definition NR_BALL :: int where
  "NR_BALL = 27"

record clock =
  cq :: queue
  cmin :: sqstack
  cfive :: sqstack
  chour :: sqstack
  ct :: int
  cvalue :: int
  ctime :: int

text \<open>The loop of \<open>check\<close> from index \<open>i\<close>; the condition is tested behind the body.\<close>

partial_function (option) check_loop :: "queue \<Rightarrow> int \<Rightarrow> bool option" where
  "check_loop qu i =
     Option.bind (arr_get (qu_data qu) i) (\<lambda>x.
     Option.bind (arr_get (qu_data qu) ((i + 1) div int MAXSIZE)) (\<lambda>y.
     if x > y then Some False
     else if (i + 1) mod int MAXSIZE \<noteq> tail qu then check_loop qu ((i + 1) mod int MAXSIZE)
     else Some True))"

definition check :: "queue \<Rightarrow> bool option" where
  "check qu = check_loop qu ((head qu + 1) mod int MAXSIZE)"

text \<open>\<open>while (!st_isempty(st)) { st_pop(st, &value); qu_enqueue(qu, &value); }\<close>\<close>

definition pour :: "sqstack \<Rightarrow> queue \<Rightarrow> int \<Rightarrow> (sqstack \<times> queue \<times> int) option" where
  "pour st qu value =
     c_while (\<lambda>(st, qu, v). \<not> st_isempty st)
       (\<lambda>(st, qu, v). do {
          (r, v, st) \<leftarrow> st_pop st v;
          (r, qu) \<leftarrow> qu_enqueue MAXSIZE qu v;
          Some (st, qu, v) })
       (st, qu, value)"

text \<open>One pass of the endless loop, and whether it ended with \<open>break\<close>.\<close>

definition clock_round :: "clock \<Rightarrow> (clock \<times> bool) option" where
  "clock_round c = do {
     (r, t, qu) \<leftarrow> qu_dequeue MAXSIZE (cq c) (ct c);
     time \<leftarrow> cint (ctime c + 1);
     let c = c\<lparr>cq := qu, ct := t, ctime := time\<rparr>;
     if top (cmin c) \<noteq> 3 then do {
       (r, st) \<leftarrow> st_push 32 (cmin c) t;
       Some (c\<lparr>cmin := st\<rparr>, False) }
     else do {
       (st, qu, v) \<leftarrow> pour (cmin c) (cq c) (cvalue c);
       let c = c\<lparr>cmin := st, cq := qu, cvalue := v\<rparr>;
       if top (cfive c) \<noteq> 10 then do {
         (r, st) \<leftarrow> st_push 32 (cfive c) t;
         Some (c\<lparr>cfive := st\<rparr>, False) }
       else do {
         (st, qu, v) \<leftarrow> pour (cfive c) (cq c) (cvalue c);
         let c = c\<lparr>cfive := st, cq := qu, cvalue := v\<rparr>;
         if top (chour c) \<noteq> 10 then do {
           (r, st) \<leftarrow> st_push 32 (chour c) t;
           Some (c\<lparr>chour := st\<rparr>, False) }
         else do {
           (st, qu, v) \<leftarrow> pour (chour c) (cq c) (cvalue c);
           let c = c\<lparr>chour := st, cq := qu, cvalue := v\<rparr>;
           (r, qu) \<leftarrow> qu_enqueue MAXSIZE (cq c) t;
           let c = c\<lparr>cq := qu\<rparr>;
           ok \<leftarrow> check (cq c);
           Some (c, ok) } } } }"

partial_function (option) clock_loop :: "clock \<Rightarrow> clock option" where
  "clock_loop c =
     Option.bind (clock_round c) (\<lambda>(c, stop). if stop then Some c else clock_loop c)"

definition fill_balls :: "queue \<Rightarrow> queue option" where
  "fill_balls qu = map_option snd
     (c_while (\<lambda>(i, qu). i \<le> NR_BALL)
       (\<lambda>(i, qu). do { (r, qu) \<leftarrow> qu_enqueue MAXSIZE qu i; Some (i + 1, qu) }) (1, qu))"

text \<open>
  \<open>main\<close>: the arguments are what the four calls of \<open>malloc\<close> return and the indeterminate variables;
  the result is the list printed first and the time printed at the end.
\<close>

definition clock_main ::
  "queue option \<Rightarrow> sqstack option \<Rightarrow> sqstack option \<Rightarrow> sqstack option \<Rightarrow> int \<Rightarrow> int \<Rightarrow> int
   \<Rightarrow> (int list \<times> int) outcome option" where
  "clock_main mq m1 m2 m3 t value time =
     (case qu_create mq of None \<Rightarrow> Some (Exit 1 ([], 0)) | Some qu \<Rightarrow>
      case st_create m1 of None \<Rightarrow> Some (Exit 1 ([], 0)) | Some s1 \<Rightarrow>
      case st_create m2 of None \<Rightarrow> Some (Exit 1 ([], 0)) | Some s2 \<Rightarrow>
      case st_create m3 of None \<Rightarrow> Some (Exit 1 ([], 0)) | Some s3 \<Rightarrow> do {
        qu \<leftarrow> fill_balls qu;
        shown \<leftarrow> qu_travel MAXSIZE qu;
        c \<leftarrow> clock_loop \<lparr>cq = qu, cmin = s1, cfive = s2, chour = s3, ct = t, cvalue = value, ctime = time\<rparr>;
        Some (Done (shown, ctime c)) })"

section \<open>The abstract machine\<close>

text \<open>The queue as a list, its tail index and the contents of slots 0 and 1.\<close>

type_synonym aqueue = "int list \<times> int \<times> int \<times> int"
type_synonym aclock = "aqueue \<times> int list \<times> int list \<times> int list"

definition a_enq :: "aqueue \<Rightarrow> int \<Rightarrow> aqueue" where
  "a_enq = (\<lambda>(q, tl, s0, s1) x.
     let t = (if tl = 31 then 0 else tl + 1)
     in (q @ [x], t, if t = 0 then x else s0, if t = 1 then x else s1))"

text \<open>The comparisons of \<open>check\<close>: the element in slot 31 with slot 1, the others with slot 0.\<close>

definition a_check :: "aqueue \<Rightarrow> bool" where
  "a_check = (\<lambda>(q, tl, s0, s1).
     list_all (\<lambda>(k, x). x \<le> (if (tl + 33 - int (length q) + int k) mod 32 = 31 then s1 else s0))
       (enumerate 0 (butlast q)))"

definition a_round :: "aclock \<Rightarrow> aclock \<times> bool" where
  "a_round = (\<lambda>((q, rest), m, f, h).
     let x = hd q; qs = (tl q, rest)
     in if length m < 4 then ((qs, x # m, f, h), False)
        else let qs = foldl a_enq qs m
        in if length f < 11 then ((qs, [], x # f, h), False)
        else let qs = foldl a_enq qs f
        in if length h < 11 then ((qs, [], [], x # h), False)
        else let qs = a_enq (foldl a_enq qs h) x
        in ((qs, [], [], []), a_check qs))"

primrec a_run :: "nat \<Rightarrow> aclock \<Rightarrow> aclock option" where
  "a_run 0 a = Some a"
| "a_run (Suc n) a = (case a_round a of (a, stop) \<Rightarrow> if stop then None else a_run n a)"

section \<open>The simulation\<close>

definition qabs :: "queue \<Rightarrow> aqueue" where
  "qabs sq = (qu_cont 32 sq, tail sq, qu_data sq ! 0, qu_data sq ! 1)"

definition cabs :: "clock \<Rightarrow> aclock" where
  "cabs c = (qabs (cq c), st_cont (cmin c), st_cont (cfive c), st_cont (chour c))"

definition balls :: "aclock \<Rightarrow> int multiset" where
  "balls = (\<lambda>((q, rest), m, f, h). mset q + mset m + mset f + mset h)"

definition clock_ok :: "clock \<Rightarrow> bool" where
  "clock_ok c \<longleftrightarrow> qu_ok 32 (cq c) \<and> st_ok 32 (cmin c) \<and> st_ok 32 (cfive c) \<and> st_ok 32 (chour c)
     \<and> size (balls (cabs c)) = 27 \<and> length (st_cont (cmin c)) \<le> 4 \<and> length (st_cont (cfive c)) \<le> 11
     \<and> length (st_cont (chour c)) \<le> 11"

lemma enq_abs:
  assumes ok: "qu_ok 32 sq" and room: "length (qu_cont 32 sq) < 31"
  shows "\<exists>sq'. qu_enqueue 32 sq x = Some (0, sq') \<and> qu_ok 32 sq' \<and> qabs sq' = a_enq (qabs sq) x"
proof -
  obtain sq' where sq': "qu_enqueue 32 sq x = Some (0, sq')" "qu_ok 32 sq'" "qu_cont 32 sq' = qu_cont 32 sq @ [x]"
    using qu_enqueue_room [OF ok, of x] room by auto
  let ?t = "(tail sq + 1) mod 32"
  have len: "length (qu_data sq) = 32" "0 \<le> tail sq" "tail sq < 32" using ok by (auto simp: qu_ok_def)
  have t: "?t = (if tail sq = 31 then 0 else tail sq + 1)" using len by auto
  have "sq' = sq\<lparr>qu_data := (qu_data sq)[nat ?t := x], tail := ?t\<rparr>"
    using sq'(1) by (auto simp: qu_enqueue_def Let_def bind_eq_Some_conv arr_set_eq_Some split: if_splits)
  then have "qu_data sq' = (qu_data sq)[nat ?t := x]" "tail sq' = ?t" by simp_all
  moreover have "(qu_data sq)[nat ?t := x] ! 0 = (if ?t = 0 then x else qu_data sq ! 0)"
    "(qu_data sq)[nat ?t := x] ! 1 = (if ?t = 1 then x else qu_data sq ! 1)"
    using len by (auto simp: nth_list_update)
  ultimately have "qabs sq' = a_enq (qabs sq) x"
    using sq'(3) by (simp only: qabs_def a_enq_def Let_def split t)
  with sq' show ?thesis by blast
qed

lemma pour_abs:
  "st_ok 32 st \<Longrightarrow> qu_ok 32 sq \<Longrightarrow> length (st_cont st) + length (qu_cont 32 sq) \<le> 31 \<Longrightarrow>
   \<exists>st' sq' v'. pour st sq v = Some (st', sq', v') \<and> st_ok 32 st' \<and> qu_ok 32 sq' \<and> st_cont st' = []
     \<and> qabs sq' = foldl a_enq (qabs sq) (st_cont st)"
proof (induction "st_cont st" arbitrary: st sq v)
  case Nil
  then have "st_isempty st" using st_isempty_iff [of 32 st] by simp
  then have "pour st sq v = Some (st, sq, v)" by (simp add: pour_def c_while_exit)
  with Nil show ?case by simp
next
  case (Cons x xs)
  obtain st1 where st1: "st_pop st v = Some (0, x, st1)" "st_ok 32 st1" "st_cont st1 = xs"
    using arr_stack.pop_cons [OF Cons.prems(1), of x xs v] Cons.hyps(2) by auto
  have c: "st_cont st = x # xs" using Cons.hyps(2) by simp
  obtain sq1 where sq1: "qu_enqueue 32 sq x = Some (0, sq1)" "qu_ok 32 sq1" "qabs sq1 = a_enq (qabs sq) x"
    using enq_abs [OF Cons.prems(2), of x] Cons.prems(3) c by auto
  have len: "length (qu_cont 32 sq1) = Suc (length (qu_cont 32 sq))"
    using sq1(3) by (auto simp: qabs_def a_enq_def Let_def)
  have "\<not> st_isempty st" using st_isempty_iff [OF Cons.prems(1)] c by simp
  then have "pour st sq v = pour st1 sq1 x"
    unfolding pour_def by (subst c_while_step [where s' = "(st1, sq1, x)"]) (simp_all add: st1 sq1)
  moreover have "\<exists>st' sq' v'. pour st1 sq1 x = Some (st', sq', v') \<and> st_ok 32 st' \<and> qu_ok 32 sq' \<and> st_cont st' = []
     \<and> qabs sq' = foldl a_enq (qabs sq1) (st_cont st1)"
    using Cons.hyps(1) [of st1 sq1 x] st1 sq1(2) Cons.prems(3) c len by auto
  ultimately show ?case using st1(3) sq1(3) c by simp
qed

lemma a_enq_mset: "mset (fst (a_enq qs x)) = add_mset x (mset (fst qs))"
  by (cases qs) (simp add: a_enq_def Let_def)

lemma foldl_a_enq_mset: "mset (fst (foldl a_enq qs xs)) = mset (fst qs) + mset xs"
  by (induction xs arbitrary: qs) (simp_all add: a_enq_mset)

lemma qabs_fst: "fst (qabs sq) = qu_cont 32 sq"
  by (simp add: qabs_def)

text \<open>The check on the slots is the check on the list.\<close>

lemma tail_mod:
  assumes "qu_ok M sq"
  shows "tail sq = (head sq + int (qu_len M sq)) mod int M"
proof -
  have "int (qu_len M sq) = (tail sq - head sq) mod int M" using assms by (auto simp: qu_len_def qu_ok_def)
  then have "(head sq + int (qu_len M sq)) mod int M = tail sq mod int M" by (simp add: mod_add_right_eq)
  with assms show ?thesis by (simp add: qu_ok_def)
qed

lemma slot_step: "(int (slot 32 h k) + 1) mod 32 = int (slot 32 h (Suc k))"
  by (simp add: slot_def mod_simps add.assoc)

lemma slot_tail:
  assumes "qu_ok 32 sq" "qu_len 32 sq = Suc n"
  shows "tail sq = int (slot 32 (head sq) n)"
  using tail_mod [OF assms(1)] assms(2) by (simp add: slot_def add.assoc)

definition cmp_ok :: "queue \<Rightarrow> nat \<Rightarrow> bool" where
  "cmp_ok sq k \<longleftrightarrow> qu_cont 32 sq ! k
     \<le> (if slot 32 (head sq) k = 31 then qu_data sq ! 1 else qu_data sq ! 0)"

lemma check_loop_eq:
  assumes ok: "qu_ok 32 sq" and len: "qu_len 32 sq = Suc n"
  shows "k < n \<Longrightarrow> check_loop sq (int (slot 32 (head sq) k)) = Some (\<forall>j. k \<le> j \<longrightarrow> j < n \<longrightarrow> cmp_ok sq j)"
proof (induction "n - k" arbitrary: k)
  case (Suc d)
  let ?s = "slot 32 (head sq) k"
  have s: "?s < 32" by (rule slot_less) simp
  have data: "length (qu_data sq) = 32" using ok by (simp add: qu_ok_def)
  have n31: "Suc n < 32" using qu_len_less [OF ok] len by simp
  have x: "arr_get (qu_data sq) (int ?s) = Some (qu_cont 32 sq ! k)"
    using s data Suc.prems len by (simp add: qu_cont_def window_def del: upt_Suc)
  have d: "(int ?s + 1) div 32 = (if ?s = 31 then 1 else 0)" using s by auto
  have y: "arr_get (qu_data sq) ((int ?s + 1) div 32) =
      Some (if ?s = 31 then qu_data sq ! 1 else qu_data sq ! 0)"
    using data unfolding d by simp
  have step: "check_loop sq (int ?s) =
      (if \<not> cmp_ok sq k then Some False
       else if Suc k \<noteq> n then check_loop sq (int (slot 32 (head sq) (Suc k))) else Some True)"
  proof -
    have "int (slot 32 (head sq) (Suc k)) = tail sq \<longleftrightarrow> Suc k = n"
      using slot_tail [OF ok len] slot_inj [of 32 "head sq" "Suc k" n] Suc.prems n31 by auto
    then show ?thesis
      using x y by (subst check_loop.simps) (simp add: slot_step cmp_ok_def)
  qed
  have split: "(\<forall>j. k \<le> j \<longrightarrow> j < n \<longrightarrow> cmp_ok sq j)
      \<longleftrightarrow> cmp_ok sq k \<and> (\<forall>j. Suc k \<le> j \<longrightarrow> j < n \<longrightarrow> cmp_ok sq j)"
  proof -
    have "j = k \<or> Suc k \<le> j \<longleftrightarrow> k \<le> j" for j by linarith
    then show ?thesis using Suc.prems by metis
  qed
  show ?case
  proof (cases "Suc k = n")
    case True
    then show ?thesis using step split by auto
  next
    case False
    with Suc have "check_loop sq (int (slot 32 (head sq) (Suc k)))
        = Some (\<forall>j. Suc k \<le> j \<longrightarrow> j < n \<longrightarrow> cmp_ok sq j)" by simp
    then show ?thesis using step split False by simp
  qed
qed simp

lemma check_abs:
  assumes ok: "qu_ok 32 sq" and len: "qu_len 32 sq = Suc n" "0 < n"
  shows "check sq = Some (a_check (qabs sq))"
proof -
  have "check sq = check_loop sq (int (slot 32 (head sq) 0))" by (simp add: check_def slot_def)
  also have "\<dots> = Some (\<forall>j < n. cmp_ok sq j)" using check_loop_eq [OF ok len(1), of 0] len(2) by simp
  also have "(\<forall>j < n. cmp_ok sq j) \<longleftrightarrow> a_check (qabs sq)"
  proof -
    let ?q = "qu_cont 32 sq"
    have pos: "(tail sq + 33 - int (length ?q) + int j) mod 32 = int (slot 32 (head sq) j)" for j
    proof -
      have "(tail sq + 33 - int (length ?q) + int j) mod 32
          = ((head sq + int (qu_len 32 sq)) mod 32 + (33 - int (qu_len 32 sq) + int j)) mod 32"
        using tail_mod [OF ok] by (simp add: algebra_simps)
      also have "\<dots> = (head sq + int (qu_len 32 sq) + (33 - int (qu_len 32 sq) + int j)) mod 32"
        by (rule mod_add_left_eq)
      also have "\<dots> = (head sq + 1 + int j + 32) mod 32" by (simp add: algebra_simps)
      also have "\<dots> = (head sq + 1 + int j) mod 32" by (rule mod_add_self2)
      finally show ?thesis by (simp add: slot_def)
    qed
    have "a_check (qabs sq) \<longleftrightarrow> (\<forall>j < n. butlast ?q ! j
        \<le> (if (tail sq + 33 - int (length ?q) + int j) mod 32 = 31 then qu_data sq ! 1 else qu_data sq ! 0))"
      using len(1) by (auto simp: a_check_def qabs_def list_all_length nth_enumerate_eq)
    also have "\<dots> \<longleftrightarrow> (\<forall>j < n. cmp_ok sq j)"
      unfolding pos using len(1) by (auto simp: cmp_ok_def nth_butlast)
    finally show ?thesis by simp
  qed
  finally show ?thesis .
qed

text \<open>One round of the program is one round of the machine; no operation is ever refused.\<close>

lemma st_top_len: "st_ok M st \<Longrightarrow> top st = int (length (st_cont st)) - 1"
  using st_cont_length [of M st] by simp

lemma push_abs:
  assumes "st_ok 32 st" "length (st_cont st) < 32"
  shows "\<exists>st'. st_push 32 st x = Some (0, st') \<and> st_ok 32 st' \<and> st_cont st' = x # st_cont st"
  using arr_stack.push_room [OF assms(1) TrueI assms(2)] .

lemma size_balls: "size (balls (cabs c)) = length (qu_cont 32 (cq c)) + length (st_cont (cmin c))
    + length (st_cont (cfive c)) + length (st_cont (chour c))"
  by (simp add: balls_def cabs_def qabs_def)

lemma foldl_a_enq_len: "length (fst (foldl a_enq qs xs)) = length (fst qs) + length xs"
  using foldl_a_enq_mset [of qs xs] by (metis size_mset size_union)

lemma clock_round_abs:
  assumes ok: "clock_ok c" and time: "is_cint (ctime c + 1)"
  shows "\<exists>c' stop. clock_round c = Some (c', stop) \<and> clock_ok c' \<and> a_round (cabs c) = (cabs c', stop)
    \<and> ctime c' = ctime c + 1 \<and> balls (cabs c') = balls (cabs c)"
proof -
  have q: "qu_ok 32 (cq c)" and m: "st_ok 32 (cmin c)" and f: "st_ok 32 (cfive c)" and h: "st_ok 32 (chour c)"
    and lens: "length (st_cont (cmin c)) \<le> 4" "length (st_cont (cfive c)) \<le> 11" "length (st_cont (chour c)) \<le> 11"
    and total: "length (qu_cont 32 (cq c)) + length (st_cont (cmin c)) + length (st_cont (cfive c))
      + length (st_cont (chour c)) = 27"
    using ok by (simp_all add: clock_ok_def size_balls)
  let ?q = "qu_cont 32 (cq c)"
  have "0 < length ?q" using total lens by linarith
  then have "?q \<noteq> []" by (cases ?q) simp_all
  then obtain x xs where c: "?q = x # xs" by (cases ?q) auto
  obtain q1 where q1: "qu_dequeue MAXSIZE (cq c) (ct c) = Some (0, x, q1)" "qu_ok 32 q1" "qu_cont 32 q1 = xs"
    using qu_dequeue_cons [OF q c] by blast
  have same: "tail q1 = tail (cq c)" "qu_data q1 = qu_data (cq c)"
    using q1(1) by (auto simp: qu_dequeue_def Let_def bind_eq_Some_conv split: if_splits)
  let ?qs = "(xs, tail (cq c), qu_data (cq c) ! 0, qu_data (cq c) ! 1)"
  have abs1: "qabs q1 = ?qs" using q1(3) same by (simp add: qabs_def)
  let ?c1 = "c\<lparr>cq := q1, ct := x, ctime := ctime c + 1\<rparr>"
  show ?thesis
  proof (cases "length (st_cont (cmin c)) < 4")
    case True
    obtain s where s: "st_push 32 (cmin c) x = Some (0, s)" "st_ok 32 s" "st_cont s = x # st_cont (cmin c)"
      using push_abs [OF m, of x] True by auto
    have "clock_round c = Some (?c1\<lparr>cmin := s\<rparr>, False)"
      using q1 time s True st_top_len [OF m] by (simp add: clock_round_def Let_def)
    moreover have "a_round (cabs c) = (cabs (?c1\<lparr>cmin := s\<rparr>), False)"
      using True c abs1 s by (simp add: a_round_def cabs_def qabs_def [of "cq c"])
    moreover have "balls (cabs (?c1\<lparr>cmin := s\<rparr>)) = balls (cabs c)"
      using c abs1 s by (simp add: balls_def cabs_def qabs_def [of "cq c"])
    moreover from this have "clock_ok (?c1\<lparr>cmin := s\<rparr>)"
      using ok q1 s True by (simp add: clock_ok_def)
    ultimately show ?thesis by auto
  next
    case m4: False
    obtain s1 q2 v2 where p1: "pour (cmin c) q1 (cvalue c) = Some (s1, q2, v2)" "st_ok 32 s1" "qu_ok 32 q2"
      "st_cont s1 = []" "qabs q2 = foldl a_enq ?qs (st_cont (cmin c))"
      using pour_abs [OF m q1(2), of "cvalue c"] q1(3) total c abs1 by auto
    have l2: "length (qu_cont 32 q2) = length xs + length (st_cont (cmin c))"
      using foldl_a_enq_len [of ?qs "st_cont (cmin c)"] p1(5) qabs_fst [of q2] by simp
    let ?c2 = "?c1\<lparr>cmin := s1, cq := q2, cvalue := v2\<rparr>"
    show ?thesis
    proof (cases "length (st_cont (cfive c)) < 11")
      case True
      obtain s where s: "st_push 32 (cfive c) x = Some (0, s)" "st_ok 32 s" "st_cont s = x # st_cont (cfive c)"
        using push_abs [OF f, of x] True by auto
      have "clock_round c = Some (?c2\<lparr>cfive := s\<rparr>, False)"
        using q1 time s True m4 lens(1) st_top_len [OF m] st_top_len [OF f] p1
        by (simp add: clock_round_def Let_def)
      moreover have "a_round (cabs c) = (cabs (?c2\<lparr>cfive := s\<rparr>), False)"
        using True m4 c p1 s by (simp add: a_round_def Let_def cabs_def qabs_def [of "cq c"])
      moreover have "balls (cabs (?c2\<lparr>cfive := s\<rparr>)) = balls (cabs c)"
        using c p1 s foldl_a_enq_mset [of ?qs "st_cont (cmin c)"]
        by (simp add: balls_def cabs_def qabs_def [of "cq c"] case_prod_unfold)
      moreover from this have "clock_ok (?c2\<lparr>cfive := s\<rparr>)"
        using ok p1 s True by (simp add: clock_ok_def)
      ultimately show ?thesis by auto
    next
      case f11: False
      obtain s2 q3 v3 where p2: "pour (cfive c) q2 v2 = Some (s2, q3, v3)" "st_ok 32 s2" "qu_ok 32 q3"
        "st_cont s2 = []" "qabs q3 = foldl a_enq (qabs q2) (st_cont (cfive c))"
        using pour_abs [OF f p1(3), of v2] l2 total c by auto
      have l3: "length (qu_cont 32 q3) = length (qu_cont 32 q2) + length (st_cont (cfive c))"
        using foldl_a_enq_len [of "qabs q2" "st_cont (cfive c)"] p2(5) qabs_fst [of q3] qabs_fst [of q2] by simp
      have ms3: "mset (fst (qabs q3)) = mset xs + mset (st_cont (cmin c)) + mset (st_cont (cfive c))"
        using foldl_a_enq_mset [of ?qs "st_cont (cmin c)"]
          foldl_a_enq_mset [of "qabs q2" "st_cont (cfive c)"] p1(5) p2(5) by simp
      let ?c3 = "?c2\<lparr>cfive := s2, cq := q3, cvalue := v3\<rparr>"
      show ?thesis
      proof (cases "length (st_cont (chour c)) < 11")
        case True
        obtain s where s: "st_push 32 (chour c) x = Some (0, s)" "st_ok 32 s" "st_cont s = x # st_cont (chour c)"
          using push_abs [OF h, of x] True by auto
        have "clock_round c = Some (?c3\<lparr>chour := s\<rparr>, False)"
          using q1 time s True m4 f11 lens(1,2) st_top_len [OF m] st_top_len [OF f] st_top_len [OF h] p1 p2
          by (simp add: clock_round_def Let_def)
        moreover have "a_round (cabs c) = (cabs (?c3\<lparr>chour := s\<rparr>), False)"
          using True m4 f11 c p1 p2 s by (simp add: a_round_def Let_def cabs_def qabs_def [of "cq c"])
        moreover have "balls (cabs (?c3\<lparr>chour := s\<rparr>)) = balls (cabs c)"
          using c p1 p2 s ms3 by (simp add: balls_def cabs_def qabs_def [of "cq c"] case_prod_unfold)
        moreover from this have "clock_ok (?c3\<lparr>chour := s\<rparr>)"
          using ok p1 p2 s True by (simp add: clock_ok_def)
        ultimately show ?thesis by auto
      next
        case h11: False
        obtain s3 q4 v4 where p3: "pour (chour c) q3 v3 = Some (s3, q4, v4)" "st_ok 32 s3" "qu_ok 32 q4"
          "st_cont s3 = []" "qabs q4 = foldl a_enq (qabs q3) (st_cont (chour c))"
          using pour_abs [OF h p2(3), of v3] l2 l3 total c by auto
        have l4: "length (qu_cont 32 q4) = 26"
          using foldl_a_enq_len [of "qabs q3" "st_cont (chour c)"] p3(5) qabs_fst [of q4] qabs_fst [of q3]
            l2 l3 total c by simp
        obtain q5 where q5: "qu_enqueue 32 q4 x = Some (0, q5)" "qu_ok 32 q5" "qabs q5 = a_enq (qabs q4) x"
          using enq_abs [OF p3(3), of x] l4 by auto
        have ms5: "mset (fst (qabs q5)) = mset xs + mset (st_cont (cmin c)) + mset (st_cont (cfive c))
            + mset (st_cont (chour c)) + {#x#}"
          using ms3 foldl_a_enq_mset [of "qabs q3" "st_cont (chour c)"] p3(5) a_enq_mset [of "qabs q4" x] q5(3)
          by simp
        have "qu_len 32 q5 = Suc 26"
          using a_enq_mset [of "qabs q4" x] q5(3) qabs_fst [of q5] qabs_fst [of q4] l4
          by (metis length_qu_cont size_add_mset size_mset)
        then have chk: "check q5 = Some (a_check (qabs q5))" by (rule check_abs [OF q5(2)]) simp
        let ?c4 = "?c3\<lparr>chour := s3, cq := q5, cvalue := v4\<rparr>"
        have "clock_round c = Some (?c4, a_check (qabs q5))"
          using q1 time m4 f11 h11 lens st_top_len [OF m] st_top_len [OF f] st_top_len [OF h] p1 p2 p3 q5 chk
          by (simp add: clock_round_def Let_def)
        moreover have "a_round (cabs c) = (cabs ?c4, a_check (qabs q5))"
          using m4 f11 h11 c p1 p2 p3 q5 by (simp add: a_round_def Let_def cabs_def qabs_def [of "cq c"])
        moreover have "balls (cabs ?c4) = balls (cabs c)"
          using c p1 p2 p3 ms5 by (simp add: balls_def cabs_def qabs_def [of "cq c"] case_prod_unfold)
        moreover from this have "clock_ok ?c4"
          using ok p1 p2 p3 q5 by (simp add: clock_ok_def)
        ultimately show ?thesis by auto
      qed
    qed
  qed
qed

section \<open>When the program stops\<close>

text \<open>The machine started on the balls 1 to 27, run to the first round that breaks out of the loop.\<close>

lemma a_run_1: "a_run 2160 (([1, 2, 3, 4, 5, 6, 7, 8, 9, 10, 11, 12, 13, 14, 15, 16, 17, 18, 19, 20, 21, 22, 23, 24, 25, 26, 27], 27, j, 1), [], [], [])
  = Some (([10, 7, 18, 24, 20, 2, 11, 5, 4, 25, 27, 12, 19, 21, 16, 26, 23, 15, 9, 13, 1, 22, 17, 14, 6, 8, 3], 11, 26, 23), [], [], [])"
  by code_simp

lemma a_run_2: "a_run 2160 (([10, 7, 18, 24, 20, 2, 11, 5, 4, 25, 27, 12, 19, 21, 16, 26, 23, 15, 9, 13, 1, 22, 17, 14, 6, 8, 3], 11, 26, 23), [], [], [])
  = Some (([25, 11, 15, 14, 13, 7, 27, 20, 24, 6, 3, 12, 9, 1, 26, 8, 17, 16, 4, 19, 10, 22, 23, 21, 2, 5, 18], 27, 18, 25), [], [], [])"
  by code_simp

lemma a_run_3: "a_run 2160 (([25, 11, 15, 14, 13, 7, 27, 20, 24, 6, 3, 12, 9, 1, 26, 8, 17, 16, 4, 19, 10, 22, 23, 21, 2, 5, 18], 27, 18, 25), [], [], [])
  = Some (([6, 27, 16, 21, 19, 11, 3, 13, 14, 2, 18, 12, 4, 10, 8, 5, 23, 26, 24, 9, 25, 22, 17, 1, 7, 20, 15], 11, 5, 23), [], [], [])"
  by code_simp

lemma a_run_4: "a_run 1439 (([6, 27, 16, 21, 19, 11, 3, 13, 14, 2, 18, 12, 4, 10, 8, 5, 23, 26, 24, 9, 25, 22, 17, 1, 7, 20, 15], 11, 5, 23), [], [], [])
  = Some (([6], 16, 1, 10), [4, 1, 2, 20], [15, 21, 10, 18, 5, 24, 25, 12, 26, 19, 11], [27, 23, 7, 8, 16, 9, 22, 17, 13, 14, 3])"
  by code_simp

lemma a_run_last: "a_round (([6], 16, 1, 10), [4, 1, 2, 20], [15, 21, 10, 18, 5, 24, 25, 12, 26, 19, 11], [27, 23, 7, 8, 16, 9, 22, 17, 13, 14, 3])
  = ((([4, 1, 2, 20, 15, 21, 10, 18, 5, 24, 25, 12, 26, 19, 11, 27, 23, 7, 8, 16, 9, 22, 17, 13, 14, 3, 6], 11, 27, 23), [], [], []), True)"
  by code_simp

lemma a_run_add: "a_run m a = Some b \<Longrightarrow> a_run n b = r \<Longrightarrow> a_run (m + n) a = r"
  by (induction m arbitrary: a) (auto split: prod.splits if_splits)

definition start :: "int \<Rightarrow> aclock" where
  "start j = (([1..27], 27, j, 1), [], [], [])"

definition stopped :: aclock where
  "stopped = (([4, 1, 2, 20, 15, 21, 10, 18, 5, 24, 25, 12, 26, 19, 11, 27, 23, 7, 8, 16, 9, 22, 17, 13, 14, 3, 6], 11, 27, 23), [], [], [])"

lemma a_run_start: "\<exists>b. a_run 7919 (start j) = Some b \<and> a_round b = (stopped, True)"
proof -
  have "start j = (([1, 2, 3, 4, 5, 6, 7, 8, 9, 10, 11, 12, 13, 14, 15, 16, 17, 18, 19, 20, 21, 22, 23, 24, 25, 26, 27], 27, j, 1), [], [], [])" by (simp add: start_def upto_rec1)
  then have "a_run (2160 + (2160 + (2160 + 1439))) (start j) = Some (([6], 16, 1, 10), [4, 1, 2, 20], [15, 21, 10, 18, 5, 24, 25, 12, 26, 19, 11], [27, 23, 7, 8, 16, 9, 22, 17, 13, 14, 3])"
    using a_run_add [OF a_run_1 a_run_add [OF a_run_2 a_run_add [OF a_run_3 a_run_4]], of j] by simp
  then show ?thesis using a_run_last by (simp add: stopped_def)
qed

text \<open>The program follows.\<close>

lemma clock_loop_run:
  "clock_ok c \<Longrightarrow> INT_MIN \<le> ctime c \<Longrightarrow> ctime c + int n + 1 \<le> INT_MAX \<Longrightarrow> a_run n (cabs c) = Some b \<Longrightarrow>
   a_round b = (b', True) \<Longrightarrow>
   \<exists>c'. clock_loop c = Some c' \<and> clock_ok c' \<and> cabs c' = b' \<and> ctime c' = ctime c + int n + 1"
proof (induction n arbitrary: c)
  case 0
  then have "is_cint (ctime c + 1)" by (simp add: is_cint_def)
  from clock_round_abs [OF 0(1) this] 0(4,5) obtain c' where "clock_round c = Some (c', True)" "clock_ok c'"
    "cabs c' = b'" "ctime c' = ctime c + 1" by auto
  then show ?case by (subst clock_loop.simps) simp
next
  case (Suc n)
  then have "is_cint (ctime c + 1)" by (simp add: is_cint_def)
  from clock_round_abs [OF Suc.prems(1) this] obtain c1 stop where c1: "clock_round c = Some (c1, stop)" "clock_ok c1"
    "a_round (cabs c) = (cabs c1, stop)" "ctime c1 = ctime c + 1" by auto
  with Suc.prems(4) have "\<not> stop" "a_run n (cabs c1) = Some b" by (auto split: if_splits)
  with Suc.IH [OF c1(2)] Suc.prems c1 obtain c' where "clock_loop c1 = Some c'" "clock_ok c'" "cabs c' = b'"
    "ctime c' = ctime c + int (Suc n) + 1" by auto
  with c1(1) \<open>\<not> stop\<close> show ?case by (subst clock_loop.simps) auto
qed

lemma fill_loop:
  "qu_ok 32 sq \<Longrightarrow> 1 \<le> i \<Longrightarrow> i \<le> 28 \<Longrightarrow> int (length (qu_cont 32 sq)) = i - 1 \<Longrightarrow>
   \<exists>j sq'. c_while (\<lambda>(i, qu). i \<le> NR_BALL)
       (\<lambda>(i, qu). do { (r, qu) \<leftarrow> qu_enqueue MAXSIZE qu i; Some (i + 1, qu) }) (i, sq) = Some (j, sq')
     \<and> qu_ok 32 sq' \<and> qabs sq' = foldl a_enq (qabs sq) [i..27]"
proof (induction "nat (28 - i)" arbitrary: i sq)
  case 0
  then have "i = 28" by simp
  with 0 show ?case by (simp add: c_while_exit NR_BALL_def)
next
  case (Suc n)
  then have i: "i \<le> 27" by simp
  obtain sq1 where sq1: "qu_enqueue 32 sq i = Some (0, sq1)" "qu_ok 32 sq1" "qabs sq1 = a_enq (qabs sq) i"
    using enq_abs [OF Suc.prems(1), of i] Suc.prems i by auto
  have "length (qu_cont 32 sq1) = Suc (length (qu_cont 32 sq))"
    using sq1(3) by (auto simp: qabs_def a_enq_def Let_def)
  then have "\<exists>j sq'. c_while (\<lambda>(i, qu). i \<le> NR_BALL)
       (\<lambda>(i, qu). do { (r, qu) \<leftarrow> qu_enqueue MAXSIZE qu i; Some (i + 1, qu) }) (i + 1, sq1) = Some (j, sq')
     \<and> qu_ok 32 sq' \<and> qabs sq' = foldl a_enq (qabs sq1) [i + 1..27]"
    using Suc.hyps(1) [of "i + 1" sq1] Suc.hyps(2) Suc.prems sq1(2) i by auto
  moreover have "c_while (\<lambda>(i, qu). i \<le> NR_BALL)
       (\<lambda>(i, qu). do { (r, qu) \<leftarrow> qu_enqueue MAXSIZE qu i; Some (i + 1, qu) }) (i, sq)
     = c_while (\<lambda>(i, qu). i \<le> NR_BALL)
       (\<lambda>(i, qu). do { (r, qu) \<leftarrow> qu_enqueue MAXSIZE qu i; Some (i + 1, qu) }) (i + 1, sq1)"
    by (rule c_while_step) (use i sq1(1) in \<open>simp_all add: NR_BALL_def\<close>)
  ultimately show ?case using sq1(3) i by (simp add: upto_rec1 [of i])
qed

text \<open>C27: Every round of the clock refines a round of the machine on lists: the array operations
  are never refused, no ball is lost or duplicated, and the program breaks out of its loop exactly when the
  machine does.\<close>
theorem clock_refines:
  assumes "clock_ok c" "is_cint (ctime c + 1)"
  shows "\<exists>c' stop. clock_round c = Some (c', stop) \<and> clock_ok c' \<and> a_round (cabs c) = (cabs c', stop)
    \<and> ctime c' = ctime c + 1 \<and> balls (cabs c') = balls (cabs c)"
  by (rule clock_round_abs [OF assms])

lemma clock_refines_witness:
  "\<exists>c' stop. clock_round \<lparr>cq = \<lparr>qu_data = [0] @ [1..27] @ [0, 0, 0, 0], head = 0, tail = 27\<rparr>,
      cmin = \<lparr>st_data = replicate 32 0, top = - 1\<rparr>, cfive = \<lparr>st_data = replicate 32 0, top = - 1\<rparr>,
      chour = \<lparr>st_data = replicate 32 0, top = - 1\<rparr>, ct = 0, cvalue = 0, ctime = 0\<rparr> = Some (c', stop)
    \<and> clock_ok c' \<and> ctime c' = 1"
proof -
  let ?c = "\<lparr>cq = \<lparr>qu_data = [0] @ [1..27] @ [0, 0, 0, 0], head = 0, tail = 27\<rparr>,
      cmin = \<lparr>st_data = replicate 32 0, top = - 1\<rparr>, cfive = \<lparr>st_data = replicate 32 0, top = - 1\<rparr>,
      chour = \<lparr>st_data = replicate 32 0, top = - 1\<rparr>, ct = 0, cvalue = 0, ctime = 0\<rparr>"
  have "qu_len 32 (cq ?c) = 27" by (simp add: qu_len_def)
  then have "size (balls (cabs ?c)) = 27" unfolding size_balls by (simp add: st_cont_def)
  then have "clock_ok ?c" by (simp add: clock_ok_def qu_ok_def st_ok_def st_cont_def)
  from clock_refines [OF this] show ?thesis by (simp add: cint_range) blast
qed



end
