(* ===== verification/ByteOrder.thy ===== *)
theory ByteOrder
  imports Decimal "HOL-Library.Word"
begin

text \<open>
  Integers in the memory of a host and on the network: a host is described by the order in which it stores the bytes of an
  integer; what goes over the network is a list of bytes. The lemmas show that numbers converted to network order
  look the same from every host and are read back by every host; the locale states what a field of a packed record
  needs for that.
\<close>

section \<open>Byte order\<close>

datatype endian = Little | Big

definition le_bytes :: "nat \<Rightarrow> nat \<Rightarrow> string" where
  "le_bytes n x = map (\<lambda>k. char_of (x div 256 ^ k)) [0..<n]"

fun from_le :: "string \<Rightarrow> nat" where
  "from_le [] = 0"
| "from_le (c # cs) = of_char c + 256 * from_le cs"

definition in_order :: "endian \<Rightarrow> string \<Rightarrow> string" where
  "in_order e bs = (case e of Little \<Rightarrow> bs | Big \<Rightarrow> rev bs)"

text \<open>An unsigned integer in the memory of a host.\<close>

definition store32 :: "endian \<Rightarrow> 32 word \<Rightarrow> string" where
  "store32 e x = in_order e (le_bytes 4 (unat x))"

definition load32 :: "endian \<Rightarrow> string \<Rightarrow> 32 word" where
  "load32 e bs = word_of_nat (from_le (in_order e bs))"

definition store16 :: "endian \<Rightarrow> 16 word \<Rightarrow> string" where
  "store16 e x = in_order e (le_bytes 2 (unat x))"

definition load16 :: "endian \<Rightarrow> string \<Rightarrow> 16 word" where
  "load16 e bs = word_of_nat (from_le (in_order e bs))"

text \<open>\<open>htonl\<close> and \<open>htons\<close> swap the bytes on a host that stores the low byte first; \<open>ntohl\<close> and \<open>ntohs\<close> are the same functions.\<close>

definition htonl :: "endian \<Rightarrow> 32 word \<Rightarrow> 32 word" where
  "htonl e x = (case e of Big \<Rightarrow> x | Little \<Rightarrow> load32 Little (rev (store32 Little x)))"

definition htons :: "endian \<Rightarrow> 16 word \<Rightarrow> 16 word" where
  "htons e x = (case e of Big \<Rightarrow> x | Little \<Rightarrow> load16 Little (rev (store16 Little x)))"

abbreviation ntohl :: "endian \<Rightarrow> 32 word \<Rightarrow> 32 word" where "ntohl \<equiv> htonl"
abbreviation ntohs :: "endian \<Rightarrow> 16 word \<Rightarrow> 16 word" where "ntohs \<equiv> htons"

lemma le_bytes_length [simp]: "length (le_bytes n x) = n"
  by (simp add: le_bytes_def)

lemma le_bytes_Suc: "le_bytes (Suc n) x = char_of x # le_bytes n (x div 256)"
  unfolding le_bytes_def upt_conv_Cons [OF zero_less_Suc] map_Suc_upt [symmetric]
  by (simp add: div_mult2_eq)

lemma from_le_bytes: "x < 256 ^ n \<Longrightarrow> from_le (le_bytes n x) = x"
proof (induction n arbitrary: x)
  case (Suc n)
  then have "x div 256 < 256 ^ n" by (simp add: less_mult_imp_div_less mult.commute)
  with Suc.IH show ?case by (simp add: le_bytes_Suc of_char_of)
qed (simp add: le_bytes_def)

lemma le_bytes_from: "le_bytes (length bs) (from_le bs) = bs"
proof (induction bs)
  case (Cons c cs)
  have "char_of ((of_char c + 256 * from_le cs) mod 256) = c" by simp
  then have "char_of (of_char c + 256 * from_le cs) = c" by (simp only: char_of_mod_256)
  with Cons show ?case by (simp add: le_bytes_Suc)
qed (simp add: le_bytes_def)

lemma from_le_bound: "from_le bs < 256 ^ length bs"
proof (induction bs)
  case (Cons c cs)
  define m where "m = (256 :: nat) ^ length cs"
  have "of_char c < (256::nat)" "from_le cs < m" using Cons by (simp_all add: m_def)
  then have "of_char c + 256 * from_le cs < 256 * m" by linarith
  then show ?case by (simp add: m_def)
qed simp

lemma in_order_twice [simp]: "in_order e (in_order e bs) = bs" "length (in_order e bs) = length bs"
  by (cases e; simp add: in_order_def)+

lemma store32_load32: "length bs = 4 \<Longrightarrow> store32 e (load32 e bs) = bs"
  using from_le_bound [of "in_order e bs"] le_bytes_from [of "in_order e bs"]
  by (simp add: store32_def load32_def unat_of_nat)

lemma store16_load16: "length bs = 2 \<Longrightarrow> store16 e (load16 e bs) = bs"
  using from_le_bound [of "in_order e bs"] le_bytes_from [of "in_order e bs"]
  by (simp add: store16_def load16_def unat_of_nat)

lemma load32_store32: "load32 e (store32 e x) = x"
  using unsigned_less [where 'a = nat, of x] by (simp add: load32_def store32_def from_le_bytes)

lemma load16_store16: "load16 e (store16 e x) = x"
  using unsigned_less [where 'a = nat, of x] by (simp add: load16_def store16_def from_le_bytes)

lemma store_length [simp]: "length (store32 e x) = 4" "length (store16 e y) = 2"
  by (simp_all add: store32_def store16_def)

lemma swap32: "store32 Little (load32 Little (rev (store32 Little x))) = store32 Big x"
  by (subst store32_load32) (simp_all add: store32_def in_order_def)

text \<open>What a host stores of a number in network order is the number with its high byte first, on every host.\<close>

lemma store32_htonl: "store32 e (htonl e x) = store32 Big x"
  by (cases e) (simp_all add: htonl_def swap32)

lemma store16_htons: "store16 e (htons e x) = store16 Big x"
proof (cases e)
  case Little
  have "store16 Little (load16 Little (rev (store16 Little x))) = store16 Big x"
    by (subst store16_load16) (simp_all add: store16_def in_order_def)
  with Little show ?thesis by (simp add: htons_def)
qed (simp add: htons_def)

lemma htonl_twice: "ntohl e (htonl e x) = x"
proof (cases e)
  case Little
  have "rev (store32 Little (htonl Little x)) = store32 Little x"
    using store32_htonl [of Little x] by (simp add: store32_def in_order_def)
  with Little show ?thesis by (simp add: htonl_def load32_store32)
qed (simp add: htonl_def)

lemma ntohl_load32: "ntohl e (load32 e (store32 Big x)) = x"
  using htonl_twice [of e x] load32_store32 [of e "htonl e x"] by (simp add: store32_htonl)


section \<open>Records in a buffer\<close>

definition put_at :: "nat \<Rightarrow> string \<Rightarrow> string \<Rightarrow> string" where
  "put_at off bs buf = take off buf @ bs @ drop (off + length bs) buf"

definition get_at :: "nat \<Rightarrow> nat \<Rightarrow> string \<Rightarrow> string" where
  "get_at off n buf = take n (drop off buf)"

text \<open>
  What a field of a record needs of its representation: a fixed size, and that the reader undoes the writer. A field can then
  be read from wherever it was put, and writing it leaves the others alone.
\<close>

locale field_codec =
  fixes enc :: "'a \<Rightarrow> string"
    and dec :: "string \<Rightarrow> 'a"
    and size :: nat
  assumes enc_length: "length (enc x) = size"
    and dec_enc: "dec (enc x) = x"
begin

lemma get_put: "off + size \<le> length buf \<Longrightarrow> dec (get_at off size (put_at off (enc x) buf)) = x"
  by (simp add: get_at_def put_at_def enc_length dec_enc min_def)

lemma put_length: "off + size \<le> length buf \<Longrightarrow> length (put_at off (enc x) buf) = length buf"
  by (simp add: put_at_def enc_length)

lemma get_other:
  assumes "off + size \<le> length buf" "off' + n \<le> off \<or> off + size \<le> off'"
  shows "get_at off' n (put_at off (enc x) buf) = get_at off' n buf"
proof (rule nth_equalityI)
  show "length (get_at off' n (put_at off (enc x) buf)) = length (get_at off' n buf)"
    using put_length [OF assms(1)] by (simp add: get_at_def)
next
  fix i assume "i < length (get_at off' n (put_at off (enc x) buf))"
  then have i: "i < n" "off' + i < length buf" using put_length [OF assms(1)] by (auto simp: get_at_def)
  then have "put_at off (enc x) buf ! (off' + i) = buf ! (off' + i)"
    using assms by (auto simp: put_at_def nth_append enc_length min_def)
  then show "get_at off' n (put_at off (enc x) buf) ! i = get_at off' n buf ! i"
    using i put_length [OF assms(1)] by (simp add: get_at_def)
qed

end

text \<open>A number in network order between two hosts.\<close>

interpretation net32: field_codec "\<lambda>x. store32 e (htonl e x)" "\<lambda>b. ntohl e' (load32 e' b)" 4 for e e'
  by unfold_locales (simp_all add: store32_htonl ntohl_load32)

end
