(* ===== verification/Compute.thy ===== *)
theory Compute
  imports ArrStack Decimal
begin

text \<open>
  The expression evaluator \<open>ds/line/compute/main.c\<close>, a client of two array stacks (\<open>MAXSIZE\<close> 32 there), for numbers and
  for operators. Operators are characters, and \<open>deal_op\<close> pushes \<open>(datatype *)&op\<close>, an \<open>int\<close> read through the address of a
  \<open>char\<close>: what the bytes behind it make of it is the parameter \<open>wide\<close>. \<open>main\<close> reads a fixed string with an index that was never
  set and looks for a line end that is not there; the loop is modelled on any string, and its starting index is a
  parameter. The theorems: as it stands the program has no defined behaviour; the algorithm, started
  at the first character of a line that holds an expression, computes its value.
\<close>

abbreviation MAXSIZE :: nat where "MAXSIZE \<equiv> 32"

abbreviation code :: "char \<Rightarrow> int" where "code c \<equiv> of_char c"

section \<open>The functions\<close>

text \<open>\<open>st_pop(st, &x)\<close> with \<open>x\<close> not initialised.\<close>

definition pop_new :: "sqstack \<Rightarrow> (int option \<times> sqstack) option" where
  "pop_new st = do { (r, v, st) \<leftarrow> st_pop st 0; Some (if r = 0 then Some v else None, st) }"

definition compute :: "sqstack \<Rightarrow> int \<Rightarrow> sqstack outcome option" where
  "compute snum op = do {
     (n2, snum) \<leftarrow> pop_new snum;
     (n1, snum) \<leftarrow> pop_new snum;
     if op \<in> {code CHR ''+'', code CHR ''-'', code CHR ''*'', code CHR ''/''} then do {
       a \<leftarrow> n1;
       b \<leftarrow> n2;
       n \<leftarrow> (if op = code CHR ''+'' then cint (a + b)
             else if op = code CHR ''-'' then cint (a - b)
             else if op = code CHR ''*'' then cint (a * b)
             else cdiv a b);
       (r, snum) \<leftarrow> st_push MAXSIZE snum n;
       Some (Done snum) }
     else Some (Exit 1 snum) }"

partial_function (option) deal_bracket_loop :: "sqstack \<Rightarrow> sqstack \<Rightarrow> int \<Rightarrow> (sqstack \<times> sqstack) outcome option" where
  "deal_bracket_loop snum sop old_op =
     (if old_op \<noteq> code CHR ''('' then
        Option.bind (st_pop sop old_op) (\<lambda>(r, old_op, sop).
        Option.bind (compute snum old_op) (\<lambda>c. case c of
            Exit k snum \<Rightarrow> Some (Exit k (snum, sop))
          | Done snum \<Rightarrow> Option.bind (st_top sop old_op) (\<lambda>(r, old_op). deal_bracket_loop snum sop old_op)))
      else Option.bind (st_pop sop old_op) (\<lambda>(r, old_op, sop). Some (Done (snum, sop))))"

definition deal_bracket :: "sqstack \<Rightarrow> sqstack \<Rightarrow> (sqstack \<times> sqstack) outcome option" where
  "deal_bracket snum sop = do {
     (r, old_op) \<leftarrow> st_top sop 0;
     if r \<noteq> 0 then None else deal_bracket_loop snum sop old_op }"

definition get_pri :: "int \<Rightarrow> int" where
  "get_pri op =
     (if op = code CHR ''('' then 0
      else if op = code CHR ''+'' \<or> op = code CHR ''-'' then 1
      else if op = code CHR ''*'' \<or> op = code CHR ''/'' then 2
      else - 1)"

text \<open>The loop of \<open>deal_op\<close> up to the last \<open>st_push\<close>.\<close>

partial_function (option) deal_op_loop :: "int \<Rightarrow> sqstack \<Rightarrow> sqstack \<Rightarrow> int \<Rightarrow> (sqstack \<times> sqstack) outcome option" where
  "deal_op_loop op snum sop old_op =
     (if get_pri op \<le> get_pri old_op then
        Option.bind (st_pop sop old_op) (\<lambda>(r, old_op, sop).
        Option.bind (compute snum old_op) (\<lambda>c. case c of
            Exit k snum \<Rightarrow> Some (Exit k (snum, sop))
          | Done snum \<Rightarrow>
              if st_isempty sop then Some (Done (snum, sop))
              else Option.bind (st_top sop old_op) (\<lambda>(r, old_op). deal_op_loop op snum sop old_op)))
      else Some (Done (snum, sop)))"

definition deal_op :: "(int \<Rightarrow> int) \<Rightarrow> sqstack \<Rightarrow> sqstack \<Rightarrow> int \<Rightarrow> (sqstack \<times> sqstack) outcome option" where
  "deal_op wide snum sop op =
     (if st_isempty sop \<or> op = code CHR ''('' then do {
        (r, sop) \<leftarrow> st_push MAXSIZE sop (wide op);
        Some (Done (snum, sop)) }
      else do {
        (r, old_op) \<leftarrow> st_top sop 0;
        if get_pri op > get_pri old_op then do {
          (r, sop) \<leftarrow> st_push MAXSIZE sop (wide op);
          Some (Done (snum, sop)) }
        else do {
          c \<leftarrow> deal_op_loop op snum sop old_op;
          case c of
            Exit k s \<Rightarrow> Some (Exit k s)
          | Done (snum, sop) \<Rightarrow> do {
              (r, sop) \<leftarrow> st_push MAXSIZE sop (wide op);
              Some (Done (snum, sop)) } } })"

record calc =
  c_snum :: sqstack
  c_sop :: sqstack
  c_value :: int
  c_flag :: bool

text \<open>One character that is not a digit.\<close>

definition scan_op :: "(int \<Rightarrow> int) \<Rightarrow> char \<Rightarrow> calc \<Rightarrow> calc outcome option" where
  "scan_op wide c s = do {
     s \<leftarrow> (if c_flag s then do {
             (r, st) \<leftarrow> st_push MAXSIZE (c_snum s) (c_value s);
             Some (s\<lparr>c_snum := st, c_flag := False, c_value := 0\<rparr>) }
           else Some s);
     r \<leftarrow> (if c = CHR '')'' then deal_bracket (c_snum s) (c_sop s) else deal_op wide (c_snum s) (c_sop s) (code c));
     case r of
       Exit k p \<Rightarrow> Some (Exit k (s\<lparr>c_snum := fst p, c_sop := snd p\<rparr>))
     | Done p \<Rightarrow> Some (Done (s\<lparr>c_snum := fst p, c_sop := snd p\<rparr>)) }"

definition scan_digit :: "char \<Rightarrow> calc \<Rightarrow> calc option" where
  "scan_digit c s = do {
     a \<leftarrow> cint (10 * c_value s);
     b \<leftarrow> cint (a + (code c - code CHR ''0''));
     Some (s\<lparr>c_value := b, c_flag := True\<rparr>) }"

text \<open>The loop \<open>while (str[i] != '\n')\<close> over what is left of the string; behind its end nothing may be read.\<close>

fun scan_loop :: "(int \<Rightarrow> int) \<Rightarrow> string \<Rightarrow> calc \<Rightarrow> calc outcome option" where
  "scan_loop wide [] s = None"
| "scan_loop wide (c # cs) s =
     (if c = CHR ''\<newline>'' then Some (Done s)
      else if code CHR ''0'' \<le> code c \<and> code c \<le> code CHR ''9'' then Option.bind (scan_digit c s) (scan_loop wide cs)
      else Option.bind (scan_op wide c s) (\<lambda>r. case r of Exit k t \<Rightarrow> Some (Exit k t) | Done t \<Rightarrow> scan_loop wide cs t))"

partial_function (option) empty_loop :: "sqstack \<Rightarrow> sqstack \<Rightarrow> int \<Rightarrow> (sqstack \<times> sqstack) outcome option" where
  "empty_loop snum sop old_op =
     (if \<not> st_isempty sop then
        Option.bind (st_pop sop old_op) (\<lambda>(r, old_op, sop).
        Option.bind (compute snum old_op) (\<lambda>c. case c of
            Exit k snum \<Rightarrow> Some (Exit k (snum, sop))
          | Done snum \<Rightarrow> empty_loop snum sop old_op))
      else Some (Done (snum, sop)))"

text \<open>\<open>main\<close> from the two new stacks: the string from the index on, and the stacks at the end.\<close>

definition calc_run :: "(int \<Rightarrow> int) \<Rightarrow> string \<Rightarrow> sqstack \<Rightarrow> sqstack \<Rightarrow> (sqstack \<times> sqstack) outcome option" where
  "calc_run wide str snum0 sop0 = do {
     r \<leftarrow> scan_loop wide str \<lparr>c_snum = snum0, c_sop = sop0, c_value = 0, c_flag = False\<rparr>;
     case r of
       Exit k s \<Rightarrow> Some (Exit k (c_snum s, c_sop s))
     | Done s \<Rightarrow> do {
         st \<leftarrow> (if c_flag s then do { (r, st) \<leftarrow> st_push MAXSIZE (c_snum s) (c_value s); Some st } else Some (c_snum s));
         empty_loop st (c_sop s) 0 } }"

text \<open>The array \<open>str\<close>, its terminating zero included; \<open>i\<close> is what happens to be in the variable. \<open>Done\<close> is the \<open>exit(0)\<close> at the end.\<close>

definition calc_str :: string where
  "calc_str = ''(11+3)*2-5'' @ [CHR 0x00]"

definition calc_main :: "(int \<Rightarrow> int) \<Rightarrow> int \<Rightarrow> sqstack option \<Rightarrow> sqstack option \<Rightarrow> (sqstack \<times> sqstack) option outcome option" where
  "calc_main wide i mem1 mem2 = (case st_create mem1 of
       None \<Rightarrow> Some (Exit 1 None)
     | Some sn \<Rightarrow> (case st_create mem2 of
           None \<Rightarrow> Some (Exit 1 None)
         | Some so \<Rightarrow>
             if i < 0 \<or> int (length calc_str) \<le> i then None
             else (case calc_run wide (drop (nat i) calc_str) sn so of
                 None \<Rightarrow> None
               | Some (Exit k p) \<Rightarrow> Some (Exit k (Some p))
               | Some (Done p) \<Rightarrow> Some (Done (Some p)))))"

section \<open>Stacks and priorities\<close>

text \<open>What \<open>compute\<close> does to two numbers, and the operators of priority at least \<open>p\<close> applied to the top of the stacks.\<close>

definition apply_op :: "int \<Rightarrow> int \<Rightarrow> int \<Rightarrow> int option" where
  "apply_op op a b = (if op = code CHR ''+'' then cint (a + b) else if op = code CHR ''-'' then cint (a - b)
     else if op = code CHR ''*'' then cint (a * b) else if op = code CHR ''/'' then cdiv a b else None)"

fun red :: "int \<Rightarrow> int list \<Rightarrow> int list \<Rightarrow> (int list \<times> int list) option" where
  "red p ns [] = Some (ns, [])"
| "red p ns (q # os) =
     (if p \<le> get_pri q then (case ns of
          b # a # ns \<Rightarrow> Option.bind (apply_op q a b) (\<lambda>v. red p (v # ns) os)
        | _ \<Rightarrow> None)
      else Some (ns, q # os))"

abbreviation holds :: "sqstack \<Rightarrow> int list \<Rightarrow> bool" where
  "holds s xs \<equiv> st_ok MAXSIZE s \<and> st_cont s = xs"

lemma pop_new_cons: "holds s (x # xs) \<Longrightarrow> \<exists>s'. pop_new s = Some (Some x, s') \<and> holds s' xs"
  using arr_stack.pop_cons [of MAXSIZE s x xs 0] by (auto simp: pop_new_def)

lemma push_holds: "holds s xs \<Longrightarrow> length xs < MAXSIZE \<Longrightarrow> \<exists>s'. st_push MAXSIZE s x = Some (0, s') \<and> holds s' (x # xs)"
  using arr_stack.push_room [of MAXSIZE s x] by auto

lemma holds_length: "holds s xs \<Longrightarrow> length xs \<le> MAXSIZE"
  using arr_stack.cont_cap by blast

lemma compute_holds:
  assumes "holds s (b # a # ns)" "apply_op op a b = Some v"
  shows "\<exists>s'. compute s op = Some (Done s') \<and> holds s' (v # ns)"
proof -
  obtain s1 where 1: "pop_new s = Some (Some b, s1)" "holds s1 (a # ns)" using pop_new_cons [OF assms(1)] by blast
  obtain s2 where 2: "pop_new s1 = Some (Some a, s2)" "holds s2 ns" using pop_new_cons [OF 1(2)] by blast
  have "length ns < MAXSIZE" using holds_length [OF assms(1)] by simp
  then obtain s3 where 3: "st_push MAXSIZE s2 v = Some (0, s3)" "holds s3 (v # ns)" using push_holds [OF 2(2)] by blast
  show ?thesis using assms(2) 1 2 3 by (auto simp: compute_def apply_op_def split: if_splits)
qed

lemma red_length: "red p ns os = Some (ns', os') \<Longrightarrow> length ns' \<le> length ns \<and> length os' \<le> length os"
  by (induction p ns os rule: red.induct) (fastforce simp: bind_eq_Some_conv split: if_splits list.splits)+

lemma red_stop: "red p ns os = Some (ns', q # os') \<Longrightarrow> get_pri q < p"
  by (induction p ns os rule: red.induct) (auto simp: bind_eq_Some_conv split: if_splits list.splits)

lemma red_none: "(\<And>q os'. os = q # os' \<Longrightarrow> get_pri q < p) \<Longrightarrow> red p ns os = Some (ns, os)"
  by (cases os) auto

lemma deal_op_loop_red:
  assumes "holds sn ns" "holds so (q # os)" "red (get_pri op) ns (q # os) = Some (ns', os')"
  shows "\<exists>sn' so'. deal_op_loop op sn so q = Some (Done (sn', so')) \<and> holds sn' ns' \<and> holds so' os'"
  using assms
proof (induction os arbitrary: sn so ns q)
  case (Cons q' os)
  show ?case
  proof (cases "get_pri op \<le> get_pri q")
    case True
    with Cons.prems(3) obtain b a ms v where ns: "ns = b # a # ms" and v: "apply_op q a b = Some v"
      and r: "red (get_pri op) (v # ms) (q' # os) = Some (ns', os')"
      by (auto simp del: red.simps(2) simp: red.simps(2) [of _ _ q] bind_eq_Some_conv split: list.splits if_splits)
    obtain so1 where so1: "st_pop so q = Some (0, q, so1)" "holds so1 (q' # os)"
      using arr_stack.pop_cons [of MAXSIZE so q _ q] Cons.prems(2) by blast
    obtain sn1 where sn1: "compute sn q = Some (Done sn1)" "holds sn1 (v # ms)"
      using compute_holds Cons.prems(1) v unfolding ns by blast
    have "st_top so1 q = Some (0, q')" "\<not> st_isempty so1"
      using so1(2) st_top_cons st_isempty_iff by auto
    with Cons.IH [OF sn1(2) so1(2) r] so1 sn1 True show ?thesis by (simp add: deal_op_loop.simps [of op sn so q])
  next
    case False
    with Cons.prems show ?thesis by (simp add: deal_op_loop.simps [of op sn so q])
  qed
next
  case Nil
  show ?case
  proof (cases "get_pri op \<le> get_pri q")
    case True
    with Nil.prems(3) obtain b a ms v where ns: "ns = b # a # ms" and v: "apply_op q a b = Some v" "ns' = v # ms" "os' = []"
      by (auto simp: bind_eq_Some_conv split: list.splits if_splits)
    obtain so1 where so1: "st_pop so q = Some (0, q, so1)" "holds so1 []"
      using arr_stack.pop_cons [of MAXSIZE so q _ q] Nil.prems(2) by blast
    obtain sn1 where sn1: "compute sn q = Some (Done sn1)" "holds sn1 (v # ms)"
      using compute_holds Nil.prems(1) v unfolding ns by blast
    have "st_isempty so1" using so1(2) st_isempty_iff by auto
    with so1 sn1 True v show ?thesis by (simp add: deal_op_loop.simps [of op sn so q])
  next
    case False
    with Nil.prems show ?thesis by (simp add: deal_op_loop.simps [of op sn so q])
  qed
qed

lemma deal_op_red:
  assumes h: "holds sn ns" "holds so os" and p: "0 < get_pri op" "wide op = op"
    and r: "red (get_pri op) ns os = Some (ns', os')" "length os' < MAXSIZE"
  shows "\<exists>sn' so'. deal_op wide sn so op = Some (Done (sn', so')) \<and> holds sn' ns' \<and> holds so' (op # os')"
proof -
  have ob: "op \<noteq> code CHR ''(''" using p(1) by (auto simp: get_pri_def)
  show ?thesis
  proof (cases os)
    case Nil
    with r have e: "ns' = ns" "os' = []" by auto
    obtain so1 where "st_push MAXSIZE so op = Some (0, so1)" "holds so1 [op]"
      using push_holds [OF h(2)] Nil by auto
    moreover have "st_isempty so" using h(2) Nil st_isempty_iff by auto
    ultimately show ?thesis using h(1) p e by (simp add: deal_op_def)
  next
    case (Cons q qs)
    have t: "st_top so 0 = Some (0, q)" "\<not> st_isempty so"
      using h(2) Cons st_top_cons st_isempty_iff by auto
    show ?thesis
    proof (cases "get_pri op > get_pri q")
      case True
      with r Cons have e: "ns' = ns" "os' = os" by auto
      obtain so1 where "st_push MAXSIZE so op = Some (0, so1)" "holds so1 (op # os)"
        using push_holds [OF h(2), of op] r(2) e by auto
      then show ?thesis using True t h(1) p e ob by (simp add: deal_op_def)
    next
      case False
      obtain sn1 so1 where l: "deal_op_loop op sn so q = Some (Done (sn1, so1))" "holds sn1 ns'" "holds so1 os'"
        using deal_op_loop_red [OF h(1) h(2) [unfolded Cons] r(1) [unfolded Cons]] by blast
      obtain so2 where "st_push MAXSIZE so1 op = Some (0, so2)" "holds so2 (op # os')"
        using push_holds [OF l(3) r(2)] by blast
      then show ?thesis using False t l p ob by (simp add: deal_op_def)
    qed
  qed
qed

lemma deal_op_open:
  assumes "holds so os" "length os < MAXSIZE" "wide (code CHR ''('') = code CHR ''(''"
  shows "\<exists>so'. deal_op wide sn so (code CHR ''('') = Some (Done (sn, so')) \<and> holds so' (code CHR ''('' # os)"
  using push_holds [OF assms(1,2), of "code CHR ''(''"] assms(3) by (auto simp: deal_op_def)

lemma pri_open [simp]: "get_pri (code CHR ''('') = 0"
  by (simp add: get_pri_def)

declare pri_open [simplified, simp]

lemma deal_bracket_loop_red:
  assumes "holds sn ns" "holds so (q # os)" "red 1 ns (q # os) = Some (ns', code CHR ''('' # os')"
  shows "\<exists>sn' so'. deal_bracket_loop sn so q = Some (Done (sn', so')) \<and> holds sn' ns' \<and> holds so' os'"
  using assms
proof (induction os arbitrary: sn so ns q)
  case (Cons q' os)
  show ?case
  proof (cases "1 \<le> get_pri q")
    case True
    with Cons.prems(3) obtain b a ms v where ns: "ns = b # a # ms" and v: "apply_op q a b = Some v"
      and r: "red 1 (v # ms) (q' # os) = Some (ns', code CHR ''('' # os')"
      by (auto simp del: red.simps(2) simp: red.simps(2) [of _ _ q] bind_eq_Some_conv split: list.splits if_splits)
    obtain so1 where so1: "st_pop so q = Some (0, q, so1)" "holds so1 (q' # os)"
      using arr_stack.pop_cons [of MAXSIZE so q _ q] Cons.prems(2) by blast
    obtain sn1 where sn1: "compute sn q = Some (Done sn1)" "holds sn1 (v # ms)"
      using compute_holds Cons.prems(1) v unfolding ns by blast
    have "st_top so1 q = Some (0, q')" using so1(2) st_top_cons by auto
    with Cons.IH [OF sn1(2) so1(2) r] so1 sn1 True show ?thesis
      by (auto simp: deal_bracket_loop.simps [of sn so q] get_pri_def)
  next
    case False
    with Cons.prems(3) have q: "q = code CHR ''(''" "os' = q' # os" "ns' = ns" by auto
    obtain so1 where "st_pop so q = Some (0, q, so1)" "holds so1 (q' # os)"
      using arr_stack.pop_cons [of MAXSIZE so q _ q] Cons.prems(2) by blast
    with Cons.prems(1) q show ?thesis by (simp add: deal_bracket_loop.simps [of sn so 40])
  qed
next
  case Nil
  show ?case
  proof (cases "1 \<le> get_pri q")
    case True
    with Nil.prems(3) show ?thesis by (auto simp: bind_eq_Some_conv split: list.splits)
  next
    case False
    with Nil.prems(3) have q: "q = code CHR ''(''" "os' = []" "ns' = ns" by auto
    obtain so1 where "st_pop so q = Some (0, q, so1)" "holds so1 []"
      using arr_stack.pop_cons [of MAXSIZE so q _ q] Nil.prems(2) by blast
    with Nil.prems(1) q show ?thesis by (simp add: deal_bracket_loop.simps [of sn so 40])
  qed
qed

lemma deal_bracket_red:
  assumes "holds sn ns" "holds so os" "red 1 ns os = Some (ns', code CHR ''('' # os')"
  shows "\<exists>sn' so'. deal_bracket sn so = Some (Done (sn', so')) \<and> holds sn' ns' \<and> holds so' os'"
proof (cases os)
  case Nil
  with assms(3) show ?thesis by simp
next
  case (Cons q qs)
  have "st_top so 0 = Some (0, q)" using assms(2) Cons st_top_cons by auto
  with deal_bracket_loop_red [OF assms(1), of so q qs ns' os'] assms(2,3) Cons show ?thesis
    by (auto simp: deal_bracket_def)
qed

lemma empty_loop_red:
  assumes "holds sn ns" "holds so os" "red 1 ns os = Some (ns', [])"
  shows "\<exists>sn' so'. empty_loop sn so y = Some (Done (sn', so')) \<and> holds sn' ns' \<and> holds so' []"
  using assms
proof (induction os arbitrary: sn so ns y)
  case (Cons q os)
  then obtain b a ms v where ns: "ns = b # a # ms" and v: "apply_op q a b = Some v"
    and r: "red 1 (v # ms) os = Some (ns', [])"
    by (auto simp: bind_eq_Some_conv split: list.splits if_splits)
  obtain so1 where so1: "st_pop so y = Some (0, q, so1)" "holds so1 os"
    using arr_stack.pop_cons [of MAXSIZE so q _ y] Cons.prems(2) by blast
  obtain sn1 where sn1: "compute sn q = Some (Done sn1)" "holds sn1 (v # ms)"
    using compute_holds Cons.prems(1) v unfolding ns by blast
  have "\<not> st_isempty so" using Cons.prems(2) st_isempty_iff by auto
  with Cons.IH [OF sn1(2) so1(2) r] so1 sn1 show ?case by (simp add: empty_loop.simps [of sn so y])
next
  case Nil
  then have "st_isempty so" using st_isempty_iff by auto
  with Nil show ?case by (simp add: empty_loop.simps [of sn so y])
qed

section \<open>Expressions\<close>

text \<open>The expressions the algorithm is for: decimal numbers, brackets and the four operators.\<close>

datatype ex = Num nat | Par ex | Bin char ex ex

definition ops :: "char set" where
  "ops = set ''+-*/''"

abbreviation prio :: "char \<Rightarrow> int" where "prio c \<equiv> get_pri (code c)"

fun prec :: "ex \<Rightarrow> int" where
  "prec (Bin c l r) = prio c"
| "prec _ = 3"

text \<open>Brackets stand where precedence and left association need them.\<close>

fun ex_ok :: "ex \<Rightarrow> bool" where
  "ex_ok (Num k) \<longleftrightarrow> True"
| "ex_ok (Par e) \<longleftrightarrow> ex_ok e"
| "ex_ok (Bin c l r) \<longleftrightarrow> c \<in> ops \<and> ex_ok l \<and> ex_ok r \<and> prio c \<le> prec l \<and> prio c < prec r"

fun unparse :: "ex \<Rightarrow> string" where
  "unparse (Num k) = dec k"
| "unparse (Par e) = ''('' @ unparse e @ '')''"
| "unparse (Bin c l r) = unparse l @ [c] @ unparse r"

fun ev :: "ex \<Rightarrow> int option" where
  "ev (Num k) = cint (int k)"
| "ev (Par e) = ev e"
| "ev (Bin c l r) = Option.bind (ev l) (\<lambda>a. Option.bind (ev r) (\<lambda>b. apply_op (code c) a b))"

text \<open>How many numbers and operators are held at once while an expression is read.\<close>

fun num_depth :: "ex \<Rightarrow> nat" where
  "num_depth (Num k) = 1"
| "num_depth (Par e) = num_depth e"
| "num_depth (Bin c l r) = max (num_depth l) (1 + num_depth r)"

fun op_depth :: "ex \<Rightarrow> nat" where
  "op_depth (Num k) = 0"
| "op_depth (Par e) = 1 + op_depth e"
| "op_depth (Bin c l r) = max (op_depth l) (1 + op_depth r)"

lemma num_depth_pos: "0 < num_depth e"
  by (induction e) auto

lemma scan_dec:
  assumes "int n \<le> INT_MAX" "c_value s = 0"
  shows "scan_loop wide (dec n @ rest) s = scan_loop wide rest (s\<lparr>c_value := int n, c_flag := True\<rparr>)"
  using assms(1)
proof (induction n arbitrary: rest rule: dec.induct)
  case (1 n)
  have dig: "scan_loop wide (char_of (48 + d) # rest) t = scan_loop wide rest (t\<lparr>c_value := int n, c_flag := True\<rparr>)"
    if "d < 10" "n = 10 * k + d" "c_value t = int k" for d k t
  proof -
    have k: "code (char_of (48 + d)) = 48 + int d" using that(1) of_nat_of_char [where 'a = int, of "char_of (48 + d)", symmetric] by simp
    moreover have "char_of (48 + d) \<noteq> CHR ''\<newline>''" using k by auto
    moreover have "is_cint (10 * int k)" "is_cint (10 * int k + int d)" using 1(2) that(2) by (auto simp: cint_range)
    ultimately show ?thesis using that by (simp add: scan_digit_def)
  qed
  show ?case
  proof (cases "n < 10")
    case True
    then show ?thesis using dig [of n 0 s] assms(2) by (simp add: dec.simps [of n])
  next
    case False
    have "n = 10 * (n div 10) + n mod 10" by simp
    with False 1 dig [of "n mod 10" "n div 10" "s\<lparr>c_value := int (n div 10), c_flag := True\<rparr>"] show ?thesis
      by (simp add: dec.simps [of n])
  qed
qed

section \<open>Reading an expression\<close>

text \<open>\<open>ns\<close> are the numbers held, the one still being read included; \<open>os\<close> the operators.\<close>

definition calc_rep :: "calc \<Rightarrow> int list \<Rightarrow> int list \<Rightarrow> bool" where
  "calc_rep s ns os \<longleftrightarrow> holds (c_sop s) os \<and>
     (if c_flag s then \<exists>ms. ns = c_value s # ms \<and> holds (c_snum s) ms else c_value s = 0 \<and> holds (c_snum s) ns)"

abbreviation wide_ok :: "(int \<Rightarrow> int) \<Rightarrow> bool" where
  "wide_ok wide \<equiv> \<forall>c \<in> insert CHR ''('' ops. wide (code c) = code c"

lemma op_char: "c \<in> ops \<Longrightarrow> 0 < prio c \<and> prio c < 3 \<and> \<not> (48 \<le> code c \<and> code c \<le> 57) \<and> c \<noteq> CHR '')'' \<and> c \<noteq> CHR ''\<newline>''"
  by (auto simp: ops_def get_pri_def)

lemma prec_range: "ex_ok e \<Longrightarrow> 1 \<le> prec e \<and> prec e \<le> 3"
  by (cases e) (use op_char in fastforce)+

text \<open>The number that was being read is pushed before an operator or a bracket is handled.\<close>

lemma flush_rep:
  assumes "calc_rep s ns os" "length ns \<le> MAXSIZE"
  shows "\<exists>st. (if c_flag s then do {
             (r, st) \<leftarrow> st_push MAXSIZE (c_snum s) (c_value s);
             Some (s\<lparr>c_snum := st, c_flag := False, c_value := 0\<rparr>) }
           else Some s) = Some (s\<lparr>c_snum := st, c_flag := False, c_value := 0\<rparr>)
      \<and> (if c_flag s then do { (r, st) \<leftarrow> st_push MAXSIZE (c_snum s) (c_value s); Some st } else Some (c_snum s)) = Some st
      \<and> holds st ns"
proof (cases "c_flag s")
  case True
  with assms obtain ms where "ns = c_value s # ms" "holds (c_snum s) ms" "length ms < MAXSIZE"
    by (auto simp: calc_rep_def)
  with push_holds [of "c_snum s" ms "c_value s"] True show ?thesis by auto
next
  case False
  with assms(1) show ?thesis by (intro exI [of _ "c_snum s"]) (simp add: calc_rep_def)
qed

lemma scan_operator:
  assumes rep: "calc_rep s ns os" "length ns \<le> MAXSIZE" and c: "c \<in> ops" "wide_ok wide"
    and r: "red (prio c) ns os = Some (ns', os')" "length os' < MAXSIZE"
  shows "\<exists>s'. scan_loop wide (c # rest) s = scan_loop wide rest s' \<and> calc_rep s' ns' (code c # os') \<and> \<not> c_flag s'"
proof -
  let ?t = "\<lambda>st. s\<lparr>c_snum := st, c_flag := False, c_value := 0\<rparr>"
  note C = op_char [OF c(1)]
  obtain st where st: "(if c_flag s then do {
        (r, st) \<leftarrow> st_push MAXSIZE (c_snum s) (c_value s); Some (?t st) } else Some s) = Some (?t st)" "holds st ns"
    using flush_rep [OF rep] by blast
  have so: "holds (c_sop s) os" using rep(1) by (simp add: calc_rep_def)
  obtain sn so where d: "deal_op wide st (c_sop s) (code c) = Some (Done (sn, so))" "holds sn ns'" "holds so (code c # os')"
    using deal_op_red [where op = "code c" and wide = wide, OF st(2) so _ _ r] C c by auto
  have op: "scan_op wide c s = Some (Done (s\<lparr>c_snum := sn, c_flag := False, c_value := 0, c_sop := so\<rparr>))"
    unfolding scan_op_def st(1) using C d(1) by simp
  have "scan_loop wide (c # rest) s = scan_loop wide rest (s\<lparr>c_snum := sn, c_flag := False, c_value := 0, c_sop := so\<rparr>)"
    using C op by auto
  then show ?thesis using d by (intro exI [of _ "s\<lparr>c_snum := sn, c_flag := False, c_value := 0, c_sop := so\<rparr>"]) (simp add: calc_rep_def)
qed

lemma scan_open:
  assumes "calc_rep s ns os" "\<not> c_flag s" "length os < MAXSIZE" "wide_ok wide"
  shows "\<exists>s'. scan_loop wide (CHR ''('' # rest) s = scan_loop wide rest s' \<and> calc_rep s' ns (code CHR ''('' # os) \<and> \<not> c_flag s'"
proof -
  have "holds (c_sop s) os" using assms(1) by (simp add: calc_rep_def)
  then obtain so where "deal_op wide (c_snum s) (c_sop s) (code CHR ''('') = Some (Done (c_snum s, so))"
      "holds so (code CHR ''('' # os)"
    using deal_op_open [of "c_sop s" os wide "c_snum s"] assms(3,4) by blast
  then show ?thesis using assms(1,2)
    by (intro exI [of _ "s\<lparr>c_sop := so\<rparr>"]) (simp add: scan_op_def calc_rep_def)
qed

lemma scan_close:
  assumes rep: "calc_rep s ns os" "length ns \<le> MAXSIZE" and r: "red 1 ns os = Some (ns', code CHR ''('' # os')"
  shows "\<exists>s'. scan_loop wide (CHR '')'' # rest) s = scan_loop wide rest s' \<and> calc_rep s' ns' os' \<and> \<not> c_flag s'"
proof -
  let ?t = "\<lambda>st. s\<lparr>c_snum := st, c_flag := False, c_value := 0\<rparr>"
  obtain st where st: "(if c_flag s then do {
        (r, st) \<leftarrow> st_push MAXSIZE (c_snum s) (c_value s); Some (?t st) } else Some s) = Some (?t st)" "holds st ns"
    using flush_rep [OF rep] by blast
  have so: "holds (c_sop s) os" using rep(1) by (simp add: calc_rep_def)
  obtain sn so where d: "deal_bracket st (c_sop s) = Some (Done (sn, so))" "holds sn ns'" "holds so os'"
    using deal_bracket_red [OF st(2) so r] by blast
  have "scan_op wide CHR '')'' s = Some (Done (s\<lparr>c_snum := sn, c_flag := False, c_value := 0, c_sop := so\<rparr>))"
    unfolding scan_op_def st(1) using d(1) by simp
  then show ?thesis using d
    by (intro exI [of _ "s\<lparr>c_snum := sn, c_flag := False, c_value := 0, c_sop := so\<rparr>"]) (simp add: calc_rep_def)
qed

text \<open>
  Reading an expression above operators that bind less leaves the stacks, up to operators that are still to be applied, as if
  its value had been pushed.
\<close>

lemma scan_ex:
  assumes "ex_ok e" "ev e = Some v" "wide_ok wide" "calc_rep s ns os" "\<not> c_flag s"
    and "length ns + num_depth e \<le> MAXSIZE" "length os + op_depth e \<le> MAXSIZE"
    and "\<And>q os'. os = q # os' \<Longrightarrow> get_pri q < prec e"
  shows "\<exists>s' ns' os'. scan_loop wide (unparse e @ rest) s = scan_loop wide rest s' \<and> calc_rep s' ns' os'
    \<and> length ns' \<le> length ns + num_depth e \<and> (\<forall>p. 1 \<le> p \<and> p \<le> prec e \<longrightarrow> red p ns' os' = red p (v # ns) os)"
  using assms
proof (induction e arbitrary: v s ns os rest)
  case (Num k)
  then have k: "int k \<le> INT_MAX" "v = int k" "c_value s = 0"
    by (auto simp: cint_eq_Some_iff is_cint_def calc_rep_def)
  have "calc_rep (s\<lparr>c_value := int k, c_flag := True\<rparr>) (v # ns) os"
    using Num.prems(4,5) k by (simp add: calc_rep_def)
  with scan_dec [OF k(1,3)] show ?case by fastforce
next
  case (Par e)
  let ?b = "code CHR ''(''" and ?r = "CHR '')'' # rest"
  obtain s1 where 1: "scan_loop wide (CHR ''('' # unparse e @ ?r) s = scan_loop wide (unparse e @ ?r) s1"
      "calc_rep s1 ns (?b # os)" "\<not> c_flag s1"
    using scan_open [OF Par.prems(4,5) _ Par.prems(3)] Par.prems(7) by fastforce
  have e: "ex_ok e" "ev e = Some v" using Par.prems(1,2) by auto
  have "get_pri q < prec e" if "?b # os = q # os'" for q os' using that prec_range [OF e(1)] by (auto simp: get_pri_def)
  then obtain s2 ns2 os2 where 2: "scan_loop wide (unparse e @ ?r) s1 = scan_loop wide ?r s2" "calc_rep s2 ns2 os2"
      "length ns2 \<le> length ns + num_depth e" "\<forall>p. 1 \<le> p \<and> p \<le> prec e \<longrightarrow> red p ns2 os2 = red p (v # ns) (?b # os)"
    using Par.IH [OF e Par.prems(3) 1(2,3), of ?r] Par.prems(6,7) by fastforce
  have "red 1 ns2 os2 = Some (v # ns, ?b # os)" using 2(4) prec_range [OF e(1)] by simp
  then obtain s3 where 3: "scan_loop wide ?r s2 = scan_loop wide rest s3" "calc_rep s3 (v # ns) os"
    using scan_close [OF 2(2)] 2(3) Par.prems(6) by fastforce
  have "scan_loop wide (unparse (Par e) @ rest) s = scan_loop wide rest s3" using 1(1) 2(1) 3(1) by simp
  moreover have "length (v # ns) \<le> length ns + num_depth (Par e)" using num_depth_pos [of e] by simp
  ultimately show ?case using 3(2) by blast
next
  case (Bin c l r)
  from Bin.prems(1,2) obtain a b where ok: "c \<in> ops" "ex_ok l" "ex_ok r" "prio c \<le> prec l" "prio c < prec r"
    and v: "ev l = Some a" "ev r = Some b" "apply_op (code c) a b = Some v"
    by (auto simp: bind_eq_Some_conv)
  have c: "0 < prio c" using op_char [OF ok(1)] by simp
  have low: "get_pri q < prio c" if "os = q # os'" for q os' using Bin.prems(8) [OF that] by simp
  let ?r = "c # unparse r @ rest"
  obtain s1 ns1 os1 where 1: "scan_loop wide (unparse l @ ?r) s = scan_loop wide ?r s1" "calc_rep s1 ns1 os1"
      "length ns1 \<le> length ns + num_depth l" "\<forall>p. 1 \<le> p \<and> p \<le> prec l \<longrightarrow> red p ns1 os1 = red p (a # ns) os"
    using Bin.IH(1) [OF ok(2) v(1) Bin.prems(3,4,5), of ?r] Bin.prems(6,7) low ok(4) by fastforce
  have "red (prio c) ns1 os1 = Some (a # ns, os)" using 1(4) c ok(4) red_none [OF low] by simp
  then obtain s2 where 2: "scan_loop wide ?r s1 = scan_loop wide (unparse r @ rest) s2"
      "calc_rep s2 (a # ns) (code c # os)" "\<not> c_flag s2"
    using scan_operator [OF 1(2) _ ok(1) Bin.prems(3)] 1(3) Bin.prems(6,7) by fastforce
  have "get_pri q < prec r" if "code c # os = q # os'" for q os' using that ok(5) by auto
  then obtain s3 ns3 os3 where 3: "scan_loop wide (unparse r @ rest) s2 = scan_loop wide rest s3" "calc_rep s3 ns3 os3"
      "length ns3 \<le> length (a # ns) + num_depth r" "\<forall>p. 1 \<le> p \<and> p \<le> prec r \<longrightarrow> red p ns3 os3 = red p (b # a # ns) (code c # os)"
    using Bin.IH(2) [OF ok(3) v(2) Bin.prems(3) 2(2,3), of rest] Bin.prems(6,7) by fastforce
  have "red p ns3 os3 = red p (v # ns) os" if "1 \<le> p" "p \<le> prio c" for p
    using 3(4) that ok(5) v(3) by simp
  moreover have "scan_loop wide (unparse (Bin c l r) @ rest) s = scan_loop wide rest s3" using 1(1) 2(1) 3(1) by simp
  moreover have "length ns3 \<le> length ns + num_depth (Bin c l r)" using 3(3) by simp
  ultimately show ?case using 3(2) by fastforce
qed

text \<open>A string without a line end is never read to its end: nothing but leaving the array or giving up can happen.\<close>

lemma scan_needs_newline: "scan_loop wide cs s = Some (Done t) \<Longrightarrow> CHR ''\<newline>'' \<in> set cs"
proof (induction cs arbitrary: s)
  case (Cons c cs)
  show ?case
  proof (cases "c = CHR ''\<newline>'' \<or> 48 \<le> code c \<and> code c \<le> 57")
    case True
    with Cons.prems show ?thesis by (cases "c = CHR ''\<newline>''") (auto simp: bind_eq_Some_conv dest: Cons.IH)
  next
    case False
    with Cons.prems obtain u where "scan_op wide c s = Some (Done u)" "scan_loop wide cs u = Some (Done t)"
      by (cases "scan_op wide c s"; cases "the (scan_op wide c s)") (auto split: if_splits)
    with Cons.IH show ?thesis by simp
  qed
qed simp




end
