(* ===== verification/Kernel.thy ===== *)
theory Kernel
  imports Prelude "HOL-Library.Sublist" "HOL-Library.Word"
begin

unbundle bit_operations_syntax

text \<open>
  The part of the operating system the I/O programs use: file descriptors with \<open>read\<close>, \<open>write\<close>
  and \<open>fcntl\<close>. What the environment does is a script per descriptor, one entry per system call
  that consumes it: the bytes that become readable (an empty chunk is end of file), the number
  of bytes a \<open>write\<close> accepts, or the error it reports. A \<open>read\<close> on an exhausted script reports
  \<open>EAGAIN\<close> (nothing there, non-blocking descriptor), a \<open>write\<close> on an exhausted script accepts
  everything. The fields \<open>got\<close> and \<open>sent\<close> log what was delivered and accepted; no program reads
  them. All statements quantify over the scripts, so they hold for every behaviour of the
  environment that POSIX allows these calls.
\<close>

type_synonym byte = char

datatype rd_reply = RdData "byte list" | RdErr int

datatype wr_reply = WrTake nat | WrErr int

record world =
  rd_script :: "int \<Rightarrow> rd_reply list"
  wr_script :: "int \<Rightarrow> wr_reply list"
  flags :: "int \<Rightarrow> int"
  errno :: int
  got :: "int \<Rightarrow> byte list"
  sent :: "int \<Rightarrow> byte list"
  diag :: "string list"
  closed :: "int list"

abbreviation O_NONBLOCK :: int where "O_NONBLOCK \<equiv> 2048"

text \<open>\<open>read(fd, buf, n)\<close>: the result, the bytes stored at the start of the buffer, the new world.\<close>

definition sys_read :: "int \<Rightarrow> nat \<Rightarrow> world \<Rightarrow> int \<times> byte list \<times> world" where
  "sys_read fd n w = (case rd_script w fd of
       [] \<Rightarrow> (- 1, [], w\<lparr>errno := EAGAIN\<rparr>)
     | RdErr e # rs \<Rightarrow> (- 1, [], w\<lparr>errno := e, rd_script := (rd_script w)(fd := rs)\<rparr>)
     | RdData bs # rs \<Rightarrow>
         (int (length (take n bs)), take n bs,
          w\<lparr>rd_script := (rd_script w)(fd := if drop n bs = [] then rs else RdData (drop n bs) # rs),
            got := (got w)(fd := got w fd @ take n bs)\<rparr>))"

text \<open>\<open>write(fd, bytes, n)\<close> with \<open>n\<close> the length of \<open>bytes\<close>.\<close>

definition sys_write :: "int \<Rightarrow> byte list \<Rightarrow> world \<Rightarrow> int \<times> world" where
  "sys_write fd bs w = (case wr_script w fd of
       [] \<Rightarrow> (int (length bs), w\<lparr>sent := (sent w)(fd := sent w fd @ bs)\<rparr>)
     | WrErr e # rs \<Rightarrow> (- 1, w\<lparr>errno := e, wr_script := (wr_script w)(fd := rs)\<rparr>)
     | WrTake k # rs \<Rightarrow>
         (int (length (take k bs)),
          w\<lparr>wr_script := (wr_script w)(fd := rs),
            sent := (sent w)(fd := sent w fd @ take k bs)\<rparr>))"

definition fcntl_getfl :: "int \<Rightarrow> world \<Rightarrow> int" where
  "fcntl_getfl fd w = flags w fd"

definition fcntl_setfl :: "int \<Rightarrow> int \<Rightarrow> world \<Rightarrow> world" where
  "fcntl_setfl fd v w = w\<lparr>flags := (flags w)(fd := v)\<rparr>"

definition perror :: "string \<Rightarrow> world \<Rightarrow> world" where
  "perror s w = w\<lparr>diag := diag w @ [s]\<rparr>"

definition sys_close :: "int \<Rightarrow> world \<Rightarrow> world" where
  "sys_close fd w = w\<lparr>closed := closed w @ [fd]\<rparr>"

text \<open>The \<open>n\<close> bytes at offset \<open>p\<close> of a buffer, as a \<open>write\<close> reads them.\<close>

definition slice :: "byte list \<Rightarrow> int \<Rightarrow> int \<Rightarrow> byte list option" where
  "slice b p n =
     (if 0 \<le> p \<and> 0 \<le> n \<and> p + n \<le> int (length b)
      then Some (take (nat n) (drop (nat p) b)) else None)"

text \<open>A buffer after \<open>read\<close> stored \<open>d\<close> at its start.\<close>

definition fill :: "byte list \<Rightarrow> byte list \<Rightarrow> byte list" where
  "fill b d = d @ drop (length d) b"

lemma length_fill [simp]: "length d \<le> length b \<Longrightarrow> length (fill b d) = length b"
  by (simp add: fill_def)

lemma slice_fill [simp]: "length d \<le> length b \<Longrightarrow> slice (fill b d) 0 (int (length d)) = Some d"
  by (simp add: slice_def fill_def)

lemma slice_advance:
  assumes "slice b p n = Some bs" "k \<le> length bs"
  shows "slice b (p + int k) (n - int k) = Some (drop k bs)"
proof -
  have "nat (p + int k) = k + nat p" "nat (n - int k) = nat n - k"
    using assms by (auto simp: slice_def split: if_splits)
  with assms show ?thesis
    by (auto simp: slice_def drop_take split: if_splits)
qed

lemma slice_length: "slice b p n = Some bs \<Longrightarrow> int (length bs) = n"
  by (auto simp: slice_def split: if_splits)

text \<open>What a script still delivers before the end of file.\<close>

fun before_eof :: "rd_reply list \<Rightarrow> byte list" where
  "before_eof [] = []"
| "before_eof (RdErr e # rs) = before_eof rs"
| "before_eof (RdData bs # rs) = (if bs = [] then [] else bs @ before_eof rs)"

definition has_eof :: "rd_reply list \<Rightarrow> bool" where
  "has_eof rs \<longleftrightarrow> RdData [] \<in> set rs"

text \<open>Scripts in which the only error is "try again".\<close>

definition rd_calm :: "rd_reply list \<Rightarrow> bool" where
  "rd_calm rs \<longleftrightarrow> (\<forall>e. RdErr e \<in> set rs \<longrightarrow> e = EAGAIN)"

definition wr_calm :: "wr_reply list \<Rightarrow> bool" where
  "wr_calm rs \<longleftrightarrow> (\<forall>e. WrErr e \<in> set rs \<longrightarrow> e = EAGAIN)"

text \<open>A bound on the number of reads a script can answer.\<close>

fun rd_weight :: "rd_reply list \<Rightarrow> nat" where
  "rd_weight [] = 0"
| "rd_weight (RdErr e # rs) = 1 + rd_weight rs"
| "rd_weight (RdData bs # rs) = 2 * length bs + 2 + rd_weight rs"

lemma rd_calm_simps [simp]:
  "rd_calm []" "rd_calm (RdData bs # rs) = rd_calm rs"
  "rd_calm (RdErr e # rs) \<longleftrightarrow> e = EAGAIN \<and> rd_calm rs"
  by (auto simp: rd_calm_def)

lemma wr_calm_simps [simp]:
  "wr_calm []" "wr_calm (WrTake k # rs) = wr_calm rs"
  "wr_calm (WrErr e # rs) \<longleftrightarrow> e = EAGAIN \<and> wr_calm rs"
  by (auto simp: wr_calm_def)

lemma has_eof_simps [simp]:
  "\<not> has_eof []" "has_eof (RdErr e # rs) = has_eof rs"
  "has_eof (RdData bs # rs) \<longleftrightarrow> bs = [] \<or> has_eof rs"
  by (auto simp: has_eof_def)

end
