(* ===== verification/TokenBucket.thy ===== *)
theory TokenBucket
  imports SlotTable
begin

text \<open>
  The token bucket library, in its three versions: driven by \<open>alarm\<close> and \<open>signal\<close>
  (\<open>parallel/signal/mytbf/mytbf.c\<close>), by \<open>setitimer\<close> and \<open>sigaction\<close>
  (\<open>parallel/signal/mytbf_sa/mytbf.c\<close>), and by a thread (\<open>parallel/thread/posix/mytbf_mt/mytbf.c\<close>).
  Buckets are objects on a heap, and the table \<open>job\<close> holds pointers to them. A refill and every
  operation is one atomic step: the thread version holds the mutex of the bucket, and for the
  signal versions the refill is taken to be delivered in \<open>pause\<close> or between operations. The
  lemmas show that the library keeps the table and the objects consistent, that a bucket never holds
  more than its burst, that the tokens handed out never exceed the rate, and that a request waits only
  as long as it must.
\<close>

section \<open>State\<close>

abbreviation MYTBF_MAX :: nat where "MYTBF_MAX \<equiv> 1024"

type_synonym addr = nat

record mytbf_st =
  pos :: int
  cps :: int
  burst :: int
  token :: int

text \<open>\<open>obj\<close> is the heap of buckets; an address outside its domain is not allocated or was freed.\<close>

record tbf_lib =
  job :: "addr option list"
  obj :: "addr \<Rightarrow> mytbf_st option"
  inited :: bool

section \<open>Operations\<close>

text \<open>\<open>token += n; if (token > burst) token = burst;\<close>\<close>

definition tbf_add :: "mytbf_st \<Rightarrow> int \<Rightarrow> mytbf_st option" where
  "tbf_add me n = do {
     t \<leftarrow> cint (token me + n);
     Some (me\<lparr>token := if t > burst me then burst me else t\<rparr>) }"

text \<open>The loop of the signal handler over the table.\<close>

fun tick_from :: "addr option list \<Rightarrow> (addr \<Rightarrow> mytbf_st option) \<Rightarrow> (addr \<Rightarrow> mytbf_st option) option" where
  "tick_from [] m = Some m"
| "tick_from (None # tab) m = tick_from tab m"
| "tick_from (Some a # tab) m = do {
     me \<leftarrow> m a;
     me' \<leftarrow> tbf_add me (cps me);
     tick_from tab (m(a \<mapsto> me')) }"

definition alrm_handler :: "tbf_lib \<Rightarrow> tbf_lib option" where
  "alrm_handler l = do { m \<leftarrow> tick_from (job l) (obj l); Some (l\<lparr>obj := m\<rparr>) }"

definition tbf_get_free_pos :: "tbf_lib \<Rightarrow> int" where
  "tbf_get_free_pos l = free_pos (job l)"

text \<open>\<open>mytbf_init\<close>: \<open>mem\<close> is the result of \<open>malloc\<close>; the result is the returned pointer.\<close>

definition mytbf_init :: "addr option \<Rightarrow> int \<Rightarrow> int \<Rightarrow> tbf_lib \<Rightarrow> addr option \<times> tbf_lib" where
  "mytbf_init mem c b l =
     (let l = (if \<not> inited l then l\<lparr>inited := True\<rparr> else l);
          p = tbf_get_free_pos l
      in if p < 0 then (None, l)
         else case mem of
           None \<Rightarrow> (None, l)
         | Some a \<Rightarrow>
             (Some a, l\<lparr>obj := (obj l)(a \<mapsto> \<lparr>pos = p, cps = c, burst = b, token = 0\<rparr>),
                        job := (job l)[nat p := Some a]\<rparr>))"

definition tbf_min :: "int \<Rightarrow> int \<Rightarrow> int" where
  "tbf_min a b = (if a < b then a else b)"

text \<open>\<open>while (me->token <= 0) pause();\<close> where every \<open>pause\<close> ends with a run of the handler.\<close>

definition tbf_dry :: "addr \<Rightarrow> tbf_lib \<Rightarrow> bool" where
  "tbf_dry a l \<longleftrightarrow> (case obj l a of Some me \<Rightarrow> token me \<le> 0 | None \<Rightarrow> False)"

definition tbf_grab :: "addr \<Rightarrow> int \<Rightarrow> tbf_lib \<Rightarrow> (int \<times> tbf_lib) option" where
  "tbf_grab a sz l = do {
     me \<leftarrow> obj l a;
     let n = tbf_min (token me) sz;
     Some (n, l\<lparr>obj := (obj l)(a \<mapsto> me\<lparr>token := token me - n\<rparr>)\<rparr>) }"

definition mytbf_fetchtoken :: "addr \<Rightarrow> int \<Rightarrow> tbf_lib \<Rightarrow> (int \<times> tbf_lib) option" where
  "mytbf_fetchtoken a sz l =
     (if sz < 0 then Some (- EINVAL, l)
      else do {
        l \<leftarrow> c_while (tbf_dry a) alrm_handler l;
        tbf_grab a sz l })"

definition mytbf_returntoken :: "addr \<Rightarrow> int \<Rightarrow> tbf_lib \<Rightarrow> (int \<times> tbf_lib) option" where
  "mytbf_returntoken a sz l =
     (if sz \<le> 0 then Some (- EINVAL, l)
      else do {
        me \<leftarrow> obj l a;
        me' \<leftarrow> tbf_add me sz;
        Some (sz, l\<lparr>obj := (obj l)(a \<mapsto> me')\<rparr>) })"

definition mytbf_destroy :: "addr \<Rightarrow> tbf_lib \<Rightarrow> (int \<times> tbf_lib) option" where
  "mytbf_destroy a l = do {
     me \<leftarrow> obj l a;
     j \<leftarrow> arr_set (job l) (pos me) None;
     Some (0, l\<lparr>job := j, obj := (obj l)(a := None)\<rparr>) }"

text \<open>\<open>module_unload\<close> frees every bucket in the table; \<open>free(NULL)\<close> does nothing.\<close>

fun free_jobs :: "addr option list \<Rightarrow> (addr \<Rightarrow> mytbf_st option) \<Rightarrow> addr \<Rightarrow> mytbf_st option" where
  "free_jobs [] m = m"
| "free_jobs (None # tab) m = free_jobs tab m"
| "free_jobs (Some a # tab) m = free_jobs tab (m(a := None))"

definition tbf_module_unload :: "tbf_lib \<Rightarrow> tbf_lib" where
  "tbf_module_unload l = l\<lparr>obj := free_jobs (job l) (obj l)\<rparr>"

section \<open>The invariant\<close>

definition bucket_ok :: "mytbf_st \<Rightarrow> bool" where
  "bucket_ok me \<longleftrightarrow> 0 \<le> cps me \<and> 0 \<le> token me \<and> token me \<le> burst me \<and> burst me + cps me \<le> INT_MAX"

definition lib_ok :: "tbf_lib \<Rightarrow> bool" where
  "lib_ok l \<longleftrightarrow> length (job l) = MYTBF_MAX
     \<and> (\<forall>a me. obj l a = Some me \<longrightarrow> bucket_ok me \<and> 0 \<le> pos me \<and> pos me < int MYTBF_MAX
          \<and> job l ! nat (pos me) = Some a)
     \<and> (\<forall>i a. i < MYTBF_MAX \<longrightarrow> job l ! i = Some a \<longrightarrow> (\<exists>me. obj l a = Some me \<and> pos me = int i))"

lemma lib_ok_obj:
  "lib_ok l \<Longrightarrow> obj l a = Some me \<Longrightarrow>
   bucket_ok me \<and> 0 \<le> pos me \<and> pos me < int (length (job l)) \<and> job l ! nat (pos me) = Some a"
  by (auto simp: lib_ok_def)

text \<open>No pointer occurs twice in the table.\<close>

definition uniq :: "'a option list \<Rightarrow> bool" where
  "uniq tab \<longleftrightarrow> (\<forall>i < length tab. \<forall>j < length tab. tab ! i = tab ! j \<longrightarrow> tab ! i \<noteq> None \<longrightarrow> i = j)"

lemma uniq_Cons:
  assumes "uniq (x # tab)"
  shows "uniq tab" and "x \<noteq> None \<Longrightarrow> x \<notin> set tab"
proof -
  show "uniq tab"
    unfolding uniq_def
  proof (intro allI impI)
    fix i j
    assume "i < length tab" "j < length tab" "tab ! i = tab ! j" "tab ! i \<noteq> None"
    with assms [unfolded uniq_def, rule_format, of "Suc i" "Suc j"] show "i = j" by simp
  qed
  show "x \<notin> set tab" if "x \<noteq> None"
  proof
    assume "x \<in> set tab"
    then obtain j where "j < length tab" "tab ! j = x" by (auto simp: in_set_conv_nth)
    with assms [unfolded uniq_def, rule_format, of 0 "Suc j"] that show False by simp
  qed
qed

lemma lib_ok_uniq: "lib_ok l \<Longrightarrow> uniq (job l)"
  unfolding uniq_def
proof (intro allI impI)
  fix i j
  assume ok: "lib_ok l" and ij: "i < length (job l)" "j < length (job l)"
    and eq: "job l ! i = job l ! j" "job l ! i \<noteq> None"
  then obtain a where "job l ! i = Some a" "job l ! j = Some a" by auto
  with ok ij obtain me me' where "obj l a = Some me" "pos me = int i" "obj l a = Some me'" "pos me' = int j"
    unfolding lib_ok_def by metis
  then show "i = j" by simp
qed

section \<open>The refill\<close>

definition refill :: "mytbf_st \<Rightarrow> mytbf_st" where
  "refill me = me\<lparr>token := min (burst me) (token me + cps me)\<rparr>"

lemma refill_simps [simp]:
  "pos (refill me) = pos me" "cps (refill me) = cps me" "burst (refill me) = burst me"
  "token (refill me) = min (burst me) (token me + cps me)"
  by (simp_all add: refill_def)

lemma refill_ok: "bucket_ok me \<Longrightarrow> bucket_ok (refill me)"
  by (auto simp: bucket_ok_def)

lemma tbf_add_cps: "bucket_ok me \<Longrightarrow> tbf_add me (cps me) = Some (refill me)"
  by (auto simp: tbf_add_def refill_def bucket_ok_def cint_def cint_range min_def split: if_splits)

lemma tick_from_eq:
  "uniq tab \<Longrightarrow> \<forall>a. Some a \<in> set tab \<longrightarrow> (\<exists>me. m a = Some me \<and> bucket_ok me) \<Longrightarrow>
   tick_from tab m = Some (\<lambda>a. if Some a \<in> set tab then map_option refill (m a) else m a)"
proof (induction tab m rule: tick_from.induct)
  case (2 tab m)
  then show ?case using uniq_Cons(1) [OF 2(2)] by auto
next
  case (3 a tab m)
  from 3(3) obtain me where me: "m a = Some me" "bucket_ok me" by auto
  have a: "Some a \<notin> set tab" using uniq_Cons(2) [OF 3(2)] by simp
  have "\<forall>b. Some b \<in> set tab \<longrightarrow> (\<exists>me'. (m(a \<mapsto> refill me)) b = Some me' \<and> bucket_ok me')"
    using 3(3) a by auto
  from 3(1) [OF me(1) tbf_add_cps [OF me(2)] uniq_Cons(1) [OF 3(2)] this]
  have "tick_from (Some a # tab) m = Some (\<lambda>b. if Some b \<in> set tab
      then map_option refill ((m(a \<mapsto> refill me)) b) else (m(a \<mapsto> refill me)) b)"
    using me by (simp add: tbf_add_cps fun_upd_def)
  also have "(\<lambda>b. if Some b \<in> set tab then map_option refill ((m(a \<mapsto> refill me)) b)
      else (m(a \<mapsto> refill me)) b) = (\<lambda>b. if Some b \<in> set (Some a # tab) then map_option refill (m b) else m b)"
    using me a by (auto simp: fun_eq_iff)
  finally show ?case .
qed simp

lemma alrm_handler_eq:
  assumes "lib_ok l"
  shows "alrm_handler l = Some (l\<lparr>obj := \<lambda>a. map_option refill (obj l a)\<rparr>)"
proof -
  have tab: "Some a \<in> set (job l) \<longleftrightarrow> obj l a \<noteq> None" for a
  proof
    assume "Some a \<in> set (job l)"
    then obtain i where "i < length (job l)" "job l ! i = Some a" by (auto simp: in_set_conv_nth)
    with assms show "obj l a \<noteq> None" unfolding lib_ok_def by (metis option.discI)
  next
    assume "obj l a \<noteq> None"
    then obtain me where "obj l a = Some me" by auto
    with lib_ok_obj [OF assms this] show "Some a \<in> set (job l)"
      by (auto simp: in_set_conv_nth intro!: exI [of _ "nat (pos me)"])
  qed
  have "tick_from (job l) (obj l) = Some (\<lambda>a. if Some a \<in> set (job l) then map_option refill (obj l a) else obj l a)"
    using lib_ok_obj [OF assms] tab by (intro tick_from_eq [OF lib_ok_uniq [OF assms]]) auto
  moreover have "(\<lambda>a. if Some a \<in> set (job l) then map_option refill (obj l a) else obj l a)
      = (\<lambda>a. map_option refill (obj l a))"
    by (auto simp: tab fun_eq_iff)
  ultimately show ?thesis by (simp add: alrm_handler_def)
qed

lemma alrm_handler_ok: "lib_ok l \<Longrightarrow> \<exists>l'. alrm_handler l = Some l' \<and> lib_ok l'"
  by (fastforce simp: alrm_handler_eq lib_ok_def refill_ok)

section \<open>The operations keep the invariant\<close>

text \<open>Replacing a bucket by one in the same slot.\<close>

lemma lib_ok_upd:
  assumes "lib_ok l" "obj l a = Some me" "bucket_ok me'" "pos me' = pos me"
  shows "lib_ok (l\<lparr>obj := (obj l)(a \<mapsto> me')\<rparr>)"
  using assms unfolding lib_ok_def by (auto split: if_splits)

lemma grab_ok:
  assumes "lib_ok l" "obj l a = Some me" "0 \<le> sz"
  shows "tbf_grab a sz l = Some (min (token me) sz,
      l\<lparr>obj := (obj l)(a \<mapsto> me\<lparr>token := token me - min (token me) sz\<rparr>)\<rparr>)"
    and "lib_ok (l\<lparr>obj := (obj l)(a \<mapsto> me\<lparr>token := token me - min (token me) sz\<rparr>)\<rparr>)"
proof -
  show "tbf_grab a sz l = Some (min (token me) sz,
      l\<lparr>obj := (obj l)(a \<mapsto> me\<lparr>token := token me - min (token me) sz\<rparr>)\<rparr>)"
    using assms(2) by (simp add: tbf_grab_def tbf_min_def min_def)
  show "lib_ok (l\<lparr>obj := (obj l)(a \<mapsto> me\<lparr>token := token me - min (token me) sz\<rparr>)\<rparr>)"
    using lib_ok_obj [OF assms(1,2)] assms
    by (intro lib_ok_upd [OF assms(1,2)]) (auto simp: bucket_ok_def)
qed

text \<open>A return is defined when the sum still fits in an \<open>int\<close>.\<close>

lemma return_ok:
  assumes "lib_ok l" "obj l a = Some me" "0 < sz" "token me + sz \<le> INT_MAX"
  shows "mytbf_returntoken a sz l = Some (sz, l\<lparr>obj := (obj l)(a \<mapsto>
      me\<lparr>token := min (burst me) (token me + sz)\<rparr>)\<rparr>)"
    and "lib_ok (l\<lparr>obj := (obj l)(a \<mapsto> me\<lparr>token := min (burst me) (token me + sz)\<rparr>)\<rparr>)"
proof -
  have ok: "bucket_ok me" using lib_ok_obj [OF assms(1,2)] by simp
  then have "is_cint (token me + sz)"
    using assms(3,4) by (auto simp: cint_range bucket_ok_def)
  with assms show "mytbf_returntoken a sz l = Some (sz, l\<lparr>obj := (obj l)(a \<mapsto>
      me\<lparr>token := min (burst me) (token me + sz)\<rparr>)\<rparr>)"
    by (simp add: mytbf_returntoken_def tbf_add_def min_def)
  show "lib_ok (l\<lparr>obj := (obj l)(a \<mapsto> me\<lparr>token := min (burst me) (token me + sz)\<rparr>)\<rparr>)"
    using ok assms(3) by (intro lib_ok_upd [OF assms(1,2)]) (auto simp: bucket_ok_def)
qed

lemma mytbf_init_eq:
  "mytbf_init mem c b l =
    (if free_pos (job l) < 0 then (None, l\<lparr>inited := True\<rparr>)
     else case mem of
       None \<Rightarrow> (None, l\<lparr>inited := True\<rparr>)
     | Some a \<Rightarrow> (Some a, l\<lparr>inited := True,
         obj := (obj l)(a \<mapsto> \<lparr>pos = free_pos (job l), cps = c, burst = b, token = 0\<rparr>),
         job := (job l)[nat (free_pos (job l)) := Some a]\<rparr>))"
  by (cases "inited l") (auto simp: mytbf_init_def tbf_get_free_pos_def Let_def split: option.split)

lemma lib_ok_inited [simp]: "lib_ok (l\<lparr>inited := x\<rparr>) = lib_ok l"
  by (simp add: lib_ok_def)

lemma init_ok:
  assumes "lib_ok l" "bucket_ok \<lparr>pos = 0, cps = c, burst = b, token = 0\<rparr>"
    and "case mem of None \<Rightarrow> True | Some a \<Rightarrow> obj l a = None"
    and "mytbf_init mem c b l = (r, l')"
  shows "lib_ok l'"
proof (cases "job l" rule: free_pos_cases)
  case full
  with assms(1,4) show ?thesis by (auto simp: mytbf_init_eq)
next
  case (free n)
  show ?thesis
  proof (cases mem)
    case None
    with assms free show ?thesis by (auto simp: mytbf_init_eq)
  next
    case (Some a)
    let ?me = "\<lparr>pos = int n, cps = c, burst = b, token = 0\<rparr>"
    let ?l = "l\<lparr>inited := True, obj := (obj l)(a \<mapsto> ?me), job := (job l)[n := Some a]\<rparr>"
    have l': "l' = ?l"
      using assms(4) free Some by (auto simp: mytbf_init_eq)
    have a: "obj l a = None" using assms(3) Some by simp
    have len: "length (job l) = MYTBF_MAX" using assms(1) by (simp add: lib_ok_def)
    have "lib_ok ?l"
      unfolding lib_ok_def
    proof (intro conjI allI impI)
      show "length (job ?l) = MYTBF_MAX" using len by simp
    next
      fix a' me
      assume "obj ?l a' = Some me"
      then have me: "(if a' = a then Some ?me else obj l a') = Some me" by (auto split: if_splits)
      show "bucket_ok me" "0 \<le> pos me" "pos me < int MYTBF_MAX" "job ?l ! nat (pos me) = Some a'"
        using me assms(2) lib_ok_obj [OF assms(1), of a' me] free len
        by (auto simp: bucket_ok_def nth_list_update split: if_splits)
    next
      fix i a'
      assume i: "i < MYTBF_MAX" "job ?l ! i = Some a'"
      show "\<exists>me. obj ?l a' = Some me \<and> pos me = int i"
      proof (cases "i = n")
        case True
        with i free len show ?thesis by auto
      next
        case False
        with i free(1) have "job l ! i = Some a'" by simp
        with i(1) assms(1) obtain me where "obj l a' = Some me" "pos me = int i"
          unfolding lib_ok_def by blast
        with a show ?thesis by (cases "a' = a") auto
      qed
    qed
    with l' show ?thesis by simp
  qed
qed

lemma destroy_ok:
  assumes "lib_ok l" "obj l a = Some me"
  shows "\<exists>l'. mytbf_destroy a l = Some (0, l') \<and> lib_ok l' \<and> obj l' = (obj l)(a := None)
    \<and> job l' ! nat (pos me) = None"
proof -
  note o = lib_ok_obj [OF assms]
  let ?l = "l\<lparr>job := (job l)[nat (pos me) := None], obj := (obj l)(a := None)\<rparr>"
  have len: "length (job l) = MYTBF_MAX" using assms(1) by (simp add: lib_ok_def)
  have "mytbf_destroy a l = Some (0, ?l)"
    using o assms(2) by (simp add: mytbf_destroy_def)
  moreover have "lib_ok ?l"
    unfolding lib_ok_def
  proof (intro conjI allI impI)
    show "length (job ?l) = MYTBF_MAX" using len by simp
  next
    fix b me'
    assume "obj ?l b = Some me'"
    then have b: "b \<noteq> a" "obj l b = Some me'" by (auto split: if_splits)
    note ob = lib_ok_obj [OF assms(1) b(2)]
    show "bucket_ok me'" "0 \<le> pos me'" "pos me' < int MYTBF_MAX" using ob len by auto
    have "nat (pos me') \<noteq> nat (pos me)" using ob o b(1) by force
    then show "job ?l ! nat (pos me') = Some b" using ob by simp
  next
    fix i b
    assume i: "i < MYTBF_MAX" "job ?l ! i = Some b"
    then have "i \<noteq> nat (pos me)" using len by auto
    with i have "job l ! i = Some b" by simp
    with i assms(1) obtain me' where me': "obj l b = Some me'" "pos me' = int i"
      unfolding lib_ok_def by blast
    then have "b \<noteq> a" using assms(2) \<open>i \<noteq> nat (pos me)\<close> by auto
    with me' show "\<exists>me. obj ?l b = Some me \<and> pos me = int i" by simp
  qed
  ultimately show ?thesis using o by auto
qed

section \<open>Runs of the library\<close>

text \<open>
  What the threads and the clock do, in the order in which it takes effect. A \<open>Fetch\<close> is one look of
  a requesting thread at its bucket: on a dry bucket it goes back to waiting.
\<close>

datatype tbf_op =
    Tick
  | Fetch addr int
  | Return addr int
  | Init "addr option" int int
  | Destroy addr

definition tbf_try :: "addr \<Rightarrow> int \<Rightarrow> tbf_lib \<Rightarrow> (int \<times> tbf_lib) option" where
  "tbf_try a sz l =
     (if sz < 0 then Some (- EINVAL, l) else if tbf_dry a l then Some (0, l) else tbf_grab a sz l)"

text \<open>One operation: its result. \<open>malloc\<close> never returns the address of a live object.\<close>

fun tbf_do :: "tbf_op \<Rightarrow> tbf_lib \<Rightarrow> (int \<times> tbf_lib) option" where
  "tbf_do Tick l = map_option (Pair 0) (alrm_handler l)"
| "tbf_do (Fetch a sz) l = tbf_try a sz l"
| "tbf_do (Return a sz) l = mytbf_returntoken a sz l"
| "tbf_do (Init mem c b) l =
     (case mem of
        Some a \<Rightarrow> if obj l a = None then Some (0, snd (mytbf_init mem c b l)) else None
      | None \<Rightarrow> Some (0, snd (mytbf_init mem c b l)))"
| "tbf_do (Destroy a) l = mytbf_destroy a l"

text \<open>A run: the tokens handed out from bucket \<open>p\<close> and those accepted back, and the final state.\<close>

fun tbf_run :: "addr \<Rightarrow> tbf_op list \<Rightarrow> tbf_lib \<Rightarrow> (int \<times> int \<times> tbf_lib) option" where
  "tbf_run p [] l = Some (0, 0, l)"
| "tbf_run p (x # xs) l = do {
     (r, l) \<leftarrow> tbf_do x l;
     (given, refund, l) \<leftarrow> tbf_run p xs l;
     Some (given + (case x of Fetch a sz \<Rightarrow> if a = p \<and> 0 \<le> r then r else 0 | _ \<Rightarrow> 0),
           refund + (case x of Return a sz \<Rightarrow> if a = p \<and> 0 \<le> r then r else 0 | _ \<Rightarrow> 0), l) }"

text \<open>The buckets a run creates have sensible parameters.\<close>

definition sane :: "tbf_op \<Rightarrow> bool" where
  "sane x \<longleftrightarrow> (case x of Init mem c b \<Rightarrow> 0 \<le> c \<and> 0 \<le> b \<and> b + c \<le> INT_MAX | _ \<Rightarrow> True)"

definition ticks :: "tbf_op list \<Rightarrow> int" where
  "ticks xs = int (length (filter (\<lambda>x. x = Tick) xs))"

text \<open>What one operation does to a bucket it does not destroy.\<close>

definition gain :: "tbf_op \<Rightarrow> addr \<Rightarrow> int \<Rightarrow> int \<Rightarrow> int" where
  "gain x p c r = (case x of Tick \<Rightarrow> c
     | Fetch a sz \<Rightarrow> if a = p \<and> 0 \<le> r then - r else 0
     | Return a sz \<Rightarrow> if a = p \<and> 0 \<le> r then r else 0
     | _ \<Rightarrow> 0)"

lemma return_cases:
  assumes "lib_ok l" "mytbf_returntoken a sz l = Some (r, l')"
  obtains "sz \<le> 0" "r = - EINVAL" "l' = l"
  | me where "0 < sz" "obj l a = Some me" "token me + sz \<le> INT_MAX" "r = sz"
      "l' = l\<lparr>obj := (obj l)(a \<mapsto> me\<lparr>token := min (burst me) (token me + sz)\<rparr>)\<rparr>" "lib_ok l'"
proof (cases "sz \<le> 0")
  case True
  with assms(2) that(1) show ?thesis by (auto simp: mytbf_returntoken_def)
next
  case False
  with assms(2) obtain me where me: "obj l a = Some me" "is_cint (token me + sz)"
    by (auto simp: mytbf_returntoken_def tbf_add_def bind_eq_Some_conv cint_eq_Some_iff)
  then have "token me + sz \<le> INT_MAX" by (simp add: is_cint_def)
  with return_ok [OF assms(1) me(1), of sz] False assms(2) me that(2) show ?thesis by auto
qed

lemma try_cases:
  assumes "lib_ok l" "tbf_try a sz l = Some (r, l')"
  obtains "sz < 0" "r = - EINVAL" "l' = l" | "r = 0" "l' = l"
  | me where "0 \<le> sz" "obj l a = Some me" "r = min (token me) sz" "lib_ok l'"
      "l' = l\<lparr>obj := (obj l)(a \<mapsto> me\<lparr>token := token me - min (token me) sz\<rparr>)\<rparr>"
proof -
  consider "sz < 0" | "0 \<le> sz" "tbf_dry a l" | "0 \<le> sz" "\<not> tbf_dry a l" by linarith
  then show ?thesis
  proof cases
    case 3
    with assms(2) obtain me where me: "obj l a = Some me"
      by (auto simp: tbf_try_def tbf_grab_def bind_eq_Some_conv)
    with grab_ok [OF assms(1) me 3(1)] assms(2) 3 that(3) show ?thesis by (auto simp: tbf_try_def)
  qed (use assms(2) that(1,2) in \<open>auto simp: tbf_try_def\<close>)
qed

lemma tbf_do_step:
  assumes "lib_ok l" "tbf_do x l = Some (r, l')" "sane x" "x \<noteq> Destroy p" "obj l p = Some me"
  shows "lib_ok l' \<and> (\<exists>me'. obj l' p = Some me' \<and> cps me' = cps me \<and> burst me' = burst me
    \<and> token me' \<le> token me + gain x p (cps me) r)"
proof (cases x)
  case Tick
  with alrm_handler_eq [OF assms(1)] alrm_handler_ok [OF assms(1)] assms show ?thesis
    by (auto simp: gain_def)
next
  case (Fetch a sz)
  with assms(2) have "tbf_try a sz l = Some (r, l')" by simp
  then show ?thesis
    by (cases rule: try_cases [OF assms(1)])
      (use assms lib_ok_obj [OF assms(1)] Fetch in \<open>auto simp: gain_def bucket_ok_def\<close>)
next
  case (Return a sz)
  with assms(2) have "mytbf_returntoken a sz l = Some (r, l')" by simp
  then show ?thesis
    by (cases rule: return_cases [OF assms(1)]) (use assms Return in \<open>auto simp: gain_def\<close>)
next
  case (Init mem c b)
  have fresh: "case mem of None \<Rightarrow> True | Some a \<Rightarrow> obj l a = None"
    using assms(2) Init by (auto split: option.splits if_splits)
  obtain q where q: "mytbf_init mem c b l = (q, l')"
    using assms(2) Init by (cases "mytbf_init mem c b l") (auto split: option.splits if_splits)
  have "lib_ok l'"
    using init_ok [OF assms(1) _ fresh q] assms(3) Init by (auto simp: sane_def bucket_ok_def)
  moreover have "obj l' p = Some me"
    using q fresh assms(5) by (auto simp: mytbf_init_eq split: if_splits option.splits)
  ultimately show ?thesis using Init by (auto simp: gain_def)
next
  case (Destroy a)
  with assms(2) obtain me' where "obj l a = Some me'"
    by (auto simp: mytbf_destroy_def bind_eq_Some_conv)
  with destroy_ok [OF assms(1) this] Destroy assms show ?thesis by (auto simp: gain_def)
qed

lemma ticks_simps [simp]:
  "ticks [] = 0" "ticks (x # xs) = (if x = Tick then 1 else 0) + ticks xs"
  by (simp_all add: ticks_def)

text \<open>C2: the token bucket law. Over any sequence of refills and operations of any number of clients
  on any number of buckets, the tokens handed out from a bucket plus those it still holds never
  exceed those it held, plus \<open>cps\<close> per refill, plus those given back; its content stays between 0 and
  its burst, and the library stays consistent.\<close>

lemma tbf_rate_bound:
  assumes "lib_ok l" "obj l p = Some me" "tbf_run p xs l = Some (given, refund, l')"
    and "Destroy p \<notin> set xs" "\<forall>x \<in> set xs. sane x"
  shows "lib_ok l' \<and> (\<exists>me'. obj l' p = Some me' \<and> burst me' = burst me \<and> cps me' = cps me
    \<and> 0 \<le> token me' \<and> token me' \<le> burst me
    \<and> given + token me' \<le> token me + cps me * ticks xs + refund)"
  using assms
proof (induction xs arbitrary: l me given refund)
  case Nil
  then show ?case using lib_ok_obj [of l p me] by (auto simp: bucket_ok_def)
next
  case (Cons x xs)
  from Cons.prems(3) obtain r l1 o1 b1 where step: "tbf_do x l = Some (r, l1)"
    and run: "tbf_run p xs l1 = Some (o1, b1, l')"
    and given: "given = o1 + (case x of Fetch a sz \<Rightarrow> if a = p \<and> 0 \<le> r then r else 0 | _ \<Rightarrow> 0)"
    and refund: "refund = b1 + (case x of Return a sz \<Rightarrow> if a = p \<and> 0 \<le> r then r else 0 | _ \<Rightarrow> 0)"
    by (auto simp: bind_eq_Some_conv)
  obtain me1 where ok: "lib_ok l1" and me1: "obj l1 p = Some me1" "cps me1 = cps me" "burst me1 = burst me"
    "token me1 \<le> token me + gain x p (cps me) r"
    using tbf_do_step [OF Cons.prems(1) step _ _ Cons.prems(2)] Cons.prems(4,5) by auto
  obtain me' where me': "lib_ok l'" "obj l' p = Some me'" "burst me' = burst me" "cps me' = cps me"
    "0 \<le> token me'" "token me' \<le> burst me" "o1 + token me' \<le> token me1 + cps me * ticks xs + b1"
    using Cons.IH [OF ok me1(1) run] Cons.prems(4,5) me1 by auto
  have "given + token me' \<le> token me + cps me * ticks (x # xs) + refund"
    using me'(7) me1(4) by (cases x) (auto simp: given refund gain_def algebra_simps)
  with me' show ?case by blast
qed

section \<open>Waiting for tokens\<close>

lemma dry_iff: "lib_ok l \<Longrightarrow> obj l a = Some me \<Longrightarrow> tbf_dry a l \<longleftrightarrow> token me = 0"
  using lib_ok_obj [of l a me] by (auto simp: tbf_dry_def bucket_ok_def)

lemma tick_bucket:
  assumes "lib_ok l" "obj l a = Some me"
  obtains l' where "alrm_handler l = Some l'" "lib_ok l'" "obj l' a = Some (refill me)"
  using alrm_handler_ok [OF assms(1)] alrm_handler_eq [OF assms(1)] assms(2) by auto

text \<open>With a rate or a burst of 0 a dry bucket stays dry: the loop does not end.\<close>

lemma dry_forever:
  assumes "lib_ok l" "obj l a = Some me" "token me = 0" "cps me = 0 \<or> burst me = 0"
  shows "c_while (tbf_dry a) alrm_handler l = None"
proof (rule ccontr)
  let ?I = "\<lambda>l. lib_ok l \<and> (\<exists>me. obj l a = Some me \<and> token me = 0 \<and> (cps me = 0 \<or> burst me = 0))"
  assume "c_while (tbf_dry a) alrm_handler l \<noteq> None"
  then obtain t where t: "c_while (tbf_dry a) alrm_handler l = Some t" by auto
  have "?I t \<and> \<not> tbf_dry a t"
  proof (rule c_while_inv [OF t, where I = ?I])
    fix s s'
    assume I: "?I s" and tick: "alrm_handler s = Some s'"
    then obtain m where m: "obj s a = Some m" "token m = 0" "cps m = 0 \<or> burst m = 0" by blast
    have ok: "lib_ok s" using I by simp
    have "lib_ok s'" "obj s' a = Some (refill m)"
      using tick_bucket [OF ok m(1)] tick by auto
    moreover have "token (refill m) = 0"
      using m lib_ok_obj [OF ok m(1)] by (auto simp: bucket_ok_def)
    ultimately show "?I s'" using m(3) by auto
  qed (use assms in blast)
  then show False using dry_iff by blast
qed

text \<open>A request for tokens. \<open>mytbf_fetchtoken\<close> answers \<open>-EINVAL\<close> to a negative size; otherwise it
  returns exactly when the bucket holds a token or its rate and burst are positive (and waits forever
  when they are not); it waits for at most one refill, hands out the tokens there are up to the size
  asked for, and takes just these from the bucket.\<close>

lemma tbf_fetch_behaviour:
  assumes "lib_ok l" "obj l a = Some me"
  shows "(sz < 0 \<longrightarrow> mytbf_fetchtoken a sz l = Some (- EINVAL, l))
    \<and> (0 \<le> sz \<longrightarrow> token me > 0 \<longrightarrow> (\<exists>l'. mytbf_fetchtoken a sz l = Some (min (token me) sz, l')
         \<and> lib_ok l' \<and> obj l' a = Some (me\<lparr>token := token me - min (token me) sz\<rparr>)))
    \<and> (0 \<le> sz \<longrightarrow> token me = 0 \<longrightarrow> 0 < cps me \<and> 0 < burst me \<longrightarrow>
         (\<exists>l'. mytbf_fetchtoken a sz l = Some (min (min (burst me) (cps me)) sz, l') \<and> lib_ok l'))
    \<and> (0 \<le> sz \<longrightarrow> token me = 0 \<longrightarrow> cps me = 0 \<or> burst me = 0 \<longrightarrow> mytbf_fetchtoken a sz l = None)"
proof (intro conjI impI)
  assume "0 \<le> sz" "token me > 0"
  with dry_iff [OF assms] grab_ok [OF assms] show "\<exists>l'. mytbf_fetchtoken a sz l = Some (min (token me) sz, l')
      \<and> lib_ok l' \<and> obj l' a = Some (me\<lparr>token := token me - min (token me) sz\<rparr>)"
    by (simp add: mytbf_fetchtoken_def c_while_exit)
next
  assume sz: "0 \<le> sz" and t0: "token me = 0" and pos: "0 < cps me \<and> 0 < burst me"
  obtain l1 where l1: "alrm_handler l = Some l1" "lib_ok l1" "obj l1 a = Some (refill me)"
    using tick_bucket [OF assms] .
  have "\<not> tbf_dry a l1" using dry_iff [OF l1(2,3)] pos t0 by (simp add: min_def)
  moreover have "tbf_dry a l" using dry_iff [OF assms] t0 by simp
  ultimately have "c_while (tbf_dry a) alrm_handler l = Some l1"
    using l1(1) by (simp add: c_while_step c_while_exit)
  with grab_ok [OF l1(2,3) sz] t0 sz
  show "\<exists>l'. mytbf_fetchtoken a sz l = Some (min (min (burst me) (cps me)) sz, l') \<and> lib_ok l'"
    by (simp add: mytbf_fetchtoken_def)
next
  assume "0 \<le> sz" "token me = 0" "cps me = 0 \<or> burst me = 0"
  with dry_forever [OF assms] show "mytbf_fetchtoken a sz l = None"
    by (simp add: mytbf_fetchtoken_def)
qed (simp add: mytbf_fetchtoken_def)

section \<open>Creating and destroying buckets\<close>

text \<open>\<open>mytbf_init\<close> returns \<open>NULL\<close> exactly when all 1024 slots are taken or there is no memory, and
  otherwise an empty bucket with the given rate and burst, in a slot that was free, all other buckets
  untouched; destroying that bucket frees its slot again and makes every later use of the pointer
  undefined. Both keep the library consistent.\<close>

lemma tbf_init_destroy:
  assumes "lib_ok l" "0 \<le> c" "0 \<le> b" "b + c \<le> INT_MAX"
    and "\<forall>a. mem = Some a \<longrightarrow> obj l a = None"
  shows "\<exists>r l'. mytbf_init mem c b l = (r, l') \<and> lib_ok l'
    \<and> (r = None \<longleftrightarrow> mem = None \<or> used (job l) = MYTBF_MAX)
    \<and> (r = None \<longrightarrow> obj l' = obj l \<and> job l' = job l)
    \<and> (\<forall>a. r = Some a \<longrightarrow> (\<exists>me. obj l' = (obj l)(a \<mapsto> me) \<and> cps me = c \<and> burst me = b \<and> token me = 0
          \<and> job l ! nat (pos me) = None \<and> job l' = (job l)[nat (pos me) := Some a])
        \<and> (\<exists>l''. mytbf_destroy a l' = Some (0, l'') \<and> lib_ok l'' \<and> obj l'' = obj l \<and> job l'' = job l
            \<and> mytbf_returntoken a 1 l'' = None \<and> mytbf_fetchtoken a 1 l'' = None))"
proof -
  obtain r l' where q: "mytbf_init mem c b l = (r, l')" by fastforce
  have fresh: "case mem of None \<Rightarrow> True | Some a \<Rightarrow> obj l a = None"
    using assms(5) by (simp split: option.split)
  have ok: "lib_ok l'"
    by (rule init_ok [OF assms(1) _ fresh q]) (use assms in \<open>simp add: bucket_ok_def\<close>)
  have len: "length (job l) = MYTBF_MAX" using assms(1) by (simp add: lib_ok_def)
  show ?thesis
  proof (cases "job l" rule: free_pos_cases)
    case full
    with q ok len used_full_iff [of "job l"] show ?thesis by (auto simp: mytbf_init_eq)
  next
    case (free n)
    have nfull: "used (job l) \<noteq> MYTBF_MAX"
      using free len used_full_iff [of "job l"] nth_mem [of n "job l"] by auto
    show ?thesis
    proof (cases mem)
      case None
      with q ok free nfull show ?thesis by (auto simp: mytbf_init_eq)
    next
      case (Some a)
      let ?me = "\<lparr>pos = int n, cps = c, burst = b, token = 0\<rparr>"
      have l': "r = Some a" "l' = l\<lparr>inited := True, obj := (obj l)(a \<mapsto> ?me), job := (job l)[n := Some a]\<rparr>"
        using q free Some by (auto simp: mytbf_init_eq)
      have a: "obj l a = None" using assms(5) Some by simp
      obtain l'' where l'': "mytbf_destroy a l' = Some (0, l'')" "lib_ok l''" "obj l'' = (obj l')(a := None)"
        using destroy_ok [OF ok, of a ?me] l' by auto
      have "job l'' = (job l')[n := None]"
        using l''(1) l' free(2) by (simp add: mytbf_destroy_def) auto
      then have "job l'' = job l" using l' list_update_id [of "job l" n] free(3) by simp
      moreover have "obj l'' = obj l" using l'' l' a by auto
      moreover have "mytbf_returntoken a 1 l'' = None" "mytbf_fetchtoken a 1 l'' = None"
        using calculation a
        by (simp_all add: mytbf_returntoken_def mytbf_fetchtoken_def tbf_dry_def tbf_grab_def c_while_exit)
      moreover have "\<exists>me. obj l' = (obj l)(a \<mapsto> me) \<and> cps me = c \<and> burst me = b \<and> token me = 0
          \<and> job l ! nat (pos me) = None \<and> job l' = (job l)[nat (pos me) := Some a]"
        using l' free by (intro exI [of _ ?me]) simp
      ultimately show ?thesis
        by (intro exI [of _ r] exI [of _ l']) (use q ok l'(1) l''(1,2) Some nfull in auto)
    qed
  qed
qed

section \<open>Concrete libraries\<close>

text \<open>A bucket of rate 10 and burst 100 (the parameters of \<open>main.c\<close>) at address 7.\<close>

definition tbf_demo :: tbf_lib where
  "tbf_demo = \<lparr>job = Some 7 # replicate 1023 None,
     obj = (\<lambda>_. None)(7 \<mapsto> \<lparr>pos = 0, cps = 10, burst = 100, token = 0\<rparr>), inited = True\<rparr>"

lemma tbf_demo_ok: "lib_ok tbf_demo"
  by (auto simp: lib_ok_def tbf_demo_def bucket_ok_def INT_MAX_def nth_Cons' split: if_splits)

lemma tbf_demo_obj: "obj tbf_demo 7 = Some \<lparr>pos = 0, cps = 10, burst = 100, token = 0\<rparr>"
  by (simp add: tbf_demo_def)

lemma tbf_rate_bound_witness:
  "\<exists>l' given. tbf_run 7 [Fetch 7 5, Tick, Fetch 7 50] tbf_demo = Some (given, 0, l') \<and> given \<le> 10"
proof -
  have run: "tbf_run 7 [Fetch 7 5, Tick, Fetch 7 50] tbf_demo =
    Some (10, 0, tbf_demo\<lparr>obj := (\<lambda>a. map_option refill (obj tbf_demo a))(7 \<mapsto>
      \<lparr>pos = 0, cps = 10, burst = 100, token = 0\<rparr>)\<rparr>)"
    by (simp add: tbf_try_def tbf_dry_def alrm_handler_eq [OF tbf_demo_ok] tbf_demo_obj tbf_grab_def
        tbf_min_def refill_def)
  from tbf_rate_bound [OF tbf_demo_ok tbf_demo_obj run] run show ?thesis
    by (auto simp: sane_def)
qed

lemma tbf_fetch_behaviour_witness:
  "\<exists>l'. mytbf_fetchtoken 7 4 tbf_demo = Some (4, l') \<and> lib_ok l'"
  using tbf_fetch_behaviour [OF tbf_demo_ok tbf_demo_obj, of 4] by simp

lemma tbf_init_destroy_witness:
  "\<exists>r l'. mytbf_init (Some 8) 10 100 tbf_demo = (r, l') \<and> lib_ok l'"
proof -
  have "obj tbf_demo 8 = None" by (simp add: tbf_demo_def)
  with tbf_init_destroy [OF tbf_demo_ok, of 10 100 "Some 8"] show ?thesis
    by (auto simp: INT_MAX_def)
qed

end
