(* ===== verification/CopyLoops.thy ===== *)
theory CopyLoops
  imports Kernel TokenBucket
begin

text \<open>
  The file copying programs: \<open>io/sysio/mycopy.c\<close> and \<open>parallel/signal/mycopy.c\<close>, and the rate limited
  ones that print a file: \<open>parallel/signal/slowcat.c\<close> (a leaky bucket: one flag that the alarm sets),
  \<open>parallel/signal/slowcat1.c\<close> (a token counter) and the three \<open>main.c\<close> of the token bucket library. All
  of them write with the same inner loop, which after a short \<open>write\<close> starts again at the beginning of
  the buffer. The locale \<open>limiter\<close> states what a rate limited program relies on; the lemmas show how many
  bytes are written in how many ticks, and when they are the bytes of the file.
\<close>

section \<open>Statements the programs share\<close>

text \<open>
  \<open>while (len > 0) { ret = write(dfd, buf, len); ... pos += ret; len -= ret; }\<close>. The position is
  counted but not used. \<open>intr\<close>: the program retries a call that a signal interrupted.
\<close>

partial_function (option) write_loop ::
  "bool \<Rightarrow> int \<Rightarrow> byte list \<Rightarrow> int \<Rightarrow> int \<Rightarrow> world \<Rightarrow> world outcome option" where
  "write_loop intr dfd b p len w =
     (if len > 0 then
        Option.bind (slice b 0 len) (\<lambda>bs.
          let (ret, w) = sys_write dfd bs w
          in if ret < 0 then
               (if intr \<and> errno w = EINTR then write_loop intr dfd b p len w
                else Some (Exit 1 (perror ''write()'' w)))
             else write_loop intr dfd b (p + ret) (len - ret) w)
      else Some (Done w))"

text \<open>
  \<open>do { fd = open(...); if (fd < 0) if (errno != EINTR) ... } while (fd < 0);\<close> on the results of the
  calls of \<open>open\<close>, each with its \<open>errno\<close>; a negative descriptor is an error that is not retried.
\<close>

fun open_retry :: "(int \<times> int) list \<Rightarrow> world \<Rightarrow> (int \<times> world) option" where
  "open_retry [] w = None"
| "open_retry ((fd, e) # opens) w =
     (if fd < 0 then
        (if e \<noteq> EINTR then Some (fd, perror ''open()'' (w\<lparr>errno := e\<rparr>))
         else open_retry opens (w\<lparr>errno := e\<rparr>))
      else Some (fd, w))"

text \<open>
  \<open>while ((len = read(sfd, buf, n)) < 0) { if (errno == EINTR) continue; perror("read()"); break; }\<close>
\<close>

partial_function (option) read_retry :: "int \<Rightarrow> nat \<Rightarrow> world \<Rightarrow> (int \<times> byte list \<times> world) option" where
  "read_retry sfd n w =
     (let (len, d, w) = sys_read sfd n w
      in if len < 0 then
           (if errno w = EINTR then read_retry sfd n w else Some (len, d, perror ''read()'' w))
         else Some (len, d, w))"

section \<open>Copying a file\<close>

definition COPY_BUFSIZE :: nat where
  "COPY_BUFSIZE = 1024"

partial_function (option) mycopy_loop ::
  "bool \<Rightarrow> int \<Rightarrow> int \<Rightarrow> byte list \<Rightarrow> world \<Rightarrow> world outcome option" where
  "mycopy_loop intr sfd dfd b w =
     (let (len, d, w) = sys_read sfd COPY_BUFSIZE w
      in if len < 0 then
           (if intr \<and> errno w = EINTR then mycopy_loop intr sfd dfd b w
            else Some (Done (perror ''read()'' w)))
         else if len = 0 then Some (Done w)
         else Option.bind (write_loop intr dfd (fill b d) 0 len w) (\<lambda>r. case r of
             Exit n w \<Rightarrow> Some (Exit n w)
           | Done w \<Rightarrow> mycopy_loop intr sfd dfd (fill b d) w))"

text \<open>The end of \<open>main\<close>: \<open>close(dfd); close(sfd); exit(0);\<close>, or the \<open>exit(1)\<close> of the loop.\<close>

definition copy_exit :: "int \<Rightarrow> int \<Rightarrow> world outcome \<Rightarrow> int \<times> world" where
  "copy_exit sfd dfd r = (case r of Exit n w \<Rightarrow> (n, w) | Done w \<Rightarrow> (0, sys_close sfd (sys_close dfd w)))"

text \<open>\<open>main\<close> of \<open>io/sysio/mycopy.c\<close>: \<open>open1\<close> and \<open>open2\<close> are the results of \<open>open\<close>.\<close>

definition mycopy_main :: "int \<Rightarrow> int \<Rightarrow> int \<Rightarrow> byte list \<Rightarrow> world \<Rightarrow> (int \<times> world) option" where
  "mycopy_main argc open1 open2 b w =
     (if argc < 3 then Some (1, perror ''Usage...'' w)
      else if open1 < 0 then Some (1, perror ''open()'' w)
      else if open2 < 0 then Some (1, perror ''open()'' (sys_close open1 w))
      else map_option (copy_exit open1 open2) (mycopy_loop False open1 open2 b w))"

text \<open>\<open>main\<close> of \<open>parallel/signal/mycopy.c\<close>.\<close>

definition mycopy_sig_main ::
  "int \<Rightarrow> (int \<times> int) list \<Rightarrow> (int \<times> int) list \<Rightarrow> byte list \<Rightarrow> world \<Rightarrow> (int \<times> world) option" where
  "mycopy_sig_main argc opens1 opens2 b w =
     (if argc < 3 then Some (1, perror ''Usage...'' w)
      else do {
        (sfd, w) \<leftarrow> open_retry opens1 w;
        if sfd < 0 then Some (1, w)
        else do {
          (dfd, w) \<leftarrow> open_retry opens2 w;
          if dfd < 0 then Some (1, sys_close sfd w)
          else map_option (copy_exit sfd dfd) (mycopy_loop True sfd dfd b w) } })"

section \<open>Rate limited printing\<close>

text \<open>
  The state of a limiter \<open>lim\<close> with the alarms of its environment: \<open>al\<close> says how many arrive while the
  program copies, one entry per round, none when it is exhausted. \<open>nticks\<close> counts the alarms that were
  delivered; no program reads it.
\<close>

record 's gate =
  al :: "nat list"
  nticks :: nat
  lim :: 's

text \<open>\<open>pause()\<close>, which ends after the handler ran, and \<open>k\<close> runs of the handler.\<close>

definition pause :: "('s \<Rightarrow> 's option) \<Rightarrow> 's gate \<Rightarrow> 's gate option" where
  "pause handler g = do { l \<leftarrow> handler (lim g); Some (g\<lparr>nticks := Suc (nticks g), lim := l\<rparr>) }"

primrec pauses :: "('s \<Rightarrow> 's option) \<Rightarrow> nat \<Rightarrow> 's gate \<Rightarrow> 's gate option" where
  "pauses handler 0 g = Some g"
| "pauses handler (Suc k) g = do { g \<leftarrow> pause handler g; pauses handler k g }"

definition between :: "('s \<Rightarrow> 's option) \<Rightarrow> 's gate \<Rightarrow> 's gate option" where
  "between handler g = (case al g of [] \<Rightarrow> Some g | k # ks \<Rightarrow> pauses handler k (g\<lparr>al := ks\<rparr>))"

text \<open>
  The loop of the rate limited programs. \<open>acquire\<close> are the statements in front of \<open>read\<close>, which give
  the size to read; a negative size, which only \<open>mytbf_fetchtoken\<close> could give, ends the program.
  \<open>refund\<close> is what is done with the rest of the size.
\<close>

partial_function (option) cat_loop ::
  "('s gate \<Rightarrow> (int \<times> 's gate) option) \<Rightarrow> (int \<Rightarrow> 's gate \<Rightarrow> 's gate option) \<Rightarrow> ('s \<Rightarrow> 's option) \<Rightarrow>
   int \<Rightarrow> int \<Rightarrow> byte list \<Rightarrow> 's gate \<Rightarrow> world \<Rightarrow> ('s gate \<times> world) outcome option" where
  "cat_loop acquire refund handler sfd dfd b g w =
     Option.bind (acquire g) (\<lambda>(sz, g).
     if sz < 0 then Some (Exit 1 (g, perror ''mytbf_fetchtkoken()'' w))
     else Option.bind (read_retry sfd (nat sz) w) (\<lambda>(len, d, w).
       if len = 0 then Some (Done (g, w))
       else Option.bind (if sz - len > 0 then refund (sz - len) g else Some g) (\<lambda>g.
         Option.bind (write_loop True dfd (fill b d) 0 len w) (\<lambda>r. case r of
           Exit n w \<Rightarrow> Some (Exit n (g, w))
         | Done w \<Rightarrow> Option.bind (between handler g) (\<lambda>g.
             cat_loop acquire refund handler sfd dfd (fill b d) g w)))))"

abbreviation CPS :: int where "CPS \<equiv> 10"

abbreviation BURST :: int where "BURST \<equiv> 100"

text \<open>\<open>slowcat.c\<close>: the handler sets \<open>loop\<close>; \<open>while (!loop) pause(); loop = 0;\<close>.\<close>

definition sc_alrm_handler :: "int \<Rightarrow> int option" where
  "sc_alrm_handler loop = Some 1"

definition sc_acquire :: "int gate \<Rightarrow> (int \<times> int gate) option" where
  "sc_acquire g = do {
     g \<leftarrow> c_while (\<lambda>g. lim g = 0) (pause sc_alrm_handler) g;
     Some (CPS, g\<lparr>lim := 0\<rparr>) }"

text \<open>\<open>slowcat1.c\<close>: \<open>token++; if (token > BURST) token = BURST;\<close>, \<open>while (token <= 0) pause(); token--;\<close>.\<close>

definition sc1_alrm_handler :: "int \<Rightarrow> int option" where
  "sc1_alrm_handler tok = do { t \<leftarrow> cint (tok + 1); Some (if t > BURST then BURST else t) }"

definition sc1_acquire :: "int gate \<Rightarrow> (int \<times> int gate) option" where
  "sc1_acquire g = do {
     g \<leftarrow> c_while (\<lambda>g. lim g \<le> 0) (pause sc1_alrm_handler) g;
     t \<leftarrow> cint (lim g - 1);
     Some (CPS, g\<lparr>lim := t\<rparr>) }"

text \<open>
  \<open>main.c\<close> of the token bucket: \<open>mytbf_fetchtoken(tbf, BUFSIZE)\<close> and \<open>mytbf_returntoken\<close>, whose result is not
  looked at. A fetch from an empty bucket waits for one tick, see \<open>tbf_fetch_wait\<close>.
\<close>

definition tbf_acquire :: "int \<Rightarrow> addr \<Rightarrow> tbf_lib gate \<Rightarrow> (int \<times> tbf_lib gate) option" where
  "tbf_acquire bufsize a g = do {
     (sz, l) \<leftarrow> mytbf_fetchtoken a bufsize (lim g);
     Some (sz, g\<lparr>nticks := nticks g + (if tbf_dry a (lim g) then 1 else 0), lim := l\<rparr>) }"

definition tbf_refund :: "addr \<Rightarrow> int \<Rightarrow> tbf_lib gate \<Rightarrow> tbf_lib gate option" where
  "tbf_refund a sz g = do { (r, l) \<leftarrow> mytbf_returntoken a sz (lim g); Some (g\<lparr>lim := l\<rparr>) }"

text \<open>
  The programs. \<open>timer\<close> is the result of \<open>setitimer\<close>, \<open>opens\<close> those of \<open>open\<close>, \<open>b\<close> the contents of the
  buffer, \<open>as\<close> the alarms. Output goes to descriptor 1. The result is the exit status, the limiter and
  the world; the statics start at 0.
\<close>

definition cat_exit :: "('s gate \<times> world) outcome \<Rightarrow> int \<times> 's gate \<times> world" where
  "cat_exit r = (case r of Exit n (g, w) \<Rightarrow> (n, g, w) | Done (g, w) \<Rightarrow> (0, g, sys_close 1 w))"

definition slowcat_main ::
  "int \<Rightarrow> int \<Rightarrow> (int \<times> int) list \<Rightarrow> nat list \<Rightarrow> byte list \<Rightarrow> world \<Rightarrow> (int \<times> int gate \<times> world) option" where
  "slowcat_main argc timer opens as b w =
     (let g = \<lparr>al = as, nticks = 0, lim = 0\<rparr>
      in if argc < 2 then Some (1, g, perror ''Usage...'' w)
         else if timer < 0 then Some (1, g, perror ''setitimer()'' w)
         else do {
           (sfd, w) \<leftarrow> open_retry opens w;
           if sfd < 0 then Some (1, g, w)
           else map_option cat_exit
             (cat_loop sc_acquire (\<lambda>k. Some) sc_alrm_handler sfd 1 b g w) })"

definition slowcat1_main ::
  "int \<Rightarrow> (int \<times> int) list \<Rightarrow> nat list \<Rightarrow> byte list \<Rightarrow> world \<Rightarrow> (int \<times> int gate \<times> world) option" where
  "slowcat1_main argc opens as b w =
     (let g = \<lparr>al = as, nticks = 0, lim = 0\<rparr>
      in if argc < 2 then Some (1, g, perror ''Usage...'' w)
         else do {
           (sfd, w) \<leftarrow> open_retry opens w;
           if sfd < 0 then Some (1, g, w)
           else map_option cat_exit
             (cat_loop sc1_acquire (\<lambda>k. Some) sc1_alrm_handler sfd 1 b g w) })"

text \<open>\<open>mem\<close> is the result of \<open>malloc\<close> in \<open>mytbf_init\<close>, \<open>bufsize\<close> the \<open>BUFSIZE\<close> of the version.\<close>

definition tbf_cat_main ::
  "int \<Rightarrow> addr option \<Rightarrow> int \<Rightarrow> (int \<times> int) list \<Rightarrow> nat list \<Rightarrow> byte list \<Rightarrow> tbf_lib \<Rightarrow> world \<Rightarrow>
   (int \<times> tbf_lib gate \<times> world) option" where
  "tbf_cat_main bufsize mem argc opens as b l w =
     (let g = \<lparr>al = as, nticks = 0, lim = l\<rparr>
      in if argc < 2 then Some (1, g, perror ''Usage...'' w)
         else case mytbf_init mem CPS BURST l of
           (None, l) \<Rightarrow> Some (1, g\<lparr>lim := l\<rparr>, perror ''mytbf_init() failed!'' w)
         | (Some a, l) \<Rightarrow> do {
             (sfd, w) \<leftarrow> open_retry opens w;
             if sfd < 0 then Some (1, g\<lparr>lim := l\<rparr>, w)
             else do {
               r \<leftarrow> cat_loop (tbf_acquire bufsize a) (tbf_refund a) alrm_handler sfd 1 b (g\<lparr>lim := l\<rparr>) w;
               case cat_exit r of (n, g, w) \<Rightarrow>
                 if n = 0 then do { (_, l) \<leftarrow> mytbf_destroy a (lim g); Some (0, g\<lparr>lim := l\<rparr>, w) }
                 else Some (n, g, w) } })"

text \<open>The three copies of \<open>main.c\<close>: for the alarm, the interval timer and the thread version.\<close>

definition mytbf_main ::
  "addr option \<Rightarrow> int \<Rightarrow> (int \<times> int) list \<Rightarrow> nat list \<Rightarrow> byte list \<Rightarrow> tbf_lib \<Rightarrow> world \<Rightarrow>
   (int \<times> tbf_lib gate \<times> world) option" where
  "mytbf_main = tbf_cat_main 10224"

definition mytbf_sa_main ::
  "addr option \<Rightarrow> int \<Rightarrow> (int \<times> int) list \<Rightarrow> nat list \<Rightarrow> byte list \<Rightarrow> tbf_lib \<Rightarrow> world \<Rightarrow>
   (int \<times> tbf_lib gate \<times> world) option" where
  "mytbf_sa_main = tbf_cat_main 10224"

definition mytbf_mt_main ::
  "addr option \<Rightarrow> int \<Rightarrow> (int \<times> int) list \<Rightarrow> nat list \<Rightarrow> byte list \<Rightarrow> tbf_lib \<Rightarrow> world \<Rightarrow>
   (int \<times> tbf_lib gate \<times> world) option" where
  "mytbf_mt_main = tbf_cat_main 1024"

section \<open>The writing loop\<close>

text \<open>Scripts in which only signals interrupt a \<open>write\<close>, and those in which no \<open>write\<close> is short.\<close>

definition wr_intr_only :: "wr_reply list \<Rightarrow> bool" where
  "wr_intr_only rs \<longleftrightarrow> (\<forall>e. WrErr e \<in> set rs \<longrightarrow> e = EINTR)"

definition wr_full :: "nat \<Rightarrow> wr_reply list \<Rightarrow> bool" where
  "wr_full n rs \<longleftrightarrow> (\<forall>k. WrTake k \<in> set rs \<longrightarrow> n \<le> k)"

text \<open>The world after some bytes were written to \<open>fd\<close>: only its script, its log and \<open>errno\<close> differ.\<close>

definition wrote :: "int \<Rightarrow> byte list \<Rightarrow> world \<Rightarrow> world \<Rightarrow> bool" where
  "wrote fd x w w' \<longleftrightarrow> (\<exists>rs e. set rs \<subseteq> set (wr_script w fd) \<and>
     w' = w\<lparr>errno := e, wr_script := (wr_script w)(fd := rs), sent := (sent w)(fd := sent w fd @ x)\<rparr>)"

lemma wrote_refl: "wrote fd [] w w"
  by (auto simp: wrote_def intro!: exI [of _ "wr_script w fd"] exI [of _ "errno w"])

lemma wrote_trans: "wrote fd x w w' \<Longrightarrow> wrote fd y w' w'' \<Longrightarrow> wrote fd (x @ y) w w''"
  unfolding wrote_def by (elim exE conjE, intro exI conjI) auto

lemma wrote_simps:
  assumes "wrote fd x w w'"
  shows "rd_script w' = rd_script w" "got w' = got w" "sent w' = (sent w)(fd := sent w fd @ x)"
    "wr_intr_only (wr_script w fd) \<Longrightarrow> wr_intr_only (wr_script w' fd)"
    "wr_full n (wr_script w fd) \<Longrightarrow> wr_full n (wr_script w' fd)"
  using assms by (auto simp: wrote_def wr_intr_only_def wr_full_def)

text \<open>One \<open>write\<close>.\<close>

lemma sys_write_cases:
  assumes "sys_write fd bs w = (ret, w')"
  obtains (err) e where "ret = - 1" "errno w' = e" "wrote fd [] w w'" "WrErr e \<in> set (wr_script w fd)"
      "length (wr_script w' fd) < length (wr_script w fd)"
  | (short) k where "ret = int (length (take k bs))" "wrote fd (take k bs) w w'" "WrTake k \<in> set (wr_script w fd)"
      "length (wr_script w' fd) < length (wr_script w fd)"
  | (full) "ret = int (length bs)" "wrote fd bs w w'" "wr_script w fd = []"
proof (cases "wr_script w fd")
  case Nil
  have "wrote fd bs w (w\<lparr>sent := (sent w)(fd := sent w fd @ bs)\<rparr>)"
    unfolding wrote_def by (intro exI [of _ "wr_script w fd"] exI [of _ "errno w"]) simp
  then show ?thesis using assms full Nil by (auto simp: sys_write_def)
next
  case (Cons r rs)
  show ?thesis
  proof (cases r)
    case (WrTake k)
    have "wrote fd (take k bs) w
        (w\<lparr>wr_script := (wr_script w)(fd := rs), sent := (sent w)(fd := sent w fd @ take k bs)\<rparr>)"
      unfolding wrote_def using Cons by (intro exI [of _ rs] exI [of _ "errno w"]) auto
    then show ?thesis using assms Cons WrTake short [of k] by (auto simp: sys_write_def)
  next
    case (WrErr e)
    have "wrote fd [] w (w\<lparr>errno := e, wr_script := (wr_script w)(fd := rs)\<rparr>)"
      unfolding wrote_def using Cons by (intro exI [of _ rs] exI [of _ e]) auto
    then show ?thesis using assms Cons WrErr err [of e] by (auto simp: sys_write_def)
  qed
qed

lemma slice_0: "0 \<le> n \<Longrightarrow> n \<le> int (length b) \<Longrightarrow> slice b 0 n = Some (take (nat n) b)"
  by (simp add: slice_def)

lemma write_loop_returns:
  assumes "wr_intr_only (wr_script w dfd)" "intr \<or> (\<forall>e. WrErr e \<notin> set (wr_script w dfd))"
    and "0 \<le> len" "len \<le> int (length b)"
  shows "\<exists>w' x. write_loop intr dfd b p len w = Some (Done w') \<and> wrote dfd x w w' \<and> length x = nat len
    \<and> (\<forall>n. wr_full n (wr_script w dfd) \<longrightarrow> len \<le> int n \<longrightarrow> x = take (nat len) b)"
  using assms
proof (induction "length (wr_script w dfd)" arbitrary: w p len rule: less_induct)
  case less
  note prems = less.prems
  show ?case
  proof (cases "len = 0")
    case True
    then show ?thesis by (subst write_loop.simps) (auto intro!: wrote_refl)
  next
    case False
    then have pos: "len > 0" using prems(3) by simp
    obtain ret w1 where wr: "sys_write dfd (take (nat len) b) w = (ret, w1)" by fastforce
    have step: "write_loop intr dfd b p len w =
        (if ret < 0 then if intr \<and> errno w1 = EINTR then write_loop intr dfd b p len w1
           else Some (Exit 1 (perror ''write()'' w1))
         else write_loop intr dfd b (p + ret) (len - ret) w1)"
      using pos wr slice_0 [OF prems(3,4)] by (subst write_loop.simps) simp
    show ?thesis
    using wr
    proof (cases rule: sys_write_cases)
      case (err e)
      note s = wrote_simps [OF err(3)]
      have "e = EINTR" "intr" using prems(1,2) err(4) by (auto simp: wr_intr_only_def)
      moreover have "intr \<or> (\<forall>e. WrErr e \<notin> set (wr_script w1 dfd))" using calculation by simp
      ultimately show ?thesis
        using less.hyps [OF err(5) s(4) [OF prems(1)] _ prems(3,4), of p] err step wrote_trans [OF err(3)] s(5)
        by (auto simp del: take_append) (metis append_Nil)
    next
      case (short k)
      note s = wrote_simps [OF short(2)]
      have ret: "0 \<le> ret" "ret \<le> len" "nat ret = length (take k (take (nat len) b))" using short(1) prems(3,4) by auto
      have "intr \<or> (\<forall>e. WrErr e \<notin> set (wr_script w1 dfd))"
        using prems(2) short(2) by (auto simp: wrote_def)
      then obtain w' x where w': "write_loop intr dfd b (p + ret) (len - ret) w1 = Some (Done w')" "wrote dfd x w1 w'"
          "length x = nat (len - ret)"
        using less.hyps [OF short(4) s(4) [OF prems(1)], of "len - ret" "p + ret"] ret prems(3,4) by auto
      have "take k (take (nat len) b) @ x = take (nat len) b"
        if "wr_full n (wr_script w dfd)" "len \<le> int n" for n
      proof -
        have "n \<le> k" using that(1) short(3) by (auto simp: wr_full_def)
        then have "take k (take (nat len) b) = take (nat len) b" using that(2) by simp
        moreover have "min k (nat len) = nat len" using \<open>n \<le> k\<close> that(2) by simp
        then have "x = []" using w'(3) short(1) prems(3,4) by simp
        ultimately show ?thesis by simp
      qed
      moreover have "length (take k (take (nat len) b) @ x) = nat len"
        using w'(3) ret unfolding length_append ret(3) [symmetric] by linarith
      moreover have "write_loop intr dfd b p len w = Some (Done w')" using step w'(1) ret(1) by simp
      ultimately show ?thesis
        using wrote_trans [OF short(2) w'(2)] by blast
    next
      case full
      then have "write_loop intr dfd b p len w = Some (Done w1)"
        using step prems(3,4) by (subst (asm) write_loop.simps) simp
      then show ?thesis using full(2) prems(3,4)
        by (intro exI [of _ w1] exI [of _ "take (nat len) b"]) simp
    qed
  qed
qed

section \<open>The reading side\<close>

text \<open>The errors that the rate limited programs do not retry, before the end of file.\<close>

fun hard_errs :: "rd_reply list \<Rightarrow> nat" where
  "hard_errs [] = 0"
| "hard_errs (RdErr e # rs) = (if e = EINTR then 0 else 1) + hard_errs rs"
| "hard_errs (RdData bs # rs) = (if bs = [] then 0 else hard_errs rs)"

text \<open>The world after a read took \<open>d\<close> off the script.\<close>

definition readed :: "int \<Rightarrow> byte list \<Rightarrow> world \<Rightarrow> world \<Rightarrow> bool" where
  "readed fd d w w' \<longleftrightarrow> sent w' = sent w \<and> wr_script w' = wr_script w
     \<and> got w' = (got w)(fd := got w fd @ d)"

lemma sys_read_cases:
  assumes "sys_read fd n w = (ret, d, w')" "has_eof (rd_script w fd)" "0 < n"
  obtains (err) e where "ret = - 1" "d = []" "errno w' = e" "readed fd [] w w'" "has_eof (rd_script w' fd)"
      "before_eof (rd_script w fd) = before_eof (rd_script w' fd)"
      "hard_errs (rd_script w fd) = (if e = EINTR then 0 else 1) + hard_errs (rd_script w' fd)"
      "rd_weight (rd_script w' fd) < rd_weight (rd_script w fd)" "RdErr e \<in> set (rd_script w fd)"
      "\<forall>e. RdErr e \<in> set (rd_script w' fd) \<longrightarrow> RdErr e \<in> set (rd_script w fd)"
  | (eof) "ret = 0" "d = []" "readed fd [] w w'" "before_eof (rd_script w fd) = []" "hard_errs (rd_script w fd) = 0"
  | (data) "0 < ret" "ret = int (length d)" "length d \<le> n" "readed fd d w w'" "has_eof (rd_script w' fd)"
      "before_eof (rd_script w fd) = d @ before_eof (rd_script w' fd)"
      "hard_errs (rd_script w fd) = hard_errs (rd_script w' fd)"
      "rd_weight (rd_script w' fd) < rd_weight (rd_script w fd)"
      "\<forall>e. RdErr e \<in> set (rd_script w' fd) \<longrightarrow> RdErr e \<in> set (rd_script w fd)"
proof (cases "rd_script w fd")
  case (Cons r rs)
  show ?thesis
  proof (cases r)
    case (RdErr e)
    then have "ret = - 1" "d = []" "w' = w\<lparr>errno := e, rd_script := (rd_script w)(fd := rs)\<rparr>"
      using assms(1) Cons by (simp_all add: sys_read_def)
    then show ?thesis using Cons RdErr assms(2) by (intro err [of e]) (auto simp: readed_def)
  next
    case (RdData bs)
    note R = this
    show ?thesis
    proof (cases "bs = []")
      case True
      with R Cons assms eof show ?thesis by (auto simp: sys_read_def readed_def)
    next
      case False
      have e: "hard_errs (if drop n bs = [] then rs else RdData (drop n bs) # rs) = hard_errs rs"
        "before_eof (if drop n bs = [] then rs else RdData (drop n bs) # rs) = drop n bs @ before_eof rs"
        by auto
      have d: "ret = int (length (take n bs))" "d = take n bs"
        "w' = w\<lparr>rd_script := (rd_script w)(fd := if drop n bs = [] then rs else RdData (drop n bs) # rs),
              got := (got w)(fd := got w fd @ take n bs)\<rparr>"
        using assms(1) R Cons by (auto simp: sys_read_def)
      show ?thesis
      proof (rule data)
        show "before_eof (rd_script w fd) = d @ before_eof (rd_script w' fd)"
          using R Cons False d by (simp add: e flip: append_assoc)
        show "rd_weight (rd_script w' fd) < rd_weight (rd_script w fd)"
          using R Cons False d assms(3) by (cases bs) auto
      qed (use R Cons False assms d in \<open>auto simp: readed_def\<close>)
    qed
  qed
qed (use assms in simp)

definition read_out :: "int \<Rightarrow> nat \<Rightarrow> world \<Rightarrow> int \<times> byte list \<times> world \<Rightarrow> bool" where
  "read_out fd n w = (\<lambda>(len, d, w'). readed fd d w w' \<and>
    (if len = 0 then d = [] \<and> before_eof (rd_script w fd) = []
     else has_eof (rd_script w' fd) \<and> rd_weight (rd_script w' fd) < rd_weight (rd_script w fd)
       \<and> before_eof (rd_script w fd) = d @ before_eof (rd_script w' fd) \<and> length d \<le> n
       \<and> hard_errs (rd_script w fd) = hard_errs (rd_script w' fd) + (if len < 0 then 1 else 0)
       \<and> len = (if len < 0 then - 1 else int (length d)) \<and> (len < 0 \<longrightarrow> d = [])))"

lemma read_retry_returns:
  assumes "has_eof (rd_script w fd)" "0 < n"
  shows "\<exists>r. read_retry fd n w = Some r \<and> read_out fd n w r"
  using assms(1)
proof (induction "rd_weight (rd_script w fd)" arbitrary: w rule: less_induct)
  case less
  obtain ret d w1 where r: "sys_read fd n w = (ret, d, w1)" by (metis prod_cases3)
  show ?case
    using r less.prems assms(2)
  proof (cases rule: sys_read_cases)
    case (err e)
    show ?thesis
    proof (cases "e = EINTR")
      case True
      obtain r' where IH: "read_retry fd n w1 = Some r'" "read_out fd n w1 r'"
        using less.hyps [OF err(8,5)] by blast
      have "read_retry fd n w = Some r'"
        using r err(1,3) True IH(1) by (subst read_retry.simps) simp
      moreover have "read_out fd n w r'"
        using IH(2) err(4,6-8) True by (auto simp: read_out_def readed_def)
      ultimately show ?thesis by blast
    next
      case False
      have "read_retry fd n w = Some (ret, d, perror ''read()'' w1)"
        using r err(1,3) False by (subst read_retry.simps) simp
      then show ?thesis using err False by (simp add: read_out_def readed_def perror_def)
    qed
  next
    case eof
    then have "read_retry fd n w = Some (ret, d, w1)" using r by (subst read_retry.simps) simp
    with eof show ?thesis by (simp add: read_out_def)
  next
    case data
    then have "read_retry fd n w = Some (ret, d, w1)" using r by (subst read_retry.simps) simp
    with data show ?thesis by (simp add: read_out_def)
  qed
qed

section \<open>Rate limits\<close>

text \<open>
  The interface of the limiters: each acquisition returns, and what may be written before the next tick
  (\<open>credit\<close>) pays for it; a tick earns at most \<open>rate\<close> bytes.
\<close>

locale limiter =
  fixes acquire :: "'s gate \<Rightarrow> (int \<times> 's gate) option"
    and refund :: "int \<Rightarrow> 's gate \<Rightarrow> 's gate option"
    and handler :: "'s \<Rightarrow> 's option"
    and ok :: "'s gate \<Rightarrow> bool"
    and credit :: "'s gate \<Rightarrow> int"
    and rate :: int
    and slip :: int
    and cap :: nat
  assumes slip: "slip = 0 \<or> slip = 1"
    and acquire: "ok g \<Longrightarrow> \<exists>n g'. acquire g = Some (n, g') \<and> 0 < n \<and> n \<le> int cap \<and> ok g'
      \<and> n + credit g' \<le> credit g + rate * (int (nticks g') - int (nticks g))"
    and refund: "ok g \<Longrightarrow> 0 < k \<Longrightarrow> k \<le> int cap + 1 \<Longrightarrow>
      \<exists>g'. refund k g = Some g' \<and> ok g' \<and> nticks g' = nticks g \<and> credit g' \<le> credit g + slip * k"
    and tick: "ok g \<Longrightarrow> \<exists>g'. pause handler g = Some g' \<and> ok g' \<and> credit g' \<le> credit g + rate"
    and ok_al: "ok g \<Longrightarrow> ok (g\<lparr>al := ks\<rparr>)" "ok g \<Longrightarrow> credit (g\<lparr>al := ks\<rparr>) = credit g"
begin

lemma pauses_credit:
  "ok g \<Longrightarrow> \<exists>g'. pauses handler k g = Some g' \<and> ok g' \<and> nticks g' = nticks g + k \<and> credit g' \<le> credit g + rate * int k"
proof (induction k arbitrary: g)
  case (Suc k)
  obtain g1 where g1: "pause handler g = Some g1" "ok g1" "credit g1 \<le> credit g + rate"
    using tick [OF Suc.prems] by blast
  moreover have "nticks g1 = Suc (nticks g)" using g1(1) by (auto simp: pause_def bind_eq_Some_conv)
  moreover obtain g' where "pauses handler k g1 = Some g'" "ok g'" "nticks g' = nticks g1 + k"
    "credit g' \<le> credit g1 + rate * int k" using Suc.IH [OF g1(2)] by blast
  ultimately show ?case by (simp add: algebra_simps)
qed simp

lemma between_credit:
  assumes "ok g"
  shows "\<exists>g'. between handler g = Some g' \<and> ok g'
    \<and> credit g' \<le> credit g + rate * (int (nticks g') - int (nticks g))"
proof (cases "al g")
  case (Cons k ks)
  then show ?thesis
    using pauses_credit [OF ok_al(1) [OF assms, of ks], of k] ok_al(2) [OF assms, of ks] by (auto simp: between_def)
qed (use assms in \<open>simp add: between_def\<close>)

lemma cat_loop_bound:
  assumes "ok g" "has_eof (rd_script w sfd)" "wr_intr_only (wr_script w dfd)" "length b = cap"
  shows "\<exists>g' w' x. cat_loop acquire refund handler sfd dfd b g w = Some (Done (g', w')) \<and> ok g'
    \<and> sent w' = (sent w)(dfd := sent w dfd @ x) \<and> length x = length (before_eof (rd_script w sfd))
    \<and> int (length x) \<le> credit g - credit g' + rate * (int (nticks g') - int (nticks g)) + slip * int (hard_errs (rd_script w sfd))
    \<and> (wr_full cap (wr_script w dfd) \<longrightarrow> x = before_eof (rd_script w sfd))"
  using assms
proof (induction "rd_weight (rd_script w sfd)" arbitrary: g w b rule: less_induct)
  case less
  note prems = less.prems
  obtain n g1 where a: "acquire g = Some (n, g1)" "0 < n" "n \<le> int cap" "ok g1"
    "n + credit g1 \<le> credit g + rate * (int (nticks g1) - int (nticks g))" using acquire [OF prems(1)] by blast
  have "0 < nat n" using a(2) by simp
  from read_retry_returns [OF prems(2) this] obtain len d w1 where
    r: "read_retry sfd (nat n) w = Some (len, d, w1)" "read_out sfd (nat n) w (len, d, w1)" by (metis prod_cases3)
  show ?case
  proof (cases "len = 0")
    case True
    then have "cat_loop acquire refund handler sfd dfd b g w = Some (Done (g1, w1))"
      using a(1,2) r(1) by (subst cat_loop.simps) simp
    moreover have "sent w1 = (sent w)(dfd := sent w dfd @ [])" "before_eof (rd_script w sfd) = []"
      using r(2) True by (simp_all add: read_out_def readed_def)
    moreover have "0 \<le> slip * int (hard_errs (rd_script w sfd))" using slip by auto
    ultimately show ?thesis using a(2,4,5)
      by (intro exI [of _ g1] exI [of _ w1] exI [of _ "[]"]) auto
  next
    case False
    have o: "readed sfd d w w1" "has_eof (rd_script w1 sfd)" "rd_weight (rd_script w1 sfd) < rd_weight (rd_script w sfd)"
      "before_eof (rd_script w sfd) = d @ before_eof (rd_script w1 sfd)" "length d \<le> nat n"
      "hard_errs (rd_script w sfd) = hard_errs (rd_script w1 sfd) + (if len < 0 then 1 else 0)"
      "len = (if len < 0 then - 1 else int (length d))" "len < 0 \<longrightarrow> d = []"
      using r(2) False by (simp_all add: read_out_def)
    have ln: "n - len \<le> int cap + 1" "len \<le> n" using a(2,3) o(5,7) by (auto split: if_splits)
    obtain g2 where g2: "(if n - len > 0 then refund (n - len) g1 else Some g1) = Some g2" "ok g2"
      "nticks g2 = nticks g1" "credit g2 \<le> credit g1 + slip * (n - len)"
      using refund [OF a(4) _ ln(1)] a(4) ln(2) by (cases "n - len > 0") auto
    let ?b = "fill b d"
    have lb: "length ?b = cap" using prems(4) o(5) a(3) by (simp add: fill_def)
    have wi: "wr_intr_only (wr_script w1 dfd)" using o(1) prems(3) by (simp add: readed_def)
    obtain w2 x where w: "write_loop True dfd ?b 0 len w1 = Some (Done w2)" "wrote dfd x w1 w2" "length x = length d"
      "wr_full cap (wr_script w1 dfd) \<Longrightarrow> x = d"
    proof (cases "len < 0")
      case True
      then have "write_loop True dfd ?b 0 len w1 = Some (Done w1)" by (subst write_loop.simps) simp
      then show ?thesis using that [of w1 "[]"] True o(8) wrote_refl by simp
    next
      case False
      then have l: "0 \<le> len" "len \<le> int (length ?b)" "len = int (length d)" "len \<le> int cap"
        using o(5,7) a(3) lb by auto
      have "take (nat len) ?b = d" using l(3) by (simp add: fill_def)
      then show ?thesis using write_loop_returns [OF wi _ l(1,2), of True 0] l(3,4) that by auto
    qed
    note s = wrote_simps [OF w(2)]
    obtain g3 where g3: "between handler g2 = Some g3" "ok g3"
      "credit g3 \<le> credit g2 + rate * (int (nticks g3) - int (nticks g2))"
      using between_credit [OF g2(2)] by blast
    have h: "has_eof (rd_script w2 sfd)" "rd_weight (rd_script w2 sfd) < rd_weight (rd_script w sfd)"
      "wr_intr_only (wr_script w2 dfd)" using o(2,3) s(1) s(4) [OF wi] by simp_all
    obtain g' w' y where IH: "cat_loop acquire refund handler sfd dfd ?b g3 w2 = Some (Done (g', w'))" "ok g'"
      "sent w' = (sent w2)(dfd := sent w2 dfd @ y)" "length y = length (before_eof (rd_script w2 sfd))"
      "int (length y) \<le> credit g3 - credit g' + rate * (int (nticks g') - int (nticks g3)) + slip * int (hard_errs (rd_script w2 sfd))"
      "wr_full cap (wr_script w2 dfd) \<longrightarrow> y = before_eof (rd_script w2 sfd)"
      using less.hyps [OF h(2) g3(2) h(1,3) lb] by blast
    have "cat_loop acquire refund handler sfd dfd b g w = Some (Done (g', w'))"
      using a(1,2) r(1) False g2(1) w(1) g3(1) IH(1) by (subst cat_loop.simps) simp
    moreover have "sent w' = (sent w)(dfd := sent w dfd @ x @ y)"
      using IH(3) s(3) o(1) by (simp add: readed_def)
    moreover have "length (x @ y) = length (before_eof (rd_script w sfd))"
      using w(3) IH(4) o(4) s(1) by simp
    moreover have "int (length (x @ y)) \<le> credit g - credit g' + rate * (int (nticks g') - int (nticks g)) + slip * int (hard_errs (rd_script w sfd))"
    proof -
      have e: "hard_errs (rd_script w2 sfd) = hard_errs (rd_script w1 sfd)" using s(1) by simp
      have "int (length x) = (if len < 0 then 0 else len)" using w(3) o(7,8) by auto
      then have "int (length x) + slip * (n - len) \<le> n + slip * (if len < 0 then 1 else 0)"
        using o(7) ln(2) a(2) slip by auto
      then show ?thesis using IH(5) g3(3) g2(3,4) a(5) unfolding e o(6) by (auto simp: algebra_simps split: if_splits)
    qed
    moreover have "x @ y = before_eof (rd_script w sfd)" if "wr_full cap (wr_script w dfd)"
      using that w(4) IH(6) s(5) o(1,4) s(1) by (simp add: readed_def)
    ultimately show ?thesis using IH(2) by blast
  qed
qed

end

subsection \<open>The flag and the counter\<close>

lemma sc_acquire_eq: "lim g = 0 \<or> lim g = 1 \<Longrightarrow>
    sc_acquire g = Some (CPS, g\<lparr>lim := 0, nticks := nticks g + (if lim g = 0 then 1 else 0)\<rparr>)"
  by (auto simp: sc_acquire_def c_while.simps [of _ _ g] pause_def sc_alrm_handler_def c_while_exit)

interpretation slowcat: limiter sc_acquire "\<lambda>k. Some" sc_alrm_handler "\<lambda>g. lim g = 0 \<or> lim g = 1"
  "\<lambda>g. 10 * lim g" 10 0 10
  by unfold_locales (auto simp: sc_acquire_eq pause_def sc_alrm_handler_def)

lemma sc1_acquire_eq: "0 \<le> lim g \<Longrightarrow> lim g \<le> 100 \<Longrightarrow>
    sc1_acquire g = Some (CPS, g\<lparr>lim := if lim g = 0 then 0 else lim g - 1, nticks := nticks g + (if lim g = 0 then 1 else 0)\<rparr>)"
  by (auto simp: sc1_acquire_def c_while.simps [of _ _ g] pause_def sc1_alrm_handler_def c_while_exit cint_def cint_range)

interpretation slowcat1: limiter sc1_acquire "\<lambda>k. Some" sc1_alrm_handler "\<lambda>g. 0 \<le> lim g \<and> lim g \<le> 100"
  "\<lambda>g. 10 * lim g" 10 0 10
  by unfold_locales (auto simp: sc1_acquire_eq pause_def sc1_alrm_handler_def cint_def cint_range)

subsection \<open>The token bucket\<close>

definition tbf_gate_ok :: "addr \<Rightarrow> tbf_lib gate \<Rightarrow> bool" where
  "tbf_gate_ok a g \<longleftrightarrow> lib_ok (lim g) \<and> (\<exists>me. obj (lim g) a = Some me \<and> cps me = CPS \<and> burst me = BURST)"

definition tbf_credit :: "addr \<Rightarrow> tbf_lib gate \<Rightarrow> int" where
  "tbf_credit a g = (case obj (lim g) a of Some me \<Rightarrow> token me | None \<Rightarrow> 0)"

text \<open>A fetch from a dry bucket of the program waits for exactly one tick.\<close>

lemma tbf_fetch_wait:
  assumes "lib_ok l" "obj l a = Some me" "cps me = CPS" "burst me = BURST" "0 < sz"
  shows "\<exists>n l' me'. mytbf_fetchtoken a sz l = Some (n, l') \<and> lib_ok l' \<and> 0 < n \<and> n \<le> sz
    \<and> obj l' a = Some me' \<and> cps me' = CPS \<and> burst me' = BURST
    \<and> n + token me' = token me + (if tbf_dry a l then CPS else 0)"
proof -
  have b: "0 \<le> token me" "token me \<le> BURST"
    using lib_ok_obj [OF assms(1,2)] assms(4) by (auto simp: bucket_ok_def)
  show ?thesis
  proof (cases "tbf_dry a l")
    case False
    then have "mytbf_fetchtoken a sz l = tbf_grab a sz l" using assms(5) by (simp add: mytbf_fetchtoken_def c_while_exit)
    moreover have "0 < token me" using False dry_iff [OF assms(1,2)] b by simp
    ultimately show ?thesis using grab_ok [OF assms(1,2), of sz] False assms(3-5) by auto
  next
    case True
    obtain l1 where l1: "alrm_handler l = Some l1" "lib_ok l1" "obj l1 a = Some (refill me)"
      using tick_bucket [OF assms(1,2)] .
    have t: "token me = 0" using True dry_iff [OF assms(1,2)] by simp
    have "\<not> tbf_dry a l1" using dry_iff [OF l1(2,3)] assms(3,4) t by simp
    then have "mytbf_fetchtoken a sz l = tbf_grab a sz l1"
      using l1(1) True assms(5) by (simp add: mytbf_fetchtoken_def c_while_step c_while_exit)
    then show ?thesis using grab_ok [OF l1(2,3), of sz] True t assms(3-5) by auto
  qed
qed

lemma tbf_limiter:
  assumes "0 < n" "n \<le> 100000"
  shows "limiter (tbf_acquire (int n) a) (tbf_refund a) alrm_handler (tbf_gate_ok a) (tbf_credit a) CPS 1 n"
proof unfold_locales
  fix g assume "tbf_gate_ok a g"
  then obtain me where g: "lib_ok (lim g)" "obj (lim g) a = Some me" "cps me = CPS" "burst me = BURST"
    by (auto simp: tbf_gate_ok_def)
  have b: "0 \<le> token me" "token me \<le> BURST"
    using lib_ok_obj [OF g(1,2)] g(4) by (auto simp: bucket_ok_def)
  show "\<exists>m g'. tbf_acquire (int n) a g = Some (m, g') \<and> 0 < m \<and> m \<le> int n \<and> tbf_gate_ok a g'
      \<and> m + tbf_credit a g' \<le> tbf_credit a g + CPS * (int (nticks g') - int (nticks g))"
    using tbf_fetch_wait [OF g, of "int n"] g assms(1) by (auto simp: tbf_acquire_def tbf_gate_ok_def tbf_credit_def)
  show "\<exists>g'. tbf_refund a k g = Some g' \<and> tbf_gate_ok a g' \<and> nticks g' = nticks g \<and> tbf_credit a g' \<le> tbf_credit a g + 1 * k"
    if "0 < k" "k \<le> int n + 1" for k
    using return_ok [OF g(1,2) that(1)] g that b assms(2)
    by (auto simp: tbf_refund_def tbf_gate_ok_def tbf_credit_def INT_MAX_def)
  show "\<exists>g'. pause alrm_handler g = Some g' \<and> tbf_gate_ok a g' \<and> tbf_credit a g' \<le> tbf_credit a g + CPS"
    by (rule tick_bucket [OF g(1,2)]) (use g in \<open>auto simp: pause_def tbf_gate_ok_def tbf_credit_def\<close>)
qed (auto simp: tbf_gate_ok_def tbf_credit_def)

interpretation tbf_cat: limiter "tbf_acquire 10224 a" "tbf_refund a" alrm_handler "tbf_gate_ok a" "tbf_credit a" CPS 1 10224
  for a using tbf_limiter [of 10224 a] by simp

interpretation tbf_cat_mt: limiter "tbf_acquire 1024 a" "tbf_refund a" alrm_handler "tbf_gate_ok a" "tbf_credit a" CPS 1 1024
  for a using tbf_limiter [of 1024 a] by simp

section \<open>Copying\<close>

definition rd_intr_only :: "rd_reply list \<Rightarrow> bool" where
  "rd_intr_only rs \<longleftrightarrow> (\<forall>e. RdErr e \<in> set rs \<longrightarrow> e = EINTR)"

lemma mycopy_loop_copies:
  assumes "has_eof (rd_script w sfd)" "rd_intr_only (rd_script w sfd)" "wr_intr_only (wr_script w dfd)"
    and "intr \<or> (\<forall>e. RdErr e \<notin> set (rd_script w sfd) \<and> WrErr e \<notin> set (wr_script w dfd))"
    and "length b = COPY_BUFSIZE"
  shows "\<exists>w' x. mycopy_loop intr sfd dfd b w = Some (Done w') \<and> sent w' = (sent w)(dfd := sent w dfd @ x)
    \<and> length x = length (before_eof (rd_script w sfd))
    \<and> (wr_full COPY_BUFSIZE (wr_script w dfd) \<longrightarrow> x = before_eof (rd_script w sfd))"
  using assms
proof (induction "rd_weight (rd_script w sfd)" arbitrary: w b rule: less_induct)
  case less
  note prems = less.prems
  obtain len d w1 where r: "sys_read sfd COPY_BUFSIZE w = (len, d, w1)" by (metis prod_cases3)
  have "0 < COPY_BUFSIZE" by (simp add: COPY_BUFSIZE_def)
  with r prems(1) show ?case
  proof (cases rule: sys_read_cases)
    case (err e)
    have e: "e = EINTR" "intr" using err(9) prems(2,4) by (auto simp: rd_intr_only_def)
    have "mycopy_loop intr sfd dfd b w = mycopy_loop intr sfd dfd b w1"
      using r err(1,3) e by (subst mycopy_loop.simps) simp
    moreover have "rd_intr_only (rd_script w1 sfd)" "wr_intr_only (wr_script w1 dfd)"
      using prems(2,3) err(4,10) by (auto simp: rd_intr_only_def readed_def)
    then obtain w' x where "mycopy_loop intr sfd dfd b w1 = Some (Done w')" "sent w' = (sent w1)(dfd := sent w1 dfd @ x)"
        "length x = length (before_eof (rd_script w1 sfd))"
        "wr_full COPY_BUFSIZE (wr_script w1 dfd) \<longrightarrow> x = before_eof (rd_script w1 sfd)"
      using less.hyps [OF err(8,5) _ _ _ prems(5)] e(2) by blast
    ultimately show ?thesis using err(4,6) by (auto simp: readed_def)
  next
    case eof
    then have "mycopy_loop intr sfd dfd b w = Some (Done w1)" using r by (subst mycopy_loop.simps) simp
    then show ?thesis using eof by (intro exI [of _ w1] exI [of _ "[]"]) (simp add: readed_def)
  next
    case data
    let ?b = "fill b d"
    have lb: "length ?b = COPY_BUFSIZE" using prems(5) data(3) by simp
    have wi: "wr_intr_only (wr_script w1 dfd)" "intr \<or> (\<forall>e. WrErr e \<notin> set (wr_script w1 dfd))"
      using data(4) prems(3,4) by (auto simp: readed_def)
    have l: "0 \<le> len" "len \<le> int (length ?b)" "len \<le> int COPY_BUFSIZE" using data(1-3) lb by simp_all
    have "take (nat len) ?b = d" using data(2) by (simp add: fill_def)
    then obtain w2 x where w: "write_loop intr dfd ?b 0 len w1 = Some (Done w2)" "wrote dfd x w1 w2" "length x = length d"
        "wr_full COPY_BUFSIZE (wr_script w1 dfd) \<longrightarrow> x = d"
      using write_loop_returns [OF wi l(1,2), of 0] l(3) data(2) by auto
    note s = wrote_simps [OF w(2)]
    have h: "has_eof (rd_script w2 sfd)" "rd_weight (rd_script w2 sfd) < rd_weight (rd_script w sfd)"
      "rd_intr_only (rd_script w2 sfd)" "wr_intr_only (wr_script w2 dfd)"
      using data(5,8,9) prems(2) s(1) s(4) [OF wi(1)] by (auto simp: rd_intr_only_def)
    have ni: "intr \<or> (\<forall>e. RdErr e \<notin> set (rd_script w2 sfd) \<and> WrErr e \<notin> set (wr_script w2 dfd))"
      using prems(4) data(9) wi(2) w(2) s(1) by (auto simp: wrote_def)
    obtain w' y where IH: "mycopy_loop intr sfd dfd ?b w2 = Some (Done w')" "sent w' = (sent w2)(dfd := sent w2 dfd @ y)"
        "length y = length (before_eof (rd_script w2 sfd))"
        "wr_full COPY_BUFSIZE (wr_script w2 dfd) \<longrightarrow> y = before_eof (rd_script w2 sfd)"
      using less.hyps [OF h(2,1,3,4) ni lb] by blast
    have "mycopy_loop intr sfd dfd b w = Some (Done w')"
      using r data(1) w(1) IH(1) by (subst mycopy_loop.simps) simp
    moreover have "sent w' = (sent w)(dfd := sent w dfd @ x @ y)" using IH(2) s(3) data(4) by (simp add: readed_def)
    moreover have "length (x @ y) = length (before_eof (rd_script w sfd))" using w(3) IH(3) data(6) s(1) by simp
    moreover have "x @ y = before_eof (rd_script w sfd)" if "wr_full COPY_BUFSIZE (wr_script w dfd)"
      using that w(4) IH(4) s(5) data(4,6) s(1) by (simp add: readed_def)
    ultimately show ?thesis by blast
  qed
qed

text \<open>\<open>open\<close> and its retries change nothing but \<open>errno\<close> and the messages.\<close>

lemma open_retry_world:
  "open_retry opens w = Some (fd, w') \<Longrightarrow>
   rd_script w' = rd_script w \<and> wr_script w' = wr_script w \<and> sent w' = sent w \<and> closed w' = closed w"
  by (induction opens w rule: open_retry.induct) (auto simp: perror_def split: if_splits)

text \<open>C33: Both copying programs, on a file that is read to its end: they finish with status 0
  and write as many bytes as the file has, and when no \<open>write\<close> is short these are the bytes of
  the file. The version of \<open>parallel/signal\<close> does so whatever calls are interrupted by signals, the other
  one when none is.\<close>
theorem mycopy_copies:
  assumes "has_eof (rd_script w sfd)" "rd_intr_only (rd_script w sfd)" "wr_intr_only (wr_script w dfd)"
    and "length b = COPY_BUFSIZE" "3 \<le> argc" "0 \<le> sfd" "0 \<le> dfd"
  shows "(open_retry opens1 w = Some (sfd, w1) \<and> open_retry opens2 w1 = Some (dfd, w2) \<longrightarrow>
      (\<exists>w' x. mycopy_sig_main argc opens1 opens2 b w = Some (0, w') \<and> sent w' = (sent w)(dfd := sent w dfd @ x)
        \<and> length x = length (before_eof (rd_script w sfd))
        \<and> (wr_full COPY_BUFSIZE (wr_script w dfd) \<longrightarrow> x = before_eof (rd_script w sfd))))
    \<and> ((\<forall>e. RdErr e \<notin> set (rd_script w sfd) \<and> WrErr e \<notin> set (wr_script w dfd)) \<longrightarrow>
      (\<exists>w' x. mycopy_main argc sfd dfd b w = Some (0, w') \<and> sent w' = (sent w)(dfd := sent w dfd @ x)
        \<and> length x = length (before_eof (rd_script w sfd))
        \<and> (wr_full COPY_BUFSIZE (wr_script w dfd) \<longrightarrow> x = before_eof (rd_script w sfd))))"
proof (intro conjI impI)
  assume o: "open_retry opens1 w = Some (sfd, w1) \<and> open_retry opens2 w1 = Some (dfd, w2)"
  have same: "rd_script w2 = rd_script w" "wr_script w2 = wr_script w" "sent w2 = sent w"
    using open_retry_world [OF o [THEN conjunct1]] open_retry_world [OF o [THEN conjunct2]] by auto
  obtain w' x where "mycopy_loop True sfd dfd b w2 = Some (Done w')" "sent w' = (sent w)(dfd := sent w dfd @ x)"
      "length x = length (before_eof (rd_script w sfd))"
      "wr_full COPY_BUFSIZE (wr_script w dfd) \<longrightarrow> x = before_eof (rd_script w sfd)"
    using mycopy_loop_copies [of w2 sfd dfd True b] assms(1-4) same by auto
  then show "\<exists>w' x. mycopy_sig_main argc opens1 opens2 b w = Some (0, w') \<and> sent w' = (sent w)(dfd := sent w dfd @ x)
      \<and> length x = length (before_eof (rd_script w sfd))
      \<and> (wr_full COPY_BUFSIZE (wr_script w dfd) \<longrightarrow> x = before_eof (rd_script w sfd))"
    using o assms(5-7)
    by (intro exI [of _ "sys_close sfd (sys_close dfd w')"] exI [of _ x])
      (simp add: mycopy_sig_main_def copy_exit_def sys_close_def)
next
  assume "\<forall>e. RdErr e \<notin> set (rd_script w sfd) \<and> WrErr e \<notin> set (wr_script w dfd)"
  then obtain w' x where "mycopy_loop False sfd dfd b w = Some (Done w')" "sent w' = (sent w)(dfd := sent w dfd @ x)"
      "length x = length (before_eof (rd_script w sfd))"
      "wr_full COPY_BUFSIZE (wr_script w dfd) \<longrightarrow> x = before_eof (rd_script w sfd)"
    using mycopy_loop_copies [OF assms(1-3) _ assms(4), of False] by auto
  then show "\<exists>w' x. mycopy_main argc sfd dfd b w = Some (0, w') \<and> sent w' = (sent w)(dfd := sent w dfd @ x)
      \<and> length x = length (before_eof (rd_script w sfd))
      \<and> (wr_full COPY_BUFSIZE (wr_script w dfd) \<longrightarrow> x = before_eof (rd_script w sfd))"
    using assms(5-7)
    by (intro exI [of _ "sys_close sfd (sys_close dfd w')"] exI [of _ x])
      (simp add: mycopy_main_def copy_exit_def sys_close_def)
qed

text \<open>A file of five bytes behind descriptor 3, read in three pieces.\<close>

definition file_world :: "wr_reply list \<Rightarrow> world" where
  "file_world ws = \<lparr>rd_script = (\<lambda>_. [])(3 := [RdData ''ab'', RdErr EINTR, RdData ''cde'', RdData []]),
     wr_script = (\<lambda>_. [])(4 := ws, 1 := ws), flags = (\<lambda>_. 0), errno = 0, got = (\<lambda>_. []), sent = (\<lambda>_. []),
     diag = [], closed = []\<rparr>"

lemma file_world_simps [simp]:
  "rd_script (file_world ws) 3 = [RdData ''ab'', RdErr EINTR, RdData ''cde'', RdData []]"
  "wr_script (file_world ws) 4 = ws" "wr_script (file_world ws) 1 = ws" "sent (file_world ws) = (\<lambda>_. [])"
  by (simp_all add: file_world_def)

lemma mycopy_copies_witness:
  "\<exists>w'. mycopy_sig_main 3 [(- 1, EINTR), (3, 0)] [(4, 0)] (replicate 1024 CHR ''0'') (file_world [WrErr EINTR]) = Some (0, w')
    \<and> sent w' 4 = ''abcde''"
proof -
  have "open_retry [(- 1, EINTR), (3, 0)] (file_world [WrErr EINTR]) = Some (3, (file_world [WrErr EINTR])\<lparr>errno := EINTR\<rparr>)"
    "open_retry [(4, 0)] ((file_world [WrErr EINTR])\<lparr>errno := EINTR\<rparr>) = Some (4, (file_world [WrErr EINTR])\<lparr>errno := EINTR\<rparr>)"
    by simp_all
  with mycopy_copies [of "file_world [WrErr EINTR]" 3 4 "replicate 1024 CHR ''0''" 3
      "[(- 1, EINTR), (3, 0)]" "(file_world [WrErr EINTR])\<lparr>errno := EINTR\<rparr>" "[(4, 0)]" "(file_world [WrErr EINTR])\<lparr>errno := EINTR\<rparr>"]
  show ?thesis by (auto simp: rd_intr_only_def wr_intr_only_def wr_full_def COPY_BUFSIZE_def has_eof_def)
qed

text \<open>C34: What a short \<open>write\<close> does: when the first one takes only \<open>k\<close> of the \<open>len\<close> bytes and the second
  one takes all it gets, the first \<open>k\<close> bytes are written again in the place of the ones that follow them,
  and the end of the block is lost.\<close>
theorem short_write_repeats:
  assumes "wr_script w dfd = [WrTake k]" "int k < len" "len \<le> int (length b)"
  shows "\<exists>w'. write_loop intr dfd b p len w = Some (Done w')
    \<and> sent w' dfd = sent w dfd @ take k b @ take (nat len - k) b"
proof -
  have s: "slice b 0 len = Some (take (nat len) b)" "slice b 0 (len - int k) = Some (take (nat len - k) b)"
    using slice_0 [of len b] slice_0 [of "len - int k" b] assms by (simp_all add: nat_diff_distrib)
  have kn: "k < nat len" "nat len \<le> length b" using assms(2,3) by linarith+
  then have t: "take k (take (nat len) b) = take k b" by (simp add: min_absorb1)
  have "sys_write dfd (take (nat len) b) w = (int k,
      w\<lparr>wr_script := (wr_script w)(dfd := []), sent := (sent w)(dfd := sent w dfd @ take k b)\<rparr>)"
    using assms(1) kn by (simp add: sys_write_def t del: take_take)
  then have first: "write_loop intr dfd b p len w = write_loop intr dfd b (p + int k) (len - int k)
      (w\<lparr>wr_script := (wr_script w)(dfd := []), sent := (sent w)(dfd := sent w dfd @ take k b)\<rparr>)"
    using s(1) assms(2) by (subst write_loop.simps) simp
  have m: "int (min (length b) (nat len - k)) = len - int k" using kn by linarith
  show ?thesis
    unfolding first using s(2) assms m
    by (subst write_loop.simps) (simp add: sys_write_def write_loop.simps [of _ _ _ _ 0])
qed

lemma short_write_repeats_witness:
  "\<exists>w'. write_loop True 4 ''abcde'' 0 5 (file_world [WrTake 2]) = Some (Done w') \<and> sent w' 4 = ''ababc''"
  using short_write_repeats [of "file_world [WrTake 2]" 4 2 5 "''abcde''" True 0] by auto

section \<open>The rate limited programs\<close>

text \<open>The leaky bucket and the token counter, on a file that is read to its end while only signals
  interrupt the writing: they finish with status 0, have written as many bytes as the file has (the bytes
  of the file when no \<open>write\<close> is short), and at most ten bytes per alarm; the counter never leaves 0 to
  100. Errors of \<open>read\<close> do not end them.\<close>
theorem slowcat_rate:
  assumes "has_eof (rd_script w sfd)" "wr_intr_only (wr_script w 1)" "length b = 10"
    and "2 \<le> argc" "0 \<le> timer" "open_retry opens w = Some (sfd, w1)" "0 \<le> sfd"
  shows "(\<exists>g w' x. slowcat_main argc timer opens as b w = Some (0, g, w') \<and> sent w' = (sent w)(1 := sent w 1 @ x)
      \<and> length x = length (before_eof (rd_script w sfd)) \<and> int (length x) \<le> 10 * int (nticks g)
      \<and> (wr_full 10 (wr_script w 1) \<longrightarrow> x = before_eof (rd_script w sfd)))
    \<and> (\<exists>g w' x. slowcat1_main argc opens as b w = Some (0, g, w') \<and> sent w' = (sent w)(1 := sent w 1 @ x)
      \<and> length x = length (before_eof (rd_script w sfd)) \<and> int (length x) \<le> 10 * int (nticks g)
      \<and> 0 \<le> lim g \<and> lim g \<le> BURST
      \<and> (wr_full 10 (wr_script w 1) \<longrightarrow> x = before_eof (rd_script w sfd)))"
proof (intro conjI)
  let ?g = "\<lparr>al = as, nticks = 0, lim = 0\<rparr> :: int gate"
  have same: "rd_script w1 = rd_script w" "wr_script w1 = wr_script w" "sent w1 = sent w"
    using open_retry_world [OF assms(6)] by auto
  have pre: "has_eof (rd_script w1 sfd)" "wr_intr_only (wr_script w1 1)" using assms(1,2) same by simp_all
  obtain g w' x where sc: "cat_loop sc_acquire (\<lambda>k. Some) sc_alrm_handler sfd 1 b ?g w1 = Some (Done (g, w'))"
    "lim g = 0 \<or> lim g = 1" "sent w' = (sent w)(1 := sent w 1 @ x)" "length x = length (before_eof (rd_script w sfd))"
    "int (length x) \<le> 10 * lim ?g - 10 * lim g + 10 * (int (nticks g) - int (nticks ?g)) + 0 * int (hard_errs (rd_script w1 sfd))"
    "wr_full 10 (wr_script w 1) \<longrightarrow> x = before_eof (rd_script w sfd)"
    using slowcat.cat_loop_bound [OF _ pre assms(3), of ?g] unfolding same by auto
  have "slowcat_main argc timer opens as b w = Some (0, g, sys_close 1 w')"
    using sc(1) assms(4-7) by (simp add: slowcat_main_def cat_exit_def)
  moreover have "int (length x) \<le> 10 * int (nticks g)" using sc(2,5) by auto
  ultimately show "\<exists>g w' x. slowcat_main argc timer opens as b w = Some (0, g, w') \<and> sent w' = (sent w)(1 := sent w 1 @ x)
      \<and> length x = length (before_eof (rd_script w sfd)) \<and> int (length x) \<le> 10 * int (nticks g)
      \<and> (wr_full 10 (wr_script w 1) \<longrightarrow> x = before_eof (rd_script w sfd))"
    using sc(3,4,6) by (intro exI [of _ g] exI [of _ "sys_close 1 w'"] exI [of _ x]) (simp add: sys_close_def)
  obtain g w' x where sc: "cat_loop sc1_acquire (\<lambda>k. Some) sc1_alrm_handler sfd 1 b ?g w1 = Some (Done (g, w'))"
    "0 \<le> lim g \<and> lim g \<le> 100" "sent w' = (sent w)(1 := sent w 1 @ x)" "length x = length (before_eof (rd_script w sfd))"
    "int (length x) \<le> 10 * lim ?g - 10 * lim g + 10 * (int (nticks g) - int (nticks ?g)) + 0 * int (hard_errs (rd_script w1 sfd))"
    "wr_full 10 (wr_script w 1) \<longrightarrow> x = before_eof (rd_script w sfd)"
    using slowcat1.cat_loop_bound [OF _ pre assms(3), of ?g] unfolding same by auto
  have "slowcat1_main argc opens as b w = Some (0, g, sys_close 1 w')"
    using sc(1) assms(4-7) by (simp add: slowcat1_main_def cat_exit_def)
  moreover have "int (length x) \<le> 10 * int (nticks g)" using sc(2,5) by auto
  ultimately show "\<exists>g w' x. slowcat1_main argc opens as b w = Some (0, g, w') \<and> sent w' = (sent w)(1 := sent w 1 @ x)
      \<and> length x = length (before_eof (rd_script w sfd)) \<and> int (length x) \<le> 10 * int (nticks g)
      \<and> 0 \<le> lim g \<and> lim g \<le> BURST
      \<and> (wr_full 10 (wr_script w 1) \<longrightarrow> x = before_eof (rd_script w sfd))"
    using sc(2-4,6) by (intro exI [of _ g] exI [of _ "sys_close 1 w'"] exI [of _ x]) (simp add: sys_close_def)
qed

lemma slowcat_rate_witness:
  "\<exists>g w'. slowcat_main 2 0 [(3, 0)] [0, 3] (replicate 10 CHR ''0'') (file_world []) = Some (0, g, w') \<and> sent w' 1 = ''abcde''"
  using slowcat_rate [of "file_world []" 3 "replicate 10 CHR ''0''" 2 0 "[(3, 0)]" "file_world []" "[0, 3]"]
  by (auto simp: wr_intr_only_def wr_full_def has_eof_def)

text \<open>The program of the token bucket library, with the buffer size of the signal versions and that of
  the thread version: on a file that is read to its end while only signals interrupt the writing, it
  finishes with status 0 and the bucket destroyed; it has written as many bytes as the file has (the bytes
  of the file when no \<open>write\<close> is short), at most ten per tick, and one more for every error of \<open>read\<close>
  that is not \<open>EINTR\<close>, because the program then gives back one token more than it took.\<close>
theorem tbf_cat_rate:
  assumes "lib_ok l" "obj l a = None" "used (job l) \<noteq> MYTBF_MAX"
    and "(main, bufsize) \<in> {(mytbf_main, 10224), (mytbf_sa_main, 10224), (mytbf_mt_main, 1024)}"
    and "has_eof (rd_script w sfd)" "wr_intr_only (wr_script w 1)" "int (length b) = bufsize"
    and "2 \<le> argc" "open_retry opens w = Some (sfd, w1)" "0 \<le> sfd"
  shows "\<exists>g w' x. main (Some a) argc opens as b l w = Some (0, g, w')
    \<and> lib_ok (lim g) \<and> obj (lim g) a = None \<and> sent w' = (sent w)(1 := sent w 1 @ x)
    \<and> length x = length (before_eof (rd_script w sfd))
    \<and> int (length x) \<le> 10 * int (nticks g) + int (hard_errs (rd_script w sfd))
    \<and> (wr_full (length b) (wr_script w 1) \<longrightarrow> x = before_eof (rd_script w sfd))"
proof -
  have m: "main = tbf_cat_main bufsize" "bufsize = 10224 \<or> bufsize = 1024"
    using assms(4) by (auto simp: mytbf_main_def mytbf_sa_main_def mytbf_mt_main_def)
  obtain r l1 where i: "mytbf_init (Some a) CPS BURST l = (r, l1)" by fastforce
  have ok: "lib_ok l1"
    by (rule init_ok [OF assms(1) _ _ i]) (use assms(2) in \<open>simp_all add: bucket_ok_def INT_MAX_def\<close>)
  have nf: "\<not> free_pos (job l) < 0"
  proof (cases "job l" rule: free_pos_cases)
    case full
    then show ?thesis using assms(1,3) used_full_iff [of "job l"] by (simp add: lib_ok_def)
  qed simp
  have r: "r = Some a" "\<exists>me. obj l1 a = Some me \<and> cps me = CPS \<and> burst me = BURST \<and> token me = 0"
    using i nf by (auto simp: mytbf_init_eq)
  let ?g = "\<lparr>al = as, nticks = 0, lim = l1\<rparr>"
  have gok: "tbf_gate_ok a ?g" "tbf_credit a ?g = 0" using ok r(2) by (auto simp: tbf_gate_ok_def tbf_credit_def)
  have same: "rd_script w1 = rd_script w" "wr_script w1 = wr_script w" "sent w1 = sent w"
    using open_retry_world [OF assms(9)] by auto
  have lim: "limiter (tbf_acquire (int (length b)) a) (tbf_refund a) alrm_handler (tbf_gate_ok a) (tbf_credit a) CPS 1 (length b)"
    by (rule tbf_limiter) (use m(2) assms(7) in auto)
  obtain g w' x where c: "cat_loop (tbf_acquire bufsize a) (tbf_refund a) alrm_handler sfd 1 b ?g w1 = Some (Done (g, w'))"
    "tbf_gate_ok a g" "sent w' = (sent w)(1 := sent w 1 @ x)" "length x = length (before_eof (rd_script w sfd))"
    "int (length x) \<le> tbf_credit a ?g - tbf_credit a g + CPS * (int (nticks g) - int (nticks ?g)) + 1 * int (hard_errs (rd_script w sfd))"
    "wr_full (length b) (wr_script w 1) \<longrightarrow> x = before_eof (rd_script w sfd)"
    using limiter.cat_loop_bound [OF lim gok(1), of w1 sfd 1 b] assms(5-7) unfolding same by auto
  obtain me where me: "lib_ok (lim g)" "obj (lim g) a = Some me" using c(2) by (auto simp: tbf_gate_ok_def)
  obtain l2 where d: "mytbf_destroy a (lim g) = Some (0, l2)" "lib_ok l2" "obj l2 = (obj (lim g))(a := None)"
    using destroy_ok [OF me] by auto
  have "0 \<le> tbf_credit a g" using lib_ok_obj [OF me] me(2) by (simp add: tbf_credit_def bucket_ok_def)
  then have "int (length x) \<le> 10 * int (nticks g) + int (hard_errs (rd_script w sfd))" using c(5) gok(2) by simp
  moreover have "tbf_cat_main bufsize (Some a) argc opens as b l w = Some (0, g\<lparr>lim := l2\<rparr>, sys_close 1 w')"
    using i r(1) assms(8-10) c(1) d(1) by (simp add: tbf_cat_main_def cat_exit_def)
  ultimately show ?thesis
    using c(3,4,6) d(2,3) unfolding m(1)
    by (intro exI [of _ "g\<lparr>lim := l2\<rparr>"] exI [of _ "sys_close 1 w'"] exI [of _ x]) (simp add: sys_close_def)
qed

lemma tbf_cat_rate_witness:
  "\<exists>g w'. mytbf_mt_main (Some 8) 2 [(3, 0)] [1, 2] (replicate 1024 CHR ''0'') tbf_demo (file_world []) = Some (0, g, w')
    \<and> sent w' 1 = ''abcde''"
proof -
  have "obj tbf_demo 8 = None" "used (job tbf_demo) \<noteq> MYTBF_MAX"
    using used_full_iff [of "job tbf_demo"] by (simp_all add: tbf_demo_def)
  from tbf_cat_rate [OF tbf_demo_ok this, of mytbf_mt_main 1024 "file_world []" 3 "replicate 1024 CHR ''0''" 2 "[(3, 0)]" "file_world []" "[1, 2]"]
  show ?thesis by (auto simp: wr_intr_only_def wr_full_def has_eof_def)
qed

end
