(* ===== verification/Daemon.thy ===== *)
theory Daemon
  imports Decimal
begin

text \<open>
  The two programs \<open>mydaemon.c\<close> (\<open>process_basic/daemon\<close> and \<open>parallel/signal/daemon\<close>): a process turns itself into a
  daemon and then writes a number into \<open>/tmp/out\<close> every second. The second program leaves its endless loop through a
  signal handler. The programs are a step relation; calls that can fail have a step for it, and a signal can come at any
  moment. The theorem says what the file and the log hold in every state that can be reached.
\<close>

section \<open>State\<close>

datatype d_pc =
    D_fork | D_null | D_setsid | D_chdir | D_failed | D_started | D_fopen | D_print | D_log | D_flush | D_next
  | D_end int | D_killed | D_undefined

datatype d_file = Dev_null | Other nat

text \<open>
  \<open>fp\<close>: whether the global \<open>fp\<close> holds an open stream. \<open>fbuf\<close>: what the stream has not yet written. \<open>log\<close>: the lines given to
  \<open>syslog\<close>. \<open>num\<close>: the variable \<open>i\<close>.
\<close>

record daemon =
  dpc :: d_pc
  fds :: "nat \<Rightarrow> d_file option"
  leader :: bool
  at_root :: bool
  fp :: bool
  fbuf :: string
  out_file :: string
  slog :: "string list"
  num :: int

definition d_line :: "int \<Rightarrow> string" where
  "d_line i = sdec i @ ''\<newline>''"

text \<open>\<open>dup2\<close> onto 0, 1 and 2; the original descriptor is closed unless it is one of them.\<close>

definition null_std :: "nat \<Rightarrow> (nat \<Rightarrow> d_file option) \<Rightarrow> nat \<Rightarrow> d_file option" where
  "null_std fd f =
     (let f = f(fd \<mapsto> Dev_null); f = f(0 := f fd); f = f(1 := f fd); f = f(2 := f fd)
      in if 2 < fd then f(fd := None) else f)"

definition say :: "string \<Rightarrow> daemon \<Rightarrow> daemon" where
  "say m s = s\<lparr>slog := slog s @ [m]\<rparr>"

definition d_running :: "daemon \<Rightarrow> bool" where
  "d_running s \<longleftrightarrow> dpc s \<in> {D_fork, D_null, D_setsid, D_chdir, D_failed, D_started, D_fopen, D_print, D_log, D_flush, D_next}"

section \<open>The function \<open>daemonize\<close>\<close>

text \<open>The process is followed into the child; the step \<open>parent\<close> is the \<open>exit(0)\<close> of the process that was started.\<close>

inductive daemonize :: "daemon \<Rightarrow> daemon \<Rightarrow> bool" where
  fork_fails: "dpc s = D_fork \<Longrightarrow> daemonize s (s\<lparr>dpc := D_failed\<rparr>)"
| parent: "dpc s = D_fork \<Longrightarrow> daemonize s (s\<lparr>dpc := D_end 0\<rparr>)"
| child: "dpc s = D_fork \<Longrightarrow> daemonize s (s\<lparr>dpc := D_null\<rparr>)"
| open_fails: "dpc s = D_null \<Longrightarrow> daemonize s (s\<lparr>dpc := D_failed\<rparr>)"
| opens: "dpc s = D_null \<Longrightarrow> fds s fd = None \<Longrightarrow> daemonize s (s\<lparr>dpc := D_setsid, fds := null_std fd (fds s)\<rparr>)"
| setsid: "dpc s = D_setsid \<Longrightarrow> daemonize s (s\<lparr>dpc := D_chdir, leader := True\<rparr>)"
| chdir: "dpc s = D_chdir \<Longrightarrow> daemonize s (s\<lparr>dpc := D_started, at_root := r\<rparr>)"

section \<open>The programs\<close>

text \<open>The text of \<open>strerror(errno)\<close> is \<open>err\<close>. \<open>i++\<close> at the largest \<open>int\<close> is undefined.\<close>

inductive d_main :: "daemon \<Rightarrow> daemon \<Rightarrow> bool" where
  daemon: "daemonize s t \<Longrightarrow> d_main s t"
| failed: "dpc s = D_failed \<Longrightarrow> d_main s (say ''daemonize() failed!'' (s\<lparr>dpc := D_end 1\<rparr>))"
| started: "dpc s = D_started \<Longrightarrow> d_main s (say ''daemonize() successed!'' (s\<lparr>dpc := D_fopen\<rparr>))"
| fopen_fails: "dpc s = D_fopen \<Longrightarrow> d_main s (say (''fopen():'' @ err) (s\<lparr>dpc := D_end 1\<rparr>))"
| fopens: "dpc s = D_fopen \<Longrightarrow> d_main s (say ''/tmp/out was opened.'' (s\<lparr>dpc := D_print, fp := True, out_file := [], fbuf := [], num := 0\<rparr>))"
| prints: "dpc s = D_print \<Longrightarrow> d_main s (s\<lparr>dpc := D_log, fbuf := fbuf s @ d_line (num s)\<rparr>)"
| logs: "dpc s = D_log \<Longrightarrow> d_main s (say (sdec (num s) @ '' is printed.'') (s\<lparr>dpc := D_flush\<rparr>))"
| flushes: "dpc s = D_flush \<Longrightarrow> d_main s (s\<lparr>dpc := D_next, out_file := out_file s @ fbuf s, fbuf := []\<rparr>)"
| rounds: "dpc s = D_next \<Longrightarrow> num s < 2147483647 \<Longrightarrow> d_main s (s\<lparr>dpc := D_print, num := num s + 1\<rparr>)"
| overflows: "dpc s = D_next \<Longrightarrow> num s = 2147483647 \<Longrightarrow> d_main s (s\<lparr>dpc := D_undefined\<rparr>)"

text \<open>The handler of the second program: \<open>fclose\<close> writes what the stream still holds; it may not be called with \<open>NULL\<close>.\<close>

inductive daemon_exit :: "daemon \<Rightarrow> daemon \<Rightarrow> bool" where
  closes: "fp s \<Longrightarrow> daemon_exit s (s\<lparr>dpc := D_end 0, out_file := out_file s @ fbuf s, fbuf := []\<rparr>)"
| no_stream: "\<not> fp s \<Longrightarrow> daemon_exit s (s\<lparr>dpc := D_undefined\<rparr>)"

text \<open>The program with the handler (\<open>handled\<close>) and the one that a signal just ends.\<close>

inductive d_step :: "bool \<Rightarrow> daemon \<Rightarrow> daemon \<Rightarrow> bool" for handled where
  main: "d_main s t \<Longrightarrow> d_step handled s t"
| signalled: "handled \<Longrightarrow> d_running s \<Longrightarrow> daemon_exit s t \<Longrightarrow> d_step handled s t"
| kills: "\<not> handled \<Longrightarrow> d_running s \<Longrightarrow> d_step handled s (s\<lparr>dpc := D_killed\<rparr>)"

definition d_start :: "(nat \<Rightarrow> d_file option) \<Rightarrow> daemon \<Rightarrow> bool" where
  "d_start f s \<longleftrightarrow> dpc s = D_fork \<and> fds s = f \<and> \<not> fp s \<and> slog s = [] \<and> fbuf s = []"

section \<open>What the file and the log hold\<close>

definition numbers :: "int \<Rightarrow> string" where
  "numbers k = concat (map d_line [0..k - 1])"

definition reports :: "int \<Rightarrow> string list" where
  "reports k = [''daemonize() successed!'', ''/tmp/out was opened.''] @ map (\<lambda>i. sdec i @ '' is printed.'') [0..k - 1]"

lemma numbers_step: "0 \<le> k \<Longrightarrow> numbers k @ d_line k = numbers (k + 1)"
  by (simp add: numbers_def upto_rec2)

lemma reports_step: "0 \<le> k \<Longrightarrow> reports k @ [sdec k @ '' is printed.''] = reports (k + 1)"
  by (simp add: reports_def upto_rec2)

lemma numbers_0: "numbers 0 = []" "reports 0 = [''daemonize() successed!'', ''/tmp/out was opened.'']"
  by (simp_all add: numbers_def reports_def)

definition std_null :: "(nat \<Rightarrow> d_file option) \<Rightarrow> nat \<Rightarrow> d_file option" where
  "std_null f = f(0 \<mapsto> Dev_null, 1 \<mapsto> Dev_null, 2 \<mapsto> Dev_null)"

lemma null_std_eq: "f fd = None \<Longrightarrow> null_std fd f = std_null f"
  by (auto simp: null_std_def std_null_def Let_def fun_eq_iff)

text \<open>\<open>k\<close> numbers are in the file, \<open>m\<close> in the log.\<close>

definition holds :: "daemon \<Rightarrow> int \<Rightarrow> int \<Rightarrow> bool" where
  "holds s k m \<longleftrightarrow> 0 \<le> k \<and> 0 \<le> m \<and> out_file s = numbers k \<and> slog s = reports m"

definition d_inv :: "bool \<Rightarrow> (nat \<Rightarrow> d_file option) \<Rightarrow> daemon \<Rightarrow> bool" where
  "d_inv handled f s \<longleftrightarrow>
     (fp s \<longrightarrow> fds s = std_null f \<and> leader s \<and> 0 \<le> num s \<and> num s \<le> 2147483647) \<and>
     (case dpc s of
        D_fork \<Rightarrow> \<not> fp s \<and> fds s = f \<and> slog s = []
      | D_null \<Rightarrow> \<not> fp s \<and> fds s = f \<and> slog s = []
      | D_setsid \<Rightarrow> \<not> fp s \<and> fds s = std_null f \<and> slog s = []
      | D_chdir \<Rightarrow> \<not> fp s \<and> fds s = std_null f \<and> slog s = [] \<and> leader s
      | D_failed \<Rightarrow> \<not> fp s \<and> slog s = []
      | D_started \<Rightarrow> \<not> fp s \<and> fds s = std_null f \<and> slog s = [] \<and> leader s
      | D_fopen \<Rightarrow> \<not> fp s \<and> fds s = std_null f \<and> slog s = [''daemonize() successed!''] \<and> leader s
      | D_print \<Rightarrow> fp s \<and> fbuf s = [] \<and> holds s (num s) (num s)
      | D_log \<Rightarrow> fp s \<and> fbuf s = d_line (num s) \<and> holds s (num s) (num s)
      | D_flush \<Rightarrow> fp s \<and> fbuf s = d_line (num s) \<and> holds s (num s) (num s + 1)
      | D_next \<Rightarrow> fp s \<and> fbuf s = [] \<and> holds s (num s + 1) (num s + 1)
      | D_end st \<Rightarrow> (fp s \<longrightarrow> handled \<and> st = 0 \<and> (\<exists>k m. holds s k m \<and> m \<le> k \<and> k \<le> m + 1))
      | D_killed \<Rightarrow> \<not> handled \<and> (fp s \<longrightarrow> (\<exists>k m. holds s k m \<and> k \<le> m \<and> m \<le> k + 1))
      | D_undefined \<Rightarrow> (if fp s then num s = 2147483647 \<and> holds s (num s + 1) (num s + 1) else handled))"

lemma d_start_inv: "d_start f s \<Longrightarrow> d_inv handled f s"
  by (simp add: d_start_def d_inv_def)

lemma holds_flush:
  "holds s k m \<Longrightarrow> fbuf s = d_line k \<Longrightarrow> holds (s\<lparr>dpc := p, out_file := out_file s @ fbuf s, fbuf := []\<rparr>) (k + 1) m"
  "holds s k m \<Longrightarrow> fbuf s = [] \<Longrightarrow> holds (s\<lparr>dpc := p, out_file := out_file s @ fbuf s, fbuf := []\<rparr>) k m"
  by (simp_all add: holds_def numbers_step)

lemma holds_frame [simp]:
  "holds (s\<lparr>dpc := p\<rparr>) k m = holds s k m"
  "holds (s\<lparr>dpc := p, fbuf := b\<rparr>) k m = holds s k m"
  "holds (s\<lparr>dpc := p, num := n\<rparr>) k m = holds s k m"
  by (simp_all add: holds_def)

lemma daemonize_inv: "daemonize s t \<Longrightarrow> d_inv handled f s \<Longrightarrow> d_inv handled f t"
  by (induction rule: daemonize.induct) (simp_all add: d_inv_def null_std_eq)

lemma d_main_inv: "d_main s t \<Longrightarrow> d_inv handled f s \<Longrightarrow> d_inv handled f t"
proof (induction rule: d_main.induct)
  case (daemon s t)
  then show ?case by (rule daemonize_inv)
next
  case (logs s)
  then show ?case by (simp add: d_inv_def say_def holds_def reports_step)
next
  case (flushes s)
  then show ?case using holds_flush(1) [of s "num s" "num s + 1" D_next] by (simp add: d_inv_def)
qed (simp_all add: d_inv_def say_def holds_def numbers_0)

lemma daemon_exit_inv:
  assumes "daemon_exit s t" "d_running s" "d_inv True f s"
  shows "d_inv True f t"
  using assms
proof (induction rule: daemon_exit.induct)
  case (closes s)
  let ?t = "s\<lparr>dpc := D_end 0, out_file := out_file s @ fbuf s, fbuf := []\<rparr>"
  have "\<exists>k m. holds ?t k m \<and> m \<le> k \<and> k \<le> m + 1"
    using closes holds_flush [where s = s and p = "D_end 0"]
    by (cases "dpc s") (auto simp: d_inv_def d_running_def, (metis order_refl zless_add1_eq less_le)+)
  with closes show ?case by (simp add: d_inv_def)
qed (simp add: d_inv_def)

lemma holds_lag: "holds s k m \<Longrightarrow> k \<le> m \<Longrightarrow> m \<le> k + 1 \<Longrightarrow> \<exists>k m. holds s k m \<and> k \<le> m \<and> m \<le> k + 1"
  by blast

lemma holds_tight: "holds s k m \<Longrightarrow> m \<le> k \<Longrightarrow> k \<le> m + 1 \<Longrightarrow> \<exists>k m. holds s k m \<and> \<bar>k - m\<bar> \<le> 1 \<and> m \<le> k"
  by (intro exI [of _ k] exI [of _ m]) simp

lemma holds_near: "holds s k m \<Longrightarrow> \<bar>k - m\<bar> \<le> 1 \<Longrightarrow> \<exists>k m. holds s k m \<and> \<bar>k - m\<bar> \<le> 1"
  by blast

lemma d_step_inv: "d_step handled s t \<Longrightarrow> d_inv handled f s \<Longrightarrow> d_inv handled f t"
proof (induction rule: d_step.induct)
  case (main s t)
  then show ?case by (simp add: d_main_inv)
next
  case (signalled s t)
  then show ?case using daemon_exit_inv by simp
next
  case (kills s)
  have "\<exists>k m. holds s k m \<and> k \<le> m \<and> m \<le> k + 1" if "fp s"
    using kills that by (cases "dpc s") (auto simp: d_inv_def d_running_def intro: holds_lag)
  then show ?case using kills by (simp add: d_inv_def)
qed

lemma daemon_reach: "(d_step handled)\<^sup>*\<^sup>* s t \<Longrightarrow> d_start f s \<Longrightarrow> d_inv handled f t"
  by (induction rule: rtranclp_induct) (auto intro: d_start_inv d_step_inv)


lemma early_signal:
  assumes "d_start f s"
  shows "d_step True s (s\<lparr>dpc := D_undefined\<rparr>)"
  using assms by (intro d_step.signalled daemon_exit.no_stream) (simp_all add: d_start_def d_running_def)

text \<open>A run of the second program: three numbers, and a signal after the third was printed into the buffer.\<close>

definition fresh :: daemon where
  "fresh = \<lparr>dpc = D_fork, fds = (\<lambda>_. None)(0 \<mapsto> Other 0, 1 \<mapsto> Other 0, 2 \<mapsto> Other 0), leader = False, at_root = False, fp = False,
     fbuf = [], out_file = [], slog = [], num = 0\<rparr>"

lemma main_run: "d_main s t \<Longrightarrow> (d_step handled)\<^sup>*\<^sup>* t u \<Longrightarrow> (d_step handled)\<^sup>*\<^sup>* s u"
  by (meson converse_rtranclp_into_rtranclp d_step.main)

lemma round_run:
  assumes "dpc s = D_print" "num s < 2147483647"
  shows "(d_step handled)\<^sup>*\<^sup>* s (s\<lparr>dpc := D_print, out_file := out_file s @ fbuf s @ d_line (num s), fbuf := [],
     slog := slog s @ [sdec (num s) @ '' is printed.''], num := num s + 1\<rparr>)"
proof -
  let ?a = "s\<lparr>dpc := D_log, fbuf := fbuf s @ d_line (num s)\<rparr>"
  let ?b = "say (sdec (num ?a) @ '' is printed.'') (?a\<lparr>dpc := D_flush\<rparr>)"
  let ?c = "?b\<lparr>dpc := D_next, out_file := out_file ?b @ fbuf ?b, fbuf := []\<rparr>"
  let ?d = "?c\<lparr>dpc := D_print, num := num ?c + 1\<rparr>"
  have "d_main s ?a" "d_main ?a ?b" "d_main ?b ?c" "d_main ?c ?d"
    using assms by (intro d_main.prints d_main.logs d_main.flushes d_main.rounds; simp add: say_def)+
  then have "(d_step handled)\<^sup>*\<^sup>* s ?d" by (blast intro: main_run)
  then show ?thesis using assms by (cases s) (simp add: say_def)
qed

definition opened :: daemon where
  "opened = fresh\<lparr>dpc := D_print, fds := std_null (fds fresh), leader := True, at_root := True, fp := True, slog := reports 0\<rparr>"

lemma open_run: "(d_step handled)\<^sup>*\<^sup>* fresh opened"
proof -
  let ?a = "fresh\<lparr>dpc := D_null\<rparr>"
  let ?b = "?a\<lparr>dpc := D_setsid, fds := null_std 3 (fds ?a)\<rparr>"
  let ?c = "?b\<lparr>dpc := D_chdir, leader := True\<rparr>"
  let ?d = "?c\<lparr>dpc := D_started, at_root := True\<rparr>"
  let ?e = "say ''daemonize() successed!'' (?d\<lparr>dpc := D_fopen\<rparr>)"
  let ?f = "say ''/tmp/out was opened.'' (?e\<lparr>dpc := D_print, fp := True, out_file := [], fbuf := [], num := 0\<rparr>)"
  have "daemonize fresh ?a" "daemonize ?a ?b" "daemonize ?b ?c" "daemonize ?c ?d"
    by (intro daemonize.child daemonize.opens daemonize.setsid daemonize.chdir; simp add: fresh_def)+
  then have "d_main fresh ?a" "d_main ?a ?b" "d_main ?b ?c" "d_main ?c ?d" by (auto intro: d_main.daemon)
  moreover have "d_main ?d ?e" "d_main ?e ?f"
    by (intro d_main.started d_main.fopens; simp add: say_def)+
  ultimately have "(d_step handled)\<^sup>*\<^sup>* fresh ?f" by (blast intro: main_run)
  moreover have "?f = opened"
    by (simp add: opened_def say_def fresh_def numbers_0 null_std_eq)
  ultimately show ?thesis by simp
qed

lemma demo_run: "\<exists>t. (d_step True)\<^sup>*\<^sup>* fresh t \<and> dpc t = D_end 0 \<and> fp t \<and> out_file t = numbers 3 \<and> slog t = reports 2"
proof -
  let ?r = "\<lambda>s. s\<lparr>dpc := D_print, out_file := out_file s @ fbuf s @ d_line (num s), fbuf := [],
     slog := slog s @ [sdec (num s) @ '' is printed.''], num := num s + 1\<rparr>"
  let ?p = "(?r (?r opened))\<lparr>dpc := D_log, fbuf := d_line 2\<rparr>"
  let ?t = "?p\<lparr>dpc := D_end 0, out_file := out_file ?p @ fbuf ?p, fbuf := []\<rparr>"
  have o: "dpc opened = D_print" "num opened = 0" "fbuf opened = []" "out_file opened = []" "slog opened = reports 0" "fp opened"
    by (simp_all add: opened_def fresh_def)
  have "(d_step True)\<^sup>*\<^sup>* fresh (?r opened)" using rtranclp_trans [OF open_run round_run [of opened True]] o by simp
  moreover have "(d_step True)\<^sup>*\<^sup>* (?r opened) (?r (?r opened))" by (rule round_run) (simp_all add: o)
  moreover have "d_main (?r (?r opened)) ?p" using d_main.prints [of "?r (?r opened)"] by (simp add: o)
  moreover have "d_step True ?p ?t" using daemon_exit.closes [of ?p] o by (intro d_step.signalled) (simp_all add: d_running_def)
  ultimately have "(d_step True)\<^sup>*\<^sup>* fresh ?t" by (meson d_step.main rtranclp.rtrancl_into_rtrancl rtranclp_trans)
  moreover have "out_file ?t = numbers 3" "slog ?t = reports 2"
    using numbers_step [of 0] numbers_step [of 1] numbers_step [of 2] reports_step [of 0] reports_step [of 1]
    by (simp_all add: o numbers_0(1))
  ultimately show ?thesis using o by (intro exI [of _ ?t]) simp
qed


end
