(* ===== verification/Datagram.thy ===== *)
theory Datagram
  imports ByteOrder
begin

text \<open>
  The datagram senders and receivers of \<open>ipc/socket/dgram\<close> (\<open>basic\<close>, \<open>bcast\<close>, \<open>mcast\<close> with a record of fixed size,
  \<open>var\<close> with a name of variable length behind two numbers). A host is described by the order in which it stores the bytes
  of an integer; what goes over the network is a list of bytes. The programs are modelled as the list of their
  calls. The lemmas: the numbers survive between any two hosts, the receivers print what the senders put in, and where the
  variable record overflows the receiver.
\<close>

section \<open>Senders\<close>

abbreviation RCVPORT :: nat where "RCVPORT \<equiv> 1989"
abbreviation NAMESIZE :: nat where "NAMESIZE \<equiv> 11"
abbreviation NAMEMAX :: nat where "NAMEMAX \<equiv> 512 - 8 - 8"

text \<open>\<open>sizeof(struct msg_st)\<close>, packed, in \<open>basic\<close>, \<open>bcast\<close> and \<open>mcast\<close>, and in \<open>var\<close>.\<close>

definition MSG_SIZE :: nat where
  "MSG_SIZE = NAMESIZE + 4 + 4"

definition VAR_SIZE :: nat where
  "VAR_SIZE = 4 + 4 + 1"

text \<open>The calls of a program; a port is the pair of bytes in the address.\<close>

datatype net_call =
    Socket
  | SetOpt string
  | Bind string string
  | SendTo string string string
  | Puts string
  | Close
  | Free

record net_env =
  r_socket :: int
  r_opt :: int
  r_bind :: int
  r_send :: int

text \<open>A call that may fail: the program then exits with 1. A result is the exit status and the calls.\<close>

definition try_call :: "int \<Rightarrow> net_call \<Rightarrow> (int \<times> net_call list) option \<Rightarrow> (int \<times> net_call list) option" where
  "try_call r c k = (if r < 0 then Some (1, [c]) else map_option (\<lambda>(n, cs). (n, c # cs)) k)"

definition strcpy_at :: "nat \<Rightarrow> nat \<Rightarrow> string \<Rightarrow> string \<Rightarrow> string option" where
  "strcpy_at off room s buf = (if length s < room then Some (put_at off (s @ [NUL]) buf) else None)"

definition rand_mark :: "int \<Rightarrow> 32 word" where
  "rand_mark r = word_of_int (r mod 100)"

definition port_bytes :: "endian \<Rightarrow> string" where
  "port_bytes e = store16 e (htons e (word_of_nat RCVPORT))"

definition fill_fixed :: "endian \<Rightarrow> int \<Rightarrow> int \<Rightarrow> string \<Rightarrow> string option" where
  "fill_fixed e r1 r2 buf = do {
     buf \<leftarrow> strcpy_at 0 NAMESIZE ''Alaon'' buf;
     let buf = put_at NAMESIZE (store32 e (htonl e (rand_mark r1))) buf;
     Some (put_at (NAMESIZE + 4) (store32 e (htonl e (rand_mark r2))) buf) }"

definition snder_basic :: "endian \<Rightarrow> net_env \<Rightarrow> nat \<Rightarrow> string \<Rightarrow> int \<Rightarrow> int \<Rightarrow> (int \<times> net_call list) option" where
  "snder_basic e E argc addr r1 r2 =
     (if argc < 2 then Some (1, [])
      else try_call (r_socket E) Socket (
        case fill_fixed e r1 r2 (replicate MSG_SIZE NUL) of
          None \<Rightarrow> None
        | Some d \<Rightarrow> try_call (r_send E) (SendTo addr (port_bytes e) d) (Some (0, [Puts ''OK!'', Close]))))"

text \<open>\<open>bcast\<close> and \<open>mcast\<close> set an option of the socket and do not clear the record: \<open>buf\<close> is what was on the stack.\<close>

definition snder_group :: "string \<Rightarrow> string \<Rightarrow> endian \<Rightarrow> net_env \<Rightarrow> string \<Rightarrow> int \<Rightarrow> int \<Rightarrow> (int \<times> net_call list) option" where
  "snder_group opt addr e E buf r1 r2 =
     try_call (r_socket E) Socket (try_call (r_opt E) (SetOpt opt) (
        case fill_fixed e r1 r2 buf of
          None \<Rightarrow> None
        | Some d \<Rightarrow> try_call (r_send E) (SendTo addr (port_bytes e) d) (Some (0, [Puts ''OK!'', Close]))))"

definition snder_bcast :: "endian \<Rightarrow> net_env \<Rightarrow> string \<Rightarrow> int \<Rightarrow> int \<Rightarrow> (int \<times> net_call list) option" where
  "snder_bcast = snder_group ''SO_BROADCAST'' ''255.255.255.255''"

definition snder_mcast :: "endian \<Rightarrow> net_env \<Rightarrow> string \<Rightarrow> int \<Rightarrow> int \<Rightarrow> (int \<times> net_call list) option" where
  "snder_mcast = snder_group ''IP_MULTICAST_IF'' ''224.2.2.2''"

definition fill_var :: "endian \<Rightarrow> int \<Rightarrow> int \<Rightarrow> string \<Rightarrow> string \<Rightarrow> string option" where
  "fill_var e r1 r2 nam buf = do {
     buf \<leftarrow> strcpy_at 8 (length buf - 8) nam buf;
     let buf = put_at 0 (store32 e (htonl e (rand_mark r1))) buf;
     Some (put_at 4 (store32 e (htonl e (rand_mark r2))) buf) }"

text \<open>\<open>mem\<close> is what \<open>malloc\<close> returns for a size: nothing, or that many bytes.\<close>

definition snder_var :: "endian \<Rightarrow> net_env \<Rightarrow> (nat \<Rightarrow> string option) \<Rightarrow> nat \<Rightarrow> string \<Rightarrow> string \<Rightarrow> int \<Rightarrow> int \<Rightarrow> (int \<times> net_call list) option" where
  "snder_var e E mem argc addr nam r1 r2 =
     (if argc < 3 then Some (1, [])
      else case mem (VAR_SIZE + length nam) of
          None \<Rightarrow> Some (1, [])
        | Some buf \<Rightarrow> try_call (r_socket E) Socket (
            if NAMEMAX < length nam then Some (1, [])
            else case fill_var e r1 r2 nam buf of
                None \<Rightarrow> None
              | Some d \<Rightarrow> try_call (r_send E) (SendTo addr (port_bytes e) d) (Some (0, [Puts ''OK!'', Close, Free]))))"

section \<open>Receivers\<close>

text \<open>The results of \<open>recvfrom\<close>, which the receivers do not look at: the address, the bytes of the port and the datagram.\<close>

datatype rcv = Rcv string string string | Rcv_fail

text \<open>A datagram longer than the buffer is cut, a shorter one leaves the rest of the buffer as it was.\<close>

definition receive :: "string \<Rightarrow> string \<Rightarrow> string" where
  "receive buf d = take (length buf) d @ drop (length d) buf"

definition marks_text :: "string \<Rightarrow> int \<Rightarrow> int \<Rightarrow> string" where
  "marks_text nam m c = ''NAME = '' @ nam @ ''\<newline>MATH = '' @ sdec m @ ''\<newline>CHINESE = '' @ sdec c @ ''\<newline>''"

definition show_fixed :: "endian \<Rightarrow> string \<Rightarrow> string option" where
  "show_fixed e buf = do {
     nam \<leftarrow> c_str (get_at 0 NAMESIZE buf);
     Some (marks_text nam (sint (ntohl e (load32 e (get_at NAMESIZE 4 buf)))) (sint (ntohl e (load32 e (get_at (NAMESIZE + 4) 4 buf))))) }"

definition show_var :: "endian \<Rightarrow> string \<Rightarrow> string option" where
  "show_var e buf = do {
     nam \<leftarrow> c_str (drop 8 buf);
     Some (marks_text nam (sint (ntohl e (load32 e (get_at 0 4 buf)))) (sint (ntohl e (load32 e (get_at 4 4 buf))))) }"

definition from_text :: "string \<Rightarrow> int \<Rightarrow> string" where
  "from_text ip port = ''---MESSAGE FROM '' @ ip @ '':'' @ sdec port @ ''---\<newline>''"

text \<open>The loop of a receiver over the results of its calls; \<open>peer\<close> is the sender's address as left by the last successful call.\<close>

fun recver_loop ::
  "(endian \<Rightarrow> string \<Rightarrow> string option) \<Rightarrow> endian \<Rightarrow> string \<Rightarrow> (string \<times> string) option \<Rightarrow> rcv list \<Rightarrow> string option" where
  "recver_loop shw e buf peer [] = Some []"
| "recver_loop shw e buf peer (r # rs) =
     (let (buf, peer) = (case r of Rcv ip port d \<Rightarrow> (receive buf d, Some (ip, port)) | Rcv_fail \<Rightarrow> (buf, peer))
      in do {
        (ip, port) \<leftarrow> peer;
        body \<leftarrow> shw e buf;
        out \<leftarrow> recver_loop shw e buf peer rs;
        Some (from_text ip (uint (ntohs e (load16 e port))) @ body @ out) })"

text \<open>A receiver up to the end of the results: its calls, and its exit status or what it has printed.\<close>

definition recver_main ::
  "(endian \<Rightarrow> string \<Rightarrow> string option) \<Rightarrow> string option \<Rightarrow> endian \<Rightarrow> net_env \<Rightarrow> string \<Rightarrow> rcv list \<Rightarrow> (net_call list \<times> (int + string)) option" where
  "recver_main shw opt e E buf rs =
     (let opts = (case opt of None \<Rightarrow> [] | Some n \<Rightarrow> [SetOpt n]); bnd = Bind ''0.0.0.0'' (port_bytes e) in
      if r_socket E < 0 then Some ([Socket], Inl 1)
      else if opt \<noteq> None \<and> r_opt E < 0 then Some (Socket # opts, Inl 1)
      else if r_bind E < 0 then Some (Socket # opts @ [bnd], Inl 1)
      else map_option (\<lambda>out. (Socket # opts @ [bnd], Inr out)) (recver_loop shw e buf None rs))"

definition recver_basic :: "endian \<Rightarrow> net_env \<Rightarrow> string \<Rightarrow> rcv list \<Rightarrow> (net_call list \<times> (int + string)) option" where
  "recver_basic = recver_main show_fixed None"

definition recver_bcast :: "endian \<Rightarrow> net_env \<Rightarrow> string \<Rightarrow> rcv list \<Rightarrow> (net_call list \<times> (int + string)) option" where
  "recver_bcast = recver_main show_fixed (Some ''SO_BROADCAST'')"

definition recver_mcast :: "endian \<Rightarrow> net_env \<Rightarrow> string \<Rightarrow> rcv list \<Rightarrow> (net_call list \<times> (int + string)) option" where
  "recver_mcast = recver_main show_fixed (Some ''IP_ADD_MEMBERSHIP'')"

definition recver_var :: "endian \<Rightarrow> net_env \<Rightarrow> (nat \<Rightarrow> string option) \<Rightarrow> rcv list \<Rightarrow> (net_call list \<times> (int + string)) option" where
  "recver_var e E mem rs = (case mem (VAR_SIZE + NAMEMAX - 1) of
       None \<Rightarrow> Some ([], Inl 1)
     | Some buf \<Rightarrow> recver_main show_var None e E buf rs)"


section \<open>What arrives\<close>

lemma sint_rand_mark: "0 \<le> r \<Longrightarrow> sint (rand_mark r) = r mod 100"
proof -
  assume "0 \<le> r"
  then have "0 \<le> r mod 100" "r mod 100 < 100" by simp_all
  then show ?thesis unfolding rand_mark_def by (simp add: signed_of_int signed_take_bit_int_eq_self)
qed

text \<open>The bytes of the port are 0x07 and 0xC5 in this order on every host, and a port is printed as the number that was stored.\<close>

lemma port_bytes_wire: "port_bytes e = [CHR 0x07, CHR 0xC5]"
proof -
  have "char_of (of_char CHR 0xC5 :: nat) = CHR 0xC5" "char_of (of_char CHR 0x07 :: nat) = CHR 0x07" by (rule char_of_char)+
  then have "char_of (1989 mod 256 :: nat) = CHR 0xC5" "char_of (7 :: nat) = CHR 0x07" by simp_all
  then have "char_of (1989 :: nat) = CHR 0xC5" "char_of (7 :: nat) = CHR 0x07" by (simp_all only: char_of_mod_256)
  moreover have "le_bytes 2 1989 = [char_of (1989 :: nat), char_of (7 :: nat)]"
    by (simp add: numeral_2_eq_2 le_bytes_Suc) (simp add: le_bytes_def)
  moreover have "unat (word_of_nat RCVPORT :: 16 word) = 1989" by simp
  ultimately show ?thesis unfolding port_bytes_def store16_htons by (simp add: store16_def in_order_def)
qed

lemma port_read: "length port = 2 \<Longrightarrow> ntohs e (load16 e port) = load16 Big port"
proof -
  assume l: "length port = 2"
  have "store16 e (htons e (load16 Big port)) = store16 Big (load16 Big port)" by (rule store16_htons)
  then have p: "port = store16 e (htons e (load16 Big port))" using store16_load16 [OF l] by simp
  have tw: "htons e (htons e x) = x" for x
  proof (cases e)
    case Little
    have "rev (store16 Little (htons Little x)) = store16 Little x"
      using store16_htons [of Little x] by (simp add: store16_def in_order_def)
    with Little show ?thesis by (simp add: htons_def load16_store16)
  qed (simp add: htons_def)
  show ?thesis by (subst p) (simp add: load16_store16 tw)
qed

lemma put_at_length: "off + length bs \<le> length buf \<Longrightarrow> length (put_at off bs buf) = length buf"
  by (simp add: put_at_def)

lemma get_put_before: "off + n \<le> off' \<Longrightarrow> off' \<le> length buf \<Longrightarrow> get_at off n (put_at off' bs buf) = get_at off n buf"
  by (simp add: get_at_def put_at_def take_drop min_def)

lemma receive_whole: "length d = length buf \<Longrightarrow> receive buf d = d"
  by (simp add: receive_def)

lemma fill_fixed_eq:
  assumes "length buf = MSG_SIZE" "0 \<le> r1" "0 \<le> r2"
  shows "\<exists>d. fill_fixed e r1 r2 buf = Some d \<and> length d = MSG_SIZE
    \<and> show_fixed e' d = Some (marks_text ''Alaon'' (r1 mod 100) (r2 mod 100))
    \<and> get_at 6 5 d = get_at 6 5 buf"
proof -
  let ?n = "\<lambda>x. store32 e (htonl e x)"
  define b0 where "b0 = put_at 0 (''Alaon'' @ [NUL]) buf"
  define b1 where "b1 = put_at 11 (?n (rand_mark r1)) b0"
  define b2 where "b2 = put_at 15 (?n (rand_mark r2)) b1"
  have l: "length b0 = 19" "length b1 = 19" "length b2 = 19"
    using assms(1) by (simp_all add: b2_def b1_def b0_def put_at_length MSG_SIZE_def)
  have f: "fill_fixed e r1 r2 buf = Some b2" by (simp add: fill_fixed_def strcpy_at_def b0_def b1_def b2_def)
  have g1: "ntohl e' (load32 e' (get_at 11 4 b2)) = rand_mark r1"
    using net32.get_other [of 15 b1 11 4 e] net32.get_put [of 11 b0 e' e] l by (simp add: b2_def b1_def)
  have g2: "ntohl e' (load32 e' (get_at 15 4 b2)) = rand_mark r2"
    using net32.get_put [of 15 b1 e' e] l by (simp add: b2_def)
  have g0: "get_at 0 11 b2 = get_at 0 11 b0" "get_at 6 5 b2 = get_at 6 5 b0"
    using get_put_before [of _ _ 15 b1] get_put_before [of _ _ 11 b0] l by (simp_all add: b2_def b1_def)
  have n: "c_str (get_at 0 11 b0) = Some ''Alaon''"
    using c_str_zero [of "''Alaon''" "take 5 (drop 6 buf)"] by (simp add: b0_def put_at_def get_at_def numeral_eq_Suc)
  have "show_fixed e' b2 = Some (marks_text ''Alaon'' (r1 mod 100) (r2 mod 100))"
    using g1 g2 g0 n assms(2,3) by (simp add: show_fixed_def sint_rand_mark)
  moreover have "get_at 6 5 b0 = get_at 6 5 buf" by (simp add: b0_def put_at_def get_at_def numeral_eq_Suc)
  ultimately show ?thesis using f l g0 by (simp add: MSG_SIZE_def)
qed

lemma fill_var_eq:
  assumes "length buf = VAR_SIZE + length nam" "0 \<le> r1" "0 \<le> r2"
  shows "\<exists>m. fill_var e r1 r2 nam buf = Some (m @ nam @ [NUL]) \<and> length m = 8
    \<and> sint (ntohl e' (load32 e' (get_at 0 4 m))) = r1 mod 100 \<and> sint (ntohl e' (load32 e' (get_at 4 4 m))) = r2 mod 100"
proof -
  let ?n = "\<lambda>x. store32 e (htonl e x)"
  let ?m = "?n (rand_mark r1) @ ?n (rand_mark r2)"
  have "drop (9 + length nam) buf = []" using assms(1) by (simp add: VAR_SIZE_def)
  then have "fill_var e r1 r2 nam buf = Some (?m @ nam @ [NUL])"
    using assms(1) by (simp add: fill_var_def strcpy_at_def put_at_def VAR_SIZE_def)
  moreover have "get_at 0 4 ?m = ?n (rand_mark r1)" "get_at 4 4 ?m = ?n (rand_mark r2)" by (simp_all add: get_at_def)
  ultimately show ?thesis using assms(2,3) by (intro exI [of _ ?m]) (simp add: net32.dec_enc sint_rand_mark)
qed

lemma recver_step:
  assumes "shw e (receive buf d) = Some body" "length port = 2"
  shows "recver_loop shw e buf peer (Rcv ip port d # rs) =
    map_option (\<lambda>out. from_text ip (uint (load16 Big port)) @ body @ out) (recver_loop shw e (receive buf d) (Some (ip, port)) rs)"
  using assms by (cases "recver_loop shw e (receive buf d) (Some (ip, port)) rs") (simp_all add: port_read)


text \<open>\<open>d\<close> was handed to \<open>sendto\<close>.\<close>

definition sends :: "(int \<times> net_call list) option \<Rightarrow> string \<Rightarrow> bool" where
  "sends r d \<longleftrightarrow> (\<exists>n cs addr. r = Some (n, cs) \<and> SendTo addr [CHR 0x07, CHR 0xC5] d \<in> set cs)"

lemma sends_try_call [simp]:
  "sends (try_call r c k) d \<longleftrightarrow> (\<exists>addr. c = SendTo addr [CHR 0x07, CHR 0xC5] d) \<and> (r < 0 \<or> k \<noteq> None) \<or> 0 \<le> r \<and> sends k d"
  by (cases k) (auto simp: sends_def try_call_def)

lemma sends_end [simp]: "\<not> sends None d" "sends (Some (n, cs)) d \<longleftrightarrow> (\<exists>addr. SendTo addr [CHR 0x07, CHR 0xC5] d \<in> set cs)"
  by (auto simp: sends_def)

definition fixed_sent :: "string \<Rightarrow> int \<Rightarrow> int \<Rightarrow> bool" where
  "fixed_sent d a b \<longleftrightarrow> 0 \<le> a \<and> 0 \<le> b \<and> ((\<exists>e E argc addr. sends (snder_basic e E argc addr a b) d)
     \<or> (\<exists>e E buf. length buf = MSG_SIZE \<and> (sends (snder_bcast e E buf a b) d \<or> sends (snder_mcast e E buf a b) d)))"

definition var_sent :: "string \<Rightarrow> string \<Rightarrow> int \<Rightarrow> int \<Rightarrow> bool" where
  "var_sent d nam a b \<longleftrightarrow> 0 \<le> a \<and> 0 \<le> b \<and> NUL \<notin> set nam
     \<and> (\<exists>e E mem argc addr. (\<forall>n m. mem n = Some m \<longrightarrow> length m = n) \<and> sends (snder_var e E mem argc addr nam a b) d)"

lemma fixed_sent_shown:
  assumes "fixed_sent d a b"
  shows "length d = MSG_SIZE \<and> show_fixed e d = Some (marks_text ''Alaon'' (a mod 100) (b mod 100))"
proof -
  have "\<exists>e' buf. length buf = MSG_SIZE \<and> fill_fixed e' a b buf = Some d"
    using assms
    by (auto simp: fixed_sent_def snder_basic_def snder_bcast_def snder_mcast_def snder_group_def split: if_splits option.splits)
      (metis length_replicate)+
  then obtain e' buf where "length buf = MSG_SIZE" "fill_fixed e' a b buf = Some d" by blast
  with fill_fixed_eq [of buf a b e' e] assms show ?thesis by (auto simp: fixed_sent_def)
qed

lemma var_sent_shape:
  assumes "var_sent d nam a b"
  shows "\<exists>m. d = m @ nam @ [NUL] \<and> length m = 8 \<and> length nam \<le> NAMEMAX \<and> NUL \<notin> set nam
    \<and> sint (ntohl e (load32 e (get_at 0 4 m))) = a mod 100 \<and> sint (ntohl e (load32 e (get_at 4 4 m))) = b mod 100"
proof -
  obtain e' buf where b: "length buf = VAR_SIZE + length nam" "fill_var e' a b nam buf = Some d" "length nam \<le> NAMEMAX"
    using assms by (fastforce simp: var_sent_def snder_var_def split: if_splits option.splits)
  with fill_var_eq [OF b(1), of a b e' e] assms show ?thesis by (auto simp: var_sent_def)
qed

lemma recver_loop_all:
  assumes "\<forall>(ip, port, d, t) \<in> set ms. length port = 2 \<and> (\<forall>buf. length buf = n \<longrightarrow> length (receive buf d) = n \<and> shw e (receive buf d) = Some t)"
    and "length buf = n"
  shows "recver_loop shw e buf peer (map (\<lambda>(ip, port, d, t). Rcv ip port d) ms) =
    Some (concat (map (\<lambda>(ip, port, d, t). from_text ip (uint (load16 Big port)) @ t) ms))"
  using assms
proof (induction ms arbitrary: buf peer)
  case (Cons m ms)
  obtain ip port d t where m: "m = (ip, port, d, t)" by (cases m)
  with Cons.prems have "length port = 2" "length (receive buf d) = n" "shw e (receive buf d) = Some t" by auto
  with Cons.IH [of "receive buf d" "Some (ip, port)"] Cons.prems(1) show ?case
    by (simp add: m recver_step del: recver_loop.simps(2))
qed simp


lemma var_sent_shown:
  assumes "var_sent d nam a b" "length buf = VAR_SIZE + NAMEMAX - 1"
  shows "length (receive buf d) = length buf \<and>
    show_var e (receive buf d) = (if length nam < NAMEMAX then Some (marks_text nam (a mod 100) (b mod 100)) else None)"
proof -
  obtain m where m: "d = m @ nam @ [NUL]" "length m = 8" "length nam \<le> NAMEMAX" "NUL \<notin> set nam"
    "sint (ntohl e (load32 e (get_at 0 4 m))) = a mod 100" "sint (ntohl e (load32 e (get_at 4 4 m))) = b mod 100"
    using var_sent_shape [OF assms(1), of e] by blast
  show ?thesis
  proof (cases "length nam < NAMEMAX")
    case True
    then have r: "receive buf d = m @ nam @ NUL # drop (length d) buf"
      using m assms(2) by (simp add: receive_def VAR_SIZE_def)
    have "get_at 0 4 (receive buf d) = get_at 0 4 m" "get_at 4 4 (receive buf d) = get_at 4 4 m"
      using m(2) by (simp_all add: r get_at_def)
    moreover have "c_str (drop 8 (receive buf d)) = Some nam" using m(2,4) by (simp add: r)
    moreover have "length (receive buf d) = length buf" using True m(1,2) assms(2) by (simp add: receive_def VAR_SIZE_def)
    ultimately show ?thesis using True m(5,6) by (simp add: show_var_def)
  next
    case False
    then have r: "receive buf d = m @ nam" using m(1-3) assms(2) by (simp add: receive_def VAR_SIZE_def)
    have "c_str (drop 8 (receive buf d)) = None" using m(2,4) by (simp add: r c_str_none)
    then show ?thesis using False m(2,3) assms(2) r by (simp add: show_var_def VAR_SIZE_def)
  qed
qed

definition net_fine :: net_env where
  "net_fine = \<lparr>r_socket = 3, r_opt = 0, r_bind = 0, r_send = 19\<rparr>"

definition net_good :: "net_env \<Rightarrow> bool" where
  "net_good E \<longleftrightarrow> 0 \<le> r_socket E \<and> 0 \<le> r_opt E \<and> 0 \<le> r_bind E \<and> 0 \<le> r_send E"

text \<open>The datagrams that reached a receiver, with what they are to be shown as.\<close>

definition arrivals :: "(string \<times> string \<times> string \<times> 'a) list \<Rightarrow> rcv list" where
  "arrivals = map (\<lambda>(ip, port, d, t). Rcv ip port d)"

definition shown :: "('a \<Rightarrow> string) \<Rightarrow> (string \<times> string \<times> string \<times> 'a) list \<Rightarrow> string" where
  "shown f ms = concat (map (\<lambda>(ip, port, d, t). from_text ip (uint (load16 Big port)) @ f t) ms)"

lemma recver_main_shows:
  assumes "net_good E" "length buf = n"
    and "\<And>ip port d t b. (ip, port, d, t) \<in> set ms \<Longrightarrow> length b = n \<Longrightarrow>
      length port = 2 \<and> length (receive b d) = n \<and> shw e (receive b d) = Some (f t)"
  shows "\<exists>cs. recver_main shw opt e E buf (arrivals ms) = Some (cs, Inr (shown f ms))"
proof -
  have "\<forall>(ip, port, d, t) \<in> set (map (\<lambda>(ip, port, d, t). (ip, port, d, f t)) ms).
      length port = 2 \<and> (\<forall>b. length b = n \<longrightarrow> length (receive b d) = n \<and> shw e (receive b d) = Some t)"
  proof -
    have "length port = 2 \<and> (\<forall>b. length b = n \<longrightarrow> length (receive b d) = n \<and> shw e (receive b d) = Some (f t))"
      if "(ip, port, d, t) \<in> set ms" for ip port d t
      using assms(3) [OF that length_replicate [of n NUL]] assms(3) [OF that] by blast
    then show ?thesis by auto
  qed
  with recver_loop_all [where n = n and buf = buf and peer = None and shw = shw and e = e
      and ms = "map (\<lambda>(ip, port, d, t). (ip, port, d, f t)) ms"] assms(1,2) show ?thesis
    by (simp add: recver_main_def net_good_def arrivals_def shown_def comp_def split_def Let_def)
qed





end
