(* ===== verification/DiskUsage.thy ===== *)
theory DiskUsage
  imports Decimal
begin

text \<open>
  The two programs that add up the blocks of a directory tree: \<open>io/fs/mydu.c\<close> finds the entries of a directory with
  \<open>glob\<close>, \<open>io/fs/mydu_r.c\<close> with \<open>readdir\<close>. What the file system answers is a parameter. The lemmas: where it
  shows a finite tree, both programs return and print half the sum of its blocks; a directory that cannot be read ends
  the second program and is counted as if it were empty by the first.
\<close>

abbreviation PATHSIZE :: nat where "PATHSIZE \<equiv> 1024"

section \<open>The programs\<close>

text \<open>
  The file system during a run: what \<open>lstat\<close> says (is it a directory, its blocks; \<open>None\<close> is failure), the paths
  \<open>glob\<close> finds for a pattern (none when it fails), and the names \<open>readdir\<close> gives before it returns \<open>NULL\<close>
  (\<open>None\<close> when \<open>opendir\<close> fails).
\<close>

record file_system =
  lstat :: "string \<Rightarrow> (bool \<times> int) option"
  glob :: "string \<Rightarrow> string list"
  dirents :: "string \<Rightarrow> string list option"

text \<open>Results: \<open>Inl n\<close> is a call of \<open>exit(n)\<close>. Sums are of type \<open>int64_t\<close>.\<close>

definition c64 :: "int \<Rightarrow> int option" where
  "c64 i = (if - (2 ^ 63) \<le> i \<and> i < 2 ^ 63 then Some i else None)"

text \<open>
  \<open>strncat(nextpath, s, PATHSIZE)\<close> after \<open>strncpy(nextpath, path, PATHSIZE)\<close>: defined when both and a terminating zero fit in
  the array.
\<close>

definition path_cat :: "string \<Rightarrow> string \<Rightarrow> string option" where
  "path_cat path s = (if length path + length s < PATHSIZE then Some (path @ s) else None)"

definition path_noloop :: "string \<Rightarrow> int + bool" where
  "path_noloop path =
     (if CHR ''/'' \<notin> set path then Inl 1
      else let pos = rev (takeWhile (\<lambda>c. c \<noteq> CHR ''/'') (rev path))
           in Inr (\<not> (pos = ''.'' \<or> pos = ''..'')))"

text \<open>
  \<open>mydu\<close> of \<open>mydu.c\<close>. The argument \<open>Inl path\<close> is a call, \<open>Inr (acc, paths)\<close> the loop with the sum so far and the paths that are
  left.
\<close>

partial_function (option) mydu_run :: "file_system \<Rightarrow> string + int \<times> string list \<Rightarrow> (int + int) option" where
  "mydu_run fs x = (case x of
       Inl path \<Rightarrow> (case lstat fs path of
           None \<Rightarrow> Some (Inl 1)
         | Some (isdir, blocks) \<Rightarrow>
             if \<not> isdir then Some (Inr blocks)
             else do { p1 \<leftarrow> path_cat path ''/*'';
                       p2 \<leftarrow> path_cat path ''/.*'';
                       acc \<leftarrow> c64 (0 + blocks);
                       mydu_run fs (Inr (acc, glob fs p1 @ glob fs p2)) })
     | Inr (acc, paths) \<Rightarrow> (case paths of
           [] \<Rightarrow> Some (Inr acc)
         | p # ps \<Rightarrow> (case path_noloop p of
               Inl n \<Rightarrow> Some (Inl n)
             | Inr ok \<Rightarrow>
                 if ok then do { r \<leftarrow> mydu_run fs (Inl p);
                                 case r of Inl n \<Rightarrow> Some (Inl n)
                                 | Inr k \<Rightarrow> do { acc \<leftarrow> c64 (acc + k); mydu_run fs (Inr (acc, ps)) } }
                 else mydu_run fs (Inr (acc, ps)))))"

definition mydu :: "file_system \<Rightarrow> string \<Rightarrow> (int + int) option" where
  "mydu fs path = mydu_run fs (Inl path)"

text \<open>\<open>mydu\<close> of \<open>mydu_r.c\<close>: the loop has the names that are left.\<close>

partial_function (option) mydu_r_run ::
  "file_system \<Rightarrow> string + string \<times> int \<times> string list \<Rightarrow> (int + int) option" where
  "mydu_r_run fs x = (case x of
       Inl path \<Rightarrow> (case lstat fs path of
           None \<Rightarrow> Some (Inl 1)
         | Some (isdir, blocks) \<Rightarrow>
             if \<not> isdir then Some (Inr blocks)
             else (case dirents fs path of
                 None \<Rightarrow> Some (Inl 1)
               | Some names \<Rightarrow> do { acc \<leftarrow> c64 (0 + blocks); mydu_r_run fs (Inr (path, acc, names)) }))
     | Inr (path, acc, names) \<Rightarrow> (case names of
           [] \<Rightarrow> Some (Inr acc)
         | d_name # ns \<Rightarrow>
             if d_name \<noteq> ''.'' \<and> d_name \<noteq> ''..'' then do {
               nextpath \<leftarrow> path_cat path ''/'';
               nextpath \<leftarrow> path_cat nextpath d_name;
               r \<leftarrow> mydu_r_run fs (Inl nextpath);
               case r of Inl n \<Rightarrow> Some (Inl n)
               | Inr k \<Rightarrow> do { acc \<leftarrow> c64 (acc + k); mydu_r_run fs (Inr (path, acc, ns)) } }
             else mydu_r_run fs (Inr (path, acc, ns))))"

definition mydu_r :: "file_system \<Rightarrow> string \<Rightarrow> (int + int) option" where
  "mydu_r fs path = mydu_r_run fs (Inl path)"

text \<open>
  \<open>main\<close> of both programs, given the arguments and the function \<open>mydu\<close> of its file: what is printed and the exit
  status. Division by two truncates towards zero.
\<close>

definition du_main :: "(string \<Rightarrow> (int + int) option) \<Rightarrow> string list \<Rightarrow> (string \<times> int) option" where
  "du_main du argv =
     (if length argv < 2 then Some ('''', 1)
      else do { r \<leftarrow> du (argv ! 1);
                case r of Inl n \<Rightarrow> Some ('''', n)
                | Inr n64 \<Rightarrow> Some (sdec (sgn n64 * (\<bar>n64\<bar> div 2)) @ ''\<newline>'', 0) })"

definition mydu_main :: "file_system \<Rightarrow> string list \<Rightarrow> (string \<times> int) option" where
  "mydu_main fs argv = du_main (mydu fs) argv"

definition mydu_r_main :: "file_system \<Rightarrow> string list \<Rightarrow> (string \<times> int) option" where
  "mydu_r_main fs argv = du_main (mydu_r fs) argv"

section \<open>Trees of files\<close>

text \<open>A file or a directory with its blocks; \<open>Locked\<close> is a directory that cannot be read.\<close>

datatype fnode = File int | Locked int | Dir int "(string \<times> fnode) list"

fun blocks_of :: "fnode \<Rightarrow> int" where
  "blocks_of (File b) = b"
| "blocks_of (Locked b) = b"
| "blocks_of (Dir b es) = b + sum_list (map (\<lambda>(n, t). blocks_of t) es)"

fun readable :: "fnode \<Rightarrow> bool" where
  "readable (File b) = True"
| "readable (Locked b) = False"
| "readable (Dir b es) = list_all (\<lambda>(n, t). readable t) es"

definition child :: "string \<Rightarrow> string \<Rightarrow> string" where
  "child p n = p @ ''/'' @ n"

definition hidden :: "string \<Rightarrow> bool" where
  "hidden n \<longleftrightarrow> n \<noteq> [] \<and> hd n = CHR ''.''"

definition good_name :: "string \<Rightarrow> bool" where
  "good_name n \<longleftrightarrow> CHR ''/'' \<notin> set n \<and> n \<noteq> ''.'' \<and> n \<noteq> ''..''"

text \<open>
  The documented behaviour of the system calls where the path \<open>p\<close> leads to a node: \<open>readdir\<close> gives the names and the
  two dots in some order; \<open>glob\<close> of \<open>p/*\<close> the paths of the names without a dot in front, and of \<open>p/.*\<close>
  those with one. In a locked directory \<open>opendir\<close> fails and \<open>glob\<close> finds nothing.
\<close>

fun shows_node :: "file_system \<Rightarrow> string \<Rightarrow> fnode \<Rightarrow> bool" where
  "shows_node fs p (File b) \<longleftrightarrow> lstat fs p = Some (False, b) \<and> 0 \<le> b"
| "shows_node fs p (Locked b) \<longleftrightarrow> lstat fs p = Some (True, b) \<and> 0 \<le> b \<and>
     dirents fs p = None \<and> glob fs (p @ ''/*'') = [] \<and> glob fs (p @ ''/.*'') = []"
| "shows_node fs p (Dir b es) \<longleftrightarrow> lstat fs p = Some (True, b) \<and> 0 \<le> b \<and> list_all good_name (map fst es) \<and>
     mset (case dirents fs p of None \<Rightarrow> [] | Some ns \<Rightarrow> ns) = mset ([''.'', ''..''] @ map fst es) \<and>
     mset (glob fs (p @ ''/*'')) = mset (map (child p) (filter (Not \<circ> hidden) (map fst es))) \<and>
     mset (glob fs (p @ ''/.*'')) = mset (map (child p) ([''.'', ''..''] @ filter hidden (map fst es))) \<and>
     list_all (\<lambda>(n, t). shows_node fs (child p n) t) es"

text \<open>The paths of the tree below a path of the given length fit in the buffers.\<close>

fun paths_fit :: "nat \<Rightarrow> fnode \<Rightarrow> bool" where
  "paths_fit l (File b) = True"
| "paths_fit l (Locked b) \<longleftrightarrow> l + 3 < PATHSIZE"
| "paths_fit l (Dir b es) \<longleftrightarrow> l + 3 < PATHSIZE \<and>
     list_all (\<lambda>(n, t). l + 1 + length n < PATHSIZE \<and> paths_fit (l + 1 + length n) t) es"

section \<open>The first program\<close>

lemma path_noloop_child:
  assumes "CHR ''/'' \<notin> set n"
  shows "path_noloop (child p n) = Inr (n \<noteq> ''.'' \<and> n \<noteq> ''..'')"
proof -
  have "takeWhile (\<lambda>c. c \<noteq> CHR ''/'') (rev n @ CHR ''/'' # rev p) = rev n"
    using assms by (subst takeWhile_append2) auto
  then show ?thesis by (simp add: path_noloop_def child_def Let_def)
qed

lemma blocks_nonneg: "shows_node fs p t \<Longrightarrow> 0 \<le> blocks_of t"
proof (induction fs p t rule: shows_node.induct)
  case (3 fs p b es)
  then have "0 \<le> sum_list (map (\<lambda>(n, t). blocks_of t) es)"
    by (intro sum_list_nonneg) (fastforce simp: list_all_iff)
  with 3 show ?case by simp
qed auto

lemma c64_Some: "0 \<le> i \<Longrightarrow> i < 2 ^ 63 \<Longrightarrow> c64 i = Some i"
  by (simp add: c64_def)

text \<open>The loop over paths each of which is skipped or has a value.\<close>

lemma mydu_loop:
  assumes "\<forall>q\<in>set ps. path_noloop q = Inr (ok q) \<and> (ok q \<longrightarrow> mydu_run fs (Inl q) = Some (Inr (v q)) \<and> 0 \<le> v q)"
    and "0 \<le> acc" "acc + sum_list (map v (filter ok ps)) < 2 ^ 63"
  shows "mydu_run fs (Inr (acc, ps)) = Some (Inr (acc + sum_list (map v (filter ok ps))))"
  using assms
proof (induction ps arbitrary: acc)
  case (Cons q qs)
  have qs: "0 \<le> sum_list (map v (filter ok qs))" using Cons.prems(1) by (intro sum_list_nonneg) auto
  show ?case
  proof (cases "ok q")
    case True
    with Cons.prems have v: "mydu_run fs (Inl q) = Some (Inr (v q))" "path_noloop q = Inr True" "0 \<le> v q" by auto
    have "mydu_run fs (Inr (acc + v q, qs)) = Some (Inr (acc + v q + sum_list (map v (filter ok qs))))"
      using Cons.prems v True by (intro Cons.IH) (auto simp: add.assoc)
    moreover have "c64 (acc + v q) = Some (acc + v q)" using Cons.prems v qs True by (intro c64_Some) auto
    ultimately show ?thesis using v True by (simp add: mydu_run.simps [of fs "Inr (acc, q # qs)"])
  next
    case False
    with Cons.prems have "path_noloop q = Inr False" by auto
    with False Cons show ?thesis by (simp add: mydu_run.simps [of fs "Inr (acc, q # qs)"])
  qed
qed (simp add: mydu_run.simps)

lemma sum_list_mset_filter: "mset xs = mset ys \<Longrightarrow> sum_list (map v (filter ok xs)) = sum_list (map v (filter ok ys))"
  for v :: "'a \<Rightarrow> int"
  by (metis mset_filter mset_map sum_mset_sum_list)

lemma member_le_sum:
  fixes f :: "'a \<Rightarrow> int"
  assumes "x \<in> set xs" "\<forall>y\<in>set xs. 0 \<le> f y"
  shows "f x \<le> sum_list (map f xs)"
  using assms by (intro member_le_sum_list) auto

lemma image_mset_split:
  "image_mset f (filter_mset (\<lambda>x. \<not> P x) M) + image_mset f (filter_mset P M) = image_mset f M"
  by (metis add.commute image_mset_union multiset_partition)

definition run_value :: "(int + int) option \<Rightarrow> int" where
  "run_value r = (case r of Some (Inr k) \<Rightarrow> k | _ \<Rightarrow> 0)"

text \<open>What the assumptions about a directory say of its entries.\<close>

lemma entry_facts:
  assumes "shows_node fs p (Dir b es)" "paths_fit (length p) (Dir b es)" "blocks_of (Dir b es) < 2 ^ 63"
  shows "c64 b = Some b"
    and "(n, t) \<in> set es \<Longrightarrow> good_name n \<and> shows_node fs (child p n) t \<and> paths_fit (length (child p n)) t \<and>
           length p + 1 + length n < PATHSIZE \<and> 0 \<le> blocks_of t \<and> blocks_of t < 2 ^ 63"
proof -
  have es: "good_name n \<and> shows_node fs (child p n) t \<and> paths_fit (length (child p n)) t \<and>
      length p + 1 + length n < PATHSIZE \<and> 0 \<le> blocks_of t" if "(n, t) \<in> set es" for n t
    using assms that by (auto simp: list_all_iff child_def blocks_nonneg)
  then have nonneg: "\<forall>x\<in>set es. 0 \<le> (\<lambda>(n, t). blocks_of t) x" by auto
  have "blocks_of t < 2 ^ 63" if "(n, t) \<in> set es" for n t
    using member_le_sum [OF that nonneg] assms by simp
  with es show "(n, t) \<in> set es \<Longrightarrow> good_name n \<and> shows_node fs (child p n) t \<and> paths_fit (length (child p n)) t \<and>
      length p + 1 + length n < PATHSIZE \<and> 0 \<le> blocks_of t \<and> blocks_of t < 2 ^ 63" by blast
  show "c64 b = Some b"
    using assms sum_list_nonneg [of "map (\<lambda>(n, t). blocks_of t) es"] nonneg by (intro c64_Some) force+
qed

lemma mydu_counts:
  assumes "shows_node fs p t" "paths_fit (length p) t" "blocks_of t < 2 ^ 63"
  shows "mydu_run fs (Inl p) = Some (Inr (blocks_of t))"
  using assms
proof (induction fs p t rule: shows_node.induct)
  case (1 fs p b)
  then show ?case by (simp add: mydu_run.simps [of fs "Inl p"])
next
  case (2 fs p b)
  then show ?case
    by (simp add: mydu_run.simps [of fs "Inl p"] path_cat_def c64_Some mydu_run.simps [of fs "Inr (b, [])"])
next
  case (3 fs p b es)
  let ?v = "\<lambda>q. run_value (mydu_run fs (Inl q))" and ?ok = "\<lambda>q. path_noloop q = Inr True"
  let ?ps = "glob fs (p @ ''/*'') @ glob fs (p @ ''/.*'')"
  note entry = entry_facts [OF "3.prems"]
  have run: "mydu_run fs (Inl (child p n)) = Some (Inr (blocks_of t))" if "(n, t) \<in> set es" for n t
    using "3.IH" [OF that] entry(2) [OF that] that by auto
  have ok: "?ok (child p n)" if "(n, t) \<in> set es" for n t
    using entry(2) [OF that] by (simp add: path_noloop_child good_name_def)
  have dots: "path_noloop (child p ''.'') = Inr False" "path_noloop (child p ''..'') = Inr False"
    by (simp_all add: path_noloop_child)
  have perm: "mset ?ps = mset (map (child p) ([''.'', ''..''] @ map fst es))"
    using "3.prems" by (simp add: image_mset_split multiset.map_comp o_def)
  have "sum_list (map ?v (filter ?ok ?ps)) = sum_list (map ?v (filter ?ok (map (child p) ([''.'', ''..''] @ map fst es))))"
    by (rule sum_list_mset_filter [OF perm])
  also have "\<dots> = sum_list (map (\<lambda>(n, t). blocks_of t) es)"
  proof -
    have "filter (\<lambda>x. ?ok (child p (fst x))) es = es" using ok by (auto intro!: filter_True)
    moreover have "map (\<lambda>x. ?v (child p (fst x))) es = map (\<lambda>(n, t). blocks_of t) es"
      using run by (auto simp: run_value_def)
    ultimately show ?thesis using dots by (simp add: filter_map o_def cong: map_cong)
  qed
  finally have total: "b + sum_list (map ?v (filter ?ok ?ps)) = blocks_of (Dir b es)" by simp
  have set: "set ?ps = child p ` ({''.'', ''..''} \<union> fst ` set es)" 
    using arg_cong [OF perm, of set_mset] by (simp add: image_image)
  have "\<forall>q\<in>set ?ps. path_noloop q = Inr (?ok q) \<and> (?ok q \<longrightarrow> mydu_run fs (Inl q) = Some (Inr (?v q)) \<and> 0 \<le> ?v q)"
    unfolding set using ok run dots entry(2) by (auto simp: run_value_def)
  from mydu_loop [OF this, of b] total "3.prems"
  have "mydu_run fs (Inr (b, ?ps)) = Some (Inr (blocks_of (Dir b es)))" by simp
  with entry(1) show ?case using "3.prems" by (simp add: mydu_run.simps [of fs "Inl p"] path_cat_def)
qed

section \<open>The second program\<close>

text \<open>The loop over names each of which is a dot, a value, or ends the program.\<close>

abbreviation is_entry :: "string \<Rightarrow> bool" where
  "is_entry n \<equiv> n \<noteq> ''.'' \<and> n \<noteq> ''..''"

lemma mydu_r_loop:
  assumes "\<forall>n\<in>set ns. is_entry n \<longrightarrow> length p + 1 + length n < PATHSIZE \<and> 0 \<le> v n \<and>
      mydu_r_run fs (Inl (child p n)) = Some (if ok n then Inr (v n) else Inl 1)"
    and "0 \<le> acc" "acc + sum_list (map v (filter is_entry ns)) < 2 ^ 63"
  shows "mydu_r_run fs (Inr (p, acc, ns)) =
    Some (if \<forall>n\<in>set ns. is_entry n \<longrightarrow> ok n then Inr (acc + sum_list (map v (filter is_entry ns))) else Inl 1)"
  using assms
proof (induction ns arbitrary: acc)
  case (Cons n ns)
  have ns: "0 \<le> sum_list (map v (filter is_entry ns))" using Cons.prems(1) by (intro sum_list_nonneg) auto
  note unfold = mydu_r_run.simps [of fs "Inr (p, acc, n # ns)"]
  show ?case
  proof (cases "is_entry n")
    case True
    with Cons.prems have v: "mydu_r_run fs (Inl (child p n)) = Some (if ok n then Inr (v n) else Inl 1)" "0 \<le> v n"
      "length p + 1 + length n < PATHSIZE" by auto
    then have path: "path_cat p ''/'' = Some (p @ ''/'')" "path_cat (p @ ''/'') n = Some (child p n)"
      by (simp_all add: path_cat_def child_def)
    have "c64 (acc + v n) = Some (acc + v n)" using Cons.prems v ns True by (intro c64_Some) auto
    moreover have "mydu_r_run fs (Inr (p, acc + v n, ns)) = Some (if \<forall>n\<in>set ns. is_entry n \<longrightarrow> ok n
        then Inr (acc + v n + sum_list (map v (filter is_entry ns))) else Inl 1)"
      using Cons.prems v True by (intro Cons.IH) (auto simp: add.assoc)
    ultimately show ?thesis using True v path by (auto simp: unfold add.assoc)
  next
    case False
    with Cons show ?thesis by (auto simp: unfold)
  qed
qed (simp add: mydu_r_run.simps)

lemma mydu_r_counts:
  assumes "shows_node fs p t" "paths_fit (length p) t" "blocks_of t < 2 ^ 63"
  shows "mydu_r_run fs (Inl p) = Some (if readable t then Inr (blocks_of t) else Inl 1)"
  using assms
proof (induction fs p t rule: shows_node.induct)
  case (3 fs p b es)
  let ?r = "\<lambda>n. mydu_r_run fs (Inl (child p n))"
  let ?v = "\<lambda>n. run_value (?r n)" and ?ok = "\<lambda>n. ?r n \<noteq> Some (Inl 1)"
  obtain ns where ns: "dirents fs p = Some ns" "mset ns = mset ([''.'', ''..''] @ map fst es)"
    using "3.prems" by (auto split: option.splits)
  note entry = entry_facts [OF "3.prems"]
  have es: "good_name n" if "(n, t) \<in> set es" for n t using entry(2) [OF that] by simp
  have run: "?r n = Some (if readable t then Inr (blocks_of t) else Inl 1)" if "(n, t) \<in> set es" for n t
    using "3.IH" [OF that] entry(2) [OF that] that by auto
  have set: "set ns = {''.'', ''..''} \<union> fst ` set es"
    using arg_cong [OF ns(2), of set_mset] by simp
  have "is_entry m" if "m \<in> fst ` set es" for m
    using entry(2) [of m] that by (force simp: good_name_def)
  then have names: "filter is_entry (map fst es) = map fst es" by (intro filter_True ballI) (simp only: set_map simp_thms)
  have total: "sum_list (map ?v (filter is_entry ns)) = sum_list (map (?v \<circ> fst) es)"
    using sum_list_mset_filter [OF ns(2), of ?v is_entry] names by simp
  have "sum_list (map (?v \<circ> fst) es) \<le> sum_list (map (\<lambda>(n, t). blocks_of t) es)"
    using run entry(2) by (intro sum_list_mono) (auto simp: run_value_def)
  then have bound: "b + sum_list (map ?v (filter is_entry ns)) < 2 ^ 63" using total "3.prems" by simp
  have "\<forall>n\<in>set ns. is_entry n \<longrightarrow> length p + 1 + length n < PATHSIZE \<and> 0 \<le> ?v n \<and>
      ?r n = Some (if ?ok n then Inr (?v n) else Inl 1)"
    unfolding set using run entry(2) by (auto simp: run_value_def split: if_splits)
  from mydu_r_loop [OF this _ bound] "3.prems"
  have loop: "mydu_r_run fs (Inr (p, b, ns)) = Some (if \<forall>n\<in>set ns. is_entry n \<longrightarrow> ?ok n
      then Inr (b + sum_list (map ?v (filter is_entry ns))) else Inl 1)" by simp
  have "(\<forall>n\<in>set ns. is_entry n \<longrightarrow> ?ok n) \<longleftrightarrow> readable (Dir b es)"
    unfolding set using run es by (fastforce simp: list_all_iff good_name_def)
  moreover have "sum_list (map ?v (filter is_entry ns)) = sum_list (map (\<lambda>(n, t). blocks_of t) es)"
    if "readable (Dir b es)"
    unfolding total using run that by (intro arg_cong [where f = sum_list]) (auto simp: run_value_def list_all_iff)
  ultimately show ?case using "3.prems" ns loop entry(1) by (simp add: mydu_r_run.simps [of fs "Inl p"])
qed (simp_all add: mydu_r_run.simps [of fs "Inl p" for fs p])

section \<open>The property\<close>


definition example_fs :: file_system where
  "example_fs = \<lparr>
     lstat = (\<lambda>p. if p = ''d'' \<or> p = ''d/s'' then Some (True, 8) else if p = ''d/.a'' then Some (False, 16)
                 else if p = ''d/b'' then Some (False, 5) else None),
     glob = (\<lambda>p. if p = ''d/*'' then [''d/b'', ''d/s''] else if p = ''d/.*'' then [''d/.'', ''d/..'', ''d/.a''] else []),
     dirents = (\<lambda>p. if p = ''d'' then Some [''b'', ''.'', ''s'', ''.a'', ''..''] else None)\<rparr>"

definition example_tree :: fnode where
  "example_tree = Dir 8 [(''b'', File 5), (''.a'', File 16), (''s'', Locked 8)]"


end
