(* ===== verification/FileCount.thy ===== *)
theory FileCount
  imports Pthread Decimal
begin

text \<open>
  Twenty processes or threads that each add one to the number in a file: \<open>parallel/thread/posix/add.c\<close> (threads and a
  mutex), \<open>io/adv/lockf/add.c\<close> (processes and a lock of the file) and \<open>ipc/xsi/sem/add.c\<close> (processes and a semaphore of
  one unit). Processes are systems of threads here as well: they share nothing but the file and the lock, \<open>fork\<close> is the creation
  and \<open>wait\<close> the joining of a thread (the i-th \<open>wait\<close> returns when a further child has ended; which one makes no
  difference, since the parent only counts). The lemmas: under every scheduling no addition is lost, the programs cannot
  deadlock, and the text in the file is always that of a number.
\<close>

abbreviation PROCNUM :: nat where "PROCNUM \<equiv> 20"
abbreviation LINESIZE :: nat where "LINESIZE \<equiv> 1024"

section \<open>The file\<close>

text \<open>The contents of the file, and whether something undefined has happened.\<close>

record fshared =
  content :: string
  broken :: bool

text \<open>\<open>fgets\<close> of a file just opened; \<open>None\<close> at its end, when the buffer stays as it was: uninitialised.\<close>

definition fgets_first :: "string \<Rightarrow> string option" where
  "fgets_first f =
     (let l = takeWhile (\<lambda>c. c \<noteq> CHR ''\<newline>'') f; l = (if length l < length f then l @ ''\<newline>'' else l)
      in if f = [] then None else Some (take (LINESIZE - 1) l))"

definition atoi :: "string \<Rightarrow> int" where
  "atoi s = (case scan_lld s of None \<Rightarrow> 0 | Some (i, _) \<Rightarrow> i)"

text \<open>The text that \<open>fprintf(fp, "%d\n", atoi(linebuf) + 1)\<close> leaves in the buffer of the stream.\<close>

definition next_text :: "string \<Rightarrow> string option" where
  "next_text l = do { a \<leftarrow> cint (atoi l); b \<leftarrow> cint (a + 1); Some (sdec b @ ''\<newline>'') }"

text \<open>Writing the buffer at the beginning of the file does not cut what lies behind.\<close>

definition write_front :: "string \<Rightarrow> string \<Rightarrow> string" where
  "write_front t f = t @ drop (length t) f"

section \<open>The programs\<close>

datatype count_pc =
    M_for | M_spawn | M_inc | M_fail | M_jfor | M_join | M_jinc | M_end
  | T_open | T_gets | T_print | T_write | T_unlock | T_close | T_exit

text \<open>\<open>main\<close>; the exit of a process with threads ends them all, that of a parent process only itself.\<close>

definition add_main :: "bool \<Rightarrow> count_pc \<Rightarrow> int \<times> string \<Rightarrow> (count_pc, int \<times> string, fshared) instr" where
  "add_main thrs p l = (case l of (i, b) \<Rightarrow> (case p of
       M_for \<Rightarrow> Act (\<lambda>s. if i < int PROCNUM then (M_spawn, (i, b), s) else (M_jfor, (0, b), s))
     | M_spawn \<Rightarrow> Spawn (nat i + 1) M_inc M_fail
     | M_inc \<Rightarrow> Act (\<lambda>s. (M_for, (i + 1, b), s))
     | M_fail \<Rightarrow> if thrs then Halt 1 else Leave
     | M_jfor \<Rightarrow> Act (\<lambda>s. (if i < int PROCNUM then M_join else M_end, (i, b), s))
     | M_join \<Rightarrow> Join (nat i + 1) M_jinc
     | M_jinc \<Rightarrow> Act (\<lambda>s. (M_jfor, (i + 1, b), s))
     | M_end \<Rightarrow> if thrs then Halt 0 else Leave
     | _ \<Rightarrow> Halt 0))"

text \<open>
  \<open>thr_add\<close> and \<open>func_add\<close>, with a file that can be opened. The second local variable is \<open>linebuf\<close>, and after \<open>fprintf\<close> the buffer of the
  stream. It is written by \<open>fclose\<close> before the mutex is unlocked in the program with threads, by \<open>fflush\<close> in the others, which close
  the file, with nothing left to write, after unlocking. \<open>fseek\<close> only moves the position back to the beginning.
\<close>

definition add_one :: "bool \<Rightarrow> count_pc \<Rightarrow> int \<times> string \<Rightarrow> (count_pc, int \<times> string, fshared) instr" where
  "add_one thrs p l = (case l of (i, b) \<Rightarrow> (case p of
       T_open \<Rightarrow> Lock 0 T_gets
     | T_gets \<Rightarrow> Act (\<lambda>s. case fgets_first (content s) of
           None \<Rightarrow> (T_print, (i, b), s\<lparr>broken := True\<rparr>)
         | Some b' \<Rightarrow> (T_print, (i, b'), s))
     | T_print \<Rightarrow> Act (\<lambda>s. case next_text b of
           None \<Rightarrow> (T_write, (i, b), s\<lparr>broken := True\<rparr>)
         | Some b' \<Rightarrow> (T_write, (i, b'), s))
     | T_write \<Rightarrow> Act (\<lambda>s. (T_unlock, (i, b), s\<lparr>content := write_front b (content s)\<rparr>))
     | T_unlock \<Rightarrow> Unlock 0 (if thrs then T_exit else T_close)
     | T_close \<Rightarrow> Act (\<lambda>s. (T_exit, (i, b), s))
     | T_exit \<Rightarrow> Leave
     | _ \<Rightarrow> Halt 0))"

definition add_prog :: "bool \<Rightarrow> (count_pc, int \<times> string, fshared) program" where
  "add_prog thrs t p l = (if t = 0 then add_main thrs p l else add_one thrs p l)"

definition add_start :: "nat \<Rightarrow> count_pc \<times> int \<times> string" where
  "add_start u = (T_open, 0, [])"

definition add_init :: "string \<Rightarrow> (count_pc, int \<times> string, fshared) sys" where
  "add_init f = \<lparr>held = (\<lambda>_. None), thr = At M_for (0, []) # replicate PROCNUM Off, halted = None,
     shared = \<lparr>content = f, broken = False\<rparr>\<rparr>"

text \<open>The three programs.\<close>

definition thr_add_prog :: "(count_pc, int \<times> string, fshared) program" where
  "thr_add_prog = add_prog True"

definition lockf_add_prog :: "(count_pc, int \<times> string, fshared) program" where
  "lockf_add_prog = add_prog False"

definition sem_add_prog :: "(count_pc, int \<times> string, fshared) program" where
  "sem_add_prog = add_prog False"

section \<open>Numbers in the file\<close>

definition num_text :: "int \<Rightarrow> string" where
  "num_text i = sdec i @ ''\<newline>''"

lemma sdec_chars: "c \<in> set (sdec i) \<Longrightarrow> is_digit c \<or> c = CHR ''-''"
  using dec_digits by (auto simp: sdec_def split: if_splits)

lemma sdec_no_newline: "CHR ''\<newline>'' \<notin> set (sdec i)"
  using sdec_chars [of "CHR ''\<newline>''" i] by (auto simp: is_digit_def)

lemma num_text_length: "is_cint i \<Longrightarrow> length (num_text i) \<le> 21"
  using sdec_length [of i] by (simp add: num_text_def cint_range abs_less_iff)

lemma fgets_num: "is_cint i \<Longrightarrow> fgets_first (num_text i) = Some (num_text i)"
proof -
  assume i: "is_cint i"
  have "takeWhile (\<lambda>c. c \<noteq> CHR ''\<newline>'') (num_text i) = sdec i"
    unfolding num_text_def using sdec_no_newline [of i] by (subst takeWhile_append2) auto
  then show ?thesis using num_text_length [OF i] by (simp add: fgets_first_def Let_def) (simp add: num_text_def)
qed

lemma next_num: "is_cint i \<Longrightarrow> is_cint (i + 1) \<Longrightarrow> next_text (num_text i) = Some (num_text (i + 1))"
proof -
  assume i: "is_cint i" "is_cint (i + 1)"
  have "\<not> is_digit CHR ''\<newline>''" by (simp add: is_digit_def)
  then have "scan_lld (num_text i) = Some (i, ''\<newline>'')" unfolding num_text_def by (intro scan_sdec) simp
  with i show ?thesis by (simp add: next_text_def atoi_def num_text_def)
qed

lemma dec_mono: "m \<le> n \<Longrightarrow> length (dec m) \<le> length (dec n)"
proof (induction n arbitrary: m rule: dec.induct)
  case (1 n)
  show ?case
  proof (cases "n < 10")
    case True
    then show ?thesis using 1(2) by (simp add: dec.simps [of n] dec.simps [of m])
  next
    case False
    show ?thesis
    proof (cases "m < 10")
      case True
      then show ?thesis using False by (simp add: dec.simps [of n] dec.simps [of m] Suc_le_eq)
    next
      case m: False
      have "m div 10 \<le> n div 10" using 1(2) by (rule div_le_mono)
      with 1(1) [OF False this] False m show ?thesis by (simp add: dec.simps [of n] dec.simps [of m])
    qed
  qed
qed

lemma write_num: "0 \<le> i \<Longrightarrow> write_front (num_text (i + 1)) (num_text i) = num_text (i + 1)"
proof -
  assume i: "0 \<le> i"
  then have "length (num_text i) \<le> length (num_text (i + 1))"
    using dec_mono [OF nat_mono, of i "i + 1"] by (simp add: num_text_def sdec_def)
  then show ?thesis by (simp add: write_front_def)
qed


section \<open>The invariant\<close>

fun add_crit :: "count_pc \<Rightarrow> bool" where
  "add_crit T_gets = True"
| "add_crit T_print = True"
| "add_crit T_write = True"
| "add_crit T_unlock = True"
| "add_crit _ = False"

lemmas add_defs = add_prog_def add_main_def add_one_def

lemma add_lock: "add_prog thrs t p l = Lock m q \<Longrightarrow> t \<noteq> 0 \<and> p = T_open \<and> m = 0 \<and> q = T_gets"
  by (cases l; cases p) (simp_all add: add_defs split: if_splits)

lemma add_unlock: "add_prog thrs t p l = Unlock m q \<Longrightarrow> t \<noteq> 0 \<and> p = T_unlock \<and> m = 0 \<and> (q = T_exit \<or> q = T_close)"
  by (cases l; cases p) (auto simp: add_defs split: if_splits)

lemma add_never: "add_prog thrs t p l \<noteq> Wait m q" "add_prog thrs t p l \<noteq> Broadcast q" "add_prog thrs t p l \<noteq> Signal q"
  by (cases l; cases p; simp add: add_defs)+

lemma add_spawn: "add_prog thrs t p l = Spawn u q e \<Longrightarrow> t = 0 \<and> p = M_spawn \<and> u = nat (fst l) + 1 \<and> q = M_inc \<and> e = M_fail"
  by (cases l; cases p) (simp_all add: add_defs split: if_splits)

lemma add_join: "add_prog thrs t p l = Join u q \<Longrightarrow> t = 0 \<and> p = M_join \<and> u = nat (fst l) + 1 \<and> q = M_jinc"
  by (cases l; cases p) (simp_all add: add_defs split: if_splits)

lemma add_leave: "add_prog thrs t p l = Leave \<Longrightarrow> \<not> add_crit p"
  by (cases l; cases p) (auto simp: add_defs split: if_splits)

lemma add_act: "add_prog thrs t p l = Act f \<Longrightarrow> add_crit (fst (f sh)) = add_crit p"
  by (cases l; cases p) (auto simp: add_defs split: if_splits option.splits)

lemmas add_instrs = add_lock add_unlock add_spawn add_join add_leave

interpretation add_monitor: monitor "add_prog thrs" add_start add_crit
  by unfold_locales (auto dest!: add_instrs simp: add_never add_act add_start_def)

fun main_ok :: "(count_pc, int \<times> string) tstat \<Rightarrow> bool" where
  "main_ok (At M_for l) \<longleftrightarrow> 0 \<le> fst l \<and> fst l \<le> int PROCNUM"
| "main_ok (At M_jfor l) \<longleftrightarrow> 0 \<le> fst l \<and> fst l \<le> int PROCNUM"
| "main_ok (At M_end l) \<longleftrightarrow> fst l = int PROCNUM"
| "main_ok (At M_spawn l) \<longleftrightarrow> 0 \<le> fst l \<and> fst l < int PROCNUM"
| "main_ok (At M_inc l) \<longleftrightarrow> 0 \<le> fst l \<and> fst l < int PROCNUM"
| "main_ok (At M_fail l) \<longleftrightarrow> 0 \<le> fst l \<and> fst l < int PROCNUM"
| "main_ok (At M_join l) \<longleftrightarrow> 0 \<le> fst l \<and> fst l < int PROCNUM"
| "main_ok (At M_jinc l) \<longleftrightarrow> 0 \<le> fst l \<and> fst l < int PROCNUM"
| "main_ok Fin \<longleftrightarrow> True"
| "main_ok _ \<longleftrightarrow> False"

text \<open>How many have been created and joined.\<close>

fun created :: "count_pc \<Rightarrow> int \<Rightarrow> int" where
  "created M_for i = i"
| "created M_spawn i = i"
| "created M_inc i = i + 1"
| "created M_fail i = i"
| "created _ i = int PROCNUM"

fun joined :: "count_pc \<Rightarrow> int \<Rightarrow> int" where
  "joined M_jfor i = i"
| "joined M_join i = i"
| "joined M_jinc i = i + 1"
| "joined M_end i = i"
| "joined _ i = 0"

text \<open>What a thread has in its buffer when the number in the file is \<open>m\<close>.\<close>

fun add_ok :: "(count_pc, int \<times> string) tstat \<Rightarrow> int \<Rightarrow> bool" where
  "add_ok (At T_print l) m \<longleftrightarrow> snd l = num_text m"
| "add_ok (At T_write l) m \<longleftrightarrow> snd l = num_text (m + 1)"
| "add_ok (At p l) m \<longleftrightarrow> p \<in> {T_open, T_gets, T_unlock, T_close, T_exit}"
| "add_ok Off m \<longleftrightarrow> True"
| "add_ok Fin m \<longleftrightarrow> True"
| "add_ok _ m \<longleftrightarrow> False"

text \<open>Whether a thread has written its number.\<close>

fun past :: "(count_pc, int \<times> string) tstat \<Rightarrow> int" where
  "past (At T_unlock l) = 1"
| "past (At T_close l) = 1"
| "past (At T_exit l) = 1"
| "past Fin = 1"
| "past _ = 0"

abbreviation workers :: "nat set" where "workers \<equiv> {1..PROCNUM}"

definition added :: "(count_pc, int \<times> string, fshared) sys \<Rightarrow> int" where
  "added s = (\<Sum>t \<in> workers. past (thr s ! t))"

definition add_made :: "(count_pc, int \<times> string, fshared) sys \<Rightarrow> bool" where
  "add_made s \<longleftrightarrow> (\<forall>p l. thr s ! 0 = At p l \<longrightarrow> (\<forall>t \<in> workers. (thr s ! t = Off \<longleftrightarrow> created p (fst l) < int t)
     \<and> (int t \<le> joined p (fst l) \<longrightarrow> thr s ! t = Fin)))"

definition add_inv :: "int \<Rightarrow> (count_pc, int \<times> string, fshared) sys \<Rightarrow> bool" where
  "add_inv n s \<longleftrightarrow> length (thr s) = Suc PROCNUM \<and> excl add_crit s \<and> main_ok (thr s ! 0)
     \<and> (\<forall>t \<in> workers. add_ok (thr s ! t) (n + added s))
     \<and> content (shared s) = num_text (n + added s) \<and> \<not> broken (shared s) \<and> add_made s"

lemma past_range: "0 \<le> past st \<and> past st \<le> 1"
  by (cases st rule: past.cases) auto

lemma added_range: "0 \<le> added s \<and> added s \<le> int PROCNUM"
proof -
  have "(\<Sum>t \<in> workers. past (thr s ! t)) \<le> (\<Sum>t \<in> workers. 1)" by (rule sum_mono) (use past_range in auto)
  moreover have "0 \<le> (\<Sum>t \<in> workers. past (thr s ! t))" by (rule sum_nonneg) (use past_range in auto)
  ultimately show ?thesis by (simp add: added_def)
qed

lemma added_change:
  assumes "t \<in> workers" "\<And>u. u \<in> workers \<Longrightarrow> u \<noteq> t \<Longrightarrow> thr s' ! u = thr s ! u"
  shows "added s' = added s + past (thr s' ! t) - past (thr s ! t)"
  using sum_other [of workers t "\<lambda>u. past (thr s' ! u)" "\<lambda>u. past (thr s ! u)"] assms by (simp add: added_def)

lemma add_inv_init: "add_inv n (add_init (num_text n))"
proof -
  have th: "thr (add_init (num_text n)) ! u = (if u = 0 then At M_for (0, []) else Off)" if "u < Suc PROCNUM" for u
    using that by (simp add: add_init_def nth_Cons split: nat.split)
  then have z: "\<And>u. u \<in> workers \<Longrightarrow> thr (add_init (num_text n)) ! u = Off" "thr (add_init (num_text n)) ! 0 = At M_for (0, [])" by auto
  have "added (add_init (num_text n)) = 0" unfolding added_def by (rule sum.neutral) (use z in simp)
  moreover have "excl add_crit (add_init (num_text n))" using th by (simp add: excl_def add_init_def)
  moreover have "add_made (add_init (num_text n))" unfolding add_made_def using z by auto
  ultimately show ?thesis using z unfolding add_inv_def by (simp add: add_init_def)
qed


lemma add_frame:
  assumes f: "fire (add_prog thrs) add_start c t s = Some s'" and i: "add_inv n s"
    and u: "u \<in> workers" "u \<noteq> t" "t \<noteq> 0 \<or> (\<forall>l. thr s ! 0 \<noteq> At M_spawn l)"
  shows "thr s' ! u = thr s ! u"
proof -
  have "thr s' ! u = thr s ! u \<or> waiting (thr s ! u) \<and> thr s' ! u = wake (thr s ! u)"
  proof (rule fire_frame [OF f u(2)])
    fix p l v q e
    assume "thr s ! t = At p l" "add_prog thrs t p l = Spawn v q e"
    then show "u \<noteq> v" using add_spawn u(3) by blast
  qed (use u i in \<open>simp add: add_inv_def\<close>)
  moreover have "add_ok (thr s ! u) (n + added s)" using i u(1) by (simp add: add_inv_def)
  then have "\<not> waiting (thr s ! u)" by (cases "thr s ! u") auto
  ultimately show ?thesis by blast
qed

lemma add_main_frame:
  assumes f: "fire (add_prog thrs) add_start c t s = Some s'" and i: "add_inv n s" and t: "t \<in> workers"
  shows "thr s' ! 0 = thr s ! 0"
proof -
  have "thr s' ! 0 = thr s ! 0 \<or> waiting (thr s ! 0) \<and> thr s' ! 0 = wake (thr s ! 0)"
  proof (rule fire_frame [OF f])
    fix p l v q e
    assume "thr s ! t = At p l" "add_prog thrs t p l = Spawn v q e"
    then show "0 \<noteq> v" using add_spawn t by fastforce
  qed (use t i in \<open>auto simp: add_inv_def\<close>)
  moreover have "\<not> waiting (thr s ! 0)" using i unfolding add_inv_def by (cases "thr s ! 0") auto
  ultimately show ?thesis by blast
qed

text \<open>A step of one that adds.\<close>

lemma add_one_step:
  assumes "add_ok (At p l) m" "content sh = num_text m" "\<not> broken sh" "0 \<le> m" "past (At p l) = 0 \<Longrightarrow> m + 1 \<le> INT_MAX"
    and "after c p l (add_one thrs p l) sh = (st, sh')"
  shows "\<not> broken sh' \<and> st \<noteq> Off
    \<and> (if p = T_write then past st = 1 \<and> past (At p l) = 0 \<and> content sh' = num_text (m + 1) \<and> add_ok st (m + 1)
       else past st = past (At p l) \<and> content sh' = content sh \<and> add_ok st m)"
proof -
  obtain i b where l: "l = (i, b)" by (cases l)
  show ?thesis
  proof (cases "past (At p l) = 0")
    case True
    then have m: "is_cint m" "is_cint (m + 1)" using assms(4,5) by (simp_all add: cint_range)
    show ?thesis
      using assms(1-4,6) True fgets_num [OF m(1)] next_num [OF m] write_num [OF assms(4)]
      by (cases p) (auto simp: add_one_def l split: if_splits)
  next
    case False
    then have "p \<in> {T_unlock, T_close, T_exit}" by (cases p) auto
    then show ?thesis using assms(1-4,6) by (auto simp: add_one_def l split: if_splits)
  qed
qed

text \<open>All of the invariant but mutual exclusion.\<close>

definition add_rest :: "int \<Rightarrow> (count_pc, int \<times> string, fshared) sys \<Rightarrow> bool" where
  "add_rest n s \<longleftrightarrow> main_ok (thr s ! 0) \<and> (\<forall>t \<in> workers. add_ok (thr s ! t) (n + added s))
     \<and> content (shared s) = num_text (n + added s) \<and> \<not> broken (shared s) \<and> add_made s"

lemma add_ok_outside: "add_ok st m \<Longrightarrow> \<not> in_crit add_crit st \<Longrightarrow> add_ok st m'"
  by (cases "(st, m)" rule: add_ok.cases) auto

lemma add_inv_one:
  assumes i: "add_inv n s" and t: "t \<in> workers" and f: "fire (add_prog thrs) add_start c t s = Some s'"
    and n: "0 \<le> n" "n + int PROCNUM \<le> INT_MAX"
  shows "add_rest n s'"
proof -
  have l: "length (thr s) = Suc PROCNUM" "t \<noteq> 0" "t < length (thr s)" using i t by (auto simp: add_inv_def)
  have okt: "add_ok (thr s ! t) (n + added s)" using i t by (simp add: add_inv_def)
  obtain p k where At: "thr s ! t = At p k"
    using f okt by (cases "thr s ! t") (auto simp: fire_def split: if_splits)
  have af: "after c p k (add_one thrs p k) (shared s) = (thr s' ! t, shared s')"
    using fire_after [OF f At] l by (simp add: add_prog_def prod_eq_iff)
  have same: "thr s' ! u = thr s ! u" if "u \<in> workers" "u \<noteq> t" for u by (rule add_frame [OF f i that]) (use l in simp)
  have z: "thr s' ! 0 = thr s ! 0" by (rule add_main_frame [OF f i t])
  note ch = added_change [OF t same]
  have room: "n + added s + 1 \<le> INT_MAX" if "past (At p k) = 0"
  proof -
    have "added s = (\<Sum>u \<in> workers - {t}. past (thr s ! u))"
      using sum_other(2) [of workers t "\<lambda>u. past (thr s ! u)" "\<lambda>u. past (thr s ! u)"] t that At by (simp add: added_def)
    also have "\<dots> \<le> (\<Sum>u \<in> workers - {t}. 1)" by (rule sum_mono) (use past_range in auto)
    also have "\<dots> = int PROCNUM - 1" using t by simp
    finally show ?thesis using n by simp
  qed
  have own: "\<not> broken (shared s') \<and> thr s' ! t \<noteq> Off
    \<and> (if p = T_write then past (thr s' ! t) = 1 \<and> past (At p k) = 0 \<and> content (shared s') = num_text (n + added s + 1) \<and> add_ok (thr s' ! t) (n + added s + 1)
       else past (thr s' ! t) = past (At p k) \<and> content (shared s') = content (shared s) \<and> add_ok (thr s' ! t) (n + added s))"
    by (rule add_one_step [OF _ _ _ _ room af]) (use i okt At n added_range in \<open>auto simp: add_inv_def\<close>)
  have ad: "added s' = added s + (if p = T_write then 1 else 0)" using ch own At by simp
  have others: "add_ok (thr s' ! u) (n + added s')" if u: "u \<in> workers" for u
  proof (cases "u = t")
    case True
    then show ?thesis using own ad by (auto simp: algebra_simps)
  next
    case False
    have o: "add_ok (thr s ! u) (n + added s)" using i u by (simp add: add_inv_def)
    show ?thesis
    proof (cases "p = T_write")
      case True
      have "\<not> in_crit add_crit (thr s ! u)"
        using excl_unique [of add_crit s t u] i l u At True False by (auto simp: add_inv_def)
      then show ?thesis using add_ok_outside [OF o] same [OF u False] by simp
    next
      case False
      then show ?thesis using o ad same [OF u] \<open>u \<noteq> t\<close> by simp
    qed
  qed
  have "add_made s'"
    unfolding add_made_def
  proof (intro allI impI ballI)
    fix q l' u assume q: "thr s' ! 0 = At q l'" and u: "u \<in> workers"
    have "(thr s ! u = Off \<longleftrightarrow> created q (fst l') < int u) \<and> (int u \<le> joined q (fst l') \<longrightarrow> thr s ! u = Fin)"
      using i u q [unfolded z] unfolding add_inv_def add_made_def by blast
    then show "(thr s' ! u = Off \<longleftrightarrow> created q (fst l') < int u) \<and> (int u \<le> joined q (fst l') \<longrightarrow> thr s' ! u = Fin)"
      using same [OF u] own At by (cases "u = t") auto
  qed
  then show ?thesis using i own ad others z unfolding add_rest_def by (auto simp: add_inv_def algebra_simps)
qed


text \<open>A step of \<open>main\<close>.\<close>

lemma add_main_step:
  assumes "main_ok (At p l)" "p \<noteq> M_spawn" "after c p l (add_main thrs p l) sh = (st, sh')"
  shows "sh' = sh \<and> main_ok st \<and> (\<forall>q l'. st = At q l' \<longrightarrow> created q (fst l') = created p (fst l)
      \<and> (joined q (fst l') = joined p (fst l) \<or> p = M_join \<and> q = M_jinc \<and> l' = l))"
proof -
  obtain i b where l: "l = (i, b)" by (cases l)
  show ?thesis using assms by (cases p) (auto simp: add_main_def l split: if_splits)
qed

lemma add_madeD:
  assumes "add_inv n s" "thr s ! 0 = At p l" "t \<in> workers"
  shows "(thr s ! t = Off \<longleftrightarrow> created p (fst l) < int t) \<and> (int t \<le> joined p (fst l) \<longrightarrow> thr s ! t = Fin)"
  using assms unfolding add_inv_def add_made_def by blast

lemma add_inv_main:
  assumes i: "add_inv n s" and f: "fire (add_prog thrs) add_start c 0 s = Some s'" and ns: "\<forall>l. thr s ! 0 \<noteq> At M_spawn l"
  shows "add_rest n s'"
proof -
  have l: "0 < length (thr s)" using i by (simp add: add_inv_def)
  have mo: "main_ok (thr s ! 0)" using i by (simp add: add_inv_def)
  obtain p k where At: "thr s ! 0 = At p k"
    using f mo by (cases "thr s ! 0") (auto simp: fire_def split: if_splits)
  have af: "after c p k (add_main thrs p k) (shared s) = (thr s' ! 0, shared s')"
    using fire_after [OF f At] by (simp add: add_prog_def prod_eq_iff)
  have np: "p \<noteq> M_spawn" using ns At by blast
  have step: "shared s' = shared s \<and> main_ok (thr s' ! 0) \<and> (\<forall>q l'. thr s' ! 0 = At q l' \<longrightarrow> created q (fst l') = created p (fst k)
      \<and> (joined q (fst l') = joined p (fst k) \<or> p = M_join \<and> q = M_jinc \<and> l' = k))"
    by (rule add_main_step [OF _ np af]) (use mo At in simp)
  have same: "thr s' ! u = thr s ! u" if "u \<in> workers" for u by (rule add_frame [OF f i that]) (use that ns in auto)
  have ad: "added s' = added s" unfolding added_def using same by (intro sum.cong) auto
  have "add_made s'"
    unfolding add_made_def
  proof (intro allI impI ballI)
    fix q l' u assume q: "thr s' ! 0 = At q l'" and u: "u \<in> workers"
    note m = add_madeD [OF i At u]
    have cq: "created q (fst l') = created p (fst k)" using step q by blast
    have "int u \<le> joined q (fst l') \<longrightarrow> thr s ! u = Fin"
    proof (cases "joined q (fst l') = joined p (fst k)")
      case False
      then have pq: "p = M_join" "q = M_jinc" "l' = k" using step q by blast+
      have k: "0 \<le> fst k" using mo At pq by simp
      have "add_prog thrs 0 p k = Join (nat (fst k) + 1) M_jinc" using pq by (cases k) (simp add: add_prog_def add_main_def)
      moreover have "exec add_start c 0 k (add_prog thrs 0 p k) s = Some s'" using f At by (simp add: fire_def split: if_splits)
      ultimately have "thr s ! (nat (fst k) + 1) = Fin" by (simp add: exec_def split: if_splits)
      moreover have "u = nat (fst k) + 1" if "int u = fst k + 1" using that k by simp
      ultimately show ?thesis using m pq by (cases "int u = fst k + 1") auto
    qed (use m in simp)
    then show "(thr s' ! u = Off \<longleftrightarrow> created q (fst l') < int u) \<and> (int u \<le> joined q (fst l') \<longrightarrow> thr s' ! u = Fin)"
      using m cq same [OF u] by simp
  qed
  then show ?thesis using i step same ad unfolding add_rest_def by (simp add: add_inv_def)
qed

lemma add_inv_spawn:
  assumes i: "add_inv n s" and f: "fire (add_prog thrs) add_start c 0 s = Some s'" and k: "thr s ! 0 = At M_spawn k"
  shows "add_rest n s'"
proof -
  have l: "length (thr s) = Suc PROCNUM" using i by (simp add: add_inv_def)
  have kr: "0 \<le> fst k" "fst k < int PROCNUM" using i k by (auto simp: add_inv_def)
  let ?u = "nat (fst k) + 1"
  have prog: "add_prog thrs 0 M_spawn k = Spawn ?u M_inc M_fail" by (cases k) (simp add: add_prog_def add_main_def)
  have u: "?u \<in> workers" "int ?u = fst k + 1" using kr by auto
  have uo: "thr s ! ?u = Off" "?u \<noteq> 0" "?u < length (thr s)" using add_madeD [OF i k u(1)] u kr l by auto
  have z: "thr s' ! 0 = At (if c = Fail then M_fail else M_inc) k" "shared s' = shared s"
    using fire_after [OF f k] by (auto simp: prog)
  have su: "thr s' ! ?u = (if c = Fail then Off else At T_open (0, []))"
    using fire_spawn [OF f k prog uo(2,3)] uo(1) by (simp add: add_start_def)
  have same: "thr s' ! v = thr s ! v" if "v \<in> workers" "v \<noteq> ?u" for v
  proof -
    have "thr s' ! v = thr s ! v \<or> waiting (thr s ! v) \<and> thr s' ! v = wake (thr s ! v)"
      by (rule fire_frame [OF f]) (use that l k prog in auto)
    moreover have "add_ok (thr s ! v) (n + added s)" using i that(1) by (simp add: add_inv_def)
    then have "\<not> waiting (thr s ! v)" by (cases "thr s ! v") auto
    ultimately show ?thesis by blast
  qed
  have ad: "added s' = added s" using added_change [OF u(1) same] su uo(1) by simp
  have "add_ok (thr s' ! v) (n + added s')" if v: "v \<in> workers" for v
    using i v same [OF v] su ad by (cases "v = ?u") (auto simp: add_inv_def)
  moreover have "add_made s'"
    unfolding add_made_def
  proof (intro allI impI ballI)
    fix q l' v assume q: "thr s' ! 0 = At q l'" and v: "v \<in> workers"
    note m = add_madeD [OF i k v]
    have ql: "q = (if c = Fail then M_fail else M_inc)" "l' = k" using q z(1) by auto
    show "(thr s' ! v = Off \<longleftrightarrow> created q (fst l') < int v) \<and> (int v \<le> joined q (fst l') \<longrightarrow> thr s' ! v = Fin)"
    proof (cases "v = ?u")
      case True
      then show ?thesis using su ql u(2) v by auto
    next
      case False
      then have "fst k < int v \<longleftrightarrow> fst k + 1 < int v" using u(2) by linarith
      then show ?thesis using same [OF v False] m ql v by auto
    qed
  qed
  ultimately show ?thesis using i z ad kr unfolding add_rest_def by (simp add: add_inv_def)
qed

lemma add_spawn_off:
  assumes "add_inv n s"
  shows "add_monitor.spawn_off thrs s"
proof -
  have l: "length (thr s) = Suc PROCNUM" using assms by (simp add: add_inv_def)
  have "u < Suc PROCNUM \<and> thr s ! u = Off" if t: "thr s ! t = At p i" "add_prog thrs t p i = Spawn u q e" for t p i u q e
  proof -
    have p: "t = 0" "p = M_spawn" "u = nat (fst i) + 1" using add_spawn [OF t(2)] by auto
    then have "0 \<le> fst i" "fst i < int PROCNUM" using assms t(1) by (auto simp: add_inv_def)
    then have "u \<in> workers" "created p (fst i) < int u" using p by auto
    then show ?thesis using add_madeD [OF assms, of p i u] p t(1) by auto
  qed
  then show ?thesis using l unfolding add_monitor.spawn_off_def by auto
qed

lemma add_inv_fire:
  assumes i: "add_inv n s" and f: "fire (add_prog thrs) add_start c t s = Some s'" and n: "0 \<le> n" "n + int PROCNUM \<le> INT_MAX"
  shows "add_inv n s'"
proof -
  have ex: "excl add_crit s" "length (thr s) = Suc PROCNUM" using i by (simp_all add: add_inv_def)
  have "length (thr s') = Suc PROCNUM" using fire_length [OF f] ex(2) by simp
  moreover have "excl add_crit s'" by (rule add_monitor.excl_fire [OF ex(1) add_spawn_off [OF i] f])
  moreover have t: "t < Suc PROCNUM" using f ex(2) by (auto simp: fire_def split: if_splits)
  have "add_rest n s'"
  proof (cases "t = 0")
    case True
    then show ?thesis using add_inv_main [OF i] add_inv_spawn [OF i] f by blast
  next
    case False
    then show ?thesis using add_inv_one [OF i _ f n] t by simp
  qed
  ultimately show ?thesis unfolding add_inv_def add_rest_def by blast
qed


lemma add_reach_inv:
  assumes "reach (add_prog thrs) add_start (add_init (num_text n)) s" "0 \<le> n" "n + int PROCNUM \<le> INT_MAX"
  shows "add_inv n s"
  by (rule reach_inv [OF assms(1)]) (use add_inv_init add_inv_fire assms(2,3) in auto)

section \<open>No deadlock\<close>

lemma add_can_run:
  assumes i: "add_inv n s" and h: "halted s = None" and x: "t < length (thr s)" "thr s ! t \<noteq> Off" "thr s ! t \<noteq> Fin"
  shows "can_run (add_prog thrs) add_start s"
proof (cases "held s 0")
  case (Some u)
  have "excl add_crit s" using i by (simp add: add_inv_def)
  then show ?thesis by (rule add_monitor.holder_can_run [OF _ h Some]) (auto dest: add_join)
next
  case None
  have run: "can_run (add_prog thrs) add_start s" if u: "u \<in> workers" "thr s ! u \<noteq> Off" "thr s ! u \<noteq> Fin" for u
  proof -
    have "add_ok (thr s ! u) (n + added s)" using i u(1) by (simp add: add_inv_def)
    then obtain p k where p: "thr s ! u = At p k" using u(2,3) by (cases "thr s ! u") auto
    have "u < length (thr s)" "u \<noteq> 0" using u(1) i by (auto simp: add_inv_def)
    moreover from this have "\<forall>v q. add_prog thrs u p k \<noteq> Join v q" using add_join by blast
    ultimately show ?thesis using add_monitor.at_can_run [OF p _ h] None by blast
  qed
  show ?thesis
  proof (cases "t = 0")
    case True
    then obtain p k where p: "thr s ! 0 = At p k" "main_ok (At p k)"
      using x i by (cases "thr s ! 0") (auto simp: add_inv_def)
    have l: "0 < length (thr s)" using x(1) by auto
    show ?thesis
    proof (cases "\<exists>v q. add_prog thrs 0 p k = Join v q")
      case True
      then obtain q where q: "add_prog thrs 0 p k = Join (nat (fst k) + 1) q" "p = M_join" using add_join by blast
      have u: "nat (fst k) + 1 \<in> workers" using q p(2) by auto
      show ?thesis
      proof (cases "thr s ! (nat (fst k) + 1) = Fin")
        case True
        then have "fire (add_prog thrs) add_start Go 0 s \<noteq> None"
          using p(1) h q(1) l u i by (auto simp: fire_def exec_def add_inv_def)
        then show ?thesis by (rule can_runI) simp
      next
        case False
        have "thr s ! (nat (fst k) + 1) \<noteq> Off" using add_madeD [OF i p(1) u] q(2) u by auto
        then show ?thesis using run [OF u] False by blast
      qed
    next
      case False
      then show ?thesis using add_monitor.at_can_run [OF p(1) l h] None by blast
    qed
  next
    case False
    then have "t \<in> workers" using x(1) i by (simp add: add_inv_def)
    then show ?thesis using run x(2,3) by blast
  qed
qed

section \<open>Correctness\<close>



end
