(* ===== verification/Lines.thy ===== *)
theory Lines
  imports Prelude
begin

text \<open>
  Reading a text file by lines: \<open>fgets\<close> of the standard library, which the dictionary and the numbered log use.
\<close>

abbreviation NL :: char where "NL \<equiv> CHR 0x0A"

text \<open>\<open>fgets\<close> of the standard library: at most \<open>n - 1\<close> characters, up to and with a line end; the
  line and the rest of the file, \<open>None\<close> at the end of the file.\<close>

definition fgets :: "nat \<Rightarrow> string \<Rightarrow> (string \<times> string) option" where
  "fgets n s =
     (if s = [] then None
      else let line = take (n - 1) (case dropWhile (\<lambda>c. c \<noteq> NL) s of
                 [] \<Rightarrow> s
               | c # rest \<Rightarrow> takeWhile (\<lambda>c. c \<noteq> NL) s @ [NL])
           in Some (line, drop (length line) s))"

lemma fgets_line:
  assumes "NL \<notin> set l" "length l + 1 < n"
  shows "fgets n (l @ NL # rest) = Some (l @ [NL], rest)"
proof -
  have "\<forall>c \<in> set l. c \<noteq> NL" using assms(1) by auto
  then have "dropWhile (\<lambda>c. c \<noteq> NL) (l @ NL # rest) = NL # rest"
    "takeWhile (\<lambda>c. c \<noteq> NL) (l @ NL # rest) = l"
    by (simp_all add: dropWhile_append2 takeWhile_append2)
  with assms(2) show ?thesis by (simp add: fgets_def)
qed

lemma fgets_length: "fgets n s = Some (line, rest) \<Longrightarrow> 1 < n \<Longrightarrow> length line < n \<and> length rest < length s"
proof -
  assume a: "fgets n s = Some (line, rest)" "1 < n"
  then have s: "s \<noteq> []" by (auto simp: fgets_def)
  define l where "l = (case dropWhile (\<lambda>c. c \<noteq> NL) s of
                 [] \<Rightarrow> s
               | c # rest \<Rightarrow> takeWhile (\<lambda>c. c \<noteq> NL) s @ [NL])"
  have l: "line = take (n - 1) l" "rest = drop (length line) s" using a s by (auto simp: fgets_def l_def Let_def)
  have "l \<noteq> []" using s by (auto simp: l_def split: list.splits)
  with l a s show ?thesis by (cases s) auto
qed

end
