(* ===== verification/FileTools.thy ===== *)
theory FileTools
  imports Decimal Lines
begin

text \<open>
  Three small programs on files: \<open>io/stdio/mycop.c\<close> copies character by character, \<open>io/fs/timelog.c\<close> appends numbered time
  stamps to a log and goes on where the last run stopped, \<open>io/adv/mmap/mmap.c\<close> counts a letter in a mapped file. The files are a map from names to
  contents; which calls are refused is a parameter.
\<close>

type_synonym files = "string \<rightharpoonup> string"

section \<open>\<open>mycop\<close>\<close>

text \<open>One character per round, read from the source as it is at that moment.\<close>

partial_function (option) mycop_loop :: "string \<Rightarrow> string \<Rightarrow> nat \<Rightarrow> files \<Rightarrow> files option" where
  "mycop_loop src dst pos fs =
     Option.bind (fs src) (\<lambda>c.
     if pos < length c
     then Option.bind (fs dst) (\<lambda>d. mycop_loop src dst (pos + 1) (fs(dst \<mapsto> d @ [c ! pos])))
     else Some fs)"

text \<open>\<open>r\<close> and \<open>w\<close>: whether the files can be opened. The files and the exit status.\<close>

definition mycop :: "bool \<Rightarrow> bool \<Rightarrow> string list \<Rightarrow> files \<Rightarrow> (files \<times> int) option" where
  "mycop r w argv fs =
     (if length argv < 3 then Some (fs, 1)
      else let src = argv ! 1; dst = argv ! 2
           in if \<not> r \<or> fs src = None then Some (fs, 1)
              else if \<not> w then Some (fs, 1)
              else do { fs \<leftarrow> mycop_loop src dst 0 (fs(dst \<mapsto> [])); Some (fs, 0) })"

lemma mycop_loop_copies:
  "src \<noteq> dst \<Longrightarrow> fs src = Some c \<Longrightarrow> fs dst = Some (take pos c) \<Longrightarrow> mycop_loop src dst pos fs = Some (fs(dst \<mapsto> c))"
proof (induction "length c - pos" arbitrary: pos fs)
  case 0
  then show ?case by (subst mycop_loop.simps) (simp add: fun_upd_idem)
next
  case (Suc n)
  have l: "pos < length c" using Suc.hyps(2) by simp
  have t: "take pos c @ [c ! pos] = take (pos + 1) c" using Suc.hyps(2) by (simp add: take_Suc_conv_app_nth)
  have "mycop_loop src dst (pos + 1) (fs(dst \<mapsto> take (pos + 1) c)) = Some (fs(dst \<mapsto> c))"
    using Suc.hyps(1) [of "pos + 1" "fs(dst \<mapsto> take (pos + 1) c)"] Suc.hyps(2) Suc.prems by simp
  then show ?case using l Suc.prems t by (subst mycop_loop.simps) simp
qed

text \<open>A copy is the source, whatever the target held; a file copied onto itself is emptied.\<close>

lemma mycop_copies:
  assumes "fs src = Some c"
  shows "mycop True True [prog, src, dst] fs = Some (fs(dst \<mapsto> if src = dst then [] else c), 0)"
proof (cases "src = dst")
  case True
  then have "mycop_loop src dst 0 (fs(dst \<mapsto> [])) = Some (fs(dst \<mapsto> []))" by (subst mycop_loop.simps) simp
  with True assms show ?thesis by (simp add: mycop_def Let_def numeral_2_eq_2)
next
  case False
  then have "mycop_loop src dst 0 (fs(dst \<mapsto> [])) = Some (fs(dst \<mapsto> c))"
    using mycop_loop_copies [of src dst "fs(dst \<mapsto> [])" c 0] assms by simp
  with False assms show ?thesis by (simp add: mycop_def Let_def numeral_2_eq_2)
qed

section \<open>\<open>timelog\<close>\<close>

abbreviation BUFFSIZE :: nat where "BUFFSIZE \<equiv> 1024"
abbreviation INTMAX :: int where "INTMAX \<equiv> 2147483647"

text \<open>\<open>count++\<close> at the largest \<open>int\<close> is undefined.\<close>

function tl_count :: "int \<Rightarrow> string \<Rightarrow> int option" where
  "tl_count cnt s = (case fgets BUFFSIZE s of
       None \<Rightarrow> Some cnt
     | Some (_, s') \<Rightarrow> if cnt = INTMAX then None else tl_count (cnt + 1) s')"
  by pat_completeness auto
termination
  by (relation "measure (\<lambda>(c, s). length s)") (auto dest: fgets_length)

declare tl_count.simps [simp del]

record tm =
  tm_year :: int
  tm_mon :: int
  tm_mday :: int
  tm_hour :: int
  tm_min :: int
  tm_sec :: int

text \<open>The format \<open>%-4d%d-%d-%d %d:%d:%d\<close> and a line end.\<close>

definition tl_stamp :: "tm \<Rightarrow> string" where
  "tl_stamp t = sdec (tm_year t + 1900) @ ''-'' @ sdec (tm_mon t + 1) @ ''-'' @ sdec (tm_mday t) @ '' '' @ sdec (tm_hour t) @ '':''
     @ sdec (tm_min t) @ '':'' @ sdec (tm_sec t)"

definition tl_entry :: "int \<Rightarrow> tm \<Rightarrow> string" where
  "tl_entry n t = sdec n @ replicate (4 - length (sdec n)) CHR '' '' @ tl_stamp t @ ''\<newline>''"

text \<open>The endless loop, until the process is stopped after the entries for \<open>ts\<close>; every entry is flushed.\<close>

fun tl_loop :: "tm list \<Rightarrow> int \<Rightarrow> string \<Rightarrow> string option" where
  "tl_loop [] cnt f = Some f"
| "tl_loop (t # ts) cnt f =
     (if cnt = INTMAX then None else tl_loop ts (cnt + 1) (f @ tl_entry (cnt + 1) t))"

text \<open>A run: whether \<open>fopen\<close> succeeds, and the times that \<open>localtime\<close> gives. The file and the status, if the program ends.\<close>

definition timelog :: "bool \<Rightarrow> tm list \<Rightarrow> string \<Rightarrow> (string \<times> int option) option" where
  "timelog opened ts f =
     (if \<not> opened then Some (f, Some 1)
      else do { cnt \<leftarrow> tl_count 0 f; f \<leftarrow> tl_loop ts cnt f; Some (f, None) })"

fun tl_runs :: "(bool \<times> tm list) list \<Rightarrow> string \<Rightarrow> string option" where
  "tl_runs [] f = Some f"
| "tl_runs ((opened, ts) # rs) f = do { (f, _) \<leftarrow> timelog opened ts f; tl_runs rs f }"

text \<open>The log of one uninterrupted run.\<close>

fun tl_log :: "int \<Rightarrow> tm list \<Rightarrow> string" where
  "tl_log n [] = []"
| "tl_log n (t # ts) = tl_entry n t @ tl_log (n + 1) ts"

text \<open>The fields are \<open>int\<close>s, and so is what the program makes of them.\<close>

definition tm_ok :: "tm \<Rightarrow> bool" where
  "tm_ok t \<longleftrightarrow> (\<forall>x \<in> {tm_year t + 1900, tm_mon t + 1, tm_mday t, tm_hour t, tm_min t, tm_sec t}. - INTMAX - 1 \<le> x \<and> x \<le> INTMAX)"

lemma sdec_line: "CHR ''\<newline>'' \<notin> set (sdec i)"
  using dec_digits [of "CHR ''\<newline>''"] by (auto simp: sdec_def is_digit_def)

lemma sdec_short: "- INTMAX - 1 \<le> i \<Longrightarrow> i \<le> INTMAX \<Longrightarrow> length (sdec i) \<le> 20"
  by (rule sdec_length) simp

lemma tl_stamp_ok: "tm_ok t \<Longrightarrow> CHR ''\<newline>'' \<notin> set (tl_stamp t) \<and> length (tl_stamp t) \<le> 125"
  using sdec_short [of "tm_year t + 1900"] sdec_short [of "tm_mon t + 1"] sdec_short [of "tm_mday t"] sdec_short [of "tm_hour t"]
    sdec_short [of "tm_min t"] sdec_short [of "tm_sec t"]
  by (auto simp: tl_stamp_def tm_ok_def sdec_line)

text \<open>An entry is one line for \<open>fgets\<close>.\<close>

lemma fgets_entry:
  assumes "0 \<le> n" "n \<le> INTMAX" "tm_ok t"
  shows "fgets BUFFSIZE (tl_entry n t @ s) = Some (tl_entry n t, s)"
proof -
  let ?l = "sdec n @ replicate (4 - length (sdec n)) CHR '' '' @ tl_stamp t"
  have "CHR ''\<newline>'' \<notin> set ?l" "length ?l + 1 < BUFFSIZE"
    using tl_stamp_ok [OF assms(3)] sdec_line [of n] sdec_short [of n] assms by auto
  from fgets_line [OF this] show ?thesis by (simp add: tl_entry_def)
qed

lemma tl_count_log:
  assumes "\<forall>t \<in> set ts. tm_ok t" "0 \<le> n" "n + int (length ts) \<le> INTMAX"
  shows "tl_count n (tl_log (n + 1) ts) = Some (n + int (length ts))"
  using assms
proof (induction ts arbitrary: n)
  case Nil
  then show ?case by (simp add: tl_count.simps fgets_def)
next
  case (Cons t ts)
  have "fgets BUFFSIZE (tl_log (n + 1) (t # ts)) = Some (tl_entry (n + 1) t, tl_log (n + 2) ts)"
    using fgets_entry [of "n + 1" t "tl_log (n + 2) ts"] Cons.prems by (simp add: add.commute)
  then show ?case using Cons.IH [of "n + 1"] Cons.prems by (subst tl_count.simps) (simp add: add.commute add.left_commute)
qed

lemma tl_loop_log: "cnt + int (length ts) \<le> INTMAX \<Longrightarrow> tl_loop ts cnt f = Some (f @ tl_log (cnt + 1) ts)"
  by (induction ts arbitrary: cnt f) (auto simp: add.commute)

lemma tl_log_append: "tl_log n (ts @ us) = tl_log n ts @ tl_log (n + int (length ts)) us"
  by (induction ts arbitrary: n) (simp_all add: algebra_simps)

lemma tl_runs_from:
  assumes "\<forall>t \<in> set us. tm_ok t" "\<forall>(opened, ts) \<in> set rs. \<forall>t \<in> set ts. tm_ok t"
    and "int (length us + length (concat (map snd (filter fst rs)))) \<le> INTMAX"
  shows "tl_runs rs (tl_log 1 us) = Some (tl_log 1 (us @ concat (map snd (filter fst rs))))"
  using assms
proof (induction rs arbitrary: us)
  case (Cons r rs)
  obtain opened ts where r: "r = (opened, ts)" by (cases r)
  show ?case
  proof (cases opened)
    case True
    have "tl_count 0 (tl_log 1 us) = Some (int (length us))"
      using tl_count_log [of us 0] Cons.prems r True by simp
    moreover have "tl_loop ts (int (length us)) (tl_log 1 us) = Some (tl_log 1 (us @ ts))"
      using tl_loop_log [of "int (length us)" ts] Cons.prems(3) r True by (simp add: tl_log_append add.commute)
    moreover have "tl_runs rs (tl_log 1 (us @ ts)) = Some (tl_log 1 ((us @ ts) @ concat (map snd (filter fst rs))))"
      using Cons.prems r True by (intro Cons.IH) auto
    ultimately show ?thesis using r True by (simp add: timelog_def)
  next
    case False
    then show ?thesis using Cons.IH [of us] Cons.prems r by (simp add: timelog_def)
  qed
qed simp

text \<open>C18: However often \<open>timelog\<close> is stopped and started again, the file is that of one run without interruption: the numbers go
  on without a gap and without a repetition, since counting the lines with \<open>fgets\<close> gives the number of entries. Runs that cannot open the
  file change nothing.\<close>

theorem timelog_restarts:
  assumes "\<forall>(opened, ts) \<in> set rs. \<forall>t \<in> set ts. tm_ok t" "int (length (concat (map snd (filter fst rs)))) \<le> INTMAX"
  shows "tl_runs rs [] = Some (tl_log 1 (concat (map snd (filter fst rs))))
    \<and> timelog True (concat (map snd (filter fst rs))) [] = Some (tl_log 1 (concat (map snd (filter fst rs))), None)"
proof
  show "tl_runs rs [] = Some (tl_log 1 (concat (map snd (filter fst rs))))"
    using tl_runs_from [of "[]" rs] assms by simp
  show "timelog True (concat (map snd (filter fst rs))) [] = Some (tl_log 1 (concat (map snd (filter fst rs))), None)"
    using tl_loop_log [of 0 "concat (map snd (filter fst rs))" "[]"] assms(2) by (simp add: timelog_def tl_count.simps fgets_def)
qed

theorem timelog_restarts_witness:
  "let t = \<lparr>tm_year = 124, tm_mon = 8, tm_mday = 7, tm_hour = 15, tm_min = 8, tm_sec = 21\<rparr>
   in tl_runs [(True, [t, t\<lparr>tm_sec := 22\<rparr>]), (False, [t]), (True, [t\<lparr>tm_min := 18\<rparr>])] []
     = Some (tl_log 1 [t, t\<lparr>tm_sec := 22\<rparr>, t\<lparr>tm_min := 18\<rparr>])"
  unfolding Let_def by (subst timelog_restarts [THEN conjunct1]) (simp_all add: tm_ok_def)

section \<open>Counting in a mapped file\<close>

text \<open>The loop with its \<open>int i\<close>, which is compared to the size of the file.\<close>

function count_a :: "string \<Rightarrow> int \<Rightarrow> int \<Rightarrow> int option" where
  "count_a str i cnt =
     (if i < int (length str) then
        (if i = INTMAX then None else count_a str (i + 1) (if str ! nat i = CHR ''a'' then cnt + 1 else cnt))
      else Some cnt)"
  by pat_completeness auto
termination
  by (relation "measure (\<lambda>(s, i, c). nat (int (length s) - i))") auto

declare count_a.simps [simp del]

text \<open>What is printed and the status; \<open>mmap\<close> refuses a length of 0.\<close>

definition mmap_main :: "bool \<Rightarrow> bool \<Rightarrow> bool \<Rightarrow> string list \<Rightarrow> files \<Rightarrow> (string \<times> int) option" where
  "mmap_main opened stat_ok mapped argv fs =
     (if length argv < 2 then Some ([], 1)
      else case (if opened then fs (argv ! 1) else None) of
        None \<Rightarrow> Some ([], 1)
      | Some str \<Rightarrow>
          if \<not> stat_ok then Some ([], 1)
          else if \<not> mapped \<or> str = [] then Some ([], 1)
          else do { cnt \<leftarrow> count_a str 0 0; Some (sdec cnt @ ''\<newline>'', 0) })"

lemma count_a_counts:
  "int (length str) \<le> INTMAX \<Longrightarrow> k \<le> length str \<Longrightarrow> count_a str (int k) c = Some (c + int (count_list (drop k str) CHR ''a''))"
proof (induction "length str - k" arbitrary: k c)
  case 0
  then show ?case by (subst count_a.simps) simp
next
  case (Suc n)
  have "drop k str = str ! k # drop (Suc k) str" using Suc.hyps(2) by (simp add: Cons_nth_drop_Suc)
  moreover have "count_a str (int (Suc k)) c' = Some (c' + int (count_list (drop (Suc k) str) CHR ''a''))" for c'
    using Suc.hyps(1) [of "Suc k" c'] Suc.hyps(2) Suc.prems by simp
  ultimately show ?case using Suc.hyps(2) Suc.prems by (subst count_a.simps) (auto simp: add.commute)
qed

lemma mmap_main_prints:
  assumes "fs name = Some str" "int (length str) \<le> INTMAX"
  shows "mmap_main True True True [prog, name] fs =
    (if str = [] then Some ([], 1) else Some (sdec (int (count_list str CHR ''a'')) @ ''\<newline>'', 0))"
  using count_a_counts [OF assms(2), of 0 0] assms(1) by (simp add: mmap_main_def)

end
