(* ===== verification/Josephus.thy ===== *)
theory Josephus
  imports SList
begin

text \<open>
  The Josephus circle of \<open>ds/line/list/linklist/simple/josephu/jose.c\<close>: a ring of numbered nodes in which
  every \<open>n\<close>-th is removed and freed until one is left. The pointer \<open>node\<close> of \<open>jose_kill\<close> starts
  uninitialised, the \<open>None\<close> of the model; it is read in that state when \<open>n\<close> is less than 2. The lemmas
  show that creating gives the ring, and that killing prints the victims in the order of the counting-out
  game on lists, leaves the survivor alone in the ring and frees every other node.
\<close>

section \<open>Operations\<close>

definition JOSE_NUM :: int where
  "JOSE_NUM = 8"

type_synonym jose_heap = "int nheap"

partial_function (option) jose_create_loop ::
  "addr \<Rightarrow> addr \<Rightarrow> int \<Rightarrow> int \<Rightarrow> jose_heap \<Rightarrow> (addr \<times> jose_heap) option" where
  "jose_create_loop me cur i n h =
     (if i \<le> n then
        let (newnode, h) = malloc \<lparr>ndata = i, nnext = me\<rparr> h
        in if newnode = NULL then Some (NULL, h)
           else Option.bind (modify cur (\<lambda>c. c\<lparr>nnext := newnode\<rparr>) h) (\<lambda>h.
             jose_create_loop me newnode (i + 1) n h)
      else Some (me, h))"

definition jose_create :: "int \<Rightarrow> jose_heap \<Rightarrow> (addr \<times> jose_heap) option" where
  "jose_create n h =
     (let (me, h) = malloc \<lparr>ndata = 1, nnext = NULL\<rparr> h
      in if me = NULL then Some (NULL, h)
         else do {
           h \<leftarrow> modify me (\<lambda>c. c\<lparr>nnext := me\<rparr>) h;
           jose_create_loop me me 2 n h })"

text \<open>The printed numbers.\<close>

partial_function (option) jose_show_loop :: "addr \<Rightarrow> addr \<Rightarrow> jose_heap \<Rightarrow> int list option" where
  "jose_show_loop me lst h =
     Option.bind (load lst h) (\<lambda>c.
       if nnext c \<noteq> me then
         Option.bind (jose_show_loop me (nnext c) h) (\<lambda>ds. Some (ndata c # ds))
       else Some [ndata c])"

definition jose_show :: "addr \<Rightarrow> jose_heap \<Rightarrow> int list option" where
  "jose_show me h = jose_show_loop me me h"

text \<open>The inner loop counts from \<open>i\<close> up to \<open>n\<close>; its result is \<open>node\<close> and \<open>cur\<close>.\<close>

function jose_count :: "jose_heap \<Rightarrow> addr option \<Rightarrow> addr \<Rightarrow> int \<Rightarrow> int \<Rightarrow> (addr option \<times> addr) option" where
  "jose_count h node cur i n =
     (if i < n then do {
        c \<leftarrow> load cur h;
        jose_count h (Some cur) (nnext c) (i + 1) n }
      else Some (node, cur))"
  by pat_completeness auto
termination
  by (relation "measure (\<lambda>(h, node, cur, i, n). nat (n - i))") auto

declare jose_count.simps [simp del]

text \<open>The outer loop; the result is the printed numbers, the last \<open>cur\<close> and the heap.\<close>

partial_function (option) jose_kill_loop ::
  "int \<Rightarrow> addr option \<Rightarrow> addr \<Rightarrow> jose_heap \<Rightarrow> (int list \<times> addr \<times> jose_heap) option" where
  "jose_kill_loop n node cur h =
     Option.bind (load cur h) (\<lambda>c.
       if cur \<noteq> nnext c then
         Option.bind (jose_count h node cur 1 n) (\<lambda>(node, cur).
         Option.bind (load cur h) (\<lambda>c.
         Option.bind node (\<lambda>nd.
         Option.bind (modify nd (\<lambda>x. x\<lparr>nnext := nnext c\<rparr>) h) (\<lambda>h.
         Option.bind (free cur h) (\<lambda>h.
         Option.bind (load nd h) (\<lambda>x.
         Option.bind (jose_kill_loop n node (nnext x) h) (\<lambda>(ds, cur, h).
         Some (ndata c # ds, cur, h))))))))
       else Some ([], cur, h))"

text \<open>\<open>jose_kill\<close> stores the last node through its parameter.\<close>

definition jose_kill :: "addr \<Rightarrow> int \<Rightarrow> jose_heap \<Rightarrow> (int list \<times> addr \<times> jose_heap) option" where
  "jose_kill me n h = jose_kill_loop n None me h"

text \<open>\<open>main\<close>: the three printed lines. A failed creation is not noticed.\<close>

definition jose_main :: "jose_heap \<Rightarrow> (int list \<times> int list \<times> int list) option" where
  "jose_main h = do {
     (lst, h) \<leftarrow> jose_create JOSE_NUM h;
     s1 \<leftarrow> jose_show lst h;
     (ds, lst, h) \<leftarrow> jose_kill lst 3 h;
     s2 \<leftarrow> jose_show lst h;
     Some (s1, ds, s2) }"

section \<open>The counting-out game\<close>

text \<open>The victims and the survivor when counting starts at the head of the list.\<close>

function game :: "nat \<Rightarrow> 'a list \<Rightarrow> 'a list \<times> 'a list" where
  "game n xs =
     (if length xs \<le> 1 then ([], xs)
      else let ys = rotate (n - 1) xs; (ds, s) = game n (tl ys) in (hd ys # ds, s))"
  by pat_completeness auto
termination
  by (relation "measure (\<lambda>(n, xs). length xs)") auto

declare game.simps [simp del]

section \<open>Rings\<close>

text \<open>A ring from \<open>p\<close>: a path that comes back.\<close>

definition jring :: "jose_heap \<Rightarrow> addr \<Rightarrow> (addr \<times> int) list \<Rightarrow> bool" where
  "jring h p xs \<longleftrightarrow> heap_ok h \<and> xs \<noteq> [] \<and> path (mem h) p xs p \<and> distinct (map fst xs)"

lemma jring_rotate1:
  assumes "jring h p (x # xs)"
  shows "\<exists>c. mem h p = Some c \<and> ndata c = snd x \<and> p = fst x \<and> jring h (nnext c) (xs @ [x])"
  using assms by (auto simp: jring_def path_append path_Cons)

lemma jring_load: "jring h p xs \<Longrightarrow> mem h p = Some c \<Longrightarrow> load p h = Some c"
  by (simp add: jring_def)

lemma jring_single:
  assumes "jring h p xs" "mem h p = Some c"
  shows "p = nnext c \<longleftrightarrow> length xs = 1"
proof -
  obtain x ys where xs: "xs = x # ys" using assms(1) by (cases xs) (auto simp: jring_def)
  then have r: "p = fst x" "path (mem h) (nnext c) ys p" "fst x \<notin> fst ` set ys"
    using assms by (auto simp: jring_def path_Cons)
  then show ?thesis by (cases ys) (auto simp: xs path_Cons)
qed

lemma jose_show_loop_eq:
  assumes "heap_ok h"
  shows "path (mem h) p xs me \<Longrightarrow> xs \<noteq> [] \<Longrightarrow> me \<notin> fst ` set (tl xs) \<Longrightarrow>
    jose_show_loop me p h = Some (map snd xs)"
proof (induction xs arbitrary: p)
  case (Cons x xs)
  then obtain r where r: "mem h p = Some \<lparr>ndata = snd x, nnext = r\<rparr>" "path (mem h) r xs me"
    by (auto simp: path_Cons)
  show ?case
  proof (cases xs)
    case Nil
    with r assms show ?thesis by (subst jose_show_loop.simps) simp
  next
    case (Cons y ys)
    with r(2) Cons.prems have "r \<noteq> me" by (auto simp: path_Cons)
    moreover have "jose_show_loop me r h = Some (map snd xs)"
      using Cons.IH [OF r(2)] Cons.prems(3) Cons by auto
    ultimately show ?thesis using r assms by (subst jose_show_loop.simps) simp
  qed
qed simp

lemma jose_show_eq:
  assumes "jring h p xs"
  shows "jose_show p h = Some (map snd xs)"
proof -
  obtain x ys where xs: "xs = x # ys" using assms by (cases xs) (auto simp: jring_def)
  with assms have "p = fst x" "fst x \<notin> fst ` set ys" by (auto simp: jring_def path_Cons)
  with assms xs show ?thesis
    using jose_show_loop_eq [of h p xs p] by (simp add: jose_show_def jring_def)
qed

section \<open>Counting and killing\<close>

lemma jose_count_eq:
  assumes "jring h p xs"
  shows "jose_count h node p i n = Some
     (if i < n then Some (fst (last (rotate (nat (n - i)) xs))) else node, fst (hd (rotate (nat (n - i)) xs)))
    \<and> jring h (fst (hd (rotate (nat (n - i)) xs))) (rotate (nat (n - i)) xs)"
  using assms
proof (induction "nat (n - i)" arbitrary: p xs i node)
  case 0
  then have "p = fst (hd xs)" by (cases xs) (auto simp: jring_def path_Cons)
  with 0 show ?case by (subst jose_count.simps) simp
next
  case (Suc k)
  obtain x ys where xs: "xs = x # ys" using Suc.prems by (cases xs) (auto simp: jring_def)
  obtain c where c: "mem h p = Some c" "p = fst x" "jring h (nnext c) (ys @ [x])"
    using jring_rotate1 [of h p x ys] Suc.prems xs by blast
  have k: "nat (n - i) = Suc k" "nat (n - (i + 1)) = k" "i < n" using Suc.hyps(2) by linarith+
  have rot: "rotate (Suc k) xs = rotate k (ys @ [x])" by (simp add: xs rotate_def funpow_Suc_right del: funpow.simps)
  have IH: "jose_count h (Some p) (nnext c) (i + 1) n = Some
     (if i + 1 < n then Some (fst (last (rotate k (ys @ [x])))) else Some p, fst (hd (rotate k (ys @ [x]))))
    \<and> jring h (fst (hd (rotate k (ys @ [x])))) (rotate k (ys @ [x]))"
    using Suc.hyps(1) [of "i + 1" "nnext c" "ys @ [x]" "Some p"] k c(3) by simp
  have "(if i + 1 < n then Some (fst (last (rotate k (ys @ [x])))) else Some p)
      = Some (fst (last (rotate k (ys @ [x]))))"
    using k c(2) by (cases "k = 0") auto
  with IH show ?case
    using k jring_load [OF Suc.prems c(1)] by (subst jose_count.simps) (simp add: rot del: rotate_Suc)
qed

text \<open>Unlinking the first node of a ring through its last one and freeing it.\<close>

lemma jring_kill:
  assumes "jring h p (y # ws @ [z])"
  obtains c h1 h2 x where "load p h = Some c" "ndata c = snd y" "p = fst y"
    "modify (fst z) (\<lambda>x. x\<lparr>nnext := nnext c\<rparr>) h = Some h1" "free p h1 = Some h2"
    "load (fst z) h2 = Some x" "nnext x = nnext c" "jring h2 (nnext c) (ws @ [z])"
    "mem h2 = (mem h)(fst z \<mapsto> x, p := None)"
proof -
  have ok: "heap_ok h" and d: "distinct (map fst (y # ws @ [z]))" using assms by (simp_all add: jring_def)
  obtain r where r: "p = fst y" "mem h p = Some \<lparr>ndata = snd y, nnext = r\<rparr>" "path (mem h) r ws (fst z)"
    "mem h (fst z) = Some \<lparr>ndata = snd z, nnext = p\<rparr>"
    using assms by (auto simp: jring_def path_Cons path_append)
  let ?x = "\<lparr>ndata = snd z, nnext = r\<rparr>"
  let ?h1 = "h\<lparr>mem := (mem h)(fst z \<mapsto> ?x)\<rparr>"
  let ?h2 = "?h1\<lparr>mem := (mem ?h1)(p := None)\<rparr>"
  have ne: "fst z \<noteq> p" using d r(1) by auto
  have ok1: "heap_ok ?h1" by (rule heap_ok_upd [OF ok r(4)])
  have m1: "mem ?h1 p = Some \<lparr>ndata = snd y, nnext = r\<rparr>" using r(2) ne by simp
  show thesis
  proof (rule that)
    show "load p h = Some \<lparr>ndata = snd y, nnext = r\<rparr>" by (rule load_Some [OF ok r(2)])
    show "modify (fst z) (\<lambda>x. x\<lparr>nnext := nnext \<lparr>ndata = snd y, nnext = r\<rparr>\<rparr>) h = Some ?h1"
      using ok r(4) by simp
    show "free p ?h1 = Some ?h2" by (rule free_Some [OF ok1 m1])
    show "load (fst z) ?h2 = Some ?x" by (rule load_Some [OF heap_ok_del [OF ok1]]) (simp add: ne)
    have "path (mem ?h2) r (ws @ [z]) r" using r d by (auto simp: path_append path_Cons)
    then show "jring ?h2 (nnext \<lparr>ndata = snd y, nnext = r\<rparr>) (ws @ [z])"
      using heap_ok_del [OF ok1, of p] d by (simp add: jring_def)
  qed (simp_all add: r(1) ne)
qed

lemma rotate_split:
  assumes "2 \<le> length xs"
  obtains y ws z where "rotate k xs = y # ws @ [z]"
proof -
  have "2 \<le> length (rotate k xs)" using assms by simp
  then obtain y ys where "rotate k xs = y # ys" "ys \<noteq> []" by (cases "rotate k xs"; cases "tl (rotate k xs)") auto
  then show thesis using that by (cases ys rule: rev_cases) auto
qed

lemma jose_kill_loop_eq:
  assumes n: "2 \<le> n"
  shows "jring h p xs \<Longrightarrow> \<exists>p' h'. jose_kill_loop n node p h =
      Some (map snd (fst (game (nat n) xs)), p', h') \<and> jring h' p' (snd (game (nat n) xs))
    \<and> (\<forall>a \<in> fst ` set xs. a \<noteq> p' \<longrightarrow> mem h' a = None) \<and> (\<forall>a. a \<notin> fst ` set xs \<longrightarrow> mem h' a = mem h a)"
proof (induction "length xs" arbitrary: h p xs node rule: less_induct)
  case less
  obtain c where c: "mem h p = Some c" "load p h = Some c"
    using less.prems path_live [of "mem h" p xs p "fst (hd xs)"]
    by (cases xs) (auto simp: jring_def path_Cons)
  show ?case
  proof (cases "length xs \<le> 1")
    case True
    then have one: "length xs = 1" using less.prems by (cases xs) (auto simp: jring_def)
    then obtain x where "xs = [x]" by (cases xs) auto
    with less.prems have "p = fst x" "xs = [x]" by (auto simp: jring_def path_Cons)
    with less.prems c one jring_single [OF less.prems c(1)] show ?thesis
      by (subst jose_kill_loop.simps) (simp add: game.simps)
  next
    case False
    let ?ys = "rotate (nat (n - 1)) xs"
    obtain y ws z where ys: "?ys = y # ws @ [z]" using rotate_split False by (metis not_less_eq_eq numeral_2_eq_2 One_nat_def)
    have cnt: "jose_count h node p 1 n = Some (Some (fst z), fst y)" "jring h (fst y) (y # ws @ [z])"
      using jose_count_eq [OF less.prems, of node 1 n] n ys by simp_all
    obtain c1 h1 h2 x where k: "load (fst y) h = Some c1" "ndata c1 = snd y"
      "modify (fst z) (\<lambda>x. x\<lparr>nnext := nnext c1\<rparr>) h = Some h1" "free (fst y) h1 = Some h2"
      "load (fst z) h2 = Some x" "nnext x = nnext c1" "jring h2 (nnext c1) (ws @ [z])"
      "mem h2 = (mem h)(fst z \<mapsto> x, fst y := None)"
      using jring_kill [OF cnt(2)] by metis
    have sets: "set xs = insert y (set (ws @ [z]))" using ys set_rotate [of "nat (n - 1)" xs] by simp
    have dist: "fst y \<notin> fst ` set (ws @ [z])" using cnt(2) by (auto simp: jring_def)
    have len: "length (ws @ [z]) < length xs" using arg_cong [OF ys, of length] by simp
    obtain p' h' where ih: "jose_kill_loop n (Some (fst z)) (nnext c1) h2 =
        Some (map snd (fst (game (nat n) (ws @ [z]))), p', h')" "jring h' p' (snd (game (nat n) (ws @ [z])))"
      "\<forall>a \<in> fst ` set (ws @ [z]). a \<noteq> p' \<longrightarrow> mem h' a = None"
      "\<forall>a. a \<notin> fst ` set (ws @ [z]) \<longrightarrow> mem h' a = mem h2 a"
      using less.hyps [OF len k(7)] by blast
    have g: "game (nat n) xs = (y # fst (game (nat n) (ws @ [z])), snd (game (nat n) (ws @ [z])))"
      using False ys n by (subst game.simps) (simp add: nat_diff_distrib case_prod_unfold Let_def)
    have step: "jose_kill_loop n node p h = Some (snd y # map snd (fst (game (nat n) (ws @ [z]))), p', h')"
      using c jring_single [OF less.prems c(1)] False cnt(1) k ih(1)
      by (subst jose_kill_loop.simps) simp
    have "mem h' a = None" if "a \<in> fst ` set xs" "a \<noteq> p'" for a
      using that ih(3,4) k(8) dist unfolding sets by auto
    moreover have "mem h' a = mem h a" if "a \<notin> fst ` set xs" for a
      using that ih(4) k(8) unfolding sets by auto
    ultimately show ?thesis using step ih(2) by (simp add: g)
  qed
qed

section \<open>Creation\<close>

lemma jose_create_loop_eq:
  "jring h me (xs @ [(cur, d)]) \<Longrightarrow> i \<le> n + 1 \<Longrightarrow> \<forall>k. \<not> oom h k \<Longrightarrow> map snd xs @ [d] = [1..i - 1] \<Longrightarrow>
   \<exists>h' ys. jose_create_loop me cur i n h = Some (me, h') \<and> jring h' me ys \<and> map snd ys = [1..n]"
proof (induction "nat (n + 1 - i)" arbitrary: i h xs cur d)
  case 0
  then have i: "i = n + 1" by simp
  then have "jose_create_loop me cur i n h = Some (me, h)" by (subst jose_create_loop.simps) simp
  with 0 i show ?case by (intro exI [of _ h] exI [of _ "xs @ [(cur, d)]"]) simp
next
  case (Suc k)
  have i: "i \<le> n" "k = nat (n + 1 - (i + 1))" using Suc.hyps(2) by linarith+
  have ok: "heap_ok h" and p: "path (mem h) me (xs @ [(cur, d)]) me" and dist: "distinct (map fst (xs @ [(cur, d)]))"
    using Suc.prems(1) by (simp_all add: jring_def)
  obtain new h1 where m: "malloc \<lparr>ndata = i, nnext = me\<rparr> h = (new, h1)" by fastforce
  have nn: "new \<noteq> NULL" using m Suc.prems(3) brk_pos [OF ok] by (auto simp: malloc_def Let_def)
  note r = malloc_ok [OF m nn ok]
  have fresh: "new \<notin> fst ` set (xs @ [(cur, d)])" using path_fresh [OF ok p] r(1) by simp
  have cur: "mem h cur = Some \<lparr>ndata = d, nnext = me\<rparr>" using p by (auto simp: path_append path_Cons)
  have "mem h1 cur = Some \<lparr>ndata = d, nnext = me\<rparr>" using cur r(1,3) fresh by auto
  then obtain h2 where h2: "modify cur (\<lambda>c. c\<lparr>nnext := new\<rparr>) h1 = Some h2" "heap_ok h2"
    "mem h2 = (mem h1)(cur \<mapsto> \<lparr>ndata = d, nnext = new\<rparr>)" "oom h2 = oom h1"
    using modify_ok [OF r(2), of cur _ "\<lambda>c. c\<lparr>nnext := new\<rparr>"] by fastforce
  have "path (mem h2) me ((xs @ [(cur, d)]) @ [(new, i)]) me"
    using p fresh dist h2(3) r(1,3) by (auto simp: path_append path_Cons)
  then have "jring h2 me ((xs @ [(cur, d)]) @ [(new, i)])"
    using h2(2) dist fresh by (auto simp: jring_def)
  moreover have "\<forall>k. \<not> oom h2 k" using Suc.prems(3) h2(4) r(6) by simp
  moreover have "map snd (xs @ [(cur, d)]) @ [i] = [1..i + 1 - 1]"
    using Suc.prems(4) upto_rec2 [of 1 i] Suc.prems by (cases "1 \<le> i") (auto simp: upto.simps)
  ultimately obtain h' ys where "jose_create_loop me new (i + 1) n h2 = Some (me, h')" "jring h' me ys"
    "map snd ys = [1..n]"
    using Suc.hyps(1) [OF i(2), of h2 "xs @ [(cur, d)]" new i] i(1) by auto
  then show ?case using i(1) m nn h2(1) by (subst jose_create_loop.simps) auto
qed

lemma jose_create_ring:
  assumes "heap_ok h" "\<forall>k. \<not> oom h k" "1 \<le> n"
  shows "\<exists>me h' ys. jose_create n h = Some (me, h') \<and> jring h' me ys \<and> map snd ys = [1..n]"
proof -
  obtain me h1 where m: "malloc \<lparr>ndata = 1, nnext = NULL\<rparr> h = (me, h1)" by fastforce
  have nn: "me \<noteq> NULL" using m assms(2) brk_pos [OF assms(1)] by (auto simp: malloc_def Let_def)
  note r = malloc_ok [OF m nn assms(1)]
  have "mem h1 me = Some \<lparr>ndata = 1, nnext = NULL\<rparr>" using r by simp
  then obtain h2 where h2: "modify me (\<lambda>c. c\<lparr>nnext := me\<rparr>) h1 = Some h2" "heap_ok h2"
    "mem h2 me = Some \<lparr>ndata = 1, nnext = me\<rparr>" "oom h2 = oom h1"
    using modify_ok [OF r(2), of me _ "\<lambda>c. c\<lparr>nnext := me\<rparr>"] by fastforce
  have "jring h2 me ([] @ [(me, 1)])" using h2 by (simp add: jring_def path_Cons)
  moreover have "\<forall>k. \<not> oom h2 k" using assms(2) r(6) h2(4) by simp
  ultimately obtain h' ys where "jose_create_loop me me 2 n h2 = Some (me, h')" "jring h' me ys" "map snd ys = [1..n]"
    using jose_create_loop_eq [of h2 me "[]" me 1 2 n] assms(3) by (auto simp: upto.simps)
  then show ?thesis using m nn h2(1) by (auto simp: jose_create_def)
qed

section \<open>Correctness\<close>

lemma game_map: "game n (map f xs) = (map f (fst (game n xs)), map f (snd (game n xs)))"
proof (induction n xs rule: game.induct)
  case (1 n xs)
  show ?case
  proof (cases "length xs \<le> 1")
    case True
    then show ?thesis by (simp add: game.simps)
  next
    case False
    let ?ys = "rotate (n - 1) xs"
    have ne: "?ys \<noteq> []" using False by auto
    have "game n (map f (tl ?ys)) = (map f (fst (game n (tl ?ys))), map f (snd (game n (tl ?ys))))"
      using "1.IH" [OF False refl] .
    then have "game n (tl (map f ?ys)) = (map f (fst (game n (tl ?ys))), map f (snd (game n (tl ?ys))))"
      by (simp only: map_tl)
    moreover have "game n (map f xs) = (hd (map f ?ys) # fst (game n (tl (map f ?ys))), snd (game n (tl (map f ?ys))))"
      by (subst game.simps) (use False in \<open>simp add: rotate_map case_prod_unfold Let_def\<close>)
    moreover have "game n xs = (hd ?ys # fst (game n (tl ?ys)), snd (game n (tl ?ys)))"
      by (subst game.simps) (use False in \<open>simp add: case_prod_unfold Let_def\<close>)
    ultimately show ?thesis using hd_map [OF ne, of f] by simp
  qed
qed

text \<open>C24: With memory available and \<open>n\<close> at least 2, \<open>jose_kill\<close> on the ring of 1 to \<open>m\<close> that
  \<open>jose_create\<close> builds returns; it prints the victims in the order of the counting-out game, hands back a
  ring of exactly the survivor, frees every other node and touches nothing else.\<close>
theorem jose_kill_plays:
  assumes "heap_ok h" "\<forall>k. \<not> oom h k" "1 \<le> m" "2 \<le> n"
  shows "\<exists>me h1 ys p h2. jose_create m h = Some (me, h1) \<and> jring h1 me ys \<and> jose_show me h1 = Some [1..m]
    \<and> jose_kill me n h1 = Some (fst (game (nat n) [1..m]), p, h2)
    \<and> jose_show p h2 = Some (snd (game (nat n) [1..m]))
    \<and> (\<forall>a \<in> fst ` set ys. a \<noteq> p \<longrightarrow> mem h2 a = None) \<and> (\<forall>a. a \<notin> fst ` set ys \<longrightarrow> mem h2 a = mem h1 a)"
proof -
  obtain me h1 ys where c: "jose_create m h = Some (me, h1)" "jring h1 me ys" "map snd ys = [1..m]"
    using jose_create_ring [OF assms(1-3)] by blast
  obtain p h2 where k: "jose_kill_loop n None me h1 = Some (map snd (fst (game (nat n) ys)), p, h2)"
    "jring h2 p (snd (game (nat n) ys))"
    "\<forall>a \<in> fst ` set ys. a \<noteq> p \<longrightarrow> mem h2 a = None" "\<forall>a. a \<notin> fst ` set ys \<longrightarrow> mem h2 a = mem h1 a"
    using jose_kill_loop_eq [OF assms(4) c(2)] by blast
  have g: "game (nat n) [1..m] = (map snd (fst (game (nat n) ys)), map snd (snd (game (nat n) ys)))"
    using game_map [of "nat n" snd ys] c(3) by simp
  show ?thesis
    using c k jose_show_eq [OF c(2)] jose_show_eq [OF k(2)] by (auto simp: g jose_kill_def)
qed

text \<open>The program of the repository, with eight nodes and every third killed.\<close>

lemma game_8_3: "game 3 [1::int, 2, 3, 4, 5, 6, 7, 8] = ([3, 6, 1, 5, 2, 8, 4], [7])"
  by code_simp

lemma jose_kill_plays_witness:
  "jose_main empty_heap = Some ([1, 2, 3, 4, 5, 6, 7, 8], [3, 6, 1, 5, 2, 8, 4], [7])"
proof -
  have up: "[1..8] = [1::int, 2, 3, 4, 5, 6, 7, 8]" by (simp add: upto_rec1)
  have "\<forall>k. \<not> oom (empty_heap :: jose_heap) k" by (simp add: empty_heap_def)
  from jose_kill_plays [OF empty_heap_ok this, of 8 3] show ?thesis
    by (auto simp: jose_main_def JOSE_NUM_def up game_8_3)
qed

text \<open>With \<open>n = 1\<close> and more than one node, the first round reads the uninitialised \<open>node\<close>.\<close>

lemma jose_kill_one:
  assumes "jring h p (x # y # xs)"
  shows "jose_kill p 1 h = None"
proof -
  obtain c where c: "mem h p = Some c" using jring_rotate1 [OF assms] by blast
  have "p \<noteq> nnext c" using jring_single [OF assms c] by simp
  then show ?thesis
    using jring_load [OF assms c] by (simp add: jose_kill_def jose_kill_loop.simps jose_count.simps)
qed

end
