(* ===== verification/KList.thy ===== *)
theory KList
  imports CHeap Decimal
begin

text \<open>
  The list of the Linux kernel in \<open>ds/line/list/linklist/double/kernel\<close>: the links are a member of the records, and a
  record is found from its links by subtracting the offset of the member. Memory has two views, the
  \<open>list_head\<close> structures and the records around them. The lemmas: \<open>list_add\<close> puts a record in front of a ring, the
  loops visit the records in order, and the program prints its seven records.
\<close>

section \<open>The list\<close>

record list_head =
  lprev :: addr
  lnext :: addr

record k_score =
  k_id :: int
  k_name :: string
  k_math :: int
  k_chinese :: int

record k_mem =
  links :: "addr \<Rightarrow> list_head option"
  recs :: "addr \<Rightarrow> k_score option"

text \<open>\<open>p->prev = q\<close> and \<open>p->next = q\<close>.\<close>

definition set_links :: "addr \<Rightarrow> (list_head \<Rightarrow> list_head) \<Rightarrow> k_mem \<Rightarrow> k_mem option" where
  "set_links p f m = do { c \<leftarrow> links m p; Some (m\<lparr>links := (links m)(p \<mapsto> f c)\<rparr>) }"

definition list_add_between :: "addr \<Rightarrow> addr \<Rightarrow> addr \<Rightarrow> k_mem \<Rightarrow> k_mem option" where
  "list_add_between new prev next m = do {
     m \<leftarrow> set_links next (\<lambda>c. c\<lparr>lprev := new\<rparr>) m;
     m \<leftarrow> set_links new (\<lambda>c. c\<lparr>lnext := next\<rparr>) m;
     m \<leftarrow> set_links new (\<lambda>c. c\<lparr>lprev := prev\<rparr>) m;
     set_links prev (\<lambda>c. c\<lparr>lnext := new\<rparr>) m }"

definition list_add :: "addr \<Rightarrow> addr \<Rightarrow> k_mem \<Rightarrow> k_mem option" where
  "list_add new head m = do { c \<leftarrow> links m head; list_add_between new head (lnext c) m }"

text \<open>
  The offset of the member \<open>node\<close> behind an \<open>int\<close> and an array of 32 characters, with pointers of eight bytes, and the
  size of the record.
\<close>

abbreviation NODE_OFFSET :: nat where "NODE_OFFSET \<equiv> 40"
abbreviation SCORE_SIZE :: nat where "SCORE_SIZE \<equiv> 64"
abbreviation NAMESIZE :: nat where "NAMESIZE \<equiv> 32"

definition container_of :: "addr \<Rightarrow> addr option" where
  "container_of ptr = (if NODE_OFFSET \<le> ptr then Some (ptr - NODE_OFFSET) else None)"

section \<open>The program\<close>

text \<open>\<open>LIST_HEAD(head)\<close> at the address of the variable.\<close>

definition LIST_HEAD :: "addr \<Rightarrow> k_mem" where
  "LIST_HEAD head = \<lparr>links = [head \<mapsto> \<lparr>lprev = head, lnext = head\<rparr>], recs = (\<lambda>_. None)\<rparr>"

text \<open>
  The loop that fills the list: \<open>blocks i\<close> is what the \<open>i\<close>-th \<open>malloc\<close> returns (\<open>None\<close> is \<open>NULL\<close>), \<open>garbage\<close> the uninitialised
  links of a new record, \<open>rnd k\<close> the \<open>k\<close>-th number of \<open>rand\<close>.
\<close>

definition k_record :: "(nat \<Rightarrow> int) \<Rightarrow> nat \<Rightarrow> k_score" where
  "k_record rnd i = \<lparr>k_id = int i, k_name = take (NAMESIZE - 1) (''stu'' @ sdec (int i)),
     k_math = rnd (2 * i) mod 100, k_chinese = rnd (2 * i + 1) mod 100\<rparr>"

fun k_fill :: "(nat \<Rightarrow> addr option) \<Rightarrow> list_head \<Rightarrow> (nat \<Rightarrow> int) \<Rightarrow> addr \<Rightarrow> nat list \<Rightarrow> k_mem \<Rightarrow> k_mem outcome option" where
  "k_fill blocks garbage rnd head [] m = Some (Done m)"
| "k_fill blocks garbage rnd head (i # is) m = (case blocks i of
       None \<Rightarrow> Some (Exit 1 m)
     | Some b \<Rightarrow> do {
         m \<leftarrow> list_add (b + NODE_OFFSET) head
           (m\<lparr>links := (links m)(b + NODE_OFFSET \<mapsto> garbage), recs := (recs m)(b \<mapsto> k_record rnd i)\<rparr>);
         k_fill blocks garbage rnd head is m })"

text \<open>The loop that prints and the loop that looks for the id 5; the latter ends with \<open>cur\<close> and \<open>datap\<close>.\<close>

partial_function (option) k_print :: "k_mem \<Rightarrow> addr \<Rightarrow> addr \<Rightarrow> k_score list option" where
  "k_print m head cur =
     (if cur = head then Some []
      else do { datap \<leftarrow> container_of cur;
                d \<leftarrow> recs m datap;
                c \<leftarrow> links m cur;
                ds \<leftarrow> k_print m head (lnext c);
                Some (d # ds) })"

partial_function (option) k_find :: "k_mem \<Rightarrow> addr \<Rightarrow> addr \<Rightarrow> addr \<Rightarrow> (addr \<times> addr) option" where
  "k_find m head cur datap =
     (if cur = head then Some (cur, datap)
      else do { datap \<leftarrow> container_of cur;
                d \<leftarrow> recs m datap;
                if k_id d = 5 then Some (cur, datap)
                else do { c \<leftarrow> links m cur; k_find m head (lnext c) datap } })"

datatype k_line = Record k_score | Not_found

definition k_main :: "(nat \<Rightarrow> addr option) \<Rightarrow> list_head \<Rightarrow> (nat \<Rightarrow> int) \<Rightarrow> addr \<Rightarrow> k_line list outcome option" where
  "k_main blocks garbage rnd head = do {
     r \<leftarrow> k_fill blocks garbage rnd head [0..<7] (LIST_HEAD head);
     case r of Exit n m \<Rightarrow> Some (Exit n [])
     | Done m \<Rightarrow> do {
         c \<leftarrow> links m head;
         ds \<leftarrow> k_print m head (lnext c);
         (cur, datap) \<leftarrow> k_find m head (lnext c) 0;
         if cur = head then Some (Exit 0 (map Record ds @ [Not_found]))
         else do { d \<leftarrow> recs m datap; Some (Exit 0 (map Record ds @ [Record d])) } } }"

section \<open>Rings of records\<close>

definition next_of :: "k_mem \<Rightarrow> addr \<Rightarrow> addr option" where
  "next_of m a = map_option lnext (links m a)"

definition prev_of :: "k_mem \<Rightarrow> addr \<Rightarrow> addr option" where
  "prev_of m a = map_option lprev (links m a)"

text \<open>From \<open>head\<close> the links visit the members of the blocks \<open>bs\<close>, in both directions, and the records there are \<open>ds\<close>.\<close>

definition node_of :: "addr \<Rightarrow> addr" where
  "node_of b = b + NODE_OFFSET"

definition k_ring :: "k_mem \<Rightarrow> addr \<Rightarrow> addr list \<Rightarrow> k_score list \<Rightarrow> bool" where
  "k_ring m head bs ds \<longleftrightarrow>
     chain (next_of m) (head # map node_of bs @ [head]) \<and>
     chain (prev_of m) (head # rev (map node_of bs) @ [head]) \<and>
     distinct (head # map node_of bs) \<and> map (recs m) bs = map Some ds"

lemma container_of_node [simp]: "container_of (node_of b) = Some b"
  by (simp add: container_of_def node_of_def)

lemma set_links_Some [simp]: "links m p = Some c \<Longrightarrow> set_links p f m = Some (m\<lparr>links := (links m)(p \<mapsto> f c)\<rparr>)"
  by (simp add: set_links_def)

text \<open>The four assignments of \<open>list_add\<close>.\<close>

lemma list_add_links:
  assumes "links m head = Some ch" "lnext ch = f" "links m f = Some cf" "links m n = Some g" "n \<noteq> head" "n \<noteq> f"
  shows "\<exists>m'. list_add n head m = Some m' \<and> next_of m' = (next_of m)(n \<mapsto> f, head \<mapsto> n)
    \<and> prev_of m' = (prev_of m)(f \<mapsto> n, n \<mapsto> head) \<and> recs m' = recs m"
proof (cases "f = head")
  case True
  with assms show ?thesis
    by (auto simp: list_add_def list_add_between_def next_of_def prev_of_def fun_eq_iff)
next
  case False
  with assms show ?thesis
    by (auto simp: list_add_def list_add_between_def next_of_def prev_of_def fun_eq_iff)
qed

lemma node_of_inj [simp]: "node_of a = node_of b \<longleftrightarrow> a = b"
  by (simp add: node_of_def)

lemma chain_next: "chain f (a # b # xs) \<Longrightarrow> f a = Some b"
  by simp

text \<open>Adding in front, whatever the links of the new member were.\<close>

lemma list_add_ring:
  assumes ring: "k_ring m head bs ds" and new: "links m (node_of b) = Some g" "recs m b = Some d"
    and fresh: "node_of b \<noteq> head" "b \<notin> set bs"
  shows "\<exists>m'. list_add (node_of b) head m = Some m' \<and> k_ring m' head (b # bs) (d # ds) \<and> recs m' = recs m"
proof -
  let ?xs = "map node_of bs"
  define f where "f = hd (?xs @ [head])"
  define P where "P = butlast (head # rev ?xs)"
  have nx: "chain (next_of m) ([] @ head # f # tl (?xs @ [head]))"
    using ring by (cases bs) (auto simp: k_ring_def f_def)
  have P: "head # rev ?xs = P @ [f]"
    by (cases bs) (auto simp: P_def f_def)
  have pv: "chain (prev_of m) (P @ f # head # [])"
  proof -
    have eq: "P @ f # head # [] = (head # rev ?xs) @ [head]" unfolding P by simp
    show ?thesis unfolding eq using ring by (simp add: k_ring_def)
  qed
  have dist: "distinct (P @ [f])" unfolding P [symmetric] using ring by (auto simp: k_ring_def)
  have n: "node_of b \<notin> set (head # ?xs)" using fresh by auto
  have f: "f \<in> set (head # ?xs)" by (cases bs) (auto simp: f_def)
  obtain ch where ch: "links m head = Some ch" "lnext ch = f" using nx by (auto simp: next_of_def)
  have "prev_of m f = Some head" using pv by (auto dest!: chain_appendD2)
  then obtain cf where cf: "links m f = Some cf" by (auto simp: prev_of_def)
  obtain m' where m': "list_add (node_of b) head m = Some m'" "next_of m' = (next_of m)(node_of b \<mapsto> f, head \<mapsto> node_of b)"
      "prev_of m' = (prev_of m)(f \<mapsto> node_of b, node_of b \<mapsto> head)" "recs m' = recs m"
    using list_add_links [OF ch cf new(1)] n f by auto
  have "chain (next_of m') ([] @ head # node_of b # f # tl (?xs @ [head]))"
  proof (rule chain_insert [OF nx])
    show "distinct (butlast ([] @ head # f # tl (?xs @ [head])))"
      using ring by (cases bs) (auto simp: k_ring_def f_def butlast_append)
    show "node_of b \<notin> set ([] @ head # f # tl (?xs @ [head]))" using n by (cases bs) (auto simp: f_def)
  qed (use m' n in auto)
  moreover have "chain (prev_of m') (P @ f # node_of b # head # [])"
  proof (rule chain_insert [OF pv])
    show "distinct (butlast (P @ f # head # []))" using dist by (simp add: butlast_append)
    have "set (P @ [f]) = set (head # ?xs)" unfolding P [symmetric] by simp
    then show "node_of b \<notin> set (P @ f # head # [])" using n by auto
  qed (use m' n f in auto)
  moreover have "P @ f # node_of b # head # [] = head # rev (map node_of (b # bs)) @ [head]"
    using P by simp
  ultimately have "k_ring m' head (b # bs) (d # ds)"
    using ring n new m' by (cases bs) (auto simp: k_ring_def f_def)
  with m' show ?thesis by blast
qed

text \<open>The loops over a ring.\<close>

lemma k_print_ring:
  assumes "chain (next_of m) (map node_of bs @ [head])" "head \<notin> node_of ` set bs" "map (recs m) bs = map Some ds"
  shows "k_print m head (hd (map node_of bs @ [head])) = Some ds"
  using assms
proof (induction bs arbitrary: ds)
  case Nil
  then show ?case by (simp add: k_print.simps)
next
  case (Cons b bs)
  obtain d ds' where ds: "ds = d # ds'" "recs m b = Some d" "map (recs m) bs = map Some ds'"
    using Cons.prems(3) by (cases ds) auto
  have tl: "next_of m (node_of b) = Some (hd (map node_of bs @ [head]))" "chain (next_of m) (map node_of bs @ [head])"
    using Cons.prems(1) by (simp_all add: chain_Cons)
  then obtain c where "links m (node_of b) = Some c" "lnext c = hd (map node_of bs @ [head])"
    by (auto simp: next_of_def)
  with Cons.IH [OF tl(2) _ ds(3)] Cons.prems(2) ds show ?case by (subst k_print.simps) auto
qed

lemma k_find_ring:
  assumes "chain (next_of m) (map node_of bs @ [head])" "head \<notin> node_of ` set bs" "map (recs m) bs = map Some ds"
  shows "\<exists>cur datap'. k_find m head (hd (map node_of bs @ [head])) datap = Some (cur, datap') \<and>
    (case List.find (\<lambda>d. k_id d = 5) ds of None \<Rightarrow> cur = head
     | Some d \<Rightarrow> cur \<noteq> head \<and> container_of cur = Some datap' \<and> recs m datap' = Some d)"
  using assms
proof (induction bs arbitrary: ds datap)
  case Nil
  then show ?case by (simp add: k_find.simps)
next
  case (Cons b bs)
  obtain d ds' where ds: "ds = d # ds'" "recs m b = Some d" "map (recs m) bs = map Some ds'"
    using Cons.prems(3) by (cases ds) auto
  have tl: "next_of m (node_of b) = Some (hd (map node_of bs @ [head]))" "chain (next_of m) (map node_of bs @ [head])"
    using Cons.prems(1) by (simp_all add: chain_Cons)
  then obtain c where "links m (node_of b) = Some c" "lnext c = hd (map node_of bs @ [head])"
    by (auto simp: next_of_def)
  with Cons.IH [OF tl(2) _ ds(3), of b] Cons.prems(2) ds show ?case by (subst k_find.simps) auto
qed

lemma k_ring_walk:
  assumes "k_ring m head bs ds"
  shows "\<exists>c cur datap'. links m head = Some c \<and> k_print m head (lnext c) = Some ds \<and>
    k_find m head (lnext c) datap = Some (cur, datap') \<and>
    (case List.find (\<lambda>d. k_id d = 5) ds of
       None \<Rightarrow> cur = head | Some e \<Rightarrow> cur \<noteq> head \<and> container_of cur = Some datap' \<and> recs m datap' = Some e)"
proof -
  have r: "chain (next_of m) (map node_of bs @ [head])" "next_of m head = Some (hd (map node_of bs @ [head]))"
    "head \<notin> node_of ` set bs" "map (recs m) bs = map Some ds"
    using assms by (auto simp: k_ring_def chain_Cons)
  then obtain c where "links m head = Some c" "lnext c = hd (map node_of bs @ [head])" by (auto simp: next_of_def)
  with k_print_ring [OF r(1,3,4)] k_find_ring [OF r(1,3,4), of datap] show ?thesis by auto
qed

text \<open>C25: On a ring of records through their members, whatever the addresses: \<open>list_add\<close> of the member of a new record
  gives the ring with that record in front; the loop over the ring then reaches the records in order, each found from its
  member by \<open>container_of\<close>, and stops at the head; the search stops at the first record with the id 5 or, when there is none,
  at the head.\<close>

theorem kernel_list:
  assumes ring: "k_ring m head bs ds" and new: "links m (node_of b) = Some g" "recs m b = Some d"
    and fresh: "node_of b \<noteq> head" "b \<notin> set bs"
  shows "\<exists>m' c cur datap'. list_add (node_of b) head m = Some m' \<and> k_ring m' head (b # bs) (d # ds) \<and>
    links m' head = Some c \<and> k_print m' head (lnext c) = Some (d # ds) \<and>
    k_find m' head (lnext c) datap = Some (cur, datap') \<and>
    (case List.find (\<lambda>d. k_id d = 5) (d # ds) of
       None \<Rightarrow> cur = head | Some e \<Rightarrow> cur \<noteq> head \<and> container_of cur = Some datap' \<and> recs m' datap' = Some e)"
proof -
  obtain m' where m': "list_add (node_of b) head m = Some m'" "k_ring m' head (b # bs) (d # ds)"
    using list_add_ring [OF assms] by blast
  from k_ring_walk [OF this(2), of datap] m' show ?thesis by blast
qed

theorem kernel_list_witness:
  "\<exists>m' c. list_add 140 8 (\<lparr>links = [8 \<mapsto> \<lparr>lprev = 8, lnext = 8\<rparr>, 140 \<mapsto> \<lparr>lprev = 0, lnext = 0\<rparr>],
      recs = [100 \<mapsto> k_record (\<lambda>_. 7) 5]\<rparr>) = Some m' \<and>
    links m' 8 = Some c \<and> k_print m' 8 (lnext c) = Some [k_record (\<lambda>_. 7) 5]"
proof -
  let ?m = "\<lparr>links = [8 \<mapsto> \<lparr>lprev = 8, lnext = 8\<rparr>, 140 \<mapsto> \<lparr>lprev = 0, lnext = 0\<rparr>],
      recs = [100 \<mapsto> k_record (\<lambda>_. 7) 5]\<rparr>"
  have "k_ring ?m 8 [] []" by (simp add: k_ring_def next_of_def prev_of_def)
  from kernel_list [OF this, of 100 "\<lparr>lprev = 0, lnext = 0\<rparr>" "k_record (\<lambda>_. 7) 5"] show ?thesis
    by (simp add: node_of_def) blast
qed

section \<open>The output of the program\<close>

lemma k_ring_frame:
  assumes "k_ring m head bs ds" "node_of b \<noteq> head" "b \<notin> set bs"
  shows "k_ring (m\<lparr>links := (links m)(node_of b \<mapsto> g), recs := (recs m)(b \<mapsto> d)\<rparr>) head bs ds"
proof -
  let ?m = "m\<lparr>links := (links m)(node_of b \<mapsto> g), recs := (recs m)(b \<mapsto> d)\<rparr>"
  have same: "next_of ?m a = next_of m a" "prev_of ?m a = prev_of m a" if "a \<in> set (head # map node_of bs)" for a
    using that assms by (auto simp: next_of_def prev_of_def)
  have "chain (next_of ?m) (head # map node_of bs @ [head])"
    by (rule chain_frame [of "next_of m"]) (use assms same in \<open>auto simp: k_ring_def butlast_append\<close>)
  moreover have "chain (prev_of ?m) (head # rev (map node_of bs) @ [head])"
    by (rule chain_frame [of "prev_of m"]) (use assms same in \<open>auto simp: k_ring_def butlast_append\<close>)
  moreover have "map (recs ?m) bs = map (recs m) bs" using assms(3) by (intro map_cong) auto
  then have "map (recs ?m) bs = map Some ds" by (rule trans) (use assms(1) in \<open>unfold k_ring_def, blast\<close>)
  ultimately show ?thesis using assms(1) unfolding k_ring_def by blast
qed

lemma k_fill_ring:
  assumes "k_ring m head bs ds" "distinct is"
    and "\<And>i b. i \<in> set is \<Longrightarrow> blocks i = Some b \<Longrightarrow> node_of b \<noteq> head \<and> b \<notin> set bs"
    and "\<And>i j. i \<in> set is \<Longrightarrow> j \<in> set is \<Longrightarrow> blocks i = blocks j \<Longrightarrow> blocks i \<noteq> None \<Longrightarrow> i = j"
  shows "\<exists>m'. if None \<in> blocks ` set is then k_fill blocks garbage rnd head is m = Some (Exit 1 m')
    else k_fill blocks garbage rnd head is m = Some (Done m') \<and>
      k_ring m' head (rev (map (\<lambda>i. the (blocks i)) is) @ bs) (rev (map (k_record rnd) is) @ ds)"
  using assms
proof (induction "is" arbitrary: m bs ds)
  case (Cons i "is")
  show ?case
  proof (cases "blocks i")
    case (Some b)
    let ?m = "m\<lparr>links := (links m)(node_of b \<mapsto> garbage), recs := (recs m)(b \<mapsto> k_record rnd i)\<rparr>"
    have b: "node_of b \<noteq> head" "b \<notin> set bs" using Cons.prems(3) [of i b] Some by auto
    obtain m' where m': "list_add (node_of b) head ?m = Some m'" "k_ring m' head (b # bs) (k_record rnd i # ds)"
      using list_add_ring [OF k_ring_frame [OF Cons.prems(1) b] _ _ b, where g = garbage and d = "k_record rnd i"] by auto
    have "k_fill blocks garbage rnd head (i # is) m = k_fill blocks garbage rnd head is m'"
      using m'(1) by (simp add: Some node_of_def)
    moreover have "\<exists>m''. if None \<in> blocks ` set is then k_fill blocks garbage rnd head is m' = Some (Exit 1 m'')
      else k_fill blocks garbage rnd head is m' = Some (Done m'') \<and>
        k_ring m'' head (rev (map (\<lambda>i. the (blocks i)) is) @ b # bs) (rev (map (k_record rnd) is) @ k_record rnd i # ds)"
    proof (rule Cons.IH [OF m'(2)])
      show "node_of b' \<noteq> head \<and> b' \<notin> set (b # bs)" if "j \<in> set is" "blocks j = Some b'" for j b'
        using Cons.prems(2) Cons.prems(3) [of j b'] Cons.prems(4) [of i j] that Some by auto
    qed (use Cons.prems in auto)
    ultimately show ?thesis using Some by (auto split: if_splits)
  qed auto
qed simp

text \<open>
  The blocks that \<open>malloc\<close> returns overlap neither each other nor the head: the program prints the records in the
  opposite of the order in which they were made, and the one with the id 5 once more; when memory is out it ends with 1.
\<close>

theorem k_program:
  assumes apart: "\<And>i b. i < 7 \<Longrightarrow> blocks i = Some b \<Longrightarrow> b + SCORE_SIZE \<le> head \<or> head + 16 \<le> b"
    "\<And>i j b b'. i < j \<Longrightarrow> j < 7 \<Longrightarrow> blocks i = Some b \<Longrightarrow> blocks j = Some b' \<Longrightarrow> b + SCORE_SIZE \<le> b' \<or> b' + SCORE_SIZE \<le> b"
  shows "k_main blocks garbage rnd head =
    Some (if None \<in> blocks ` {..<7} then Exit 1 []
          else Exit 0 (map Record (rev (map (k_record rnd) [0..<7])) @ [Record (k_record rnd 5)]))"
proof -
  have ring: "k_ring (LIST_HEAD head) head [] []" by (simp add: k_ring_def LIST_HEAD_def next_of_def prev_of_def)
  have inj: "i = j" if ij: "i < 7" "j < 7" "blocks i = blocks j" "blocks i \<noteq> None" for i j
  proof (rule ccontr)
    assume "i \<noteq> j"
    with ij apart(2) [of i j] apart(2) [of j i] show False by (cases "i < j") auto
  qed
  have "\<exists>m'. if None \<in> blocks ` set [0..<7] then k_fill blocks garbage rnd head [0..<7] (LIST_HEAD head) = Some (Exit 1 m')
    else k_fill blocks garbage rnd head [0..<7] (LIST_HEAD head) = Some (Done m') \<and>
      k_ring m' head (rev (map (\<lambda>i. the (blocks i)) [0..<7]) @ []) (rev (map (k_record rnd) [0..<7]) @ [])"
  proof (rule k_fill_ring [OF ring])
    show "node_of b \<noteq> head \<and> b \<notin> set []" if "i \<in> set [0..<7]" "blocks i = Some b" for i b
      using apart(1) [of i b] that by (auto simp: node_of_def)
  qed (use inj in auto)
  moreover have e: "set [0..<7] = {..<7::nat}" by auto
  ultimately obtain m' where fill: "if None \<in> blocks ` {..<7}
    then k_fill blocks garbage rnd head [0..<7] (LIST_HEAD head) = Some (Exit 1 m')
    else k_fill blocks garbage rnd head [0..<7] (LIST_HEAD head) = Some (Done m') \<and>
      k_ring m' head (rev (map (\<lambda>i. the (blocks i)) [0..<7])) (rev (map (k_record rnd) [0..<7]))"
    unfolding e append_Nil2 by blast
  have find: "List.find (\<lambda>d. k_id d = 5) (rev (map (k_record rnd) [0..<7])) = Some (k_record rnd 5)"
    by (simp add: upt_rec k_record_def)
  show ?thesis
  proof (cases "None \<in> blocks ` {..<7}")
    case True
    with fill show ?thesis by (simp add: k_main_def)
  next
    case False
    with fill k_ring_walk [of m' head _ _ 0] find show ?thesis by (fastforce simp: k_main_def simp del: upt_rec_numeral)
  qed
qed

end
