(* ===== verification/MsgBasic.thy ===== *)
theory MsgBasic
  imports Decimal "HOL-Library.Sublist"
begin

text \<open>
  The message queue of \<open>ipc/xsi/msg/basic\<close>: \<open>rcver.c\<close> creates the queue and prints the records that arrive, any number of
  processes run \<open>snder.c\<close>, and a signal makes the receiver remove the queue. The system is a step relation; the theorem says that the records
  are printed once and in the order they were sent.
\<close>

section \<open>State\<close>

record msg_rec =
  m_name :: string
  m_math :: int
  m_chinese :: int

datatype r_pc = R_start | R_wait | R_arm | R_end int | R_killed
datatype s_pc = S_start | S_send | S_end int

text \<open>The queue, \<open>None\<close> when it does not exist; whether the receiver has installed its handlers; all senders.\<close>

record msg_sys =
  mqueue :: "msg_rec list option"
  receiver :: r_pc
  armed :: bool
  sender :: "nat \<Rightarrow> s_pc"
  sent :: "msg_rec list"
  shown :: "msg_rec list"

text \<open>The text the receiver prints for a record, and the record of a sender; \<open>rnd\<close> are the results of \<open>rand\<close>.\<close>

definition m_text :: "msg_rec \<Rightarrow> string" where
  "m_text m = ''NAME = '' @ m_name m @ ''\<newline>MATH = '' @ sdec (m_math m) @ ''\<newline>CHINESE = '' @ sdec (m_chinese m) @ ''\<newline>''"

definition m_record :: "(nat \<Rightarrow> int) \<Rightarrow> msg_rec" where
  "m_record rnd = \<lparr>m_name = ''Alan'', m_math = rnd 0 mod 100, m_chinese = rnd 1 mod 100\<rparr>"

section \<open>The programs\<close>

inductive rcver :: "msg_sys \<Rightarrow> msg_sys \<Rightarrow> bool" where
  no_queue: "receiver s = R_start \<Longrightarrow> rcver s (s\<lparr>receiver := R_end 1\<rparr>)"
| msgget: "receiver s = R_start \<Longrightarrow> rcver s (s\<lparr>receiver := R_wait, mqueue := Some (case mqueue s of None \<Rightarrow> [] | Some q \<Rightarrow> q)\<rparr>)"
| msgrcv: "receiver s = R_wait \<Longrightarrow> mqueue s = Some (m # q) \<Longrightarrow>
    rcver s (s\<lparr>receiver := R_arm, mqueue := Some q, shown := shown s @ [m]\<rparr>)"
| msgrcv_fails: "receiver s = R_wait \<Longrightarrow> rcver s (s\<lparr>receiver := R_end 1\<rparr>)"
| arm: "receiver s = R_arm \<Longrightarrow> rcver s (s\<lparr>receiver := R_wait, armed := True\<rparr>)"

text \<open>A signal: \<open>msg_rmid\<close> once it is installed, and the end of the process before.\<close>

inductive r_signal :: "msg_sys \<Rightarrow> msg_sys \<Rightarrow> bool" where
  msg_rmid: "receiver s \<in> {R_start, R_wait, R_arm} \<Longrightarrow> armed s \<Longrightarrow> r_signal s (s\<lparr>receiver := R_end 1, mqueue := None\<rparr>)"
| default: "receiver s \<in> {R_start, R_wait, R_arm} \<Longrightarrow> \<not> armed s \<Longrightarrow> r_signal s (s\<lparr>receiver := R_killed\<rparr>)"

inductive snder :: "(nat \<Rightarrow> nat \<Rightarrow> int) \<Rightarrow> nat \<Rightarrow> msg_sys \<Rightarrow> msg_sys \<Rightarrow> bool" for rnd i where
  msgget_fails: "sender s i = S_start \<Longrightarrow> snder rnd i s (s\<lparr>sender := (sender s)(i := S_end 1)\<rparr>)"
| msgget_ok: "sender s i = S_start \<Longrightarrow> mqueue s \<noteq> None \<Longrightarrow> snder rnd i s (s\<lparr>sender := (sender s)(i := S_send)\<rparr>)"
| msgsnd: "sender s i = S_send \<Longrightarrow> mqueue s = Some q \<Longrightarrow>
    snder rnd i s (s\<lparr>sender := (sender s)(i := S_end 0), mqueue := Some (q @ [m_record (rnd i)]), sent := sent s @ [m_record (rnd i)]\<rparr>)"
| msgsnd_fails: "sender s i = S_send \<Longrightarrow> snder rnd i s (s\<lparr>sender := (sender s)(i := S_end 1)\<rparr>)"

inductive msg_step :: "(nat \<Rightarrow> nat \<Rightarrow> int) \<Rightarrow> msg_sys \<Rightarrow> msg_sys \<Rightarrow> bool" for rnd where
  "rcver s t \<Longrightarrow> msg_step rnd s t"
| "r_signal s t \<Longrightarrow> msg_step rnd s t"
| "snder rnd i s t \<Longrightarrow> msg_step rnd s t"

definition msg_start :: msg_sys where
  "msg_start = \<lparr>mqueue = None, receiver = R_start, armed = False, sender = (\<lambda>_. S_start), sent = [], shown = []\<rparr>"

section \<open>In order and once\<close>

text \<open>As long as the queue exists it holds what was sent and not yet shown; only the receiver of an installed handler removes it.\<close>

definition msg_inv :: "msg_sys \<Rightarrow> bool" where
  "msg_inv s \<longleftrightarrow>
     prefix (shown s) (sent s) \<and>
     (\<forall>q. mqueue s = Some q \<longrightarrow> shown s @ q = sent s) \<and>
     (receiver s = R_start \<longrightarrow> mqueue s = None \<and> sent s = [] \<and> \<not> armed s) \<and>
     (receiver s = R_wait \<or> receiver s = R_arm \<longrightarrow> mqueue s \<noteq> None) \<and>
     (mqueue s = None \<longrightarrow> sent s = [] \<or> receiver s = R_end 1 \<and> armed s)"

lemma rcver_inv: "rcver s t \<Longrightarrow> msg_inv s \<Longrightarrow> msg_inv t"
proof (induction rule: rcver.induct)
  case (msgrcv s m q)
  then have "shown s @ m # q = sent s" by (simp add: msg_inv_def)
  then have "prefix (shown s @ [m]) (sent s)" by (metis append.assoc append_Cons append_Nil prefixI)
  with msgrcv show ?case by (simp add: msg_inv_def)
qed (auto simp: msg_inv_def)

lemma r_signal_inv: "r_signal s t \<Longrightarrow> msg_inv s \<Longrightarrow> msg_inv t"
  by (induction rule: r_signal.induct) (auto simp: msg_inv_def)

lemma snder_inv: "snder rnd i s t \<Longrightarrow> msg_inv s \<Longrightarrow> msg_inv t"
proof (induction rule: snder.induct)
  case (msgsnd s q)
  then show ?case by (simp add: msg_inv_def prefix_def) (metis append.assoc)
qed (auto simp: msg_inv_def)

lemma msg_reach: "(msg_step rnd)\<^sup>*\<^sup>* msg_start s \<Longrightarrow> msg_inv s"
proof (induction rule: rtranclp_induct)
  case base
  show ?case by (simp add: msg_inv_def msg_start_def)
next
  case (step s t)
  then show ?case by (auto elim!: msg_step.cases intro: rcver_inv r_signal_inv snder_inv)
qed

text \<open>Whatever the processes do in whatever order: what was printed is a beginning of what was sent, the rest is in the queue; records
  are lost only when a handler of the receiver removed the queue. A receiver killed before its first record leaves the queue behind.\<close>

lemma msg_in_order:
  assumes "(msg_step rnd)\<^sup>*\<^sup>* msg_start s"
  shows "\<exists>rest. sent s = shown s @ rest \<and> (\<forall>q. mqueue s = Some q \<longrightarrow> rest = q)
    \<and> (mqueue s = None \<and> rest \<noteq> [] \<longrightarrow> receiver s = R_end 1 \<and> armed s)"
proof -
  have i: "msg_inv s" by (rule msg_reach [OF assms])
  then obtain rest where r: "sent s = shown s @ rest" by (auto simp: msg_inv_def prefix_def)
  have "rest = q" if "mqueue s = Some q" for q
    using i that r by (simp add: msg_inv_def)
  moreover have "receiver s = R_end 1 \<and> armed s" if "mqueue s = None" "rest \<noteq> []"
    using i that r by (simp add: msg_inv_def)
  ultimately show ?thesis using r by (intro exI [of _ rest]) simp
qed

lemma msg_left_behind:
  "\<exists>s. (msg_step rnd)\<^sup>*\<^sup>* msg_start s \<and> receiver s = R_killed \<and> mqueue s = Some []"
proof -
  let ?a = "msg_start\<lparr>receiver := R_wait, mqueue := Some []\<rparr>"
  have "msg_step rnd msg_start ?a"
    using rcver.msgget [of msg_start] by (intro msg_step.intros(1)) (simp add: msg_start_def)
  moreover have "msg_step rnd ?a (?a\<lparr>receiver := R_killed\<rparr>)"
    by (intro msg_step.intros(2) r_signal.default) (simp_all add: msg_start_def)
  ultimately have "(msg_step rnd)\<^sup>*\<^sup>* msg_start (?a\<lparr>receiver := R_killed\<rparr>)"
    by (meson converse_rtranclp_into_rtranclp r_into_rtranclp)
  then show ?thesis by (intro exI [of _ "?a\<lparr>receiver := R_killed\<rparr>"]) simp
qed

end
