(* ===== verification/MsgFtp.thy ===== *)
theory MsgFtp
  imports Prelude
begin

text \<open>
  The file server over a message queue, \<open>ipc/xsi/msg/myftp_msg\<close> (\<open>proto.h\<close>, \<open>server.c\<close>, \<open>cilent.c\<close>; the files of
  \<open>ipc/socket/dgram/myftp_udp\<close> are the same). Two state machines share one queue: the client sends a path, the
  server answers with the file in blocks of ten bytes and an end mark. One iteration of the \<open>switch\<close> of
  either \<open>main\<close> is a step, and the two processes are interleaved in every order. Both ends receive with type 0, "the
  first message", so that a client may take back its own request; the lemmas show what happens in
  every interleaving.
\<close>

section \<open>Messages\<close>

abbreviation MSG_PATH :: int where "MSG_PATH \<equiv> 1"
abbreviation MSG_DATA :: int where "MSG_DATA \<equiv> 2"
abbreviation MSG_EOT :: int where "MSG_EOT \<equiv> 3"
abbreviation PATHMAX :: nat where "PATHMAX \<equiv> 1024"
abbreviation DATAMAX :: nat where "DATAMAX \<equiv> 1024"
abbreviation BUF_SIZE :: nat where "BUF_SIZE \<equiv> 10"
abbreviation NUL :: char where "NUL \<equiv> CHR 0x00"

text \<open>
  A message is its type and the bytes behind it: the path in the structure \<open>msg_c2s_t\<close>, the four bytes of \<open>len\<close> and
  \<open>data\<close> in \<open>msg_s2c_t\<close>. The sizes given to \<open>msgsnd\<close> count the type as well, so that each message carries some
  bytes from behind the structure; nobody looks at them and they are left out.
\<close>

record msg =
  mtype :: int
  bytes :: string

text \<open>The sizes of the two structures without \<open>mtype\<close>, and a structure filled with zeros.\<close>

abbreviation C2S_SIZE :: nat where "C2S_SIZE \<equiv> PATHMAX"
abbreviation S2C_SIZE :: nat where "S2C_SIZE \<equiv> 4 + DATAMAX"

definition zero_msg :: "nat \<Rightarrow> msg" where
  "zero_msg n = \<lparr>mtype = 0, bytes = replicate n NUL\<rparr>"

text \<open>Bytes copied over the first bytes of an array.\<close>

definition overlay :: "string \<Rightarrow> string \<Rightarrow> string" where
  "overlay xs ys = xs @ drop (length xs) ys"

text \<open>\<open>strncpy(dst, src, n)\<close> fills up with zeros.\<close>

definition strncpy :: "string \<Rightarrow> nat \<Rightarrow> string" where
  "strncpy src n = take n src @ replicate (n - length src) NUL"

text \<open>The string in an array; undefined when it is not terminated.\<close>

definition c_str :: "string \<Rightarrow> string option" where
  "c_str xs = (if NUL \<in> set xs then Some (takeWhile (\<lambda>c. c \<noteq> NUL) xs) else None)"

definition msg_data :: "msg \<Rightarrow> string" where
  "msg_data m = drop 4 (bytes m)"

text \<open>
  The queue of the kernel, at most \<open>cap\<close> messages. \<open>ok\<close> tells whether the call succeeds: a signal or the removal of the
  queue may fail it at any time. The outer \<open>None\<close>: the process sleeps. A message that is too long for the
  receiver stays in the queue.
\<close>

definition msgsnd :: "nat \<Rightarrow> bool \<Rightarrow> msg \<Rightarrow> msg list \<Rightarrow> (int \<times> msg list) option" where
  "msgsnd cap ok m q =
     (if \<not> ok then Some (- 1, q) else if length q < cap then Some (0, q @ [m]) else None)"

definition msgrcv :: "nat \<Rightarrow> bool \<Rightarrow> msg \<Rightarrow> msg list \<Rightarrow> (int \<times> msg \<times> msg list) option" where
  "msgrcv sz ok buf q =
     (if \<not> ok then Some (- 1, buf, q)
      else case q of
        [] \<Rightarrow> None
      | m # q' \<Rightarrow>
          if sz < length (bytes m) then Some (- 1, buf, q)
          else Some (int (length (bytes m)), \<lparr>mtype = mtype m, bytes = overlay (bytes m) (bytes buf)\<rparr>, q'))"

section \<open>The server\<close>

datatype server_state =
    server_state_start | server_state_wait_path | server_state_send_data
  | server_state_send_eot | server_state_fail | server_state_end

text \<open>An open file is its contents; the position is set by \<open>fseek\<close> before each \<open>fread\<close>.\<close>

record file_reader =
  hander :: "string option"
  offset :: nat

record server_context =
  sstate :: server_state
  reader :: file_reader
  send_msg :: msg
  recv_msg :: msg

text \<open>A process: it runs, has left by \<open>exit\<close>, was stopped by \<open>assert\<close>, or has met undefined behaviour.\<close>

datatype 'c proc = Run 'c | Exited int | Aborted | Undefined

definition server_init :: "int \<Rightarrow> int \<Rightarrow> server_context proc" where
  "server_init key msgid =
     (if key < 0 then Exited 1
      else if msgid < 0 then Exited 1
      else Run \<lparr>sstate = server_state_start, reader = \<lparr>hander = None, offset = 0\<rparr>,
             send_msg = zero_msg S2C_SIZE, recv_msg = zero_msg C2S_SIZE\<rparr>)"

text \<open>Case \<open>server_state_wait_path\<close>; \<open>fs\<close> gives the contents of the files that \<open>fopen\<close> opens.\<close>

definition server_wait_path ::
  "(string \<Rightarrow> string option) \<Rightarrow> bool \<Rightarrow> server_context \<Rightarrow> msg list \<Rightarrow> (server_context proc \<times> msg list) option" where
  "server_wait_path fs ok ctx q = do {
     (len, m, q) \<leftarrow> msgrcv C2S_SIZE ok (recv_msg ctx) q;
     let ctx = ctx\<lparr>recv_msg := m\<rparr>;
     Some (
       if len < 0 then Run (ctx\<lparr>sstate := server_state_fail\<rparr>)
       else if mtype m \<noteq> MSG_PATH then Aborted
       else if hander (reader ctx) \<noteq> None then Aborted
       else case c_str (bytes m) of
           None \<Rightarrow> Undefined
         | Some path \<Rightarrow>
             (case fs path of
                None \<Rightarrow> Run (ctx\<lparr>sstate := server_state_fail\<rparr>)
              | Some f \<Rightarrow> Run (ctx\<lparr>reader := \<lparr>hander = Some f, offset = 0\<rparr>, sstate := server_state_send_data\<rparr>)), q) }"

text \<open>
  Case \<open>server_state_send_data\<close>: the block is copied, zeros behind it included, into the message; \<open>len\<close> stays 0.
\<close>

definition server_send_data ::
  "nat \<Rightarrow> bool \<Rightarrow> server_context \<Rightarrow> msg list \<Rightarrow> (server_context proc \<times> msg list) option" where
  "server_send_data cap ok ctx q = (case hander (reader ctx) of
       None \<Rightarrow> Some (Aborted, q)
     | Some f \<Rightarrow> do {
         let got = take BUF_SIZE (drop (offset (reader ctx)) f);
         let buffer = overlay got (replicate BUF_SIZE NUL);
         if length got > 0 then do {
           let m = \<lparr>mtype = MSG_DATA,
             bytes = take 4 (bytes (zero_msg S2C_SIZE)) @ overlay buffer (drop 4 (bytes (zero_msg S2C_SIZE)))\<rparr>;
           (r, q) \<leftarrow> msgsnd cap ok m q;
           let ctx = ctx\<lparr>send_msg := m\<rparr>;
           Some (Run (
             if r < 0 then ctx\<lparr>sstate := server_state_fail\<rparr>
             else ctx\<lparr>sstate := server_state_send_data,
               reader := (reader ctx)\<lparr>offset := offset (reader ctx) + length got\<rparr>\<rparr>), q) }
         else Some (Run (ctx\<lparr>sstate := server_state_send_eot\<rparr>), q) })"

definition server_send_eot ::
  "nat \<Rightarrow> bool \<Rightarrow> server_context \<Rightarrow> msg list \<Rightarrow> (server_context proc \<times> msg list) option" where
  "server_send_eot cap ok ctx q = do {
     let m = (zero_msg S2C_SIZE)\<lparr>mtype := MSG_EOT\<rparr>;
     (r, q) \<leftarrow> msgsnd cap ok m q;
     let ctx = ctx\<lparr>send_msg := m\<rparr>;
     Some (Run (ctx\<lparr>sstate := if r < 0 then server_state_fail else server_state_end\<rparr>), q) }"

text \<open>One iteration of the loop of \<open>main\<close>: the process, the queue and what is printed. \<open>fseek\<close> to a position inside a
  regular file does not fail.\<close>

definition server_step ::
  "(string \<Rightarrow> string option) \<Rightarrow> nat \<Rightarrow> bool \<Rightarrow> server_context \<Rightarrow> msg list \<Rightarrow>
   (server_context proc \<times> msg list \<times> string list) option" where
  "server_step fs cap ok ctx q = (case sstate ctx of
       server_state_start \<Rightarrow> Some (Run (ctx\<lparr>sstate := server_state_wait_path\<rparr>), q, [])
     | server_state_wait_path \<Rightarrow> map_option (\<lambda>(p, q). (p, q, [])) (server_wait_path fs ok ctx q)
     | server_state_send_data \<Rightarrow> map_option (\<lambda>(p, q). (p, q, [])) (server_send_data cap ok ctx q)
     | server_state_send_eot \<Rightarrow> map_option (\<lambda>(p, q). (p, q, [])) (server_send_eot cap ok ctx q)
     | server_state_fail \<Rightarrow>
         Some (Run (ctx\<lparr>sstate := server_state_end\<rparr>), q, [''send date to client failed for unknown reason.''])
     | server_state_end \<Rightarrow> Some (Exited 0, q, []))"

section \<open>The client\<close>

datatype cilent_state =
    cilent_state_start | cilent_state_wait_data | cilent_state_send_path | cilent_state_recv_data
  | cilent_state_recv_eot | cilent_state_fail | cilent_state_end

record cilent_context =
  cstate :: cilent_state
  c_recv :: msg
  c_send :: msg

abbreviation FILEPATH :: string where
  "FILEPATH \<equiv> ''/home/wyl/linux_qianru/linux_c/ipc/xsi/msg/myftp_msg/data.txt''"

definition cilent_init :: "int \<Rightarrow> int \<Rightarrow> cilent_context proc" where
  "cilent_init key msgid =
     (if key < 0 then Exited 1
      else if msgid < 0 then Exited 1
      else Run \<lparr>cstate = cilent_state_start, c_recv = zero_msg S2C_SIZE, c_send = zero_msg C2S_SIZE\<rparr>)"

text \<open>
  Case \<open>cilent_state_wait_data\<close>. The result of \<open>msgrcv\<close> is kept in a \<open>size_t\<close>, so the test \<open>len < 0\<close> fails whatever
  it was, and a failure is found by \<open>assert\<close>: the type in the cleared structure is 0.
\<close>

definition cilent_wait_data ::
  "bool \<Rightarrow> cilent_context \<Rightarrow> msg list \<Rightarrow> (cilent_context proc \<times> msg list) option" where
  "cilent_wait_data ok ctx q = do {
     (len, m, q) \<leftarrow> msgrcv S2C_SIZE ok (zero_msg S2C_SIZE) q;
     let ctx = ctx\<lparr>c_recv := m\<rparr>;
     Some (
       if \<not> (mtype m = MSG_DATA \<or> mtype m = MSG_EOT) then Aborted
       else if mtype m = MSG_DATA then Run (ctx\<lparr>cstate := cilent_state_recv_data\<rparr>)
       else Run (ctx\<lparr>cstate := cilent_state_recv_eot\<rparr>), q) }"

definition cilent_step ::
  "nat \<Rightarrow> bool \<Rightarrow> cilent_context \<Rightarrow> msg list \<Rightarrow> (cilent_context proc \<times> msg list \<times> string list) option" where
  "cilent_step cap ok ctx q = (case cstate ctx of
       cilent_state_start \<Rightarrow>
         Some (Run (ctx\<lparr>c_send := \<lparr>mtype = MSG_PATH, bytes = strncpy FILEPATH PATHMAX\<rparr>,
           cstate := cilent_state_send_path\<rparr>), q, [])
     | cilent_state_send_path \<Rightarrow> do {
         (r, q) \<leftarrow> msgsnd cap ok (c_send ctx) q;
         Some (Run (ctx\<lparr>cstate := if r < 0 then cilent_state_fail else cilent_state_wait_data\<rparr>), q, []) }
     | cilent_state_wait_data \<Rightarrow> map_option (\<lambda>(p, q). (p, q, [])) (cilent_wait_data ok ctx q)
     | cilent_state_recv_data \<Rightarrow>
         if mtype (c_recv ctx) \<noteq> MSG_DATA then Some (Aborted, q, [])
         else (case c_str (msg_data (c_recv ctx)) of
             None \<Rightarrow> Some (Undefined, q, [])
           | Some s \<Rightarrow> Some (Run (ctx\<lparr>cstate := cilent_state_wait_data\<rparr>), q, [''recv data:\<newline>'' @ s @ ''\<newline>'']))
     | cilent_state_recv_eot \<Rightarrow>
         if mtype (c_recv ctx) \<noteq> MSG_EOT then Some (Aborted, q, [])
         else Some (Run (ctx\<lparr>cstate := cilent_state_end\<rparr>), q, [''recv data end.\<newline>''])
     | cilent_state_fail \<Rightarrow>
         Some (Run (ctx\<lparr>cstate := cilent_state_end\<rparr>), q, [''receive data from service failed for unkonwn reason''])
     | cilent_state_end \<Rightarrow> Some (Exited 0, q, []))"

section \<open>Server and client together\<close>

record ftp =
  srv :: "server_context proc"
  cli :: "cilent_context proc"
  queue :: "msg list"
  sout :: "string list"
  cout :: "string list"

text \<open>The step of either process; \<open>ok\<close>: the system call in it, if any, succeeds.\<close>

inductive ftp_step :: "(string \<Rightarrow> string option) \<Rightarrow> nat \<Rightarrow> bool \<Rightarrow> ftp \<Rightarrow> ftp \<Rightarrow> bool" for fs cap ok where
  server: "srv w = Run c \<Longrightarrow> server_step fs cap ok c (queue w) = Some (p, q, out) \<Longrightarrow>
    ftp_step fs cap ok w (w\<lparr>srv := p, queue := q, sout := sout w @ out\<rparr>)"
| cilent: "cli w = Run c \<Longrightarrow> cilent_step cap ok c (queue w) = Some (p, q, out) \<Longrightarrow>
    ftp_step fs cap ok w (w\<lparr>cli := p, queue := q, cout := cout w @ out\<rparr>)"

inductive ftp_reach :: "(string \<Rightarrow> string option) \<Rightarrow> nat \<Rightarrow> ftp \<Rightarrow> ftp \<Rightarrow> bool" for fs cap w0 where
  init: "ftp_reach fs cap w0 w0"
| step: "ftp_reach fs cap w0 w \<Longrightarrow> ftp_step fs cap ok w w' \<Longrightarrow> ftp_reach fs cap w0 w'"

definition ftp_start :: "int \<Rightarrow> int \<Rightarrow> ftp" where
  "ftp_start key msgid = \<lparr>srv = server_init key msgid, cli = cilent_init key msgid, queue = [], sout = [], cout = []\<rparr>"

section \<open>What the queue carries\<close>

text \<open>The blocks of a file, the messages made of them, and what the client prints for them.\<close>

definition nblocks :: "string \<Rightarrow> nat" where
  "nblocks f = (length f + 9) div BUF_SIZE"

definition block :: "string \<Rightarrow> nat \<Rightarrow> string" where
  "block f i = take BUF_SIZE (drop (BUF_SIZE * i) f)"

definition blocks :: "string \<Rightarrow> string list" where
  "blocks f = map (block f) [0..<nblocks f]"

definition path_msg :: msg where
  "path_msg = \<lparr>mtype = MSG_PATH, bytes = strncpy FILEPATH PATHMAX\<rparr>"

definition data_msg :: "string \<Rightarrow> msg" where
  "data_msg b = \<lparr>mtype = MSG_DATA,
     bytes = replicate 4 NUL @ overlay (overlay b (replicate BUF_SIZE NUL)) (replicate DATAMAX NUL)\<rparr>"

definition eot_msg :: msg where
  "eot_msg = (zero_msg S2C_SIZE)\<lparr>mtype := MSG_EOT\<rparr>"

definition shown :: "string \<Rightarrow> string" where
  "shown b = ''recv data:\<newline>'' @ takeWhile (\<lambda>c. c \<noteq> NUL) b @ ''\<newline>''"

definition stream :: "string \<Rightarrow> msg list" where
  "stream f = map data_msg (blocks f) @ [eot_msg]"

definition transcript :: "string \<Rightarrow> string list" where
  "transcript f = map shown (blocks f) @ [''recv data end.\<newline>'']"

abbreviation failtext :: string where
  "failtext \<equiv> ''receive data from service failed for unkonwn reason''"

lemma block_length: "length (block f i) \<le> BUF_SIZE"
  by (simp add: block_def)

lemma block_empty: "block f i = [] \<longleftrightarrow> nblocks f \<le> i"
  by (auto simp: block_def nblocks_def)

lemma block_offset: "take BUF_SIZE (drop (min (BUF_SIZE * j) (length f)) f) = block f j"
  by (auto simp: block_def min_def)

lemma next_offset: "j < nblocks f \<Longrightarrow> min (BUF_SIZE * j) (length f) + length (block f j) = min (BUF_SIZE * Suc j) (length f)"
  by (auto simp: block_def nblocks_def min_def)

lemma concat_blocks: "concat (blocks f) = f"
proof -
  have "concat (map (block f) [0..<n]) = take (BUF_SIZE * n) f" for n
  proof (induction n)
    case (Suc n)
    have "BUF_SIZE * Suc n = BUF_SIZE * n + BUF_SIZE" by simp
    then show ?case using Suc by (simp add: block_def take_add del: mult_Suc_right)
  qed simp
  moreover have "length f \<le> BUF_SIZE * nblocks f" unfolding nblocks_def by linarith
  ultimately show ?thesis by (simp add: blocks_def)
qed

lemma length_stream [simp]: "length (stream f) = Suc (nblocks f)"
  by (simp add: stream_def blocks_def)

lemma length_transcript [simp]: "length (transcript f) = Suc (nblocks f)"
  by (simp add: transcript_def blocks_def)

lemma stream_nth: "k < nblocks f \<Longrightarrow> stream f ! k = data_msg (block f k)" "stream f ! nblocks f = eot_msg"
  by (simp_all add: stream_def blocks_def nth_append)

lemma transcript_nth: "k < nblocks f \<Longrightarrow> transcript f ! k = shown (block f k)" "transcript f ! nblocks f = ''recv data end.\<newline>''"
  by (simp_all add: transcript_def blocks_def nth_append)

text \<open>Messages go through the queue unchanged.\<close>

lemma overlay_full: "length xs = length ys \<Longrightarrow> overlay xs ys = xs"
  by (simp add: overlay_def)

lemma overlay_length: "length xs \<le> length ys \<Longrightarrow> length (overlay xs ys) = length ys"
  by (simp add: overlay_def)

lemma msg_sizes [simp]:
  "length (bytes path_msg) = C2S_SIZE"
  "length b \<le> BUF_SIZE \<Longrightarrow> length (bytes (data_msg b)) = S2C_SIZE"
  "length (bytes eot_msg) = S2C_SIZE" "length (bytes (zero_msg n)) = n"
  "mtype path_msg = MSG_PATH" "mtype (data_msg b) = MSG_DATA" "mtype eot_msg = MSG_EOT"
  by (simp_all add: path_msg_def strncpy_def data_msg_def overlay_length eot_msg_def zero_msg_def)

lemma strncpy_str:
  assumes "NUL \<notin> set s" "length s < n"
  shows "c_str (strncpy s n) = Some s"
proof -
  obtain k where "n - length s = Suc k" using assms(2) by (metis Suc_diff_Suc)
  moreover have "takeWhile (\<lambda>c. c \<noteq> NUL) s = s" "\<forall>c \<in> set s. c \<noteq> NUL" using assms(1) by (auto simp: takeWhile_eq_all_conv)
  ultimately show ?thesis using assms(2) by (simp add: c_str_def strncpy_def takeWhile_append)
qed

lemma path_msg_str: "c_str (bytes path_msg) = Some FILEPATH"
proof -
  have "NUL \<notin> set FILEPATH" "length FILEPATH < PATHMAX" by simp_all
  from strncpy_str [OF this] show ?thesis unfolding path_msg_def by (simp only: msg.simps)
qed

lemma overlay_zeros: "length xs < n \<Longrightarrow> NUL \<in> set (overlay xs (replicate n NUL))"
  by (auto simp: overlay_def)

lemma takeWhile_overlay: "takeWhile (\<lambda>c. c \<noteq> NUL) (overlay xs (replicate n NUL)) = takeWhile (\<lambda>c. c \<noteq> NUL) xs"
proof -
  have "takeWhile (\<lambda>c. c \<noteq> NUL) (xs @ replicate k NUL) = takeWhile (\<lambda>c. c \<noteq> NUL) xs" for k
    by (induction xs) (cases k, simp_all)
  then show ?thesis by (simp add: overlay_def)
qed

lemma overlay_twice: "length xs \<le> n \<Longrightarrow> n < m \<Longrightarrow> NUL \<in> set (overlay (overlay xs (replicate n NUL)) (replicate m NUL))"
  by (simp add: overlay_zeros overlay_length)

lemma drop_replicate_app: "drop n (replicate n c @ xs) = xs"
  by simp

lemma data_msg_str:
  assumes "length b \<le> BUF_SIZE"
  shows "c_str (msg_data (data_msg b)) = Some (takeWhile (\<lambda>c. c \<noteq> NUL) b)"
proof -
  let ?o = "overlay (overlay b (replicate BUF_SIZE NUL)) (replicate DATAMAX NUL)"
  have "NUL \<in> set ?o"
  proof (rule overlay_twice [OF assms])
    show "BUF_SIZE < DATAMAX" by simp
  qed
  moreover have "msg_data (data_msg b) = ?o"
    unfolding msg_data_def data_msg_def msg.simps by (rule drop_replicate_app)
  ultimately show ?thesis unfolding c_str_def by (simp only: takeWhile_overlay if_True)
qed

section \<open>The invariant\<close>

text \<open>
  Before the server has taken the request, and the two ends after it: \<open>j\<close> messages of the stream sent, \<open>k\<close> taken out
  again. \<open>g\<close>: no system call has failed so far.
\<close>

definition server_pre :: "server_context proc \<Rightarrow> bool" where
  "server_pre p \<longleftrightarrow> (\<exists>c. p = Run c \<and> sstate c \<in> {server_state_start, server_state_wait_path}
     \<and> hander (reader c) = None \<and> recv_msg c = zero_msg C2S_SIZE)"

definition server_dead :: "server_context proc \<Rightarrow> bool" where
  "server_dead p \<longleftrightarrow> p = Exited 0 \<or> (\<exists>c. p = Run c \<and> sstate c \<in> {server_state_fail, server_state_end})"

definition server_on :: "string \<Rightarrow> nat \<Rightarrow> server_context proc \<Rightarrow> bool" where
  "server_on f j p \<longleftrightarrow> (\<exists>c. p = Run c \<and> hander (reader c) = Some f
     \<and> (sstate c = server_state_send_data \<and> j \<le> nblocks f \<and> offset (reader c) = min (BUF_SIZE * j) (length f)
       \<or> sstate c = server_state_send_eot \<and> j = nblocks f))"

definition cilent_pre :: "cilent_context proc \<Rightarrow> bool" where
  "cilent_pre p \<longleftrightarrow> (\<exists>c. p = Run c \<and> (cstate c = cilent_state_start
     \<or> cstate c = cilent_state_send_path \<and> c_send c = path_msg))"

definition cilent_failed :: "cilent_context proc \<Rightarrow> string list \<Rightarrow> bool" where
  "cilent_failed p out \<longleftrightarrow> (\<exists>c. p = Run c \<and> cstate c = cilent_state_fail) \<and> out = []
     \<or> ((\<exists>c. p = Run c \<and> cstate c = cilent_state_end) \<or> p = Exited 0) \<and> out = [failtext]"

definition cilent_waits :: "cilent_context proc \<Rightarrow> bool" where
  "cilent_waits p \<longleftrightarrow> (\<exists>c. p = Run c \<and> cstate c = cilent_state_wait_data)"

definition cilent_on :: "bool \<Rightarrow> string \<Rightarrow> nat \<Rightarrow> cilent_context proc \<Rightarrow> string list \<Rightarrow> bool" where
  "cilent_on g f k p out \<longleftrightarrow>
       cilent_waits p \<and> k \<le> nblocks f \<and> out = take k (transcript f)
     \<or> \<not> g \<and> p = Aborted \<and> k \<le> nblocks f \<and> out = take k (transcript f)
     \<or> (\<exists>c i. p = Run c \<and> cstate c = cilent_state_recv_data \<and> k = Suc i \<and> i < nblocks f
         \<and> c_recv c = data_msg (block f i) \<and> out = take i (transcript f))
     \<or> (\<exists>c. p = Run c \<and> cstate c = cilent_state_recv_eot) \<and> k = Suc (nblocks f)
         \<and> (\<forall>c. p = Run c \<longrightarrow> mtype (c_recv c) = MSG_EOT) \<and> out = take (nblocks f) (transcript f)
     \<or> ((\<exists>c. p = Run c \<and> cstate c = cilent_state_end) \<or> p = Exited 0) \<and> k = Suc (nblocks f) \<and> out = transcript f"

definition inv_pre :: "bool \<Rightarrow> bool \<Rightarrow> ftp \<Rightarrow> bool" where
  "inv_pre g ex w \<longleftrightarrow>
       (server_pre (srv w) \<or> \<not> g \<and> server_dead (srv w)) \<and> queue w = [] \<and> (cilent_pre (cli w) \<and> cout w = []
         \<or> \<not> g \<and> cilent_failed (cli w) (cout w))
     \<or> (server_pre (srv w) \<or> \<not> g \<and> server_dead (srv w)) \<and> queue w = [path_msg] \<and> cilent_waits (cli w) \<and> cout w = []
     \<or> (server_pre (srv w) \<or> \<not> g \<and> server_dead (srv w)) \<and> cli w = Aborted \<and> cout w = []
         \<and> (queue w = [] \<or> \<not> g \<and> queue w = [path_msg])
     \<or> (\<not> g \<or> \<not> ex) \<and> server_dead (srv w) \<and> queue w = [] \<and> (cilent_waits (cli w) \<or> \<not> g \<and> cli w = Aborted) \<and> cout w = []"

definition inv_on :: "bool \<Rightarrow> string \<Rightarrow> nat \<Rightarrow> nat \<Rightarrow> ftp \<Rightarrow> bool" where
  "inv_on g f k j w \<longleftrightarrow> k \<le> j \<and> j \<le> Suc (nblocks f) \<and> queue w = drop k (take j (stream f))
     \<and> (server_on f j (srv w) \<or> server_dead (srv w) \<and> (g \<longrightarrow> j = Suc (nblocks f)))
     \<and> cilent_on g f k (cli w) (cout w)"

definition ftp_inv :: "bool \<Rightarrow> string option \<Rightarrow> ftp \<Rightarrow> bool" where
  "ftp_inv g fo w \<longleftrightarrow> inv_pre g (fo \<noteq> None) w \<or> (\<exists>f k j. fo = Some f \<and> inv_on g f k j w)"

lemmas server_phases = server_pre_def server_dead_def server_on_def
lemmas cilent_phases = cilent_pre_def cilent_failed_def cilent_waits_def cilent_on_def
lemmas server_cases = server_step_def server_wait_path_def server_send_data_def server_send_eot_def
lemmas queue_calls = msgsnd_def msgrcv_def

lemma ftp_inv_start: "0 \<le> key \<Longrightarrow> 0 \<le> msgid \<Longrightarrow> ftp_inv True fo (ftp_start key msgid)"
  by (simp add: ftp_inv_def inv_pre_def ftp_start_def server_init_def cilent_init_def server_pre_def cilent_pre_def)

lemma take_path: "msgrcv C2S_SIZE True (zero_msg C2S_SIZE) [path_msg] = Some (int PATHMAX, path_msg, [])"
  by (simp add: msgrcv_def overlay_full)

text \<open>The server before it has the request.\<close>

lemma server_pre_step:
  assumes "server_pre (Run c)" "q = [] \<or> q = [path_msg]" "server_step fs cap ok c q = Some (p, q', out)"
  shows "(server_pre p \<or> \<not> ok \<and> server_dead p) \<and> q' = q \<or> q = [path_msg] \<and> q' = []
      \<and> (fs FILEPATH = None \<and> server_dead p \<or> (\<exists>f. fs FILEPATH = Some f \<and> server_on f 0 p))"
proof (cases "sstate c = server_state_start")
  case True
  with assms show ?thesis by (auto simp: server_pre_def server_step_def)
next
  case False
  then have w: "sstate c = server_state_wait_path" "recv_msg c = zero_msg C2S_SIZE" "hander (reader c) = None"
    using assms(1) by (auto simp: server_pre_def)
  show ?thesis
  proof (cases ok)
    case True
    then have "q = [path_msg]" using assms(2,3) w by (auto simp: server_step_def server_wait_path_def msgrcv_def)
    with assms(3) w True show ?thesis
      by (auto simp: server_step_def server_wait_path_def take_path path_msg_str server_dead_def server_on_def Let_def
          split: option.splits)
  next
    case False
    then show ?thesis using assms(3) w
      by (auto simp: server_step_def server_wait_path_def msgrcv_def server_dead_def)
  qed
qed

lemma server_dead_step:
  assumes "server_dead (Run c)" "server_step fs cap ok c q = Some (p, q', out)"
  shows "server_dead p \<and> q' = q"
  using assms by (auto simp: server_dead_def server_step_def)

text \<open>The server with the file open.\<close>

lemma send_bytes:
  "overlay (take BUF_SIZE (drop off f)) (replicate BUF_SIZE NUL) = buf \<Longrightarrow>
   \<lparr>mtype = MSG_DATA, bytes = take 4 (bytes (zero_msg S2C_SIZE)) @ overlay buf (drop 4 (bytes (zero_msg S2C_SIZE)))\<rparr>
     = data_msg (take BUF_SIZE (drop off f))"
  unfolding data_msg_def zero_msg_def msg.simps take_replicate drop_replicate by simp

lemma server_on_step:
  assumes "server_on f j (Run c)" "server_step fs cap ok c q = Some (p, q', out)"
  shows "q' = q \<and> (server_on f j p \<or> \<not> ok \<and> server_dead p)
    \<or> j \<le> nblocks f \<and> q' = q @ [stream f ! j]
      \<and> (server_on f (Suc j) p \<or> j = nblocks f \<and> server_dead p)"
proof (cases "sstate c = server_state_send_eot")
  case True
  then have "j = nblocks f" using assms(1) by (auto simp: server_on_def)
  moreover have "(zero_msg S2C_SIZE)\<lparr>mtype := MSG_EOT\<rparr> = eot_msg" by (simp only: eot_msg_def)
  ultimately show ?thesis using True assms
    by (auto simp: server_step_def server_send_eot_def msgsnd_def server_dead_def server_on_def stream_nth
        split: if_splits)
next
  case False
  then have c: "sstate c = server_state_send_data" "j \<le> nblocks f" "hander (reader c) = Some f"
    "offset (reader c) = min (BUF_SIZE * j) (length f)" using assms(1) by (auto simp: server_on_def)
  let ?got = "take BUF_SIZE (drop (offset (reader c)) f)"
  have got: "?got = block f j" unfolding c(4) by (rule block_offset)
  have st: "server_send_data cap ok c q = Some (p, q')" using assms(2) c(1) by (auto simp: server_step_def)
  show ?thesis
  proof (cases "j < nblocks f")
    case True
    then have ne: "block f j \<noteq> []" by (simp add: block_empty)
    note m = send_bytes [OF refl, of "offset (reader c)" f, unfolded got]
    have "do { (r, q) \<leftarrow> msgsnd cap ok (data_msg (block f j)) q;
        Some (Run (if r < 0 then c\<lparr>send_msg := data_msg (block f j), sstate := server_state_fail\<rparr>
          else c\<lparr>send_msg := data_msg (block f j), sstate := server_state_send_data,
             reader := (reader c)\<lparr>offset := offset (reader c) + length (block f j)\<rparr>\<rparr>), q) } = Some (p, q')"
      using st ne unfolding server_send_data_def c(3) option.case Let_def got m by (simp cong: if_cong)
    moreover have "offset (reader c) + length (block f j) = min (BUF_SIZE * Suc j) (length f)"
      unfolding c(4) by (rule next_offset [OF True])
    ultimately show ?thesis using True c
      by (auto simp: msgsnd_def server_dead_def server_on_def stream_nth split: if_splits)
  next
    case False
    then have "j = nblocks f" "block f j = []" using c(2) by (simp_all add: block_empty)
    then have "p = Run (c\<lparr>sstate := server_state_send_eot\<rparr>) \<and> q' = q"
      using st unfolding server_send_data_def c(3) option.case Let_def got by auto
    then show ?thesis using c \<open>j = nblocks f\<close> by (simp add: server_on_def)
  qed
qed

text \<open>The client.\<close>

lemma cilent_pre_step:
  assumes "cilent_pre (Run c)" "cilent_step cap ok c [] = Some (p, q', out)"
  shows "out = [] \<and> (q' = [] \<and> (cilent_pre p \<or> \<not> ok \<and> cilent_failed p []) \<or> q' = [path_msg] \<and> cilent_waits p)"
  using assms
  by (auto simp: cilent_pre_def cilent_step_def cilent_failed_def cilent_waits_def msgsnd_def path_msg_def
      split: if_splits)

lemma cilent_failed_step:
  assumes "cilent_failed (Run c) out0" "cilent_step cap ok c q = Some (p, q', out)"
  shows "cilent_failed p (out0 @ out) \<and> q' = q"
  using assms by (auto simp: cilent_failed_def cilent_step_def)

lemma receive_zero:
  "length (bytes m) = n \<Longrightarrow> msgrcv n True (zero_msg n) (m # q) = Some (int n, m, q)"
  by (simp add: msgrcv_def overlay_full)

lemma cilent_waits_nil:
  assumes "cilent_waits (Run c)" "cilent_step cap ok c [] = Some (p, q', out)"
  shows "\<not> ok \<and> p = Aborted \<and> q' = [] \<and> out = []"
  using assms
  by (auto simp: cilent_waits_def cilent_step_def cilent_wait_data_def msgrcv_def zero_msg_def split: if_splits)

lemma cilent_waits_path:
  assumes "cilent_waits (Run c)" "cilent_step cap ok c (path_msg # q) = Some (p, q', out)"
  shows "p = Aborted \<and> out = [] \<and> (q' = q \<or> \<not> ok \<and> q' = path_msg # q)"
  using assms
  by (cases ok) (auto simp: cilent_waits_def cilent_step_def cilent_wait_data_def msgrcv_def zero_msg_def)

lemma cilent_waits_msg:
  assumes "cilent_waits (Run c)" "cilent_step cap ok c (m # q) = Some (p, q', out)" "length (bytes m) = S2C_SIZE"
    "mtype m = MSG_DATA \<or> mtype m = MSG_EOT"
  shows "out = [] \<and> (\<not> ok \<and> p = Aborted \<and> q' = m # q \<or> q' = q \<and> (\<exists>c. p = Run c \<and> c_recv c = m
    \<and> cstate c = (if mtype m = MSG_DATA then cilent_state_recv_data else cilent_state_recv_eot)))"
proof (cases ok)
  case True
  then have "cilent_wait_data True c (m # q) = Some (p, q')" "out = []"
    using assms(1,2) by (auto simp: cilent_waits_def cilent_step_def)
  then show ?thesis using assms(4)
    unfolding cilent_wait_data_def receive_zero [OF assms(3)] by auto
next
  case False
  then show ?thesis using assms(1,2)
    by (auto simp: cilent_waits_def cilent_step_def cilent_wait_data_def msgrcv_def zero_msg_def)
qed

lemma drop_take_Cons: "k < j \<Longrightarrow> j \<le> length xs \<Longrightarrow> drop k (take j xs) = xs ! k # drop (Suc k) (take j xs)"
  by (simp add: Cons_nth_drop_Suc [symmetric])

lemma stream_msg:
  "k \<le> nblocks f \<Longrightarrow> length (bytes (stream f ! k)) = S2C_SIZE \<and>
   mtype (stream f ! k) = (if k < nblocks f then MSG_DATA else MSG_EOT)"
  by (cases "k < nblocks f") (simp_all add: stream_nth block_length)

lemma cilent_on_step:
  assumes on: "cilent_on g f k (Run c) out0" "k \<le> j" "j \<le> Suc (nblocks f)"
    and st: "cilent_step cap ok c (drop k (take j (stream f))) = Some (p, q', out)"
  shows "\<exists>k'. k' \<le> j \<and> q' = drop k' (take j (stream f)) \<and> cilent_on (g \<and> ok) f k' p (out0 @ out)"
proof -
  let ?q = "\<lambda>k. drop k (take j (stream f))"
  consider (waits) "cilent_waits (Run c)" "k \<le> nblocks f" "out0 = take k (transcript f)"
    | (data) i where "cstate c = cilent_state_recv_data" "k = Suc i" "i < nblocks f" "c_recv c = data_msg (block f i)"
        "out0 = take i (transcript f)"
    | (eot) "cstate c = cilent_state_recv_eot" "k = Suc (nblocks f)" "mtype (c_recv c) = MSG_EOT"
        "out0 = take (nblocks f) (transcript f)"
    | (over) "cstate c = cilent_state_end" "k = Suc (nblocks f)" "out0 = transcript f"
    using on(1) by (auto simp: cilent_on_def)
  then show ?thesis
  proof cases
    case waits
    show ?thesis
    proof (cases "k = j")
      case True
      then have "cilent_step cap ok c [] = Some (p, q', out)" using st by simp
      from cilent_waits_nil [OF waits(1) this] show ?thesis using waits True by (intro exI [of _ k]) (simp add: cilent_on_def)
    next
      case False
      then have q: "?q k = stream f ! k # ?q (Suc k)" using on(2,3) by (intro drop_take_Cons) simp_all
      note m = stream_msg [OF waits(2)]
      from cilent_waits_msg [OF waits(1) st [unfolded q]] m have r: "out = []"
        "\<not> ok \<and> p = Aborted \<and> q' = ?q k \<or> q' = ?q (Suc k) \<and> (\<exists>c. p = Run c \<and> c_recv c = stream f ! k
           \<and> cstate c = (if k < nblocks f then cilent_state_recv_data else cilent_state_recv_eot))"
        by (auto simp: q)
      then show ?thesis
      proof (elim disjE)
        assume "\<not> ok \<and> p = Aborted \<and> q' = ?q k"
        then show ?thesis using waits on(2) r(1) by (intro exI [of _ k]) (simp add: cilent_on_def)
      next
        assume a: "q' = ?q (Suc k) \<and> (\<exists>c. p = Run c \<and> c_recv c = stream f ! k
           \<and> cstate c = (if k < nblocks f then cilent_state_recv_data else cilent_state_recv_eot))"
        show ?thesis
        proof (cases "k < nblocks f")
          case True
          then show ?thesis using waits on(2) r(1) a \<open>k \<noteq> j\<close>
            by (intro exI [of _ "Suc k"]) (auto simp: cilent_on_def stream_nth)
        next
          case False
          then have "k = nblocks f" using waits by simp
          then show ?thesis using waits on(2) r(1) a \<open>k \<noteq> j\<close>
            by (intro exI [of _ "Suc k"]) (auto simp: cilent_on_def stream_nth)
        qed
      qed
    qed
  next
    case data
    have p: "p = Run (c\<lparr>cstate := cilent_state_wait_data\<rparr>)" "q' = ?q k" "out = [transcript f ! i]"
      using st data by (simp_all add: cilent_step_def data_msg_str [OF block_length] shown_def transcript_nth)
    have "out0 @ out = take k (transcript f)" using data p(3) by (simp add: take_Suc_conv_app_nth)
    then show ?thesis using p(1,2) data on(2) by (intro exI [of _ k]) (simp add: cilent_on_def cilent_waits_def)
  next
    case eot
    have p: "p = Run (c\<lparr>cstate := cilent_state_end\<rparr>)" "q' = ?q k" "out = [transcript f ! nblocks f]"
      using st eot by (simp_all add: cilent_step_def transcript_nth)
    have "transcript f = take (nblocks f) (transcript f) @ [transcript f ! nblocks f]"
      using take_Suc_conv_app_nth [of "nblocks f" "transcript f"] by simp
    then have "out0 @ out = transcript f" unfolding eot(4) p(3) by (rule sym)
    then show ?thesis using p(1,2) eot(1-3) on(2) by (intro exI [of _ k]) (simp add: cilent_on_def)
  next
    case over
    then have "p = Exited 0" "q' = ?q k" "out = []" using st by (simp_all add: cilent_step_def)
    then show ?thesis using over on(2) by (intro exI [of _ k]) (simp add: cilent_on_def)
  qed
qed

lemma cilent_on_weaken: "cilent_on g f k p out \<Longrightarrow> cilent_on (g \<and> ok) f k p out"
  by (auto simp: cilent_on_def)

lemma inv_on_step:
  assumes "inv_on g f k j w" "ftp_step fs cap ok w w'"
  shows "\<exists>k j. inv_on (g \<and> ok) f k j w'"
proof -
  have b: "k \<le> j" "j \<le> Suc (nblocks f)" "queue w = drop k (take j (stream f))"
    "server_on f j (srv w) \<or> server_dead (srv w) \<and> (g \<longrightarrow> j = Suc (nblocks f))"
    "cilent_on g f k (cli w) (cout w)" using assms(1) by (simp_all add: inv_on_def)
  note cw = cilent_on_weaken [OF b(5), of ok]
  from assms(2) show ?thesis
  proof cases
    case (server c p q out)
    from b(4) show ?thesis
    proof
      assume "server_on f j (srv w)"
      then have "server_on f j (Run c)" using server by simp
      from server_on_step [OF this server(3)] show ?thesis
      proof (elim disjE)
        assume "q = queue w \<and> (server_on f j p \<or> \<not> ok \<and> server_dead p)"
        then have "inv_on (g \<and> ok) f k j w'" using b cw server(1) by (auto simp: inv_on_def)
        then show ?thesis by blast
      next
        assume a: "j \<le> nblocks f \<and> q = queue w @ [stream f ! j]
          \<and> (server_on f (Suc j) p \<or> j = nblocks f \<and> server_dead p)"
        then have "q = drop k (take (Suc j) (stream f))" using b(1,3) by (simp add: take_Suc_conv_app_nth)
        then have "inv_on (g \<and> ok) f k (Suc j) w'" using a b cw server(1) by (auto simp: inv_on_def)
        then show ?thesis by blast
      qed
    next
      assume d: "server_dead (srv w) \<and> (g \<longrightarrow> j = Suc (nblocks f))"
      then have "server_dead p \<and> q = queue w" using server_dead_step [OF _ server(3)] server(2) by simp
      then have "inv_on (g \<and> ok) f k j w'" using d b cw server(1) by (auto simp: inv_on_def)
      then show ?thesis by blast
    qed
  next
    case (cilent c p q out)
    have "cilent_on g f k (Run c) (cout w)" using b(5) cilent by simp
    from cilent_on_step [OF this b(1,2) cilent(3) [unfolded b(3)]] obtain k' where
      k': "k' \<le> j" "q = drop k' (take j (stream f))" "cilent_on (g \<and> ok) f k' p (cout w @ out)" by blast
    then have "inv_on (g \<and> ok) f k' j w'" using b cilent(1) by (auto simp: inv_on_def)
    then show ?thesis by blast
  qed
qed

lemma inv_pre_step:
  assumes "inv_pre g (fs FILEPATH \<noteq> None) w" "ftp_step fs cap ok w w'"
  shows "ftp_inv (g \<and> ok) (fs FILEPATH) w'"
proof -
  let ?ex = "fs FILEPATH \<noteq> None"
  have pre: "ftp_inv (g \<and> ok) (fs FILEPATH) w'" if "inv_pre (g \<and> ok) ?ex w'" using that by (simp add: ftp_inv_def)
  have srv_run: "server_pre (Run c) \<or> \<not> g \<and> server_dead (Run c) \<or> (\<not> g \<or> \<not> ?ex) \<and> server_dead (Run c) \<and> queue w = []"
    if "srv w = Run c" for c using assms(1) that by (auto simp: inv_pre_def)
  have q: "queue w = [] \<or> queue w = [path_msg]" using assms(1) by (auto simp: inv_pre_def)
  from assms(2) show ?thesis
  proof cases
    case (server c p q' out)
    show ?thesis
    proof (cases "server_pre (Run c)")
      case True
      from server_pre_step [OF True q server(3)] show ?thesis
      proof (elim disjE conjE)
        assume "server_pre p" "q' = queue w"
        then show ?thesis using True assms(1) server by (intro pre) (auto simp: inv_pre_def server_phases)
      next
        assume "\<not> ok" "server_dead p" "q' = queue w"
        then show ?thesis using True assms(1) server by (intro pre) (auto simp: inv_pre_def server_phases)
      next
        assume "queue w = [path_msg]" "q' = []" "fs FILEPATH = None" "server_dead p"
        then show ?thesis using True assms(1) server by (intro pre) (auto simp: inv_pre_def)
      next
        assume a: "queue w = [path_msg]" "q' = []" "\<exists>f. fs FILEPATH = Some f \<and> server_on f 0 p"
        then obtain f where f: "fs FILEPATH = Some f" "server_on f 0 p" by blast
        have "cilent_on (g \<and> ok) f 0 (cli w) (cout w)" using assms(1) a(1) by (auto simp: inv_pre_def cilent_on_def)
        then have "inv_on (g \<and> ok) f 0 0 w'" using f(2) a(2) server(1) by (simp add: inv_on_def)
        then show ?thesis using f(1) unfolding ftp_inv_def by blast
      qed
    next
      case False
      then have d: "server_dead (Run c)" using srv_run [OF server(2)] by blast
      then have "server_dead p" "q' = queue w" using server_dead_step [OF d server(3)] by simp_all
      then show ?thesis using False d assms(1) server by (intro pre) (auto simp: inv_pre_def)
    qed
  next
    case (cilent c p q' out)
    from q show ?thesis
    proof
      assume e: "queue w = []"
      consider "cilent_pre (Run c)" | "cilent_failed (Run c) (cout w)" | "cilent_waits (Run c)"
        using assms(1) cilent(2) by (auto simp: inv_pre_def)
      then show ?thesis
      proof cases
        case 1
        have "cout w = []" using assms(1) cilent(2) 1 by (auto simp: inv_pre_def cilent_phases)
        moreover have "server_pre (srv w) \<or> \<not> g \<and> server_dead (srv w)"
          using assms(1) cilent(2) 1 e by (auto simp: inv_pre_def cilent_phases)
        ultimately show ?thesis using cilent_pre_step [OF 1 cilent(3) [unfolded e]] cilent(1)
          by (intro pre) (auto simp: inv_pre_def)
      next
        case 2
        have "\<not> g" "server_pre (srv w) \<or> server_dead (srv w)"
          using assms(1) cilent(2) 2 e by (auto simp: inv_pre_def cilent_phases)
        then show ?thesis using cilent_failed_step [OF 2 cilent(3)] cilent(1) e
          by (intro pre) (auto simp: inv_pre_def)
      next
        case 3
        have "(\<not> g \<or> \<not> ?ex) \<and> server_dead (srv w) \<and> cout w = []"
          using assms(1) cilent(2) 3 e by (auto simp: inv_pre_def cilent_phases)
        then show ?thesis using cilent_waits_nil [OF 3 cilent(3) [unfolded e]] cilent(1)
          by (intro pre) (auto simp: inv_pre_def)
      qed
    next
      assume e: "queue w = [path_msg]"
      then have wt: "cilent_waits (Run c)" "cout w = []" "server_pre (srv w) \<or> \<not> g \<and> server_dead (srv w)"
        using assms(1) cilent(2) by (auto simp: inv_pre_def)
      show ?thesis using cilent_waits_path [OF wt(1) cilent(3) [unfolded e]] wt cilent(1)
        by (intro pre) (auto simp: inv_pre_def)
    qed
  qed
qed

lemma ftp_inv_step:
  assumes "ftp_inv g (fs FILEPATH) w" "ftp_step fs cap ok w w'"
  shows "ftp_inv (g \<and> ok) (fs FILEPATH) w'"
proof (cases "inv_pre g (fs FILEPATH \<noteq> None) w")
  case True
  then show ?thesis using assms(2) by (rule inv_pre_step)
next
  case False
  then obtain f k j where f: "fs FILEPATH = Some f" "inv_on g f k j w" using assms(1) unfolding ftp_inv_def by blast
  obtain k j where "inv_on (g \<and> ok) f k j w'" using inv_on_step [OF f(2) assms(2)] by blast
  then show ?thesis using f(1) unfolding ftp_inv_def by blast
qed

lemma ftp_inv_weaken: "ftp_inv True fo w \<Longrightarrow> ftp_inv False fo w"
proof -
  have "inv_pre True ex w \<Longrightarrow> inv_pre False ex w" for ex by (auto simp: inv_pre_def)
  moreover have "inv_on True f k j w \<Longrightarrow> inv_on False f k j w" for f k j
    using cilent_on_weaken [of True f k "cli w" "cout w" False] by (auto simp: inv_on_def)
  ultimately show "ftp_inv True fo w \<Longrightarrow> ftp_inv False fo w" unfolding ftp_inv_def by blast
qed

lemma ftp_reach_inv: "ftp_reach fs cap w0 w \<Longrightarrow> ftp_inv False (fs FILEPATH) w0 \<Longrightarrow> ftp_inv False (fs FILEPATH) w"
  by (induction rule: ftp_reach.induct) (use ftp_inv_step [of False] in auto)

section \<open>What the client prints\<close>


section \<open>Reaching the end\<close>

text \<open>Runs in which no system call fails, with their length.\<close>

inductive ftp_run :: "(string \<Rightarrow> string option) \<Rightarrow> nat \<Rightarrow> ftp \<Rightarrow> nat \<Rightarrow> ftp \<Rightarrow> bool" for fs cap w where
  zero: "ftp_run fs cap w 0 w"
| more: "ftp_run fs cap w n w1 \<Longrightarrow> ftp_step fs cap True w1 w2 \<Longrightarrow> ftp_run fs cap w (Suc n) w2"

definition srank :: "string \<Rightarrow> server_context proc \<Rightarrow> nat" where
  "srank f p = (case p of
       Run c \<Rightarrow> (case sstate c of
           server_state_start \<Rightarrow> length f + 6
         | server_state_wait_path \<Rightarrow> length f + 5
         | server_state_send_data \<Rightarrow> length f - offset (reader c) + 3
         | server_state_send_eot \<Rightarrow> 2
         | server_state_fail \<Rightarrow> 2
         | server_state_end \<Rightarrow> 1)
     | _ \<Rightarrow> 0)"

definition crank :: "nat \<Rightarrow> cilent_context proc \<Rightarrow> string list \<Rightarrow> nat" where
  "crank n p out = (case p of
       Run c \<Rightarrow> (case cstate c of
           cilent_state_start \<Rightarrow> 2 * n + 6
         | cilent_state_send_path \<Rightarrow> 2 * n + 5
         | cilent_state_wait_data \<Rightarrow> 2 * (n - length out) + 4
         | cilent_state_recv_data \<Rightarrow> 2 * (n - length out) + 3
         | cilent_state_recv_eot \<Rightarrow> 2
         | cilent_state_fail \<Rightarrow> 2
         | cilent_state_end \<Rightarrow> 1)
     | _ \<Rightarrow> 0)"

lemma srank_step:
  assumes "server_step fs cap True c q = Some (p, q', out)" "sstate c = server_state_send_data \<longrightarrow> hander (reader c) = Some f"
  shows "srank f p < srank f (Run c)"
proof (cases "sstate c")
  case server_state_wait_path
  then show ?thesis using assms
    by (auto simp: server_step_def server_wait_path_def srank_def Let_def bind_eq_Some_conv
        split: if_splits option.split_asm)
next
  case server_state_send_data
  then show ?thesis using assms
    by (auto simp: server_step_def server_send_data_def srank_def Let_def bind_eq_Some_conv msgsnd_def split: if_splits)
next
  case server_state_send_eot
  then show ?thesis using assms
    by (auto simp: server_step_def server_send_eot_def srank_def Let_def bind_eq_Some_conv msgsnd_def split: if_splits)
qed (use assms in \<open>auto simp: server_step_def srank_def\<close>)

lemma crank_step:
  assumes "cilent_step cap True c q = Some (p, q', out)" "cstate c = cilent_state_recv_data \<longrightarrow> length out0 < n"
  shows "crank n p (out0 @ out) < crank n (Run c) out0"
proof (cases "cstate c")
  case cilent_state_wait_data
  then show ?thesis using assms
    by (auto simp: cilent_step_def cilent_wait_data_def crank_def Let_def bind_eq_Some_conv split: if_splits)
next
  case cilent_state_send_path
  then show ?thesis using assms
    by (auto simp: cilent_step_def crank_def Let_def bind_eq_Some_conv msgsnd_def split: if_splits)
next
  case cilent_state_recv_data
  then show ?thesis using assms
    by (auto simp: cilent_step_def crank_def split: if_splits option.splits)
qed (use assms in \<open>auto simp: cilent_step_def crank_def split: if_splits\<close>)

lemma ftp_rank_step:
  assumes "ftp_inv True (Some f) w" "ftp_step fs cap True w w'"
  shows "srank f (srv w') + crank (nblocks f) (cli w') (cout w') < srank f (srv w) + crank (nblocks f) (cli w) (cout w)"
  using assms(2)
proof cases
  case (server c p q out)
  have "sstate c = server_state_send_data \<longrightarrow> hander (reader c) = Some f"
    using assms(1) server(2) by (auto simp: ftp_inv_def inv_pre_def inv_on_def server_phases)
  from srank_step [OF server(3) this] show ?thesis using server by simp
next
  case (cilent c p q out)
  have "cstate c = cilent_state_recv_data \<longrightarrow> length (cout w) < nblocks f"
    using assms(1) cilent(2) by (auto simp: ftp_inv_def inv_pre_def inv_on_def cilent_phases)
  from crank_step [OF cilent(3) this] show ?thesis using cilent by simp
qed

lemma ftp_run_inv:
  assumes "ftp_run fs cap w n w'" "ftp_inv True (fs FILEPATH) w" "fs FILEPATH = Some f"
  shows "ftp_inv True (fs FILEPATH) w' \<and>
    n + srank f (srv w') + crank (nblocks f) (cli w') (cout w') \<le> srank f (srv w) + crank (nblocks f) (cli w) (cout w)"
  using assms(1)
proof induction
  case (more n w1 w2)
  have "ftp_inv True (fs FILEPATH) w2" using ftp_inv_step [OF _ more(2), of True] more(3) by simp
  moreover have "srank f (srv w2) + crank (nblocks f) (cli w2) (cout w2) < srank f (srv w1) + crank (nblocks f) (cli w1) (cout w1)"
    by (rule ftp_rank_step [OF _ more(2)]) (use more(3) assms(3) in simp)
  ultimately show ?case using more(3) by simp
qed (use assms in simp)

text \<open>When a process cannot go on.\<close>

lemma server_blocks:
  assumes "server_step fs cap True c q = None" "0 < cap"
  shows "sstate c = server_state_wait_path \<and> q = [] \<or> q \<noteq> [] \<and> sstate c \<in> {server_state_send_data, server_state_send_eot}"
proof (cases "sstate c")
  case server_state_wait_path
  then show ?thesis using assms
    by (auto simp: server_step_def server_wait_path_def msgrcv_def Let_def split: list.splits if_splits)
next
  case server_state_send_data
  then show ?thesis using assms
    by (auto simp: server_step_def server_send_data_def msgsnd_def Let_def split: list.splits if_splits option.splits)
next
  case server_state_send_eot
  then show ?thesis using assms
    by (auto simp: server_step_def server_send_eot_def msgsnd_def Let_def split: list.splits if_splits)
qed (use assms in \<open>auto simp: server_step_def\<close>)

lemma cilent_blocks:
  assumes "cilent_step cap True c q = None" "0 < cap"
  shows "cstate c = cilent_state_wait_data \<and> q = [] \<or> q \<noteq> [] \<and> cstate c = cilent_state_send_path"
proof (cases "cstate c")
  case cilent_state_wait_data
  then show ?thesis using assms
    by (auto simp: cilent_step_def cilent_wait_data_def msgrcv_def Let_def split: list.splits if_splits)
next
  case cilent_state_send_path
  then show ?thesis using assms
    by (auto simp: cilent_step_def msgsnd_def Let_def split: list.splits if_splits)
qed (use assms in \<open>auto simp: cilent_step_def split: if_splits option.splits\<close>)

lemma stuck_server: "\<nexists>w'. ftp_step fs cap ok w w' \<Longrightarrow> srv w = Run c \<Longrightarrow> server_step fs cap ok c (queue w) = None"
  by (cases "server_step fs cap ok c (queue w)") (auto intro: ftp_step.server)

lemma stuck_cilent: "\<nexists>w'. ftp_step fs cap ok w w' \<Longrightarrow> cli w = Run c \<Longrightarrow> cilent_step cap ok c (queue w) = None"
  by (cases "cilent_step cap ok c (queue w)") (auto intro: ftp_step.cilent)

definition ftp_done :: "string \<Rightarrow> ftp \<Rightarrow> bool" where
  "ftp_done f w \<longleftrightarrow> srv w = Exited 0 \<and> cli w = Exited 0 \<and> queue w = [] \<and> cout w = transcript f"

definition ftp_stolen :: "ftp \<Rightarrow> bool" where
  "ftp_stolen w \<longleftrightarrow> cli w = Aborted \<and> cout w = [] \<and> queue w = []
     \<and> (\<exists>c. srv w = Run c \<and> sstate c = server_state_wait_path)"

lemma stuck_pre:
  assumes "inv_pre True True w" "\<nexists>w'. ftp_step fs cap True w w'" "0 < cap"
  shows "ftp_stolen w"
proof -
  note sb = server_blocks [OF stuck_server [OF assms(2)] assms(3)]
  note cb = cilent_blocks [OF stuck_cilent [OF assms(2)] assms(3)]
  have pre: "server_pre (srv w)" using assms(1) by (auto simp: inv_pre_def)
  then obtain c where c: "srv w = Run c" "sstate c \<in> {server_state_start, server_state_wait_path}" by (auto simp: server_pre_def)
  then have s: "sstate c = server_state_wait_path" "queue w = []" using sb [OF c(1)] by auto
  have "\<not> cilent_pre (cli w)" using cb s(2) by (auto simp: cilent_pre_def)
  then show ?thesis using assms(1) s c(1) pre by (auto simp: inv_pre_def ftp_stolen_def)
qed

lemma stuck_on:
  assumes "inv_on True f k j w" "\<nexists>w'. ftp_step fs cap True w w'" "0 < cap"
  shows "ftp_done f w"
proof -
  note sb = server_blocks [OF stuck_server [OF assms(2)] assms(3)]
  note cb = cilent_blocks [OF stuck_cilent [OF assms(2)] assms(3)]
  have b: "k \<le> j" "j \<le> Suc (nblocks f)" "queue w = drop k (take j (stream f))"
    "server_on f j (srv w) \<or> server_dead (srv w) \<and> j = Suc (nblocks f)"
    "cilent_on True f k (cli w) (cout w)" using assms(1) by (simp_all add: inv_on_def)
  have on: "\<not> server_on f j (srv w)" if "queue w = []" using sb that by (auto simp: server_on_def)
  have dead: "srv w = Exited 0" if "server_dead (srv w)" using sb that by (auto simp: server_dead_def)
  have "cli w = Exited 0 \<and> k = Suc (nblocks f) \<and> cout w = transcript f \<or> cilent_waits (cli w) \<and> queue w = [] \<and> k \<le> nblocks f"
    using b(5) cb unfolding cilent_on_def cilent_waits_def by auto
  then show ?thesis
  proof
    assume c: "cli w = Exited 0 \<and> k = Suc (nblocks f) \<and> cout w = transcript f"
    then have "queue w = []" using b(1-3) by simp
    then show ?thesis using on dead b(4) c by (auto simp: ftp_done_def)
  next
    assume c: "cilent_waits (cli w) \<and> queue w = [] \<and> k \<le> nblocks f"
    then have "j \<le> k" using b(2,3) by simp
    then show ?thesis using on b(4) c by auto
  qed
qed


section \<open>Runs that happen\<close>

text \<open>A run without failures from the order of the steps: \<open>True\<close> for the server.\<close>

definition ftp_go :: "(string \<Rightarrow> string option) \<Rightarrow> nat \<Rightarrow> bool \<Rightarrow> ftp \<Rightarrow> ftp option" where
  "ftp_go fs cap who w =
     (if who then (case srv w of
          Run c \<Rightarrow> map_option (\<lambda>(p, q, out). w\<lparr>srv := p, queue := q, sout := sout w @ out\<rparr>) (server_step fs cap True c (queue w))
        | _ \<Rightarrow> None)
      else (case cli w of
          Run c \<Rightarrow> map_option (\<lambda>(p, q, out). w\<lparr>cli := p, queue := q, cout := cout w @ out\<rparr>) (cilent_step cap True c (queue w))
        | _ \<Rightarrow> None))"

lemma ftp_go_step: "ftp_go fs cap who w = Some w' \<Longrightarrow> ftp_step fs cap True w w'"
  by (auto simp: ftp_go_def split: if_splits proc.splits intro: ftp_step.intros)

fun ftp_sched :: "(string \<Rightarrow> string option) \<Rightarrow> nat \<Rightarrow> bool list \<Rightarrow> ftp \<Rightarrow> ftp option" where
  "ftp_sched fs cap [] w = Some w"
| "ftp_sched fs cap (b # bs) w = Option.bind (ftp_go fs cap b w) (ftp_sched fs cap bs)"

lemma ftp_sched_run:
  "ftp_run fs cap w0 n w \<Longrightarrow> ftp_sched fs cap bs w = Some w' \<Longrightarrow> ftp_run fs cap w0 (n + length bs) w'"
proof (induction bs arbitrary: n w)
  case (Cons b bs)
  then obtain w1 where w1: "ftp_go fs cap b w = Some w1" "ftp_sched fs cap bs w1 = Some w'"
    by (auto simp: bind_eq_Some_conv)
  from Cons.IH [OF ftp_run.more [OF Cons.prems(1) ftp_go_step [OF w1(1)]] w1(2)] show ?case by simp
qed simp

lemma ftp_run_reach: "ftp_run fs cap w n w' \<Longrightarrow> ftp_reach fs cap w w'"
  by (induction rule: ftp_run.induct) (auto intro: ftp_reach.intros)

definition one_file :: "string \<Rightarrow> string \<Rightarrow> string option" where
  "one_file f p = (if p = FILEPATH then Some f else None)"

text \<open>The two ends of a transfer of one block, step by step; \<open>sm\<close> and \<open>cm\<close> are the last messages sent and received.\<close>

definition at_server :: "server_state \<Rightarrow> nat \<Rightarrow> msg \<Rightarrow> server_context proc" where
  "at_server st off sm = Run \<lparr>sstate = st, reader = \<lparr>hander = Some ''hi'', offset = off\<rparr>, send_msg = sm, recv_msg = path_msg\<rparr>"

definition at_cilent :: "cilent_state \<Rightarrow> msg \<Rightarrow> cilent_context proc" where
  "at_cilent st cm = Run \<lparr>cstate = st, c_recv = cm, c_send = path_msg\<rparr>"

definition at_ftp :: "server_context proc \<Rightarrow> cilent_context proc \<Rightarrow> msg list \<Rightarrow> string list \<Rightarrow> ftp" where
  "at_ftp s c q out = \<lparr>srv = s, cli = c, queue = q, sout = [], cout = out\<rparr>"

lemmas ftp_states = at_server_def at_cilent_def at_ftp_def

lemma ftp_request:
  "ftp_sched (one_file ''hi'') 2 [True, False, False, True] (ftp_start 1 0)
   = Some (at_ftp (at_server server_state_send_data 0 (zero_msg S2C_SIZE)) (at_cilent cilent_state_wait_data (zero_msg S2C_SIZE)) [] [])"
  using take_path
  by (simp add: ftp_go_def ftp_start_def server_init_def cilent_init_def server_step_def cilent_step_def msgsnd_def
      server_wait_path_def path_msg_str one_file_def ftp_states flip: path_msg_def)


lemma ftp_over:
  "ftp_sched (one_file ''hi'') 2 [True, False, False, False]
     (at_ftp (at_server server_state_end off sm) (at_cilent cilent_state_wait_data cm) [eot_msg] out)
   = Some (at_ftp (Exited 0) (Exited 0) [] (out @ [''recv data end.\<newline>'']))"
proof -
  have m: "length (bytes eot_msg) = S2C_SIZE" by simp
  have "cilent_wait_data True c (eot_msg # q) = Some (Run (c\<lparr>c_recv := eot_msg, cstate := cilent_state_recv_eot\<rparr>), q)" for c q
    unfolding cilent_wait_data_def receive_zero [OF m] by simp
  then show ?thesis by (simp add: ftp_go_def server_step_def cilent_step_def ftp_states)
qed

lemma ftp_one_block:
  "server_send_data 2 True \<lparr>sstate = server_state_send_data, reader = \<lparr>hander = Some ''hi'', offset = 0\<rparr>, send_msg = sm, recv_msg = rm\<rparr> []
    = Some (Run \<lparr>sstate = server_state_send_data, reader = \<lparr>hander = Some ''hi'', offset = 2\<rparr>, send_msg = data_msg ''hi'', recv_msg = rm\<rparr>,
        [data_msg ''hi''])"
proof -
  have "take BUF_SIZE (drop 0 ''hi'') = ''hi''" by simp
  note m = send_bytes [OF refl, of 0 "''hi''", unfolded this]
  show ?thesis
    unfolding server_send_data_def server_context.simps file_reader.simps option.case Let_def \<open>take BUF_SIZE (drop 0 ''hi'') = ''hi''\<close> m
    by (simp add: msgsnd_def)
qed

lemma ftp_block:
  "ftp_sched (one_file ''hi'') 2 [True, False, False, True, True]
     (at_ftp (at_server server_state_send_data 0 sm) (at_cilent cilent_state_wait_data cm) [] [])
   = Some (at_ftp (at_server server_state_end 2 eot_msg) (at_cilent cilent_state_wait_data (data_msg ''hi'')) [eot_msg]
       [''recv data:\<newline>hi\<newline>''])"
proof -
  let ?b = "''hi''"
  have l: "length (bytes (data_msg ?b)) = S2C_SIZE" by simp
  have r: "cilent_wait_data True c (data_msg ?b # q) = Some (Run (c\<lparr>c_recv := data_msg ?b, cstate := cilent_state_recv_data\<rparr>), q)" for c q
    unfolding cilent_wait_data_def receive_zero [OF l] by simp
  have d: "c_str (msg_data (data_msg ?b)) = Some ?b" using data_msg_str [of ?b] by simp
  have e: "server_send_eot 2 True \<lparr>sstate = st, reader = rd, send_msg = sm, recv_msg = rm\<rparr> []
    = Some (Run \<lparr>sstate = server_state_end, reader = rd, send_msg = eot_msg, recv_msg = rm\<rparr>, [eot_msg])" for st rd sm rm
    unfolding server_send_eot_def eot_msg_def [symmetric] by (simp add: msgsnd_def)
  have f: "server_send_data 2 True \<lparr>sstate = server_state_send_data, reader = \<lparr>hander = Some ?b, offset = 2\<rparr>, send_msg = sm, recv_msg = rm\<rparr> []
    = Some (Run \<lparr>sstate = server_state_send_eot, reader = \<lparr>hander = Some ?b, offset = 2\<rparr>, send_msg = sm, recv_msg = rm\<rparr>, [])" for sm rm
    by (simp add: server_send_data_def)
  show ?thesis
    by (simp add: ftp_go_def server_step_def cilent_step_def ftp_states ftp_one_block r d e f)
qed

lemma ftp_sched_append: "ftp_sched fs cap (xs @ ys) w = Option.bind (ftp_sched fs cap xs w) (ftp_sched fs cap ys)"
  by (induction xs arbitrary: w) (auto split: Option.bind_splits)

lemma ftp_example:
  "\<exists>w. ftp_run (one_file ''hi'') 2 (ftp_start 1 0) 13 w \<and> ftp_done ''hi'' w"
proof -
  let ?cs = "[True, False, False, True] @ [True, False, False, True, True] @ [True, False, False, False]"
  have "ftp_sched (one_file ''hi'') 2 ?cs (ftp_start 1 0)
    = Some (at_ftp (Exited 0) (Exited 0) [] [''recv data:\<newline>hi\<newline>'', ''recv data end.\<newline>''])"
    by (simp only: ftp_sched_append ftp_request Option.bind.simps ftp_block ftp_over) simp
  from ftp_sched_run [OF ftp_run.zero this]
  have "ftp_run (one_file ''hi'') 2 (ftp_start 1 0) 13
    (at_ftp (Exited 0) (Exited 0) [] [''recv data:\<newline>hi\<newline>'', ''recv data end.\<newline>''])" by (simp add: numeral_eq_Suc)
  moreover have "transcript ''hi'' = [''recv data:\<newline>hi\<newline>'', ''recv data end.\<newline>'']"
    by (simp add: transcript_def blocks_def nblocks_def block_def shown_def)
  ultimately show ?thesis by (auto simp: ftp_done_def at_ftp_def)
qed



text \<open>The other end: the client runs on before the server looks, and takes its own request.\<close>

lemma ftp_race: "\<exists>w. ftp_run fs 2 (ftp_start 1 0) 4 w \<and> ftp_stolen w"
proof -
  have w: "length (bytes path_msg) \<le> S2C_SIZE" by simp
  have "\<exists>w. ftp_sched fs 2 [True, False, False, False] (ftp_start 1 0) = Some w \<and> ftp_stolen w"
    by (simp add: ftp_go_def ftp_start_def server_init_def cilent_init_def server_step_def cilent_step_def msgsnd_def
      cilent_wait_data_def msgrcv_def ftp_stolen_def flip: path_msg_def)
  then obtain w where w: "ftp_sched fs 2 [True, False, False, False] (ftp_start 1 0) = Some w" "ftp_stolen w" by blast
  from ftp_sched_run [OF ftp_run.zero w(1)] w(2) show ?thesis by (auto simp: numeral_eq_Suc)
qed

end
