(* ===== verification/PrimeTest.thy ===== *)
theory PrimeTest
  imports Prelude
begin

text \<open>
  The test of the programs that look for primes, the same loop in all of them (\<open>process_basic/primer0.c\<close> and others,
  \<open>parallel/thread/posix/primer0.c\<close> and others): it finds the primes among the numbers above 4.
\<close>

section \<open>The test\<close>

text \<open>\<open>for (j = 2; j < i/2; j++) if (i % j == 0) { mark = 0; break; }\<close>\<close>

function prime_loop :: "int \<Rightarrow> int \<Rightarrow> bool" where
  "prime_loop j i = (if j < i div 2 then (if i mod j = 0 then False else prime_loop (j + 1) i) else True)"
  by pat_completeness auto
termination by (relation "measure (\<lambda>(j, i). nat (i div 2 - j))") auto

declare prime_loop.simps [simp del]

definition prime_mark :: "int \<Rightarrow> bool" where
  "prime_mark i = prime_loop 2 i"

definition is_prime :: "int \<Rightarrow> bool" where
  "is_prime i \<longleftrightarrow> 1 < i \<and> (\<forall>d. 1 < d \<and> d < i \<longrightarrow> \<not> d dvd i)"

lemma prime_loop_iff: "prime_loop j i \<longleftrightarrow> (\<forall>d. j \<le> d \<and> d < i div 2 \<longrightarrow> \<not> d dvd i)"
proof (induction j i rule: prime_loop.induct)
  case (1 j i)
  have s: "j \<le> d \<longleftrightarrow> d = j \<or> j + 1 \<le> d" for d by auto
  show ?case
  proof (cases "j < i div 2 \<and> i mod j \<noteq> 0")
    case True
    then show ?thesis using 1 by (subst prime_loop.simps) (auto simp: s dvd_eq_mod_eq_0)
  next
    case False
    then show ?thesis by (subst prime_loop.simps) (auto simp: dvd_eq_mod_eq_0)
  qed
qed

text \<open>The loop stops before \<open>i/2\<close>, which only matters for 4.\<close>

lemma prime_mark_prime: "4 < i \<Longrightarrow> prime_mark i \<longleftrightarrow> is_prime i"
proof -
  assume i: "4 < i"
  have "\<exists>e. 2 \<le> e \<and> e < i div 2 \<and> e dvd i" if d: "1 < d" "d < i" "d dvd i" for d
  proof (cases "d < i div 2")
    case True
    then show ?thesis using d by (intro exI [of _ d]) simp
  next
    case False
    obtain k where k: "i = d * k" using d(3) by blast
    have k0: "1 < k"
    proof (rule ccontr)
      assume "\<not> 1 < k"
      then have "d * k \<le> d * 1" using d(1) by (intro mult_left_mono) auto
      then show False using k d(2) by simp
    qed
    have k3: "k < 3"
    proof (rule ccontr)
      assume "\<not> k < 3"
      then have "d * 3 \<le> i" using d(1) k by simp
      then show False using False i by linarith
    qed
    then have "k = 2" using k0 by simp
    then have "2 dvd i" using k by simp
    moreover have "2 < i div 2" if "5 < i" using that by linarith
    moreover have "i \<noteq> 5" using \<open>2 dvd i\<close> by auto
    ultimately show ?thesis using i by (intro exI [of _ 2]) auto
  qed
  then show ?thesis using i unfolding prime_mark_def prime_loop_iff is_prime_def by force
qed

lemma upto_parts: "a \<le> n \<Longrightarrow> n \<le> b + 1 \<Longrightarrow> [a..b] = [a..n - 1] @ [n..b]" for a b n :: int
  by (cases "n = b + 1") (simp_all add: upto_split1)

lemma filter_marks: "4 < a \<Longrightarrow> filter prime_mark [a..b] = filter is_prime [a..b]"
  by (rule filter_cong) (use prime_mark_prime in auto)

end
