(* ===== verification/MySem.thy ===== *)
theory MySem
  imports Pthread PrimeTest
begin

text \<open>
  The counting semaphore \<open>parallel/thread/posix/mysem/mysem.c\<close>, a value with a mutex and a condition variable, and the
  program \<open>mysem/main.c\<close> that uses it to have at most four threads look for primes at a time. Without the
  semaphore (the flag \<open>lim\<close>) it is \<open>parallel/thread/posix/primer0.c\<close>. Thread 0 is \<open>main\<close>, thread \<open>u\<close> tests the
  number \<open>LEFT + u - 1\<close>. The theorems: the value is never negative and counts the free places, so that no more than
  four threads are at work, no scheduling gets the program stuck, and at the end all primes are printed.
\<close>

abbreviation LEFT :: int where "LEFT \<equiv> 30000000"
abbreviation RIGHT :: int where "RIGHT \<equiv> 30000200"
abbreviation SEM_N :: int where "SEM_N \<equiv> 4"

definition THRNUM :: nat where
  "THRNUM = 201"

section \<open>The semaphore\<close>

record sem_shared =
  sem_value :: int
  sem_alive :: bool
  sem_out :: "int list"

text \<open>\<open>ok\<close>: \<open>malloc\<close> succeeds. The structure lives until \<open>mysem_destroy\<close>.\<close>

definition mysem_init :: "bool \<Rightarrow> int \<Rightarrow> sem_shared option" where
  "mysem_init ok initval = (if ok then Some \<lparr>sem_value = initval, sem_alive = True, sem_out = []\<rparr> else None)"

definition mysem_destroy :: "sem_shared \<Rightarrow> int \<times> sem_shared" where
  "mysem_destroy s = (0, s\<lparr>sem_alive := False\<rparr>)"

text \<open>
  \<open>mysem_sub\<close> and \<open>mysem_add\<close> as the instructions they execute: \<open>at\<close> gives the counter in the caller's program and \<open>ret\<close> where
  the caller goes on.
\<close>

datatype sub_pc = Sub_lock | Sub_test | Sub_wait | Sub_dec | Sub_unlock
datatype add_pc = Add_lock | Add_inc | Add_bcast | Add_unlock

definition mysem_sub :: "int \<Rightarrow> (sub_pc \<Rightarrow> 'p) \<Rightarrow> 'p \<Rightarrow> sub_pc \<Rightarrow> 'l \<Rightarrow> ('p, 'l, sem_shared) instr" where
  "mysem_sub n at ret p l = (case p of
       Sub_lock \<Rightarrow> Lock 0 (at Sub_test)
     | Sub_test \<Rightarrow> Act (\<lambda>s. (if sem_value s < n then at Sub_wait else at Sub_dec, l, s))
     | Sub_wait \<Rightarrow> Wait 0 (at Sub_test)
     | Sub_dec \<Rightarrow> Act (\<lambda>s. (at Sub_unlock, l, s\<lparr>sem_value := sem_value s - n\<rparr>))
     | Sub_unlock \<Rightarrow> Unlock 0 ret)"

definition mysem_add :: "int \<Rightarrow> (add_pc \<Rightarrow> 'p) \<Rightarrow> 'p \<Rightarrow> add_pc \<Rightarrow> 'l \<Rightarrow> ('p, 'l, sem_shared) instr" where
  "mysem_add n at ret p l = (case p of
       Add_lock \<Rightarrow> Lock 0 (at Add_inc)
     | Add_inc \<Rightarrow> Act (\<lambda>s. (at Add_bcast, l, s\<lparr>sem_value := sem_value s + n\<rparr>))
     | Add_bcast \<Rightarrow> Broadcast (at Add_unlock)
     | Add_unlock \<Rightarrow> Unlock 0 ret)"

section \<open>The program\<close>

datatype sem_pc =
    SM_for | SM_sub sub_pc | SM_create | SM_inc | SM_fail | SM_join | SM_jinc | SM_end
  | ST_mark | ST_print | ST_add add_pc | ST_exit

definition sem_main :: "bool \<Rightarrow> sem_pc \<Rightarrow> int \<Rightarrow> (sem_pc, int, sem_shared) instr" where
  "sem_main lim p i = (case p of
       SM_for \<Rightarrow> Act (\<lambda>s. if i \<le> RIGHT then (if lim then SM_sub Sub_lock else SM_create, i, s) else (SM_join, LEFT, s))
     | SM_sub q \<Rightarrow> mysem_sub 1 SM_sub SM_create q i
     | SM_create \<Rightarrow> Spawn (nat (i - LEFT) + 1) SM_inc SM_fail
     | SM_inc \<Rightarrow> Act (\<lambda>s. (SM_for, i + 1, s))
     | SM_fail \<Rightarrow> Halt 1
     | SM_join \<Rightarrow> if i \<le> RIGHT then Join (nat (i - LEFT) + 1) SM_jinc
         else if lim then Act (\<lambda>s. (SM_end, i, snd (mysem_destroy s))) else Halt 0
     | SM_jinc \<Rightarrow> Act (\<lambda>s. (SM_join, i + 1, s))
     | SM_end \<Rightarrow> Halt 0
     | _ \<Rightarrow> Halt 0)"

definition sem_thr_prime :: "bool \<Rightarrow> sem_pc \<Rightarrow> int \<Rightarrow> (sem_pc, int, sem_shared) instr" where
  "sem_thr_prime lim p i = (case p of
       ST_mark \<Rightarrow> Act (\<lambda>s. (if prime_mark i then ST_print else if lim then ST_add Add_lock else ST_exit, i, s))
     | ST_print \<Rightarrow> Act (\<lambda>s. (if lim then ST_add Add_lock else ST_exit, i, s\<lparr>sem_out := sem_out s @ [i]\<rparr>))
     | ST_add q \<Rightarrow> mysem_add 1 ST_add ST_exit q i
     | ST_exit \<Rightarrow> Leave
     | _ \<Rightarrow> Halt 0)"

definition sem_prog :: "bool \<Rightarrow> (sem_pc, int, sem_shared) program" where
  "sem_prog lim t p i = (if t = 0 then sem_main lim p i else sem_thr_prime lim p i)"

definition sem_start :: "nat \<Rightarrow> sem_pc \<times> int" where
  "sem_start u = (ST_mark, LEFT + int u - 1)"

definition sem_init :: "(sem_pc, int, sem_shared) sys" where
  "sem_init = \<lparr>held = (\<lambda>_. None), thr = At SM_for LEFT # replicate THRNUM Off, halted = None, shared = the (mysem_init True SEM_N)\<rparr>"

text \<open>The two programs. \<open>main\<close> exits at once when \<open>mysem_init\<close> has no memory.\<close>

definition mysem_prog :: "(sem_pc, int, sem_shared) program" where
  "mysem_prog = sem_prog True"

definition primer0_prog :: "(sem_pc, int, sem_shared) program" where
  "primer0_prog = sem_prog False"

fun sem_crit :: "sem_pc \<Rightarrow> bool" where
  "sem_crit (SM_sub p) = (p \<noteq> Sub_lock)"
| "sem_crit (ST_add p) = (p \<noteq> Add_lock)"
| "sem_crit _ = False"

section \<open>Assertions\<close>

fun sem_main_at :: "bool \<Rightarrow> sem_pc \<Rightarrow> int \<Rightarrow> int \<Rightarrow> bool" where
  "sem_main_at lim SM_for i v \<longleftrightarrow> LEFT \<le> i \<and> i \<le> RIGHT + 1"
| "sem_main_at lim (SM_sub Sub_dec) i v \<longleftrightarrow> lim \<and> LEFT \<le> i \<and> i \<le> RIGHT \<and> 1 \<le> v"
| "sem_main_at lim (SM_sub Sub_wait) i v \<longleftrightarrow> lim \<and> LEFT \<le> i \<and> i \<le> RIGHT \<and> v < 1"
| "sem_main_at lim (SM_sub p) i v \<longleftrightarrow> lim \<and> LEFT \<le> i \<and> i \<le> RIGHT"
| "sem_main_at lim SM_join i v \<longleftrightarrow> LEFT \<le> i \<and> i \<le> RIGHT + 1"
| "sem_main_at lim SM_end i v \<longleftrightarrow> i = RIGHT + 1"
| "sem_main_at lim (ST_mark) i v \<longleftrightarrow> False"
| "sem_main_at lim (ST_print) i v \<longleftrightarrow> False"
| "sem_main_at lim (ST_add p) i v \<longleftrightarrow> False"
| "sem_main_at lim (ST_exit) i v \<longleftrightarrow> False"
| "sem_main_at lim _ i v \<longleftrightarrow> LEFT \<le> i \<and> i \<le> RIGHT"

fun sem_main_asn :: "bool \<Rightarrow> (sem_pc, int) tstat \<Rightarrow> int \<Rightarrow> bool" where
  "sem_main_asn lim (At p i) v = sem_main_at lim p i v"
| "sem_main_asn lim (Waits m p i) v \<longleftrightarrow> lim \<and> m = 0 \<and> p = SM_sub Sub_test \<and> LEFT \<le> i \<and> i \<le> RIGHT"
| "sem_main_asn lim (Wakes m p i) v \<longleftrightarrow> lim \<and> m = 0 \<and> p = SM_sub Sub_test \<and> LEFT \<le> i \<and> i \<le> RIGHT"
| "sem_main_asn lim _ v \<longleftrightarrow> False"

fun sem_thr_at :: "bool \<Rightarrow> sem_pc \<Rightarrow> int \<Rightarrow> bool" where
  "sem_thr_at lim ST_mark i \<longleftrightarrow> True"
| "sem_thr_at lim ST_print i \<longleftrightarrow> prime_mark i"
| "sem_thr_at lim (ST_add p) i \<longleftrightarrow> lim"
| "sem_thr_at lim ST_exit i \<longleftrightarrow> True"
| "sem_thr_at lim _ i \<longleftrightarrow> False"

fun sem_thr_asn :: "bool \<Rightarrow> (sem_pc, int) tstat \<Rightarrow> bool" where
  "sem_thr_asn lim (At p i) = sem_thr_at lim p i"
| "sem_thr_asn lim (Waits m p i) = False"
| "sem_thr_asn lim (Wakes m p i) = False"
| "sem_thr_asn lim _ = True"

definition sem_asn :: "bool \<Rightarrow> nat \<Rightarrow> (sem_pc, int) tstat \<Rightarrow> sem_shared \<Rightarrow> bool" where
  "sem_asn lim t st s \<longleftrightarrow>
     (if t = 0 then sem_main_asn lim st (sem_value s) \<and> 0 \<le> sem_value s \<and> (sem_alive s \<longleftrightarrow> (\<forall>i. st \<noteq> At SM_end i))
      else sem_thr_asn lim st)"

lemmas sem_defs = sem_prog_def sem_main_def sem_thr_prime_def mysem_sub_def mysem_add_def

lemma sem_lock: "sem_prog lim t p i = Lock m q \<Longrightarrow>
    m = 0 \<and> (t = 0 \<and> p = SM_sub Sub_lock \<and> q = SM_sub Sub_test \<or> t \<noteq> 0 \<and> p = ST_add Add_lock \<and> q = ST_add Add_inc)"
  by (cases p) (auto simp: sem_defs split: if_splits sub_pc.splits add_pc.splits)

lemma sem_unlock: "sem_prog lim t p i = Unlock m q \<Longrightarrow>
    m = 0 \<and> (t = 0 \<and> p = SM_sub Sub_unlock \<and> q = SM_create \<or> t \<noteq> 0 \<and> p = ST_add Add_unlock \<and> q = ST_exit)"
  by (cases p) (auto simp: sem_defs split: if_splits sub_pc.splits add_pc.splits)

lemma sem_wait: "sem_prog lim t p i = Wait m q \<Longrightarrow> m = 0 \<and> t = 0 \<and> p = SM_sub Sub_wait \<and> q = SM_sub Sub_test"
  by (cases p) (auto simp: sem_defs split: if_splits sub_pc.splits add_pc.splits)

lemma sem_broadcast: "sem_prog lim t p i = Broadcast q \<Longrightarrow> t \<noteq> 0 \<and> p = ST_add Add_bcast \<and> q = ST_add Add_unlock"
  by (cases p) (auto simp: sem_defs split: if_splits sub_pc.splits add_pc.splits)

lemma sem_signal: "sem_prog lim t p i \<noteq> Signal q"
  by (cases p) (auto simp: sem_defs split: if_splits sub_pc.splits add_pc.splits)

lemma sem_spawn: "sem_prog lim t p i = Spawn u q e \<Longrightarrow>
    t = 0 \<and> p = SM_create \<and> u = nat (i - LEFT) + 1 \<and> q = SM_inc \<and> e = SM_fail"
  by (cases p) (auto simp: sem_defs split: if_splits sub_pc.splits add_pc.splits)

lemma sem_join: "sem_prog lim t p i = Join u q \<Longrightarrow>
    t = 0 \<and> p = SM_join \<and> u = nat (i - LEFT) + 1 \<and> q = SM_jinc \<and> i \<le> RIGHT"
  by (cases p) (auto simp: sem_defs split: if_splits sub_pc.splits add_pc.splits)

lemma sem_leave: "sem_prog lim t p i = Leave \<Longrightarrow> t \<noteq> 0 \<and> p = ST_exit"
  by (cases p) (auto simp: sem_defs split: if_splits sub_pc.splits add_pc.splits)

lemma sem_act: "sem_prog lim t p i = Act f \<Longrightarrow> sem_crit (fst (f sh)) = sem_crit p"
  by (cases p) (auto simp: sem_defs split: if_splits sub_pc.splits add_pc.splits)

lemmas sem_instrs = sem_lock sem_unlock sem_wait sem_broadcast sem_spawn sem_join sem_leave

interpretation sem_monitor: monitor "sem_prog lim" sem_start sem_crit
  by unfold_locales (auto dest!: sem_instrs simp: sem_act sem_start_def sem_signal)

lemma sem_main_self:
  assumes "sem_main_at lim p i (sem_value s)" "0 \<le> sem_value s" "sem_main lim p i = Act f" "f s = (q, j, s')"
    "sem_alive s \<longleftrightarrow> p \<noteq> SM_end"
  shows "sem_main_at lim q j (sem_value s') \<and> 0 \<le> sem_value s' \<and> (sem_alive s' \<longleftrightarrow> q \<noteq> SM_end)"
  using assms by (cases p) (auto simp: sem_main_def mysem_sub_def mysem_destroy_def split: if_splits sub_pc.splits)

lemma sem_thr_self:
  assumes "sem_thr_at lim p i" "sem_thr_prime lim p i = Act f" "f s = (q, j, s')"
  shows "sem_thr_at lim q j \<and> sem_alive s' = sem_alive s \<and> (sem_value s' = sem_value s \<or> sem_crit p \<and> sem_value s' = sem_value s + 1)"
  using assms by (cases p) (auto simp: sem_thr_prime_def mysem_add_def split: if_splits add_pc.splits)

lemma sem_main_at_stable: "sem_main_at lim p i v \<Longrightarrow> \<not> sem_crit p \<Longrightarrow> sem_main_at lim p i v'"
  by (cases "(lim, p, i, v)" rule: sem_main_at.cases) auto

lemma sem_main_asn_stable: "sem_main_asn lim st v \<Longrightarrow> \<not> in_crit sem_crit st \<Longrightarrow> sem_main_asn lim st v'"
  using sem_main_at_stable by (cases st) auto

interpretation sem: annotated "sem_prog lim" sem_start sem_crit "sem_asn lim"
proof (unfold_locales, goal_cases)
  case (1 t p l sh f q l' sh')
  then show ?case
    using sem_main_self [of lim p l sh f q l' sh'] sem_thr_self [of lim p l f sh q l' sh']
    by (auto simp: sem_asn_def sem_prog_def split: if_splits)
next
  case (2 t p l sh f q l' sh' u st)
  show ?case
  proof (cases "t = 0")
    case True
    then show ?thesis using 2(4,5) by (simp add: sem_asn_def)
  next
    case False
    then have "sem_thr_at lim p l" "sem_thr_prime lim p l = Act f" using 2 by (auto simp: sem_asn_def sem_prog_def)
    from sem_thr_self [OF this 2(3)] show ?thesis
      using 2(5,6) sem_main_asn_stable [of lim st "sem_value sh" "sem_value sh'"] by (auto simp: sem_asn_def)
  qed
qed (auto dest!: sem_instrs simp: sem_asn_def sem_start_def sem_signal split: if_splits)

section \<open>The invariant\<close>

text \<open>How many threads \<open>main\<close> has created and joined, and whether it holds a place for the next one.\<close>

fun sem_created :: "(sem_pc, int) tstat \<Rightarrow> int" where
  "sem_created (At SM_inc i) = i + 1 - LEFT"
| "sem_created (At SM_join i) = RIGHT + 1 - LEFT"
| "sem_created (At SM_jinc i) = RIGHT + 1 - LEFT"
| "sem_created (At SM_end i) = RIGHT + 1 - LEFT"
| "sem_created (At p i) = i - LEFT"
| "sem_created (Waits m p i) = i - LEFT"
| "sem_created (Wakes m p i) = i - LEFT"
| "sem_created _ = 0"

fun sem_joined :: "(sem_pc, int) tstat \<Rightarrow> int" where
  "sem_joined (At SM_join i) = i - LEFT"
| "sem_joined (At SM_jinc i) = i + 1 - LEFT"
| "sem_joined (At SM_end i) = i - LEFT"
| "sem_joined _ = 0"

fun main_place :: "(sem_pc, int) tstat \<Rightarrow> int" where
  "main_place (At (SM_sub Sub_unlock) i) = 1"
| "main_place (At SM_create i) = 1"
| "main_place (At SM_fail i) = 1"
| "main_place _ = 0"

text \<open>The place a thread takes up, from its creation to the addition in \<open>mysem_add\<close>, and the prime it has not printed yet.\<close>

fun thr_place :: "(sem_pc, int) tstat \<Rightarrow> int" where
  "thr_place (At ST_mark i) = 1"
| "thr_place (At ST_print i) = 1"
| "thr_place (At (ST_add Add_lock) i) = 1"
| "thr_place (At (ST_add Add_inc) i) = 1"
| "thr_place _ = 0"

fun sem_hand :: "(sem_pc, int) tstat \<Rightarrow> int multiset" where
  "sem_hand (At ST_mark i) = (if prime_mark i then {#i#} else {#})"
| "sem_hand (At ST_print i) = {#i#}"
| "sem_hand _ = {#}"

definition sem_marked :: "int \<Rightarrow> int multiset" where
  "sem_marked n = mset (filter prime_mark [LEFT..LEFT + n - 1])"

definition sem_places :: "bool \<Rightarrow> (sem_pc, int, sem_shared) sys \<Rightarrow> bool" where
  "sem_places lim s \<longleftrightarrow> (lim \<longrightarrow>
     sem_value (shared s) + main_place (thr s ! 0) + (\<Sum>t \<in> {1..THRNUM}. thr_place (thr s ! t)) = SEM_N)"

definition sem_count :: "(sem_pc, int, sem_shared) sys \<Rightarrow> bool" where
  "sem_count s \<longleftrightarrow> mset (sem_out (shared s)) + (\<Sum>t \<in> {1..THRNUM}. sem_hand (thr s ! t)) = sem_marked (sem_created (thr s ! 0))"

definition sem_made :: "(sem_pc, int, sem_shared) sys \<Rightarrow> bool" where
  "sem_made s \<longleftrightarrow> (\<forall>t \<in> {1..THRNUM}. (thr s ! t = Off \<longleftrightarrow> sem_created (thr s ! 0) < int t)
     \<and> (int t \<le> sem_joined (thr s ! 0) \<longrightarrow> thr s ! t = Fin))"

definition sem_waits :: "(sem_pc, int, sem_shared) sys \<Rightarrow> bool" where
  "sem_waits s \<longleftrightarrow> (waiting (thr s ! 0) \<and> 0 < sem_value (shared s) \<longrightarrow>
     (\<exists>t \<in> {1..THRNUM}. \<exists>i. thr s ! t = At (ST_add Add_bcast) i))"

definition sem_inv :: "bool \<Rightarrow> (sem_pc, int, sem_shared) sys \<Rightarrow> bool" where
  "sem_inv lim s \<longleftrightarrow> length (thr s) = Suc THRNUM \<and> excl sem_crit s \<and> sem.asn_all lim s \<and> sem_made s \<and> sem_count s
     \<and> sem_places lim s \<and> sem_waits s \<and> (halted s = Some 0 \<longrightarrow> sem_joined (thr s ! 0) = RIGHT + 1 - LEFT)"

lemma sem_wake [simp]: "sem_created (wake st) = sem_created st" "sem_joined (wake st) = sem_joined st"
  "main_place (wake st) = main_place st"
  by (cases st; simp)+

lemma sem_inv_init: "sem_inv lim sem_init"
proof -
  have l: "length (thr sem_init) = Suc THRNUM" by (simp add: sem_init_def)
  have th: "thr sem_init ! u = (if u = 0 then At SM_for LEFT else Off)" if "u < Suc THRNUM" for u
    using that by (simp add: sem_init_def nth_Cons split: nat.split)
  have z: "thr sem_init ! 0 = At SM_for LEFT" "\<And>u. u \<in> {1..THRNUM} \<Longrightarrow> thr sem_init ! u = Off" using th by auto
  have sh: "sem_value (shared sem_init) = SEM_N" "sem_out (shared sem_init) = []" "held sem_init = (\<lambda>_. None)" "halted sem_init = None"
    "sem_alive (shared sem_init)"
    by (simp_all add: sem_init_def mysem_init_def)
  have "sem.asn_all lim sem_init" unfolding sem.asn_all_def using l th sh by (auto simp: sem_asn_def)
  moreover have "excl sem_crit sem_init" unfolding excl_def using l th sh by auto
  moreover have "sem_made sem_init" unfolding sem_made_def using z by auto
  moreover have "sem_count sem_init" unfolding sem_count_def using z sh by (simp add: sem_marked_def)
  moreover have "sem_places lim sem_init" unfolding sem_places_def using z sh by simp
  moreover have "sem_waits sem_init" unfolding sem_waits_def using z by simp
  ultimately show ?thesis using l sh unfolding sem_inv_def by simp
qed

lemma sem_facts:
  assumes "sem_inv lim s"
  shows "length (thr s) = Suc THRNUM" "sem_main_asn lim (thr s ! 0) (sem_value (shared s))"
    "t \<in> {1..THRNUM} \<Longrightarrow> sem_thr_asn lim (thr s ! t)" "0 \<le> sem_value (shared s)"
    "sem_alive (shared s) \<longleftrightarrow> (\<forall>i. thr s ! 0 \<noteq> At SM_end i)"
proof -
  have a: "\<forall>t < Suc THRNUM. sem_asn lim t (thr s ! t) (shared s)" "length (thr s) = Suc THRNUM"
    using assms by (auto simp: sem_inv_def sem.asn_all_def)
  show "length (thr s) = Suc THRNUM" by (rule a)
  show "sem_main_asn lim (thr s ! 0) (sem_value (shared s))" "0 \<le> sem_value (shared s)"
    "sem_alive (shared s) \<longleftrightarrow> (\<forall>i. thr s ! 0 \<noteq> At SM_end i)"
    using a(1) [rule_format, of 0] by (simp_all add: sem_asn_def)
  show "t \<in> {1..THRNUM} \<Longrightarrow> sem_thr_asn lim (thr s ! t)" using a(1) [rule_format, of t] by (simp add: sem_asn_def)
qed

lemma thrnum: "int THRNUM = RIGHT + 1 - LEFT"
  by (simp add: THRNUM_def)

lemma sem_spawn_off:
  assumes "sem_inv lim s"
  shows "sem_monitor.spawn_off lim s"
proof -
  have l: "length (thr s) = Suc THRNUM" by (rule sem_facts [OF assms])
  have "u < Suc THRNUM \<and> thr s ! u = Off" if t: "thr s ! t = At p i" "sem_prog lim t p i = Spawn u q e" for t p i u q e
  proof -
    have p: "t = 0" "p = SM_create" "u = nat (i - LEFT) + 1" using sem_spawn [OF t(2)] by auto
    have "LEFT \<le> i \<and> i \<le> RIGHT" using sem_facts(2) [OF assms] p t(1) by simp
    then have "u \<in> {1..THRNUM}" "i - LEFT < int u" using p(3) thrnum by auto
    then show ?thesis using assms p t(1) unfolding sem_inv_def sem_made_def by auto
  qed
  then show ?thesis using l unfolding sem_monitor.spawn_off_def by auto
qed

lemma sem_frame:
  assumes f: "fire (sem_prog lim) sem_start c t s = Some s'" and l: "length (thr s) = Suc THRNUM"
    and u: "u \<le> THRNUM" "u \<noteq> t" "u = 0 \<or> t \<noteq> 0 \<or> (\<forall>i. thr s ! 0 \<noteq> At SM_create i)"
  shows "thr s' ! u = thr s ! u \<or> waiting (thr s ! u) \<and> thr s' ! u = wake (thr s ! u)"
proof (rule fire_frame [OF f u(2)])
  fix p i v q e
  assume "thr s ! t = At p i" "sem_prog lim t p i = Spawn v q e"
  then have "t = 0 \<and> p = SM_create \<and> v = nat (i - LEFT) + 1" using sem_spawn by blast
  then show "u \<noteq> v" using u(2,3) \<open>thr s ! t = At p i\<close> by auto
qed (use u l in simp)

text \<open>A step of a thread other than \<open>main\<close>.\<close>

lemma sem_thr_step:
  assumes "sem_thr_at lim p i" "after c p i (sem_thr_prime lim p i) sh = (st, sh')"
  shows "mset (sem_out sh') + sem_hand st = mset (sem_out sh) + sem_hand (At p i)
    \<and> (lim \<longrightarrow> sem_value sh' + thr_place st = sem_value sh + thr_place (At p i)) \<and> st \<noteq> Off
    \<and> (sem_value sh' = sem_value sh \<or> (\<exists>j. st = At (ST_add Add_bcast) j))"
  using assms by (cases p) (auto simp: sem_thr_prime_def mysem_add_def split: if_splits add_pc.splits)

definition sem_rest :: "bool \<Rightarrow> (sem_pc, int, sem_shared) sys \<Rightarrow> bool" where
  "sem_rest lim s \<longleftrightarrow> sem_made s \<and> sem_count s \<and> sem_places lim s \<and> sem_waits s"

lemma sem_inv_thr:
  assumes i: "sem_inv lim s" and t: "t \<in> {1..THRNUM}" and f: "fire (sem_prog lim) sem_start c t s = Some s'"
  shows "sem_rest lim s'"
proof -
  have l: "length (thr s) = Suc THRNUM" "t \<noteq> 0" "t \<le> THRNUM" using sem_facts(1) [OF i] t by auto
  have r: "sem_made s" "sem_count s" "sem_places lim s" "sem_waits s" using i by (simp_all add: sem_inv_def)
  have fr: "thr s' ! u = thr s ! u \<or> waiting (thr s ! u) \<and> thr s' ! u = wake (thr s ! u)" if "u \<le> THRNUM" "u \<noteq> t" for u
    by (rule sem_frame [OF f l(1) that]) (use l in simp)
  have fz: "thr s' ! 0 = thr s ! 0 \<or> waiting (thr s ! 0) \<and> thr s' ! 0 = wake (thr s ! 0)" by (rule fr) (use l in simp_all)
  have z: "sem_created (thr s' ! 0) = sem_created (thr s ! 0)" "sem_joined (thr s' ! 0) = sem_joined (thr s ! 0)"
    "main_place (thr s' ! 0) = main_place (thr s ! 0)" using fz by auto
  have nw: "\<not> waiting (thr s ! u)" if "u \<in> {1..THRNUM}" for u using sem_facts(3) [OF i that] by (cases "thr s ! u") auto
  have same: "thr s' ! u = thr s ! u" if "u \<in> {1..THRNUM}" "u \<noteq> t" for u using fr [of u] nw [of u] that by auto
  obtain p k where At: "thr s ! t = At p k"
    using f sem_facts(3) [OF i t] by (cases "thr s ! t") (auto simp: fire_def split: if_splits)
  have tp: "sem_thr_at lim p k" using sem_facts(3) [OF i t] At by simp
  have af: "after c p k (sem_thr_prime lim p k) (shared s) = (thr s' ! t, shared s')"
    using fire_after [OF f At] l by (simp add: sem_prog_def prod_eq_iff)
  note own = sem_thr_step [OF tp af]
  note sums = sum_other [of "{1..THRNUM}" t, OF _ t]
  have h: "(\<Sum>u \<in> {1..THRNUM}. sem_hand (thr s' ! u)) = sem_hand (thr s' ! t) + (\<Sum>u \<in> {1..THRNUM} - {t}. sem_hand (thr s ! u))"
    "(\<Sum>u \<in> {1..THRNUM}. sem_hand (thr s ! u)) = sem_hand (thr s ! t) + (\<Sum>u \<in> {1..THRNUM} - {t}. sem_hand (thr s ! u))"
    by (rule sums; use same in simp)+
  have c: "(\<Sum>u \<in> {1..THRNUM}. thr_place (thr s' ! u)) = thr_place (thr s' ! t) + (\<Sum>u \<in> {1..THRNUM} - {t}. thr_place (thr s ! u))"
    "(\<Sum>u \<in> {1..THRNUM}. thr_place (thr s ! u)) = thr_place (thr s ! t) + (\<Sum>u \<in> {1..THRNUM} - {t}. thr_place (thr s ! u))"
    by (rule sums; use same in simp)+
  let ?H = "\<Sum>u \<in> {1..THRNUM} - {t}. sem_hand (thr s ! u)"
  have "mset (sem_out (shared s')) + (sem_hand (thr s' ! t) + ?H) = mset (sem_out (shared s')) + sem_hand (thr s' ! t) + ?H"
    by (simp only: ac_simps)
  also have "\<dots> = mset (sem_out (shared s)) + sem_hand (thr s ! t) + ?H" using own At by (simp only:)
  also have "\<dots> = mset (sem_out (shared s)) + (sem_hand (thr s ! t) + ?H)" by (simp only: ac_simps)
  also have "\<dots> = sem_marked (sem_created (thr s ! 0))" using r(2) h(2) by (simp only: sem_count_def)
  finally have "sem_count s'" unfolding sem_count_def h(1) z(1) .
  moreover have "sem_places lim s'" using r(3) own At unfolding sem_places_def c z(3) by auto
  moreover have "sem_waits s'"
    unfolding sem_waits_def
  proof
    assume w: "waiting (thr s' ! 0) \<and> 0 < sem_value (shared s')"
    then have wz: "waiting (thr s ! 0)" using fz by auto
    show "\<exists>u \<in> {1..THRNUM}. \<exists>i. thr s' ! u = At (ST_add Add_bcast) i"
    proof (cases "sem_value (shared s') = sem_value (shared s)")
      case True
      then obtain u j where u: "u \<in> {1..THRNUM}" "thr s ! u = At (ST_add Add_bcast) j" using r(4) wz w by (auto simp: sem_waits_def)
      have "u \<noteq> t"
      proof
        assume "u = t"
        then have "sem_prog lim t (ST_add Add_bcast) j = Broadcast (ST_add Add_unlock)" "thr s ! t = At (ST_add Add_bcast) j"
          using l u(2) by (simp_all add: sem_prog_def sem_thr_prime_def mysem_add_def)
        then show False using fire_broadcast [OF f, of "ST_add Add_bcast" j _ 0] w l by auto
      qed
      then show ?thesis using same [OF u(1)] u by auto
    next
      case False
      then show ?thesis using own t by auto
    qed
  qed
  moreover have "sem_made s'"
    unfolding sem_made_def
  proof
    fix u assume u: "u \<in> {1..THRNUM}"
    then show "(thr s' ! u = Off \<longleftrightarrow> sem_created (thr s' ! 0) < int u) \<and> (int u \<le> sem_joined (thr s' ! 0) \<longrightarrow> thr s' ! u = Fin)"
      using bspec [OF r(1) [unfolded sem_made_def] u] same [OF u] own At z by (cases "u = t") auto
  qed
  ultimately show ?thesis by (simp add: sem_rest_def)
qed

text \<open>A step of \<open>main\<close>.\<close>

lemma sem_main_at:
  assumes i: "sem_inv lim s" and p: "thr s ! 0 = At p i" and f: "fire (sem_prog lim) sem_start c 0 s = Some s'"
  shows "sem_main_at lim p i (sem_value (shared s))" "after c p i (sem_main lim p i) (shared s) = (thr s' ! 0, shared s')"
  using sem_facts(2) [OF i] p fire_after [OF f p] by (auto simp: sem_prog_def prod_eq_iff)

lemma sem_main_step:
  assumes "sem_main_at lim p i (sem_value sh)" "p \<noteq> SM_create" "after c p i (sem_main lim p i) sh = (st, sh')"
  shows "sem_out sh' = sem_out sh \<and> sem_created st = sem_created (At p i)
    \<and> (lim \<longrightarrow> sem_value sh' + main_place st = sem_value sh + main_place (At p i))
    \<and> (waiting st \<longrightarrow> sem_value sh' < 1)
    \<and> (sem_joined st = sem_joined (At p i) \<or> p = SM_join \<and> i \<le> RIGHT \<and> st = At SM_jinc i)"
proof (cases "p = SM_for \<and> \<not> i \<le> RIGHT")
  case True
  then have "i = RIGHT + 1" using assms(1) by auto
  then show ?thesis using assms True by (auto simp: sem_main_def)
next
  case False
  then show ?thesis using assms by (cases p) (auto simp: sem_main_def mysem_sub_def mysem_destroy_def split: if_splits sub_pc.splits)
qed

lemma sem_marked_Suc: "0 \<le> n \<Longrightarrow> sem_marked (n + 1) = sem_marked n + (if prime_mark (LEFT + n) then {#LEFT + n#} else {#})"
  by (simp add: sem_marked_def upto_rec2)

lemma sem_inv_create:
  assumes i: "sem_inv lim s" and f: "fire (sem_prog lim) sem_start c 0 s = Some s'" and k: "thr s ! 0 = At SM_create k"
  shows "sem_rest lim s'"
proof -
  have l: "length (thr s) = Suc THRNUM" by (rule sem_facts [OF i])
  have r: "sem_made s" "sem_count s" "sem_places lim s" using i by (simp_all add: sem_inv_def)
  note m = sem_main_at [OF i k f]
  have kr: "LEFT \<le> k" "k \<le> RIGHT" using m(1) by auto
  let ?u = "nat (k - LEFT) + 1"
  have prog: "sem_prog lim 0 SM_create k = Spawn ?u SM_inc SM_fail" by (simp add: sem_prog_def sem_main_def)
  have made: "\<forall>t \<in> {1..THRNUM}. thr s ! t = Off \<longleftrightarrow> k - LEFT < int t" using r(1) k unfolding sem_made_def by auto
  have iu: "int ?u = k - LEFT + 1" using kr by simp
  have u: "?u \<in> {1..THRNUM}" using kr thrnum by auto
  then have uo: "thr s ! ?u = Off" "?u \<noteq> 0" "?u < length (thr s)" using bspec [OF made u] iu l by auto
  have z: "thr s' ! 0 = At (if c = Fail then SM_fail else SM_inc) k" "shared s' = shared s"
    using m(2) by (auto simp: sem_main_def)
  have su: "thr s' ! ?u = (if c = Fail then Off else At ST_mark k)"
    using fire_spawn [OF f k prog uo(2,3)] uo(1) kr by (simp add: sem_start_def)
  have same: "thr s' ! v = thr s ! v" if "v \<in> {1..THRNUM}" "v \<noteq> ?u" for v
  proof -
    have "thr s' ! v = thr s ! v \<or> waiting (thr s ! v) \<and> thr s' ! v = wake (thr s ! v)"
      by (rule fire_frame [OF f]) (use that l k prog in auto)
    then show ?thesis using sem_facts(3) [OF i that(1)] by (cases "thr s ! v") auto
  qed
  note sums = sum_other [of "{1..THRNUM}" ?u, OF _ u]
  have h: "(\<Sum>v \<in> {1..THRNUM}. sem_hand (thr s' ! v)) = sem_hand (thr s' ! ?u) + (\<Sum>v \<in> {1..THRNUM} - {?u}. sem_hand (thr s ! v))"
    "(\<Sum>v \<in> {1..THRNUM}. sem_hand (thr s ! v)) = sem_hand (thr s ! ?u) + (\<Sum>v \<in> {1..THRNUM} - {?u}. sem_hand (thr s ! v))"
    by (rule sums; use same in simp)+
  have c: "(\<Sum>v \<in> {1..THRNUM}. thr_place (thr s' ! v)) = thr_place (thr s' ! ?u) + (\<Sum>v \<in> {1..THRNUM} - {?u}. thr_place (thr s ! v))"
    "(\<Sum>v \<in> {1..THRNUM}. thr_place (thr s ! v)) = thr_place (thr s ! ?u) + (\<Sum>v \<in> {1..THRNUM} - {?u}. thr_place (thr s ! v))"
    by (rule sums; use same in simp)+
  have "sem_count s'"
    using r(2) k su uo(1) sem_marked_Suc [of "k - LEFT"] kr unfolding sem_count_def h z by (auto simp: algebra_simps)
  moreover have "sem_places lim s'" using r(3) k su uo(1) unfolding sem_places_def c z by auto
  moreover have "sem_waits s'" unfolding sem_waits_def z by simp
  moreover have "sem_made s'"
    unfolding sem_made_def
  proof
    fix v assume v: "v \<in> {1..THRNUM}"
    show "(thr s' ! v = Off \<longleftrightarrow> sem_created (thr s' ! 0) < int v) \<and> (int v \<le> sem_joined (thr s' ! 0) \<longrightarrow> thr s' ! v = Fin)"
    proof (cases "v = ?u")
      case True
      then show ?thesis using su z(1) iu v by auto
    next
      case False
      then have "k - LEFT < int v \<longleftrightarrow> k + 1 - LEFT < int v" using iu by linarith
      then show ?thesis using same [OF v False] bspec [OF made v] z(1) v by auto
    qed
  qed
  ultimately show ?thesis by (simp add: sem_rest_def)
qed

lemma sem_inv_main:
  assumes i: "sem_inv lim s" and f: "fire (sem_prog lim) sem_start c 0 s = Some s'" and nc: "\<forall>k. thr s ! 0 \<noteq> At SM_create k"
  shows "sem_rest lim s'"
proof -
  have l: "length (thr s) = Suc THRNUM" by (rule sem_facts [OF i])
  have r: "sem_made s" "sem_count s" "sem_places lim s" using i by (simp_all add: sem_inv_def)
  have same: "thr s' ! v = thr s ! v" if "v \<in> {1..THRNUM}" for v
  proof -
    have "thr s' ! v = thr s ! v \<or> waiting (thr s ! v) \<and> thr s' ! v = wake (thr s ! v)"
      by (rule sem_frame [OF f l]) (use that nc in auto)
    then show ?thesis using sem_facts(3) [OF i that] by (cases "thr s ! v") auto
  qed
  have own: "sem_out (shared s') = sem_out (shared s) \<and> sem_created (thr s' ! 0) = sem_created (thr s ! 0)
    \<and> (lim \<longrightarrow> sem_value (shared s') + main_place (thr s' ! 0) = sem_value (shared s) + main_place (thr s ! 0))
    \<and> (waiting (thr s' ! 0) \<longrightarrow> sem_value (shared s') < 1)
    \<and> (sem_joined (thr s' ! 0) = sem_joined (thr s ! 0)
       \<or> (\<exists>k. thr s ! 0 = At SM_join k \<and> thr s' ! 0 = At SM_jinc k \<and> LEFT \<le> k \<and> k \<le> RIGHT \<and> thr s ! (nat (k - LEFT) + 1) = Fin))"
  proof (cases "thr s ! 0")
    case (At p k)
    note m = sem_main_at [OF i At f]
    have "p \<noteq> SM_create" using nc At by blast
    note mm = sem_main_step [OF m(1) this m(2)]
    have "thr s ! (nat (k - LEFT) + 1) = Fin \<and> LEFT \<le> k" if "p = SM_join" "k \<le> RIGHT"
    proof -
      have "exec sem_start c 0 k (sem_prog lim 0 p k) s = Some s'" using f At by (simp add: fire_def split: if_splits)
      then show ?thesis using that m(1) by (simp add: exec_def sem_prog_def sem_main_def split: if_splits)
    qed
    then show ?thesis using mm At by auto
  next
    case (Waits n p k)
    then show ?thesis using fire_waits [OF f Waits] by simp
  next
    case (Wakes n p k)
    have "p = SM_sub Sub_test" using sem_facts(2) [OF i] Wakes by simp
    then show ?thesis using fire_wakes [OF f Wakes] Wakes by simp
  qed (use f in \<open>auto simp: fire_def split: if_splits\<close>)
  have "sem_count s'" using r(2) own same unfolding sem_count_def by simp
  moreover have "sem_places lim s'" using r(3) own same unfolding sem_places_def by auto
  moreover have "sem_waits s'" using own unfolding sem_waits_def by auto
  moreover have "sem_made s'"
    unfolding sem_made_def
  proof
    fix v assume v: "v \<in> {1..THRNUM}"
    have m: "(thr s ! v = Off \<longleftrightarrow> sem_created (thr s ! 0) < int v) \<and> (int v \<le> sem_joined (thr s ! 0) \<longrightarrow> thr s ! v = Fin)"
      using r(1) v unfolding sem_made_def by blast
    have "int v \<le> sem_joined (thr s' ! 0) \<longrightarrow> thr s ! v = Fin"
    proof (cases "sem_joined (thr s' ! 0) = sem_joined (thr s ! 0)")
      case False
      then obtain k where k: "thr s ! 0 = At SM_join k" "thr s' ! 0 = At SM_jinc k" "LEFT \<le> k" "thr s ! (nat (k - LEFT) + 1) = Fin"
        using own by auto
      have "v = nat (k - LEFT) + 1" if "int v = k + 1 - LEFT" using that k(3) by auto
      then show ?thesis using k m by (cases "int v = k + 1 - LEFT") auto
    qed (use m in simp)
    then show "(thr s' ! v = Off \<longleftrightarrow> sem_created (thr s' ! 0) < int v) \<and> (int v \<le> sem_joined (thr s' ! 0) \<longrightarrow> thr s' ! v = Fin)"
      using m own same [OF v] by simp
  qed
  ultimately show ?thesis by (simp add: sem_rest_def)
qed

lemma sem_inv_fire:
  assumes i: "sem_inv lim s" and f: "fire (sem_prog lim) sem_start c t s = Some s'"
  shows "sem_inv lim s'"
proof -
  have so: "sem_monitor.spawn_off lim s" by (rule sem_spawn_off [OF i])
  have ex: "excl sem_crit s" "sem.asn_all lim s" "length (thr s) = Suc THRNUM" using i by (simp_all add: sem_inv_def)
  have l: "length (thr s') = Suc THRNUM" using fire_length [OF f] ex(3) by simp
  have e: "excl sem_crit s'" by (rule sem_monitor.excl_fire [OF ex(1) so f])
  have a: "sem.asn_all lim s'" by (rule sem.asn_fire [OF ex(2,1) so f])
  have t: "t < Suc THRNUM" using f ex(3) by (auto simp: fire_def split: if_splits)
  then have r: "sem_rest lim s'"
    using sem_inv_thr [OF i _ f] sem_inv_create [OF i] sem_inv_main [OF i] f by (cases "t = 0") fastforce+
  have "sem_joined (thr s' ! 0) = RIGHT + 1 - LEFT" if h: "halted s' = Some 0"
  proof -
    obtain p k where p: "thr s ! t = At p k" "sem_prog lim t p k = Halt 0" using fire_halted [OF f] h by auto
    have "t = 0 \<and> (p = SM_join \<or> p = SM_end) \<and> k = RIGHT + 1"
    proof (cases "t = 0")
      case True
      then have "sem_main_at lim p k (sem_value (shared s))" using sem_facts(2) [OF i] p(1) by simp
      then show ?thesis using p(2) True
        by (cases p) (auto simp: sem_prog_def sem_main_def mysem_sub_def split: if_splits sub_pc.splits)
    next
      case False
      then have "sem_thr_at lim p k" using sem_facts(3) [OF i, of t] p(1) t by simp
      then show ?thesis using p(2) False
        by (cases p) (auto simp: sem_prog_def sem_thr_prime_def mysem_add_def split: if_splits add_pc.splits)
    qed
    moreover have "thr s' ! t = At p k" using fire_after [OF f p(1)] p(2) by simp
    ultimately show ?thesis by auto
  qed
  then show ?thesis using l e a r unfolding sem_inv_def sem_rest_def by blast
qed

section \<open>No deadlock\<close>

lemma sem_live_run:
  assumes i: "sem_inv lim s" and h: "halted s = None" "held s 0 = None" and t: "t \<in> {1..THRNUM}" "live (thr s ! t)"
  shows "can_run (sem_prog lim) sem_start s"
proof -
  have l: "t < length (thr s)" "t \<noteq> 0" using sem_facts(1) [OF i] t(1) by auto
  obtain p k where p: "thr s ! t = At p k" using sem_facts(3) [OF i t(1)] t(2) by (cases "thr s ! t") auto
  have "\<forall>u q. sem_prog lim t p k \<noteq> Join u q" using sem_join l(2) by blast
  then show ?thesis using sem_monitor.at_can_run [OF p l(1) h(1)] h(2) by blast
qed

lemma sem_can_run:
  assumes i: "sem_inv lim s" and h: "halted s = None"
  shows "can_run (sem_prog lim) sem_start s"
proof (cases "held s 0")
  case (Some t)
  have "excl sem_crit s" using i by (simp add: sem_inv_def)
  then show ?thesis by (rule sem_monitor.holder_can_run [OF _ h Some]) (auto dest: sem_join)
next
  case None
  note run = sem_live_run [OF i h None]
  have w: "sem_waits s" "sem_made s" "sem_places lim s" using i by (simp_all add: sem_inv_def)
  have l: "0 < length (thr s)" using sem_facts(1) [OF i] by simp
  have m: "sem_main_asn lim (thr s ! 0) (sem_value (shared s))" by (rule sem_facts(2) [OF i])
  show ?thesis
  proof (cases "thr s ! 0")
    case (At p k)
    show ?thesis
    proof (cases "\<exists>u q. sem_prog lim 0 p k = Join u q")
      case True
      then obtain q where q: "sem_prog lim 0 p k = Join (nat (k - LEFT) + 1) q" "p = SM_join" "k \<le> RIGHT" using sem_join by blast
      have u: "nat (k - LEFT) + 1 \<in> {1..THRNUM}" using q m At thrnum by auto
      show ?thesis
      proof (cases "thr s ! (nat (k - LEFT) + 1) = Fin")
        case True
        then have "fire (sem_prog lim) sem_start Go 0 s \<noteq> None" using At h q(1) l u sem_facts(1) [OF i] by (auto simp: fire_def exec_def)
        then show ?thesis by (rule can_runI) simp
      next
        case False
        have "thr s ! (nat (k - LEFT) + 1) \<noteq> Off" using w(2) u q(2) At thrnum unfolding sem_made_def by auto
        moreover have "\<not> waiting (thr s ! (nat (k - LEFT) + 1))"
          using sem_facts(3) [OF i u] by (cases "thr s ! (nat (k - LEFT) + 1)") auto
        ultimately show ?thesis using run [OF u] False by (simp add: live_iff)
      qed
    next
      case False
      then show ?thesis using sem_monitor.at_can_run [OF At l h] None by blast
    qed
  next
    case (Waits n p k)
    show ?thesis
    proof (cases "0 < sem_value (shared s)")
      case True
      then obtain t j where "t \<in> {1..THRNUM}" "thr s ! t = At (ST_add Add_bcast) j" using w(1) Waits by (auto simp: sem_waits_def)
      then show ?thesis using run [of t] by simp
    next
      case False
      then have "(\<Sum>t \<in> {1..THRNUM}. thr_place (thr s ! t)) = SEM_N"
        using w(3) Waits m sem_facts(4) [OF i] by (simp add: sem_places_def)
      then have "\<not> (\<forall>t \<in> {1..THRNUM}. thr_place (thr s ! t) = 0)" by (metis sum.neutral zero_neq_numeral)
      then obtain t where t: "t \<in> {1..THRNUM}" "thr_place (thr s ! t) \<noteq> 0" by blast
      then have "live (thr s ! t)" by (cases "thr s ! t") auto
      with t(1) show ?thesis by (rule run)
    qed
  next
    case (Wakes n p k)
    then have "n = 0" using m by simp
    then show ?thesis using sem_monitor.wakes_can_run [OF Wakes l h] None by blast
  qed (use m in simp_all)
qed

lemma sem_reach_inv: "reach (sem_prog lim) sem_start sem_init s \<Longrightarrow> sem_inv lim s"
  by (rule reach_inv) (use sem_inv_init sem_inv_fire in auto)

section \<open>Correctness\<close>

definition at_work :: "(sem_pc, int) tstat \<Rightarrow> bool" where
  "at_work st \<longleftrightarrow> (case st of At p i \<Rightarrow> p = ST_mark \<or> p = ST_print | _ \<Rightarrow> False)"

lemma thr_place_range: "0 \<le> thr_place st \<and> (at_work st \<longrightarrow> thr_place st = 1)"
proof (cases st)
  case (At p i)
  then show ?thesis by (cases "At p i" rule: thr_place.cases) (auto simp: at_work_def)
qed (auto simp: at_work_def)

text \<open>C36: The program with the semaphore, under every scheduling: the value of the semaphore is never negative and never
  above its initial value, the threads that are looking for primes are at most as many as there are places taken, so never more
  than four; unless the process has ended some thread can run; at the end every place has been given back, and when the semaphore is destroyed no thread is left that could use it.\<close>
theorem mysem_limits:
  assumes "reach mysem_prog sem_start sem_init s"
  shows "0 \<le> sem_value (shared s) \<and> sem_value (shared s) \<le> SEM_N
    \<and> sem_value (shared s) + int (card {t \<in> {1..THRNUM}. at_work (thr s ! t)}) \<le> SEM_N
    \<and> (halted s = None \<longrightarrow> can_run mysem_prog sem_start s)
    \<and> (halted s = Some 0 \<longrightarrow> sem_value (shared s) = SEM_N)
    \<and> (\<not> sem_alive (shared s) \<longrightarrow> (\<forall>t \<in> {1..THRNUM}. thr s ! t = Fin))"
proof -
  have i: "sem_inv True s" using sem_reach_inv assms by (simp add: mysem_prog_def)
  have p: "sem_value (shared s) + main_place (thr s ! 0) + (\<Sum>t \<in> {1..THRNUM}. thr_place (thr s ! t)) = SEM_N"
    using i by (simp add: sem_inv_def sem_places_def)
  have m: "0 \<le> main_place (thr s ! 0)" by (cases "thr s ! 0" rule: main_place.cases) auto
  have "int (card {t \<in> {1..THRNUM}. at_work (thr s ! t)}) = (\<Sum>t \<in> {1..THRNUM}. if at_work (thr s ! t) then 1 else 0)"
    by (simp add: sum.If_cases Int_def)
  also have "\<dots> \<le> (\<Sum>t \<in> {1..THRNUM}. thr_place (thr s ! t))" by (rule sum_mono) (use thr_place_range in auto)
  finally have c: "int (card {t \<in> {1..THRNUM}. at_work (thr s ! t)}) \<le> (\<Sum>t \<in> {1..THRNUM}. thr_place (thr s ! t))" .
  have "sem_value (shared s) = SEM_N" if h: "halted s = Some 0"
  proof -
    have j: "sem_joined (thr s ! 0) = int THRNUM" using i h thrnum by (simp add: sem_inv_def)
    then have "\<forall>t \<in> {1..THRNUM}. thr s ! t = Fin" using i unfolding sem_inv_def sem_made_def by auto
    then have "(\<Sum>t \<in> {1..THRNUM}. thr_place (thr s ! t)) = 0" by simp
    moreover have "main_place (thr s ! 0) = 0" using j thrnum by (cases "thr s ! 0" rule: main_place.cases) auto
    ultimately show ?thesis using p by simp
  qed
  moreover have "\<forall>t \<in> {1..THRNUM}. thr s ! t = Fin" if d: "\<not> sem_alive (shared s)"
  proof -
    obtain k where "thr s ! 0 = At SM_end k" using sem_facts(5) [OF i] d by blast
    moreover from this have "k = RIGHT + 1" using sem_facts(2) [OF i] by simp
    ultimately show ?thesis using i thrnum unfolding sem_inv_def sem_made_def by auto
  qed
  ultimately show ?thesis using p m c sem_facts(4) [OF i] sem_can_run [OF i] unfolding mysem_prog_def by auto
qed

lemma mysem_limits_witness:
  "\<exists>s. run_sched mysem_prog sem_start (replicate 12 (Go, 0)) sem_init = Some s
    \<and> sem_value (shared s) = 2 \<and> sem_value (shared s) + int (card {t \<in> {1..THRNUM}. at_work (thr s ! t)}) \<le> SEM_N"
proof -
  let ?r = "run_sched mysem_prog sem_start (replicate 12 (Go, 0)) sem_init"
  have "map_option (\<lambda>s. sem_value (shared s)) ?r = Some 2" by code_simp
  then obtain s where s: "?r = Some s" "sem_value (shared s) = 2" by auto
  with mysem_limits [OF run_sched_reach [OF reach.init s(1)]] show ?thesis by blast
qed

text \<open>One thread per number, with and without the semaphore, under every scheduling: what has been printed at any
  moment are primes of the range, unless the process has ended some thread can run, and when it ends with status 0 exactly the primes of
  the range have been printed, each once.\<close>
theorem primer_threads:
  assumes "prog \<in> {mysem_prog, primer0_prog}" "reach prog sem_start sem_init s"
  shows "mset (sem_out (shared s)) \<subseteq># mset (filter is_prime [LEFT..LEFT + int THRNUM - 1])
    \<and> (halted s = None \<longrightarrow> can_run prog sem_start s)
    \<and> (halted s = Some 0 \<longrightarrow> mset (sem_out (shared s)) = mset (filter is_prime [LEFT..LEFT + int THRNUM - 1]))"
proof -
  obtain lim where b: "prog = sem_prog lim" using assms(1) by (auto simp: mysem_prog_def primer0_prog_def)
  have i: "sem_inv lim s" using sem_reach_inv assms(2) b by simp
  have c: "mset (sem_out (shared s)) + (\<Sum>t \<in> {1..THRNUM}. sem_hand (thr s ! t)) = sem_marked (sem_created (thr s ! 0))"
    using i by (simp add: sem_inv_def sem_count_def)
  have l: "4 < LEFT" by simp
  have all: "sem_marked (int THRNUM) = mset (filter is_prime [LEFT..LEFT + int THRNUM - 1])"
    unfolding sem_marked_def filter_marks [OF l] ..
  have m: "sem_main_asn lim (thr s ! 0) (sem_value (shared s))" by (rule sem_facts(2) [OF i])
  have cr: "0 \<le> sem_created (thr s ! 0) \<and> sem_created (thr s ! 0) \<le> int THRNUM"
  proof (cases "thr s ! 0")
    case (At p k)
    then show ?thesis using m thrnum
      by (cases p; cases "(lim, p, k, sem_value (shared s))" rule: sem_main_at.cases) auto
  qed (use m thrnum in auto)
  have part: "sem_marked n \<subseteq># sem_marked (int THRNUM)" if "0 \<le> n" "n \<le> int THRNUM" for n
  proof -
    have "[LEFT..LEFT + int THRNUM - 1] = [LEFT..LEFT + n - 1] @ [LEFT + n..LEFT + int THRNUM - 1]"
      by (rule upto_parts) (use that in simp_all)
    then show ?thesis by (simp add: sem_marked_def)
  qed
  have "mset (sem_out (shared s)) \<subseteq># sem_marked (sem_created (thr s ! 0))" unfolding c [symmetric] by simp
  also have "\<dots> \<subseteq># sem_marked (int THRNUM)" using cr by (intro part) auto
  finally have sub: "mset (sem_out (shared s)) \<subseteq># sem_marked (int THRNUM)" .
  have "mset (sem_out (shared s)) = sem_marked (int THRNUM)" if h: "halted s = Some 0"
  proof -
    have j: "sem_joined (thr s ! 0) = int THRNUM" using i h thrnum by (simp add: sem_inv_def)
    then have "\<forall>t \<in> {1..THRNUM}. thr s ! t = Fin" using i unfolding sem_inv_def sem_made_def by auto
    then have "(\<Sum>t \<in> {1..THRNUM}. sem_hand (thr s ! t)) = {#}" by simp
    moreover have "sem_created (thr s ! 0) = int THRNUM"
      using j thrnum by (cases "thr s ! 0" rule: sem_joined.cases) auto
    ultimately show ?thesis using c by simp
  qed
  then show ?thesis using sub sem_can_run [OF i] b all by simp
qed

lemma primer_threads_witness:
  "\<exists>s. run_sched primer0_prog sem_start (replicate 12 (Go, 0) @ [(Go, 3)]) sem_init = Some s
    \<and> sem_out (shared s) = [] \<and> can_run primer0_prog sem_start s"
proof -
  let ?r = "run_sched primer0_prog sem_start (replicate 12 (Go, 0) @ [(Go, 3)]) sem_init"
  have "map_option (\<lambda>s. (sem_out (shared s), halted s)) ?r = Some ([], None)" by code_simp
  then obtain s where s: "?r = Some s" "sem_out (shared s) = []" "halted s = None" by auto
  with primer_threads [of primer0_prog, OF _ run_sched_reach [OF reach.init s(1)]] show ?thesis by auto
qed

end
