(* ===== verification/Poly.thy ===== *)
theory Poly
  imports SList
begin

text \<open>
  The polynomials of \<open>ds/line/list/linklist/simple/polynomial/poly.c\<close>: lists of (coefficient, exponent)
  nodes behind a head node, added by merging the second into the first. \<open>poly_create\<close> asks for
  \<open>sizeof(me)\<close> bytes, the size of a pointer, for the head node and then writes its \<open>next\<close> behind them:
  the parameter \<open>roomy\<close> says that the allocator's block is large enough in spite of that. The lemmas show
  the merge on the heap, and that it adds the coefficients.
\<close>

section \<open>Operations\<close>

type_synonym term_heap = "(int \<times> int) nheap"

partial_function (option) poly_create_loop ::
  "addr \<Rightarrow> addr \<Rightarrow> (int \<times> int) list \<Rightarrow> int \<Rightarrow> int \<Rightarrow> term_heap \<Rightarrow> (addr \<times> term_heap) option" where
  "poly_create_loop me cur a i n h =
     (if i < n then
        let (newnode, h) = malloc \<lparr>ndata = (0, 0), nnext = NULL\<rparr> h
        in if newnode = NULL then Some (NULL, h)
           else Option.bind (arr_get a i) (\<lambda>t.
             Option.bind (modify newnode (\<lambda>c. c\<lparr>ndata := t\<rparr>) h) (\<lambda>h.
             Option.bind (modify cur (\<lambda>c. c\<lparr>nnext := newnode\<rparr>) h) (\<lambda>h.
             poly_create_loop me newnode a (i + 1) n h)))
      else Some (me, h))"

definition poly_create :: "bool \<Rightarrow> (int \<times> int) list \<Rightarrow> int \<Rightarrow> term_heap \<Rightarrow> (addr \<times> term_heap) option" where
  "poly_create roomy a n h =
     (let (me, h) = malloc \<lparr>ndata = (0, 0), nnext = NULL\<rparr> h
      in if me = NULL then Some (NULL, h)
         else if \<not> roomy then None
         else do {
           h \<leftarrow> modify me (\<lambda>c. c\<lparr>nnext := NULL\<rparr>) h;
           poly_create_loop me me a 0 n h })"

definition poly_show :: "addr \<Rightarrow> term_heap \<Rightarrow> (int \<times> int) list option" where
  "poly_show me h = do { c \<leftarrow> load me h; show_from (nnext c) h }"

text \<open>The loop of \<open>poly_union\<close> on \<open>p\<close>, \<open>q\<close> and \<open>r\<close>.\<close>

partial_function (option) poly_union_loop ::
  "addr \<Rightarrow> addr \<Rightarrow> addr \<Rightarrow> term_heap \<Rightarrow> (addr \<times> addr \<times> addr \<times> term_heap) option" where
  "poly_union_loop p q r h =
     (if p \<noteq> NULL \<and> q \<noteq> NULL then
        Option.bind (load p h) (\<lambda>cp.
        Option.bind (load q h) (\<lambda>cq.
        if snd (ndata cp) < snd (ndata cq) then
          Option.bind (modify r (\<lambda>c. c\<lparr>nnext := p\<rparr>) h) (\<lambda>h.
          Option.bind (load p h) (\<lambda>cp. poly_union_loop (nnext cp) q p h))
        else if snd (ndata cp) > snd (ndata cq) then
          Option.bind (modify r (\<lambda>c. c\<lparr>nnext := q\<rparr>) h) (\<lambda>h.
          Option.bind (load q h) (\<lambda>cq. poly_union_loop p (nnext cq) q h))
        else
          Option.bind (cint (fst (ndata cp) + fst (ndata cq))) (\<lambda>s.
          Option.bind (modify p (\<lambda>c. c\<lparr>ndata := (s, snd (ndata cp))\<rparr>) h) (\<lambda>h.
          Option.bind (if s \<noteq> 0 then modify r (\<lambda>c. c\<lparr>nnext := p\<rparr>) h else Some h) (\<lambda>h.
          Option.bind (load p h) (\<lambda>cp.
          Option.bind (load q h) (\<lambda>cq.
          poly_union_loop (nnext cp) (nnext cq) (if s \<noteq> 0 then p else r) h)))))))
      else Some (p, q, r, h))"

definition poly_union_end :: "addr \<times> addr \<times> addr \<times> term_heap \<Rightarrow> term_heap option" where
  "poly_union_end = (\<lambda>(p, q, r, h).
     if p = NULL then modify r (\<lambda>c. c\<lparr>nnext := q\<rparr>) h
     else modify r (\<lambda>c. c\<lparr>nnext := p\<rparr>) h)"

definition poly_union :: "addr \<Rightarrow> addr \<Rightarrow> term_heap \<Rightarrow> term_heap option" where
  "poly_union p1 p2 h = do {
     c1 \<leftarrow> load p1 h;
     c2 \<leftarrow> load p2 h;
     s \<leftarrow> poly_union_loop (nnext c1) (nnext c2) p1 h;
     poly_union_end s }"

section \<open>Merging lists of terms\<close>

fun merge_nodes :: "(addr \<times> int \<times> int) list \<Rightarrow> (addr \<times> int \<times> int) list \<Rightarrow> (addr \<times> int \<times> int) list" where
  "merge_nodes [] ys = ys"
| "merge_nodes (x # xs) [] = x # xs"
| "merge_nodes ((a, c, e) # xs) ((b, d, f) # ys) =
     (if e < f then (a, c, e) # merge_nodes xs ((b, d, f) # ys)
      else if f < e then (b, d, f) # merge_nodes ((a, c, e) # xs) ys
      else if c + d \<noteq> 0 then (a, c + d, e) # merge_nodes xs ys
      else merge_nodes xs ys)"

fun merge_terms :: "(int \<times> int) list \<Rightarrow> (int \<times> int) list \<Rightarrow> (int \<times> int) list" where
  "merge_terms [] ys = ys"
| "merge_terms (x # xs) [] = x # xs"
| "merge_terms ((c, e) # xs) ((d, f) # ys) =
     (if e < f then (c, e) # merge_terms xs ((d, f) # ys)
      else if f < e then (d, f) # merge_terms ((c, e) # xs) ys
      else if c + d \<noteq> 0 then (c + d, e) # merge_terms xs ys
      else merge_terms xs ys)"

lemma merge_nodes_terms: "map snd (merge_nodes xs ys) = merge_terms (map snd xs) (map snd ys)"
  by (induction xs ys rule: merge_nodes.induct) auto

lemma merge_nodes_addrs: "fst ` set (merge_nodes xs ys) \<subseteq> fst ` set xs \<union> fst ` set ys"
proof (induction xs ys rule: merge_nodes.induct)
  case (3 a c e xs b d f ys)
  then show ?case by (cases "e < f"; cases "f < e"; cases "c + d = 0") (simp; blast)+
qed auto

lemma merge_nodes_distinct:
  "distinct (map fst xs @ map fst ys) \<Longrightarrow> distinct (map fst (merge_nodes xs ys))"
proof (induction xs ys rule: merge_nodes.induct)
  case (3 a c e xs b d f ys)
  then show ?case
    using merge_nodes_addrs [of xs "(b, d, f) # ys"] merge_nodes_addrs [of "(a, c, e) # xs" ys]
      merge_nodes_addrs [of xs ys] by auto
qed auto

text \<open>The coefficient of an exponent.\<close>

definition coef :: "(int \<times> int) list \<Rightarrow> int \<Rightarrow> int" where
  "coef ts e = (\<Sum>(c, f) \<leftarrow> ts. if f = e then c else 0)"

lemma coef_simps [simp]: "coef [] e = 0" "coef ((c, f) # ts) e = (if f = e then c else 0) + coef ts e"
  by (simp_all add: coef_def)

lemma coef_merge: "coef (merge_terms xs ys) e = coef xs e + coef ys e"
  by (induction xs ys rule: merge_terms.induct) (auto simp: add_eq_0_iff)

text \<open>Normal form: ascending exponents, no zero coefficient.\<close>

definition normal :: "(int \<times> int) list \<Rightarrow> bool" where
  "normal ts \<longleftrightarrow> sorted_wrt (<) (map snd ts) \<and> (\<forall>t \<in> set ts. fst t \<noteq> 0)"

lemma merge_exps: "snd ` set (merge_terms xs ys) \<subseteq> snd ` set xs \<union> snd ` set ys"
proof (induction xs ys rule: merge_terms.induct)
  case (3 c e xs d f ys)
  then show ?case by (cases "e < f"; cases "f < e"; cases "c + d = 0") (simp; blast)+
qed auto

lemma normal_Cons: "normal (t # ts) \<longleftrightarrow> fst t \<noteq> 0 \<and> normal ts \<and> (\<forall>e \<in> snd ` set ts. snd t < e)"
  by (auto simp: normal_def)

lemma merge_normal: "normal xs \<Longrightarrow> normal ys \<Longrightarrow> normal (merge_terms xs ys)"
proof (induction xs ys rule: merge_terms.induct)
  case (3 c e xs d f ys)
  consider "e < f" | "f < e" | "e = f" by linarith
  then show ?case
  proof cases
    case 1
    then have "\<forall>g \<in> snd ` set (merge_terms xs ((d, f) # ys)). e < g"
      using merge_exps [of xs "(d, f) # ys"] "3.prems" by (fastforce simp: normal_Cons)
    with 1 "3.IH"(1) "3.prems" show ?thesis by (simp add: normal_Cons)
  next
    case 2
    then have "\<forall>g \<in> snd ` set (merge_terms ((c, e) # xs) ys). f < g"
      using merge_exps [of "(c, e) # xs" ys] "3.prems" by (fastforce simp: normal_Cons)
    with 2 "3.IH"(2) "3.prems" show ?thesis by (simp add: normal_Cons)
  next
    case 3
    then have "\<forall>g \<in> snd ` set (merge_terms xs ys). e < g"
      using merge_exps [of xs ys] "3.prems" by (fastforce simp: normal_Cons)
    with 3 "3.IH"(3,4) "3.prems" show ?thesis by (auto simp: normal_Cons)
  qed
qed simp_all

section \<open>The merge on the heap\<close>

text \<open>No sum of coefficients overflows.\<close>

definition sums_ok :: "(addr \<times> int \<times> int) list \<Rightarrow> (addr \<times> int \<times> int) list \<Rightarrow> bool" where
  "sums_ok xs ys \<longleftrightarrow> (\<forall>x \<in> set xs. \<forall>y \<in> set ys. is_cint (fst (snd x) + fst (snd y)))"

lemma poly_union_loop_eq:
  "heap_ok h \<Longrightarrow> path (mem h) p xs NULL \<Longrightarrow> path (mem h) q ys NULL \<Longrightarrow> mem h r = Some cr \<Longrightarrow>
   distinct (r # map fst xs @ map fst ys) \<Longrightarrow> sums_ok xs ys \<Longrightarrow>
   \<exists>h'. Option.bind (poly_union_loop p q r h) poly_union_end = Some h' \<and> heap_ok h'
     \<and> path (mem h') r ((r, ndata cr) # merge_nodes xs ys) NULL
     \<and> (\<forall>a. a \<noteq> r \<longrightarrow> a \<notin> fst ` set xs \<longrightarrow> a \<notin> fst ` set ys \<longrightarrow> mem h' a = mem h a)"
proof (induction xs ys arbitrary: p q r cr h rule: merge_nodes.induct)
  case (1 ys)
  then have p: "p = NULL" by simp
  let ?h = "h\<lparr>mem := (mem h)(r \<mapsto> cr\<lparr>nnext := q\<rparr>)\<rparr>"
  have "Option.bind (poly_union_loop p q r h) poly_union_end = Some ?h"
    using p 1 by (subst poly_union_loop.simps) (simp add: poly_union_end_def)
  moreover have "heap_ok ?h" by (rule heap_ok_upd [OF 1(1,4)])
  moreover have "path (mem ?h) r ((r, ndata cr) # merge_nodes [] ys) NULL"
    using 1 by (cases cr) (auto simp: path_Cons)
  ultimately show ?case by fastforce
next
  case (2 x xs)
  then have q: "q = NULL" "p \<noteq> NULL" using path_pos [of h p x xs NULL] by auto
  let ?h = "h\<lparr>mem := (mem h)(r \<mapsto> cr\<lparr>nnext := p\<rparr>)\<rparr>"
  have "Option.bind (poly_union_loop p q r h) poly_union_end = Some ?h"
    using q 2 by (subst poly_union_loop.simps) (simp add: poly_union_end_def)
  moreover have "heap_ok ?h" by (rule heap_ok_upd [OF 2(1,4)])
  moreover have "path (mem ?h) r ((r, ndata cr) # merge_nodes (x # xs) []) NULL"
  proof -
    have "path (mem ?h) p (x # xs) NULL" using 2 by auto
    then show ?thesis by (cases cr) (simp add: path_Cons [of _ r])
  qed
  ultimately show ?case by fastforce
next
  case (3 a c e xs b d f ys)
  note prems = "3.prems"
  obtain pn where p: "p = a" "mem h a = Some \<lparr>ndata = (c, e), nnext = pn\<rparr>" "path (mem h) pn xs NULL"
    using prems(2) by (auto simp: path_Cons)
  obtain qn where q: "q = b" "mem h b = Some \<lparr>ndata = (d, f), nnext = qn\<rparr>" "path (mem h) qn ys NULL"
    using prems(3) by (auto simp: path_Cons)
  have nn: "a \<noteq> NULL" "b \<noteq> NULL" using heap_ok_nonnull [OF prems(1)] p q by auto
  have ld: "load a h = Some \<lparr>ndata = (c, e), nnext = pn\<rparr>" "load b h = Some \<lparr>ndata = (d, f), nnext = qn\<rparr>"
    using prems(1) p q by simp_all
  have d: "r \<noteq> a" "r \<noteq> b" "a \<noteq> b" "r \<notin> fst ` set xs" "r \<notin> fst ` set ys" "a \<notin> fst ` set xs"
    "a \<notin> fst ` set ys" "b \<notin> fst ` set xs" "b \<notin> fst ` set ys" using prems(5) by auto
  let ?link = "\<lambda>t. h\<lparr>mem := (mem h)(r \<mapsto> cr\<lparr>nnext := t\<rparr>)\<rparr>"
  have lok: "heap_ok (?link t)" for t by (rule heap_ok_upd [OF prems(1,4)])
  have lm: "modify r (\<lambda>c. c\<lparr>nnext := t\<rparr>) h = Some (?link t)" for t using prems(1,4) by simp
  have relink: "path (mem h') r ((r, ndata cr) # (t, v) # zs) NULL"
    if "path (mem h') t ((t, v) # zs) NULL" "mem h' r = Some (cr\<lparr>nnext := t\<rparr>)" for h' t v zs
    using that by (cases cr) (auto simp: path_Cons [of _ r])
  consider (lt) "e < f" | (gt) "f < e" | (eq) "e = f" by linarith
  then show ?case
  proof cases
    case lt
    let ?h = "?link a"
    have pre: "path (mem ?h) pn xs NULL" "path (mem ?h) q ((b, d, f) # ys) NULL"
      "mem ?h a = Some \<lparr>ndata = (c, e), nnext = pn\<rparr>"
      using p q d prems(3) by auto
    have dist: "distinct (a # map fst xs @ map fst ((b, d, f) # ys))" "sums_ok xs ((b, d, f) # ys)"
      using prems(5,6) by (auto simp: sums_ok_def)
    obtain h' where h': "Option.bind (poly_union_loop pn q a ?h) poly_union_end = Some h'" "heap_ok h'"
      "path (mem h') a ((a, c, e) # merge_nodes xs ((b, d, f) # ys)) NULL"
      "\<And>z. z \<noteq> a \<Longrightarrow> z \<notin> fst ` set xs \<Longrightarrow> z \<notin> fst ` set ((b, d, f) # ys) \<Longrightarrow> mem h' z = mem ?h z"
      using "3.IH"(1) [OF lt lok pre dist] by auto
    have "Option.bind (poly_union_loop p q r h) poly_union_end = Some h'"
      using lt ld nn p q lm lok pre(3) h'(1) by (subst poly_union_loop.simps) simp
    moreover have "path (mem h') r ((r, ndata cr) # (a, c, e) # merge_nodes xs ((b, d, f) # ys)) NULL"
      by (rule relink [OF h'(3)]) (use h'(4) [of r] d in simp)
    moreover have "mem h' z = mem h z"
      if "z \<noteq> r" "z \<notin> fst ` set ((a, c, e) # xs)" "z \<notin> fst ` set ((b, d, f) # ys)" for z
      using h'(4) [of z] that by simp
    ultimately show ?thesis using lt h'(2) by (intro exI [of _ h']) simp
  next
    case gt
    let ?h = "?link b"
    have pre: "path (mem ?h) p ((a, c, e) # xs) NULL" "path (mem ?h) qn ys NULL"
      "mem ?h b = Some \<lparr>ndata = (d, f), nnext = qn\<rparr>"
      using p q d prems(2) by auto
    have dist: "distinct (b # map fst ((a, c, e) # xs) @ map fst ys)" "sums_ok ((a, c, e) # xs) ys"
      using prems(5,6) by (auto simp: sums_ok_def)
    have nlt: "\<not> e < f" using gt by simp
    obtain h' where h': "Option.bind (poly_union_loop p qn b ?h) poly_union_end = Some h'" "heap_ok h'"
      "path (mem h') b ((b, d, f) # merge_nodes ((a, c, e) # xs) ys) NULL"
      "\<And>z. z \<noteq> b \<Longrightarrow> z \<notin> fst ` set ((a, c, e) # xs) \<Longrightarrow> z \<notin> fst ` set ys \<Longrightarrow> mem h' z = mem ?h z"
      using "3.IH"(2) [OF nlt gt lok pre dist] by auto
    have "Option.bind (poly_union_loop p q r h) poly_union_end = Some h'"
      using gt ld nn p q lm lok pre(3) h'(1) by (subst poly_union_loop.simps) simp
    moreover have "path (mem h') r ((r, ndata cr) # (b, d, f) # merge_nodes ((a, c, e) # xs) ys) NULL"
      by (rule relink [OF h'(3)]) (use h'(4) [of r] d in simp)
    moreover have "mem h' z = mem h z"
      if "z \<noteq> r" "z \<notin> fst ` set ((a, c, e) # xs)" "z \<notin> fst ` set ((b, d, f) # ys)" for z
      using h'(4) [of z] that by simp
    ultimately show ?thesis using gt h'(2) by (intro exI [of _ h']) simp
  next
    case eq
    have ne: "\<not> e < f" "\<not> f < e" using eq by simp_all
    have ci: "is_cint (c + d)" using prems(6) by (simp add: sums_ok_def)
    let ?k = "h\<lparr>mem := (mem h)(a \<mapsto> \<lparr>ndata = (c + d, e), nnext = pn\<rparr>)\<rparr>"
    have ok0: "heap_ok ?k" by (rule heap_ok_upd [OF prems(1) p(2)])
    have m0: "modify a (\<lambda>x. x\<lparr>ndata := (c + d, e)\<rparr>) h = Some ?k" using prems(1) p(2) by simp
    have r0: "mem ?k r = Some cr" using prems(4) d by simp
    show ?thesis
    proof (cases "c + d = 0")
      case True
      have pre: "path (mem ?k) pn xs NULL" "path (mem ?k) qn ys NULL" using p q d by auto
      have dist: "distinct (r # map fst xs @ map fst ys)" "sums_ok xs ys"
        using prems(5,6) by (auto simp: sums_ok_def)
      obtain h' where h': "Option.bind (poly_union_loop pn qn r ?k) poly_union_end = Some h'" "heap_ok h'"
        "path (mem h') r ((r, ndata cr) # merge_nodes xs ys) NULL"
        "\<And>z. z \<noteq> r \<Longrightarrow> z \<notin> fst ` set xs \<Longrightarrow> z \<notin> fst ` set ys \<Longrightarrow> mem h' z = mem ?k z"
        using "3.IH"(4) [OF ne _ ok0 pre r0 dist] True by auto
      have lds: "load a ?k = Some \<lparr>ndata = (c + d, e), nnext = pn\<rparr>" "load b ?k = Some \<lparr>ndata = (d, f), nnext = qn\<rparr>"
        using ok0 d q(2) by (auto intro!: load_Some)
      have "Option.bind (poly_union_loop p q r h) poly_union_end = Some h'"
        using eq ld nn p(1) q(1) m0 ci True lds h'(1) by (subst poly_union_loop.simps) simp
      moreover have "mem h' z = mem h z"
        if "z \<noteq> r" "z \<notin> fst ` set ((a, c, e) # xs)" "z \<notin> fst ` set ((b, d, f) # ys)" for z
        using h'(4) [of z] that by simp
      ultimately show ?thesis using eq True h'(2,3) by (intro exI [of _ h']) simp
    next
      case False
      let ?h = "?k\<lparr>mem := (mem ?k)(r \<mapsto> cr\<lparr>nnext := a\<rparr>)\<rparr>"
      have ok1: "heap_ok ?h" by (rule heap_ok_upd [OF ok0 r0])
      have m1: "modify r (\<lambda>x. x\<lparr>nnext := a\<rparr>) ?k = Some ?h"
        by (simp only: modify_Some [OF ok0 r0])
      have pre: "path (mem ?h) pn xs NULL" "path (mem ?h) qn ys NULL"
        "mem ?h a = Some \<lparr>ndata = (c + d, e), nnext = pn\<rparr>" using p q d by auto
      have dist: "distinct (a # map fst xs @ map fst ys)" "sums_ok xs ys"
        using prems(5,6) by (auto simp: sums_ok_def)
      obtain h' where h': "Option.bind (poly_union_loop pn qn a ?h) poly_union_end = Some h'" "heap_ok h'"
        "path (mem h') a ((a, c + d, e) # merge_nodes xs ys) NULL"
        "\<And>z. z \<noteq> a \<Longrightarrow> z \<notin> fst ` set xs \<Longrightarrow> z \<notin> fst ` set ys \<Longrightarrow> mem h' z = mem ?h z"
        using "3.IH"(3) [OF ne False ok1 pre dist] by auto
      have lds: "load a ?h = Some \<lparr>ndata = (c + d, e), nnext = pn\<rparr>" "load b ?h = Some \<lparr>ndata = (d, f), nnext = qn\<rparr>"
        using load_Some [OF ok1 pre(3)] load_Some [OF ok1, of b] d q(2) by simp_all
      have "Option.bind (poly_union_loop p q r h) poly_union_end = Some h'"
        using eq ld nn p(1) q(1) m0 m1 ci False lds h'(1) by (subst poly_union_loop.simps) simp
      moreover have "path (mem h') r ((r, ndata cr) # (a, c + d, e) # merge_nodes xs ys) NULL"
        by (rule relink [OF h'(3)]) (use h'(4) [of r] d in simp)
      moreover have "mem h' z = mem h z"
        if "z \<noteq> r" "z \<notin> fst ` set ((a, c, e) # xs)" "z \<notin> fst ` set ((b, d, f) # ys)" for z
        using h'(4) [of z] that by simp
      ultimately show ?thesis using eq False h'(2) by (intro exI [of _ h']) simp
    qed
  qed
qed

section \<open>Creation\<close>

lemma poly_create_loop_eq:
  "heap_ok h \<Longrightarrow> path (mem h) me (xs @ [(cur, g)]) NULL \<Longrightarrow> distinct (map fst (xs @ [(cur, g)])) \<Longrightarrow>
   \<forall>k. \<not> oom h k \<Longrightarrow> i \<le> length a \<Longrightarrow>
   \<exists>h' zs. poly_create_loop me cur a (int i) (int (length a)) h = Some (me, h') \<and> heap_ok h'
     \<and> path (mem h') me (xs @ (cur, g) # zs) NULL \<and> distinct (map fst (xs @ (cur, g) # zs))
     \<and> map snd zs = drop i a \<and> (\<forall>z \<in> fst ` set zs. brk h \<le> z)
     \<and> (\<forall>z. z \<noteq> cur \<longrightarrow> z < brk h \<longrightarrow> mem h' z = mem h z) \<and> (\<forall>k. \<not> oom h' k)"
proof (induction "length a - i" arbitrary: i h xs cur g)
  case 0
  then have "poly_create_loop me cur a (int i) (int (length a)) h = Some (me, h)"
    by (subst poly_create_loop.simps) simp
  with 0 show ?case by (intro exI [of _ h] exI [of _ "[]"]) simp
next
  case (Suc k)
  have i: "i < length a" "k = length a - Suc i" using Suc.hyps(2) by linarith+
  have ok: "heap_ok h" and p: "path (mem h) me (xs @ [(cur, g)]) NULL"
    and dist: "distinct (map fst (xs @ [(cur, g)]))" using Suc.prems by simp_all
  obtain new h1 where m: "malloc \<lparr>ndata = (0, 0), nnext = NULL\<rparr> h = (new, h1)" by fastforce
  have nn: "new \<noteq> NULL" using m Suc.prems(4) brk_pos [OF ok] by (auto simp: malloc_def Let_def)
  note r = malloc_ok [OF m nn ok]
  have fresh: "new \<notin> fst ` set (xs @ [(cur, g)])" using path_fresh [OF ok p] r(1) by simp
  obtain h2 where h2: "modify new (\<lambda>c. c\<lparr>ndata := a ! i\<rparr>) h1 = Some h2" "heap_ok h2"
    "mem h2 = (mem h1)(new \<mapsto> \<lparr>ndata = a ! i, nnext = NULL\<rparr>)" "oom h2 = oom h1" "brk h2 = brk h1"
    using modify_ok [OF r(2), of new _ "\<lambda>c. c\<lparr>ndata := a ! i\<rparr>"] r(1,3) by fastforce
  have "mem h cur = Some \<lparr>ndata = g, nnext = NULL\<rparr>" using p by (auto simp: path_append path_Cons)
  then have cur: "mem h2 cur = Some \<lparr>ndata = g, nnext = NULL\<rparr>" using h2(3) r(1,3) fresh by auto
  then obtain h3 where h3: "modify cur (\<lambda>c. c\<lparr>nnext := new\<rparr>) h2 = Some h3" "heap_ok h3"
    "mem h3 = (mem h2)(cur \<mapsto> \<lparr>ndata = g, nnext = new\<rparr>)" "oom h3 = oom h2" "brk h3 = brk h2"
    using modify_ok [OF h2(2), of cur _ "\<lambda>c. c\<lparr>nnext := new\<rparr>"] by fastforce
  have cl: "cur < brk h" using ok p by (auto simp: heap_ok_def path_append path_Cons)
  have "path (mem h3) me ((xs @ [(cur, g)]) @ [(new, a ! i)]) NULL"
    using p fresh dist h3(3) h2(3) r(1,3) by (auto simp: path_append path_Cons)
  moreover have "distinct (map fst ((xs @ [(cur, g)]) @ [(new, a ! i)]))" using dist fresh by auto
  moreover have "\<forall>k. \<not> oom h3 k" using Suc.prems(4) h3(4) h2(4) r(6) by simp
  ultimately obtain h' zs where h': "poly_create_loop me new a (int (Suc i)) (int (length a)) h3 = Some (me, h')" "heap_ok h'"
    "path (mem h') me ((xs @ [(cur, g)]) @ (new, a ! i) # zs) NULL"
    "distinct (map fst ((xs @ [(cur, g)]) @ (new, a ! i) # zs))"
    "map snd zs = drop (Suc i) a" "\<forall>z \<in> fst ` set zs. brk h3 \<le> z"
    "\<forall>z. z \<noteq> new \<longrightarrow> z < brk h3 \<longrightarrow> mem h' z = mem h3 z" "\<forall>k. \<not> oom h' k"
    using Suc.hyps(1) [OF i(2) h3(2), of "xs @ [(cur, g)]" new "a ! i"] i(1) by auto
  have b: "brk h3 = Suc (brk h)" using r(4) h2(5) h3(5) by simp
  have "poly_create_loop me cur a (int i) (int (length a)) h = Some (me, h')"
    using i(1) m nn h2(1) h3(1) h'(1) by (subst poly_create_loop.simps) (simp add: algebra_simps)
  moreover have "\<forall>z \<in> fst ` set ((new, a ! i) # zs). brk h \<le> z" using h'(6) b r(1) by auto
  moreover have "mem h' z = mem h z" if "z \<noteq> cur" "z < brk h" for z
    using that h'(7) b r(1,3) h2(3) h3(3) by simp
  moreover have "map snd ((new, a ! i) # zs) = drop i a" using h'(5) i(1) by (simp add: Cons_nth_drop_Suc)
  ultimately show ?case
    using h'(2,3,4,8) by (intro exI [of _ h'] exI [of _ "(new, a ! i) # zs"]) simp
qed

lemma poly_create_list:
  assumes "heap_ok h" "\<forall>k. \<not> oom h k"
  shows "\<exists>me h' zs. poly_create True a (int (length a)) h = Some (me, h') \<and> slist h' me zs \<and> map snd zs = a
    \<and> (\<forall>z \<in> set (me # map fst zs). brk h \<le> z) \<and> (\<forall>z < brk h. mem h' z = mem h z) \<and> (\<forall>k. \<not> oom h' k) \<and> me \<noteq> NULL"
proof -
  obtain me h1 where m: "malloc \<lparr>ndata = (0, 0), nnext = NULL\<rparr> h = (me, h1)" by fastforce
  have nn: "me \<noteq> NULL" using m assms(2) brk_pos [OF assms(1)] by (auto simp: malloc_def Let_def)
  note r = malloc_ok [OF m nn assms(1)]
  obtain h2 where h2: "modify me (\<lambda>c. c\<lparr>nnext := NULL\<rparr>) h1 = Some h2" "heap_ok h2"
    "mem h2 = (mem h1)(me \<mapsto> \<lparr>ndata = (0, 0), nnext = NULL\<rparr>)" "oom h2 = oom h1" "brk h2 = brk h1"
    using modify_ok [OF r(2), of me _ "\<lambda>c. c\<lparr>nnext := NULL\<rparr>"] r(1,3) by fastforce
  have p: "path (mem h2) me ([] @ [(me, (0, 0))]) NULL" "distinct (map fst ([] @ [(me, (0, 0))]))"
    using h2(3) by (simp_all add: path_Cons)
  have "\<forall>k. \<not> oom h2 k" using assms(2) r(6) h2(4) by simp
  from poly_create_loop_eq [OF h2(2) p this, of 0 a] obtain h' zs where
    h': "poly_create_loop me me a 0 (int (length a)) h2 = Some (me, h')" "heap_ok h'"
    "path (mem h') me ((me, (0, 0)) # zs) NULL" "distinct (me # map fst zs)" "map snd zs = a"
    "\<forall>z \<in> fst ` set zs. brk h2 \<le> z" "\<forall>z. z \<noteq> me \<longrightarrow> z < brk h2 \<longrightarrow> mem h' z = mem h2 z" "\<forall>k. \<not> oom h' k"
    by auto
  have "poly_create True a (int (length a)) h = Some (me, h')"
    using m nn h2(1) h'(1) by (simp add: poly_create_def)
  moreover have "slist h' me zs" using h'(2-4) by (auto simp: slist_def)
  moreover have "\<forall>z < brk h. mem h' z = mem h z" using h'(7) r(1,3,4) h2(3,5) by simp
  moreover have "\<forall>z \<in> set (me # map fst zs). brk h \<le> z" using h'(6) h2(5) r(1,4) by auto
  ultimately show ?thesis using h'(5,8) nn by (intro exI [of _ me] exI [of _ h'] exI [of _ zs]) simp
qed

section \<open>Correctness\<close>

lemma poly_show_eq: "slist h me xs \<Longrightarrow> poly_show me h = Some (map snd xs)"
  by (auto simp: poly_show_def slist_def path_Cons show_from_eq)

text \<open>C29: On two polynomials without a common node, and without an overflowing sum of coefficients,
  \<open>poly_union\<close> returns. The first list then holds the merge of the two, in which every exponent has the
  sum of its two coefficients; it is in normal form (ascending exponents, no zero coefficient) when both
  operands are; and that is what \<open>poly_show\<close> prints. Nodes outside the two lists are not written.\<close>
theorem poly_union_adds:
  assumes "slist h p1 xs" "slist h p2 ys" "set (p1 # map fst xs) \<inter> set (p2 # map fst ys) = {}" "sums_ok xs ys"
  shows "\<exists>h' zs. poly_union p1 p2 h = Some h' \<and> slist h' p1 zs
    \<and> map snd zs = merge_terms (map snd xs) (map snd ys)
    \<and> (\<forall>e. coef (map snd zs) e = coef (map snd xs) e + coef (map snd ys) e)
    \<and> (normal (map snd xs) \<and> normal (map snd ys) \<longrightarrow> normal (map snd zs))
    \<and> poly_show p1 h' = Some (map snd zs)
    \<and> (\<forall>a. a \<notin> set (p1 # map fst xs @ map fst ys) \<longrightarrow> mem h' a = mem h a)"
proof -
  obtain g r where p: "heap_ok h" "mem h p1 = Some \<lparr>ndata = g, nnext = r\<rparr>" "path (mem h) r xs NULL"
    "distinct (p1 # map fst xs)" using assms(1) by (auto simp: slist_def path_Cons)
  obtain g' q where q: "mem h p2 = Some \<lparr>ndata = g', nnext = q\<rparr>" "path (mem h) q ys NULL"
    "distinct (p2 # map fst ys)" using assms(2) by (auto simp: slist_def path_Cons)
  have dist: "distinct (p1 # map fst xs @ map fst ys)" using p(4) q(3) assms(3) by auto
  obtain h' where h': "Option.bind (poly_union_loop r q p1 h) poly_union_end = Some h'" "heap_ok h'"
    "path (mem h') p1 ((p1, g) # merge_nodes xs ys) NULL"
    "\<forall>a. a \<noteq> p1 \<longrightarrow> a \<notin> fst ` set xs \<longrightarrow> a \<notin> fst ` set ys \<longrightarrow> mem h' a = mem h a"
    using poly_union_loop_eq [OF p(1,3) q(2) p(2) dist assms(4)] by auto
  have "poly_union p1 p2 h = Some h'" using p(1,2) q(1) h'(1) by (simp add: poly_union_def)
  moreover have "distinct (p1 # map fst (merge_nodes xs ys))"
    using merge_nodes_distinct [of xs ys] merge_nodes_addrs [of xs ys] dist by auto
  then have l: "slist h' p1 (merge_nodes xs ys)" using h'(2,3) unfolding slist_def by blast
  ultimately show ?thesis
    using poly_show_eq [OF l] coef_merge merge_normal h'(4)
    by (intro exI [of _ h'] exI [of _ "merge_nodes xs ys"]) (simp add: merge_nodes_terms)
qed

text \<open>The program's \<open>main\<close>: what it prints for the sum.\<close>

definition poly_main :: "bool \<Rightarrow> term_heap \<Rightarrow> ((int \<times> int) list \<times> (int \<times> int) list \<times> (int \<times> int) list) option" where
  "poly_main roomy h = do {
     (p1, h) \<leftarrow> poly_create roomy [(5, 0), (2, 1), (8, 8), (3, 16)] 4 h;
     if p1 = NULL then Some ([], [], [])
     else do {
       (p2, h) \<leftarrow> poly_create roomy [(6, 1), (16, 6), (- 8, 8)] 3 h;
       if p2 = NULL then Some ([], [], [])
       else do {
         s1 \<leftarrow> poly_show p1 h;
         s2 \<leftarrow> poly_show p2 h;
         h \<leftarrow> poly_union p1 p2 h;
         s3 \<leftarrow> poly_show p1 h;
         Some (s1, s2, s3) } } }"

lemma slist_frame:
  assumes "slist h me xs" "heap_ok h'" "\<forall>z < brk h. mem h' z = mem h z"
  shows "slist h' me xs"
proof -
  have "path m' p ys q" if "path (mem h) p ys q" "\<forall>z. mem h z \<noteq> None \<longrightarrow> m' z = mem h z" for m' p ys q
    using that by (induction ys arbitrary: p) (auto simp: path_Cons)
  moreover have "mem h' z = mem h z" if "mem h z \<noteq> None" for z
    using that assms(1,3) by (auto simp: slist_def heap_ok_def)
  ultimately show ?thesis using assms(1,2) unfolding slist_def by blast
qed

lemma poly_union_adds_witness:
  "poly_main True empty_heap
     = Some ([(5, 0), (2, 1), (8, 8), (3, 16)], [(6, 1), (16, 6), (- 8, 8)], [(5, 0), (8, 1), (16, 6), (3, 16)])"
proof -
  let ?a = "[(5, 0), (2, 1), (8, 8), (3, 16)] :: (int \<times> int) list"
  let ?b = "[(6, 1), (16, 6), (- 8, 8)] :: (int \<times> int) list"
  have "\<forall>k. \<not> oom (empty_heap :: term_heap) k" by (simp add: empty_heap_def)
  from poly_create_list [OF empty_heap_ok this, of ?a] obtain p1 h1 xs where
    1: "poly_create True ?a 4 empty_heap = Some (p1, h1)" "slist h1 p1 xs" "map snd xs = ?a" "\<forall>k. \<not> oom h1 k" "p1 \<noteq> NULL"
    by auto
  have ok: "heap_ok h1" using 1(2) by (simp add: slist_def)
  from poly_create_list [OF ok 1(4), of ?b] obtain p2 h2 ys where
    2: "poly_create True ?b 3 h1 = Some (p2, h2)" "slist h2 p2 ys" "map snd ys = ?b"
    "\<forall>z \<in> set (p2 # map fst ys). brk h1 \<le> z" "\<forall>z < brk h1. mem h2 z = mem h1 z" "p2 \<noteq> NULL"
    by auto
  have l: "slist h2 p1 xs" by (rule slist_frame [OF 1(2) _ 2(5)]) (use 2(2) in \<open>simp add: slist_def\<close>)
  obtain g where g: "path (mem h1) p1 ((p1, g) # xs) NULL" using 1(2) by (auto simp: slist_def)
  have below: "a < brk h1" if "a \<in> set (p1 # map fst xs)" for a
    using path_live [OF g, of a] that ok by (simp add: heap_ok_def)
  have disj: "set (p1 # map fst xs) \<inter> set (p2 # map fst ys) = {}"
    using below 2(4) by (meson disjoint_iff leD)
  have "snd x \<in> set ?a" "snd y \<in> set ?b" if "x \<in> set xs" "y \<in> set ys" for x y
    using that imageI [of x "set xs" snd] imageI [of y "set ys" snd] arg_cong [OF 1(3), of set]
      arg_cong [OF 2(3), of set] by (simp_all only: set_map)
  then have sums: "sums_ok xs ys" by (fastforce simp: sums_ok_def cint_range)
  from poly_union_adds [OF l 2(2) disj sums] obtain h3 where
    3: "poly_union p1 p2 h2 = Some h3" "poly_show p1 h3 = Some (merge_terms ?a ?b)"
    by (auto simp: 1(3) 2(3) simp del: merge_terms.simps)
  show ?thesis
    using 1 2 3 poly_show_eq [OF l] poly_show_eq [OF 2(2)] by (simp add: poly_main_def)
qed

end
