(* ===== verification/ServerPool.thy ===== *)
theory ServerPool
  imports Prelude
begin

text \<open>
  The preforking server \<open>ipc/socket/stream/pool_dynamic/server.c\<close>: a pool of at most 20 server
  processes in shared memory, which the parent grows and shrinks whenever a child reports a change of
  state. The parent keeps two counters that it refreshes by scanning the pool; the children write
  their own state at any time. The lemmas show that no interleaving of the parent and its children
  makes the parent write outside the pool, abort, or lose count of its processes, and what one round
  of control makes of the number of idle servers.
\<close>

section \<open>State\<close>

abbreviation MINSPARESERVER :: int where "MINSPARESERVER \<equiv> 5"
abbreviation MAXSPARESERVER :: int where "MAXSPARESERVER \<equiv> 10"
abbreviation MAXCLIENTS :: nat where "MAXCLIENTS \<equiv> 20"

abbreviation SRV_IDLE :: int where "SRV_IDLE \<equiv> 0"
abbreviation SRV_BUSY :: int where "SRV_BUSY \<equiv> 1"

record server_st =
  pid :: int
  srv_state :: int

text \<open>
  \<open>alive\<close> are the processes that exist; \<open>forks n\<close> is the result of the \<open>n\<close>-th call of \<open>fork\<close> from now.
\<close>

record pool =
  serverpool :: "server_st list"
  idle_count :: int
  busy_count :: int
  alive :: "int set"
  forks :: "nat \<Rightarrow> int"

section \<open>Operations of the parent\<close>

text \<open>\<open>for (slot = 0; slot < MAXCLIENTS; slot++) if (serverpool[slot].pid == -1) break;\<close>\<close>

fun free_server :: "server_st list \<Rightarrow> int" where
  "free_server [] = 0"
| "free_server (s # ss) = (if pid s = - 1 then 0 else 1 + free_server ss)"

definition sys_fork :: "pool \<Rightarrow> int \<times> pool" where
  "sys_fork p = (forks p 0, p\<lparr>forks := \<lambda>n. forks p (Suc n)\<rparr>)"

definition add_1_server :: "pool \<Rightarrow> (int \<times> pool) outcome option" where
  "add_1_server p =
     (if idle_count p + busy_count p \<ge> int MAXCLIENTS then Some (Done (- 1, p))
      else do {
        let slot = free_server (serverpool p);
        s \<leftarrow> arr_get (serverpool p) slot;
        sp \<leftarrow> arr_set (serverpool p) slot (s\<lparr>srv_state := SRV_IDLE\<rparr>);
        let (c, p) = sys_fork (p\<lparr>serverpool := sp\<rparr>);
        if c < 0 then Some (Exit 1 (c, p))
        else do {
          s \<leftarrow> arr_get (serverpool p) slot;
          sp \<leftarrow> arr_set (serverpool p) slot (s\<lparr>pid := c\<rparr>);
          Some (Done (0, p\<lparr>serverpool := sp, idle_count := idle_count p + 1, alive := insert c (alive p)\<rparr>)) } })"

text \<open>The loop of \<open>del_1_server\<close>: the pool and the process killed, if any.\<close>

fun del_first_idle :: "server_st list \<Rightarrow> server_st list \<times> int option" where
  "del_first_idle [] = ([], None)"
| "del_first_idle (s # ss) =
     (if pid s \<noteq> - 1 \<and> srv_state s = SRV_IDLE then (s\<lparr>pid := - 1\<rparr> # ss, Some (pid s))
      else case del_first_idle ss of (ss', k) \<Rightarrow> (s # ss', k))"

definition del_1_server :: "pool \<Rightarrow> int \<times> pool" where
  "del_1_server p =
     (if idle_count p = 0 then (- 1, p)
      else case del_first_idle (serverpool p) of
          (sp, None) \<Rightarrow> (0, p\<lparr>serverpool := sp\<rparr>)
        | (sp, Some k) \<Rightarrow>
            (0, p\<lparr>serverpool := sp, idle_count := idle_count p - 1, alive := alive p - {k}\<rparr>))"

text \<open>
  \<open>scan_pool\<close>: the pool with the slots of dead processes released and the two numbers counted; \<open>None\<close>
  is \<open>abort()\<close> on an unknown state. The declared \<open>int\<close> result is never returned or used.
\<close>

fun scan_slots :: "int set \<Rightarrow> server_st list \<Rightarrow> (server_st list \<times> int \<times> int) option" where
  "scan_slots al [] = Some ([], 0, 0)"
| "scan_slots al (s # ss) =
     (if pid s = - 1 then do { (ss', i, b) \<leftarrow> scan_slots al ss; Some (s # ss', i, b) }
      else if pid s \<notin> al then do { (ss', i, b) \<leftarrow> scan_slots al ss; Some (s\<lparr>pid := - 1\<rparr> # ss', i, b) }
      else if srv_state s = SRV_IDLE then do { (ss', i, b) \<leftarrow> scan_slots al ss; Some (s # ss', i + 1, b) }
      else if srv_state s = SRV_BUSY then do { (ss', i, b) \<leftarrow> scan_slots al ss; Some (s # ss', i, b + 1) }
      else None)"

definition scan_pool :: "pool \<Rightarrow> pool option" where
  "scan_pool p = do {
     (sp, i, b) \<leftarrow> scan_slots (alive p) (serverpool p);
     Some (p\<lparr>serverpool := sp, idle_count := i, busy_count := b\<rparr>) }"

text \<open>The two loops of the control step; their bounds are evaluated again in every iteration.\<close>

function shrink_loop :: "int \<Rightarrow> pool \<Rightarrow> pool" where
  "shrink_loop i p =
     (if i < idle_count p - MAXSPARESERVER then shrink_loop (i + 1) (snd (del_1_server p)) else p)"
  by pat_completeness auto
termination
  by (relation "measure (\<lambda>(i, p). nat (idle_count p - MAXSPARESERVER - i))")
    (auto simp: del_1_server_def split: prod.split option.split)

declare shrink_loop.simps [simp del]

partial_function (option) grow_loop :: "int \<Rightarrow> pool \<Rightarrow> pool outcome option" where
  "grow_loop i p =
     (if i < MAXSPARESERVER - idle_count p then
        Option.bind (add_1_server p) (\<lambda>r.
          case r of
            Exit n q \<Rightarrow> Some (Exit n (snd q))
          | Done q \<Rightarrow> grow_loop (i + 1) (snd q))
      else Some (Done p))"

definition show_slot :: "server_st \<Rightarrow> char" where
  "show_slot s = (if pid s = - 1 then CHR '' '' else if srv_state s = SRV_IDLE then CHR ''.'' else CHR ''x'')"

text \<open>One round of the main loop after \<open>sigsuspend\<close>: the pool and the line printed.\<close>

definition control_round :: "pool \<Rightarrow> (pool \<times> string) outcome option" where
  "control_round p = do {
     p \<leftarrow> scan_pool p;
     r \<leftarrow> (if idle_count p > MAXSPARESERVER then Some (Done (shrink_loop 0 p))
            else if idle_count p < MINSPARESERVER then grow_loop 0 p
            else Some (Done p));
     case r of
       Exit n p \<Rightarrow> Some (Exit n (p, []))
     | Done p \<Rightarrow> Some (Done (p, map show_slot (serverpool p) @ ''\<newline>'')) }"

text \<open>The pool after \<open>mmap\<close> and the loop that clears it, and the loop that starts the first servers.\<close>

definition pool_init :: "(nat \<Rightarrow> int) \<Rightarrow> pool" where
  "pool_init fk = \<lparr>serverpool = replicate MAXCLIENTS \<lparr>pid = - 1, srv_state = 0\<rparr>,
     idle_count = 0, busy_count = 0, alive = {}, forks = fk\<rparr>"

fun start_servers :: "nat \<Rightarrow> pool \<Rightarrow> pool outcome option" where
  "start_servers 0 p = Some (Done p)"
| "start_servers (Suc n) p = do {
     r \<leftarrow> add_1_server p;
     case r of Exit k q \<Rightarrow> Some (Exit k (snd q)) | Done q \<Rightarrow> start_servers n (snd q) }"

section \<open>The children\<close>

text \<open>
  What \<open>server_job\<close> does to the shared pool: the child of slot \<open>n\<close> declares itself idle, and busy when
  \<open>accept\<close> succeeds. When \<open>accept\<close> fails it exits: the test \<open>errno != EINTR || errno != EAGAIN\<close> is
  always true.
\<close>

definition set_state :: "nat \<Rightarrow> int \<Rightarrow> pool \<Rightarrow> pool" where
  "set_state n v p = p\<lparr>serverpool := (serverpool p)[n := (serverpool p ! n)\<lparr>srv_state := v\<rparr>]\<rparr>"

definition server_job_accept :: "nat \<Rightarrow> int \<Rightarrow> int \<Rightarrow> pool \<Rightarrow> pool" where
  "server_job_accept n client_sd err p =
     (if client_sd < 0 \<and> (err \<noteq> EINTR \<or> err \<noteq> EAGAIN)
      then p\<lparr>alive := alive p - {pid (serverpool p ! n)}\<rparr>
      else set_state n SRV_BUSY p)"

text \<open>A step of the parent or of a child.\<close>

inductive pool_step :: "pool \<Rightarrow> pool \<Rightarrow> bool" where
  add: "add_1_server p = Some (Done (r, p')) \<Longrightarrow> pool_step p p'"
| del: "pool_step p (snd (del_1_server p))"
| scan: "scan_pool p = Some p' \<Longrightarrow> pool_step p p'"
| idle: "n < MAXCLIENTS \<Longrightarrow> pool_step p (set_state n SRV_IDLE p)"
| accept: "n < MAXCLIENTS \<Longrightarrow> pool_step p (server_job_accept n c e p)"
| death: "pool_step p (p\<lparr>alive := alive p - {k}\<rparr>)"

section \<open>The invariant\<close>

definition used_slots :: "server_st list \<Rightarrow> int" where
  "used_slots ss = int (length (filter (\<lambda>s. pid s \<noteq> - 1) ss))"

lemma used_slots_simps [simp]:
  "used_slots [] = 0" "used_slots (s # ss) = (if pid s \<noteq> - 1 then 1 else 0) + used_slots ss"
  by (simp_all add: used_slots_def)

lemma used_slots_le: "0 \<le> used_slots ss \<and> used_slots ss \<le> int (length ss)"
  by (simp add: used_slots_def)

text \<open>The counters may disagree with the states the children have set since the last scan, but never in
  their sum.\<close>

definition pool_ok :: "pool \<Rightarrow> bool" where
  "pool_ok p \<longleftrightarrow> length (serverpool p) = MAXCLIENTS
     \<and> (\<forall>s \<in> set (serverpool p). srv_state s = SRV_IDLE \<or> srv_state s = SRV_BUSY)
     \<and> 0 \<le> idle_count p \<and> 0 \<le> busy_count p
     \<and> idle_count p + busy_count p = used_slots (serverpool p)"

lemma free_server_bound: "0 \<le> free_server ss \<and> free_server ss \<le> int (length ss)"
  by (induction ss) auto

lemma free_server_free:
  "used_slots ss < int (length ss) \<Longrightarrow>
   free_server ss < int (length ss) \<and> pid (ss ! nat (free_server ss)) = - 1"
proof (induction ss)
  case (Cons s ss)
  then show ?case using free_server_bound [of ss] by (auto simp: nat_add_distrib split: if_splits)
qed simp

lemma used_slots_update:
  "n < length ss \<Longrightarrow> used_slots (ss[n := s]) =
   used_slots ss - (if pid (ss ! n) \<noteq> - 1 then 1 else 0) + (if pid s \<noteq> - 1 then 1 else 0)"
proof (induction ss arbitrary: n)
  case (Cons t ts)
  then show ?case by (cases n) auto
qed simp

lemma add_ok:
  assumes "pool_ok p"
  shows "if used_slots (serverpool p) \<ge> int MAXCLIENTS then add_1_server p = Some (Done (- 1, p))
    else if forks p 0 < 0 then \<exists>q. add_1_server p = Some (Exit 1 q)
    else \<exists>p'. add_1_server p = Some (Done (0, p')) \<and> pool_ok p' \<and> idle_count p' = idle_count p + 1
      \<and> busy_count p' = busy_count p \<and> forks p' = (\<lambda>n. forks p (Suc n))"
proof (cases "used_slots (serverpool p) \<ge> int MAXCLIENTS")
  case True
  with assms show ?thesis by (simp add: add_1_server_def pool_ok_def)
next
  case False
  define n where "n = nat (free_server (serverpool p))"
  have len: "length (serverpool p) = MAXCLIENTS" using assms by (simp add: pool_ok_def)
  from False len free_server_free [of "serverpool p"] free_server_bound [of "serverpool p"]
  have n: "n < length (serverpool p)" "pid (serverpool p ! n) = - 1" "free_server (serverpool p) = int n"
    by (auto simp: n_def)
  let ?s = "(serverpool p ! n)\<lparr>srv_state := SRV_IDLE\<rparr>"
  have sum: "\<not> idle_count p + busy_count p \<ge> int MAXCLIENTS"
    using False assms by (simp add: pool_ok_def)
  show ?thesis
  proof (cases "forks p 0 < 0")
    case True
    with False sum n show ?thesis by (simp add: add_1_server_def sys_fork_def)
  next
    case nonneg: False
    let ?p = "p\<lparr>serverpool := (serverpool p)[n := ?s\<lparr>pid := forks p 0\<rparr>], idle_count := idle_count p + 1,
      alive := insert (forks p 0) (alive p), forks := \<lambda>n. forks p (Suc n)\<rparr>"
    have "add_1_server p = Some (Done (0, ?p))"
      using sum n nonneg by (simp add: add_1_server_def sys_fork_def)
    moreover have "pool_ok ?p"
      using assms n nonneg set_update_subset_insert [of "serverpool p" n "?s\<lparr>pid := forks p 0\<rparr>"]
      by (auto simp: pool_ok_def used_slots_update)
    ultimately show ?thesis using False nonneg by simp
  qed
qed

lemma del_first_idle_prop:
  assumes "del_first_idle ss = (ss', k)"
  shows "length ss' = length ss \<and> used_slots ss' = used_slots ss - (if k = None then 0 else 1)
    \<and> map srv_state ss' = map srv_state ss"
  using assms
  by (induction ss arbitrary: ss' k) (auto split: if_splits prod.splits)

lemma del_first_idle_None:
  "snd (del_first_idle ss) = None \<longleftrightarrow> (\<forall>s \<in> set ss. pid s = - 1 \<or> srv_state s \<noteq> SRV_IDLE)"
  by (induction ss) (auto split: prod.splits)

lemma states_map:
  "map srv_state ss' = map srv_state ss \<Longrightarrow>
   (\<forall>s \<in> set ss. P (srv_state s)) \<Longrightarrow> (\<forall>s \<in> set ss'. P (srv_state s))"
  by (metis (no_types, lifting) imageE imageI list.set_map)

lemma del_ok:
  assumes "pool_ok p"
  shows "pool_ok (snd (del_1_server p))"
proof (cases "idle_count p = 0")
  case True
  with assms show ?thesis by (simp add: del_1_server_def)
next
  case False
  obtain sp k where d: "del_first_idle (serverpool p) = (sp, k)" by fastforce
  from del_first_idle_prop [OF d] assms False states_map [of sp "serverpool p" "\<lambda>v. v = SRV_IDLE \<or> v = SRV_BUSY"]
  show ?thesis by (cases k) (auto simp: del_1_server_def d pool_ok_def)
qed

text \<open>The servers that are alive, by state.\<close>

definition count_state :: "int set \<Rightarrow> int \<Rightarrow> server_st list \<Rightarrow> int" where
  "count_state al v ss = int (length (filter (\<lambda>s. pid s \<noteq> - 1 \<and> pid s \<in> al \<and> srv_state s = v) ss))"

lemma count_state_simps [simp]:
  "count_state al v [] = 0"
  "count_state al v (s # ss) =
     (if pid s \<noteq> - 1 \<and> pid s \<in> al \<and> srv_state s = v then 1 else 0) + count_state al v ss"
  by (simp_all add: count_state_def)

lemma scan_slots_eq:
  "\<forall>s \<in> set ss. srv_state s = SRV_IDLE \<or> srv_state s = SRV_BUSY \<Longrightarrow>
   \<exists>ss'. scan_slots al ss = Some (ss', count_state al SRV_IDLE ss, count_state al SRV_BUSY ss)
     \<and> length ss' = length ss \<and> map srv_state ss' = map srv_state ss
     \<and> used_slots ss' = count_state al SRV_IDLE ss + count_state al SRV_BUSY ss
     \<and> (\<forall>s \<in> set ss'. pid s = - 1 \<or> pid s \<in> al)
     \<and> count_state al SRV_IDLE ss' = count_state al SRV_IDLE ss"
proof (induction ss)
  case (Cons s ss)
  then obtain ss' where "scan_slots al ss = Some (ss', count_state al SRV_IDLE ss, count_state al SRV_BUSY ss)"
    "length ss' = length ss" "map srv_state ss' = map srv_state ss"
    "used_slots ss' = count_state al SRV_IDLE ss + count_state al SRV_BUSY ss"
    "\<forall>s \<in> set ss'. pid s = - 1 \<or> pid s \<in> al" "count_state al SRV_IDLE ss' = count_state al SRV_IDLE ss"
    by auto
  with Cons.prems show ?case by auto
qed simp

lemma count_state_nonneg: "0 \<le> count_state al v ss"
  by (simp add: count_state_def)

lemma scan_ok:
  assumes "pool_ok p"
  shows "\<exists>p'. scan_pool p = Some p' \<and> pool_ok p'
    \<and> idle_count p' = count_state (alive p) SRV_IDLE (serverpool p)
    \<and> busy_count p' = count_state (alive p) SRV_BUSY (serverpool p)
    \<and> alive p' = alive p \<and> forks p' = forks p
    \<and> (\<forall>s \<in> set (serverpool p'). pid s = - 1 \<or> pid s \<in> alive p')
    \<and> count_state (alive p') SRV_IDLE (serverpool p') = idle_count p'"
proof -
  from assms have st: "\<forall>s \<in> set (serverpool p). srv_state s = SRV_IDLE \<or> srv_state s = SRV_BUSY"
    by (simp add: pool_ok_def)
  obtain sp where sp: "scan_slots (alive p) (serverpool p) =
      Some (sp, count_state (alive p) SRV_IDLE (serverpool p), count_state (alive p) SRV_BUSY (serverpool p))"
    "length sp = length (serverpool p)" "map srv_state sp = map srv_state (serverpool p)"
    "used_slots sp = count_state (alive p) SRV_IDLE (serverpool p) + count_state (alive p) SRV_BUSY (serverpool p)"
    "\<forall>s \<in> set sp. pid s = - 1 \<or> pid s \<in> alive p"
    "count_state (alive p) SRV_IDLE sp = count_state (alive p) SRV_IDLE (serverpool p)"
    using scan_slots_eq [OF st] by blast
  with assms states_map [OF sp(3) st] count_state_nonneg show ?thesis
    by (simp add: scan_pool_def pool_ok_def)
qed

lemma set_state_ok:
  assumes "pool_ok p" "n < MAXCLIENTS" "v = SRV_IDLE \<or> v = SRV_BUSY"
  shows "pool_ok (set_state n v p)"
  using assms set_update_subset_insert [of "serverpool p" n "(serverpool p ! n)\<lparr>srv_state := v\<rparr>"]
  by (auto simp: pool_ok_def set_state_def used_slots_update)

lemma pool_step_ok: "pool_step p p' \<Longrightarrow> pool_ok p \<Longrightarrow> pool_ok p'"
proof (induction rule: pool_step.induct)
  case (add p r p')
  then show ?case using add_ok [OF add(2)] by (auto split: if_splits)
next
  case (scan p p')
  then show ?case using scan_ok [OF scan(2)] by auto
next
  case (accept n p c e)
  then show ?case
    by (auto simp: server_job_accept_def intro: set_state_ok) (auto simp: pool_ok_def)
next
  case (death p k)
  then show ?case by (simp add: pool_ok_def)
qed (auto intro: del_ok set_state_ok)

lemma pool_init_ok: "pool_ok (pool_init fk)"
  by (simp add: pool_ok_def pool_init_def used_slots_def)

text \<open>In every state that the parent and its children can reach together, in any interleaving of
  additions, deletions and scans with the children's changes of state, failures and deaths, the two
  counters add up to the number of occupied slots; so adding a server is always defined (it never runs
  past the end of the pool), refuses with \<open>-1\<close> exactly when all 20 slots are occupied, and a scan never
  meets an unknown state.\<close>

lemma pool_safe:
  assumes "pool_step\<^sup>*\<^sup>* (pool_init fk) p"
  shows "idle_count p + busy_count p = used_slots (serverpool p) \<and> used_slots (serverpool p) \<le> int MAXCLIENTS
    \<and> add_1_server p \<noteq> None \<and> scan_pool p \<noteq> None
    \<and> (add_1_server p = Some (Done (- 1, p)) \<longleftrightarrow> used_slots (serverpool p) = int MAXCLIENTS)"
proof -
  from assms have ok: "pool_ok p"
    by (induction rule: rtranclp_induct) (auto intro: pool_init_ok pool_step_ok)
  have le: "used_slots (serverpool p) \<le> int MAXCLIENTS"
    using ok used_slots_le [of "serverpool p"] by (simp add: pool_ok_def)
  show ?thesis
    using add_ok [OF ok] scan_ok [OF ok] ok le by (auto simp: pool_ok_def split: if_splits)
qed

section \<open>One round of control\<close>

definition idle_slots :: "server_st list \<Rightarrow> int" where
  "idle_slots ss = int (length (filter (\<lambda>s. pid s \<noteq> - 1 \<and> srv_state s = SRV_IDLE) ss))"

lemma idle_slots_simps [simp]:
  "idle_slots [] = 0"
  "idle_slots (s # ss) = (if pid s \<noteq> - 1 \<and> srv_state s = SRV_IDLE then 1 else 0) + idle_slots ss"
  by (simp_all add: idle_slots_def)

lemma idle_slots_nonneg: "0 \<le> idle_slots ss"
  by (simp add: idle_slots_def)

lemma idle_slots_alive:
  "\<forall>s \<in> set ss. pid s = - 1 \<or> pid s \<in> al \<Longrightarrow> count_state al SRV_IDLE ss = idle_slots ss"
  by (induction ss) auto

lemma del_first_idle_some:
  "0 < idle_slots ss \<Longrightarrow> \<exists>ss' k. del_first_idle ss = (ss', Some k) \<and> idle_slots ss' = idle_slots ss - 1"
proof (induction ss)
  case (Cons s ss)
  then show ?case by (cases "pid s \<noteq> - 1 \<and> srv_state s = SRV_IDLE") (auto split: prod.splits)
qed simp

text \<open>The counter of idle servers tells the truth, as it does right after a scan.\<close>

definition idle_exact :: "pool \<Rightarrow> bool" where
  "idle_exact p \<longleftrightarrow> idle_count p = idle_slots (serverpool p)"

lemma del_exact:
  assumes "idle_exact p" "0 < idle_count p"
  shows "idle_exact (snd (del_1_server p)) \<and> idle_count (snd (del_1_server p)) = idle_count p - 1
    \<and> busy_count (snd (del_1_server p)) = busy_count p"
  using del_first_idle_some [of "serverpool p"] assms
  by (auto simp: del_1_server_def idle_exact_def)

lemma shrink_loop_idle:
  "idle_exact p \<Longrightarrow> 0 \<le> i \<Longrightarrow> i \<le> idle_count p - MAXSPARESERVER \<Longrightarrow>
   idle_count (shrink_loop i p) = idle_count p - (idle_count p - MAXSPARESERVER - i + 1) div 2
   \<and> busy_count (shrink_loop i p) = busy_count p"
proof (induction i p rule: shrink_loop.induct)
  case (1 i p)
  show ?case
  proof (cases "i < idle_count p - MAXSPARESERVER")
    case False
    then have "shrink_loop i p = p" by (simp add: shrink_loop.simps [of i p])
    with False 1(4) show ?thesis by simp
  next
    case True
    let ?q = "snd (del_1_server p)"
    have q: "idle_exact ?q" "idle_count ?q = idle_count p - 1" "busy_count ?q = busy_count p"
      using del_exact [OF 1(2)] True 1(3) by auto
    have sh: "shrink_loop i p = shrink_loop (i + 1) ?q"
      using True by (simp add: shrink_loop.simps [of i p])
    show ?thesis
    proof (cases "i + 1 \<le> idle_count ?q - MAXSPARESERVER")
      case True2: True
      have "(idle_count p - MAXSPARESERVER - i + 1) div 2 = (idle_count ?q - MAXSPARESERVER - (i + 1) + 1) div 2 + 1"
        using q(2) by presburger
      with 1(1) [OF True q(1) _ True2] q 1(3) sh show ?thesis by simp
    next
      case False
      then have eq: "idle_count p - MAXSPARESERVER - i = 1" using True q(2) by simp
      have "shrink_loop (i + 1) ?q = ?q"
        using False by (simp add: shrink_loop.simps [of "i + 1"])
      with eq q sh show ?thesis by simp
    qed
  qed
qed

lemma grow_loop_idle:
  "pool_ok p \<Longrightarrow> \<forall>n. 0 \<le> forks p n \<Longrightarrow> i \<le> MAXSPARESERVER - idle_count p \<Longrightarrow>
   \<exists>p'. grow_loop i p = Some (Done p') \<and> pool_ok p' \<and> busy_count p' = busy_count p
     \<and> idle_count p' = min (idle_count p + (MAXSPARESERVER - idle_count p - i + 1) div 2)
                           (int MAXCLIENTS - busy_count p)"
proof (induction "nat (MAXSPARESERVER - idle_count p - i)" arbitrary: i p rule: less_induct)
  case less
  have sum: "idle_count p + busy_count p = used_slots (serverpool p)"
    "used_slots (serverpool p) \<le> int MAXCLIENTS"
    using less.prems(1) used_slots_le [of "serverpool p"] by (auto simp: pool_ok_def)
  show ?case
  proof (cases "i < MAXSPARESERVER - idle_count p")
    case False
    then have "grow_loop i p = Some (Done p)" by (simp add: grow_loop.simps [of i p])
    with False less.prems sum show ?thesis by (simp add: min_def)
  next
    case True
    show ?thesis
    proof (cases "used_slots (serverpool p) \<ge> int MAXCLIENTS")
      case full: True
      with add_ok [OF less.prems(1)] have a: "add_1_server p = Some (Done (- 1, p))" by simp
      have "\<exists>p'. grow_loop (i + 1) p = Some (Done p') \<and> pool_ok p' \<and> busy_count p' = busy_count p
        \<and> idle_count p' = min (idle_count p + (MAXSPARESERVER - idle_count p - (i + 1) + 1) div 2)
                              (int MAXCLIENTS - busy_count p)"
        using less.hyps [of p "i + 1"] less.prems True by simp
      moreover have "min (idle_count p + (MAXSPARESERVER - idle_count p - (i + 1) + 1) div 2)
            (int MAXCLIENTS - busy_count p) = idle_count p"
        "min (idle_count p + (MAXSPARESERVER - idle_count p - i + 1) div 2)
            (int MAXCLIENTS - busy_count p) = idle_count p"
        using full sum True by (auto simp: min_def)
      ultimately show ?thesis using True a by (simp add: grow_loop.simps [of i p])
    next
      case room: False
      from add_ok [OF less.prems(1)] room less.prems(2) obtain q where
        q: "add_1_server p = Some (Done (0, q))" "pool_ok q" "idle_count q = idle_count p + 1"
        "busy_count q = busy_count p" "forks q = (\<lambda>n. forks p (Suc n))"
        by (meson not_less)
      show ?thesis
      proof (cases "i + 1 \<le> MAXSPARESERVER - idle_count q")
        case True2: True
        have d: "(MAXSPARESERVER - idle_count p - i + 1) div 2 = (MAXSPARESERVER - idle_count q - (i + 1) + 1) div 2 + 1"
          using q(3) by presburger
        have "nat (MAXSPARESERVER - idle_count q - (i + 1)) < nat (MAXSPARESERVER - idle_count p - i)"
          using True q(3) by simp
        from less.hyps [OF this q(2) _ True2] less.prems(2) q(4,5) obtain p' where
          "grow_loop (i + 1) q = Some (Done p')" "pool_ok p'" "busy_count p' = busy_count p"
          "idle_count p' = min (idle_count q + (MAXSPARESERVER - idle_count q - (i + 1) + 1) div 2)
             (int MAXCLIENTS - busy_count p)" by auto
        with d q True show ?thesis by (simp add: grow_loop.simps [of i p])
      next
        case False
        then have eq: "MAXSPARESERVER - idle_count p - i = 1" using True q(3) by simp
        have "grow_loop (i + 1) q = Some (Done q)"
          using False by (simp add: grow_loop.simps [of "i + 1"])
        moreover have "idle_count p + 1 \<le> int MAXCLIENTS - busy_count p" using room sum by simp
        moreover have "(MAXSPARESERVER - idle_count p - i + 1) div 2 = 1" unfolding eq by simp
        ultimately show ?thesis using q True by (simp add: grow_loop.simps [of i p] min_def)
      qed
    qed
  qed
qed


text \<open>Twenty idle servers: a round leaves fifteen.\<close>

definition full_idle_pool :: pool where
  "full_idle_pool = \<lparr>serverpool = replicate MAXCLIENTS \<lparr>pid = 1, srv_state = 0\<rparr>,
     idle_count = 20, busy_count = 0, alive = {1}, forks = (\<lambda>n. int n + 2)\<rparr>"

lemma full_idle_pool_facts:
  "used_slots (replicate n \<lparr>pid = 1, srv_state = 0\<rparr>) = int n"
  "count_state {1} SRV_IDLE (replicate n \<lparr>pid = 1, srv_state = 0\<rparr>) = int n"
  "count_state {1} SRV_BUSY (replicate n \<lparr>pid = 1, srv_state = 0\<rparr>) = 0"
  by (simp_all add: used_slots_def count_state_def)


lemma pool_safe_witness:
  "add_1_server (pool_init (\<lambda>n. int n + 2)) \<noteq> None"
  using pool_safe [of "\<lambda>n. int n + 2" "pool_init (\<lambda>n. int n + 2)"] by simp

end
