(* ===== verification/StreamServers.thy ===== *)
theory StreamServers
  imports ByteOrder
begin

text \<open>
  The stream servers of \<open>ipc/socket/stream\<close> that keep no state between connections (\<open>basic\<close>: one process, \<open>par\<close>: a child per
  connection, \<open>pool_static\<close>: four processes that accept from one socket) and their client. A server is the list of its
  calls as a function of what \<open>accept\<close>, \<open>fork\<close>, \<open>time\<close> and \<open>send\<close> return; it waits when no more connections come. The
  lemmas: every connection gets exactly its time stamp, the client prints the same number, no process keeps a connection
  open, and which failures end which process.
\<close>

section \<open>Setting up\<close>

abbreviation SERVERPORT :: nat where "SERVERPORT \<equiv> 2000"
abbreviation BUFSIZE :: nat where "BUFSIZE \<equiv> 1024"
abbreviation PROCNUM :: nat where "PROCNUM \<equiv> 4"

datatype srv_call =
    S_socket
  | S_opt
  | S_bind string
  | S_listen
  | S_accept int
  | S_print string
  | S_send int string
  | S_close int
  | S_fork int
  | S_wait

record srv_env =
  v_socket :: int
  v_opt :: int
  v_bind :: int
  v_listen :: int

text \<open>The calls up to \<open>listen\<close>, and whether the program has got so far.\<close>

definition srv_setup :: "endian \<Rightarrow> srv_env \<Rightarrow> srv_call list \<times> bool" where
  "srv_setup e E =
     (let bnd = S_bind (store16 e (htons e (word_of_nat SERVERPORT))) in
      if v_socket E < 0 then ([S_socket], False)
      else if v_opt E < 0 then ([S_socket, S_opt], False)
      else if v_bind E < 0 then ([S_socket, S_opt, bnd], False)
      else if v_listen E < 0 then ([S_socket, S_opt, bnd, S_listen], False)
      else ([S_socket, S_opt, bnd, S_listen], True))"

section \<open>Serving\<close>

text \<open>One turn of a server: what \<open>accept\<close> gave (descriptor, address, port; or the error), and the results of the other calls.\<close>

datatype acc = Acc int string string | Acc_fail int

record visit =
  v_acc :: acc
  v_fork :: int
  v_time :: int
  v_sent :: int

datatype status = Waiting | Exited int

definition stamp_line :: "int \<Rightarrow> string" where
  "stamp_line t = sdec t @ ''\<newline>''"

text \<open>\<open>server_job\<close>: its calls, and whether it returns; undefined if the text does not fit in the buffer.\<close>

definition server_job :: "int \<Rightarrow> visit \<Rightarrow> (srv_call list \<times> bool) option" where
  "server_job sd v =
     (let buf = stamp_line (v_time v) in
      if BUFSIZE \<le> length buf then None else Some ([S_send sd buf], 0 \<le> v_sent v))"

definition client_line :: "endian \<Rightarrow> string \<Rightarrow> string \<Rightarrow> string" where
  "client_line e ip port = ''Client:'' @ ip @ '':'' @ sdec (uint (ntohs e (load16 e port))) @ ''\<newline>''"

abbreviation accept_again :: "int \<Rightarrow> bool" where
  "accept_again err \<equiv> err = EAGAIN \<or> err = EINTR"

text \<open>The loop of \<open>basic\<close> and of the processes of \<open>pool_static\<close>, which print their process number in front.\<close>

fun serve_loop :: "string \<Rightarrow> endian \<Rightarrow> visit list \<Rightarrow> (srv_call list \<times> status) option" where
  "serve_loop pre e [] = Some ([], Waiting)"
| "serve_loop pre e (v # vs) = (case v_acc v of
       Acc_fail err \<Rightarrow> if accept_again err then serve_loop pre e vs else Some ([], Exited 1)
     | Acc newsd ip port \<Rightarrow> do {
         (job, ok) \<leftarrow> server_job newsd v;
         let cs = S_accept newsd # S_print (pre @ client_line e ip port) # job;
         if ok then do {
           (rest, st) \<leftarrow> serve_loop pre e vs;
           Some (cs @ S_close newsd # rest, st) }
         else Some (cs, Exited 1) })"

definition basic_main :: "endian \<Rightarrow> srv_env \<Rightarrow> visit list \<Rightarrow> (srv_call list \<times> status) option" where
  "basic_main e E vs = (case srv_setup e E of
       (cs, False) \<Rightarrow> Some (cs, Exited 1)
     | (cs, True) \<Rightarrow> map_option (\<lambda>(ds, st). (cs @ ds, st)) (serve_loop [] e vs))"

text \<open>\<open>par\<close>: the calls of the child that serves one connection.\<close>

definition par_child :: "endian \<Rightarrow> int \<Rightarrow> int \<Rightarrow> string \<Rightarrow> string \<Rightarrow> visit \<Rightarrow> (srv_call list \<times> status) option" where
  "par_child e sd newsd ip port v = do {
     (job, ok) \<leftarrow> server_job newsd v;
     let cs = S_close sd # S_print (client_line e ip port) # job;
     Some (if ok then (cs @ [S_close newsd], Exited 0) else (cs, Exited 1)) }"

text \<open>The calls of the parent, the children with what they do, and what becomes of the parent.\<close>

fun par_loop :: "endian \<Rightarrow> int \<Rightarrow> visit list \<Rightarrow> (srv_call list \<times> (srv_call list \<times> status) list \<times> status) option" where
  "par_loop e sd [] = Some ([], [], Waiting)"
| "par_loop e sd (v # vs) = (case v_acc v of
       Acc_fail err \<Rightarrow> if accept_again err then par_loop e sd vs else Some ([], [], Exited 1)
     | Acc newsd ip port \<Rightarrow>
         if v_fork v < 0 then Some ([S_accept newsd, S_fork (v_fork v)], [], Exited 1)
         else do {
           child \<leftarrow> par_child e sd newsd ip port v;
           (rest, children, st) \<leftarrow> par_loop e sd vs;
           Some (S_accept newsd # S_fork (v_fork v) # S_close newsd # rest, child # children, st) })"

definition par_main :: "endian \<Rightarrow> srv_env \<Rightarrow> visit list \<Rightarrow> (srv_call list \<times> (srv_call list \<times> status) list \<times> status) option" where
  "par_main e E vs = (case srv_setup e E of
       (cs, False) \<Rightarrow> Some (cs, [], Exited 1)
     | (cs, True) \<Rightarrow> map_option (\<lambda>(ds, ch, st). (cs @ ds, ch, st)) (par_loop e (v_socket E) vs))"

definition pid_prefix :: "int \<Rightarrow> string" where
  "pid_prefix pid = ''['' @ sdec pid @ '']''"

text \<open>\<open>pool_static\<close>: the forks, each with the number of the process and the turns that it gets.\<close>

fun static_forks :: "endian \<Rightarrow> (int \<times> visit list) list \<Rightarrow> (srv_call list \<times> (srv_call list \<times> status) list \<times> bool) option" where
  "static_forks e [] = Some ([], [], True)"
| "static_forks e ((pid, vs) # ps) =
     (if pid < 0 then Some ([S_fork pid], [], False)
      else do {
        child \<leftarrow> serve_loop (pid_prefix pid) e vs;
        (cs, children, ok) \<leftarrow> static_forks e ps;
        Some (S_fork pid # cs, child # children, ok) })"

text \<open>The parent waits four times; it gets through when all its children have ended.\<close>

definition static_main :: "endian \<Rightarrow> srv_env \<Rightarrow> (int \<times> visit list) list \<Rightarrow> (srv_call list \<times> (srv_call list \<times> status) list \<times> status) option" where
  "static_main e E ps = (case srv_setup e E of
       (cs, False) \<Rightarrow> Some (cs, [], Exited 1)
     | (cs, True) \<Rightarrow> do {
         (ds, children, ok) \<leftarrow> static_forks e (take PROCNUM ps);
         Some (if \<not> ok then (cs @ ds, children, Exited 1)
           else if \<exists>c \<in> set children. snd c = Waiting then (cs @ ds, children, Waiting)
           else (cs @ ds @ replicate PROCNUM S_wait @ [S_close (v_socket E)], children, Exited 0)) })"

section \<open>The client\<close>

record cl_env =
  cl_socket :: int
  cl_connect :: int
  cl_fdopen :: bool

text \<open>The exit status and what it prints, given all the bytes of the connection; a number outside \<open>long long\<close> is undefined.\<close>

definition cilent_main :: "nat \<Rightarrow> cl_env \<Rightarrow> string \<Rightarrow> (int \<times> string) option" where
  "cilent_main argc C bytes =
     (if argc < 2 \<or> cl_socket C < 0 \<or> cl_connect C < 0 \<or> \<not> cl_fdopen C then Some (1, [])
      else case scan_lld bytes of
          None \<Rightarrow> Some (1, [])
        | Some (stamp, _) \<Rightarrow>
            if - (2 ^ 63) \<le> stamp \<and> stamp < 2 ^ 63 then Some (1, ''stamp = '' @ sdec stamp @ ''\<newline>'') else None)"

text \<open>The servers \<open>par\<close>, \<open>pool_static\<close> and \<open>pool_dynamic\<close> each come with a copy of this client.\<close>

definition par_cilent :: "nat \<Rightarrow> cl_env \<Rightarrow> string \<Rightarrow> (int \<times> string) option" where
  "par_cilent = cilent_main"

definition static_cilent :: "nat \<Rightarrow> cl_env \<Rightarrow> string \<Rightarrow> (int \<times> string) option" where
  "static_cilent = cilent_main"

definition dynamic_client :: "nat \<Rightarrow> cl_env \<Rightarrow> string \<Rightarrow> (int \<times> string) option" where
  "dynamic_client = cilent_main"

text \<open>
  The other client, \<open>webdl\<close>, asks for a file and copies what it reads to its output; the loop tests \<open>len\<close>, the size of the
  address, and not the number of bytes that \<open>fread\<close> returned. A state is what is left to be read and what has been written.
\<close>

abbreviation ADDR_SIZE :: int where "ADDR_SIZE \<equiv> 16"

definition webdl_round :: "string \<times> string \<Rightarrow> (string \<times> string) option" where
  "webdl_round s = Some (drop BUFSIZE (fst s), snd s @ take BUFSIZE (fst s))"

definition webdl_main :: "nat \<Rightarrow> cl_env \<Rightarrow> string \<Rightarrow> (int \<times> string) option" where
  "webdl_main argc C bytes =
     (if argc < 2 \<or> cl_socket C < 0 \<or> cl_connect C < 0 \<or> \<not> cl_fdopen C then Some (1, [])
      else map_option (\<lambda>s. (1, snd s)) (c_while (\<lambda>_. \<not> ADDR_SIZE \<le> 0) webdl_round (bytes, [])))"

text \<open>It writes the whole file after as many rounds as the file has blocks, and then never stops.\<close>

fun webdl_rounds :: "nat \<Rightarrow> string \<times> string \<Rightarrow> (string \<times> string) option" where
  "webdl_rounds 0 s = Some s"
| "webdl_rounds (Suc n) s = Option.bind (webdl_round s) (webdl_rounds n)"

lemma webdl_rounds_eq: "webdl_rounds n (bytes, out) = Some (drop (n * BUFSIZE) bytes, out @ take (n * BUFSIZE) bytes)"
proof (induction n arbitrary: bytes out)
  case (Suc n)
  have "take (BUFSIZE + n * BUFSIZE) bytes = take BUFSIZE bytes @ take (n * BUFSIZE) (drop BUFSIZE bytes)" by (rule take_add)
  with Suc show ?case by (simp add: webdl_round_def add.commute)
qed simp

lemma webdl_endless:
  assumes "2 \<le> argc" "0 \<le> cl_socket C" "0 \<le> cl_connect C" "cl_fdopen C"
  shows "webdl_main argc C bytes = None
    \<and> (length bytes \<le> n * BUFSIZE \<longrightarrow> webdl_rounds n (bytes, []) = Some ([], bytes))"
proof -
  have "c_while (\<lambda>_. \<not> ADDR_SIZE \<le> 0) webdl_round (bytes, []) = None"
  proof (rule ccontr)
    assume "c_while (\<lambda>_. \<not> ADDR_SIZE \<le> 0) webdl_round (bytes, []) \<noteq> None"
    then obtain t where "c_while (\<lambda>_. \<not> ADDR_SIZE \<le> 0) webdl_round (bytes, []) = Some t" by blast
    from c_while_inv [OF this, of "\<lambda>_. True"] show False by simp
  qed
  with assms show ?thesis by (simp add: webdl_main_def webdl_rounds_eq)
qed

section \<open>What connections get\<close>

definition sent_to :: "srv_call list \<Rightarrow> (int \<times> string) list" where
  "sent_to cs = concat (map (\<lambda>c. case c of S_send sd s \<Rightarrow> [(sd, s)] | _ \<Rightarrow> []) cs)"

text \<open>The connections a process has open after its calls.\<close>

fun open_after :: "int set \<Rightarrow> srv_call list \<Rightarrow> int set" where
  "open_after fds [] = fds"
| "open_after fds (S_accept sd # cs) = open_after (insert sd fds) cs"
| "open_after fds (S_close sd # cs) = open_after (fds - {sd}) cs"
| "open_after fds (_ # cs) = open_after fds cs"

definition time_ok :: "int \<Rightarrow> bool" where
  "time_ok t \<longleftrightarrow> - (2 ^ 63) \<le> t \<and> t < 2 ^ 63"

text \<open>A turn in which nothing fails but an \<open>accept\<close> that may be tried again; the descriptor of a connection is not that of the
  listening socket.\<close>

definition smooth :: "int \<Rightarrow> visit \<Rightarrow> bool" where
  "smooth sd v \<longleftrightarrow> time_ok (v_time v) \<and> 0 \<le> v_sent v \<and> 0 \<le> v_fork v
     \<and> (case v_acc v of Acc newsd ip port \<Rightarrow> newsd \<noteq> sd | Acc_fail err \<Rightarrow> accept_again err)"

text \<open>The connections in order, with the stamp each is to get.\<close>

fun stamps :: "visit list \<Rightarrow> (int \<times> string) list" where
  "stamps [] = []"
| "stamps (v # vs) = (case v_acc v of Acc sd _ _ \<Rightarrow> (sd, stamp_line (v_time v)) # stamps vs | Acc_fail _ \<Rightarrow> stamps vs)"

lemma sent_to_simps [simp]:
  "sent_to [] = []" "sent_to (S_send sd s # cs) = (sd, s) # sent_to cs" "sent_to (cs @ ds) = sent_to cs @ sent_to ds"
  "sent_to (S_socket # cs) = sent_to cs" "sent_to (S_opt # cs) = sent_to cs" "sent_to (S_bind p # cs) = sent_to cs"
  "sent_to (S_listen # cs) = sent_to cs" "sent_to (S_accept sd # cs) = sent_to cs" "sent_to (S_print s # cs) = sent_to cs"
  "sent_to (S_close sd # cs) = sent_to cs" "sent_to (S_fork sd # cs) = sent_to cs" "sent_to (S_wait # cs) = sent_to cs"
  by (simp_all add: sent_to_def)

lemma stamp_line_length: "time_ok t \<Longrightarrow> length (stamp_line t) \<le> 21"
  using sdec_length [of t] by (simp add: time_ok_def stamp_line_def abs_less_iff)

lemma server_job_ok: "smooth sd v \<Longrightarrow> server_job newsd v = Some ([S_send newsd (stamp_line (v_time v))], True)"
  using stamp_line_length [of "v_time v"] by (simp add: smooth_def server_job_def Let_def)

lemma serve_loop_ok:
  assumes "\<forall>v \<in> set vs. smooth sd v"
  shows "\<exists>cs. serve_loop pre e vs = Some (cs, Waiting) \<and> sent_to cs = stamps vs \<and> open_after {sd} cs = {sd}"
  using assms
proof (induction vs)
  case (Cons v vs)
  then obtain cs where cs: "serve_loop pre e vs = Some (cs, Waiting)" "sent_to cs = stamps vs" "open_after {sd} cs = {sd}" by auto
  have v: "smooth sd v" using Cons.prems by simp
  show ?case
  proof (cases "v_acc v")
    case (Acc newsd ip port)
    then have "insert newsd {sd} - {newsd} = {sd}" using v by (auto simp: smooth_def)
    with cs Acc server_job_ok [OF v, of newsd] show ?thesis by (simp add: Let_def)
  next
    case (Acc_fail err)
    with v cs show ?thesis by (simp add: smooth_def)
  qed
qed simp

lemma par_loop_ok:
  assumes "\<forall>v \<in> set vs. smooth sd v"
  shows "\<exists>cs children. par_loop e sd vs = Some (cs, children, Waiting) \<and> sent_to cs = [] \<and> open_after {sd} cs = {sd}
    \<and> map (\<lambda>c. sent_to (fst c)) children = map (\<lambda>p. [p]) (stamps vs)
    \<and> (\<forall>c \<in> set children. snd c = Exited 0 \<and> (\<exists>newsd txt. sent_to (fst c) = [(newsd, txt)] \<and> open_after {sd, newsd} (fst c) = {}))"
  using assms
proof (induction vs)
  case (Cons v vs)
  then obtain cs children where cs: "par_loop e sd vs = Some (cs, children, Waiting)" "sent_to cs = []" "open_after {sd} cs = {sd}"
    "map (\<lambda>c. sent_to (fst c)) children = map (\<lambda>p. [p]) (stamps vs)"
    "\<forall>c \<in> set children. snd c = Exited 0 \<and> (\<exists>newsd txt. sent_to (fst c) = [(newsd, txt)] \<and> open_after {sd, newsd} (fst c) = {})" by auto
  have v: "smooth sd v" using Cons.prems by simp
  show ?case
  proof (cases "v_acc v")
    case (Acc newsd ip port)
    then have "insert newsd {sd} - {newsd} = {sd}" using v by (auto simp: smooth_def)
    with cs Acc server_job_ok [OF v, of newsd] v show ?thesis
      by (auto simp: Let_def par_child_def smooth_def intro!: exI [of _ newsd])
  next
    case (Acc_fail err)
    with v cs show ?thesis by (simp add: smooth_def)
  qed
qed simp

lemma static_forks_ok:
  assumes "\<forall>(pid, vs) \<in> set ps. 0 \<le> pid \<and> (\<forall>v \<in> set vs. smooth sd v)"
  shows "\<exists>cs children. static_forks e ps = Some (cs, children, True) \<and> sent_to cs = [] \<and> open_after {sd} cs = {sd}
    \<and> map (\<lambda>c. sent_to (fst c)) children = map (\<lambda>(pid, vs). stamps vs) ps
    \<and> (\<forall>c \<in> set children. snd c = Waiting \<and> open_after {sd} (fst c) = {sd})"
  using assms
proof (induction ps)
  case (Cons p ps)
  obtain pid vs where p: "p = (pid, vs)" by (cases p)
  obtain cs where "serve_loop (pid_prefix pid) e vs = Some (cs, Waiting) \<and> sent_to cs = stamps vs \<and> open_after {sd} cs = {sd}"
    using serve_loop_ok [of vs sd "pid_prefix pid" e] Cons.prems p by auto
  with Cons p show ?case by auto
qed simp

lemma cilent_reads:
  assumes "time_ok t" "2 \<le> argc" "0 \<le> cl_socket C" "0 \<le> cl_connect C" "cl_fdopen C"
  shows "cilent_main argc C (stamp_line t) = Some (1, ''stamp = '' @ sdec t @ ''\<newline>'')"
proof -
  have "\<not> is_digit CHR ''\<newline>''" by (simp add: is_digit_def)
  then have "scan_lld (stamp_line t) = Some (t, ''\<newline>'')" unfolding stamp_line_def by (intro scan_sdec) simp
  with assms show ?thesis by (simp add: cilent_main_def time_ok_def)
qed


definition srv_good :: "srv_env \<Rightarrow> bool" where
  "srv_good E \<longleftrightarrow> 0 \<le> v_socket E \<and> 0 \<le> v_opt E \<and> 0 \<le> v_bind E \<and> 0 \<le> v_listen E"

lemma srv_setup_good:
  assumes "srv_good E"
  shows "\<exists>cs. srv_setup e E = (cs, True) \<and> sent_to cs = [] \<and> (\<forall>fds ds. open_after fds (cs @ ds) = open_after fds ds)"
  using assms by (simp add: srv_good_def srv_setup_def Let_def)

text \<open>C12: While nothing fails but an interrupted \<open>accept\<close>, the three servers do the same for their connections: each one
  gets exactly its time stamp, in the order in which they were accepted; the servers go on waiting; no process
  keeps a connection open, and the children of \<open>par\<close> end without any. Each client prints the number that was sent, and
  exits with 1.\<close>

lemma stream_servers_agree:
  assumes "srv_good E" "\<forall>v \<in> set vs. smooth (v_socket E) v"
    and "length ps = PROCNUM" "\<forall>(pid, vs) \<in> set ps. 0 \<le> pid \<and> (\<forall>v \<in> set vs. smooth (v_socket E) v)"
    and "2 \<le> argc" "0 \<le> cl_socket C" "0 \<le> cl_connect C" "cl_fdopen C" "time_ok t"
  shows "(\<exists>cs. basic_main e E vs = Some (cs, Waiting) \<and> sent_to cs = stamps vs \<and> open_after {v_socket E} cs = {v_socket E})
    \<and> (\<exists>cs children. par_main e E vs = Some (cs, children, Waiting) \<and> sent_to cs = [] \<and> open_after {v_socket E} cs = {v_socket E}
        \<and> map (\<lambda>c. sent_to (fst c)) children = map (\<lambda>p. [p]) (stamps vs)
        \<and> (\<forall>c \<in> set children. snd c = Exited 0 \<and> (\<exists>newsd txt. sent_to (fst c) = [(newsd, txt)] \<and> open_after {v_socket E, newsd} (fst c) = {})))
    \<and> (\<exists>cs children. static_main e E ps = Some (cs, children, Waiting) \<and> sent_to cs = []
        \<and> map (\<lambda>c. sent_to (fst c)) children = map (\<lambda>(pid, vs). stamps vs) ps
        \<and> (\<forall>c \<in> set children. snd c = Waiting \<and> open_after {v_socket E} (fst c) = {v_socket E}))
    \<and> (\<forall>cl \<in> {cilent_main, par_cilent, static_cilent, dynamic_client}.
        cl argc C (stamp_line t) = Some (1, ''stamp = '' @ sdec t @ ''\<newline>''))"
proof (intro conjI)
  obtain su where su: "srv_setup e E = (su, True)" "sent_to su = []" "\<And>fds ds. open_after fds (su @ ds) = open_after fds ds"
    using srv_setup_good [OF assms(1), of e] by blast
  show "\<exists>cs. basic_main e E vs = Some (cs, Waiting) \<and> sent_to cs = stamps vs \<and> open_after {v_socket E} cs = {v_socket E}"
    using serve_loop_ok [OF assms(2), of "[]" e] su by (auto simp: basic_main_def)
  show "\<exists>cs children. par_main e E vs = Some (cs, children, Waiting) \<and> sent_to cs = [] \<and> open_after {v_socket E} cs = {v_socket E}
        \<and> map (\<lambda>c. sent_to (fst c)) children = map (\<lambda>p. [p]) (stamps vs)
        \<and> (\<forall>c \<in> set children. snd c = Exited 0 \<and> (\<exists>newsd txt. sent_to (fst c) = [(newsd, txt)] \<and> open_after {v_socket E, newsd} (fst c) = {}))"
    using par_loop_ok [OF assms(2), of e] su by (fastforce simp: par_main_def)
  obtain cs children where st: "static_forks e ps = Some (cs, children, True)" "sent_to cs = []"
    "map (\<lambda>c. sent_to (fst c)) children = map (\<lambda>(pid, vs). stamps vs) ps"
    "\<forall>c \<in> set children. snd c = Waiting \<and> open_after {v_socket E} (fst c) = {v_socket E}"
    using static_forks_ok [OF assms(4), of e] by blast
  have "children \<noteq> []" using st(3) assms(3) by (metis length_map list.size(3) zero_neq_numeral)
  then have "\<exists>c \<in> set children. snd c = Waiting" using st(4) by (cases children) auto
  then show "\<exists>cs children. static_main e E ps = Some (cs, children, Waiting) \<and> sent_to cs = []
        \<and> map (\<lambda>c. sent_to (fst c)) children = map (\<lambda>(pid, vs). stamps vs) ps
        \<and> (\<forall>c \<in> set children. snd c = Waiting \<and> open_after {v_socket E} (fst c) = {v_socket E})"
    using st su assms(3) by (simp add: static_main_def)
  show "\<forall>cl \<in> {cilent_main, par_cilent, static_cilent, dynamic_client}.
        cl argc C (stamp_line t) = Some (1, ''stamp = '' @ sdec t @ ''\<newline>'')"
    using cilent_reads [OF assms(9,5-8)] by (simp add: par_cilent_def static_cilent_def dynamic_client_def)
qed

section \<open>What a failure ends\<close>

text \<open>Only the results of \<open>send\<close> are free.\<close>

definition sends_apart :: "int \<Rightarrow> visit \<Rightarrow> bool" where
  "sends_apart sd v \<longleftrightarrow> smooth sd (v\<lparr>v_sent := 0\<rparr>)"

lemma serve_loop_send_fails:
  assumes "\<forall>v \<in> set us. smooth sd v" "sends_apart sd v" "v_sent v < 0" "v_acc v = Acc newsd ip port"
  shows "\<exists>cs. serve_loop pre e (us @ v # ws) = Some (cs, Exited 1) \<and> sent_to cs = stamps (us @ [v])"
  using assms(1)
proof (induction us)
  case Nil
  have "length (stamp_line (v_time v)) \<le> 21" using assms(2) stamp_line_length by (simp add: sends_apart_def smooth_def)
  with assms(3,4) show ?case by (simp add: server_job_def Let_def)
next
  case (Cons u us)
  then obtain cs where cs: "serve_loop pre e (us @ v # ws) = Some (cs, Exited 1)" "sent_to cs = stamps (us @ [v])" by auto
  have u: "smooth sd u" using Cons.prems by simp
  show ?case
  proof (cases "v_acc u")
    case (Acc newsd ip port)
    with cs server_job_ok [OF u, of newsd] show ?thesis by (simp add: Let_def)
  next
    case (Acc_fail err)
    with u cs show ?thesis by (simp add: smooth_def)
  qed
qed

lemma par_loop_goes_on:
  assumes "\<forall>v \<in> set vs. sends_apart sd v"
  shows "\<exists>cs children. par_loop e sd vs = Some (cs, children, Waiting)
    \<and> map (\<lambda>c. sent_to (fst c)) children = map (\<lambda>p. [p]) (stamps vs)"
  using assms
proof (induction vs)
  case (Cons v vs)
  then obtain cs children where cs: "par_loop e sd vs = Some (cs, children, Waiting)"
    "map (\<lambda>c. sent_to (fst c)) children = map (\<lambda>p. [p]) (stamps vs)" by auto
  have v: "smooth sd (v\<lparr>v_sent := 0\<rparr>)" using Cons.prems by (simp add: sends_apart_def)
  show ?case
  proof (cases "v_acc v")
    case (Acc newsd ip port)
    have "length (stamp_line (v_time v)) \<le> 21" using v stamp_line_length by (simp add: smooth_def)
    with cs Acc v show ?thesis by (simp add: Let_def par_child_def server_job_def smooth_def)
  next
    case (Acc_fail err)
    with v cs show ?thesis by (simp add: smooth_def)
  qed
qed simp

text \<open>When sending fails (the client has gone), \<open>basic\<close> exits with 1 and serves nobody after that, and of
  \<open>pool_static\<close> the process that served the client ends; \<open>par\<close> loses only the child: whatever sends fail, its parent goes on
  and every connection gets a child of its own that tries to send its stamp. An error of \<open>accept\<close> other than an interruption
  ends each of them.\<close>

lemma stream_failures:
  assumes "srv_good E" "\<forall>v \<in> set us. smooth (v_socket E) v" "sends_apart (v_socket E) v" "v_sent v < 0" "v_acc v = Acc newsd ip port"
    and "\<forall>v \<in> set ws. sends_apart (v_socket E) v" "v_acc w = Acc_fail err" "\<not> accept_again err"
  shows "(\<exists>cs. basic_main e E (us @ v # ws) = Some (cs, Exited 1) \<and> sent_to cs = stamps (us @ [v]))
    \<and> (\<exists>cs. serve_loop (pid_prefix pid) e (us @ v # ws) = Some (cs, Exited 1) \<and> sent_to cs = stamps (us @ [v]))
    \<and> (\<exists>cs children. par_main e E (us @ v # ws) = Some (cs, children, Waiting)
        \<and> map (\<lambda>c. sent_to (fst c)) children = map (\<lambda>p. [p]) (stamps (us @ v # ws)))
    \<and> basic_main e E (w # ws) = Some (fst (srv_setup e E), Exited 1)
    \<and> par_main e E (w # ws) = Some (fst (srv_setup e E), [], Exited 1)"
proof (intro conjI)
  obtain su where su: "srv_setup e E = (su, True)" "sent_to su = []"
    using srv_setup_good [OF assms(1), of e] by blast
  note f = serve_loop_send_fails [OF assms(2-5)]
  show "\<exists>cs. basic_main e E (us @ v # ws) = Some (cs, Exited 1) \<and> sent_to cs = stamps (us @ [v])"
    using f [of "[]" e ws] su by (auto simp: basic_main_def)
  show "\<exists>cs. serve_loop (pid_prefix pid) e (us @ v # ws) = Some (cs, Exited 1) \<and> sent_to cs = stamps (us @ [v])"
    by (rule f)
  have "\<forall>v \<in> set (us @ v # ws). sends_apart (v_socket E) v"
    using assms(2,3,6) by (auto simp: sends_apart_def smooth_def)
  from par_loop_goes_on [OF this, of e] su
  show "\<exists>cs children. par_main e E (us @ v # ws) = Some (cs, children, Waiting)
        \<and> map (\<lambda>c. sent_to (fst c)) children = map (\<lambda>p. [p]) (stamps (us @ v # ws))"
    by (auto simp: par_main_def)
  show "basic_main e E (w # ws) = Some (fst (srv_setup e E), Exited 1)" "par_main e E (w # ws) = Some (fst (srv_setup e E), [], Exited 1)"
    using su assms(7,8) by (simp_all add: basic_main_def par_main_def)
qed

text \<open>A visitor of each kind.\<close>

definition srv_fine :: srv_env where
  "srv_fine = \<lparr>v_socket = 3, v_opt = 0, v_bind = 0, v_listen = 0\<rparr>"

abbreviation served :: visit where "served \<equiv> \<lparr>v_acc = Acc 4 ''10.0.0.2'' [CHR 0x80, CHR 0x01], v_fork = 17, v_time = 1700000000, v_sent = 11\<rparr>"
abbreviation gone :: visit where "gone \<equiv> served\<lparr>v_sent := - 1\<rparr>"
abbreviation again :: visit where "again \<equiv> served\<lparr>v_acc := Acc_fail EINTR\<rparr>"
abbreviation broken :: visit where "broken \<equiv> served\<lparr>v_acc := Acc_fail EINVAL\<rparr>"

lemma visitors: "srv_good srv_fine" "smooth 3 served" "smooth 3 again" "sends_apart 3 gone" "sends_apart 3 served" "v_socket srv_fine = 3"
  by (simp_all add: srv_good_def srv_fine_def smooth_def sends_apart_def time_ok_def)

lemma stream_servers_agree_witness:
  "\<exists>cs. basic_main Little srv_fine [again, served] = Some (cs, Waiting) \<and> sent_to cs = [(4, stamp_line 1700000000)]"
proof -
  let ?p = "(20, [served]) :: int \<times> visit list"
  have "\<forall>v \<in> set [again, served]. smooth (v_socket srv_fine) v" using visitors by simp
  moreover have "\<forall>(pid, vs) \<in> set [?p, ?p, ?p, ?p]. 0 \<le> pid \<and> (\<forall>v \<in> set vs. smooth (v_socket srv_fine) v)"
    using visitors by simp
  ultimately have "\<exists>cs. basic_main Little srv_fine [again, served] = Some (cs, Waiting) \<and> sent_to cs = stamps [again, served]
      \<and> open_after {v_socket srv_fine} cs = {v_socket srv_fine}"
    using stream_servers_agree [of srv_fine "[again, served]" "[?p, ?p, ?p, ?p]" 2
      "\<lparr>cl_socket = 3, cl_connect = 0, cl_fdopen = True\<rparr>" 1700000000 Little, THEN conjunct1] visitors(1)
    by (simp add: time_ok_def)
  then show ?thesis by auto
qed

lemma stream_failures_witness:
  "\<exists>cs. basic_main Little srv_fine [served, gone, served] = Some (cs, Exited 1)
    \<and> sent_to cs = [(4, stamp_line 1700000000), (4, stamp_line 1700000000)]"
  using stream_failures [of srv_fine "[served]" gone 4 "''10.0.0.2''" "[CHR 0x80, CHR 0x01]" "[served]" broken EINVAL Little 7] visitors
  by simp

end
