(* ===== verification/PoolProgram.thy ===== *)
theory PoolProgram
  imports ServerPool StreamServers
begin

text \<open>
  The whole program \<open>ipc/socket/stream/pool_dynamic/server.c\<close> as a system of processes: the parent with the steps of
  \<open>main\<close>, one operation of the pool at a time, and its children with the steps of \<open>server_job\<close>, in any interleaving. The
  operations on the pool are those of ServerPool. The lemmas: the parent never leaves the pool and is never stuck except
  waiting for a signal, a round of control ends after a bounded number of its steps, every live child owns its slot and
  answers the connections it accepts; and a child can be killed between accepting a connection and declaring itself busy.
\<close>

section \<open>The parent\<close>

abbreviation LINEBUFSIZE :: nat where "LINEBUFSIZE \<equiv> 80"

text \<open>The calls before the first child: \<open>mmap\<close> and then those of the other servers (\<open>listen\<close> included).\<close>

definition pool_setup :: "bool \<Rightarrow> endian \<Rightarrow> srv_env \<Rightarrow> (nat \<Rightarrow> int) \<Rightarrow> (int + pool)" where
  "pool_setup mapped e E fk =
     (if \<not> mapped then Inl 1 else if snd (srv_setup e E) then Inr (pool_init fk) else Inl 1)"

datatype main_pc = M_start int | M_suspend | M_scan | M_shrink int | M_grow int | M_print | M_exit int

datatype kid_pc = K_idle | K_note_idle | K_accept | K_busy int | K_note_busy int | K_send int | K_close int | K_exit int

text \<open>A child: its process number, its slot and where it is.\<close>

type_synonym kid = "int \<times> nat \<times> kid_pc"

text \<open>\<open>notified\<close>: the signal is pending (it is blocked outside \<open>sigsuspend\<close>). \<open>lines\<close>: what the parent has printed.
  \<open>accepted\<close> and \<open>answered\<close>: the connections accepted and the ones a stamp was sent to, with the child.\<close>

record prog =
  main_at :: main_pc
  slots :: pool
  kids :: "kid list"
  notified :: bool
  lines :: "string list"
  accepted :: "(int \<times> int) list"
  answered :: "(int \<times> int \<times> string) list"

text \<open>\<open>add_1_server\<close> in the parent: the child it forks starts with the slot that was found.\<close>

definition add_kid :: "prog \<Rightarrow> main_pc \<Rightarrow> prog option" where
  "add_kid s pc = (case add_1_server (slots s) of
       None \<Rightarrow> None
     | Some (Exit k q) \<Rightarrow> Some (s\<lparr>main_at := M_exit k, slots := snd q\<rparr>)
     | Some (Done (r, p)) \<Rightarrow> Some (s\<lparr>main_at := pc, slots := p,
         kids := (if r = 0 then kids s @ [(forks (slots s) 0, nat (free_server (serverpool (slots s))), K_idle)] else kids s)\<rparr>))"

definition main_step :: "prog \<Rightarrow> prog option" where
  "main_step s = (let p = slots s in case main_at s of
       M_start i \<Rightarrow> if i < MINSPARESERVER then add_kid s (M_start (i + 1)) else Some (s\<lparr>main_at := M_suspend\<rparr>)
     | M_suspend \<Rightarrow> if notified s then Some (s\<lparr>main_at := M_scan, notified := False\<rparr>) else None
     | M_scan \<Rightarrow> (case scan_pool p of
           None \<Rightarrow> None
         | Some p \<Rightarrow> Some (s\<lparr>slots := p, main_at :=
             (if idle_count p > MAXSPARESERVER then M_shrink 0 else if idle_count p < MINSPARESERVER then M_grow 0 else M_print)\<rparr>))
     | M_shrink i \<Rightarrow>
         if i < idle_count p - MAXSPARESERVER then Some (s\<lparr>main_at := M_shrink (i + 1), slots := snd (del_1_server p)\<rparr>)
         else Some (s\<lparr>main_at := M_print\<rparr>)
     | M_grow i \<Rightarrow>
         if i < MAXSPARESERVER - idle_count p then add_kid s (M_grow (i + 1))
         else Some (s\<lparr>main_at := M_print\<rparr>)
     | M_print \<Rightarrow> Some (s\<lparr>main_at := M_suspend, lines := lines s @ [map show_slot (serverpool p) @ ''\<newline>'']\<rparr>)
     | M_exit k \<Rightarrow> None)"

section \<open>The children\<close>

text \<open>
  One step of \<open>server_job\<close> in the child \<open>(k, n, pc)\<close>; \<open>r\<close> is the result of \<open>accept\<close>, \<open>t\<close> the time. The text is written with
  \<open>snprintf\<close>, cut to \<open>LINEBUFSIZE\<close> with its zero, and sent with the length that \<open>snprintf\<close> returns; a failure of \<open>send\<close> is not seen, since the result
  is unsigned. After a failed \<open>accept\<close> the child exits whatever \<open>errno\<close> is.
\<close>

definition server_job_step :: "int \<Rightarrow> int \<Rightarrow> kid \<Rightarrow> prog \<Rightarrow> (kid \<times> prog) option" where
  "server_job_step r t c s = (case c of (k, n, pc) \<Rightarrow> (case pc of
       K_idle \<Rightarrow> Some ((k, n, K_note_idle), s\<lparr>slots := set_state n SRV_IDLE (slots s)\<rparr>)
     | K_note_idle \<Rightarrow> Some ((k, n, K_accept), s\<lparr>notified := True\<rparr>)
     | K_accept \<Rightarrow>
         if r < 0 then Some ((k, n, K_exit 1), s\<lparr>slots := (slots s)\<lparr>alive := alive (slots s) - {k}\<rparr>\<rparr>)
         else Some ((k, n, K_busy r), s\<lparr>accepted := accepted s @ [(k, r)]\<rparr>)
     | K_busy sd \<Rightarrow> Some ((k, n, K_note_busy sd), s\<lparr>slots := set_state n SRV_BUSY (slots s)\<rparr>)
     | K_note_busy sd \<Rightarrow> Some ((k, n, K_send sd), s\<lparr>notified := True\<rparr>)
     | K_send sd \<Rightarrow>
         if LINEBUFSIZE \<le> length (stamp_line t) then None
         else Some ((k, n, K_close sd), s\<lparr>answered := answered s @ [(k, sd, stamp_line t)]\<rparr>)
     | K_close sd \<Rightarrow> Some ((k, n, K_idle), s)
     | K_exit e \<Rightarrow> None))"

text \<open>The parent and the children that have not been killed, in any order.\<close>

inductive prog_step :: "prog \<Rightarrow> prog \<Rightarrow> bool" where
  parent: "main_step s = Some s' \<Longrightarrow> prog_step s s'"
| child: "i < length (kids s) \<Longrightarrow> kids s ! i = c \<Longrightarrow> fst c \<in> alive (slots s) \<Longrightarrow> time_ok t \<Longrightarrow>
    server_job_step r t c s = Some (c', s') \<Longrightarrow> prog_step s (s'\<lparr>kids := (kids s)[i := c']\<rparr>)"

definition prog_start :: "pool \<Rightarrow> prog" where
  "prog_start p = \<lparr>main_at = M_start 0, slots = p, kids = [], notified = False, lines = [], accepted = [], answered = []\<rparr>"


section \<open>The invariant\<close>

text \<open>What a child has accepted and not answered yet.\<close>

fun in_hand :: "kid_pc \<Rightarrow> int list" where
  "in_hand (K_busy sd) = [sd]"
| "in_hand (K_note_busy sd) = [sd]"
| "in_hand (K_send sd) = [sd]"
| "in_hand _ = []"

text \<open>The process numbers of the children, in the order of their creation, and those still to come are all different.\<close>

definition fresh_forks :: "prog \<Rightarrow> bool" where
  "fresh_forks s \<longleftrightarrow> distinct (map fst (kids s))
     \<and> (\<forall>m. 0 \<le> forks (slots s) m \<longrightarrow> forks (slots s) m \<notin> set (map fst (kids s))
          \<and> (\<forall>n. forks (slots s) n = forks (slots s) m \<longrightarrow> n = m))"

definition kid_owns :: "prog \<Rightarrow> kid \<Rightarrow> bool" where
  "kid_owns s c \<longleftrightarrow> (fst c \<in> alive (slots s) \<longrightarrow>
     fst (snd c) < MAXCLIENTS \<and> pid (serverpool (slots s) ! fst (snd c)) = fst c)"

definition kid_answers :: "prog \<Rightarrow> kid \<Rightarrow> bool" where
  "kid_answers s c \<longleftrightarrow>
     concat (map (\<lambda>(k, sd). if k = fst c then [sd] else []) (accepted s)) =
     concat (map (\<lambda>(k, a). if k = fst c then [fst a] else []) (answered s)) @ in_hand (snd (snd c))"

definition prog_ok :: "prog \<Rightarrow> bool" where
  "prog_ok s \<longleftrightarrow> pool_ok (slots s) \<and> fresh_forks s \<and> alive (slots s) \<subseteq> set (map fst (kids s))
     \<and> (\<forall>c \<in> set (kids s). kid_owns s c \<and> kid_answers s c \<and> 0 \<le> fst c)
     \<and> (\<forall>(k, sd) \<in> set (accepted s). k \<in> set (map fst (kids s)))
     \<and> (\<forall>(k, sd, t) \<in> set (answered s). k \<in> set (map fst (kids s)) \<and> (\<exists>n. time_ok n \<and> t = stamp_line n))
     \<and> (\<forall>l \<in> set (lines s). length l = MAXCLIENTS + 1)"

lemma add_1_server_full:
  assumes "pool_ok p" "used_slots (serverpool p) < int MAXCLIENTS"
  shows "\<exists>n. free_server (serverpool p) = int n \<and> n < MAXCLIENTS \<and> pid (serverpool p ! n) = - 1
    \<and> add_1_server p = Some (if forks p 0 < 0
        then Exit 1 (forks p 0, p\<lparr>serverpool := (serverpool p)[n := (serverpool p ! n)\<lparr>srv_state := SRV_IDLE\<rparr>], forks := \<lambda>n. forks p (Suc n)\<rparr>)
        else Done (0, p\<lparr>serverpool := (serverpool p)[n := (serverpool p ! n)\<lparr>srv_state := SRV_IDLE, pid := forks p 0\<rparr>],
          idle_count := idle_count p + 1, alive := insert (forks p 0) (alive p), forks := \<lambda>n. forks p (Suc n)\<rparr>))"
proof -
  define n where "n = nat (free_server (serverpool p))"
  have len: "length (serverpool p) = MAXCLIENTS" using assms by (simp add: pool_ok_def)
  from assms(2) len free_server_free [of "serverpool p"] free_server_bound [of "serverpool p"]
  have n: "n < length (serverpool p)" "pid (serverpool p ! n) = - 1" "free_server (serverpool p) = int n"
    by (auto simp: n_def)
  have "\<not> idle_count p + busy_count p \<ge> int MAXCLIENTS" using assms by (simp add: pool_ok_def)
  with n len show ?thesis by (auto simp: add_1_server_def sys_fork_def)
qed

text \<open>A change of the pool that lets no process appear and leaves the slots of the living alone.\<close>

definition keeps_owners :: "pool \<Rightarrow> pool \<Rightarrow> bool" where
  "keeps_owners p q \<longleftrightarrow> pool_ok q \<and> alive q \<subseteq> alive p \<and> (forks q = forks p \<or> forks q = (\<lambda>n. forks p (Suc n)))
     \<and> (\<forall>n < MAXCLIENTS. pid (serverpool p ! n) \<in> alive q \<longrightarrow> pid (serverpool q ! n) = pid (serverpool p ! n))"

lemma keeps_owners_ok:
  assumes "prog_ok s" "keeps_owners (slots s) (slots s')"
    and "kids s' = kids s" "accepted s' = accepted s" "answered s' = answered s"
    and "lines s' = lines s \<or> (\<exists>l. lines s' = lines s @ [l] \<and> length l = MAXCLIENTS + 1)"
  shows "prog_ok s'"
proof -
  have "fresh_forks s'"
  proof -
    have f: "fresh_forks s" using assms(1) by (simp add: prog_ok_def)
    consider "forks (slots s') = forks (slots s)" | "forks (slots s') = (\<lambda>n. forks (slots s) (Suc n))"
      using assms(2) unfolding keeps_owners_def by blast
    then show ?thesis
    proof cases
      case 1
      with f assms(3) show ?thesis by (simp add: fresh_forks_def)
    next
      case 2
      with f assms(3) show ?thesis unfolding fresh_forks_def by (metis nat.inject)
    qed
  qed
  moreover have "kid_owns s' c" if "c \<in> set (kids s)" for c
    using assms that by (fastforce simp: prog_ok_def keeps_owners_def kid_owns_def)
  moreover have "kid_answers s' c" if "c \<in> set (kids s)" for c
    using assms that by (simp add: prog_ok_def kid_answers_def)
  moreover have "\<forall>l \<in> set (lines s'). length l = MAXCLIENTS + 1" using assms(1,6) by (auto simp: prog_ok_def)
  ultimately show ?thesis using assms by (auto simp: prog_ok_def keeps_owners_def)
qed

lemma keeps_owners_refl: "pool_ok p \<Longrightarrow> keeps_owners p p"
  by (simp add: keeps_owners_def)

lemma scan_slots_pid: "scan_slots al ss = Some (ss', i, b) \<Longrightarrow> n < length ss \<Longrightarrow> pid (ss ! n) \<in> al \<Longrightarrow> pid (ss' ! n) = pid (ss ! n)"
proof (induction ss arbitrary: ss' i b n)
  case (Cons s ss)
  then show ?case by (cases n) (auto simp: bind_eq_Some_conv split: if_splits)
qed simp

lemma scan_keeps: "pool_ok p \<Longrightarrow> scan_pool p = Some q \<Longrightarrow> keeps_owners p q"
  using scan_ok [of p] scan_slots_pid [of "alive p" "serverpool p"]
  by (auto simp: keeps_owners_def scan_pool_def bind_eq_Some_conv pool_ok_def)

lemma del_first_idle_pid:
  "del_first_idle ss = (ss', k) \<Longrightarrow> n < length ss \<Longrightarrow> pid (ss ! n) \<noteq> - 1 \<Longrightarrow> k \<noteq> Some (pid (ss ! n)) \<Longrightarrow> pid (ss' ! n) = pid (ss ! n)"
proof (induction ss arbitrary: ss' n)
  case (Cons s ss)
  then show ?case by (cases n) (auto split: if_splits prod.splits)
qed simp

lemma del_keeps: "pool_ok p \<Longrightarrow> - 1 \<notin> alive p \<Longrightarrow> keeps_owners p (snd (del_1_server p))"
proof -
  assume p: "pool_ok p" "- 1 \<notin> alive p"
  obtain ss k where d: "del_first_idle (serverpool p) = (ss, k)" by fastforce
  have len: "length (serverpool p) = MAXCLIENTS" using p(1) by (simp add: pool_ok_def)
  have "pid (ss ! n) = pid (serverpool p ! n)"
    if "n < MAXCLIENTS" "pid (serverpool p ! n) \<in> alive p" "k \<noteq> Some (pid (serverpool p ! n))" for n
    using del_first_idle_pid [OF d, of n] that len p(2) by metis
  then show ?thesis
    using del_ok [OF p(1)] by (cases k) (auto simp: keeps_owners_def del_1_server_def d)
qed

lemma exit_keeps:
  assumes "pool_ok p" "n < MAXCLIENTS" "forks p 0 < 0"
  shows "keeps_owners p (p\<lparr>serverpool := (serverpool p)[n := (serverpool p ! n)\<lparr>srv_state := SRV_IDLE\<rparr>], forks := \<lambda>n. forks p (Suc n)\<rparr>)"
  using set_state_ok [OF assms(1,2), of SRV_IDLE] assms
  by (auto simp: keeps_owners_def set_state_def pool_ok_def nth_list_update)


lemma none_of:
  "(\<And>k x. (k, x) \<in> set xs \<Longrightarrow> k \<noteq> f) \<Longrightarrow> concat (map (\<lambda>(k, x). if k = f then g x else []) xs) = []"
proof -
  assume "\<And>k x. (k, x) \<in> set xs \<Longrightarrow> k \<noteq> f"
  then have "\<forall>p \<in> set xs. fst p \<noteq> f" by (metis prod.collapse)
  then show ?thesis by (induction xs) (auto simp: split_def)
qed

lemma prog_alive: "prog_ok s \<Longrightarrow> - 1 \<notin> alive (slots s)"
  by (fastforce simp: prog_ok_def)

lemma add_kid_ok:
  assumes "prog_ok s"
  shows "\<exists>s'. add_kid s pc = Some s' \<and> prog_ok s' \<and> main_at s' \<in> {pc, M_exit 1}
    \<and> idle_count (slots s) \<le> idle_count (slots s')"
proof -
  define p where "p = slots s"
  have ok: "pool_ok p" using assms by (simp add: prog_ok_def p_def)
  show ?thesis
  proof (cases "used_slots (serverpool p) < int MAXCLIENTS")
    case False
    then have "add_1_server p = Some (Done (- 1, p))" using add_ok [OF ok] by simp
    then have "add_kid s pc = Some (s\<lparr>main_at := pc\<rparr>)" by (simp add: add_kid_def p_def)
    moreover have "prog_ok (s\<lparr>main_at := pc\<rparr>)"
      using keeps_owners_ok [OF assms, of "s\<lparr>main_at := pc\<rparr>"] keeps_owners_refl ok by (simp add: p_def)
    ultimately show ?thesis by simp
  next
    case True
    from add_1_server_full [OF ok True] obtain n where n: "free_server (serverpool p) = int n" "n < MAXCLIENTS" "pid (serverpool p ! n) = - 1"
      and a: "add_1_server p = Some (if forks p 0 < 0
        then Exit 1 (forks p 0, p\<lparr>serverpool := (serverpool p)[n := (serverpool p ! n)\<lparr>srv_state := SRV_IDLE\<rparr>], forks := \<lambda>n. forks p (Suc n)\<rparr>)
        else Done (0, p\<lparr>serverpool := (serverpool p)[n := (serverpool p ! n)\<lparr>srv_state := SRV_IDLE, pid := forks p 0\<rparr>],
          idle_count := idle_count p + 1, alive := insert (forks p 0) (alive p), forks := \<lambda>n. forks p (Suc n)\<rparr>))"
      by blast
    show ?thesis
    proof (cases "forks p 0 < 0")
      case True
      let ?q = "p\<lparr>serverpool := (serverpool p)[n := (serverpool p ! n)\<lparr>srv_state := SRV_IDLE\<rparr>], forks := \<lambda>n. forks p (Suc n)\<rparr>"
      let ?s = "s\<lparr>main_at := M_exit 1, slots := ?q\<rparr>"
      have "add_kid s pc = Some ?s" using a True by (simp add: add_kid_def p_def)
      moreover have "prog_ok ?s"
        using keeps_owners_ok [OF assms, of ?s] exit_keeps [OF ok n(2) True] by (simp add: p_def)
      ultimately show ?thesis by (simp add: p_def)
    next
      case False
      define q where "q = p\<lparr>serverpool := (serverpool p)[n := (serverpool p ! n)\<lparr>srv_state := SRV_IDLE, pid := forks p 0\<rparr>],
          idle_count := idle_count p + 1, alive := insert (forks p 0) (alive p), forks := \<lambda>n. forks p (Suc n)\<rparr>"
      define s' where "s' = s\<lparr>main_at := pc, slots := q, kids := kids s @ [(forks p 0, n, K_idle)]\<rparr>"
      have a': "add_kid s pc = Some s'" using a False n(1) by (simp add: add_kid_def p_def q_def s'_def)
      have len: "length (serverpool p) = MAXCLIENTS" using ok by (simp add: pool_ok_def)
      have qok: "pool_ok q" using add_ok [OF ok] a False True by (auto simp: q_def split: if_splits)
      have fr1: "forks p 0 \<notin> set (map fst (kids s))"
        using assms False by (simp add: prog_ok_def fresh_forks_def p_def)
      moreover have "alive p \<subseteq> set (map fst (kids s))" using assms by (simp add: prog_ok_def p_def)
      ultimately have fr: "forks p 0 \<notin> set (map fst (kids s))" "forks p 0 \<notin> alive p" by blast+
      have "fresh_forks s'"
        using assms False fr(1) unfolding fresh_forks_def prog_ok_def s'_def q_def p_def
        by simp (metis nat.distinct(1) nat.inject)
      moreover have "kid_owns s' c" if "c \<in> set (kids s)" for c
      proof -
        have c: "fst c \<in> set (map fst (kids s))" using that by simp
        have ne: "fst c \<noteq> forks p 0"
        proof
          assume "fst c = forks p 0"
          then have "forks p 0 \<in> set (map fst (kids s))" using c by (rule subst)
          then show False using fr(1) by (rule notE [rotated])
        qed
        with assms that have o: "kid_owns s c" "fst c \<noteq> forks p 0" by (simp_all add: prog_ok_def)
        show ?thesis
        proof (cases "fst c \<in> alive p")
          case True
          with o have "fst (snd c) < MAXCLIENTS" "pid (serverpool p ! fst (snd c)) = fst c" by (auto simp: kid_owns_def p_def)
          moreover have "fst (snd c) \<noteq> n" using calculation n(3) True prog_alive [OF assms] by (auto simp: p_def)
          ultimately show ?thesis using o(2) by (simp add: kid_owns_def s'_def q_def)
        next
          case False
          with o(2) show ?thesis by (simp add: kid_owns_def s'_def q_def)
        qed
      qed
      moreover have "kid_owns s' (forks p 0, n, K_idle)" using n len by (simp add: kid_owns_def s'_def q_def)
      moreover have "kid_answers s' c" if "c \<in> set (kids s)" for c
        using assms that by (simp add: prog_ok_def kid_answers_def s'_def)
      moreover have "kid_answers s' (forks p 0, n, K_idle)"
      proof -
        have "k \<noteq> forks p 0" if "(k, sd) \<in> set (accepted s)" for k sd
        proof
          assume "k = forks p 0"
          moreover have "k \<in> set (map fst (kids s))" using assms that unfolding prog_ok_def by blast
          ultimately show False using fr(1) by (simp only:)
        qed
        moreover have "k \<noteq> forks p 0" if "(k, x) \<in> set (answered s)" for k x
        proof
          assume "k = forks p 0"
          moreover have "k \<in> set (map fst (kids s))" using assms that unfolding prog_ok_def by blast
          ultimately show False using fr(1) by (simp only:)
        qed
        ultimately show ?thesis by (simp add: kid_answers_def s'_def none_of)
      qed
      moreover have "\<forall>(k, sd) \<in> set (accepted s'). k \<in> set (map fst (kids s'))"
        "\<forall>(k, sd, t) \<in> set (answered s'). k \<in> set (map fst (kids s')) \<and> (\<exists>n. time_ok n \<and> t = stamp_line n)"
        "\<forall>l \<in> set (lines s'). length l = MAXCLIENTS + 1" "alive (slots s') \<subseteq> set (map fst (kids s'))"
        "\<forall>c \<in> set (kids s). 0 \<le> fst c"
        using assms unfolding prog_ok_def s'_def q_def p_def by (simp_all, blast+)
      ultimately have "prog_ok s'" using qok False unfolding prog_ok_def by (simp add: s'_def)
      then show ?thesis using a' by (simp add: s'_def q_def p_def)
    qed
  qed
qed


section \<open>Steps\<close>

text \<open>How many steps the parent can still make before it is back in \<open>sigsuspend\<close> or has ended.\<close>

fun main_left :: "main_pc \<Rightarrow> int \<Rightarrow> nat" where
  "main_left (M_start i) idle = 1 + nat (MINSPARESERVER - i)"
| "main_left M_scan idle = 13"
| "main_left (M_shrink i) idle = 2 + nat (idle - MAXSPARESERVER - i)"
| "main_left (M_grow i) idle = 2 + nat (MAXSPARESERVER - idle - i)"
| "main_left M_print idle = 1"
| "main_left _ idle = 0"

abbreviation left_of :: "prog \<Rightarrow> nat" where
  "left_of s \<equiv> main_left (main_at s) (idle_count (slots s))"

lemma pool_ok_idle: "pool_ok p \<Longrightarrow> 0 \<le> idle_count p \<and> idle_count p \<le> int MAXCLIENTS"
  using used_slots_le [of "serverpool p"] by (auto simp: pool_ok_def)

lemma same_pool_ok:
  assumes "prog_ok s" "slots s' = slots s" "kids s' = kids s" "accepted s' = accepted s" "answered s' = answered s"
    and "lines s' = lines s \<or> (\<exists>l. lines s' = lines s @ [l] \<and> length l = MAXCLIENTS + 1)"
  shows "prog_ok s'"
  using keeps_owners_ok [OF assms(1) _ assms(3-6)] keeps_owners_refl assms(1,2) by (simp add: prog_ok_def)

lemma main_step_ok:
  assumes "prog_ok s"
  shows "(main_step s = None \<longleftrightarrow> (main_at s = M_suspend \<and> \<not> notified s) \<or> (\<exists>k. main_at s = M_exit k))
    \<and> (\<forall>s'. main_step s = Some s' \<longrightarrow> prog_ok s' \<and> (main_at s \<noteq> M_suspend \<longrightarrow> left_of s' < left_of s))"
proof -
  have ok: "pool_ok (slots s)" using assms by (simp add: prog_ok_def)
  show ?thesis
  proof (cases "main_at s")
    case (M_start i)
    show ?thesis
    proof (cases "i < MINSPARESERVER")
      case True
      obtain s' where s': "add_kid s (M_start (i + 1)) = Some s'" "prog_ok s'" "main_at s' \<in> {M_start (i + 1), M_exit 1}"
        using add_kid_ok [OF assms] by blast
      then have "left_of s' < left_of s" using True M_start by auto
      with s' M_start True show ?thesis by (simp add: main_step_def)
    next
      case False
      with M_start same_pool_ok [OF assms, of "s\<lparr>main_at := M_suspend\<rparr>"] show ?thesis by (simp add: main_step_def)
    qed
  next
    case M_suspend
    with same_pool_ok [OF assms, of "s\<lparr>main_at := M_scan, notified := False\<rparr>"] show ?thesis by (simp add: main_step_def)
  next
    case M_scan
    obtain q where q: "scan_pool (slots s) = Some q" "pool_ok q" using scan_ok [OF ok] by blast
    let ?pc = "if idle_count q > MAXSPARESERVER then M_shrink 0 else if idle_count q < MINSPARESERVER then M_grow 0 else M_print"
    have "prog_ok (s\<lparr>slots := q, main_at := ?pc\<rparr>)"
      using keeps_owners_ok [OF assms, of "s\<lparr>slots := q, main_at := ?pc\<rparr>"] scan_keeps [OF ok q(1)] by simp
    moreover have "main_left ?pc (idle_count q) < 13" using pool_ok_idle [OF q(2)] by auto
    ultimately show ?thesis using M_scan q(1) by (simp add: main_step_def)
  next
    case (M_shrink i)
    let ?q = "snd (del_1_server (slots s))"
    let ?s = "s\<lparr>main_at := M_shrink (i + 1), slots := ?q\<rparr>"
    have "prog_ok ?s"
      using keeps_owners_ok [OF assms, of ?s] del_keeps [OF ok prog_alive [OF assms]] by simp
    moreover have "idle_count ?q \<le> idle_count (slots s)" by (auto simp: del_1_server_def split: prod.split option.split)
    moreover have "prog_ok (s\<lparr>main_at := M_print\<rparr>)" using same_pool_ok [OF assms, of "s\<lparr>main_at := M_print\<rparr>"] by simp
    ultimately show ?thesis using M_shrink by (auto simp: main_step_def Let_def split: if_splits)
  next
    case (M_grow i)
    show ?thesis
    proof (cases "i < MAXSPARESERVER - idle_count (slots s)")
      case True
      obtain s' where s': "add_kid s (M_grow (i + 1)) = Some s'" "prog_ok s'" "main_at s' \<in> {M_grow (i + 1), M_exit 1}"
        "idle_count (slots s) \<le> idle_count (slots s')"
        using add_kid_ok [OF assms] by blast
      then have "left_of s' < left_of s" using True M_grow by auto
      with s' M_grow True show ?thesis by (simp add: main_step_def)
    next
      case False
      with M_grow same_pool_ok [OF assms, of "s\<lparr>main_at := M_print\<rparr>"] show ?thesis by (simp add: main_step_def)
    qed
  next
    case M_print
    let ?s = "s\<lparr>main_at := M_suspend, lines := lines s @ [map show_slot (serverpool (slots s)) @ ''\<newline>'']\<rparr>"
    have "length (serverpool (slots s)) = MAXCLIENTS" using ok by (simp add: pool_ok_def)
    then have "prog_ok ?s" using same_pool_ok [OF assms, of ?s] by simp
    with M_print show ?thesis by (simp add: main_step_def)
  next
    case (M_exit k)
    then show ?thesis by (simp add: main_step_def)
  qed
qed


text \<open>A child that makes a step: the others see at most another state in its slot.\<close>

lemma set_state_pid: "map pid (serverpool (set_state n v p)) = map pid (serverpool p)"
  by (simp add: set_state_def map_update) (metis list_update_id map_update)

lemma set_state_same [simp]:
  "alive (set_state n v p) = alive p" "forks (set_state n v p) = forks p" "idle_count (set_state n v p) = idle_count p"
  by (simp_all add: set_state_def)

lemma set_state_keeps:
  assumes "pool_ok p" "n < MAXCLIENTS" "v = SRV_IDLE \<or> v = SRV_BUSY"
  shows "keeps_owners p (set_state n v p)"
proof -
  have "length (serverpool p) = MAXCLIENTS" using assms(1) by (simp add: pool_ok_def)
  then have "pid (serverpool (set_state n v p) ! m) = pid (serverpool p ! m)" if "m < MAXCLIENTS" for m
    using set_state_pid [of n v p] that by (metis length_map nth_map)
  then show ?thesis using set_state_ok [OF assms] by (simp add: keeps_owners_def)
qed

lemma kid_moves:
  assumes "prog_ok s" "i < length (kids s)" "kids s ! i = (k, n, pc)"
    and "keeps_owners (slots s) p"
    and "acc' = [] \<and> ans = [] \<and> in_hand pc' = in_hand pc
      \<or> acc' = [(k, sd)] \<and> ans = [] \<and> in_hand pc = [] \<and> in_hand pc' = [sd]
      \<or> acc' = [] \<and> (\<exists>t. time_ok t \<and> ans = [(k, sd, stamp_line t)]) \<and> in_hand pc = [sd] \<and> in_hand pc' = []"
  shows "prog_ok (s\<lparr>slots := p, notified := b, accepted := accepted s @ acc', answered := answered s @ ans,
    kids := (kids s)[i := (k, n, pc')]\<rparr>)"
proof -
  let ?s = "s\<lparr>slots := p, notified := b, accepted := accepted s @ acc', answered := answered s @ ans,
    kids := (kids s)[i := (k, n, pc')]\<rparr>"
  have base: "prog_ok (s\<lparr>slots := p, notified := b\<rparr>)" using keeps_owners_ok [OF assms(1), of "s\<lparr>slots := p, notified := b\<rparr>"] assms(4) by simp
  have fst': "map fst (kids ?s) = map fst (kids s)"
    using assms(2,3) by (simp add: map_update) (metis fst_conv list_update_id nth_map)
  have k: "k \<in> set (map fst (kids s))" using assms(2,3) by (metis fst_conv length_map nth_map nth_mem)
  have dist: "distinct (map fst (kids s))" using assms(1) by (simp add: prog_ok_def fresh_forks_def)
  have "fresh_forks ?s" using base fst' by (simp add: prog_ok_def fresh_forks_def)
  moreover have "kid_owns ?s c \<and> kid_answers ?s c \<and> 0 \<le> fst c" if c: "c \<in> set (kids ?s)" for c
  proof -
    obtain j where j: "j < length (kids s)" "c = (if j = i then (k, n, pc') else kids s ! j)"
      using c by (auto simp: in_set_conv_nth nth_list_update split: if_splits)
    define c0 where "c0 = kids s ! j"
    have c0: "kid_owns (s\<lparr>slots := p, notified := b\<rparr>) c0" "kid_answers s c0" "0 \<le> fst c0"
      using base assms(1) j(1) by (auto simp: prog_ok_def c0_def)
    show ?thesis
    proof (cases "j = i")
      case True
      then have "c0 = (k, n, pc)" "c = (k, n, pc')" using j assms(3) by (simp_all add: c0_def)
      with c0 assms(5) show ?thesis by (auto simp: kid_owns_def kid_answers_def)
    next
      case False
      then have c': "c = c0" using j by (simp add: c0_def)
      have "fst c0 \<noteq> k" using dist False j(1) assms(2,3)
        by (metis c0_def distinct_conv_nth fst_conv length_map nth_map)
      with c0 c' assms(5) show ?thesis by (auto simp: kid_owns_def kid_answers_def)
    qed
  qed
  moreover have "\<forall>(k', sd) \<in> set (accepted ?s). k' \<in> set (map fst (kids ?s))"
    using base k assms(5) unfolding fst' by (auto simp: prog_ok_def simp del: set_map)
  moreover have "\<forall>(k', sd, t) \<in> set (answered ?s). k' \<in> set (map fst (kids ?s)) \<and> (\<exists>n. time_ok n \<and> t = stamp_line n)"
    using base k assms(5) unfolding fst' by (auto simp: prog_ok_def simp del: set_map)
  moreover have "pool_ok (slots ?s)" "alive (slots ?s) \<subseteq> set (map fst (kids ?s))" "\<forall>l \<in> set (lines ?s). length l = MAXCLIENTS + 1"
    using base unfolding fst' by (simp_all add: prog_ok_def)
  ultimately show ?thesis unfolding prog_ok_def by blast
qed


lemma stamp_line_fits: "time_ok t \<Longrightarrow> \<not> LINEBUFSIZE \<le> length (stamp_line t)"
  using stamp_line_length [of t] by simp

lemma child_step_ok:
  assumes "prog_ok s" "i < length (kids s)" "kids s ! i = c" "fst c \<in> alive (slots s)" "time_ok t"
  shows "server_job_step r t c s \<noteq> None
    \<and> (\<forall>c' s'. server_job_step r t c s = Some (c', s') \<longrightarrow> prog_ok (s'\<lparr>kids := (kids s)[i := c']\<rparr>)
        \<and> main_at s' = main_at s \<and> idle_count (slots s') = idle_count (slots s))
    \<or> (\<exists>k n e. c = (k, n, K_exit e))"
proof -
  obtain k n pc where c: "c = (k, n, pc)" by (cases c)
  have ok: "pool_ok (slots s)" using assms(1) by (simp add: prog_ok_def)
  have "c \<in> set (kids s)" using assms(2,3) by auto
  then have "kid_owns s c" using assms(1) by (simp add: prog_ok_def)
  then have n: "n < MAXCLIENTS" using assms(4) by (simp add: kid_owns_def c)
  have same: "keeps_owners (slots s) (slots s)" "keeps_owners (slots s) (set_state n SRV_IDLE (slots s))"
    "keeps_owners (slots s) (set_state n SRV_BUSY (slots s))"
    using keeps_owners_refl set_state_keeps ok n by simp_all
  have dead: "keeps_owners (slots s) ((slots s)\<lparr>alive := alive (slots s) - {k}\<rparr>)"
    using ok by (auto simp: keeps_owners_def pool_ok_def)
  note mv = kid_moves [OF assms(1,2) assms(3) [unfolded c]]
  show ?thesis
  proof (cases pc)
    case K_idle
    with mv [OF same(2), of "[]" "[]" K_note_idle undefined "notified s"] show ?thesis by (simp add: server_job_step_def c)
  next
    case K_note_idle
    with mv [OF same(1), of "[]" "[]" K_accept undefined True] show ?thesis by (simp add: server_job_step_def c)
  next
    case K_accept
    with mv [OF dead, of "[]" "[]" "K_exit 1" undefined "notified s"] mv [OF same(1), of "[(k, r)]" "[]" "K_busy r" r "notified s"]
    show ?thesis by (simp add: server_job_step_def c)
  next
    case (K_busy sd)
    with mv [OF same(3), of "[]" "[]" "K_note_busy sd" undefined "notified s"] show ?thesis by (simp add: server_job_step_def c)
  next
    case (K_note_busy sd)
    with mv [OF same(1), of "[]" "[]" "K_send sd" undefined True] show ?thesis by (simp add: server_job_step_def c)
  next
    case (K_send sd)
    with mv [OF same(1), of "[]" "[(k, sd, stamp_line t)]" "K_close sd" sd "notified s"] stamp_line_fits [OF assms(5)] assms(5)
    show ?thesis by (auto simp: server_job_step_def c)
  next
    case (K_close sd)
    with mv [OF same(1), of "[]" "[]" K_idle undefined "notified s"] show ?thesis by (simp add: server_job_step_def c)
  next
    case (K_exit e)
    then show ?thesis by (simp add: c)
  qed
qed

lemma prog_step_ok: "prog_step s s' \<Longrightarrow> prog_ok s \<Longrightarrow> prog_ok s'"
proof (induction rule: prog_step.induct)
  case (parent s s')
  then show ?case using main_step_ok by blast
next
  case (child i s c t r c' s')
  then show ?case using child_step_ok [OF child(6,1,2,3,4), of r] by (auto simp: server_job_step_def)
qed


lemma child_step_kids: "server_job_step r t c s = Some (c', s') \<Longrightarrow>
  (s'\<lparr>kids := ks\<rparr>) = (s\<lparr>slots := slots s', notified := notified s', accepted := accepted s', answered := answered s', kids := ks\<rparr>)"
  by (auto simp: server_job_step_def split: prod.splits kid_pc.splits if_splits)

lemma reach_ok:
  assumes "prog_step\<^sup>*\<^sup>* (prog_start p) s" "pool_setup mapped e E fk = Inr p" "\<And>m n. 0 \<le> fk m \<Longrightarrow> fk n = fk m \<Longrightarrow> n = m"
  shows "prog_ok s \<and> left_of s \<le> 13"
  using assms(1)
proof (induction rule: rtranclp_induct)
  case base
  have "p = pool_init fk" using assms(2) by (simp add: pool_setup_def split: if_splits)
  then show ?case using pool_init_ok [of fk] assms(3)
    by (auto simp: prog_ok_def prog_start_def fresh_forks_def pool_init_def)
next
  case (step s s')
  from step(2) show ?case
  proof cases
    case parent
    have "left_of s' \<le> 13"
    proof (cases "main_at s = M_suspend")
      case True
      with parent show ?thesis by (auto simp: main_step_def split: if_splits)
    next
      case False
      with parent step(3) main_step_ok [of s] show ?thesis by fastforce
    qed
    with parent step(3) main_step_ok [of s] show ?thesis by blast
  next
    case (child i c t r c' q)
    then have "main_at q = main_at s \<and> idle_count (slots q) = idle_count (slots s)"
      using child_step_ok [OF conjunct1 [OF step(3)], of i c t r] by (auto simp: server_job_step_def)
    with child step(3) prog_step_ok [OF step(2)] show ?thesis by simp
  qed
qed


section \<open>A race\<close>

datatype turn = Parent | Child nat int int

text \<open>The program under a given schedule.\<close>

fun run_turn :: "turn \<Rightarrow> prog \<Rightarrow> prog option" where
  "run_turn Parent s = main_step s"
| "run_turn (Child i r t) s =
     (if i < length (kids s) \<and> fst (kids s ! i) \<in> alive (slots s) \<and> time_ok t
      then map_option (\<lambda>(c', s'). s'\<lparr>kids := (kids s)[i := c']\<rparr>) (server_job_step r t (kids s ! i) s) else None)"

fun run_turns :: "turn list \<Rightarrow> prog \<Rightarrow> prog option" where
  "run_turns [] s = Some s"
| "run_turns (t # ts) s = Option.bind (run_turn t s) (run_turns ts)"

lemma run_turns_steps: "run_turns ts s = Some s' \<Longrightarrow> prog_step\<^sup>*\<^sup>* s s'"
proof (induction ts arbitrary: s)
  case (Cons t ts)
  then obtain q where q: "run_turn t s = Some q" "run_turns ts q = Some s'" by (auto simp: bind_eq_Some_conv)
  then have "prog_step s q" by (cases t) (auto intro: prog_step.intros split: if_splits)
  then show ?case using Cons.IH [OF q(2)] by (rule converse_rtranclp_into_rtranclp)
qed simp

definition kid_turns :: "nat \<Rightarrow> nat \<Rightarrow> turn list" where
  "kid_turns n i = replicate n (Child i 10 0)"

text \<open>Four children become busy, one and then three, and free again; the parent has made eleven of them and finds them all idle;
  the first child accepts the next connection, and the parent, which removes the surplus, kills it.\<close>

definition race_turns :: "turn list" where
  "race_turns = replicate 6 Parent @ kid_turns 4 0 @ replicate 7 Parent @ kid_turns 4 1 @ kid_turns 4 2 @ kid_turns 4 3
     @ replicate 7 Parent @ kid_turns 4 0 @ kid_turns 4 1 @ kid_turns 4 2 @ kid_turns 4 3
     @ replicate 2 Parent @ kid_turns 2 0 @ [Parent]"

definition count_up :: "nat \<Rightarrow> int" where
  "count_up n = int n + 2"

text \<open>A reachable state in which the second connection of a child was accepted, the child has been killed, and nobody will answer.\<close>

lemma prog_race:
  "\<exists>s. prog_step\<^sup>*\<^sup>* (prog_start (pool_init count_up)) s \<and> kids s ! 0 = (2, 0, K_busy 10) \<and> 2 \<notin> alive (slots s)
    \<and> accepted s = [(2, 10), (3, 10), (4, 10), (5, 10), (2, 10)] \<and> map fst (answered s) = [2, 3, 4, 5]"
proof -
  have "map_option (\<lambda>s. (kids s ! 0, 2 \<in> alive (slots s), accepted s, map fst (answered s)))
      (run_turns race_turns (prog_start (pool_init count_up)))
    = Some ((2, 0, K_busy 10), False, [(2, 10), (3, 10), (4, 10), (5, 10), (2, 10)], [2, 3, 4, 5])"
    by code_simp
  then show ?thesis using run_turns_steps by fastforce
qed


end
