(* ===== verification/PrimeArgs.thy ===== *)
theory PrimeArgs
  imports Pthread PrimeTest
begin

text \<open>
  The program \<open>parallel/thread/posix/primer0_e.c\<close>: one thread for every number, which is handed to it in a block from
  \<open>malloc\<close>; the thread returns the block through \<open>pthread_exit\<close> and \<open>main\<close> frees it after joining. Thread 0 is
  \<open>main\<close>. The theorem is the safety of the memory under every scheduling: no block is read or freed after it was freed, no
  block stays behind, and the primes of the range are printed.
\<close>

abbreviation LEFT :: int where "LEFT \<equiv> 30000000"
abbreviation RIGHT :: int where "RIGHT \<equiv> 30000200"
abbreviation THRNUM :: nat where "THRNUM \<equiv> 201"

section \<open>The program\<close>

text \<open>
  The blocks (addresses count the calls of \<open>malloc\<close> from 1; what the field \<open>n\<close> of a new block holds is arbitrary), what the threads have
  passed to \<open>pthread_exit\<close>, the output, and whether something undefined has happened.
\<close>

record arg_shared =
  arg :: "nat \<Rightarrow> int option"
  fresh :: nat
  retval :: "nat \<Rightarrow> nat"
  arg_out :: "int list"
  broken :: bool

datatype arg_pc =
    E_for | E_malloc | E_set | E_create | E_inc | E_nomem | E_fail
  | E_jfor | E_join | E_free | E_jinc | E_end
  | X_arg | X_mark | X_print | X_ret | X_exit

text \<open>
  The local variables are \<open>i\<close> and the pointer \<open>p\<close>. \<open>nomem k\<close>: the \<open>k\<close>-th \<open>malloc\<close> fails, \<open>junk\<close> is what a new block
  holds.
\<close>

definition arg_main :: "(nat \<Rightarrow> bool) \<Rightarrow> int \<Rightarrow> arg_pc \<Rightarrow> int \<times> nat \<Rightarrow> (arg_pc, int \<times> nat, arg_shared) instr" where
  "arg_main nomem junk pc l = (case l of (i, p) \<Rightarrow> (case pc of
       E_for \<Rightarrow> Act (\<lambda>s. if i \<le> RIGHT then (E_malloc, (i, p), s) else (E_jfor, (LEFT, p), s))
     | E_malloc \<Rightarrow> Act (\<lambda>s. if nomem (nat (i - LEFT)) then (E_nomem, (i, 0), s)
          else (E_set, (i, fresh s), s\<lparr>arg := (arg s)(fresh s \<mapsto> junk), fresh := fresh s + 1\<rparr>))
     | E_nomem \<Rightarrow> Halt 1
     | E_set \<Rightarrow> Act (\<lambda>s. if arg s p = None then (E_create, (i, p), s\<lparr>broken := True\<rparr>)
          else (E_create, (i, p), s\<lparr>arg := (arg s)(p \<mapsto> i)\<rparr>))
     | E_create \<Rightarrow> Spawn (nat (i - LEFT) + 1) E_inc E_fail
     | E_fail \<Rightarrow> Halt 1
     | E_inc \<Rightarrow> Act (\<lambda>s. (E_for, (i + 1, p), s))
     | E_jfor \<Rightarrow> Act (\<lambda>s. (if i \<le> RIGHT then E_join else E_end, (i, p), s))
     | E_join \<Rightarrow> Join (nat (i - LEFT) + 1) E_free
     | E_free \<Rightarrow> Act (\<lambda>s. let ptr = retval s (nat (i - LEFT) + 1) in
          if arg s ptr = None then (E_jinc, (i, p), s\<lparr>broken := True\<rparr>)
          else (E_jinc, (i, p), s\<lparr>arg := (arg s)(ptr := None)\<rparr>))
     | E_jinc \<Rightarrow> Act (\<lambda>s. (E_jfor, (i + 1, p), s))
     | _ \<Rightarrow> Halt 0))"

definition arg_thr_prime :: "nat \<Rightarrow> arg_pc \<Rightarrow> int \<times> nat \<Rightarrow> (arg_pc, int \<times> nat, arg_shared) instr" where
  "arg_thr_prime t pc l = (case l of (i, p) \<Rightarrow> (case pc of
       X_arg \<Rightarrow> Act (\<lambda>s. case arg s p of
           None \<Rightarrow> (X_mark, (i, p), s\<lparr>broken := True\<rparr>)
         | Some n \<Rightarrow> (X_mark, (n, p), s))
     | X_mark \<Rightarrow> Act (\<lambda>s. (if prime_mark i then X_print else X_ret, (i, p), s))
     | X_print \<Rightarrow> Act (\<lambda>s. (X_ret, (i, p), s\<lparr>arg_out := arg_out s @ [i]\<rparr>))
     | X_ret \<Rightarrow> Act (\<lambda>s. (X_exit, (i, p), s\<lparr>retval := (retval s)(t := p)\<rparr>))
     | X_exit \<Rightarrow> Leave
     | _ \<Rightarrow> Halt 0))"

definition arg_prog :: "(nat \<Rightarrow> bool) \<Rightarrow> int \<Rightarrow> (arg_pc, int \<times> nat, arg_shared) program" where
  "arg_prog nomem junk t pc l = (if t = 0 then arg_main nomem junk pc l else arg_thr_prime t pc l)"

text \<open>
  The argument of \<open>pthread_create\<close> is the pointer \<open>p\<close> of \<open>main\<close>, which for thread \<open>u\<close> is the \<open>u\<close>-th block (this is part of the
  invariant below).
\<close>

definition arg_start :: "nat \<Rightarrow> arg_pc \<times> int \<times> nat" where
  "arg_start u = (X_arg, 0, u)"

definition arg_init :: "(arg_pc, int \<times> nat, arg_shared) sys" where
  "arg_init = \<lparr>held = (\<lambda>_. None), thr = At E_for (LEFT, 0) # replicate THRNUM Off, halted = None,
     shared = \<lparr>arg = (\<lambda>_. None), fresh = 1, retval = (\<lambda>_. 0), arg_out = [], broken = False\<rparr>\<rparr>"

section \<open>The invariant\<close>

text \<open>How many blocks \<open>main\<close> has allocated, filled and freed, and how many threads it has created and joined.\<close>

fun allocated :: "arg_pc \<Rightarrow> int \<Rightarrow> int" where
  "allocated E_for i = i - LEFT"
| "allocated E_malloc i = i - LEFT"
| "allocated E_nomem i = i - LEFT"
| "allocated E_set i = i - LEFT + 1"
| "allocated E_create i = i - LEFT + 1"
| "allocated E_fail i = i - LEFT + 1"
| "allocated E_inc i = i - LEFT + 1"
| "allocated _ i = int THRNUM"

definition filled :: "arg_pc \<Rightarrow> int \<Rightarrow> int" where
  "filled p i = (if p = E_set then i - LEFT else allocated p i)"

definition created :: "arg_pc \<Rightarrow> int \<Rightarrow> int" where
  "created p i = (if p \<in> {E_set, E_create, E_fail} then i - LEFT else allocated p i)"

fun freed :: "arg_pc \<Rightarrow> int \<Rightarrow> int" where
  "freed E_jfor i = i - LEFT"
| "freed E_join i = i - LEFT"
| "freed E_free i = i - LEFT"
| "freed E_jinc i = i - LEFT + 1"
| "freed E_end i = int THRNUM"
| "freed _ i = 0"

definition joined :: "arg_pc \<Rightarrow> int \<Rightarrow> int" where
  "joined p i = (if p = E_free then i - LEFT + 1 else freed p i)"

fun arg_main_ok :: "arg_pc \<Rightarrow> int \<Rightarrow> nat \<Rightarrow> bool" where
  "arg_main_ok E_for i p \<longleftrightarrow> LEFT \<le> i \<and> i \<le> RIGHT + 1"
| "arg_main_ok E_jfor i p \<longleftrightarrow> LEFT \<le> i \<and> i \<le> RIGHT + 1"
| "arg_main_ok E_set i p \<longleftrightarrow> LEFT \<le> i \<and> i \<le> RIGHT \<and> int p = i - LEFT + 1"
| "arg_main_ok E_create i p \<longleftrightarrow> LEFT \<le> i \<and> i \<le> RIGHT \<and> int p = i - LEFT + 1"
| "arg_main_ok E_end i p \<longleftrightarrow> i = RIGHT + 1"
| "arg_main_ok pc i p \<longleftrightarrow> pc \<in> {E_malloc, E_nomem, E_fail, E_inc, E_join, E_free, E_jinc} \<and> LEFT \<le> i \<and> i \<le> RIGHT"

text \<open>The number of thread \<open>u\<close>.\<close>

definition number :: "nat \<Rightarrow> int" where
  "number u = LEFT + int u - 1"

fun arg_thr_ok :: "nat \<Rightarrow> (arg_pc, int \<times> nat) tstat \<Rightarrow> nat \<Rightarrow> bool" where
  "arg_thr_ok u (At X_arg l) r \<longleftrightarrow> snd l = u"
| "arg_thr_ok u (At X_mark l) r \<longleftrightarrow> l = (number u, u)"
| "arg_thr_ok u (At X_print l) r \<longleftrightarrow> l = (number u, u) \<and> prime_mark (number u)"
| "arg_thr_ok u (At X_ret l) r \<longleftrightarrow> l = (number u, u)"
| "arg_thr_ok u (At X_exit l) r \<longleftrightarrow> snd l = u \<and> r = u"
| "arg_thr_ok u Off r \<longleftrightarrow> True"
| "arg_thr_ok u Fin r \<longleftrightarrow> r = u"
| "arg_thr_ok u _ r \<longleftrightarrow> False"

definition worker_ok :: "arg_pc \<Rightarrow> int \<Rightarrow> nat \<Rightarrow> (arg_pc, int \<times> nat) tstat \<Rightarrow> arg_shared \<Rightarrow> bool" where
  "worker_ok p i u st sh \<longleftrightarrow> arg_thr_ok u st (retval sh u) \<and> (st = Off \<longleftrightarrow> created p i < int u)
     \<and> (int u \<le> joined p i \<longrightarrow> st = Fin)
     \<and> (arg sh u \<noteq> None \<longleftrightarrow> freed p i < int u \<and> int u \<le> allocated p i)
     \<and> (freed p i < int u \<and> int u \<le> filled p i \<longrightarrow> arg sh u = Some (number u))"

abbreviation workers :: "nat set" where "workers \<equiv> {1..THRNUM}"

text \<open>What a thread has printed.\<close>

fun has_printed :: "nat \<Rightarrow> (arg_pc, int \<times> nat) tstat \<Rightarrow> int multiset" where
  "has_printed u (At X_ret l) = (if prime_mark (number u) then {#number u#} else {#})"
| "has_printed u (At X_exit l) = (if prime_mark (number u) then {#number u#} else {#})"
| "has_printed u Fin = (if prime_mark (number u) then {#number u#} else {#})"
| "has_printed u _ = {#}"

definition arg_inv :: "(arg_pc, int \<times> nat, arg_shared) sys \<Rightarrow> bool" where
  "arg_inv s \<longleftrightarrow> length (thr s) = Suc THRNUM \<and>
     (\<exists>p i a. thr s ! 0 = At p (i, a) \<and> arg_main_ok p i a \<and> int (fresh (shared s)) = allocated p i + 1
       \<and> (\<forall>u \<in> workers. worker_ok p i u (thr s ! u) (shared s)))
     \<and> (\<forall>q. q \<notin> workers \<longrightarrow> arg (shared s) q = None) \<and> \<not> broken (shared s)
     \<and> mset (arg_out (shared s)) = (\<Sum>u \<in> workers. has_printed u (thr s ! u))
     \<and> (halted s = Some 0 \<longrightarrow> (\<exists>l. thr s ! 0 = At E_end l))"

lemma arg_inv_init: "arg_inv arg_init"
proof -
  have th: "thr arg_init ! u = (if u = 0 then At E_for (LEFT, 0) else Off)" if "u < Suc THRNUM" for u
    using that by (simp add: arg_init_def nth_Cons split: nat.split)
  then have z: "\<And>u. u \<in> workers \<Longrightarrow> thr arg_init ! u = Off" "thr arg_init ! 0 = At E_for (LEFT, 0)" by auto
  have "(\<Sum>u \<in> workers. has_printed u (thr arg_init ! u)) = {#}" by (rule sum.neutral) (use z in simp)
  then show ?thesis
    using z unfolding arg_inv_def by (simp add: arg_init_def worker_ok_def created_def joined_def filled_def)
qed

lemmas arg_defs = arg_prog_def arg_main_def arg_thr_prime_def

lemma arg_never: "arg_prog nomem junk t p l \<noteq> Wait m q" "arg_prog nomem junk t p l \<noteq> Broadcast q"
  "arg_prog nomem junk t p l \<noteq> Signal q" "arg_prog nomem junk t p l \<noteq> Lock m q" "arg_prog nomem junk t p l \<noteq> Unlock m q"
  by (cases l; cases p; simp add: arg_defs)+

lemma arg_main_stays: "arg_main nomem junk p l \<noteq> Leave"
  by (cases l; cases p; simp add: arg_main_def)

lemma arg_spawn: "arg_prog nomem junk t p l = Spawn u q e \<Longrightarrow>
    t = 0 \<and> p = E_create \<and> u = nat (fst l - LEFT) + 1 \<and> q = E_inc \<and> e = E_fail"
  by (cases l; cases p) (simp_all add: arg_defs split: if_splits)

lemma arg_join: "arg_prog nomem junk t p l = Join u q \<Longrightarrow> t = 0 \<and> p = E_join \<and> u = nat (fst l - LEFT) + 1 \<and> q = E_free"
  by (cases l; cases p) (simp_all add: arg_defs split: if_splits)

text \<open>A thread that is not waiting is not touched by the steps of others, its creation apart.\<close>

lemma arg_frame:
  assumes f: "fire (arg_prog nomem junk) arg_start c t s = Some s'" and u: "u < length (thr s)" "u \<noteq> t" "\<not> waiting (thr s ! u)"
    and "t \<noteq> 0 \<or> (\<forall>l. thr s ! 0 = At E_create l \<longrightarrow> u \<noteq> nat (fst l - LEFT) + 1)"
  shows "thr s' ! u = thr s ! u"
proof -
  have "thr s' ! u = thr s ! u \<or> waiting (thr s ! u) \<and> thr s' ! u = wake (thr s ! u)"
    by (rule fire_frame [OF f u(2,1)]) (use assms(5) arg_spawn in blast)
  with u(3) show ?thesis by blast
qed

text \<open>A step of a thread.\<close>

lemma arg_thr_step:
  assumes ok: "arg_thr_ok t (At p l) (retval sh t)" "arg sh t = Some (number t)"
    and "after c p l (arg_thr_prime t p l) sh = (st, sh')"
  shows "arg_thr_ok t st (retval sh' t) \<and> st \<noteq> Off \<and> arg sh' = arg sh \<and> fresh sh' = fresh sh \<and> broken sh' = broken sh
    \<and> (\<forall>u. u \<noteq> t \<longrightarrow> retval sh' u = retval sh u)
    \<and> mset (arg_out sh') + has_printed t (At p l) = mset (arg_out sh) + has_printed t st"
  using assms by (cases l; cases p) (auto simp: arg_thr_prime_def)

text \<open>An action of \<open>main\<close>.\<close>

lemma nat_thread: "LEFT \<le> i \<Longrightarrow> i \<le> RIGHT \<Longrightarrow> nat (i - LEFT) + 1 \<in> workers \<and> int (nat (i - LEFT) + 1) = i - LEFT + 1"
  by auto

lemma main_free:
  assumes "arg_main_ok E_free i a" "\<forall>u \<in> workers. worker_ok E_free i u (ts u) sh"
  shows "retval sh (nat (i - LEFT) + 1) = nat (i - LEFT) + 1" "arg sh (nat (i - LEFT) + 1) \<noteq> None"
proof -
  have u: "nat (i - LEFT) + 1 \<in> workers" "int (nat (i - LEFT) + 1) = i - LEFT + 1" using assms(1) nat_thread [of i] by auto
  then have w: "worker_ok E_free i (nat (i - LEFT) + 1) (ts (nat (i - LEFT) + 1)) sh" using assms(2) by blast
  then show "retval sh (nat (i - LEFT) + 1) = nat (i - LEFT) + 1" "arg sh (nat (i - LEFT) + 1) \<noteq> None"
    using u assms(1) unfolding worker_ok_def joined_def by (auto simp: u(2))
qed

text \<open>Most actions change the counter of \<open>main\<close> only, and none of the five numbers.\<close>

definition counts :: "arg_pc \<Rightarrow> int \<Rightarrow> int list" where
  "counts p i = [allocated p i, filled p i, created p i, freed p i, joined p i]"

lemma worker_counts: "counts q j = counts p i \<Longrightarrow> worker_ok q j u st sh = worker_ok p i u st sh"
  by (simp add: worker_ok_def counts_def)

lemmas count_defs = counts_def filled_def created_def joined_def

lemma arg_main_act:
  assumes m: "arg_main_ok p i a" "int (fresh sh) = allocated p i + 1" "\<forall>u \<in> workers. worker_ok p i u (ts u) sh"
    and none: "\<forall>v. v \<notin> workers \<longrightarrow> arg sh v = None"
    and f: "arg_main nomem junk p (i, a) = Act f" "f sh = (q, (j, b), sh')"
  shows "arg_main_ok q j b \<and> int (fresh sh') = allocated q j + 1 \<and> (\<forall>u \<in> workers. worker_ok q j u (ts u) sh')
    \<and> (\<forall>v. v \<notin> workers \<longrightarrow> arg sh' v = None) \<and> broken sh' = broken sh \<and> arg_out sh' = arg_out sh"
proof -
  have easy: ?thesis if "sh' = sh" "counts q j = counts p i" "arg_main_ok q j b"
    using that m none by (simp add: worker_counts [OF that(2)]) (simp add: counts_def)
  note d = arg_main_def count_defs
  show ?thesis
  proof (cases p)
    case E_for
    show ?thesis by (rule easy) (use f m E_for in \<open>auto simp: d split: if_splits\<close>)
  next
    case E_inc
    show ?thesis by (rule easy) (use f m E_inc in \<open>auto simp: d\<close>)
  next
    case E_jfor
    show ?thesis by (rule easy) (use f m E_jfor in \<open>auto simp: d split: if_splits\<close>)
  next
    case E_jinc
    show ?thesis by (rule easy) (use f m E_jinc in \<open>auto simp: d\<close>)
  next
    case E_malloc
    show ?thesis
    proof (cases "nomem (nat (i - LEFT))")
      case True
      show ?thesis by (rule easy) (use f m E_malloc True in \<open>auto simp: d\<close>)
    next
      case False
      then have sh: "q = E_set" "j = i" "b = fresh sh" "sh' = sh\<lparr>arg := (arg sh)(fresh sh \<mapsto> junk), fresh := fresh sh + 1\<rparr>"
        using f E_malloc by (auto simp: arg_main_def)
      have b: "int (fresh sh) = i - LEFT + 1" using m(2) E_malloc by simp
      have "worker_ok E_set i v (ts v) sh'" if v: "v \<in> workers" for v
      proof -
        have w: "worker_ok E_malloc i v (ts v) sh" using m(3) v E_malloc by simp
        show ?thesis
        proof (cases "v = fresh sh")
          case True
          with w b m(1) E_malloc show ?thesis by (simp add: worker_ok_def count_defs sh)
        next
          case False
          with b have "int v \<noteq> i - LEFT + 1" by linarith
          with w False show ?thesis by (simp add: worker_ok_def count_defs sh) linarith
        qed
      qed
      moreover have "fresh sh \<in> workers" using b m(1) E_malloc by auto
      ultimately show ?thesis using m none b E_malloc sh by auto
    qed
  next
    case E_set
    have a: "a \<in> workers" "int a = i - LEFT + 1" using m(1) E_set by auto
    have "worker_ok E_set i a (ts a) sh" using m(3) a(1) E_set by blast
    then have "arg sh a \<noteq> None" using a by (simp add: worker_ok_def)
    then have sh: "q = E_create" "j = i" "b = a" "sh' = sh\<lparr>arg := (arg sh)(a \<mapsto> i)\<rparr>"
      using f E_set by (auto simp: arg_main_def)
    have "worker_ok E_create i v (ts v) sh'" if v: "v \<in> workers" for v
    proof -
      have w: "worker_ok E_set i v (ts v) sh" using m(3) v E_set by simp
      show ?thesis
      proof (cases "v = a")
        case True
        with w a(2) m(1) E_set show ?thesis by (simp add: worker_ok_def count_defs sh number_def)
      next
        case False
        with a(2) have "int v \<noteq> i - LEFT + 1" by linarith
        with w False show ?thesis by (simp add: worker_ok_def count_defs sh)
      qed
    qed
    then show ?thesis using m none E_set a sh by auto
  next
    case E_free
    then have u: "nat (i - LEFT) + 1 \<in> workers" "int (nat (i - LEFT) + 1) = i - LEFT + 1" using m(1) nat_thread [of i] by auto
    have r: "retval sh (nat (i - LEFT) + 1) = nat (i - LEFT) + 1" "arg sh (nat (i - LEFT) + 1) \<noteq> None"
      using main_free [of i a ts sh] m E_free by auto
    have sh: "q = E_jinc" "j = i" "sh' = sh\<lparr>arg := (arg sh)(nat (i - LEFT) + 1 := None)\<rparr>"
      using f r E_free by (auto simp: arg_main_def Let_def)
    have "worker_ok E_jinc i v (ts v) sh'" if v: "v \<in> workers" for v
    proof -
      have w: "worker_ok E_free i v (ts v) sh" using m(3) v E_free by simp
      show ?thesis
      proof (cases "v = nat (i - LEFT) + 1")
        case True
        then have "int v = i - LEFT + 1" using u(2) by simp
        with w True m(1) E_free show ?thesis by (auto simp: worker_ok_def count_defs sh)
      next
        case False
        then have "int v \<noteq> i - LEFT + 1" using u(2) by linarith
        with w False show ?thesis by (simp add: worker_ok_def count_defs sh) linarith
      qed
    qed
    then show ?thesis using m E_free none sh by auto
  qed (use f in \<open>auto simp: arg_main_def\<close>)
qed

text \<open>What \<open>main\<close> knows of a thread that runs.\<close>

lemma running_arg:
  assumes "arg_main_ok p i a" "worker_ok p i u st sh" "st \<noteq> Off" "st \<noteq> Fin"
  shows "arg sh u = Some (number u)"
proof -
  have "int u \<le> created p i" "joined p i < int u" using assms by (auto simp: worker_ok_def)
  moreover have "created p i \<le> filled p i" by (cases p) (simp_all add: created_def filled_def)
  moreover have "freed p i \<le> joined p i" by (simp add: joined_def)
  ultimately show ?thesis using assms(2) by (simp add: worker_ok_def)
qed

text \<open>All of the invariant but the lengths and the end.\<close>

definition arg_rest :: "(arg_pc, int \<times> nat, arg_shared) sys \<Rightarrow> bool" where
  "arg_rest s \<longleftrightarrow> (\<exists>p i a. thr s ! 0 = At p (i, a) \<and> arg_main_ok p i a \<and> int (fresh (shared s)) = allocated p i + 1
       \<and> (\<forall>u \<in> workers. worker_ok p i u (thr s ! u) (shared s)))
     \<and> (\<forall>q. q \<notin> workers \<longrightarrow> arg (shared s) q = None) \<and> \<not> broken (shared s)
     \<and> mset (arg_out (shared s)) = (\<Sum>u \<in> workers. has_printed u (thr s ! u))"

lemma arg_inv_iff: "arg_inv s \<longleftrightarrow> length (thr s) = Suc THRNUM \<and> arg_rest s \<and> (halted s = Some 0 \<longrightarrow> (\<exists>l. thr s ! 0 = At E_end l))"
  unfolding arg_inv_def arg_rest_def by blast

lemma worker_not_waiting: "worker_ok p i u st sh \<Longrightarrow> \<not> waiting st"
  by (cases st) (auto simp: worker_ok_def)

lemma arg_rest_thread:
  assumes i: "arg_inv s" and t: "t \<in> workers" and f: "fire (arg_prog nomem junk) arg_start c t s = Some s'"
  shows "arg_rest s'"
proof -
  have len: "length (thr s) = Suc THRNUM" using i by (simp add: arg_inv_def)
  obtain p j a where m: "thr s ! 0 = At p (j, a)" "arg_main_ok p j a" "int (fresh (shared s)) = allocated p j + 1"
    "\<forall>u \<in> workers. worker_ok p j u (thr s ! u) (shared s)" using i unfolding arg_inv_def by blast
  have w: "worker_ok p j t (thr s ! t) (shared s)" using m(4) t by blast
  have run: "thr s ! t \<noteq> Off" "thr s ! t \<noteq> Fin" using f by (auto simp: fire_def split: if_splits)
  have ok: "arg_thr_ok t (thr s ! t) (retval (shared s) t)" using w by (simp add: worker_ok_def)
  then obtain q l where At: "thr s ! t = At q l" using run by (cases "thr s ! t") auto
  have af: "after c q l (arg_thr_prime t q l) (shared s) = (thr s' ! t, shared s')"
    using fire_after [OF f At] t by (simp add: arg_prog_def prod_eq_iff)
  note step = arg_thr_step [OF ok [unfolded At] running_arg [OF m(2) w run] af]
  have nw: "\<not> waiting (thr s ! u)" if "u \<in> insert 0 workers" for u
    using that m(1) worker_not_waiting [OF m(4) [rule_format]] by (cases "u = 0") auto
  have same: "thr s' ! u = thr s ! u" if "u \<in> insert 0 workers" "u \<noteq> t" for u
    by (rule arg_frame [OF f _ that(2) nw [OF that(1)]]) (use that t len in auto)
  have "worker_ok p j u (thr s' ! u) (shared s')" if u: "u \<in> workers" for u
  proof (cases "u = t")
    case True
    with step w run At show ?thesis by (auto simp: worker_ok_def)
  next
    case False
    then show ?thesis using m(4) u step same [of u] by (simp add: worker_ok_def)
  qed
  moreover have "thr s' ! 0 = At p (j, a)" using same [of 0] t m(1) by auto
  moreover have "mset (arg_out (shared s')) = (\<Sum>u \<in> workers. has_printed u (thr s' ! u))"
  proof -
    have "(\<Sum>u \<in> workers. has_printed u (thr s' ! u)) = has_printed t (thr s' ! t) + (\<Sum>u \<in> workers - {t}. has_printed u (thr s ! u))"
      "(\<Sum>u \<in> workers. has_printed u (thr s ! u)) = has_printed t (thr s ! t) + (\<Sum>u \<in> workers - {t}. has_printed u (thr s ! u))"
      using sum_other [of workers t "\<lambda>u. has_printed u (thr s' ! u)" "\<lambda>u. has_printed u (thr s ! u)"] t same by auto
    moreover have "mset (arg_out (shared s)) = (\<Sum>u \<in> workers. has_printed u (thr s ! u))" using i by (simp add: arg_inv_def)
    ultimately show ?thesis using step At by (simp add: add_ac)
  qed
  ultimately show ?thesis using i m step unfolding arg_rest_def arg_inv_def by auto
qed

lemma arg_rest_main:
  assumes i: "arg_inv s" and f: "fire (arg_prog nomem junk) arg_start c 0 s = Some s'"
  shows "arg_rest s'"
proof -
  have len: "length (thr s) = Suc THRNUM" using i by (simp add: arg_inv_def)
  obtain p j a where m: "thr s ! 0 = At p (j, a)" "arg_main_ok p j a" "int (fresh (shared s)) = allocated p j + 1"
    "\<forall>u \<in> workers. worker_ok p j u (thr s ! u) (shared s)" using i unfolding arg_inv_def by blast
  have r: "\<forall>v. v \<notin> workers \<longrightarrow> arg (shared s) v = None" "\<not> broken (shared s)"
    "mset (arg_out (shared s)) = (\<Sum>u \<in> workers. has_printed u (thr s ! u))" using i by (auto simp: arg_inv_def)
  have af: "thr s' ! 0 = fst (after c p (j, a) (arg_main nomem junk p (j, a)) (shared s))"
      "shared s' = snd (after c p (j, a) (arg_main nomem junk p (j, a)) (shared s))"
    using fire_after [OF f m(1)] by (simp_all add: arg_prog_def)
  have e: "exec arg_start c 0 (j, a) (arg_main nomem junk p (j, a)) s = Some s'"
    using f m(1) by (simp add: fire_def arg_prog_def split: if_splits)
  have nw: "\<not> waiting (thr s ! u)" if "u \<in> insert 0 workers" for u
    using that m(1) worker_not_waiting [OF m(4) [rule_format]] by (cases "u = 0") auto
  have same: "thr s' ! u = thr s ! u" if "u \<in> workers" "p = E_create \<longrightarrow> u \<noteq> nat (j - LEFT) + 1" for u
    by (rule arg_frame [OF f _ _ nw]) (use that m(1) len in auto)
  show ?thesis
  proof (cases "arg_main nomem junk p (j, a)")
    case (Act g)
    obtain q k b sh where g: "g (shared s) = (q, (k, b), sh)" by (metis prod.collapse)
    have np: "p \<noteq> E_create" using Act by (auto simp: arg_main_def)
    have "arg_main_ok q k b \<and> int (fresh sh) = allocated q k + 1 \<and> (\<forall>u \<in> workers. worker_ok q k u (thr s ! u) sh)
      \<and> (\<forall>v. v \<notin> workers \<longrightarrow> arg sh v = None) \<and> broken sh = broken (shared s) \<and> arg_out sh = arg_out (shared s)"
      by (rule arg_main_act [OF m(2-4) r(1) Act g])
    moreover have "thr s' ! 0 = At q (k, b)" "shared s' = sh" using af by (simp_all add: Act g)
    moreover have "\<forall>u \<in> workers. thr s' ! u = thr s ! u" using same np by blast
    ultimately show ?thesis using r unfolding arg_rest_def by auto
  next
    case (Join u q)
    then have p: "p = E_join" "u = nat (j - LEFT) + 1" "q = E_free" by (cases p; simp add: arg_main_def)+
    then have s': "thr s' ! 0 = At E_free (j, a)" "shared s' = shared s" using af Join by simp_all
    have fin: "thr s ! u = Fin" using e Join by (simp add: exec_def split: if_splits)
    have jr: "LEFT \<le> j" "j \<le> RIGHT" using m(2) p by auto
    have "worker_ok E_free j v (thr s' ! v) (shared s')" if v: "v \<in> workers" for v
    proof -
      have w: "worker_ok E_join j v (thr s ! v) (shared s)" using m(4) v p by blast
      have "int v \<noteq> j - LEFT + 1 \<or> thr s ! v = Fin"
      proof (cases "v = u")
        case False
        then show ?thesis using p(2) nat_thread [OF jr] by linarith
      qed (use fin in simp)
      with w show ?thesis using same [OF v] p s' by (auto simp: worker_ok_def count_defs)
    qed
    moreover have "\<forall>u \<in> workers. thr s' ! u = thr s ! u" using same p by blast
    ultimately show ?thesis using r s' m(2,3) p unfolding arg_rest_def by auto
  next
    case (Spawn u q e')
    then have p: "p = E_create" "u = nat (j - LEFT) + 1" "q = E_inc" "e' = E_fail" by (cases p; simp add: arg_main_def)+
    have jr: "LEFT \<le> j" "j \<le> RIGHT" using m(2) p by auto
    then have u: "u \<in> workers" "int u = j - LEFT + 1" using nat_thread p(2) by auto
    have wu: "worker_ok E_create j u (thr s ! u) (shared s)" using m(4) u(1) p by blast
    then have off: "thr s ! u = Off" using u(2) by (simp add: worker_ok_def count_defs)
    have s': "thr s' ! 0 = At (if c = Fail then E_fail else E_inc) (j, a)" "shared s' = shared s" using af Spawn p by simp_all
    have su: "thr s' ! u = (if c = Fail then Off else At X_arg (0, u))"
      using fire_spawn [OF f m(1), of u q e'] Spawn u len off by (auto simp: arg_prog_def arg_start_def)
    have sv: "thr s' ! v = thr s ! v" if "v \<in> workers" "v \<noteq> u" for v by (rule same) (use that p in auto)
    have "worker_ok (if c = Fail then E_fail else E_inc) j v (thr s' ! v) (shared s')" if v: "v \<in> workers" for v
    proof (cases "v = u")
      case True
      then show ?thesis using wu off su s' u(2) by (auto simp: worker_ok_def count_defs)
    next
      case False
      have w: "worker_ok E_create j v (thr s ! v) (shared s)" using m(4) v p by blast
      have "int v \<noteq> j - LEFT + 1" using False u(2) by linarith
      with w show ?thesis using sv [OF v False] s' by (auto simp: worker_ok_def count_defs)
    qed
    moreover have "(\<Sum>v \<in> workers. has_printed v (thr s' ! v)) = (\<Sum>v \<in> workers. has_printed v (thr s ! v))"
    proof (rule sum.cong)
      show "has_printed v (thr s' ! v) = has_printed v (thr s ! v)" if "v \<in> workers" for v
        using that sv su off by (cases "v = u") auto
    qed simp
    ultimately show ?thesis using r s' m(2,3) p unfolding arg_rest_def by auto
  next
    case (Halt n)
    then have np: "p \<noteq> E_create" by (auto simp: arg_main_def)
    have "thr s' ! 0 = thr s ! 0" "shared s' = shared s" using af Halt m(1) by simp_all
    moreover have "\<forall>u \<in> workers. thr s' ! u = thr s ! u" using same np by blast
    ultimately show ?thesis using i unfolding arg_rest_def arg_inv_def by auto
  qed (use arg_never [of nomem junk 0 p "(j, a)"] arg_main_stays in \<open>auto simp: arg_prog_def\<close>)
qed

lemma arg_inv_fire:
  assumes i: "arg_inv s" and f: "fire (arg_prog nomem junk) arg_start c t s = Some s'"
  shows "arg_inv s'"
proof -
  have len: "length (thr s) = Suc THRNUM" using i by (simp add: arg_inv_def)
  have t: "t < Suc THRNUM" using f len by (auto simp: fire_def split: if_splits)
  then have rest: "arg_rest s'" using arg_rest_main [OF i] arg_rest_thread [OF i _ f] f by (cases "t = 0") auto
  have "\<exists>l. thr s' ! 0 = At E_end l" if h: "halted s' = Some 0"
  proof -
    obtain p l where p: "thr s ! t = At p l" "arg_prog nomem junk t p l = Halt 0" using fire_halted [OF f] h by auto
    have "t = 0"
    proof (rule ccontr)
      assume "t \<noteq> 0"
      then have w: "t \<in> workers" "arg_thr_prime t p l = Halt 0" using t p(2) by (auto simp: arg_prog_def)
      obtain q j where "worker_ok q j t (thr s ! t) (shared s)" using i w(1) unfolding arg_inv_def by blast
      then show False using w(2) p(1) by (cases p) (auto simp: worker_ok_def arg_thr_prime_def split: prod.splits)
    qed
    obtain q j a where "thr s ! 0 = At q (j, a)" "arg_main_ok q j a" using i unfolding arg_inv_def by blast
    with p \<open>t = 0\<close> have "p = E_end" by (cases p) (auto simp: arg_prog_def arg_main_def split: if_splits)
    moreover have "thr s' ! 0 = At p l" using fire_after [OF f p(1)] p(2) \<open>t = 0\<close> by simp
    ultimately show ?thesis by auto
  qed
  then show ?thesis using rest fire_length [OF f] len unfolding arg_inv_iff by simp
qed

lemma arg_reach_inv: "reach (arg_prog nomem junk) arg_start arg_init s \<Longrightarrow> arg_inv s"
  by (rule reach_inv) (use arg_inv_init arg_inv_fire in auto)

section \<open>No deadlock\<close>

lemma at_fires:
  assumes "thr s ! t = At p l" "t < length (thr s)" "halted s = None" "\<forall>u q. arg_prog nomem junk t p l \<noteq> Join u q"
  shows "can_run (arg_prog nomem junk) arg_start s"
proof -
  have "exec arg_start Go t l (arg_prog nomem junk t p l) s \<noteq> None"
    using assms(4) arg_never [of nomem junk t p l]
    by (cases "arg_prog nomem junk t p l") (auto simp: exec_def split: prod.split)
  then have "fire (arg_prog nomem junk) arg_start Go t s \<noteq> None" using assms(1-3) by (simp add: fire_def)
  then show ?thesis by (rule can_runI) simp
qed

lemma arg_can_run:
  assumes i: "arg_inv s" and h: "halted s = None"
  shows "can_run (arg_prog nomem junk) arg_start s"
proof -
  have len: "length (thr s) = Suc THRNUM" using i by (simp add: arg_inv_def)
  obtain p j a where m: "thr s ! 0 = At p (j, a)" "arg_main_ok p j a"
    "\<forall>u \<in> workers. worker_ok p j u (thr s ! u) (shared s)" using i unfolding arg_inv_def by blast
  show ?thesis
  proof (cases "\<exists>u q. arg_prog nomem junk 0 p (j, a) = Join u q")
    case False
    then show ?thesis using at_fires [OF m(1) _ h] len by auto
  next
    case True
    then have p: "p = E_join" "arg_prog nomem junk 0 p (j, a) = Join (nat (j - LEFT) + 1) E_free"
      using arg_join by fastforce+
    let ?u = "nat (j - LEFT) + 1"
    have u: "?u \<in> workers" "int ?u = j - LEFT + 1" using m(2) p(1) nat_thread [of j] by auto
    have w: "worker_ok E_join j ?u (thr s ! ?u) (shared s)" using m(3) u(1) p(1) by blast
    show ?thesis
    proof (cases "thr s ! ?u = Fin")
      case True
      then have "fire (arg_prog nomem junk) arg_start Go 0 s \<noteq> None"
        using m(1) p(2) h len u(1) by (auto simp: fire_def exec_def)
      then show ?thesis by (rule can_runI) simp
    next
      case False
      have "thr s ! ?u \<noteq> Off" using w u by (auto simp: worker_ok_def count_defs)
      then obtain q l where q: "thr s ! ?u = At q l" using False w by (cases "thr s ! ?u") (auto simp: worker_ok_def)
      have "\<forall>v r. arg_prog nomem junk ?u q l \<noteq> Join v r" using arg_join by fastforce
      then show ?thesis using at_fires [OF q _ h] u(1) len by auto
    qed
  qed
qed

section \<open>Correctness\<close>

lemma printed_all:
  "(\<Sum>u \<in> {1..n}. if prime_mark (number u) then {#number u#} else {#}) = mset (filter prime_mark [LEFT..LEFT + int n - 1])"
proof (induction n)
  case (Suc n)
  have "[LEFT..LEFT + int (Suc n) - 1] = [LEFT..LEFT + int n - 1] @ [LEFT + int n]"
    using upto_rec2 [of LEFT "LEFT + int n"] by simp
  with Suc show ?case by (simp add: number_def)
qed simp



end
