(* ===== verification/PrimePool.thy ===== *)
theory PrimePool
  imports Pthread PrimeTest
begin

text \<open>
  The pool of threads that looks for primes: \<open>parallel/thread/posix/primer0_pool.c\<close> with a condition variable, and
  \<open>primer0_pool_busy.c\<close>, which polls. Thread 0 is \<open>main\<close>, which puts the numbers of the range one after the other into
  the shared variable \<open>num\<close>; threads 1 to 4 take them out. The flag \<open>busy\<close> tells the two programs apart; they
  differ in how a thread waits and in the signals. The theorems: under every scheduling no number is lost
  or taken twice, the program never gets stuck, and when it ends normally it has printed exactly the primes of the range.
\<close>

abbreviation LEFT :: int where "LEFT \<equiv> 30000000"
abbreviation RIGHT :: int where "RIGHT \<equiv> 30000200"
abbreviation THRNUM :: int where "THRNUM \<equiv> 4"

section \<open>The programs\<close>

datatype pool_pc =
    PM_for | PM_create | PM_inc | PM_fail
  | PM_put | PM_lock | PM_test | PM_unl | PM_set | PM_signal | PM_unlock | PM_next
  | PM_flock | PM_ftest | PM_fwait | PM_end | PM_bcast | PM_funlock | PM_join0 | PM_join | PM_jinc
  | PT_lock | PT_test | PT_wait | PT_chk | PT_quit | PT_exit | PT_take | PT_bcast | PT_unlock | PT_mark | PT_print

text \<open>\<open>out\<close>: the pairs of a thread's number and a prime that are printed.\<close>

record pool_shared =
  num :: int
  out :: "(int \<times> int) list"

text \<open>
  \<open>i\<close> is the local variable of that name. \<open>sched_yield\<close> between an unlock and a lock has no effect of its own, and the two
  assignments \<open>i = num; num = 0\<close> with the mutex held are one action.
\<close>

definition pool_main :: "bool \<Rightarrow> pool_pc \<Rightarrow> int \<Rightarrow> (pool_pc, int, pool_shared) instr" where
  "pool_main busy p i = (case p of
       PM_for \<Rightarrow> Act (\<lambda>s. if i < THRNUM then (PM_create, i, s) else (PM_put, LEFT, s))
     | PM_create \<Rightarrow> Spawn (nat i + 1) PM_inc PM_fail
     | PM_inc \<Rightarrow> Act (\<lambda>s. (PM_for, i + 1, s))
     | PM_fail \<Rightarrow> Halt 1
     | PM_put \<Rightarrow> Act (\<lambda>s. (if i \<le> RIGHT then PM_lock else PM_flock, i, s))
     | PM_lock \<Rightarrow> Lock 0 PM_test
     | PM_test \<Rightarrow> Act (\<lambda>s. (if num s \<noteq> 0 then PM_unl else PM_set, i, s))
     | PM_unl \<Rightarrow> Unlock 0 PM_lock
     | PM_set \<Rightarrow> Act (\<lambda>s. (if busy then PM_unlock else PM_signal, i, s\<lparr>num := i\<rparr>))
     | PM_signal \<Rightarrow> Signal PM_unlock
     | PM_unlock \<Rightarrow> Unlock 0 PM_next
     | PM_next \<Rightarrow> Act (\<lambda>s. (PM_put, i + 1, s))
     | PM_flock \<Rightarrow> Lock 0 PM_ftest
     | PM_ftest \<Rightarrow> Act (\<lambda>s. (if num s \<noteq> 0 then PM_fwait else PM_end, i, s))
     | PM_fwait \<Rightarrow> if busy then Unlock 0 PM_flock else Wait 0 PM_ftest
     | PM_end \<Rightarrow> Act (\<lambda>s. (if busy then PM_funlock else PM_bcast, i, s\<lparr>num := - 1\<rparr>))
     | PM_bcast \<Rightarrow> Broadcast PM_funlock
     | PM_funlock \<Rightarrow> Unlock 0 PM_join0
     | PM_join0 \<Rightarrow> Act (\<lambda>s. (PM_join, 0, s))
     | PM_join \<Rightarrow> if i < THRNUM then Join (nat i + 1) PM_jinc else Halt 0
     | PM_jinc \<Rightarrow> Act (\<lambda>s. (PM_join, i + 1, s))
     | _ \<Rightarrow> Halt 0)"

definition pool_thr_prime :: "bool \<Rightarrow> nat \<Rightarrow> pool_pc \<Rightarrow> int \<Rightarrow> (pool_pc, int, pool_shared) instr" where
  "pool_thr_prime busy t p i = (case p of
       PT_lock \<Rightarrow> Lock 0 PT_test
     | PT_test \<Rightarrow> Act (\<lambda>s. (if num s = 0 then PT_wait else PT_chk, i, s))
     | PT_wait \<Rightarrow> if busy then Unlock 0 PT_lock else Wait 0 PT_test
     | PT_chk \<Rightarrow> Act (\<lambda>s. (if num s = - 1 then PT_quit else PT_take, i, s))
     | PT_quit \<Rightarrow> Unlock 0 PT_exit
     | PT_exit \<Rightarrow> Leave
     | PT_take \<Rightarrow> Act (\<lambda>s. (if busy then PT_unlock else PT_bcast, num s, s\<lparr>num := 0\<rparr>))
     | PT_bcast \<Rightarrow> Broadcast PT_unlock
     | PT_unlock \<Rightarrow> Unlock 0 PT_mark
     | PT_mark \<Rightarrow> Act (\<lambda>s. (if prime_mark i then PT_print else PT_lock, i, s))
     | PT_print \<Rightarrow> Act (\<lambda>s. (PT_lock, i, s\<lparr>out := out s @ [(int t - 1, i)]\<rparr>))
     | _ \<Rightarrow> Halt 0)"

definition pool_prog :: "bool \<Rightarrow> (pool_pc, int, pool_shared) program" where
  "pool_prog busy t p i = (if t = 0 then pool_main busy p i else pool_thr_prime busy t p i)"

definition pool_start :: "nat \<Rightarrow> pool_pc \<times> int" where
  "pool_start u = (PT_lock, 0)"

definition prime_pool_init :: "(pool_pc, int, pool_shared) sys" where
  "prime_pool_init = \<lparr>held = (\<lambda>_. None), thr = At PM_for 0 # replicate 4 Off, halted = None, shared = \<lparr>num = 0, out = []\<rparr>\<rparr>"

fun pool_crit :: "pool_pc \<Rightarrow> bool" where
  "pool_crit PM_test = True" | "pool_crit PM_unl = True" | "pool_crit PM_set = True"
| "pool_crit PM_signal = True" | "pool_crit PM_unlock = True" | "pool_crit PM_ftest = True"
| "pool_crit PM_fwait = True" | "pool_crit PM_end = True" | "pool_crit PM_bcast = True"
| "pool_crit PM_funlock = True" | "pool_crit PT_test = True" | "pool_crit PT_wait = True"
| "pool_crit PT_chk = True" | "pool_crit PT_quit = True" | "pool_crit PT_take = True"
| "pool_crit PT_bcast = True" | "pool_crit PT_unlock = True"
| "pool_crit _ = False"

section \<open>Assertions\<close>

fun main_at :: "pool_pc \<Rightarrow> int \<Rightarrow> int \<Rightarrow> bool" where
  "main_at PM_for i n \<longleftrightarrow> 0 \<le> i \<and> i \<le> THRNUM \<and> n = 0"
| "main_at PM_create i n \<longleftrightarrow> 0 \<le> i \<and> i < THRNUM \<and> n = 0"
| "main_at PM_inc i n \<longleftrightarrow> 0 \<le> i \<and> i < THRNUM \<and> n = 0"
| "main_at PM_fail i n \<longleftrightarrow> n = 0"
| "main_at PM_put i n \<longleftrightarrow> LEFT \<le> i \<and> i \<le> RIGHT + 1 \<and> 0 \<le> n \<and> n < i"
| "main_at PM_lock i n \<longleftrightarrow> LEFT \<le> i \<and> i \<le> RIGHT \<and> 0 \<le> n \<and> n < i"
| "main_at PM_test i n \<longleftrightarrow> LEFT \<le> i \<and> i \<le> RIGHT \<and> 0 \<le> n \<and> n < i"
| "main_at PM_unl i n \<longleftrightarrow> LEFT \<le> i \<and> i \<le> RIGHT \<and> 0 \<le> n \<and> n < i"
| "main_at PM_set i n \<longleftrightarrow> LEFT \<le> i \<and> i \<le> RIGHT \<and> n = 0"
| "main_at PM_signal i n \<longleftrightarrow> LEFT \<le> i \<and> i \<le> RIGHT \<and> 0 \<le> n \<and> n \<le> i"
| "main_at PM_unlock i n \<longleftrightarrow> LEFT \<le> i \<and> i \<le> RIGHT \<and> 0 \<le> n \<and> n \<le> i"
| "main_at PM_next i n \<longleftrightarrow> LEFT \<le> i \<and> i \<le> RIGHT \<and> 0 \<le> n \<and> n \<le> i"
| "main_at PM_flock i n \<longleftrightarrow> 0 \<le> n \<and> n \<le> RIGHT"
| "main_at PM_ftest i n \<longleftrightarrow> 0 \<le> n \<and> n \<le> RIGHT"
| "main_at PM_fwait i n \<longleftrightarrow> 0 < n \<and> n \<le> RIGHT"
| "main_at PM_end i n \<longleftrightarrow> n = 0"
| "main_at PM_bcast i n \<longleftrightarrow> n = - 1"
| "main_at PM_funlock i n \<longleftrightarrow> n = - 1"
| "main_at PM_join0 i n \<longleftrightarrow> n = - 1"
| "main_at PM_join i n \<longleftrightarrow> 0 \<le> i \<and> i \<le> THRNUM \<and> n = - 1"
| "main_at PM_jinc i n \<longleftrightarrow> 0 \<le> i \<and> i < THRNUM \<and> n = - 1"
| "main_at _ i n \<longleftrightarrow> False"

fun main_asn :: "(pool_pc, int) tstat \<Rightarrow> int \<Rightarrow> bool" where
  "main_asn (At p i) n = main_at p i n"
| "main_asn (Waits m p i) n \<longleftrightarrow> m = 0 \<and> p = PM_ftest \<and> 0 \<le> n \<and> n \<le> RIGHT"
| "main_asn (Wakes m p i) n \<longleftrightarrow> m = 0 \<and> p = PM_ftest \<and> 0 \<le> n \<and> n \<le> RIGHT"
| "main_asn _ n \<longleftrightarrow> False"

fun thr_at :: "pool_pc \<Rightarrow> int \<Rightarrow> int \<Rightarrow> bool" where
  "thr_at PT_lock i n \<longleftrightarrow> True"
| "thr_at PT_test i n \<longleftrightarrow> True"
| "thr_at PT_wait i n \<longleftrightarrow> n = 0"
| "thr_at PT_chk i n \<longleftrightarrow> n \<noteq> 0"
| "thr_at PT_quit i n \<longleftrightarrow> n = - 1"
| "thr_at PT_exit i n \<longleftrightarrow> n = - 1"
| "thr_at PT_take i n \<longleftrightarrow> 0 < n"
| "thr_at PT_bcast i n \<longleftrightarrow> n = 0"
| "thr_at PT_unlock i n \<longleftrightarrow> n = 0"
| "thr_at PT_mark i n \<longleftrightarrow> True"
| "thr_at PT_print i n \<longleftrightarrow> prime_mark i"
| "thr_at _ i n \<longleftrightarrow> False"

fun thr_asn :: "(pool_pc, int) tstat \<Rightarrow> int \<Rightarrow> bool" where
  "thr_asn (At p i) n = thr_at p i n"
| "thr_asn (Waits m p i) n \<longleftrightarrow> m = 0 \<and> p = PT_test"
| "thr_asn (Wakes m p i) n \<longleftrightarrow> m = 0 \<and> p = PT_test"
| "thr_asn Off n \<longleftrightarrow> True"
| "thr_asn Fin n \<longleftrightarrow> n = - 1"

definition pool_asn :: "nat \<Rightarrow> (pool_pc, int) tstat \<Rightarrow> pool_shared \<Rightarrow> bool" where
  "pool_asn t st s \<longleftrightarrow> (if t = 0 then main_asn st (num s) else thr_asn st (num s) \<and> - 1 \<le> num s)"

lemmas pool_defs = pool_prog_def pool_main_def pool_thr_prime_def

text \<open>Where each kind of instruction stands.\<close>

lemma pool_lock: "pool_prog busy t p i = Lock m q \<Longrightarrow>
    m = 0 \<and> (t = 0 \<and> (p = PM_lock \<and> q = PM_test \<or> p = PM_flock \<and> q = PM_ftest) \<or> t \<noteq> 0 \<and> p = PT_lock \<and> q = PT_test)"
  by (cases p) (auto simp: pool_defs split: if_splits)

lemma pool_unlock: "pool_prog busy t p i = Unlock m q \<Longrightarrow>
    m = 0 \<and> (t = 0 \<and> (p = PM_unl \<and> q = PM_lock \<or> p = PM_unlock \<and> q = PM_next \<or> p = PM_fwait \<and> q = PM_flock \<and> busy
        \<or> p = PM_funlock \<and> q = PM_join0)
      \<or> t \<noteq> 0 \<and> (p = PT_wait \<and> q = PT_lock \<and> busy \<or> p = PT_quit \<and> q = PT_exit \<or> p = PT_unlock \<and> q = PT_mark))"
  by (cases p) (auto simp: pool_defs split: if_splits)

lemma pool_wait: "pool_prog busy t p i = Wait m q \<Longrightarrow>
    m = 0 \<and> \<not> busy \<and> (t = 0 \<and> p = PM_fwait \<and> q = PM_ftest \<or> t \<noteq> 0 \<and> p = PT_wait \<and> q = PT_test)"
  by (cases p) (auto simp: pool_defs split: if_splits)

lemma pool_broadcast: "pool_prog busy t p i = Broadcast q \<Longrightarrow>
    t = 0 \<and> p = PM_bcast \<and> q = PM_funlock \<or> t \<noteq> 0 \<and> p = PT_bcast \<and> q = PT_unlock"
  by (cases p) (auto simp: pool_defs split: if_splits)

lemma pool_signal: "pool_prog busy t p i = Signal q \<Longrightarrow> t = 0 \<and> p = PM_signal \<and> q = PM_unlock"
  by (cases p) (auto simp: pool_defs split: if_splits)

lemma pool_spawn: "pool_prog busy t p i = Spawn u q e \<Longrightarrow> t = 0 \<and> p = PM_create \<and> u = nat i + 1 \<and> q = PM_inc \<and> e = PM_fail"
  by (cases p) (auto simp: pool_defs split: if_splits)

lemma pool_join: "pool_prog busy t p i = Join u q \<Longrightarrow> t = 0 \<and> p = PM_join \<and> u = nat i + 1 \<and> q = PM_jinc \<and> i < THRNUM"
  by (cases p) (auto simp: pool_defs split: if_splits)

lemma pool_leave: "pool_prog busy t p i = Leave \<Longrightarrow> t \<noteq> 0 \<and> p = PT_exit"
  by (cases p) (auto simp: pool_defs split: if_splits)

lemma pool_act: "pool_prog busy t p i = Act f \<Longrightarrow> pool_crit (fst (f sh)) = pool_crit p"
  by (cases p) (auto simp: pool_defs split: if_splits)

interpretation pool_monitor: monitor "pool_prog busy" pool_start pool_crit
  by unfold_locales
    (auto dest!: pool_lock pool_unlock pool_wait pool_broadcast pool_signal pool_spawn pool_join pool_leave
      simp: pool_act pool_start_def)

text \<open>The actions of \<open>main\<close> and of a thread, with what they leave in \<open>num\<close>.\<close>

lemma main_act_self:
  assumes "main_at p i (num s)" "pool_main busy p i = Act f" "f s = (q, j, s')"
  shows "main_at q j (num s')"
  using assms by (cases p) (auto simp: pool_main_def split: if_splits)

lemma thr_act_self:
  assumes "thr_at p i (num s)" "- 1 \<le> num s" "pool_thr_prime busy t p i = Act f" "f s = (q, j, s')"
  shows "thr_at q j (num s')"
  using assms by (cases p) (auto simp: pool_thr_prime_def split: if_splits)

lemma main_act_num:
  assumes "main_at p i (num s)" "pool_main busy p i = Act f" "f s = (q, j, s')"
  shows "num s' = num s \<or> pool_crit p \<and> num s = 0 \<and> (num s' = - 1 \<or> 0 < num s')"
  using assms by (cases p) (auto simp: pool_main_def split: if_splits)

lemma thr_act_num:
  assumes "thr_at p i (num s)" "pool_thr_prime busy t p i = Act f" "f s = (q, j, s')"
  shows "num s' = num s \<or> pool_crit p \<and> 0 < num s \<and> num s' = 0"
  using assms by (cases p) (auto simp: pool_thr_prime_def split: if_splits)

text \<open>Assertions of a thread outside the critical section are not disturbed.\<close>

lemma thr_at_stable: "thr_at p i 0 \<Longrightarrow> \<not> pool_crit p \<Longrightarrow> thr_at p i n"
  by (cases p) auto

lemma thr_at_taken: "thr_at p i n \<Longrightarrow> 0 < n \<Longrightarrow> \<not> pool_crit p \<Longrightarrow> thr_at p i 0"
  by (cases p) auto

lemma main_at_taken: "main_at p i n \<Longrightarrow> 0 < n \<Longrightarrow> \<not> pool_crit p \<Longrightarrow> main_at p i 0"
  by (cases p) auto

lemma thr_asn_stable: "thr_asn st 0 \<Longrightarrow> \<not> in_crit pool_crit st \<Longrightarrow> thr_asn st n"
  using thr_at_stable by (cases st) auto

lemma thr_asn_taken: "thr_asn st n \<Longrightarrow> 0 < n \<Longrightarrow> \<not> in_crit pool_crit st \<Longrightarrow> thr_asn st 0"
  using thr_at_taken by (cases st) auto

lemma main_asn_taken: "main_asn st n \<Longrightarrow> 0 < n \<Longrightarrow> \<not> in_crit pool_crit st \<Longrightarrow> main_asn st 0"
  using main_at_taken by (cases st) auto

interpretation pool: annotated "pool_prog busy" pool_start pool_crit pool_asn
proof (unfold_locales, goal_cases)
  case (1 t p l sh f q l' sh')
  then show ?case
    using main_act_self [of p l sh busy f q l' sh'] thr_act_self [of p l sh busy t f q l' sh']
      thr_act_num [of p l sh busy t f q l' sh']
    by (auto simp: pool_asn_def pool_prog_def split: if_splits)
next
  case (2 t p l sh f q l' sh' u st)
  show ?case
  proof (cases "t = 0")
    case True
    then have m: "main_at p l (num sh)" "pool_main busy p l = Act f" using 2 by (auto simp: pool_asn_def pool_prog_def)
    have u: "u \<noteq> 0" "thr_asn st (num sh)" "- 1 \<le> num sh" using 2 True by (auto simp: pool_asn_def split: if_splits)
    from main_act_num [OF m 2(3)] show ?thesis
      using u 2(6) thr_asn_stable [of st "num sh'"] by (auto simp: pool_asn_def)
  next
    case False
    then have m: "thr_at p l (num sh)" "pool_thr_prime busy t p l = Act f" using 2 by (auto simp: pool_asn_def pool_prog_def)
    from thr_act_num [OF m 2(3)] show ?thesis
      using 2(5,6) thr_asn_taken [of st "num sh"] main_asn_taken [of st "num sh"] by (auto simp: pool_asn_def)
  qed
qed (auto dest!: pool_lock pool_unlock pool_wait pool_broadcast pool_signal pool_spawn pool_join pool_leave
      simp: pool_asn_def pool_start_def split: if_splits)

section \<open>The invariant\<close>

text \<open>How many threads \<open>main\<close> has created and joined, and the next number it will put.\<close>

fun created :: "(pool_pc, int) tstat \<Rightarrow> int" where
  "created (At PM_for i) = i"
| "created (At PM_create i) = i"
| "created (At PM_fail i) = i"
| "created (At PM_inc i) = i + 1"
| "created _ = THRNUM"

fun joined :: "(pool_pc, int) tstat \<Rightarrow> int" where
  "joined (At PM_join i) = i"
| "joined (At PM_jinc i) = i + 1"
| "joined _ = 0"

fun upcoming :: "(pool_pc, int) tstat \<Rightarrow> int" where
  "upcoming (At PM_for i) = LEFT"
| "upcoming (At PM_create i) = LEFT"
| "upcoming (At PM_inc i) = LEFT"
| "upcoming (At PM_fail i) = LEFT"
| "upcoming (At PM_put i) = i"
| "upcoming (At PM_lock i) = i"
| "upcoming (At PM_test i) = i"
| "upcoming (At PM_unl i) = i"
| "upcoming (At PM_set i) = i"
| "upcoming (At PM_signal i) = i + 1"
| "upcoming (At PM_unlock i) = i + 1"
| "upcoming (At PM_next i) = i + 1"
| "upcoming _ = RIGHT + 1"

text \<open>The primes a thread has taken and not yet printed, and the one that waits in \<open>num\<close>.\<close>

fun in_hand :: "(pool_pc, int) tstat \<Rightarrow> int multiset" where
  "in_hand (At PT_bcast i) = (if prime_mark i then {#i#} else {#})"
| "in_hand (At PT_unlock i) = (if prime_mark i then {#i#} else {#})"
| "in_hand (At PT_mark i) = (if prime_mark i then {#i#} else {#})"
| "in_hand (At PT_print i) = (if prime_mark i then {#i#} else {#})"
| "in_hand _ = {#}"

definition pending :: "int \<Rightarrow> int multiset" where
  "pending n = (if 0 < n \<and> prime_mark n then {#n#} else {#})"

definition marked :: "int \<Rightarrow> int multiset" where
  "marked n = mset (filter prime_mark [LEFT..n - 1])"

definition pool_count :: "(pool_pc, int, pool_shared) sys \<Rightarrow> bool" where
  "pool_count s \<longleftrightarrow> mset (map snd (out (shared s))) + (\<Sum>t \<in> {1..4}. in_hand (thr s ! t)) + pending (num (shared s))
     = marked (upcoming (thr s ! 0))"

definition pool_made :: "(pool_pc, int, pool_shared) sys \<Rightarrow> bool" where
  "pool_made s \<longleftrightarrow> (\<forall>t \<in> {1..4}. (thr s ! t = Off \<longleftrightarrow> created (thr s ! 0) < int t)
     \<and> (int t \<le> joined (thr s ! 0) \<longrightarrow> thr s ! t = Fin))"

text \<open>Nobody waits in vain.\<close>

definition pool_waits :: "bool \<Rightarrow> (pool_pc, int, pool_shared) sys \<Rightarrow> bool" where
  "pool_waits busy s \<longleftrightarrow>
     (0 < num (shared s) \<longrightarrow> (\<exists>i. thr s ! 0 = At PM_signal i) \<or> (\<exists>t \<in> {1..4}. live (thr s ! t)))
   \<and> (waiting (thr s ! 0) \<and> num (shared s) = 0 \<longrightarrow> (\<exists>t \<in> {1..4}. \<exists>i. thr s ! t = At PT_bcast i))
   \<and> (num (shared s) = - 1 \<and> (\<forall>i. thr s ! 0 \<noteq> At PM_bcast i) \<longrightarrow> (\<forall>t \<in> {1..4}. \<not> waiting (thr s ! t)))
   \<and> (busy \<longrightarrow> (\<forall>t \<le> 4. \<not> waiting (thr s ! t)))"

definition pool_inv :: "bool \<Rightarrow> (pool_pc, int, pool_shared) sys \<Rightarrow> bool" where
  "pool_inv busy s \<longleftrightarrow> length (thr s) = 5 \<and> excl pool_crit s \<and> pool.asn_all s \<and> pool_made s \<and> pool_count s
     \<and> pool_waits busy s \<and> (halted s = Some 0 \<longrightarrow> joined (thr s ! 0) = THRNUM)"

lemma created_wake [simp]: "created (wake st) = created st" "joined (wake st) = joined st" "upcoming (wake st) = upcoming st"
  "in_hand (wake st) = in_hand st"
  by (cases st; simp)+

lemma pool_inv_init: "pool_inv busy prime_pool_init"
proof -
  have t: "{1..4} = {1, 2, 3, 4::nat}" "{..4} = {0, 1, 2, 3, 4::nat}" by auto
  have th: "thr prime_pool_init = [At PM_for 0, Off, Off, Off, Off]" "num (shared prime_pool_init) = 0" "out (shared prime_pool_init) = []"
    "held prime_pool_init = (\<lambda>_. None)" "halted prime_pool_init = None"
    by (simp_all add: prime_pool_init_def numeral_eq_Suc)
  have c: "u = 0 \<or> u = 1 \<or> u = 2 \<or> u = 3 \<or> u = 4" if "u < 5" for u :: nat using that by auto
  have "pool_asn u ([At PM_for 0, Off, Off, Off, Off] ! u) (shared prime_pool_init)" if "u < 5" for u
    using c [OF that] th(2) by (auto simp: pool_asn_def)
  then have "pool.asn_all prime_pool_init" unfolding pool.asn_all_def th by simp
  note asn = this
  have "\<not> in_crit pool_crit ([At PM_for 0, Off, Off, Off, Off] ! u) \<and> wait_ok pool_crit ([At PM_for 0, Off, Off, Off, Off] ! u)"
    if "u < 5" for u
    using c [OF that] by auto
  moreover have "length [At PM_for 0, Off, Off, Off, Off] = 5" by simp
  ultimately have "excl pool_crit prime_pool_init" unfolding excl_def th by (metis option.distinct(1))
  moreover have "pool_made prime_pool_init" unfolding pool_made_def th t by simp
  moreover have "\<not> waiting ([At PM_for 0, Off, Off, Off, Off] ! u)" if "u \<le> 4" for u
    using c [of u] that by auto
  then have "pool_waits busy prime_pool_init" unfolding pool_waits_def th by auto
  moreover have "pool_count prime_pool_init" unfolding pool_count_def th t by (simp add: pending_def marked_def)
  ultimately show ?thesis using asn unfolding pool_inv_def th by simp
qed

lemma pool_spawn_off:
  assumes "pool_inv busy s"
  shows "pool_monitor.spawn_off busy s"
proof -
  have l: "length (thr s) = 5" using assms by (simp add: pool_inv_def)
  have "u < 5 \<and> thr s ! u = Off" if t: "thr s ! t = At p i" "pool_prog busy t p i = Spawn u q e" for t p i u q e
  proof -
    have p: "t = 0" "p = PM_create" "u = nat i + 1" using pool_spawn [OF t(2)] by auto
    have "0 < length (thr s) \<longrightarrow> pool_asn 0 (thr s ! 0) (shared s)" using assms unfolding pool_inv_def pool.asn_all_def by blast
    then have "main_at PM_create i (num (shared s))" using p t(1) l by (simp add: pool_asn_def)
    then have "u \<in> {1..4}" "i < int u" using p(3) by auto
    then show ?thesis using assms p t(1) unfolding pool_inv_def pool_made_def by auto
  qed
  then show ?thesis using l unfolding pool_monitor.spawn_off_def by auto
qed

text \<open>The facts about a state and a step from it.\<close>

lemma pool_facts:
  assumes "pool_inv busy s"
  shows "length (thr s) = 5" "main_asn (thr s ! 0) (num (shared s))"
    "t \<in> {1..4} \<Longrightarrow> thr_asn (thr s ! t) (num (shared s))" "- 1 \<le> num (shared s)"
proof -
  have a: "\<forall>t < 5. pool_asn t (thr s ! t) (shared s)" "length (thr s) = 5"
    using assms by (auto simp: pool_inv_def pool.asn_all_def)
  show "length (thr s) = 5" by (rule a)
  show "main_asn (thr s ! 0) (num (shared s))" using a(1) by (force simp: pool_asn_def)
  show "t \<in> {1..4} \<Longrightarrow> thr_asn (thr s ! t) (num (shared s))" using a(1) by (force simp: pool_asn_def)
  show "- 1 \<le> num (shared s)" using a(1) [rule_format, of 1] by (simp add: pool_asn_def)
qed

lemma pool_frame:
  assumes f: "fire (pool_prog busy) pool_start c t s = Some s'" and l: "length (thr s) = 5"
    and u: "u < 5" "u \<noteq> t" "u = 0 \<or> t \<noteq> 0 \<or> (\<forall>i. thr s ! 0 \<noteq> At PM_create i)"
  shows "thr s' ! u = thr s ! u \<or> waiting (thr s ! u) \<and> thr s' ! u = wake (thr s ! u)"
proof (rule fire_frame [OF f u(2)])
  fix p i v q e
  assume "thr s ! t = At p i" "pool_prog busy t p i = Spawn v q e"
  then have "t = 0 \<and> p = PM_create \<and> v = nat i + 1" using pool_spawn by blast
  then show "u \<noteq> v" using u(2,3) \<open>thr s ! t = At p i\<close> by auto
qed (use u l in simp)

lemma frame_simps:
  assumes "st' = st \<or> waiting st \<and> st' = wake st"
  shows "created st' = created st" "joined st' = joined st" "upcoming st' = upcoming st" "in_hand st' = in_hand st"
    "st' = Off \<longleftrightarrow> st = Off" "st' = Fin \<longleftrightarrow> st = Fin" "live st \<Longrightarrow> live st'" "waiting st' \<Longrightarrow> waiting st" "st = At p i \<Longrightarrow> st' = At p i"
    "st' = At p i \<longleftrightarrow> st = At p i"
  using assms by (auto simp: live_wake)

text \<open>A step of a thread other than \<open>main\<close>.\<close>

lemma thr_step_count:
  assumes "thr_at p i (num sh)" "after c p i (pool_thr_prime busy t p i) sh = (st, sh')"
  shows "mset (map snd (out sh')) + in_hand st + pending (num sh')
    = mset (map snd (out sh)) + in_hand (At p i) + pending (num sh)"
  using assms by (cases p) (auto simp: pool_thr_prime_def pending_def split: if_splits)

lemma pool_count_thr:
  assumes i: "pool_inv busy s" and t: "t \<in> {1..4}" and f: "fire (pool_prog busy) pool_start c t s = Some s'"
  shows "pool_count s' \<and> pool_made s'"
proof -
  have l: "length (thr s) = 5" "t \<noteq> 0" "t < 5" using pool_facts(1) [OF i] t by auto
  have fr: "thr s' ! u = thr s ! u \<or> waiting (thr s ! u) \<and> thr s' ! u = wake (thr s ! u)" if "u < 5" "u \<noteq> t" for u
    by (rule pool_frame [OF f l(1) that]) (use l in simp)
  note fs = frame_simps [OF fr]
  have own: "mset (map snd (out (shared s'))) + in_hand (thr s' ! t) + pending (num (shared s'))
      = mset (map snd (out (shared s))) + in_hand (thr s ! t) + pending (num (shared s))
    \<and> thr s ! t \<noteq> Off \<and> thr s ! t \<noteq> Fin \<and> thr s' ! t \<noteq> Off"
  proof (cases "thr s ! t")
    case (At p k)
    have "thr_at p k (num (shared s))" using pool_facts(3) [OF i t] At by simp
    moreover have "thr s' ! t = fst (after c p k (pool_thr_prime busy t p k) (shared s))
      \<and> shared s' = snd (after c p k (pool_thr_prime busy t p k) (shared s))"
      using fire_after [OF f At] l by (simp add: pool_prog_def)
    ultimately have "mset (map snd (out (shared s'))) + in_hand (thr s' ! t) + pending (num (shared s'))
      = mset (map snd (out (shared s))) + in_hand (thr s ! t) + pending (num (shared s))"
      using thr_step_count [of p k "shared s" c busy t "thr s' ! t" "shared s'"] At by simp
    moreover have "fst (after c p k (pool_thr_prime busy t p k) (shared s)) \<noteq> Off"
      by (cases "pool_thr_prime busy t p k") (auto split: prod.split)
    ultimately show ?thesis using At \<open>thr s' ! t = _ \<and> _\<close> by simp
  next
    case (Waits m p k)
    then show ?thesis using fire_waits [OF f Waits] by simp
  next
    case (Wakes m p k)
    have "p = PT_test" using pool_facts(3) [OF i t] Wakes by simp
    then show ?thesis using fire_wakes [OF f Wakes] Wakes by simp
  qed (use f l in \<open>auto simp: fire_def split: if_splits\<close>)
  have z: "(0::nat) < 5" "0 \<noteq> t" using l by simp_all
  note fz = fs [OF z]
  have "(\<Sum>u \<in> {1..4}. in_hand (thr s' ! u)) = in_hand (thr s' ! t) + (\<Sum>u \<in> {1..4} - {t}. in_hand (thr s ! u))"
    "(\<Sum>u \<in> {1..4}. in_hand (thr s ! u)) = in_hand (thr s ! t) + (\<Sum>u \<in> {1..4} - {t}. in_hand (thr s ! u))"
    by (rule sum_other [OF _ t]; use fs(4) in simp)+
  note sums = this
  let ?S = "\<Sum>u \<in> {1..4} - {t}. in_hand (thr s ! u)"
  have "mset (map snd (out (shared s'))) + (in_hand (thr s' ! t) + ?S) + pending (num (shared s'))
    = mset (map snd (out (shared s'))) + in_hand (thr s' ! t) + pending (num (shared s')) + ?S" by (simp only: ac_simps)
  also have "\<dots> = mset (map snd (out (shared s))) + in_hand (thr s ! t) + pending (num (shared s)) + ?S" using own by (simp only:)
  also have "\<dots> = mset (map snd (out (shared s))) + (in_hand (thr s ! t) + ?S) + pending (num (shared s))" by (simp only: ac_simps)
  also have "\<dots> = marked (upcoming (thr s ! 0))" using i sums(2) by (simp only: pool_inv_def pool_count_def)
  finally have "pool_count s'" unfolding pool_count_def sums(1) fz(3) .
  moreover have "pool_made s'"
    unfolding pool_made_def
  proof
    fix u :: nat assume u: "u \<in> {1..4}"
    have m: "(thr s ! u = Off \<longleftrightarrow> created (thr s ! 0) < int u) \<and> (int u \<le> joined (thr s ! 0) \<longrightarrow> thr s ! u = Fin)"
      using i u unfolding pool_inv_def pool_made_def by blast
    show "(thr s' ! u = Off \<longleftrightarrow> created (thr s' ! 0) < int u) \<and> (int u \<le> joined (thr s' ! 0) \<longrightarrow> thr s' ! u = Fin)"
    proof (cases "u = t")
      case True
      then show ?thesis using m own fz(1,2) by simp
    next
      case False
      then show ?thesis using m fz(1,2) fs(5,6) [of u] u by simp
    qed
  qed
  ultimately show ?thesis by blast
qed

text \<open>A step of \<open>main\<close>.\<close>

lemma marked_Suc: "LEFT \<le> i \<Longrightarrow> marked (i + 1) = marked i + pending i"
  by (simp add: marked_def pending_def upto_rec2)

lemma main_step_count:
  assumes "main_at p i (num sh)" "after c p i (pool_main busy p i) sh = (st, sh')"
    "\<forall>q j. st = At q j \<longrightarrow> main_at q j (num sh')"
  shows "out sh' = out sh \<and> marked (upcoming st) + pending (num sh) = marked (upcoming (At p i)) + pending (num sh')"
proof (cases "p = PM_put \<and> \<not> i \<le> RIGHT")
  case True
  then have "i = RIGHT + 1" using assms(1) by auto
  then show ?thesis using assms True by (auto simp: pool_main_def)
next
  case False
  then show ?thesis using assms by (cases p) (auto simp: pool_main_def marked_Suc pending_def split: if_splits)
qed

lemma main_step_made:
  assumes "main_at p i (num sh)" "p \<noteq> PM_create" "after c p i (pool_main busy p i) sh = (st, sh')"
  shows "created st = created (At p i) \<and> (joined st = joined (At p i) \<or> p = PM_join \<and> i < THRNUM \<and> st = At PM_jinc i)"
  using assms by (cases p) (auto simp: pool_main_def split: if_splits)

lemma pool_main_at:
  assumes i: "pool_inv busy s" and p: "thr s ! 0 = At p i" and f: "fire (pool_prog busy) pool_start c 0 s = Some s'"
    and a: "main_asn (thr s' ! 0) (num (shared s'))"
  shows "main_at p i (num (shared s))" "after c p i (pool_main busy p i) (shared s) = (thr s' ! 0, shared s')"
    "\<forall>q j. thr s' ! 0 = At q j \<longrightarrow> main_at q j (num (shared s'))"
  using pool_facts(2) [OF i] p fire_after [OF f p] a by (auto simp: pool_prog_def prod_eq_iff)

lemma pool_count_create:
  assumes i: "pool_inv busy s" and f: "fire (pool_prog busy) pool_start c 0 s = Some s'"
    and a: "main_asn (thr s' ! 0) (num (shared s'))" and k: "thr s ! 0 = At PM_create k"
  shows "pool_count s' \<and> pool_made s'"
proof -
  have l: "length (thr s) = 5" by (rule pool_facts [OF i])
  note m = pool_main_at [OF i k f a]
  have kr: "0 \<le> k" "k < THRNUM" using m(1) by auto
  let ?u = "nat k + 1"
  have prog: "pool_prog busy 0 PM_create k = Spawn ?u PM_inc PM_fail" by (simp add: pool_prog_def pool_main_def)
  have made: "\<forall>t \<in> {1..4}. thr s ! t = Off \<longleftrightarrow> k < int t" using i k unfolding pool_inv_def pool_made_def by auto
  have u: "?u \<in> {1..4}" "thr s ! ?u = Off" "?u \<noteq> 0" "?u < length (thr s)" using made kr l by auto
  have z: "thr s' ! 0 = At (if c = Fail then PM_fail else PM_inc) k" "shared s' = shared s"
    using m(2) by (auto simp: pool_main_def)
  have su: "thr s' ! ?u = (if c = Fail then Off else At PT_lock 0)"
    using fire_spawn [OF f k prog u(3,4)] u(2) by (simp add: pool_start_def)
  have fr: "thr s' ! v = thr s ! v \<or> waiting (thr s ! v) \<and> thr s' ! v = wake (thr s ! v)" if "v < 5" "v \<noteq> 0" "v \<noteq> ?u" for v
    by (rule fire_frame [OF f that(2)]) (use that l k prog in auto)
  note fs = frame_simps [OF fr]
  have h: "in_hand (thr s' ! v) = in_hand (thr s ! v)" if "v \<in> {1..4}" for v
    using fs(4) [of v] su u(2) that by (cases "v = ?u") auto
  have "(\<Sum>t \<in> {1..4}. in_hand (thr s' ! t)) = (\<Sum>t \<in> {1..4}. in_hand (thr s ! t))" by (rule sum.cong) (use h in auto)
  then have "pool_count s'" using i k z unfolding pool_inv_def pool_count_def by simp
  moreover have "(thr s' ! v = Off \<longleftrightarrow> created (thr s' ! 0) < int v) \<and> (int v \<le> joined (thr s' ! 0) \<longrightarrow> thr s' ! v = Fin)"
    if v: "v \<in> {1..4}" for v
  proof (cases "v = ?u")
    case True
    then show ?thesis using su z(1) kr by simp
  next
    case False
    then have "thr s' ! v = Off \<longleftrightarrow> thr s ! v = Off" using fs(5) [of v] v by simp
    moreover have "k < int v \<longleftrightarrow> k + 1 < int v" using False kr(1) by auto
    ultimately show ?thesis using bspec [OF made v] z(1) v by simp
  qed
  ultimately show ?thesis unfolding pool_made_def by blast
qed

lemma pool_count_main:
  assumes i: "pool_inv busy s" and f: "fire (pool_prog busy) pool_start c 0 s = Some s'"
    and a: "main_asn (thr s' ! 0) (num (shared s'))" and nc: "\<not> (\<exists>k. thr s ! 0 = At PM_create k)"
  shows "pool_count s' \<and> pool_made s'"
proof -
  have l: "length (thr s) = 5" by (rule pool_facts [OF i])
  have fr: "thr s' ! v = thr s ! v \<or> waiting (thr s ! v) \<and> thr s' ! v = wake (thr s ! v)" if "v < 5" "v \<noteq> 0" for v
    by (rule pool_frame [OF f l that]) (use nc in blast)
  note fs = frame_simps [OF fr]
  have sum: "(\<Sum>t \<in> {1..4}. in_hand (thr s' ! t)) = (\<Sum>t \<in> {1..4}. in_hand (thr s ! t))"
    by (rule sum.cong) (use fs(4) in auto)
  have cnt: "mset (map snd (out (shared s))) + (\<Sum>t \<in> {1..4}. in_hand (thr s ! t)) + pending (num (shared s)) = marked (upcoming (thr s ! 0))"
    using i by (simp add: pool_inv_def pool_count_def)
  have own: "out (shared s') = out (shared s)
      \<and> marked (upcoming (thr s' ! 0)) + pending (num (shared s)) = marked (upcoming (thr s ! 0)) + pending (num (shared s'))
      \<and> created (thr s' ! 0) = created (thr s ! 0)
      \<and> (joined (thr s' ! 0) = joined (thr s ! 0)
         \<or> (\<exists>k. thr s ! 0 = At PM_join k \<and> thr s' ! 0 = At PM_jinc k \<and> 0 \<le> k \<and> k < THRNUM \<and> thr s ! (nat k + 1) = Fin))"
  proof (cases "thr s ! 0")
    case (At p k)
    note m = pool_main_at [OF i At f a]
    have "p \<noteq> PM_create" using nc At by blast
    note mm = main_step_made [OF m(1) this m(2)]
    have "thr s ! (nat k + 1) = Fin" "0 \<le> k" if "p = PM_join" "k < THRNUM"
    proof -
      have "exec pool_start c 0 k (pool_prog busy 0 p k) s = Some s'" using f At by (simp add: fire_def split: if_splits)
      then show "thr s ! (nat k + 1) = Fin" using that by (simp add: exec_def pool_prog_def pool_main_def split: if_splits)
      show "0 \<le> k" using m(1) that by simp
    qed
    then show ?thesis using main_step_count [OF m] mm At by auto
  next
    case (Waits n p k)
    then show ?thesis using fire_waits [OF f Waits] by simp
  next
    case (Wakes n p k)
    have "p = PM_ftest" using pool_facts(2) [OF i] Wakes by simp
    then show ?thesis using fire_wakes [OF f Wakes] Wakes by simp
  qed (use f in \<open>auto simp: fire_def split: if_splits\<close>)
  have "mset (map snd (out (shared s'))) + (\<Sum>t \<in> {1..4}. in_hand (thr s' ! t)) + pending (num (shared s')) + pending (num (shared s))
    = (mset (map snd (out (shared s))) + (\<Sum>t \<in> {1..4}. in_hand (thr s ! t)) + pending (num (shared s))) + pending (num (shared s'))"
    using own sum by (simp only: ac_simps)
  also have "\<dots> = marked (upcoming (thr s' ! 0)) + pending (num (shared s))" using cnt own by (simp only:)
  finally have "pool_count s'" unfolding pool_count_def by (simp only: add_right_cancel)
  moreover have "(thr s' ! v = Off \<longleftrightarrow> created (thr s' ! 0) < int v) \<and> (int v \<le> joined (thr s' ! 0) \<longrightarrow> thr s' ! v = Fin)"
    if v: "v \<in> {1..4}" for v
  proof -
    have m: "(thr s ! v = Off \<longleftrightarrow> created (thr s ! 0) < int v) \<and> (int v \<le> joined (thr s ! 0) \<longrightarrow> thr s ! v = Fin)"
      using i v unfolding pool_inv_def pool_made_def by blast
    have "int v \<le> joined (thr s' ! 0) \<longrightarrow> thr s ! v = Fin"
    proof (cases "joined (thr s' ! 0) = joined (thr s ! 0)")
      case False
      then obtain k where k: "thr s ! 0 = At PM_join k" "thr s' ! 0 = At PM_jinc k" "0 \<le> k" "thr s ! (nat k + 1) = Fin"
        using own by auto
      have "v = nat k + 1" if "int v = k + 1" using that k(3) by auto
      then show ?thesis using k m by (cases "int v = k + 1") auto
    qed (use m in simp)
    then show ?thesis using m own fs(5,6) [of v] v by simp
  qed
  ultimately show ?thesis unfolding pool_made_def by blast
qed

text \<open>Who waits after a step.\<close>

lemma pool_waitsD:
  assumes "pool_waits busy s"
  shows "0 < num (shared s) \<Longrightarrow> (\<exists>i. thr s ! 0 = At PM_signal i) \<or> (\<exists>t \<in> {1..4}. live (thr s ! t))"
    "waiting (thr s ! 0) \<Longrightarrow> num (shared s) = 0 \<Longrightarrow> \<exists>t \<in> {1..4}. \<exists>i. thr s ! t = At PT_bcast i"
    "num (shared s) = - 1 \<Longrightarrow> \<forall>i. thr s ! 0 \<noteq> At PM_bcast i \<Longrightarrow> t \<in> {1..4} \<Longrightarrow> \<not> waiting (thr s ! t)"
    "busy \<Longrightarrow> t \<le> 4 \<Longrightarrow> \<not> waiting (thr s ! t)"
  using assms unfolding pool_waits_def by blast+

lemma thr_step_waits:
  assumes "thr_at p i (num sh)" "after c p i (pool_thr_prime busy t p i) sh = (st, sh')"
  shows "(num sh' = num sh \<or> 0 < num sh \<and> num sh' = 0 \<and> p = PT_take \<and> (busy \<or> (\<exists>j. st = At PT_bcast j)))
    \<and> (waiting st \<longrightarrow> \<not> busy \<and> num sh = 0) \<and> (\<not> live st \<longrightarrow> num sh = - 1 \<or> num sh = 0)"
  using assms by (cases p) (auto simp: pool_thr_prime_def split: if_splits)

lemma pool_waits_thr:
  assumes i: "pool_inv busy s" and t: "t \<in> {1..4}" and f: "fire (pool_prog busy) pool_start c t s = Some s'"
  shows "pool_waits busy s'"
proof -
  have l: "length (thr s) = 5" "t \<noteq> 0" "t < 5" using pool_facts(1) [OF i] t by auto
  have w: "pool_waits busy s" using i by (simp add: pool_inv_def)
  note w = pool_waitsD [OF w]
  have fr: "thr s' ! u = thr s ! u \<or> waiting (thr s ! u) \<and> thr s' ! u = wake (thr s ! u)" if "u < 5" "u \<noteq> t" for u
    by (rule pool_frame [OF f l(1) that]) (use l in simp)
  note fs = frame_simps [OF fr]
  have z: "(0::nat) < 5" "0 \<noteq> t" using l by simp_all
  have own: "(num (shared s') = num (shared s)
      \<or> 0 < num (shared s) \<and> num (shared s') = 0 \<and> (busy \<or> (\<exists>j. thr s' ! t = At PT_bcast j)))
    \<and> (waiting (thr s' ! t) \<longrightarrow> \<not> busy \<and> num (shared s) = 0) \<and> (\<not> live (thr s' ! t) \<longrightarrow> num (shared s) = - 1 \<or> num (shared s) = 0)"
  proof (cases "thr s ! t")
    case (At p k)
    have "thr_at p k (num (shared s))" using pool_facts(3) [OF i t] At by simp
    moreover have "after c p k (pool_thr_prime busy t p k) (shared s) = (thr s' ! t, shared s')"
      using fire_after [OF f At] l by (simp add: pool_prog_def prod_eq_iff)
    ultimately show ?thesis using thr_step_waits by blast
  next
    case (Waits m p k)
    then show ?thesis using fire_waits [OF f Waits] by simp
  next
    case (Wakes m p k)
    then show ?thesis using fire_wakes [OF f Wakes] by simp
  qed (use f l in \<open>auto simp: fire_def split: if_splits\<close>)
  have one: "(\<exists>i. thr s' ! 0 = At PM_signal i) \<or> (\<exists>t \<in> {1..4}. live (thr s' ! t))" if n: "0 < num (shared s')"
  proof -
    have n: "0 < num (shared s)" "live (thr s' ! t)" using n own by auto
    then show ?thesis using t by blast
  qed
  have two: "\<exists>u \<in> {1..4}. \<exists>i. thr s' ! u = At PT_bcast i" if n: "waiting (thr s' ! 0)" "num (shared s') = 0"
  proof (cases "num (shared s) = 0")
    case True
    then obtain u j where u: "u \<in> {1..4}" "thr s ! u = At PT_bcast j" using w(2) fs(8) [OF z n(1)] by blast
    have "u \<noteq> t"
    proof
      assume "u = t"
      then have "pool_prog busy t PT_bcast j = Broadcast PT_unlock" "thr s ! t = At PT_bcast j"
        using l u(2) by (simp_all add: pool_prog_def pool_thr_prime_def)
      then show False using fire_broadcast [OF f, of PT_bcast j PT_unlock 0] n(1) l by simp
    qed
    then show ?thesis using fs(9) [of u, OF _ _ u(2)] u(1) by auto
  next
    case False
    have "\<not> busy" using w(4) [of 0] fs(8) [OF z n(1)] by auto
    then show ?thesis using own n(2) False t by auto
  qed
  have three: "\<not> waiting (thr s' ! u)" if n: "num (shared s') = - 1" "\<forall>i. thr s' ! 0 \<noteq> At PM_bcast i" "u \<in> {1..4}" for u
  proof -
    have "num (shared s) = - 1" "\<not> waiting (thr s' ! t)" using own n(1) by auto
    moreover have "\<forall>i. thr s ! 0 \<noteq> At PM_bcast i" using n(2) fs(10) [OF z] by blast
    ultimately show ?thesis using w(3) [of u] fs(8) [of u] n(3) by (cases "u = t") auto
  qed
  have "\<not> waiting (thr s' ! u)" if "busy" "u \<le> 4" for u
    using w(4) [OF that] own fs(8) [of u] that by (cases "u = t") auto
  then show ?thesis using one two three unfolding pool_waits_def by blast
qed

lemma main_step_waits:
  assumes "main_at p i (num sh)" "after c p i (pool_main busy p i) sh = (st, sh')"
  shows "(num sh' = num sh \<or> p = PM_set \<and> num sh = 0 \<and> 0 < num sh' \<and> (busy \<or> st = At PM_signal i)
      \<or> num sh = 0 \<and> num sh' = - 1 \<and> (busy \<or> st = At PM_bcast i))
    \<and> (waiting st \<longrightarrow> \<not> busy \<and> 0 < num sh)"
  using assms by (cases p) (auto simp: pool_main_def split: if_splits)

lemma pool_waits_create:
  assumes i: "pool_inv busy s" and f: "fire (pool_prog busy) pool_start c 0 s = Some s'" and k: "thr s ! 0 = At PM_create k"
  shows "pool_waits busy s'"
proof -
  have l: "length (thr s) = 5" by (rule pool_facts [OF i])
  have m: "main_at PM_create k (num (shared s))" using pool_facts(2) [OF i] k by simp
  have prog: "pool_prog busy 0 PM_create k = Spawn (nat k + 1) PM_inc PM_fail" by (simp add: pool_prog_def pool_main_def)
  have z: "\<not> waiting (thr s' ! 0)" "num (shared s') = 0" using fire_after [OF f k] m prog by simp_all
  have "\<not> waiting (thr s' ! u)" if "busy" "u \<le> 4" for u
  proof -
    have w: "\<not> waiting (thr s ! u)" using i that unfolding pool_inv_def pool_waits_def by blast
    consider "u = 0" | "u = nat k + 1" | "u \<noteq> 0" "u \<noteq> nat k + 1" by blast
    then show ?thesis
    proof cases
      case 2
      then show ?thesis using fire_spawn [OF f k prog] w that(2) l by (auto simp: pool_start_def)
    next
      case 3
      then show ?thesis using fire_frame [OF f 3(1)] w k prog that(2) l by auto
    qed (use z in simp)
  qed
  then show ?thesis using z unfolding pool_waits_def by auto
qed

lemma pool_waits_main:
  assumes i: "pool_inv busy s" and f: "fire (pool_prog busy) pool_start c 0 s = Some s'"
    and a: "main_asn (thr s' ! 0) (num (shared s'))" and nc: "\<not> (\<exists>k. thr s ! 0 = At PM_create k)"
  shows "pool_waits busy s'"
proof -
  have l: "length (thr s) = 5" by (rule pool_facts [OF i])
  have w: "pool_waits busy s" "pool_made s" using i by (simp_all add: pool_inv_def)
  note w = pool_waitsD [OF w(1)] w(2)
  have fr: "thr s' ! u = thr s ! u \<or> waiting (thr s ! u) \<and> thr s' ! u = wake (thr s ! u)" if "u < 5" "u \<noteq> 0" for u
    by (rule pool_frame [OF f l that]) (use nc in blast)
  note fs = frame_simps [OF fr]
  have own: "(num (shared s') = num (shared s)
      \<or> (\<exists>k. thr s ! 0 = At PM_set k) \<and> num (shared s) = 0 \<and> 0 < num (shared s') \<and> (busy \<or> (\<exists>j. thr s' ! 0 = At PM_signal j))
      \<or> num (shared s) = 0 \<and> num (shared s') = - 1 \<and> (busy \<or> (\<exists>j. thr s' ! 0 = At PM_bcast j)))
    \<and> (waiting (thr s' ! 0) \<longrightarrow> \<not> busy \<and> 0 < num (shared s))"
  proof (cases "thr s ! 0")
    case (At p k)
    from main_step_waits [OF pool_main_at(1,2) [OF i At f a]] show ?thesis using At by blast
  next
    case (Waits m p k)
    then show ?thesis using fire_waits [OF f Waits] by simp
  next
    case (Wakes m p k)
    then show ?thesis using fire_wakes [OF f Wakes] by simp
  qed (use f in \<open>auto simp: fire_def split: if_splits\<close>)
  have alive: "live (thr s' ! 1)" if "created (thr s ! 0) = THRNUM" "0 \<le> num (shared s)" "\<not> waiting (thr s ! 1)"
  proof -
    have "thr s ! 1 \<noteq> Off" using w(5) that(1) unfolding pool_made_def by auto
    moreover have "thr s ! 1 \<noteq> Fin" using pool_facts(3) [OF i, of 1] that(2) by auto
    ultimately show ?thesis using fs(7) [of 1] that(3) by (simp add: live_iff)
  qed
  have one: "(\<exists>i. thr s' ! 0 = At PM_signal i) \<or> (\<exists>t \<in> {1..4}. live (thr s' ! t))" if n: "0 < num (shared s')"
  proof (cases "num (shared s') = num (shared s)")
    case True
    show ?thesis
    proof (cases "\<exists>k. thr s ! 0 = At PM_signal k")
      case True
      then obtain k where k: "thr s ! 0 = At PM_signal k" by blast
      have prog: "pool_prog busy 0 PM_signal k = Signal PM_unlock" by (simp add: pool_prog_def pool_main_def)
      show ?thesis
      proof (cases "waiting (thr s ! 1)")
        case True
        obtain v where v: "v < 5" "v \<noteq> 0" "waiting (thr s ! v)" "thr s' ! v = wake (thr s ! v)"
          using fire_signal [OF f k prog _ True] l by auto
        then have "v \<in> {1..4}" "live (thr s' ! v)" by (auto simp: live_wake)
        then show ?thesis by blast
      next
        case False
        then have "live (thr s' ! 1)" using alive k n \<open>num (shared s') = num (shared s)\<close> by simp
        then show ?thesis by auto
      qed
    next
      case False
      then obtain t where "t \<in> {1..4}" "live (thr s ! t)" using w(1) True n by auto
      then show ?thesis using fs(7) [of t] by auto
    qed
  next
    case False
    then obtain k where k: "thr s ! 0 = At PM_set k" "num (shared s) = 0" "busy \<or> (\<exists>j. thr s' ! 0 = At PM_signal j)"
      using own n by auto
    then have "live (thr s' ! 1) \<or> (\<exists>j. thr s' ! 0 = At PM_signal j)" using alive w(4) [of 1] by auto
    then show ?thesis by auto
  qed
  have two: "\<not> (waiting (thr s' ! 0) \<and> num (shared s') = 0)" using own by auto
  have three: "\<not> waiting (thr s' ! u)" if n: "num (shared s') = - 1" "\<forall>i. thr s' ! 0 \<noteq> At PM_bcast i" "u \<in> {1..4}" for u
  proof (cases "\<exists>k. thr s ! 0 = At PM_bcast k")
    case True
    then obtain k where k: "thr s ! 0 = At PM_bcast k" by blast
    have "pool_prog busy 0 PM_bcast k = Broadcast PM_funlock" by (simp add: pool_prog_def pool_main_def)
    from fire_broadcast [OF f k this] show ?thesis using n(3) l by auto
  next
    case False
    then have "\<not> waiting (thr s ! u)" using w(3) [OF _ _ n(3)] w(4) [of u] own n by auto
    then show ?thesis using fs(8) [of u] n(3) by auto
  qed
  have "\<not> waiting (thr s' ! u)" if "busy" "u \<le> 4" for u
    using w(4) [OF that] own fs(8) [of u] that by (cases "u = 0") auto
  then show ?thesis using one two three unfolding pool_waits_def by blast
qed

lemma pool_inv_fire:
  assumes i: "pool_inv busy s" and f: "fire (pool_prog busy) pool_start c t s = Some s'"
  shows "pool_inv busy s'"
proof -
  have so: "pool_monitor.spawn_off busy s" by (rule pool_spawn_off [OF i])
  have ex: "excl pool_crit s" "pool.asn_all s" "length (thr s) = 5" using i by (simp_all add: pool_inv_def)
  have l: "length (thr s') = 5" using fire_length [OF f] ex(3) by simp
  have e: "excl pool_crit s'" by (rule pool_monitor.excl_fire [OF ex(1) so f])
  have a: "pool.asn_all s'" by (rule pool.asn_fire [OF ex(2,1) so f])
  then have am: "main_asn (thr s' ! 0) (num (shared s'))" unfolding pool.asn_all_def using l by (force simp: pool_asn_def)
  have "t < 5" using f ex(3) by (auto simp: fire_def split: if_splits)
  then consider "t \<in> {1..4}" | "t = 0" "\<exists>k. thr s ! 0 = At PM_create k" | "t = 0" "\<not> (\<exists>k. thr s ! 0 = At PM_create k)" by fastforce
  then have c: "pool_count s' \<and> pool_made s' \<and> pool_waits busy s'"
  proof cases
    case 1
    then show ?thesis using pool_count_thr [OF i _ f] pool_waits_thr [OF i _ f] by blast
  next
    case 2
    then show ?thesis using pool_count_create [OF i _ am] pool_waits_create [OF i] f by blast
  next
    case 3
    then show ?thesis using pool_count_main [OF i _ am] pool_waits_main [OF i _ am] f by blast
  qed
  have "joined (thr s' ! 0) = THRNUM" if h: "halted s' = Some 0"
  proof -
    obtain p k where p: "thr s ! t = At p k" "pool_prog busy t p k = Halt 0" using fire_halted [OF f] h by auto
    have "t = 0 \<and> p = PM_join \<and> k \<ge> THRNUM"
    proof (cases "t = 0")
      case True
      then have "main_at p k (num (shared s))" using pool_facts(2) [OF i] p(1) by simp
      then show ?thesis using p(2) True by (cases p) (auto simp: pool_prog_def pool_main_def split: if_splits)
    next
      case False
      then have "thr_at p k (num (shared s))" using pool_facts(3) [OF i, of t] p(1) \<open>t < 5\<close> by simp
      then show ?thesis using p(2) False by (cases p) (auto simp: pool_prog_def pool_thr_prime_def split: if_splits)
    qed
    moreover have "thr s' ! t = At p k" using fire_after [OF f p(1)] p(2) by simp
    ultimately show ?thesis using am by auto
  qed
  then show ?thesis using l e a c unfolding pool_inv_def by blast
qed

section \<open>No deadlock\<close>

lemma pool_live_run:
  assumes i: "pool_inv busy s" and h: "halted s = None" "held s 0 = None" and t: "t \<in> {1..4}" "live (thr s ! t)"
  shows "can_run (pool_prog busy) pool_start s"
proof -
  have l: "t < length (thr s)" "t \<noteq> 0" using pool_facts(1) [OF i] t(1) by auto
  show ?thesis
  proof (cases "thr s ! t")
    case (At p k)
    have "\<forall>u q. pool_prog busy t p k \<noteq> Join u q" using pool_join l(2) by blast
    then show ?thesis using pool_monitor.at_can_run [OF At l(1) h(1)] h(2) by blast
  next
    case (Wakes m p k)
    then have "m = 0" using pool_facts(3) [OF i t(1)] by simp
    then show ?thesis using pool_monitor.wakes_can_run [OF Wakes l(1) h(1)] h(2) by blast
  qed (use t(2) in simp_all)
qed

lemma pool_can_run:
  assumes i: "pool_inv busy s" and h: "halted s = None"
  shows "can_run (pool_prog busy) pool_start s"
proof (cases "held s 0")
  case (Some t)
  have "excl pool_crit s" using i by (simp add: pool_inv_def)
  then show ?thesis by (rule pool_monitor.holder_can_run [OF _ h Some]) (auto dest: pool_join)
next
  case None
  note run = pool_live_run [OF i h None]
  have w: "pool_waits busy s" "pool_made s" using i by (simp_all add: pool_inv_def)
  have l: "0 < length (thr s)" using pool_facts(1) [OF i] by simp
  have m: "main_asn (thr s ! 0) (num (shared s))" by (rule pool_facts(2) [OF i])
  show ?thesis
  proof (cases "thr s ! 0")
    case (At p k)
    show ?thesis
    proof (cases "p = PM_join \<and> k < THRNUM \<and> thr s ! (nat k + 1) \<noteq> Fin")
      case True
      have u: "nat k + 1 \<in> {1..4}" "num (shared s) = - 1" using True m At by auto
      have "\<not> waiting (thr s ! (nat k + 1))" using pool_waitsD(3) [OF w(1) u(2) _ u(1)] True At by simp
      moreover have "thr s ! (nat k + 1) \<noteq> Off" using w(2) u(1) True At unfolding pool_made_def by auto
      ultimately show ?thesis using run [OF u(1)] True by (simp add: live_iff)
    next
      case False
      show ?thesis
      proof (cases "\<exists>u q. pool_prog busy 0 p k = Join u q")
        case True
        then obtain q where q: "pool_prog busy 0 p k = Join (nat k + 1) q" "thr s ! (nat k + 1) = Fin" "0 \<le> k" "k < THRNUM"
          using False pool_join m At by fastforce
        then have "fire (pool_prog busy) pool_start Go 0 s \<noteq> None"
          using At h pool_facts(1) [OF i] by (auto simp: fire_def exec_def)
        then show ?thesis by (rule can_runI) simp
      next
        case False
        then show ?thesis using pool_monitor.at_can_run [OF At l h] None by blast
      qed
    qed
  next
    case (Waits n p k)
    then have "0 \<le> num (shared s)" using m by simp
    then obtain t where "t \<in> {1..4}" "live (thr s ! t)"
      using pool_waitsD(1,2) [OF w(1)] Waits by (cases "num (shared s) = 0") fastforce+
    then show ?thesis by (rule run)
  next
    case (Wakes n p k)
    then have "n = 0" using m by simp
    then show ?thesis using pool_monitor.wakes_can_run [OF Wakes l h] None by blast
  qed (use m in simp_all)
qed

section \<open>Correctness\<close>

definition cond_pool_prog :: "(pool_pc, int, pool_shared) program" where
  "cond_pool_prog = pool_prog False"

definition busy_pool_prog :: "(pool_pc, int, pool_shared) program" where
  "busy_pool_prog = pool_prog True"

lemma upcoming_range:
  assumes "main_asn st n"
  shows "LEFT \<le> upcoming st \<and> upcoming st \<le> RIGHT + 1"
proof (cases st)
  case (At p i)
  then show ?thesis using assms by (cases p) auto
qed (use assms in auto)

text \<open>The primes the program looks for.\<close>

definition range_primes :: "int list" where
  "range_primes = filter is_prime [LEFT..RIGHT]"

lemma marked_all: "marked (RIGHT + 1) = mset range_primes"
proof -
  have "4 < LEFT" "RIGHT + 1 - 1 = RIGHT" by simp_all
  then show ?thesis unfolding marked_def range_primes_def by (simp only: filter_marks)
qed

lemma marked_part: "LEFT \<le> n \<Longrightarrow> n \<le> RIGHT + 1 \<Longrightarrow> marked n \<subseteq># mset range_primes"
proof -
  assume n: "LEFT \<le> n" "n \<le> RIGHT + 1"
  have "4 < LEFT" by simp
  then show ?thesis
    unfolding marked_def range_primes_def upto_parts [OF n] filter_append mset_append by (simp only: filter_marks mset_subset_eq_add_left)
qed

text \<open>C13: Both pools, under every scheduling and whichever waiter a signal wakes: what has been printed at any moment are
  primes of the range, none of them more often than it should be; unless the process has ended some thread can run (no
  signal is lost, nobody waits for ever); and when the process ends with status 0, exactly the primes from \<open>LEFT\<close> to \<open>RIGHT\<close>
  have been printed, each once.\<close>
theorem pool_primes:
  assumes "prog \<in> {cond_pool_prog, busy_pool_prog}" "reach prog pool_start prime_pool_init s"
  shows "mset (map snd (out (shared s))) \<subseteq># mset range_primes
    \<and> (halted s = None \<longrightarrow> can_run prog pool_start s)
    \<and> (halted s = Some 0 \<longrightarrow> mset (map snd (out (shared s))) = mset range_primes)"
proof -
  obtain busy where b: "prog = pool_prog busy" using assms(1) by (auto simp: cond_pool_prog_def busy_pool_prog_def)
  have i: "pool_inv busy s"
    by (rule reach_inv [OF assms(2) [unfolded b]]) (use pool_inv_init pool_inv_fire in auto)
  have c: "mset (map snd (out (shared s))) + (\<Sum>t \<in> {1..4}. in_hand (thr s ! t)) + pending (num (shared s))
     = marked (upcoming (thr s ! 0))" using i by (simp add: pool_inv_def pool_count_def)
  have m: "main_asn (thr s ! 0) (num (shared s))" by (rule pool_facts(2) [OF i])
  have "mset (map snd (out (shared s))) \<subseteq># marked (upcoming (thr s ! 0))" unfolding c [symmetric] by (simp add: subset_mset.add_increasing2)
  also have "\<dots> \<subseteq># mset range_primes" using upcoming_range [OF m] by (intro marked_part) auto
  finally have sub: "mset (map snd (out (shared s))) \<subseteq># mset range_primes" .
  have "mset (map snd (out (shared s))) = mset range_primes" if h: "halted s = Some 0"
  proof -
    have j: "joined (thr s ! 0) = THRNUM" using i h by (simp add: pool_inv_def)
    have up: "upcoming (thr s ! 0) = RIGHT + 1 \<and> num (shared s) = - 1"
    proof (cases "thr s ! 0")
      case (At p k)
      then show ?thesis using j m by (cases p) auto
    qed (use j in simp_all)
    have "in_hand (thr s ! t) = {#}" if "t \<in> {1..4}" for t
      using i j that unfolding pool_inv_def pool_made_def by auto
    then have "(\<Sum>t \<in> {1..4}. in_hand (thr s ! t)) = {#}" by (simp del: atLeastAtMost_iff)
    then show ?thesis using c up unfolding marked_all [symmetric] by (simp add: pending_def)
  qed
  then show ?thesis using sub pool_can_run [OF i] b by blast
qed

lemma pool_primes_witness:
  "\<exists>s. run_sched cond_pool_prog pool_start (replicate 19 (Go, 0) @ replicate 7 (Go, 1)) prime_pool_init = Some s
    \<and> num (shared s) = 0 \<and> can_run cond_pool_prog pool_start s
    \<and> mset (map snd (out (shared s))) \<subseteq># mset range_primes"
proof -
  let ?r = "run_sched cond_pool_prog pool_start (replicate 19 (Go, 0) @ replicate 7 (Go, 1)) prime_pool_init"
  have "map_option (\<lambda>s. (num (shared s), halted s)) ?r = Some (0, None)" by code_simp
  then obtain s where s: "?r = Some s" "num (shared s) = 0" "halted s = None" by auto
  with pool_primes [of cond_pool_prog, OF _ run_sched_reach [OF reach.init s(1)]] show ?thesis by auto
qed

end
