(* ===== verification/PrimeProc.thy ===== *)
theory PrimeProc
  imports PrimeTest
begin

text \<open>
  The programs of \<open>process_basic\<close> that look for primes: \<open>primer0.c\<close> in one process, \<open>primer1.c\<close> and \<open>primer2.c\<close> with one child
  for every number (the second waits for its children), \<open>primerN.c\<close> with three children that take every third
  number. A child shares nothing with the others; what it prints is a list, and a run of a program is the list of
  what its children print. \<open>forks k\<close> tells whether the \<open>k\<close>-th \<open>fork\<close> succeeds. The theorem: whatever the division of the
  work, the same primes are printed.
\<close>

abbreviation LEFT :: int where "LEFT \<equiv> 300000000"
abbreviation RIGHT :: int where "RIGHT \<equiv> 300000200"
abbreviation PROC_N :: int where "PROC_N \<equiv> 3"

section \<open>The programs\<close>

text \<open>\<open>mark = 1; for ...; if(mark) printf(...)\<close> for one number.\<close>

definition try_one :: "int \<Rightarrow> int list" where
  "try_one i = (if prime_mark i then [i] else [])"

function primer0_loop :: "int \<Rightarrow> int list" where
  "primer0_loop i = (if i \<le> RIGHT then try_one i @ primer0_loop (i + 1) else [])"
  by pat_completeness auto
termination by (relation "measure (\<lambda>i. nat (RIGHT + 1 - i))") auto

declare primer0_loop.simps [simp del]

definition primer0_main :: "int list" where
  "primer0_main = primer0_loop LEFT"

text \<open>The loop of forks in \<open>primer1.c\<close> and \<open>primer2.c\<close>: the children made so far; a failing \<open>fork\<close> ends the parent.\<close>

function fork_each :: "(nat \<Rightarrow> bool) \<Rightarrow> int \<Rightarrow> int list list \<Rightarrow> int list list outcome" where
  "fork_each forks i cs =
     (if i \<le> RIGHT then
        (if \<not> forks (nat (i - LEFT)) then Exit 1 cs else fork_each forks (i + 1) (cs @ [try_one i]))
      else Done cs)"
  by pat_completeness auto
termination by (relation "measure (\<lambda>(f, i, cs). nat (RIGHT + 1 - i))") auto

declare fork_each.simps [simp del]

definition primer1_main :: "(nat \<Rightarrow> bool) \<Rightarrow> int list list outcome" where
  "primer1_main forks = (case fork_each forks LEFT [] of Exit n cs \<Rightarrow> Exit n cs | Done cs \<Rightarrow> Exit 0 cs)"

text \<open>
  \<open>wait(NULL)\<close> with \<open>n\<close> children left answers \<open>0\<close> here for "a child was reaped" and \<open>-1\<close> when there is none. The loops of waits: the
  answers and the children left.
\<close>

fun waits :: "nat \<Rightarrow> nat \<Rightarrow> int list \<times> nat" where
  "waits 0 n = ([], n)"
| "waits (Suc k) n = (case n of
      0 \<Rightarrow> (case waits k 0 of (as, m) \<Rightarrow> (- 1 # as, m))
    | Suc n' \<Rightarrow> (case waits k n' of (as, m) \<Rightarrow> (0 # as, m)))"

definition primer2_main :: "(nat \<Rightarrow> bool) \<Rightarrow> (int list list \<times> int list \<times> nat) outcome" where
  "primer2_main forks = (case fork_each forks LEFT [] of
       Exit n cs \<Rightarrow> Exit n (cs, [], length cs)
     | Done cs \<Rightarrow> (case waits (nat (RIGHT - LEFT + 1)) (length cs) of (as, m) \<Rightarrow> Exit 0 (cs, as, m)))"

text \<open>The child with number \<open>n\<close> of \<open>primerN.c\<close>, the loop of forks and the loop of waits, which runs to \<open>n <= N\<close>.\<close>

function primerN_child :: "int \<Rightarrow> int list" where
  "primerN_child i = (if i \<le> RIGHT then try_one i @ primerN_child (i + PROC_N) else [])"
  by pat_completeness auto
termination by (relation "measure (\<lambda>i. nat (RIGHT + 1 - i))") auto

declare primerN_child.simps [simp del]

function primerN_forks :: "(nat \<Rightarrow> bool) \<Rightarrow> int \<Rightarrow> int list list \<Rightarrow> int list list outcome" where
  "primerN_forks forks n cs =
     (if n < PROC_N then
        (if \<not> forks (nat n) then Exit 1 cs else primerN_forks forks (n + 1) (cs @ [primerN_child (LEFT + n)]))
      else Done cs)"
  by pat_completeness auto
termination by (relation "measure (\<lambda>(f, n, cs). nat (PROC_N - n))") auto

declare primerN_forks.simps [simp del]

definition primerN_main :: "(nat \<Rightarrow> bool) \<Rightarrow> (int list list \<times> int list \<times> nat) outcome" where
  "primerN_main forks = (case primerN_forks forks 0 [] of
       Exit n cs \<Rightarrow> Exit n (cs, [], length cs)
     | Done cs \<Rightarrow> (case waits (nat (PROC_N + 1)) (length cs) of (as, m) \<Rightarrow> Exit 0 (cs, as, m)))"

section \<open>What they print\<close>

lemma filter_concat_try: "concat (map try_one xs) = filter prime_mark xs"
  by (induction xs) (simp_all add: try_one_def)

lemma primer0_loop_eq: "primer0_loop i = concat (map try_one [i..RIGHT])"
proof (induction i rule: primer0_loop.induct)
  case (1 i)
  show ?case
  proof (cases "i \<le> RIGHT")
    case True
    then have "[i..RIGHT] = i # [i + 1..RIGHT]" by (rule upto_rec1)
    then show ?thesis using 1 True by (simp add: primer0_loop.simps [of i])
  qed (simp add: primer0_loop.simps [of i])
qed

lemma fork_each_eq: "\<forall>k. forks k \<Longrightarrow> fork_each forks i cs = Done (cs @ map try_one [i..RIGHT])"
proof (induction forks i cs rule: fork_each.induct)
  case (1 forks i cs)
  show ?case
  proof (cases "i \<le> RIGHT")
    case True
    then have "[i..RIGHT] = i # [i + 1..RIGHT]" by (rule upto_rec1)
    moreover have "forks (nat (i - LEFT))" using 1(2) by blast
    moreover have "fork_each forks (i + 1) (cs @ [try_one i]) = Done ((cs @ [try_one i]) @ map try_one [i + 1..RIGHT])"
      using 1(1) [OF True] calculation(2) 1(2) by blast
    ultimately show ?thesis using True by (subst fork_each.simps) simp
  qed (simp add: fork_each.simps [of forks i])
qed

lemma fork_each_fail:
  "fork_each forks i cs = Exit n ds \<Longrightarrow> n = 1 \<and> (\<exists>k. \<not> forks k)"
proof (induction forks i cs rule: fork_each.induct)
  case (1 forks i cs)
  then show ?case by (subst (asm) (2) fork_each.simps) (auto split: if_splits)
qed

text \<open>Every number of the range belongs to exactly one of the three children.\<close>

lemma primerN_child_eq: "primerN_child i = concat (map try_one (filter (\<lambda>j. (j - i) mod PROC_N = 0) [i..RIGHT]))"
proof (induction i rule: primerN_child.induct)
  case (1 i)
  show ?case
  proof (cases "i \<le> RIGHT")
    case True
    have f: "filter (\<lambda>j. (j - i) mod PROC_N = 0) [i + 1..RIGHT] = filter (\<lambda>j. (j - (i + PROC_N)) mod PROC_N = 0) [i + PROC_N..RIGHT]"
    proof (cases "i + PROC_N \<le> RIGHT + 1")
      case True
      have "[i + 1..RIGHT] = [i + 1..i + PROC_N - 1] @ [i + PROC_N..RIGHT]" by (rule upto_parts) (use True in simp_all)
      moreover have "filter (\<lambda>j. (j - i) mod PROC_N = 0) [i + 1..i + PROC_N - 1] = []"
        by (auto simp: filter_empty_conv)
      moreover have "(j - (i + PROC_N)) mod PROC_N = (j - i) mod PROC_N" for j by presburger
      ultimately show ?thesis by simp
    next
      case False
      then have "\<forall>j \<in> set [i + 1..RIGHT]. (j - i) mod PROC_N \<noteq> 0" by auto
      then show ?thesis using False by (simp add: filter_empty_conv)
    qed
    have "[i..RIGHT] = i # [i + 1..RIGHT]" using True by (rule upto_rec1)
    then show ?thesis using 1 True f by (simp add: primerN_child.simps [of i])
  qed (simp add: primerN_child.simps [of i])
qed

lemma three_ways:
  "mset (filter (\<lambda>j. (j - a) mod PROC_N = 0) xs) + mset (filter (\<lambda>j. (j - (a + 1)) mod PROC_N = 0) xs)
   + mset (filter (\<lambda>j. (j - (a + 2)) mod PROC_N = 0) xs) = mset xs" for a :: int
proof (induction xs)
  case (Cons x xs)
  define d where "d = x - a"
  have e: "x - (a + 1) = d - 1" "x - (a + 2) = d - 2" "x - a = d" by (simp_all add: d_def)
  have "d mod 3 = 0 \<and> (d - 1) mod 3 \<noteq> 0 \<and> (d - 2) mod 3 \<noteq> 0 \<or> d mod 3 \<noteq> 0 \<and> (d - 1) mod 3 = 0 \<and> (d - 2) mod 3 \<noteq> 0
    \<or> d mod 3 \<noteq> 0 \<and> (d - 1) mod 3 \<noteq> 0 \<and> (d - 2) mod 3 = 0" by presburger
  then show ?case using Cons unfolding filter.simps e by (elim disjE conjE) (simp_all add: ac_simps)
qed simp

lemma upto_filter_none: "(\<And>j. a \<le> j \<Longrightarrow> j \<le> b \<Longrightarrow> \<not> P j) \<Longrightarrow> filter P [a..b] = []"
  by (auto simp: filter_empty_conv)

lemma child_from_left:
  assumes "0 \<le> n" "n < PROC_N"
  shows "primerN_child (LEFT + n) = filter prime_mark (filter (\<lambda>j. (j - (LEFT + n)) mod PROC_N = 0) [LEFT..RIGHT])"
proof -
  have "[LEFT..RIGHT] = [LEFT..LEFT + n - 1] @ [LEFT + n..RIGHT]" by (rule upto_parts) (use assms in simp_all)
  moreover have "(j - (LEFT + n)) mod PROC_N \<noteq> 0" if "LEFT \<le> j" "j \<le> LEFT + n - 1" for j
  proof
    assume "(j - (LEFT + n)) mod PROC_N = 0"
    then obtain q where "j - (LEFT + n) = PROC_N * q" by auto
    then have "- n \<le> PROC_N * q" "PROC_N * q < 0" using that by simp_all
    then show False using assms by simp
  qed
  then have "filter (\<lambda>j. (j - (LEFT + n)) mod PROC_N = 0) [LEFT..LEFT + n - 1] = []"
    by (rule upto_filter_none)
  ultimately have "filter (\<lambda>j. (j - (LEFT + n)) mod PROC_N = 0) [LEFT..RIGHT] = filter (\<lambda>j. (j - (LEFT + n)) mod PROC_N = 0) [LEFT + n..RIGHT]"
    by (simp only: filter_append append_Nil)
  then show ?thesis unfolding primerN_child_eq filter_concat_try by (simp only:)
qed

text \<open>What the whole range should give.\<close>

definition proc_primes :: "int list" where
  "proc_primes = filter is_prime [LEFT..RIGHT]"

lemma proc_primes_marked: "filter prime_mark [LEFT..RIGHT] = proc_primes"
proof -
  have "4 < LEFT" by simp
  then show ?thesis unfolding proc_primes_def by (rule filter_marks)
qed

lemma primerN_forks_eq:
  assumes "\<forall>k. forks k"
  shows "primerN_forks forks 0 [] = Done [primerN_child LEFT, primerN_child (LEFT + 1), primerN_child (LEFT + 2)]"
proof -
  have f: "forks k" for k using assms by blast
  have "primerN_forks forks 3 cs = Done cs" for cs by (subst primerN_forks.simps) simp
  then have "primerN_forks forks 2 cs = Done (cs @ [primerN_child (LEFT + 2)])" for cs
    by (subst primerN_forks.simps) (simp add: f)
  then have "primerN_forks forks 1 cs = Done (cs @ [primerN_child (LEFT + 1), primerN_child (LEFT + 2)])" for cs
    by (subst primerN_forks.simps) (simp add: f)
  then show ?thesis by (subst primerN_forks.simps) (simp add: f)
qed

lemma waits_eq: "waits k n = (replicate (min k n) 0 @ replicate (k - n) (- 1), n - k)"
  by (induction k n rule: waits.induct) (auto split: nat.split)

text \<open>C37: With one process, with a child for every number or with three children that take every third number, the same
  primes are printed, each once: the sequential program prints the primes of the range in order, the children together print
  exactly these. \<open>primer2.c\<close> reaps every child, \<open>primerN.c\<close> too, but its loop of waits runs once more than there are
  children and gets an error at the end.\<close>
theorem primer_processes:
  assumes "\<forall>k. forks k"
  shows "primer0_main = proc_primes
    \<and> (\<exists>cs. primer1_main forks = Exit 0 cs \<and> concat cs = proc_primes)
    \<and> (\<exists>cs. primer2_main forks = Exit 0 (cs, replicate (length cs) 0, 0) \<and> concat cs = proc_primes)
    \<and> (\<exists>cs. primerN_main forks = Exit 0 (cs, [0, 0, 0, - 1], 0) \<and> mset (concat cs) = mset proc_primes)"
proof -
  let ?all = "map try_one [LEFT..RIGHT]"
  have c: "concat ?all = proc_primes" unfolding filter_concat_try by (rule proc_primes_marked)
  have fe: "fork_each forks LEFT [] = Done ?all" unfolding fork_each_eq [OF assms] append_Nil ..
  have len: "length ?all = nat (RIGHT - LEFT + 1)" by (simp only: length_map length_upto)
  have w: "waits (nat (RIGHT - LEFT + 1)) (length ?all) = (replicate (length ?all) 0, 0)"
    unfolding waits_eq len by (simp only: min.idem diff_self_eq_0 replicate_0 append_Nil2)
  have "primer0_main = proc_primes" unfolding primer0_main_def primer0_loop_eq by (rule c)
  moreover have "primer1_main forks = Exit 0 ?all" unfolding primer1_main_def fe by (simp only: outcome.case)
  moreover have "primer2_main forks = Exit 0 (?all, replicate (length ?all) 0, 0)"
    unfolding primer2_main_def fe outcome.case w by (simp only: prod.case)
  moreover have "\<exists>cs. primerN_main forks = Exit 0 (cs, [0, 0, 0, - 1], 0) \<and> mset (concat cs) = mset proc_primes"
  proof -
    let ?cs = "[primerN_child LEFT, primerN_child (LEFT + 1), primerN_child (LEFT + 2)]"
    have "waits (nat (PROC_N + 1)) (length ?cs) = ([0, 0, 0, - 1], 0)" by (simp add: waits_eq numeral_eq_Suc)
    then have "primerN_main forks = Exit 0 (?cs, [0, 0, 0, - 1], 0)"
      unfolding primerN_main_def primerN_forks_eq [OF assms] outcome.case by (simp only: prod.case)
    moreover have "mset (concat ?cs) = mset (filter prime_mark [LEFT..RIGHT])"
    proof -
      let ?f = "\<lambda>n. filter (\<lambda>j. (j - (LEFT + n)) mod PROC_N = 0) [LEFT..RIGHT]"
      have "primerN_child LEFT = filter prime_mark (?f 0)" using child_from_left [of 0] by (simp only: add_0_right)
      moreover have "primerN_child (LEFT + 1) = filter prime_mark (?f 1)" "primerN_child (LEFT + 2) = filter prime_mark (?f 2)"
        by (rule child_from_left; simp)+
      ultimately have "mset (concat ?cs) = filter_mset prime_mark (mset (?f 0) + mset (?f 1) + mset (?f 2))"
        by (simp only: concat.simps mset_append mset_filter filter_union_mset append_Nil2) (simp only: ac_simps)
      also have "mset (?f 0) + mset (?f 1) + mset (?f 2) = mset [LEFT..RIGHT]"
        using three_ways [of LEFT "[LEFT..RIGHT]"] by (simp only: add_0_right)
      finally show ?thesis by (simp only: mset_filter)
    qed
    ultimately show ?thesis unfolding proc_primes_marked by blast
  qed
  ultimately show ?thesis using c by blast
qed

lemma primer_processes_witness: "primer0_main = proc_primes \<and> (\<exists>cs. primer1_main (\<lambda>_. True) = Exit 0 cs \<and> concat cs = proc_primes)"
  using primer_processes [of "\<lambda>_. True"] by blast

end
