(* ===== verification/RelayFsm.thy ===== *)
theory RelayFsm
  imports Kernel
begin

text \<open>
  The relay state machine of \<open>io/adv/nonblock/relay.c\<close>: two machines copy bytes between two
  non-blocking descriptors, one per direction. The same \<open>fsm_driver\<close> text occurs in
  \<open>io/adv/select/relay.c\<close>, \<open>io/adv/poll/relay.c\<close>, \<open>io/adv/epoll/relay.c\<close> and
  \<open>io/adv/nonblock/relayer/relayer.c\<close>. This theory holds the driver, its step relation, the
  invariant "what was read is what was written, followed by what is buffered", and the locale
  that carries the invariant over every program that drives two machines in some order.
\<close>

section \<open>The machine\<close>

abbreviation BUFSIZE :: nat where "BUFSIZE \<equiv> 1024"

text \<open>
  The enumeration of the \<open>select\<close>, \<open>poll\<close> and \<open>epoll\<close> programs; the other two lack \<open>STATE_AUTO\<close>,
  a value no machine ever takes.
\<close>

datatype fsm_state = STATE_R | STATE_W | STATE_AUTO | STATE_Ex | STATE_T

record fsm_st =
  state :: fsm_state
  sfd :: int
  dfd :: int
  buf :: "byte list"
  len :: int
  pos :: int
  errstr :: "string option"

text \<open>\<open>None\<close> is \<open>abort()\<close> of the default case, or undefined behaviour.\<close>

definition fsm_driver :: "fsm_st \<Rightarrow> world \<Rightarrow> (fsm_st \<times> world) option" where
  "fsm_driver fsm w = (case state fsm of
       STATE_R \<Rightarrow>
         let (n, d, w1) = sys_read (sfd fsm) BUFSIZE w;
             f1 = fsm\<lparr>len := n, buf := fill (buf fsm) d\<rparr>
         in if n = 0 then Some (f1\<lparr>state := STATE_T\<rparr>, w1)
            else if n < 0 then
              (if errno w1 = EAGAIN then Some (f1\<lparr>state := STATE_R\<rparr>, w1)
               else Some (f1\<lparr>errstr := Some ''read()'', state := STATE_Ex\<rparr>, w1))
            else Some (f1\<lparr>pos := 0, state := STATE_W\<rparr>, w1)
     | STATE_W \<Rightarrow> do {
         bs \<leftarrow> slice (buf fsm) (pos fsm) (len fsm);
         let (ret, w1) = sys_write (dfd fsm) bs w;
         if ret < 0 then
           (if errno w1 = EAGAIN then Some (fsm\<lparr>state := STATE_W\<rparr>, w1)
            else Some (fsm\<lparr>errstr := Some ''write()'', state := STATE_Ex\<rparr>, w1))
         else
           let f1 = fsm\<lparr>pos := pos fsm + ret, len := len fsm - ret\<rparr>
           in if len f1 = 0 then Some (f1\<lparr>state := STATE_R\<rparr>, w1)
              else Some (f1\<lparr>state := STATE_W\<rparr>, w1) }
     | STATE_Ex \<Rightarrow> do {
         s \<leftarrow> errstr fsm;
         Some (fsm\<lparr>state := STATE_T\<rparr>, perror s w) }
     | STATE_T \<Rightarrow> Some (fsm, w)
     | STATE_AUTO \<Rightarrow> None)"

section \<open>The flow invariant of one machine\<close>

text \<open>
  \<open>flow s0 d0 f w\<close>: since the moment the logs of the two descriptors of \<open>f\<close> were \<open>s0\<close> and \<open>d0\<close>,
  the bytes read are the bytes written plus, in the writing state, the unwritten slice of the
  buffer. In the two final states a rest may have been given up after an error.
\<close>

definition flow :: "byte list \<Rightarrow> byte list \<Rightarrow> fsm_st \<Rightarrow> world \<Rightarrow> bool" where
  "flow g0 s0 f w \<longleftrightarrow>
     length (buf f) = BUFSIZE \<and> prefix g0 (got w (sfd f)) \<and> prefix s0 (sent w (dfd f)) \<and>
     (let X = drop (length g0) (got w (sfd f)); Y = drop (length s0) (sent w (dfd f)) in
      case state f of
        STATE_R \<Rightarrow> X = Y
      | STATE_W \<Rightarrow> (\<exists>p. slice (buf f) (pos f) (len f) = Some p \<and> p \<noteq> [] \<and> X = Y @ p)
      | STATE_AUTO \<Rightarrow> False
      | STATE_Ex \<Rightarrow> prefix Y X \<and> errstr f \<noteq> None
      | STATE_T \<Rightarrow> prefix Y X)"

lemma flow_init:
  "length (buf f) = BUFSIZE \<Longrightarrow> state f = STATE_R \<Longrightarrow>
   flow (got w (sfd f)) (sent w (dfd f)) f w"
  by (simp add: flow_def)

lemma drop_prefix_append: "prefix g xs \<Longrightarrow> drop (length g) (xs @ ys) = drop (length g) xs @ ys"
  by (auto simp: prefix_def)

lemma prefix_appendI: "prefix g xs \<Longrightarrow> prefix g (xs @ ys)"
  by (auto simp: prefix_def)

lemmas flow_intros = drop_prefix_append prefix_appendI

lemma driver_fds: "fsm_driver f w = Some (f', w') \<Longrightarrow> sfd f' = sfd f \<and> dfd f' = dfd f"
  by (auto simp: fsm_driver_def Let_def split: fsm_state.splits prod.splits if_splits
      option.splits bind_splits)

text \<open>A step of a machine touches only the log of its source and of its destination.\<close>

lemma driver_frame:
  assumes "fsm_driver f w = Some (f', w')"
  shows "fd \<noteq> sfd f \<Longrightarrow> got w' fd = got w fd" and "fd \<noteq> dfd f \<Longrightarrow> sent w' fd = sent w fd"
    and "fd \<noteq> sfd f \<Longrightarrow> rd_script w' fd = rd_script w fd"
    and "fd \<noteq> dfd f \<Longrightarrow> wr_script w' fd = wr_script w fd"
    and "flags w' = flags w"
  using assms
  by (auto simp: fsm_driver_def sys_read_def sys_write_def perror_def Let_def
      split: fsm_state.splits prod.splits if_splits option.splits list.splits rd_reply.splits
      wr_reply.splits bind_splits)


text \<open>The three kinds of progress: a read, a write, the report of an error.\<close>

lemma read_flow:
  assumes "flow g0 s0 f w" "state f = STATE_R" "sfd f \<noteq> dfd f"
  shows "\<exists>f' w'. fsm_driver f w = Some (f', w') \<and> flow g0 s0 f' w'"
proof (cases "rd_script w (sfd f)")
  case Nil
  with assms show ?thesis
    by (auto simp: fsm_driver_def sys_read_def flow_def fill_def Let_def)
next
  case (Cons r rs)
  show ?thesis
  proof (cases r)
    case (RdErr e)
    with Cons assms show ?thesis
      by (auto simp: fsm_driver_def sys_read_def flow_def fill_def Let_def)
  next
    case (RdData bs)
    let ?d = "take BUFSIZE bs"
    have d: "length ?d \<le> length (buf f)" using assms(1) by (simp add: flow_def)
    show ?thesis
    proof (cases "bs = []")
      case True
      with Cons RdData assms show ?thesis
        by (auto simp: fsm_driver_def sys_read_def flow_def fill_def Let_def)
    next
      case False
      then have n: "int (length ?d) \<noteq> 0" "?d \<noteq> []" by simp_all
      from Cons RdData assms d n show ?thesis
        by (simp add: fsm_driver_def sys_read_def flow_def flow_intros Let_def
            slice_fill [OF d, simplified] del: drop_append)
    qed
  qed
qed

lemma write_flow:
  assumes "flow g0 s0 f w" "state f = STATE_W" "sfd f \<noteq> dfd f"
  shows "\<exists>f' w'. fsm_driver f w = Some (f', w') \<and> flow g0 s0 f' w'"
proof -
  from assms(1,2) obtain p where p: "slice (buf f) (pos f) (len f) = Some p" "p \<noteq> []"
    "drop (length g0) (got w (sfd f)) = drop (length s0) (sent w (dfd f)) @ p"
    by (auto simp: flow_def Let_def)
  have len: "int (length p) = len f" using slice_length [OF p(1)] .
  have accept: "\<exists>f' w'. fsm_driver f w = Some (f', w') \<and> flow g0 s0 f' w'"
    if w1: "sys_write (dfd f) p w = (int k, w1)" "k \<le> length p" "got w1 = got w"
      "sent w1 = (sent w)(dfd f := sent w (dfd f) @ take k p)" for k w1
  proof (cases "k = length p")
    case True
    with w1 p len assms show ?thesis
      by (simp add: fsm_driver_def flow_def flow_intros Let_def del: drop_append)
  next
    case False
    then have k: "drop k p \<noteq> []" "len f - int k \<noteq> 0" using w1(2) len by auto
    from slice_advance [OF p(1) w1(2)] k w1 p assms show ?thesis
      by (simp add: fsm_driver_def flow_def flow_intros Let_def del: drop_append)
  qed
  show ?thesis
  proof (cases "wr_script w (dfd f)")
    case Nil
    then show ?thesis
      by (intro accept [of "length p" "w\<lparr>sent := (sent w)(dfd f := sent w (dfd f) @ p)\<rparr>"])
        (simp_all add: sys_write_def)
  next
    case (Cons r rs)
    show ?thesis
    proof (cases r)
      case (WrTake k)
      with Cons show ?thesis
        by (intro accept [of "min (length p) k" "snd (sys_write (dfd f) p w)"])
          (simp_all add: sys_write_def take_take [symmetric] min.commute)
    next
      case (WrErr e)
      with Cons p assms show ?thesis
        by (auto simp: fsm_driver_def sys_write_def flow_def Let_def)
    qed
  qed
qed

lemma driver_flow:
  assumes "flow g0 s0 f w" "sfd f \<noteq> dfd f"
  shows "\<exists>f' w'. fsm_driver f w = Some (f', w') \<and> flow g0 s0 f' w'"
proof (cases "state f")
  case STATE_R
  then show ?thesis by (rule read_flow [OF assms(1) _ assms(2)])
next
  case STATE_W
  then show ?thesis by (rule write_flow [OF assms(1) _ assms(2)])
qed (use assms in \<open>auto simp: fsm_driver_def flow_def perror_def Let_def\<close>)

text \<open>A machine on other descriptors does not disturb the flow.\<close>

lemma flow_cong:
  "got w' (sfd f) = got w (sfd f) \<Longrightarrow> sent w' (dfd f) = sent w (dfd f) \<Longrightarrow>
   flow g0 s0 f w' = flow g0 s0 f w"
  by (simp add: flow_def)

section \<open>Progress of one machine\<close>

fun rank :: "fsm_state \<Rightarrow> nat" where
  "rank STATE_R = 2"
| "rank STATE_W = 3"
| "rank STATE_AUTO = 0"
| "rank STATE_Ex = 1"
| "rank STATE_T = 0"

definition mach_weight :: "fsm_st \<Rightarrow> world \<Rightarrow> nat" where
  "mach_weight f w = rd_weight (rd_script w (sfd f)) + length (wr_script w (dfd f)) + rank (state f)"

text \<open>The source of a machine that still reads will report the end of its data.\<close>

definition live :: "fsm_st \<Rightarrow> world \<Rightarrow> bool" where
  "live f w \<longleftrightarrow> (state f = STATE_R \<or> state f = STATE_W \<longrightarrow> has_eof (rd_script w (sfd f)))"

text \<open>The successful read, in one equation.\<close>

lemma driver_data:
  assumes "state f = STATE_R" "rd_script w (sfd f) = RdData bs # rs" "bs \<noteq> []"
  shows "fsm_driver f w = Some
    (f\<lparr>len := int (length (take BUFSIZE bs)), buf := fill (buf f) (take BUFSIZE bs), pos := 0,
       state := STATE_W\<rparr>,
     w\<lparr>rd_script := (rd_script w)(sfd f :=
          if drop BUFSIZE bs = [] then rs else RdData (drop BUFSIZE bs) # rs),
       got := (got w)(sfd f := got w (sfd f) @ take BUFSIZE bs)\<rparr>)"
proof -
  have "int (length (take BUFSIZE bs)) \<noteq> 0" "\<not> int (length (take BUFSIZE bs)) < 0"
    using assms(3) by simp_all
  then show ?thesis using assms(1,2)
    by (simp add: fsm_driver_def sys_read_def Let_def del: length_take drop_eq_Nil)
qed

lemma rank_eq_0: "rank s = 0 \<longleftrightarrow> s = STATE_T \<or> s = STATE_AUTO"
  by (cases s) auto

lemma read_progress:
  assumes "fsm_driver f w = Some (f', w')" "state f = STATE_R" "live f w"
  shows "live f' w' \<and> mach_weight f' w' < mach_weight f w"
proof (cases "rd_script w (sfd f)")
  case Nil
  with assms(2,3) show ?thesis by (simp add: live_def)
next
  case (Cons r rs)
  show ?thesis
  proof (cases r)
    case (RdErr e)
    with Cons assms show ?thesis
      by (auto simp: fsm_driver_def sys_read_def live_def mach_weight_def Let_def split: if_splits)
  next
    case (RdData bs)
    show ?thesis
    proof (cases "bs = []")
      case True
      with Cons RdData assms show ?thesis
        by (auto simp: fsm_driver_def sys_read_def live_def mach_weight_def Let_def)
    next
      case False
      then have "0 < length bs" by simp
      with driver_data [OF assms(2) _ False] Cons RdData assms show ?thesis
        by (auto simp: live_def mach_weight_def)
    qed
  qed
qed

lemma write_progress:
  assumes "fsm_driver f w = Some (f', w')" "state f = STATE_W" "live f w"
  shows "live f' w' \<and> mach_weight f' w' < mach_weight f w"
proof (cases "wr_script w (dfd f)")
  case Nil
  with assms show ?thesis
    by (auto simp: fsm_driver_def sys_write_def live_def mach_weight_def Let_def
        dest: slice_length split: bind_splits if_splits)
next
  case (Cons r rs)
  with assms show ?thesis
    by (cases r) (auto simp: fsm_driver_def sys_write_def live_def mach_weight_def Let_def
        split: bind_splits if_splits)
qed

lemma driver_progress:
  assumes "fsm_driver f w = Some (f', w')" "live f w"
  shows "live f' w' \<and> (if state f = STATE_T then f' = f \<and> w' = w
           else mach_weight f' w' < mach_weight f w)"
proof (cases "state f")
  case STATE_R
  with read_progress [OF assms(1) _ assms(2)] show ?thesis by simp
next
  case STATE_W
  with write_progress [OF assms(1) _ assms(2)] show ?thesis by simp
qed (use assms in \<open>auto simp: fsm_driver_def live_def mach_weight_def perror_def split: bind_splits\<close>)

lemma mach_frame:
  "rd_script w' (sfd f) = rd_script w (sfd f) \<Longrightarrow> wr_script w' (dfd f) = wr_script w (dfd f) \<Longrightarrow>
   live f w' = live f w \<and> mach_weight f w' = mach_weight f w"
  by (simp add: live_def mach_weight_def)

section \<open>Completeness of one machine\<close>

text \<open>
  While the only errors are "try again", the machine ends with everything written: \<open>G\<close> is all
  the source delivers up to its end, counted from the beginning of the log.
\<close>

definition calm_flow :: "byte list \<Rightarrow> byte list \<Rightarrow> byte list \<Rightarrow> fsm_st \<Rightarrow> world \<Rightarrow> bool" where
  "calm_flow g0 s0 G f w \<longleftrightarrow>
     rd_calm (rd_script w (sfd f)) \<and> wr_calm (wr_script w (dfd f)) \<and> state f \<noteq> STATE_Ex \<and>
     G = got w (sfd f) @ (if state f = STATE_T then [] else before_eof (rd_script w (sfd f))) \<and>
     (state f = STATE_T \<longrightarrow> flow g0 s0 (f\<lparr>state := STATE_R\<rparr>) w)"

lemma driver_calm_read:
  assumes "fsm_driver f w = Some (f', w')" "state f = STATE_R" "flow g0 s0 f w"
    "calm_flow g0 s0 G f w" "sfd f \<noteq> dfd f"
  shows "calm_flow g0 s0 G f' w'"
proof (cases "rd_script w (sfd f)")
  case Nil
  with assms show ?thesis
    by (auto simp: fsm_driver_def sys_read_def calm_flow_def Let_def)
next
  case (Cons r rs)
  show ?thesis
  proof (cases r)
    case (RdErr e)
    with Cons assms show ?thesis
      by (auto simp: fsm_driver_def sys_read_def calm_flow_def Let_def)
  next
    case (RdData bs)
    show ?thesis
    proof (cases "bs = []")
      case True
      with Cons RdData assms show ?thesis
        by (auto simp: fsm_driver_def sys_read_def calm_flow_def flow_def fill_def Let_def)
    next
      case False
      from driver_data [OF assms(2) _ False] Cons RdData assms(1) have
        f': "f' = f\<lparr>len := int (length (take BUFSIZE bs)), buf := fill (buf f) (take BUFSIZE bs),
          pos := 0, state := STATE_W\<rparr>" and
        w': "w' = w\<lparr>rd_script := (rd_script w)(sfd f :=
          if drop BUFSIZE bs = [] then rs else RdData (drop BUFSIZE bs) # rs),
          got := (got w)(sfd f := got w (sfd f) @ take BUFSIZE bs)\<rparr>" by auto
      have "take BUFSIZE bs @ before_eof (if drop BUFSIZE bs = [] then rs
          else RdData (drop BUFSIZE bs) # rs) = bs @ before_eof rs"
        by (simp add: take_all append_assoc [symmetric] del: append_assoc)
      then show ?thesis using assms(2,4) Cons RdData False
        unfolding calm_flow_def f' w' by (simp del: drop_eq_Nil)
    qed
  qed
qed

lemma driver_calm:
  assumes "fsm_driver f w = Some (f', w')" "flow g0 s0 f w"
    "calm_flow g0 s0 G f w" "sfd f \<noteq> dfd f"
  shows "calm_flow g0 s0 G f' w'"
proof (cases "state f")
  case STATE_R
  then show ?thesis by (rule driver_calm_read [OF assms(1) _ assms(2-4)])
next
  case STATE_W
  show ?thesis
  proof (cases "wr_script w (dfd f)")
    case Nil
    with STATE_W assms show ?thesis
      by (auto simp: fsm_driver_def sys_write_def calm_flow_def Let_def split: bind_splits if_splits)
  next
    case (Cons r rs)
    with STATE_W assms show ?thesis
      by (cases r) (auto simp: fsm_driver_def sys_write_def calm_flow_def Let_def
          split: bind_splits if_splits)
  qed
qed (use assms in \<open>auto simp: fsm_driver_def calm_flow_def\<close>)

lemma calm_frame:
  "rd_script w' (sfd f) = rd_script w (sfd f) \<Longrightarrow> wr_script w' (dfd f) = wr_script w (dfd f) \<Longrightarrow>
   got w' (sfd f) = got w (sfd f) \<Longrightarrow> sent w' (dfd f) = sent w (dfd f) \<Longrightarrow>
   calm_flow g0 s0 G f w' = calm_flow g0 s0 G f w"
  by (simp add: calm_flow_def flow_def)

section \<open>Two machines in opposite directions\<close>

text \<open>
  A step drives one of the two machines, or is a step of the world that neither delivers nor
  accepts bytes (a \<open>select\<close>, a diagnostic).
\<close>

inductive pair_step ::
  "fsm_st \<times> fsm_st \<times> world \<Rightarrow> fsm_st \<times> fsm_st \<times> world \<Rightarrow> bool" where
  drive12: "fsm_driver f12 w = Some (f12', w') \<Longrightarrow> pair_step (f12, f21, w) (f12', f21, w')"
| drive21: "fsm_driver f21 w = Some (f21', w') \<Longrightarrow> pair_step (f12, f21, w) (f12, f21', w')"
| other: "got w' = got w \<Longrightarrow> sent w' = sent w \<Longrightarrow> rd_script w' = rd_script w \<Longrightarrow>
    wr_script w' = wr_script w \<Longrightarrow> flags w' = flags w \<Longrightarrow> pair_step (f12, f21, w) (f12, f21, w')"

inductive_cases pair_stepE: "pair_step (f12, f21, w) (f12', f21', w')"

definition opposite :: "fsm_st \<Rightarrow> fsm_st \<Rightarrow> bool" where
  "opposite f12 f21 \<longleftrightarrow> sfd f12 \<noteq> dfd f12 \<and> sfd f21 = dfd f12 \<and> dfd f21 = sfd f12"

text \<open>The invariant of the pair, from the logs \<open>g\<close> and \<open>s\<close> at the start.\<close>

definition relay_inv ::
  "(int \<Rightarrow> byte list) \<Rightarrow> (int \<Rightarrow> byte list) \<Rightarrow> fsm_st \<times> fsm_st \<times> world \<Rightarrow> bool" where
  "relay_inv g s st \<longleftrightarrow> (case st of (f12, f21, w) \<Rightarrow>
     opposite f12 f21 \<and> flow (g (sfd f12)) (s (dfd f12)) f12 w
     \<and> flow (g (sfd f21)) (s (dfd f21)) f21 w)"

lemma pair_step_inv:
  assumes "pair_step st st'" "relay_inv g s st"
  shows "relay_inv g s st'"
  using assms
proof (induction rule: pair_step.induct)
  case (drive12 f12 w f12' w' f21)
  from drive12.prems have "flow (g (sfd f12)) (s (dfd f12)) f12 w" "opposite f12 f21"
    "flow (g (sfd f21)) (s (dfd f21)) f21 w"
    by (simp_all add: relay_inv_def)
  moreover have "flow (g (sfd f12)) (s (dfd f12)) f12' w'"
    using driver_flow [OF calculation(1)] calculation(2) drive12.hyps
    by (auto simp: opposite_def)
  ultimately show ?case
    using driver_fds [OF drive12.hyps] driver_frame(1,2) [OF drive12.hyps, of "sfd f21"]
      driver_frame(1,2) [OF drive12.hyps, of "dfd f21"]
    by (auto simp: relay_inv_def opposite_def flow_cong [of w' f21 w])
next
  case (drive21 f21 w f21' w' f12)
  from drive21.prems have "flow (g (sfd f21)) (s (dfd f21)) f21 w" "opposite f12 f21"
    "flow (g (sfd f12)) (s (dfd f12)) f12 w"
    by (simp_all add: relay_inv_def)
  moreover have "flow (g (sfd f21)) (s (dfd f21)) f21' w'"
    using driver_flow [OF calculation(1)] calculation(2) drive21.hyps
    by (auto simp: opposite_def)
  ultimately show ?case
    using driver_fds [OF drive21.hyps] driver_frame(1,2) [OF drive21.hyps, of "sfd f12"]
      driver_frame(1,2) [OF drive21.hyps, of "dfd f12"]
    by (auto simp: relay_inv_def opposite_def flow_cong [of w' f12 w])
next
  case (other w' w f12 f21)
  then show ?case
    by (auto simp: relay_inv_def flow_cong [of w' f12 w] flow_cong [of w' f21 w])
qed

lemma pair_steps_inv: "pair_step\<^sup>*\<^sup>* st st' \<Longrightarrow> relay_inv g s st \<Longrightarrow> relay_inv g s st'"
  by (induction rule: rtranclp_induct) (auto intro: pair_step_inv)

text \<open>Completeness of the pair: \<open>G\<close> and \<open>H\<close> are what the two sources deliver.\<close>

definition pair_calm :: "(int \<Rightarrow> byte list) \<Rightarrow> (int \<Rightarrow> byte list) \<Rightarrow> byte list \<Rightarrow> byte list \<Rightarrow>
    fsm_st \<times> fsm_st \<times> world \<Rightarrow> bool" where
  "pair_calm g s G H st \<longleftrightarrow> relay_inv g s st \<and> (case st of (f12, f21, w) \<Rightarrow>
     calm_flow (g (sfd f12)) (s (dfd f12)) G f12 w \<and> calm_flow (g (sfd f21)) (s (dfd f21)) H f21 w)"

lemma pair_step_calm:
  assumes "pair_step st st'" "pair_calm g s G H st"
  shows "pair_calm g s G H st'"
proof -
  have inv: "relay_inv g s st'"
    using assms pair_step_inv by (auto simp: pair_calm_def)
  from assms show ?thesis
  proof (induction rule: pair_step.induct)
    case (drive12 f12 w f12' w' f21)
    then have "calm_flow (g (sfd f12)) (s (dfd f12)) G f12' w'"
      by (intro driver_calm [OF drive12.hyps]) (auto simp: pair_calm_def relay_inv_def opposite_def)
    moreover have "calm_flow (g (sfd f21)) (s (dfd f21)) H f21 w'"
      using drive12.prems driver_frame [OF drive12.hyps]
      by (subst calm_frame [of _ _ w]) (auto simp: pair_calm_def relay_inv_def opposite_def)
    ultimately show ?case
      using pair_step_inv [OF pair_step.drive12, OF drive12.hyps] drive12.prems
        driver_fds [OF drive12.hyps] by (auto simp: pair_calm_def)
  next
    case (drive21 f21 w f21' w' f12)
    then have "calm_flow (g (sfd f21)) (s (dfd f21)) H f21' w'"
      by (intro driver_calm [OF drive21.hyps]) (auto simp: pair_calm_def relay_inv_def opposite_def)
    moreover have "calm_flow (g (sfd f12)) (s (dfd f12)) G f12 w'"
      using drive21.prems driver_frame [OF drive21.hyps]
      by (subst calm_frame [of _ _ w]) (auto simp: pair_calm_def relay_inv_def opposite_def)
    ultimately show ?case
      using pair_step_inv [OF pair_step.drive21, OF drive21.hyps] drive21.prems
        driver_fds [OF drive21.hyps] by (auto simp: pair_calm_def)
  next
    case (other w' w f12 f21)
    then show ?case
      using pair_step_inv [OF pair_step.other [OF other.hyps]]
      by (auto simp: pair_calm_def calm_frame [of w' _ w])
  qed
qed

lemma pair_steps_calm: "pair_step\<^sup>*\<^sup>* st st' \<Longrightarrow> pair_calm g s G H st \<Longrightarrow> pair_calm g s G H st'"
  by (induction rule: rtranclp_induct) (auto intro: pair_step_calm)

text \<open>Progress of the pair.\<close>

definition pair_live :: "fsm_st \<times> fsm_st \<times> world \<Rightarrow> bool" where
  "pair_live st \<longleftrightarrow> (case st of (f12, f21, w) \<Rightarrow> live f12 w \<and> live f21 w)"

definition pair_weight :: "fsm_st \<times> fsm_st \<times> world \<Rightarrow> nat" where
  "pair_weight st = (case st of (f12, f21, w) \<Rightarrow> mach_weight f12 w + mach_weight f21 w)"

lemma drive12_progress:
  assumes "fsm_driver f12 w = Some (f12', w')" "opposite f12 f21" "pair_live (f12, f21, w)"
  shows "pair_live (f12', f21, w') \<and> (if state f12 = STATE_T then f12' = f12 \<and> w' = w
    else pair_weight (f12', f21, w') < pair_weight (f12, f21, w))"
  using driver_progress [OF assms(1)] assms(2,3) driver_frame [OF assms(1)] mach_frame [of w' f21 w]
  by (auto simp: pair_live_def pair_weight_def opposite_def)

lemma drive21_progress:
  assumes "fsm_driver f21 w = Some (f21', w')" "opposite f12 f21" "pair_live (f12, f21, w)"
  shows "pair_live (f12, f21', w') \<and> (if state f21 = STATE_T then f21' = f21 \<and> w' = w
    else pair_weight (f12, f21', w') < pair_weight (f12, f21, w))"
  using driver_progress [OF assms(1)] assms(2,3) driver_frame [OF assms(1)] mach_frame [of w' f12 w]
  by (auto simp: pair_live_def pair_weight_def opposite_def)

lemma pair_step_live:
  assumes "pair_step st st'" "relay_inv g s st" "pair_live st"
  shows "pair_live st' \<and> pair_weight st' \<le> pair_weight st"
  using assms
proof (induction rule: pair_step.induct)
  case (drive12 f12 w f12' w' f21)
  then show ?case using drive12_progress [OF drive12.hyps, of f21]
    by (auto simp: relay_inv_def split: if_splits)
next
  case (drive21 f21 w f21' w' f12)
  then show ?case using drive21_progress [OF drive21.hyps, of f12]
    by (auto simp: relay_inv_def split: if_splits)
next
  case (other w' w f12 f21)
  then show ?case using mach_frame [of w' _ w] by (auto simp: pair_live_def pair_weight_def)
qed

text \<open>The conditional drive of a program: "if the machine may move then drive it".\<close>

definition drive12 :: "bool \<Rightarrow> fsm_st \<times> fsm_st \<times> world \<Rightarrow> (fsm_st \<times> fsm_st \<times> world) option" where
  "drive12 c st = (case st of (f12, f21, w) \<Rightarrow>
     if c then do { (f', w') \<leftarrow> fsm_driver f12 w; Some (f', f21, w') } else Some st)"

definition drive21 :: "bool \<Rightarrow> fsm_st \<times> fsm_st \<times> world \<Rightarrow> (fsm_st \<times> fsm_st \<times> world) option" where
  "drive21 c st = (case st of (f12, f21, w) \<Rightarrow>
     if c then do { (f', w') \<leftarrow> fsm_driver f21 w; Some (f12, f', w') } else Some st)"

lemma drive12_step: "drive12 c st = Some st' \<Longrightarrow> pair_step\<^sup>*\<^sup>* st st'"
  by (auto simp: drive12_def split: if_splits bind_splits prod.splits
      intro: r_into_rtranclp pair_step.drive12)

lemma drive21_step: "drive21 c st = Some st' \<Longrightarrow> pair_step\<^sup>*\<^sup>* st st'"
  by (auto simp: drive21_def split: if_splits bind_splits prod.splits
      intro: r_into_rtranclp pair_step.drive21)

text \<open>A drive is always defined and moves a machine that is not finished.\<close>

lemma drive12_total:
  assumes "relay_inv g s st" "pair_live st"
  shows "\<exists>st'. drive12 c st = Some st' \<and> relay_inv g s st' \<and> pair_live st'
    \<and> fst (snd st') = fst (snd st)
    \<and> (if c \<and> state (fst st) \<noteq> STATE_T then pair_weight st' < pair_weight st else st' = st)"
proof (cases st)
  case (fields f12 f21 w)
  from assms(1) fields have fl: "flow (g (sfd f12)) (s (dfd f12)) f12 w" and op: "opposite f12 f21"
    by (auto simp: relay_inv_def)
  from driver_flow [OF fl] op obtain f' w' where d: "fsm_driver f12 w = Some (f', w')"
    by (auto simp: opposite_def)
  from d pair_step_inv [OF pair_step.drive12 [OF d], of g s f21] drive12_progress [OF d op] assms fields
  show ?thesis by (auto simp: drive12_def split: if_splits)
qed

lemma drive21_total:
  assumes "relay_inv g s st" "pair_live st"
  shows "\<exists>st'. drive21 c st = Some st' \<and> relay_inv g s st' \<and> pair_live st'
    \<and> (if c \<and> state (fst (snd st)) \<noteq> STATE_T then pair_weight st' < pair_weight st else st' = st)"
proof (cases st)
  case (fields f12 f21 w)
  from assms(1) fields have fl: "flow (g (sfd f21)) (s (dfd f21)) f21 w" and op: "opposite f12 f21"
    by (auto simp: relay_inv_def)
  from driver_flow [OF fl] op obtain f' w' where d: "fsm_driver f21 w = Some (f', w')"
    by (auto simp: opposite_def)
  from d pair_step_inv [OF pair_step.drive21 [OF d], of g s f12] drive21_progress [OF d op] assms fields
  show ?thesis by (auto simp: drive21_def split: if_splits)
qed

section \<open>The interface to the programs\<close>

text \<open>
  A relay engine is a loop whose rounds, whatever the readiness calls answer, consist of steps
  of the two machines. \<open>st\<close> reads the machines and the world off the state of the program.
\<close>

locale relay_engine =
  fixes running :: "'p \<Rightarrow> bool"
    and round :: "'p \<Rightarrow> 'p option"
    and st :: "'p \<Rightarrow> fsm_st \<times> fsm_st \<times> world"
  assumes round_steps: "round p = Some p' \<Longrightarrow> pair_step\<^sup>*\<^sup>* (st p) (st p')"
begin

lemma round_inv: "round p = Some p' \<Longrightarrow> relay_inv g s (st p) \<Longrightarrow> relay_inv g s (st p')"
  by (rule pair_steps_inv [OF round_steps])

lemma round_calm: "round p = Some p' \<Longrightarrow> pair_calm g s G H (st p) \<Longrightarrow> pair_calm g s G H (st p')"
  by (rule pair_steps_calm [OF round_steps])

text \<open>No byte is lost, duplicated, invented or reordered, in any number of rounds.\<close>

lemma loop_inv:
  assumes "c_while running round p = Some p'" "relay_inv g s (st p)"
  shows "relay_inv g s (st p') \<and> \<not> running p'"
  using c_while_inv [of running round p p' "\<lambda>p. relay_inv g s (st p)"] assms round_inv by blast

lemma loop_steps:
  assumes "c_while running round p = Some p'"
  shows "pair_step\<^sup>*\<^sup>* (st p) (st p')"
  using c_while_inv [of running round p p' "\<lambda>q. pair_step\<^sup>*\<^sup>* (st p) (st q)"] assms
    rtranclp_trans [OF _ round_steps] by blast

lemma loop_calm:
  assumes "c_while running round p = Some p'" "pair_calm g s G H (st p)"
  shows "pair_calm g s G H (st p') \<and> \<not> running p'"
  using c_while_inv [of running round p p' "\<lambda>p. pair_calm g s G H (st p)"] assms round_calm by blast

end

text \<open>
  An engine that makes progress: each round moves a machine or uses up one of the \<open>budget\<close>
  answers of the readiness call that move nothing.
\<close>

locale progress_engine = relay_engine running round st
  for running :: "'p \<Rightarrow> bool" and round :: "'p \<Rightarrow> 'p option"
    and st :: "'p \<Rightarrow> fsm_st \<times> fsm_st \<times> world" +
  fixes good :: "'p \<Rightarrow> bool"
    and budget :: "'p \<Rightarrow> nat"
  assumes round_progress: "relay_inv g s (st p) \<Longrightarrow> pair_live (st p) \<Longrightarrow> good p \<Longrightarrow> running p \<Longrightarrow>
    \<exists>p'. round p = Some p' \<and> good p' \<and> pair_live (st p') \<and>
      pair_weight (st p') + budget p' < pair_weight (st p) + budget p"
begin

lemma loop_terminates:
  assumes "relay_inv g s (st p)" "pair_live (st p)" "good p"
  shows "\<exists>p'. c_while running round p = Some p' \<and> good p' \<and> \<not> running p'"
proof -
  let ?I = "\<lambda>p. relay_inv g s (st p) \<and> pair_live (st p) \<and> good p"
  have "\<exists>t. c_while running round p = Some t \<and> ?I t \<and> \<not> running t"
  proof (rule c_while_total [where I = ?I and m = "\<lambda>p. pair_weight (st p) + budget p"])
    fix q assume "?I q" "running q"
    with round_progress [of g s q] round_inv [of q _ g s]
    show "\<exists>q'. round q = Some q' \<and> ?I q' \<and> pair_weight (st q') + budget q' < pair_weight (st q) + budget q"
      by blast
  qed (use assms in blast)
  then show ?thesis by blast
qed

end

text \<open>What the invariant says about the logs: the bytes written are a prefix of the bytes read.\<close>

lemma flow_prefix:
  assumes "flow g0 s0 f w"
  shows "\<exists>x. sent w (dfd f) = s0 @ x \<and> prefix (g0 @ x) (got w (sfd f))"
proof -
  from assms obtain X Y where XY: "got w (sfd f) = g0 @ X" "sent w (dfd f) = s0 @ Y"
    by (auto simp: flow_def prefix_def)
  with assms have "prefix Y X"
    by (auto simp: flow_def Let_def split: fsm_state.splits)
  with XY show ?thesis by auto
qed

end
