(* ===== verification/Relay.thy ===== *)
theory Relay
  imports RelayFsm
begin

text \<open>
  The busy-polling relay \<open>io/adv/nonblock/relay.c\<close>: \<open>relay\<close> switches both descriptors to
  non-blocking mode, drives the two machines in turn until both are finished, and restores the
  descriptor flags. The theorems: whatever the environment does the bytes written to one side are
  a prefix of the bytes read from the other; the loop ends when both sides reach their end of
  file; and without errors other than "try again" everything is relayed.
\<close>

section \<open>The program\<close>

abbreviation machines :: "fsm_st \<times> fsm_st \<times> world \<Rightarrow> fsm_st \<times> fsm_st" where
  "machines p \<equiv> (fst p, fst (snd p))"

definition relay_running :: "fsm_st \<times> fsm_st \<times> world \<Rightarrow> bool" where
  "relay_running p = (case p of (fsm12, fsm21, w) \<Rightarrow> state fsm12 \<noteq> STATE_T \<or> state fsm21 \<noteq> STATE_T)"

definition relay_round :: "fsm_st \<times> fsm_st \<times> world \<Rightarrow> (fsm_st \<times> fsm_st \<times> world) option" where
  "relay_round p = (case p of (fsm12, fsm21, w) \<Rightarrow> do {
     (fsm12, w) \<leftarrow> fsm_driver fsm12 w;
     (fsm21, w) \<leftarrow> fsm_driver fsm21 w;
     Some (fsm12, fsm21, w) })"

text \<open>
  The two machines are local variables: \<open>j12\<close> and \<open>j21\<close> are their uninitialised contents. Every
  version of \<open>relay\<close> starts with the same statements.
\<close>

definition fsm_init :: "fsm_st \<Rightarrow> int \<Rightarrow> int \<Rightarrow> fsm_st" where
  "fsm_init j fd1 fd2 = j\<lparr>state := STATE_R, sfd := fd1, dfd := fd2\<rparr>"

definition set_nonblock :: "int \<Rightarrow> world \<Rightarrow> int \<times> world" where
  "set_nonblock fd w =
     (let save = fcntl_getfl fd w in (save, fcntl_setfl fd (save OR O_NONBLOCK) w))"

definition relay :: "fsm_st \<Rightarrow> fsm_st \<Rightarrow> int \<Rightarrow> int \<Rightarrow> world \<Rightarrow> world option" where
  "relay j12 j21 fd1 fd2 w =
     (let (fd1_save, w) = set_nonblock fd1 w;
          (fd2_save, w) = set_nonblock fd2 w
      in do {
        (fsm12, fsm21, w) \<leftarrow>
          c_while relay_running relay_round (fsm_init j12 fd1 fd2, fsm_init j21 fd2 fd1, w);
        let w = fcntl_setfl fd1 fd1_save w;
        Some (fcntl_setfl fd2 fd2_save w) })"

text \<open>
  \<open>main\<close>: \<open>open1\<close> and \<open>open2\<close> are the results of the two calls of \<open>open\<close>. The result is the exit
  status and the world.
\<close>

definition relay_main ::
  "(int \<Rightarrow> int \<Rightarrow> world \<Rightarrow> world outcome option) \<Rightarrow> int \<Rightarrow> int \<Rightarrow> world \<Rightarrow> (int \<times> world) option" where
  "relay_main rel open1 open2 w =
     (if open1 < 0 then Some (1, perror ''opne()'' w)
      else let w = snd (sys_write open1 ''TTY1\<newline>'' w)
       in if open2 < 0 then Some (1, perror ''open()'' w)
       else let w = snd (sys_write open2 ''TTY2\<newline>'' w)
         in do {
           r \<leftarrow> rel open1 open2 w;
           case r of
             Exit n w \<Rightarrow> Some (n, w)
           | Done w \<Rightarrow> Some (0, sys_close open2 (sys_close open1 w)) })"


definition relay_prog :: "fsm_st \<Rightarrow> fsm_st \<Rightarrow> int \<Rightarrow> int \<Rightarrow> world \<Rightarrow> (int \<times> world) option" where
  "relay_prog j12 j21 open1 open2 w =
     relay_main (\<lambda>fd1 fd2 w. map_option Done (relay j12 j21 fd1 fd2 w)) open1 open2 w"

section \<open>The start of a relay\<close>

lemma set_nonblock_eq:
  "set_nonblock fd w = (flags w fd, w\<lparr>flags := (flags w)(fd := flags w fd OR O_NONBLOCK)\<rparr>)"
  by (simp add: set_nonblock_def fcntl_getfl_def fcntl_setfl_def Let_def)

lemma start_inv:
  assumes "fd1 \<noteq> fd2" "length (buf j12) = BUFSIZE" "length (buf j21) = BUFSIZE"
  shows "relay_inv (got w) (sent w) (fsm_init j12 fd1 fd2, fsm_init j21 fd2 fd1, w)"
  using assms by (simp add: relay_inv_def fsm_init_def opposite_def flow_def)

lemma start_live:
  "has_eof (rd_script w fd1) \<Longrightarrow> has_eof (rd_script w fd2) \<Longrightarrow>
   pair_live (fsm_init j12 fd1 fd2, fsm_init j21 fd2 fd1, w)"
  by (simp add: pair_live_def live_def fsm_init_def)

lemma start_calm:
  assumes "fd1 \<noteq> fd2" "length (buf j12) = BUFSIZE" "length (buf j21) = BUFSIZE"
    "rd_calm (rd_script w fd1)" "rd_calm (rd_script w fd2)"
    "wr_calm (wr_script w fd1)" "wr_calm (wr_script w fd2)"
  shows "pair_calm (got w) (sent w) (got w fd1 @ before_eof (rd_script w fd1))
    (got w fd2 @ before_eof (rd_script w fd2)) (fsm_init j12 fd1 fd2, fsm_init j21 fd2 fd1, w)"
  using start_inv [OF assms(1-3)] assms
  by (simp add: pair_calm_def calm_flow_def fsm_init_def)

text \<open>The end of a calm relay: both machines are finished and everything is written.\<close>

lemma calm_end:
  assumes "calm_flow g0 s0 (g0 @ x) f w" "state f = STATE_T"
  shows "sent w (dfd f) = s0 @ x"
proof -
  from assms have "got w (sfd f) = g0 @ x" and fl: "flow g0 s0 (f\<lparr>state := STATE_R\<rparr>) w"
    by (auto simp: calm_flow_def)
  with fl show ?thesis by (auto simp: flow_def prefix_def Let_def)
qed

text \<open>The descriptors of the machines and the flags never change under the machines.\<close>

lemma pair_step_fds:
  "pair_step st st' \<Longrightarrow> st = (f12, f21, w) \<Longrightarrow> st' = (f12', f21', w') \<Longrightarrow>
   flags w' = flags w \<and> sfd f12' = sfd f12 \<and> dfd f12' = dfd f12 \<and> sfd f21' = sfd f21 \<and> dfd f21' = dfd f21"
  by (induction rule: pair_step.induct) (auto dest: driver_fds driver_frame(5))

lemma pair_steps_fds:
  "pair_step\<^sup>*\<^sup>* (f12, f21, w) (f12', f21', w') \<Longrightarrow>
   flags w' = flags w \<and> sfd f12' = sfd f12 \<and> dfd f12' = dfd f12 \<and> sfd f21' = sfd f21 \<and> dfd f21' = dfd f21"
proof (induction "(f12', f21', w')" arbitrary: f12' f21' w' rule: rtranclp_induct)
  case base
  then show ?case by simp
next
  case (step y)
  obtain a b c where y: "y = (a, b, c)" by (cases y)
  with step pair_step_fds [OF step(2) y refl] show ?case by auto
qed

section \<open>The loop as a relay engine\<close>

lemma relay_round_drive:
  "relay_round p = Option.bind (drive12 True p) (drive21 True)"
  by (cases p) (auto simp: relay_round_def drive12_def drive21_def split: prod.split bind_split)

interpretation nb_relay: progress_engine relay_running relay_round "\<lambda>p. p" "\<lambda>_. True" "\<lambda>_. 0"
proof (unfold_locales, goal_cases)
  case (1 p p')
  then show ?case
    by (auto simp: relay_round_drive bind_eq_Some_conv
        dest!: drive12_step drive21_step intro: rtranclp_trans)
next
  case (2 g s p)
  obtain q where q: "drive12 True p = Some q" "relay_inv g s q" "pair_live q" "fst (snd q) = fst (snd p)"
    "if state (fst p) \<noteq> STATE_T then pair_weight q < pair_weight p else q = p"
    using drive12_total [OF 2(1,2), of True] by auto
  obtain r where r: "drive21 True q = Some r" "pair_live r"
    "if state (fst (snd q)) \<noteq> STATE_T then pair_weight r < pair_weight q else r = q"
    using drive21_total [OF q(2,3), of True] by auto
  from 2(4) have "state (fst p) \<noteq> STATE_T \<or> state (fst (snd q)) \<noteq> STATE_T"
    by (cases p) (simp add: relay_running_def q(4))
  with q r show ?case by (auto simp: relay_round_drive split: if_splits)
qed

section \<open>Correctness of \<open>relay\<close>\<close>

text \<open>The world in which the loop runs, and the flags it leaves behind.\<close>

definition nonblock_world :: "int \<Rightarrow> int \<Rightarrow> world \<Rightarrow> world" where
  "nonblock_world fd1 fd2 w = snd (set_nonblock fd2 (snd (set_nonblock fd1 w)))"

lemma nonblock_world_simps [simp]:
  "got (nonblock_world fd1 fd2 w) = got w" "sent (nonblock_world fd1 fd2 w) = sent w"
  "rd_script (nonblock_world fd1 fd2 w) = rd_script w"
  "wr_script (nonblock_world fd1 fd2 w) = wr_script w"
  by (simp_all add: nonblock_world_def set_nonblock_eq)

lemma relay_unfold:
  assumes "fd1 \<noteq> fd2"
  shows "relay j12 j21 fd1 fd2 w = do {
    (fsm12, fsm21, w') \<leftarrow> c_while relay_running relay_round
      (fsm_init j12 fd1 fd2, fsm_init j21 fd2 fd1, nonblock_world fd1 fd2 w);
    Some (fcntl_setfl fd2 (flags w fd2) (fcntl_setfl fd1 (flags w fd1) w')) }"
  using assms by (simp add: relay_def nonblock_world_def set_nonblock_eq Let_def)

lemma fcntl_setfl_simps [simp]:
  "got (fcntl_setfl fd v w) = got w" "sent (fcntl_setfl fd v w) = sent w"
  by (simp_all add: fcntl_setfl_def)


lemma restore_flags:
  assumes "fd1 \<noteq> fd2" "flags v = flags (nonblock_world fd1 fd2 w)"
  shows "flags (fcntl_setfl fd2 (flags w fd2) (fcntl_setfl fd1 (flags w fd1) v)) = flags w"
  using assms by (simp add: fcntl_setfl_def nonblock_world_def set_nonblock_eq fun_eq_iff)

lemma relay_loop_ends:
  assumes "fd1 \<noteq> fd2" "length (buf j12) = BUFSIZE" "length (buf j21) = BUFSIZE"
    and "has_eof (rd_script w fd1)" "has_eof (rd_script w fd2)"
  shows "\<exists>f12 f21 w'. c_while relay_running relay_round
      (fsm_init j12 fd1 fd2, fsm_init j21 fd2 fd1, w) = Some (f12, f21, w')
    \<and> state f12 = STATE_T \<and> state f21 = STATE_T \<and> flags w' = flags w
    \<and> sfd f12 = fd1 \<and> dfd f12 = fd2 \<and> sfd f21 = fd2 \<and> dfd f21 = fd1"
proof -
  let ?p = "(fsm_init j12 fd1 fd2, fsm_init j21 fd2 fd1, w)"
  obtain f12 f21 w' where loop: "c_while relay_running relay_round ?p = Some (f12, f21, w')"
    and "\<not> relay_running (f12, f21, w')"
    using nb_relay.loop_terminates [OF start_inv [OF assms(1-3), of w]] start_live [OF assms(4,5)]
    by (metis prod_cases3)
  with pair_steps_fds [OF nb_relay.loop_steps [OF loop]] show ?thesis
    by (auto simp: relay_running_def fsm_init_def)
qed

text \<open>\<open>relay\<close> returns whenever both sides eventually report the end of their data, however
  often reads and writes are refused and whatever errors occur, and it restores the status flags
  of both descriptors.\<close>

lemma relay_returns:
  assumes "fd1 \<noteq> fd2" "length (buf j12) = BUFSIZE" "length (buf j21) = BUFSIZE"
    and "has_eof (rd_script w fd1)" "has_eof (rd_script w fd2)"
  shows "\<exists>w'. relay j12 j21 fd1 fd2 w = Some w' \<and> flags w' = flags w"
proof -
  have "flags (nonblock_world fd1 fd2 w) =
      (flags w)(fd1 := flags w fd1 OR O_NONBLOCK, fd2 := flags w fd2 OR O_NONBLOCK)"
    using assms(1) by (simp add: nonblock_world_def set_nonblock_eq)
  with relay_loop_ends [OF assms(1-3), of "nonblock_world fd1 fd2 w"] assms(1,4,5) show ?thesis
    by (auto simp: relay_unfold fcntl_setfl_def fun_eq_iff)
qed

text \<open>C1: when the only errors are \<open>EAGAIN\<close>, \<open>relay\<close> delivers to each side exactly the bytes the
  other side produced before its end of file, complete and in order, across any pattern of
  partial reads, partial writes and refusals.\<close>

lemma relay_complete:
  assumes "fd1 \<noteq> fd2" "length (buf j12) = BUFSIZE" "length (buf j21) = BUFSIZE"
    and "has_eof (rd_script w fd1)" "has_eof (rd_script w fd2)"
    and "rd_calm (rd_script w fd1)" "rd_calm (rd_script w fd2)"
    and "wr_calm (wr_script w fd1)" "wr_calm (wr_script w fd2)"
  shows "\<exists>w'. relay j12 j21 fd1 fd2 w = Some w'
    \<and> sent w' fd2 = sent w fd2 @ before_eof (rd_script w fd1)
    \<and> sent w' fd1 = sent w fd1 @ before_eof (rd_script w fd2)"
proof -
  let ?v = "nonblock_world fd1 fd2 w"
  obtain f12 f21 w' where loop: "c_while relay_running relay_round
      (fsm_init j12 fd1 fd2, fsm_init j21 fd2 fd1, ?v) = Some (f12, f21, w')"
    and T: "state f12 = STATE_T" "state f21 = STATE_T"
    and fds: "sfd f12 = fd1" "dfd f12 = fd2" "sfd f21 = fd2" "dfd f21 = fd1"
    using relay_loop_ends [OF assms(1-3), of ?v] assms(4,5) by auto
  from nb_relay.loop_calm [OF loop start_calm [OF assms(1-3)]] assms(6-9)
  have "pair_calm (got w) (sent w) (got w fd1 @ before_eof (rd_script w fd1))
      (got w fd2 @ before_eof (rd_script w fd2)) (f12, f21, w')" by simp
  with T fds calm_end [of "got w fd1" "sent w fd2" _ f12 w'] calm_end [of "got w fd2" "sent w fd1" _ f21 w']
  have "sent w' fd2 = sent w fd2 @ before_eof (rd_script w fd1)"
    "sent w' fd1 = sent w fd1 @ before_eof (rd_script w fd2)"
    by (simp_all add: pair_calm_def)
  with loop show ?thesis by (simp add: relay_unfold [OF assms(1)])
qed

section \<open>A concrete run\<close>

text \<open>
  Descriptor 3 delivers "hi", refuses once and ends; descriptor 4 accepts one byte, refuses once,
  and has nothing to say.
\<close>

definition demo_world :: world where
  "demo_world = \<lparr>rd_script = (\<lambda>fd. if fd = 3 then [RdData ''hi'', RdErr EAGAIN, RdData []] else [RdData []]),
     wr_script = (\<lambda>fd. if fd = 4 then [WrTake 1, WrErr EAGAIN] else []),
     flags = (\<lambda>_. 2), errno = 0, got = (\<lambda>_. []), sent = (\<lambda>_. []), diag = [], closed = []\<rparr>"

definition demo_fsm :: fsm_st where
  "demo_fsm = \<lparr>state = STATE_T, sfd = 0, dfd = 0, buf = replicate BUFSIZE (CHR 0x00), len = 0, pos = 0,
     errstr = None\<rparr>"

lemmas demo_defs = demo_world_def demo_fsm_def

lemma relay_returns_witness: "\<exists>w'. relay demo_fsm demo_fsm 3 4 demo_world = Some w' \<and> flags w' = (\<lambda>_. 2)"
  using relay_returns [of 3 4 demo_fsm demo_fsm demo_world] by (simp add: demo_defs)

lemma relay_complete_witness:
  "\<exists>w'. relay demo_fsm demo_fsm 3 4 demo_world = Some w' \<and> sent w' 4 = ''hi'' \<and> sent w' 3 = []"
  using relay_complete [of 3 4 demo_fsm demo_fsm demo_world] by (simp add: demo_defs)

lemma demo_relay_defined: "relay demo_fsm demo_fsm 3 4 demo_world \<noteq> None"
  by (rule ccontr) (use relay_loop_ends [of 3 4 demo_fsm demo_fsm "nonblock_world 3 4 demo_world"] in
    \<open>auto simp: relay_unfold demo_defs\<close>)


end
