(* ===== verification/RelaySelect.thy ===== *)
theory RelaySelect
  imports Relay
begin

text \<open>
  The relay over \<open>select\<close> (\<open>io/adv/select/relay.c\<close>): the machines are driven only when their
  descriptor is ready. The replies of \<open>select\<close> are a script, like those of \<open>read\<close> and \<open>write\<close>: an
  error number, or the descriptors it reports, of which the call delivers those that were asked
  for. Once the script is exhausted everything asked for is reported ready. The theory also holds
  what the three multiplexed relays share: the part of the state every one of them has, and the
  progress lemma of two conditional drives.
\<close>

section \<open>What the multiplexed relays share\<close>

text \<open>\<open>halted\<close> is the status a call of \<open>exit\<close> inside the loop ended the program with.\<close>

record engine =
  mach :: "fsm_st \<times> fsm_st \<times> world"
  halted :: "int option"

definition engine_running :: "'a engine_scheme \<Rightarrow> bool" where
  "engine_running p \<longleftrightarrow> halted p = None \<and> relay_running (mach p)"

text \<open>The numbers of the enumeration, for the comparisons with \<open>STATE_AUTO\<close>.\<close>

fun state_num :: "fsm_state \<Rightarrow> int" where
  "state_num STATE_R = 1"
| "state_num STATE_W = 2"
| "state_num STATE_AUTO = 3"
| "state_num STATE_Ex = 4"
| "state_num STATE_T = 5"

definition below_auto :: "fsm_st \<Rightarrow> bool" where
  "below_auto f \<longleftrightarrow> state_num (state f) < state_num STATE_AUTO"

definition above_auto :: "fsm_st \<Rightarrow> bool" where
  "above_auto f \<longleftrightarrow> state_num (state f) > state_num STATE_AUTO"

lemma below_auto_iff: "below_auto f \<longleftrightarrow> state f = STATE_R \<or> state f = STATE_W"
  by (cases "state f") (auto simp: below_auto_def)

lemma above_auto_iff: "above_auto f \<longleftrightarrow> state f = STATE_Ex \<or> state f = STATE_T"
  by (cases "state f") (auto simp: above_auto_def)

text \<open>Two conditional drives in sequence, the second condition on the state of the second machine.\<close>

definition drive_both ::
  "bool \<Rightarrow> bool \<Rightarrow> fsm_st \<times> fsm_st \<times> world \<Rightarrow> (fsm_st \<times> fsm_st \<times> world) option" where
  "drive_both c d p = Option.bind (drive12 c p) (drive21 d)"

lemma drive_both_steps: "drive_both c d p = Some r \<Longrightarrow> pair_step\<^sup>*\<^sup>* p r"
  by (auto simp: drive_both_def bind_eq_Some_conv
      dest!: drive12_step drive21_step intro: rtranclp_trans)

lemma cond_drives:
  "do { (f, v) \<leftarrow> (if c then fsm_driver f12 w else Some (f12, w));
        (h, u) \<leftarrow> (if d then fsm_driver f21 v else Some (f21, v));
        Some (f, h, u) } = drive_both c d (f12, f21, w)"
  by (cases c; cases d) (simp_all add: drive_both_def drive12_def drive21_def split: prod.split bind_split)

lemma drive_both_progress:
  assumes "relay_inv g s p" "pair_live p"
  shows "\<exists>r. drive_both c d p = Some r \<and> pair_live r \<and> pair_weight r \<le> pair_weight p \<and>
    (c \<and> state (fst p) \<noteq> STATE_T \<or> d \<and> state (fst (snd p)) \<noteq> STATE_T \<longrightarrow> pair_weight r < pair_weight p)"
proof -
  obtain q where q: "drive12 c p = Some q" "relay_inv g s q" "pair_live q" "fst (snd q) = fst (snd p)"
    "if c \<and> state (fst p) \<noteq> STATE_T then pair_weight q < pair_weight p else q = p"
    using drive12_total [OF assms, of c] by auto
  obtain r where r: "drive21 d q = Some r" "pair_live r"
    "if d \<and> state (fst (snd q)) \<noteq> STATE_T then pair_weight r < pair_weight q else r = q"
    using drive21_total [OF q(2,3), of d] by auto
  from q r show ?thesis by (auto simp: drive_both_def split: if_splits)
qed

text \<open>Neither machine is in the state no machine ever takes.\<close>

lemma relay_inv_no_auto:
  "relay_inv g s (f12, f21, w) \<Longrightarrow> state f12 \<noteq> STATE_AUTO \<and> state f21 \<noteq> STATE_AUTO"
  by (auto simp: relay_inv_def flow_def Let_def)

lemma perror_steps: "pair_step\<^sup>*\<^sup>* (f12, f21, w) (f12, f21, perror s w)"
  by (rule r_into_rtranclp, rule pair_step.other) (simp_all add: perror_def)

lemma errno_steps: "pair_step\<^sup>*\<^sup>* (f12, f21, w) (f12, f21, w\<lparr>errno := e\<rparr>)"
  by (rule r_into_rtranclp, rule pair_step.other) simp_all

lemma errno_inv [simp]:
  "relay_inv g s (f12, f21, w\<lparr>errno := e\<rparr>) = relay_inv g s (f12, f21, w)"
  "pair_live (f12, f21, w\<lparr>errno := e\<rparr>) = pair_live (f12, f21, w)"
  "pair_weight (f12, f21, w\<lparr>errno := e\<rparr>) = pair_weight (f12, f21, w)"
  by (simp_all add: relay_inv_def flow_def pair_live_def live_def pair_weight_def mach_weight_def)

text \<open>The descriptors of the two machines, which never change.\<close>

definition on_fds :: "int \<Rightarrow> int \<Rightarrow> fsm_st \<times> fsm_st \<times> world \<Rightarrow> bool" where
  "on_fds fd1 fd2 p \<longleftrightarrow> (case p of (f12, f21, w) \<Rightarrow>
     sfd f12 = fd1 \<and> dfd f12 = fd2 \<and> sfd f21 = fd2 \<and> dfd f21 = fd1)"

lemma on_fds_steps: "pair_step\<^sup>*\<^sup>* p q \<Longrightarrow> on_fds fd1 fd2 p \<Longrightarrow> on_fds fd1 fd2 q"
  by (cases p, cases q) (auto simp: on_fds_def dest: pair_steps_fds)

text \<open>The last statements of \<open>relay\<close>, or the \<open>exit\<close> that cut the loop short.\<close>

definition relay_finish :: "int \<Rightarrow> int \<Rightarrow> int \<Rightarrow> int \<Rightarrow> 'a engine_scheme \<Rightarrow> world outcome" where
  "relay_finish fd1 fd1_save fd2 fd2_save p = (case halted p of
       Some n \<Rightarrow> Exit n (snd (snd (mach p)))
     | None \<Rightarrow> Done (fcntl_setfl fd2 fd2_save (fcntl_setfl fd1 fd1_save (snd (snd (mach p))))))"

fun outcome_value :: "'a outcome \<Rightarrow> 'a" where
  "outcome_value (Done x) = x"
| "outcome_value (Exit n x) = x"

lemma outcome_finish [simp]:
  "got (outcome_value (relay_finish fd1 v1 fd2 v2 p)) = got (snd (snd (mach p)))"
  "sent (outcome_value (relay_finish fd1 v1 fd2 v2 p)) = sent (snd (snd (mach p)))"
  by (simp_all add: relay_finish_def split: option.split)

text \<open>
  What every multiplexed relay promises, from the contract of a progressing engine. The start
  state is any state of the loop with two fresh machines.
\<close>

locale mux_engine = progress_engine engine_running round mach good budget
  for round :: "'a engine_scheme \<Rightarrow> 'a engine_scheme option"
    and good :: "'a engine_scheme \<Rightarrow> bool"
    and budget :: "'a engine_scheme \<Rightarrow> nat" +
  assumes good_running: "good p \<Longrightarrow> halted p = None"
begin

lemma mux_safe:
  assumes fds: "fd1 \<noteq> fd2" and bufs: "length (buf j12) = BUFSIZE" "length (buf j21) = BUFSIZE"
    and start: "mach p = (fsm_init j12 fd1 fd2, fsm_init j21 fd2 fd1, w)"
    and loop: "c_while engine_running round p = Some p'"
  shows "\<exists>x y. sent (snd (snd (mach p'))) fd2 = sent w fd2 @ x
      \<and> prefix (got w fd1 @ x) (got (snd (snd (mach p'))) fd1)
      \<and> sent (snd (snd (mach p'))) fd1 = sent w fd1 @ y
      \<and> prefix (got w fd2 @ y) (got (snd (snd (mach p'))) fd2)"
proof -
  obtain f12 f21 v where m: "mach p' = (f12, f21, v)" by (cases "mach p'")
  have "relay_inv (got w) (sent w) (f12, f21, v)"
    using loop_inv [OF loop] start_inv [OF fds bufs, of w] start m by simp
  moreover have "on_fds fd1 fd2 (f12, f21, v)"
    using on_fds_steps [OF loop_steps [OF loop]] start m by (simp add: on_fds_def fsm_init_def)
  ultimately show ?thesis
    using flow_prefix [of "got w fd1" "sent w fd2" f12 v] flow_prefix [of "got w fd2" "sent w fd1" f21 v] m
    by (auto simp: relay_inv_def on_fds_def)
qed

lemma mux_complete:
  assumes fds: "fd1 \<noteq> fd2" and bufs: "length (buf j12) = BUFSIZE" "length (buf j21) = BUFSIZE"
    and eof: "has_eof (rd_script w fd1)" "has_eof (rd_script w fd2)"
    and calm: "rd_calm (rd_script w fd1)" "rd_calm (rd_script w fd2)"
      "wr_calm (wr_script w fd1)" "wr_calm (wr_script w fd2)"
    and start: "mach p = (fsm_init j12 fd1 fd2, fsm_init j21 fd2 fd1, w)" and good: "good p"
  shows "\<exists>p'. c_while engine_running round p = Some p' \<and> halted p' = None
    \<and> flags (snd (snd (mach p'))) = flags w
    \<and> sent (snd (snd (mach p'))) fd2 = sent w fd2 @ before_eof (rd_script w fd1)
    \<and> sent (snd (snd (mach p'))) fd1 = sent w fd1 @ before_eof (rd_script w fd2)"
proof -
  obtain p' where loop: "c_while engine_running round p = Some p'"
    and p': "halted p' = None" "\<not> engine_running p'"
    using loop_terminates [of "got w" "sent w" p] start_inv [OF fds bufs] start_live [OF eof]
      start good good_running by (metis (no_types, lifting))
  obtain f12 f21 v where m: "mach p' = (f12, f21, v)" by (cases "mach p'")
  from p' m have T: "state f12 = STATE_T" "state f21 = STATE_T"
    by (auto simp: engine_running_def relay_running_def)
  have steps: "pair_step\<^sup>*\<^sup>* (fsm_init j12 fd1 fd2, fsm_init j21 fd2 fd1, w) (f12, f21, v)"
    using loop_steps [OF loop] start m by simp
  from pair_steps_fds [OF this] have fds': "sfd f12 = fd1" "dfd f12 = fd2" "sfd f21 = fd2" "dfd f21 = fd1"
    and fl: "flags v = flags w" by (auto simp: fsm_init_def)
  from pair_steps_calm [OF steps start_calm [OF fds bufs calm]] T fds'
    calm_end [of "got w fd1" "sent w fd2" _ f12 v] calm_end [of "got w fd2" "sent w fd1" _ f21 v]
  have "sent v fd2 = sent w fd2 @ before_eof (rd_script w fd1)"
    "sent v fd1 = sent w fd1 @ before_eof (rd_script w fd2)"
    by (simp_all add: pair_calm_def)
  with loop p' m fl show ?thesis by auto
qed

lemma mux_finish:
  assumes fds: "fd1 \<noteq> fd2" and bufs: "length (buf j12) = BUFSIZE" "length (buf j21) = BUFSIZE"
    and eof: "has_eof (rd_script w fd1)" "has_eof (rd_script w fd2)"
    and calm: "rd_calm (rd_script w fd1)" "rd_calm (rd_script w fd2)"
      "wr_calm (wr_script w fd1)" "wr_calm (wr_script w fd2)"
    and start: "mach p = (fsm_init j12 fd1 fd2, fsm_init j21 fd2 fd1, nonblock_world fd1 fd2 w)"
    and good: "good p"
  shows "\<exists>w'. Option.bind (c_while engine_running round p)
      (\<lambda>p. Some (relay_finish fd1 (flags w fd1) fd2 (flags w fd2) p)) = Some (Done w')
    \<and> flags w' = flags w
    \<and> sent w' fd2 = sent w fd2 @ before_eof (rd_script w fd1)
    \<and> sent w' fd1 = sent w fd1 @ before_eof (rd_script w fd2)"
proof -
  have "\<exists>p'. c_while engine_running round p = Some p' \<and> halted p' = None
    \<and> flags (snd (snd (mach p'))) = flags (nonblock_world fd1 fd2 w)
    \<and> sent (snd (snd (mach p'))) fd2 = sent w fd2 @ before_eof (rd_script w fd1)
    \<and> sent (snd (snd (mach p'))) fd1 = sent w fd1 @ before_eof (rd_script w fd2)"
    using mux_complete [OF fds bufs _ _ _ _ _ _ start good] eof calm by simp
  then show ?thesis using restore_flags [OF fds] by (auto simp: relay_finish_def)
qed

end

section \<open>The program over \<open>select\<close>\<close>

datatype sel_reply = SelErr int | SelReady "int list" "int list"

record sel_engine = engine +
  sel_script :: "sel_reply list"

abbreviation FD_SETSIZE :: int where "FD_SETSIZE \<equiv> 1024"

text \<open>\<open>FD_SET\<close> outside the set is undefined.\<close>

definition FD_SET :: "int \<Rightarrow> int set \<Rightarrow> int set option" where
  "FD_SET fd s = (if 0 \<le> fd \<and> fd < FD_SETSIZE then Some (insert fd s) else None)"

text \<open>\<open>select(n, &rset, &wset, NULL, NULL)\<close>: the result, the two sets, \<open>errno\<close>, the rest of the script.\<close>

definition sys_select ::
  "int \<Rightarrow> int set \<Rightarrow> int set \<Rightarrow> sel_reply list \<Rightarrow> int \<times> int set \<times> int set \<times> int \<times> sel_reply list" where
  "sys_select n rset wset script = (case script of
       [] \<Rightarrow> (1, {fd \<in> rset. fd < n}, {fd \<in> wset. fd < n}, 0, [])
     | SelErr e # rs \<Rightarrow> (- 1, rset, wset, e, rs)
     | SelReady rd wr # rs \<Rightarrow>
         (1, {fd \<in> rset. fd < n \<and> fd \<in> set rd}, {fd \<in> wset. fd < n \<and> fd \<in> set wr}, 0, rs))"

text \<open>\<open>max\<close>, and the machine of this file, whose text is that of the busy-polling relay.\<close>

definition sel_max :: "int \<Rightarrow> int \<Rightarrow> int" where
  "sel_max a b = (if a > b then a else b)"

definition sel_fsm_driver :: "fsm_st \<Rightarrow> world \<Rightarrow> (fsm_st \<times> world) option" where
  "sel_fsm_driver fsm w = fsm_driver fsm w"

definition sel_watch :: "fsm_st \<Rightarrow> fsm_st \<Rightarrow> (int set \<times> int set) option" where
  "sel_watch fsm12 fsm21 = do {
     let rset = {};
     let wset = {};
     rset \<leftarrow> (if state fsm12 = STATE_R then FD_SET (sfd fsm12) rset else Some rset);
     wset \<leftarrow> (if state fsm12 = STATE_W then FD_SET (dfd fsm12) wset else Some wset);
     rset \<leftarrow> (if state fsm21 = STATE_R then FD_SET (sfd fsm21) rset else Some rset);
     wset \<leftarrow> (if state fsm21 = STATE_W then FD_SET (dfd fsm21) wset else Some wset);
     Some (rset, wset) }"

definition sel_drive ::
  "int \<Rightarrow> int \<Rightarrow> int set \<Rightarrow> int set \<Rightarrow> fsm_st \<times> fsm_st \<times> world \<Rightarrow> (fsm_st \<times> fsm_st \<times> world) option" where
  "sel_drive fd1 fd2 rset wset p = (case p of (fsm12, fsm21, w) \<Rightarrow> do {
     (fsm12, w) \<leftarrow>
       (if fd1 \<in> rset \<or> fd2 \<in> wset \<or> above_auto fsm12 then sel_fsm_driver fsm12 w else Some (fsm12, w));
     (fsm21, w) \<leftarrow>
       (if fd2 \<in> rset \<or> fd1 \<in> wset \<or> above_auto fsm21 then sel_fsm_driver fsm21 w else Some (fsm21, w));
     Some (fsm12, fsm21, w) })"

definition sel_round :: "int \<Rightarrow> int \<Rightarrow> sel_engine \<Rightarrow> sel_engine option" where
  "sel_round fd1 fd2 p = (case mach p of (fsm12, fsm21, w) \<Rightarrow> do {
     (rset, wset) \<leftarrow> sel_watch fsm12 fsm21;
     if below_auto fsm12 \<or> below_auto fsm21 then
       (case sys_select (sel_max fd1 fd2 + 1) rset wset (sel_script p) of (n, rset, wset, e, rs) \<Rightarrow>
          if n < 0 then
            (if e = EINTR then Some (p\<lparr>mach := (fsm12, fsm21, w\<lparr>errno := e\<rparr>), sel_script := rs\<rparr>)
             else Some (p\<lparr>mach := (fsm12, fsm21, perror ''select()'' (w\<lparr>errno := e\<rparr>)),
                          sel_script := rs, halted := Some 1\<rparr>))
          else do {
            m \<leftarrow> sel_drive fd1 fd2 rset wset (fsm12, fsm21, w);
            Some (p\<lparr>mach := m, sel_script := rs\<rparr>) })
     else do {
       m \<leftarrow> sel_drive fd1 fd2 rset wset (fsm12, fsm21, w);
       Some (p\<lparr>mach := m\<rparr>) } })"

definition sel_relay ::
  "sel_reply list \<Rightarrow> fsm_st \<Rightarrow> fsm_st \<Rightarrow> int \<Rightarrow> int \<Rightarrow> world \<Rightarrow> world outcome option" where
  "sel_relay script j12 j21 fd1 fd2 w =
     (let (fd1_save, w) = set_nonblock fd1 w;
          (fd2_save, w) = set_nonblock fd2 w
      in do {
        p \<leftarrow> c_while engine_running (sel_round fd1 fd2)
          \<lparr>mach = (fsm_init j12 fd1 fd2, fsm_init j21 fd2 fd1, w), halted = None, sel_script = script\<rparr>;
        Some (relay_finish fd1 fd1_save fd2 fd2_save p) })"

definition sel_relay_prog ::
  "sel_reply list \<Rightarrow> fsm_st \<Rightarrow> fsm_st \<Rightarrow> int \<Rightarrow> int \<Rightarrow> world \<Rightarrow> (int \<times> world) option" where
  "sel_relay_prog script j12 j21 = relay_main (sel_relay script j12 j21)"

section \<open>The loop as a relay engine\<close>

lemma sel_drive_eq:
  "sel_drive fd1 fd2 rset wset (f12, f21, w) =
   drive_both (fd1 \<in> rset \<or> fd2 \<in> wset \<or> above_auto f12) (fd2 \<in> rset \<or> fd1 \<in> wset \<or> above_auto f21)
     (f12, f21, w)"
  by (simp only: sel_drive_def sel_fsm_driver_def prod.case cond_drives)

lemma sel_round_steps:
  assumes "sel_round fd1 fd2 p = Some p'"
  shows "pair_step\<^sup>*\<^sup>* (mach p) (mach p')"
proof -
  obtain f12 f21 w where m: "mach p = (f12, f21, w)" by (cases "mach p")
  have per: "pair_step\<^sup>*\<^sup>* (f12, f21, w) (f12, f21, perror s (w\<lparr>errno := e\<rparr>))" for s e
    by (rule rtranclp_trans [OF errno_steps perror_steps])
  from assms m show ?thesis
    by (auto simp: sel_round_def sel_drive_eq bind_eq_Some_conv errno_steps per
        intro: drive_both_steps split: if_splits prod.splits)
qed

definition fd_range :: "int \<Rightarrow> bool" where
  "fd_range fd \<longleftrightarrow> 0 \<le> fd \<and> fd < FD_SETSIZE"

definition sel_good :: "int \<Rightarrow> int \<Rightarrow> sel_engine \<Rightarrow> bool" where
  "sel_good fd1 fd2 p \<longleftrightarrow> halted p = None \<and> on_fds fd1 fd2 (mach p) \<and> fd_range fd1 \<and> fd_range fd2
     \<and> (\<forall>e. SelErr e \<in> set (sel_script p) \<longrightarrow> e = EINTR)"

lemma sel_watch_eq:
  assumes "on_fds fd1 fd2 (f12, f21, w)" "fd_range fd1" "fd_range fd2"
  shows "sel_watch f12 f21 = Some
    ((if state f12 = STATE_R then {fd1} else {}) \<union> (if state f21 = STATE_R then {fd2} else {}),
     (if state f12 = STATE_W then {fd2} else {}) \<union> (if state f21 = STATE_W then {fd1} else {}))"
  using assms by (auto simp: sel_watch_def on_fds_def fd_range_def FD_SET_def)

text \<open>The round when no answer of \<open>select\<close> is left to consume, or when it is not called.\<close>

lemma sel_round_progress:
  assumes "relay_inv g s (mach p)" "pair_live (mach p)" "sel_good fd1 fd2 p" "engine_running p"
  shows "\<exists>p'. sel_round fd1 fd2 p = Some p' \<and> sel_good fd1 fd2 p' \<and> pair_live (mach p') \<and>
    pair_weight (mach p') + length (sel_script p') < pair_weight (mach p) + length (sel_script p)"
proof -
  obtain f12 f21 w where m: "mach p = (f12, f21, w)" by (cases "mach p")
  note good = assms(3) [unfolded sel_good_def m]
  have run: "state f12 \<noteq> STATE_T \<or> state f21 \<noteq> STATE_T"
    using assms(4) m by (simp add: engine_running_def relay_running_def)
  have noauto: "state f12 \<noteq> STATE_AUTO" "state f21 \<noteq> STATE_AUTO"
    using relay_inv_no_auto assms(1) m by auto
  obtain rset wset where sets: "sel_watch f12 f21 = Some (rset, wset)"
    "rset = (if state f12 = STATE_R then {fd1} else {}) \<union> (if state f21 = STATE_R then {fd2} else {})"
    "wset = (if state f12 = STATE_W then {fd2} else {}) \<union> (if state f21 = STATE_W then {fd1} else {})"
    using sel_watch_eq [of fd1 fd2 f12 f21 w] good by blast
  have drive: "\<exists>r. sel_drive fd1 fd2 rs ws (f12, f21, w) = Some r \<and> pair_live r \<and> on_fds fd1 fd2 r
      \<and> pair_weight r \<le> pair_weight (f12, f21, w) \<and>
      ((fd1 \<in> rs \<or> fd2 \<in> ws \<or> above_auto f12) \<and> state f12 \<noteq> STATE_T \<or>
       (fd2 \<in> rs \<or> fd1 \<in> ws \<or> above_auto f21) \<and> state f21 \<noteq> STATE_T \<longrightarrow>
         pair_weight r < pair_weight (f12, f21, w))" for rs ws
    using drive_both_progress [OF assms(1,2) [unfolded m]] drive_both_steps on_fds_steps good
    unfolding sel_drive_eq by (metis fst_conv snd_conv)
  show ?thesis
  proof (cases "below_auto f12 \<or> below_auto f21")
    case False
    with run noauto have "above_auto f12 \<and> state f12 \<noteq> STATE_T \<or> above_auto f21 \<and> state f21 \<noteq> STATE_T"
      by (cases "state f12"; cases "state f21") (auto simp: below_auto_iff above_auto_iff)
    with drive [of rset wset] False sets(1) m good show ?thesis
      by (auto simp: sel_round_def sel_good_def)
  next
    case True
    show ?thesis
    proof (cases "sel_script p")
      case Nil
      define n where "n = sel_max fd1 fd2 + 1"
      have n: "fd1 < n" "fd2 < n" by (auto simp: n_def sel_max_def)
      let ?rs = "{fd \<in> rset. fd < n}" and ?ws = "{fd \<in> wset. fd < n}"
      have "(fd1 \<in> ?rs \<or> fd2 \<in> ?ws \<or> above_auto f12) \<and> state f12 \<noteq> STATE_T \<or>
          (fd2 \<in> ?rs \<or> fd1 \<in> ?ws \<or> above_auto f21) \<and> state f21 \<noteq> STATE_T"
        using True n by (auto simp: sets(2,3) below_auto_iff)
      with drive [of ?rs ?ws] True sets(1) m good Nil show ?thesis
        by (auto simp: sel_round_def sel_good_def sys_select_def n_def)
    next
      case (Cons r rs)
      show ?thesis
      proof (cases r)
        case (SelErr e)
        with Cons good True sets(1) m assms(2) show ?thesis
          by (auto simp: sel_round_def sel_good_def sys_select_def on_fds_def)
      next
        case (SelReady rd wr)
        with drive [of "{fd \<in> rset. fd < sel_max fd1 fd2 + 1 \<and> fd \<in> set rd}"
            "{fd \<in> wset. fd < sel_max fd1 fd2 + 1 \<and> fd \<in> set wr}"] Cons good True sets(1) m
        show ?thesis by (fastforce simp: sel_round_def sel_good_def sys_select_def)
      qed
    qed
  qed
qed

interpretation sel_eng: mux_engine "sel_round fd1 fd2" "sel_good fd1 fd2"
  "\<lambda>p. length (sel_script p)"
  by unfold_locales (auto intro: sel_round_steps dest: sel_round_progress simp: sel_good_def)

section \<open>Correctness\<close>

lemma sel_relay_unfold:
  assumes "fd1 \<noteq> fd2"
  shows "sel_relay script j12 j21 fd1 fd2 w = do {
    p \<leftarrow> c_while engine_running (sel_round fd1 fd2)
      \<lparr>mach = (fsm_init j12 fd1 fd2, fsm_init j21 fd2 fd1, nonblock_world fd1 fd2 w), halted = None,
       sel_script = script\<rparr>;
    Some (relay_finish fd1 (flags w fd1) fd2 (flags w fd2) p) }"
  using assms by (simp add: sel_relay_def nonblock_world_def set_nonblock_eq Let_def)

text \<open>The relay over \<open>select\<close> never loses, invents or reorders a byte, whether it ends
  normally, after errors on a descriptor, or by \<open>exit(1)\<close> when \<open>select\<close> itself fails.\<close>

lemma sel_relay_safe:
  assumes "fd1 \<noteq> fd2" "length (buf j12) = BUFSIZE" "length (buf j21) = BUFSIZE"
    and "sel_relay script j12 j21 fd1 fd2 w = Some r"
  shows "\<exists>x y. sent (outcome_value r) fd2 = sent w fd2 @ x
      \<and> prefix (got w fd1 @ x) (got (outcome_value r) fd1)
      \<and> sent (outcome_value r) fd1 = sent w fd1 @ y
      \<and> prefix (got w fd2 @ y) (got (outcome_value r) fd2)"
proof -
  from assms(4) obtain p where
    "c_while engine_running (sel_round fd1 fd2) \<lparr>mach = (fsm_init j12 fd1 fd2, fsm_init j21 fd2 fd1,
       nonblock_world fd1 fd2 w), halted = None, sel_script = script\<rparr> = Some p"
    "r = relay_finish fd1 (flags w fd1) fd2 (flags w fd2) p"
    by (auto simp: sel_relay_unfold [OF assms(1)] bind_eq_Some_conv)
  with sel_eng.mux_safe [OF assms(1-3) _ this(1)] show ?thesis by simp
qed

text \<open>C30: whatever \<open>select\<close> reports, interruptions by signals included, the relay over \<open>select\<close>
  returns once both sides end, has delivered everything in both directions when reads and writes
  are only ever refused with \<open>EAGAIN\<close>, and restores the flags of both descriptors.\<close>

lemma sel_relay_complete:
  assumes "fd1 \<noteq> fd2" "length (buf j12) = BUFSIZE" "length (buf j21) = BUFSIZE"
    and "has_eof (rd_script w fd1)" "has_eof (rd_script w fd2)"
    and "rd_calm (rd_script w fd1)" "rd_calm (rd_script w fd2)"
    and "wr_calm (wr_script w fd1)" "wr_calm (wr_script w fd2)"
    and "fd_range fd1" "fd_range fd2" and "\<forall>e. SelErr e \<in> set script \<longrightarrow> e = EINTR"
  shows "\<exists>w'. sel_relay script j12 j21 fd1 fd2 w = Some (Done w') \<and> flags w' = flags w
    \<and> sent w' fd2 = sent w fd2 @ before_eof (rd_script w fd1)
    \<and> sent w' fd1 = sent w fd1 @ before_eof (rd_script w fd2)"
proof -
  let ?p = "\<lparr>mach = (fsm_init j12 fd1 fd2, fsm_init j21 fd2 fd1, nonblock_world fd1 fd2 w),
    halted = None, sel_script = script\<rparr>"
  have "sel_good fd1 fd2 ?p" using assms(10-12) by (simp add: sel_good_def on_fds_def fsm_init_def)
  with sel_eng.mux_finish [OF assms(1-9), of ?p] show ?thesis
    by (simp add: sel_relay_unfold [OF assms(1)])
qed

lemma sel_relay_complete_witness:
  "\<exists>w'. sel_relay [SelErr EINTR, SelReady [3] [], SelReady [] [3]] demo_fsm demo_fsm 3 4 demo_world
      = Some (Done w') \<and> flags w' = (\<lambda>_. 2) \<and> sent w' 4 = ''hi'' \<and> sent w' 3 = []"
  using sel_relay_complete [of 3 4 demo_fsm demo_fsm demo_world
    "[SelErr EINTR, SelReady [3] [], SelReady [] [3]]"]
  by (auto simp: demo_defs fd_range_def)

text \<open>A failing \<open>select\<close> ends the program with status 1 before anything moves.\<close>

lemma sel_relay_exit:
  "\<exists>w'. sel_relay [SelErr ENOMEM] demo_fsm demo_fsm 3 4 demo_world = Some (Exit 1 w') \<and> sent w' = (\<lambda>_. [])"
  by (simp add: sel_relay_unfold c_while_step [where s' = "_::sel_engine"] c_while.simps engine_running_def
    relay_running_def fsm_init_def sel_round_def sel_watch_def FD_SET_def below_auto_iff sys_select_def
    relay_finish_def nonblock_world_def set_nonblock_eq demo_defs perror_def)

lemma sel_relay_safe_witness:
  "\<exists>w' x. sel_relay [SelErr ENOMEM] demo_fsm demo_fsm 3 4 demo_world = Some (Exit 1 w')
     \<and> sent w' 4 = x \<and> prefix x (got w' 3)"
proof -
  obtain w' where "sel_relay [SelErr ENOMEM] demo_fsm demo_fsm 3 4 demo_world = Some (Exit 1 w')"
    using sel_relay_exit by blast
  with sel_relay_safe [of 3 4 demo_fsm demo_fsm _ demo_world, OF _ _ _ this] show ?thesis
    by (auto simp: demo_defs)
qed

end
