(* ===== verification/RelayPoll.thy ===== *)
theory RelayPoll
  imports RelaySelect
begin

text \<open>
  The relays over \<open>poll\<close> (\<open>io/adv/poll/relay.c\<close>) and \<open>epoll\<close> (\<open>io/adv/epoll/relay.c\<close>). Event masks
  are integers with the bit operations of the code. Both programs retry an interrupted call in an
  inner loop without arranging the watch again. As for \<open>select\<close>, the replies are a script, here
  with arbitrary event masks, and the exhausted script reports exactly what was asked for.
\<close>

section \<open>The program over \<open>poll\<close>\<close>

abbreviation POLLIN :: int where "POLLIN \<equiv> 1"
abbreviation POLLOUT :: int where "POLLOUT \<equiv> 4"

datatype poll_reply = PollErr int | PollReady int int

record pollfd =
  pfd_fd :: int
  events :: int
  revents :: int

record poll_engine = engine +
  pfd0 :: pollfd
  pfd1 :: pollfd
  poll_script :: "poll_reply list"

definition poll_fsm_driver :: "fsm_st \<Rightarrow> world \<Rightarrow> (fsm_st \<times> world) option" where
  "poll_fsm_driver fsm w = fsm_driver fsm w"

definition has_bit :: "int \<Rightarrow> int \<Rightarrow> bool" where
  "has_bit v b \<longleftrightarrow> v AND b \<noteq> 0"

text \<open>
  \<open>while (poll(pfd, 2, -1) < 0)\<close>: the first components are the \<open>revents\<close> of the two entries, or the
  error that is not an interruption.
\<close>

fun poll_wait :: "int \<Rightarrow> int \<Rightarrow> poll_reply list \<Rightarrow> (int + int \<times> int) \<times> poll_reply list" where
  "poll_wait e0 e1 [] = (Inr (e0, e1), [])"
| "poll_wait e0 e1 (PollErr e # rs) = (if e = EINTR then poll_wait e0 e1 rs else (Inl e, rs))"
| "poll_wait e0 e1 (PollReady r0 r1 # rs) = (Inr (r0, r1), rs)"

definition poll_arm :: "fsm_st \<Rightarrow> fsm_st \<Rightarrow> pollfd \<Rightarrow> pollfd \<Rightarrow> pollfd \<times> pollfd" where
  "poll_arm fsm12 fsm21 a b =
     (let a = a\<lparr>events := 0\<rparr>;
          b = b\<lparr>events := 0\<rparr>;
          a = (if state fsm12 = STATE_R then a\<lparr>events := events a OR POLLIN\<rparr> else a);
          b = (if state fsm12 = STATE_W then b\<lparr>events := events b OR POLLOUT\<rparr> else b);
          b = (if state fsm21 = STATE_R then b\<lparr>events := events b OR POLLIN\<rparr> else b);
          a = (if state fsm21 = STATE_W then a\<lparr>events := events a OR POLLOUT\<rparr> else a)
      in (a, b))"

definition poll_drive :: "pollfd \<Rightarrow> pollfd \<Rightarrow> fsm_st \<times> fsm_st \<times> world \<Rightarrow> (fsm_st \<times> fsm_st \<times> world) option" where
  "poll_drive a b p = (case p of (fsm12, fsm21, w) \<Rightarrow> do {
     (fsm12, w) \<leftarrow>
       (if has_bit (revents a) POLLIN \<or> has_bit (revents b) POLLOUT \<or> above_auto fsm12
        then poll_fsm_driver fsm12 w else Some (fsm12, w));
     (fsm21, w) \<leftarrow>
       (if has_bit (revents a) POLLOUT \<or> has_bit (revents b) POLLIN \<or> above_auto fsm21
        then poll_fsm_driver fsm21 w else Some (fsm21, w));
     Some (fsm12, fsm21, w) })"

definition poll_round :: "poll_engine \<Rightarrow> poll_engine option" where
  "poll_round p = (case mach p of (fsm12, fsm21, w) \<Rightarrow>
     case poll_arm fsm12 fsm21 (pfd0 p) (pfd1 p) of (a, b) \<Rightarrow>
     if below_auto fsm12 \<or> below_auto fsm21 then
       (case poll_wait (events a) (events b) (poll_script p) of
          (Inl e, rs) \<Rightarrow>
            Some (p\<lparr>mach := (fsm12, fsm21, perror ''poll()'' (w\<lparr>errno := e\<rparr>)), pfd0 := a, pfd1 := b,
                    poll_script := rs, halted := Some 1\<rparr>)
        | (Inr (r0, r1), rs) \<Rightarrow>
            let a = a\<lparr>revents := r0\<rparr>; b = b\<lparr>revents := r1\<rparr> in do {
            m \<leftarrow> poll_drive a b (fsm12, fsm21, w);
            Some (p\<lparr>mach := m, pfd0 := a, pfd1 := b, poll_script := rs\<rparr>) })
     else do {
       m \<leftarrow> poll_drive a b (fsm12, fsm21, w);
       Some (p\<lparr>mach := m, pfd0 := a, pfd1 := b\<rparr>) })"

text \<open>\<open>j0\<close> and \<open>j1\<close> are the uninitialised \<open>pfd\<close> array.\<close>

definition poll_relay ::
  "poll_reply list \<Rightarrow> pollfd \<Rightarrow> pollfd \<Rightarrow> fsm_st \<Rightarrow> fsm_st \<Rightarrow> int \<Rightarrow> int \<Rightarrow> world \<Rightarrow> world outcome option" where
  "poll_relay script j0 j1 j12 j21 fd1 fd2 w =
     (let (fd1_save, w) = set_nonblock fd1 w;
          (fd2_save, w) = set_nonblock fd2 w
      in do {
        p \<leftarrow> c_while engine_running poll_round
          \<lparr>mach = (fsm_init j12 fd1 fd2, fsm_init j21 fd2 fd1, w), halted = None,
           pfd0 = j0\<lparr>pfd_fd := fd1\<rparr>, pfd1 = j1\<lparr>pfd_fd := fd2\<rparr>, poll_script = script\<rparr>;
        Some (relay_finish fd1 fd1_save fd2 fd2_save p) })"

definition poll_relay_prog ::
  "poll_reply list \<Rightarrow> pollfd \<Rightarrow> pollfd \<Rightarrow> fsm_st \<Rightarrow> fsm_st \<Rightarrow> int \<Rightarrow> int \<Rightarrow> world \<Rightarrow> (int \<times> world) option" where
  "poll_relay_prog script j0 j1 j12 j21 = relay_main (poll_relay script j0 j1 j12 j21)"

section \<open>The \<open>poll\<close> loop as a relay engine\<close>

lemma poll_drive_eq:
  "poll_drive a b (f12, f21, w) = drive_both
     (has_bit (revents a) POLLIN \<or> has_bit (revents b) POLLOUT \<or> above_auto f12)
     (has_bit (revents a) POLLOUT \<or> has_bit (revents b) POLLIN \<or> above_auto f21) (f12, f21, w)"
  by (simp only: poll_drive_def poll_fsm_driver_def prod.case cond_drives)

lemma exit_steps: "pair_step\<^sup>*\<^sup>* (f12, f21, w) (f12, f21, perror s (w\<lparr>errno := e\<rparr>))"
  by (rule rtranclp_trans [OF errno_steps perror_steps])

lemma poll_drive_steps: "poll_drive a b m = Some r \<Longrightarrow> pair_step\<^sup>*\<^sup>* m r"
  by (cases m) (auto simp: poll_drive_eq intro: drive_both_steps)

lemma poll_round_steps:
  assumes "poll_round p = Some p'"
  shows "pair_step\<^sup>*\<^sup>* (mach p) (mach p')"
proof -
  obtain f12 f21 w where m: "mach p = (f12, f21, w)" by (cases "mach p")
  obtain a b where ab: "poll_arm f12 f21 (pfd0 p) (pfd1 p) = (a, b)" by fastforce
  obtain q rs where q: "poll_wait (events a) (events b) (poll_script p) = (q, rs)" by fastforce
  show ?thesis
  proof (cases "below_auto f12 \<or> below_auto f21")
    case True
    show ?thesis
    proof (cases q)
      case (Inl e)
      with True assms m ab q show ?thesis by (auto simp: poll_round_def exit_steps)
    next
      case (Inr r)
      with True assms m ab q obtain r where
        "poll_drive (a\<lparr>revents := fst (projr q)\<rparr>) (b\<lparr>revents := snd (projr q)\<rparr>) (f12, f21, w) = Some r"
        "mach p' = r"
        by (auto simp: poll_round_def bind_eq_Some_conv Let_def split: prod.splits)
      with m show ?thesis using poll_drive_steps by simp
    qed
  next
    case False
    with assms m ab obtain r where "poll_drive a b (f12, f21, w) = Some r" "mach p' = r"
      by (auto simp: poll_round_def bind_eq_Some_conv)
    with m show ?thesis using poll_drive_steps by simp
  qed
qed

definition poll_good :: "poll_engine \<Rightarrow> bool" where
  "poll_good p \<longleftrightarrow> halted p = None \<and> (\<forall>e. PollErr e \<in> set (poll_script p) \<longrightarrow> e = EINTR)"

lemma poll_wait_good:
  "\<forall>e. PollErr e \<in> set rs \<longrightarrow> e = EINTR \<Longrightarrow> \<exists>r0 r1 rs'. poll_wait e0 e1 rs = (Inr (r0, r1), rs')
    \<and> set rs' \<subseteq> set rs \<and> (length rs' < length rs \<or> rs' = [] \<and> rs = [] \<and> r0 = e0 \<and> r1 = e1)"
proof (induction rs)
  case Nil
  then show ?case by simp
next
  case (Cons r rs)
  show ?case
  proof (cases r)
    case (PollErr e)
    with Cons.prems have eq: "poll_wait e0 e1 (r # rs) = poll_wait e0 e1 rs" by simp
    from Cons.IH Cons.prems obtain r0 r1 rs' where "poll_wait e0 e1 rs = (Inr (r0, r1), rs')"
      "set rs' \<subseteq> set rs" "length rs' < length rs \<or> rs' = [] \<and> rs = [] \<and> r0 = e0 \<and> r1 = e1"
      by (metis list.set_intros(2))
    then show ?thesis unfolding eq
      by (intro exI [of _ r0] exI [of _ r1] exI [of _ rs']) auto
  qed auto
qed

lemma poll_round_progress:
  assumes "relay_inv g s (mach p)" "pair_live (mach p)" "poll_good p" "engine_running p"
  shows "\<exists>p'. poll_round p = Some p' \<and> poll_good p' \<and> pair_live (mach p') \<and>
    pair_weight (mach p') + length (poll_script p') < pair_weight (mach p) + length (poll_script p)"
proof -
  obtain f12 f21 w where m: "mach p = (f12, f21, w)" by (cases "mach p")
  obtain a b where ab: "poll_arm f12 f21 (pfd0 p) (pfd1 p) = (a, b)" by fastforce
  note good = assms(3) [unfolded poll_good_def]
  have run: "state f12 \<noteq> STATE_T \<or> state f21 \<noteq> STATE_T"
    using assms(4) m by (simp add: engine_running_def relay_running_def)
  have noauto: "state f12 \<noteq> STATE_AUTO" "state f21 \<noteq> STATE_AUTO"
    using relay_inv_no_auto assms(1) m by auto
  have drive: "\<exists>r. poll_drive x y (f12, f21, w) = Some r \<and> pair_live r
      \<and> pair_weight r \<le> pair_weight (f12, f21, w) \<and>
      ((has_bit (revents x) POLLIN \<or> has_bit (revents y) POLLOUT \<or> above_auto f12) \<and> state f12 \<noteq> STATE_T \<or>
       (has_bit (revents x) POLLOUT \<or> has_bit (revents y) POLLIN \<or> above_auto f21) \<and> state f21 \<noteq> STATE_T
         \<longrightarrow> pair_weight r < pair_weight (f12, f21, w))" for x y
    using drive_both_progress [OF assms(1,2) [unfolded m]] unfolding poll_drive_eq
    by (metis fst_conv snd_conv)
  show ?thesis
  proof (cases "below_auto f12 \<or> below_auto f21")
    case False
    with run noauto have "above_auto f12 \<and> state f12 \<noteq> STATE_T \<or> above_auto f21 \<and> state f21 \<noteq> STATE_T"
      by (cases "state f12"; cases "state f21") (auto simp: below_auto_iff above_auto_iff)
    with drive [of a b] False ab m good show ?thesis
      by (auto simp: poll_round_def poll_good_def)
  next
    case True
    from poll_wait_good [of "poll_script p" "events a" "events b"] good obtain r0 r1 rs where
      wait: "poll_wait (events a) (events b) (poll_script p) = (Inr (r0, r1), rs)"
      and rs: "set rs \<subseteq> set (poll_script p)"
      "length rs < length (poll_script p) \<or> rs = [] \<and> poll_script p = [] \<and> r0 = events a \<and> r1 = events b"
      by blast
    obtain r where r: "poll_drive (a\<lparr>revents := r0\<rparr>) (b\<lparr>revents := r1\<rparr>) (f12, f21, w) = Some r"
      "pair_live r" "pair_weight r \<le> pair_weight (f12, f21, w)"
      and prog: "(has_bit r0 POLLIN \<or> has_bit r1 POLLOUT \<or> above_auto f12) \<and> state f12 \<noteq> STATE_T \<or>
       (has_bit r0 POLLOUT \<or> has_bit r1 POLLIN \<or> above_auto f21) \<and> state f21 \<noteq> STATE_T
         \<longrightarrow> pair_weight r < pair_weight (f12, f21, w)"
      using drive [of "a\<lparr>revents := r0\<rparr>" "b\<lparr>revents := r1\<rparr>"] by auto
    have "pair_weight r + length rs < pair_weight (f12, f21, w) + length (poll_script p)"
    proof (cases "length rs < length (poll_script p)")
      case True
      with r(3) show ?thesis by simp
    next
      case False
      with rs(2) have e: "rs = []" "poll_script p = []" "r0 = events a" "r1 = events b" by auto
      have "(has_bit r0 POLLIN \<or> has_bit r1 POLLOUT \<or> above_auto f12) \<and> state f12 \<noteq> STATE_T \<or>
       (has_bit r0 POLLOUT \<or> has_bit r1 POLLIN \<or> above_auto f21) \<and> state f21 \<noteq> STATE_T"
        using True ab e(3,4)
        by (auto simp: poll_arm_def has_bit_def below_auto_iff Let_def split: if_splits)
      with prog have "pair_weight r < pair_weight (f12, f21, w)" by blast
      with e show ?thesis by simp
    qed
    with r True ab m good wait rs show ?thesis by (auto simp: poll_round_def poll_good_def)
  qed
qed

interpretation poll_eng: mux_engine poll_round poll_good "\<lambda>p. length (poll_script p)"
  by unfold_locales (auto intro: poll_round_steps dest: poll_round_progress simp: poll_good_def)

section \<open>The program over \<open>epoll\<close>\<close>

abbreviation EPOLLIN :: int where "EPOLLIN \<equiv> 1"
abbreviation EPOLLOUT :: int where "EPOLLOUT \<equiv> 4"

text \<open>A reply of \<open>epoll_wait\<close> with room for one event: the registered descriptor and its events.\<close>

datatype epoll_reply = EpErr int | EpReady int int

text \<open>\<open>interest\<close> is the set the kernel keeps for \<open>epfd\<close>, with the events asked for.\<close>

record epoll_engine = engine +
  ev_fd :: int
  ev_events :: int
  interest :: "int \<Rightarrow> int option"
  ep_script :: "epoll_reply list"

definition epoll_fsm_driver :: "fsm_st \<Rightarrow> world \<Rightarrow> (fsm_st \<times> world) option" where
  "epoll_fsm_driver fsm w = fsm_driver fsm w"

text \<open>\<open>epoll_ctl\<close> with \<open>EPOLL_CTL_ADD\<close> and \<open>EPOLL_CTL_MOD\<close>; the program ignores that they can fail.\<close>

definition epoll_add :: "int \<Rightarrow> int \<Rightarrow> (int \<Rightarrow> int option) \<Rightarrow> int \<Rightarrow> int option" where
  "epoll_add fd evs m = (if m fd = None then m(fd \<mapsto> evs) else m)"

definition epoll_mod :: "int \<Rightarrow> int \<Rightarrow> (int \<Rightarrow> int option) \<Rightarrow> int \<Rightarrow> int option" where
  "epoll_mod fd evs m = (if m fd = None then m else m(fd \<mapsto> evs))"

text \<open>
  \<open>while (epoll_wait(epfd, &ev, 1, -1) < 0)\<close>. With the script exhausted the first of the two
  descriptors with an event asked for is reported.
\<close>

fun epoll_wait :: "int \<Rightarrow> int \<Rightarrow> (int \<Rightarrow> int option) \<Rightarrow> epoll_reply list \<Rightarrow>
    (int + int \<times> int) \<times> epoll_reply list" where
  "epoll_wait fd1 fd2 m [] =
     (case m fd1 of
        Some e \<Rightarrow> if e \<noteq> 0 then (Inr (fd1, e), []) else (Inr (fd2, case m fd2 of Some e \<Rightarrow> e | None \<Rightarrow> 0), [])
      | None \<Rightarrow> (Inr (fd2, case m fd2 of Some e \<Rightarrow> e | None \<Rightarrow> 0), []))"
| "epoll_wait fd1 fd2 m (EpErr e # rs) = (if e = EINTR then epoll_wait fd1 fd2 m rs else (Inl e, rs))"
| "epoll_wait fd1 fd2 m (EpReady fd e # rs) = (Inr (fd, e), rs)"

text \<open>Arranging the watch: what \<open>ev\<close> holds afterwards and the new interest set.\<close>

definition epoll_arm ::
  "int \<Rightarrow> int \<Rightarrow> fsm_st \<Rightarrow> fsm_st \<Rightarrow> (int \<Rightarrow> int option) \<Rightarrow> int \<times> int \<times> (int \<Rightarrow> int option)" where
  "epoll_arm fd1 fd2 fsm12 fsm21 m =
     (let evs = 0;
          evs = (if state fsm12 = STATE_R then evs OR EPOLLIN else evs);
          evs = (if state fsm21 = STATE_W then evs OR EPOLLOUT else evs);
          m = epoll_mod fd1 evs m;
          evs = 0;
          evs = (if state fsm21 = STATE_R then evs OR EPOLLIN else evs);
          evs = (if state fsm12 = STATE_W then evs OR EPOLLOUT else evs);
          m = epoll_mod fd2 evs m
      in (fd2, evs, m))"

definition epoll_drive ::
  "int \<Rightarrow> int \<Rightarrow> int \<Rightarrow> int \<Rightarrow> fsm_st \<times> fsm_st \<times> world \<Rightarrow> (fsm_st \<times> fsm_st \<times> world) option" where
  "epoll_drive fd1 fd2 fd evs p = (case p of (fsm12, fsm21, w) \<Rightarrow> do {
     (fsm12, w) \<leftarrow>
       (if fd = fd1 \<and> has_bit evs EPOLLIN \<or> fd = fd2 \<and> has_bit evs EPOLLOUT \<or> above_auto fsm12
        then epoll_fsm_driver fsm12 w else Some (fsm12, w));
     (fsm21, w) \<leftarrow>
       (if fd = fd1 \<and> has_bit evs EPOLLOUT \<or> fd = fd2 \<and> has_bit evs EPOLLIN \<or> above_auto fsm21
        then epoll_fsm_driver fsm21 w else Some (fsm21, w));
     Some (fsm12, fsm21, w) })"

definition epoll_round :: "int \<Rightarrow> int \<Rightarrow> epoll_engine \<Rightarrow> epoll_engine option" where
  "epoll_round fd1 fd2 p = (case mach p of (fsm12, fsm21, w) \<Rightarrow>
     case epoll_arm fd1 fd2 fsm12 fsm21 (interest p) of (fd, evs, m) \<Rightarrow>
     if below_auto fsm12 \<or> below_auto fsm21 then
       (case epoll_wait fd1 fd2 m (ep_script p) of
          (Inl e, rs) \<Rightarrow>
            Some (p\<lparr>mach := (fsm12, fsm21, perror ''epoll()'' (w\<lparr>errno := e\<rparr>)), ev_fd := fd,
                    ev_events := evs, interest := m, ep_script := rs, halted := Some 1\<rparr>)
        | (Inr (fd, evs), rs) \<Rightarrow> do {
            r \<leftarrow> epoll_drive fd1 fd2 fd evs (fsm12, fsm21, w);
            Some (p\<lparr>mach := r, ev_fd := fd, ev_events := evs, interest := m, ep_script := rs\<rparr>) })
     else do {
       r \<leftarrow> epoll_drive fd1 fd2 fd evs (fsm12, fsm21, w);
       Some (p\<lparr>mach := r, ev_fd := fd, ev_events := evs, interest := m\<rparr>) })"

text \<open>\<open>epfd\<close> is the result of \<open>epoll_create\<close>.\<close>

definition epoll_relay ::
  "epoll_reply list \<Rightarrow> int \<Rightarrow> fsm_st \<Rightarrow> fsm_st \<Rightarrow> int \<Rightarrow> int \<Rightarrow> world \<Rightarrow> world outcome option" where
  "epoll_relay script epfd j12 j21 fd1 fd2 w =
     (let (fd1_save, w) = set_nonblock fd1 w;
          (fd2_save, w) = set_nonblock fd2 w
      in if epfd < 0 then Some (Exit 1 (perror ''epoll_create()'' w))
         else do {
           p \<leftarrow> c_while engine_running (epoll_round fd1 fd2)
             \<lparr>mach = (fsm_init j12 fd1 fd2, fsm_init j21 fd2 fd1, w), halted = None,
              ev_fd = fd2, ev_events = 0,
              interest = epoll_add fd2 0 (epoll_add fd1 0 (\<lambda>_. None)), ep_script = script\<rparr>;
           Some (case relay_finish fd1 fd1_save fd2 fd2_save p of
               Done w \<Rightarrow> Done (sys_close epfd w) | Exit n w \<Rightarrow> Exit n w) })"

definition epoll_relay_prog ::
  "epoll_reply list \<Rightarrow> int \<Rightarrow> fsm_st \<Rightarrow> fsm_st \<Rightarrow> int \<Rightarrow> int \<Rightarrow> world \<Rightarrow> (int \<times> world) option" where
  "epoll_relay_prog script epfd j12 j21 = relay_main (epoll_relay script epfd j12 j21)"

section \<open>The \<open>epoll\<close> loop as a relay engine\<close>

lemma epoll_drive_eq:
  "epoll_drive fd1 fd2 fd evs (f12, f21, w) = drive_both
     (fd = fd1 \<and> has_bit evs EPOLLIN \<or> fd = fd2 \<and> has_bit evs EPOLLOUT \<or> above_auto f12)
     (fd = fd1 \<and> has_bit evs EPOLLOUT \<or> fd = fd2 \<and> has_bit evs EPOLLIN \<or> above_auto f21) (f12, f21, w)"
  by (simp only: epoll_drive_def epoll_fsm_driver_def prod.case cond_drives)

lemma epoll_drive_steps: "epoll_drive fd1 fd2 fd evs m = Some r \<Longrightarrow> pair_step\<^sup>*\<^sup>* m r"
  by (cases m) (auto simp: epoll_drive_eq intro: drive_both_steps)

lemma epoll_round_steps:
  assumes "epoll_round fd1 fd2 p = Some p'"
  shows "pair_step\<^sup>*\<^sup>* (mach p) (mach p')"
proof -
  obtain f12 f21 w where m: "mach p = (f12, f21, w)" by (cases "mach p")
  obtain fd evs im where im: "epoll_arm fd1 fd2 f12 f21 (interest p) = (fd, evs, im)"
    by (metis prod_cases3)
  obtain q rs where q: "epoll_wait fd1 fd2 im (ep_script p) = (q, rs)" by fastforce
  show ?thesis
  proof (cases "below_auto f12 \<or> below_auto f21")
    case True
    show ?thesis
    proof (cases q)
      case (Inl e)
      with True assms m im q show ?thesis by (auto simp: epoll_round_def exit_steps)
    next
      case (Inr x)
      with True assms m im q obtain r where
        "epoll_drive fd1 fd2 (fst (projr q)) (snd (projr q)) (f12, f21, w) = Some r" "mach p' = r"
        by (auto simp: epoll_round_def bind_eq_Some_conv split: prod.splits)
      with m show ?thesis using epoll_drive_steps by simp
    qed
  next
    case False
    with assms m im obtain r where "epoll_drive fd1 fd2 fd evs (f12, f21, w) = Some r" "mach p' = r"
      by (auto simp: epoll_round_def bind_eq_Some_conv)
    with m show ?thesis using epoll_drive_steps by simp
  qed
qed

definition epoll_good :: "int \<Rightarrow> int \<Rightarrow> epoll_engine \<Rightarrow> bool" where
  "epoll_good fd1 fd2 p \<longleftrightarrow> fd1 \<noteq> fd2 \<and> halted p = None \<and> interest p fd1 \<noteq> None \<and> interest p fd2 \<noteq> None
     \<and> (\<forall>e. EpErr e \<in> set (ep_script p) \<longrightarrow> e = EINTR)"

lemma epoll_wait_good:
  "\<forall>e. EpErr e \<in> set rs \<longrightarrow> e = EINTR \<Longrightarrow> \<exists>fd e rs'. epoll_wait fd1 fd2 m rs = (Inr (fd, e), rs')
    \<and> set rs' \<subseteq> set rs \<and> (length rs' < length rs \<or> rs' = [] \<and> rs = [])"
proof (induction rs)
  case Nil
  then show ?case by (simp split: option.split)
next
  case (Cons r rs)
  show ?case
  proof (cases r)
    case (EpErr e)
    with Cons.prems have eq: "epoll_wait fd1 fd2 m (r # rs) = epoll_wait fd1 fd2 m rs" by simp
    from Cons.IH Cons.prems obtain fd e rs' where "epoll_wait fd1 fd2 m rs = (Inr (fd, e), rs')"
      "set rs' \<subseteq> set rs" "length rs' < length rs \<or> rs' = [] \<and> rs = []"
      by (metis list.set_intros(2))
    then show ?thesis unfolding eq
      by (intro exI [of _ fd] exI [of _ e] exI [of _ rs']) auto
  qed auto
qed

lemma epoll_arm_interest:
  assumes "epoll_arm fd1 fd2 f12 f21 im = (fd, evs, im')" "fd1 \<noteq> fd2" "im fd1 \<noteq> None" "im fd2 \<noteq> None"
  shows "im' fd1 = Some ((if state f12 = STATE_R then EPOLLIN else 0) OR (if state f21 = STATE_W then EPOLLOUT else 0))
    \<and> im' fd2 = Some ((if state f21 = STATE_R then EPOLLIN else 0) OR (if state f12 = STATE_W then EPOLLOUT else 0))"
  using assms by (auto simp: epoll_arm_def epoll_mod_def Let_def)

text \<open>What is asked for is enough to move a machine.\<close>

lemma epoll_default_moves:
  assumes "epoll_arm fd1 fd2 f12 f21 im = (fd, evs, im')" "fd1 \<noteq> fd2" "im fd1 \<noteq> None" "im fd2 \<noteq> None"
    and "below_auto f12 \<or> below_auto f21" "epoll_wait fd1 fd2 im' [] = (Inr (d, e), rs)"
  shows "(d = fd1 \<and> has_bit e EPOLLIN \<or> d = fd2 \<and> has_bit e EPOLLOUT \<or> above_auto f12) \<and> state f12 \<noteq> STATE_T \<or>
    (d = fd1 \<and> has_bit e EPOLLOUT \<or> d = fd2 \<and> has_bit e EPOLLIN \<or> above_auto f21) \<and> state f21 \<noteq> STATE_T"
  using epoll_arm_interest [OF assms(1-4)] assms(2,5,6)
  by (cases "state f12"; cases "state f21") (auto simp: below_auto_iff has_bit_def)

lemma epoll_round_progress:
  assumes "relay_inv g s (mach p)" "pair_live (mach p)" "epoll_good fd1 fd2 p" "engine_running p"
  shows "\<exists>p'. epoll_round fd1 fd2 p = Some p' \<and> epoll_good fd1 fd2 p' \<and> pair_live (mach p') \<and>
    pair_weight (mach p') + length (ep_script p') < pair_weight (mach p) + length (ep_script p)"
proof -
  obtain f12 f21 w where m: "mach p = (f12, f21, w)" by (cases "mach p")
  obtain fd evs im where im: "epoll_arm fd1 fd2 f12 f21 (interest p) = (fd, evs, im)"
    by (metis prod_cases3)
  note good = assms(3) [unfolded epoll_good_def]
  have im': "im fd1 \<noteq> None" "im fd2 \<noteq> None" using epoll_arm_interest [OF im] good by auto
  have run: "state f12 \<noteq> STATE_T \<or> state f21 \<noteq> STATE_T"
    using assms(4) m by (simp add: engine_running_def relay_running_def)
  have noauto: "state f12 \<noteq> STATE_AUTO" "state f21 \<noteq> STATE_AUTO"
    using relay_inv_no_auto assms(1) m by auto
  define c where "c d e \<longleftrightarrow> d = fd1 \<and> has_bit e EPOLLIN \<or> d = fd2 \<and> has_bit e EPOLLOUT \<or> above_auto f12" for d e
  define c' where "c' d e \<longleftrightarrow> d = fd1 \<and> has_bit e EPOLLOUT \<or> d = fd2 \<and> has_bit e EPOLLIN \<or> above_auto f21" for d e
  have drive: "\<exists>r. epoll_drive fd1 fd2 d e (f12, f21, w) = Some r \<and> pair_live r
      \<and> pair_weight r \<le> pair_weight (f12, f21, w) \<and>
      (c d e \<and> state f12 \<noteq> STATE_T \<or> c' d e \<and> state f21 \<noteq> STATE_T \<longrightarrow>
         pair_weight r < pair_weight (f12, f21, w))" for d e
    using drive_both_progress [OF assms(1,2) [unfolded m], of "c d e" "c' d e"]
    unfolding epoll_drive_eq c_def c'_def by simp
  show ?thesis
  proof (cases "below_auto f12 \<or> below_auto f21")
    case False
    with run noauto have "c fd evs \<and> state f12 \<noteq> STATE_T \<or> c' fd evs \<and> state f21 \<noteq> STATE_T"
      by (cases "state f12"; cases "state f21") (auto simp: below_auto_iff above_auto_iff c_def c'_def)
    with drive [of fd evs] False im im' m good show ?thesis
      by (auto simp: epoll_round_def epoll_good_def)
  next
    case True
    obtain d e rs where wait: "epoll_wait fd1 fd2 im (ep_script p) = (Inr (d, e), rs)"
      and rs: "set rs \<subseteq> set (ep_script p)"
      "length rs < length (ep_script p) \<or> rs = [] \<and> ep_script p = []"
      using epoll_wait_good [of "ep_script p" fd1 fd2 im] good by blast
    obtain r where r: "epoll_drive fd1 fd2 d e (f12, f21, w) = Some r" "pair_live r"
      "pair_weight r \<le> pair_weight (f12, f21, w)"
      and prog: "c d e \<and> state f12 \<noteq> STATE_T \<or> c' d e \<and> state f21 \<noteq> STATE_T \<longrightarrow>
         pair_weight r < pair_weight (f12, f21, w)"
      using drive [of d e] by blast
    have "pair_weight r + length rs < pair_weight (f12, f21, w) + length (ep_script p)"
    proof (cases "length rs < length (ep_script p)")
      case True
      with r(3) show ?thesis by simp
    next
      case False
      with rs(2) have e: "rs = []" "ep_script p = []" by auto
      with wait have "epoll_wait fd1 fd2 im [] = (Inr (d, e), rs)" by simp
      from epoll_default_moves [OF im _ _ _ True this] good prog
      have "pair_weight r < pair_weight (f12, f21, w)" unfolding c_def c'_def by blast
      with e show ?thesis by simp
    qed
    with r True im im' m good wait rs show ?thesis by (auto simp: epoll_round_def epoll_good_def)
  qed
qed

interpretation epoll_eng: mux_engine "epoll_round fd1 fd2" "epoll_good fd1 fd2" "\<lambda>p. length (ep_script p)"
proof (unfold_locales, goal_cases)
  case (2 g s p)
  then show ?case by (rule epoll_round_progress)
qed (auto intro: epoll_round_steps simp: epoll_good_def)

section \<open>Correctness\<close>

lemma poll_relay_unfold:
  assumes "fd1 \<noteq> fd2"
  shows "poll_relay script j0 j1 j12 j21 fd1 fd2 w = do {
    p \<leftarrow> c_while engine_running poll_round
      \<lparr>mach = (fsm_init j12 fd1 fd2, fsm_init j21 fd2 fd1, nonblock_world fd1 fd2 w), halted = None,
       pfd0 = j0\<lparr>pfd_fd := fd1\<rparr>, pfd1 = j1\<lparr>pfd_fd := fd2\<rparr>, poll_script = script\<rparr>;
    Some (relay_finish fd1 (flags w fd1) fd2 (flags w fd2) p) }"
  using assms by (simp add: poll_relay_def nonblock_world_def set_nonblock_eq Let_def)

text \<open>The relay over \<open>poll\<close> returns once both sides end, whatever event masks and interruptions
  \<open>poll\<close> reports, with everything delivered in both directions and the flags restored, when reads
  and writes are only ever refused with \<open>EAGAIN\<close>.\<close>

lemma poll_relay_complete:
  assumes "fd1 \<noteq> fd2" "length (buf j12) = BUFSIZE" "length (buf j21) = BUFSIZE"
    and "has_eof (rd_script w fd1)" "has_eof (rd_script w fd2)"
    and "rd_calm (rd_script w fd1)" "rd_calm (rd_script w fd2)"
    and "wr_calm (wr_script w fd1)" "wr_calm (wr_script w fd2)"
    and "\<forall>e. PollErr e \<in> set script \<longrightarrow> e = EINTR"
  shows "\<exists>w'. poll_relay script j0 j1 j12 j21 fd1 fd2 w = Some (Done w') \<and> flags w' = flags w
    \<and> sent w' fd2 = sent w fd2 @ before_eof (rd_script w fd1)
    \<and> sent w' fd1 = sent w fd1 @ before_eof (rd_script w fd2)"
  using poll_eng.mux_finish [OF assms(1-9), of "\<lparr>mach = (fsm_init j12 fd1 fd2, fsm_init j21 fd2 fd1,
      nonblock_world fd1 fd2 w), halted = None, pfd0 = j0\<lparr>pfd_fd := fd1\<rparr>, pfd1 = j1\<lparr>pfd_fd := fd2\<rparr>,
      poll_script = script\<rparr>"] assms(10)
  by (simp add: poll_relay_unfold [OF assms(1)] poll_good_def)

lemma poll_relay_complete_witness:
  "\<exists>w'. poll_relay [PollErr EINTR, PollReady 4 16, PollReady 0 5] \<lparr>pfd_fd = 0, events = 7, revents = 9\<rparr>
      \<lparr>pfd_fd = 0, events = 0, revents = 1\<rparr> demo_fsm demo_fsm 3 4 demo_world = Some (Done w')
    \<and> flags w' = (\<lambda>_. 2) \<and> sent w' 4 = ''hi'' \<and> sent w' 3 = []"
  using poll_relay_complete [of 3 4 demo_fsm demo_fsm demo_world
    "[PollErr EINTR, PollReady 4 16, PollReady 0 5]"]
  by (auto simp: demo_defs)

text \<open>The start state of the \<open>epoll\<close> loop and its end.\<close>

definition epoll_start ::
  "epoll_reply list \<Rightarrow> fsm_st \<Rightarrow> fsm_st \<Rightarrow> int \<Rightarrow> int \<Rightarrow> world \<Rightarrow> epoll_engine" where
  "epoll_start script j12 j21 fd1 fd2 w =
     \<lparr>mach = (fsm_init j12 fd1 fd2, fsm_init j21 fd2 fd1, w), halted = None, ev_fd = fd2, ev_events = 0,
      interest = epoll_add fd2 0 (epoll_add fd1 0 (\<lambda>_. None)), ep_script = script\<rparr>"

lemma epoll_relay_unfold:
  assumes "fd1 \<noteq> fd2" "0 \<le> epfd"
  shows "epoll_relay script epfd j12 j21 fd1 fd2 w =
    map_option (\<lambda>r. case r of Done w \<Rightarrow> Done (sys_close epfd w) | Exit n w \<Rightarrow> Exit n w)
      (Option.bind (c_while engine_running (epoll_round fd1 fd2)
        (epoll_start script j12 j21 fd1 fd2 (nonblock_world fd1 fd2 w)))
        (\<lambda>p. Some (relay_finish fd1 (flags w fd1) fd2 (flags w fd2) p)))"
  using assms
  by (simp add: epoll_relay_def nonblock_world_def set_nonblock_eq Let_def epoll_start_def map_option_bind
      split: bind_split)

text \<open>The relay over \<open>epoll\<close>, which handles one reported event per round, returns once both
  sides end, whatever events and interruptions \<open>epoll_wait\<close> reports, with everything delivered in
  both directions, the flags restored and the epoll descriptor closed, when reads and writes are
  only ever refused with \<open>EAGAIN\<close>.\<close>

lemma epoll_relay_complete:
  assumes "fd1 \<noteq> fd2" "length (buf j12) = BUFSIZE" "length (buf j21) = BUFSIZE"
    and "has_eof (rd_script w fd1)" "has_eof (rd_script w fd2)"
    and "rd_calm (rd_script w fd1)" "rd_calm (rd_script w fd2)"
    and "wr_calm (wr_script w fd1)" "wr_calm (wr_script w fd2)"
    and "\<forall>e. EpErr e \<in> set script \<longrightarrow> e = EINTR" and "0 \<le> epfd"
  shows "\<exists>w'. epoll_relay script epfd j12 j21 fd1 fd2 w = Some (Done w') \<and> flags w' = flags w
    \<and> sent w' fd2 = sent w fd2 @ before_eof (rd_script w fd1)
    \<and> sent w' fd1 = sent w fd1 @ before_eof (rd_script w fd2)
    \<and> epfd \<in> set (closed w')"
proof -
  let ?p = "epoll_start script j12 j21 fd1 fd2 (nonblock_world fd1 fd2 w)"
  have "epoll_good fd1 fd2 ?p"
    using assms(1,10) by (simp add: epoll_good_def epoll_start_def epoll_add_def)
  moreover have "mach ?p = (fsm_init j12 fd1 fd2, fsm_init j21 fd2 fd1, nonblock_world fd1 fd2 w)"
    by (simp add: epoll_start_def)
  ultimately show ?thesis
    using epoll_eng.mux_finish [OF assms(1-9), of ?p] epoll_relay_unfold [OF assms(1,11)]
    by (force simp: sys_close_def)
qed

lemma epoll_relay_complete_witness:
  "\<exists>w'. epoll_relay [EpErr EINTR, EpReady 3 1, EpReady 4 16] 5 demo_fsm demo_fsm 3 4 demo_world = Some (Done w')
    \<and> flags w' = (\<lambda>_. 2) \<and> sent w' 4 = ''hi'' \<and> sent w' 3 = [] \<and> 5 \<in> set (closed w')"
  using epoll_relay_complete [of 3 4 demo_fsm demo_fsm demo_world "[EpErr EINTR, EpReady 3 1, EpReady 4 16]" 5]
  by (auto simp: demo_defs)

end
