(* ===== verification/Relayer.thy ===== *)
theory Relayer
  imports Relay SlotTable
begin

text \<open>
  The relay engine library \<open>io/adv/nonblock/relayer/relayer.c\<close>: a table of jobs, each with the two
  machines of a relay, and a thread that drives every running job once per pass. The shared world
  stands for all descriptors of the process. The theorems: a job is added to a free slot or not
  at all, with the descriptor flags put back; the passes keep the relay invariant of every job at
  once, because a job touches only its own descriptors.
\<close>

section \<open>State\<close>

abbreviation REL_JOBMAX :: nat where "REL_JOBMAX \<equiv> 10000"

datatype job_state = STATE_RUNNING | STATE_CANCELED | STATE_OVER

text \<open>The \<open>count\<close> field of \<open>rel_fsm_st\<close> is never accessed; the machine is that of the relay.\<close>

record rel_job_st =
  job_state :: job_state
  fd1 :: int
  fd2 :: int
  fd1_save :: int
  fd2_save :: int
  fsm12 :: fsm_st
  fsm21 :: fsm_st

text \<open>
  \<open>once\<close> tells whether \<open>pthread_once\<close> has run \<open>module_load\<close>; \<open>ended\<close> is the status of a call of
  \<open>exit\<close>.
\<close>

record relayer =
  rel_job :: "rel_job_st option list"
  rw :: world
  once :: bool
  ended :: "int option"

section \<open>Operations\<close>

definition rel_fsm_driver :: "fsm_st \<Rightarrow> world \<Rightarrow> (fsm_st \<times> world) option" where
  "rel_fsm_driver fsm w = fsm_driver fsm w"

text \<open>One pass of \<open>thr_relayer\<close> over the table, under the mutex.\<close>

definition rel_drive_job :: "rel_job_st \<Rightarrow> world \<Rightarrow> (rel_job_st \<times> world) option" where
  "rel_drive_job j w =
     (if job_state j = STATE_RUNNING then do {
        (f12, w) \<leftarrow> rel_fsm_driver (fsm12 j) w;
        (f21, w) \<leftarrow> rel_fsm_driver (fsm21 j) w;
        let j = j\<lparr>fsm12 := f12, fsm21 := f21\<rparr>;
        if state f12 = STATE_T \<and> state f21 = STATE_T
        then Some (j\<lparr>job_state := STATE_OVER\<rparr>, w)
        else Some (j, w) }
      else Some (j, w))"

fun thr_relayer_pass ::
  "rel_job_st option list \<Rightarrow> world \<Rightarrow> (rel_job_st option list \<times> world) option" where
  "thr_relayer_pass [] w = Some ([], w)"
| "thr_relayer_pass (None # tab) w = do {
     (tab', w) \<leftarrow> thr_relayer_pass tab w;
     Some (None # tab', w) }"
| "thr_relayer_pass (Some j # tab) w = do {
     (j', w) \<leftarrow> rel_drive_job j w;
     (tab', w) \<leftarrow> thr_relayer_pass tab w;
     Some (Some j' # tab', w) }"

text \<open>
  \<open>module_load\<close>: \<open>err\<close> is the result of \<open>pthread_create\<close>. \<open>pthread_once\<close> runs it in the first call
  of \<open>rel_addjob\<close> only.
\<close>

definition module_load :: "int \<Rightarrow> relayer \<Rightarrow> relayer" where
  "module_load err s =
     (if err \<noteq> 0 then s\<lparr>rw := perror ''pthread_create()'' (rw s), ended := Some 1\<rparr> else s)"

definition rel_once :: "int \<Rightarrow> relayer \<Rightarrow> relayer" where
  "rel_once err s = (if once s then s else module_load err (s\<lparr>once := True\<rparr>))"

definition get_free_pos_unlocked :: "relayer \<Rightarrow> int" where
  "get_free_pos_unlocked s = free_pos (rel_job s)"

text \<open>
  \<open>rel_addjob\<close>: \<open>mem\<close> is the result of \<open>malloc\<close>. The returned value is \<open>None\<close> when the call does not
  return because the process has ended. Between the unlock and the lock of the mutex only the
  calling thread works on the new job.
\<close>

definition rel_addjob ::
  "int \<Rightarrow> rel_job_st option \<Rightarrow> int \<Rightarrow> int \<Rightarrow> relayer \<Rightarrow> int option \<times> relayer" where
  "rel_addjob err mem fda fdb s =
     (let s = rel_once err s in
      if ended s \<noteq> None then (None, s)
      else case mem of
        None \<Rightarrow> (Some (- ENOMEM), s)
      | Some me \<Rightarrow>
          let me = me\<lparr>fd1 := fda, fd2 := fdb, job_state := STATE_RUNNING\<rparr>;
              (save1, w) = set_nonblock fda (rw s);
              (save2, w) = set_nonblock fdb w;
              me = me\<lparr>fd1_save := save1, fd2_save := save2, fsm12 := fsm_init (fsm12 me) fda fdb,
                      fsm21 := fsm_init (fsm21 me) fdb fda\<rparr>;
              pos = get_free_pos_unlocked s
          in if pos < 0
             then (Some (- ENOSPC),
                   s\<lparr>rw := fcntl_setfl (fd2 me) (fd2_save me) (fcntl_setfl (fd1 me) (fd1_save me) w)\<rparr>)
             else (Some pos, s\<lparr>rw := w, rel_job := (rel_job s)[nat pos := Some me]\<rparr>))"

section \<open>Adding a job\<close>

definition relayer_ok :: "relayer \<Rightarrow> bool" where
  "relayer_ok s \<longleftrightarrow> length (rel_job s) = REL_JOBMAX \<and> once s \<and> ended s = None"

lemma restore_both:
  "fda \<noteq> fdb \<Longrightarrow>
   fcntl_setfl fdb (flags w fdb) (fcntl_setfl fda (flags w fda) (nonblock_world fda fdb w)) = w"
  by (simp add: fcntl_setfl_def nonblock_world_def set_nonblock_eq fun_eq_iff)

lemma rel_addjob_eq:
  assumes "relayer_ok s" "fda \<noteq> fdb"
  shows "rel_addjob err (Some me) fda fdb s =
    (if free_pos (rel_job s) < 0 then (Some (- ENOSPC), s)
     else (Some (free_pos (rel_job s)),
       s\<lparr>rw := nonblock_world fda fdb (rw s),
         rel_job := (rel_job s)[nat (free_pos (rel_job s)) := Some
          (me\<lparr>fd1 := fda, fd2 := fdb, job_state := STATE_RUNNING,
           fd1_save := flags (rw s) fda, fd2_save := flags (rw s) fdb,
           fsm12 := fsm_init (fsm12 me) fda fdb, fsm21 := fsm_init (fsm21 me) fdb fda\<rparr>)]\<rparr>))"
  using assms restore_both [OF assms(2), of "rw s"]
  by (simp add: rel_addjob_def rel_once_def relayer_ok_def get_free_pos_unlocked_def set_nonblock_eq
      nonblock_world_def Let_def)

text \<open>\<open>rel_addjob\<close> answers \<open>-ENOMEM\<close> without memory and \<open>-ENOSPC\<close> exactly when all 10000 slots
  are taken, and then leaves the job table and the whole world, the flags of the two descriptors
  included, as they were; otherwise it returns the index of a free slot, installs a running job
  with both machines in the reading state there, and touches no other slot.\<close>

lemma rel_addjob_contract:
  assumes "relayer_ok s" "fda \<noteq> fdb"
  shows "\<exists>r s'. rel_addjob err mem fda fdb s = (Some r, s') \<and> relayer_ok s' \<and>
    (mem = None \<longrightarrow> r = - ENOMEM) \<and>
    (mem \<noteq> None \<longrightarrow> (r = - ENOSPC \<longleftrightarrow> used (rel_job s) = REL_JOBMAX)) \<and>
    (r < 0 \<longrightarrow> s' = s) \<and>
    (0 \<le> r \<longrightarrow> r < int REL_JOBMAX \<and> rel_job s ! nat r = None \<and> rel_job s' = (rel_job s)[nat r := rel_job s' ! nat r]
      \<and> (\<exists>j. rel_job s' ! nat r = Some j \<and> job_state j = STATE_RUNNING
          \<and> state (fsm12 j) = STATE_R \<and> state (fsm21 j) = STATE_R \<and> opposite (fsm12 j) (fsm21 j)
          \<and> sfd (fsm12 j) = fda \<and> dfd (fsm12 j) = fdb))"
proof (cases mem)
  case None
  then show ?thesis using assms
    by (simp add: rel_addjob_def rel_once_def relayer_ok_def)
next
  case (Some me)
  have len: "length (rel_job s) = REL_JOBMAX" using assms(1) by (simp add: relayer_ok_def)
  show ?thesis
  proof (cases "rel_job s" rule: free_pos_cases)
    case full
    with Some assms len used_full_iff [of "rel_job s"] show ?thesis
      by (simp add: rel_addjob_eq)
  next
    case (free n)
    then have "used (rel_job s) \<noteq> REL_JOBMAX"
      using used_full_iff [of "rel_job s"] len nth_mem [of n "rel_job s"] by auto
    with free Some assms len show ?thesis
      by (auto simp: rel_addjob_eq relayer_ok_def fsm_init_def opposite_def)
  qed
qed

section \<open>The passes\<close>

fun job_fds :: "rel_job_st option \<Rightarrow> int set" where
  "job_fds None = {}"
| "job_fds (Some j) = {sfd (fsm12 j), dfd (fsm12 j)}"

text \<open>
  The invariant of the table in a world: every job satisfies the relay invariant from its own
  start logs, a job is over exactly when both machines are finished, and no two jobs share a
  descriptor.
\<close>

definition job_inv ::
  "(int \<Rightarrow> byte list) \<Rightarrow> (int \<Rightarrow> byte list) \<Rightarrow> world \<Rightarrow> rel_job_st option \<Rightarrow> bool" where
  "job_inv g s w jo \<longleftrightarrow> (case jo of None \<Rightarrow> True | Some j \<Rightarrow>
     relay_inv g s (fsm12 j, fsm21 j, w) \<and>
     (job_state j = STATE_OVER \<longleftrightarrow> state (fsm12 j) = STATE_T \<and> state (fsm21 j) = STATE_T) \<and>
     job_state j \<noteq> STATE_CANCELED)"

fun disjoint_jobs :: "rel_job_st option list \<Rightarrow> bool" where
  "disjoint_jobs [] = True"
| "disjoint_jobs (jo # tab) \<longleftrightarrow>
     (\<forall>k \<in> set tab. job_fds jo \<inter> job_fds k = {}) \<and> disjoint_jobs tab"

lemma job_inv_cong:
  assumes "\<forall>fd \<in> job_fds jo. got w' fd = got w fd \<and> sent w' fd = sent w fd" "job_inv g s w jo"
  shows "job_inv g s w' jo"
proof (cases jo)
  case (Some j)
  with assms have "opposite (fsm12 j) (fsm21 j)" by (auto simp: job_inv_def relay_inv_def)
  with assms Some flow_cong [of w' "fsm12 j" w] flow_cong [of w' "fsm21 j" w] show ?thesis
    by (auto simp: job_inv_def relay_inv_def opposite_def)
qed (use assms in \<open>simp add: job_inv_def\<close>)

lemma drive_job:
  assumes "job_inv g s w (Some j)"
  shows "\<exists>j' w'. rel_drive_job j w = Some (j', w') \<and> job_inv g s w' (Some j')
    \<and> job_fds (Some j') = job_fds (Some j)
    \<and> (\<forall>fd. fd \<notin> job_fds (Some j) \<longrightarrow> got w' fd = got w fd \<and> sent w' fd = sent w fd)"
proof (cases "job_state j = STATE_RUNNING")
  case False
  with assms show ?thesis by (auto simp: rel_drive_job_def)
next
  case True
  from assms have inv: "relay_inv g s (fsm12 j, fsm21 j, w)" by (simp add: job_inv_def)
  then have op: "opposite (fsm12 j) (fsm21 j)" by (simp add: relay_inv_def)
  obtain f12 w1 where d1: "fsm_driver (fsm12 j) w = Some (f12, w1)"
    using driver_flow [of "g (sfd (fsm12 j))" "s (dfd (fsm12 j))" "fsm12 j" w] inv op
    by (auto simp: relay_inv_def opposite_def)
  have inv1: "relay_inv g s (f12, fsm21 j, w1)"
    using pair_step_inv [OF pair_step.drive12 [OF d1] inv] .
  obtain f21 w2 where d2: "fsm_driver (fsm21 j) w1 = Some (f21, w2)"
    using driver_flow [of "g (sfd (fsm21 j))" "s (dfd (fsm21 j))" "fsm21 j" w1] inv1 op
    by (auto simp: relay_inv_def opposite_def)
  have inv2: "relay_inv g s (f12, f21, w2)"
    using pair_step_inv [OF pair_step.drive21 [OF d2] inv1] .
  have "sfd f12 = sfd (fsm12 j)" "dfd f12 = dfd (fsm12 j)"
    using driver_fds [OF d1] by auto
  moreover have "got w2 fd = got w fd \<and> sent w2 fd = sent w fd" if "fd \<notin> job_fds (Some j)" for fd
    using that driver_frame(1,2) [OF d1, of fd] driver_frame(1,2) [OF d2, of fd] op
    by (auto simp: opposite_def)
  ultimately show ?thesis
    using True d1 d2 inv2
    by (cases "state f12 = STATE_T \<and> state f21 = STATE_T")
      (auto simp: rel_drive_job_def rel_fsm_driver_def job_inv_def Let_def)
qed

lemma thr_relayer_pass_inv:
  "\<forall>k \<in> set tab. job_inv g s w k \<Longrightarrow> disjoint_jobs tab \<Longrightarrow>
   \<exists>tab' w'. thr_relayer_pass tab w = Some (tab', w') \<and> (\<forall>k \<in> set tab'. job_inv g s w' k)
     \<and> map job_fds tab' = map job_fds tab
     \<and> (\<forall>fd. (\<forall>k \<in> set tab. fd \<notin> job_fds k) \<longrightarrow> got w' fd = got w fd \<and> sent w' fd = sent w fd)"
proof (induction tab w rule: thr_relayer_pass.induct)
  case (2 tab w)
  then obtain tab' w' where "thr_relayer_pass tab w = Some (tab', w')" "\<forall>k \<in> set tab'. job_inv g s w' k"
    "map job_fds tab' = map job_fds tab"
    "\<forall>fd. (\<forall>k \<in> set tab. fd \<notin> job_fds k) \<longrightarrow> got w' fd = got w fd \<and> sent w' fd = sent w fd"
    by auto
  then show ?case by (simp add: job_inv_def)
next
  case (3 j tab w)
  obtain j' w1 where d: "rel_drive_job j w = Some (j', w1)" "job_inv g s w1 (Some j')"
    "job_fds (Some j') = job_fds (Some j)"
    "\<And>fd. fd \<notin> job_fds (Some j) \<Longrightarrow> got w1 fd = got w fd \<and> sent w1 fd = sent w fd"
    using drive_job [of g s w j] 3(2) by auto
  have "\<forall>k \<in> set tab. job_inv g s w1 k"
  proof
    fix k assume k: "k \<in> set tab"
    with 3(2,3) have "job_inv g s w k" "job_fds (Some j) \<inter> job_fds k = {}" by auto
    then show "job_inv g s w1 k"
      using job_inv_cong [of k w1 w g s] d(4) by blast
  qed
  with 3(1) [OF d(1)] 3(3) obtain tab' w' where t: "thr_relayer_pass tab w1 = Some (tab', w')"
    "\<forall>k \<in> set tab'. job_inv g s w' k" "map job_fds tab' = map job_fds tab"
    "\<And>fd. \<forall>k \<in> set tab. fd \<notin> job_fds k \<Longrightarrow> got w' fd = got w1 fd \<and> sent w' fd = sent w1 fd"
    by auto
  have "job_inv g s w' (Some j')"
  proof (rule job_inv_cong [OF _ d(2)])
    have "\<forall>k \<in> set tab. fd \<notin> job_fds k" if "fd \<in> job_fds (Some j)" for fd
      using 3(3) that by auto
    then show "\<forall>fd \<in> job_fds (Some j'). got w' fd = got w1 fd \<and> sent w' fd = sent w1 fd"
      using t(4) d(3) by simp
  qed
  moreover have "got w' fd = got w fd \<and> sent w' fd = sent w fd"
    if "\<forall>k \<in> set (Some j # tab). fd \<notin> job_fds k" for fd
    using that t(4) d(4) by simp
  ultimately show ?case using d(1,3) t(1-3) by auto
qed simp

lemma disjoint_jobs_cong: "map job_fds tab' = map job_fds tab \<Longrightarrow> disjoint_jobs tab' = disjoint_jobs tab"
proof (induction tab' arbitrary: tab)
  case (Cons x xs)
  then obtain y ys where tab: "tab = y # ys" "job_fds x = job_fds y" "map job_fds xs = map job_fds ys"
    by (cases tab) auto
  have "job_fds ` set xs = job_fds ` set ys" using arg_cong [OF tab(3), of set] by simp
  then have "(\<forall>k \<in> set xs. job_fds x \<inter> job_fds k = {}) = (\<forall>k \<in> set ys. job_fds y \<inter> job_fds k = {})"
    unfolding tab(2) by (metis (no_types, lifting) image_iff)
  with Cons.IH [OF tab(3)] tab(1) show ?case by simp
qed simp

text \<open>\<open>n\<close> passes of the thread.\<close>

fun thr_relayer_run ::
  "nat \<Rightarrow> rel_job_st option list \<Rightarrow> world \<Rightarrow> (rel_job_st option list \<times> world) option" where
  "thr_relayer_run 0 tab w = Some (tab, w)"
| "thr_relayer_run (Suc n) tab w = do {
     (tab, w) \<leftarrow> thr_relayer_pass tab w;
     thr_relayer_run n tab w }"

lemma thr_relayer_run_inv:
  assumes "\<forall>k \<in> set tab. job_inv g s w k" "disjoint_jobs tab"
  shows "\<exists>tab' w'. thr_relayer_run n tab w = Some (tab', w') \<and> (\<forall>k \<in> set tab'. job_inv g s w' k)
    \<and> map job_fds tab' = map job_fds tab
    \<and> (\<forall>fd. (\<forall>k \<in> set tab. fd \<notin> job_fds k) \<longrightarrow> got w' fd = got w fd \<and> sent w' fd = sent w fd)"
  using assms
proof (induction n arbitrary: tab w)
  case (Suc n)
  from thr_relayer_pass_inv [OF Suc.prems] obtain tab1 w1 where
    p: "thr_relayer_pass tab w = Some (tab1, w1)" "\<forall>k \<in> set tab1. job_inv g s w1 k"
    "map job_fds tab1 = map job_fds tab"
    "\<forall>fd. (\<forall>k \<in> set tab. fd \<notin> job_fds k) \<longrightarrow> got w1 fd = got w fd \<and> sent w1 fd = sent w fd" by blast
  have "job_fds ` set tab1 = job_fds ` set tab" using arg_cong [OF p(3), of set] by simp
  then have "(\<forall>k \<in> set tab1. fd \<notin> job_fds k) = (\<forall>k \<in> set tab. fd \<notin> job_fds k)" for fd
    by (metis (no_types, lifting) image_iff)
  with Suc.IH [OF p(2)] disjoint_jobs_cong [OF p(3)] Suc.prems(2) p show ?case by auto
qed simp

text \<open>However many passes the relay thread makes over the job table, it never aborts and every
  job separately keeps the relay invariant (what was written to one side is what was read from the
  other, less what is still buffered or given up after an error), as long as no two jobs share a
  descriptor; a job is marked over exactly when both of its machines are finished.\<close>

lemma relayer_jobs_independent:
  assumes "\<forall>k \<in> set tab. job_inv g s w k" "disjoint_jobs tab"
  shows "\<exists>tab' w'. thr_relayer_run n tab w = Some (tab', w') \<and> (\<forall>k \<in> set tab'. job_inv g s w' k)
    \<and> map job_fds tab' = map job_fds tab"
  using thr_relayer_run_inv [OF assms] by blast

text \<open>Two jobs on four descriptors.\<close>

definition demo_job :: "int \<Rightarrow> int \<Rightarrow> rel_job_st" where
  "demo_job a b = \<lparr>job_state = STATE_RUNNING, fd1 = a, fd2 = b, fd1_save = 2, fd2_save = 2,
     fsm12 = fsm_init demo_fsm a b, fsm21 = fsm_init demo_fsm b a\<rparr>"

lemma demo_job_inv: "a \<noteq> b \<Longrightarrow> job_inv (got w) (sent w) w (Some (demo_job a b))"
  using start_inv [of a b demo_fsm demo_fsm w]
  by (simp add: job_inv_def demo_job_def demo_fsm_def fsm_init_def)

lemma relayer_jobs_independent_witness:
  "\<exists>tab' w'. thr_relayer_run 7 [Some (demo_job 3 4), None, Some (demo_job 5 6)] demo_world = Some (tab', w')
    \<and> (\<forall>k \<in> set tab'. job_inv (\<lambda>_. []) (\<lambda>_. []) w' k) \<and> length tab' = 3"
proof -
  have logs: "got demo_world = (\<lambda>_. [])" "sent demo_world = (\<lambda>_. [])" by (simp_all add: demo_world_def)
  have "\<forall>k \<in> set [Some (demo_job 3 4), None, Some (demo_job 5 6)]. job_inv (\<lambda>_. []) (\<lambda>_. []) demo_world k"
    using demo_job_inv [of 3 4 demo_world] demo_job_inv [of 5 6 demo_world]
    by (simp add: logs) (simp add: job_inv_def)
  moreover have "disjoint_jobs [Some (demo_job 3 4), None, Some (demo_job 5 6)]"
    by (simp add: demo_job_def fsm_init_def)
  ultimately show ?thesis
    using relayer_jobs_independent [of "[Some (demo_job 3 4), None, Some (demo_job 5 6)]" "\<lambda>_. []" "\<lambda>_. []" demo_world 7]
    by (auto dest: map_eq_imp_length_eq)
qed

lemma rel_addjob_contract_witness:
  "\<exists>r s'. rel_addjob 0 None 3 4 \<lparr>rel_job = replicate REL_JOBMAX None, rw = demo_world, once = True, ended = None\<rparr>
    = (Some r, s') \<and> r = - ENOMEM"
  using rel_addjob_contract [of "\<lparr>rel_job = replicate REL_JOBMAX None, rw = demo_world, once = True, ended = None\<rparr>"
      3 4 0 None]
  by (auto simp: relayer_ok_def)

end
