(* ===== verification/RelayProgram.thy ===== *)
theory RelayProgram
  imports Relayer
begin

text \<open>
  The program \<open>io/adv/nonblock/relayer/main.c\<close> over the library of \<open>Relayer\<close>: it opens four terminals, writes a line to each and
  adds two jobs, while the thread of the library makes its passes; at \<open>exit\<close> the library stops its thread. A run is a
  list of actions of the main thread with any numbers of passes between them. The theorem: whatever the passes,
  both jobs are installed and relay independently of each other.
\<close>

section \<open>The program\<close>

text \<open>
  \<open>module_unload\<close>, run by \<open>exit\<close> once \<open>module_load\<close> has succeeded: the thread is cancelled and joined. It can be cancelled
  in a \<open>read\<close> or \<open>write\<close> of the driver, when it holds the mutex (\<open>held\<close>); destroying a mutex that is held is
  undefined. The state without a thread is the result.
\<close>

definition module_unload :: "bool \<Rightarrow> relayer \<Rightarrow> relayer option" where
  "module_unload held s = (if held then None else Some (s\<lparr>once := False\<rparr>))"

definition rel_exit :: "bool \<Rightarrow> int \<Rightarrow> relayer \<Rightarrow> (int option \<times> relayer) option" where
  "rel_exit held n s =
     (if once s then do { s \<leftarrow> module_unload held s; Some (Some n, s) } else Some (Some n, s))"

text \<open>
  What the main thread does: open a terminal (the result of \<open>open\<close>) and write a line to it, or add a job (the memory
  it gets); or the thread of the library makes some passes. An exit status ends the run.
\<close>

datatype engine_act = Tty int string string | Job int int "rel_job_st option" | Passes nat

fun do_act :: "int \<Rightarrow> bool \<Rightarrow> engine_act \<Rightarrow> relayer \<Rightarrow> (int option \<times> relayer) option" where
  "do_act err held (Tty fd line msg) s =
     (if fd < 0 then rel_exit held 1 (s\<lparr>rw := perror msg (rw s)\<rparr>)
      else Some (None, s\<lparr>rw := snd (sys_write fd line (rw s))\<rparr>))"
| "do_act err held (Job fda fdb mem) s =
     (case rel_addjob err mem fda fdb s of
        (None, s) \<Rightarrow> Some (ended s, s)
      | (Some job, s) \<Rightarrow>
          if job < 0 then rel_exit held 1 (s\<lparr>rw := perror ''rel_addjob()'' (rw s)\<rparr>) else Some (None, s))"
| "do_act err held (Passes n) s =
     (if once s then do { (tab, w) \<leftarrow> thr_relayer_run n (rel_job s) (rw s);
                          Some (None, s\<lparr>rel_job := tab, rw := w\<rparr>) }
      else Some (None, s))"

fun rel_acts :: "int \<Rightarrow> bool \<Rightarrow> engine_act list \<Rightarrow> relayer \<Rightarrow> (int option \<times> relayer) option" where
  "rel_acts err held [] s = Some (None, s)"
| "rel_acts err held (a # as) s = do {
     (r, s) \<leftarrow> do_act err held a s;
     case r of None \<Rightarrow> rel_acts err held as s | Some n \<Rightarrow> Some (Some n, s) }"

text \<open>
  \<open>main\<close> with the results of the four calls of \<open>open\<close>, the memory of the two jobs and the numbers of passes after
  its actions (before the first job there is no thread and they are none); the last number are passes during
  \<open>pause()\<close>, in which the program stays for ever.
\<close>

definition pair_acts :: "int \<Rightarrow> int \<Rightarrow> string \<Rightarrow> string \<Rightarrow> string \<Rightarrow> rel_job_st option \<Rightarrow> (nat \<Rightarrow> nat) \<Rightarrow> engine_act list" where
  "pair_acts fda fdb msg linea lineb mem n =
     [Tty fda linea msg, Passes (n 0), Tty fdb lineb ''open()'', Passes (n 1), Job fda fdb mem, Passes (n 2)]"

definition rel_main :: "int \<Rightarrow> bool \<Rightarrow> (nat \<Rightarrow> int) \<Rightarrow> (nat \<Rightarrow> rel_job_st option) \<Rightarrow> (nat \<Rightarrow> nat) \<Rightarrow> relayer
    \<Rightarrow> (int option \<times> relayer) option" where
  "rel_main err held fd mem n s = rel_acts err held
     (pair_acts (fd 0) (fd 1) ''opne()'' ''TTY1\<newline>'' ''TTY2\<newline>'' (mem 0) n
      @ pair_acts (fd 2) (fd 3) ''open()'' ''TTY3\<newline>'' ''TTY4\<newline>'' (mem 1) (\<lambda>i. n (i + 3))) s"

section \<open>The state of the library between actions\<close>

definition engine_inv :: "(int \<Rightarrow> byte list) \<Rightarrow> (int \<Rightarrow> byte list) \<Rightarrow> relayer \<Rightarrow> bool" where
  "engine_inv g st s \<longleftrightarrow> length (rel_job s) = REL_JOBMAX \<and> ended s = None \<and>
     (\<forall>k \<in> set (rel_job s). job_inv g st (rw s) k) \<and> disjoint_jobs (rel_job s)"

definition idle_fd :: "relayer \<Rightarrow> int \<Rightarrow> bool" where
  "idle_fd s fd \<longleftrightarrow> (\<forall>k \<in> set (rel_job s). fd \<notin> job_fds k)"

text \<open>The jobs of a table by the descriptors they relay between.\<close>

abbreviation job_map :: "relayer \<Rightarrow> int set list" where
  "job_map s \<equiv> map job_fds (rel_job s)"

lemma idle_fd_map: "idle_fd s fd \<longleftrightarrow> (\<forall>F \<in> set (job_map s). fd \<notin> F)"
  by (auto simp: idle_fd_def)

lemma disjoint_jobs_update:
  assumes "disjoint_jobs tab" "\<forall>k \<in> set tab. job_fds jo \<inter> job_fds k = {}"
  shows "disjoint_jobs (tab[p := jo])"
  using assms
proof (induction tab arbitrary: p)
  case (Cons k tab)
  then show ?case
    by (cases p) (auto dest!: set_update_subset_insert [THEN subsetD])
qed simp

text \<open>The invariant of a job depends on the logs of its own descriptors only.\<close>

lemma job_inv_logs:
  assumes "job_inv g st w k" "\<forall>fd \<in> job_fds k. g' fd = g fd \<and> st' fd = st fd"
  shows "job_inv g' st' w k"
  using assms by (cases k) (auto simp: job_inv_def relay_inv_def opposite_def)

text \<open>Actions of the main thread and passes.\<close>

lemma passes_inv:
  assumes "engine_inv g st s"
  shows "\<exists>s'. do_act err held (Passes n) s = Some (None, s') \<and> engine_inv g st s' \<and> once s' = once s \<and> job_map s' = job_map s
    \<and> (\<forall>fd. idle_fd s fd \<longrightarrow> got (rw s') fd = got (rw s) fd \<and> sent (rw s') fd = sent (rw s) fd)"
proof (cases "once s")
  case False
  with assms show ?thesis by auto
next
  case True
  have i: "\<forall>k \<in> set (rel_job s). job_inv g st (rw s) k" "disjoint_jobs (rel_job s)"
    using assms(1) by (auto simp: engine_inv_def)
  obtain tab w where r: "thr_relayer_run n (rel_job s) (rw s) = Some (tab, w)" "\<forall>k \<in> set tab. job_inv g st w k"
    "map job_fds tab = job_map s"
    "\<forall>fd. (\<forall>k \<in> set (rel_job s). fd \<notin> job_fds k) \<longrightarrow> got w fd = got (rw s) fd \<and> sent w fd = sent (rw s) fd"
    using thr_relayer_run_inv [OF i, of n] by blast
  have "length tab = REL_JOBMAX" "disjoint_jobs tab"
    using assms(1) disjoint_jobs_cong [OF r(3)] map_eq_imp_length_eq [OF r(3)] by (auto simp: engine_inv_def)
  with r assms True show ?thesis by (auto simp: engine_inv_def idle_fd_def)
qed

lemma sys_write_logs:
  assumes "sys_write fd bs w = (r, w')"
  shows "got w' = got w" "\<exists>k. sent w' = (sent w)(fd := sent w fd @ take k bs)"
  using assms by (auto simp: sys_write_def split: list.splits wr_reply.splits intro: exI [of _ "length bs"] exI [of _ 0])

lemma tty_inv:
  assumes "engine_inv g st s" "0 \<le> fd" "idle_fd s fd"
  shows "\<exists>s' k. do_act err held (Tty fd line msg) s = Some (None, s') \<and> engine_inv g st s' \<and> once s' = once s
    \<and> job_map s' = job_map s \<and> got (rw s') = got (rw s) \<and> sent (rw s') = (sent (rw s))(fd := sent (rw s) fd @ take k line)"
proof -
  obtain r w where w: "sys_write fd line (rw s) = (r, w)" by fastforce
  from sys_write_logs [OF w] obtain k where
    l: "got w = got (rw s)" "sent w = (sent (rw s))(fd := sent (rw s) fd @ take k line)" by blast
  have "job_inv g st w k" if k: "k \<in> set (rel_job s)" for k
  proof (rule job_inv_cong)
    show "job_inv g st (rw s) k" using assms(1) k by (simp add: engine_inv_def)
    show "\<forall>fd \<in> job_fds k. got w fd = got (rw s) fd \<and> sent w fd = sent (rw s) fd"
      using assms(3) k by (auto simp: l idle_fd_def)
  qed
  with assms w l show ?thesis by (auto simp: engine_inv_def)
qed

definition log_from :: "int \<Rightarrow> int \<Rightarrow> (int \<Rightarrow> byte list) \<Rightarrow> (int \<Rightarrow> byte list) \<Rightarrow> int \<Rightarrow> byte list" where
  "log_from fda fdb now g = g(fda := now fda, fdb := now fdb)"

lemma rel_once_0: "rel_once 0 s = s\<lparr>once := True\<rparr>" "s\<lparr>once := True, once := True\<rparr> = s\<lparr>once := True\<rparr>"
  by (cases s; simp add: rel_once_def module_load_def)+

lemma job_act_inv:
  assumes eng: "engine_inv g st s" and fds: "fda \<noteq> fdb" "idle_fd s fda" "idle_fd s fdb"
    and mem: "length (buf (fsm12 me)) = BUFSIZE" "length (buf (fsm21 me)) = BUFSIZE"
    and free: "free_pos (rel_job s) = int p"
  shows "\<exists>s'. do_act 0 held (Job fda fdb (Some me)) s = Some (None, s') \<and> once s'
    \<and> engine_inv (log_from fda fdb (got (rw s)) g) (log_from fda fdb (sent (rw s)) st) s'
    \<and> job_map s' = (job_map s)[p := {fda, fdb}] \<and> got (rw s') = got (rw s) \<and> sent (rw s') = sent (rw s)"
proof -
  let ?j = "me\<lparr>fd1 := fda, fd2 := fdb, job_state := STATE_RUNNING, fd1_save := flags (rw s) fda, fd2_save := flags (rw s) fdb,
    fsm12 := fsm_init (fsm12 me) fda fdb, fsm21 := fsm_init (fsm21 me) fdb fda\<rparr>"
  let ?w = "nonblock_world fda fdb (rw s)"
  let ?s = "s\<lparr>once := True, rw := ?w, rel_job := (rel_job s)[p := Some ?j]\<rparr>"
  let ?g = "log_from fda fdb (got (rw s)) g" and ?st = "log_from fda fdb (sent (rw s)) st"
  have ok: "relayer_ok (s\<lparr>once := True\<rparr>)" using eng by (simp add: relayer_ok_def engine_inv_def)
  have "rel_addjob 0 (Some me) fda fdb s = rel_addjob 0 (Some me) fda fdb (s\<lparr>once := True\<rparr>)"
    by (simp only: rel_addjob_def rel_once_0)
  also have "\<dots> = (Some (int p), ?s)" using free by (simp add: rel_addjob_eq [OF ok fds(1)])
  finally have act: "do_act 0 held (Job fda fdb (Some me)) s = Some (None, ?s)" by simp
  have logs: "got ?w = got (rw s)" "sent ?w = sent (rw s)" by simp_all
  have "relay_inv (got ?w) (sent ?w) (fsm12 ?j, fsm21 ?j, ?w)" using start_inv [OF fds(1) mem, of ?w] by simp
  then have "job_inv (got ?w) (sent ?w) ?w (Some ?j)" by (simp add: job_inv_def fsm_init_def)
  then have new: "job_inv ?g ?st ?w (Some ?j)"
    by (rule job_inv_logs) (auto simp: log_from_def fsm_init_def)
  have idle: "fda \<notin> job_fds k \<and> fdb \<notin> job_fds k" if "k \<in> set (rel_job s)" for k
    using fds that by (auto simp: idle_fd_def)
  have old: "job_inv ?g ?st ?w k" if k: "k \<in> set (rel_job s)" for k
  proof (rule job_inv_logs)
    show "job_inv g st ?w k" by (rule job_inv_cong [of _ _ "rw s"]) (use eng k in \<open>auto simp: engine_inv_def\<close>)
    show "\<forall>fd \<in> job_fds k. ?g fd = g fd \<and> ?st fd = st fd" using idle [OF k] by (auto simp: log_from_def)
  qed
  have fj: "job_fds (Some ?j) = {fda, fdb}" by (simp add: fsm_init_def)
  have "disjoint_jobs ((rel_job s)[p := Some ?j])"
    by (rule disjoint_jobs_update) (use eng idle fj in \<open>auto simp: engine_inv_def\<close>)
  moreover have "\<forall>k \<in> set ((rel_job s)[p := Some ?j]). job_inv ?g ?st ?w k"
    using new old set_update_subset_insert [of "rel_job s" p "Some ?j"] by auto
  ultimately have "engine_inv ?g ?st ?s" using eng by (simp add: engine_inv_def)
  moreover have "job_map ?s = (job_map s)[p := {fda, fdb}]" using fj by (simp add: map_update)
  ultimately show ?thesis using act logs by (intro exI [of _ ?s]) simp
qed

section \<open>The two pairs of terminals\<close>

lemma rel_acts_append:
  "rel_acts err held as s = Some (None, s') \<Longrightarrow> rel_acts err held (as @ bs) s = rel_acts err held bs s'"
proof (induction "as" arbitrary: s)
  case (Cons a "as")
  then obtain r t where a: "do_act err held a s = Some (r, t)" by (auto simp: bind_eq_Some_conv)
  with Cons show ?case by (cases r) auto
qed simp

lemma free_pos_map:
  assumes "p < length (rel_job s)" "job_map s ! p = {}" "\<forall>m < p. job_map s ! m \<noteq> {}"
  shows "free_pos (rel_job s) = int p"
proof -
  have none: "rel_job s ! m = None \<longleftrightarrow> job_map s ! m = {}" if "m < length (rel_job s)" for m
    using that by (cases "rel_job s ! m") auto
  show ?thesis
  proof (cases "rel_job s" rule: free_pos_cases)
    case full
    with assms none [of p] nth_mem [of p "rel_job s"] show ?thesis by simp
  next
    case (free q)
    with assms none have "\<not> q < p" "\<not> p < q" by auto
    with free show ?thesis by simp
  qed
qed

lemma disjoint_replicate: "disjoint_jobs (replicate n None)"
  by (induction n) auto

lemma update_replicate: "0 < n \<Longrightarrow> (replicate n x)[0 := y] = y # replicate (n - 1) x"
  by (cases n) auto

lemma pair_inv:
  assumes eng: "engine_inv g st s" and fds: "a \<noteq> b" "0 \<le> a" "0 \<le> b" "idle_fd s a" "idle_fd s b"
    and mem: "mem = Some me" "length (buf (fsm12 me)) = BUFSIZE" "length (buf (fsm21 me)) = BUFSIZE"
    and free: "p < REL_JOBMAX" "job_map s ! p = {}" "\<forall>m < p. job_map s ! m \<noteq> {}"
  shows "\<exists>s' st' ka kb. rel_acts 0 held (pair_acts a b msg la lb mem n) s = Some (None, s')
    \<and> engine_inv (log_from a b (got (rw s)) g) st' s' \<and> job_map s' = (job_map s)[p := {a, b}]
    \<and> st' = st(a := sent (rw s) a @ take ka la, b := sent (rw s) b @ take kb lb)
    \<and> (\<forall>fd. fd \<notin> {a, b} \<longrightarrow> idle_fd s fd \<longrightarrow> got (rw s') fd = got (rw s) fd \<and> sent (rw s') fd = sent (rw s) fd)"
proof -
  have idle: "idle_fd t fd = idle_fd s fd" if "job_map t = job_map s" for t fd using that by (simp add: idle_fd_map)
  obtain s1 ka where s1: "do_act 0 held (Tty a la msg) s = Some (None, s1)" "engine_inv g st s1" "job_map s1 = job_map s"
    "got (rw s1) = got (rw s)" "sent (rw s1) = (sent (rw s))(a := sent (rw s) a @ take ka la)"
    using tty_inv [OF eng fds(2,4)] by blast
  obtain s2 where s2: "do_act 0 held (Passes (n 0)) s1 = Some (None, s2)" "engine_inv g st s2" "job_map s2 = job_map s"
    "\<forall>fd. idle_fd s fd \<longrightarrow> got (rw s2) fd = got (rw s1) fd \<and> sent (rw s2) fd = sent (rw s1) fd"
    using passes_inv [OF s1(2)] s1(3) idle [OF s1(3)] by metis
  have "idle_fd s2 b" using fds(5) idle [OF s2(3)] by simp
  then obtain s3 kb where s3: "do_act 0 held (Tty b lb ''open()'') s2 = Some (None, s3)" "engine_inv g st s3" "job_map s3 = job_map s"
    "got (rw s3) = got (rw s2)" "sent (rw s3) = (sent (rw s2))(b := sent (rw s2) b @ take kb lb)"
    using tty_inv [OF s2(2) fds(3)] s2(3) by metis
  obtain s4 where s4: "do_act 0 held (Passes (n 1)) s3 = Some (None, s4)" "engine_inv g st s4" "job_map s4 = job_map s"
    "\<forall>fd. idle_fd s fd \<longrightarrow> got (rw s4) fd = got (rw s3) fd \<and> sent (rw s4) fd = sent (rw s3) fd"
    using passes_inv [OF s3(2)] s3(3) idle [OF s3(3)] by metis
  have i4: "idle_fd s4 a" "idle_fd s4 b" using fds idle [OF s4(3)] by simp_all
  have "p < length (rel_job s4)" using s4(2) free(1) by (simp add: engine_inv_def)
  then have p4: "free_pos (rel_job s4) = int p" by (rule free_pos_map) (use s4(3) free in simp_all)
  obtain s5 where s5: "do_act 0 held (Job a b mem) s4 = Some (None, s5)"
    "engine_inv (log_from a b (got (rw s4)) g) (log_from a b (sent (rw s4)) st) s5"
    "job_map s5 = (job_map s)[p := {a, b}]" "got (rw s5) = got (rw s4)" "sent (rw s5) = sent (rw s4)"
    using job_act_inv [OF s4(2) fds(1) i4 mem(2,3) p4] mem(1) s4(3) by metis
  have i5: "idle_fd s5 fd" if "fd \<notin> {a, b}" "idle_fd s fd" for fd
    using that set_update_subset_insert [of "job_map s" p "{a, b}"] by (auto simp: idle_fd_map s5(3))
  obtain s6 where s6: "do_act 0 held (Passes (n 2)) s5 = Some (None, s6)"
    "engine_inv (log_from a b (got (rw s4)) g) (log_from a b (sent (rw s4)) st) s6"
    "job_map s6 = (job_map s)[p := {a, b}]"
    "\<forall>fd. idle_fd s5 fd \<longrightarrow> got (rw s6) fd = got (rw s5) fd \<and> sent (rw s6) fd = sent (rw s5) fd"
    using passes_inv [OF s5(2)] s5(3) by metis
  have logs: "got (rw s4) fd = got (rw s) fd"
      "sent (rw s4) fd = (if fd = a then sent (rw s) a @ take ka la else if fd = b then sent (rw s) b @ take kb lb else sent (rw s) fd)"
    if "idle_fd s fd" for fd
    using that s1(4,5) s2(4) s3(4,5) s4(4) fds(1,4,5) by auto
  then have "log_from a b (got (rw s4)) g = log_from a b (got (rw s)) g"
      "log_from a b (sent (rw s4)) st = st(a := sent (rw s) a @ take ka la, b := sent (rw s) b @ take kb lb)"
    using fds(1,4,5) by (simp_all add: log_from_def)
  with s1(1) s2(1) s3(1) s4(1) s5(1,4,5) s6 i5 logs show ?thesis
    by (intro exI [of _ s6] exI [of _ "st(a := sent (rw s) a @ take ka la, b := sent (rw s) b @ take kb lb)"]
          exI [of _ ka] exI [of _ kb]) (simp add: pair_acts_def)
qed

text \<open>C21: When the four terminals open, memory suffices and the thread can be created, then whatever passes the thread of the
  library makes between and after the actions of \<open>main\<close>: both jobs are installed, each between its own two terminals, and
  each at all times satisfies the relay invariant (what is written to one side is what was read from the other, less what
  is buffered or given up after an error), counted from the bytes there were when \<open>main\<close> added the job: nothing was read
  before, and nothing but a prefix of the line of \<open>main\<close> was written.\<close>

theorem relay_engine_program:
  assumes start: "rel_job s = replicate REL_JOBMAX None" "ended s = None"
    and fds: "distinct [fd 0, fd 1, fd 2, fd 3]" "\<forall>i < 4. 0 \<le> fd i"
    and mem: "\<forall>i < 2. \<exists>me. mem i = Some me \<and> length (buf (fsm12 me)) = BUFSIZE \<and> length (buf (fsm21 me)) = BUFSIZE"
  shows "\<exists>s' g st k. rel_main 0 held fd mem n s = Some (None, s') \<and> engine_inv g st s'
    \<and> job_map s' = [{fd 0, fd 1}, {fd 2, fd 3}] @ replicate (REL_JOBMAX - 2) {}
    \<and> (\<forall>i < 4. g (fd i) = got (rw s) (fd i)
        \<and> st (fd i) = sent (rw s) (fd i) @ take (k i) ([''TTY1\<newline>'', ''TTY2\<newline>'', ''TTY3\<newline>'', ''TTY4\<newline>''] ! i))"
proof -
  have map0: "job_map s = replicate REL_JOBMAX {}" by (simp add: start)
  have eng0: "engine_inv (\<lambda>_. []) (\<lambda>_. []) s"
    using disjoint_replicate [of REL_JOBMAX] by (simp add: engine_inv_def start job_inv_def)
  have idle0: "idle_fd s x" for x by (simp add: idle_fd_map map0)
  obtain me0 me1 where me: "mem 0 = Some me0" "length (buf (fsm12 me0)) = BUFSIZE" "length (buf (fsm21 me0)) = BUFSIZE"
    "mem 1 = Some me1" "length (buf (fsm12 me1)) = BUFSIZE" "length (buf (fsm21 me1)) = BUFSIZE"
    using mem [rule_format, of 0] mem [rule_format, of 1] by auto
  have d: "fd 0 \<noteq> fd 1" "fd 2 \<noteq> fd 3" "fd 2 \<notin> {fd 0, fd 1}" "fd 3 \<notin> {fd 0, fd 1}"
    "0 \<le> fd 0" "0 \<le> fd 1" "0 \<le> fd 2" "0 \<le> fd 3"
    using fds by auto
  obtain s1 st1 k0 k1 where s1:
    "rel_acts 0 held (pair_acts (fd 0) (fd 1) ''opne()'' ''TTY1\<newline>'' ''TTY2\<newline>'' (mem 0) n) s = Some (None, s1)"
    "engine_inv (log_from (fd 0) (fd 1) (got (rw s)) (\<lambda>_. [])) st1 s1"
    "job_map s1 = (job_map s)[0 := {fd 0, fd 1}]"
    "st1 = (\<lambda>_. [])(fd 0 := sent (rw s) (fd 0) @ take k0 ''TTY1\<newline>'', fd 1 := sent (rw s) (fd 1) @ take k1 ''TTY2\<newline>'')"
    "\<forall>x. x \<notin> {fd 0, fd 1} \<longrightarrow> idle_fd s x \<longrightarrow> got (rw s1) x = got (rw s) x \<and> sent (rw s1) x = sent (rw s) x"
    using pair_inv [OF eng0 d(1,5,6) idle0 idle0 me(1-3), of 0 held "''opne()''" "''TTY1\<newline>''" "''TTY2\<newline>''" n] map0
    by auto
  have map1: "job_map s1 = {fd 0, fd 1} # replicate (REL_JOBMAX - 1) {}"
    unfolding s1(3) map0 by (rule update_replicate) simp
  have idle1: "idle_fd s1 (fd 2)" "idle_fd s1 (fd 3)" using d by (auto simp: idle_fd_map map1)
  have free1: "1 < REL_JOBMAX" "job_map s1 ! 1 = {}" "\<forall>m < 1. job_map s1 ! m \<noteq> {}"
    by (simp_all add: map1)
  obtain s2 st2 k2 k3 where s2:
    "rel_acts 0 held (pair_acts (fd 2) (fd 3) ''open()'' ''TTY3\<newline>'' ''TTY4\<newline>'' (mem 1) (\<lambda>i. n (i + 3))) s1 = Some (None, s2)"
    "engine_inv (log_from (fd 2) (fd 3) (got (rw s1)) (log_from (fd 0) (fd 1) (got (rw s)) (\<lambda>_. []))) st2 s2"
    "job_map s2 = (job_map s1)[1 := {fd 2, fd 3}]"
    "st2 = st1(fd 2 := sent (rw s1) (fd 2) @ take k2 ''TTY3\<newline>'', fd 3 := sent (rw s1) (fd 3) @ take k3 ''TTY4\<newline>'')"
    using pair_inv [OF s1(2) d(2,7,8) idle1 me(4-6) free1, of held "''open()''" "''TTY3\<newline>''" "''TTY4\<newline>''" "\<lambda>i. n (i + 3)"]
    by blast
  have map2: "job_map s2 = [{fd 0, fd 1}, {fd 2, fd 3}] @ replicate (REL_JOBMAX - 2) {}"
    unfolding s2(3) map1 using update_replicate [of "REL_JOBMAX - 1" "{}" "{fd 2, fd 3}"] by simp
  have run: "rel_main 0 held fd mem n s = Some (None, s2)"
    unfolding rel_main_def rel_acts_append [OF s1(1)] by (rule s2(1))
  let ?k = "\<lambda>i. [k0, k1, k2, k3] ! i"
  have four: "i = 0 \<or> i = 1 \<or> i = 2 \<or> i = 3" if "i < 4" for i :: nat using that by auto
  have "\<forall>i < 4. log_from (fd 2) (fd 3) (got (rw s1)) (log_from (fd 0) (fd 1) (got (rw s)) (\<lambda>_. [])) (fd i) = got (rw s) (fd i)
      \<and> st2 (fd i) = sent (rw s) (fd i) @ take (?k i) ([''TTY1\<newline>'', ''TTY2\<newline>'', ''TTY3\<newline>'', ''TTY4\<newline>''] ! i)"
    using d s1(5) idle0 by (auto dest!: four simp: log_from_def s2(4) s1(4))
  with run s2(2) map2 show ?thesis by blast
qed

theorem relay_engine_program_witness:
  "\<exists>s' g st. rel_main 0 True (\<lambda>i. int i + 3) (\<lambda>_. Some (demo_job 3 4)) (\<lambda>_. 5)
      \<lparr>rel_job = replicate REL_JOBMAX None, rw = demo_world, once = False, ended = None\<rparr> = Some (None, s')
    \<and> engine_inv g st s' \<and> job_map s' = [{3, 4}, {5, 6}] @ replicate (REL_JOBMAX - 2) {}"
proof -
  let ?s = "\<lparr>rel_job = replicate REL_JOBMAX None, rw = demo_world, once = False, ended = None\<rparr>"
  have b: "length (buf (fsm12 (demo_job 3 4))) = BUFSIZE" "length (buf (fsm21 (demo_job 3 4))) = BUFSIZE"
    by (simp_all add: demo_job_def demo_fsm_def fsm_init_def)
  obtain s' g st where "rel_main 0 True (\<lambda>i. int i + 3) (\<lambda>_. Some (demo_job 3 4)) (\<lambda>_. 5) ?s = Some (None, s')"
    "engine_inv g st s'"
    "job_map s' = [{int 0 + 3, int 1 + 3}, {int 2 + 3, int 3 + 3}] @ replicate (REL_JOBMAX - 2) {}"
    using relay_engine_program [of ?s "\<lambda>i. int i + 3" "\<lambda>_. Some (demo_job 3 4)" True "\<lambda>_. 5"] b by auto
  then show ?thesis by (intro exI [of _ s'] exI [of _ g] exI [of _ st]) simp
qed

end
