(* ===== verification/Shell.thy ===== *)
theory Shell
  imports Prelude
begin

text \<open>
  The shell of \<open>process_basic/sh.c\<close>: it reads a line, splits it with \<open>strsep\<close>, collects what \<open>glob\<close> makes of the
  words and runs the result. What \<open>glob\<close> makes of a word (\<open>expand\<close>; with \<open>GLOB_NOCHECK\<close> at least the word
  itself) and whether \<open>fork\<close> succeeds are parameters. The lemmas: the command that is run consists of the expanded
  words of the line, and a blank line runs the last command once more.
\<close>

section \<open>The program\<close>

definition is_delim :: "char \<Rightarrow> bool" where
  "is_delim c \<longleftrightarrow> c \<in> {CHR '' '', CHR 0x0A, CHR 0x09}"

text \<open>\<open>strsep(&line, DELIM)\<close> of a line that is not \<open>NULL\<close>: the token and the new value of \<open>line\<close>.\<close>

definition strsep :: "string \<Rightarrow> string \<times> string option" where
  "strsep s = (takeWhile (\<lambda>c. \<not> is_delim c) s,
     case dropWhile (\<lambda>c. \<not> is_delim c) s of [] \<Rightarrow> None | _ # rest \<Rightarrow> Some rest)"

text \<open>
  \<open>glob(tok, GLOB_NOCHECK | GLOB_APPEND * i, NULL, &res->globres)\<close>: the vector \<open>res\<close>, which is uninitialised before
  the first word (\<open>None\<close>), is replaced or, when \<open>i\<close> is 1, extended.
\<close>

definition glob_into :: "(string \<Rightarrow> string list) \<Rightarrow> int \<Rightarrow> string \<Rightarrow> string list option \<Rightarrow> string list option" where
  "glob_into expand i tok res = (if i = 1 then map_option (\<lambda>v. v @ expand tok) res else Some (expand tok))"

text \<open>The loop of \<open>parse\<close>.\<close>

function parse_loop ::
  "(string \<Rightarrow> string list) \<Rightarrow> string option \<Rightarrow> int \<Rightarrow> string list option \<Rightarrow> string list option" where
  "parse_loop expand line i res = (case line of
       None \<Rightarrow> res
     | Some s \<Rightarrow> (case strsep s of (tok, line') \<Rightarrow>
         if tok = [] then parse_loop expand line' i res
         else parse_loop expand line' 1 (glob_into expand i tok res)))"
  by pat_completeness auto

lemma strsep_shorter: "strsep s = (tok, Some rest) \<Longrightarrow> length rest < length s"
proof -
  assume "strsep s = (tok, Some rest)"
  then obtain c where "dropWhile (\<lambda>c. \<not> is_delim c) s = c # rest" by (auto simp: strsep_def split: list.splits)
  then show ?thesis using length_dropWhile_le [of "\<lambda>c. \<not> is_delim c" s] by simp
qed

termination parse_loop
  by (relation "measure (\<lambda>(e, line, i, res). case line of None \<Rightarrow> 0 | Some s \<Rightarrow> Suc (length s))")
    (auto dest: strsep_shorter [OF sym] split: option.splits)

declare parse_loop.simps [simp del]

definition parse :: "(string \<Rightarrow> string list) \<Rightarrow> string \<Rightarrow> string list option \<Rightarrow> string list option" where
  "parse expand line res = parse_loop expand (Some line) 0 res"

datatype shell_event = Prompt | Exec "string list"

text \<open>
  \<open>main\<close>: the lines that \<open>getline\<close> reads before it fails, each with the success of the \<open>fork\<close> after it. The child runs
  \<open>execvp\<close> on the vector (reading it uninitialised is undefined) and the parent waits. The events and the exit
  status.
\<close>

fun shell_loop :: "(string \<Rightarrow> string list) \<Rightarrow> (string \<times> bool) list \<Rightarrow> string list option
    \<Rightarrow> (shell_event list \<times> int) option" where
  "shell_loop expand [] cmd = Some ([Prompt], 0)"
| "shell_loop expand ((line, forked) # ls) cmd =
     (let cmd = parse expand line cmd
      in if \<not> forked then Some ([Prompt], 1)
         else do { argv \<leftarrow> cmd;
                   (es, n) \<leftarrow> shell_loop expand ls cmd;
                   Some (Prompt # Exec argv # es, n) })"

definition shell_main :: "(string \<Rightarrow> string list) \<Rightarrow> (string \<times> bool) list \<Rightarrow> (shell_event list \<times> int) option" where
  "shell_main expand ls = shell_loop expand ls None"

section \<open>The words of a line\<close>

function split_words :: "string \<Rightarrow> string list" where
  "split_words s = (case dropWhile is_delim s of
       [] \<Rightarrow> []
     | c # cs \<Rightarrow> (c # takeWhile (\<lambda>c. \<not> is_delim c) cs) # split_words (dropWhile (\<lambda>c. \<not> is_delim c) cs))"
  by pat_completeness auto
termination
proof (relation "measure length", goal_cases)
  case (2 s c cs)
  then show ?case
    using length_dropWhile_le [of is_delim s] length_dropWhile_le [of "\<lambda>c. \<not> is_delim c" cs] by simp
qed simp

declare split_words.simps [simp del]

lemma split_words_Nil [simp]: "split_words [] = []"
  by (simp add: split_words.simps)

lemma split_words_delim: "is_delim c \<Longrightarrow> split_words (c # cs) = split_words cs"
  by (simp add: split_words.simps [of "c # cs"] split_words.simps [of cs])

lemma split_words_word:
  assumes "takeWhile (\<lambda>c. \<not> is_delim c) s = w" "w \<noteq> []"
  shows "split_words s = w # split_words (dropWhile (\<lambda>c. \<not> is_delim c) s)"
proof -
  obtain c cs where "s = c # cs" "\<not> is_delim c" using assms by (cases s) (auto split: if_splits)
  with assms show ?thesis by (subst split_words.simps) simp
qed

lemma parse_loop_words:
  "parse_loop expand line i res =
     (let ws = (case line of None \<Rightarrow> [] | Some s \<Rightarrow> split_words s)
      in if ws = [] then res
         else if i = 1 then map_option (\<lambda>v. v @ concat (map expand ws)) res
         else Some (concat (map expand ws)))"
proof (induction expand line i res rule: parse_loop.induct)
  case (1 expand line i res)
  show ?case
  proof (cases line)
    case None
    then show ?thesis by (simp add: parse_loop.simps [of expand None])
  next
    case (Some s)
    let ?d = "dropWhile (\<lambda>c. \<not> is_delim c) s"
    obtain tok line' where sep: "strsep s = (tok, line')" by fastforce
    have tok: "tok = takeWhile (\<lambda>c. \<not> is_delim c) s" using sep by (simp add: strsep_def)
    have d: "?d = [] \<and> line' = None \<or> (\<exists>c. ?d = c # the line' \<and> is_delim c \<and> line' \<noteq> None)"
      using sep hd_dropWhile [of "\<lambda>c. \<not> is_delim c" s] by (cases ?d) (auto simp: strsep_def)
    then have rest: "split_words ?d = (case line' of None \<Rightarrow> [] | Some s \<Rightarrow> split_words s)"
      by (elim disjE conjE exE) (simp only: split_words_Nil option.case, auto simp: split_words_delim)
    show ?thesis
    proof (cases "tok = []")
      case True
      then have "?d = s" using tok takeWhile_dropWhile_id [of "\<lambda>c. \<not> is_delim c" s] by simp
      with True rest "1.IH"(1) [OF Some sep [symmetric] True] show ?thesis
        by (simp add: parse_loop.simps [of expand "Some s"] Some sep)
    next
      case False
      have "split_words s = tok # split_words ?d" using split_words_word [of s tok] tok False by simp
      with False rest "1.IH"(2) [OF Some sep [symmetric] False] show ?thesis
        by (auto simp: parse_loop.simps [of expand "Some s"] Some sep glob_into_def Let_def option.map_comp o_def)
    qed
  qed
qed

lemma parse_words:
  "parse expand line res = (if split_words line = [] then res else Some (concat (map expand (split_words line))))"
  by (simp add: parse_def parse_loop_words Let_def)

section \<open>What is run\<close>

text \<open>The command after some lines is that of the last line that is not blank.\<close>

definition command_of :: "(string \<Rightarrow> string list) \<Rightarrow> string list \<Rightarrow> string list" where
  "command_of expand ls = concat (map expand (split_words (last (filter (\<lambda>l. split_words l \<noteq> []) ls))))"

definition commands :: "(string \<Rightarrow> string list) \<Rightarrow> string list \<Rightarrow> string list list" where
  "commands expand ls = map (\<lambda>k. command_of expand (take (Suc k) ls)) [0..<length ls]"

definition run_events :: "string list list \<Rightarrow> shell_event list" where
  "run_events cs = concat (map (\<lambda>argv. [Prompt, Exec argv]) cs)"

lemma upt_length_Cons: "[0..<length (l # ls)] = 0 # map Suc [0..<length ls]"
  by (simp add: upt_conv_Cons map_Suc_upt del: upt_Suc)

lemma shell_loop_runs:
  assumes "before \<noteq> []" "split_words (hd before) \<noteq> []"
  shows "shell_loop expand (map (\<lambda>l. (l, True)) ls @ more) (Some (command_of expand before)) =
    map_option (\<lambda>(es, n). (run_events (map (\<lambda>k. command_of expand (before @ take (Suc k) ls)) [0..<length ls]) @ es, n))
      (shell_loop expand more (Some (command_of expand (before @ ls))))"
  using assms
proof (induction ls arbitrary: before)
  case Nil
  then show ?case by (simp add: run_events_def option.map_ident case_prod_unfold)
next
  case (Cons l ls)
  have ne: "filter (\<lambda>l. split_words l \<noteq> []) before \<noteq> []" using Cons.prems by (cases before) auto
  have cmd: "parse expand l (Some (command_of expand before)) = Some (command_of expand (before @ [l]))"
    using ne by (simp add: parse_words command_of_def)
  show ?case
    unfolding upt_length_Cons using Cons.IH [of "before @ [l]"] Cons.prems
    by (cases "shell_loop expand more (Some (command_of expand (before @ l # ls)))")
      (auto simp: cmd o_def run_events_def)
qed

text \<open>C39: As long as \<open>fork\<close> succeeds and the first line is not blank, the shell prompts, runs for every line the list of what
  its words expand to, in order, and at the end of the input prompts once more and exits with 0; for a line without
  words the command of the last line that had some is run again. When \<open>fork\<close> fails the shell ends with 1 at that line. A
  blank first line makes it read an uninitialised vector.\<close>

theorem shell_runs:
  assumes "ls \<noteq> []" "split_words (hd ls) \<noteq> []" "split_words blank = []"
  shows "shell_main expand (map (\<lambda>l. (l, True)) ls) = Some (run_events (commands expand ls) @ [Prompt], 0)
    \<and> shell_main expand (map (\<lambda>l. (l, True)) ls @ (line, False) # more) = Some (run_events (commands expand ls) @ [Prompt], 1)
    \<and> shell_main expand ((blank, True) # more) = None"
proof -
  obtain l ls' where ls: "ls = l # ls'" using assms(1) by (cases ls) auto
  have first: "parse expand l None = Some (command_of expand [l])" "parse expand blank None = None"
    using assms ls by (simp_all add: parse_words command_of_def)
  have "run_events (commands expand ls) =
      [Prompt, Exec (command_of expand [l])] @ run_events (map (\<lambda>k. command_of expand ([l] @ take (Suc k) ls')) [0..<length ls'])"
    unfolding commands_def ls upt_length_Cons by (simp add: run_events_def o_def)
  then show ?thesis
    using shell_loop_runs [of "[l]" expand ls' "[]"] shell_loop_runs [of "[l]" expand ls' "(line, False) # more"] assms
    by (simp add: shell_main_def ls first)
qed

theorem shell_runs_witness:
  "shell_main (\<lambda>w. if w = ''*.c'' then [''a.c'', ''b.c''] else [w]) [(''ls  *.c\<newline>'', True), (''\<newline>'', True)] =
    Some ([Prompt, Exec [''ls'', ''a.c'', ''b.c''], Prompt, Exec [''ls'', ''a.c'', ''b.c''], Prompt], 0)"
proof -
  have w: "split_words ''ls  *.c\<newline>'' = [''ls'', ''*.c'']" "split_words ''\<newline>'' = []" by code_simp+
  show ?thesis
    using shell_runs [of "[''ls  *.c\<newline>'', ''\<newline>'']" "''\<newline>''" "\<lambda>w. if w = ''*.c'' then [''a.c'', ''b.c''] else [w]"] w
    by (simp add: run_events_def commands_def command_of_def upt_rec)
qed

end
