(* ===== verification/SignalDemo.thy ===== *)
theory SignalDemo
  imports Prelude
begin

text \<open>
  The programs of \<open>parallel/signal\<close> that print stars while signals arrive: \<open>star.c\<close> (nothing is blocked), \<open>block.c\<close> (SIGINT is
  blocked during a line), \<open>susp.c\<close> (every line waits for a signal with \<open>sigsuspend\<close>), \<open>susp_rt.c\<close> (the same with a
  realtime signal). A program is the list of its calls; what arrives during each is a script. The theorem: where the
  signals are blocked no line is torn, with \<open>sigsuspend\<close> each line is released by its own signals, and realtime signals are
  counted while the others are merged.
\<close>

section \<open>Signals\<close>

text \<open>SIGINT, and the realtime signal \<open>SIGRTMIN+6\<close>.\<close>

datatype signo = SIGINT | MYRTSIG

text \<open>
  Whether the two signals are blocked; what is pending (one bit for SIGINT, a queue for the realtime signal); what has been written.
\<close>

record sig_state =
  masked :: bool
  pend_int :: bool
  pend_rt :: nat
  sig_out :: string

text \<open>The calls the programs make. \<open>Put\<close>: a \<open>write\<close> of one character (with the \<open>sleep\<close> that follows it).\<close>

datatype sig_call = Put char | Sig_block | Sig_unblock | Sig_suspend

text \<open>
  What happens during a call: the signals that arrive; then, for the calls that let blocked signals through, the signals that
  are handled before the call returns, in the order of the characters they write, each with what arrives until the next one.
  While nothing is blocked every arrival is handled; one that merges with a signal whose handler is running is left out of the script.
\<close>

record sig_env =
  arrive :: "signo list"
  taken :: "(signo \<times> signo list) list"

text \<open>The handlers write one character each.\<close>

type_synonym handlers = "signo \<Rightarrow> char"

fun arrival :: "handlers \<Rightarrow> sig_state \<Rightarrow> signo \<Rightarrow> sig_state" where
  "arrival h s g =
     (if masked s then (case g of SIGINT \<Rightarrow> s\<lparr>pend_int := True\<rparr> | MYRTSIG \<Rightarrow> s\<lparr>pend_rt := pend_rt s + 1\<rparr>)
      else s\<lparr>sig_out := sig_out s @ [h g]\<rparr>)"

definition arrivals :: "handlers \<Rightarrow> sig_state \<Rightarrow> signo list \<Rightarrow> sig_state" where
  "arrivals h s gs = foldl (arrival h) s gs"

text \<open>Taking a pending signal to handle it.\<close>

fun take_signal :: "handlers \<Rightarrow> sig_state \<Rightarrow> signo \<Rightarrow> sig_state option" where
  "take_signal h s SIGINT = (if pend_int s then Some (s\<lparr>pend_int := False, sig_out := sig_out s @ [h SIGINT]\<rparr>) else None)"
| "take_signal h s MYRTSIG = (if 0 < pend_rt s then Some (s\<lparr>pend_rt := pend_rt s - 1, sig_out := sig_out s @ [h MYRTSIG]\<rparr>) else None)"

fun take_signals :: "handlers \<Rightarrow> sig_state \<Rightarrow> (signo \<times> signo list) list \<Rightarrow> sig_state option" where
  "take_signals h s [] = Some s"
| "take_signals h s ((g, gs) # ts) = do { s \<leftarrow> take_signal h s g; take_signals h (arrivals h s gs) ts }"

text \<open>
  What one \<open>sigsuspend\<close> can handle. It returns when the first handler it lets in returns, and the old mask is in force from
  then on. The signal of that handler is blocked while it runs, so it is handled once; the other signal may interrupt it
  any number of times.
\<close>

definition one_suspend :: "signo list \<Rightarrow> bool" where
  "one_suspend gs \<longleftrightarrow> count_list gs SIGINT = 1 \<or> count_list gs MYRTSIG = 1"

text \<open>
  One call. Unblocking handles everything that is pending. \<open>sigsuspend(&oset)\<close> waits with the signals unblocked; what it does
  not handle stays pending. \<open>None\<close>: the call does not return, or the script asks for what cannot happen.
\<close>

definition sig_step :: "handlers \<Rightarrow> sig_call \<Rightarrow> sig_env \<Rightarrow> sig_state \<Rightarrow> sig_state option" where
  "sig_step h c e s = (case c of
       Put ch \<Rightarrow> Some (arrivals h (s\<lparr>sig_out := sig_out s @ [ch]\<rparr>) (arrive e))
     | Sig_block \<Rightarrow> Some (arrivals h (s\<lparr>masked := True\<rparr>) (arrive e))
     | Sig_unblock \<Rightarrow> do {
         s \<leftarrow> take_signals h (arrivals h s (arrive e)) (taken e);
         if pend_int s \<or> 0 < pend_rt s then None else Some (s\<lparr>masked := False\<rparr>) }
     | Sig_suspend \<Rightarrow>
         if one_suspend (map fst (taken e)) then take_signals h (arrivals h s (arrive e)) (taken e) else None)"

fun sig_run :: "handlers \<Rightarrow> (sig_call \<times> sig_env) list \<Rightarrow> sig_state \<Rightarrow> sig_state option" where
  "sig_run h [] s = Some s"
| "sig_run h ((c, e) # cs) s = do { s \<leftarrow> sig_step h c e s; sig_run h cs s }"

section \<open>The programs\<close>

definition stars :: "nat \<Rightarrow> sig_call list" where
  "stars n = replicate n (Put CHR ''*'')"

definition star_calls :: "sig_call list" where
  "star_calls = stars 10"

text \<open>\<open>block.c\<close> and \<open>susp.c\<close>, \<open>susp_rt.c\<close>; the last call restores the mask the process was started with.\<close>

definition block_line :: "sig_call list" where
  "block_line = [Sig_block] @ stars 10 @ [Put CHR ''\<newline>'', Sig_unblock]"

definition block_calls :: "sig_call list" where
  "block_calls = [Sig_unblock] @ concat (replicate 1000 block_line) @ [Sig_unblock]"

definition susp_line :: "sig_call list" where
  "susp_line = stars 5 @ [Put CHR ''\<newline>'', Sig_suspend]"

definition susp_calls :: "sig_call list" where
  "susp_calls = [Sig_unblock, Sig_block] @ concat (replicate 1000 susp_line) @ [Sig_unblock]"

definition susp_rt_calls :: "sig_call list" where
  "susp_rt_calls = [Sig_unblock, Sig_block] @ concat (replicate 1000 susp_line) @ [Sig_unblock]"

text \<open>
  The handlers: of \<open>star.c\<close>, \<open>block.c\<close> and \<open>susp.c\<close>, where no realtime signal arrives, and of \<open>susp_rt.c\<close>.
\<close>

definition bang :: handlers where
  "bang g = CHR ''!''"

definition rt_handlers :: handlers where
  "rt_handlers g = (case g of SIGINT \<Rightarrow> CHR ''@'' | MYRTSIG \<Rightarrow> CHR ''!'')"

definition sig_start :: sig_state where
  "sig_start = \<lparr>masked = False, pend_int = False, pend_rt = 0, sig_out = []\<rparr>"

text \<open>A run of a program under a script with one entry for each call.\<close>

definition sig_program :: "handlers \<Rightarrow> sig_call list \<Rightarrow> sig_env list \<Rightarrow> string option" where
  "sig_program h cs es = map_option sig_out (sig_run h (zip cs es) sig_start)"

section \<open>What arrives and what is handled\<close>

lemma sig_run_append: "sig_run h (cs @ ds) s = Option.bind (sig_run h cs s) (sig_run h ds)"
proof (induction cs arbitrary: s)
  case (Cons c cs)
  then show ?case by (cases c; cases "sig_step h (fst c) (snd c) s") auto
qed simp

text \<open>What arrives during a call and during a part of a program.\<close>

definition came :: "sig_call \<Rightarrow> sig_env \<Rightarrow> signo list" where
  "came c e = arrive e @ (if c \<in> {Sig_unblock, Sig_suspend} then concat (map snd (taken e)) else [])"

definition arrived :: "(sig_call \<times> sig_env) list \<Rightarrow> signo list" where
  "arrived ces = concat (map (\<lambda>(c, e). came c e) ces)"

text \<open>
  The account of a run: the signals that arrived and were pending against those handled and pending afterwards. Realtime
  signals balance; of several pending SIGINT one is left.
\<close>

definition owed :: "sig_state \<Rightarrow> nat" where
  "owed s = (if pend_int s then 1 else 0)"

definition account :: "sig_state \<Rightarrow> signo list \<Rightarrow> signo list \<Rightarrow> sig_state \<Rightarrow> bool" where
  "account s arr handled s' \<longleftrightarrow>
     count_list handled MYRTSIG + pend_rt s' = pend_rt s + count_list arr MYRTSIG \<and>
     count_list handled SIGINT + owed s' \<le> owed s + count_list arr SIGINT \<and>
     (0 < owed s + count_list arr SIGINT \<longrightarrow> 0 < count_list handled SIGINT + owed s')"

lemma account_append: "account s a x t \<Longrightarrow> account t b y u \<Longrightarrow> account s (a @ b) (x @ y) u"
  by (auto simp: account_def)

lemma account_refl: "account s [] [] s"
  by (simp add: account_def)

lemma arrivals_masked:
  assumes "masked s"
  shows "masked (arrivals h s gs) \<and> sig_out (arrivals h s gs) = sig_out s \<and> account s gs [] (arrivals h s gs)"
  using assms
proof (induction gs arbitrary: s)
  case (Cons g gs)
  have "masked (arrival h s g)" "account s [g] [] (arrival h s g)" "sig_out (arrival h s g) = sig_out s"
    using Cons.prems by (cases g; simp add: account_def owed_def)+
  moreover from this(1) have "masked (arrivals h (arrival h s g) gs) \<and> sig_out (arrivals h (arrival h s g) gs) = sig_out (arrival h s g)
      \<and> account (arrival h s g) gs [] (arrivals h (arrival h s g) gs)" by (rule Cons.IH)
  ultimately show ?case using account_append [of s "[g]" "[]" "arrival h s g" gs "[]"] by (simp add: arrivals_def)
qed (simp add: arrivals_def account_refl)

lemma arrivals_open:
  assumes "\<not> masked s"
  shows "arrivals h s gs = s\<lparr>sig_out := sig_out s @ map h gs\<rparr>"
  using assms
proof (induction gs arbitrary: s)
  case (Cons g gs)
  then show ?case by (simp add: arrivals_def)
qed (simp add: arrivals_def)

text \<open>In any state what arrives is handled at once or kept.\<close>

lemma arrivals_account:
  "\<exists>gs'. masked (arrivals h s gs) = masked s \<and> sig_out (arrivals h s gs) = sig_out s @ map h gs' \<and> account s gs gs' (arrivals h s gs)"
proof (cases "masked s")
  case True
  then show ?thesis using arrivals_masked by (intro exI [of _ "[]"]) simp
next
  case False
  then show ?thesis by (intro exI [of _ gs]) (simp add: arrivals_open account_def owed_def)
qed

lemma take_signal_account:
  "take_signal h s g = Some s' \<Longrightarrow> masked s' = masked s \<and> sig_out s' = sig_out s @ [h g] \<and> account s [] [g] s'"
  by (cases g) (auto simp: account_def owed_def split: if_splits)

lemma taken_account:
  assumes "masked s" "take_signals h s ts = Some s'"
  shows "masked s' \<and> sig_out s' = sig_out s @ map h (map fst ts) \<and> account s (concat (map snd ts)) (map fst ts) s'"
  using assms
proof (induction ts arbitrary: s)
  case (Cons t ts)
  obtain g gs where t: "t = (g, gs)" by (cases t)
  obtain u where u: "take_signal h s g = Some u" "take_signals h (arrivals h u gs) ts = Some s'"
    using Cons.prems(2) by (auto simp: t bind_eq_Some_conv)
  have m: "masked u" "sig_out u = sig_out s @ [h g]" "account s [] [g] u"
    using take_signal_account [OF u(1)] Cons.prems(1) by simp_all
  have v: "masked (arrivals h u gs)" "sig_out (arrivals h u gs) = sig_out u" "account u gs [] (arrivals h u gs)"
    using arrivals_masked [OF m(1)] by simp_all
  have "account s ([] @ gs @ concat (map snd ts)) ([g] @ [] @ map fst ts) s'"
    using Cons.IH [OF v(1) u(2)] by (intro account_append [OF m(3)] account_append [OF v(3)]) simp
  then show ?case using Cons.IH [OF v(1) u(2)] by (simp add: t v(2) m(2))
qed (simp add: account_refl)

section \<open>Lines\<close>

text \<open>Characters written with the signals blocked: nothing comes between them.\<close>

lemma puts_masked:
  assumes "masked s" "length es = length cs"
  shows "\<exists>s'. sig_run h (zip (map Put cs) es) s = Some s' \<and> masked s' \<and> sig_out s' = sig_out s @ cs
    \<and> account s (arrived (zip (map Put cs) es)) [] s'"
  using assms
proof (induction cs arbitrary: s es)
  case (Cons c cs)
  obtain e es' where es: "es = e # es'" using Cons.prems(2) by (cases es) auto
  let ?t = "s\<lparr>sig_out := sig_out s @ [c]\<rparr>"
  let ?s = "arrivals h ?t (arrive e)"
  have a: "masked ?s" "sig_out ?s = sig_out s @ [c]" "account ?t (arrive e) [] ?s"
    using arrivals_masked [of ?t h "arrive e"] Cons.prems(1) by simp_all
  then have b: "account s (arrive e) [] ?s" by (simp add: account_def owed_def)
  obtain s' where s': "sig_run h (zip (map Put cs) es') ?s = Some s'" "masked s'" "sig_out s' = sig_out ?s @ cs"
    "account ?s (arrived (zip (map Put cs) es')) [] s'"
    using Cons.IH [OF a(1), of es'] Cons.prems(2) es by auto
  from account_append [OF b s'(4)] s'(1-3) show ?case by (simp add: es sig_step_def arrived_def came_def a(2))
qed (simp add: arrived_def account_refl)

text \<open>The calls that let signals through.\<close>

lemma block_step:
  assumes "sig_step h Sig_block e s = Some s'"
  shows "masked s' \<and> sig_out s' = sig_out s \<and> account s (came Sig_block e) [] s'"
  using assms arrivals_masked [of "s\<lparr>masked := True\<rparr>" h "arrive e"]
  by (auto simp: sig_step_def came_def account_def owed_def)

lemma suspend_step:
  assumes "masked s" "sig_step h Sig_suspend e s = Some s'"
  shows "\<exists>gs. masked s' \<and> one_suspend gs \<and> sig_out s' = sig_out s @ map h gs \<and> account s (came Sig_suspend e) gs s'"
proof -
  have t: "one_suspend (map fst (taken e))" "take_signals h (arrivals h s (arrive e)) (taken e) = Some s'"
    using assms(2) by (simp_all add: sig_step_def split: if_splits)
  have a: "masked (arrivals h s (arrive e))" "sig_out (arrivals h s (arrive e)) = sig_out s" "account s (arrive e) [] (arrivals h s (arrive e))"
    using arrivals_masked [OF assms(1)] by simp_all
  from taken_account [OF a(1) t(2)] account_append [OF a(3)] t(1) show ?thesis
    by (intro exI [of _ "map fst (taken e)"]) (force simp: a(2) came_def)
qed

lemma unblock_step:
  assumes "masked s" "sig_step h Sig_unblock e s = Some s'"
  shows "\<exists>gs. \<not> masked s' \<and> owed s' = 0 \<and> pend_rt s' = 0 \<and> sig_out s' = sig_out s @ map h gs \<and> account s (came Sig_unblock e) gs s'"
proof -
  obtain t where t: "take_signals h (arrivals h s (arrive e)) (taken e) = Some t" "\<not> pend_int t" "pend_rt t = 0" "s' = t\<lparr>masked := False\<rparr>"
    using assms(2) by (auto simp: sig_step_def bind_eq_Some_conv split: if_splits)
  have a: "masked (arrivals h s (arrive e))" "sig_out (arrivals h s (arrive e)) = sig_out s" "account s (arrive e) [] (arrivals h s (arrive e))"
    using arrivals_masked [OF assms(1)] by simp_all
  have b: "sig_out t = sig_out s @ map h (map fst (taken e))" "account (arrivals h s (arrive e)) (concat (map snd (taken e))) (map fst (taken e)) t"
    using taken_account [OF a(1) t(1)] a(2) by simp_all
  from account_append [OF a(3) b(2)] b(1) t(2-4) show ?thesis
    by (intro exI [of _ "map fst (taken e)"]) (simp add: came_def account_def owed_def)
qed

lemma unblock_start:
  assumes "\<not> masked s" "owed s = 0" "pend_rt s = 0" "sig_step h Sig_unblock e s = Some s'"
  shows "\<exists>gs. \<not> masked s' \<and> owed s' = 0 \<and> pend_rt s' = 0 \<and> sig_out s' = sig_out s @ map h gs \<and> account s (came Sig_unblock e) gs s'"
proof -
  have n: "take_signal h s' g = None" if "pend_int s' = pend_int s" "pend_rt s' = pend_rt s" for s' g
    using that assms(2,3) by (cases g) (auto simp: owed_def split: if_splits)
  have "taken e = []"
    using assms(4) by (cases "taken e"; cases "fst (hd (taken e))") (auto simp: sig_step_def n arrivals_open [OF assms(1)])
  then show ?thesis
    using assms by (intro exI [of _ "arrive e"]) (auto simp: sig_step_def arrivals_open account_def owed_def came_def split: if_splits)
qed

lemma last_split: "length es = Suc n \<Longrightarrow> \<exists>xs e. es = xs @ [e] \<and> length xs = n"
  by (intro exI [of _ "butlast es"] exI [of _ "last es"]) (cases es rule: rev_cases; simp)

lemma arrived_simps:
  "arrived [] = []"
  "arrived ((c, e) # ces) = came c e @ arrived ces"
  "arrived (ces @ des) = arrived ces @ arrived des"
  by (simp_all add: arrived_def)

text \<open>
  A program that repeats a line: between the lines \<open>I\<close> holds of the state; each run of the line writes its text untorn and then
  the characters of the signals it handled, of which \<open>P\<close> holds.
\<close>

locale sig_lines =
  fixes h :: handlers and line :: "sig_call list" and tx :: string and P :: "signo list \<Rightarrow> bool" and I :: "sig_state \<Rightarrow> bool"
  assumes line_run: "I s \<Longrightarrow> length es = length line \<Longrightarrow> sig_run h (zip line es) s = Some s' \<Longrightarrow>
    \<exists>gs. P gs \<and> I s' \<and> sig_out s' = sig_out s @ tx @ map h gs \<and> account s (arrived (zip line es)) gs s'"
begin

lemma lines_run:
  assumes "I s" "length es = k * length line" "sig_run h (zip (concat (replicate k line)) es) s = Some s'"
  shows "\<exists>gss. length gss = k \<and> I s' \<and> (\<forall>gs\<in>set gss. P gs) \<and> sig_out s' = sig_out s @ concat (map (\<lambda>gs. tx @ map h gs) gss)
    \<and> account s (arrived (zip (concat (replicate k line)) es)) (concat gss) s'"
  using assms
proof (induction k arbitrary: s es)
  case 0
  then show ?case by (simp add: account_refl arrived_simps)
next
  case (Suc k)
  define xs ys where xy: "xs = take (length line) es" "ys = drop (length line) es"
  have l: "length xs = length line" "length ys = k * length line" "es = xs @ ys" using Suc.prems(2) by (simp_all add: xy)
  have z: "zip (concat (replicate (Suc k) line)) es = zip line xs @ zip (concat (replicate k line)) ys"
    by (simp add: l(3) zip_append1) (simp add: l(1))
  obtain t where t: "sig_run h (zip line xs) s = Some t" "sig_run h (zip (concat (replicate k line)) ys) t = Some s'"
    using Suc.prems(3) [unfolded z sig_run_append] by (auto simp: bind_eq_Some_conv)
  obtain gs where g: "P gs" "I t" "sig_out t = sig_out s @ tx @ map h gs" "account s (arrived (zip line xs)) gs t"
    using line_run [OF Suc.prems(1) l(1) t(1)] by blast
  obtain gss where r: "length gss = k" "I s'" "\<forall>gs\<in>set gss. P gs" "sig_out s' = sig_out t @ concat (map (\<lambda>gs. tx @ map h gs) gss)"
    "account t (arrived (zip (concat (replicate k line)) ys)) (concat gss) s'"
    using Suc.IH [OF g(2) l(2) t(2)] by blast
  show ?case unfolding z arrived_simps using g r account_append [OF g(4) r(5)]
    by (intro exI [of _ "gs # gss"]) simp
qed

end

definition idle :: "sig_state \<Rightarrow> bool" where
  "idle s \<longleftrightarrow> \<not> masked s \<and> owed s = 0 \<and> pend_rt s = 0"

definition susp_text :: string where
  "susp_text = replicate 5 CHR ''*'' @ ''\<newline>''"

definition block_text :: string where
  "block_text = replicate 10 CHR ''*'' @ ''\<newline>''"

lemma susp_line_eq: "susp_line = map Put susp_text @ [Sig_suspend]"
  by (simp add: susp_line_def susp_text_def stars_def)

lemma block_line_eq: "block_line = Sig_block # map Put block_text @ [Sig_unblock]"
  by (simp add: block_line_def block_text_def stars_def)

interpretation star_lines: sig_lines h "[Put CHR ''*'']" "''*''" "\<lambda>_. True" idle for h
proof (unfold_locales, goal_cases)
  case (1 s es s')
  then obtain e where "es = [e]" by (cases es) auto
  with 1 show ?case
    by (intro exI [of _ "arrive e"]) (auto simp: sig_step_def idle_def arrivals_open arrived_simps came_def account_def owed_def)
qed

interpretation susp_lines: sig_lines h susp_line susp_text one_suspend masked for h
proof (unfold_locales, goal_cases)
  case (1 s es s')
  obtain xs e where es: "es = xs @ [e]" "length xs = length susp_text"
    using last_split [of es "length susp_text"] 1(2) by (auto simp: susp_line_eq)
  obtain t where t: "sig_run h (zip (map Put susp_text) xs) s = Some t" "masked t" "sig_out t = sig_out s @ susp_text"
    "account s (arrived (zip (map Put susp_text) xs)) [] t"
    using puts_masked [OF 1(1) es(2), of h] by blast
  have run: "sig_step h Sig_suspend e t = Some s'"
    using 1(3) t(1) es(2) by (simp add: es(1) susp_line_eq sig_run_append bind_eq_Some_conv)
  from suspend_step [OF t(2) run] account_append [OF t(4)] t(3) show ?case
    by (fastforce simp: es(1) es(2) susp_line_eq arrived_simps)
qed

interpretation block_lines: sig_lines h block_line block_text "\<lambda>_. True" idle for h
proof (unfold_locales, goal_cases)
  case (1 s es s')
  obtain e0 es' where es0: "es = e0 # es'" using 1(2) by (cases es) (auto simp: block_line_eq)
  obtain xs e where es: "es' = xs @ [e]" "length xs = length block_text"
    using last_split [of es' "length block_text"] 1(2) es0 by (auto simp: block_line_eq)
  obtain t where s0: "sig_step h Sig_block e0 s = Some t" "sig_run h (zip (map Put block_text @ [Sig_unblock]) es') t = Some s'"
    using 1(3) by (auto simp: es0 block_line_eq bind_eq_Some_conv)
  note t = block_step [OF s0(1)]
  obtain u where u: "sig_run h (zip (map Put block_text) xs) t = Some u" "masked u" "sig_out u = sig_out t @ block_text"
    "account t (arrived (zip (map Put block_text) xs)) [] u"
    using puts_masked [OF _ es(2), of t h] t by blast
  have v: "sig_step h Sig_unblock e u = Some s'"
    using s0(2) u(1) es(2) by (simp add: es(1) sig_run_append bind_eq_Some_conv)
  obtain gs where w: "idle s'" "sig_out s' = sig_out u @ map h gs" "account u (came Sig_unblock e) gs s'"
    using unblock_step [OF u(2) v] by (auto simp: idle_def)
  have "account s (came Sig_block e0 @ arrived (zip (map Put block_text) xs) @ came Sig_unblock e) ([] @ [] @ gs) s'"
    using t by (intro account_append [OF _ account_append [OF u(4) w(3)]]) blast
  then show ?case using t u(3) w(1,2) by (intro exI [of _ gs]) (simp add: es0 es block_line_eq arrived_simps)
qed

section \<open>The programs\<close>

text \<open>The account of a whole program, which ends with nothing pending: what arrived against what was handled.\<close>

definition all_handled :: "signo list \<Rightarrow> signo list \<Rightarrow> bool" where
  "all_handled arr handled \<longleftrightarrow>
     count_list handled MYRTSIG = count_list arr MYRTSIG \<and>
     count_list handled SIGINT \<le> count_list arr SIGINT \<and>
     (SIGINT \<in> set arr \<longrightarrow> SIGINT \<in> set handled)"

lemma account_all: "account s arr handled s' \<Longrightarrow> owed s = 0 \<Longrightarrow> pend_rt s = 0 \<Longrightarrow> owed s' = 0 \<Longrightarrow> pend_rt s' = 0 \<Longrightarrow> all_handled arr handled"
  using count_list_0_iff [of arr SIGINT] count_list_0_iff [of handled SIGINT]
  unfolding account_def all_handled_def by (cases "count_list arr SIGINT"; cases "count_list handled SIGINT") auto

lemma sig_start_idle: "idle sig_start" "sig_out sig_start = []"
  by (simp_all add: sig_start_def idle_def owed_def)

lemma concat_replicate_length: "length (concat (replicate k xs)) = k * length xs"
  by (induction k) simp_all

lemma zip_Cons1: "length es = Suc n \<Longrightarrow> \<exists>e fs. es = e # fs \<and> length fs = n"
  by (cases es) auto

text \<open>The three forms, for any number of lines.\<close>

lemma star_form:
  assumes "length es = n" "sig_run h (zip (stars n) es) sig_start = Some s'"
  shows "\<exists>gss. sig_out s' = concat (map (\<lambda>gs. ''*'' @ map h gs) gss) \<and> length gss = n \<and> all_handled (arrived (zip (stars n) es)) (concat gss)"
proof -
  have r: "stars n = concat (replicate n [Put CHR ''*''])" by (induction n) (simp_all add: stars_def)
  obtain gss where "length gss = n" "idle s'" "sig_out s' = concat (map (\<lambda>gs. ''*'' @ map h gs) gss)"
    "account sig_start (arrived (zip (stars n) es)) (concat gss) s'"
    using star_lines.lines_run [OF sig_start_idle(1), of es n h s'] assms sig_start_idle(2) by (auto simp: r)
  then show ?thesis using account_all sig_start_idle(1) by (intro exI [of _ gss]) (simp add: idle_def)
qed

lemma block_form:
  assumes "length es = 2 + n * length block_line"
    "sig_run h (zip ([Sig_unblock] @ concat (replicate n block_line) @ [Sig_unblock]) es) sig_start = Some s'"
  shows "\<exists>gs0 gss gs1. sig_out s' = map h gs0 @ concat (map (\<lambda>gs. block_text @ map h gs) gss) @ map h gs1 \<and> length gss = n
    \<and> all_handled (arrived (zip ([Sig_unblock] @ concat (replicate n block_line) @ [Sig_unblock]) es)) (gs0 @ concat gss @ gs1)"
proof -
  let ?l = "concat (replicate n block_line)"
  obtain e xs f where es: "es = e # xs @ [f]" "length xs = n * length block_line"
    using assms(1) zip_Cons1 [of es] last_split by (metis add_2_eq_Suc)
  have z: "zip ([Sig_unblock] @ ?l @ [Sig_unblock]) es = (Sig_unblock, e) # zip ?l xs @ [(Sig_unblock, f)]"
    by (simp add: es concat_replicate_length)
  obtain t u where r: "sig_step h Sig_unblock e sig_start = Some t" "sig_run h (zip ?l xs) t = Some u" "sig_step h Sig_unblock f u = Some s'"
    using assms(2) [unfolded z] by (auto simp: sig_run_append bind_eq_Some_conv)
  obtain gs0 where a: "idle t" "sig_out t = map h gs0" "account sig_start (came Sig_unblock e) gs0 t"
    using unblock_start [OF _ _ _ r(1)] sig_start_idle by (auto simp: idle_def)
  obtain gss where b: "length gss = n" "idle u" "sig_out u = sig_out t @ concat (map (\<lambda>gs. block_text @ map h gs) gss)"
    "account t (arrived (zip ?l xs)) (concat gss) u"
    using block_lines.lines_run [OF a(1) es(2) r(2)] by blast
  obtain gs1 where c: "idle s'" "sig_out s' = sig_out u @ map h gs1" "account u (came Sig_unblock f) gs1 s'"
    using unblock_start [OF _ _ _ r(3)] b(2) by (auto simp: idle_def)
  have "account sig_start (came Sig_unblock e @ arrived (zip ?l xs) @ came Sig_unblock f) (gs0 @ concat gss @ gs1) s'"
    by (intro account_append [OF a(3) account_append [OF b(4) c(3)]])
  then have "all_handled (came Sig_unblock e @ arrived (zip ?l xs) @ came Sig_unblock f) (gs0 @ concat gss @ gs1)"
    by (rule account_all) (use c(1) sig_start_idle in \<open>simp_all add: idle_def\<close>)
  then show ?thesis unfolding z arrived_simps
    using a b c by (intro exI [of _ gs0] exI [of _ gss] exI [of _ gs1]) simp
qed

lemma susp_form:
  assumes "length es = 3 + n * length susp_line"
    "sig_run h (zip ([Sig_unblock, Sig_block] @ concat (replicate n susp_line) @ [Sig_unblock]) es) sig_start = Some s'"
  shows "\<exists>gs0 gss gs1. sig_out s' = map h gs0 @ concat (map (\<lambda>gs. susp_text @ map h gs) gss) @ map h gs1 \<and> length gss = n
    \<and> (\<forall>gs\<in>set gss. one_suspend gs)
    \<and> all_handled (arrived (zip ([Sig_unblock, Sig_block] @ concat (replicate n susp_line) @ [Sig_unblock]) es)) (gs0 @ concat gss @ gs1)"
proof -
  let ?l = "concat (replicate n susp_line)"
  obtain e d xs f where es: "es = e # d # xs @ [f]" "length xs = n * length susp_line"
    using assms(1) zip_Cons1 last_split by (metis add_Suc numeral_3_eq_3 add_0)
  have z: "zip ([Sig_unblock, Sig_block] @ ?l @ [Sig_unblock]) es = (Sig_unblock, e) # (Sig_block, d) # zip ?l xs @ [(Sig_unblock, f)]"
    by (simp add: es concat_replicate_length)
  obtain t v u where r: "sig_step h Sig_unblock e sig_start = Some t" "sig_step h Sig_block d t = Some v" "sig_run h (zip ?l xs) v = Some u"
    "sig_step h Sig_unblock f u = Some s'"
    using assms(2) [unfolded z] by (auto simp: sig_run_append bind_eq_Some_conv)
  obtain gs0 where a: "sig_out t = map h gs0" "account sig_start (came Sig_unblock e) gs0 t"
    using unblock_start [OF _ _ _ r(1)] sig_start_idle by (auto simp: idle_def)
  have d: "masked v" "sig_out v = sig_out t" "account t (came Sig_block d) [] v" using block_step [OF r(2)] by simp_all
  obtain gss where b: "length gss = n" "masked u" "\<forall>gs\<in>set gss. one_suspend gs" "sig_out u = sig_out v @ concat (map (\<lambda>gs. susp_text @ map h gs) gss)"
    "account v (arrived (zip ?l xs)) (concat gss) u"
    using susp_lines.lines_run [OF d(1) es(2) r(3)] by blast
  obtain gs1 where c: "idle s'" "sig_out s' = sig_out u @ map h gs1" "account u (came Sig_unblock f) gs1 s'"
    using unblock_step [OF b(2) r(4)] by (auto simp: idle_def)
  have "account sig_start (came Sig_unblock e @ came Sig_block d @ arrived (zip ?l xs) @ came Sig_unblock f) (gs0 @ [] @ concat gss @ gs1) s'"
    by (intro account_append [OF a(2) account_append [OF d(3) account_append [OF b(5) c(3)]]])
  then have "all_handled (came Sig_unblock e @ came Sig_block d @ arrived (zip ?l xs) @ came Sig_unblock f) (gs0 @ [] @ concat gss @ gs1)"
    by (rule account_all) (use c(1) sig_start_idle in \<open>simp_all add: idle_def\<close>)
  then show ?thesis unfolding z arrived_simps
    using a b c d by (intro exI [of _ gs0] exI [of _ gss] exI [of _ gs1]) simp
qed

text \<open>
  A script for \<open>susp_rt.c\<close>: in every line SIGINT arrives three times and the realtime signal twice, and \<open>sigsuspend\<close> handles
  them.
\<close>

definition quiet :: sig_env where
  "quiet = \<lparr>arrive = [], taken = []\<rparr>"

definition busy_line :: "sig_env list" where
  "busy_line = \<lparr>arrive = [SIGINT, MYRTSIG, SIGINT], taken = []\<rparr> # replicate 5 quiet
     @ [\<lparr>arrive = [SIGINT, MYRTSIG], taken = [(MYRTSIG, []), (MYRTSIG, []), (SIGINT, [])]\<rparr>]"

definition waiting :: "string \<Rightarrow> sig_state" where
  "waiting out = \<lparr>masked = True, pend_int = False, pend_rt = 0, sig_out = out\<rparr>"

lemmas sig_calls_simps = sig_step_def arrivals_def quiet_def rt_handlers_def one_suspend_def sig_start_def waiting_def

lemma busy_line_run: "sig_run rt_handlers (zip susp_line busy_line) (waiting out) = Some (waiting (out @ ''*****\<newline>!!@''))"
  by (simp add: susp_line_def stars_def busy_line_def sig_calls_simps eval_nat_numeral)

lemma busy_lines_run:
  "sig_run rt_handlers (zip (concat (replicate k susp_line)) (concat (replicate k busy_line))) (waiting out)
    = Some (waiting (out @ concat (replicate k ''*****\<newline>!!@'')))"
proof (induction k arbitrary: out)
  case (Suc k)
  have "length susp_line = length busy_line" by (simp add: susp_line_def busy_line_def stars_def)
  then show ?case using Suc.IH by (simp add: sig_run_append busy_line_run)
qed simp

lemma busy_program:
  "sig_program rt_handlers susp_rt_calls ([quiet, quiet] @ concat (replicate 1000 busy_line) @ [quiet])
    = Some (concat (replicate 1000 ''*****\<newline>!!@''))"
proof -
  have l: "length (concat (replicate 1000 susp_line)) = length (concat (replicate 1000 busy_line))"
    by (simp add: concat_replicate_length susp_line_def busy_line_def stars_def)
  have a: "sig_step rt_handlers Sig_unblock quiet sig_start = Some sig_start" "sig_step rt_handlers Sig_block quiet sig_start = Some (waiting [])"
    "sig_step rt_handlers Sig_unblock quiet (waiting out) = Some (waiting out\<lparr>masked := False\<rparr>)" for out
    by (simp_all add: sig_calls_simps)
  show ?thesis unfolding sig_program_def susp_rt_calls_def
    by (simp only: zip_append [OF l] append_Cons append_Nil zip_Cons_Cons sig_run.simps sig_run_append a busy_lines_run bind.bind_lunit list.map)
      (simp add: a waiting_def)
qed



end
