(* ===== verification/StdioFork.thy ===== *)
theory StdioFork
  imports Prelude
begin

text \<open>
  The programs of \<open>process_basic\<close> that print around \<open>fork\<close> and \<open>exec\<close> (\<open>fork1.c\<close>, \<open>few.c\<close>, \<open>ex.c\<close>, \<open>system1.c\<close>) and
  \<open>io/sysio/ab.c\<close>, which mixes \<open>putchar\<close> and \<open>write\<close>. What matters is where the characters are: in the buffer of
  the stream, which \<open>fork\<close> copies and \<open>exec\<close> throws away, or in the output. A program is the list of its calls; the function
  \<open>outcomes\<close> follows every order in which the parent and the child can run. \<open>tty\<close> says whether the output is a terminal, where the buffer is
  written at every line end, or a file.
\<close>

section \<open>Calls and processes\<close>

text \<open>
  \<open>Print s\<close> goes to the buffer, \<open>Write_out s\<close> past it. \<open>Fork\<close> carries the calls of the child, \<open>Exec\<close> what the program that is
  executed prints, or \<open>None\<close> when it cannot be executed. \<open>Exit\<close> writes the buffer.
\<close>

datatype sop = Print string | Write_out string | Flush | Fork "sop list" | Wait | Exec "string option" | Exit

type_synonym sproc = "sop list \<times> string"

text \<open>The parent, the child (once there is one) and the output.\<close>

record ssys =
  parent :: sproc
  child :: "sproc option"
  written :: string

text \<open>What a terminal gets of a buffer: everything up to the last line end.\<close>

definition whole_lines :: "string \<Rightarrow> string \<times> string" where
  "whole_lines s = (let r = rev (takeWhile (\<lambda>c. c \<noteq> CHR ''\<newline>'') (rev s)) in (take (length s - length r) s, r))"

text \<open>One call of a process: its calls that remain, its buffer, and what it writes.\<close>

fun scall :: "bool \<Rightarrow> sop \<Rightarrow> sproc \<Rightarrow> sproc \<times> string" where
  "scall tty (Print s) (ops, buf) =
     (if tty then (case whole_lines (buf @ s) of (out, buf) \<Rightarrow> ((ops, buf), out)) else ((ops, buf @ s), []))"
| "scall tty (Write_out s) (ops, buf) = ((ops, buf), s)"
| "scall tty Flush (ops, buf) = ((ops, []), buf)"
| "scall tty (Exec (Some out)) (ops, buf) = (([], []), out)"
| "scall tty Exit (ops, buf) = (([], []), buf)"
| "scall tty op (ops, buf) = ((ops, buf), [])"

definition child_steps :: "bool \<Rightarrow> ssys \<Rightarrow> ssys list" where
  "child_steps tty s = (case child s of
       Some (op # ops, buf) \<Rightarrow> (case scall tty op (ops, buf) of (p, out) \<Rightarrow> [s\<lparr>child := Some p, written := written s @ out\<rparr>])
     | _ \<Rightarrow> [])"

text \<open>
  \<open>wait\<close> returns when the child has ended, or at once when there is none. \<open>fork\<close> copies the buffer; when it fails, all
  the programs exit.
\<close>

definition parent_steps :: "bool \<Rightarrow> ssys \<Rightarrow> ssys list" where
  "parent_steps tty s = (case parent s of
       (op # ops, buf) \<Rightarrow> (case op of
           Fork cs \<Rightarrow> [s\<lparr>parent := (ops, buf), child := Some (cs, buf)\<rparr>, s\<lparr>parent := ([Exit], buf)\<rparr>]
         | Wait \<Rightarrow> (case child s of Some (_ # _, _) \<Rightarrow> [] | _ \<Rightarrow> [s\<lparr>parent := (ops, buf)\<rparr>])
         | _ \<Rightarrow> (case scall tty op (ops, buf) of (p, out) \<Rightarrow> [s\<lparr>parent := p, written := written s @ out\<rparr>]))
     | _ \<Rightarrow> [])"

text \<open>
  All outputs of the complete runs; \<open>None\<close> for a run that is stuck, or that does not end within \<open>n\<close> calls.
\<close>

fun outcomes :: "nat \<Rightarrow> bool \<Rightarrow> ssys \<Rightarrow> string option list" where
  "outcomes 0 tty s = [None]"
| "outcomes (Suc n) tty s =
     (if fst (parent s) = [] \<and> (case child s of None \<Rightarrow> True | Some p \<Rightarrow> fst p = []) then [Some (written s)]
      else case parent_steps tty s @ child_steps tty s of [] \<Rightarrow> [None] | ss \<Rightarrow> concat (map (outcomes n tty) ss))"

definition program :: "bool \<Rightarrow> sop list \<Rightarrow> string option set" where
  "program tty ops = set (outcomes 24 tty \<lparr>parent = (ops, []), child = None, written = []\<rparr>)"

section \<open>The programs\<close>

definition ab_main :: "sop list" where
  "ab_main = [Print ''a'', Flush, Write_out ''b'', Print ''a'', Write_out ''b'', Print ''a'', Write_out ''b'', Exit]"

text \<open>\<open>d\<close> is what \<open>date\<close> prints, \<open>None\<close> when it cannot be executed. The message of \<open>perror\<close> goes to another stream.\<close>

definition ex_main :: "string option \<Rightarrow> sop list" where
  "ex_main d = [Print ''Begin!\<newline>'', Flush, Exec d, Exit]"

definition few_main :: "string option \<Rightarrow> sop list" where
  "few_main d = [Print ''Begin!\<newline>'', Flush, Fork [Exec d, Exit], Wait, Print ''End!\<newline>'', Exit]"

definition system1_main :: "string option \<Rightarrow> sop list" where
  "system1_main d = [Fork [Exec d, Exit], Wait, Exit]"

text \<open>\<open>p\<close> and \<open>c\<close> are the process numbers of the parent and of the child as \<open>[%d]: \<close> prints them.\<close>

definition fork1_main :: "string \<Rightarrow> string \<Rightarrow> sop list" where
  "fork1_main p c = [Print (p @ ''Begin!\<newline>''), Flush, Fork [Print (c @ ''Child is working!\<newline>''), Print (c @ ''End!\<newline>''), Exit],
     Print (p @ ''Parent is working!\<newline>''), Print (p @ ''End!\<newline>''), Exit]"

section \<open>What they print\<close>

lemmas stdio_simps = program_def eval_nat_numeral parent_steps_def child_steps_def whole_lines_def

lemma ab_prints: "program tty ab_main = {Some ''abbbaa''}"
  by (cases tty; simp add: ab_main_def stdio_simps)

lemma ex_prints: "program tty (ex_main d) = {Some (''Begin!\<newline>'' @ (case d of None \<Rightarrow> [] | Some out \<Rightarrow> out))}"
  by (cases tty; cases d; simp add: ex_main_def stdio_simps)

lemma few_prints:
  "program tty (few_main d) = {Some (''Begin!\<newline>'' @ (case d of None \<Rightarrow> [] | Some out \<Rightarrow> out) @ ''End!\<newline>''), Some ''Begin!\<newline>''}"
  by (cases tty; cases d; simp add: few_main_def stdio_simps insert_commute)

lemma system1_prints: "program tty (system1_main d) = {Some (case d of None \<Rightarrow> [] | Some out \<Rightarrow> out), Some []}"
  by (cases tty; cases d; simp add: system1_main_def stdio_simps insert_commute)

text \<open>On a terminal the lines of the two processes of \<open>fork1\<close> mix in any order, in a file those of each stay together.\<close>

lemma fork1_terminal:
  "program True (fork1_main p c) = insert (Some (p @ ''Begin!\<newline>''))
     ((\<lambda>ls. Some (p @ ''Begin!\<newline>'' @ concat ls)) `
       shuffles [p @ ''Parent is working!\<newline>'', p @ ''End!\<newline>''] [c @ ''Child is working!\<newline>'', c @ ''End!\<newline>''])"
  by (auto simp: fork1_main_def stdio_simps)

lemma fork1_file:
  "program False (fork1_main p c) = insert (Some (p @ ''Begin!\<newline>''))
     ((\<lambda>ls. Some (p @ ''Begin!\<newline>'' @ concat ls)) `
       shuffles [p @ ''Parent is working!\<newline>'' @ p @ ''End!\<newline>''] [c @ ''Child is working!\<newline>'' @ c @ ''End!\<newline>''])"
  by (auto simp: fork1_main_def stdio_simps)

text \<open>What the comment in \<open>fork1.c\<close> warns of: without the \<open>fflush\<close> the first line is in the file twice.\<close>

definition fork1_unflushed :: "string \<Rightarrow> string \<Rightarrow> sop list" where
  "fork1_unflushed p c = filter (\<lambda>op. op \<noteq> Flush) (fork1_main p c)"

lemma fork1_needs_flush:
  "program False (fork1_unflushed p c) = insert (Some (p @ ''Begin!\<newline>''))
     ((\<lambda>ls. Some (concat ls)) ` shuffles [p @ ''Begin!\<newline>'' @ p @ ''Parent is working!\<newline>'' @ p @ ''End!\<newline>'']
       [p @ ''Begin!\<newline>'' @ c @ ''Child is working!\<newline>'' @ c @ ''End!\<newline>''])"
  by (auto simp: fork1_unflushed_def fork1_main_def stdio_simps)

end
