(* ===== verification/TokenBucketVariants.thy ===== *)
theory TokenBucketVariants
  imports TokenBucket
begin

text \<open>
  The token bucket over \<open>setitimer\<close>/\<open>sigaction\<close> (\<open>parallel/signal/mytbf_sa/mytbf.c\<close>, prefix \<open>sa\<close>) and
  over a thread (\<open>parallel/thread/posix/mytbf_mt/mytbf.c\<close>, prefix \<open>mt\<close>), where they differ from the
  version over \<open>alarm\<close>: the handler that ignores signals the kernel did not send, the set-up that can
  fail, the order of the steps of \<open>mytbf_init\<close>, and the wait on a condition variable during which
  other threads use the library. The theorems say that the three versions agree, and that a thread
  waiting for tokens gets them whatever the other threads do.
\<close>

section \<open>Over \<open>sigaction\<close>\<close>

abbreviation SI_KERNEL :: int where "SI_KERNEL \<equiv> 128"

definition sa_alrm_action :: "int \<Rightarrow> tbf_lib \<Rightarrow> tbf_lib option" where
  "sa_alrm_action si_code l =
     (if si_code \<noteq> SI_KERNEL then Some l
      else do { m \<leftarrow> tick_from (job l) (obj l); Some (l\<lparr>obj := m\<rparr>) })"

text \<open>The results of \<open>sigaction\<close> and \<open>setitimer\<close>; the value is the exit status, if any.\<close>

definition sa_module_load :: "int \<Rightarrow> int \<Rightarrow> int option" where
  "sa_module_load ret1 ret2 = (if ret1 < 0 then Some 1 else if ret2 < 0 then Some 1 else None)"

definition sa_get_free_pos :: "tbf_lib \<Rightarrow> int" where
  "sa_get_free_pos l = free_pos (job l)"

definition sa_mytbf_init ::
  "int \<Rightarrow> int \<Rightarrow> addr option \<Rightarrow> int \<Rightarrow> int \<Rightarrow> tbf_lib \<Rightarrow> (addr option \<times> tbf_lib) outcome" where
  "sa_mytbf_init ret1 ret2 mem c b l =
     (case (if \<not> inited l then sa_module_load ret1 ret2 else None) of
        Some n \<Rightarrow> Exit n (None, l)
      | None \<Rightarrow>
          let l = l\<lparr>inited := True\<rparr>;
              p = sa_get_free_pos l
          in if p < 0 then Done (None, l)
             else case mem of
               None \<Rightarrow> Done (None, l)
             | Some a \<Rightarrow>
                 Done (Some a, l\<lparr>obj := (obj l)(a \<mapsto> \<lparr>pos = p, cps = c, burst = b, token = 0\<rparr>),
                                 job := (job l)[nat p := Some a]\<rparr>))"

text \<open>The wait of \<open>mytbf_fetchtoken\<close>: \<open>pause\<close> returns after the handler ran for a signal; the codes of
  the signals that arrive are a script, after which only the timer sends them.\<close>

fun sa_wait :: "addr \<Rightarrow> int list \<Rightarrow> tbf_lib \<Rightarrow> tbf_lib option" where
  "sa_wait a [] l = c_while (tbf_dry a) (sa_alrm_action SI_KERNEL) l"
| "sa_wait a (c # cs) l =
     (if tbf_dry a l then Option.bind (sa_alrm_action c l) (sa_wait a cs) else Some l)"

definition sa_mytbf_fetchtoken :: "int list \<Rightarrow> addr \<Rightarrow> int \<Rightarrow> tbf_lib \<Rightarrow> (int \<times> tbf_lib) option" where
  "sa_mytbf_fetchtoken codes a sz l =
     (if sz < 0 then Some (- EINVAL, l)
      else do {
        l \<leftarrow> sa_wait a codes l;
        tbf_grab a sz l })"

definition sa_mytbf_returntoken :: "addr \<Rightarrow> int \<Rightarrow> tbf_lib \<Rightarrow> (int \<times> tbf_lib) option" where
  "sa_mytbf_returntoken a sz l = mytbf_returntoken a sz l"

definition sa_mytbf_destroy :: "addr \<Rightarrow> tbf_lib \<Rightarrow> (int \<times> tbf_lib) option" where
  "sa_mytbf_destroy a l = mytbf_destroy a l"

definition sa_module_unload :: "int \<Rightarrow> tbf_lib \<Rightarrow> tbf_lib outcome" where
  "sa_module_unload ret l = (if ret < 0 then Exit 1 l else Done (l\<lparr>obj := free_jobs (job l) (obj l)\<rparr>))"

section \<open>Over a thread\<close>

text \<open>
  One pass of \<open>thr_alrm\<close>, holding \<open>mut_job\<close> and in turn the mutex of each bucket. The broadcast lets
  every waiting thread look at its bucket again, which is what \<open>mt_wait\<close> does after every step.
\<close>

definition mt_thr_alrm :: "tbf_lib \<Rightarrow> tbf_lib option" where
  "mt_thr_alrm l = do { m \<leftarrow> tick_from (job l) (obj l); Some (l\<lparr>obj := m\<rparr>) }"

text \<open>\<open>err\<close> is the result of \<open>pthread_create\<close>.\<close>

definition mt_module_load :: "int \<Rightarrow> int option" where
  "mt_module_load err = (if err \<noteq> 0 then Some 1 else None)"

definition mt_get_free_pos_unlocked :: "tbf_lib \<Rightarrow> int" where
  "mt_get_free_pos_unlocked l = free_pos (job l)"

text \<open>The object is allocated and filled before the table is searched, and freed if there is no slot.\<close>

definition mt_mytbf_init ::
  "int \<Rightarrow> addr option \<Rightarrow> int \<Rightarrow> int \<Rightarrow> int \<Rightarrow> tbf_lib \<Rightarrow> (addr option \<times> tbf_lib) outcome" where
  "mt_mytbf_init err mem junk c b l =
     (case (if \<not> inited l then mt_module_load err else None) of
        Some n \<Rightarrow> Exit n (None, l)
      | None \<Rightarrow>
          let l = l\<lparr>inited := True\<rparr> in
          case mem of
            None \<Rightarrow> Done (None, l)
          | Some a \<Rightarrow>
              let me = \<lparr>pos = junk, cps = c, burst = b, token = 0\<rparr>;
                  l = l\<lparr>obj := (obj l)(a \<mapsto> me)\<rparr>;
                  p = mt_get_free_pos_unlocked l
              in if p < 0 then Done (None, l\<lparr>obj := (obj l)(a := None)\<rparr>)
                 else Done (Some a, l\<lparr>obj := (obj l)(a \<mapsto> me\<lparr>pos := p\<rparr>), job := (job l)[nat p := Some a]\<rparr>))"

text \<open>
  \<open>while (me->token <= 0) pthread_cond_wait(...)\<close>: the wait releases the mutex, so the script of what
  the clock and other threads do takes effect; afterwards only the clock goes on.
\<close>

fun mt_wait :: "addr \<Rightarrow> tbf_op list \<Rightarrow> tbf_lib \<Rightarrow> tbf_lib option" where
  "mt_wait a [] l = c_while (tbf_dry a) mt_thr_alrm l"
| "mt_wait a (x # xs) l =
     (if tbf_dry a l then Option.bind (tbf_do x l) (\<lambda>(r, l). mt_wait a xs l) else Some l)"

definition mt_mytbf_fetchtoken :: "tbf_op list \<Rightarrow> addr \<Rightarrow> int \<Rightarrow> tbf_lib \<Rightarrow> (int \<times> tbf_lib) option" where
  "mt_mytbf_fetchtoken xs a sz l =
     (if sz < 0 then Some (- EINVAL, l)
      else do {
        l \<leftarrow> mt_wait a xs l;
        tbf_grab a sz l })"

definition mt_mytbf_returntoken :: "addr \<Rightarrow> int \<Rightarrow> tbf_lib \<Rightarrow> (int \<times> tbf_lib) option" where
  "mt_mytbf_returntoken a sz l = mytbf_returntoken a sz l"

definition mt_mytbf_destroy :: "addr \<Rightarrow> tbf_lib \<Rightarrow> (int \<times> tbf_lib) option" where
  "mt_mytbf_destroy a l = mytbf_destroy a l"

text \<open>\<open>module_unload\<close> destroys every bucket in the table, slot by slot from index \<open>i\<close>.\<close>

fun mt_unload_from :: "addr option list \<Rightarrow> tbf_lib \<Rightarrow> tbf_lib option" where
  "mt_unload_from [] l = Some l"
| "mt_unload_from (None # tab) l = mt_unload_from tab l"
| "mt_unload_from (Some a # tab) l = Option.bind (mt_mytbf_destroy a l) (\<lambda>(r, l). mt_unload_from tab l)"

definition mt_module_unload :: "tbf_lib \<Rightarrow> tbf_lib option" where
  "mt_module_unload l = mt_unload_from (job l) l"

section \<open>The versions agree\<close>

text \<open>Once the module is loaded, the three versions of \<open>mytbf_init\<close> return the same pointer and
  leave the same library, although the thread version allocates before it looks for a slot and the
  other two look first; and a kernel alarm does the same in all three.\<close>

lemma tbf_versions_agree:
  assumes "inited l" "\<forall>a. mem = Some a \<longrightarrow> obj l a = None"
  shows "sa_mytbf_init ret1 ret2 mem c b l = Done (mytbf_init mem c b l)
    \<and> mt_mytbf_init err mem junk c b l = Done (mytbf_init mem c b l)
    \<and> sa_alrm_action SI_KERNEL l = alrm_handler l \<and> mt_thr_alrm l = alrm_handler l"
proof -
  have l: "l\<lparr>inited := True\<rparr> = l" using assms(1) by simp
  have "(obj l)(a := None) = obj l" if "mem = Some a" for a
    using assms(2) that by auto
  then have "mt_mytbf_init err mem junk c b l = Done (mytbf_init mem c b l)"
    using assms(1) l by (cases mem)
      (auto simp: mt_mytbf_init_def mytbf_init_eq mt_get_free_pos_unlocked_def Let_def)
  moreover have "sa_mytbf_init ret1 ret2 mem c b l = Done (mytbf_init mem c b l)"
    using assms(1) l by (auto simp: sa_mytbf_init_def mytbf_init_eq sa_get_free_pos_def Let_def
        split: option.split)
  ultimately show ?thesis
    by (simp add: sa_alrm_action_def mt_thr_alrm_def alrm_handler_def)
qed

lemma tbf_versions_agree_witness:
  "sa_mytbf_init 0 0 (Some 8) 10 100 tbf_demo = Done (mytbf_init (Some 8) 10 100 tbf_demo)"
  using tbf_versions_agree [of tbf_demo "Some 8" 0 0 10 100] by (simp add: tbf_demo_def)

section \<open>Waiting while others work\<close>

lemma mt_tick: "mt_thr_alrm = alrm_handler"
  by (simp add: fun_eq_iff mt_thr_alrm_def alrm_handler_def)

lemma wait_ticks:
  assumes "lib_ok l" "obj l a = Some me" "0 < cps me" "0 < burst me"
  shows "\<exists>l' me'. c_while (tbf_dry a) alrm_handler l = Some l' \<and> lib_ok l'
    \<and> obj l' a = Some me' \<and> 0 < token me' \<and> burst me' = burst me"
proof (cases "tbf_dry a l")
  case False
  with dry_iff [OF assms(1,2)] lib_ok_obj [OF assms(1,2)] assms show ?thesis
    by (auto simp: c_while_exit bucket_ok_def)
next
  case True
  then have t0: "token me = 0" using dry_iff [OF assms(1,2)] by simp
  obtain l1 where l1: "alrm_handler l = Some l1" "lib_ok l1" "obj l1 a = Some (refill me)"
    using tick_bucket [OF assms(1,2)] .
  have "0 < token (refill me)" using t0 assms(3,4) by simp
  moreover have "\<not> tbf_dry a l1" using dry_iff [OF l1(2,3)] calculation by (metis less_irrefl)
  ultimately show ?thesis using True l1 by (auto simp: c_while_step c_while_exit)
qed

lemma mt_wait_gets:
  assumes "lib_ok l" "obj l a = Some me" "0 < cps me" "0 < burst me"
    and "tbf_run a xs l \<noteq> None" "Destroy a \<notin> set xs" "\<forall>x \<in> set xs. sane x"
  shows "\<exists>l' me'. mt_wait a xs l = Some l' \<and> lib_ok l' \<and> obj l' a = Some me' \<and> 0 < token me'
    \<and> burst me' = burst me"
  using assms
proof (induction xs arbitrary: l me)
  case Nil
  then show ?case using wait_ticks by (simp add: mt_tick)
next
  case (Cons x xs)
  show ?case
  proof (cases "tbf_dry a l")
    case False
    with dry_iff [OF Cons.prems(1,2)] lib_ok_obj [OF Cons.prems(1,2)] Cons.prems show ?thesis
      by (auto simp: bucket_ok_def)
  next
    case True
    from Cons.prems(5) obtain r l1 where step: "tbf_do x l = Some (r, l1)" and run: "tbf_run a xs l1 \<noteq> None"
      by (auto simp: bind_eq_Some_conv)
    obtain me1 where me1: "lib_ok l1" "obj l1 a = Some me1" "cps me1 = cps me" "burst me1 = burst me"
      using tbf_do_step [OF Cons.prems(1) step _ _ Cons.prems(2)] Cons.prems(6,7) by auto
    from Cons.IH [OF me1(1,2) _ _ run] me1 Cons.prems(3,4,6,7) True step show ?thesis by auto
  qed
qed

text \<open>No starvation at the bucket. A thread waiting in the thread version for tokens of a bucket
  with positive rate and burst returns with at least one token and at most what it asked for and the
  burst, whatever finite sequence of operations other threads perform meanwhile on this and other
  buckets.\<close>

lemma mt_fetch_returns:
  assumes "lib_ok l" "obj l a = Some me" "0 < cps me" "0 < burst me" "0 < sz"
    and "tbf_run a xs l \<noteq> None" "Destroy a \<notin> set xs" "\<forall>x \<in> set xs. sane x"
  shows "\<exists>n l'. mt_mytbf_fetchtoken xs a sz l = Some (n, l') \<and> 0 < n \<and> n \<le> sz \<and> n \<le> burst me \<and> lib_ok l'"
proof -
  obtain l1 me1 where w: "mt_wait a xs l = Some l1" "lib_ok l1" "obj l1 a = Some me1" "0 < token me1"
    "burst me1 = burst me"
    using mt_wait_gets [OF assms(1-4,6-8)] by blast
  have "token me1 \<le> burst me" using lib_ok_obj [OF w(2,3)] w(5) by (simp add: bucket_ok_def)
  with grab_ok [OF w(2,3), of sz] w assms(5) show ?thesis
    by (auto simp: mt_mytbf_fetchtoken_def)
qed

lemma mt_fetch_returns_witness:
  "\<exists>n l'. mt_mytbf_fetchtoken [Fetch 7 3, Tick] 7 4 tbf_demo = Some (n, l') \<and> 0 < n \<and> n \<le> 4"
proof -
  have "tbf_run 7 [Fetch 7 3, Tick] tbf_demo \<noteq> None"
    by (simp add: tbf_try_def tbf_dry_def alrm_handler_eq [OF tbf_demo_ok] tbf_demo_obj)
  with mt_fetch_returns [OF tbf_demo_ok tbf_demo_obj, of 4 "[Fetch 7 3, Tick]"] show ?thesis
    by (auto simp: sane_def)
qed

end
