(* ===== verification/TreeFile.thy ===== *)
theory TreeFile
  imports Prelude "HOL-Library.Tree" "HOL-Library.Word"
begin

text \<open>
  The programs of \<open>ds/tree/save_load\<close>: \<open>save.c\<close> builds a search tree of characters and writes it to a
  file as \<open>(\<close>, the character, the two subtrees and \<open>)\<close>; \<open>load.c\<close> reads such a file back. Characters are
  signed 8-bit words, a file is a list of bytes, \<open>fgetc\<close> answers \<open>-1\<close> at its end, and \<open>exit\<close> is the left
  side of a sum. The lemmas show the round trip and that loading returns for every file.
\<close>

type_synonym byte = "8 word"

abbreviation LPAR :: byte where "LPAR \<equiv> 40"
abbreviation RPAR :: byte where "RPAR \<equiv> 41"

section \<open>Building, drawing and saving\<close>

fun tf_insert :: "bool \<Rightarrow> byte tree \<Rightarrow> int \<Rightarrow> int \<times> byte tree" where
  "tf_insert nomem Leaf data = (if nomem then (- 1, Leaf) else (0, Node Leaf (word_of_int data) Leaf))"
| "tf_insert nomem (Node l d r) data =
     (if data \<le> sint d
      then (let (ret, l') = tf_insert nomem l data in (ret, Node l' d r))
      else (let (ret, r') = tf_insert nomem r data in (ret, Node l d r')))"

fun tf_draw_ind :: "byte tree \<Rightarrow> nat \<Rightarrow> (nat \<times> byte) list" where
  "tf_draw_ind Leaf level = []"
| "tf_draw_ind (Node l d r) level = tf_draw_ind r (level + 1) @ (level, d) # tf_draw_ind l (level + 1)"

definition tf_draw :: "byte tree \<Rightarrow> (nat \<times> byte) list" where
  "tf_draw root = tf_draw_ind root 0"

text \<open>The bytes that \<open>save_\<close> writes; its return value is not used.\<close>

fun tf_put :: "byte tree \<Rightarrow> byte list" where
  "tf_put Leaf = [LPAR, RPAR]"
| "tf_put (Node l d r) = LPAR # d # tf_put l @ tf_put r @ [RPAR]"

text \<open>
  \<open>save\<close> writes the global \<open>tree\<close>, whatever its argument \<open>root\<close> is. \<open>opened\<close>: \<open>fopen\<close> succeeds. The
  result is the return value and the new contents of the file, if it was opened.
\<close>

definition tf_save :: "byte tree \<Rightarrow> byte tree \<Rightarrow> bool \<Rightarrow> int \<times> byte list option" where
  "tf_save tree root opened = (if opened then (0, Some (tf_put tree @ [10])) else (- 1, None))"

text \<open>\<open>main\<close> of \<open>save.c\<close>: what is drawn, and the file. The results of \<open>insert\<close> are not looked at.\<close>

definition tf_arr :: "int list" where
  "tf_arr = [99, 101, 102, 97, 100, 106, 98, 104]"

primrec tf_build :: "(nat \<Rightarrow> bool) \<Rightarrow> int list \<Rightarrow> byte tree \<Rightarrow> byte tree" where
  "tf_build f [] tree = tree"
| "tf_build f (x # xs) tree = tf_build (\<lambda>n. f (Suc n)) xs (snd (tf_insert (f 0) tree x))"

definition tf_main_save :: "(nat \<Rightarrow> bool) \<Rightarrow> bool \<Rightarrow> (nat \<times> byte) list \<times> byte list option" where
  "tf_main_save f opened =
     (let tree = tf_build f tf_arr Leaf
      in (tf_draw tree, snd (tf_save tree tree opened)))"

section \<open>Loading\<close>

definition fgetc :: "byte list \<Rightarrow> int \<times> byte list" where
  "fgetc fp = (case fp of [] \<Rightarrow> (- 1, []) | b # bs \<Rightarrow> (uint b, bs))"

text \<open>\<open>f\<close> says which calls of \<open>malloc\<close> fail; the left side of the result is an exit code.\<close>

partial_function (option) tf_get ::
  "(nat \<Rightarrow> bool) \<Rightarrow> byte list \<Rightarrow> (int + byte tree \<times> (nat \<Rightarrow> bool) \<times> byte list) option" where
  "tf_get f fp =
     (let (c, fp) = fgetc fp
      in if c \<noteq> uint LPAR then Some (Inl 1)
         else let (c, fp) = fgetc fp
         in if c = uint RPAR then Some (Inr (Leaf, f, fp))
            else if f 0 then Some (Inl 1)
            else Option.bind (tf_get (\<lambda>n. f (Suc n)) fp) (\<lambda>rl.
              case rl of
                Inl e \<Rightarrow> Some (Inl e)
              | Inr (l, f, fp) \<Rightarrow>
                  Option.bind (tf_get f fp) (\<lambda>rr.
                    case rr of
                      Inl e \<Rightarrow> Some (Inl e)
                    | Inr (r, f, fp) \<Rightarrow>
                        Some (Inr (Node l (word_of_int c) r, f, snd (fgetc fp))))))"

definition tf_load :: "(nat \<Rightarrow> bool) \<Rightarrow> byte list option \<Rightarrow> (int + byte tree) option" where
  "tf_load f file =
     (case file of
        None \<Rightarrow> Some (Inr Leaf)
      | Some fp \<Rightarrow> do {
          r \<leftarrow> tf_get f fp;
          Some (case r of Inl e \<Rightarrow> Inl e | Inr (root, f, fp) \<Rightarrow> Inr root) })"

text \<open>\<open>main\<close> of \<open>load.c\<close>: the exit code, or what is drawn.\<close>

definition tf_main_load :: "(nat \<Rightarrow> bool) \<Rightarrow> byte list option \<Rightarrow> (int + (nat \<times> byte) list) option" where
  "tf_main_load f file = do {
     r \<leftarrow> tf_load f file;
     Some (case r of Inl e \<Rightarrow> Inl e | Inr root \<Rightarrow> Inr (tf_draw root)) }"

section \<open>The round trip\<close>

lemma uint_byte_eq: "uint b = uint c \<longleftrightarrow> b = c" for b c :: byte
  by (simp add: word_uint_eq_iff)

lemma tf_get_Leaf: "tf_get f (LPAR # RPAR # rest) = Some (Inr (Leaf, f, rest))"
  by (subst tf_get.simps) (simp add: fgetc_def)

lemma tf_get_Node:
  assumes "d \<noteq> RPAR" "\<not> f 0" "tf_get (\<lambda>n. f (Suc n)) fp = Some (Inr (l, f1, fp1))"
    and "tf_get f1 fp1 = Some (Inr (r, f2, b # rest))"
  shows "tf_get f (LPAR # d # fp) = Some (Inr (Node l d r, f2, rest))"
proof -
  have "uint d \<noteq> uint RPAR" using assms(1) by (simp only: uint_byte_eq not_False_eq_True)
  then show ?thesis
    using assms by (subst tf_get.simps) (simp add: fgetc_def)
qed

lemma tf_get_put:
  "RPAR \<notin> set_tree t \<Longrightarrow> \<forall>n < size t. \<not> f n \<Longrightarrow>
   tf_get f (tf_put t @ rest) = Some (Inr (t, (\<lambda>n. f (n + size t)), rest))"
proof (induction t arbitrary: f rest)
  case Leaf
  then show ?case by (simp add: tf_get_Leaf)
next
  case (Node l d r)
  have "tf_get (\<lambda>n. f (Suc n)) (tf_put l @ tf_put r @ RPAR # rest)
      = Some (Inr (l, (\<lambda>n. f (Suc (n + size l))), tf_put r @ RPAR # rest))"
    using Node.IH(1) [of "\<lambda>n. f (Suc n)" "tf_put r @ RPAR # rest"] Node.prems by auto
  moreover have "tf_get (\<lambda>n. f (Suc (n + size l))) (tf_put r @ RPAR # rest)
      = Some (Inr (r, (\<lambda>n. f (Suc (n + size r + size l))), RPAR # rest))"
    using Node.IH(2) [of "\<lambda>n. f (Suc (n + size l))" "RPAR # rest"] Node.prems by auto
  ultimately have "tf_get f (LPAR # d # tf_put l @ tf_put r @ RPAR # rest)
      = Some (Inr (Node l d r, (\<lambda>n. f (Suc (n + size r + size l))), rest))"
    using Node.prems by (intro tf_get_Node) auto
  then show ?case by (simp add: ac_simps)
qed

text \<open>Loading consumes the file, so it returns whatever the file holds.\<close>

lemma fgetc_length: "fgetc fp = (c, fp') \<Longrightarrow> length fp' \<le> length fp"
  by (cases fp) (auto simp: fgetc_def)

lemma tf_get_total:
  "\<exists>r. tf_get f fp = Some r \<and> (case r of Inl e \<Rightarrow> e = 1 | Inr (t, f', fp') \<Rightarrow> length fp' < length fp)"
proof (induction "length fp" arbitrary: f fp rule: less_induct)
  case less
  show ?case
  proof (cases fp)
    case Nil
    then show ?thesis by (subst tf_get.simps) (simp add: fgetc_def)
  next
    case (Cons b fp1)
    show ?thesis
    proof (cases "b = LPAR")
      case False
      then have "uint b \<noteq> uint LPAR" by (simp only: uint_byte_eq not_False_eq_True)
      with Cons show ?thesis by (subst tf_get.simps) (simp add: fgetc_def)
    next
      case True
      obtain c fp2 where c: "fgetc fp1 = (c, fp2)" by fastforce
      have l2: "length fp2 < length fp" using fgetc_length [OF c] Cons by simp
      have start: "tf_get f fp = (if c = uint RPAR then Some (Inr (Leaf, f, fp2))
         else if f 0 then Some (Inl 1)
         else Option.bind (tf_get (\<lambda>n. f (Suc n)) fp2) (\<lambda>rl.
              case rl of
                Inl e \<Rightarrow> Some (Inl e)
              | Inr (l, f, fp) \<Rightarrow>
                  Option.bind (tf_get f fp) (\<lambda>rr.
                    case rr of
                      Inl e \<Rightarrow> Some (Inl e)
                    | Inr (r, f, fp) \<Rightarrow>
                        Some (Inr (Node l (word_of_int c) r, f, snd (fgetc fp))))))"
        using Cons True c by (subst tf_get.simps) (simp add: fgetc_def [of "_ # _"])
      obtain rl where rl: "tf_get (\<lambda>n. f (Suc n)) fp2 = Some rl"
        "case rl of Inl e \<Rightarrow> e = 1 | Inr (t, f', fp') \<Rightarrow> length fp' < length fp2"
        using less [OF l2] by blast
      show ?thesis
      proof (cases rl)
        case (Inl e)
        with start rl l2 show ?thesis by auto
      next
        case (Inr p)
        obtain l f3 fp3 where p: "p = (l, f3, fp3)" by (cases p)
        have l3: "length fp3 < length fp" using rl(2) Inr p l2 by simp
        obtain rr where rr: "tf_get f3 fp3 = Some rr"
          "case rr of Inl e \<Rightarrow> e = 1 | Inr (t, f', fp') \<Rightarrow> length fp' < length fp3"
          using less [OF l3] by blast
        show ?thesis
        proof (cases rr)
          case (Inl e)
          with start rl rr l2 Inr p show ?thesis by auto
        next
          case rr': (Inr q)
          obtain r f4 fp4 where q: "q = (r, f4, fp4)" by (cases q)
          have "length (snd (fgetc fp4)) \<le> length fp4" using fgetc_length by (metis prod.collapse)
          with start rl rr l2 l3 Inr p rr' q show ?thesis by auto
        qed
      qed
    qed
  qed
qed

lemma tf_insert_set: "set_tree (snd (tf_insert nomem t x)) \<subseteq> insert (word_of_int x) (set_tree t)"
  by (induction t) (auto simp: case_prod_unfold Let_def)

lemma tf_build_set: "set_tree (tf_build f xs t) \<subseteq> word_of_int ` set xs \<union> set_tree t"
  using tf_insert_set by (induction xs arbitrary: f t) fastforce+

text \<open>C20: What \<open>save\<close> wrote is what \<open>load\<close> gets: if the saved tree has no node with the character
  \<open>)\<close> and memory is available, loading the file gives the same tree again, and the picture drawn by the
  loading program is the one drawn by the saving program.\<close>
theorem save_load:
  assumes "RPAR \<notin> set_tree t" "\<forall>n < size t. \<not> f n" "tf_save t root True = (r, Some file)"
  shows "r = 0 \<and> tf_load f (Some file) = Some (Inr t) \<and> tf_main_load f (Some file) = Some (Inr (tf_draw t))"
  using assms tf_get_put [OF assms(1,2), of "[10]"]
  by (auto simp: tf_save_def tf_load_def tf_main_load_def)

lemma save_load_witness:
  "tf_main_load (\<lambda>_. False) (snd (tf_main_save (\<lambda>_. False) True)) = Some (Inr (fst (tf_main_save (\<lambda>_. False) True)))"
proof -
  let ?t = "tf_build (\<lambda>_. False) tf_arr Leaf"
  have "set_tree ?t \<subseteq> word_of_int ` set tf_arr" using tf_build_set [of "\<lambda>_. False" tf_arr Leaf] by simp
  moreover have "RPAR \<notin> word_of_int ` set tf_arr" by (simp add: tf_arr_def)
  ultimately have n: "RPAR \<notin> set_tree ?t" by blast
  have s: "tf_save ?t ?t True = (0, Some (tf_put ?t @ [10]))" by (simp add: tf_save_def)
  have "tf_main_load (\<lambda>_. False) (Some (tf_put ?t @ [10])) = Some (Inr (tf_draw ?t))"
    using save_load [OF n _ s, of "\<lambda>_. False"] by simp
  then show ?thesis by (simp add: tf_main_save_def tf_save_def Let_def)
qed

text \<open>A node with \<open>)\<close> is lost: the file of a single such node loads as the empty tree.\<close>

lemma save_load_rpar:
  "tf_load f (snd (tf_save (Node Leaf RPAR Leaf) Leaf True)) = Some (Inr Leaf)"
  by (simp add: tf_save_def tf_load_def tf_get_Leaf)

text \<open>\<open>load\<close> returns for every file, well formed or not: it ends the program with exit code 1 or
  gives a tree, and a file that does not start with \<open>(\<close> is refused.\<close>
theorem load_total:
  shows "((\<exists>t. tf_load f (Some fp) = Some (Inr t)) \<or> tf_load f (Some fp) = Some (Inl 1))
    \<and> (fp = [] \<or> hd fp \<noteq> LPAR \<longrightarrow> tf_load f (Some fp) = Some (Inl 1))"
proof (intro conjI impI)
  obtain r where r: "tf_get f fp = Some r"
    "case r of Inl e \<Rightarrow> e = 1 | Inr (t, f', fp') \<Rightarrow> length fp' < length fp"
    using tf_get_total by blast
  then show "(\<exists>t. tf_load f (Some fp) = Some (Inr t)) \<or> tf_load f (Some fp) = Some (Inl 1)"
    by (cases r) (auto simp: tf_load_def)
  assume a: "fp = [] \<or> hd fp \<noteq> LPAR"
  have "fst (fgetc fp) \<noteq> uint LPAR"
  proof (cases fp)
    case (Cons b bs)
    with a have "b \<noteq> LPAR" by simp
    then have "uint b \<noteq> uint LPAR" by (simp only: uint_byte_eq not_False_eq_True)
    with Cons show ?thesis by (simp add: fgetc_def)
  qed (simp add: fgetc_def)
  then have "tf_get f fp = Some (Inl 1)" by (subst tf_get.simps) (simp add: case_prod_unfold Let_def)
  then show "tf_load f (Some fp) = Some (Inl 1)" by (simp add: tf_load_def)
qed

lemma load_total_witness:
  "tf_load (\<lambda>_. False) (Some [97, RPAR]) = Some (Inl 1)"
  using load_total [of "\<lambda>_. False" "[97, RPAR]", THEN conjunct2] by simp

end
