(* ===== verification/Trie.thy ===== *)
theory Trie
  imports Lines "HOL-Library.Sublist" "HOL-Library.Char_ord"
begin

text \<open>
  The dictionary of \<open>ds/tree/retrieval/trie.c\<close>: lines \<open>key:description\<close> are read from a file into a
  trie over the letters \<open>a\<close> to \<open>z\<close> and one key is looked up. Nodes are never shared, so the trie is a
  datatype with \<open>NULL\<close> as \<open>Null\<close> and the 26 children as an array; a letter outside the range indexes
  outside it and has no defined result. The lemmas show what reading a line delivers, the law of lookup
  after insertion, and what the whole program prints.
\<close>

section \<open>Reading a line\<close>

definition DESC_SIZE :: nat where "DESC_SIZE = 256"
definition KEY_SIZE :: nat where "KEY_SIZE = 256"
definition BUFSIZE :: nat where "BUFSIZE = 512"

abbreviation NUL :: char where "NUL \<equiv> CHR 0x00"

text \<open>The string in an array: up to the first \<open>NUL\<close>.\<close>

definition cstr :: "string \<Rightarrow> string" where
  "cstr s = takeWhile (\<lambda>c. c \<noteq> NUL) s"

text \<open>The two loops of \<open>get_word\<close>: the characters they copy, and where the first one stops.\<close>

function gw_key :: "string \<Rightarrow> int \<Rightarrow> (string \<times> int) option" where
  "gw_key buf i =
     (if i < int KEY_SIZE - 1 then do {
        c \<leftarrow> arr_get buf i;
        if c \<noteq> CHR '':'' then do { (ks, i') \<leftarrow> gw_key buf (i + 1); Some (c # ks, i') }
        else Some ([], i) }
      else Some ([], i))"
  by pat_completeness auto
termination
  by (relation "measure (\<lambda>(buf, i). nat (int KEY_SIZE - i))") auto

function gw_desc :: "string \<Rightarrow> int \<Rightarrow> int \<Rightarrow> string option" where
  "gw_desc buf i j =
     (if j < int DESC_SIZE - 1 then do {
        c \<leftarrow> arr_get buf i;
        if c \<noteq> NUL then do { ds \<leftarrow> gw_desc buf (i + 1) (j + 1); Some (c # ds) }
        else Some [] }
      else Some [])"
  by pat_completeness auto
termination
  by (relation "measure (\<lambda>(buf, i, j). nat (int DESC_SIZE - j))") auto

declare gw_key.simps [simp del] gw_desc.simps [simp del]

text \<open>
  \<open>junk\<close> are the indeterminate contents of \<open>buf\<close>. The result is \<open>None\<close> inside at the end of the file,
  otherwise the key, the description and the rest of the file.
\<close>

definition get_word :: "string \<Rightarrow> string \<Rightarrow> (string \<times> string \<times> string) option option" where
  "get_word junk fp =
     (case fgets BUFSIZE fp of
        None \<Rightarrow> Some None
      | Some (line, rest) \<Rightarrow> do {
          let buf = line @ NUL # drop (length line + 1) junk;
          (key, i) \<leftarrow> gw_key buf 0;
          desc \<leftarrow> gw_desc buf (i + 1) 0;
          Some (Some (cstr key, desc, rest)) })"

section \<open>The trie\<close>

datatype trie = Null | Nd (children: "trie list") (desc: string)

text \<open>\<open>f\<close> says which of the coming calls of \<open>malloc\<close> fail.\<close>

definition newnode :: "(nat \<Rightarrow> bool) \<Rightarrow> trie \<times> (nat \<Rightarrow> bool)" where
  "newnode f = (if f 0 then Null else Nd (replicate 26 Null) '''', \<lambda>n. f (Suc n))"

definition letter :: "char \<Rightarrow> int" where
  "letter c = int (of_char c) - 97"

fun tr_insert :: "(nat \<Rightarrow> bool) \<Rightarrow> trie \<Rightarrow> string \<Rightarrow> string \<Rightarrow> (int \<times> trie \<times> (nat \<Rightarrow> bool)) option" where
  "tr_insert f root key d =
     (let (root, f) = (if root = Null then newnode f else (root, f))
      in case root of
           Null \<Rightarrow> Some (- 1, Null, f)
         | Nd ch de \<Rightarrow>
             (case key of
                [] \<Rightarrow> if length d < DESC_SIZE then Some (0, Nd ch d, f) else None
              | c # key' \<Rightarrow> do {
                  t \<leftarrow> arr_get ch (letter c);
                  (ret, t', f') \<leftarrow> tr_insert f t key' d;
                  ch' \<leftarrow> arr_set ch (letter c) t';
                  Some (ret, Nd ch' de, f') }))"

fun tr_find :: "trie \<Rightarrow> string \<Rightarrow> string option option" where
  "tr_find root key =
     (case root of
        Null \<Rightarrow> Some None
      | Nd ch de \<Rightarrow>
          (case key of
             [] \<Rightarrow> Some (Some de)
           | c # key' \<Rightarrow> do {
               t \<leftarrow> arr_get ch (letter c);
               tr_find t key' }))"

declare tr_insert.simps [simp del] tr_find.simps [simp del]

text \<open>
  The loop of \<open>main\<close>; the results of \<open>insert\<close> are not looked at. \<open>junk n\<close> are the contents of \<open>buf\<close>
  in the call with \<open>n\<close> characters left to read. The initial value of \<open>tree\<close> is indeterminate in the
  program and a parameter here.
\<close>

partial_function (option) tr_read ::
  "(nat \<Rightarrow> string) \<Rightarrow> (nat \<Rightarrow> bool) \<Rightarrow> trie \<Rightarrow> string \<Rightarrow> trie option" where
  "tr_read junk f tree fp =
     Option.bind (get_word (junk (length fp)) fp) (\<lambda>w.
       case w of
         None \<Rightarrow> Some tree
       | Some (key, d, rest) \<Rightarrow>
           Option.bind (tr_insert f tree key d) (\<lambda>(ret, tree, f). tr_read junk f tree rest))"

text \<open>The exit code, and what is printed on standard output: \<open>None\<close> for the message \<open>Can not find!\<close>.\<close>

definition tr_main ::
  "(nat \<Rightarrow> string) \<Rightarrow> (nat \<Rightarrow> bool) \<Rightarrow> trie \<Rightarrow> string option \<Rightarrow> (int \<times> string option) option" where
  "tr_main junk f tree file =
     (case file of
        None \<Rightarrow> Some (1, None)
      | Some fp \<Rightarrow> do {
          tree \<leftarrow> tr_read junk f tree fp;
          r \<leftarrow> tr_find tree ''donkey'';
          Some (0, r) })"

section \<open>Lines\<close>

lemma gw_key_eq:
  "length ks + nat i < KEY_SIZE \<Longrightarrow> 0 \<le> i \<Longrightarrow> CHR '':'' \<notin> set ks \<Longrightarrow>
   drop (nat i) buf = ks @ CHR '':'' # xs \<Longrightarrow> gw_key buf i = Some (ks, i + int (length ks))"
proof (induction ks arbitrary: i)
  case Nil
  then have "nat i < length buf" "buf ! nat i = CHR '':''"
    by (metis append_Nil drop_all leI list.distinct(1), metis append_Nil nth_via_drop)
  with Nil show ?case by (subst gw_key.simps) auto
next
  case (Cons k ks)
  have n: "nat i < length buf" "buf ! nat i = k"
    using Cons.prems(4) by (metis append_Cons drop_all leI list.distinct(1), metis append_Cons nth_via_drop)
  have "drop (nat (i + 1)) buf = ks @ CHR '':'' # xs"
    using Cons.prems(2,4) by (metis append_Cons drop_Suc list.sel(3) nat_add_distrib nat_one_as_int tl_drop
        Suc_eq_plus1 zero_le_one)
  then have "gw_key buf (i + 1) = Some (ks, i + 1 + int (length ks))"
    using Cons.IH [of "i + 1"] Cons.prems by (simp add: nat_add_distrib)
  with Cons.prems n show ?case by (subst gw_key.simps) auto
qed

lemma gw_desc_eq:
  "length ds + nat j < DESC_SIZE \<Longrightarrow> 0 \<le> i \<Longrightarrow> 0 \<le> j \<Longrightarrow> NUL \<notin> set ds \<Longrightarrow>
   drop (nat i) buf = ds @ NUL # xs \<Longrightarrow> gw_desc buf i j = Some ds"
proof (induction ds arbitrary: i j)
  case Nil
  then have "nat i < length buf" "buf ! nat i = NUL"
    by (metis append_Nil drop_all leI list.distinct(1), metis append_Nil nth_via_drop)
  with Nil show ?case by (subst gw_desc.simps) auto
next
  case (Cons d ds)
  have n: "nat i < length buf" "buf ! nat i = d"
    using Cons.prems(5) by (metis append_Cons drop_all leI list.distinct(1), metis append_Cons nth_via_drop)
  have "drop (nat (i + 1)) buf = ds @ NUL # xs"
    using Cons.prems(2,5) by (metis append_Cons drop_Suc list.sel(3) nat_add_distrib nat_one_as_int tl_drop
        Suc_eq_plus1 zero_le_one)
  then have "gw_desc buf (i + 1) (j + 1) = Some ds"
    using Cons.IH [of "j + 1" "i + 1"] Cons.prems by (simp add: nat_add_distrib)
  with Cons.prems n show ?case by (subst gw_desc.simps) auto
qed

text \<open>A line that the program handles: a short key of letters and a description that fits.\<close>

definition entry_ok :: "string \<times> string \<Rightarrow> bool" where
  "entry_ok e \<longleftrightarrow> length (fst e) + 1 < KEY_SIZE \<and> length (snd e) + 1 < DESC_SIZE
     \<and> set (fst e) \<subseteq> set ''abcdefghijklmnopqrstuvwxyz'' \<and> NL \<notin> set (snd e) \<and> NUL \<notin> set (snd e)"

definition entry_line :: "string \<times> string \<Rightarrow> string" where
  "entry_line e = fst e @ CHR '':'' # snd e @ [NL]"

lemma letters:
  assumes "c \<in> set ''abcdefghijklmnopqrstuvwxyz''"
  shows "0 \<le> letter c" "letter c < 26" "c \<noteq> CHR '':''" "c \<noteq> NUL" "c \<noteq> NL"
  using assms by (auto simp: letter_def)

lemma get_word_line:
  assumes "entry_ok e"
  shows "get_word junk (entry_line e @ rest) = Some (Some (fst e, snd e @ [NL], rest))"
proof -
  obtain k d where e: "e = (k, d)" by (cases e)
  let ?a = "set ''abcdefghijklmnopqrstuvwxyz''"
  have k: "length k + 1 < KEY_SIZE" "length d + 1 < DESC_SIZE" "set k \<subseteq> ?a" "NL \<notin> set d" "NUL \<notin> set d"
    using assms unfolding entry_ok_def e fst_conv snd_conv by blast+
  have free: "CHR '':'' \<notin> set k" "NUL \<notin> set k" "NL \<notin> set k"
    using k(3) letters by blast+
  let ?l = "k @ CHR '':'' # d"
  have "fgets BUFSIZE (?l @ NL # rest) = Some (?l @ [NL], rest)"
    using k free by (intro fgets_line) (auto simp: KEY_SIZE_def DESC_SIZE_def BUFSIZE_def)
  then have f: "fgets BUFSIZE (entry_line e @ rest) = Some (?l @ [NL], rest)"
    by (simp add: entry_line_def e)
  let ?buf = "(?l @ [NL]) @ NUL # drop (length (?l @ [NL]) + 1) junk"
  have "gw_key ?buf 0 = Some (k, int (length k))"
    using gw_key_eq [of k 0 ?buf] k free by simp
  moreover have "gw_desc ?buf (int (length k) + 1) 0 = Some (d @ [NL])"
    using gw_desc_eq [of "d @ [NL]" 0 "int (length k) + 1" ?buf] k free by (simp add: nat_add_distrib)
  moreover have "cstr k = k" using free by (auto simp: cstr_def takeWhile_eq_all_conv)
  ultimately show ?thesis using f by (simp add: get_word_def e)
qed

text \<open>Whatever the file holds, \<open>get_word\<close> stays inside its buffer.\<close>

lemma gw_key_bound:
  "0 \<le> i \<Longrightarrow> i \<le> int KEY_SIZE - 1 \<Longrightarrow> KEY_SIZE \<le> length buf \<Longrightarrow>
   \<exists>ks i'. gw_key buf i = Some (ks, i') \<and> 0 \<le> i' \<and> i' \<le> int KEY_SIZE - 1"
proof (induction buf i rule: gw_key.induct)
  case (1 buf i)
  show ?case
  proof (cases "i < int KEY_SIZE - 1")
    case False
    with "1.prems" show ?thesis by (subst gw_key.simps) auto
  next
    case True
    then have g: "arr_get buf i = Some (buf ! nat i)" using "1.prems" by simp
    show ?thesis
    proof (cases "buf ! nat i = CHR '':''")
      case False
      with "1.IH" [OF True g False] "1.prems" True g show ?thesis by (subst gw_key.simps) auto
    qed (use True g "1.prems" in \<open>subst gw_key.simps, auto\<close>)
  qed
qed

lemma gw_key_length: "gw_key buf i = Some (ks, i') \<Longrightarrow> i' = i + int (length ks)"
proof (induction buf i arbitrary: ks rule: gw_key.induct)
  case (1 buf i)
  from "1.prems" have "(i < int KEY_SIZE - 1 \<and> (\<exists>c. arr_get buf i = Some c \<and> c \<noteq> CHR '':'' \<and>
      (\<exists>ks'. gw_key buf (i + 1) = Some (ks', i') \<and> ks = c # ks'))) \<or> ks = [] \<and> i' = i"
    by (simp only: gw_key.simps [of buf i]) (auto simp: bind_eq_Some_conv split: if_splits)
  then show ?case using "1.IH" by auto
qed

lemma gw_desc_bound:
  "0 \<le> i \<Longrightarrow> 0 \<le> j \<Longrightarrow> i + int DESC_SIZE - 1 - j \<le> int (length buf) \<Longrightarrow>
   \<exists>ds. gw_desc buf i j = Some ds \<and> int (length ds) + j < int DESC_SIZE \<or> int DESC_SIZE \<le> j"
proof (induction buf i j rule: gw_desc.induct)
  case (1 buf i j)
  show ?case
  proof (cases "j < int DESC_SIZE - 1")
    case False
    then show ?thesis by (subst gw_desc.simps) auto
  next
    case True
    then have g: "arr_get buf i = Some (buf ! nat i)" using "1.prems" by simp
    show ?thesis
    proof (cases "buf ! nat i = NUL")
      case False
      with "1.IH" [OF True g False] "1.prems" True g show ?thesis by (subst gw_desc.simps) auto
    qed (use True g "1.prems" in \<open>subst gw_desc.simps, auto\<close>)
  qed
qed

lemma get_word_defined:
  assumes "length junk = BUFSIZE"
  shows "\<exists>w. get_word junk fp = Some w \<and>
    (case w of None \<Rightarrow> fp = [] | Some (key, d, rest) \<Rightarrow>
       length key < KEY_SIZE \<and> length d < DESC_SIZE \<and> length rest < length fp)"
proof (cases "fgets BUFSIZE fp")
  case None
  then have "fp = []" by (simp add: fgets_def Let_def split: if_splits)
  with None show ?thesis by (simp add: get_word_def)
next
  case (Some p)
  obtain line rest where p: "p = (line, rest)" by (cases p)
  have len: "length line < BUFSIZE" "length rest < length fp"
    using fgets_length [of BUFSIZE fp line rest] Some p by (auto simp: BUFSIZE_def)
  let ?buf = "line @ NUL # drop (length line + 1) junk"
  have b: "length ?buf = BUFSIZE" using len(1) assms by simp
  obtain ks i where k: "gw_key ?buf 0 = Some (ks, i)" "0 \<le> i" "i \<le> int KEY_SIZE - 1"
    using gw_key_bound [of 0 ?buf] b by (auto simp: KEY_SIZE_def BUFSIZE_def)
  have ks: "length ks < KEY_SIZE" using gw_key_length [OF k(1)] k by simp
  obtain ds where d: "gw_desc ?buf (i + 1) 0 = Some ds" "length ds < DESC_SIZE"
    using gw_desc_bound [of "i + 1" 0 ?buf] k b by (auto simp: KEY_SIZE_def DESC_SIZE_def BUFSIZE_def)
  have "length (cstr ks) \<le> length ks" by (simp add: cstr_def length_takeWhile_le)
  with Some p k d ks len show ?thesis by (auto simp: get_word_def)
qed

section \<open>Lookup after insertion\<close>

fun tr_ok :: "trie \<Rightarrow> bool" where
  "tr_ok Null = True"
| "tr_ok (Nd ch d) \<longleftrightarrow> length ch = 26 \<and> (\<forall>t \<in> set ch. tr_ok t)"

definition key_ok :: "string \<Rightarrow> bool" where
  "key_ok k \<longleftrightarrow> set k \<subseteq> set ''abcdefghijklmnopqrstuvwxyz''"

lemma key_ok_Cons: "key_ok (c # k) \<longleftrightarrow> c \<in> set ''abcdefghijklmnopqrstuvwxyz'' \<and> key_ok k"
  by (simp add: key_ok_def)

lemma letter_nth:
  assumes "key_ok (c # k)"
  shows "0 \<le> letter c" "letter c < 26" "nat (letter c) < 26"
proof -
  have "c \<in> set ''abcdefghijklmnopqrstuvwxyz''" using assms unfolding key_ok_Cons by (rule conjunct1)
  from letters [OF this] show "0 \<le> letter c" "letter c < 26" "nat (letter c) < 26" by auto
qed

lemma letter_inj: "nat (letter c) = nat (letter c') \<Longrightarrow> 0 \<le> letter c \<Longrightarrow> 0 \<le> letter c' \<Longrightarrow> c = c'"
proof -
  assume "nat (letter c) = nat (letter c')" "0 \<le> letter c" "0 \<le> letter c'"
  then have "letter c = letter c'" by (simp only: eq_nat_nat_iff)
  then show "c = c'" by (simp add: letter_def)
qed

lemma newnode_ok: "\<forall>n. \<not> f n \<Longrightarrow> newnode f = (Nd (replicate 26 Null) '''', \<lambda>n. f (Suc n))"
  by (simp add: newnode_def)

lemma tr_find_Null [simp]: "tr_find Null k = Some None"
  by (simp add: tr_find.simps)

lemma tr_find_Nd: "tr_find (Nd ch d) [] = Some (Some d)"
    "tr_find (Nd ch d) (c # k) = Option.bind (arr_get ch (letter c)) (\<lambda>t. tr_find t k)"
  by (simp_all add: tr_find.simps [of "Nd ch d"])

text \<open>What a lookup finds after an insertion: the path to the key now exists, with empty descriptions.\<close>

definition after_insert :: "string \<Rightarrow> string \<Rightarrow> trie \<Rightarrow> string \<Rightarrow> string option option" where
  "after_insert k d t k' =
     (if k' = k then Some (Some d)
      else if prefix k' k then map_option (\<lambda>r. Some (case r of None \<Rightarrow> '''' | Some x \<Rightarrow> x)) (tr_find t k')
      else tr_find t k')"

lemma fresh_child:
  assumes "key_ok (c # k)"
  shows "tr_find (Nd (replicate 26 Null) d) (c # k) = Some None"
  using letter_nth [OF assms] by (simp add: tr_find_Nd)

lemma tr_insert_find:
  "tr_ok t \<Longrightarrow> key_ok k \<Longrightarrow> length d < DESC_SIZE \<Longrightarrow> \<forall>n. \<not> f n \<Longrightarrow>
   \<exists>t' f'. tr_insert f t k d = Some (0, t', f') \<and> tr_ok t' \<and> (\<forall>n. \<not> f' n)
     \<and> (\<forall>k'. key_ok k' \<longrightarrow> tr_find t' k' = after_insert k d t k')"
proof (induction k arbitrary: t f)
  case Nil
  have "tr_find (Nd ch d) k' = after_insert [] d t k'"
    if "t = Null \<and> ch = replicate 26 Null \<or> (\<exists>de. t = Nd ch de)" "key_ok k'" for ch k'
    using that by (cases k') (auto simp: tr_find_Nd(1) after_insert_def fresh_child, simp add: tr_find_Nd)
  note find = this
  show ?case
  proof (cases t)
    case Null
    have "tr_insert f t [] d = Some (0, Nd (replicate 26 Null) d, \<lambda>n. f (Suc n))"
      using Nil.prems(3,4) by (subst tr_insert.simps) (simp add: Null newnode_ok [OF Nil.prems(4)])
    moreover have "tr_ok (Nd (replicate 26 Null) d)" by simp
    ultimately show ?thesis using Null Nil.prems(4) find [of "replicate 26 Null"] by blast
  next
    case (Nd ch de)
    have "tr_insert f t [] d = Some (0, Nd ch d, f)"
      using Nil.prems(3) by (subst tr_insert.simps) (simp add: Nd)
    moreover have "tr_ok (Nd ch d)" using Nil.prems(1) by (simp add: Nd)
    ultimately show ?thesis using Nd Nil.prems(4) find [of ch] by blast
  qed
next
  case (Cons c k)
  obtain ch de f1 where root: "(if t = Null then newnode f else (t, f)) = (Nd ch de, f1)" "\<forall>n. \<not> f1 n"
    "t = Null \<and> ch = replicate 26 Null \<and> de = '''' \<or> t = Nd ch de"
    using Cons.prems(4) by (cases t) (auto simp: newnode_ok)
  have ch: "length ch = 26" "\<forall>t \<in> set ch. tr_ok t" using root(3) Cons.prems(1) by auto
  note i = letter_nth [OF Cons.prems(2)]
  let ?n = "nat (letter c)"
  have g: "arr_get ch (letter c) = Some (ch ! ?n)" and st: "arr_set ch (letter c) v = Some (ch[?n := v])" for v
    using i ch by simp_all
  have sub: "tr_ok (ch ! ?n)" "key_ok k" using ch i Cons.prems(2) by (auto simp: key_ok_def)
  obtain t' f' where t': "tr_insert f1 (ch ! ?n) k d = Some (0, t', f')" "tr_ok t'" "\<forall>n. \<not> f' n"
    "\<And>k'. key_ok k' \<Longrightarrow> tr_find t' k' = after_insert k d (ch ! ?n) k'"
    using Cons.IH [OF sub Cons.prems(3) root(2)] by blast
  have res: "tr_insert f t (c # k) d = Some (0, Nd (ch[?n := t']) de, f')"
    using root(1) g st t'(1) by (simp add: tr_insert.simps [of f t])
  have "tr_ok (Nd (ch[?n := t']) de)" using ch t'(2) by (auto dest: set_update_subset_insert [THEN subsetD])
  moreover have "tr_find (Nd (ch[?n := t']) de) k' = after_insert (c # k) d t k'" if k': "key_ok k'" for k'
  proof (cases k')
    case Nil
    with root(3) show ?thesis by (auto simp: tr_find_Nd after_insert_def)
  next
    case (Cons c' k2)
    note i' = letter_nth [OF k' [unfolded Cons]]
    have old: "tr_find t k' = tr_find (ch ! nat (letter c')) k2"
      using root(3) i' ch by (auto simp: Cons tr_find_Nd)
    show ?thesis
    proof (cases "c' = c")
      case True
      have "key_ok k2" using k' by (simp only: Cons key_ok_Cons)
      with True old i ch t'(4) show ?thesis by (simp add: Cons tr_find_Nd after_insert_def)
    next
      case False
      then have "nat (letter c') \<noteq> ?n" using letter_inj i i' by blast
      with False old i' ch show ?thesis by (simp add: Cons tr_find_Nd after_insert_def)
    qed
  qed
  ultimately show ?case using res t'(3) by blast
qed

text \<open>Whatever a file holds, \<open>get_word\<close> stays within its buffer, consumes part of the file and
  delivers strings that fit the arrays of the caller; a line \<open>key:description\<close> with a key of letters
  delivers exactly the key and the description (with the line end).\<close>
theorem get_word_reads:
  assumes "length junk = BUFSIZE"
  shows "\<exists>w. get_word junk fp = Some w \<and>
    (case w of None \<Rightarrow> fp = [] | Some (key, d, rest) \<Rightarrow>
       length key < KEY_SIZE \<and> length d < DESC_SIZE \<and> length rest < length fp)"
    and "entry_ok e \<Longrightarrow> get_word junk (entry_line e @ rest) = Some (Some (fst e, snd e @ [NL], rest))"
  by (rule get_word_defined [OF assms], rule get_word_line)

lemma get_word_reads_witness:
  "get_word (replicate BUFSIZE NUL) (''cat:a small animal'' @ [NL] @ ''dog:x'')
     = Some (Some (''cat'', ''a small animal'' @ [NL], ''dog:x''))"
proof -
  have "entry_ok (''cat'', ''a small animal'')" by (simp add: entry_ok_def KEY_SIZE_def DESC_SIZE_def)
  from get_word_reads(2) [OF _ this, of "replicate BUFSIZE NUL" "''dog:x''"] show ?thesis
    by (simp add: entry_line_def)
qed

text \<open>In a trie with 26 children per node, inserting a key of letters makes the lookup of that key
  give its description; the lookup of a proper prefix of it no longer fails and gives what was there or the
  empty string; every other lookup is unchanged.\<close>
theorem trie_insert_find:
  assumes "tr_ok t" "key_ok k" "length d < DESC_SIZE" "\<forall>n. \<not> f n"
  shows "\<exists>t' f'. tr_insert f t k d = Some (0, t', f') \<and> tr_ok t'
    \<and> tr_find t' k = Some (Some d)
    \<and> (\<forall>k'. key_ok k' \<longrightarrow> strict_prefix k' k \<longrightarrow>
         tr_find t' k' = map_option (\<lambda>r. Some (case r of None \<Rightarrow> '''' | Some x \<Rightarrow> x)) (tr_find t k'))
    \<and> (\<forall>k'. key_ok k' \<longrightarrow> \<not> prefix k' k \<longrightarrow> tr_find t' k' = tr_find t k')"
proof -
  obtain t' f' where t': "tr_insert f t k d = Some (0, t', f')" "tr_ok t'"
    "\<And>k'. key_ok k' \<Longrightarrow> tr_find t' k' = after_insert k d t k'"
    using tr_insert_find [OF assms] by blast
  have "tr_find t' k = Some (Some d)" using t'(3) [OF assms(2)] by (simp add: after_insert_def)
  moreover have "tr_find t' k' = map_option (\<lambda>r. Some (case r of None \<Rightarrow> '''' | Some x \<Rightarrow> x)) (tr_find t k')"
    if "key_ok k'" "strict_prefix k' k" for k'
    using t'(3) [OF that(1)] that(2) by (simp add: after_insert_def strict_prefix_def)
  moreover have "tr_find t' k' = tr_find t k'" if "key_ok k'" "\<not> prefix k' k" for k'
    using t'(3) [OF that(1)] that(2) by (auto simp: after_insert_def)
  ultimately show ?thesis using t'(1,2) by blast
qed

lemma trie_insert_find_witness:
  "\<exists>t' f'. tr_insert (\<lambda>_. False) Null ''cat'' ''animal'' = Some (0, t', f')
     \<and> tr_find t' ''cat'' = Some (Some ''animal'') \<and> tr_find t' ''dog'' = Some None"
proof -
  have "key_ok ''cat''" "key_ok ''dog''" "\<not> prefix ''dog'' ''cat''" by (simp_all add: key_ok_def)
  moreover have "tr_ok Null" "length ''animal'' < DESC_SIZE" by (simp_all add: DESC_SIZE_def)
  ultimately show ?thesis
    using trie_insert_find [of Null "''cat''" "''animal''" "\<lambda>_. False"] by fastforce
qed

section \<open>The whole program\<close>

text \<open>
  What the entries of a file say about a key, over a trie \<open>t\<close> that was there before: the description
  of the last entry with the key, otherwise what \<open>t\<close> has, otherwise the empty string for a proper
  prefix of a key.
\<close>

definition dict :: "trie \<Rightarrow> (string \<times> string) list \<Rightarrow> string \<Rightarrow> string option" where
  "dict t es k =
     (case find (\<lambda>e. fst e = k) (rev es) of
        Some e \<Rightarrow> Some (snd e @ [NL])
      | None \<Rightarrow>
          (case the (tr_find t k) of
             Some d \<Rightarrow> Some d
           | None \<Rightarrow> if \<exists>e \<in> set es. prefix k (fst e) then Some '''' else None))"

lemma find_snoc: "find P (xs @ [x]) = (case find P xs of None \<Rightarrow> if P x then Some x else None | Some y \<Rightarrow> Some y)"
  by (induction xs) auto

lemma tr_find_defined: "tr_ok t \<Longrightarrow> key_ok k \<Longrightarrow> \<exists>r. tr_find t k = Some r"
proof (induction k arbitrary: t)
  case Nil
  then show ?case by (cases t) (auto simp: tr_find_Nd)
next
  case (Cons c k)
  show ?case
  proof (cases t)
    case (Nd ch d)
    note i = letter_nth [OF Cons.prems(2)]
    have "tr_ok (ch ! nat (letter c))" "key_ok k"
      using Cons.prems i Nd by (auto simp: key_ok_def)
    with Cons.IH i Nd Cons.prems show ?thesis by (simp add: tr_find_Nd)
  qed simp
qed

lemma dict_step:
  assumes "tr_find t k = Some r" "tr_find t' k = after_insert (fst e) (snd e @ [NL]) t k"
  shows "dict t' es k = dict t (e # es) k"
  using assms by (auto simp: dict_def find_snoc after_insert_def split: option.splits)

lemma tr_read_entries:
  "\<forall>e \<in> set es. entry_ok e \<Longrightarrow> tr_ok t \<Longrightarrow> \<forall>n. \<not> f n \<Longrightarrow>
   \<exists>t'. tr_read junk f t (concat (map entry_line es)) = Some t' \<and> tr_ok t'
     \<and> (\<forall>k. key_ok k \<longrightarrow> tr_find t' k = Some (dict t es k))"
proof (induction es arbitrary: t f)
  case Nil
  have "get_word j [] = Some None" for j by (simp add: get_word_def fgets_def)
  then have "tr_read junk f t [] = Some t" by (subst tr_read.simps) simp
  moreover have "tr_find t k = Some (dict t [] k)" if "key_ok k" for k
    using tr_find_defined [OF Nil.prems(2) that] by (auto simp: dict_def split: option.splits)
  ultimately show ?case using Nil.prems(2) by simp
next
  case (Cons e es)
  have ok: "entry_ok e" using Cons.prems(1) by simp
  then have e: "key_ok (fst e)" "length (snd e @ [NL]) < DESC_SIZE"
    unfolding entry_ok_def key_ok_def by simp_all
  obtain t1 f1 where t1: "tr_insert f t (fst e) (snd e @ [NL]) = Some (0, t1, f1)" "tr_ok t1" "\<forall>n. \<not> f1 n"
    "\<And>k. key_ok k \<Longrightarrow> tr_find t1 k = after_insert (fst e) (snd e @ [NL]) t k"
    using tr_insert_find [OF Cons.prems(2) e Cons.prems(3)] by blast
  obtain t' where t': "tr_read junk f1 t1 (concat (map entry_line es)) = Some t'" "tr_ok t'"
    "\<And>k. key_ok k \<Longrightarrow> tr_find t' k = Some (dict t1 es k)"
    using Cons.IH [OF _ t1(2,3)] Cons.prems(1) by (meson list.set_intros(2))
  have "tr_read junk f t (concat (map entry_line (e # es))) = Some t'"
    using t'(1) t1(1) by (subst tr_read.simps) (simp add: get_word_line [OF ok])
  moreover have "tr_find t' k = Some (dict t (e # es) k)" if "key_ok k" for k
    using t'(3) [OF that] tr_find_defined [OF Cons.prems(2) that] dict_step t1(4) [OF that] by fastforce
  ultimately show ?case using t'(2) by blast
qed

text \<open>On a file of lines \<open>key:description\<close>, when \<open>tree\<close> happens to start as \<open>NULL\<close> and
  memory is available, the program looks \<open>donkey\<close> up in the file: it prints the description of the last
  line with that key, an empty line when the key is only a proper prefix of another key, and the message
  otherwise; without a file it exits with 1.\<close>
theorem trie_main_looks_up:
  assumes "\<forall>e \<in> set es. entry_ok e" "\<forall>n. \<not> f n"
  shows "(tr_main junk f Null (Some (concat (map entry_line es))) =
      Some (0, case find (\<lambda>e. fst e = ''donkey'') (rev es) of
        Some e \<Rightarrow> Some (snd e @ [NL])
      | None \<Rightarrow> if \<exists>e \<in> set es. prefix ''donkey'' (fst e) then Some '''' else None))
    \<and> (tr_main junk f Null None = Some (1, None))"
proof (intro conjI)
  have k: "key_ok ''donkey''" by (simp add: key_ok_def)
  obtain t' where t': "tr_read junk f Null (concat (map entry_line es)) = Some t'"
    "tr_find t' ''donkey'' = Some (dict Null es ''donkey'')"
    using tr_read_entries [OF assms(1) tr_ok.simps(1) [THEN iffD2, OF TrueI] assms(2)] k by blast
  then show "tr_main junk f Null (Some (concat (map entry_line es))) =
      Some (0, case find (\<lambda>e. fst e = ''donkey'') (rev es) of
        Some e \<Rightarrow> Some (snd e @ [NL])
      | None \<Rightarrow> if \<exists>e \<in> set es. prefix ''donkey'' (fst e) then Some '''' else None)"
    by (auto simp: tr_main_def dict_def split: option.split)
  show "tr_main junk f Null None = Some (1, None)" by (simp add: tr_main_def)
qed

lemma trie_main_looks_up_witness:
  "tr_main (\<lambda>_. replicate 512 NUL) (\<lambda>_. False) Null
     (Some (entry_line (''donkey'', ''an animal'') @ entry_line (''door'', ''a way in'')))
   = Some (0, Some (''an animal'' @ [NL]))"
proof -
  have "\<forall>e \<in> set [(''donkey'', ''an animal''), (''door'', ''a way in'')]. entry_ok e"
    by (simp add: entry_ok_def KEY_SIZE_def DESC_SIZE_def)
  from trie_main_looks_up [OF this, of "\<lambda>_. False" "\<lambda>_. replicate 512 NUL", THEN conjunct1] show ?thesis by simp
qed

end
