(* ===== verification/Spec2Isabelle.thy ===== *)
theory Spec2Isabelle
  imports Abcd
    AnyTimer
    AnyTimerMain
    ArrMains
    ArrQueue
    ArrStack
    BTree
    BTreeMain
    BallClock
    ByteOrder
    CHeap
    Compute
    CopyLoops
    Daemon
    Datagram
    Decimal
    DiskUsage
    FileCount
    FileTools
    Interfaces
    Josephus
    KList
    Kernel
    LList
    LListData
    Lines
    ListAdt
    ListMains
    MsgBasic
    MsgFtp
    MySem
    Poly
    PoolProgram
    Prelude
    PrimeArgs
    PrimePool
    PrimeProc
    PrimeTest
    Pthread
    Relay
    RelayFsm
    RelayPoll
    RelayProgram
    RelaySelect
    Relayer
    SList
    ServerPool
    Shell
    SignalDemo
    SlotTable
    SqList
    StdioFork
    StreamServers
    TokenBucket
    TokenBucketVariants
    TreeFile
    Trie
begin

text \<open>
  A verification library for the programs of this repository: a course on C in two halves, data structures
  (directory \<open>ds\<close> under the first directory of \<open>src\<close>) and Linux system programming (\<open>src/linux_c\<close>, here
  \<open>LC\<close>). The programs are independent of each other; what they share is the data structures, the relay
  state machine, the token bucket library and the table of jobs, and these are shared here as well.

  How the code is modelled. A C function is a HOL function; \<open>None\<close> is undefined behaviour (null or dangling
  pointer, index out of range, signed overflow where the code can reach it) or a loop that does not end. Return
  codes are values, output parameters are threaded through, what a program prints is a list. A program that
  may call \<open>exit\<close> in the middle has an \<open>outcome\<close>. Loops are structural recursion, \<open>function\<close> with a measure, or
  \<open>partial_function (option)\<close>; then that they return is a theorem of its own. System calls are answered by
  scripts: a list of the results the kernel gives, quantified over in every theorem.

  Shared theories.
  \<^item> \<open>Prelude\<close>: C integers, bounds-checked arrays, error numbers, loops.
  \<^item> \<open>Interfaces\<close>: the contracts of stacks and queues as locales (\<open>stack_ops\<close>, \<open>bounded_stack\<close>, \<open>queue_ops\<close>, ...),
    with what follows for sequences of operations. They are interpreted in \<open>ArrStack\<close>, \<open>ArrQueue\<close> and \<open>ListAdt\<close>; the
    ball clock and the level-order traversal of the tree rest on them.
  \<^item> \<open>CHeap\<close>: the heap of the list programs: allocation, cells, list segments, rings.
  \<^item> \<open>Kernel\<close>: descriptors, \<open>read\<close> and \<open>write\<close> with short counts, \<open>EAGAIN\<close> and errors.
  \<^item> \<open>SlotTable\<close>: the tables of pointers with "first free position", used by three libraries (one search
    function and its lemmas).
  \<^item> \<open>Pthread\<close>: systems of threads with mutexes and condition variables under every scheduling; the locale
    \<open>monitor\<close> gives mutual exclusion, the locale \<open>annotated\<close> proves an invariant from assertions at the
    instructions of each thread; both are interpreted by the programs built that way.
  \<^item> \<open>Decimal\<close>: what \<open>printf\<close> and \<open>scanf\<close> do with decimal numbers, and that they are inverse; \<open>ByteOrder\<close>: objects
    in the memory of a host of either byte order and \<open>htonl\<close>, \<open>ntohl\<close>, ... (the locale \<open>field_codec\<close>). \<open>Lines\<close>: \<open>fgets\<close>.

  Data structures.
  \<^item> \<open>ArrStack\<close>, \<open>ArrQueue\<close>: \<open>ds/line/stack/arr\<close>, \<open>ds/line/squeue/arr\<close> (invariant, every branch, order of elements).
  \<^item> \<open>SqList\<close>: the sequential list \<open>ds/line/list/arr\<close>.
  \<^item> \<open>LList\<close>: the generic doubly linked list of \<open>double/lib2\<close> (also \<open>lib3\<close> and \<open>lib4\<close>, and the copies used by the
    stack and the queue) as rings on the heap; \<open>ListAdt\<close>: the stack and the queue over it; \<open>LListData\<close>: the first
    version, \<open>double/lib1\<close>, whose nodes hold a pointer. \<open>KList\<close>: the intrusive list of \<open>double/kernel\<close> and its program.
  \<^item> \<open>SList\<close>: the singly linked lists with and without a head node; \<open>Josephus\<close>, \<open>Poly\<close>: the two programs over
    hand-made lists, each shown to do what its counterpart on HOL lists does.
  \<^item> \<open>BTree\<close>: the search tree of \<open>ds/tree/btree/main.c\<close> (insert, find, balance by rotations, delete, the
    level-order traversal); \<open>Trie\<close>: \<open>ds/tree/retrieval\<close>; \<open>TreeFile\<close>: writing and reading a tree, a round trip.
    \<open>BTreeMain\<close>: the program over the search tree.
  \<^item> \<open>ListMains\<close>, \<open>ArrMains\<close>: the programs that come with the lists, stacks and queues, with what they print; the locale
    \<open>list_client\<close> states what they need of a list library and is interpreted on both kinds of library.
  \<^item> \<open>BallClock\<close>: \<open>ds/line/ball_clock\<close>, whose main loop is shown to stop with the printed number.

  System programs.
  \<^item> \<open>RelayFsm\<close>: the state machine of the relays (\<open>LC/io/adv/nonblock/relay.c\<close>); \<open>Relay\<close>, \<open>RelaySelect\<close>,
    \<open>RelayPoll\<close>: the four programs that drive two machines (busy polling, \<open>select\<close>, \<open>poll\<close>, \<open>epoll\<close>): the bytes
    written are at all times a prefix of the bytes read, and both directions are complete when the program ends;
    \<open>Relayer\<close>: the library with many relays in a table; \<open>RelayProgram\<close>: the program over it, whose thread and whose
    \<open>main\<close> interleave in every way.
  \<^item> \<open>TokenBucket\<close>, \<open>TokenBucketVariants\<close>: the three token bucket libraries (\<open>LC/parallel/signal/mytbf\<close>,
    \<open>mytbf_sa\<close>, \<open>LC/parallel/thread/posix/mytbf_mt\<close>): the rate bound, and that the versions agree.
  \<^item> \<open>CopyLoops\<close>: the copying loops with and without a rate limit.
  \<^item> \<open>AnyTimer\<close>: the timer library (when exactly a callback runs); \<open>AnyTimerMain\<close>: its state stays well-formed under all
    operations, and its program.
  \<^item> \<open>SignalDemo\<close>: the programs of \<open>LC/parallel/signal\<close> that print lines while signals arrive (\<open>star.c\<close>, \<open>block.c\<close>,
    \<open>susp.c\<close>, \<open>susp_rt.c\<close>): masks, pending signals, \<open>sigsuspend\<close>; the locale \<open>sig_lines\<close> for a repeated line.
  \<^item> \<open>Daemon\<close>: the two daemons as step relations with failing calls and signals at any moment.
  \<^item> \<open>Abcd\<close>: the two programs with four threads that take turns (\<open>LC/parallel/thread/posix/abcd.c\<close>, \<open>abcd_e.c\<close>).
  \<^item> \<open>PrimeTest\<close>: the loop that tests a number, shared by the programs that print primes; \<open>PrimePool\<close>: a pool of
    threads that takes numbers from one shared variable (with a condition variable or polling); \<open>MySem\<close>: the
    counting semaphore library and its program, and the program with one thread per number; \<open>PrimeProc\<close>: the
    programs with processes. In every one each prime of the range is printed once, and nothing else is.
    \<open>PrimeArgs\<close>: the version whose threads get allocated arguments and give them back.
  \<^item> \<open>FileCount\<close>: the programs in which twenty threads or processes increment the number in a file under a lock
    (a mutex, \<open>lockf\<close>, a System V semaphore); uses \<open>Decimal\<close>.
  \<^item> \<open>MsgFtp\<close>: the client and the server of the file protocol over a message queue (also the copy in \<open>myftp_udp\<close>), as two state machines and the
    queue between them.
  \<^item> \<open>Datagram\<close>: the senders and receivers of \<open>LC/ipc/socket/dgram\<close> over \<open>ByteOrder\<close>: what is sent is what is
    printed, on hosts of any byte orders, and which sizes the programs refuse or cut.
  \<^item> \<open>StreamServers\<close>: the time servers of \<open>LC/ipc/socket/stream\<close> with one process, a process per connection and a
    fixed pool, which give the same answers, and their clients.
  \<^item> \<open>ServerPool\<close>: the control loop of the preforked server \<open>pool_dynamic\<close> (counting, adding and removing servers);
    \<open>PoolProgram\<close>: the whole program, a parent and its children over the shared table, with signals.
  \<^item> \<open>Compute\<close>: the evaluator of arithmetic expressions (\<open>ds/line/compute\<close>) over two array stacks; it computes
    the value that a recursive grammar assigns to the expression.

  \<^item> \<open>Shell\<close>: the shell \<open>LC/process_basic/sh.c\<close> from the line to the words that are executed; \<open>DiskUsage\<close>: the two programs that add up
    a directory tree; \<open>FileTools\<close>: the character copy, the numbered log and the count in mapped memory.
  \<^item> \<open>StdioFork\<close>: programs that print around \<open>fork\<close> and \<open>exec\<close>, with the buffer of the stream; \<open>MsgBasic\<close>: the receiver
    and the senders of \<open>LC/ipc/xsi/msg/basic\<close> over the queue.

  Fuel and bounds. The only definition with fuel is the exploration \<open>outcomes\<close> of \<open>StdioFork\<close>: running out is the outcome \<open>None\<close>,
  and the lemmas give the sets of outcomes, in which it does not occur. Scripts are finite where a loop ends with its script (the relays end
  when the scripts give end of file or an error to both machines), and infinite (\<open>nat \<Rightarrow> _\<close>) where the code asks the
  environment without bound. The capacity of the array stack is a parameter, since the same text is compiled with
  three values; every other capacity is the constant of the source.

  Not modelled: the programs that do not compile (the pipe of \<open>LC/parallel/thread/posix/mypipe\<close>, \<open>getopt_100day.c\<close>,
  \<open>fileshared.c\<close>, \<open>123.c\<close>, \<open>pipe.c\<close>, \<open>getline.c\<close>), and those that make a few calls of the C library or
  the kernel in a straight line and keep no state (the demos of shared memory, thread creation, \<open>dup\<close>, \<open>glob\<close>, \<open>readdir\<close>,
  \<open>strftime\<close>, \<open>crypt\<close>, the five second counters). Set-up of signals and sockets is left out of the modelled programs where it
  keeps no state; so is the text of most error messages.
\<close>

end
